(* ===== verification/Ordered_Map.thy ===== *)
theory Ordered_Map
  imports Prelude
begin

text \<open>
  The finite maps of the Rust sources. \<open>BTreeMap<K, V>\<close> is a finite map iterated in ascending
  key order; \<open>HashMap<K, V>\<close> is a finite map whose iteration order is unspecified. Both are
  the type \<open>omap\<close>: lists of entries with strictly ascending keys, so that equal maps are
  equal values and iteration follows the key order. Where the code iterates a \<open>HashMap\<close>, the
  component theory shows that the result does not depend on the order.

  The locale \<open>finite_map\<close> is the interface the components rely on (what a lookup returns
  after an insert, a removal, a retain), with the client lemmas proved from it; the
  interpretation \<open>om\<close> discharges it for \<open>omap\<close>.
\<close>

typedef (overloaded) ('k::linorder, 'v) omap = "{xs :: ('k \<times> 'v) list. sorted_wrt (<) (map fst xs)}"
  morphisms entries Abs_omap
  by (rule exI [of _ "[]"]) simp

setup_lifting type_definition_omap

text \<open>Operations on ascending entry lists.\<close>

fun put_list :: "'k::linorder \<Rightarrow> 'v \<Rightarrow> ('k \<times> 'v) list \<Rightarrow> ('k \<times> 'v) list" where
  "put_list k v [] = [(k, v)]"
| "put_list k v ((k', v') # xs) =
     (if k < k' then (k, v) # (k', v') # xs
      else if k = k' then (k, v) # xs
      else (k', v') # put_list k v xs)"

lemma set_fst_put_list: "fst ` set (put_list k v xs) = insert k (fst ` set xs)"
  by (induction k v xs rule: put_list.induct) auto

lemma sorted_put_list:
  "sorted_wrt (<) (map fst xs) \<Longrightarrow> sorted_wrt (<) (map fst (put_list k v xs))"
proof (induction k v xs rule: put_list.induct)
  case (2 k v k' v' xs)
  have "\<And>a. a \<in> fst ` set (put_list k v xs) \<Longrightarrow> a = k \<or> a \<in> fst ` set xs"
    by (auto simp: set_fst_put_list)
  with 2 show ?case by (fastforce simp: image_iff)
qed simp

lemma map_of_put_list:
  "sorted_wrt (<) (map fst xs) \<Longrightarrow> map_of (put_list k v xs) = (map_of xs)(k \<mapsto> v)"
proof (induction k v xs rule: put_list.induct)
  case (2 k v k' v' xs)
  then show ?case by (auto simp: fun_eq_iff)
qed simp

lemma sorted_map_filter: "sorted_wrt (<) (map fst xs) \<Longrightarrow> sorted_wrt (<) (map fst (filter P xs))"
  by (induction xs) auto

lift_definition oempty :: "('k::linorder, 'v) omap" is "[]" by simp

lift_definition oget :: "('k::linorder, 'v) omap \<Rightarrow> 'k \<Rightarrow> 'v option" is "map_of" .

lift_definition oput :: "'k::linorder \<Rightarrow> 'v \<Rightarrow> ('k, 'v) omap \<Rightarrow> ('k, 'v) omap" is put_list
  by (rule sorted_put_list)

lift_definition oretain :: "('k::linorder \<Rightarrow> 'v \<Rightarrow> bool) \<Rightarrow> ('k, 'v) omap \<Rightarrow> ('k, 'v) omap"
  is "\<lambda>P. filter (\<lambda>(k, v). P k v)"
  by (rule sorted_map_filter)

lift_definition omap_values :: "('k::linorder \<Rightarrow> 'v \<Rightarrow> 'w) \<Rightarrow> ('k, 'v) omap \<Rightarrow> ('k, 'w) omap"
  is "\<lambda>f. map (\<lambda>(k, v). (k, f k v))"
  by (simp add: case_prod_unfold comp_def)

definition odel :: "'k::linorder \<Rightarrow> ('k, 'v) omap \<Rightarrow> ('k, 'v) omap" where
  "odel k = oretain (\<lambda>k' _. k' \<noteq> k)"

definition okeys :: "('k::linorder, 'v) omap \<Rightarrow> 'k list" where
  "okeys m = map fst (entries m)"

definition ovalues :: "('k::linorder, 'v) omap \<Rightarrow> 'v list" where
  "ovalues m = map snd (entries m)"

definition olen :: "('k::linorder, 'v) omap \<Rightarrow> nat" where
  "olen m = length (entries m)"

definition ohas :: "('k::linorder, 'v) omap \<Rightarrow> 'k \<Rightarrow> bool" where
  "ohas m k \<longleftrightarrow> oget m k \<noteq> None"

text \<open>\<open>map.entry(k).or_insert(v)\<close> and \<open>map.get_mut(k)\<close> followed by an assignment.\<close>

definition oor_insert :: "'k::linorder \<Rightarrow> 'v \<Rightarrow> ('k, 'v) omap \<Rightarrow> ('k, 'v) omap" where
  "oor_insert k v m = (if ohas m k then m else oput k v m)"

definition oupdate :: "'k::linorder \<Rightarrow> ('v \<Rightarrow> 'v) \<Rightarrow> ('k, 'v) omap \<Rightarrow> ('k, 'v) omap" where
  "oupdate k f m = (case oget m k of None \<Rightarrow> m | Some v \<Rightarrow> oput k (f v) m)"

definition oof_list :: "('k::linorder \<times> 'v) list \<Rightarrow> ('k, 'v) omap" where
  "oof_list kvs = fold (\<lambda>(k, v). oput k v) kvs oempty"

subsection \<open>Lookups after updates\<close>

lemma sorted_entries: "sorted_wrt (<) (map fst (entries m))"
  by transfer

lemma distinct_entries [simp]: "distinct (map fst (entries m))"
  using sorted_entries strict_sorted_iff by blast

lemma entries_oempty [simp]: "entries oempty = []"
  by transfer simp

lemma entries_oput [simp]: "entries (oput k v m) = put_list k v (entries m)"
  by transfer simp

lemma entries_oretain [simp]: "entries (oretain P m) = filter (\<lambda>(k, v). P k v) (entries m)"
  by transfer simp

lemma entries_omap_values [simp]: "entries (omap_values f m) = map (\<lambda>(k, v). (k, f k v)) (entries m)"
  by transfer simp

lemma oget_entries: "oget m k = map_of (entries m) k"
  by transfer simp

lemma oget_oempty [simp]: "oget oempty k = None"
  by transfer simp

lemma oget_oput: "oget (oput k v m) k' = (if k' = k then Some v else oget m k')"
  by transfer (simp add: map_of_put_list)

lemma map_of_filter_sorted:
  "distinct (map fst xs) \<Longrightarrow>
   map_of (filter (\<lambda>(k, v). P k v) xs) k =
     (case map_of xs k of None \<Rightarrow> None | Some v \<Rightarrow> if P k v then Some v else None)"
proof (induction xs)
  case (Cons x xs)
  then show ?case
    by (cases x) (auto simp: map_of_eq_None_iff split: option.splits dest: map_of_SomeD)
qed simp

lemma oget_oretain:
  "oget (oretain P m) k = (case oget m k of None \<Rightarrow> None | Some v \<Rightarrow> if P k v then Some v else None)"
  by (simp add: oget_entries map_of_filter_sorted)

lemma oget_odel: "oget (odel k m) k' = (if k' = k then None else oget m k')"
  by (simp add: odel_def oget_oretain split: option.splits)

lemma map_of_map_values: "map_of (map (\<lambda>(k, v). (k, f k v)) xs) k = map_option (f k) (map_of xs k)"
  by (induction xs) auto

lemma oget_omap_values: "oget (omap_values f m) k = map_option (f k) (oget m k)"
  by (simp add: oget_entries map_of_map_values)

lemma in_entries_iff: "(k, v) \<in> set (entries m) \<longleftrightarrow> oget m k = Some v"
  by (simp add: oget_entries)

lemma set_okeys: "set (okeys m) = {k. ohas m k}"
  by (auto simp: okeys_def ohas_def oget_entries image_iff dest: map_of_SomeD
      simp flip: map_of_eq_None_iff) (metis domIff map_of_SomeD not_Some_eq fst_conv)+

lemma in_ovalues_iff: "v \<in> set (ovalues m) \<longleftrightarrow> (\<exists>k. oget m k = Some v)"
  by (force simp: ovalues_def simp flip: in_entries_iff)

lemma finite_ohas [simp]: "finite {k. ohas m k}"
  by (metis List.finite_set set_okeys)

lemma distinct_okeys [simp]: "distinct (okeys m)"
  by (simp add: okeys_def)

lemma sorted_okeys: "sorted_wrt (<) (okeys m)"
  unfolding okeys_def by (rule sorted_entries)

lemma olen_okeys: "olen m = card {k. ohas m k}"
  by (metis distinct_card distinct_okeys length_map okeys_def olen_def set_okeys)

lemma ohas_oput [simp]: "ohas (oput k v m) k' \<longleftrightarrow> k' = k \<or> ohas m k'"
  by (simp add: ohas_def oget_oput)

lemma ohas_oempty [simp]: "\<not> ohas oempty k"
  by (simp add: ohas_def)

lemma ohas_iff_Some: "ohas m k \<longleftrightarrow> (\<exists>v. oget m k = Some v)"
  by (simp add: ohas_def)

lemma oget_oor_insert:
  "oget (oor_insert k v m) k' = (if k' = k \<and> oget m k = None then Some v else oget m k')"
  by (auto simp: oor_insert_def ohas_def oget_oput)

lemma oget_oupdate: "oget (oupdate k f m) k' = (if k' = k then map_option f (oget m k) else oget m k')"
  by (auto simp: oupdate_def oget_oput split: option.splits)

lemmas oget_simps = oget_oput oget_oretain oget_odel oget_omap_values oget_oor_insert oget_oupdate

text \<open>Equal lookups make equal maps: the entry lists are canonical.\<close>

lemma sorted_keys_unique:
  assumes "sorted_wrt (<) (map fst xs)" and "sorted_wrt (<) (map fst ys)" and "map_of xs = map_of ys"
  shows "xs = (ys :: ('k::linorder \<times> 'v) list)"
proof -
  have d: "distinct (map fst xs)" "distinct (map fst ys)"
    using assms(1,2) strict_sorted_iff by blast+
  then have s: "set xs = set ys"
    using assms(3) map_of_inject_set by blast
  have "sorted (map fst xs)" "sorted (map fst ys)"
    using assms(1,2) strict_sorted_iff by blast+
  moreover have "inj_on fst (set xs \<union> set ys)"
    using d(1) s by (simp add: distinct_map)
  moreover have "distinct xs" "distinct ys"
    using d by (simp_all add: distinct_map)
  ultimately show ?thesis
    using s d by (metis map_sorted_distinct_set_unique)
qed

lemma omap_eqI:
  assumes "\<And>k. oget m k = oget m' k"
  shows "m = m'"
proof -
  have "map_of (entries m) = map_of (entries m')"
    using assms by (simp add: oget_entries fun_eq_iff)
  then have "entries m = entries m'"
    by (intro sorted_keys_unique sorted_entries)
  then show ?thesis by (simp add: entries_inject)
qed

lemma oretain_True: "(\<And>k v. oget m k = Some v \<Longrightarrow> P k v) \<Longrightarrow> oretain P m = m"
  by (rule omap_eqI) (simp add: oget_oretain split: option.splits)

lemma olen_oretain_eq: "olen (oretain P m) = olen m \<longleftrightarrow> oretain P m = m"
proof
  assume "olen (oretain P m) = olen m"
  then have "length (filter (\<lambda>(k, v). P k v) (entries m)) = length (entries m)"
    by (simp add: olen_def)
  then have "\<forall>x\<in>set (entries m). case x of (k, v) \<Rightarrow> P k v"
    by (metis (no_types, lifting) filter_id_conv length_filter_less less_irrefl)
  then show "oretain P m = m"
    by (intro oretain_True) (auto simp flip: in_entries_iff)
qed simp

subsection \<open>The interface the components use\<close>

locale finite_map =
  fixes empty :: "'m"
    and get :: "'m \<Rightarrow> 'k \<Rightarrow> 'v option"
    and put :: "'k \<Rightarrow> 'v \<Rightarrow> 'm \<Rightarrow> 'm"
    and del :: "'k \<Rightarrow> 'm \<Rightarrow> 'm"
    and retain :: "('k \<Rightarrow> 'v \<Rightarrow> bool) \<Rightarrow> 'm \<Rightarrow> 'm"
  assumes get_empty: "get empty k = None"
    and get_put: "get (put k v m) k' = (if k' = k then Some v else get m k')"
    and get_del: "get (del k m) k' = (if k' = k then None else get m k')"
    and get_retain: "get (retain P m) k = (case get m k of None \<Rightarrow> None | Some v \<Rightarrow> if P k v then Some v else None)"
    and get_ext: "(\<And>k. get m k = get m' k) \<Longrightarrow> m = m'"
begin

text \<open>Collecting an iterator of pairs: a later pair with the same key wins.\<close>

lemma get_fold_put: "get (fold (\<lambda>(k, v). put k v) kvs m) k = (case map_of (rev kvs) k of None \<Rightarrow> get m k | Some v \<Rightarrow> Some v)"
  by (induction kvs arbitrary: m) (auto simp: get_put map_add_def split: option.splits)

lemma get_fold_put_empty: "get (fold (\<lambda>(k, v). put k v) kvs empty) = map_of (rev kvs)"
  by (rule ext) (simp add: get_fold_put get_empty split: option.splits)

lemma put_overwrite: "put k v (put k w m) = put k v m"
  by (rule get_ext) (simp add: get_put)

lemma put_commute: "k \<noteq> k' \<Longrightarrow> put k v (put k' w m) = put k' w (put k v m)"
  by (rule get_ext) (simp add: get_put)

lemma del_put: "get m k = None \<Longrightarrow> del k (put k v m) = m"
  by (rule get_ext) (auto simp: get_put get_del)

text \<open>Two retains are one: a second prune cannot bring an entry back.\<close>

lemma retain_retain: "retain P (retain Q m) = retain (\<lambda>k v. P k v \<and> Q k v) m"
  by (rule get_ext) (simp add: get_retain split: option.splits)

lemma retain_put: "get m k = None \<Longrightarrow> retain P (put k v m) = (if P k v then put k v (retain P m) else retain P m)"
  by (rule get_ext) (auto simp: get_retain get_put split: option.splits)

end

interpretation om: finite_map oempty oget oput odel oretain
  by unfold_locales (simp_all add: oget_oput oget_odel oget_oretain omap_eqI)

lemma oget_oof_list: "oget (oof_list kvs) = map_of (rev kvs)"
  unfolding oof_list_def by (rule om.get_fold_put_empty)

end
