(* ===== verification/Consensus_Types.thy ===== *)
theory Consensus_Types
  imports Ordered_Map
begin

text \<open>
  The value types of \<open>shared-rs/consensus/src/types.rs\<close>, \<open>peer.rs\<close> and the \<open>EbKey\<close> of
  \<open>mempool.rs\<close>: points, tips, votes, peer ids and endorser-block keys, with the orders their
  \<open>derive(PartialOrd, Ord)\<close> gives them (constructors in declaration order, then fields in
  declaration order). \<open>PeerId\<close> is its \<open>u64\<close>.
\<close>

type_synonym peer_id = u64

datatype point = Origin | Specific (pt_slot: u64) (pt_hash: hash32)

record tip =
  tip_point :: point
  tip_block_no :: u64

record vote =
  vt_announcing_rb_hash :: hash32
  vt_voter_id :: u16
  vt_vote_signature :: "u8 list"

datatype eb_key = EbKey (ebk_slot: u64) (ebk_hash: hash32)

fun get_slot :: "point \<Rightarrow> u64 option" where
  "get_slot Origin = None"
| "get_slot (Specific slot _) = Some slot"

fun get_hash :: "point \<Rightarrow> hash32 option" where
  "get_hash Origin = None"
| "get_hash (Specific _ hash) = Some hash"

instantiation point :: linorder
begin

fun less_eq_point :: "point \<Rightarrow> point \<Rightarrow> bool" where
  "less_eq_point Origin q \<longleftrightarrow> True"
| "less_eq_point (Specific s h) Origin \<longleftrightarrow> False"
| "less_eq_point (Specific s h) (Specific s' h') \<longleftrightarrow> s < s' \<or> s = s' \<and> h \<le> h'"

definition less_point :: "point \<Rightarrow> point \<Rightarrow> bool" where
  "less_point p q \<longleftrightarrow> p \<le> q \<and> \<not> q \<le> p"

instance
proof
  fix p q r :: point
  show "p < q \<longleftrightarrow> p \<le> q \<and> \<not> q \<le> p" by (rule less_point_def)
  show "p \<le> p" by (cases p) auto
  show "p \<le> q \<Longrightarrow> q \<le> r \<Longrightarrow> p \<le> r" by (cases p; cases q; cases r) auto
  show "p \<le> q \<Longrightarrow> q \<le> p \<Longrightarrow> p = q" by (cases p; cases q) auto
  show "p \<le> q \<or> q \<le> p" by (cases p; cases q) auto
qed

end

instantiation eb_key :: linorder
begin

fun less_eq_eb_key :: "eb_key \<Rightarrow> eb_key \<Rightarrow> bool" where
  "less_eq_eb_key (EbKey s h) (EbKey s' h') \<longleftrightarrow> s < s' \<or> s = s' \<and> h \<le> h'"

definition less_eb_key :: "eb_key \<Rightarrow> eb_key \<Rightarrow> bool" where
  "less_eb_key a b \<longleftrightarrow> a \<le> b \<and> \<not> b \<le> a"

instance
proof
  fix a b c :: eb_key
  show "a < b \<longleftrightarrow> a \<le> b \<and> \<not> b \<le> a" by (rule less_eb_key_def)
  show "a \<le> a" by (cases a) auto
  show "a \<le> b \<Longrightarrow> b \<le> c \<Longrightarrow> a \<le> c" by (cases a; cases b; cases c) auto
  show "a \<le> b \<Longrightarrow> b \<le> a \<Longrightarrow> a = b" by (cases a; cases b) auto
  show "a \<le> b \<or> b \<le> a" by (cases a; cases b) auto
qed

end

lemma less_eb_key_iff: "EbKey s h < EbKey s' h' \<longleftrightarrow> s < s' \<or> s = s' \<and> h < h'"
  by (auto simp: less_eb_key_def)

lemma less_point_iff: "Specific s h < Specific s' h' \<longleftrightarrow> s < s' \<or> s = s' \<and> h < h'"
  by (auto simp: less_point_def)

end
