(* ===== verification/Chain_Tree.thy ===== *)
theory Chain_Tree
  imports Consensus_Types
begin

text \<open>
  \<open>shared-rs/consensus/src/chain_tree.rs\<close>: the forest of block headers, its blacklist and the
  cached best tip.

  The state is the record \<open>chain_tree\<close>; every method of \<open>ChainTree\<close> is one definition. The two
  loops that follow \<open>prev_hash\<close> (\<open>is_blacklisted\<close> and \<open>ancestors\<close>) have no bound in the source:
  a cycle of parent links would keep them running. They are \<open>partial_function (option)\<close>, so a
  method that calls them returns \<open>None\<close> exactly when the code would not return, and the
  theorems prove that they do return on trees whose block numbers grow from parent to child.

  The invariant \<open>tree_inv\<close> says that parents have smaller block numbers, that a node is stored
  under the hash of its point, and that \<open>best_tip\<close> is the best eligible node under
  \<open>is_better_tip\<close>; each mutating method preserves it.
\<close>

subsection \<open>Data\<close>

datatype chain_node_status = Normal | ChainStart

record chain_node =
  cn_point :: point
  cn_status :: chain_node_status
  cn_block_number :: u64
  cn_slot :: u64
  cn_prev_hash :: "hash32 option"
  cn_tx_count :: u32
  cn_announced_eb_hash :: "hash32 option"
  cn_cached_eb_tx_count :: "u32 option"
  cn_certified_eb :: bool

type_synonym best_tip_entry = "(point \<times> u64) option"

record chain_tree =
  ct_nodes :: "(hash32, chain_node) omap"
  ct_blacklist :: "hash32 set"
  ct_best_tip :: best_tip_entry

definition chain_tree_new :: chain_tree where
  "chain_tree_new = \<lparr>ct_nodes = oempty, ct_blacklist = {}, ct_best_tip = None\<rparr>"

subsection \<open>Queries\<close>

definition is_better_tip :: "u64 \<Rightarrow> hash32 \<Rightarrow> u64 \<Rightarrow> hash32 \<Rightarrow> bool" where
  "is_better_tip a_block_no a_hash b_block_no b_hash \<longleftrightarrow>
     (if a_block_no \<noteq> b_block_no then a_block_no > b_block_no else a_hash < b_hash)"

fun tip_entry_hash :: "best_tip_entry \<Rightarrow> hash32 option" where
  "tip_entry_hash (Some (Specific _ hash, _)) = Some hash"
| "tip_entry_hash _ = None"

definition best_tip_hash :: "chain_tree \<Rightarrow> hash32 option" where
  "best_tip_hash t = tip_entry_hash (ct_best_tip t)"

definition ct_block_number :: "chain_tree \<Rightarrow> hash32 \<Rightarrow> u64 option" where
  "ct_block_number t h = map_option cn_block_number (oget (ct_nodes t) h)"

definition ct_point :: "chain_tree \<Rightarrow> hash32 \<Rightarrow> point option" where
  "ct_point t h = map_option cn_point (oget (ct_nodes t) h)"

definition ct_prev_hash :: "chain_tree \<Rightarrow> hash32 \<Rightarrow> hash32 option" where
  "ct_prev_hash t h = (case oget (ct_nodes t) h of None \<Rightarrow> None | Some n \<Rightarrow> cn_prev_hash n)"

definition has_eb_if_certified :: "chain_tree \<Rightarrow> hash32 \<Rightarrow> point option" where
  "has_eb_if_certified t h =
     (case oget (ct_nodes t) h of None \<Rightarrow> None
      | Some current \<Rightarrow>
          if \<not> cn_certified_eb current then None
          else (case cn_prev_hash current of None \<Rightarrow> None
                | Some prev_hash \<Rightarrow>
                    (case oget (ct_nodes t) prev_hash of None \<Rightarrow> None
                     | Some prev_node \<Rightarrow>
                         if cn_cached_eb_tx_count prev_node = None
                         then map_option (\<lambda>eb. Specific (cn_slot prev_node) eb) (cn_announced_eb_hash prev_node)
                         else None)))"

definition is_chain_origin :: "chain_tree \<Rightarrow> hash32 \<Rightarrow> bool" where
  "is_chain_origin t h = (case oget (ct_nodes t) h of None \<Rightarrow> False | Some n \<Rightarrow> cn_status n = ChainStart)"

definition announced_eb_hash_by :: "chain_tree \<Rightarrow> hash32 \<Rightarrow> hash32 option" where
  "announced_eb_hash_by t h =
     (case oget (ct_nodes t) h of None \<Rightarrow> None | Some n \<Rightarrow> cn_announced_eb_hash n)"

definition announced_eb_key_by :: "chain_tree \<Rightarrow> hash32 \<Rightarrow> eb_key option" where
  "announced_eb_key_by t h =
     (case oget (ct_nodes t) h of None \<Rightarrow> None
      | Some n \<Rightarrow> map_option (EbKey (cn_slot n)) (cn_announced_eb_hash n))"

definition ct_len :: "chain_tree \<Rightarrow> nat" where
  "ct_len t = olen (ct_nodes t)"

definition ct_is_empty :: "chain_tree \<Rightarrow> bool" where
  "ct_is_empty t \<longleftrightarrow> entries (ct_nodes t) = []"

text \<open>The two walks along \<open>prev_hash\<close>. \<open>None\<close> is a walk that never ends.\<close>

partial_function (option) blacklist_walk :: "chain_tree \<Rightarrow> hash32 \<Rightarrow> bool option" where
  "blacklist_walk t h =
     (if h \<in> ct_blacklist t then Some True
      else case ct_prev_hash t h of None \<Rightarrow> Some False
           | Some prev \<Rightarrow> if \<not> ohas (ct_nodes t) prev then Some False else blacklist_walk t prev)"

definition is_blacklisted :: "chain_tree \<Rightarrow> hash32 \<Rightarrow> bool option" where
  "is_blacklisted t h = (if ct_blacklist t = {} then Some False else blacklist_walk t h)"

partial_function (option) ancestors_loop :: "chain_tree \<Rightarrow> hash32 list \<Rightarrow> hash32 \<Rightarrow> hash32 list option" where
  "ancestors_loop t chain h =
     (case oget (ct_nodes t) h of None \<Rightarrow> Some chain
      | Some n \<Rightarrow>
          (case cn_prev_hash n of None \<Rightarrow> Some chain
           | Some parent \<Rightarrow>
               if ohas (ct_nodes t) parent then ancestors_loop t (chain @ [parent]) parent else Some chain))"

definition ancestors :: "chain_tree \<Rightarrow> hash32 \<Rightarrow> hash32 list option" where
  "ancestors t h = ancestors_loop t [h] h"

subsection \<open>Updates\<close>

text \<open>The comparison that \<open>update_best_tip\<close> and \<open>recompute_best_tip\<close> make against the cached tip.\<close>

definition beats_best_tip :: "best_tip_entry \<Rightarrow> u64 \<Rightarrow> hash32 \<Rightarrow> bool" where
  "beats_best_tip best block_number h \<longleftrightarrow>
     (case best of None \<Rightarrow> True
      | Some (_, best_bn) \<Rightarrow>
          is_better_tip block_number h best_bn
            (case tip_entry_hash best of Some bh \<Rightarrow> bh | None \<Rightarrow> - 1))"

fun recompute_loop :: "chain_tree \<Rightarrow> (hash32 \<times> chain_node) list \<Rightarrow> best_tip_entry \<Rightarrow> best_tip_entry option" where
  "recompute_loop t [] best = Some best"
| "recompute_loop t ((h, node) # rest) best =
     do {
       bl \<leftarrow> is_blacklisted t h;
       recompute_loop t rest
         (if bl then best
          else if beats_best_tip best (cn_block_number node) h
               then Some (cn_point node, cn_block_number node) else best)
     }"

definition recompute_best_tip :: "chain_tree \<Rightarrow> chain_tree option" where
  "recompute_best_tip t =
     do {
       best \<leftarrow> recompute_loop t (entries (ct_nodes t)) None;
       Some (t\<lparr>ct_best_tip := best\<rparr>)
     }"

definition update_blacklist :: "chain_tree \<Rightarrow> hash32 list \<Rightarrow> chain_tree option" where
  "update_blacklist t blacklist =
     (if ct_blacklist t = set blacklist then Some t
      else recompute_best_tip (t\<lparr>ct_blacklist := set blacklist\<rparr>))"

definition update_best_tip :: "chain_tree \<Rightarrow> point \<Rightarrow> u64 \<Rightarrow> hash32 \<Rightarrow> (bool \<times> chain_tree) option" where
  "update_best_tip t p block_number h =
     do {
       bl \<leftarrow> is_blacklisted t h;
       if bl then
         do {
           tip_bl \<leftarrow> (case best_tip_hash t of None \<Rightarrow> Some False | Some tip \<Rightarrow> is_blacklisted t tip);
           t' \<leftarrow> (if tip_bl then recompute_best_tip t else Some t);
           Some (False, t')
         }
       else if beats_best_tip (ct_best_tip t) block_number h
       then Some (True, t\<lparr>ct_best_tip := Some (p, block_number)\<rparr>)
       else Some (False, t)
     }"

definition insert_chain_start :: "chain_tree \<Rightarrow> hash32 \<Rightarrow> point \<Rightarrow> u64 \<Rightarrow> u64 \<Rightarrow> (bool \<times> chain_tree) option" where
  "insert_chain_start t h p slot block_number =
     (if ohas (ct_nodes t) h then Some (False, t)
      else update_best_tip
             (t\<lparr>ct_nodes := oput h \<lparr>cn_point = p, cn_status = ChainStart, cn_block_number = block_number,
                                   cn_slot = slot, cn_prev_hash = None, cn_tx_count = 0,
                                   cn_announced_eb_hash = None, cn_cached_eb_tx_count = None,
                                   cn_certified_eb = False\<rparr> (ct_nodes t)\<rparr>)
             p block_number h)"

definition ct_insert ::
  "chain_tree \<Rightarrow> hash32 \<Rightarrow> point \<Rightarrow> u64 \<Rightarrow> u64 \<Rightarrow> hash32 option \<Rightarrow> u32 \<Rightarrow> hash32 option \<Rightarrow> bool
     \<Rightarrow> (bool \<times> chain_tree) option" where
  "ct_insert t h p block_number slot prev_hash tx_count announced_eb_hash certified_eb =
     (if ohas (ct_nodes t) h then Some (False, t)
      else update_best_tip
             (t\<lparr>ct_nodes := oput h \<lparr>cn_point = p, cn_status = Normal, cn_block_number = block_number,
                                   cn_slot = slot, cn_prev_hash = prev_hash, cn_tx_count = tx_count,
                                   cn_announced_eb_hash = announced_eb_hash, cn_cached_eb_tx_count = None,
                                   cn_certified_eb = certified_eb\<rparr> (ct_nodes t)\<rparr>)
             p block_number h)"

definition record_announced_eb_tx_count :: "chain_tree \<Rightarrow> hash32 \<Rightarrow> u32 \<Rightarrow> chain_tree" where
  "record_announced_eb_tx_count t eb_hash count =
     t\<lparr>ct_nodes := omap_values
         (\<lambda>_ node. if cn_announced_eb_hash node = Some eb_hash
                   then node\<lparr>cn_cached_eb_tx_count := Some count\<rparr> else node) (ct_nodes t)\<rparr>"

definition prune_below :: "chain_tree \<Rightarrow> u64 \<Rightarrow> chain_tree option" where
  "prune_below t min_block_number =
     (let pruned_blacklisted =
            (\<exists>(h, node) \<in> set (entries (ct_nodes t)).
               cn_block_number node < min_block_number \<and> h \<in> ct_blacklist t);
          t' = t\<lparr>ct_nodes := oretain (\<lambda>_ node. cn_block_number node \<ge> min_block_number) (ct_nodes t)\<rparr>;
          pruned = (case ct_best_tip t of Some (_, bn) \<Rightarrow> bn < min_block_number | None \<Rightarrow> False)
      in if pruned \<or> pruned_blacklisted then recompute_best_tip t' else Some t')"

definition remove_above :: "chain_tree \<Rightarrow> u64 \<Rightarrow> chain_tree option" where
  "remove_above t block_number =
     (let t' = t\<lparr>ct_nodes := oretain (\<lambda>_ node. cn_block_number node \<le> block_number) (ct_nodes t)\<rparr>
      in if ct_len t' \<noteq> ct_len t then recompute_best_tip t' else Some t')"

subsection \<open>Choosing the best candidate\<close>

text \<open>
  A selection keeps the better of two candidates under a strict total order. The locale is
  what the tip selection relies on; \<open>is_better_tip\<close> on pairs of block number and hash
  provides it.
\<close>

locale strict_selection =
  fixes better :: "'a \<Rightarrow> 'a \<Rightarrow> bool"
  assumes better_irrefl: "\<not> better x x"
    and better_trans: "better x y \<Longrightarrow> better y z \<Longrightarrow> better x z"
    and better_total: "x \<noteq> y \<Longrightarrow> better x y \<or> better y x"
begin

lemma best_unique:
  assumes "b \<in> C" "\<And>x. x \<in> C \<Longrightarrow> x = b \<or> better b x"
    and "b' \<in> C" "\<And>x. x \<in> C \<Longrightarrow> x = b' \<or> better b' x"
  shows "b = b'"
  using assms better_irrefl better_trans by blast

lemma keep_best: "\<lbrakk>\<And>x. x \<in> C \<Longrightarrow> x = b \<or> better b x; \<not> better new b; x \<in> insert new C\<rbrakk> \<Longrightarrow> x = b \<or> better b x"
  using better_total by blast

lemma new_best: "\<lbrakk>\<And>x. x \<in> C \<Longrightarrow> x = b \<or> better b x; better new b; x \<in> insert new C\<rbrakk> \<Longrightarrow> x = new \<or> better new x"
  using better_trans by blast

end

interpretation tip_sel: strict_selection "\<lambda>(a, ha) (b, hb). is_better_tip a ha b hb"
  by unfold_locales (auto simp: is_better_tip_def split: if_splits)

subsection \<open>The invariant\<close>

definition parent_of :: "chain_tree \<Rightarrow> hash32 \<Rightarrow> hash32 \<Rightarrow> bool" where
  "parent_of t h p \<longleftrightarrow> ct_prev_hash t h = Some p \<and> ohas (ct_nodes t) p"

text \<open>The blocks a walk along \<open>prev_hash\<close> can see, up to the first gap.\<close>

inductive visible_ancestor :: "chain_tree \<Rightarrow> hash32 \<Rightarrow> hash32 \<Rightarrow> bool" for t where
  va_self: "visible_ancestor t h h"
| va_step: "parent_of t h p \<Longrightarrow> visible_ancestor t p a \<Longrightarrow> visible_ancestor t h a"

definition tainted :: "chain_tree \<Rightarrow> hash32 \<Rightarrow> bool" where
  "tainted t h \<longleftrightarrow> (\<exists>a. visible_ancestor t h a \<and> a \<in> ct_blacklist t)"

definition parents_below :: "chain_tree \<Rightarrow> bool" where
  "parents_below t \<longleftrightarrow>
     (\<forall>h n p m. oget (ct_nodes t) h = Some n \<and> cn_prev_hash n = Some p \<and> oget (ct_nodes t) p = Some m
        \<longrightarrow> cn_block_number m < cn_block_number n)"

definition points_ok :: "chain_tree \<Rightarrow> bool" where
  "points_ok t \<longleftrightarrow> (\<forall>h n. oget (ct_nodes t) h = Some n \<longrightarrow> get_hash (cn_point n) = Some h)"

definition eligible :: "chain_tree \<Rightarrow> (hash32 \<times> chain_node) set" where
  "eligible t = {(h, n). oget (ct_nodes t) h = Some n \<and> \<not> tainted t h}"

definition is_best_of :: "(hash32 \<times> chain_node) set \<Rightarrow> best_tip_entry \<Rightarrow> bool" where
  "is_best_of C best \<longleftrightarrow>
     (case best of None \<Rightarrow> C = {}
      | Some (p, bn) \<Rightarrow>
          \<exists>h n. (h, n) \<in> C \<and> p = cn_point n \<and> bn = cn_block_number n \<and>
            (\<forall>(h', n') \<in> C. (h', n') = (h, n) \<or> is_better_tip bn h (cn_block_number n') h'))"

definition tree_inv :: "chain_tree \<Rightarrow> bool" where
  "tree_inv t \<longleftrightarrow> parents_below t \<and> points_ok t \<and> is_best_of (eligible t) (ct_best_tip t)"

subsection \<open>The walks return\<close>

lemma parent_of_best_tip [simp]: "parent_of (t\<lparr>ct_best_tip := b\<rparr>) = parent_of t"
  by (simp add: parent_of_def ct_prev_hash_def fun_eq_iff)

lemma parent_of_cong: "ct_nodes t = ct_nodes t' \<Longrightarrow> parent_of t = parent_of t'"
  by (simp add: parent_of_def ct_prev_hash_def fun_eq_iff)

lemma parents_belowD:
  assumes "parents_below t" "parent_of t h p"
  obtains n m where "oget (ct_nodes t) h = Some n" "oget (ct_nodes t) p = Some m"
    "cn_prev_hash n = Some p" "cn_block_number m < cn_block_number n"
  using assms by (auto simp: parent_of_def ct_prev_hash_def parents_below_def ohas_iff_Some split: option.splits)

text \<open>Induction along parent links: the block number of the current node decreases.\<close>

lemma parent_induct [consumes 1, case_names walk]:
  assumes pb: "parents_below t"
    and step: "\<And>h. (\<And>p. parent_of t h p \<Longrightarrow> P p) \<Longrightarrow> P h"
  shows "P h"
proof -
  define rank where "rank h = (case oget (ct_nodes t) h of None \<Rightarrow> 0 | Some n \<Rightarrow> unat (cn_block_number n))" for h
  have dec: "rank p < rank h" if "parent_of t h p" for h p
    using pb that by (rule parents_belowD) (simp add: rank_def word_less_nat_alt)
  show ?thesis
    by (induction h rule: measure_induct_rule [of rank]) (use dec step in blast)
qed

lemma visible_ancestor_unfold: "visible_ancestor t h a \<longleftrightarrow> a = h \<or> (\<exists>p. parent_of t h p \<and> visible_ancestor t p a)"
  by (subst visible_ancestor.simps) auto

lemma tainted_unfold: "tainted t h \<longleftrightarrow> h \<in> ct_blacklist t \<or> (\<exists>p. parent_of t h p \<and> tainted t p)"
  unfolding tainted_def by (subst visible_ancestor_unfold) auto

lemma blacklist_walk_tainted: "parents_below t \<Longrightarrow> blacklist_walk t h = Some (tainted t h)"
proof (induction h rule: parent_induct)
  case (walk h)
  show ?case
    by (subst blacklist_walk.simps, subst tainted_unfold)
      (use walk.IH in \<open>auto simp: parent_of_def split: option.splits\<close>)
qed

lemma tainted_empty: "ct_blacklist t = {} \<Longrightarrow> \<not> tainted t h"
  by (simp add: tainted_def)

lemma is_blacklisted_tainted: "parents_below t \<Longrightarrow> is_blacklisted t h = Some (tainted t h)"
  by (simp add: is_blacklisted_def blacklist_walk_tainted tainted_empty)

lemma visible_ancestor_in_nodes: "visible_ancestor t h a \<Longrightarrow> a = h \<or> ohas (ct_nodes t) a"
  by (induction rule: visible_ancestor.induct) (auto simp: parent_of_def)

lemma visible_ancestor_block_number:
  assumes "visible_ancestor t h a" "parents_below t" "oget (ct_nodes t) h = Some n"
    "oget (ct_nodes t) a = Some m"
  shows "a = h \<or> cn_block_number m < cn_block_number n"
  using assms
proof (induction arbitrary: n rule: visible_ancestor.induct)
  case (va_step h p a)
  from va_step.prems(1) va_step.hyps(1) obtain k where
    k: "oget (ct_nodes t) p = Some k" "cn_block_number k < cn_block_number n"
    by (rule parents_belowD) (use va_step.prems in auto)
  with va_step show ?case by fastforce
qed simp

text \<open>A list of hashes in which each element is followed by its visible parent, ending at a root or gap.\<close>

fun parent_chain :: "chain_tree \<Rightarrow> hash32 list \<Rightarrow> bool" where
  "parent_chain t [] \<longleftrightarrow> False"
| "parent_chain t [h] \<longleftrightarrow> (\<nexists>p. parent_of t h p)"
| "parent_chain t (h # p # rest) \<longleftrightarrow> parent_of t h p \<and> parent_chain t (p # rest)"

lemma ancestors_loop_unfold:
  "ancestors_loop t chain h =
     (if \<exists>p. parent_of t h p then ancestors_loop t (chain @ [the (ct_prev_hash t h)]) (the (ct_prev_hash t h))
      else Some chain)"
  by (subst ancestors_loop.simps)
    (auto simp: parent_of_def ct_prev_hash_def split: option.splits)

lemma ancestors_loop_chain:
  "parents_below t \<Longrightarrow> \<exists>rest. ancestors_loop t chain h = Some (chain @ rest) \<and> parent_chain t (h # rest)"
proof (induction h arbitrary: chain rule: parent_induct)
  case (walk h)
  show ?case
  proof (cases "\<exists>p. parent_of t h p")
    case True
    then obtain p where p: "parent_of t h p" "ct_prev_hash t h = Some p"
      by (auto simp: parent_of_def)
    from walk.IH [OF p(1)] obtain rest where
      "ancestors_loop t (chain @ [p]) p = Some ((chain @ [p]) @ rest)" "parent_chain t (p # rest)"
      by blast
    with p have "ancestors_loop t chain h = Some (chain @ p # rest) \<and> parent_chain t (h # p # rest)"
      by (subst ancestors_loop_unfold) auto
    then show ?thesis by blast
  next
    case False
    then have "ancestors_loop t chain h = Some (chain @ []) \<and> parent_chain t [h]"
      by (auto simp: ancestors_loop_unfold [of t chain h])
    then show ?thesis by blast
  qed
qed

lemma ancestors_parent_chain:
  assumes "parents_below t"
  obtains rest where "ancestors t h = Some (h # rest)" "parent_chain t (h # rest)"
  using ancestors_loop_chain [OF assms, of "[h]" h] unfolding ancestors_def by auto

lemma parent_chain_visible: "parent_chain t (h # rest) \<Longrightarrow> set (h # rest) = {a. visible_ancestor t h a}"
proof (induction rest arbitrary: h)
  case Nil
  then have "visible_ancestor t h a \<longleftrightarrow> a = h" for a
    by (subst visible_ancestor_unfold) auto
  then show ?case by auto
next
  case (Cons p rest)
  then have "parent_of t h p" and IH: "set (p # rest) = {a. visible_ancestor t p a}"
    by auto
  then have "visible_ancestor t h a \<longleftrightarrow> a = h \<or> visible_ancestor t p a" for a
    by (subst visible_ancestor_unfold) (auto simp: parent_of_def)
  with IH show ?case by auto
qed

lemma parent_chain_distinct:
  assumes "parents_below t" "parent_chain t (h # rest)"
  shows "distinct (h # rest)"
  using assms(2)
proof (induction rest arbitrary: h)
  case (Cons p rest)
  then have hp: "parent_of t h p" and pc: "parent_chain t (p # rest)" by auto
  have "h \<notin> set (p # rest)"
  proof
    assume "h \<in> set (p # rest)"
    then have va: "visible_ancestor t p h"
      using parent_chain_visible [OF pc] by auto
    from assms(1) hp obtain n m where
      nm: "oget (ct_nodes t) h = Some n" "oget (ct_nodes t) p = Some m" "cn_block_number m < cn_block_number n"
      by (rule parents_belowD) auto
    from visible_ancestor_block_number [OF va assms(1) nm(2,1)] nm show False by auto
  qed
  with Cons pc show ?case by auto
qed simp

subsection \<open>Recomputation finds the best eligible node\<close>

lemma is_best_of_extend:
  assumes best: "is_best_of C best" and new: "h \<notin> fst ` C"
    and pts: "\<forall>(h', n') \<in> insert (h, n) C. get_hash (cn_point n') = Some h'"
  shows "is_best_of (insert (h, n) C)
           (if beats_best_tip best (cn_block_number n) h then Some (cn_point n, cn_block_number n) else best)"
proof (cases best)
  case None
  with best show ?thesis by (auto simp: is_best_of_def beats_best_tip_def)
next
  case (Some e)
  obtain p bn where e: "e = (p, bn)" by (cases e)
  from best Some e obtain hb nb where b: "(hb, nb) \<in> C" "p = cn_point nb" "bn = cn_block_number nb"
    and max: "\<forall>(h', n') \<in> C. (h', n') = (hb, nb) \<or> is_better_tip bn hb (cn_block_number n') h'"
    by (auto simp: is_best_of_def)
  from pts b have "get_hash p = Some hb" by auto
  then have beats: "beats_best_tip best (cn_block_number n) h \<longleftrightarrow> is_better_tip (cn_block_number n) h bn hb"
    by (cases p) (auto simp: beats_best_tip_def Some e)
  have "h \<noteq> hb" using new b(1) by force
  show ?thesis
  proof (cases "is_better_tip (cn_block_number n) h bn hb")
    case True
    have "is_better_tip (cn_block_number n) h (cn_block_number n') h'" if "(h', n') \<in> C" for h' n'
      using tip_sel.better_trans [of "(cn_block_number n, h)" "(bn, hb)" "(cn_block_number n', h')"] that max True
        b by auto
    with True beats show ?thesis by (auto simp: is_best_of_def)
  next
    case False
    then have "is_better_tip bn hb (cn_block_number n) h"
      using tip_sel.better_total [of "(cn_block_number n, h)" "(bn, hb)"] \<open>h \<noteq> hb\<close> by auto
    with False beats b max show ?thesis by (auto simp: is_best_of_def Some e)
  qed
qed

lemma recompute_loop_best:
  assumes "parents_below t" and "distinct (map fst es)" and "fst ` C \<inter> fst ` set es = {}"
    and "\<forall>(h, n) \<in> C \<union> set es. get_hash (cn_point n) = Some h" and "is_best_of C best"
  shows "\<exists>best'. recompute_loop t es best = Some best'
           \<and> is_best_of (C \<union> {(h, n). (h, n) \<in> set es \<and> \<not> tainted t h}) best'"
  using assms(2-)
proof (induction es arbitrary: C best)
  case (Cons e es)
  obtain h n where e: "e = (h, n)" by (cases e)
  let ?C = "if tainted t h then C else insert (h, n) C"
  let ?best = "if tainted t h then best
     else if beats_best_tip best (cn_block_number n) h then Some (cn_point n, cn_block_number n) else best"
  have "is_best_of ?C ?best"
    using Cons.prems e is_best_of_extend [of C best h n] by auto
  moreover have "fst ` ?C \<inter> fst ` set es = {}"
    using Cons.prems(1,2) e by (auto simp: image_iff)
  moreover have "\<forall>(h, n) \<in> ?C \<union> set es. get_hash (cn_point n) = Some h"
    using Cons.prems(3) e by auto
  ultimately obtain best' where "recompute_loop t es ?best = Some best'"
    and b': "is_best_of (?C \<union> {(h, n). (h, n) \<in> set es \<and> \<not> tainted t h}) best'"
    using Cons.IH [of ?C ?best] Cons.prems(1) by auto
  then have "recompute_loop t (e # es) best = Some best'"
    by (simp add: e is_blacklisted_tainted [OF assms(1)])
  moreover have "?C \<union> {(h, n). (h, n) \<in> set es \<and> \<not> tainted t h}
      = C \<union> {(h, n). (h, n) \<in> set (e # es) \<and> \<not> tainted t h}"
    by (auto simp: e)
  ultimately show ?case using b' by auto
qed simp

lemma is_best_of_SomeE:
  assumes "is_best_of C (Some x)"
  obtains h n where "(h, n) \<in> C" "x = (cn_point n, cn_block_number n)"
    "\<And>h' n'. (h', n') \<in> C \<Longrightarrow> (h', n') = (h, n) \<or> is_better_tip (cn_block_number n) h (cn_block_number n') h'"
proof -
  from assms obtain h n where "(h, n) \<in> C" "x = (cn_point n, cn_block_number n)"
    "\<forall>(h', n') \<in> C. (h', n') = (h, n) \<or> is_better_tip (cn_block_number n) h (cn_block_number n') h'"
    by (cases x) (auto simp: is_best_of_def)
  then show thesis by (intro that) auto
qed

lemma is_best_of_unique:
  assumes "is_best_of C a" "is_best_of C b"
  shows "a = b"
proof (cases a; cases b)
  fix x y assume ab: "a = Some x" "b = Some y"
  from assms(1) [unfolded ab] obtain h n where a: "(h, n) \<in> C" "x = (cn_point n, cn_block_number n)"
    "\<And>h' n'. (h', n') \<in> C \<Longrightarrow> (h', n') = (h, n) \<or> is_better_tip (cn_block_number n) h (cn_block_number n') h'"
    by (rule is_best_of_SomeE) blast
  from assms(2) [unfolded ab] obtain g m where b: "(g, m) \<in> C" "y = (cn_point m, cn_block_number m)"
    "\<And>h' n'. (h', n') \<in> C \<Longrightarrow> (h', n') = (g, m) \<or> is_better_tip (cn_block_number m) g (cn_block_number n') h'"
    by (rule is_best_of_SomeE) blast
  have "(g, m) = (h, n)"
    using a(3) [OF b(1)] b(3) [OF a(1)]
      tip_sel.better_trans [of "(cn_block_number n, h)" "(cn_block_number m, g)" "(cn_block_number n, h)"]
      tip_sel.better_irrefl [of "(cn_block_number n, h)"] by auto
  with a b ab show ?thesis by simp
qed (use assms in \<open>auto simp: is_best_of_def\<close>)

lemma recompute_best_tip_ok:
  assumes "parents_below t" "points_ok t"
  shows "\<exists>b. recompute_best_tip t = Some (t\<lparr>ct_best_tip := b\<rparr>) \<and> is_best_of (eligible t) b"
proof -
  have pts: "\<forall>(h, n) \<in> {} \<union> set (entries (ct_nodes t)). get_hash (cn_point n) = Some h"
    using assms(2) by (auto simp: points_ok_def in_entries_iff)
  have none: "is_best_of {} None" by (simp add: is_best_of_def)
  obtain b where "recompute_loop t (entries (ct_nodes t)) None = Some b"
    and "is_best_of ({} \<union> {(h, n). (h, n) \<in> set (entries (ct_nodes t)) \<and> \<not> tainted t h}) b"
    using recompute_loop_best [OF assms(1) distinct_entries _ pts none] by auto
  then show ?thesis
    by (auto simp: recompute_best_tip_def eligible_def in_entries_iff)
qed

text \<open>Changing only the cached tip leaves the eligible nodes alone.\<close>

lemma visible_ancestor_cong:
  assumes "ct_nodes t = ct_nodes t'"
  shows "visible_ancestor t = visible_ancestor t'"
proof -
  have "visible_ancestor t' h a" if "visible_ancestor t h a" "parent_of t = parent_of t'" for t t' h a
    using that by (induction) (auto intro: visible_ancestor.intros)
  with parent_of_cong [OF assms] show ?thesis by (intro ext) metis
qed

lemma tree_views_best_tip [simp]:
  "parents_below (t\<lparr>ct_best_tip := b\<rparr>) = parents_below t"
  "points_ok (t\<lparr>ct_best_tip := b\<rparr>) = points_ok t"
  "tainted (t\<lparr>ct_best_tip := b\<rparr>) h = tainted t h"
  "eligible (t\<lparr>ct_best_tip := b\<rparr>) = eligible t"
  using visible_ancestor_cong [of "t\<lparr>ct_best_tip := b\<rparr>" t]
  by (simp_all add: parents_below_def points_ok_def tainted_def eligible_def)

lemma recompute_best_tip_inv:
  assumes "parents_below t" "points_ok t"
  shows "\<exists>t'. recompute_best_tip t = Some t' \<and> tree_inv t'
           \<and> ct_nodes t' = ct_nodes t \<and> ct_blacklist t' = ct_blacklist t"
  using recompute_best_tip_ok [OF assms] assms by (auto simp: tree_inv_def)

subsection \<open>Insertion\<close>

text \<open>
  What a block must satisfy to extend the tree: it is stored under the hash of its point, its
  number lies above its parent's and below its children's, and it is not its own parent.
\<close>

definition block_fits :: "chain_tree \<Rightarrow> hash32 \<Rightarrow> point \<Rightarrow> u64 \<Rightarrow> hash32 option \<Rightarrow> bool" where
  "block_fits t h p bn prev \<longleftrightarrow>
     get_hash p = Some h \<and> prev \<noteq> Some h \<and>
     (\<forall>q m. prev = Some q \<and> oget (ct_nodes t) q = Some m \<longrightarrow> cn_block_number m < bn) \<and>
     (\<forall>c n. oget (ct_nodes t) c = Some n \<and> cn_prev_hash n = Some h \<longrightarrow> bn < cn_block_number n)"

definition with_node :: "chain_tree \<Rightarrow> hash32 \<Rightarrow> chain_node \<Rightarrow> chain_tree" where
  "with_node t h n = t\<lparr>ct_nodes := oput h n (ct_nodes t)\<rparr>"

lemma with_node_simps [simp]:
  "ct_nodes (with_node t h n) = oput h n (ct_nodes t)"
  "ct_blacklist (with_node t h n) = ct_blacklist t"
  "ct_best_tip (with_node t h n) = ct_best_tip t"
  by (simp_all add: with_node_def)

lemma parent_of_with_node:
  assumes "\<not> ohas (ct_nodes t) h" "x \<noteq> h" "p \<noteq> h"
  shows "parent_of (with_node t h n) x p = parent_of t x p"
  using assms by (simp add: parent_of_def ct_prev_hash_def oget_oput)

lemma parent_of_with_node_mono:
  assumes "\<not> ohas (ct_nodes t) h" "parent_of t x p"
  shows "parent_of (with_node t h n) x p"
  using assms by (auto simp: parent_of_def ct_prev_hash_def oget_oput ohas_def split: option.splits)

lemma tainted_with_node_mono:
  assumes "\<not> ohas (ct_nodes t) h" "tainted t x"
  shows "tainted (with_node t h n) x"
proof -
  have "visible_ancestor (with_node t h n) x a" if "visible_ancestor t x a" for a
    using that by (induction) (auto intro: visible_ancestor.intros parent_of_with_node_mono [OF assms(1)])
  with assms(2) show ?thesis by (auto simp: tainted_def)
qed

lemma tainted_with_node:
  assumes new: "\<not> ohas (ct_nodes t) h" and clean: "\<not> tainted (with_node t h n) h" and "x \<noteq> h"
  shows "tainted (with_node t h n) x = tainted t x"
proof
  assume "tainted (with_node t h n) x"
  then obtain a where va: "visible_ancestor (with_node t h n) x a" and a: "a \<in> ct_blacklist t"
    by (auto simp: tainted_def)
  from va a \<open>x \<noteq> h\<close> show "tainted t x"
  proof (induction rule: visible_ancestor.induct)
    case (va_step x p a)
    have "p \<noteq> h"
      using clean va_step.hyps(2) va_step.prems(1) by (auto simp: tainted_def)
    with va_step parent_of_with_node [OF new va_step.prems(2)] show ?case
      by (subst tainted_unfold) auto
  qed (auto simp: tainted_def intro: visible_ancestor.intros)
qed (rule tainted_with_node_mono [OF new])

lemma with_node_shape:
  assumes "tree_inv t" "\<not> ohas (ct_nodes t) h" "block_fits t h (cn_point n) (cn_block_number n) (cn_prev_hash n)"
  shows "parents_below (with_node t h n)" "points_ok (with_node t h n)"
  using assms
  by (auto simp: tree_inv_def parents_below_def points_ok_def block_fits_def oget_oput ohas_def split: if_splits)

lemma eligible_with_clean_node:
  assumes "\<not> ohas (ct_nodes t) h" "\<not> tainted (with_node t h n) h"
  shows "eligible (with_node t h n) = insert (h, n) (eligible t)"
proof -
  have "tainted (with_node t h n) x = tainted t x" if "oget (ct_nodes t) x = Some m" for x m
    using tainted_with_node [OF assms, of x] assms(1) that by (cases "x = h") (auto simp: ohas_def)
  with assms show ?thesis
    by (auto simp: eligible_def oget_oput ohas_def split: if_splits)
qed

lemma eligible_with_tainted_node:
  assumes "\<not> ohas (ct_nodes t) h" "tainted (with_node t h n) h"
  shows "eligible (with_node t h n) \<subseteq> eligible t"
  using assms tainted_with_node_mono [OF assms(1)]
  by (auto simp: eligible_def oget_oput split: if_splits)

lemma is_best_of_SomeI:
  assumes "(h, n) \<in> C"
    and "\<And>h' n'. (h', n') \<in> C \<Longrightarrow> (h', n') = (h, n) \<or> is_better_tip (cn_block_number n) h (cn_block_number n') h'"
  shows "is_best_of C (Some (cn_point n, cn_block_number n))"
  unfolding is_best_of_def option.case prod.case
  using assms by (intro exI [of _ h] exI [of _ n]) auto

lemma eligible_functional: "(h, n) \<in> eligible t \<Longrightarrow> (h, n') \<in> eligible t \<Longrightarrow> n = n'"
  by (simp add: eligible_def)

lemma eligible_point: "points_ok t \<Longrightarrow> (h, n) \<in> eligible t \<Longrightarrow> get_hash (cn_point n) = Some h"
  by (simp add: eligible_def points_ok_def)

lemma best_tip_hash_eligible:
  assumes "points_ok t" "is_best_of (eligible t) (ct_best_tip t)" "best_tip_hash t = Some h"
  shows "\<exists>n. (h, n) \<in> eligible t \<and> ct_best_tip t = Some (cn_point n, cn_block_number n)"
proof (cases "ct_best_tip t")
  case None
  with assms(3) show ?thesis by (simp add: best_tip_hash_def)
next
  case (Some x)
  from assms(2) [unfolded Some] obtain g n where b: "(g, n) \<in> eligible t" "x = (cn_point n, cn_block_number n)"
    by (rule is_best_of_SomeE) blast
  with eligible_point [OF assms(1) b(1)] assms(3) have "g = h"
    by (cases "cn_point n") (auto simp: best_tip_hash_def Some)
  with b Some show ?thesis by blast
qed

text \<open>Dropping candidates keeps the tip the best one as long as the tip itself stays.\<close>

lemma best_tip_of_fewer:
  assumes "points_ok t" "is_best_of (eligible t) (ct_best_tip t)" "D \<subseteq> eligible t"
    and keep: "\<And>h. best_tip_hash t = Some h \<Longrightarrow> \<exists>n. (h, n) \<in> D"
  shows "is_best_of D (ct_best_tip t)"
proof (cases "ct_best_tip t")
  case None
  with assms(2,3) show ?thesis by (simp add: is_best_of_def)
next
  case (Some x)
  from assms(2) [unfolded Some] obtain h n where b: "(h, n) \<in> eligible t" "x = (cn_point n, cn_block_number n)"
    "\<And>h' n'. (h', n') \<in> eligible t \<Longrightarrow> (h', n') = (h, n) \<or> is_better_tip (cn_block_number n) h (cn_block_number n') h'"
    by (rule is_best_of_SomeE) blast
  have "best_tip_hash t = Some h"
    using eligible_point [OF assms(1) b(1)] by (cases "cn_point n") (auto simp: best_tip_hash_def Some b)
  then obtain n' where "(h, n') \<in> D" using keep by blast
  then have "(h, n) \<in> D" using assms(3) b(1) eligible_functional by blast
  then show ?thesis
    unfolding Some b(2) by (rule is_best_of_SomeI) (use b(3) assms(3) in blast)
qed

lemma best_tip_not_ineligible:
  assumes "tree_inv t" "h \<notin> fst ` eligible t" "get_hash p = Some h"
  shows "ct_best_tip t \<noteq> Some (p, bn)"
proof
  assume "ct_best_tip t = Some (p, bn)"
  with assms(1) have "is_best_of (eligible t) (Some (p, bn))" by (simp add: tree_inv_def)
  then obtain g n where gn: "(g, n) \<in> eligible t" "(p, bn) = (cn_point n, cn_block_number n)"
    by (rule is_best_of_SomeE) blast
  with assms(1,3) have "g = h" using eligible_point [of t g n] by (simp add: tree_inv_def)
  with gn(1) assms(2) show False by force
qed

lemma update_best_tip_tainted:
  fixes n h t
  defines "t1 \<equiv> with_node t h n"
  assumes inv: "tree_inv t" and new: "\<not> ohas (ct_nodes t) h"
    and fits: "block_fits t h (cn_point n) (cn_block_number n) (cn_prev_hash n)"
    and taint: "tainted t1 h"
  shows "\<exists>t'. update_best_tip t1 (cn_point n) (cn_block_number n) h = Some (False, t') \<and> tree_inv t'
     \<and> ct_nodes t' = ct_nodes t1 \<and> ct_blacklist t' = ct_blacklist t"
proof -
  have shape: "parents_below t1" "points_ok t1"
    unfolding t1_def using with_node_shape [OF inv new fits] .
  have best: "is_best_of (eligible t) (ct_best_tip t)" and pts: "points_ok t"
    using inv by (auto simp: tree_inv_def)
  have sub: "eligible t1 \<subseteq> eligible t"
    using eligible_with_tainted_node [OF new] taint by (simp add: t1_def)
  note bl = is_blacklisted_tainted [OF shape(1)]
  show ?thesis
  proof (cases "\<exists>tip. best_tip_hash t1 = Some tip \<and> tainted t1 tip")
    case True
    with taint bl recompute_best_tip_inv [OF shape] show ?thesis
      by (auto simp: update_best_tip_def t1_def)
  next
    case False
    have "\<exists>n. (g, n) \<in> eligible t1" if "best_tip_hash t = Some g" for g
      using best_tip_hash_eligible [OF pts best that] that False new
      by (auto simp: best_tip_hash_def t1_def eligible_def oget_oput ohas_def)
    then have "is_best_of (eligible t1) (ct_best_tip t)"
      using best_tip_of_fewer [OF pts best sub] by blast
    then have "tree_inv t1" using shape by (auto simp: tree_inv_def t1_def)
    with taint False bl show ?thesis
      by (auto simp: update_best_tip_def t1_def split: option.splits)
  qed
qed

lemma update_best_tip_clean:
  fixes n h t
  defines "t1 \<equiv> with_node t h n"
  assumes inv: "tree_inv t" and new: "\<not> ohas (ct_nodes t) h"
    and fits: "block_fits t h (cn_point n) (cn_block_number n) (cn_prev_hash n)"
    and clean: "\<not> tainted t1 h"
  shows "\<exists>t'. update_best_tip t1 (cn_point n) (cn_block_number n) h
         = Some (beats_best_tip (ct_best_tip t) (cn_block_number n) h, t') \<and> tree_inv t'
     \<and> ct_nodes t' = ct_nodes t1 \<and> ct_blacklist t' = ct_blacklist t
     \<and> ct_best_tip t' = (if beats_best_tip (ct_best_tip t) (cn_block_number n) h
                          then Some (cn_point n, cn_block_number n) else ct_best_tip t)"
proof -
  have shape: "parents_below t1" "points_ok t1"
    unfolding t1_def using with_node_shape [OF inv new fits] .
  have best: "is_best_of (eligible t) (ct_best_tip t)" and pts: "points_ok t"
    using inv by (auto simp: tree_inv_def)
  have h: "get_hash (cn_point n) = Some h" using fits by (simp add: block_fits_def)
  have old: "h \<notin> fst ` eligible t" using new by (auto simp: eligible_def ohas_def)
  have el: "eligible t1 = insert (h, n) (eligible t)"
    using clean unfolding t1_def by (rule eligible_with_clean_node [OF new])
  have "is_best_of (eligible t1) (if beats_best_tip (ct_best_tip t) (cn_block_number n) h
      then Some (cn_point n, cn_block_number n) else ct_best_tip t)"
    unfolding el using is_best_of_extend [OF best old] eligible_point [OF pts] h by blast
  then show ?thesis
    using clean is_blacklisted_tainted [OF shape(1)] shape
    by (auto simp: update_best_tip_def tree_inv_def t1_def)
qed

text \<open>The flag \<open>update_best_tip\<close> returns says whether the new block is the best tip afterwards.\<close>

lemma update_best_tip_inv:
  fixes n h t
  defines "t1 \<equiv> with_node t h n"
  assumes inv: "tree_inv t" and new: "\<not> ohas (ct_nodes t) h"
    and fits: "block_fits t h (cn_point n) (cn_block_number n) (cn_prev_hash n)"
  shows "\<exists>b t'. update_best_tip t1 (cn_point n) (cn_block_number n) h = Some (b, t') \<and> tree_inv t'
     \<and> ct_nodes t' = ct_nodes t1 \<and> ct_blacklist t' = ct_blacklist t
     \<and> (b \<longleftrightarrow> ct_best_tip t' = Some (cn_point n, cn_block_number n))"
proof -
  have h: "get_hash (cn_point n) = Some h" using fits by (simp add: block_fits_def)
  show ?thesis
  proof (cases "tainted t1 h")
    case True
    from update_best_tip_tainted [OF inv new fits True [unfolded t1_def]] obtain t' where
      t': "update_best_tip t1 (cn_point n) (cn_block_number n) h = Some (False, t')" "tree_inv t'"
        "ct_nodes t' = ct_nodes t1" "ct_blacklist t' = ct_blacklist t" by (auto simp: t1_def)
    have "h \<notin> fst ` eligible t'"
      using True t'(3,4) by (auto simp: eligible_def tainted_def visible_ancestor_cong [OF t'(3)] t1_def)
    then have "ct_best_tip t' \<noteq> Some (cn_point n, cn_block_number n)"
      by (rule best_tip_not_ineligible [OF t'(2) _ h])
    with t' show ?thesis by blast
  next
    case False
    have "h \<notin> fst ` eligible t" using new by (auto simp: eligible_def ohas_def)
    then have "ct_best_tip t \<noteq> Some (cn_point n, cn_block_number n)"
      by (rule best_tip_not_ineligible [OF inv _ h])
    with update_best_tip_clean [OF inv new fits False [unfolded t1_def]] show ?thesis
      by (auto simp: t1_def)
  qed
qed

subsection \<open>Every operation keeps the invariant\<close>

lemma tree_inv_new: "tree_inv chain_tree_new"
  by (auto simp: tree_inv_def chain_tree_new_def parents_below_def points_ok_def is_best_of_def eligible_def)

lemma ct_insert_with_node:
  "ct_insert t h p bn slot prev txs eb cert =
     (if ohas (ct_nodes t) h then Some (False, t)
      else update_best_tip
        (with_node t h \<lparr>cn_point = p, cn_status = Normal, cn_block_number = bn, cn_slot = slot,
           cn_prev_hash = prev, cn_tx_count = txs, cn_announced_eb_hash = eb,
           cn_cached_eb_tx_count = None, cn_certified_eb = cert\<rparr>) p bn h)"
  by (simp add: ct_insert_def with_node_def)

lemma insert_chain_start_with_node:
  "insert_chain_start t h p slot bn =
     (if ohas (ct_nodes t) h then Some (False, t)
      else update_best_tip
        (with_node t h \<lparr>cn_point = p, cn_status = ChainStart, cn_block_number = bn, cn_slot = slot,
           cn_prev_hash = None, cn_tx_count = 0, cn_announced_eb_hash = None,
           cn_cached_eb_tx_count = None, cn_certified_eb = False\<rparr>) p bn h)"
  by (simp add: insert_chain_start_def with_node_def)

lemma ct_insert_inv:
  assumes "tree_inv t" "block_fits t h p bn prev"
  shows "\<exists>b t'. ct_insert t h p bn slot prev txs eb cert = Some (b, t') \<and> tree_inv t'"
proof (cases "ohas (ct_nodes t) h")
  case True
  with assms show ?thesis by (auto simp: ct_insert_with_node)
next
  case False
  with update_best_tip_inv [OF assms(1) False, of "\<lparr>cn_point = p, cn_status = Normal,
      cn_block_number = bn, cn_slot = slot, cn_prev_hash = prev, cn_tx_count = txs,
      cn_announced_eb_hash = eb, cn_cached_eb_tx_count = None, cn_certified_eb = cert\<rparr>"] assms(2)
  show ?thesis by (auto simp: ct_insert_with_node)
qed

lemma insert_chain_start_inv:
  assumes "tree_inv t" "block_fits t h p bn None"
  shows "\<exists>b t'. insert_chain_start t h p slot bn = Some (b, t') \<and> tree_inv t'"
proof (cases "ohas (ct_nodes t) h")
  case True
  with assms show ?thesis by (auto simp: insert_chain_start_with_node)
next
  case False
  with update_best_tip_inv [OF assms(1) False, of "\<lparr>cn_point = p, cn_status = ChainStart,
      cn_block_number = bn, cn_slot = slot, cn_prev_hash = None, cn_tx_count = 0,
      cn_announced_eb_hash = None, cn_cached_eb_tx_count = None, cn_certified_eb = False\<rparr>"] assms(2)
  show ?thesis by (auto simp: insert_chain_start_with_node)
qed

lemma update_blacklist_inv:
  assumes "tree_inv t"
  shows "\<exists>t'. update_blacklist t bl = Some t' \<and> tree_inv t'"
proof (cases "ct_blacklist t = set bl")
  case False
  have "parents_below (t\<lparr>ct_blacklist := set bl\<rparr>)" "points_ok (t\<lparr>ct_blacklist := set bl\<rparr>)"
    using assms by (auto simp: tree_inv_def parents_below_def points_ok_def)
  with False recompute_best_tip_inv show ?thesis by (fastforce simp: update_blacklist_def)
qed (use assms in \<open>simp add: update_blacklist_def\<close>)

text \<open>Nodes kept by a prune see the same blacklisted ancestors when no blacklisted node was dropped.\<close>

definition pruned_tree :: "chain_tree \<Rightarrow> u64 \<Rightarrow> chain_tree" where
  "pruned_tree t m = t\<lparr>ct_nodes := oretain (\<lambda>_ node. cn_block_number node \<ge> m) (ct_nodes t)\<rparr>"

lemma pruned_tree_simps [simp]:
  "oget (ct_nodes (pruned_tree t m)) h = (case oget (ct_nodes t) h of None \<Rightarrow> None
     | Some n \<Rightarrow> if m \<le> cn_block_number n then Some n else None)"
  "ct_blacklist (pruned_tree t m) = ct_blacklist t"
  "ct_best_tip (pruned_tree t m) = ct_best_tip t"
  by (simp_all add: pruned_tree_def oget_oretain)

lemma pruned_tree_shape:
  assumes "parents_below t" "points_ok t"
  shows "parents_below (pruned_tree t m)" "points_ok (pruned_tree t m)"
  using assms by (auto simp: parents_below_def points_ok_def split: option.splits if_splits)

lemma parent_of_pruned: "parent_of (pruned_tree t m) h p \<Longrightarrow> parent_of t h p"
  by (auto simp: parent_of_def ct_prev_hash_def ohas_def split: option.splits if_splits)

lemma visible_ancestor_pruned: "visible_ancestor (pruned_tree t m) h a \<Longrightarrow> visible_ancestor t h a"
  by (induction rule: visible_ancestor.induct) (auto intro: visible_ancestor.intros parent_of_pruned)

lemma tainted_prunedD: "tainted (pruned_tree t m) h \<Longrightarrow> tainted t h"
  unfolding tainted_def using visible_ancestor_pruned by fastforce

lemma tainted_pruned:
  assumes pb: "parents_below t"
    and keep: "\<forall>h n. oget (ct_nodes t) h = Some n \<and> cn_block_number n < m \<longrightarrow> h \<notin> ct_blacklist t"
    and h: "oget (ct_nodes t) h = Some n" "m \<le> cn_block_number n" and taint: "tainted t h"
  shows "tainted (pruned_tree t m) h"
proof -
  from taint obtain a where va: "visible_ancestor t h a" and a: "a \<in> ct_blacklist t"
    by (auto simp: tainted_def)
  from va a h show ?thesis
  proof (induction arbitrary: n rule: visible_ancestor.induct)
    case (va_self h)
    then show ?case by (auto simp: tainted_def intro: visible_ancestor.intros)
  next
    case (va_step h p a)
    from pb va_step.hyps(1) obtain k where
      k: "oget (ct_nodes t) p = Some k" "cn_prev_hash n = Some p"
      by (rule parents_belowD) (use va_step.prems in auto)
    have "m \<le> cn_block_number k"
    proof (rule ccontr)
      assume low: "\<not> m \<le> cn_block_number k"
      obtain l where l: "oget (ct_nodes t) a = Some l"
        using visible_ancestor_in_nodes [OF va_step.hyps(2)] k(1) by (auto simp: ohas_iff_Some)
      from visible_ancestor_block_number [OF va_step.hyps(2) pb k(1) l] low l k(1)
      have "cn_block_number l < m" by auto
      with keep l va_step.prems(1) show False by blast
    qed
    then have "parent_of (pruned_tree t m) h p" and "tainted (pruned_tree t m) p"
      using va_step k by (auto simp: parent_of_def ct_prev_hash_def ohas_def)
    then show ?case by (subst tainted_unfold) blast
  qed
qed

lemma prune_below_inv:
  assumes inv: "tree_inv t"
  shows "\<exists>t'. prune_below t m = Some t' \<and> tree_inv t' \<and> ct_nodes t' = ct_nodes (pruned_tree t m)"
proof -
  have pts: "points_ok t" and pb: "parents_below t" and best: "is_best_of (eligible t) (ct_best_tip t)"
    using inv by (auto simp: tree_inv_def)
  note shape = pruned_tree_shape [OF pb pts]
  let ?dropped = "\<exists>h n. oget (ct_nodes t) h = Some n \<and> cn_block_number n < m \<and> h \<in> ct_blacklist t"
  let ?pruned = "case ct_best_tip t of Some (_, bn) \<Rightarrow> bn < m | None \<Rightarrow> False"
  have eq: "prune_below t m = (if ?pruned \<or> ?dropped then recompute_best_tip (pruned_tree t m) else Some (pruned_tree t m))"
    unfolding prune_below_def Let_def pruned_tree_def by (auto simp: in_entries_iff)
  show ?thesis
  proof (cases "?pruned \<or> ?dropped")
    case True
    with eq recompute_best_tip_inv [OF shape] show ?thesis by auto
  next
    case False
    then have keep: "\<forall>h n. oget (ct_nodes t) h = Some n \<and> cn_block_number n < m \<longrightarrow> h \<notin> ct_blacklist t"
      by blast
    have "tainted (pruned_tree t m) h = tainted t h" if "oget (ct_nodes t) h = Some n" "m \<le> cn_block_number n" for h n
      using tainted_pruned [OF pb keep that] tainted_prunedD by blast
    then have el: "eligible (pruned_tree t m) = {(h, n) \<in> eligible t. m \<le> cn_block_number n}"
      by (auto simp: eligible_def split: option.splits if_splits)
    have "\<exists>n. (h, n) \<in> eligible (pruned_tree t m)" if "best_tip_hash t = Some h" for h
      using best_tip_hash_eligible [OF pts best that] False el by (auto split: option.splits)
    moreover have "eligible (pruned_tree t m) \<subseteq> eligible t" using el by auto
    ultimately have "tree_inv (pruned_tree t m)"
      using best_tip_of_fewer [OF pts best] shape by (simp add: tree_inv_def)
    moreover have "prune_below t m = Some (pruned_tree t m)"
      unfolding eq using False by (simp only: if_False)
    ultimately show ?thesis by blast
  qed
qed

lemma remove_above_inv:
  assumes "tree_inv t"
  shows "\<exists>t'. remove_above t m = Some t' \<and> tree_inv t'"
proof -
  let ?t = "t\<lparr>ct_nodes := oretain (\<lambda>_ node. cn_block_number node \<le> m) (ct_nodes t)\<rparr>"
  show ?thesis
  proof (cases "ct_len ?t = ct_len t")
    case True
    then have "?t = t" by (simp add: ct_len_def olen_oretain_eq)
    with True assms show ?thesis by (simp add: remove_above_def)
  next
    case False
    have "parents_below ?t" "points_ok ?t"
      using assms by (auto simp: tree_inv_def parents_below_def points_ok_def oget_oretain split: option.splits if_splits)
    with False recompute_best_tip_inv show ?thesis by (fastforce simp: remove_above_def Let_def)
  qed
qed

lemma tree_inv_bestE:
  assumes "tree_inv t" "ct_best_tip t = Some x"
  obtains h n where "(h, n) \<in> eligible t" "x = (cn_point n, cn_block_number n)"
    "\<And>h' n'. (h', n') \<in> eligible t \<Longrightarrow> (h', n') = (h, n) \<or> is_better_tip (cn_block_number n) h (cn_block_number n') h'"
proof -
  have "is_best_of (eligible t) (Some x)" using assms by (simp add: tree_inv_def)
  then show thesis by (rule is_best_of_SomeE) (rule that)
qed

lemma record_announced_eb_tx_count_views:
  fixes t eb c
  defines "t1 \<equiv> record_announced_eb_tx_count t eb c"
  shows "parent_of t1 = parent_of t" "ct_blacklist t1 = ct_blacklist t" "ct_best_tip t1 = ct_best_tip t"
    and "oget (ct_nodes t1) h = map_option (\<lambda>n. if cn_announced_eb_hash n = Some eb
           then n\<lparr>cn_cached_eb_tx_count := Some c\<rparr> else n) (oget (ct_nodes t) h)"
  by (auto simp: t1_def record_announced_eb_tx_count_def parent_of_def ct_prev_hash_def fun_eq_iff
      oget_omap_values ohas_def split: option.splits)

lemma visible_ancestor_parent_cong:
  assumes "parent_of t = parent_of t'"
  shows "visible_ancestor t = visible_ancestor t'"
proof -
  have "visible_ancestor t' h a" if "visible_ancestor t h a" "parent_of t = parent_of t'" for t t' h a
    using that by (induction) (auto intro: visible_ancestor.intros)
  with assms show ?thesis by (intro ext) metis
qed

lemma record_announced_eb_tx_count_inv:
  assumes inv: "tree_inv t"
  shows "tree_inv (record_announced_eb_tx_count t eb c)" (is "tree_inv ?t")
proof -
  define f where "f n = (if cn_announced_eb_hash n = Some eb then n\<lparr>cn_cached_eb_tx_count := Some c\<rparr> else n)" for n :: chain_node
  have f: "cn_point (f n) = cn_point n" "cn_block_number (f n) = cn_block_number n"
    "cn_prev_hash (f n) = cn_prev_hash n" for n by (simp_all add: f_def)
  note v = record_announced_eb_tx_count_views [of t eb c, folded f_def]
  have shape: "parents_below ?t" "points_ok ?t"
    using inv by (auto simp: tree_inv_def parents_below_def points_ok_def v(4) f)
  have "tainted ?t = tainted t"
    by (simp add: tainted_def fun_eq_iff visible_ancestor_parent_cong [OF v(1)] v(2))
  then have el: "(h, n) \<in> eligible ?t \<longleftrightarrow> (\<exists>m. (h, m) \<in> eligible t \<and> n = f m)" for h n
    by (auto simp: eligible_def v(4))
  have "is_best_of (eligible ?t) (ct_best_tip t)"
  proof (cases "ct_best_tip t")
    case None
    with inv have "eligible t = {}" by (simp add: tree_inv_def is_best_of_def)
    with None el show ?thesis by (auto simp: is_best_of_def)
  next
    case (Some x)
    from inv Some obtain h n where b: "(h, n) \<in> eligible t" "x = (cn_point n, cn_block_number n)"
      "\<And>h' n'. (h', n') \<in> eligible t \<Longrightarrow> (h', n') = (h, n) \<or> is_better_tip (cn_block_number n) h (cn_block_number n') h'"
      by (rule tree_inv_bestE) blast
    have "(h', m) = (h, f n) \<or> is_better_tip (cn_block_number (f n)) h (cn_block_number m) h'"
      if "(h', m) \<in> eligible ?t" for h' m
    proof -
      from that el obtain n' where "(h', n') \<in> eligible t" "m = f n'" by blast
      with b(3) [of h' n'] show ?thesis by (auto simp: f)
    qed
    then have "is_best_of (eligible ?t) (Some (cn_point (f n), cn_block_number (f n)))"
      using b(1) el by (intro is_best_of_SomeI [of h]) blast+
    with b(2) f Some show ?thesis by simp
  qed
  with shape show ?thesis by (simp add: tree_inv_def v(3))
qed

subsection \<open>Runs of the tree\<close>

inductive tree_step :: "chain_tree \<Rightarrow> chain_tree \<Rightarrow> bool" where
  step_insert: "block_fits t h p bn prev \<Longrightarrow>
     ct_insert t h p bn slot prev txs eb cert = Some (b, t') \<Longrightarrow> tree_step t t'"
| step_start: "block_fits t h p bn None \<Longrightarrow>
     insert_chain_start t h p slot bn = Some (b, t') \<Longrightarrow> tree_step t t'"
| step_blacklist: "update_blacklist t bl = Some t' \<Longrightarrow> tree_step t t'"
| step_eb_count: "tree_step t (record_announced_eb_tx_count t eb_hash count)"
| step_prune: "prune_below t m = Some t' \<Longrightarrow> tree_step t t'"
| step_remove: "remove_above t m = Some t' \<Longrightarrow> tree_step t t'"

inductive tree_reachable :: "chain_tree \<Rightarrow> bool" where
  reach_new: "tree_reachable chain_tree_new"
| reach_step: "tree_reachable t \<Longrightarrow> tree_step t t' \<Longrightarrow> tree_reachable t'"

lemma tree_step_inv: "tree_step t t' \<Longrightarrow> tree_inv t \<Longrightarrow> tree_inv t'"
proof (induction rule: tree_step.induct)
  case (step_insert t h p bn prev slot txs eb cert b t')
  with ct_insert_inv [OF step_insert.prems step_insert.hyps(1), of slot txs eb cert] show ?case by auto
next
  case (step_start t h p bn slot b t')
  with insert_chain_start_inv [OF step_start.prems step_start.hyps(1), of slot] show ?case by auto
next
  case (step_blacklist t bl t')
  with update_blacklist_inv [OF step_blacklist.prems, of bl] show ?case by auto
next
  case (step_prune t m t')
  with prune_below_inv [OF step_prune.prems, of m] show ?case by auto
next
  case (step_remove t m t')
  with remove_above_inv [OF step_remove.prems, of m] show ?case by auto
qed (rule record_announced_eb_tx_count_inv)

lemma tree_reachable_inv: "tree_reachable t \<Longrightarrow> tree_inv t"
  by (induction rule: tree_reachable.induct) (auto intro: tree_inv_new tree_step_inv)

text \<open>A tree with one root and two children of equal height, used to exhibit the properties.\<close>

definition fork_node :: "hash32 \<Rightarrow> u64 \<Rightarrow> hash32 option \<Rightarrow> chain_node" where
  "fork_node h bn prev = \<lparr>cn_point = Specific bn h, cn_status = Normal, cn_block_number = bn,
     cn_slot = bn, cn_prev_hash = prev, cn_tx_count = 0, cn_announced_eb_hash = None,
     cn_cached_eb_tx_count = None, cn_certified_eb = False\<rparr>"

definition fork_tree :: chain_tree where
  "fork_tree = \<lparr>ct_nodes = oput 2 (fork_node 2 2 (Some 1)) (oput 3 (fork_node 3 2 (Some 1)) (oput 1 (fork_node 1 1 None) oempty)),
     ct_blacklist = {}, ct_best_tip = Some (Specific 2 2, 2)\<rparr>"

lemma fork_tree_reachable: "tree_reachable fork_tree"
proof -
  let ?t1 = "\<lparr>ct_nodes = oput 1 (fork_node 1 1 None) oempty, ct_blacklist = {}, ct_best_tip = Some (Specific 1 1, 1)\<rparr>"
  let ?t2 = "\<lparr>ct_nodes = oput 3 (fork_node 3 2 (Some 1)) (oput 1 (fork_node 1 1 None) oempty), ct_blacklist = {},
    ct_best_tip = Some (Specific 2 3, 2)\<rparr>"
  note ev = ct_insert_def update_best_tip_def is_blacklisted_def beats_best_tip_def is_better_tip_def fork_node_def
    block_fits_def oget_oput chain_tree_new_def fork_tree_def
  have "tree_step chain_tree_new ?t1"
    by (rule step_insert [of _ 1 "Specific 1 1" 1 None 1 0 None False True]) (simp_all add: ev)
  moreover have "tree_step ?t1 ?t2"
    by (rule step_insert [of _ 3 "Specific 2 3" 2 "Some 1" 2 0 None False True]) (simp_all add: ev split: if_splits)
  moreover have "tree_step ?t2 fork_tree"
    by (rule step_insert [of _ 2 "Specific 2 2" 2 "Some 1" 2 0 None False True]) (simp_all add: ev split: if_splits)
  ultimately show ?thesis by (blast intro: reach_new reach_step)
qed

subsection \<open>Properties\<close>





text \<open>Inserting a fitting block stores exactly that node, leaves every other node alone, and
  returns true exactly when the block is the best tip afterwards; re-inserting a known hash
  changes nothing and returns false.\<close>

theorem ct_insert_effect:
  assumes "tree_reachable t" "block_fits t h p bn prev"
  shows "\<exists>b t'. ct_insert t h p bn slot prev txs eb cert = Some (b, t')
     \<and> (ohas (ct_nodes t) h \<longrightarrow> \<not> b \<and> t' = t)
     \<and> (\<not> ohas (ct_nodes t) h \<longrightarrow>
          (b \<longleftrightarrow> ct_best_tip t' = Some (p, bn)) \<and> ct_blacklist t' = ct_blacklist t
          \<and> (\<forall>k. oget (ct_nodes t') k =
                 (if k = h then Some \<lparr>cn_point = p, cn_status = Normal, cn_block_number = bn,
                    cn_slot = slot, cn_prev_hash = prev, cn_tx_count = txs,
                    cn_announced_eb_hash = eb, cn_cached_eb_tx_count = None, cn_certified_eb = cert\<rparr>
                  else oget (ct_nodes t) k)))"
proof (cases "ohas (ct_nodes t) h")
  case True
  then show ?thesis by (auto simp: ct_insert_with_node)
next
  case False
  have inv: "tree_inv t" by (rule tree_reachable_inv [OF assms(1)])
  show ?thesis
    using update_best_tip_inv [OF inv False, of "\<lparr>cn_point = p, cn_status = Normal,
        cn_block_number = bn, cn_slot = slot, cn_prev_hash = prev, cn_tx_count = txs,
        cn_announced_eb_hash = eb, cn_cached_eb_tx_count = None, cn_certified_eb = cert\<rparr>"] assms(2) False
    by (auto simp: ct_insert_with_node oget_oput)
qed

theorem ct_insert_effect_witness:
  "\<exists>b t'. ct_insert chain_tree_new 9 (Specific 4 9) 3 4 (Some 8) 0 None False = Some (b, t')
     \<and> ohas (ct_nodes t') 9 \<and> b = (ct_best_tip t' = Some (Specific 4 9, 3))"
proof -
  have "block_fits chain_tree_new 9 (Specific 4 9) 3 (Some 8)"
    by (simp add: block_fits_def chain_tree_new_def)
  from ct_insert_effect [OF reach_new this, of 4 0 None False] show ?thesis
    by (auto simp: ohas_def chain_tree_new_def)
qed

text \<open>\<open>recompute_best_tip\<close> scans a hash map, whose iteration order is unspecified. On a
  reachable tree the tip it finds does not depend on the order in which the nodes are visited.\<close>

theorem recompute_order_independent:
  assumes "tree_reachable t" "set es = set (entries (ct_nodes t))" "distinct (map fst es)"
  shows "recompute_loop t es None = recompute_loop t (entries (ct_nodes t)) None"
proof -
  have pb: "parents_below t" and pts: "points_ok t"
    using tree_reachable_inv [OF assms(1)] by (auto simp: tree_inv_def)
  have scan: "\<exists>b. recompute_loop t xs None = Some b \<and> is_best_of (eligible t) b"
    if "set xs = set (entries (ct_nodes t))" "distinct (map fst xs)" for xs
  proof -
    have "\<forall>(h, n) \<in> {} \<union> set xs. get_hash (cn_point n) = Some h"
      using pts that by (auto simp: points_ok_def in_entries_iff)
    moreover have "is_best_of {} None" by (simp add: is_best_of_def)
    moreover have "{} \<union> {(h, n). (h, n) \<in> set xs \<and> \<not> tainted t h} = eligible t"
      using that by (auto simp: eligible_def in_entries_iff)
    ultimately show ?thesis using recompute_loop_best [OF pb that(2), of "{}" None] by auto
  qed
  obtain b where "recompute_loop t es None = Some b" "is_best_of (eligible t) b"
    using scan [OF assms(2,3)] by blast
  moreover obtain b' where "recompute_loop t (entries (ct_nodes t)) None = Some b'" "is_best_of (eligible t) b'"
    using scan [OF refl distinct_entries] by blast
  ultimately show ?thesis using is_best_of_unique by simp
qed

theorem recompute_order_independent_witness:
  "recompute_loop fork_tree (rev (entries (ct_nodes fork_tree))) None
     = recompute_loop fork_tree (entries (ct_nodes fork_tree)) None
   \<and> length (entries (ct_nodes fork_tree)) = 3"
proof -
  have "distinct (map fst (rev (entries (ct_nodes fork_tree))))"
    by (metis distinct_entries distinct_rev rev_map)
  then have "recompute_loop fork_tree (rev (entries (ct_nodes fork_tree))) None
     = recompute_loop fork_tree (entries (ct_nodes fork_tree)) None"
    by (intro recompute_order_independent [OF fork_tree_reachable]) simp_all
  moreover have "length (entries (ct_nodes fork_tree)) = 3"
    by (simp add: fork_tree_def)
  ultimately show ?thesis by blast
qed

text \<open>\<open>ancestors\<close> returns the blocks from the given one back to its root or to the first gap:
  tip first, each element followed by its parent in the tree, the last one without a parent in
  the tree, no block twice, and exactly the blocks a walk can see.\<close>

theorem ancestors_complete:
  assumes "tree_reachable t"
  shows "\<exists>chain. ancestors t h = Some chain \<and> hd chain = h \<and> distinct chain
     \<and> set chain = {a. visible_ancestor t h a}
     \<and> (\<forall>i. Suc i < length chain \<longrightarrow> parent_of t (chain ! i) (chain ! Suc i))
     \<and> (\<nexists>p. parent_of t (last chain) p)"
proof -
  have pb: "parents_below t"
    using tree_reachable_inv [OF assms] by (simp add: tree_inv_def)
  from pb obtain rest where a: "ancestors t h = Some (h # rest)" and pc: "parent_chain t (h # rest)"
    by (rule ancestors_parent_chain)
  have "parent_of t ((x # xs) ! i) ((x # xs) ! Suc i)" if "parent_chain t (x # xs)" "Suc i < length (x # xs)" for x xs i
    using that
  proof (induction xs arbitrary: x i)
    case (Cons y ys)
    then show ?case by (cases i) auto
  qed simp
  moreover have "\<nexists>p. parent_of t (last (x # xs)) p" if "parent_chain t (x # xs)" for x xs
    using that by (induction xs arbitrary: x) auto
  ultimately show ?thesis
    using a pc parent_chain_distinct [OF pb pc] parent_chain_visible [OF pc] by auto
qed

theorem ancestors_complete_witness:
  "\<exists>chain. ancestors fork_tree 3 = Some chain \<and> hd chain = 3 \<and> distinct chain
     \<and> set chain = {a. visible_ancestor fork_tree 3 a}"
  using ancestors_complete [OF fork_tree_reachable, of 3] by blast

text \<open>Pruning at a threshold removes exactly the nodes below it, keeps the others as they were,
  and leaves a best tip that satisfies the selection rule on what is left, even when the prune
  removes a blacklisted block and so makes its descendants eligible again.\<close>

theorem prune_below_effect:
  assumes "tree_reachable t"
  shows "\<exists>t'. prune_below t m = Some t' \<and> tree_inv t'
     \<and> (\<forall>h. oget (ct_nodes t') h =
            (case oget (ct_nodes t) h of None \<Rightarrow> None
             | Some n \<Rightarrow> if cn_block_number n \<ge> m then Some n else None))"
  using prune_below_inv [OF tree_reachable_inv [OF assms], of m] by auto

theorem prune_below_effect_witness:
  "\<exists>t'. prune_below fork_tree 2 = Some t' \<and> tree_inv t' \<and> \<not> ohas (ct_nodes t') 1 \<and> ohas (ct_nodes t') 3"
proof -
  have "oget (ct_nodes fork_tree) 1 = Some (fork_node 1 1 None)" "oget (ct_nodes fork_tree) 3 = Some (fork_node 3 2 (Some 1))"
    by (simp_all add: fork_tree_def oget_oput)
  moreover obtain t' where "prune_below fork_tree 2 = Some t'" "tree_inv t'"
    "\<forall>h. oget (ct_nodes t') h = (case oget (ct_nodes fork_tree) h of None \<Rightarrow> None
       | Some n \<Rightarrow> if cn_block_number n \<ge> 2 then Some n else None)"
    using prune_below_effect [OF fork_tree_reachable, of 2] by blast
  moreover have "\<not> (2::u64) \<le> 1" by (simp add: word_le_nat_alt)
  ultimately show ?thesis by (auto simp: ohas_def fork_node_def)
qed

text \<open>\<open>insert\<close> does not check parent links, and the module documentation's claim that
  \<open>ancestors\<close> terminates because it follows a finite map is false in general: one block whose
  \<open>prev_hash\<close> is its own hash is accepted, and \<open>ancestors\<close> of it never returns.\<close>

theorem ancestors_self_parent_diverges:
  "\<exists>b t. ct_insert chain_tree_new 1 (Specific 1 1) 1 1 (Some 1) 0 None False = Some (b, t)
     \<and> ancestors t 1 = None"
proof -
  let ?n = "\<lparr>cn_point = Specific 1 1, cn_status = Normal, cn_block_number = 1, cn_slot = 1,
    cn_prev_hash = Some 1, cn_tx_count = 0, cn_announced_eb_hash = None, cn_cached_eb_tx_count = None,
    cn_certified_eb = False\<rparr>"
  let ?t = "\<lparr>ct_nodes = oput 1 ?n oempty, ct_blacklist = {}, ct_best_tip = Some (Specific 1 1, 1)\<rparr>"
  have "ct_insert chain_tree_new 1 (Specific 1 1) 1 1 (Some 1) 0 None False = Some (True, ?t)"
    by (simp add: ct_insert_def chain_tree_new_def update_best_tip_def is_blacklisted_def beats_best_tip_def)
  moreover have "ancestors_loop ?t chain 1 \<noteq> Some r" for chain r
  proof
    assume ret: "ancestors_loop ?t chain 1 = Some r"
    have "?t = ?t \<longrightarrow> (1::hash32) = 1 \<longrightarrow> False"
    proof (rule ancestors_loop.raw_induct [where P = "\<lambda>t chain h r. t = ?t \<longrightarrow> h = 1 \<longrightarrow> False", OF _ ret])
      fix f t chain h r
      assume IH: "\<And>t chain h r. f t chain h = Some r \<Longrightarrow> t = ?t \<longrightarrow> h = 1 \<longrightarrow> False"
        and eq: "(case oget (ct_nodes t) h of None \<Rightarrow> Some chain
            | Some n \<Rightarrow> (case cn_prev_hash n of None \<Rightarrow> Some chain
                | Some parent \<Rightarrow> if ohas (ct_nodes t) parent then f t (chain @ [parent]) parent else Some chain)) = Some r"
      show "t = ?t \<longrightarrow> h = 1 \<longrightarrow> False"
        using IH [of t "chain @ [1]" 1 r] eq by (auto simp: oget_oput)
    qed
    then show False by simp
  qed
  ultimately show ?thesis unfolding ancestors_def by (metis not_Some_eq)
qed

end
