(* ===== verification/Peer_Chain.thy ===== *)
theory Peer_Chain
  imports Consensus_Types "HOL-Library.Sublist"
begin

text \<open>
  \<open>shared-rs/consensus/src/peer_chain.rs\<close>: the bounded queue of headers one peer has announced,
  with the ChainSync intersection as its anchor. \<open>VecDeque\<close> is a list, oldest entry first; the
  hash set of a blacklist is a set.

  \<open>peer_chain_inv\<close> states the invariants the source lists (bounded size, no duplicate hash,
  block numbers strictly increasing in announcement order); every operation keeps it.
\<close>

record peer_chain_entry =
  pe_hash :: hash32
  pe_point :: point
  pe_block_no :: u64
  pe_prev_hash :: "hash32 option"

record peer_chain_anchor =
  pa_hash :: hash32
  pa_point :: point

record peer_chain =
  pc_entries :: "peer_chain_entry list"
  pc_cap :: nat
  pc_anchor :: "peer_chain_anchor option"

definition peer_chain_new :: "nat \<Rightarrow> peer_chain" where
  "peer_chain_new cap = \<lparr>pc_entries = [], pc_cap = cap, pc_anchor = None\<rparr>"

definition set_anchor :: "peer_chain \<Rightarrow> point \<Rightarrow> peer_chain" where
  "set_anchor pc p =
     (let hash = (case p of Specific _ h \<Rightarrow> h | Origin \<Rightarrow> 0)
      in pc\<lparr>pc_anchor := Some \<lparr>pa_hash = hash, pa_point = p\<rparr>\<rparr>)"

fun pop_front_while_over :: "nat \<Rightarrow> 'a list \<Rightarrow> 'a list" where
  "pop_front_while_over cap [] = []"
| "pop_front_while_over cap (x # xs) = (if length (x # xs) > cap then pop_front_while_over cap xs else x # xs)"

definition pc_append :: "peer_chain \<Rightarrow> peer_chain_entry \<Rightarrow> bool \<times> peer_chain" where
  "pc_append pc e =
     (if \<exists>x \<in> set (pc_entries pc). pe_hash x = pe_hash e then (False, pc)
      else if pc_entries pc \<noteq> [] \<and> pe_block_no e \<le> pe_block_no (last (pc_entries pc)) then (False, pc)
      else (True, pc\<lparr>pc_entries := pop_front_while_over (pc_cap pc) (pc_entries pc @ [e])\<rparr>))"

fun position :: "('a \<Rightarrow> bool) \<Rightarrow> 'a list \<Rightarrow> nat option" where
  "position P [] = None"
| "position P (x # xs) = (if P x then Some 0 else map_option Suc (position P xs))"

definition rollback_to :: "peer_chain \<Rightarrow> point \<Rightarrow> peer_chain" where
  "rollback_to pc p =
     (case position (\<lambda>e. pe_point e = p) (pc_entries pc) of
        Some pos \<Rightarrow> pc\<lparr>pc_entries := take (pos + 1) (pc_entries pc)\<rparr>
      | None \<Rightarrow>
          (case pc_anchor pc of
             Some a \<Rightarrow> if pa_point a = p then pc\<lparr>pc_entries := []\<rparr> else pc
           | None \<Rightarrow> pc))"

definition clear_entries :: "peer_chain \<Rightarrow> peer_chain" where
  "clear_entries pc = pc\<lparr>pc_entries := []\<rparr>"

definition pc_tip :: "peer_chain \<Rightarrow> peer_chain_entry option" where
  "pc_tip pc = (if pc_entries pc = [] then None else Some (last (pc_entries pc)))"

definition pc_len :: "peer_chain \<Rightarrow> nat" where
  "pc_len pc = length (pc_entries pc)"

definition find_earliest :: "peer_chain \<Rightarrow> hash32 set \<Rightarrow> nat option" where
  "find_earliest pc oneof = position (\<lambda>e. pe_hash e \<in> oneof) (pc_entries pc)"

definition trim_by_blacklist :: "peer_chain \<Rightarrow> hash32 set \<Rightarrow> peer_chain" where
  "trim_by_blacklist pc blacklist =
     (if blacklist = {} then pc
      else case find_earliest pc blacklist of
             None \<Rightarrow> pc
           | Some fst_idx \<Rightarrow>
               (peer_chain_new (pc_cap pc))\<lparr>pc_anchor := pc_anchor pc,
                  pc_entries := take fst_idx (pc_entries pc)\<rparr>)"

subsection \<open>Invariant\<close>

definition peer_chain_inv :: "peer_chain \<Rightarrow> bool" where
  "peer_chain_inv pc \<longleftrightarrow>
     length (pc_entries pc) \<le> pc_cap pc \<and> distinct (map pe_hash (pc_entries pc))
     \<and> sorted_wrt (<) (map pe_block_no (pc_entries pc))"

inductive pc_step :: "peer_chain \<Rightarrow> peer_chain \<Rightarrow> bool" where
  pcs_append: "pc_step pc (snd (pc_append pc e))"
| pcs_rollback: "pc_step pc (rollback_to pc p)"
| pcs_anchor: "pc_step pc (set_anchor pc p)"
| pcs_clear: "pc_step pc (clear_entries pc)"
| pcs_trim: "pc_step pc (trim_by_blacklist pc bl)"

inductive pc_reachable :: "nat \<Rightarrow> peer_chain \<Rightarrow> bool" for cap where
  pcr_new: "pc_reachable cap (peer_chain_new cap)"
| pcr_step: "pc_reachable cap pc \<Longrightarrow> pc_step pc pc' \<Longrightarrow> pc_reachable cap pc'"

lemma pop_front_while_over_drop: "pop_front_while_over cap xs = drop (length xs - cap) xs"
  by (induction xs) (auto simp: Suc_diff_le)

lemma position_None: "position P xs = None \<longleftrightarrow> (\<forall>x \<in> set xs. \<not> P x)"
  by (induction xs) auto

lemma position_Some:
  "position P xs = Some i \<longleftrightarrow> i < length xs \<and> P (xs ! i) \<and> (\<forall>j < i. \<not> P (xs ! j))"
proof (induction xs arbitrary: i)
  case (Cons x xs)
  then show ?case by (cases i) (auto simp: nth_Cons split: nat.splits)
qed simp

lemma position_takeWhile: "position P xs = Some i \<Longrightarrow> take i xs = takeWhile (\<lambda>x. \<not> P x) xs"
  by (induction xs arbitrary: i) (auto split: if_splits)

lemma sorted_wrt_map_take: "sorted_wrt R (map f xs) \<Longrightarrow> sorted_wrt R (map f (take k xs))"
  by (metis sorted_wrt_take take_map)

lemma sorted_wrt_map_drop: "sorted_wrt R (map f xs) \<Longrightarrow> sorted_wrt R (map f (drop k xs))"
  by (metis sorted_wrt_drop drop_map)

lemma distinct_map_take: "distinct (map f xs) \<Longrightarrow> distinct (map f (take k xs))"
  by (metis distinct_take take_map)

lemma distinct_map_drop: "distinct (map f xs) \<Longrightarrow> distinct (map f (drop k xs))"
  by (metis distinct_drop drop_map)

lemma peer_chain_inv_take:
  "peer_chain_inv pc \<Longrightarrow> peer_chain_inv (pc\<lparr>pc_entries := take k (pc_entries pc)\<rparr>)"
  by (auto simp: peer_chain_inv_def intro: sorted_wrt_map_take distinct_map_take)

lemma append_keeps_order:
  assumes "sorted_wrt (<) (map f xs)" and "xs = [] \<or> f (last xs) < f e"
  shows "sorted_wrt (<) (map f (xs @ [e]) :: u64 list)"
proof (cases xs rule: rev_cases)
  case (snoc ys y)
  with assms show ?thesis by (auto simp: sorted_wrt_append intro: less_trans)
qed simp

lemma pc_append_cases:
  obtains (refused) "pc_append pc e = (False, pc)"
      "pe_hash e \<in> pe_hash ` set (pc_entries pc) \<or> (pc_entries pc \<noteq> [] \<and> pe_block_no e \<le> pe_block_no (last (pc_entries pc)))"
  | (accepted) es where "pc_append pc e = (True, pc\<lparr>pc_entries := es\<rparr>)"
      "es = drop (Suc (length (pc_entries pc)) - pc_cap pc) (pc_entries pc @ [e])"
      "pe_hash e \<notin> pe_hash ` set (pc_entries pc)"
      "pc_entries pc = [] \<or> pe_block_no (last (pc_entries pc)) < pe_block_no e"
proof (cases "pe_hash e \<in> pe_hash ` set (pc_entries pc) \<or> (pc_entries pc \<noteq> [] \<and> pe_block_no e \<le> pe_block_no (last (pc_entries pc)))")
  case True
  then have "pc_append pc e = (False, pc)" by (force simp: pc_append_def)
  with True show ?thesis by (rule refused [rotated])
next
  case False
  then have "pc_append pc e = (True, pc\<lparr>pc_entries := pop_front_while_over (pc_cap pc) (pc_entries pc @ [e])\<rparr>)"
    by (auto simp: pc_append_def image_iff)
  with False show ?thesis
    by (intro accepted [OF _ refl]) (auto simp: pop_front_while_over_drop not_le)
qed

lemma peer_chain_inv_append:
  assumes "peer_chain_inv pc"
  shows "peer_chain_inv (snd (pc_append pc e))"
proof (cases rule: pc_append_cases [of pc e])
  case refused
  with assms show ?thesis by simp
next
  case (accepted es)
  define ys where "ys = pc_entries pc @ [e]"
  have "distinct (map pe_hash ys)"
    using assms accepted(3) by (simp add: peer_chain_inv_def ys_def)
  moreover have "sorted_wrt (<) (map pe_block_no ys)"
    unfolding ys_def using assms accepted(4) by (intro append_keeps_order) (simp_all add: peer_chain_inv_def)
  moreover have "es = drop (length ys - pc_cap pc) ys"
    using accepted(2) by (simp add: ys_def)
  ultimately show ?thesis
    unfolding accepted(1) by (simp add: peer_chain_inv_def distinct_map_drop sorted_wrt_map_drop)
qed

lemma pc_step_inv: "pc_step pc pc' \<Longrightarrow> peer_chain_inv pc \<Longrightarrow> peer_chain_inv pc' \<and> pc_cap pc' = pc_cap pc"
proof (induction rule: pc_step.induct)
  case (pcs_append pc e)
  then show ?case by (simp add: peer_chain_inv_append) (simp add: pc_append_def)
next
  case (pcs_rollback pc p)
  then show ?case
    by (auto simp: rollback_to_def peer_chain_inv_take split: option.splits)
      (simp add: peer_chain_inv_def)
next
  case (pcs_trim pc bl)
  then show ?case
    by (auto simp: trim_by_blacklist_def peer_chain_new_def peer_chain_inv_def
        split: option.splits intro: sorted_wrt_map_take distinct_map_take)
qed (auto simp: peer_chain_inv_def set_anchor_def clear_entries_def Let_def)

subsection \<open>Properties\<close>

text \<open>Whatever headers a peer announces, rolls back and re-announces, its candidate chain never
  holds more than \<open>cap\<close> entries, never holds one hash twice, and its block numbers strictly
  increase from the oldest entry to the tip.\<close>

theorem peer_chain_reachable_inv:
  assumes "pc_reachable cap pc"
  shows "length (pc_entries pc) \<le> cap \<and> distinct (map pe_hash (pc_entries pc))
     \<and> sorted_wrt (<) (map pe_block_no (pc_entries pc))"
proof -
  from assms have "peer_chain_inv pc \<and> pc_cap pc = cap"
  proof (induction rule: pc_reachable.induct)
    case pcr_new
    then show ?case by (simp add: peer_chain_inv_def peer_chain_new_def)
  next
    case (pcr_step pc pc')
    then show ?case using pc_step_inv by auto
  qed
  then show ?thesis by (simp add: peer_chain_inv_def)
qed

theorem peer_chain_reachable_inv_witness:
  "let e = \<lparr>pe_hash = 5, pe_point = Specific 9 5, pe_block_no = 2, pe_prev_hash = None\<rparr>;
       pc = snd (pc_append (peer_chain_new 1) e)
   in pc_entries pc = [e] \<and> length (pc_entries pc) \<le> 1 \<and> distinct (map pe_hash (pc_entries pc))"
proof -
  let ?e = "\<lparr>pe_hash = 5, pe_point = Specific 9 5, pe_block_no = 2, pe_prev_hash = None\<rparr>"
  have "pc_reachable 1 (snd (pc_append (peer_chain_new 1) ?e))"
    by (blast intro: pc_reachable.intros pc_step.intros)
  from peer_chain_reachable_inv [OF this] show ?thesis
    by (simp add: Let_def) (simp add: pc_append_def peer_chain_new_def)
qed

text \<open>\<open>append\<close> accepts a header exactly when its hash is new and its block number is above the
  tip's; it then becomes the tip (with room for at least one entry) and the kept entries are the
  newest ones in their old order. A refused header leaves the chain unchanged.\<close>

theorem pc_append_effect:
  "let (ok, pc') = pc_append pc e in
     (ok \<longleftrightarrow> pe_hash e \<notin> pe_hash ` set (pc_entries pc)
            \<and> (\<forall>t. pc_tip pc = Some t \<longrightarrow> pe_block_no t < pe_block_no e))
     \<and> (\<not> ok \<longrightarrow> pc' = pc)
     \<and> (ok \<and> 0 < pc_cap pc \<longrightarrow> pc_tip pc' = Some e)
     \<and> (ok \<longrightarrow> suffix (pc_entries pc') (pc_entries pc @ [e]) \<and> pc_anchor pc' = pc_anchor pc
             \<and> length (pc_entries pc') = min (pc_cap pc) (Suc (length (pc_entries pc))))"
proof (cases rule: pc_append_cases [of pc e])
  case refused
  then show ?thesis by (auto simp: pc_tip_def)
next
  case (accepted es)
  have "suffix es (pc_entries pc @ [e])" by (simp only: accepted(2) suffix_drop)
  moreover have "length es = min (pc_cap pc) (Suc (length (pc_entries pc)))" by (simp add: accepted(2))
  moreover have "es \<noteq> [] \<and> last es = e" if "0 < pc_cap pc"
    using that by (simp add: accepted(2) last_drop)
  ultimately show ?thesis using accepted(3,4) unfolding accepted(1) by (auto simp: pc_tip_def)
qed

theorem pc_append_effect_witness:
  "let e = \<lparr>pe_hash = 5, pe_point = Specific 9 5, pe_block_no = 2, pe_prev_hash = None\<rparr>
   in fst (pc_append (peer_chain_new 3) e) \<and> pc_tip (snd (pc_append (peer_chain_new 3) e)) = Some e"
  using pc_append_effect [of "peer_chain_new 3" "\<lparr>pe_hash = 5, pe_point = Specific 9 5, pe_block_no = 2, pe_prev_hash = None\<rparr>"]
  by (simp add: Let_def case_prod_unfold pc_tip_def peer_chain_new_def)

text \<open>Trimming by a blacklist returns the longest prefix of the chain that holds no blacklisted
  entry, with cap and anchor unchanged.\<close>

theorem trim_by_blacklist_effect:
  "let pc' = trim_by_blacklist pc bl in
     pc_entries pc' = takeWhile (\<lambda>e. pe_hash e \<notin> bl) (pc_entries pc)
     \<and> pc_cap pc' = pc_cap pc \<and> pc_anchor pc' = pc_anchor pc"
proof (cases "position (\<lambda>e. pe_hash e \<in> bl) (pc_entries pc)")
  case None
  then have "takeWhile (\<lambda>e. pe_hash e \<notin> bl) (pc_entries pc) = pc_entries pc"
    by (simp add: position_None takeWhile_eq_all_conv)
  moreover have "trim_by_blacklist pc bl = pc"
    using None by (simp add: trim_by_blacklist_def find_earliest_def)
  ultimately show ?thesis unfolding Let_def by metis
next
  case (Some i)
  then have "bl \<noteq> {}" by (auto simp: position_Some)
  with Some position_takeWhile [OF Some] show ?thesis
    by (simp add: trim_by_blacklist_def find_earliest_def peer_chain_new_def Let_def)
qed

end
