(* ===== verification/Bitmap.thy ===== *)
theory Bitmap
  imports Ordered_Map
begin

unbundle bit_operations_syntax

text \<open>
  \<open>shared-rs/consensus/src/bitmap.rs\<close>: the sparse \<open>BTreeMap<u16, u64>\<close> bitmap of
  \<open>MsgLeiosBlockTxsRequest\<close>. A segment holds 64 indices, most significant bit first; the segment
  number is the index divided by 64, truncated to 16 bits by the \<open>as u16\<close> cast.
\<close>

type_synonym tx_bitmap = "(u16, u64) omap"

definition SEGMENT_BITS :: u32 where
  "SEGMENT_BITS = 64"

definition seg_bit :: "u32 \<Rightarrow> u32" where
  "seg_bit index = (SEGMENT_BITS - 1) - (index mod SEGMENT_BITS)"

definition segment_of :: "u32 \<Rightarrow> u16" where
  "segment_of index = ucast (index div SEGMENT_BITS)"

definition set_index :: "u32 \<Rightarrow> tx_bitmap \<Rightarrow> tx_bitmap" where
  "set_index index bitmap =
     (let segment = segment_of index;
          entry = (case oget bitmap segment of Some sm \<Rightarrow> sm | None \<Rightarrow> 0)
      in oput segment (entry OR push_bit (unat (seg_bit index)) 1) bitmap)"

definition from_indices :: "u32 list \<Rightarrow> tx_bitmap" where
  "from_indices indices = fold set_index indices oempty"

definition select_all :: "u32 \<Rightarrow> tx_bitmap" where
  "select_all count =
     (let full_segments = count div SEGMENT_BITS;
          remainder = count mod SEGMENT_BITS;
          bitmap = fold (\<lambda>seg. oput (ucast (of_nat seg :: u32)) (- 1)) [0..<unat full_segments] oempty
      in if remainder > 0
         then oput (ucast full_segments) (NOT (push_bit (unat (SEGMENT_BITS - remainder)) 1 - 1)) bitmap
         else bitmap)"

definition bm_contains :: "tx_bitmap \<Rightarrow> u32 \<Rightarrow> bool" where
  "bm_contains bitmap index =
     (case oget bitmap (segment_of index) of
        Some sm \<Rightarrow> sm AND push_bit (unat (seg_bit index)) 1 \<noteq> 0
      | None \<Rightarrow> False)"

definition segment_indices :: "u16 \<times> u64 \<Rightarrow> u32 list" where
  "segment_indices e = (case e of (segment, sm) \<Rightarrow>
     (let base = ucast segment * SEGMENT_BITS
      in List.map_filter
           (\<lambda>b. if sm AND push_bit b 1 \<noteq> 0 then Some (base + (SEGMENT_BITS - 1 - of_nat b)) else None)
           (rev [0..<64])))"

definition iter_indices :: "tx_bitmap \<Rightarrow> u32 list" where
  "iter_indices bitmap = concat (map segment_indices (entries bitmap))"

subsection \<open>Segments and bits\<close>

lemma unat_seg_bit: "unat (seg_bit i) = 63 - unat i mod 64"
proof -
  have "unat (i mod 64) = unat i mod 64" by (simp add: unat_mod)
  then have "i mod 64 \<le> 63" by (simp add: word_le_nat_alt)
  then have "unat (63 - i mod 64) = 63 - unat i mod 64" by (simp add: unat_sub unat_mod)
  then show ?thesis by (simp add: seg_bit_def SEGMENT_BITS_def)
qed

lemma unat_segment_of: "unat (segment_of i) = unat i div 64 mod 65536"
  by (simp add: segment_of_def SEGMENT_BITS_def unsigned_ucast_eq unat_div take_bit_eq_mod)

lemma mask_bit: "m AND push_bit n 1 \<noteq> 0 \<longleftrightarrow> bit m n" for m :: u64
  by (simp add: bit_iff_and_push_bit_not_eq_0)

lemma same_place_iff:
  "segment_of i = segment_of j \<and> unat (seg_bit i) = unat (seg_bit j) \<longleftrightarrow> unat i mod 2 ^ 22 = unat j mod 2 ^ 22"
proof -
  have split: "x mod 2 ^ 22 = 64 * (x div 64 mod 65536) + x mod 64" for x :: nat
    using mod_mult2_eq [of x 64 65536] by simp
  have "segment_of i = segment_of j \<longleftrightarrow> unat i div 64 mod 65536 = unat j div 64 mod 65536"
    by (metis unat_segment_of word_unat_eq_iff)
  moreover have "63 - unat i mod 64 = 63 - unat j mod 64 \<longleftrightarrow> unat i mod 64 = unat j mod 64"
  proof -
    have "unat i mod 64 \<le> 63" "unat j mod 64 \<le> 63"
      using mod_less_divisor [of 64 "unat i"] mod_less_divisor [of 64 "unat j"] by simp_all
    then show ?thesis by linarith
  qed
  moreover have "64 * a + b = 64 * c + d \<longleftrightarrow> a = c \<and> b = d" if "b < 64" "d < 64" for a b c d :: nat
  proof
    assume eq: "64 * a + b = 64 * c + d"
    from arg_cong [OF eq, of "\<lambda>x. x mod 64"] that have "b = d" by simp
    with eq show "a = c \<and> b = d" by simp
  qed simp
  ultimately show ?thesis
    unfolding split [of "unat i"] split [of "unat j"] unat_seg_bit by simp
qed

lemma bm_contains_bit:
  "bm_contains bm j \<longleftrightarrow> (case oget bm (segment_of j) of Some m \<Rightarrow> bit m (unat (seg_bit j)) | None \<Rightarrow> False)"
  unfolding bm_contains_def mask_bit by simp

lemma bit_single: "bit (push_bit (unat (seg_bit i)) 1 :: u64) (unat (seg_bit j)) \<longleftrightarrow> unat (seg_bit i) = unat (seg_bit j)"
proof -
  have "unat (seg_bit j) < 64" by (simp add: unat_seg_bit)
  then show ?thesis by (auto simp: bit_exp_iff possible_bit_word)
qed

lemma bm_contains_set_index:
  "bm_contains (set_index i bm) j \<longleftrightarrow> bm_contains bm j \<or> unat i mod 2 ^ 22 = unat j mod 2 ^ 22"
proof -
  have "bit ((case oget bm (segment_of i) of Some m \<Rightarrow> m | None \<Rightarrow> 0) OR push_bit (unat (seg_bit i)) 1) (unat (seg_bit j))
      \<longleftrightarrow> (case oget bm (segment_of i) of Some m \<Rightarrow> bit m (unat (seg_bit j)) | None \<Rightarrow> False)
           \<or> unat (seg_bit i) = unat (seg_bit j)"
    unfolding bit_or_iff bit_single by (simp split: option.splits)
  then show ?thesis
    unfolding same_place_iff [symmetric] bm_contains_bit set_index_def Let_def oget_oput
    by (cases "segment_of j = segment_of i") simp_all
qed

lemma bm_contains_fold_set_index:
  "bm_contains (fold set_index is bm) j \<longleftrightarrow>
     bm_contains bm j \<or> (\<exists>i \<in> set is. unat i mod 2 ^ 22 = unat j mod 2 ^ 22)"
  by (induction "is" arbitrary: bm) (auto simp: bm_contains_set_index)

subsection \<open>Iteration\<close>

lemma map_filter_rev_upt:
  "List.map_filter (\<lambda>b. if P b then Some (f b) else None) xs = map f (filter P xs)"
  by (induction xs) (auto simp: List.map_filter_def)

lemma segment_indices_alt:
  "segment_indices (s, m) = map (\<lambda>b. ucast s * 64 + (63 - of_nat b)) (filter (bit m) (rev [0..<64]))"
  unfolding segment_indices_def prod.case Let_def mask_bit map_filter_rev_upt SEGMENT_BITS_def by simp

lemma unat_index:
  assumes "b < 64"
  shows "unat (ucast (s :: u16) * 64 + (63 - of_nat b) :: u32) = unat s * 64 + (63 - b)"
proof -
  have s: "unat s < 65536" using unsigned_less [of s, where ?'a = nat] by simp
  have b: "unat (63 - of_nat b :: u32) = 63 - b"
    using assms by (simp add: unat_sub word_le_nat_alt unat_of_nat)
  have us: "unat (ucast s :: u32) = unat s"
    using s by (simp add: unsigned_ucast_eq take_bit_eq_mod)
  have "unat (ucast s * 64 :: u32) = unat s * 64"
    using s us by (simp add: unat_word_ariths)
  then show ?thesis
    using s b by (simp add: unat_word_ariths)
qed

lemma segment_indices_unat:
  "map unat (segment_indices (s, m)) = map (\<lambda>b. unat s * 64 + (63 - b)) (filter (bit m) (rev [0..<64]))"
  unfolding segment_indices_alt map_map by (rule map_cong [OF refl]) (use unat_index in auto)

lemma sorted_wrt_concat_blocks:
  assumes "sorted_wrt (<) (map fst es)" and "\<And>e. e \<in> set es \<Longrightarrow> sorted_wrt (<) (f e)"
    and "\<And>e x. e \<in> set es \<Longrightarrow> x \<in> set (f e) \<Longrightarrow> g (fst e) \<le> x \<and> x < g (fst e) + 64"
    and "\<And>a b. a < b \<Longrightarrow> g a + 64 \<le> g b"
  shows "sorted_wrt (<) (concat (map f es) :: nat list)"
  using assms(1-3)
proof (induction es)
  case (Cons e es)
  have "x < y" if "x \<in> set (f e)" "e' \<in> set es" "y \<in> set (f e')" for x y e'
  proof -
    have "fst e < fst e'" using Cons.prems(1) that(2) by auto
    with assms(4) have "g (fst e) + 64 \<le> g (fst e')" by blast
    with Cons.prems(3) [of e x] Cons.prems(3) [of e' y] that show ?thesis by fastforce
  qed
  moreover have "sorted_wrt (<) (concat (map f es))"
    using Cons.prems by (intro Cons.IH) auto
  ultimately show ?case
    using Cons.prems(2) by (auto simp: sorted_wrt_append)
qed simp

lemma sorted_map_descending:
  "sorted_wrt (>) xs \<Longrightarrow> \<forall>b \<in> set xs. b < 64 \<Longrightarrow> sorted_wrt (<) (map (\<lambda>b. k + (63 - b)) xs :: nat list)"
  by (induction xs) auto

lemma sorted_filter_rev_upt: "sorted_wrt (<) (map (\<lambda>b. k + (63 - b)) (filter P (rev [0..<64])) :: nat list)"
proof (rule sorted_map_descending)
  show "sorted_wrt (>) (filter P (rev [0..<64]))"
    by (rule sorted_wrt_filter) (simp only: sorted_wrt_rev sorted_wrt_upt)
qed auto

lemma sorted_iter_indices: "sorted_wrt (<) (map unat (iter_indices bm))"
proof -
  have "map unat (iter_indices bm) = concat (map (\<lambda>e. map unat (segment_indices e)) (entries bm))"
    by (simp add: iter_indices_def map_concat comp_def)
  moreover have "sorted_wrt (<) (concat (map (\<lambda>e. map unat (segment_indices e)) (entries bm)))"
  proof (rule sorted_wrt_concat_blocks [where g = "\<lambda>s. unat s * 64"])
    fix e assume "e \<in> set (entries bm)"
    show "sorted_wrt (<) (map unat (segment_indices e))"
      by (cases e) (simp only: segment_indices_unat sorted_filter_rev_upt)
    fix x assume "x \<in> set (map unat (segment_indices e))"
    then show "unat (fst e) * 64 \<le> x \<and> x < unat (fst e) * 64 + 64"
      by (cases e) (auto simp only: segment_indices_unat set_map fst_conv)
  qed (use sorted_entries in \<open>auto simp: word_less_nat_alt\<close>)
  ultimately show ?thesis by simp
qed

lemma in_segment_indices:
  assumes "unat i < 2 ^ 22"
  shows "i \<in> set (segment_indices (s, m)) \<longleftrightarrow> segment_of i = s \<and> bit m (unat (seg_bit i))"
proof -
  have "i \<in> set (segment_indices (s, m)) \<longleftrightarrow> unat i \<in> set (map unat (segment_indices (s, m)))"
    by (auto simp: word_unat_eq_iff [symmetric])
  also have "\<dots> \<longleftrightarrow> (\<exists>b < 64. bit m b \<and> unat i = unat s * 64 + (63 - b))"
    unfolding segment_indices_unat by auto
  also have "\<dots> \<longleftrightarrow> unat i div 64 = unat s \<and> bit m (63 - unat i mod 64)"
  proof
    assume "\<exists>b < 64. bit m b \<and> unat i = unat s * 64 + (63 - b)"
    then obtain b where b: "b < 64" "bit m b" "unat i = unat s * 64 + (63 - b)" by blast
    define c where "c = 63 - b"
    have "c < 64" "63 - c = b" using b(1) by (simp_all add: c_def)
    moreover have "unat i = unat s * 64 + c" using b(3) by (simp only: c_def)
    ultimately have "unat i div 64 = unat s" "63 - unat i mod 64 = b" by simp_all
    with b(2) show "unat i div 64 = unat s \<and> bit m (63 - unat i mod 64)" by simp
  next
    assume r: "unat i div 64 = unat s \<and> bit m (63 - unat i mod 64)"
    have "unat i mod 64 < 64" by simp
    then have "63 - unat i mod 64 < 64" "63 - (63 - unat i mod 64) = unat i mod 64" by linarith+
    with r show "\<exists>b < 64. bit m b \<and> unat i = unat s * 64 + (63 - b)"
      by (metis div_mult_mod_eq)
  qed
  also have "unat i div 64 = unat s \<longleftrightarrow> segment_of i = s"
    using assms by (auto simp: word_unat_eq_iff unat_segment_of)
  finally show ?thesis by (simp add: unat_seg_bit)
qed

lemma segment_indices_bound: "i \<in> set (segment_indices (s, m)) \<Longrightarrow> unat i < 2 ^ 22"
proof -
  assume "i \<in> set (segment_indices (s, m))"
  then have "unat i \<in> set (map unat (segment_indices (s, m)))" by simp
  then obtain b where "unat i = unat s * 64 + (63 - b)"
    unfolding segment_indices_unat set_map by blast
  moreover have "unat s < 65536" using unsigned_less [of s, where ?'a = nat] by simp
  ultimately show ?thesis by simp
qed

lemma set_iter_indices: "set (iter_indices bm) = {i. unat i < 2 ^ 22 \<and> bm_contains bm i}"
proof -
  have "i \<in> set (iter_indices bm) \<longleftrightarrow> unat i < 2 ^ 22 \<and> bm_contains bm i" for i
  proof (cases "unat i < 2 ^ 22")
    case True
    have "i \<in> set (iter_indices bm) \<longleftrightarrow> (\<exists>s m. (s, m) \<in> set (entries bm) \<and> i \<in> set (segment_indices (s, m)))"
      by (auto simp: iter_indices_def)
    with True show ?thesis
      by (simp only: in_segment_indices [OF True] in_entries_iff bm_contains_bit) (auto split: option.splits)
  next
    case False
    then show ?thesis using segment_indices_bound by (fastforce simp: iter_indices_def)
  qed
  then show ?thesis by blast
qed

subsection \<open>The full selection\<close>

lemma oget_fold_oput_const:
  "oget (fold (\<lambda>k. oput (f k) v) ks m) s = (if s \<in> f ` set ks then Some v else oget m s)"
  by (induction ks arbitrary: m) (auto simp: oget_oput)

lemma segment_cast_image:
  assumes "n \<le> 65536"
  shows "s \<in> (\<lambda>k. ucast (of_nat k :: u32) :: u16) ` set [0..<n] \<longleftrightarrow> unat s < n"
proof -
  have cast: "unat (ucast (of_nat k :: u32) :: u16) = k" if "k < n" for k
    using that assms by (simp add: unsigned_ucast_eq take_bit_eq_mod unat_of_nat)
  show ?thesis
  proof
    assume "unat s < n"
    with cast [of "unat s"] have "s = ucast (of_nat (unat s) :: u32)" by (simp add: word_unat_eq_iff)
    with \<open>unat s < n\<close> show "s \<in> (\<lambda>k. ucast (of_nat k :: u32) :: u16) ` set [0..<n]" by force
  qed (use cast in auto)
qed

lemma bit_high_mask:
  assumes "0 < r" "r < 64" "n < 64"
  shows "bit (NOT (push_bit (64 - r) 1 - 1) :: u64) n \<longleftrightarrow> 64 - r \<le> n"
proof -
  have "(push_bit (64 - r) 1 - 1 :: u64) = mask (64 - r)"
    by (simp add: mask_eq_exp_minus_1)
  then show ?thesis using assms by (simp add: bit_not_iff bit_mask_iff possible_bit_word not_less)
qed

lemma block_less_iff:
  fixes a b c d :: nat
  assumes "b < 64" "d < 64"
  shows "64 * a + b < 64 * c + d \<longleftrightarrow> (if a = c then b < d else a < c)"
  using assms by (cases a c rule: linorder_cases) auto

lemma select_all_contains:
  assumes c: "unat c \<le> 2 ^ 22" and j: "unat j < 2 ^ 22"
  shows "bm_contains (select_all c) j \<longleftrightarrow> unat j < unat c"
proof -
  define full r where "full = unat c div 64" and "r = unat c mod 64"
  have c64: "unat c = 64 * full + r" "r < 64" by (simp_all add: full_def r_def)
  then have cr: "unat c = 64 * full + r" "r < 64" "full \<le> 65536" and full: "r > 0 \<Longrightarrow> full < 65536"
    using c by simp_all
  have u: "unat (c div 64) = full" "unat (c mod 64) = r"
    by (simp_all add: full_def r_def unat_div unat_mod)
  have r0: "0 < c mod 64 \<longleftrightarrow> 0 < r" by (simp add: u(2)[symmetric] word_less_nat_alt)
  have seg: "unat (segment_of j) = unat j div 64" using j by (simp add: unat_segment_of)
  have top: "segment_of j = ucast (c div 64) \<longleftrightarrow> unat j div 64 = full" if "r > 0"
    using full [OF that] seg by (simp add: word_unat_eq_iff unsigned_ucast_eq take_bit_eq_mod u)
  have sub: "unat (64 - c mod 64) = 64 - r"
    using u(2) cr(2) by (simp add: unat_sub word_le_nat_alt)
  have bitpos: "unat (seg_bit j) = 63 - unat j mod 64" "63 - unat j mod 64 < 64"
    by (simp_all add: unat_seg_bit)
  have low: "oget (fold (\<lambda>seg. oput (ucast (of_nat seg :: u32)) (- 1)) [0..<full] oempty) (segment_of j)
      = (if unat j div 64 < full then Some (- 1 :: u64) else None)"
    by (simp add: oget_fold_oput_const segment_cast_image [OF cr(3)] seg del: set_upt)
  have "unat j = 64 * (unat j div 64) + unat j mod 64" "unat j mod 64 < 64" by simp_all
  then have jm: "unat j < unat c \<longleftrightarrow> (if unat j div 64 = full then unat j mod 64 < r else unat j div 64 < full)"
    using block_less_iff [of "unat j mod 64" r "unat j div 64" full] cr(1,2) by metis
  show ?thesis
  proof (cases "r > 0")
    case True
    have "bm_contains (select_all c) j \<longleftrightarrow>
        (if unat j div 64 = full then 64 - r \<le> 63 - unat j mod 64 else unat j div 64 < full)"
      unfolding bm_contains_bit select_all_def Let_def SEGMENT_BITS_def u r0 sub
      using True top low bit_high_mask [OF True cr(2) bitpos(2)] bitpos
      by (simp add: oget_oput)
    moreover have "64 - r \<le> 63 - unat j mod 64 \<longleftrightarrow> unat j mod 64 < r"
      using True cr(2) mod_less_divisor [of 64 "unat j"] by linarith
    ultimately show ?thesis using jm by simp
  next
    case False
    have "bm_contains (select_all c) j \<longleftrightarrow> unat j div 64 < full"
      unfolding bm_contains_bit select_all_def Let_def SEGMENT_BITS_def u r0
      using False low bitpos by simp
    with False jm show ?thesis by auto
  qed
qed

lemma sorted_unat_unique:
  assumes "sorted_wrt (<) (map unat xs)" "sorted_wrt (<) (map unat ys)" "set xs = set ys"
  shows "xs = (ys :: u32 list)"
proof -
  have "map unat xs = map unat ys"
    using assms by (metis list.set_map strict_sorted_equal)
  then show ?thesis by (simp add: inj_map_eq_map)
qed

lemma contains_from_indices':
  "bm_contains (from_indices is) j \<longleftrightarrow> (\<exists>i \<in> set is. unat i mod 2 ^ 22 = unat j mod 2 ^ 22)"
  unfolding from_indices_def bm_contains_fold_set_index by (simp add: bm_contains_def)

subsection \<open>Properties\<close>

text \<open>An index is contained in the bitmap built from a list exactly when the list holds an
  index equal to it modulo \<open>2^22\<close>: indices below \<open>2^22\<close> (65536 segments of 64) are exact, and
  larger ones alias because the segment number is cast to 16 bits.\<close>

theorem contains_from_indices:
  "bm_contains (from_indices is) j \<longleftrightarrow> (\<exists>i \<in> set is. unat i mod 2 ^ 22 = unat j mod 2 ^ 22)"
  by (rule contains_from_indices')

theorem contains_from_indices_witness:
  "bm_contains (from_indices [0, 65]) 65 \<and> \<not> bm_contains (from_indices [0, 65]) 1
     \<and> bm_contains (from_indices [4194304]) 0"
  by (simp add: contains_from_indices)

text \<open>Decoding what was encoded: for indices below \<open>2^22\<close>, iterating the bitmap built from a
  list yields the list's elements in ascending order, each once.\<close>

theorem iter_from_indices_roundtrip:
  assumes "\<forall>i \<in> set is. unat i < 2 ^ 22"
  shows "iter_indices (from_indices is) = sorted_list_of_set (set is)"
proof (rule sorted_unat_unique)
  have "sorted_wrt (<) (sorted_list_of_set (set is))" by (simp add: strict_sorted_list_of_set)
  then show "sorted_wrt (<) (map unat (sorted_list_of_set (set is)))"
    unfolding sorted_wrt_map by (rule sorted_wrt_mono_rel [rotated]) (simp add: word_less_nat_alt)
  show "set (iter_indices (from_indices is)) = set (sorted_list_of_set (set is))"
    using assms by (auto simp: set_iter_indices contains_from_indices' simp flip: word_unat_eq_iff)
qed (rule sorted_iter_indices)

theorem iter_from_indices_roundtrip_witness:
  "iter_indices (from_indices [70, 3, 3]) = [3, 70]"
proof -
  have "iter_indices (from_indices [70, 3, 3]) = sorted_list_of_set (set [70, 3, 3])"
    by (rule iter_from_indices_roundtrip) simp
  also have "\<dots> = [3, 70]"
    by (simp add: sorted_list_of_set.sorted_key_list_of_set_insert_remove)
  finally show ?thesis .
qed

text \<open>\<open>select_all(count)\<close>, built segment by segment with a mask for the remainder, selects
  exactly the indices below \<open>count\<close> for every count up to \<open>2^22\<close>: it iterates to
  \<open>0, 1, ..., count - 1\<close>, the bitmap \<open>from_indices\<close> would build from that range.\<close>

theorem select_all_iter:
  assumes "unat c \<le> 2 ^ 22"
  shows "iter_indices (select_all c) = map of_nat [0..<unat c]"
proof (rule sorted_unat_unique)
  have small: "unat (of_nat k :: u32) = k" if "k < unat c" for k
    using that assms by (simp add: unat_of_nat)
  then have "map unat (map of_nat [0..<unat c] :: u32 list) = [0..<unat c]"
    unfolding map_map by (intro map_idI) simp
  then show "sorted_wrt (<) (map unat (map of_nat [0..<unat c] :: u32 list))"
    by (simp add: sorted_wrt_upt del: map_map)
  show "set (iter_indices (select_all c)) = set (map of_nat [0..<unat c])"
  proof (rule set_eqI)
    fix i :: u32
    have "i \<in> of_nat ` {0..<unat c} \<longleftrightarrow> unat i < unat c"
    proof
      assume "unat i < unat c"
      with small [of "unat i"] have "i = of_nat (unat i)" by (simp add: word_unat_eq_iff)
      with \<open>unat i < unat c\<close> show "i \<in> of_nat ` {0..<unat c}" by force
    qed (use small in auto)
    then show "i \<in> set (iter_indices (select_all c)) \<longleftrightarrow> i \<in> set (map of_nat [0..<unat c])"
      using assms select_all_contains [OF assms] by (auto simp: set_iter_indices)
  qed
qed (rule sorted_iter_indices)

theorem select_all_iter_witness: "iter_indices (select_all 3) = [0, 1, 2]"
  using select_all_iter [of 3] by (simp add: upt_rec)

end
