(* ===== verification/Mempool.thy ===== *)
theory Mempool
  imports Consensus_Types
begin

text \<open>
  \<open>shared-rs/consensus/src/mempool.rs\<close>: the transaction pool, with its free FIFO queue, the
  membership index, the per-peer announcement sets, the replay filter of applied ids, and the
  manifests and pinned bodies of endorser blocks.

  \<^item> \<open>VecDeque\<close> is a list (front first); \<open>BTreeSet\<close> is a set, iterated in ascending order through
    \<open>sorted_list_of_set\<close>; \<open>BTreeMap\<close> is \<open>omap\<close>. \<open>Arc\<close> sharing has no effect on values.
  \<^item> Of the behaviour tree's control signal the pool reads one field, the withholding policy.
  \<^item> Log lines (\<open>info!\<close>, \<open>warn!\<close>) and the telemetry snapshot \<open>state_sizes\<close> are left out.
  \<^item> \<open>total_bytes\<close> is a \<open>usize\<close> the code subtracts from; \<open>mempool_inv\<close> makes every such
    subtraction exact.
\<close>

subsection \<open>Data\<close>

type_synonym tx_id = hash32
type_synonym tx_body = "u8 list"

record tx_info =
  ti_tx_id :: tx_id
  ti_body :: tx_body
  ti_size :: u32

text \<open>\<open>TxInfo::new_with_body\<close>, over the body's hash function.\<close>

definition tx_info_new_with_body :: "(tx_body \<Rightarrow> tx_id) \<Rightarrow> tx_body \<Rightarrow> tx_info" where
  "tx_info_new_with_body hash body =
     \<lparr>ti_tx_id = hash body, ti_body = body, ti_size = of_nat (length body)\<rparr>"

record mempool_tx =
  mt_tx :: tx_info
  mt_ours :: bool
  mt_slot :: u64

definition mt_id :: "mempool_tx \<Rightarrow> tx_id" where "mt_id tx = ti_tx_id (mt_tx tx)"
definition mt_body :: "mempool_tx \<Rightarrow> tx_body" where "mt_body tx = ti_body (mt_tx tx)"
definition mt_size :: "mempool_tx \<Rightarrow> nat" where "mt_size tx = unat (ti_size (mt_tx tx))"

datatype tx_reject_reason = QueueFull | ValidationFailed string | AlreadyKnown | EbClosurePruned

datatype mempool_effect =
    ValidateTx tx_id tx_body
  | TxRejected tx_id tx_reject_reason

datatype tx_withholding_policy =
    NoWithholding
  | WithholdTxs (withholding_slots: u64) (tx_producer_only: bool)
      (withhold_tx_submission: bool) (withhold_leios_fetch: bool)

record mempool_state =
  mp_applied :: "tx_id set"
  mp_applied_order :: "tx_id list"
  mp_txs :: "mempool_tx list"
  mp_tx_index :: "tx_id set"
  mp_total_bytes :: nat
  mp_capacity :: nat
  mp_peer_advertised :: "(peer_id, tx_id set) omap"
  mp_peer_unannounced :: "(peer_id, tx_id set) omap"
  mp_pending_validation :: "(tx_id, tx_body) omap"
  mp_eb_manifests :: "(eb_key, tx_id list) omap"
  mp_eb_pinned :: "(tx_id, mempool_tx) omap"
  mp_max_eb_slot :: u64
  mp_protected_chain_tip_eb :: "eb_key option"
  mp_eb_retention_slots :: u64
  mp_withholding :: tx_withholding_policy
  mp_control_stats :: "nat \<times> nat"

definition DEFAULT_EB_RETENTION_SLOTS :: u64 where
  "DEFAULT_EB_RETENTION_SLOTS = 100"

definition APPLIED_BOUND :: nat where
  "APPLIED_BOUND = 65536"

definition mempool_new_with_eb_retention :: "nat \<Rightarrow> u64 \<Rightarrow> mempool_state" where
  "mempool_new_with_eb_retention capacity eb_retention_slots =
     \<lparr>mp_applied = {}, mp_applied_order = [], mp_txs = [], mp_tx_index = {}, mp_total_bytes = 0,
      mp_capacity = capacity, mp_peer_advertised = oempty, mp_peer_unannounced = oempty,
      mp_pending_validation = oempty, mp_eb_manifests = oempty, mp_eb_pinned = oempty,
      mp_max_eb_slot = 0, mp_protected_chain_tip_eb = None,
      mp_eb_retention_slots = eb_retention_slots, mp_withholding = NoWithholding,
      mp_control_stats = (0, 0)\<rparr>"

definition mempool_new :: "nat \<Rightarrow> mempool_state" where
  "mempool_new capacity = mempool_new_with_eb_retention capacity DEFAULT_EB_RETENTION_SLOTS"

definition mp_apply_control :: "mempool_state \<Rightarrow> tx_withholding_policy \<Rightarrow> mempool_state" where
  "mp_apply_control st policy = st\<lparr>mp_withholding := policy\<rparr>"

subsection \<open>Queries\<close>

definition mp_contains :: "mempool_state \<Rightarrow> tx_id \<Rightarrow> bool" where
  "mp_contains st tid \<longleftrightarrow> tid \<in> mp_tx_index st"

definition current_tx_ids :: "mempool_state \<Rightarrow> tx_id set" where
  "current_tx_ids st = mp_tx_index st"

definition get_record_by_id :: "mempool_state \<Rightarrow> tx_id \<Rightarrow> mempool_tx option" where
  "get_record_by_id st tid =
     (case oget (mp_eb_pinned st) tid of
        Some r \<Rightarrow> Some r
      | None \<Rightarrow> find (\<lambda>tx. mt_id tx = tid) (mp_txs st))"

definition get_body_by_id :: "mempool_state \<Rightarrow> tx_id \<Rightarrow> tx_body option" where
  "get_body_by_id st tid = map_option mt_body (get_record_by_id st tid)"

definition filter_transaction :: "mempool_state \<Rightarrow> u64 \<Rightarrow> tx_id \<Rightarrow> bool \<Rightarrow> bool" where
  "filter_transaction st current_slot tid is_leios_fetch =
     (case mp_withholding st of
        NoWithholding \<Rightarrow> True
      | WithholdTxs delay only_ours tx_submission tx_fetch \<Rightarrow>
          if (is_leios_fetch \<and> \<not> tx_fetch) \<or> (\<not> is_leios_fetch \<and> \<not> tx_submission) then True
          else (case get_record_by_id st tid of
                  None \<Rightarrow> True
                | Some r \<Rightarrow>
                    (let generator_applicable = (mt_ours r \<or> \<not> only_ours);
                         delay_applicable = (saturating_sub current_slot (mt_slot r) < delay)
                     in \<not> (generator_applicable \<and> delay_applicable))))"

definition has_tx :: "mempool_state \<Rightarrow> tx_id \<Rightarrow> bool" where
  "has_tx st tid \<longleftrightarrow> mp_contains st tid \<or> ohas (mp_eb_pinned st) tid"

definition get_eb_manifest :: "mempool_state \<Rightarrow> eb_key \<Rightarrow> tx_id list option" where
  "get_eb_manifest st key = oget (mp_eb_manifests st) key"

definition get_eb_bodies :: "mempool_state \<Rightarrow> eb_key \<Rightarrow> u32 list \<Rightarrow> tx_body list option" where
  "get_eb_bodies st key indices =
     (case oget (mp_eb_manifests st) key of
        None \<Rightarrow> None
      | Some manifest \<Rightarrow>
          Some (List.map_filter
            (\<lambda>i. if unat i < length manifest then get_body_by_id st (manifest ! unat i) else None) indices))"

definition missing_eb_indices :: "mempool_state \<Rightarrow> eb_key \<Rightarrow> u32 list" where
  "missing_eb_indices st key =
     (case oget (mp_eb_manifests st) key of
        None \<Rightarrow> []
      | Some manifest \<Rightarrow>
          map (\<lambda>(i, _). of_nat i) (filter (\<lambda>(_, tid). \<not> has_tx st tid) (enumerate 0 manifest)))"

subsection \<open>Helpers\<close>

definition prune_from_peer_sets :: "tx_id \<Rightarrow> mempool_state \<Rightarrow> mempool_state" where
  "prune_from_peer_sets tid st =
     st\<lparr>mp_peer_advertised := omap_values (\<lambda>_ s. s - {tid}) (mp_peer_advertised st),
        mp_peer_unannounced := omap_values (\<lambda>_ s. s - {tid}) (mp_peer_unannounced st)\<rparr>"

definition ensure_peer_registered :: "peer_id \<Rightarrow> mempool_state \<Rightarrow> mempool_state" where
  "ensure_peer_registered peer st =
     (if \<not> ohas (mp_peer_unannounced st) peer
      then st\<lparr>mp_peer_unannounced := oput peer (mp_tx_index st) (mp_peer_unannounced st)\<rparr>
      else st)"

text \<open>A peer's owed set (the \<open>expect\<close> on a registered peer) and its advertised set (\<open>entry(..).or_default()\<close>).\<close>

definition owed :: "mempool_state \<Rightarrow> peer_id \<Rightarrow> tx_id set" where
  "owed st peer = (case oget (mp_peer_unannounced st) peer of Some s \<Rightarrow> s | None \<Rightarrow> {})"

definition advertised_to :: "mempool_state \<Rightarrow> peer_id \<Rightarrow> tx_id set" where
  "advertised_to st peer = (case oget (mp_peer_advertised st) peer of Some s \<Rightarrow> s | None \<Rightarrow> {})"

definition prune_eb_slot_window :: "mempool_state \<Rightarrow> mempool_state \<times> mempool_effect list" where
  "prune_eb_slot_window st =
     (let cutoff = saturating_sub (mp_max_eb_slot st) (mp_eb_retention_slots st)
      in if cutoff = 0 then (st, [])
         else
           let manifests = oretain (\<lambda>key _. ebk_slot key \<ge> cutoff \<or> Some key = mp_protected_chain_tip_eb st)
                             (mp_eb_manifests st);
               still_referenced = set (concat (ovalues manifests));
               fx = map (\<lambda>tid. TxRejected tid EbClosurePruned)
                      (filter (\<lambda>tid. tid \<notin> still_referenced) (okeys (mp_eb_pinned st)))
           in (st\<lparr>mp_eb_manifests := manifests,
                  mp_eb_pinned := oretain (\<lambda>tid _. tid \<in> still_referenced) (mp_eb_pinned st)\<rparr>, fx))"

definition bump_eb_slot :: "mempool_state \<Rightarrow> u64 \<Rightarrow> mempool_state \<times> mempool_effect list" where
  "bump_eb_slot st slot = prune_eb_slot_window (st\<lparr>mp_max_eb_slot := max (mp_max_eb_slot st) slot\<rparr>)"

definition evict_oldest :: "mempool_state \<Rightarrow> mempool_state \<times> mempool_effect list" where
  "evict_oldest st =
     (if length (mp_txs st) \<ge> mp_capacity st then
        (case mp_txs st of
           [] \<Rightarrow> (st, [])
         | old # rest \<Rightarrow>
             (prune_from_peer_sets (mt_id old)
                (st\<lparr>mp_txs := rest, mp_tx_index := mp_tx_index st - {mt_id old},
                    mp_total_bytes := mp_total_bytes st - mt_size old\<rparr>),
              [TxRejected (mt_id old) QueueFull]))
      else (st, []))"

definition admit_internal ::
  "mempool_state \<Rightarrow> tx_id \<Rightarrow> tx_body \<Rightarrow> u32 \<Rightarrow> u64 \<Rightarrow> bool \<Rightarrow> mempool_state \<times> mempool_effect list" where
  "admit_internal st tid body sz slot ours =
     (if tid \<in> mp_applied st then (st, [TxRejected tid AlreadyKnown])
      else
        let (st1, fx) = evict_oldest st
        in (st1\<lparr>mp_total_bytes := mp_total_bytes st1 + unat sz,
                mp_tx_index := insert tid (mp_tx_index st1),
                mp_peer_unannounced := omap_values (\<lambda>_ s. insert tid s) (mp_peer_unannounced st1),
                mp_txs := mp_txs st1 @
                  [\<lparr>mt_tx = \<lparr>ti_tx_id = tid, ti_body = body, ti_size = sz\<rparr>, mt_ours = ours, mt_slot = slot\<rparr>]\<rparr>,
            fx))"

subsection \<open>Operations\<close>

definition admit_validated ::
  "mempool_state \<Rightarrow> tx_id \<Rightarrow> tx_body \<Rightarrow> u32 \<Rightarrow> u64 \<Rightarrow> bool \<Rightarrow> mempool_state \<times> mempool_effect list" where
  "admit_validated st tid body sz slot ours =
     (if mp_contains st tid then (st, [TxRejected tid AlreadyKnown])
      else admit_internal
             (st\<lparr>mp_pending_validation := odel tid (mp_pending_validation st)\<rparr>) tid body sz slot ours)"

definition mark_applied :: "tx_id \<Rightarrow> mempool_state \<Rightarrow> mempool_state" where
  "mark_applied tid st =
     (let st1 =
        (if tid \<in> mp_applied st then st
         else
           let applied = insert tid (mp_applied st);
               order = mp_applied_order st @ [tid]
           in if length order > APPLIED_BOUND
              then st\<lparr>mp_applied := applied - {hd order}, mp_applied_order := tl order\<rparr>
              else st\<lparr>mp_applied := applied, mp_applied_order := order\<rparr>)
      in st1\<lparr>mp_pending_validation := odel tid (mp_pending_validation st1)\<rparr>)"

definition mp_on_block_applied :: "mempool_state \<Rightarrow> tx_id list \<Rightarrow> mempool_state" where
  "mp_on_block_applied st included =
     (if included = [] then st
      else
        let st1 = fold mark_applied included st;
            kept = filter (\<lambda>tx. mt_id tx \<notin> set included) (mp_txs st1);
            st2 = st1\<lparr>mp_txs := kept\<rparr>
        in if length kept \<noteq> length (mp_txs st1)
           then fold prune_from_peer_sets included
                  (st2\<lparr>mp_tx_index := mp_tx_index st2 - set included,
                       mp_total_bytes := sum_list (map mt_size kept)\<rparr>)
           else st2)"

definition mp_on_block_rolled_back :: "mempool_state \<Rightarrow> mempool_state" where
  "mp_on_block_rolled_back st = st"

definition forget_peer :: "mempool_state \<Rightarrow> peer_id \<Rightarrow> mempool_state" where
  "forget_peer st peer =
     st\<lparr>mp_peer_advertised := odel peer (mp_peer_advertised st),
        mp_peer_unannounced := odel peer (mp_peer_unannounced st)\<rparr>"

text \<open>The lazy \<open>filter(..).take(max_count)\<close> of the peek, counting the candidates it tests.\<close>

fun select_unannounced :: "(tx_id \<Rightarrow> bool) \<Rightarrow> nat \<Rightarrow> tx_id list \<Rightarrow> nat \<times> nat \<Rightarrow> tx_id list \<times> (nat \<times> nat)" where
  "select_unannounced leave 0 ids stats = ([], stats)"
| "select_unannounced leave (Suc n) [] stats = ([], stats)"
| "select_unannounced leave (Suc n) (tid # ids) (withheld, passed) =
     (if leave tid
      then let (sel, stats) = select_unannounced leave n ids (withheld, passed + 1) in (tid # sel, stats)
      else select_unannounced leave (Suc n) ids (withheld + 1, passed))"

fun resolve_free :: "tx_id set \<Rightarrow> nat \<Rightarrow> mempool_tx list \<Rightarrow> mempool_tx list \<Rightarrow> mempool_tx list" where
  "resolve_free wanted n [] result = result"
| "resolve_free wanted n (tx # txs) result =
     (if mt_id tx \<in> wanted
      then (if length (result @ [tx]) = n then result @ [tx] else resolve_free wanted n txs (result @ [tx]))
      else resolve_free wanted n txs result)"

fun resolve_pinned :: "(tx_id, mempool_tx) omap \<Rightarrow> tx_id list \<Rightarrow> mempool_tx list \<Rightarrow> mempool_tx list" where
  "resolve_pinned pinned [] result = result"
| "resolve_pinned pinned (tid # ids) result =
     (if \<exists>tx \<in> set result. mt_id tx = tid then resolve_pinned pinned ids result
      else case oget pinned tid of
             Some tx \<Rightarrow> resolve_pinned pinned ids (result @ [tx])
           | None \<Rightarrow> resolve_pinned pinned ids result)"

definition peek_unannounced_for_peer ::
  "mempool_state \<Rightarrow> peer_id \<Rightarrow> nat \<Rightarrow> u64 \<Rightarrow> mempool_state \<times> mempool_tx list" where
  "peek_unannounced_for_peer st0 peer max_count current_slot =
     (let st = ensure_peer_registered peer st0;
          unann = owed st peer
      in if unann = {} \<or> max_count = 0 then (st, [])
         else
           let (to_send, stats) = select_unannounced (\<lambda>tid. filter_transaction st current_slot tid False)
                                    max_count (sorted_list_of_set unann) (0, 0);
               st1 = st\<lparr>mp_control_stats := (fst (mp_control_stats st) + fst stats, snd (mp_control_stats st) + snd stats),
                        mp_peer_unannounced := oput peer (unann - set to_send) (mp_peer_unannounced st),
                        mp_peer_advertised := oput peer (advertised_to st peer \<union> set to_send) (mp_peer_advertised st)\<rparr>;
               result = resolve_free (set to_send) (length to_send) (mp_txs st1) []
           in (st1, if to_send \<noteq> [] \<and> length result = length to_send then result
                    else resolve_pinned (mp_eb_pinned st1) to_send result))"

definition mark_announced_to_peer :: "mempool_state \<Rightarrow> peer_id \<Rightarrow> tx_id \<Rightarrow> u64 \<Rightarrow> mempool_state \<times> bool" where
  "mark_announced_to_peer st0 peer tid current_slot =
     (let st = ensure_peer_registered peer st0
      in if \<not> filter_transaction st current_slot tid False then (st, False)
         else
           let unann = owed st peer;
               was_owed = (tid \<in> unann);
               st1 = st\<lparr>mp_peer_unannounced := oput peer (unann - {tid}) (mp_peer_unannounced st)\<rparr>
           in (if was_owed
               then st1\<lparr>mp_peer_advertised := oput peer (insert tid (advertised_to st1 peer)) (mp_peer_advertised st1)\<rparr>
               else st1, was_owed))"

function drain_loop :: "nat \<Rightarrow> nat \<Rightarrow> mempool_tx list \<Rightarrow> mempool_state \<Rightarrow> mempool_tx list \<times> mempool_state" where
  "drain_loop max_bytes bytes result st =
     (case mp_txs st of
        [] \<Rightarrow> (result, st)
      | front # rest \<Rightarrow>
          let next_bytes = bytes + mt_size front
          in if next_bytes > max_bytes \<and> result \<noteq> [] then (result, st)
             else
               let st1 = st\<lparr>mp_txs := rest, mp_tx_index := mp_tx_index st - {mt_id front},
                            mp_total_bytes := mp_total_bytes st - mt_size front\<rparr>
               in if next_bytes \<ge> max_bytes then (result @ [front], st1)
                  else drain_loop max_bytes next_bytes (result @ [front]) st1)"
  by pat_completeness auto
termination
  by (relation "measure (\<lambda>(m, b, r, st). length (mp_txs st))") auto

definition drain_up_to :: "mempool_state \<Rightarrow> nat \<Rightarrow> mempool_state \<times> mempool_tx list" where
  "drain_up_to st max_bytes =
     (let (result, st1) = drain_loop max_bytes 0 [] st
      in (fold (\<lambda>tx. prune_from_peer_sets (mt_id tx)) result st1, result))"

definition drain_all :: "mempool_state \<Rightarrow> mempool_state \<times> mempool_tx list" where
  "drain_all st =
     (fold (\<lambda>tx. prune_from_peer_sets (mt_id tx)) (mp_txs st)
        (st\<lparr>mp_total_bytes := 0, mp_txs := [], mp_tx_index := {}\<rparr>), mp_txs st)"

definition record_eb_manifest :: "mempool_state \<Rightarrow> eb_key \<Rightarrow> tx_id list \<Rightarrow> mempool_state \<times> mempool_effect list" where
  "record_eb_manifest st key manifest =
     bump_eb_slot (st\<lparr>mp_eb_manifests := oor_insert key manifest (mp_eb_manifests st)\<rparr>) (ebk_slot key)"

definition pop_front_tx :: "mempool_state \<Rightarrow> mempool_state" where
  "pop_front_tx st =
     (case mp_txs st of
        [] \<Rightarrow> st
      | tx # rest \<Rightarrow>
          prune_from_peer_sets (mt_id tx)
            (st\<lparr>mp_txs := rest, mp_tx_index := mp_tx_index st - {mt_id tx},
                mp_total_bytes := mp_total_bytes st - mt_size tx\<rparr>))"

definition produce_eb :: "mempool_state \<Rightarrow> eb_key \<Rightarrow> nat \<Rightarrow> mempool_state \<times> tx_id list \<times> mempool_effect list" where
  "produce_eb st key count =
     (let n = min count (length (mp_txs st));
          drained = take n (mp_txs st);
          st1 = (pop_front_tx ^^ n) st;
          manifest = map mt_id drained;
          st2 = st1\<lparr>mp_eb_pinned := fold (\<lambda>tx. oor_insert (mt_id tx) tx) drained (mp_eb_pinned st1)\<rparr>;
          st3 = st2\<lparr>mp_eb_manifests := oput key manifest (mp_eb_manifests st2)\<rparr>;
          (st4, fx) = bump_eb_slot st3 (ebk_slot key)
      in (st4, manifest, fx))"

definition pin_eb_transactions :: "mempool_state \<Rightarrow> tx_id list \<Rightarrow> mempool_state" where
  "pin_eb_transactions st manifest =
     st\<lparr>mp_eb_pinned :=
         fold (\<lambda>tid pinned. case find (\<lambda>tx. mt_id tx = tid) (mp_txs st) of
                             None \<Rightarrow> pinned
                           | Some tx \<Rightarrow> oor_insert tid tx pinned) manifest (mp_eb_pinned st)\<rparr>"

definition produce_selected_eb :: "mempool_state \<Rightarrow> eb_key \<Rightarrow> tx_id list \<Rightarrow> mempool_state \<times> mempool_effect list" where
  "produce_selected_eb st key manifest =
     (let st1 = pin_eb_transactions st manifest;
          st2 = st1\<lparr>mp_txs := filter (\<lambda>tx. mt_id tx \<notin> set manifest) (mp_txs st1)\<rparr>;
          st3 = fold (\<lambda>tid s. prune_from_peer_sets tid (s\<lparr>mp_tx_index := mp_tx_index s - {tid}\<rparr>)) manifest st2;
          st4 = st3\<lparr>mp_total_bytes := sum_list (map mt_size (mp_txs st3))\<rparr>
      in record_eb_manifest st4 key manifest)"

definition protect_chain_tip_eb :: "mempool_state \<Rightarrow> eb_key option \<Rightarrow> mempool_state \<times> mempool_effect list" where
  "protect_chain_tip_eb st key = prune_eb_slot_window (st\<lparr>mp_protected_chain_tip_eb := key\<rparr>)"

definition merge_eb_body :: "mempool_state \<Rightarrow> tx_info \<Rightarrow> bool \<Rightarrow> u64 \<Rightarrow> mempool_state" where
  "merge_eb_body st tx ours slot =
     (if mp_contains st (ti_tx_id tx) \<or> ohas (mp_eb_pinned st) (ti_tx_id tx) then st
      else st\<lparr>mp_eb_pinned :=
               oput (ti_tx_id tx) \<lparr>mt_tx = tx, mt_ours = ours, mt_slot = slot\<rparr> (mp_eb_pinned st)\<rparr>)"


subsection \<open>The invariant\<close>

definition pool_inv :: "mempool_state \<Rightarrow> bool" where
  "pool_inv st \<longleftrightarrow>
     distinct (map mt_id (mp_txs st)) \<and>
     mp_tx_index st = mt_id ` set (mp_txs st) \<and>
     mp_total_bytes st = sum_list (map mt_size (mp_txs st)) \<and>
     length (mp_txs st) \<le> max 1 (mp_capacity st)"

definition peers_inv :: "mempool_state \<Rightarrow> bool" where
  "peers_inv st \<longleftrightarrow>
     (\<forall>peer. ohas (mp_peer_unannounced st) peer \<longrightarrow>
        owed st peer \<inter> advertised_to st peer = {} \<and>
        owed st peer \<union> advertised_to st peer = mp_tx_index st) \<and>
     (\<forall>peer. ohas (mp_peer_advertised st) peer \<longrightarrow> ohas (mp_peer_unannounced st) peer)"

definition applied_inv :: "mempool_state \<Rightarrow> bool" where
  "applied_inv st \<longleftrightarrow>
     mp_applied st = set (mp_applied_order st) \<and> distinct (mp_applied_order st) \<and>
     length (mp_applied_order st) \<le> APPLIED_BOUND"

definition pinned_inv :: "mempool_state \<Rightarrow> bool" where
  "pinned_inv st \<longleftrightarrow> (\<forall>tid tx. oget (mp_eb_pinned st) tid = Some tx \<longrightarrow> mt_id tx = tid)"

definition mempool_inv :: "mempool_state \<Rightarrow> bool" where
  "mempool_inv st \<longleftrightarrow>
     pool_inv st \<and> peers_inv st \<and> applied_inv st \<and> pinned_inv st \<and> mp_applied st \<inter> mp_tx_index st = {}"

lemmas mempool_inv_defs = mempool_inv_def pool_inv_def peers_inv_def applied_inv_def pinned_inv_def

lemma mempool_new_inv: "mempool_inv (mempool_new_with_eb_retention capacity slots)"
  by (simp add: mempool_inv_defs mempool_new_with_eb_retention_def)

subsection \<open>One removal for every operation that takes transactions out\<close>

text \<open>
  \<open>remove_ids S\<close> is the reference form of taking transactions out of the free pool: queue,
  index, byte total and both per-peer partitions lose exactly the ids of \<open>S\<close>. Eviction, the
  three drains, block application and EB production are all instances of it.
\<close>

definition prune_set :: "tx_id set \<Rightarrow> mempool_state \<Rightarrow> mempool_state" where
  "prune_set S st =
     st\<lparr>mp_peer_advertised := omap_values (\<lambda>_ s. s - S) (mp_peer_advertised st),
        mp_peer_unannounced := omap_values (\<lambda>_ s. s - S) (mp_peer_unannounced st)\<rparr>"

definition remove_ids :: "tx_id set \<Rightarrow> mempool_state \<Rightarrow> mempool_state" where
  "remove_ids S st =
     (let kept = filter (\<lambda>tx. mt_id tx \<notin> S) (mp_txs st)
      in prune_set S (st\<lparr>mp_txs := kept, mp_tx_index := mp_tx_index st - S,
                          mp_total_bytes := sum_list (map mt_size kept)\<rparr>))"

lemma omap_values_omap_values: "omap_values f (omap_values g m) = omap_values (\<lambda>k v. f k (g k v)) m"
  by (rule omap_eqI) (simp add: oget_omap_values option.map_comp comp_def)

lemma omap_values_ident: "(\<And>k v. f k v = v) \<Longrightarrow> omap_values f m = m"
  by (rule omap_eqI) (auto simp: oget_omap_values option.map_id0 intro: option.map_ident_strong)

lemma omap_values_empty [simp]: "omap_values f oempty = oempty"
  by (rule omap_eqI) (simp add: oget_omap_values)

lemma prune_from_peer_sets_eq: "prune_from_peer_sets tid = prune_set {tid}"
  by (simp add: fun_eq_iff prune_from_peer_sets_def prune_set_def)

lemma prune_set_prune_set: "prune_set S (prune_set T st) = prune_set (S \<union> T) st"
proof -
  have eq: "s - T - S = s - (S \<union> T)" for s :: "tx_id set" by blast
  show ?thesis by (simp add: prune_set_def omap_values_omap_values eq)
qed

lemma prune_set_empty: "prune_set {} st = st"
  by (simp add: prune_set_def omap_values_ident)

lemma fold_prune_from_peer_sets: "fold prune_from_peer_sets ids st = prune_set (set ids) st"
proof (induction ids arbitrary: st)
  case (Cons a ids)
  then show ?case by (simp add: prune_from_peer_sets_eq prune_set_prune_set)
qed (simp add: prune_set_empty)

lemma fold_prune_txs:
  "fold (\<lambda>tx. prune_from_peer_sets (mt_id tx)) txs st = prune_set (mt_id ` set txs) st"
  using fold_prune_from_peer_sets [of "map mt_id txs" st] by (simp add: fold_map comp_def)

lemma prune_set_simps [simp, state_simps]:
  "mp_txs (prune_set S st) = mp_txs st"
  "mp_tx_index (prune_set S st) = mp_tx_index st"
  "mp_total_bytes (prune_set S st) = mp_total_bytes st"
  "mp_capacity (prune_set S st) = mp_capacity st"
  "mp_applied (prune_set S st) = mp_applied st"
  "mp_applied_order (prune_set S st) = mp_applied_order st"
  "mp_eb_pinned (prune_set S st) = mp_eb_pinned st"
  "mp_eb_manifests (prune_set S st) = mp_eb_manifests st"
  "ohas (mp_peer_unannounced (prune_set S st)) p = ohas (mp_peer_unannounced st) p"
  "ohas (mp_peer_advertised (prune_set S st)) p = ohas (mp_peer_advertised st) p"
  "owed (prune_set S st) p = owed st p - S"
  "advertised_to (prune_set S st) p = advertised_to st p - S"
  by (simp_all add: prune_set_def owed_def advertised_to_def oget_omap_values ohas_def split: option.splits)

lemma owed_cong: "mp_peer_unannounced st = mp_peer_unannounced st' \<Longrightarrow> owed st p = owed st' p"
  by (simp add: owed_def)

lemma advertised_cong: "mp_peer_advertised st = mp_peer_advertised st' \<Longrightarrow> advertised_to st p = advertised_to st' p"
  by (simp add: advertised_to_def)

lemma owed_upd [simp]:
  "owed (st\<lparr>mp_txs := a\<rparr>) p = owed st p" "owed (st\<lparr>mp_tx_index := b\<rparr>) p = owed st p"
  "owed (st\<lparr>mp_total_bytes := c\<rparr>) p = owed st p" "owed (st\<lparr>mp_applied := d\<rparr>) p = owed st p"
  "owed (st\<lparr>mp_applied_order := e\<rparr>) p = owed st p" "owed (st\<lparr>mp_pending_validation := f\<rparr>) p = owed st p"
  "owed (st\<lparr>mp_eb_manifests := g\<rparr>) p = owed st p" "owed (st\<lparr>mp_eb_pinned := h\<rparr>) p = owed st p"
  "owed (st\<lparr>mp_control_stats := i\<rparr>) p = owed st p" "owed (st\<lparr>mp_peer_advertised := j\<rparr>) p = owed st p"
  "owed (st\<lparr>mp_max_eb_slot := k\<rparr>) p = owed st p" "owed (st\<lparr>mp_protected_chain_tip_eb := l\<rparr>) p = owed st p"
  "owed (st\<lparr>mp_withholding := m\<rparr>) p = owed st p"
  by (simp_all add: owed_def)

lemma advertised_upd [simp]:
  "advertised_to (st\<lparr>mp_txs := a\<rparr>) p = advertised_to st p" "advertised_to (st\<lparr>mp_tx_index := b\<rparr>) p = advertised_to st p"
  "advertised_to (st\<lparr>mp_total_bytes := c\<rparr>) p = advertised_to st p" "advertised_to (st\<lparr>mp_applied := d\<rparr>) p = advertised_to st p"
  "advertised_to (st\<lparr>mp_applied_order := e\<rparr>) p = advertised_to st p" "advertised_to (st\<lparr>mp_pending_validation := f\<rparr>) p = advertised_to st p"
  "advertised_to (st\<lparr>mp_eb_manifests := g\<rparr>) p = advertised_to st p" "advertised_to (st\<lparr>mp_eb_pinned := h\<rparr>) p = advertised_to st p"
  "advertised_to (st\<lparr>mp_control_stats := i\<rparr>) p = advertised_to st p" "advertised_to (st\<lparr>mp_peer_unannounced := j\<rparr>) p = advertised_to st p"
  "advertised_to (st\<lparr>mp_max_eb_slot := k\<rparr>) p = advertised_to st p" "advertised_to (st\<lparr>mp_protected_chain_tip_eb := l\<rparr>) p = advertised_to st p"
  "advertised_to (st\<lparr>mp_withholding := m\<rparr>) p = advertised_to st p"
  by (simp_all add: advertised_to_def)

lemma remove_ids_simps [simp, state_simps]:
  "mp_txs (remove_ids S st) = filter (\<lambda>tx. mt_id tx \<notin> S) (mp_txs st)"
  "mp_tx_index (remove_ids S st) = mp_tx_index st - S"
  "mp_total_bytes (remove_ids S st) = sum_list (map mt_size (filter (\<lambda>tx. mt_id tx \<notin> S) (mp_txs st)))"
  "mp_capacity (remove_ids S st) = mp_capacity st"
  "mp_applied (remove_ids S st) = mp_applied st"
  "mp_applied_order (remove_ids S st) = mp_applied_order st"
  "mp_eb_pinned (remove_ids S st) = mp_eb_pinned st"
  "mp_eb_manifests (remove_ids S st) = mp_eb_manifests st"
  "ohas (mp_peer_unannounced (remove_ids S st)) p = ohas (mp_peer_unannounced st) p"
  "ohas (mp_peer_advertised (remove_ids S st)) p = ohas (mp_peer_advertised st) p"
  "owed (remove_ids S st) p = owed st p - S"
  "advertised_to (remove_ids S st) p = advertised_to st p - S"
  by (simp_all add: remove_ids_def Let_def)

lemma remove_ids_pool: "pool_inv st \<Longrightarrow> pool_inv (remove_ids S st)"
  unfolding pool_inv_def by (auto simp: le_trans [OF length_filter_le])

lemma remove_ids_peers: "peers_inv st \<Longrightarrow> peers_inv (remove_ids S st)"
  unfolding peers_inv_def by simp blast

lemma remove_ids_inv [inv_intros]: "mempool_inv st \<Longrightarrow> mempool_inv (remove_ids S st)"
  unfolding mempool_inv_def
  using remove_ids_pool [of st S] remove_ids_peers [of st S] by (auto simp: applied_inv_def pinned_inv_def)


subsection \<open>The operations as removals\<close>

lemma filter_other_ids:
  assumes "distinct (map mt_id (xs @ ys))"
  shows "filter (\<lambda>tx. mt_id tx \<notin> mt_id ` set xs) (xs @ ys) = ys"
proof -
  have "filter (\<lambda>tx. mt_id tx \<notin> mt_id ` set xs) ys = ys"
    using assms by (auto simp: filter_id_conv)
  then show ?thesis by simp
qed

lemma remove_prefix:
  assumes "pool_inv st" and "mp_txs st = xs @ ys"
  shows "remove_ids (mt_id ` set xs) st =
    prune_set (mt_id ` set xs)
      (st\<lparr>mp_txs := ys, mp_tx_index := mp_tx_index st - mt_id ` set xs,
          mp_total_bytes := mp_total_bytes st - sum_list (map mt_size xs)\<rparr>)"
proof -
  have "distinct (map mt_id (xs @ ys))" using assms by (simp add: pool_inv_def)
  then have "filter (\<lambda>tx. mt_id tx \<notin> mt_id ` set xs) (mp_txs st) = ys"
    unfolding assms(2) by (rule filter_other_ids)
  moreover have "mp_total_bytes st = sum_list (map mt_size xs) + sum_list (map mt_size ys)"
    using assms by (simp add: pool_inv_def)
  ultimately show ?thesis by (simp add: remove_ids_def)
qed

lemma remove_hd:
  assumes "pool_inv st" and "mp_txs st = tx # rest"
  shows "remove_ids {mt_id tx} st =
    prune_from_peer_sets (mt_id tx)
      (st\<lparr>mp_txs := rest, mp_tx_index := mp_tx_index st - {mt_id tx},
          mp_total_bytes := mp_total_bytes st - mt_size tx\<rparr>)"
  using remove_prefix [of st "[tx]" rest] assms by (simp add: prune_from_peer_sets_eq)

lemma evict_oldest_eq:
  assumes "pool_inv st"
  shows "fst (evict_oldest st) =
    (if length (mp_txs st) \<ge> mp_capacity st \<and> mp_txs st \<noteq> [] then remove_ids {mt_id (hd (mp_txs st))} st else st)"
  using remove_hd [OF assms] by (auto simp: evict_oldest_def split: list.splits)

lemma pop_front_tx_eq:
  "pool_inv st \<Longrightarrow> pop_front_tx st = (if mp_txs st = [] then st else remove_ids {mt_id (hd (mp_txs st))} st)"
  using remove_hd by (auto simp: pop_front_tx_def split: list.splits)

lemma remove_ids_remove_ids: "remove_ids S (remove_ids T st) = remove_ids (S \<union> T) st"
proof -
  have f: "filter (\<lambda>tx. mt_id tx \<notin> S) (filter (\<lambda>tx. mt_id tx \<notin> T) xs) = filter (\<lambda>tx. mt_id tx \<notin> S \<union> T) xs" for xs
    by (induction xs) auto
  have d: "s - T - S = s - (S \<union> T)" for s :: "tx_id set" by blast
  show ?thesis
    by (simp add: remove_ids_def Let_def f d prune_set_def omap_values_omap_values
        del: filter_filter Un_iff)
qed

lemma remove_ids_empty: "pool_inv st \<Longrightarrow> remove_ids {} st = st"
  by (cases st) (simp add: remove_ids_def prune_set_empty pool_inv_def Let_def)

lemma pop_front_pow_eq:
  assumes "pool_inv st" and "n \<le> length (mp_txs st)"
  shows "(pop_front_tx ^^ n) st = remove_ids (mt_id ` set (take n (mp_txs st))) st"
  using assms(2)
proof (induction n)
  case 0
  then show ?case by (simp add: remove_ids_empty assms(1))
next
  case (Suc n)
  let ?S = "mt_id ` set (take n (mp_txs st))"
  have d: "distinct (map mt_id (take n (mp_txs st) @ drop n (mp_txs st)))"
    using assms(1) by (simp add: pool_inv_def)
  have txs: "mp_txs (remove_ids ?S st) = drop n (mp_txs st)"
    using filter_other_ids [OF d] by simp
  have hd: "mp_txs st ! n = hd (drop n (mp_txs st))" "drop n (mp_txs st) \<noteq> []"
    using Suc.prems by (auto simp: hd_drop_conv_nth)
  have "(pop_front_tx ^^ Suc n) st = pop_front_tx (remove_ids ?S st)"
    using Suc by simp
  also have "\<dots> = remove_ids {mt_id (mp_txs st ! n)} (remove_ids ?S st)"
    using hd pop_front_tx_eq [OF remove_ids_pool [OF assms(1)], of ?S] by (simp only: txs if_False)
  also have "\<dots> = remove_ids (mt_id ` set (take (Suc n) (mp_txs st))) st"
    using Suc.prems by (simp add: remove_ids_remove_ids take_Suc_conv_app_nth)
  finally show ?case .
qed

text \<open>The greedy prefix of a list of sizes that a byte budget admits: the reference for the drain.\<close>

fun budget_prefix :: "nat \<Rightarrow> nat \<Rightarrow> bool \<Rightarrow> mempool_tx list \<Rightarrow> mempool_tx list" where
  "budget_prefix max_bytes bytes first [] = []"
| "budget_prefix max_bytes bytes first (tx # txs) =
     (if bytes + mt_size tx > max_bytes \<and> \<not> first then []
      else if bytes + mt_size tx \<ge> max_bytes then [tx]
      else tx # budget_prefix max_bytes (bytes + mt_size tx) False txs)"

declare drain_loop.simps [simp del]

lemma drain_loop_eq:
  "drain_loop max_bytes bytes result st =
     (let p = budget_prefix max_bytes bytes (result = []) (mp_txs st)
      in (result @ p, st\<lparr>mp_txs := drop (length p) (mp_txs st),
                         mp_tx_index := mp_tx_index st - mt_id ` set p,
                         mp_total_bytes := mp_total_bytes st - sum_list (map mt_size p)\<rparr>))"
proof (induction max_bytes bytes result st rule: drain_loop.induct)
  case (1 max_bytes bytes result st)
  show ?case
  proof (cases "mp_txs st")
    case Nil
    then show ?thesis by (simp add: drain_loop.simps)
  next
    case (Cons front rest)
    consider (stop) "bytes + mt_size front > max_bytes \<and> result \<noteq> []"
      | (last) "\<not> (bytes + mt_size front > max_bytes \<and> result \<noteq> [])" "bytes + mt_size front \<ge> max_bytes"
      | (go) "bytes + mt_size front < max_bytes"
      by linarith
    then show ?thesis
    proof cases
      case stop
      with Cons show ?thesis by (simp add: drain_loop.simps)
    next
      case last
      with Cons show ?thesis by (simp add: drain_loop.simps [of max_bytes bytes] Let_def)
    next
      case go
      define st1 where "st1 = st\<lparr>mp_txs := rest, mp_tx_index := mp_tx_index st - {mt_id front},
                               mp_total_bytes := mp_total_bytes st - mt_size front\<rparr>"
      define p where "p = budget_prefix max_bytes (bytes + mt_size front) False rest"
      have ih: "drain_loop max_bytes (bytes + mt_size front) (result @ [front]) st1 =
        ((result @ [front]) @ p, st1\<lparr>mp_txs := drop (length p) rest,
           mp_tx_index := mp_tx_index st1 - mt_id ` set p,
           mp_total_bytes := mp_total_bytes st1 - sum_list (map mt_size p)\<rparr>)"
        using 1 [OF Cons refl _ st1_def] go by (simp add: p_def st1_def Let_def)
      have step: "drain_loop max_bytes bytes result st =
        drain_loop max_bytes (bytes + mt_size front) (result @ [front]) st1"
        using go Cons by (subst drain_loop.simps) (simp add: st1_def)
      have p: "budget_prefix max_bytes bytes (result = []) (mp_txs st) = front # p"
        using go Cons by (simp add: p_def)
      have idx: "mp_tx_index st - {mt_id front} - mt_id ` set p = mp_tx_index st - insert (mt_id front) (mt_id ` set p)"
        by blast
      show ?thesis unfolding step ih p Let_def by (simp add: st1_def Cons idx)
    qed
  qed
qed

lemma budget_prefix_prefix: "\<exists>ys. xs = budget_prefix m b first xs @ ys"
  by (induction m b first xs rule: budget_prefix.induct) auto

lemma drain_up_to_eq:
  assumes "pool_inv st"
  shows "drain_up_to st max_bytes =
    (remove_ids (mt_id ` set (budget_prefix max_bytes 0 True (mp_txs st))) st,
     budget_prefix max_bytes 0 True (mp_txs st))"
proof -
  define p where "p = budget_prefix max_bytes 0 True (mp_txs st)"
  obtain ys where ys: "mp_txs st = p @ ys"
    unfolding p_def using budget_prefix_prefix by blast
  then have "drop (length p) (mp_txs st) = ys" by simp
  then show ?thesis
    by (simp add: drain_up_to_def drain_loop_eq fold_prune_txs Let_def remove_prefix [OF assms ys]
        flip: p_def)
qed

lemma drain_all_eq:
  assumes "pool_inv st"
  shows "drain_all st = (remove_ids (mt_id ` set (mp_txs st)) st, mp_txs st)"
proof -
  have "mp_tx_index st - mt_id ` set (mp_txs st) = {}" "mp_total_bytes st = sum_list (map mt_size (mp_txs st))"
    using assms by (simp_all add: pool_inv_def)
  moreover have "st\<lparr>mp_total_bytes := 0, mp_txs := [], mp_tx_index := {}\<rparr> =
    st\<lparr>mp_txs := [], mp_tx_index := {}, mp_total_bytes := 0\<rparr>"
    by simp
  ultimately show ?thesis
    using remove_prefix [OF assms, of "mp_txs st" "[]"] by (simp only: drain_all_def fold_prune_txs) simp
qed


subsection \<open>Every operation keeps the invariant\<close>

lemma evict_oldest_inv [inv_intros]: "mempool_inv st \<Longrightarrow> mempool_inv (fst (evict_oldest st))"
  using evict_oldest_eq [of st] remove_ids_inv [of st] by (simp add: mempool_inv_def [of st])

lemma evict_oldest_room:
  assumes "pool_inv st"
  shows "length (mp_txs (fst (evict_oldest st))) < max 1 (mp_capacity st)"
proof (cases "length (mp_txs st) \<ge> mp_capacity st \<and> mp_txs st \<noteq> []")
  case True
  then obtain tx rest where txs: "mp_txs st = tx # rest" by (cases "mp_txs st") auto
  have "length (filter (\<lambda>t. mt_id t \<noteq> mt_id tx) rest) \<le> length rest" by simp
  moreover have "length (mp_txs st) \<le> max 1 (mp_capacity st)" using assms by (simp add: pool_inv_def)
  ultimately show ?thesis using True txs by (simp add: evict_oldest_eq assms del: length_filter_le)
next
  case False
  then show ?thesis using assms by (auto simp: evict_oldest_eq)
qed

lemma evict_oldest_frame:
  assumes "pool_inv st"
  shows "mp_capacity (fst (evict_oldest st)) = mp_capacity st"
    and "mp_applied (fst (evict_oldest st)) = mp_applied st"
    and "mp_tx_index (fst (evict_oldest st)) \<subseteq> mp_tx_index st"
    and "mp_eb_pinned (fst (evict_oldest st)) = mp_eb_pinned st"
  using assms by (auto simp: evict_oldest_eq)

text \<open>Appending a transaction that is neither in the pool nor in the replay filter.\<close>

definition push_tx :: "mempool_tx \<Rightarrow> mempool_state \<Rightarrow> mempool_state" where
  "push_tx tx st =
     st\<lparr>mp_total_bytes := mp_total_bytes st + mt_size tx,
        mp_tx_index := insert (mt_id tx) (mp_tx_index st),
        mp_peer_unannounced := omap_values (\<lambda>_ s. insert (mt_id tx) s) (mp_peer_unannounced st),
        mp_txs := mp_txs st @ [tx]\<rparr>"

lemma push_tx_owed:
  "owed (push_tx tx st) p = (if ohas (mp_peer_unannounced st) p then insert (mt_id tx) (owed st p) else {})"
  by (simp add: push_tx_def owed_def ohas_def oget_omap_values split: option.splits)

lemma push_tx_simps [simp, state_simps]:
  "mp_txs (push_tx tx st) = mp_txs st @ [tx]"
  "mp_tx_index (push_tx tx st) = insert (mt_id tx) (mp_tx_index st)"
  "mp_applied (push_tx tx st) = mp_applied st"
  "mp_capacity (push_tx tx st) = mp_capacity st"
  "mp_eb_pinned (push_tx tx st) = mp_eb_pinned st"
  "mp_applied_order (push_tx tx st) = mp_applied_order st"
  "mp_total_bytes (push_tx tx st) = mp_total_bytes st + mt_size tx"
  "mp_peer_advertised (push_tx tx st) = mp_peer_advertised st"
  "advertised_to (push_tx tx st) p = advertised_to st p"
  "ohas (mp_peer_unannounced (push_tx tx st)) p = ohas (mp_peer_unannounced st) p"
  by (simp_all add: push_tx_def advertised_to_def ohas_def oget_omap_values)

lemma push_tx_inv:
  assumes "mempool_inv st" and "mt_id tx \<notin> mp_tx_index st" and "mt_id tx \<notin> mp_applied st"
    and "length (mp_txs st) < max 1 (mp_capacity st)"
  shows "mempool_inv (push_tx tx st)"
proof -
  have "pool_inv (push_tx tx st)"
    using assms unfolding mempool_inv_def pool_inv_def by auto
  moreover have "peers_inv (push_tx tx st)"
    using assms(1,2) unfolding mempool_inv_def peers_inv_def by (auto simp: push_tx_owed)
  ultimately show ?thesis
    using assms unfolding mempool_inv_def applied_inv_def pinned_inv_def by auto
qed

definition mk_tx :: "tx_id \<Rightarrow> tx_body \<Rightarrow> u32 \<Rightarrow> u64 \<Rightarrow> bool \<Rightarrow> mempool_tx" where
  "mk_tx tid body sz slot ours =
     \<lparr>mt_tx = \<lparr>ti_tx_id = tid, ti_body = body, ti_size = sz\<rparr>, mt_ours = ours, mt_slot = slot\<rparr>"

lemma mk_tx_simps [simp]:
  "mt_id (mk_tx tid body sz slot ours) = tid" "mt_size (mk_tx tid body sz slot ours) = unat sz"
  "mt_body (mk_tx tid body sz slot ours) = body"
  by (simp_all add: mk_tx_def mt_id_def mt_size_def mt_body_def)

lemma admit_internal_eq:
  "admit_internal st tid body sz slot ours =
     (if tid \<in> mp_applied st then (st, [TxRejected tid AlreadyKnown])
      else (push_tx (mk_tx tid body sz slot ours) (fst (evict_oldest st)), snd (evict_oldest st)))"
  by (simp add: admit_internal_def push_tx_def case_prod_unfold Let_def) (simp add: mk_tx_def)

lemma pending_upd_inv: "mempool_inv (st\<lparr>mp_pending_validation := m\<rparr>) = mempool_inv st"
  by (simp add: mempool_inv_defs)

lemma admit_validated_inv [inv_intros]:
  assumes "mempool_inv st"
  shows "mempool_inv (fst (admit_validated st tid body sz slot ours))"
proof -
  define s where "s = st\<lparr>mp_pending_validation := odel tid (mp_pending_validation st)\<rparr>"
  have s: "mempool_inv s" using assms by (simp add: s_def pending_upd_inv)
  then have p: "pool_inv s" by (simp add: mempool_inv_def)
  show ?thesis
  proof (cases "tid \<in> mp_tx_index st \<or> tid \<in> mp_applied st")
    case True
    then show ?thesis
      using assms s by (auto simp: admit_validated_def mp_contains_def admit_internal_eq s_def)
  next
    case False
    then have "mempool_inv (push_tx (mk_tx tid body sz slot ours) (fst (evict_oldest s)))"
      using evict_oldest_frame [OF p] evict_oldest_room [OF p] evict_oldest_inv [OF s]
      by (intro push_tx_inv) (auto simp: s_def)
    with False show ?thesis
      by (simp add: admit_validated_def mp_contains_def admit_internal_eq s_def)
  qed
qed

lemma mark_applied_frame [simp, state_simps]:
  "mp_txs (mark_applied tid st) = mp_txs st" "mp_tx_index (mark_applied tid st) = mp_tx_index st"
  "mp_total_bytes (mark_applied tid st) = mp_total_bytes st" "mp_capacity (mark_applied tid st) = mp_capacity st"
  "mp_peer_advertised (mark_applied tid st) = mp_peer_advertised st"
  "mp_peer_unannounced (mark_applied tid st) = mp_peer_unannounced st"
  "mp_eb_pinned (mark_applied tid st) = mp_eb_pinned st"
  "mp_eb_manifests (mark_applied tid st) = mp_eb_manifests st"
  by (simp_all add: mark_applied_def Let_def)

lemma mark_applied_order:
  assumes "applied_inv st"
  shows "mp_applied_order (mark_applied tid st) =
    (if tid \<in> set (mp_applied_order st) then mp_applied_order st
     else if length (mp_applied_order st) < APPLIED_BOUND then mp_applied_order st @ [tid]
     else tl (mp_applied_order st @ [tid]))"
  using assms by (auto simp: mark_applied_def Let_def applied_inv_def)

lemma mark_applied_inv:
  assumes "applied_inv st"
  shows "applied_inv (mark_applied tid st)"
proof (cases "tid \<in> mp_applied st")
  case True
  with assms show ?thesis by (simp add: mark_applied_def applied_inv_def)
next
  case False
  define xs where "xs = mp_applied_order st @ [tid]"
  have xs: "distinct xs" "insert tid (mp_applied st) = set xs" "length xs \<le> Suc APPLIED_BOUND" "xs \<noteq> []"
    using False assms by (auto simp: xs_def applied_inv_def)
  then have "set (tl xs) = set xs - {hd xs}" "distinct (tl xs)"
    by (cases xs; auto)+
  with xs False show ?thesis
    by (auto simp: mark_applied_def applied_inv_def Let_def simp flip: xs_def)
qed

lemma fold_mark_applied_frame [simp, state_simps]:
  "mp_txs (fold mark_applied ids st) = mp_txs st" "mp_tx_index (fold mark_applied ids st) = mp_tx_index st"
  "mp_total_bytes (fold mark_applied ids st) = mp_total_bytes st" "mp_capacity (fold mark_applied ids st) = mp_capacity st"
  "mp_peer_advertised (fold mark_applied ids st) = mp_peer_advertised st"
  "mp_peer_unannounced (fold mark_applied ids st) = mp_peer_unannounced st"
  "mp_eb_pinned (fold mark_applied ids st) = mp_eb_pinned st"
  "mp_eb_manifests (fold mark_applied ids st) = mp_eb_manifests st"
  by (induction ids arbitrary: st) simp_all

lemma fold_mark_applied_inv: "applied_inv st \<Longrightarrow> applied_inv (fold mark_applied ids st)"
  by (induction ids arbitrary: st) (auto simp: mark_applied_inv)

lemma mark_applied_subset: "mp_applied (mark_applied tid st) \<subseteq> insert tid (mp_applied st)"
  by (auto simp: mark_applied_def Let_def)

lemma fold_mark_applied_subset: "mp_applied (fold mark_applied ids st) \<subseteq> set ids \<union> mp_applied st"
proof (induction ids arbitrary: st)
  case (Cons a ids)
  then show ?case using mark_applied_subset [of a st] Cons [of "mark_applied a st"] by auto
qed simp

lemma pool_inv_cong:
  "mp_txs a = mp_txs b \<Longrightarrow> mp_tx_index a = mp_tx_index b \<Longrightarrow> mp_total_bytes a = mp_total_bytes b \<Longrightarrow>
   mp_capacity a = mp_capacity b \<Longrightarrow> pool_inv a = pool_inv b"
  by (simp add: pool_inv_def)

lemma peers_inv_cong:
  "mp_peer_unannounced a = mp_peer_unannounced b \<Longrightarrow> mp_peer_advertised a = mp_peer_advertised b \<Longrightarrow>
   mp_tx_index a = mp_tx_index b \<Longrightarrow> peers_inv a = peers_inv b"
  by (simp add: peers_inv_def owed_def advertised_to_def)

text \<open>Both branches of the code agree: removing ids none of which is in the pool changes nothing.\<close>

lemma prune_set_id:
  assumes "peers_inv st" and "S \<inter> mp_tx_index st = {}"
  shows "prune_set S st = st"
proof -
  have u: "omap_values (\<lambda>_ s. s - S) (mp_peer_unannounced st) = mp_peer_unannounced st"
  proof (rule omap_eqI)
    fix p
    show "oget (omap_values (\<lambda>_ s. s - S) (mp_peer_unannounced st)) p = oget (mp_peer_unannounced st) p"
      using assms by (cases "oget (mp_peer_unannounced st) p")
        (fastforce simp: peers_inv_def oget_omap_values ohas_def owed_def)+
  qed
  have a: "omap_values (\<lambda>_ s. s - S) (mp_peer_advertised st) = mp_peer_advertised st"
  proof (rule omap_eqI)
    fix p
    show "oget (omap_values (\<lambda>_ s. s - S) (mp_peer_advertised st)) p = oget (mp_peer_advertised st) p"
    proof (cases "oget (mp_peer_advertised st) p")
      case (Some s)
      then have "ohas (mp_peer_unannounced st) p" "advertised_to st p = s"
        using assms(1) by (auto simp: peers_inv_def ohas_def advertised_to_def)
      then have "s \<subseteq> mp_tx_index st" using assms(1) by (auto simp: peers_inv_def)
      then have "s - S = s" using assms(2) by blast
      with Some show ?thesis by (simp add: oget_omap_values)
    qed (simp add: oget_omap_values)
  qed
  show ?thesis by (simp add: prune_set_def u a)
qed

lemma remove_ids_absent:
  assumes "pool_inv st" and "peers_inv st" and "S \<inter> mp_tx_index st = {}"
  shows "remove_ids S st = st"
proof -
  have "filter (\<lambda>tx. mt_id tx \<notin> S) (mp_txs st) = mp_txs st"
    using assms(1,3) by (auto simp: filter_id_conv pool_inv_def)
  moreover have "mp_tx_index st - S = mp_tx_index st" using assms(3) by blast
  ultimately have "remove_ids S st = prune_set S st"
    using assms(1) by (cases st) (simp add: remove_ids_def pool_inv_def)
  then show ?thesis by (simp add: prune_set_id assms(2,3))
qed

lemma mp_on_block_applied_eq:
  assumes "mempool_inv st"
  shows "mp_on_block_applied st included = remove_ids (set included) (fold mark_applied included st)"
proof -
  define s where "s = fold mark_applied included st"
  have s: "pool_inv s" "peers_inv s"
    using assms pool_inv_cong [of s st] peers_inv_cong [of s st] by (simp_all add: s_def mempool_inv_def)
  show ?thesis
  proof (cases "included = []")
    case True
    with s show ?thesis by (simp add: mp_on_block_applied_def remove_ids_empty s_def)
  next
    case False
    show ?thesis
    proof (cases "length (filter (\<lambda>tx. mt_id tx \<notin> set included) (mp_txs s)) = length (mp_txs s)")
      case True
      then have f: "filter (\<lambda>tx. mt_id tx \<notin> set included) (mp_txs s) = mp_txs s"
        by (metis filter_id_conv length_filter_less less_irrefl)
      then have "set included \<inter> mp_tx_index s = {}"
        using s(1) by (auto simp: pool_inv_def filter_id_conv)
      with s True False f show ?thesis
        by (simp add: mp_on_block_applied_def remove_ids_absent flip: s_def)
    next
      case neq: False
      with False show ?thesis
        by (simp add: mp_on_block_applied_def remove_ids_def Let_def fold_prune_from_peer_sets flip: s_def)
    qed
  qed
qed

lemma mp_on_block_applied_inv [inv_intros]:
  assumes "mempool_inv st"
  shows "mempool_inv (mp_on_block_applied st included)"
proof -
  define s where "s = fold mark_applied included st"
  have "pool_inv s" "peers_inv s" "applied_inv s" "pinned_inv s"
    using assms pool_inv_cong [of s st] peers_inv_cong [of s st]
    by (simp_all add: s_def mempool_inv_def fold_mark_applied_inv pinned_inv_def)
  moreover have "mp_applied s \<inter> (mp_tx_index s - set included) = {}"
    using assms fold_mark_applied_subset [of included st] by (auto simp: s_def mempool_inv_def)
  ultimately show ?thesis
    unfolding mp_on_block_applied_eq [OF assms] mempool_inv_def
    by (simp add: remove_ids_pool remove_ids_peers flip: s_def) (simp add: applied_inv_def pinned_inv_def)
qed


lemma forget_peer_inv [inv_intros]: "mempool_inv st \<Longrightarrow> mempool_inv (forget_peer st peer)"
  unfolding mempool_inv_defs
  by (auto simp: forget_peer_def owed_def advertised_to_def ohas_def oget_odel split: if_splits)

lemma ensure_peer_registered_simps [simp, state_simps]:
  "mp_txs (ensure_peer_registered p st) = mp_txs st"
  "mp_tx_index (ensure_peer_registered p st) = mp_tx_index st"
  "mp_eb_pinned (ensure_peer_registered p st) = mp_eb_pinned st"
  "mp_withholding (ensure_peer_registered p st) = mp_withholding st"
  "mp_peer_advertised (ensure_peer_registered p st) = mp_peer_advertised st"
  "mp_control_stats (ensure_peer_registered p st) = mp_control_stats st"
  "ohas (mp_peer_unannounced (ensure_peer_registered p st)) q \<longleftrightarrow> q = p \<or> ohas (mp_peer_unannounced st) q"
  "advertised_to (ensure_peer_registered p st) q = advertised_to st q"
  by (auto simp: ensure_peer_registered_def advertised_to_def ohas_def oget_oput)

lemma owed_ensure_peer_registered:
  "owed (ensure_peer_registered p st) q =
     (if q = p \<and> \<not> ohas (mp_peer_unannounced st) p then mp_tx_index st else owed st q)"
  by (simp add: ensure_peer_registered_def owed_def oget_oput)

lemma unregistered_not_advertised:
  "peers_inv st \<Longrightarrow> \<not> ohas (mp_peer_unannounced st) p \<Longrightarrow> advertised_to st p = {}"
  by (auto simp: peers_inv_def advertised_to_def ohas_def split: option.splits)

lemma ensure_peer_registered_inv [inv_intros]:
  assumes "mempool_inv st"
  shows "mempool_inv (ensure_peer_registered p st)"
proof -
  have "peers_inv (ensure_peer_registered p st)"
    unfolding peers_inv_def ensure_peer_registered_simps owed_ensure_peer_registered
    using assms unregistered_not_advertised [of st p] by (auto simp: mempool_inv_def peers_inv_def)
  moreover have "pool_inv (ensure_peer_registered p st) = pool_inv st" "applied_inv (ensure_peer_registered p st) = applied_inv st"
      "pinned_inv (ensure_peer_registered p st) = pinned_inv st" "mp_applied (ensure_peer_registered p st) = mp_applied st"
    by (simp_all add: ensure_peer_registered_def pool_inv_def applied_inv_def pinned_inv_def)
  ultimately show ?thesis using assms by (simp add: mempool_inv_def)
qed

text \<open>Moving owed ids of one peer to its advertised set.\<close>

definition advertise :: "peer_id \<Rightarrow> tx_id set \<Rightarrow> mempool_state \<Rightarrow> mempool_state" where
  "advertise p S st =
     st\<lparr>mp_peer_unannounced := oput p (owed st p - S) (mp_peer_unannounced st),
        mp_peer_advertised := oput p (advertised_to st p \<union> S) (mp_peer_advertised st)\<rparr>"

lemma advertise_simps [simp, state_simps]:
  "mp_txs (advertise p S st) = mp_txs st" "mp_tx_index (advertise p S st) = mp_tx_index st"
  "mp_eb_pinned (advertise p S st) = mp_eb_pinned st"
  "owed (advertise p S st) q = (if q = p then owed st p - S else owed st q)"
  "advertised_to (advertise p S st) q = (if q = p then advertised_to st p \<union> S else advertised_to st q)"
  "ohas (mp_peer_unannounced (advertise p S st)) q \<longleftrightarrow> q = p \<or> ohas (mp_peer_unannounced st) q"
  "ohas (mp_peer_advertised (advertise p S st)) q \<longleftrightarrow> q = p \<or> ohas (mp_peer_advertised st) q"
  by (simp_all add: advertise_def owed_def advertised_to_def ohas_def oget_oput)

lemma advertise_inv [inv_intros]:
  assumes "mempool_inv st" and "ohas (mp_peer_unannounced st) p" and "S \<subseteq> owed st p"
  shows "mempool_inv (advertise p S st)"
proof -
  have "peers_inv (advertise p S st)"
    unfolding peers_inv_def advertise_simps
    using assms by (auto simp: mempool_inv_def peers_inv_def)
  moreover have "pool_inv (advertise p S st) = pool_inv st" "applied_inv (advertise p S st) = applied_inv st"
      "pinned_inv (advertise p S st) = pinned_inv st" "mp_applied (advertise p S st) = mp_applied st"
    by (simp_all add: advertise_def pool_inv_def applied_inv_def pinned_inv_def)
  ultimately show ?thesis using assms by (simp add: mempool_inv_def)
qed

lemma control_stats_inv: "mempool_inv (st\<lparr>mp_control_stats := x\<rparr>) = mempool_inv st"
  by (simp add: mempool_inv_defs)

text \<open>The ids the peek selects: the first \<open>max_count\<close> owed ids, in id order, that the policy lets through.\<close>

lemma select_unannounced_eq:
  "fst (select_unannounced leave n ids stats) = take n (filter leave ids)"
  by (induction leave n ids stats rule: select_unannounced.induct) (auto split: prod.splits)

definition to_send_for :: "mempool_state \<Rightarrow> peer_id \<Rightarrow> nat \<Rightarrow> u64 \<Rightarrow> tx_id list" where
  "to_send_for st peer max_count slot =
     take max_count (filter (\<lambda>tid. filter_transaction st slot tid False) (sorted_list_of_set (owed st peer)))"

lemma resolve_free_eq:
  assumes "length result < n"
  shows "resolve_free wanted n txs result = take n (result @ filter (\<lambda>tx. mt_id tx \<in> wanted) txs)"
  using assms by (induction wanted n txs result rule: resolve_free.induct) (auto simp: Let_def)

lemma resolve_free_none: "resolve_free {} n txs result = result"
  by (induction txs) auto

lemma resolve_pinned_set:
  assumes "\<And>tid tx. oget pinned tid = Some tx \<Longrightarrow> mt_id tx = tid"
  shows "mt_id ` set (resolve_pinned pinned ids result) =
    mt_id ` set result \<union> {tid \<in> set ids. ohas pinned tid}"
  using assms
  by (induction pinned ids result rule: resolve_pinned.induct)
    (auto simp: ohas_def split: option.splits)

lemma resolve_pinned_all_there:
  "set ids \<subseteq> mt_id ` set result \<Longrightarrow> resolve_pinned pinned ids result = result"
  by (induction pinned ids result rule: resolve_pinned.induct) auto

text \<open>Under the invariant every owed id is in the free pool, so the pinned pool is never asked.\<close>

lemma resolve_free_complete:
  assumes "pool_inv st" and "distinct ids" and "set ids \<subseteq> mp_tx_index st" and "ids \<noteq> []"
  shows "resolve_free (set ids) (length ids) (mp_txs st) [] = filter (\<lambda>tx. mt_id tx \<in> set ids) (mp_txs st)"
    and "length (filter (\<lambda>tx. mt_id tx \<in> set ids) (mp_txs st)) = length ids"
proof -
  let ?f = "filter (\<lambda>tx. mt_id tx \<in> set ids) (mp_txs st)"
  have "mt_id ` set ?f = set ids" using assms(1,3) by (auto simp: pool_inv_def image_iff subset_iff)
  moreover have "distinct (map mt_id ?f)" using assms(1) by (simp add: pool_inv_def)
  ultimately have "length (map mt_id ?f) = length ids"
    using assms(2) by (metis distinct_card list.set_map)
  then show "length ?f = length ids" by simp
  then show "resolve_free (set ids) (length ids) (mp_txs st) [] = ?f"
    using assms(4) by (simp add: resolve_free_eq)
qed

lemma to_send_for_props:
  assumes "peers_inv st" and "pool_inv st" and "ohas (mp_peer_unannounced st) p"
  shows "distinct (to_send_for st p n slot)" and "set (to_send_for st p n slot) \<subseteq> owed st p"
    and "length (to_send_for st p n slot) \<le> n" and "owed st p \<subseteq> mp_tx_index st" and "finite (owed st p)"
proof -
  show sub: "owed st p \<subseteq> mp_tx_index st" using assms(1,3) by (auto simp: peers_inv_def)
  then show fin: "finite (owed st p)"
    using assms(2) by (auto simp: pool_inv_def intro: finite_subset)
  then show "set (to_send_for st p n slot) \<subseteq> owed st p"
    by (auto simp: to_send_for_def dest: in_set_takeD)
qed (simp_all add: to_send_for_def)

lemma peek_eq:
  fixes st0 :: mempool_state and p :: peer_id and n :: nat and slot :: u64
  assumes "mempool_inv st0"
  defines "st \<equiv> ensure_peer_registered p st0"
  defines "ids \<equiv> to_send_for st p n slot"
  shows "\<exists>stats. peek_unannounced_for_peer st0 p n slot =
    (if owed st p = {} \<or> n = 0 then (st, [])
     else (advertise p (set ids) st\<lparr>mp_control_stats := stats\<rparr>,
           filter (\<lambda>tx. mt_id tx \<in> set ids) (mp_txs st)))"
proof -
  have inv: "mempool_inv st" "ohas (mp_peer_unannounced st) p"
    using assms by (simp_all add: ensure_peer_registered_inv)
  then have pinv: "pool_inv st" "peers_inv st" by (simp_all add: mempool_inv_def)
  note props = to_send_for_props(1-3) [OF pinv(2,1) inv(2), of n slot, folded ids_def]
    to_send_for_props(4) [OF pinv(2,1) inv(2)]
  show ?thesis
  proof (cases "owed st p = {} \<or> n = 0")
    case True
    then show ?thesis by (auto simp: peek_unannounced_for_peer_def Let_def st_def)
  next
    case False
    obtain stats where sel: "select_unannounced (\<lambda>tid. filter_transaction st slot tid False) n
        (sorted_list_of_set (owed st p)) (0, 0) = (ids, stats)"
      using select_unannounced_eq [of _ n "sorted_list_of_set (owed st p)" "(0, 0)"]
      by (metis ids_def prod.collapse to_send_for_def)
    define r where "r = resolve_free (set ids) (length ids) (mp_txs st) []"
    have r: "(if ids \<noteq> [] \<and> length r = length ids then r else resolve_pinned (mp_eb_pinned st) ids r)
        = filter (\<lambda>tx. mt_id tx \<in> set ids) (mp_txs st)"
    proof (cases "ids = []")
      case True
      then have "r = []" unfolding r_def by (simp add: resolve_free_none)
      with True show ?thesis by simp
    next
      case False
      then show ?thesis
        using resolve_free_complete [OF pinv(1) props(1) _ False] props(2,4) by (simp add: r_def)
    qed
    have resolve_eq: "ids \<noteq> [] \<Longrightarrow> length r = length ids \<Longrightarrow> r = filter (\<lambda>tx. mt_id tx \<in> set ids) (mp_txs st)"
        "length r \<noteq> length ids \<Longrightarrow> resolve_pinned (mp_eb_pinned st) ids r = filter (\<lambda>tx. mt_id tx \<in> set ids) (mp_txs st)"
        "ids = [] \<Longrightarrow> resolve_free {} 0 (mp_txs st) [] = []"
      using r by (auto simp: resolve_free_none split: if_splits)
    define stats' where "stats' = (fst (mp_control_stats st) + fst stats, snd (mp_control_stats st) + snd stats)"
    have "peek_unannounced_for_peer st0 p n slot =
      (advertise p (set ids) st\<lparr>mp_control_stats := stats'\<rparr>, filter (\<lambda>tx. mt_id tx \<in> set ids) (mp_txs st))"
      unfolding peek_unannounced_for_peer_def st_def [symmetric] Let_def sel prod.case if_not_P [OF False]
        stats'_def advertise_def
      by (simp add: case_prod_unfold resolve_eq [unfolded r_def] cong: if_cong)
    then show ?thesis using False by metis
  qed
qed


lemma peek_inv [inv_intros]:
  assumes "mempool_inv st"
  shows "mempool_inv (fst (peek_unannounced_for_peer st p n slot))"
proof -
  define s where "s = ensure_peer_registered p st"
  have s: "mempool_inv s" "ohas (mp_peer_unannounced s) p"
    using assms by (simp_all add: s_def ensure_peer_registered_inv)
  have "set (to_send_for s p n slot) \<subseteq> owed s p"
    using s by (intro to_send_for_props) (simp_all add: mempool_inv_def)
  with s have "mempool_inv (advertise p (set (to_send_for s p n slot)) s)" by (rule advertise_inv)
  then show ?thesis
    using peek_eq [OF assms, of p n slot] s(1) by (auto simp: control_stats_inv simp flip: s_def)
qed

lemma mark_announced_eq:
  "mark_announced_to_peer st0 p tid slot =
     (let st = ensure_peer_registered p st0
      in if \<not> filter_transaction st slot tid False then (st, False)
         else if tid \<in> owed st p then (advertise p {tid} st, True)
         else (st\<lparr>mp_peer_unannounced := oput p (owed st p) (mp_peer_unannounced st)\<rparr>, False))"
  by (simp add: mark_announced_to_peer_def Let_def advertise_def advertised_to_def)

lemma oput_owed: "ohas (mp_peer_unannounced st) p \<Longrightarrow> oput p (owed st p) (mp_peer_unannounced st) = mp_peer_unannounced st"
  by (rule omap_eqI) (auto simp: oget_oput owed_def ohas_def)

lemma mark_announced_inv [inv_intros]:
  assumes "mempool_inv st"
  shows "mempool_inv (fst (mark_announced_to_peer st p tid slot))"
proof -
  define s where "s = ensure_peer_registered p st"
  have s: "mempool_inv s" "ohas (mp_peer_unannounced s) p"
    using assms by (simp_all add: s_def ensure_peer_registered_inv)
  then show ?thesis
    using advertise_inv [OF s, of "{tid}"]
    by (simp add: mark_announced_eq Let_def oput_owed flip: s_def)
qed

text \<open>The EB side: only manifests, pinned bodies and the slot window change.\<close>

lemma eb_field_invs:
  "mempool_inv (st\<lparr>mp_eb_manifests := m\<rparr>) = mempool_inv st"
  "mempool_inv (st\<lparr>mp_max_eb_slot := n\<rparr>) = mempool_inv st"
  "mempool_inv (st\<lparr>mp_protected_chain_tip_eb := k\<rparr>) = mempool_inv st"
  "mempool_inv (st\<lparr>mp_withholding := w\<rparr>) = mempool_inv st"
  by (simp_all add: mempool_inv_defs)

lemma pinned_upd_inv:
  "mempool_inv st \<Longrightarrow> (\<And>tid tx. oget pinned tid = Some tx \<Longrightarrow> mt_id tx = tid) \<Longrightarrow>
   mempool_inv (st\<lparr>mp_eb_pinned := pinned\<rparr>)"
  unfolding mempool_inv_def pinned_inv_def by (auto simp: pool_inv_def peers_inv_def applied_inv_def)

lemma pinned_idD: "mempool_inv st \<Longrightarrow> oget (mp_eb_pinned st) tid = Some tx \<Longrightarrow> mt_id tx = tid"
  by (simp add: mempool_inv_defs)

lemma prune_eb_slot_window_inv [inv_intros]:
  assumes "mempool_inv st"
  shows "mempool_inv (fst (prune_eb_slot_window st))"
proof -
  have "mempool_inv (st\<lparr>mp_eb_manifests := m, mp_eb_pinned := oretain P (mp_eb_pinned st)\<rparr>)" for m P
    using assms pinned_idD [OF assms]
    by (intro pinned_upd_inv) (auto simp: eb_field_invs oget_oretain split: option.splits if_splits)
  with assms show ?thesis by (simp add: prune_eb_slot_window_def Let_def)
qed

lemma bump_eb_slot_inv [inv_intros]: "mempool_inv st \<Longrightarrow> mempool_inv (fst (bump_eb_slot st slot))"
  by (simp add: bump_eb_slot_def prune_eb_slot_window_inv eb_field_invs)

lemma record_eb_manifest_inv [inv_intros]: "mempool_inv st \<Longrightarrow> mempool_inv (fst (record_eb_manifest st key m))"
  by (simp add: record_eb_manifest_def bump_eb_slot_inv eb_field_invs)

lemma protect_chain_tip_eb_inv [inv_intros]: "mempool_inv st \<Longrightarrow> mempool_inv (fst (protect_chain_tip_eb st key))"
  by (simp add: protect_chain_tip_eb_def prune_eb_slot_window_inv eb_field_invs)

lemma fold_pin_own_id:
  assumes "\<And>tid tx. oget pinned tid = Some tx \<Longrightarrow> mt_id tx = tid"
  shows "oget (fold (\<lambda>tx. oor_insert (mt_id tx) tx) txs pinned) tid = Some tx \<Longrightarrow> mt_id tx = tid"
  using assms
proof (induction txs arbitrary: pinned)
  case (Cons a txs)
  show ?case
    by (rule Cons.IH [OF Cons.prems(1) [simplified]])
      (auto simp: oget_oor_insert dest: Cons.prems(2) split: if_splits)
qed simp

lemma pin_eb_transactions_own_id:
  assumes "\<And>tid tx. oget pinned tid = Some tx \<Longrightarrow> mt_id tx = tid"
  shows "oget (fold (\<lambda>tid pinned. case find (\<lambda>tx. mt_id tx = tid) txs of
                        None \<Rightarrow> pinned | Some tx \<Rightarrow> oor_insert tid tx pinned) ids pinned) tid = Some tx \<Longrightarrow>
         mt_id tx = tid"
  using assms
proof (induction ids arbitrary: pinned)
  case (Cons a ids)
  show ?case
    by (rule Cons.IH [OF Cons.prems(1) [simplified]])
      (auto simp: oget_oor_insert dest: Cons.prems(2) find_key_SomeD split: if_splits option.splits)
qed simp

lemma pin_eb_transactions_inv [inv_intros]: "mempool_inv st \<Longrightarrow> mempool_inv (pin_eb_transactions st ids)"
  unfolding pin_eb_transactions_def
  by (rule pinned_upd_inv) (auto intro: pin_eb_transactions_own_id pinned_idD)

lemma merge_eb_body_inv [inv_intros]: "mempool_inv st \<Longrightarrow> mempool_inv (merge_eb_body st tx ours slot)"
  unfolding merge_eb_body_def
  by (auto intro!: pinned_upd_inv simp: oget_oput mt_id_def split: if_splits
      dest: pinned_idD [unfolded mt_id_def])

lemma produce_eb_inv [inv_intros]:
  assumes "mempool_inv st"
  shows "mempool_inv (fst (produce_eb st key count))"
proof -
  define n where "n = min count (length (mp_txs st))"
  have pop: "mempool_inv ((pop_front_tx ^^ n) st)"
    using assms pop_front_pow_eq [of st n] remove_ids_inv [OF assms] by (simp add: n_def mempool_inv_def [of st])
  have "mempool_inv ((pop_front_tx ^^ n) st
      \<lparr>mp_eb_pinned := fold (\<lambda>tx. oor_insert (mt_id tx) tx) (take n (mp_txs st)) (mp_eb_pinned ((pop_front_tx ^^ n) st))\<rparr>)"
    using pinned_idD [OF pop] by (intro pinned_upd_inv pop) (blast intro: fold_pin_own_id)
  then show ?thesis
    by (simp add: produce_eb_def Let_def case_prod_unfold bump_eb_slot_inv eb_field_invs flip: n_def)
qed

lemma fold_remove_index_prune:
  "fold (\<lambda>tid s. prune_from_peer_sets tid (s\<lparr>mp_tx_index := mp_tx_index s - {tid}\<rparr>)) ids st =
     prune_set (set ids) (st\<lparr>mp_tx_index := mp_tx_index st - set ids\<rparr>)"
proof (induction ids arbitrary: st)
  case (Cons a ids)
  have comm: "(prune_set S s)\<lparr>mp_tx_index := I\<rparr> = prune_set S (s\<lparr>mp_tx_index := I\<rparr>)" for S s I
    by (simp add: prune_set_def)
  have d: "mp_tx_index st - {a} - set ids = mp_tx_index st - insert a (set ids)" by blast
  show ?case
    by (simp add: Cons comm prune_set_prune_set d prune_from_peer_sets_eq [of a])
qed (simp add: prune_set_empty)

lemma produce_selected_eb_eq:
  "produce_selected_eb st key manifest =
     record_eb_manifest (remove_ids (set manifest) (pin_eb_transactions st manifest)) key manifest"
proof -
  have comm: "(prune_set S s)\<lparr>mp_total_bytes := b\<rparr> = prune_set S (s\<lparr>mp_total_bytes := b\<rparr>)" for S s b
    by (simp add: prune_set_def)
  show ?thesis
    by (simp add: produce_selected_eb_def Let_def fold_remove_index_prune remove_ids_def comm)
qed

lemma produce_selected_eb_inv [inv_intros]:
  "mempool_inv st \<Longrightarrow> mempool_inv (fst (produce_selected_eb st key manifest))"
  by (simp add: produce_selected_eb_eq record_eb_manifest_inv remove_ids_inv pin_eb_transactions_inv)

lemma drains_inv [inv_intros]:
  assumes "mempool_inv st"
  shows "mempool_inv (fst (drain_up_to st n))" and "mempool_inv (fst (drain_all st))"
  using assms by (simp_all add: drain_up_to_eq drain_all_eq remove_ids_inv mempool_inv_def [of st])


subsection \<open>Reachable pools\<close>

inductive mempool_step :: "mempool_state \<Rightarrow> mempool_state \<Rightarrow> bool" where
  "mempool_step st (fst (admit_validated st tid body sz slot ours))"
| "mempool_step st (mp_on_block_applied st included)"
| "mempool_step st (mp_on_block_rolled_back st)"
| "mempool_step st (forget_peer st peer)"
| "mempool_step st (mp_apply_control st policy)"
| "mempool_step st (fst (peek_unannounced_for_peer st peer n slot))"
| "mempool_step st (fst (mark_announced_to_peer st peer tid slot))"
| "mempool_step st (fst (drain_up_to st n))"
| "mempool_step st (fst (drain_all st))"
| "mempool_step st (fst (produce_eb st key n))"
| "mempool_step st (fst (produce_selected_eb st key manifest))"
| "mempool_step st (fst (protect_chain_tip_eb st protected))"
| "mempool_step st (fst (record_eb_manifest st key manifest))"
| "mempool_step st (pin_eb_transactions st manifest)"
| "mempool_step st (merge_eb_body st tx ours slot)"

inductive mempool_reachable :: "mempool_state \<Rightarrow> bool" where
  new: "mempool_reachable (mempool_new_with_eb_retention capacity slots)"
| step: "mempool_reachable st \<Longrightarrow> mempool_step st st' \<Longrightarrow> mempool_reachable st'"

lemma mempool_step_inv: "mempool_step st st' \<Longrightarrow> mempool_inv st \<Longrightarrow> mempool_inv st'"
  by (induction rule: mempool_step.induct)
    (simp_all add: inv_intros mp_on_block_rolled_back_def mp_apply_control_def eb_field_invs)

lemma mempool_reachable_mempool_inv: "mempool_reachable st \<Longrightarrow> mempool_inv st"
  by (induction rule: mempool_reachable.induct) (auto simp: mempool_new_inv intro: mempool_step_inv)

lemmas mempool_reachable_ops =
  mempool_reachable.step [OF _ mempool_step.intros(1)] mempool_reachable.step [OF _ mempool_step.intros(2)]
  mempool_reachable.step [OF _ mempool_step.intros(6)]

subsection \<open>Facts about the drain, the replay filter and the EB window\<close>

lemma budget_prefix_sum:
  assumes "budget_prefix m b first xs \<noteq> []"
  shows "b + sum_list (map mt_size (budget_prefix m b first xs)) \<le> m \<or> (first \<and> length (budget_prefix m b first xs) = 1)"
  using assms
proof (induction m b first xs rule: budget_prefix.induct)
  case (2 m b first tx txs)
  show ?case
  proof (cases "b + mt_size tx < m")
    case True
    then show ?thesis
      using 2 by (cases "budget_prefix m (b + mt_size tx) False txs") (auto simp: add.assoc)
  qed (use "2.prems" in \<open>auto split: if_splits\<close>)
qed simp

lemma budget_prefix_maximal:
  assumes "xs = budget_prefix m b first xs @ y # ys"
  shows "b + sum_list (map mt_size (budget_prefix m b first xs)) + mt_size y > m \<or>
    b + sum_list (map mt_size (budget_prefix m b first xs)) \<ge> m"
  using assms
proof (induction m b first xs rule: budget_prefix.induct)
  case (2 m b first tx txs)
  then show ?case by (auto simp: add.assoc split: if_splits)
qed simp

lemma budget_prefix_nonempty: "xs \<noteq> [] \<Longrightarrow> budget_prefix m b True xs \<noteq> []"
  by (cases xs) auto

text \<open>An id that was marked \<open>k\<close> marks ago is at distance at most \<open>k\<close> from the end of the filter's queue.\<close>

definition recently_applied :: "nat \<Rightarrow> tx_id \<Rightarrow> mempool_state \<Rightarrow> bool" where
  "recently_applied k tid st \<longleftrightarrow> (\<exists>xs ys. mp_applied_order st = xs @ tid # ys \<and> length ys \<le> k)"

lemma mark_applied_recent:
  assumes "applied_inv st" and "tid \<notin> mp_applied st"
  shows "recently_applied 0 tid (mark_applied tid st)"
proof -
  have b: "APPLIED_BOUND > 0" by (simp add: APPLIED_BOUND_def)
  have "tid \<notin> set (mp_applied_order st)" using assms by (simp add: applied_inv_def)
  then have "\<exists>xs. mp_applied_order (mark_applied tid st) = xs @ [tid]"
    using b by (cases "mp_applied_order st") (auto simp: mark_applied_order [OF assms(1)])
  then show ?thesis by (auto simp: recently_applied_def)
qed

lemma mark_applied_keeps_recent:
  assumes "applied_inv st" and "recently_applied k tid st" and "k + 1 < APPLIED_BOUND"
  shows "recently_applied (Suc k) tid (mark_applied other st)"
proof -
  obtain xs ys where o: "mp_applied_order st = xs @ tid # ys" "length ys \<le> k"
    using assms(2) by (auto simp: recently_applied_def)
  note order = mark_applied_order [OF assms(1), of other]
  consider "other \<in> set (mp_applied_order st)"
    | "other \<notin> set (mp_applied_order st)" "length (mp_applied_order st) < APPLIED_BOUND"
    | "other \<notin> set (mp_applied_order st)" "\<not> length (mp_applied_order st) < APPLIED_BOUND"
    by blast
  then show ?thesis
  proof cases
    case 1
    with o order show ?thesis unfolding recently_applied_def by (intro exI [of _ xs] exI [of _ ys]) auto
  next
    case 2
    with o order show ?thesis unfolding recently_applied_def
      by (intro exI [of _ xs] exI [of _ "ys @ [other]"]) auto
  next
    case 3
    then obtain x xs' where "xs = x # xs'" using o assms(3) by (cases xs) auto
    with 3 o order show ?thesis unfolding recently_applied_def
      by (intro exI [of _ xs'] exI [of _ "ys @ [other]"]) auto
  qed
qed

lemma fold_mark_applied_keeps_recent:
  assumes "applied_inv st" and "recently_applied k tid st" and "k + length ids < APPLIED_BOUND"
  shows "recently_applied (k + length ids) tid (fold mark_applied ids st)"
  using assms
proof (induction ids arbitrary: st k)
  case (Cons a ids)
  have "recently_applied (Suc k) tid (mark_applied a st)"
    using Cons.prems by (intro mark_applied_keeps_recent) auto
  then show ?case
    using Cons.IH [of "mark_applied a st" "Suc k"] Cons.prems by (simp add: mark_applied_inv)
qed simp

lemma recently_applied_mem:
  assumes "applied_inv st" and "recently_applied k tid st"
  shows "tid \<in> mp_applied st"
proof -
  obtain xs ys where "mp_applied_order st = xs @ tid # ys"
    using assms(2) unfolding recently_applied_def by blast
  moreover have "mp_applied st = set (mp_applied_order st)"
    using assms(1) unfolding applied_inv_def by blast
  ultimately show ?thesis by simp
qed

lemma fold_mark_applied_mem:
  assumes "applied_inv st" and "tid \<in> set ids" and "tid \<notin> mp_applied st" and "length ids \<le> APPLIED_BOUND"
  shows "tid \<in> mp_applied (fold mark_applied ids st)"
proof -
  obtain as bs where ids: "ids = as @ tid # bs" "tid \<notin> set as"
    using assms(2) split_list_first by metis
  define s where "s = fold mark_applied as st"
  have s: "applied_inv s" "tid \<notin> mp_applied s"
    using assms(1,3) ids(2) fold_mark_applied_subset [of as st] by (auto simp: s_def fold_mark_applied_inv)
  have "recently_applied (0 + length bs) tid (fold mark_applied bs (mark_applied tid s))"
    using s assms(4) ids(1)
    by (intro fold_mark_applied_keeps_recent mark_applied_inv mark_applied_recent) auto
  then show ?thesis
    using recently_applied_mem fold_mark_applied_inv [OF mark_applied_inv [OF s(1)]] by (simp add: ids s_def)
qed

lemma has_tx_body:
  assumes "mempool_inv st"
  shows "has_tx st tid \<longleftrightarrow> get_body_by_id st tid \<noteq> None"
proof -
  have "tid \<in> mp_tx_index st \<longleftrightarrow> find (\<lambda>tx. mt_id tx = tid) (mp_txs st) \<noteq> None"
    using assms find_key_None [of mt_id tid "mp_txs st"] by (simp add: mempool_inv_def pool_inv_def)
  then show ?thesis
    by (cases "oget (mp_eb_pinned st) tid")
      (simp_all add: has_tx_def mp_contains_def get_body_by_id_def get_record_by_id_def ohas_def)
qed

lemma prune_eb_slot_window_keeps:
  assumes "oget (mp_eb_manifests st) key = Some m"
    and "ebk_slot key \<ge> saturating_sub (mp_max_eb_slot st) (mp_eb_retention_slots st) \<or> Some key = mp_protected_chain_tip_eb st"
    and "tid \<in> set m"
  shows "oget (mp_eb_manifests (fst (prune_eb_slot_window st))) key = Some m \<and>
    oget (mp_eb_pinned (fst (prune_eb_slot_window st))) tid = oget (mp_eb_pinned st) tid"
proof -
  define M where "M = oretain (\<lambda>k _. ebk_slot k \<ge> saturating_sub (mp_max_eb_slot st) (mp_eb_retention_slots st)
      \<or> Some k = mp_protected_chain_tip_eb st) (mp_eb_manifests st)"
  have "oget M key = Some m" using assms(1,2) by (simp add: M_def oget_oretain)
  moreover from this have "tid \<in> set (concat (ovalues M))"
    using assms(3) in_ovalues_iff [of m M] by auto
  ultimately show ?thesis
    using assms(1) by (auto simp: prune_eb_slot_window_def Let_def oget_oretain simp flip: M_def split: option.splits)
qed

lemma length_map_filter_total:
  "(\<And>x. x \<in> set xs \<Longrightarrow> f x \<noteq> None) \<Longrightarrow> length (List.map_filter f xs) = length xs"
  by (induction xs) (auto simp: List.map_filter_simps split: option.splits)

lemma complete_closure_served:
  assumes "mempool_inv st" and "oget (mp_eb_manifests st) key = Some manifest"
    and "\<And>tid. tid \<in> set manifest \<Longrightarrow> has_tx st tid" and "length manifest < 2 ^ 32"
  shows "missing_eb_indices st key = [] \<and>
    (\<exists>bodies. get_eb_bodies st key (map of_nat [0..<length manifest]) = Some bodies \<and>
       length bodies = length manifest)"
proof -
  have idx: "unat (of_nat i :: u32) = i" if "i < length manifest" for i
    using that assms(4) by (simp add: unat_of_nat)
  have "get_body_by_id st (manifest ! i) \<noteq> None" if "i < length manifest" for i
    using assms(3) [OF nth_mem [OF that]] has_tx_body [OF assms(1)] by blast
  then have "length (List.map_filter
      (\<lambda>i :: u32. if unat i < length manifest then get_body_by_id st (manifest ! unat i) else None)
      (map of_nat [0..<length manifest])) = length (map (of_nat :: nat \<Rightarrow> u32) [0..<length manifest])"
    by (intro length_map_filter_total) (auto simp: idx)
  moreover have "missing_eb_indices st key = []"
    using assms(2,3) by (auto simp: missing_eb_indices_def filter_empty_conv in_set_enumerate_eq)
  ultimately show ?thesis using assms(2) by (simp add: get_eb_bodies_def)
qed

lemma fold_pin_present:
  "ohas (fold (\<lambda>tx. oor_insert (mt_id tx) tx) txs pinned) tid \<longleftrightarrow> ohas pinned tid \<or> tid \<in> mt_id ` set txs"
  by (induction txs arbitrary: pinned) (auto simp: ohas_def oget_oor_insert split: if_splits)

subsection \<open>A concrete pool\<close>

definition sample_pool :: mempool_state where
  "sample_pool =
     fst (admit_validated (fst (admit_validated (mempool_new 2) 7 [1, 2] 10 3 True)) 5 [3] 20 4 False)"

lemma sample_pool_reachable: "mempool_reachable sample_pool"
  unfolding sample_pool_def mempool_new_def
  by (intro mempool_reachable_ops mempool_reachable.new)

lemma sample_pool_txs:
  "mp_txs sample_pool = [mk_tx 7 [1, 2] 10 3 True, mk_tx 5 [3] 20 4 False]"
  "mp_applied sample_pool = {}" "mp_capacity sample_pool = 2" "mp_tx_index sample_pool = {5, 7}"
  "mp_peer_unannounced sample_pool = oempty" "mp_peer_advertised sample_pool = oempty"
  "mp_withholding sample_pool = NoWithholding" "mp_eb_pinned sample_pool = oempty"
  "mp_eb_manifests sample_pool = oempty" "mp_max_eb_slot sample_pool = 0" "mp_total_bytes sample_pool = 30"
  "mp_eb_retention_slots sample_pool = 100" "mp_protected_chain_tip_eb sample_pool = None"
  by (simp_all add: sample_pool_def mempool_new_def mempool_new_with_eb_retention_def admit_validated_def
      admit_internal_def evict_oldest_def mp_contains_def mk_tx_def prune_from_peer_sets_def
      DEFAULT_EB_RETENTION_SLOTS_def insert_commute omap_values_empty)

subsection \<open>Properties\<close>

text \<open>C3: Every pool reached by any sequence of the public operations is well formed: no id is queued
  twice, the membership index is exactly the ids of the queue, the byte total is exact (so that no
  subtraction from it underflows), the queue stays within its capacity, for every peer known to the
  pool the owed and the advertised ids partition the pool, and the replay filter is bounded by 65,536
  ids and disjoint from the pool.\<close>

theorem mempool_reachable_inv:
  assumes "mempool_reachable st"
  shows "distinct (map mt_id (mp_txs st)) \<and>
    mp_tx_index st = mt_id ` set (mp_txs st) \<and>
    mp_total_bytes st = sum_list (map mt_size (mp_txs st)) \<and>
    length (mp_txs st) \<le> max 1 (mp_capacity st) \<and>
    (\<forall>peer. ohas (mp_peer_unannounced st) peer \<longrightarrow>
       owed st peer \<inter> advertised_to st peer = {} \<and> owed st peer \<union> advertised_to st peer = mp_tx_index st) \<and>
    card (mp_applied st) \<le> 65536 \<and> mp_applied st \<inter> mp_tx_index st = {}"
proof -
  note inv = mempool_reachable_mempool_inv [OF assms]
  then have "card (mp_applied st) \<le> 65536"
    by (simp add: mempool_inv_def applied_inv_def APPLIED_BOUND_def distinct_card)
  with inv show ?thesis unfolding mempool_inv_def pool_inv_def peers_inv_def by blast
qed

theorem mempool_reachable_inv_witness:
  "mempool_reachable sample_pool \<and> mp_total_bytes sample_pool = sum_list (map mt_size (mp_txs sample_pool)) \<and>
   length (mp_txs sample_pool) = 2"
  using mempool_reachable_inv [OF sample_pool_reachable] sample_pool_reachable by (simp add: sample_pool_txs)

text \<open>Announcing to a peer. On every reachable pool, \<open>peek_unannounced_for_peer\<close> returns at most
  \<open>max_count\<close> transactions, all queued, in queue order and without repetition, none of them announced
  to that peer before, and moves exactly their ids from owed to advertised; the queue and the other
  peers are untouched. With no withholding policy it returns as many as it may: the smaller of
  \<open>max_count\<close> and the number of owed ids.\<close>

theorem peek_unannounced_effect:
  assumes "mempool_reachable st" and "peek_unannounced_for_peer st peer max_count slot = (st', txs)"
  shows "length txs \<le> max_count \<and> distinct (map mt_id txs) \<and>
    txs = filter (\<lambda>tx. mt_id tx \<in> mt_id ` set txs) (mp_txs st) \<and>
    mt_id ` set txs \<inter> advertised_to st peer = {} \<and>
    advertised_to st' peer = advertised_to st peer \<union> mt_id ` set txs \<and>
    owed st' peer = mp_tx_index st - advertised_to st' peer \<and>
    mp_txs st' = mp_txs st \<and>
    (\<forall>q. q \<noteq> peer \<longrightarrow> owed st' q = owed st q \<and> advertised_to st' q = advertised_to st q) \<and>
    (mp_withholding st = NoWithholding \<longrightarrow>
       length txs = min max_count (card (mp_tx_index st - advertised_to st peer)))"
proof -
  define s where "s = ensure_peer_registered peer st"
  define ids where "ids = to_send_for s peer max_count slot"
  note inv = mempool_reachable_mempool_inv [OF assms(1)]
  have s: "mempool_inv s" "ohas (mp_peer_unannounced s) peer"
    using inv by (simp_all add: s_def ensure_peer_registered_inv)
  then have si: "pool_inv s" "peers_inv s" by (simp_all add: mempool_inv_def)
  note props = to_send_for_props(1-3) [OF si(2,1) s(2), of max_count slot, folded ids_def]
    to_send_for_props(4,5) [OF si(2,1) s(2)]
  have owed: "owed s peer = mp_tx_index st - advertised_to st peer" "owed s peer \<inter> advertised_to st peer = {}"
    using s by (auto simp: mempool_inv_def peers_inv_def s_def)
  show ?thesis
  proof (cases "owed s peer = {} \<or> max_count = 0")
    case True
    then have "st' = s" "txs = []"
      using peek_eq [OF inv, of peer max_count slot] assms(2) by (auto simp: s_def)
    moreover have "min max_count (card (mp_tx_index st - advertised_to st peer)) = 0"
      using True owed(1) by (metis card.empty min_0L min_0R)
    ultimately show ?thesis
      using owed by (auto simp: s_def owed_ensure_peer_registered)
  next
    case False
    then obtain stats where st': "st' = advertise peer (set ids) s\<lparr>mp_control_stats := stats\<rparr>"
      and txs: "txs = filter (\<lambda>tx. mt_id tx \<in> set ids) (mp_txs st)"
      using peek_eq [OF inv, of peer max_count slot] assms(2) by (auto simp: s_def ids_def)
    have img: "mt_id ` set txs = set ids"
      using props si(1) by (auto simp: txs pool_inv_def s_def image_iff subset_iff)
    have d: "distinct (map mt_id txs)" using si(1) by (simp add: txs pool_inv_def s_def)
    have len: "length txs = length ids"
      by (metis d distinct_card img length_map list.set_map props(1))
    have full: "length ids = min max_count (card (mp_tx_index st - advertised_to st peer))"
      if "mp_withholding st = NoWithholding"
      using that owed(1) by (simp add: ids_def to_send_for_def filter_transaction_def s_def)
    show ?thesis
      using props img d len full owed st' by (auto simp: txs s_def owed_ensure_peer_registered)
  qed
qed

theorem peek_unannounced_effect_witness:
  "\<exists>st' txs. peek_unannounced_for_peer sample_pool 1 5 9 = (st', txs) \<and> mempool_reachable sample_pool \<and>
     length txs = 2 \<and> txs = mp_txs sample_pool"
proof -
  obtain st' txs where p: "peek_unannounced_for_peer sample_pool 1 5 9 = (st', txs)" by fastforce
  note e = peek_unannounced_effect [OF sample_pool_reachable p]
  then have len: "length txs = 2" by (simp add: sample_pool_txs advertised_to_def)
  have "length (filter (\<lambda>tx. mt_id tx \<in> mt_id ` set txs) (mp_txs sample_pool)) = length (mp_txs sample_pool)"
    using e len by (simp add: sample_pool_txs(1))
  then have "txs = mp_txs sample_pool"
    using e by (metis filter_id_conv length_filter_less less_irrefl)
  with p len sample_pool_reachable show ?thesis by blast
qed


text \<open>Draining for a ranking block body is FIFO and respects the byte budget. On every reachable
  pool the drained transactions followed by the remaining queue are the old queue; their total size
  is within \<open>max_bytes\<close> unless a single oversized transaction was taken; something is drained
  whenever the queue is non-empty; the drain stops only when the budget is used up or the next
  transaction does not fit; and the byte total drops by exactly the drained sizes.\<close>

theorem drain_up_to_effect:
  assumes "mempool_reachable st" and "drain_up_to st max_bytes = (st', drained)"
  shows "drained @ mp_txs st' = mp_txs st \<and>
    (sum_list (map mt_size drained) \<le> max_bytes \<or> length drained = 1) \<and>
    (mp_txs st \<noteq> [] \<longrightarrow> drained \<noteq> []) \<and>
    (\<forall>tx rest. mp_txs st' = tx # rest \<longrightarrow>
       sum_list (map mt_size drained) + mt_size tx > max_bytes \<or> sum_list (map mt_size drained) \<ge> max_bytes) \<and>
    mp_total_bytes st' + sum_list (map mt_size drained) = mp_total_bytes st"
proof -
  have pool: "pool_inv st" using mempool_reachable_mempool_inv [OF assms(1)] by (simp add: mempool_inv_def)
  then have d: "drained = budget_prefix max_bytes 0 True (mp_txs st)"
    and st': "st' = remove_ids (mt_id ` set drained) st"
    using assms(2) by (auto simp: drain_up_to_eq)
  obtain ys where ys: "mp_txs st = drained @ ys" using budget_prefix_prefix d by blast
  then have "mp_txs st' = ys"
    using pool filter_other_ids [of drained ys] by (simp add: st' pool_inv_def)
  moreover have "mp_total_bytes st' + sum_list (map mt_size drained) = mp_total_bytes st"
    using remove_prefix [OF pool ys] ys pool by (simp add: st' pool_inv_def)
  moreover have "drained = [] \<or> sum_list (map mt_size drained) \<le> max_bytes \<or> length drained = 1"
    using budget_prefix_sum [of max_bytes 0 True "mp_txs st"] by (auto simp flip: d)
  moreover have "sum_list (map mt_size drained) + mt_size tx > max_bytes \<or> sum_list (map mt_size drained) \<ge> max_bytes"
    if "ys = tx # rest" for tx rest
    using budget_prefix_maximal [OF ys [unfolded that d]] by (simp flip: d)
  moreover have "mp_txs st \<noteq> [] \<longrightarrow> drained \<noteq> []"
    using budget_prefix_nonempty by (simp add: d)
  ultimately show ?thesis using ys by (cases "drained = []") simp_all
qed

theorem drain_up_to_effect_witness:
  "\<exists>st' drained. drain_up_to sample_pool 15 = (st', drained) \<and> mempool_reachable sample_pool \<and>
     drained @ mp_txs st' = mp_txs sample_pool \<and> drained = [mk_tx 7 [1, 2] 10 3 True]"
proof -
  have "drain_up_to sample_pool 15 = (fst (drain_up_to sample_pool 15), [mk_tx 7 [1, 2] 10 3 True])"
    using mempool_reachable_mempool_inv [OF sample_pool_reachable]
    by (simp add: mempool_inv_def drain_up_to_eq sample_pool_txs(1))
  from drain_up_to_effect [OF sample_pool_reachable this] this sample_pool_reachable show ?thesis by blast
qed

text \<open>Admission on every branch. An id in the queue or in the replay filter is rejected as
  \<open>AlreadyKnown\<close> and the queue is unchanged. Any other id is appended to the end of the queue; if the
  pool is at capacity, exactly the oldest transaction is evicted first and reported as \<open>QueueFull\<close>;
  and every peer the pool knows now owes the new id.\<close>

theorem admit_validated_effect:
  assumes "mempool_reachable st" and "admit_validated st tid body sz slot ours = (st', fx)"
  shows "(tid \<in> mp_tx_index st \<union> mp_applied st \<longrightarrow> fx = [TxRejected tid AlreadyKnown] \<and> mp_txs st' = mp_txs st) \<and>
    (tid \<notin> mp_tx_index st \<union> mp_applied st \<longrightarrow>
       (let full = (mp_txs st \<noteq> [] \<and> length (mp_txs st) \<ge> mp_capacity st)
        in mp_txs st' = (if full then tl (mp_txs st) else mp_txs st) @ [mk_tx tid body sz slot ours] \<and>
           fx = (if full then [TxRejected (mt_id (hd (mp_txs st))) QueueFull] else []) \<and>
           (\<forall>peer. ohas (mp_peer_unannounced st) peer \<longrightarrow> tid \<in> owed st' peer \<and> tid \<notin> advertised_to st' peer)))"
proof -
  note inv = mempool_reachable_mempool_inv [OF assms(1)]
  define s where "s = st\<lparr>mp_pending_validation := odel tid (mp_pending_validation st)\<rparr>"
  have s: "mempool_inv s" using inv by (simp add: s_def pending_upd_inv)
  then have p: "pool_inv s" by (simp add: mempool_inv_def)
  show ?thesis
  proof (cases "tid \<in> mp_tx_index st \<union> mp_applied st")
    case True
    then show ?thesis
      using assms(2) by (auto simp: admit_validated_def mp_contains_def admit_internal_eq split: if_splits)
  next
    case False
    define tx where "tx = mk_tx tid body sz slot ours"
    have eq: "st' = push_tx tx (fst (evict_oldest s))" "fx = snd (evict_oldest s)"
      using False assms(2) by (simp_all add: admit_validated_def mp_contains_def admit_internal_eq s_def tx_def)
    let ?full = "mp_txs st \<noteq> [] \<and> length (mp_txs st) \<ge> mp_capacity st"
    have fx: "fx = (if ?full then [TxRejected (mt_id (hd (mp_txs st))) QueueFull] else [])"
      unfolding eq(2) by (auto simp: evict_oldest_def s_def split: list.splits)
    have txs: "mp_txs (fst (evict_oldest s)) = (if ?full then tl (mp_txs st) else mp_txs st)"
      by (auto simp: evict_oldest_def s_def prune_from_peer_sets_def split: list.splits)
    have owed: "tid \<in> owed st' peer \<and> tid \<notin> advertised_to st' peer" if "ohas (mp_peer_unannounced st) peer" for peer
    proof -
      have reg: "ohas (mp_peer_unannounced (fst (evict_oldest s))) peer"
        unfolding evict_oldest_eq [OF p] using that by (simp add: s_def)
      then have "advertised_to (fst (evict_oldest s)) peer \<subseteq> mp_tx_index (fst (evict_oldest s))"
        using evict_oldest_inv [OF s] by (auto simp: mempool_inv_def peers_inv_def)
      then show ?thesis
        using reg False evict_oldest_frame(3) [OF p] by (auto simp: eq(1) push_tx_owed tx_def s_def)
    qed
    show ?thesis using False fx txs owed by (simp add: Let_def eq(1) tx_def)
  qed
qed

theorem admit_validated_effect_witness:
  "\<exists>st' fx. admit_validated sample_pool 9 [] 1 5 True = (st', fx) \<and> mempool_reachable sample_pool \<and>
     fx = [TxRejected 7 QueueFull] \<and> map mt_id (mp_txs st') = [5, 9]"
proof -
  obtain st' fx where a: "admit_validated sample_pool 9 [] 1 5 True = (st', fx)" by fastforce
  have n: "(9 :: tx_id) \<notin> mp_tx_index sample_pool \<union> mp_applied sample_pool" by (simp add: sample_pool_txs)
  show ?thesis
    using admit_validated_effect [OF sample_pool_reachable a] n a sample_pool_reachable
    by (simp add: sample_pool_txs)
qed




text \<open>The EB retention window. After any EB observation, with \<open>cutoff\<close> the highest EB slot minus the
  retention (saturating): a manifest survives exactly if its slot is not below the cutoff or it is the
  protected chain tip's; a pinned body survives exactly if a surviving manifest lists it; and for each
  body dropped, and for no other, one \<open>EbClosurePruned\<close> effect is emitted. With a zero cutoff nothing
  changes. The free pool is never touched.\<close>

theorem prune_eb_slot_window_effect:
  "let cutoff = saturating_sub (mp_max_eb_slot st) (mp_eb_retention_slots st);
       st' = fst (prune_eb_slot_window st);
       fx = snd (prune_eb_slot_window st)
   in mp_txs st' = mp_txs st \<and> mp_tx_index st' = mp_tx_index st \<and>
      (cutoff = 0 \<and> st' = st \<and> fx = [] \<or>
       cutoff \<noteq> 0 \<and>
       (\<forall>key. oget (mp_eb_manifests st') key =
          (if ebk_slot key \<ge> cutoff \<or> Some key = mp_protected_chain_tip_eb st
           then oget (mp_eb_manifests st) key else None)) \<and>
       (\<forall>tid. oget (mp_eb_pinned st') tid =
          (if \<exists>key m. oget (mp_eb_manifests st') key = Some m \<and> tid \<in> set m
           then oget (mp_eb_pinned st) tid else None)) \<and>
       distinct fx \<and>
       set fx = {TxRejected tid EbClosurePruned | tid. ohas (mp_eb_pinned st) tid \<and> \<not> ohas (mp_eb_pinned st') tid})"
proof -
  define cutoff where "cutoff = saturating_sub (mp_max_eb_slot st) (mp_eb_retention_slots st)"
  define M where "M = oretain (\<lambda>k _. ebk_slot k \<ge> cutoff \<or> Some k = mp_protected_chain_tip_eb st) (mp_eb_manifests st)"
  define R where "R = set (concat (ovalues M))"
  have R: "tid \<in> R \<longleftrightarrow> (\<exists>key m. oget M key = Some m \<and> tid \<in> set m)" for tid
    unfolding R_def by simp (metis in_ovalues_iff)
  have prune: "prune_eb_slot_window st =
    (if cutoff = 0 then (st, [])
     else (st\<lparr>mp_eb_manifests := M, mp_eb_pinned := oretain (\<lambda>tid _. tid \<in> R) (mp_eb_pinned st)\<rparr>,
           map (\<lambda>tid. TxRejected tid EbClosurePruned) (filter (\<lambda>tid. tid \<notin> R) (okeys (mp_eb_pinned st)))))"
    by (simp add: prune_eb_slot_window_def Let_def cutoff_def M_def R_def)
  have man: "oget M key = (if ebk_slot key \<ge> cutoff \<or> Some key = mp_protected_chain_tip_eb st
      then oget (mp_eb_manifests st) key else None)" for key
    by (simp add: M_def oget_oretain split: option.splits)
  have pin: "oget (oretain (\<lambda>tid _. tid \<in> R) (mp_eb_pinned st)) tid =
      (if tid \<in> R then oget (mp_eb_pinned st) tid else None)" for tid
    by (simp add: oget_oretain split: option.splits)
  have fx: "set (map (\<lambda>tid. TxRejected tid EbClosurePruned) (filter (\<lambda>tid. tid \<notin> R) (okeys (mp_eb_pinned st)))) =
      {TxRejected tid EbClosurePruned | tid. ohas (mp_eb_pinned st) tid \<and> \<not> ohas (oretain (\<lambda>tid _. tid \<in> R) (mp_eb_pinned st)) tid}"
    by (auto simp: set_okeys ohas_def pin)
  have di: "distinct (map (\<lambda>tid. TxRejected tid EbClosurePruned) (filter (\<lambda>tid. tid \<notin> R) (okeys (mp_eb_pinned st))))"
    by (simp add: distinct_map inj_on_def)
  show ?thesis
  proof (cases "cutoff = 0")
    case True
    then show ?thesis by (simp add: prune flip: cutoff_def)
  next
    case False
    then show ?thesis using fx di
      by (simp add: prune Let_def man [symmetric] pin R [symmetric] flip: cutoff_def)
  qed
qed


lemma produce_eb_closure:
  assumes "mempool_inv st" and "produce_eb st key count = (st', manifest, fx)"
    and "ebk_slot key \<ge> saturating_sub (max (mp_max_eb_slot st) (ebk_slot key)) (mp_eb_retention_slots st)"
  shows "manifest = map mt_id (take count (mp_txs st))" and "mp_txs st' = drop count (mp_txs st)"
    and "oget (mp_eb_manifests st') key = Some manifest" and "\<And>tid. tid \<in> set manifest \<Longrightarrow> has_tx st' tid"
proof -
  have pool: "pool_inv st" using assms(1) by (simp add: mempool_inv_def)
  define n where "n = min count (length (mp_txs st))"
  define txs where "txs = take n (mp_txs st)"
  define s1 where "s1 = (pop_front_tx ^^ n) st"
  define pinned where "pinned = fold (\<lambda>tx. oor_insert (mt_id tx) tx) txs (mp_eb_pinned s1)"
  define s2 where "s2 = s1\<lparr>mp_eb_pinned := pinned, mp_eb_manifests := oput key (map mt_id txs) (mp_eb_manifests s1),
      mp_max_eb_slot := max (mp_max_eb_slot s1) (ebk_slot key)\<rparr>"
  have n: "n \<le> length (mp_txs st)" "take n (mp_txs st) = take count (mp_txs st)" "drop n (mp_txs st) = drop count (mp_txs st)"
    by (simp_all add: n_def min_def)
  have s1: "s1 = remove_ids (mt_id ` set txs) st"
    using pop_front_pow_eq [OF pool n(1)] by (simp add: s1_def txs_def)
  have st': "st' = fst (prune_eb_slot_window s2)" and m: "manifest = map mt_id txs"
    using assms(2)
    by (auto simp: produce_eb_def Let_def case_prod_unfold s1_def s2_def pinned_def txs_def bump_eb_slot_def
        simp flip: n_def)
  have frame: "mp_max_eb_slot s1 = mp_max_eb_slot st" "mp_eb_retention_slots s1 = mp_eb_retention_slots st"
    "mp_txs s1 = drop n (mp_txs st)"
    using filter_other_ids [of txs "drop n (mp_txs st)"] pool
    by (simp_all add: s1 remove_ids_def prune_set_def Let_def pool_inv_def txs_def)
  show "manifest = map mt_id (take count (mp_txs st))" by (simp add: m txs_def n(2))
  show "mp_txs st' = drop count (mp_txs st)"
    using frame(3) n(3) by (simp add: st' prune_eb_slot_window_def Let_def s2_def)
  show "oget (mp_eb_manifests st') key = Some manifest"
    unfolding st' using assms(3) frame m
    by (simp add: prune_eb_slot_window_def Let_def oget_oretain s2_def oget_oput)
  show "has_tx st' tid" if "tid \<in> set manifest" for tid
    using prune_eb_slot_window_keeps [of s2 key manifest tid] fold_pin_present [of txs "mp_eb_pinned s1" tid]
      assms(3) frame m that
    by (simp add: s2_def oget_oput has_tx_def ohas_def pinned_def st')
qed

text \<open>Producing an endorser block. On every reachable pool, \<open>produce_eb\<close> takes the first \<open>count\<close>
  transactions of the queue (all of them if there are fewer) into the manifest, in order, and leaves
  the rest queued. Unless the EB's slot is itself already behind the retention window, every
  transaction of the manifest stays available: the manifest is recorded, no index is missing, and a
  request for all indices is answered with one body per index.\<close>

theorem produce_eb_effect:
  assumes "mempool_reachable st" and "produce_eb st key count = (st', manifest, fx)"
    and "length (mp_txs st) < 2 ^ 32"
    and "ebk_slot key \<ge> saturating_sub (max (mp_max_eb_slot st) (ebk_slot key)) (mp_eb_retention_slots st)"
  shows "manifest = map mt_id (take count (mp_txs st)) \<and> mp_txs st' = drop count (mp_txs st) \<and>
    get_eb_manifest st' key = Some manifest \<and> missing_eb_indices st' key = [] \<and>
    (\<exists>bodies. get_eb_bodies st' key (map of_nat [0..<length manifest]) = Some bodies \<and>
       length bodies = length manifest)"
proof -
  note inv = mempool_reachable_mempool_inv [OF assms(1)]
  note closure = produce_eb_closure [OF inv assms(2,4)]
  have "mempool_inv st'" using produce_eb_inv [OF inv, of key count] assms(2) by simp
  moreover have "length manifest < 2 ^ 32" using assms(3) by (simp add: closure(1) min_def)
  ultimately show ?thesis
    using complete_closure_served [of st' key manifest] closure by (simp add: get_eb_manifest_def)
qed

theorem produce_eb_effect_witness:
  "\<exists>st' manifest fx. produce_eb sample_pool (EbKey 4 99) 1 = (st', manifest, fx) \<and> mempool_reachable sample_pool \<and>
     length (mp_txs sample_pool) < 2 ^ 32 \<and> manifest = [7] \<and> missing_eb_indices st' (EbKey 4 99) = []"
proof -
  obtain st' manifest fx where p: "produce_eb sample_pool (EbKey 4 99) 1 = (st', manifest, fx)"
    by (metis prod.exhaust)
  have "ebk_slot (EbKey 4 99) \<ge>
      saturating_sub (max (mp_max_eb_slot sample_pool) (ebk_slot (EbKey 4 99))) (mp_eb_retention_slots sample_pool)"
    by (simp add: sample_pool_txs saturating_sub_def)
  from produce_eb_effect [OF sample_pool_reachable p _ this] p sample_pool_reachable show ?thesis
    by (simp add: sample_pool_txs)
qed

end
