(* ===== verification/Production.thy ===== *)
theory Production
  imports Mempool
begin

text \<open>
  \<open>shared-rs/consensus/src/production.rs\<close>: how the transactions of the pool are split between the
  body of the next self-produced ranking block (\<open>inline\<close>) and a fresh endorser block
  (\<open>manifest\<close>). Of the Leios state the decision reads one map, the certified EBs whose bodies
  have not been validated here (\<open>endorsed_unvalidated_ebs\<close>, by EB hash).
\<close>

record body_path =
  bp_inline :: "mempool_tx list"
  bp_manifest :: "tx_id list"

definition body_path_default :: body_path where
  "body_path_default = \<lparr>bp_inline = [], bp_manifest = []\<rparr>"

definition has_endorsed_unvalidated_eb :: "(hash32, u64) omap \<Rightarrow> bool" where
  "has_endorsed_unvalidated_eb endorsed_unvalidated_ebs \<longleftrightarrow> olen endorsed_unvalidated_ebs \<noteq> 0"

definition eligible :: "bool \<Rightarrow> tx_id set \<Rightarrow> mempool_tx list \<Rightarrow> mempool_tx list" where
  "eligible endorsement_present excluded txs =
     filter (\<lambda>tx. \<not> endorsement_present \<or> mt_id tx \<notin> excluded) txs"

fun manifest_loop :: "nat \<Rightarrow> nat \<Rightarrow> tx_id list \<Rightarrow> mempool_tx list \<Rightarrow> tx_id list" where
  "manifest_loop eb_body_max_bytes bytes manifest [] = manifest"
| "manifest_loop eb_body_max_bytes bytes manifest (tx # txs) =
     (let next_bytes = bytes + mt_size tx
      in if next_bytes > eb_body_max_bytes \<and> manifest \<noteq> [] then manifest
         else if next_bytes \<ge> eb_body_max_bytes then manifest @ [mt_id tx]
         else manifest_loop eb_body_max_bytes next_bytes (manifest @ [mt_id tx]) txs)"

definition decide_excluding ::
  "mempool_state \<Rightarrow> nat \<Rightarrow> nat \<Rightarrow> (hash32, u64) omap \<Rightarrow> bool \<Rightarrow> tx_id set \<Rightarrow> mempool_state \<times> body_path" where
  "decide_excluding st rb_body_max_bytes eb_body_max_bytes endorsed endorsement_present excluded =
     (if has_endorsed_unvalidated_eb endorsed then (st, body_path_default)
      else if sum_list (map mt_size (eligible endorsement_present excluded (mp_txs st))) > rb_body_max_bytes
      then let (st1, inline) = (if endorsement_present \<or> rb_body_max_bytes = 0 then (st, [])
                                else drain_up_to st rb_body_max_bytes);
               manifest = manifest_loop eb_body_max_bytes 0 [] (eligible endorsement_present excluded (mp_txs st1))
           in (st1, \<lparr>bp_inline = inline, bp_manifest = manifest\<rparr>)
      else if endorsement_present then (st, body_path_default)
      else let (st1, inline) = drain_up_to st rb_body_max_bytes
           in (st1, \<lparr>bp_inline = inline, bp_manifest = []\<rparr>))"

definition decide :: "mempool_state \<Rightarrow> nat \<Rightarrow> nat \<Rightarrow> (hash32, u64) omap \<Rightarrow> bool \<Rightarrow> mempool_state \<times> body_path" where
  "decide st rb_body_max_bytes eb_body_max_bytes endorsed endorsement_present =
     decide_excluding st rb_body_max_bytes eb_body_max_bytes endorsed endorsement_present {}"

subsection \<open>The manifest is a byte-budgeted prefix\<close>

lemma manifest_loop_eq:
  "manifest_loop m b manifest txs = manifest @ map mt_id (budget_prefix m b (manifest = []) txs)"
  by (induction m b manifest txs rule: manifest_loop.induct) (auto simp: Let_def)

lemma drain_up_to_facts:
  assumes "pool_inv st"
  shows "snd (drain_up_to st n) @ mp_txs (fst (drain_up_to st n)) = mp_txs st"
    and "snd (drain_up_to st n) = budget_prefix n 0 True (mp_txs st)"
proof -
  show d: "snd (drain_up_to st n) = budget_prefix n 0 True (mp_txs st)"
    by (simp add: drain_up_to_eq assms)
  obtain ys where ys: "mp_txs st = budget_prefix n 0 True (mp_txs st) @ ys"
    using budget_prefix_prefix by blast
  have "distinct (map mt_id (budget_prefix n 0 True (mp_txs st) @ ys))"
    using assms ys by (simp add: pool_inv_def)
  from filter_other_ids [OF this] have "mp_txs (fst (drain_up_to st n)) = ys"
    using ys by (simp add: drain_up_to_eq assms)
  with d ys show "snd (drain_up_to st n) @ mp_txs (fst (drain_up_to st n)) = mp_txs st" by simp
qed

lemma budget_prefix_within:
  "sum_list (map mt_size (budget_prefix m 0 True xs)) \<le> m \<or> length (budget_prefix m 0 True xs) = 1"
  using budget_prefix_sum [of m 0 True xs] by (cases "budget_prefix m 0 True xs = []") auto

text \<open>The three shapes of a decision, from the guards of the code.\<close>

lemma decide_cases:
  assumes "pool_inv st" and "decide_excluding st rb eb endorsed cert excluded = (st', bp)"
  obtains (closed) "olen endorsed \<noteq> 0 \<or> cert" "st' = st" "bp = body_path_default"
      "olen endorsed = 0 \<longrightarrow> sum_list (map mt_size (eligible cert excluded (mp_txs st))) \<le> rb"
    | (overflow) "olen endorsed = 0" "rb < sum_list (map mt_size (eligible cert excluded (mp_txs st)))"
      "bp_inline bp @ mp_txs st' = mp_txs st"
      "bp_inline bp = (if cert \<or> rb = 0 then [] else budget_prefix rb 0 True (mp_txs st))"
      "bp_manifest bp = map mt_id (budget_prefix eb 0 True (eligible cert excluded (mp_txs st')))"
    | (inline) "olen endorsed = 0" "\<not> cert" "sum_list (map mt_size (mp_txs st)) \<le> rb"
      "bp_inline bp @ mp_txs st' = mp_txs st" "bp_inline bp = budget_prefix rb 0 True (mp_txs st)"
      "bp_manifest bp = []"
proof -
  note d = drain_up_to_facts [OF assms(1), of rb]
  consider (g) "olen endorsed \<noteq> 0"
    | (o) "olen endorsed = 0" "rb < sum_list (map mt_size (eligible cert excluded (mp_txs st)))"
    | (c) "olen endorsed = 0" "sum_list (map mt_size (eligible cert excluded (mp_txs st))) \<le> rb" "cert"
    | (i) "olen endorsed = 0" "sum_list (map mt_size (eligible cert excluded (mp_txs st))) \<le> rb" "\<not> cert"
    by linarith
  then show ?thesis
  proof cases
    case g
    then show ?thesis
      using assms(2) by (intro closed) (auto simp: decide_excluding_def has_endorsed_unvalidated_eb_def)
  next
    case o
    then have "(st', bp) = (let (st1, inline) = (if cert \<or> rb = 0 then (st, []) else drain_up_to st rb)
        in (st1, \<lparr>bp_inline = inline, bp_manifest = manifest_loop eb 0 [] (eligible cert excluded (mp_txs st1))\<rparr>))"
      using assms(2) by (simp add: decide_excluding_def has_endorsed_unvalidated_eb_def)
    then show ?thesis
      using d by (intro overflow o) (auto simp: manifest_loop_eq Let_def case_prod_unfold split: if_splits)
  next
    case c
    then show ?thesis
      using assms(2) by (intro closed) (auto simp: decide_excluding_def has_endorsed_unvalidated_eb_def)
  next
    case i
    then have "st' = fst (drain_up_to st rb)" "bp = \<lparr>bp_inline = snd (drain_up_to st rb), bp_manifest = []\<rparr>"
      using assms(2)
      by (auto simp: decide_excluding_def has_endorsed_unvalidated_eb_def case_prod_unfold Let_def)
    with d i show ?thesis by (intro inline) (auto simp: eligible_def)
  qed
qed

lemma budget_prefix_take: "budget_prefix m b first xs = take (length (budget_prefix m b first xs)) xs"
  by (metis append_eq_conv_conj budget_prefix_prefix)

lemma set_eligible: "set (eligible cert excluded txs) \<subseteq> set txs"
  by (auto simp: eligible_def)

lemma set_budget_prefix: "set (budget_prefix m b first xs) \<subseteq> set xs"
  by (metis budget_prefix_take set_take_subset)

subsection \<open>Properties\<close>

text \<open>The split of a reachable pool between block body and endorser block. While a certified EB is not
  validated here, nothing is produced and the pool is untouched. A block with a certificate has no
  inline transactions. The inline part and the remaining queue are the old queue; the inline part is
  within the body cap, or one oversized transaction. The manifest lists, in queue order and without
  repetition, transactions that are still queued, none of them inline, and with a certificate none of
  the excluded ones; it is within the EB cap, or one oversized transaction; and an EB is announced
  exactly when the gate is open, the eligible pool exceeds the body cap and something eligible is left.\<close>

theorem decide_excluding_effect:
  assumes "mempool_reachable st" and "decide_excluding st rb eb endorsed cert excluded = (st', bp)"
  shows "(olen endorsed \<noteq> 0 \<longrightarrow> st' = st \<and> bp = body_path_default) \<and>
    (cert \<longrightarrow> bp_inline bp = []) \<and>
    bp_inline bp @ mp_txs st' = mp_txs st \<and>
    (sum_list (map mt_size (bp_inline bp)) \<le> rb \<or> length (bp_inline bp) = 1) \<and>
    (\<exists>n. bp_manifest bp = map mt_id (take n (eligible cert excluded (mp_txs st'))) \<and>
       (sum_list (map mt_size (take n (eligible cert excluded (mp_txs st')))) \<le> eb \<or> length (bp_manifest bp) = 1)) \<and>
    distinct (bp_manifest bp) \<and> set (bp_manifest bp) \<inter> mt_id ` set (bp_inline bp) = {} \<and>
    (cert \<longrightarrow> set (bp_manifest bp) \<inter> excluded = {}) \<and>
    (bp_manifest bp \<noteq> [] \<longleftrightarrow>
       olen endorsed = 0 \<and> rb < sum_list (map mt_size (eligible cert excluded (mp_txs st))) \<and>
       eligible cert excluded (mp_txs st') \<noteq> [])"
proof -
  have pool: "pool_inv st" using mempool_reachable_mempool_inv [OF assms(1)] by (simp add: mempool_inv_def)
  then have d: "distinct (map mt_id (mp_txs st))" by (simp add: pool_inv_def)
  from pool assms(2) show ?thesis
  proof (cases rule: decide_cases)
    case closed
    then show ?thesis by (auto simp: body_path_default_def)
  next
    case overflow
    define p where "p = budget_prefix eb 0 True (eligible cert excluded (mp_txs st'))"
    have p: "p = take (length p) (eligible cert excluded (mp_txs st'))"
      unfolding p_def by (rule budget_prefix_take)
    have "distinct (map mt_id (bp_inline bp @ mp_txs st'))" using overflow(3) d by simp
    then have dis: "mt_id ` set (bp_inline bp) \<inter> mt_id ` set (mp_txs st') = {}"
        "distinct (map mt_id (eligible cert excluded (mp_txs st')))"
      by (auto simp: eligible_def)
    have sub: "set p \<subseteq> set (mp_txs st')" "set p \<subseteq> set (eligible cert excluded (mp_txs st'))"
      unfolding p_def using set_budget_prefix set_eligible by blast+
    have "distinct (map mt_id p)" using dis(2) p by (metis distinct_take take_map)
    moreover have "set (map mt_id p) \<inter> mt_id ` set (bp_inline bp) = {}" using dis(1) sub(1) by auto
    moreover have "cert \<Longrightarrow> set (map mt_id p) \<inter> excluded = {}" using sub(2) by (auto simp: eligible_def)
    moreover have "p \<noteq> [] \<longleftrightarrow> eligible cert excluded (mp_txs st') \<noteq> []"
      unfolding p_def using budget_prefix_nonempty by (metis budget_prefix.simps(1))
    moreover have "\<exists>n. map mt_id p = map mt_id (take n (eligible cert excluded (mp_txs st'))) \<and>
       (sum_list (map mt_size (take n (eligible cert excluded (mp_txs st')))) \<le> eb \<or> length (map mt_id p) = 1)"
      using budget_prefix_within [of eb "eligible cert excluded (mp_txs st')"] p
      by (intro exI [of _ "length p"]) (simp flip: p_def)
    moreover have "sum_list (map mt_size (bp_inline bp)) \<le> rb \<or> length (bp_inline bp) = 1"
      using overflow(4) budget_prefix_within [of rb "mp_txs st"] by auto
    ultimately show ?thesis
      using overflow by (simp flip: p_def)
  next
    case inline
    moreover have "eligible cert excluded (mp_txs st) = mp_txs st"
      using inline(2) by (simp add: eligible_def)
    ultimately show ?thesis
      using budget_prefix_within [of rb "mp_txs st"] by (auto intro: exI [of _ 0])
  qed
qed

theorem decide_excluding_effect_witness:
  "\<exists>st' bp. decide_excluding sample_pool 15 100 oempty False {} = (st', bp) \<and> mempool_reachable sample_pool \<and>
     bp_inline bp @ mp_txs st' = mp_txs sample_pool \<and> set (bp_manifest bp) \<inter> mt_id ` set (bp_inline bp) = {}"
proof -
  obtain st' bp where d: "decide_excluding sample_pool 15 100 oempty False {} = (st', bp)" by fastforce
  from decide_excluding_effect [OF sample_pool_reachable d] d sample_pool_reachable show ?thesis by blast
qed

text \<open>The selection and its commit agree. On a reachable pool, for a block without a certificate, the
  manifest chosen by \<open>decide\<close> is exactly what \<open>produce_eb\<close> with the manifest's length then drains,
  and the queue afterwards is the old queue without the inline part and the manifest.\<close>

theorem decide_then_produce_eb:
  assumes "mempool_reachable st" and "decide st rb eb endorsed False = (st', bp)"
    and "produce_eb st' key (length (bp_manifest bp)) = (st'', manifest, fx)"
    and "ebk_slot key \<ge> saturating_sub (max (mp_max_eb_slot st') (ebk_slot key)) (mp_eb_retention_slots st')"
  shows "manifest = bp_manifest bp \<and>
    map mt_id (mp_txs st) = map mt_id (bp_inline bp) @ manifest @ map mt_id (mp_txs st'')"
proof -
  note inv = mempool_reachable_mempool_inv [OF assms(1)]
  then have pool: "pool_inv st" by (simp add: mempool_inv_def)
  have dec: "decide_excluding st rb eb endorsed False {} = (st', bp)"
    using assms(2) by (simp add: decide_def)
  have el: "eligible False {} txs = txs" for txs by (simp add: eligible_def)
  have inv': "mempool_inv st'"
    using dec inv drains_inv(1) [OF inv]
    by (auto simp: decide_excluding_def Let_def case_prod_unfold split: if_splits)
  have split: "bp_inline bp @ mp_txs st' = mp_txs st"
    using pool dec by (cases rule: decide_cases) (auto simp: body_path_default_def)
  have pre: "bp_manifest bp = map mt_id (take (length (bp_manifest bp)) (mp_txs st'))"
    using pool dec
  proof (cases rule: decide_cases)
    case overflow
    then show ?thesis
      using budget_prefix_take [of eb 0 True "mp_txs st'"] by (simp add: el)
  qed (auto simp: body_path_default_def)
  note c = produce_eb_closure [OF inv' assms(3,4)]
  have "map mt_id (mp_txs st') = bp_manifest bp @ map mt_id (mp_txs st'')"
    using pre c(1,2) by (metis append_take_drop_id map_append)
  then show ?thesis using c(1) pre split by (metis map_append)
qed

theorem decide_then_produce_eb_witness:
  "\<exists>st' bp st'' manifest fx. decide sample_pool 15 100 oempty False = (st', bp) \<and> mempool_reachable sample_pool \<and>
     produce_eb st' (EbKey 4 99) (length (bp_manifest bp)) = (st'', manifest, fx) \<and> manifest = bp_manifest bp"
proof -
  obtain st' bp where d: "decide sample_pool 15 100 oempty False = (st', bp)" by fastforce
  obtain st'' manifest fx where p: "produce_eb st' (EbKey 4 99) (length (bp_manifest bp)) = (st'', manifest, fx)"
    by (metis prod.exhaust)
  have pool: "pool_inv sample_pool"
    using mempool_reachable_mempool_inv [OF sample_pool_reachable] by (simp add: mempool_inv_def)
  have "mp_max_eb_slot st' = 0 \<and> mp_eb_retention_slots st' = 100"
    using d by (auto simp: decide_def decide_excluding_def Let_def case_prod_unfold drain_up_to_eq [OF pool]
        sample_pool_txs remove_ids_def prune_set_def split: if_splits)
  then have "ebk_slot (EbKey 4 99) \<ge>
      saturating_sub (max (mp_max_eb_slot st') (ebk_slot (EbKey 4 99))) (mp_eb_retention_slots st')"
    by (simp add: saturating_sub_def)
  from decide_then_produce_eb [OF sample_pool_reachable d p this] d p sample_pool_reachable show ?thesis by blast
qed

end
