(* ===== verification/Float64.thy ===== *)
theory Float64
  imports Complex_Main Prelude "HOL-Library.Log_Nat"
begin

text \<open>
  The IEEE-754 double arithmetic the sources use (Rust \<open>f64\<close>): a value is not-a-number, an
  infinity, or a rational number; every operation computes exactly and rounds once, to
  nearest with ties to even, with 53 significant bits and gradual underflow. Signed zeros
  are one value: no operation modelled here distinguishes them (the sources divide by
  converted unsigned integers only).

  The lemmas are the ones quorum thresholds and committee cut-offs need: the rounding error
  is at most half a unit in the last place, rounding never crosses a representable value,
  and integers below \<open>2^53\<close> convert exactly.
\<close>

datatype f64 = NaN | Infinity bool | Fin rat

definition pow2 :: "int \<Rightarrow> rat" where
  "pow2 e = (if e \<ge> 0 then 2 ^ nat e else 1 / 2 ^ nat (- e))"

text \<open>The exponent \<open>e\<close> with \<open>2^e \<le> x < 2^(e+1)\<close>, from the bit lengths of the fraction.\<close>

definition floor_log2 :: "rat \<Rightarrow> int" where
  "floor_log2 x =
     (let (a, b) = quotient_of x; l = bitlen a - bitlen b
      in if pow2 l \<le> x then l else l - 1)"

definition ulp_exp :: "rat \<Rightarrow> int" where
  "ulp_exp x = max (- 1074) (floor_log2 x - 52)"

definition round_half_even :: "rat \<Rightarrow> int" where
  "round_half_even r =
     (let f = \<lfloor>r\<rfloor>; d = r - of_int f
      in if d < 1 / 2 then f else if d > 1 / 2 then f + 1 else if even f then f else f + 1)"

definition round_to_ulp :: "rat \<Rightarrow> rat" where
  "round_to_ulp x = of_int (round_half_even (x / pow2 (ulp_exp x))) * pow2 (ulp_exp x)"

definition f64_round :: "rat \<Rightarrow> f64" where
  "f64_round x =
     (if x = 0 then Fin 0
      else if x > 0 then (let v = round_to_ulp x in if v \<ge> pow2 1024 then Infinity False else Fin v)
      else (let v = round_to_ulp (- x) in if v \<ge> pow2 1024 then Infinity True else Fin (- v)))"

subsection \<open>Operations\<close>

definition f64_of_nat :: "nat \<Rightarrow> f64" where
  "f64_of_nat n = f64_round (of_nat n)"

fun f64_mul :: "f64 \<Rightarrow> f64 \<Rightarrow> f64" where
  "f64_mul NaN _ = NaN"
| "f64_mul _ NaN = NaN"
| "f64_mul (Infinity a) (Infinity b) = Infinity (a \<noteq> b)"
| "f64_mul (Infinity a) (Fin y) = (if y = 0 then NaN else Infinity (a \<noteq> (y < 0)))"
| "f64_mul (Fin x) (Infinity b) = (if x = 0 then NaN else Infinity (b \<noteq> (x < 0)))"
| "f64_mul (Fin x) (Fin y) = f64_round (x * y)"

fun f64_div :: "f64 \<Rightarrow> f64 \<Rightarrow> f64" where
  "f64_div NaN _ = NaN"
| "f64_div _ NaN = NaN"
| "f64_div (Infinity a) (Infinity b) = NaN"
| "f64_div (Infinity a) (Fin y) = Infinity (a \<noteq> (y < 0))"
| "f64_div (Fin x) (Infinity b) = Fin 0"
| "f64_div (Fin x) (Fin y) = (if y = 0 then (if x = 0 then NaN else Infinity (x < 0)) else f64_round (x / y))"

fun f64_le :: "f64 \<Rightarrow> f64 \<Rightarrow> bool" where
  "f64_le NaN _ = False"
| "f64_le _ NaN = False"
| "f64_le (Infinity a) (Infinity b) = (a \<or> \<not> b)"
| "f64_le (Infinity a) (Fin y) = a"
| "f64_le (Fin x) (Infinity b) = (\<not> b)"
| "f64_le (Fin x) (Fin y) = (x \<le> y)"

fun f64_lt :: "f64 \<Rightarrow> f64 \<Rightarrow> bool" where
  "f64_lt NaN _ = False"
| "f64_lt _ NaN = False"
| "f64_lt (Infinity a) (Infinity b) = (a \<and> \<not> b)"
| "f64_lt (Infinity a) (Fin y) = a"
| "f64_lt (Fin x) (Infinity b) = (\<not> b)"
| "f64_lt (Fin x) (Fin y) = (x < y)"

text \<open>\<open>clamp\<close> keeps not-a-number.\<close>

definition f64_clamp :: "f64 \<Rightarrow> f64 \<Rightarrow> f64 \<Rightarrow> f64" where
  "f64_clamp lo hi x = (if f64_lt x lo then lo else if f64_lt hi x then hi else x)"

fun f64_ceil :: "f64 \<Rightarrow> f64" where
  "f64_ceil (Fin x) = Fin (of_int \<lceil>x\<rceil>)"
| "f64_ceil x = x"

text \<open>The saturating \<open>as\<close> casts to an unsigned integer below \<open>bound\<close>.\<close>

fun f64_to_uint :: "nat \<Rightarrow> f64 \<Rightarrow> nat" where
  "f64_to_uint bound NaN = 0"
| "f64_to_uint bound (Infinity neg) = (if neg then 0 else bound - 1)"
| "f64_to_uint bound (Fin x) = (if x < 0 then 0 else min (nat \<lfloor>x\<rfloor>) (bound - 1))"

definition f64_to_u64 :: "f64 \<Rightarrow> u64" where
  "f64_to_u64 x = of_nat (f64_to_uint (2 ^ 64) x)"

subsection \<open>Powers of two and the exponent\<close>

lemma pow2_pos [simp]: "pow2 e > 0"
  by (simp add: pow2_def)

lemma pow2_neq_0 [simp]: "pow2 e \<noteq> 0"
  by (simp add: pow2_def)

lemma abs_pow2 [simp]: "\<bar>pow2 e\<bar> = pow2 e"
  by (simp add: less_imp_le)

lemma pow2_powi: "pow2 e = 2 powi e"
  by (simp add: pow2_def power_int_def field_simps)

lemma pow2_add: "pow2 (a + b) = pow2 a * pow2 b"
  by (simp add: pow2_powi power_int_add)

lemma pow2_nat: "pow2 (int n) = 2 ^ n"
  by (simp add: pow2_def)

lemma pow2_mono: "a \<le> b \<Longrightarrow> pow2 a \<le> pow2 b"
  by (simp add: pow2_powi power_int_increasing)

lemma pow2_strict_mono: "a < b \<Longrightarrow> pow2 a < pow2 b"
  by (simp add: pow2_powi power_int_strict_increasing)

lemma bitlen_bounds_rat:
  assumes "a > 0"
  shows "pow2 (bitlen a - 1) \<le> of_int a" and "of_int a < pow2 (bitlen a)"
proof -
  have b: "2 ^ nat (bitlen a - 1) \<le> a" "a < 2 ^ nat (bitlen a)"
    using bitlen_bounds [OF assms] by auto
  have p: "bitlen a > 0" using assms bitlen_ge_iff_power [of 1 a] by simp
  from b(1) have "(of_int (2 ^ nat (bitlen a - 1)) :: rat) \<le> of_int a" by (rule of_int_le_iff [THEN iffD2])
  then show "pow2 (bitlen a - 1) \<le> of_int a" using p by (simp add: pow2_def)
  from b(2) have "(of_int a :: rat) < of_int (2 ^ nat (bitlen a))" by (rule of_int_less_iff [THEN iffD2])
  then show "of_int a < pow2 (bitlen a)" using p by (simp add: pow2_def)
qed

lemma floor_log2_bounds:
  assumes "x > 0"
  shows "pow2 (floor_log2 x) \<le> x" and "x < pow2 (floor_log2 x + 1)"
proof -
  obtain a b where q: "quotient_of x = (a, b)" by fastforce
  have b: "b > 0" using quotient_of_denom_pos q by blast
  have x: "x = of_int a / of_int b" using quotient_of_div q by blast
  then have a: "a > 0" using assms b by (simp add: zero_less_divide_iff)
  define l where "l = bitlen a - bitlen b"
  have "pow2 (bitlen a - 1) / of_int b \<le> x" using bitlen_bounds_rat(1) [OF a] b x by (simp add: divide_right_mono)
  moreover have "pow2 (bitlen a - 1) / pow2 (bitlen b) \<le> pow2 (bitlen a - 1) / of_int b"
    using bitlen_bounds_rat(2) [OF b] b by (intro divide_left_mono) (auto intro: less_imp_le)
  moreover have "pow2 (bitlen a - 1) / pow2 (bitlen b) = pow2 (l - 1)"
    using pow2_add [of "l - 1" "bitlen b"] by (simp add: l_def nonzero_divide_eq_eq)
  ultimately have lo: "pow2 (l - 1) \<le> x" by simp
  have "x < pow2 (bitlen a) / of_int b" using bitlen_bounds_rat(2) [OF a] b x by (simp add: divide_strict_right_mono)
  also have "\<dots> \<le> pow2 (bitlen a) / pow2 (bitlen b - 1)"
    using bitlen_bounds_rat(1) [OF b] b by (intro divide_left_mono) (auto intro: less_imp_le)
  also have "\<dots> = pow2 (l + 1)"
    using pow2_add [of "l + 1" "bitlen b - 1"] by (simp add: l_def nonzero_divide_eq_eq)
  finally have hi: "x < pow2 (l + 1)" .
  have fl: "floor_log2 x = (if pow2 l \<le> x then l else l - 1)"
    by (simp add: floor_log2_def q l_def)
  show "pow2 (floor_log2 x) \<le> x" "x < pow2 (floor_log2 x + 1)"
    using lo hi by (auto simp: fl)
qed

lemma floor_log2_mono:
  assumes "0 < x" and "x \<le> y"
  shows "floor_log2 x \<le> floor_log2 y"
proof (rule ccontr)
  assume "\<not> floor_log2 x \<le> floor_log2 y"
  then have "pow2 (floor_log2 y + 1) \<le> pow2 (floor_log2 x)" by (intro pow2_mono) simp
  also have "\<dots> \<le> x" using assms by (intro floor_log2_bounds)
  also have "x \<le> y" by (rule assms)
  also have "y < pow2 (floor_log2 y + 1)" using assms by (intro floor_log2_bounds) auto
  finally show False by simp
qed

lemma ulp_exp_mono: "0 < x \<Longrightarrow> x \<le> y \<Longrightarrow> ulp_exp x \<le> ulp_exp y"
  using floor_log2_mono by (fastforce simp: ulp_exp_def)

subsection \<open>Rounding\<close>

lemma round_half_even_error: "\<bar>of_int (round_half_even r) - r\<bar> \<le> 1 / 2"
proof -
  have "of_int \<lfloor>r\<rfloor> \<le> r" "r < of_int \<lfloor>r\<rfloor> + 1" by linarith+
  then show ?thesis by (auto simp: round_half_even_def Let_def abs_le_iff)
qed

lemma round_half_even_le_int: "r \<le> of_int k \<Longrightarrow> round_half_even r \<le> k"
proof -
  assume le: "r \<le> of_int k"
  show ?thesis
  proof (cases "r = of_int k")
    case True
    then show ?thesis by (simp add: round_half_even_def)
  next
    case False
    then have "\<lfloor>r\<rfloor> + 1 \<le> k" using le by linarith
    then show ?thesis by (simp add: round_half_even_def Let_def)
  qed
qed

lemma round_half_even_ge_int: "of_int k \<le> r \<Longrightarrow> k \<le> round_half_even r"
proof -
  assume "of_int k \<le> r"
  then have "k \<le> \<lfloor>r\<rfloor>" by linarith
  then show ?thesis by (simp add: round_half_even_def Let_def)
qed

lemma round_half_even_of_int [simp]: "round_half_even (of_int k) = k"
  by (simp add: round_half_even_def)

lemma round_to_ulp_error: "\<bar>round_to_ulp x - x\<bar> \<le> pow2 (ulp_exp x) / 2"
proof -
  let ?u = "pow2 (ulp_exp x)"
  have eq: "round_to_ulp x - x = (of_int (round_half_even (x / ?u)) - x / ?u) * ?u"
    by (simp add: round_to_ulp_def left_diff_distrib)
  have "\<bar>round_to_ulp x - x\<bar> = \<bar>of_int (round_half_even (x / ?u)) - x / ?u\<bar> * ?u"
    unfolding eq abs_mult by simp
  also have "\<dots> \<le> 1 / 2 * ?u"
    by (intro mult_right_mono round_half_even_error) (simp add: less_imp_le)
  finally show ?thesis by simp
qed

text \<open>In the normal range the error is at most \<open>x \<sqdot> 2^-53\<close>.\<close>

lemma round_to_ulp_rel_error:
  assumes "x \<ge> pow2 (- 1022)"
  shows "\<bar>round_to_ulp x - x\<bar> \<le> x * pow2 (- 53)"
proof -
  have pos: "x > 0" using assms pow2_pos less_le_trans by blast
  have "floor_log2 x \<ge> - 1022"
  proof (rule ccontr)
    assume "\<not> floor_log2 x \<ge> - 1022"
    then have "pow2 (floor_log2 x + 1) \<le> pow2 (- 1022)" by (intro pow2_mono) simp
    with floor_log2_bounds(2) [OF pos] assms show False by simp
  qed
  then have "ulp_exp x = floor_log2 x + (- 52)" by (simp add: ulp_exp_def)
  then have "pow2 (ulp_exp x) / 2 = pow2 (floor_log2 x) * pow2 (- 53)"
    by (simp only: pow2_add) (simp add: pow2_def)
  also have "\<dots> \<le> x * pow2 (- 53)"
    using floor_log2_bounds(1) [OF pos] by (intro mult_right_mono) (auto simp: less_imp_le)
  finally show ?thesis using round_to_ulp_error [of x] by linarith
qed

text \<open>A multiple of the unit of \<open>x\<close> above \<open>x\<close> stays above after rounding; representable integers are such.\<close>

lemma round_to_ulp_le:
  assumes "x \<le> of_int k * pow2 (ulp_exp x)"
  shows "round_to_ulp x \<le> of_int k * pow2 (ulp_exp x)"
proof -
  have "x / pow2 (ulp_exp x) \<le> of_int k" using assms by (simp add: divide_le_eq)
  then show ?thesis by (simp add: round_to_ulp_def round_half_even_le_int)
qed

lemma ulp_exp_le_0:
  assumes "0 < x" and "x < 2 ^ 53"
  shows "ulp_exp x \<le> 0"
proof -
  have "floor_log2 x < 53"
  proof (rule ccontr)
    assume "\<not> floor_log2 x < 53"
    then have "pow2 53 \<le> pow2 (floor_log2 x)" by (intro pow2_mono) simp
    with floor_log2_bounds(1) [OF assms(1)] assms(2) show False by (simp add: pow2_def)
  qed
  then show ?thesis by (simp add: ulp_exp_def)
qed

lemma int_multiple_ulp:
  assumes "e \<le> 0"
  shows "\<exists>k. (of_int n :: rat) = of_int k * pow2 e"
proof (rule exI)
  have "(2 :: rat) ^ nat (- e) * pow2 e = 1"
    using assms by (cases "e = 0") (simp_all add: pow2_def)
  then show "(of_int n :: rat) = of_int (n * 2 ^ nat (- e)) * pow2 e" by simp
qed

lemma round_to_ulp_le_int:
  assumes "0 < x" and "x \<le> of_int n" and "n < 2 ^ 53"
  shows "round_to_ulp x \<le> of_int n"
proof -
  have "(of_int n :: rat) < of_int (2 ^ 53)" using assms(3) by (rule of_int_less_iff [THEN iffD2])
  then have "x < 2 ^ 53" using assms(2) by simp
  then obtain k where k: "(of_int n :: rat) = of_int k * pow2 (ulp_exp x)"
    using ulp_exp_le_0 [OF assms(1)] int_multiple_ulp by metis
  then show ?thesis using round_to_ulp_le assms(2) by metis
qed

lemma round_to_ulp_int:
  assumes "0 < n" and "n < 2 ^ 53"
  shows "round_to_ulp (of_int n) = of_int n"
proof -
  have "(of_int n :: rat) < of_int (2 ^ 53)" using assms(2) by (rule of_int_less_iff [THEN iffD2])
  then have "ulp_exp (of_int n) \<le> 0" using assms(1) by (intro ulp_exp_le_0) auto
  then obtain k where k: "(of_int n :: rat) = of_int k * pow2 (ulp_exp (of_int n))"
    using int_multiple_ulp by metis
  then have "of_int n / pow2 (ulp_exp (of_int n)) = (of_int k :: rat)"
    by (metis less_irrefl nonzero_mult_div_cancel_right pow2_pos)
  with k show ?thesis by (simp add: round_to_ulp_def)
qed

lemma round_to_ulp_nonneg: "x \<ge> 0 \<Longrightarrow> round_to_ulp x \<ge> 0"
  unfolding round_to_ulp_def
  by (intro mult_nonneg_nonneg) (auto simp: less_imp_le intro!: round_half_even_ge_int)

lemma big_pow2: "(2 :: rat) ^ 53 < pow2 1024"
  using pow2_strict_mono [of 53 1024] by (simp add: pow2_def [of 53])

lemma f64_of_nat_exact:
  assumes "n < 2 ^ 53"
  shows "f64_of_nat n = Fin (of_nat n)"
proof (cases "n = 0")
  case False
  have "int n < 2 ^ 53" using assms by simp
  then have r: "round_to_ulp (of_nat n) = of_nat n"
    using False round_to_ulp_int [of "int n"] by simp
  have "(of_nat n :: rat) < of_nat (2 ^ 53)" using assms by (simp only: of_nat_less_iff)
  then have "\<not> pow2 1024 \<le> of_nat n" using big_pow2 by simp
  with r False show ?thesis by (simp add: f64_of_nat_def f64_round_def Let_def)
qed (simp add: f64_of_nat_def f64_round_def)

end
