(* ===== verification/Voting.thy ===== *)
theory Voting
  imports Ordered_Map Float64 "HOL-Library.List_Lexorder"
begin

text \<open>
  The Leios voting core of \<open>shared-rs/consensus/src\<close>: the pipeline phases of an endorser block
  (\<open>pipeline.rs\<close>) and the aggregation of votes to a quorum (\<open>aggregation.rs\<close>).

  \<^item> Slot arithmetic is \<open>u64\<close> and wraps.
  \<^item> The quorum threshold is computed in \<open>f64\<close> (theory \<open>Float64\<close>).
  \<^item> \<open>values().sum()\<close> over \<open>u64\<close> weights wraps; a theorem about the sum states when it does not.
\<close>

subsection \<open>Pipeline\<close>

datatype pipeline_phase = EquivocationCheck | VotingPhase | Diffusing | CertEligible

type_synonym voter_key = "u8 list"

record eb_election =
  el_eb_hash :: hash32
  el_announced_slot :: u64
  el_phase :: pipeline_phase
  el_seen_slot :: u64
  el_voted :: bool
  el_voter_weights :: "(voter_key, u64) omap"
  el_quorum_reached :: bool
  el_body_validated_locally :: bool

record pipeline_config =
  pl_delta_hdr :: u64
  pl_vote_window :: u64
  pl_diffuse_window :: u64
  pl_dedup_window :: u64

definition phase_for_elapsed :: "pipeline_config \<Rightarrow> u64 \<Rightarrow> pipeline_phase" where
  "phase_for_elapsed cfg elapsed =
     (let equivocation_end = 3 * pl_delta_hdr cfg;
          voting_end = equivocation_end + pl_vote_window cfg;
          diffuse_end = voting_end + pl_diffuse_window cfg
      in if elapsed < equivocation_end then EquivocationCheck
         else if elapsed < voting_end then VotingPhase
         else if elapsed < diffuse_end then Diffusing
         else CertEligible)"

fun phase_rank :: "pipeline_phase \<Rightarrow> nat" where
  "phase_rank EquivocationCheck = 0"
| "phase_rank VotingPhase = 1"
| "phase_rank Diffusing = 2"
| "phase_rank CertEligible = 3"

subsection \<open>Vote aggregation\<close>

record quorum_formed =
  qf_eb_slot :: u64
  qf_voted_weight :: u64
  qf_voters :: nat
  qf_expected_weight :: u64

definition voted_weight :: "eb_election \<Rightarrow> u64" where
  "voted_weight e = sum_list (ovalues (el_voter_weights e))"

definition quorum_threshold :: "f64 \<Rightarrow> u64 \<Rightarrow> u64" where
  "quorum_threshold quorum_weight_fraction expected_total_weight =
     f64_to_u64 (f64_ceil (f64_mul quorum_weight_fraction (f64_of_nat (unat expected_total_weight))))"

definition agg_record_vote ::
  "(hash32, eb_election) omap \<Rightarrow> hash32 \<Rightarrow> voter_key \<Rightarrow> u64 \<Rightarrow> f64 \<Rightarrow> u64
     \<Rightarrow> (hash32, eb_election) omap \<times> quorum_formed option" where
  "agg_record_vote elections rb_hash voter_id weight quorum_weight_fraction expected_total_weight =
     (case oget elections rb_hash of
        None \<Rightarrow> (elections, None)
      | Some election \<Rightarrow>
          if ohas (el_voter_weights election) voter_id then (elections, None)
          else
            let e1 = election\<lparr>el_voter_weights := oput voter_id weight (el_voter_weights election)\<rparr>
            in if el_quorum_reached e1 then (oput rb_hash e1 elections, None)
               else if voted_weight e1 < quorum_threshold quorum_weight_fraction expected_total_weight
               then (oput rb_hash e1 elections, None)
               else (oput rb_hash (e1\<lparr>el_quorum_reached := True\<rparr>) elections,
                     Some \<lparr>qf_eb_slot = el_announced_slot e1, qf_voted_weight = voted_weight e1,
                           qf_voters = olen (el_voter_weights e1), qf_expected_weight = expected_total_weight\<rparr>))"


subsection \<open>Sums of weights\<close>

lemma sum_put_list:
  fixes f :: "'v \<Rightarrow> 'n::comm_monoid_add"
  shows "sorted_wrt (<) (map fst xs) \<Longrightarrow> map_of xs k = None \<Longrightarrow>
    sum_list (map (f \<circ> snd) (put_list k v xs)) = f v + sum_list (map (f \<circ> snd) xs)"
  by (induction k v xs rule: put_list.induct) (auto simp: ac_simps split: if_splits)

lemma sum_ovalues_oput:
  fixes f :: "'v \<Rightarrow> 'n::comm_monoid_add"
  assumes "\<not> ohas m k"
  shows "sum_list (map f (ovalues (oput k v m))) = f v + sum_list (map f (ovalues m))"
proof -
  have "map_of (entries m) k = None" using assms unfolding ohas_def oget_entries by blast
  from sum_put_list [OF sorted_entries this, of f v] show ?thesis by (simp add: ovalues_def)
qed

lemma unat_sum_list:
  "sum_list (map unat ws) < 2 ^ 64 \<Longrightarrow> unat (sum_list ws) = sum_list (map unat (ws :: u64 list))"
proof (induction ws)
  case (Cons w ws)
  then have "unat (sum_list ws) = sum_list (map unat ws)" by simp
  with Cons.prems show ?case by (simp add: unat_word_ariths)
qed simp

subsection \<open>The threshold\<close>

lemma f64_to_u64_ceil:
  assumes "0 \<le> x" and "x \<le> of_nat T" and "T < 2 ^ 64"
  shows "unat (f64_to_u64 (f64_ceil (Fin x))) = nat \<lceil>x\<rceil>"
proof -
  have "\<lceil>x\<rceil> \<le> int T" using assms(2) by (simp add: ceiling_le_iff)
  then have "nat \<lceil>x\<rceil> < 2 ^ 64" using assms(3) by linarith
  moreover have "\<not> (of_int \<lceil>x\<rceil> :: rat) < 0" using assms(1) by simp
  ultimately have "f64_to_uint (2 ^ 64) (f64_ceil (Fin x)) = nat \<lceil>x\<rceil>" by simp
  with \<open>nat \<lceil>x\<rceil> < 2 ^ 64\<close> show ?thesis
    by (simp add: f64_to_u64_def unat_of_nat del: f64_ceil.simps f64_to_uint.simps of_nat_nat)
qed

lemma quorum_threshold_error:
  assumes "pow2 (- 1022) \<le> f" and "f \<le> 1" and "0 < T" and "unat T < 2 ^ 53"
  shows "quorum_threshold (Fin f) T \<le> T \<and>
    f * of_nat (unat T) * (1 - pow2 (- 53)) \<le> of_nat (unat (quorum_threshold (Fin f) T)) \<and>
    of_nat (unat (quorum_threshold (Fin f) T)) < f * of_nat (unat T) * (1 + pow2 (- 53)) + 1"
proof -
  define n where "n = unat T"
  define x where "x = f * of_nat n"
  have n: "n < 2 ^ 53" "1 \<le> n" using assms(3,4) by (auto simp: n_def word_less_nat_alt)
  have fpos: "0 < f" using assms(1) pow2_pos less_le_trans by blast
  then have "f * 1 \<le> x" unfolding x_def using n(2) by (intro mult_left_mono) auto
  then have xl: "pow2 (- 1022) \<le> x" using assms(1) by simp
  then have xpos: "0 < x" using pow2_pos less_le_trans by blast
  have xn: "x \<le> of_nat n" using assms(2) by (simp add: x_def mult_left_le_one_le fpos less_imp_le)
  define v where "v = round_to_ulp x"
  have v: "\<bar>v - x\<bar> \<le> x * pow2 (- 53)" unfolding v_def by (rule round_to_ulp_rel_error [OF xl])
  have vn: "v \<le> of_nat n"
    using round_to_ulp_le_int [of x "int n"] xpos xn n(1) by (simp add: v_def)
  have v0: "0 \<le> v" using xpos by (simp add: v_def round_to_ulp_nonneg less_imp_le)
  have "(of_nat n :: rat) < of_nat (2 ^ 53)" using n(1) by (simp only: of_nat_less_iff)
  then have "v < pow2 1024" using vn big_pow2 by simp
  then have "f64_mul (Fin f) (f64_of_nat n) = Fin v"
    using xpos n(1) fpos by (auto simp: f64_of_nat_exact f64_round_def Let_def v_def x_def)
  moreover have "unat (f64_to_u64 (f64_ceil (Fin v))) = nat \<lceil>v\<rceil>"
    using v0 vn n(1) by (intro f64_to_u64_ceil) auto
  ultimately have thr: "unat (quorum_threshold (Fin f) T) = nat \<lceil>v\<rceil>"
    by (simp add: quorum_threshold_def flip: n_def)
  have "nat \<lceil>v\<rceil> \<le> n" using vn by (simp add: ceiling_le_iff nat_le_iff)
  then have "quorum_threshold (Fin f) T \<le> T" by (simp add: word_le_nat_alt thr n_def)
  moreover have "v \<le> of_nat (nat \<lceil>v\<rceil>)" "of_nat (nat \<lceil>v\<rceil>) < v + 1"
    using v0 ceiling_correct [of v] by simp_all
  moreover have "x * (1 - pow2 (- 53)) \<le> v" "v \<le> x * (1 + pow2 (- 53))"
    using v by (auto simp: abs_le_iff algebra_simps)
  ultimately show ?thesis unfolding thr n_def [symmetric] x_def [symmetric] by linarith
qed

text \<open>The quorum threshold. For a fraction between zero and one (not subnormal) and an expected weight
  below \<open>2^53\<close>, the threshold computed in floating point is never above the expected weight, so a
  unanimous committee reaches it, and it is the exact product rounded up, up to the rounding error
  of one multiplication: at least \<open>f \<sqdot> T \<sqdot> (1 - 2^-53)\<close> and less than \<open>f \<sqdot> T \<sqdot> (1 + 2^-53) + 1\<close>.\<close>

theorem quorum_threshold_bounds:
  assumes "pow2 (- 1022) \<le> f" and "f \<le> 1" and "0 < T" and "unat T < 2 ^ 53"
  shows "quorum_threshold (Fin f) T \<le> T \<and>
    f * of_nat (unat T) * (1 - pow2 (- 53)) \<le> of_nat (unat (quorum_threshold (Fin f) T)) \<and>
    of_nat (unat (quorum_threshold (Fin f) T)) < f * of_nat (unat T) * (1 + pow2 (- 53)) + 1"
  using assms by (rule quorum_threshold_error)

theorem quorum_threshold_bounds_witness:
  "pow2 (- 1022) \<le> (3 / 4 :: rat) \<and> (3 / 4 :: rat) \<le> 1 \<and> 0 < (600 :: u64) \<and> unat (600 :: u64) < 2 ^ 53 \<and>
   quorum_threshold (Fin (3 / 4)) 600 \<le> 600"
proof -
  have "pow2 (- 1022) \<le> pow2 (- 1)" by (rule pow2_mono) simp
  then have "pow2 (- 1022) \<le> (3 / 4 :: rat)" by (simp add: pow2_def [of "- 1"])
  then show ?thesis using quorum_threshold_bounds [of "3 / 4" 600] by simp
qed


subsection \<open>Runs of votes\<close>

text \<open>The tally a run of votes should lead to: of each voter the first vote counts.\<close>

definition first_votes :: "(voter_key \<times> u64) list \<Rightarrow> (voter_key, u64) omap" where
  "first_votes votes = fold (\<lambda>(k, w). oor_insert k w) votes oempty"

definition tally :: "(voter_key \<times> u64) list \<Rightarrow> nat" where
  "tally votes = sum_list (map unat (ovalues (first_votes votes)))"

fun vote_run ::
  "f64 \<Rightarrow> u64 \<Rightarrow> (hash32, eb_election) omap \<Rightarrow> (hash32 \<times> voter_key \<times> u64) list
     \<Rightarrow> (hash32, eb_election) omap \<times> (hash32 \<times> quorum_formed) list" where
  "vote_run q tw es [] = (es, [])"
| "vote_run q tw es ((rb, voter, w) # votes) =
     (let (es1, r) = agg_record_vote es rb voter w q tw;
          (es2, rs) = vote_run q tw es1 votes
      in (es2, (case r of None \<Rightarrow> [] | Some f \<Rightarrow> [(rb, f)]) @ rs))"

definition votes_for :: "hash32 \<Rightarrow> (hash32 \<times> voter_key \<times> u64) list \<Rightarrow> (voter_key \<times> u64) list" where
  "votes_for rb votes = map snd (filter (\<lambda>v. fst v = rb) votes)"

lemma first_votes_Nil [simp]: "first_votes [] = oempty"
  by (simp add: first_votes_def)

lemma first_votes_snoc: "first_votes (votes @ [(k, w)]) = oor_insert k w (first_votes votes)"
  by (simp add: first_votes_def)

lemma tally_snoc:
  "tally (votes @ [(k, w)]) = tally votes + (if ohas (first_votes votes) k then 0 else unat w)"
  by (simp add: tally_def first_votes_snoc oor_insert_def sum_ovalues_oput)

lemma tally_mono: "tally votes \<le> tally (votes @ later_votes)"
proof (induction later_votes rule: rev_induct)
  case (snoc v later_votes)
  obtain k w where "v = (k, w)" by fastforce
  with snoc show ?case using tally_snoc [of "votes @ later_votes" k w] by simp
qed simp

text \<open>The state an election is in after a run of votes for it, relative to the threshold.\<close>

definition tallied :: "nat \<Rightarrow> (voter_key \<times> u64) list \<Rightarrow> eb_election \<Rightarrow> bool" where
  "tallied thr votes e \<longleftrightarrow>
     el_voter_weights e = first_votes votes \<and> (el_quorum_reached e \<longleftrightarrow> votes \<noteq> [] \<and> thr \<le> tally votes)"

lemma first_votes_has: "ohas (first_votes votes) k \<Longrightarrow> votes \<noteq> []"
  by auto

lemma agg_record_vote_tallied:
  assumes e: "oget es rb = Some e" and t: "tallied (unat (quorum_threshold q tw)) votes e"
    and small: "tally (votes @ [(voter, w)]) < 2 ^ 64"
  shows "\<exists>e' r. agg_record_vote es rb voter w q tw = (oput rb e' es, r) \<and>
    tallied (unat (quorum_threshold q tw)) (votes @ [(voter, w)]) e' \<and>
    (r \<noteq> None \<longleftrightarrow> \<not> el_quorum_reached e \<and> el_quorum_reached e') \<and>
    (el_quorum_reached e \<longrightarrow> el_quorum_reached e')"
proof (cases "ohas (first_votes votes) voter")
  case True
  have "oput rb e es = es" using e by (intro omap_eqI) (simp add: oget_oput)
  with True e t first_votes_has [OF True] show ?thesis
    by (intro exI [of _ e] exI [of _ None])
      (auto simp: agg_record_vote_def tallied_def first_votes_snoc tally_snoc oor_insert_def)
next
  case False
  define e1 where "e1 = e\<lparr>el_voter_weights := oput voter w (el_voter_weights e)\<rparr>"
  have fv: "el_voter_weights e1 = first_votes (votes @ [(voter, w)])"
    using t False by (simp add: e1_def tallied_def first_votes_snoc oor_insert_def)
  have vw: "unat (voted_weight e1) = tally (votes @ [(voter, w)])"
    using small unat_sum_list [of "ovalues (el_voter_weights e1)"] by (simp add: voted_weight_def fv tally_def)
  have lt: "voted_weight e1 < quorum_threshold q tw \<longleftrightarrow> tally (votes @ [(voter, w)]) < unat (quorum_threshold q tw)"
    by (simp add: word_less_nat_alt vw)
  have up: "tally votes \<le> tally (votes @ [(voter, w)])" by (rule tally_mono)
  define fin where "fin = (el_quorum_reached e \<or> \<not> voted_weight e1 < quorum_threshold q tw)"
  define r where "r = (if \<not> el_quorum_reached e \<and> fin
      then Some \<lparr>qf_eb_slot = el_announced_slot e1, qf_voted_weight = voted_weight e1,
                 qf_voters = olen (el_voter_weights e1), qf_expected_weight = tw\<rparr> else None)"
  have new: "\<not> ohas (el_voter_weights e) voter" using t False by (simp add: tallied_def)
  have "agg_record_vote es rb voter w q tw =
    (if el_quorum_reached e then (oput rb e1 es, None)
     else if voted_weight e1 < quorum_threshold q tw then (oput rb e1 es, None)
     else (oput rb (e1\<lparr>el_quorum_reached := True\<rparr>) es,
           Some \<lparr>qf_eb_slot = el_announced_slot e1, qf_voted_weight = voted_weight e1,
                 qf_voters = olen (el_voter_weights e1), qf_expected_weight = tw\<rparr>))"
    unfolding agg_record_vote_def e option.case if_not_P [OF new] Let_def e1_def [symmetric]
    by (simp add: e1_def)
  moreover have "e1\<lparr>el_quorum_reached := el_quorum_reached e\<rparr> = e1" by (simp add: e1_def)
  ultimately have eq: "agg_record_vote es rb voter w q tw = (oput rb (e1\<lparr>el_quorum_reached := fin\<rparr>) es, r)"
    unfolding fin_def r_def
    by (cases "el_quorum_reached e"; cases "voted_weight e1 < quorum_threshold q tw") simp_all
  have "tallied (unat (quorum_threshold q tw)) (votes @ [(voter, w)]) (e1\<lparr>el_quorum_reached := fin\<rparr>)"
    using t up by (auto simp: tallied_def fv fin_def lt)
  with eq show ?thesis
    by (intro exI [of _ "e1\<lparr>el_quorum_reached := fin\<rparr>"] exI [of _ r]) (auto simp: r_def fin_def)
qed


lemma agg_record_vote_other: "rb' \<noteq> rb \<Longrightarrow> oget (fst (agg_record_vote es rb' voter w q tw)) rb = oget es rb"
  by (auto simp: agg_record_vote_def Let_def oget_oput split: option.splits)

lemma votes_for_Cons: "votes_for rb ((rb', k, w) # votes) = (if rb' = rb then [(k, w)] else []) @ votes_for rb votes"
  by (simp add: votes_for_def)

lemma vote_run_tallied:
  assumes "oget es rb = Some e" and "tallied (unat (quorum_threshold q tw)) before e"
    and "tally (before @ votes_for rb votes) < 2 ^ 64" and "vote_run q tw es votes = (es', rs)"
  shows "\<exists>e'. oget es' rb = Some e' \<and> tallied (unat (quorum_threshold q tw)) (before @ votes_for rb votes) e' \<and>
    length (filter (\<lambda>r. fst r = rb) rs) = (if el_quorum_reached e' \<and> \<not> el_quorum_reached e then 1 else 0) \<and>
    (el_quorum_reached e \<longrightarrow> el_quorum_reached e')"
  using assms
proof (induction votes arbitrary: es e before rs es')
  case Nil
  then show ?case by (simp add: votes_for_def)
next
  case (Cons v votes)
  obtain rb' k w where v: "v = (rb', k, w)" by (cases v)
  obtain es1 r where r: "agg_record_vote es rb' k w q tw = (es1, r)" by fastforce
  obtain es2 rs1 where run: "vote_run q tw es1 votes = (es2, rs1)" by fastforce
  have es': "es' = es2" and rs: "rs = (case r of None \<Rightarrow> [] | Some f \<Rightarrow> [(rb', f)]) @ rs1"
    using Cons.prems(4) by (auto simp: v r run)
  show ?case
  proof (cases "rb' = rb")
    case False
    then have "oget es1 rb = Some e" using agg_record_vote_other [OF False, of es k w q tw] r Cons.prems(1) by simp
    from Cons.IH [OF this Cons.prems(2) _ run] Cons.prems(3) False show ?thesis
      by (auto simp: v votes_for_Cons es' rs split: option.splits)
  next
    case True
    have vf: "before @ votes_for rb (v # votes) = (before @ [(k, w)]) @ votes_for rb votes"
      using True by (simp add: v votes_for_Cons)
    have small: "tally (before @ [(k, w)]) < 2 ^ 64"
      using tally_mono [of "before @ [(k, w)]" "votes_for rb votes"] Cons.prems(3) vf by simp
    obtain e1 where e1: "es1 = oput rb e1 es" "tallied (unat (quorum_threshold q tw)) (before @ [(k, w)]) e1"
        "r \<noteq> None \<longleftrightarrow> \<not> el_quorum_reached e \<and> el_quorum_reached e1" "el_quorum_reached e \<longrightarrow> el_quorum_reached e1"
      using agg_record_vote_tallied [OF Cons.prems(1,2) small] r True by auto
    have "oget es1 rb = Some e1" by (simp add: e1(1) oget_oput)
    from Cons.IH [OF this e1(2) _ run] Cons.prems(3) vf e1(3,4) show ?thesis
      by (auto simp: es' rs True split: option.splits)
  qed
qed

text \<open>C5: Quorum fires exactly once, and exactly when it should. Take any run of votes, for any announcing
  blocks and with duplicates, over elections in which the one for \<open>rb\<close> has no votes yet, such that
  the first votes of its voters do not sum past \<open>2^64\<close>. Afterwards that election holds each voter's
  first vote; it is at quorum exactly if it received a vote and the summed weights reach the
  threshold; and \<open>QuorumFormed\<close> was returned for it once if it is at quorum and never otherwise.\<close>

theorem record_vote_quorum_once:
  assumes "oget es rb = Some e" and "el_voter_weights e = oempty" and "\<not> el_quorum_reached e"
    and "tally (votes_for rb votes) < 2 ^ 64" and "vote_run q tw es votes = (es', rs)"
  shows "\<exists>e'. oget es' rb = Some e' \<and> el_voter_weights e' = first_votes (votes_for rb votes) \<and>
    (el_quorum_reached e' \<longleftrightarrow>
       votes_for rb votes \<noteq> [] \<and> unat (quorum_threshold q tw) \<le> tally (votes_for rb votes)) \<and>
    length (filter (\<lambda>r. fst r = rb) rs) = (if el_quorum_reached e' then 1 else 0)"
proof -
  have "tallied (unat (quorum_threshold q tw)) [] e" using assms(2,3) by (simp add: tallied_def)
  from vote_run_tallied [OF assms(1) this _ assms(5)] assms(3,4) show ?thesis
    by (auto simp: tallied_def)
qed

definition sample_election :: eb_election where
  "sample_election =
     \<lparr>el_eb_hash = 9, el_announced_slot = 4, el_phase = VotingPhase, el_seen_slot = 5, el_voted = False,
      el_voter_weights = oempty, el_quorum_reached = False, el_body_validated_locally = False\<rparr>"

theorem record_vote_quorum_once_witness:
  "\<exists>es' rs. vote_run NaN 4 (oput 1 sample_election oempty) [(1, [7], 2), (1, [7], 3), (1, [8], 2)] = (es', rs) \<and>
     tally (votes_for 1 [(1, [7], 2), (1, [7], 3), (1, [8], 2)]) = 4 \<and>
     length (filter (\<lambda>r. fst r = 1) rs) = 1"
proof -
  let ?vs = "[(1, [7], 2), (1, [7], 3), (1, [8], 2)] :: (hash32 \<times> voter_key \<times> u64) list"
  have vf: "votes_for 1 ?vs = ([([7], 2)] @ [([7], 3)]) @ [([8], 2)]" by (simp add: votes_for_def)
  have fv: "first_votes ([([7], 2)] @ [([7], 3)]) = oput [7] 2 oempty"
    by (simp add: first_votes_def oor_insert_def)
  have t: "tally (votes_for 1 ?vs) = 4"
    unfolding vf tally_snoc [of _ "[8]"] by (simp add: fv) (simp add: tally_def fv [simplified] ovalues_def)
  have thr: "quorum_threshold NaN 4 = 0" by (simp add: quorum_threshold_def f64_to_u64_def)
  obtain es' rs where run: "vote_run NaN 4 (oput 1 sample_election oempty) ?vs = (es', rs)" by fastforce
  have "oget (oput 1 sample_election oempty) 1 = Some sample_election" by (simp add: oget_oput)
  from record_vote_quorum_once [OF this _ _ _ run] t thr run vf show ?thesis
    by (auto simp: sample_election_def)
qed

lemma phase_windows:
  assumes "3 * unat (pl_delta_hdr cfg) + unat (pl_vote_window cfg) + unat (pl_diffuse_window cfg) < 2 ^ 64"
    and "elapsed \<le> later"
  shows "(phase_for_elapsed cfg elapsed = VotingPhase \<longleftrightarrow>
      3 * unat (pl_delta_hdr cfg) \<le> unat elapsed \<and>
      unat elapsed < 3 * unat (pl_delta_hdr cfg) + unat (pl_vote_window cfg)) \<and>
    (phase_for_elapsed cfg elapsed = Diffusing \<longleftrightarrow>
      3 * unat (pl_delta_hdr cfg) + unat (pl_vote_window cfg) \<le> unat elapsed \<and>
      unat elapsed < 3 * unat (pl_delta_hdr cfg) + unat (pl_vote_window cfg) + unat (pl_diffuse_window cfg)) \<and>
    (phase_for_elapsed cfg elapsed = CertEligible \<longleftrightarrow>
      3 * unat (pl_delta_hdr cfg) + unat (pl_vote_window cfg) + unat (pl_diffuse_window cfg) \<le> unat elapsed) \<and>
    phase_rank (phase_for_elapsed cfg elapsed) \<le> phase_rank (phase_for_elapsed cfg later)"
proof -
  define a where "a = 3 * unat (pl_delta_hdr cfg)"
  define b where "b = unat (pl_vote_window cfg)"
  define c where "c = unat (pl_diffuse_window cfg)"
  have abc: "a + b + c < 2 ^ 64" using assms(1) by (simp add: a_def b_def c_def)
  have u1: "unat (3 * pl_delta_hdr cfg) = a" using abc by (simp add: a_def unat_word_ariths)
  have u2: "unat (3 * pl_delta_hdr cfg + pl_vote_window cfg) = a + b"
    using abc u1 by (simp add: unat_word_ariths b_def)
  have u3: "unat (3 * pl_delta_hdr cfg + pl_vote_window cfg + pl_diffuse_window cfg) = a + b + c"
    using abc u2 by (simp add: unat_word_ariths(1) [of "3 * pl_delta_hdr cfg + pl_vote_window cfg"] c_def)
  have ph: "phase_for_elapsed cfg x =
    (if unat x < a then EquivocationCheck else if unat x < a + b then VotingPhase
     else if unat x < a + b + c then Diffusing else CertEligible)" for x
    by (simp only: phase_for_elapsed_def Let_def word_less_nat_alt u1 u2 u3)
  have "unat elapsed \<le> unat later" using assms(2) by (simp add: word_le_nat_alt)
  then show ?thesis
    by (simp add: ph flip: a_def b_def c_def)
qed

text \<open>The phases of the voting pipeline. If the three windows together stay below \<open>2^64\<close> slots, an endorser
  block is in its voting phase exactly from \<open>3 \<sqdot> delta_hdr\<close> up to the end of the vote window, diffuses
  exactly for the window after it, and is eligible for certification from then on; and with more
  elapsed slots it never falls back to an earlier phase.\<close>

theorem phase_for_elapsed_windows:
  assumes "3 * unat (pl_delta_hdr cfg) + unat (pl_vote_window cfg) + unat (pl_diffuse_window cfg) < 2 ^ 64"
    and "elapsed \<le> later"
  shows "(phase_for_elapsed cfg elapsed = VotingPhase \<longleftrightarrow>
      3 * unat (pl_delta_hdr cfg) \<le> unat elapsed \<and>
      unat elapsed < 3 * unat (pl_delta_hdr cfg) + unat (pl_vote_window cfg)) \<and>
    (phase_for_elapsed cfg elapsed = Diffusing \<longleftrightarrow>
      3 * unat (pl_delta_hdr cfg) + unat (pl_vote_window cfg) \<le> unat elapsed \<and>
      unat elapsed < 3 * unat (pl_delta_hdr cfg) + unat (pl_vote_window cfg) + unat (pl_diffuse_window cfg)) \<and>
    (phase_for_elapsed cfg elapsed = CertEligible \<longleftrightarrow>
      3 * unat (pl_delta_hdr cfg) + unat (pl_vote_window cfg) + unat (pl_diffuse_window cfg) \<le> unat elapsed) \<and>
    phase_rank (phase_for_elapsed cfg elapsed) \<le> phase_rank (phase_for_elapsed cfg later)"
  using assms by (rule phase_windows)

theorem phase_for_elapsed_windows_witness:
  "phase_for_elapsed \<lparr>pl_delta_hdr = 1, pl_vote_window = 4, pl_diffuse_window = 7, pl_dedup_window = 50\<rparr> 5 = VotingPhase"
  using phase_for_elapsed_windows
    [of "\<lparr>pl_delta_hdr = 1, pl_vote_window = 4, pl_diffuse_window = 7, pl_dedup_window = 50\<rparr>" 5 5]
  by simp

end
