(* ===== verification/Committee.thy ===== *)
theory Committee
  imports Voting Consensus_Types "HOL-Library.Char_ord" "HOL-Library.Product_Lexorder" "HOL-Library.Multiset"
begin

text \<open>
  \<open>shared-rs/consensus/src/committee.rs\<close> and the committee part of \<open>config.rs\<close>: the three ways a
  voting committee is derived from the stake registry, and the quorum denominator.

  \<^item> Node ids are strings (compared bytewise, as \<open>String\<close> is). A stake registry is a list of
    entries, as in the configuration.
  \<^item> Sums of \<open>u64\<close> stakes are \<open>u128\<close> in the code and cannot overflow there; they are \<open>nat\<close> here.
  \<^item> The generator \<open>StdRng\<close> belongs to the \<open>rand\<close> crate: its state type, its two seeding functions
    and its draws are parameters. The only documented behaviour a theorem uses is that a draw
    from \<open>0..n\<close> is below \<open>n\<close>.
  \<^item> An index out of range would panic; the seat lottery returns \<open>None\<close> there, and a theorem shows
    that it never does.
  \<^item> Blake2b (48 bytes) belongs to the \<open>blake2b_simd\<close> crate: it is a parameter of the two stand-in
    signatures, applied to the concatenation of the \<open>update\<close> inputs.
\<close>

datatype committee_selection =
    WfaLs (wfa_persistent_voters: u32) (wfa_non_persistent_voters: u32)
  | EveryoneVotes
  | StakeCentile (top_centile_of_stake: f64)

record stake_entry =
  se_node_id :: string
  se_stake :: u64

fun non_persistent_voters :: "committee_selection \<Rightarrow> u32" where
  "non_persistent_voters (WfaLs _ npv) = npv"
| "non_persistent_voters _ = 0"

definition total_stake :: "stake_entry list \<Rightarrow> nat" where
  "total_stake registry = sum_list (map (\<lambda>e. unat (se_stake e)) registry)"

fun cumsum_loop :: "nat \<Rightarrow> stake_entry list \<Rightarrow> nat list" where
  "cumsum_loop running [] = []"
| "cumsum_loop running (e # es) =
     (running + unat (se_stake e)) # cumsum_loop (running + unat (se_stake e)) es"

text \<open>Bytes: of a string, of a hash (big-endian), of a \<open>u64\<close> (\<open>to_le_bytes\<close>).\<close>

definition as_bytes :: "string \<Rightarrow> u8 list" where
  "as_bytes s = map (\<lambda>c. of_nat (of_char c)) s"

definition hash_bytes :: "hash32 \<Rightarrow> u8 list" where
  "hash_bytes h = map (\<lambda>i. ucast (drop_bit (8 * (31 - i)) h)) [0..<32]"

definition to_le_bytes :: "u64 \<Rightarrow> u8 list" where
  "to_le_bytes n = map (\<lambda>i. ucast (drop_bit (8 * i) n)) [0..<8]"

definition npv_eligibility_signature ::
  "(u8 list \<Rightarrow> u8 list) \<Rightarrow> u8 list \<Rightarrow> hash32 \<Rightarrow> u64 \<Rightarrow> u8 list" where
  "npv_eligibility_signature blake2b_48 voter_id eb_hash eb_slot =
     blake2b_48 (as_bytes ''net-rs/leios/npv-vrf'' @ voter_id @ hash_bytes eb_hash @ to_le_bytes eb_slot)"

definition imitate_rb_vote_signature :: "(u8 list \<Rightarrow> u8 list) \<Rightarrow> u8 list \<Rightarrow> hash32 \<Rightarrow> u8 list" where
  "imitate_rb_vote_signature blake2b_48 voter_id announcing_rb_hash =
     blake2b_48 (as_bytes ''net-rs/leios/votes-signature'' @ voter_id @ hash_bytes announcing_rb_hash)"

text \<open>\<open>partition_point\<close> on an ascending slice: the number of leading elements that satisfy the predicate.\<close>

definition partition_point :: "('a \<Rightarrow> bool) \<Rightarrow> 'a list \<Rightarrow> nat" where
  "partition_point P xs = length (takeWhile P xs)"

fun seat_loop ::
  "(nat \<Rightarrow> 'r \<Rightarrow> nat \<times> 'r) \<Rightarrow> stake_entry list \<Rightarrow> nat \<Rightarrow> 'r \<Rightarrow> (string, u32) omap \<Rightarrow> (string, u32) omap option" where
  "seat_loop gen_range registry 0 rng seats = Some seats"
| "seat_loop gen_range registry (Suc n) rng seats =
     (let (r, rng1) = gen_range (total_stake registry) rng;
          idx = partition_point (\<lambda>c. c \<le> r) (cumsum_loop 0 registry)
      in if idx < length registry
         then let node_id = se_node_id (registry ! idx)
              in seat_loop gen_range registry n rng1
                   (oupdate node_id (\<lambda>c. c + 1) (oor_insert node_id 0 seats))
         else None)"

definition allocate_persistent_seats ::
  "(u64 \<Rightarrow> 'r) \<Rightarrow> (nat \<Rightarrow> 'r \<Rightarrow> nat \<times> 'r) \<Rightarrow> stake_entry list \<Rightarrow> u32 \<Rightarrow> u64 \<Rightarrow> (string, u32) omap option" where
  "allocate_persistent_seats seed_from_u64 gen_range registry persistent_voters seed =
     (if total_stake registry = 0 \<or> persistent_voters = 0 \<or> registry = [] then Some oempty
      else seat_loop gen_range registry (unat persistent_voters) (seed_from_u64 seed) oempty)"

fun centile_loop :: "nat \<Rightarrow> nat \<Rightarrow> stake_entry list \<Rightarrow> (string, u32) omap \<Rightarrow> (string, u32) omap" where
  "centile_loop cutoff running [] committee = committee"
| "centile_loop cutoff running (e # es) committee =
     (if running \<ge> cutoff then committee
      else centile_loop cutoff (running + unat (se_stake e)) es (oput (se_node_id e) 1 committee))"

text \<open>Stake descending, node id ascending.\<close>

definition rank_key :: "stake_entry \<Rightarrow> int \<times> string" where
  "rank_key e = (- uint (se_stake e), se_node_id e)"

definition centile_cutoff :: "f64 \<Rightarrow> nat \<Rightarrow> nat" where
  "centile_cutoff centile ts = f64_to_uint (2 ^ 128) (f64_mul (f64_clamp (Fin 0) (Fin 1) centile) (f64_of_nat ts))"

definition top_centile_committee :: "stake_entry list \<Rightarrow> f64 \<Rightarrow> (string, u32) omap" where
  "top_centile_committee registry centile =
     (if total_stake registry = 0 then oempty
      else centile_loop (centile_cutoff centile (total_stake registry)) 0
             (sort_key rank_key (filter (\<lambda>e. se_stake e > 0) registry)) oempty)"

definition build_committee ::
  "(u64 \<Rightarrow> 'r) \<Rightarrow> (nat \<Rightarrow> 'r \<Rightarrow> nat \<times> 'r) \<Rightarrow> committee_selection \<Rightarrow> stake_entry list \<Rightarrow> u64
     \<Rightarrow> (string, u32) omap option" where
  "build_committee seed_from_u64 gen_range selection registry seed =
     (case selection of
        WfaLs persistent_voters _ \<Rightarrow> allocate_persistent_seats seed_from_u64 gen_range registry persistent_voters seed
      | EveryoneVotes \<Rightarrow> Some (oof_list (map (\<lambda>e. (se_node_id e, 1)) registry))
      | StakeCentile centile \<Rightarrow> Some (top_centile_committee registry centile))"

definition expected_total_weight :: "committee_selection \<Rightarrow> (string, u32) omap \<Rightarrow> u64 \<Rightarrow> u64" where
  "expected_total_weight selection committee total_active_stake =
     (case selection of
        WfaLs _ npv \<Rightarrow> sum_list (map ucast (ovalues committee)) + ucast npv
      | EveryoneVotes \<Rightarrow> sum_list (map ucast (ovalues committee))
      | StakeCentile _ \<Rightarrow> total_active_stake)"

fun npv_loop :: "('r \<Rightarrow> f64 \<times> 'r) \<Rightarrow> f64 \<Rightarrow> nat \<Rightarrow> 'r \<Rightarrow> u32 \<Rightarrow> u32" where
  "npv_loop gen_f64 p 0 rng wins = wins"
| "npv_loop gen_f64 p (Suc n) rng wins =
     (let (x, rng1) = gen_f64 rng in npv_loop gen_f64 p n rng1 (if f64_lt x p then wins + 1 else wins))"

definition count_npv_wins ::
  "(u8 list \<Rightarrow> 'r) \<Rightarrow> ('r \<Rightarrow> f64 \<times> 'r) \<Rightarrow> u8 list \<Rightarrow> u64 \<Rightarrow> u64 \<Rightarrow> u32 \<Rightarrow> u32" where
  "count_npv_wins from_seed gen_f64 signature stake ts npv =
     (if stake = 0 \<or> ts = 0 \<or> npv = 0 \<or> length signature < 32 then 0
      else npv_loop gen_f64 (f64_div (f64_of_nat (unat stake)) (f64_of_nat (unat ts)))
             (unat npv) (from_seed (take 32 signature)) 0)"

subsection \<open>The seat lottery\<close>

lemma cumsum_loop_last: "es \<noteq> [] \<Longrightarrow> last (cumsum_loop running es) = running + total_stake es"
proof (induction es arbitrary: running)
  case (Cons e es)
  then show ?case by (cases es) (auto simp: total_stake_def)
qed simp

lemma length_cumsum_loop [simp]: "length (cumsum_loop running es) = length es"
  by (induction es arbitrary: running) auto

text \<open>A draw below the total stake lands on an entry, and on one with stake.\<close>

lemma partition_point_hit:
  assumes "running \<le> r" and "r < running + total_stake es"
  defines "idx \<equiv> partition_point (\<lambda>c. c \<le> r) (cumsum_loop running es)"
  shows "idx < length es \<and> 0 < se_stake (es ! idx)"
  using assms(1,2) unfolding idx_def partition_point_def
proof (induction es arbitrary: running)
  case (Cons e es)
  show ?case
  proof (cases "running + unat (se_stake e) \<le> r")
    case True
    then show ?thesis
      using Cons.IH [of "running + unat (se_stake e)"] Cons.prems by (simp add: total_stake_def ac_simps)
  next
    case False
    then have "unat (se_stake e) > 0" using Cons.prems(1) by simp
    with False show ?thesis by (simp add: word_less_nat_alt)
  qed
qed (simp add: total_stake_def)

definition seat_sum :: "(string, u32) omap \<Rightarrow> nat" where
  "seat_sum seats = sum_list (map unat (ovalues seats))"

lemma sum_put_list_replace:
  fixes f :: "'v \<Rightarrow> nat"
  shows "sorted_wrt (<) (map fst xs) \<Longrightarrow> map_of xs k = Some u \<Longrightarrow>
    sum_list (map (f \<circ> snd) (put_list k v xs)) + f u = f v + sum_list (map (f \<circ> snd) xs)"
proof (induction k v xs rule: put_list.induct)
  case (2 k v k' v' xs)
  have "map_of xs k = None" if "k < k'"
  proof -
    have "k \<notin> fst ` set xs" using that "2.prems"(1) by fastforce
    then show ?thesis by (simp add: map_of_eq_None_iff)
  qed
  with 2 show ?case by (auto split: if_splits)
qed simp

lemma seat_sum_award:
  assumes "seat_sum seats + 1 < 2 ^ 32"
  shows "seat_sum (oupdate k (\<lambda>c. c + 1) (oor_insert k 0 seats)) = seat_sum seats + 1"
proof -
  define s where "s = oor_insert k 0 seats"
  have s: "seat_sum s = seat_sum seats"
    by (simp add: s_def seat_sum_def oor_insert_def sum_ovalues_oput)
  have "oget s k \<noteq> None" by (simp add: s_def oget_oor_insert)
  then obtain c where c: "oget s k = Some c" by (meson not_None_eq)
  have "c \<in> set (ovalues s)" unfolding in_ovalues_iff using c by (rule exI)
  then have "unat c \<le> seat_sum s" unfolding seat_sum_def by (rule member_sum_list_le)
  then have "unat c + 1 < 2 ^ 32" using s assms by linarith
  then have u: "unat (c + 1) = unat c + 1" by (simp add: unat_word_ariths)
  have "map_of (entries s) k = Some c" using c by (simp add: oget_entries)
  from sum_put_list_replace [OF sorted_entries this, of unat "c + 1"]
  have "seat_sum (oput k (c + 1) s) = seat_sum s + 1"
    by (simp add: seat_sum_def ovalues_def u)
  then show ?thesis using s c by (simp add: oupdate_def flip: s_def)
qed

lemma seat_loop_ok:
  assumes draw: "\<And>n r. 0 < n \<Longrightarrow> fst (gen_range n r) < n" and "0 < total_stake registry"
    and "seat_sum seats + n < 2 ^ 32"
    and "\<And>k. ohas seats k \<Longrightarrow> \<exists>e \<in> set registry. se_node_id e = k \<and> 0 < se_stake e"
  shows "\<exists>seats'. seat_loop gen_range registry n rng seats = Some seats' \<and> seat_sum seats' = seat_sum seats + n \<and>
    (\<forall>k. ohas seats' k \<longrightarrow> (\<exists>e \<in> set registry. se_node_id e = k \<and> 0 < se_stake e))"
  using assms(3,4)
proof (induction n arbitrary: rng seats)
  case (Suc n)
  obtain r rng1 where g: "gen_range (total_stake registry) rng = (r, rng1)" by fastforce
  define idx where "idx = partition_point (\<lambda>c. c \<le> r) (cumsum_loop 0 registry)"
  have "r < total_stake registry" using draw [OF assms(2), of rng] g by simp
  then have idx: "idx < length registry" "0 < se_stake (registry ! idx)"
    using partition_point_hit [of 0 r registry] by (simp_all add: idx_def)
  define k where "k = se_node_id (registry ! idx)"
  define s where "s = oupdate k (\<lambda>c. c + 1) (oor_insert k 0 seats)"
  have sum: "seat_sum s = seat_sum seats + 1"
    unfolding s_def using Suc.prems(1) by (intro seat_sum_award) simp
  have own: "\<exists>e \<in> set registry. se_node_id e = k' \<and> 0 < se_stake e" if "ohas s k'" for k'
    using that Suc.prems(2) [of k'] idx nth_mem [OF idx(1)]
    by (auto simp: s_def ohas_def oget_oupdate oget_oor_insert k_def split: if_splits)
  have step: "seat_loop gen_range registry (Suc n) rng seats = seat_loop gen_range registry n rng1 s"
    using idx(1) by (simp add: g Let_def s_def k_def flip: idx_def)
  have "seat_sum s + n < 2 ^ 32" using sum Suc.prems(1) by simp
  from Suc.IH [OF this own, where rng = rng1] sum show ?case unfolding step by simp
qed simp

text \<open>The persistent-seat lottery, for any generator whose draws from \<open>0..n\<close> are below \<open>n\<close>. It never
  indexes out of range; when there is stake, exactly \<open>persistent_voters\<close> seats are awarded (the
  \<open>u32\<close> counters do not overflow); and every seat goes to a registered pool with positive stake.\<close>

theorem allocate_persistent_seats_total:
  assumes "\<And>n r. 0 < n \<Longrightarrow> fst (gen_range n r) < n"
  shows "\<exists>seats. allocate_persistent_seats seed_from_u64 gen_range registry persistent_voters seed = Some seats \<and>
    (0 < total_stake registry \<longrightarrow> seat_sum seats = unat persistent_voters) \<and>
    (\<forall>k. ohas seats k \<longrightarrow> (\<exists>e \<in> set registry. se_node_id e = k \<and> 0 < se_stake e))"
proof (cases "total_stake registry = 0 \<or> persistent_voters = 0 \<or> registry = []")
  case True
  moreover have "registry = [] \<Longrightarrow> total_stake registry = 0" by (simp add: total_stake_def)
  ultimately show ?thesis
    by (auto simp: allocate_persistent_seats_def seat_sum_def ovalues_def)
next
  case False
  have "seat_sum oempty + unat persistent_voters < 2 ^ 32"
    using unsigned_less [of persistent_voters] by (simp add: seat_sum_def ovalues_def)
  from seat_loop_ok [OF assms _ this, where registry = registry and rng = "seed_from_u64 seed"] False show ?thesis
    by (simp add: allocate_persistent_seats_def) (simp add: seat_sum_def ovalues_def)
qed

theorem allocate_persistent_seats_total_witness:
  "\<exists>seats. allocate_persistent_seats (\<lambda>s. unat s) (\<lambda>n r. (r mod n, r + 1))
      [\<lparr>se_node_id = ''a'', se_stake = 3\<rparr>, \<lparr>se_node_id = ''b'', se_stake = 1\<rparr>] 5 42 = Some seats \<and> seat_sum seats = 5"
  using allocate_persistent_seats_total [of "\<lambda>n r. (r mod n, r + 1)" "\<lambda>s. unat s"
      "[\<lparr>se_node_id = ''a'', se_stake = 3\<rparr>, \<lparr>se_node_id = ''b'', se_stake = 1\<rparr>]" 5 42]
  by (auto simp: total_stake_def)


subsection \<open>The stake-centile committee\<close>

text \<open>The ranked pools, the members the loop takes, and their stake.\<close>

fun centile_members :: "nat \<Rightarrow> nat \<Rightarrow> stake_entry list \<Rightarrow> stake_entry list" where
  "centile_members cutoff running [] = []"
| "centile_members cutoff running (e # es) =
     (if running \<ge> cutoff then [] else e # centile_members cutoff (running + unat (se_stake e)) es)"

definition ranked_pools :: "stake_entry list \<Rightarrow> stake_entry list" where
  "ranked_pools registry = sort_key rank_key (filter (\<lambda>e. se_stake e > 0) registry)"

lemma centile_loop_eq:
  "centile_loop cutoff running es committee =
     fold (\<lambda>e. oput (se_node_id e) 1) (centile_members cutoff running es) committee"
  by (induction cutoff running es committee rule: centile_loop.induct) auto

lemma ohas_fold_oput:
  "ohas (fold (\<lambda>e. oput (se_node_id e) w) es m) k \<longleftrightarrow> ohas m k \<or> k \<in> se_node_id ` set es"
  by (induction es arbitrary: m) (auto simp: ohas_def oget_oput)

lemma centile_members_prefix: "\<exists>rest. es = centile_members cutoff running es @ rest"
  by (induction cutoff running es rule: centile_members.induct) auto

lemma centile_members_cover:
  "cutoff \<le> running + total_stake es \<Longrightarrow> cutoff \<le> running + total_stake (centile_members cutoff running es)"
  by (induction cutoff running es rule: centile_members.induct) (auto simp: total_stake_def ac_simps)

lemma centile_members_minimal:
  "centile_members cutoff running es \<noteq> [] \<Longrightarrow> running + total_stake (butlast (centile_members cutoff running es)) < cutoff"
proof (induction cutoff running es rule: centile_members.induct)
  case (2 cutoff running e es)
  then show ?case
    by (cases "centile_members cutoff (running + unat (se_stake e)) es") (auto simp: total_stake_def ac_simps split: if_splits)
qed simp

lemma total_stake_mset: "mset es = mset es' \<Longrightarrow> total_stake es = total_stake es'"
  unfolding total_stake_def by (metis mset_map sum_mset_sum_list)

lemma total_stake_positive: "total_stake (filter (\<lambda>e. se_stake e > 0) es) = total_stake es"
  by (induction es) (auto simp: total_stake_def word_less_nat_alt)

lemma total_stake_ranked [simp]: "total_stake (ranked_pools registry) = total_stake registry"
  using total_stake_mset [of "ranked_pools registry" "filter (\<lambda>e. se_stake e > 0) registry"]
  by (simp add: ranked_pools_def total_stake_positive)

lemma centile_cutoff_bounds:
  assumes "pow2 (- 1022) \<le> c" and "c \<le> 1" and "0 < ts" and "ts < 2 ^ 53"
  shows "centile_cutoff (Fin c) ts \<le> ts" and "c * of_nat ts * (1 - pow2 (- 53)) < of_nat (centile_cutoff (Fin c) ts) + 1"
proof -
  define x where "x = c * of_nat ts"
  have cpos: "0 < c" using assms(1) pow2_pos less_le_trans by blast
  then have "c * 1 \<le> x" unfolding x_def using assms(3) by (intro mult_left_mono) auto
  then have xl: "pow2 (- 1022) \<le> x" using assms(1) by simp
  then have xpos: "0 < x" using pow2_pos less_le_trans by blast
  have xn: "x \<le> of_nat ts" using assms(2) by (simp add: x_def mult_left_le_one_le cpos less_imp_le)
  define v where "v = round_to_ulp x"
  have v: "\<bar>v - x\<bar> \<le> x * pow2 (- 53)" unfolding v_def by (rule round_to_ulp_rel_error [OF xl])
  have vn: "v \<le> of_nat ts" using round_to_ulp_le_int [of x "int ts"] xpos xn assms(4) by (simp add: v_def)
  have v0: "0 \<le> v" using xpos by (simp add: v_def round_to_ulp_nonneg less_imp_le)
  have "(of_nat ts :: rat) < of_nat (2 ^ 53)" using assms(4) by (simp only: of_nat_less_iff)
  then have "v < pow2 1024" using vn big_pow2 by simp
  then have "f64_mul (Fin c) (f64_of_nat ts) = Fin v"
    using xpos assms(4) cpos by (auto simp: f64_of_nat_exact f64_round_def Let_def v_def x_def)
  moreover have "f64_clamp (Fin 0) (Fin 1) (Fin c) = Fin c" using assms(2) cpos by (auto simp: f64_clamp_def)
  ultimately have cut: "centile_cutoff (Fin c) ts = min (nat \<lfloor>v\<rfloor>) (2 ^ 128 - 1)"
    using v0 by (simp add: centile_cutoff_def)
  have nv: "nat \<lfloor>v\<rfloor> \<le> ts" using vn by (simp add: nat_le_iff floor_le_iff)
  then have "nat \<lfloor>v\<rfloor> \<le> 2 ^ 128 - 1" using assms(4) by simp
  then have cut': "centile_cutoff (Fin c) ts = nat \<lfloor>v\<rfloor>" using cut by simp
  show "centile_cutoff (Fin c) ts \<le> ts" using nv cut' by simp
  have "v < of_nat (nat \<lfloor>v\<rfloor>) + 1" using v0 floor_correct [of v] by simp
  moreover have "x * (1 - pow2 (- 53)) \<le> v" using v by (auto simp: abs_le_iff algebra_simps)
  ultimately show "c * of_nat ts * (1 - pow2 (- 53)) < of_nat (centile_cutoff (Fin c) ts) + 1"
    using cut' by (simp flip: x_def)
qed


lemma top_centile_committee_members:
  assumes "total_stake registry \<noteq> 0"
  shows "ohas (top_centile_committee registry c) k \<longleftrightarrow>
    k \<in> se_node_id ` set (centile_members (centile_cutoff c (total_stake registry)) 0 (ranked_pools registry))"
  using assms by (simp add: top_centile_committee_def centile_loop_eq ohas_fold_oput ranked_pools_def)

lemma top_centile_members:
  assumes "pow2 (- 1022) \<le> c" and "c \<le> 1" and "0 < total_stake registry" and "total_stake registry < 2 ^ 53"
  shows "\<exists>members rest. ranked_pools registry = members @ rest \<and>
    (\<forall>k. ohas (top_centile_committee registry (Fin c)) k \<longleftrightarrow> k \<in> se_node_id ` set members) \<and>
    (\<forall>e \<in> set members. 0 < se_stake e) \<and>
    centile_cutoff (Fin c) (total_stake registry) \<le> total_stake members \<and>
    (members \<noteq> [] \<longrightarrow> total_stake (butlast members) < centile_cutoff (Fin c) (total_stake registry)) \<and>
    c * of_nat (total_stake registry) * (1 - pow2 (- 53)) < of_nat (total_stake members) + 1"
proof -
  define cut where "cut = centile_cutoff (Fin c) (total_stake registry)"
  define members where "members = centile_members cut 0 (ranked_pools registry)"
  note b = centile_cutoff_bounds [OF assms, folded cut_def]
  obtain rest where rest: "ranked_pools registry = members @ rest"
    unfolding members_def using centile_members_prefix by blast
  have cover: "cut \<le> total_stake members"
    using centile_members_cover [of cut 0 "ranked_pools registry"] b(1) by (simp add: members_def)
  have "set members \<subseteq> set (ranked_pools registry)" using rest by simp
  then have "\<forall>e \<in> set members. 0 < se_stake e" by (auto simp: ranked_pools_def)
  moreover have "\<forall>k. ohas (top_centile_committee registry (Fin c)) k \<longleftrightarrow> k \<in> se_node_id ` set members"
    using top_centile_committee_members assms(3) by (simp add: members_def cut_def)
  moreover have "members \<noteq> [] \<longrightarrow> total_stake (butlast members) < cut"
    using centile_members_minimal [of cut 0 "ranked_pools registry"] by (simp add: members_def)
  moreover have "c * of_nat (total_stake registry) * (1 - pow2 (- 53)) < of_nat (total_stake members) + 1"
    using b(2) cover by (meson add_right_mono less_le_trans of_nat_mono)
  ultimately show ?thesis using rest cover unfolding cut_def by blast
qed

text \<open>The stake-centile committee covers the centile and no more. For a registry with stake (below \<open>2^53\<close>)
  and a centile between zero and one, the members are a prefix of the pools ranked by stake descending
  and id ascending, each with positive stake; their summed stake reaches the cut-off, and without
  the last of them it does not; and the cut-off is above \<open>c \<sqdot> T \<sqdot> (1 - 2^-53) - 1\<close>.\<close>

theorem top_centile_committee_covers:
  assumes "pow2 (- 1022) \<le> c" and "c \<le> 1" and "0 < total_stake registry" and "total_stake registry < 2 ^ 53"
  shows "\<exists>members rest. ranked_pools registry = members @ rest \<and>
    (\<forall>k. ohas (top_centile_committee registry (Fin c)) k \<longleftrightarrow> k \<in> se_node_id ` set members) \<and>
    (\<forall>e \<in> set members. 0 < se_stake e) \<and>
    centile_cutoff (Fin c) (total_stake registry) \<le> total_stake members \<and>
    (members \<noteq> [] \<longrightarrow> total_stake (butlast members) < centile_cutoff (Fin c) (total_stake registry)) \<and>
    c * of_nat (total_stake registry) * (1 - pow2 (- 53)) < of_nat (total_stake members) + 1"
  using assms by (rule top_centile_members)

lemma small_pow2: "pow2 (- 1022) \<le> (3 / 4 :: rat)"
proof -
  have "pow2 (- 1022) \<le> pow2 (- 1)" by (rule pow2_mono) simp
  then show ?thesis by (simp add: pow2_def [of "- 1"])
qed

theorem top_centile_committee_covers_witness:
  "\<exists>members rest. ranked_pools [\<lparr>se_node_id = ''a'', se_stake = 3\<rparr>, \<lparr>se_node_id = ''b'', se_stake = 5\<rparr>] = members @ rest \<and>
     centile_cutoff (Fin (3 / 4)) 8 \<le> total_stake members"
proof -
  have "total_stake [\<lparr>se_node_id = ''a'', se_stake = 3\<rparr>, \<lparr>se_node_id = ''b'', se_stake = 5\<rparr>] = 8"
    by (simp add: total_stake_def)
  with top_centile_committee_covers [of "3 / 4" "[\<lparr>se_node_id = ''a'', se_stake = 3\<rparr>, \<lparr>se_node_id = ''b'', se_stake = 5\<rparr>]"]
    small_pow2
  show ?thesis by auto
qed

lemma stake_of_member_ids:
  assumes "ranked_pools registry = members @ rest" and "distinct (map se_node_id registry)"
    and "\<And>k. P k \<longleftrightarrow> k \<in> se_node_id ` set members"
  shows "total_stake (filter (\<lambda>e. P (se_node_id e) \<and> 0 < se_stake e) registry) = total_stake members"
proof -
  have m: "mset (ranked_pools registry) = mset (filter (\<lambda>e. 0 < se_stake e) registry)"
    by (simp add: ranked_pools_def)
  have "distinct (map se_node_id (filter (\<lambda>e. 0 < se_stake e) registry))" using assms(2) by simp
  then have "distinct (map se_node_id (members @ rest))"
    unfolding assms(1) [symmetric] by (metis m mset_eq_imp_distinct_iff mset_map)
  then have "filter (\<lambda>e. P (se_node_id e)) (members @ rest) = members"
    using assms(3) by (auto simp: filter_id_conv filter_empty_conv)
  moreover have "mset (filter (\<lambda>e. P (se_node_id e) \<and> 0 < se_stake e) registry) =
      mset (filter (\<lambda>e. P (se_node_id e)) (ranked_pools registry))"
    unfolding mset_filter m by (simp add: filter_filter_mset conj_commute)
  ultimately show ?thesis using total_stake_mset assms(1) by metis
qed

lemma product_error_small:
  assumes "0 \<le> f" and "f \<le> 1" and "T < 2 ^ 53"
  shows "f * of_nat T * pow2 (- 53) < 1"
proof -
  have "(of_nat T :: rat) < of_nat (2 ^ 53)" using assms(3) by (simp only: of_nat_less_iff)
  then have "of_nat T * pow2 (- 53) < 1" by (simp add: pow2_def)
  moreover have "f * (of_nat T * pow2 (- 53)) \<le> 1 * (of_nat T * pow2 (- 53))"
    using assms(2) by (intro mult_right_mono) (simp_all add: less_imp_le)
  ultimately show ?thesis by (simp add: mult.assoc)
qed

text \<open>A configuration whose centile exceeds the quorum fraction by at least four units of stake is live:
  if every member of the stake-centile committee votes with its stake, the summed weight reaches the
  quorum threshold for the total stake.\<close>

theorem stake_centile_quorum_reachable:
  assumes "pow2 (- 1022) \<le> tau" and "tau \<le> c" and "c \<le> 1" and "0 < total_stake registry"
    and "total_stake registry < 2 ^ 53" and "4 \<le> (c - tau) * of_nat (total_stake registry)"
    and "distinct (map se_node_id registry)"
  shows "unat (quorum_threshold (Fin tau) (of_nat (total_stake registry))) \<le>
    total_stake (filter (\<lambda>e. ohas (top_centile_committee registry (Fin c)) (se_node_id e) \<and> 0 < se_stake e) registry)"
proof -
  define T where "T = total_stake registry"
  have T: "0 < T" "T < 2 ^ 53" using assms(4,5) by (simp_all add: T_def)
  have uT: "unat (of_nat T :: u64) = T" using T(2) by (simp add: unat_of_nat)
  have tau: "0 \<le> tau" "tau \<le> 1" and c: "pow2 (- 1022) \<le> c" "0 \<le> c"
    using assms(1-3) pow2_pos [of "- 1022"] by linarith+
  obtain members rest where mem: "ranked_pools registry = members @ rest"
      "\<forall>k. ohas (top_centile_committee registry (Fin c)) k \<longleftrightarrow> k \<in> se_node_id ` set members"
      "c * of_nat T * (1 - pow2 (- 53)) < of_nat (total_stake members) + 1"
    using top_centile_members [OF c(1) assms(3-5)] unfolding T_def by blast
  have sum: "total_stake (filter (\<lambda>e. ohas (top_centile_committee registry (Fin c)) (se_node_id e) \<and> 0 < se_stake e) registry)
      = total_stake members"
    using mem(2) by (intro stake_of_member_ids [OF mem(1) assms(7)]) simp
  have "0 < (of_nat T :: u64)" using uT T(1) by (simp add: word_less_nat_alt)
  then have thr: "of_nat (unat (quorum_threshold (Fin tau) (of_nat T))) < tau * of_nat T * (1 + pow2 (- 53)) + 1"
    using quorum_threshold_error [OF assms(1) tau(2), of "of_nat T"] T(2) uT by simp
  define n where "n = unat (quorum_threshold (Fin tau) (of_nat T))"
  have "tau * of_nat T * pow2 (- 53) < 1" "c * of_nat T * pow2 (- 53) < 1"
    using product_error_small [OF tau T(2)] product_error_small [OF c(2) assms(3) T(2)] by auto
  with thr mem(3) have "of_nat n < tau * of_nat T + 2" "c * of_nat T < of_nat (total_stake members) + 2"
    by (simp_all add: n_def algebra_simps)
  moreover have "tau * of_nat T + 4 \<le> c * of_nat T" using assms(6) by (simp add: T_def algebra_simps)
  ultimately have "(of_nat n :: rat) < of_nat (total_stake members)" by linarith
  then have "n < total_stake members" by (simp only: of_nat_less_iff)
  then show ?thesis unfolding sum by (simp add: n_def T_def)
qed

theorem stake_centile_quorum_reachable_witness:
  "unat (quorum_threshold (Fin (3 / 4)) 80) \<le>
    total_stake (filter (\<lambda>e. ohas (top_centile_committee
        [\<lparr>se_node_id = ''a'', se_stake = 30\<rparr>, \<lparr>se_node_id = ''b'', se_stake = 50\<rparr>] (Fin (19 / 20))) (se_node_id e) \<and>
      0 < se_stake e) [\<lparr>se_node_id = ''a'', se_stake = 30\<rparr>, \<lparr>se_node_id = ''b'', se_stake = 50\<rparr>])"
proof -
  have "total_stake [\<lparr>se_node_id = ''a'', se_stake = 30\<rparr>, \<lparr>se_node_id = ''b'', se_stake = 50\<rparr>] = 80"
    by (simp add: total_stake_def)
  with stake_centile_quorum_reachable [of "3 / 4" "19 / 20"
      "[\<lparr>se_node_id = ''a'', se_stake = 30\<rparr>, \<lparr>se_node_id = ''b'', se_stake = 50\<rparr>]"] small_pow2
  show ?thesis by simp
qed

end
