(* ===== verification/Elections.thy ===== *)
theory Elections
  imports Committee
begin

text \<open>
  \<open>shared-rs/consensus/src/elections.rs\<close>: the elections of the endorser blocks, keyed by the hash of
  the announcing ranking block, driven by slot ticks and votes.

  \<^item> Log lines are left out; \<open>node_id\<close> of the configuration is only logged.
  \<^item> \<open>election_mut\<close> hands out a mutable reference; it is \<open>election_mut\<close> with the caller's update as an
    argument. The step relation does not contain it: the adapters that use it only move \<open>seen_slot\<close>,
    which \<open>touch_seen_slot\<close> covers.
  \<^item> The generator behind the non-persistent lottery is a parameter of \<open>weight_for\<close>, as in
    \<open>Committee\<close>.
\<close>

datatype slot_effect =
    EligibleToVote (se_rb_hash: hash32) (se_eb_hash: hash32) (se_eb_slot: u64) (se_eb_seen_slot: u64)
  | Expired (ex_eb_hash: hash32) (ex_eb_slot: u64) (ex_had_quorum: bool) (ex_voted_weight: u64)
      (ex_voters: nat) (ex_expected_weight: u64)

datatype elections_config_error = StakeCentileQuorumUnreachable f64 f64

record elections_config =
  ec_pipeline :: pipeline_config
  ec_committee_selection :: committee_selection
  ec_persistent_committee :: "(string, u32) omap"
  ec_stake_registry :: "(string, u64) omap"
  ec_total_stake :: u64
  ec_expected_total_weight :: u64
  ec_quorum_weight_fraction :: f64

definition ec_validate :: "elections_config \<Rightarrow> elections_config_error + unit" where
  "ec_validate cfg =
     (case ec_committee_selection cfg of
        StakeCentile c \<Rightarrow>
          if f64_le c (ec_quorum_weight_fraction cfg)
          then Inl (StakeCentileQuorumUnreachable c (ec_quorum_weight_fraction cfg)) else Inr ()
      | _ \<Rightarrow> Inr ())"

record elections =
  es_cfg :: elections_config
  es_current_slot :: u64
  es_elections :: "(hash32, eb_election) omap"
  es_voter_ids :: "string list"
  es_voter_index_map :: "(string, u16) omap"

definition registry_stake :: "(string, u64) omap \<Rightarrow> string \<Rightarrow> u64" where
  "registry_stake registry node_id = (case oget registry node_id of Some s \<Rightarrow> s | None \<Rightarrow> 0)"

definition voter_key_order :: "(string, u64) omap \<Rightarrow> string \<Rightarrow> int \<times> string" where
  "voter_key_order registry node_id = (- uint (registry_stake registry node_id), node_id)"

definition elections_new :: "elections_config \<Rightarrow> elections" where
  "elections_new cfg =
     (let voter_ids = sort_key (voter_key_order (ec_stake_registry cfg)) (okeys (ec_stake_registry cfg));
          voter_index_map = oof_list (List.map_filter
            (\<lambda>(i, node_id). if i < 2 ^ 16 then Some (node_id, of_nat i) else None) (enumerate 0 voter_ids))
      in \<lparr>es_cfg = cfg, es_current_slot = 0, es_elections = oempty,
          es_voter_ids = voter_ids, es_voter_index_map = voter_index_map\<rparr>)"

definition es_count :: "elections \<Rightarrow> nat" where
  "es_count st = olen (es_elections st)"

definition announce_from_rb :: "elections \<Rightarrow> hash32 \<Rightarrow> u64 \<Rightarrow> hash32 \<Rightarrow> elections \<times> bool" where
  "announce_from_rb st rb_hash rb_slot eb_hash =
     (if ohas (es_elections st) rb_hash then (st, False)
      else
        let elapsed = saturating_sub (es_current_slot st) rb_slot;
            phase = phase_for_elapsed (ec_pipeline (es_cfg st)) elapsed
        in (st\<lparr>es_elections := oput rb_hash
              \<lparr>el_eb_hash = eb_hash, el_announced_slot = rb_slot, el_phase = phase,
               el_seen_slot = es_current_slot st, el_voted = False, el_voter_weights = oempty,
               el_quorum_reached = False, el_body_validated_locally = False\<rparr> (es_elections st)\<rparr>, True))"

definition mark_body_validated :: "elections \<Rightarrow> hash32 \<Rightarrow> elections" where
  "mark_body_validated st eb_hash =
     st\<lparr>es_elections := omap_values
         (\<lambda>_ e. if el_eb_hash e = eb_hash then e\<lparr>el_body_validated_locally := True\<rparr> else e) (es_elections st)\<rparr>"

definition es_on_slot :: "elections \<Rightarrow> u64 \<Rightarrow> elections \<times> slot_effect list" where
  "es_on_slot st slot =
     (let pipeline = ec_pipeline (es_cfg st);
          effects = List.map_filter
            (\<lambda>(rb_hash, e).
               if phase_for_elapsed pipeline (saturating_sub slot (el_announced_slot e)) = VotingPhase \<and> \<not> el_voted e
               then Some (EligibleToVote rb_hash (el_eb_hash e) (el_announced_slot e) (el_seen_slot e)) else None)
            (entries (es_elections st))
      in (st\<lparr>es_current_slot := slot,
             es_elections := omap_values
               (\<lambda>_ e. e\<lparr>el_phase := phase_for_elapsed pipeline (saturating_sub slot (el_announced_slot e))\<rparr>)
               (es_elections st)\<rparr>, effects))"

definition mark_voted :: "elections \<Rightarrow> hash32 \<Rightarrow> elections" where
  "mark_voted st rb_hash = st\<lparr>es_elections := oupdate rb_hash (\<lambda>e. e\<lparr>el_voted := True\<rparr>) (es_elections st)\<rparr>"

definition es_record_vote :: "elections \<Rightarrow> hash32 \<Rightarrow> voter_key \<Rightarrow> u64 \<Rightarrow> elections \<times> quorum_formed option" where
  "es_record_vote st rb_hash voter_key weight =
     (let (es, r) = agg_record_vote (es_elections st) rb_hash voter_key weight
                      (ec_quorum_weight_fraction (es_cfg st)) (ec_expected_total_weight (es_cfg st))
      in (st\<lparr>es_elections := es\<rparr>, r))"

definition weight_for ::
  "(u8 list \<Rightarrow> 'r) \<Rightarrow> ('r \<Rightarrow> f64 \<times> 'r) \<Rightarrow> elections \<Rightarrow> string \<Rightarrow> u8 \<Rightarrow> u8 list option \<Rightarrow> u64" where
  "weight_for from_seed gen_f64 st voter_id tag npv_signature =
     (let cfg = es_cfg st; committee = ec_persistent_committee cfg
      in if tag = 0 then
           (case ec_committee_selection cfg of
              StakeCentile _ \<Rightarrow> if ohas committee voter_id then registry_stake (ec_stake_registry cfg) voter_id else 0
            | _ \<Rightarrow> (case oget committee voter_id of Some w \<Rightarrow> ucast w | None \<Rightarrow> 0))
         else if tag = 1 then
           (case (npv_signature, ec_committee_selection cfg) of
              (Some sig, WfaLs _ _) \<Rightarrow>
                if ohas committee voter_id then 0
                else ucast (count_npv_wins from_seed gen_f64 sig (registry_stake (ec_stake_registry cfg) voter_id)
                       (ec_total_stake cfg) (non_persistent_voters (ec_committee_selection cfg)))
            | _ \<Rightarrow> 0)
         else 0)"

definition voter_id_at :: "elections \<Rightarrow> u16 \<Rightarrow> string option" where
  "voter_id_at st index =
     (if unat index < length (es_voter_ids st) then Some (es_voter_ids st ! unat index) else None)"

definition voter_index :: "elections \<Rightarrow> string \<Rightarrow> u16 option" where
  "voter_index st node_id = oget (es_voter_index_map st) node_id"

definition es_phase :: "elections \<Rightarrow> hash32 \<Rightarrow> pipeline_phase option" where
  "es_phase st rb_hash = map_option el_phase (oget (es_elections st) rb_hash)"

definition election_mut :: "elections \<Rightarrow> hash32 \<Rightarrow> (eb_election \<Rightarrow> eb_election) \<Rightarrow> elections" where
  "election_mut st rb_hash f = st\<lparr>es_elections := oupdate rb_hash f (es_elections st)\<rparr>"

definition touch_seen_slot :: "elections \<Rightarrow> hash32 \<Rightarrow> u64 \<Rightarrow> elections" where
  "touch_seen_slot st rb_hash slot = election_mut st rb_hash (\<lambda>e. e\<lparr>el_seen_slot := slot\<rparr>)"

definition es_voted :: "elections \<Rightarrow> hash32 \<Rightarrow> bool" where
  "es_voted st rb_hash = (case oget (es_elections st) rb_hash of Some e \<Rightarrow> el_voted e | None \<Rightarrow> False)"

definition is_announced :: "elections \<Rightarrow> hash32 \<Rightarrow> bool" where
  "is_announced st rb_hash =
     (case oget (es_elections st) rb_hash of Some e \<Rightarrow> el_body_validated_locally e | None \<Rightarrow> False)"

definition eb_context :: "elections \<Rightarrow> hash32 \<Rightarrow> (hash32 \<times> u64) option" where
  "eb_context st rb_hash =
     map_option (\<lambda>e. (el_eb_hash e, el_announced_slot e)) (oget (es_elections st) rb_hash)"

definition eb_body_validated :: "elections \<Rightarrow> hash32 \<Rightarrow> bool" where
  "eb_body_validated st eb_hash =
     (\<exists>e \<in> set (ovalues (es_elections st)). el_eb_hash e = eb_hash \<and> el_body_validated_locally e)"

definition es_quorum :: "elections \<Rightarrow> hash32 \<Rightarrow> bool" where
  "es_quorum st rb_hash = (case oget (es_elections st) rb_hash of Some e \<Rightarrow> el_quorum_reached e | None \<Rightarrow> False)"

definition voter_count :: "elections \<Rightarrow> hash32 \<Rightarrow> nat" where
  "voter_count st rb_hash =
     (case oget (es_elections st) rb_hash of Some e \<Rightarrow> olen (el_voter_weights e) | None \<Rightarrow> 0)"

definition expired_effect :: "u64 \<Rightarrow> eb_election \<Rightarrow> slot_effect" where
  "expired_effect expected_weight e =
     Expired (el_eb_hash e) (el_announced_slot e) (el_quorum_reached e) (voted_weight e)
       (olen (el_voter_weights e)) expected_weight"

definition prune_below_slot :: "elections \<Rightarrow> u64 \<Rightarrow> elections \<times> slot_effect list" where
  "prune_below_slot st min_slot =
     (st\<lparr>es_elections := oretain (\<lambda>_ e. \<not> el_announced_slot e < min_slot) (es_elections st)\<rparr>,
      map (\<lambda>(_, e). expired_effect (ec_expected_total_weight (es_cfg st)) e)
        (filter (\<lambda>(_, e). el_announced_slot e < min_slot) (entries (es_elections st))))"

definition eb_certifiable_slot :: "elections \<Rightarrow> hash32 \<Rightarrow> u64 option" where
  "eb_certifiable_slot st rb_hash =
     (case oget (es_elections st) rb_hash of
        None \<Rightarrow> None
      | Some e \<Rightarrow> if el_quorum_reached e \<and> el_phase e = CertEligible then Some (el_announced_slot e) else None)"

definition eb_cert_status :: "elections \<Rightarrow> hash32 \<Rightarrow> (bool \<times> pipeline_phase \<times> u64) option" where
  "eb_cert_status st rb_hash =
     map_option (\<lambda>e. (el_quorum_reached e, el_phase e, el_announced_slot e)) (oget (es_elections st) rb_hash)"

subsection \<open>Reachable election states\<close>

inductive elections_step :: "elections \<Rightarrow> elections \<Rightarrow> bool" where
  "elections_step st (fst (announce_from_rb st rb slot eb))"
| "elections_step st (mark_body_validated st eb)"
| "elections_step st (fst (es_on_slot st slot))"
| "elections_step st (mark_voted st rb)"
| "elections_step st (fst (es_record_vote st rb voter w))"
| "elections_step st (touch_seen_slot st rb slot)"
| "elections_step st (fst (prune_below_slot st slot))"

inductive elections_reachable :: "elections_config \<Rightarrow> elections \<Rightarrow> bool" for cfg where
  new: "elections_reachable cfg (elections_new cfg)"
| step: "elections_reachable cfg st \<Longrightarrow> elections_step st st' \<Longrightarrow> elections_reachable cfg st'"

definition elapsed_of :: "elections \<Rightarrow> eb_election \<Rightarrow> u64" where
  "elapsed_of st e = saturating_sub (es_current_slot st) (el_announced_slot e)"

definition weight_sum :: "eb_election \<Rightarrow> nat" where
  "weight_sum e = sum_list (map unat (ovalues (el_voter_weights e)))"

text \<open>The exact sum of the recorded weights backs a quorum, also where the \<open>u64\<close> sum of the code wraps.\<close>

definition quorum_backed :: "u64 \<Rightarrow> eb_election \<Rightarrow> bool" where
  "quorum_backed thr e \<longleftrightarrow> (el_quorum_reached e \<longrightarrow> olen (el_voter_weights e) \<noteq> 0 \<and> unat thr \<le> weight_sum e)"

text \<open>Phases are always up to date, quorum is backed by the tally, configuration and ranking never change.\<close>

definition elections_inv :: "elections_config \<Rightarrow> elections \<Rightarrow> bool" where
  "elections_inv cfg st \<longleftrightarrow>
     es_cfg st = cfg \<and> es_voter_ids st = es_voter_ids (elections_new cfg) \<and>
     es_voter_index_map st = es_voter_index_map (elections_new cfg) \<and>
     (\<forall>rb e. oget (es_elections st) rb = Some e \<longrightarrow>
        el_phase e = phase_for_elapsed (ec_pipeline cfg) (elapsed_of st e) \<and>
        quorum_backed (quorum_threshold (ec_quorum_weight_fraction cfg) (ec_expected_total_weight cfg)) e)"

lemma unat_sum_list_le: "unat (sum_list (ws :: u64 list)) \<le> sum_list (map unat ws)"
proof (induction ws)
  case (Cons w ws)
  have "unat (w + sum_list ws) \<le> unat w + unat (sum_list ws)" by (simp add: unat_word_ariths)
  with Cons show ?case by simp
qed simp

lemma agg_record_vote_phase:
  assumes "oget (fst (agg_record_vote es rb voter w q tw)) rb' = Some e'"
  shows "\<exists>e. oget es rb' = Some e \<and> el_phase e' = el_phase e \<and> el_announced_slot e' = el_announced_slot e"
  using assms by (auto simp: agg_record_vote_def Let_def oget_oput split: option.splits if_splits)

lemma agg_record_vote_backed:
  assumes "oget (fst (agg_record_vote es rb voter w q tw)) rb' = Some e'"
    and "\<And>e. oget es rb' = Some e \<Longrightarrow> quorum_backed (quorum_threshold q tw) e"
  shows "quorum_backed (quorum_threshold q tw) e'"
proof (cases "rb' = rb \<and> (\<exists>e. oget es rb = Some e \<and> \<not> ohas (el_voter_weights e) voter)")
  case False
  then have "oget es rb' = Some e'"
    using assms(1) agg_record_vote_other [of rb rb' es voter w q tw]
    by (auto simp: agg_record_vote_def split: option.splits)
  then show ?thesis by (rule assms(2))
next
  case True
  then obtain e where e: "oget es rb = Some e" "\<not> ohas (el_voter_weights e) voter" and rb: "rb' = rb" by blast
  define e1 where "e1 = e\<lparr>el_voter_weights := oput voter w (el_voter_weights e)\<rparr>"
  have e': "e' = (if el_quorum_reached e \<or> voted_weight e1 < quorum_threshold q tw then e1 else e1\<lparr>el_quorum_reached := True\<rparr>)"
    using assms(1) e rb
    by (auto simp: agg_record_vote_def Let_def oget_oput e1_def split: if_splits)
  have len: "olen (el_voter_weights e1) \<noteq> 0"
    by (simp add: e1_def olen_okeys card_eq_0_iff) (use finite_ohas ohas_oput in blast)
  have up: "weight_sum e \<le> weight_sum e1"
    using e(2) by (simp add: weight_sum_def e1_def sum_ovalues_oput)
  have "unat (voted_weight e1) \<le> weight_sum e1"
    unfolding voted_weight_def weight_sum_def by (rule unat_sum_list_le)
  then have "\<not> voted_weight e1 < quorum_threshold q tw \<Longrightarrow> unat (quorum_threshold q tw) \<le> weight_sum e1"
    by (simp add: word_less_nat_alt)
  moreover have "el_quorum_reached e \<Longrightarrow> unat (quorum_threshold q tw) \<le> weight_sum e1"
    using assms(2) e rb up by (force simp: quorum_backed_def)
  moreover have "el_quorum_reached e1 = el_quorum_reached e" by (simp add: e1_def)
  ultimately show ?thesis using len by (auto simp: e' quorum_backed_def weight_sum_def)
qed

lemma quorum_backed_upd [simp]:
  "quorum_backed thr (e\<lparr>el_phase := p\<rparr>) = quorum_backed thr e"
  "quorum_backed thr (e\<lparr>el_voted := v\<rparr>) = quorum_backed thr e"
  "quorum_backed thr (e\<lparr>el_seen_slot := s\<rparr>) = quorum_backed thr e"
  "quorum_backed thr (e\<lparr>el_body_validated_locally := b\<rparr>) = quorum_backed thr e"
  by (simp_all add: quorum_backed_def weight_sum_def)

lemma not_quorum_backed: "\<not> el_quorum_reached e \<Longrightarrow> quorum_backed thr e"
  by (simp add: quorum_backed_def)

lemma elections_step_inv: "elections_step st st' \<Longrightarrow> elections_inv cfg st \<Longrightarrow> elections_inv cfg st'"
proof (induction rule: elections_step.induct)
  case (5 st rb voter w)
  define st' where "st' = fst (es_record_vote st rb voter w)"
  have es: "es_elections st' = fst (agg_record_vote (es_elections st) rb voter w
      (ec_quorum_weight_fraction cfg) (ec_expected_total_weight cfg))" "es_current_slot st' = es_current_slot st"
    "es_cfg st' = cfg" "es_voter_ids st' = es_voter_ids st" "es_voter_index_map st' = es_voter_index_map st"
    using 5 by (simp_all add: st'_def es_record_vote_def case_prod_unfold Let_def elections_inv_def)
  have "el_phase e' = phase_for_elapsed (ec_pipeline cfg) (elapsed_of st' e') \<and>
      quorum_backed (quorum_threshold (ec_quorum_weight_fraction cfg) (ec_expected_total_weight cfg)) e'"
    if "oget (es_elections st') rb' = Some e'" for rb' e'
    using agg_record_vote_phase [OF that [unfolded es(1)]] agg_record_vote_backed [OF that [unfolded es(1)]] 5
    by (auto simp: elections_inv_def elapsed_of_def es(2))
  with es 5 show ?case by (simp add: elections_inv_def flip: st'_def)
qed (auto simp: elections_inv_def announce_from_rb_def mark_body_validated_def es_on_slot_def mark_voted_def
      touch_seen_slot_def election_mut_def prune_below_slot_def Let_def elapsed_of_def
      oget_oput oget_omap_values oget_oupdate oget_oretain not_quorum_backed
      split: if_splits option.splits)

lemma elections_reachable_inv: "elections_reachable cfg st \<Longrightarrow> elections_inv cfg st"
proof (induction rule: elections_reachable.induct)
  case new
  then show ?case by (simp add: elections_inv_def elections_new_def Let_def)
qed (rule elections_step_inv)


subsection \<open>The voter ranking\<close>

lemma uint_word_eq: "uint a = uint b \<Longrightarrow> a = (b :: u64)"
  by (simp add: word_uint_eq_iff)

lemma map_of_rev_distinct: "distinct (map fst kvs) \<Longrightarrow> map_of (rev kvs) = map_of kvs"
  by (metis map_of_inject_set distinct_rev rev_map set_rev)

definition index_pairs :: "string list \<Rightarrow> (string \<times> u16) list" where
  "index_pairs ids = List.map_filter
     (\<lambda>(i, node_id). if i < 2 ^ 16 then Some (node_id, of_nat i) else None) (enumerate 0 ids)"

lemma index_pairs_eq: "index_pairs ids = map (\<lambda>i. (ids ! i, of_nat i)) [0..<min (length ids) (2 ^ 16)]"
proof -
  have f: "filter (\<lambda>i. i < m) [0..<n] = [0..<min n m]" for n m :: nat
    by (induction n) (auto simp: min_def not_le less_Suc_eq_le dest: le_antisym)
  have "index_pairs ids = map (\<lambda>(i, v). (v, of_nat i)) (filter (\<lambda>(i, v). i < 2 ^ 16) (enumerate 0 ids))"
    by (auto simp: index_pairs_def List.map_filter_def comp_def case_prod_unfold intro!: map_cong filter_cong)
  also have "enumerate 0 ids = map (\<lambda>i. (i, ids ! i)) [0..<length ids]"
    by (rule nth_equalityI) (simp_all add: nth_enumerate_eq)
  also have "map (\<lambda>(i, v). (v, of_nat i)) (filter (\<lambda>(i, v). i < 2 ^ 16) (map (\<lambda>i. (i, ids ! i)) [0..<length ids])) =
      map (\<lambda>i. (ids ! i, of_nat i :: u16)) (filter (\<lambda>i. i < 2 ^ 16) [0..<length ids])"
    by (simp add: filter_map comp_def)
  finally show ?thesis by (simp only: f)
qed

lemma index_map_lookup:
  assumes "distinct ids"
  shows "oget (oof_list (index_pairs ids)) v = Some i \<longleftrightarrow> unat i < length ids \<and> ids ! unat i = v"
proof -
  have "map fst (index_pairs ids) = take (min (length ids) (2 ^ 16)) ids"
    by (rule nth_equalityI) (simp_all add: index_pairs_eq)
  then have d: "distinct (map fst (index_pairs ids))" using assms by simp
  have "oget (oof_list (index_pairs ids)) v = Some i \<longleftrightarrow> (v, i) \<in> set (index_pairs ids)"
    using d by (simp add: oget_oof_list map_of_rev_distinct map_of_eq_Some_iff)
  also have "\<dots> \<longleftrightarrow> (\<exists>n < min (length ids) (2 ^ 16). v = ids ! n \<and> i = of_nat n)"
    by (auto simp: index_pairs_eq)
  also have "\<dots> \<longleftrightarrow> unat i < length ids \<and> ids ! unat i = v"
  proof
    assume "\<exists>n < min (length ids) (2 ^ 16). v = ids ! n \<and> i = of_nat n"
    then show "unat i < length ids \<and> ids ! unat i = v" by (auto simp: unat_of_nat)
  next
    assume "unat i < length ids \<and> ids ! unat i = v"
    then show "\<exists>n < min (length ids) (2 ^ 16). v = ids ! n \<and> i = of_nat n"
      using unsigned_less [of i] by (intro exI [of _ "unat i"]) auto
  qed
  finally show ?thesis .
qed


lemma distinct_voter_ids: "distinct (es_voter_ids (elections_new cfg))"
  by (simp add: elections_new_def Let_def)

lemma voter_index_map_eq: "es_voter_index_map (elections_new cfg) = oof_list (index_pairs (es_voter_ids (elections_new cfg)))"
  by (simp add: elections_new_def index_pairs_def Let_def)

text \<open>The compact voter index. In every reachable election state the two lookups are inverse to each
  other: index \<open>i\<close> resolves to a node exactly if that node's index is \<open>i\<close>. The ranking is by stake
  descending with an ascending node id as tie-break, and it holds exactly the registered nodes.\<close>

theorem voter_index_roundtrip:
  assumes "elections_reachable cfg st"
  shows "(voter_id_at st i = Some v \<longleftrightarrow> voter_index st v = Some i) \<and>
    set (es_voter_ids st) = {v. ohas (ec_stake_registry cfg) v} \<and>
    (\<forall>a b. a < b \<and> b < length (es_voter_ids st) \<longrightarrow>
       (let sa = registry_stake (ec_stake_registry cfg) (es_voter_ids st ! a);
            sb = registry_stake (ec_stake_registry cfg) (es_voter_ids st ! b)
        in sb < sa \<or> sb = sa \<and> es_voter_ids st ! a < es_voter_ids st ! b))"
proof -
  note inv = elections_reachable_inv [OF assms]
  define ids where "ids = es_voter_ids (elections_new cfg)"
  define key where "key = voter_key_order (ec_stake_registry cfg)"
  have st: "es_voter_ids st = ids" "es_voter_index_map st = oof_list (index_pairs ids)"
    using inv by (simp_all add: elections_inv_def ids_def voter_index_map_eq)
  have d: "distinct ids" unfolding ids_def by (rule distinct_voter_ids)
  have ids: "ids = sort_key key (okeys (ec_stake_registry cfg))"
    by (simp add: ids_def elections_new_def key_def Let_def)
  have round: "voter_id_at st i = Some v \<longleftrightarrow> voter_index st v = Some i"
    by (simp add: voter_id_at_def voter_index_def st index_map_lookup [OF d])
  have set: "set ids = {v. ohas (ec_stake_registry cfg) v}" by (simp add: ids set_okeys)
  have inj: "key x = key y \<Longrightarrow> x = y" for x y by (simp add: key_def voter_key_order_def)
  have sorted: "key (ids ! a) < key (ids ! b)" if "a < b" "b < length ids" for a b
  proof -
    have "sorted (map key ids)" by (simp add: ids)
    then have "key (ids ! a) \<le> key (ids ! b)" using that by (simp add: sorted_iff_nth_mono)
    moreover have "ids ! a \<noteq> ids ! b" using d that by (simp add: nth_eq_iff_index_eq)
    ultimately show ?thesis using inj [of "ids ! a" "ids ! b"] by (auto simp: order_less_le)
  qed
  have order: "key x < key y \<Longrightarrow> (let sx = registry_stake (ec_stake_registry cfg) x; sy = registry_stake (ec_stake_registry cfg) y
      in sy < sx \<or> sy = sx \<and> x < y)" for x y
    by (auto simp: key_def voter_key_order_def word_less_def Let_def less_prod_def uint_word_eq)
  show ?thesis using round set sorted order by (simp add: st)
qed

definition sample_cfg :: elections_config where
  "sample_cfg =
     \<lparr>ec_pipeline = \<lparr>pl_delta_hdr = 1, pl_vote_window = 4, pl_diffuse_window = 7, pl_dedup_window = 50\<rparr>,
      ec_committee_selection = EveryoneVotes, ec_persistent_committee = oput ''b'' 1 (oput ''a'' 1 oempty),
      ec_stake_registry = oput ''b'' 9 (oput ''a'' 5 oempty), ec_total_stake = 14,
      ec_expected_total_weight = 2, ec_quorum_weight_fraction = Fin (3 / 4)\<rparr>"

theorem voter_index_roundtrip_witness:
  "elections_reachable sample_cfg (elections_new sample_cfg) \<and>
   (voter_id_at (elections_new sample_cfg) 0 = Some ''b'' \<longleftrightarrow> voter_index (elections_new sample_cfg) ''b'' = Some 0)"
  using voter_index_roundtrip [OF elections_reachable.new, of sample_cfg 0 "''b''"] elections_reachable.new by blast


subsection \<open>Slot ticks and certificates\<close>

lemma on_slot_effects_eq:
  "snd (es_on_slot st slot) =
     map (\<lambda>(rb, e). EligibleToVote rb (el_eb_hash e) (el_announced_slot e) (el_seen_slot e))
       (filter (\<lambda>(rb, e). \<not> el_voted e \<and>
            phase_for_elapsed (ec_pipeline (es_cfg st)) (saturating_sub slot (el_announced_slot e)) = VotingPhase)
          (entries (es_elections st)))"
  by (auto simp: es_on_slot_def Let_def List.map_filter_def comp_def case_prod_unfold intro!: map_cong filter_cong)

lemma okeys_filter: "map fst (filter (\<lambda>(k, v). P k v) (entries m)) = filter (\<lambda>k. \<exists>v. oget m k = Some v \<and> P k v) (okeys m)"
  unfolding okeys_def filter_map comp_def
  by (rule arg_cong [of _ _ "map fst"], rule filter_cong) (auto simp: in_entries_iff)

text \<open>Who is asked to vote. On a slot tick, exactly the elections that are in their voting phase at that
  slot and in which this node has not voted yield an \<open>EligibleToVote\<close>, once each, in the order of the
  announcing block's hash; nothing else is emitted; every election is moved to the phase of the new
  slot; and after \<open>mark_voted\<close> for a block, no later tick asks for that block again.\<close>

theorem on_slot_effect:
  "map se_rb_hash (snd (es_on_slot st slot)) =
     filter (\<lambda>rb. \<exists>e. oget (es_elections st) rb = Some e \<and> \<not> el_voted e \<and>
               phase_for_elapsed (ec_pipeline (es_cfg st)) (saturating_sub slot (el_announced_slot e)) = VotingPhase)
       (okeys (es_elections st)) \<and>
   set (snd (es_on_slot st slot)) \<subseteq>
     {EligibleToVote rb (el_eb_hash e) (el_announced_slot e) (el_seen_slot e) | rb e. oget (es_elections st) rb = Some e} \<and>
   (\<forall>rb. es_phase (fst (es_on_slot st slot)) rb = map_option
      (\<lambda>e. phase_for_elapsed (ec_pipeline (es_cfg st)) (saturating_sub slot (el_announced_slot e)))
      (oget (es_elections st) rb)) \<and>
   rb0 \<notin> se_rb_hash ` set (snd (es_on_slot (mark_voted st rb0) slot))"
proof (intro conjI)
  show "map se_rb_hash (snd (es_on_slot st slot)) =
     filter (\<lambda>rb. \<exists>e. oget (es_elections st) rb = Some e \<and> \<not> el_voted e \<and>
               phase_for_elapsed (ec_pipeline (es_cfg st)) (saturating_sub slot (el_announced_slot e)) = VotingPhase)
       (okeys (es_elections st))"
    unfolding okeys_filter [symmetric] on_slot_effects_eq by (simp add: comp_def case_prod_unfold)
  show "set (snd (es_on_slot st slot)) \<subseteq>
     {EligibleToVote rb (el_eb_hash e) (el_announced_slot e) (el_seen_slot e) | rb e. oget (es_elections st) rb = Some e}"
    by (fastforce simp: on_slot_effects_eq in_entries_iff)
  show "\<forall>rb. es_phase (fst (es_on_slot st slot)) rb = map_option
      (\<lambda>e. phase_for_elapsed (ec_pipeline (es_cfg st)) (saturating_sub slot (el_announced_slot e)))
      (oget (es_elections st) rb)"
    by (simp add: es_phase_def es_on_slot_def Let_def oget_omap_values option.map_comp comp_def)
  show "rb0 \<notin> se_rb_hash ` set (snd (es_on_slot (mark_voted st rb0) slot))"
    by (auto simp: on_slot_effects_eq in_entries_iff mark_voted_def oget_oupdate)
qed

text \<open>C6: What a certificate stands for. In every reachable election state whose pipeline windows do not
  overflow, an announcing block is certifiable exactly if its election is at quorum and the
  equivocation, voting and diffusion windows have all elapsed since it was announced; and then
  distinct voters were recorded whose weights, summed without wrap-around, reach the quorum threshold.\<close>

theorem certifiable_has_quorum:
  assumes "elections_reachable cfg st"
    and "3 * unat (pl_delta_hdr (ec_pipeline cfg)) + unat (pl_vote_window (ec_pipeline cfg)) +
         unat (pl_diffuse_window (ec_pipeline cfg)) < 2 ^ 64"
  shows "(eb_certifiable_slot st rb = Some s \<longleftrightarrow>
      (\<exists>e. oget (es_elections st) rb = Some e \<and> s = el_announced_slot e \<and> el_quorum_reached e \<and>
         3 * unat (pl_delta_hdr (ec_pipeline cfg)) + unat (pl_vote_window (ec_pipeline cfg)) +
           unat (pl_diffuse_window (ec_pipeline cfg)) \<le> unat (es_current_slot st) - unat s)) \<and>
    (eb_certifiable_slot st rb = Some s \<longrightarrow>
      (\<exists>e. oget (es_elections st) rb = Some e \<and> 0 < voter_count st rb \<and>
         unat (quorum_threshold (ec_quorum_weight_fraction cfg) (ec_expected_total_weight cfg)) \<le> weight_sum e))"
proof -
  note inv = elections_reachable_inv [OF assms(1)]
  have ph: "el_phase e = CertEligible \<longleftrightarrow>
      3 * unat (pl_delta_hdr (ec_pipeline cfg)) + unat (pl_vote_window (ec_pipeline cfg)) +
        unat (pl_diffuse_window (ec_pipeline cfg)) \<le> unat (es_current_slot st) - unat (el_announced_slot e)"
    if "oget (es_elections st) rb = Some e" for e
    using inv that phase_windows [OF assms(2) order_refl, of "elapsed_of st e"]
    by (simp add: elections_inv_def elapsed_of_def unat_saturating_sub)
  have backed: "el_quorum_reached e \<Longrightarrow> 0 < voter_count st rb \<and>
      unat (quorum_threshold (ec_quorum_weight_fraction cfg) (ec_expected_total_weight cfg)) \<le> weight_sum e"
    if "oget (es_elections st) rb = Some e" for e
    using inv that by (auto simp: elections_inv_def quorum_backed_def voter_count_def)
  show ?thesis
    using ph backed by (auto simp: eb_certifiable_slot_def split: option.splits if_splits)
qed

text \<open>Both voters vote for an announcing block, then fourteen slots pass.\<close>

definition sample_elections :: elections where
  "sample_elections =
     fst (es_on_slot (fst (es_record_vote (fst (es_record_vote
       (fst (announce_from_rb (elections_new sample_cfg) 21 0 77)) 21 [1] 1)) 21 [2] 1)) 14)"

lemma sample_elections_reachable: "elections_reachable sample_cfg sample_elections"
  unfolding sample_elections_def
  by (rule elections_reachable.step [OF _ elections_step.intros(3)]
      elections_reachable.step [OF _ elections_step.intros(5)]
      elections_reachable.step [OF _ elections_step.intros(1)] elections_reachable.new)+

lemma sample_threshold: "quorum_threshold (Fin (3 / 4)) 2 \<le> 2"
  using quorum_threshold_error [of "3 / 4" 2] small_pow2 by simp

lemma sample_elections_quorum:
  "\<exists>e. oget (es_elections sample_elections) 21 = Some e \<and> el_quorum_reached e \<and> el_announced_slot e = 0"
  using sample_threshold
  by (auto simp: sample_elections_def es_on_slot_def es_record_vote_def agg_record_vote_def announce_from_rb_def
      elections_new_def sample_cfg_def Let_def oget_omap_values oget_oput case_prod_unfold voted_weight_def
      ovalues_def ohas_def)

theorem certifiable_has_quorum_witness:
  "elections_reachable sample_cfg sample_elections \<and> eb_certifiable_slot sample_elections 21 = Some 0 \<and>
   0 < voter_count sample_elections 21"
proof -
  have w: "3 * unat (pl_delta_hdr (ec_pipeline sample_cfg)) + unat (pl_vote_window (ec_pipeline sample_cfg)) +
     unat (pl_diffuse_window (ec_pipeline sample_cfg)) = 14"
    by (simp add: sample_cfg_def)
  have "es_current_slot sample_elections = 14" by (simp add: sample_elections_def es_on_slot_def Let_def)
  then show ?thesis
    using certifiable_has_quorum [OF sample_elections_reachable, of 21 0] sample_elections_quorum
      sample_elections_reachable w by auto
qed

text \<open>The tick's effects follow the announcing block's hash, not the endorser block's.\<close>

lemma on_slot_not_sorted_by_eb_hash:
  "map se_eb_hash (snd (es_on_slot
     (fst (announce_from_rb (fst (announce_from_rb (elections_new sample_cfg) 1 0 9)) 2 0 5)) 4)) = [9, 5]"
  by (simp add: on_slot_effects_eq announce_from_rb_def elections_new_def Let_def sample_cfg_def
      phase_for_elapsed_def saturating_sub_def)

end
