(* ===== verification/Mini_Protocol.thy ===== *)
theory Mini_Protocol
  imports Prelude
begin

text \<open>
  \<open>net-rs/net-core/src/protocols/protocol.rs\<close>: the framework of the mini-protocols. A protocol says
  which side has agency in each state and which message leads where; the \<open>Runner\<close> tracks the
  state of one side and checks agency, size limit and transition on every message.

  \<^item> \<open>Protocol\<close> is the record \<open>protocol\<close> of the trait's functions. \<open>ProtocolError\<close>'s texts are left out.
  \<^item> The codec under the runner is an event per receive: after a delay, a decoded message with its
    wire size, or a failure of the multiplexer; a timed receive fails if the delay exceeds the
    state's timeout. A send either reaches the channel or fails. \<open>rn_sent\<close> is the sequence of messages
    handed to the channel. Durations are in seconds.
  \<^item> Every operation returns its result with the runner, whose state is unchanged on an error.

  The locale \<open>mini_protocol\<close> is the contract of a protocol definition. Inside it the session theorem
  is proved once: two runners connected by two reliable ordered channels never see an agency or
  transition error, and never deadlock before the protocol is over.
\<close>

datatype agency = Client | Server | Nobody

datatype role = RClient | RServer

datatype mux_error =
    Io
  | IngressOverflow nat nat nat
  | IngressChannelFull nat nat nat
  | MuxMessageTooLarge nat nat
  | UnknownProtocol nat
  | Shutdown
  | SduTimeout nat

datatype protocol_error =
    AgencyViolation role agency
  | InvalidMessage
  | Timeout nat
  | MessageTooLarge nat nat
  | Terminated
  | Mux mux_error

record ('s, 'm) protocol =
  p_initial_state :: 's
  p_agency :: "'s \<Rightarrow> agency"
  p_transition :: "'s \<Rightarrow> 'm \<Rightarrow> protocol_error + 's"
  p_size_limit :: "'s \<Rightarrow> nat"
  p_timeout :: "'s \<Rightarrow> nat option"

record ('s, 'm) runner =
  rn_role :: role
  rn_state :: 's
  rn_sent :: "'m list"

datatype 'm recv_event = Decoded (ev_delay: nat) 'm nat | RecvFailed (ev_delay: nat) mux_error

definition timed_out :: "nat option \<Rightarrow> 'm recv_event \<Rightarrow> bool" where
  "timed_out timeout ev = (case timeout of Some d \<Rightarrow> d < ev_delay ev | None \<Rightarrow> False)"

fun owns :: "agency \<Rightarrow> role \<Rightarrow> bool" where
  "owns Client RClient = True"
| "owns Server RServer = True"
| "owns _ _ = False"

fun peer_owns :: "agency \<Rightarrow> role \<Rightarrow> bool" where
  "peer_owns Client RServer = True"
| "peer_owns Server RClient = True"
| "peer_owns _ _ = False"

text \<open>\<open>Runner::new\<close> panics on a zero size limit: \<open>None\<close>.\<close>

definition runner_new :: "('s, 'm) protocol \<Rightarrow> role \<Rightarrow> ('s, 'm) runner option" where
  "runner_new p r =
     (if p_size_limit p (p_initial_state p) > 0
      then Some \<lparr>rn_role = r, rn_state = p_initial_state p, rn_sent = []\<rparr> else None)"

definition has_agency :: "('s, 'm) protocol \<Rightarrow> ('s, 'm) runner \<Rightarrow> bool" where
  "has_agency p r \<longleftrightarrow> owns (p_agency p (rn_state r)) (rn_role r)"

definition is_done :: "('s, 'm) protocol \<Rightarrow> ('s, 'm) runner \<Rightarrow> bool" where
  "is_done p r \<longleftrightarrow> p_agency p (rn_state r) = Nobody"

definition runner_send ::
  "('s, 'm) protocol \<Rightarrow> mux_error option \<Rightarrow> ('s, 'm) runner \<Rightarrow> 'm \<Rightarrow> (protocol_error + unit) \<times> ('s, 'm) runner" where
  "runner_send p failure r msg =
     (let a = p_agency p (rn_state r)
      in if a = Nobody then (Inl Terminated, r)
         else if \<not> owns a (rn_role r) then (Inl (AgencyViolation (rn_role r) a), r)
         else case p_transition p (rn_state r) msg of
                Inl e \<Rightarrow> (Inl e, r)
              | Inr next_state \<Rightarrow>
                  (case failure of
                     Some e \<Rightarrow> (Inl (Mux e), r)
                   | None \<Rightarrow> (Inr (), r\<lparr>rn_state := next_state, rn_sent := rn_sent r @ [msg]\<rparr>)))"

definition recv_inner ::
  "('s, 'm) protocol \<Rightarrow> nat option \<Rightarrow> ('s, 'm) runner \<Rightarrow> 'm recv_event \<Rightarrow> (protocol_error + 'm) \<times> ('s, 'm) runner" where
  "recv_inner p timeout r ev =
     (let a = p_agency p (rn_state r)
      in if a = Nobody then (Inl Terminated, r)
         else if \<not> peer_owns a (rn_role r) then (Inl (AgencyViolation (rn_role r) a), r)
         else if timed_out timeout ev then (Inl (Timeout (the timeout)), r)
         else case ev of
                RecvFailed _ e \<Rightarrow> (Inl (Mux e), r)
              | Decoded _ msg sz \<Rightarrow>
                  if sz > p_size_limit p (rn_state r)
                  then (Inl (Mux (MuxMessageTooLarge sz (p_size_limit p (rn_state r)))), r)
                  else (case p_transition p (rn_state r) msg of
                          Inl e \<Rightarrow> (Inl e, r)
                        | Inr next_state \<Rightarrow> (Inr msg, r\<lparr>rn_state := next_state\<rparr>)))"

definition runner_recv ::
  "('s, 'm) protocol \<Rightarrow> ('s, 'm) runner \<Rightarrow> 'm recv_event \<Rightarrow> (protocol_error + 'm) \<times> ('s, 'm) runner" where
  "runner_recv p r ev = recv_inner p (p_timeout p (rn_state r)) r ev"

definition recv_untimed ::
  "('s, 'm) protocol \<Rightarrow> ('s, 'm) runner \<Rightarrow> 'm recv_event \<Rightarrow> (protocol_error + 'm) \<times> ('s, 'm) runner" where
  "recv_untimed p r ev = recv_inner p None r ev"

subsection \<open>What a successful operation says\<close>

lemma owns_simps [simp]: "owns a RClient \<longleftrightarrow> a = Client" "owns a RServer \<longleftrightarrow> a = Server"
  by (cases a; simp)+

lemma peer_owns_simps [simp]: "peer_owns a RClient \<longleftrightarrow> a = Server" "peer_owns a RServer \<longleftrightarrow> a = Client"
  by (cases a; simp)+

lemma runner_send_ok:
  "runner_send p f r msg = (Inr (), r') \<longleftrightarrow>
     f = None \<and> owns (p_agency p (rn_state r)) (rn_role r) \<and>
     (\<exists>s'. p_transition p (rn_state r) msg = Inr s' \<and> r' = r\<lparr>rn_state := s', rn_sent := rn_sent r @ [msg]\<rparr>)"
  by (cases "rn_role r") (auto simp: runner_send_def Let_def split: sum.splits option.splits)

lemma recv_inner_ok:
  "recv_inner p t r ev = (Inr msg, r') \<longleftrightarrow>
     peer_owns (p_agency p (rn_state r)) (rn_role r) \<and>
     (\<exists>dl sz s'. ev = Decoded dl msg sz \<and> \<not> timed_out t ev \<and> sz \<le> p_size_limit p (rn_state r) \<and>
        p_transition p (rn_state r) msg = Inr s' \<and> r' = r\<lparr>rn_state := s'\<rparr>)"
  by (cases "rn_role r"; cases ev) (auto simp: recv_inner_def Let_def split: sum.splits option.splits)

lemma runner_recv_ok:
  "runner_recv p r ev = (Inr msg, r') \<longleftrightarrow>
     peer_owns (p_agency p (rn_state r)) (rn_role r) \<and>
     (\<exists>dl sz s'. ev = Decoded dl msg sz \<and> \<not> timed_out (p_timeout p (rn_state r)) ev \<and> sz \<le> p_size_limit p (rn_state r) \<and>
        p_transition p (rn_state r) msg = Inr s' \<and> r' = r\<lparr>rn_state := s'\<rparr>)"
  by (simp add: runner_recv_def recv_inner_ok)

lemma error_keeps_runner:
  "fst (runner_send p f r msg) = Inl e \<Longrightarrow> snd (runner_send p f r msg) = r"
  "fst (runner_recv p r ev) = Inl e' \<Longrightarrow> snd (runner_recv p r ev) = r"
  by (auto simp: runner_send_def runner_recv_def recv_inner_def Let_def
      split: sum.splits option.splits if_splits recv_event.splits)

subsection \<open>Two runners and two channels\<close>

record ('s, 'm) session =
  ss_client :: "('s, 'm) runner"
  ss_server :: "('s, 'm) runner"
  ss_to_server :: "'m list"
  ss_to_client :: "'m list"

definition session_start :: "('s, 'm) protocol \<Rightarrow> ('s, 'm) session" where
  "session_start p =
     \<lparr>ss_client = \<lparr>rn_role = RClient, rn_state = p_initial_state p, rn_sent = []\<rparr>,
      ss_server = \<lparr>rn_role = RServer, rn_state = p_initial_state p, rn_sent = []\<rparr>,
      ss_to_server = [], ss_to_client = []\<rparr>"

text \<open>A side sends what its runner accepts, or receives the oldest message in flight to it.\<close>

inductive session_step :: "('s, 'm) protocol \<Rightarrow> ('s, 'm) session \<Rightarrow> ('s, 'm) session \<Rightarrow> bool" for p where
  client_send: "runner_send p None (ss_client s) msg = (Inr (), c') \<Longrightarrow>
     session_step p s (s\<lparr>ss_client := c', ss_to_server := ss_to_server s @ [msg]\<rparr>)"
| server_send: "runner_send p None (ss_server s) msg = (Inr (), v') \<Longrightarrow>
     session_step p s (s\<lparr>ss_server := v', ss_to_client := ss_to_client s @ [msg]\<rparr>)"
| client_recv: "ss_to_client s = msg # rest \<Longrightarrow> runner_recv p (ss_client s) (Decoded dl msg sz) = (Inr msg, c') \<Longrightarrow>
     session_step p s (s\<lparr>ss_client := c', ss_to_client := rest\<rparr>)"
| server_recv: "ss_to_server s = msg # rest \<Longrightarrow> runner_recv p (ss_server s) (Decoded dl msg sz) = (Inr msg, v') \<Longrightarrow>
     session_step p s (s\<lparr>ss_server := v', ss_to_server := rest\<rparr>)"

inductive session_reachable :: "('s, 'm) protocol \<Rightarrow> ('s, 'm) session \<Rightarrow> bool" for p where
  start: "session_reachable p (session_start p)"
| step: "session_reachable p s \<Longrightarrow> session_step p s s' \<Longrightarrow> session_reachable p s'"

text \<open>The state a receiver will be in after the messages in flight, if the sender kept agency throughout.\<close>

fun path :: "('s, 'm) protocol \<Rightarrow> agency \<Rightarrow> 's \<Rightarrow> 'm list \<Rightarrow> 's option" where
  "path p a s [] = Some s"
| "path p a s (m # ms) =
     (if p_agency p s = a then (case p_transition p s m of Inl _ \<Rightarrow> None | Inr s' \<Rightarrow> path p a s' ms) else None)"

lemma path_append: "path p a s (xs @ ys) = (case path p a s xs of None \<Rightarrow> None | Some s' \<Rightarrow> path p a s' ys)"
  by (induction p a s xs rule: path.induct) (auto split: sum.splits)

definition session_inv :: "('s, 'm) protocol \<Rightarrow> ('s, 'm) session \<Rightarrow> bool" where
  "session_inv p s \<longleftrightarrow>
     rn_role (ss_client s) = RClient \<and> rn_role (ss_server s) = RServer \<and>
     (ss_to_client s = [] \<and> path p Client (rn_state (ss_server s)) (ss_to_server s) = Some (rn_state (ss_client s)) \<or>
      ss_to_server s = [] \<and> path p Server (rn_state (ss_client s)) (ss_to_client s) = Some (rn_state (ss_server s)))"

lemma path_head:
  assumes "path p a s (m # ms) = Some t"
  shows "p_agency p s = a \<and> (\<exists>s'. p_transition p s m = Inr s' \<and> path p a s' ms = Some t)"
  using assms by (auto split: if_splits sum.splits)

lemma path_snoc:
  assumes "path p a s ms = Some t" and "p_agency p t = a" and "p_transition p t m = Inr t'"
  shows "path p a s (ms @ [m]) = Some t'"
  using assms by (simp add: path_append)

lemma path_sender_no_agency:
  assumes "path p a s ms = Some t" and "p_agency p s \<noteq> a"
  shows "ms = [] \<and> t = s"
  using assms by (cases ms) auto

lemma session_step_inv: "session_step p s s' \<Longrightarrow> session_inv p s \<Longrightarrow> session_inv p s'"
proof (induction rule: session_step.induct)
  case (client_send s msg c')
  then obtain t where t: "p_agency p (rn_state (ss_client s)) = Client" "p_transition p (rn_state (ss_client s)) msg = Inr t"
      "rn_state c' = t" "rn_role c' = RClient"
    by (auto simp: runner_send_ok session_inv_def)
  from client_send(2) consider
      "ss_to_client s = []" "path p Client (rn_state (ss_server s)) (ss_to_server s) = Some (rn_state (ss_client s))"
    | "ss_to_server s = []" "path p Server (rn_state (ss_client s)) (ss_to_client s) = Some (rn_state (ss_server s))"
    by (auto simp: session_inv_def)
  then show ?case
  proof cases
    case 1
    then show ?thesis using client_send(2) t path_snoc [OF 1(2) t(1,2)] by (simp add: session_inv_def)
  next
    case 2
    then have "ss_to_client s = []" "rn_state (ss_server s) = rn_state (ss_client s)"
      using path_sender_no_agency [OF 2(2)] t(1) by auto
    then show ?thesis using client_send(2) t 2(1) by (simp add: session_inv_def)
  qed
next
  case (server_send s msg v')
  then obtain t where t: "p_agency p (rn_state (ss_server s)) = Server" "p_transition p (rn_state (ss_server s)) msg = Inr t"
      "rn_state v' = t" "rn_role v' = RServer"
    by (auto simp: runner_send_ok session_inv_def)
  from server_send(2) consider
      "ss_to_server s = []" "path p Server (rn_state (ss_client s)) (ss_to_client s) = Some (rn_state (ss_server s))"
    | "ss_to_client s = []" "path p Client (rn_state (ss_server s)) (ss_to_server s) = Some (rn_state (ss_client s))"
    by (auto simp: session_inv_def)
  then show ?case
  proof cases
    case 1
    then show ?thesis using server_send(2) t path_snoc [OF 1(2) t(1,2)] by (simp add: session_inv_def)
  next
    case 2
    then have "ss_to_server s = []" "rn_state (ss_client s) = rn_state (ss_server s)"
      using path_sender_no_agency [OF 2(2)] t(1) by auto
    then show ?thesis using server_send(2) t 2(1) by (simp add: session_inv_def)
  qed
next
  case (client_recv s msg rest dl sz c')
  then have "path p Server (rn_state (ss_client s)) (msg # rest) = Some (rn_state (ss_server s))" "ss_to_server s = []"
    by (auto simp: session_inv_def)
  from path_head [OF this(1)] this(2) client_recv show ?case
    by (auto simp: runner_recv_ok session_inv_def)
next
  case (server_recv s msg rest dl sz v')
  then have "path p Client (rn_state (ss_server s)) (msg # rest) = Some (rn_state (ss_client s))" "ss_to_client s = []"
    by (auto simp: session_inv_def)
  from path_head [OF this(1)] this(2) server_recv show ?case
    by (auto simp: runner_recv_ok session_inv_def)
qed

lemma session_reachable_inv: "session_reachable p s \<Longrightarrow> session_inv p s"
proof (induction rule: session_reachable.induct)
  case start
  then show ?case by (simp add: session_inv_def session_start_def)
qed (rule session_step_inv)

subsection \<open>The contract of a protocol definition\<close>

text \<open>
  Terminal states have no exits, every other state has one, and every state a message can be
  received in has a positive size limit.
\<close>

locale mini_protocol =
  fixes p :: "('s, 'm) protocol"
  assumes terminal: "p_agency p s = Nobody \<Longrightarrow> p_transition p s m = Inl InvalidMessage"
    and live: "p_agency p s \<noteq> Nobody \<Longrightarrow> \<exists>m s'. p_transition p s m = Inr s'"
    and limit: "p_agency p s \<noteq> Nobody \<Longrightarrow> p_size_limit p s > 0"
    and startable: "p_agency p (p_initial_state p) \<noteq> Nobody"
begin

lemma new_runner: "\<exists>r. runner_new p rl = Some r \<and> rn_state r = p_initial_state p \<and> rn_role r = rl"
  using limit [OF startable] by (simp add: runner_new_def)

lemma prompt: "\<not> timed_out t (Decoded 0 m sz)"
  by (simp add: timed_out_def split: option.splits)

text \<open>A message in flight is always acceptable to its receiver, within the size limit and the timeout.\<close>

lemma in_flight_accepted:
  assumes "session_reachable p s"
  shows "ss_to_client s = m # rest \<Longrightarrow> sz \<le> p_size_limit p (rn_state (ss_client s)) \<Longrightarrow>
      \<not> timed_out (p_timeout p (rn_state (ss_client s))) (Decoded dl m sz) \<Longrightarrow>
      \<exists>c'. runner_recv p (ss_client s) (Decoded dl m sz) = (Inr m, c')"
    and "ss_to_server s = m # rest \<Longrightarrow> sz \<le> p_size_limit p (rn_state (ss_server s)) \<Longrightarrow>
      \<not> timed_out (p_timeout p (rn_state (ss_server s))) (Decoded dl m sz) \<Longrightarrow>
      \<exists>v'. runner_recv p (ss_server s) (Decoded dl m sz) = (Inr m, v')"
  using session_reachable_inv [OF assms]
  by (auto simp: session_inv_def runner_recv_ok split: if_splits sum.splits)

text \<open>Only one direction carries messages at a time, and quiescent sides agree on the state.\<close>

lemma half_duplex:
  assumes "session_reachable p s"
  shows "ss_to_client s = [] \<or> ss_to_server s = []"
    and "ss_to_client s = [] \<Longrightarrow> ss_to_server s = [] \<Longrightarrow> rn_state (ss_client s) = rn_state (ss_server s)"
  using session_reachable_inv [OF assms] by (auto simp: session_inv_def)

lemma step_if_in_flight:
  assumes "session_reachable p s" and "ss_to_client s \<noteq> [] \<or> ss_to_server s \<noteq> []"
  shows "\<exists>s'. session_step p s s'"
proof (cases "ss_to_client s")
  case (Cons m rest)
  with in_flight_accepted(1) [OF assms(1) Cons order_refl prompt] show ?thesis
    by (auto intro: session_step.client_recv)
next
  case Nil
  then obtain m rest where "ss_to_server s = m # rest" using assms(2) by (cases "ss_to_server s") auto
  with in_flight_accepted(2) [OF assms(1) this order_refl prompt] show ?thesis
    by (auto intro: session_step.server_recv)
qed

text \<open>Progress: either the protocol is over on both sides with nothing in flight, or a step is possible.\<close>

lemma progress:
  assumes "session_reachable p s"
  shows "(\<exists>s'. session_step p s s') \<or>
    is_done p (ss_client s) \<and> is_done p (ss_server s) \<and> ss_to_client s = [] \<and> ss_to_server s = []"
proof (cases "ss_to_client s = [] \<and> ss_to_server s = []")
  case False
  then show ?thesis using step_if_in_flight [OF assms] by blast
next
  case True
  then have eq: "rn_state (ss_client s) = rn_state (ss_server s)" using half_duplex(2) [OF assms] by blast
  have roles: "rn_role (ss_client s) = RClient" "rn_role (ss_server s) = RServer"
    using session_reachable_inv [OF assms] by (auto simp: session_inv_def)
  show ?thesis
  proof (cases "p_agency p (rn_state (ss_client s))")
    case Client
    then obtain m s' where "p_transition p (rn_state (ss_client s)) m = Inr s'"
      using live [of "rn_state (ss_client s)"] by auto
    then have "\<exists>c'. runner_send p None (ss_client s) m = (Inr (), c')"
      using Client roles by (simp add: runner_send_ok)
    then show ?thesis by (auto intro: session_step.client_send)
  next
    case Server
    then obtain m s' where "p_transition p (rn_state (ss_server s)) m = Inr s'"
      using live [of "rn_state (ss_server s)"] eq by auto
    then have "\<exists>v'. runner_send p None (ss_server s) m = (Inr (), v')"
      using Server roles eq by (simp add: runner_send_ok)
    then show ?thesis by (auto intro: session_step.server_send)
  next
    case Nobody
    then show ?thesis using True eq by (simp add: is_done_def)
  qed
qed

text \<open>Once over, a session is closed: no side can send, and no side sees a message.\<close>

lemma over_is_final:
  assumes "session_reachable p s" and "is_done p (ss_client s)" and "is_done p (ss_server s)"
  shows "\<not> session_step p s s'"
  using assms session_reachable_inv [OF assms(1)]
  by (auto simp: is_done_def session_inv_def runner_send_ok runner_recv_ok elim!: session_step.cases)

end

text \<open>What the session theorem promises of a session state.\<close>

definition session_safe :: "('s, 'm) protocol \<Rightarrow> ('s, 'm) session \<Rightarrow> bool" where
  "session_safe p s \<longleftrightarrow>
     (ss_to_client s = [] \<or> ss_to_server s = []) \<and>
     (ss_to_client s = [] \<and> ss_to_server s = [] \<longrightarrow> rn_state (ss_client s) = rn_state (ss_server s)) \<and>
     (\<forall>m rest dl sz. ss_to_client s = m # rest \<and> sz \<le> p_size_limit p (rn_state (ss_client s)) \<and>
        \<not> timed_out (p_timeout p (rn_state (ss_client s))) (Decoded dl m sz) \<longrightarrow>
        (\<exists>c'. runner_recv p (ss_client s) (Decoded dl m sz) = (Inr m, c'))) \<and>
     (\<forall>m rest dl sz. ss_to_server s = m # rest \<and> sz \<le> p_size_limit p (rn_state (ss_server s)) \<and>
        \<not> timed_out (p_timeout p (rn_state (ss_server s))) (Decoded dl m sz) \<longrightarrow>
        (\<exists>v'. runner_recv p (ss_server s) (Decoded dl m sz) = (Inr m, v'))) \<and>
     ((\<exists>s'. session_step p s s') \<or>
      is_done p (ss_client s) \<and> is_done p (ss_server s) \<and> ss_to_client s = [] \<and> ss_to_server s = [])"

context mini_protocol
begin

lemma reachable_session_safe: "session_reachable p s \<Longrightarrow> session_safe p s"
  unfolding session_safe_def
  using half_duplex [of s] in_flight_accepted [of s] progress [of s] by blast

end

text \<open>One request followed by one reply, the shape of the client helpers.\<close>

definition exchange ::
  "('s, 'm) protocol \<Rightarrow> mux_error option \<Rightarrow> ('s, 'm) runner \<Rightarrow> 'm \<Rightarrow> 'm recv_event \<Rightarrow> (protocol_error + 'm) \<times> ('s, 'm) runner" where
  "exchange p failure r msg ev =
     (case runner_send p failure r msg of
        (Inl e, r1) \<Rightarrow> (Inl e, r1)
      | (Inr _, r1) \<Rightarrow> runner_recv p r1 ev)"

lemma exchange_ok:
  "exchange p f r msg ev = (Inr reply, r') \<longleftrightarrow>
     f = None \<and> owns (p_agency p (rn_state r)) (rn_role r) \<and>
     (\<exists>s1 s2 dl sz. p_transition p (rn_state r) msg = Inr s1 \<and> peer_owns (p_agency p s1) (rn_role r) \<and>
        ev = Decoded dl reply sz \<and> \<not> timed_out (p_timeout p s1) ev \<and> sz \<le> p_size_limit p s1 \<and>
        p_transition p s1 reply = Inr s2 \<and> r' = r\<lparr>rn_state := s2, rn_sent := rn_sent r @ [msg]\<rparr>)"
proof -
  have "exchange p f r msg ev = (Inr reply, r') \<longleftrightarrow>
    (\<exists>r1. runner_send p f r msg = (Inr (), r1) \<and> runner_recv p r1 ev = (Inr reply, r'))"
    by (auto simp: exchange_def split: prod.splits sum.splits)
  then show ?thesis by (auto simp: runner_send_ok runner_recv_ok)
qed

end
