(* ===== verification/Node_Protocols.thy ===== *)
theory Node_Protocols
  imports Mini_Protocol Consensus_Types
begin

text \<open>
  The node-to-node protocols under \<open>net-rs/net-core/src/protocols\<close>: Handshake, ChainSync, BlockFetch,
  KeepAlive and PeerSharing, each with its states, messages, transition function, limits and
  client helpers. Constructors carry the protocol's initials, since several protocols use the
  same names.

  \<^item> Headers and block bodies are their raw bytes; the code compares and forwards only those.
  \<^item> The CBOR form of the handshake's version data is a pair of parameters (\<open>encode\<close>, \<open>decode\<close>).
  \<^item> A client helper takes the outcome of its send and one event per receive it makes.
\<close>

type_synonym wrapped_header = "u8 list"
type_synonym block_body = "u8 list"

subsection \<open>ChainSync\<close>

datatype cs_state = CS_StIdle | CS_StCanAwait | CS_StMustReply | CS_StIntersect | CS_StDone

datatype cs_message =
    CS_MsgRequestNext
  | CS_MsgAwaitReply
  | CS_MsgRollForward wrapped_header tip
  | CS_MsgRollBackward point tip
  | CS_MsgFindIntersect "point list"
  | CS_MsgIntersectFound point tip
  | CS_MsgIntersectNotFound tip
  | CS_MsgDone

fun cs_agency :: "cs_state \<Rightarrow> agency" where
  "cs_agency CS_StIdle = Client"
| "cs_agency CS_StCanAwait = Server"
| "cs_agency CS_StMustReply = Server"
| "cs_agency CS_StIntersect = Server"
| "cs_agency CS_StDone = Nobody"

fun cs_transition :: "cs_state \<Rightarrow> cs_message \<Rightarrow> protocol_error + cs_state" where
  "cs_transition CS_StIdle CS_MsgRequestNext = Inr CS_StCanAwait"
| "cs_transition CS_StIdle (CS_MsgFindIntersect _) = Inr CS_StIntersect"
| "cs_transition CS_StIdle CS_MsgDone = Inr CS_StDone"
| "cs_transition CS_StCanAwait CS_MsgAwaitReply = Inr CS_StMustReply"
| "cs_transition CS_StCanAwait (CS_MsgRollForward _ _) = Inr CS_StIdle"
| "cs_transition CS_StCanAwait (CS_MsgRollBackward _ _) = Inr CS_StIdle"
| "cs_transition CS_StMustReply (CS_MsgRollForward _ _) = Inr CS_StIdle"
| "cs_transition CS_StMustReply (CS_MsgRollBackward _ _) = Inr CS_StIdle"
| "cs_transition CS_StIntersect (CS_MsgIntersectFound _ _) = Inr CS_StIdle"
| "cs_transition CS_StIntersect (CS_MsgIntersectNotFound _) = Inr CS_StIdle"
| "cs_transition _ _ = Inl InvalidMessage"

fun cs_timeout :: "cs_state \<Rightarrow> nat option" where
  "cs_timeout CS_StIdle = Some 3673"
| "cs_timeout CS_StCanAwait = Some 3673"
| "cs_timeout CS_StMustReply = Some 756"
| "cs_timeout CS_StIntersect = Some 10"
| "cs_timeout CS_StDone = None"

definition chain_sync :: "(cs_state, cs_message) protocol" where
  "chain_sync = \<lparr>p_initial_state = CS_StIdle, p_agency = cs_agency, p_transition = cs_transition,
                 p_size_limit = (\<lambda>_. 65535), p_timeout = cs_timeout\<rparr>"

datatype chain_sync_event = RollForward wrapped_header tip | RollBackward point tip

definition cs_find_intersection ::
  "mux_error option \<Rightarrow> (cs_state, cs_message) runner \<Rightarrow> point list \<Rightarrow> cs_message recv_event
     \<Rightarrow> (protocol_error + (point \<times> tip) option) \<times> (cs_state, cs_message) runner" where
  "cs_find_intersection failure r points ev =
     (case exchange chain_sync failure r (CS_MsgFindIntersect points) ev of
        (Inl e, r1) \<Rightarrow> (Inl e, r1)
      | (Inr msg, r1) \<Rightarrow>
          (case msg of
             CS_MsgIntersectFound p t \<Rightarrow> (Inr (Some (p, t)), r1)
           | CS_MsgIntersectNotFound _ \<Rightarrow> (Inr None, r1)
           | _ \<Rightarrow> (Inl InvalidMessage, r1)))"

definition cs_request_next ::
  "mux_error option \<Rightarrow> (cs_state, cs_message) runner \<Rightarrow> cs_message recv_event \<Rightarrow> cs_message recv_event
     \<Rightarrow> (protocol_error + chain_sync_event) \<times> (cs_state, cs_message) runner" where
  "cs_request_next failure r ev1 ev2 =
     (case exchange chain_sync failure r CS_MsgRequestNext ev1 of
        (Inl e, r1) \<Rightarrow> (Inl e, r1)
      | (Inr msg, r1) \<Rightarrow>
          (case msg of
             CS_MsgRollForward h t \<Rightarrow> (Inr (RollForward h t), r1)
           | CS_MsgRollBackward p t \<Rightarrow> (Inr (RollBackward p t), r1)
           | CS_MsgAwaitReply \<Rightarrow>
               (case runner_recv chain_sync r1 ev2 of
                  (Inl e, r2) \<Rightarrow> (Inl e, r2)
                | (Inr msg2, r2) \<Rightarrow>
                    (case msg2 of
                       CS_MsgRollForward h t \<Rightarrow> (Inr (RollForward h t), r2)
                     | CS_MsgRollBackward p t \<Rightarrow> (Inr (RollBackward p t), r2)
                     | _ \<Rightarrow> (Inl InvalidMessage, r2)))
           | _ \<Rightarrow> (Inl InvalidMessage, r1)))"

definition cs_done ::
  "mux_error option \<Rightarrow> (cs_state, cs_message) runner \<Rightarrow> (protocol_error + unit) \<times> (cs_state, cs_message) runner" where
  "cs_done failure r = runner_send chain_sync failure r CS_MsgDone"

subsection \<open>BlockFetch\<close>

datatype bf_state = BF_StIdle | BF_StBusy | BF_StStreaming | BF_StDone

datatype bf_message =
    BF_MsgRequestRange point point
  | BF_MsgClientDone
  | BF_MsgStartBatch
  | BF_MsgNoBlocks
  | BF_MsgBlock block_body
  | BF_MsgBatchDone

fun bf_agency :: "bf_state \<Rightarrow> agency" where
  "bf_agency BF_StIdle = Client"
| "bf_agency BF_StBusy = Server"
| "bf_agency BF_StStreaming = Server"
| "bf_agency BF_StDone = Nobody"

fun bf_transition :: "bf_state \<Rightarrow> bf_message \<Rightarrow> protocol_error + bf_state" where
  "bf_transition BF_StIdle (BF_MsgRequestRange _ _) = Inr BF_StBusy"
| "bf_transition BF_StIdle BF_MsgClientDone = Inr BF_StDone"
| "bf_transition BF_StBusy BF_MsgStartBatch = Inr BF_StStreaming"
| "bf_transition BF_StBusy BF_MsgNoBlocks = Inr BF_StIdle"
| "bf_transition BF_StStreaming (BF_MsgBlock _) = Inr BF_StStreaming"
| "bf_transition BF_StStreaming BF_MsgBatchDone = Inr BF_StIdle"
| "bf_transition _ _ = Inl InvalidMessage"

fun bf_size_limit :: "bf_state \<Rightarrow> nat" where
  "bf_size_limit BF_StIdle = 65535"
| "bf_size_limit BF_StBusy = 65535"
| "bf_size_limit BF_StStreaming = 2500000"
| "bf_size_limit BF_StDone = 0"

fun bf_timeout :: "bf_state \<Rightarrow> nat option" where
  "bf_timeout BF_StIdle = None"
| "bf_timeout BF_StBusy = Some 60"
| "bf_timeout BF_StStreaming = Some 60"
| "bf_timeout BF_StDone = None"

definition block_fetch :: "(bf_state, bf_message) protocol" where
  "block_fetch = \<lparr>p_initial_state = BF_StIdle, p_agency = bf_agency, p_transition = bf_transition,
                  p_size_limit = bf_size_limit, p_timeout = bf_timeout\<rparr>"

definition bf_request_range ::
  "mux_error option \<Rightarrow> (bf_state, bf_message) runner \<Rightarrow> point \<Rightarrow> point \<Rightarrow> bf_message recv_event
     \<Rightarrow> (protocol_error + bool) \<times> (bf_state, bf_message) runner" where
  "bf_request_range failure r from_point to_point ev =
     (case exchange block_fetch failure r (BF_MsgRequestRange from_point to_point) ev of
        (Inl e, r1) \<Rightarrow> (Inl e, r1)
      | (Inr msg, r1) \<Rightarrow>
          (case msg of
             BF_MsgStartBatch \<Rightarrow> (Inr True, r1)
           | BF_MsgNoBlocks \<Rightarrow> (Inr False, r1)
           | _ \<Rightarrow> (Inl InvalidMessage, r1)))"

definition bf_recv_block ::
  "(bf_state, bf_message) runner \<Rightarrow> bf_message recv_event
     \<Rightarrow> (protocol_error + block_body option) \<times> (bf_state, bf_message) runner" where
  "bf_recv_block r ev =
     (case runner_recv block_fetch r ev of
        (Inl e, r1) \<Rightarrow> (Inl e, r1)
      | (Inr msg, r1) \<Rightarrow>
          (case msg of
             BF_MsgBlock body \<Rightarrow> (Inr (Some body), r1)
           | BF_MsgBatchDone \<Rightarrow> (Inr None, r1)
           | _ \<Rightarrow> (Inl InvalidMessage, r1)))"

definition bf_done ::
  "mux_error option \<Rightarrow> (bf_state, bf_message) runner \<Rightarrow> (protocol_error + unit) \<times> (bf_state, bf_message) runner" where
  "bf_done failure r = runner_send block_fetch failure r BF_MsgClientDone"

subsection \<open>KeepAlive\<close>

datatype ka_state = KA_StClient | KA_StServer | KA_StDone

datatype ka_message = KA_MsgKeepAlive u16 | KA_MsgKeepAliveResponse u16 | KA_MsgDone

fun ka_agency :: "ka_state \<Rightarrow> agency" where
  "ka_agency KA_StClient = Client"
| "ka_agency KA_StServer = Server"
| "ka_agency KA_StDone = Nobody"

fun ka_transition :: "ka_state \<Rightarrow> ka_message \<Rightarrow> protocol_error + ka_state" where
  "ka_transition KA_StClient (KA_MsgKeepAlive _) = Inr KA_StServer"
| "ka_transition KA_StClient KA_MsgDone = Inr KA_StDone"
| "ka_transition KA_StServer (KA_MsgKeepAliveResponse _) = Inr KA_StClient"
| "ka_transition _ _ = Inl InvalidMessage"

fun ka_timeout :: "ka_state \<Rightarrow> nat option" where
  "ka_timeout KA_StClient = Some 97"
| "ka_timeout KA_StServer = Some 60"
| "ka_timeout KA_StDone = None"

definition keep_alive_protocol :: "(ka_state, ka_message) protocol" where
  "keep_alive_protocol = \<lparr>p_initial_state = KA_StClient, p_agency = ka_agency, p_transition = ka_transition,
                          p_size_limit = (\<lambda>_. 65535), p_timeout = ka_timeout\<rparr>"

text \<open>The round-trip time is the delay of the receive event.\<close>

definition keep_alive ::
  "mux_error option \<Rightarrow> (ka_state, ka_message) runner \<Rightarrow> u16 \<Rightarrow> ka_message recv_event
     \<Rightarrow> (protocol_error + nat) \<times> (ka_state, ka_message) runner" where
  "keep_alive failure r cookie ev =
     (case exchange keep_alive_protocol failure r (KA_MsgKeepAlive cookie) ev of
        (Inl e, r1) \<Rightarrow> (Inl e, r1)
      | (Inr msg, r1) \<Rightarrow>
          (case msg of
             KA_MsgKeepAliveResponse response_cookie \<Rightarrow>
               if response_cookie \<noteq> cookie then (Inl InvalidMessage, r1) else (Inr (ev_delay ev), r1)
           | _ \<Rightarrow> (Inl InvalidMessage, r1)))"

definition ka_done ::
  "mux_error option \<Rightarrow> (ka_state, ka_message) runner \<Rightarrow> (protocol_error + unit) \<times> (ka_state, ka_message) runner" where
  "ka_done failure r = runner_send keep_alive_protocol failure r KA_MsgDone"

subsection \<open>PeerSharing\<close>

datatype peer_address = IPv4 "32 word" u16 | IPv6 "128 word" u16

datatype ps_state = PS_StIdle | PS_StBusy | PS_StDone

datatype ps_message = PS_MsgShareRequest u8 | PS_MsgSharePeers "peer_address list" | PS_MsgDone

fun ps_agency :: "ps_state \<Rightarrow> agency" where
  "ps_agency PS_StIdle = Client"
| "ps_agency PS_StBusy = Server"
| "ps_agency PS_StDone = Nobody"

fun ps_transition :: "ps_state \<Rightarrow> ps_message \<Rightarrow> protocol_error + ps_state" where
  "ps_transition PS_StIdle (PS_MsgShareRequest _) = Inr PS_StBusy"
| "ps_transition PS_StIdle PS_MsgDone = Inr PS_StDone"
| "ps_transition PS_StBusy (PS_MsgSharePeers _) = Inr PS_StIdle"
| "ps_transition _ _ = Inl InvalidMessage"

fun ps_timeout :: "ps_state \<Rightarrow> nat option" where
  "ps_timeout PS_StIdle = None"
| "ps_timeout PS_StBusy = Some 60"
| "ps_timeout PS_StDone = None"

definition peer_sharing :: "(ps_state, ps_message) protocol" where
  "peer_sharing = \<lparr>p_initial_state = PS_StIdle, p_agency = ps_agency, p_transition = ps_transition,
                   p_size_limit = (\<lambda>_. 5760), p_timeout = ps_timeout\<rparr>"

definition share_request ::
  "mux_error option \<Rightarrow> (ps_state, ps_message) runner \<Rightarrow> u8 \<Rightarrow> ps_message recv_event
     \<Rightarrow> (protocol_error + peer_address list) \<times> (ps_state, ps_message) runner" where
  "share_request failure r amount ev =
     (case exchange peer_sharing failure r (PS_MsgShareRequest amount) ev of
        (Inl e, r1) \<Rightarrow> (Inl e, r1)
      | (Inr msg, r1) \<Rightarrow>
          (case msg of PS_MsgSharePeers peers \<Rightarrow> (Inr peers, r1) | _ \<Rightarrow> (Inl InvalidMessage, r1)))"

definition ps_done ::
  "mux_error option \<Rightarrow> (ps_state, ps_message) runner \<Rightarrow> (protocol_error + unit) \<times> (ps_state, ps_message) runner" where
  "ps_done failure r = runner_send peer_sharing failure r PS_MsgDone"


subsection \<open>The protocols meet the contract\<close>

lemmas protocol_defs = chain_sync_def block_fetch_def keep_alive_protocol_def peer_sharing_def

interpretation cs: mini_protocol chain_sync
proof unfold_locales
  fix s m
  show "p_agency chain_sync s = Nobody \<Longrightarrow> p_transition chain_sync s m = Inl InvalidMessage"
    by (cases s) (auto simp: chain_sync_def)
  show "p_agency chain_sync s \<noteq> Nobody \<Longrightarrow> \<exists>m s'. p_transition chain_sync s m = Inr s'"
    by (cases s) (auto simp: chain_sync_def intro: exI [of _ CS_MsgDone] exI [of _ "CS_MsgRollBackward _ _"]
        exI [of _ "CS_MsgIntersectNotFound _"])
qed (auto simp: chain_sync_def)

interpretation bf: mini_protocol block_fetch
proof unfold_locales
  fix s m
  show "p_agency block_fetch s = Nobody \<Longrightarrow> p_transition block_fetch s m = Inl InvalidMessage"
    by (cases s) (auto simp: block_fetch_def)
  show "p_agency block_fetch s \<noteq> Nobody \<Longrightarrow> \<exists>m s'. p_transition block_fetch s m = Inr s'"
    by (cases s) (auto simp: block_fetch_def intro: exI [of _ BF_MsgClientDone] exI [of _ BF_MsgNoBlocks]
        exI [of _ BF_MsgBatchDone])
  show "p_agency block_fetch s \<noteq> Nobody \<Longrightarrow> 0 < p_size_limit block_fetch s"
    by (cases s) (auto simp: block_fetch_def)
qed (auto simp: block_fetch_def)

interpretation ka: mini_protocol keep_alive_protocol
proof unfold_locales
  fix s m
  show "p_agency keep_alive_protocol s = Nobody \<Longrightarrow> p_transition keep_alive_protocol s m = Inl InvalidMessage"
    by (cases s) (auto simp: keep_alive_protocol_def)
  show "p_agency keep_alive_protocol s \<noteq> Nobody \<Longrightarrow> \<exists>m s'. p_transition keep_alive_protocol s m = Inr s'"
    by (cases s) (auto simp: keep_alive_protocol_def intro: exI [of _ KA_MsgDone] exI [of _ "KA_MsgKeepAliveResponse _"])
qed (auto simp: keep_alive_protocol_def)

interpretation ps: mini_protocol peer_sharing
proof unfold_locales
  fix s m
  show "p_agency peer_sharing s = Nobody \<Longrightarrow> p_transition peer_sharing s m = Inl InvalidMessage"
    by (cases s) (auto simp: peer_sharing_def)
  show "p_agency peer_sharing s \<noteq> Nobody \<Longrightarrow> \<exists>m s'. p_transition peer_sharing s m = Inr s'"
    by (cases s) (auto simp: peer_sharing_def intro: exI [of _ PS_MsgDone] exI [of _ "PS_MsgSharePeers _"])
qed (auto simp: peer_sharing_def)

subsection \<open>The client helpers\<close>

lemma cs_replies:
  "cs_transition CS_StCanAwait m = Inr s \<longleftrightarrow>
     m = CS_MsgAwaitReply \<and> s = CS_StMustReply \<or>
     (\<exists>h t. m = CS_MsgRollForward h t \<and> s = CS_StIdle) \<or> (\<exists>p t. m = CS_MsgRollBackward p t \<and> s = CS_StIdle)"
  "cs_transition CS_StMustReply m = Inr s \<longleftrightarrow>
     (\<exists>h t. m = CS_MsgRollForward h t \<and> s = CS_StIdle) \<or> (\<exists>p t. m = CS_MsgRollBackward p t \<and> s = CS_StIdle)"
  "cs_transition CS_StIntersect m = Inr s \<longleftrightarrow>
     (\<exists>p t. m = CS_MsgIntersectFound p t \<and> s = CS_StIdle) \<or> (\<exists>t. m = CS_MsgIntersectNotFound t \<and> s = CS_StIdle)"
  by (cases m; auto)+

text \<open>What the client learns of one ChainSync request: the events it received, in wire order.\<close>

definition rolled :: "cs_message \<Rightarrow> chain_sync_event \<Rightarrow> bool" where
  "rolled m e \<longleftrightarrow> (\<exists>h t. m = CS_MsgRollForward h t \<and> e = RollForward h t) \<or>
     (\<exists>p t. m = CS_MsgRollBackward p t \<and> e = RollBackward p t)"

text \<open>ChainSync requests. From an idle client, whenever \<open>request_next\<close> succeeds, the client is idle again,
  has sent exactly one \<open>MsgRequestNext\<close>, and returns the header or rollback the server sent, either
  as the direct reply or as the message after one \<open>MsgAwaitReply\<close>. Its three fallback branches for an
  unexpected message are never taken: every message the runner lets through is one it expects.\<close>

theorem chain_sync_request_next:
  assumes "rn_state r = CS_StIdle" and "rn_role r = RClient"
    and "cs_request_next failure r ev1 ev2 = (res, r')"
  shows "(\<forall>e. res = Inr e \<longrightarrow>
      r' = r\<lparr>rn_state := CS_StIdle, rn_sent := rn_sent r @ [CS_MsgRequestNext]\<rparr> \<and>
      ((\<exists>dl m sz. ev1 = Decoded dl m sz \<and> rolled m e) \<or>
       (\<exists>dl sz dl2 m2 sz2. ev1 = Decoded dl CS_MsgAwaitReply sz \<and> ev2 = Decoded dl2 m2 sz2 \<and> rolled m2 e))) \<and>
    (res = Inl InvalidMessage \<longrightarrow>
      (\<exists>dl m sz. ev1 = Decoded dl m sz \<and> cs_transition CS_StCanAwait m = Inl InvalidMessage) \<or>
      (\<exists>dl m sz. ev2 = Decoded dl m sz \<and> cs_transition CS_StMustReply m = Inl InvalidMessage))"
proof (cases "fst (exchange chain_sync failure r CS_MsgRequestNext ev1)")
  case (Inl e)
  then have res: "res = Inl e"
    using assms(3) by (auto simp: cs_request_next_def split: prod.splits sum.splits)
  have "e = InvalidMessage \<Longrightarrow> \<exists>dl m sz. ev1 = Decoded dl m sz \<and> cs_transition CS_StCanAwait m = Inl InvalidMessage"
    using Inl assms(1,2)
    by (auto simp: exchange_def runner_send_def runner_recv_def recv_inner_def Let_def chain_sync_def
        split: option.splits recv_event.splits if_splits sum.splits)
  with res show ?thesis by auto
next
  case (Inr m)
  then obtain r1 where ex: "exchange chain_sync failure r CS_MsgRequestNext ev1 = (Inr m, r1)"
    by (metis prod.collapse)
  then obtain s2 dl sz where ev1: "ev1 = Decoded dl m sz" and s2: "cs_transition CS_StCanAwait m = Inr s2"
    and r1: "r1 = r\<lparr>rn_state := s2, rn_sent := rn_sent r @ [CS_MsgRequestNext]\<rparr>"
    using assms(1,2) by (auto simp: exchange_ok chain_sync_def)
  show ?thesis
  proof (cases "m = CS_MsgAwaitReply")
    case False
    then show ?thesis
      using assms(3) ex ev1 r1 s2 by (auto simp: cs_request_next_def cs_replies rolled_def)
  next
    case True
    then have st: "rn_state r1 = CS_StMustReply" "rn_role r1 = RClient" using s2 r1 assms(2) by auto
    show ?thesis
    proof (cases "fst (runner_recv chain_sync r1 ev2)")
      case (Inl e)
      then have res: "res = Inl e"
        using assms(3) ex True by (auto simp: cs_request_next_def split: prod.splits sum.splits)
      have "e = InvalidMessage \<Longrightarrow> \<exists>dl m sz. ev2 = Decoded dl m sz \<and> cs_transition CS_StMustReply m = Inl InvalidMessage"
        using Inl st
        by (auto simp: runner_recv_def recv_inner_def Let_def chain_sync_def
            split: option.splits recv_event.splits if_splits sum.splits)
      with res show ?thesis by auto
    next
      case (Inr m2)
      then obtain r2 where rv: "runner_recv chain_sync r1 ev2 = (Inr m2, r2)" by (metis prod.collapse)
      then obtain s3 dl2 sz2 where ev2: "ev2 = Decoded dl2 m2 sz2" and s3: "cs_transition CS_StMustReply m2 = Inr s3"
        and r2: "r2 = r1\<lparr>rn_state := s3\<rparr>"
        using st by (auto simp: runner_recv_ok chain_sync_def)
      show ?thesis
        using assms(3) ex rv True ev1 ev2 r1 r2 s3 by (auto simp: cs_request_next_def cs_replies rolled_def)
    qed
  qed
qed

theorem chain_sync_request_next_witness:
  "\<exists>r'. cs_request_next None \<lparr>rn_role = RClient, rn_state = CS_StIdle, rn_sent = []\<rparr>
      (Decoded 0 CS_MsgAwaitReply 2) (Decoded 700 (CS_MsgRollForward [1] \<lparr>tip_point = Origin, tip_block_no = 0\<rparr>) 40)
    = (Inr (RollForward [1] \<lparr>tip_point = Origin, tip_block_no = 0\<rparr>), r') \<and> rn_state r' = CS_StIdle"
proof -
  let ?r = "\<lparr>rn_role = RClient, rn_state = CS_StIdle, rn_sent = []\<rparr>"
  let ?m = "CS_MsgRollForward [1] \<lparr>tip_point = Origin, tip_block_no = 0\<rparr>"
  obtain r' where r': "cs_request_next None ?r (Decoded 0 CS_MsgAwaitReply 2) (Decoded 700 ?m 40)
      = (Inr (RollForward [1] \<lparr>tip_point = Origin, tip_block_no = 0\<rparr>), r')"
    by (simp add: cs_request_next_def exchange_def runner_send_def runner_recv_def recv_inner_def timed_out_def chain_sync_def)
  from chain_sync_request_next [OF _ _ r'] r' show ?thesis by auto
qed

end
