(* ===== verification/Handshake.thy ===== *)
theory Handshake
  imports Mini_Protocol Ordered_Map
begin

text \<open>
  \<open>net-rs/net-core/src/protocols/handshake\<close>: the version negotiation of a new connection, with the
  node-to-node version data and the negotiation rule of \<open>n2n.rs\<close>.

  The CBOR form of the version data is a pair of parameters, \<open>encode\<close> and \<open>decode\<close> (an error text or
  the data). Error texts are strings as in the code.
\<close>

type_synonym version_table = "(u64, u8 list) omap"

datatype refuse_reason =
    VersionMismatch "u64 list"
  | HandshakeDecodeError u64 string
  | Refused u64 string

datatype hs_state = HS_Propose | HS_Confirm | HS_Done

datatype hs_message =
    ProposeVersions version_table
  | AcceptVersion u64 "u8 list"
  | Refuse refuse_reason
  | QueryReply version_table

fun hs_agency :: "hs_state \<Rightarrow> agency" where
  "hs_agency HS_Propose = Client"
| "hs_agency HS_Confirm = Server"
| "hs_agency HS_Done = Nobody"

fun hs_transition :: "hs_state \<Rightarrow> hs_message \<Rightarrow> protocol_error + hs_state" where
  "hs_transition HS_Propose (ProposeVersions _) = Inr HS_Confirm"
| "hs_transition HS_Confirm (AcceptVersion _ _) = Inr HS_Done"
| "hs_transition HS_Confirm (Refuse _) = Inr HS_Done"
| "hs_transition HS_Confirm (QueryReply _) = Inr HS_Done"
| "hs_transition _ _ = Inl InvalidMessage"

definition handshake :: "(hs_state, hs_message) protocol" where
  "handshake = \<lparr>p_initial_state = HS_Propose, p_agency = hs_agency, p_transition = hs_transition,
                p_size_limit = (\<lambda>_. 5760), p_timeout = (\<lambda>_. Some 10)\<rparr>"

datatype handshake_result =
    HR_Accepted u64 "u8 list"
  | HR_Refused refuse_reason
  | HR_QueryReply version_table

definition hs_run_client ::
  "mux_error option \<Rightarrow> version_table \<Rightarrow> hs_message recv_event \<Rightarrow> protocol_error + handshake_result" where
  "hs_run_client failure versions ev =
     (let r = \<lparr>rn_role = RClient, rn_state = HS_Propose, rn_sent = []\<rparr>
      in case exchange handshake failure r (ProposeVersions versions) ev of
           (Inl e, _) \<Rightarrow> Inl e
         | (Inr response, _) \<Rightarrow>
             (case response of
                AcceptVersion v params \<Rightarrow> Inr (HR_Accepted v params)
              | Refuse reason \<Rightarrow> Inr (HR_Refused reason)
              | QueryReply table \<Rightarrow> Inr (HR_QueryReply table)
              | _ \<Rightarrow> Inl InvalidMessage))"

text \<open>The server returns its result and the runner, whose \<open>rn_sent\<close> is what went on the wire.\<close>

definition hs_run_server ::
  "(version_table \<Rightarrow> refuse_reason + (u64 \<times> u8 list)) \<Rightarrow> hs_message recv_event \<Rightarrow> mux_error option
     \<Rightarrow> (protocol_error + (u64 \<times> u8 list)) \<times> (hs_state, hs_message) runner" where
  "hs_run_server negotiate_fn ev failure =
     (let r = \<lparr>rn_role = RServer, rn_state = HS_Propose, rn_sent = []\<rparr>
      in case runner_recv handshake r ev of
           (Inl e, r1) \<Rightarrow> (Inl e, r1)
         | (Inr proposal, r1) \<Rightarrow>
             (case proposal of
                ProposeVersions client_versions \<Rightarrow>
                  (case negotiate_fn client_versions of
                     Inr (v, params) \<Rightarrow>
                       (case runner_send handshake failure r1 (AcceptVersion v params) of
                          (Inl e, r2) \<Rightarrow> (Inl e, r2)
                        | (Inr _, r2) \<Rightarrow> (Inr (v, params), r2))
                   | Inl reason \<Rightarrow>
                       (case runner_send handshake failure r1 (Refuse reason) of
                          (Inl e, r2) \<Rightarrow> (Inl e, r2)
                        | (Inr _, r2) \<Rightarrow> (Inl InvalidMessage, r2)))
              | _ \<Rightarrow> (Inl InvalidMessage, r1)))"

subsection \<open>Node-to-node version data\<close>

record version_data =
  vd_network_magic :: u64
  vd_initiator_only_diffusion_mode :: bool
  vd_peer_sharing :: u8
  vd_query :: bool
  vd_v16_flag :: "bool option"

definition VERSION_V16 :: u64 where "VERSION_V16 = 16"

definition SUPPORTED_VERSIONS :: "u64 list" where
  "SUPPORTED_VERSIONS = [14, 15, VERSION_V16]"

definition version_entry :: "version_data \<Rightarrow> u64 \<Rightarrow> version_data" where
  "version_entry data v =
     data\<lparr>vd_v16_flag := (if v = VERSION_V16
            then Some (case vd_v16_flag data of Some f \<Rightarrow> f | None \<Rightarrow> False) else None)\<rparr>"

definition version_table_for :: "(version_data \<Rightarrow> u8 list) \<Rightarrow> version_data \<Rightarrow> u64 list \<Rightarrow> version_table" where
  "version_table_for encode data versions =
     fold (\<lambda>v. oput v (encode (version_entry data v))) versions oempty"

definition version_table_of :: "(version_data \<Rightarrow> u8 list) \<Rightarrow> version_data \<Rightarrow> version_table" where
  "version_table_of encode data = version_table_for encode data SUPPORTED_VERSIONS"

definition negotiated :: "u64 \<Rightarrow> version_data \<Rightarrow> version_data \<Rightarrow> version_data" where
  "negotiated best_version client_data server_data =
     \<lparr>vd_network_magic = vd_network_magic server_data,
      vd_initiator_only_diffusion_mode =
        vd_initiator_only_diffusion_mode client_data \<or> vd_initiator_only_diffusion_mode server_data,
      vd_peer_sharing = vd_peer_sharing client_data,
      vd_query = vd_query client_data,
      vd_v16_flag = (if best_version = VERSION_V16
        then Some (case vd_v16_flag client_data of Some f \<Rightarrow> f | None \<Rightarrow> False) else None)\<rparr>"

definition magic_mismatch :: "u64 \<Rightarrow> u64 \<Rightarrow> string" where
  "magic_mismatch c s = ''network magic mismatch: client='' @ show_nat (unat c) @ '', server='' @ show_nat (unat s)"

definition negotiate ::
  "(version_data \<Rightarrow> u8 list) \<Rightarrow> (u8 list \<Rightarrow> string + version_data) \<Rightarrow> version_table \<Rightarrow> version_data
     \<Rightarrow> refuse_reason + (u64 \<times> u8 list)" where
  "negotiate encode decode client_versions server_data =
     (let common = filter (ohas client_versions) SUPPORTED_VERSIONS
      in if common = [] then Inl (VersionMismatch SUPPORTED_VERSIONS)
         else
           let best_version = last common
           in case decode (the (oget client_versions best_version)) of
                Inl e \<Rightarrow> Inl (HandshakeDecodeError best_version e)
              | Inr client_data \<Rightarrow>
                  if vd_network_magic client_data \<noteq> vd_network_magic server_data
                  then Inl (Refused best_version (magic_mismatch (vd_network_magic client_data) (vd_network_magic server_data)))
                  else Inr (best_version, encode (negotiated best_version client_data server_data)))"

interpretation hs: mini_protocol handshake
proof unfold_locales
  fix s m
  show "p_agency handshake s = Nobody \<Longrightarrow> p_transition handshake s m = Inl InvalidMessage"
    by (cases s) (auto simp: handshake_def)
  show "p_agency handshake s \<noteq> Nobody \<Longrightarrow> \<exists>m s'. p_transition handshake s m = Inr s'"
    by (cases s) (auto simp: handshake_def intro: exI [of _ "ProposeVersions _"] exI [of _ "Refuse _"])
qed (auto simp: handshake_def)

subsection \<open>The negotiation\<close>

text \<open>The supported versions two tables share, and the highest of them.\<close>

definition best_common :: "version_table \<Rightarrow> u64 \<Rightarrow> bool" where
  "best_common client_versions v \<longleftrightarrow>
     v \<in> set SUPPORTED_VERSIONS \<and> ohas client_versions v \<and>
     (\<forall>w \<in> set SUPPORTED_VERSIONS. ohas client_versions w \<longrightarrow> w \<le> v)"

lemma last_common:
  assumes "filter P SUPPORTED_VERSIONS \<noteq> []"
  shows "P (last (filter P SUPPORTED_VERSIONS)) \<and> last (filter P SUPPORTED_VERSIONS) \<in> set SUPPORTED_VERSIONS \<and>
    (\<forall>w \<in> set SUPPORTED_VERSIONS. P w \<longrightarrow> w \<le> last (filter P SUPPORTED_VERSIONS))"
  using assms by (auto simp: SUPPORTED_VERSIONS_def VERSION_V16_def word_le_nat_alt)

text \<open>Version negotiation. An acceptance is for the highest version both sides support; the client's data
  for it decoded, its network magic is the server's, and the answer encodes the negotiated data:
  initiator-only if either side is, peer sharing and query from the client, and the trailing v16
  flag exactly for version 16. A refusal names its reason truthfully: no common version, undecodable
  data for the highest common version, or a different network magic there.\<close>

theorem negotiate_correct:
  "case negotiate encode decode client_versions server_data of
     Inr (v, params) \<Rightarrow>
       best_common client_versions v \<and>
       (\<exists>client_data. decode (the (oget client_versions v)) = Inr client_data \<and>
          vd_network_magic client_data = vd_network_magic server_data \<and>
          params = encode (negotiated v client_data server_data) \<and>
          ((vd_v16_flag (negotiated v client_data server_data) \<noteq> None) \<longleftrightarrow> v = 16))
   | Inl (VersionMismatch vs) \<Rightarrow> vs = SUPPORTED_VERSIONS \<and> \<not> (\<exists>v \<in> set SUPPORTED_VERSIONS. ohas client_versions v)
   | Inl (HandshakeDecodeError v e) \<Rightarrow>
       best_common client_versions v \<and> decode (the (oget client_versions v)) = Inl e
   | Inl (Refused v e) \<Rightarrow>
       best_common client_versions v \<and>
       (\<exists>client_data. decode (the (oget client_versions v)) = Inr client_data \<and>
          vd_network_magic client_data \<noteq> vd_network_magic server_data)"
proof -
  define common where "common = filter (ohas client_versions) SUPPORTED_VERSIONS"
  show ?thesis
  proof (cases "common = []")
    case True
    then have "\<not> (\<exists>v \<in> set SUPPORTED_VERSIONS. ohas client_versions v)"
      by (simp add: common_def filter_empty_conv)
    with True show ?thesis by (simp add: negotiate_def flip: common_def)
  next
    case False
    then have "best_common client_versions (last common)"
      using last_common [of "ohas client_versions"] by (auto simp: common_def best_common_def)
    moreover have "(vd_v16_flag (negotiated v c d) \<noteq> None) \<longleftrightarrow> v = 16" for v c d
      by (simp add: negotiated_def VERSION_V16_def)
    ultimately show ?thesis
      using False by (auto simp: negotiate_def Let_def simp flip: common_def split: sum.splits)
  qed
qed

lemma ohas_version_table_for: "ohas (version_table_for encode data vs) v \<longleftrightarrow> v \<in> set vs"
proof -
  have "ohas (fold (\<lambda>v. oput v (f v)) vs m) v \<longleftrightarrow> v \<in> set vs \<or> ohas m v" for f :: "u64 \<Rightarrow> u8 list" and m
    by (induction vs arbitrary: m) auto
  then show ?thesis by (simp add: version_table_for_def)
qed

lemma oget_version_table_for:
  "v \<in> set vs \<Longrightarrow> oget (version_table_for encode data vs) v = Some (encode (version_entry data v))"
proof -
  have "oget (fold (\<lambda>v. oput v (f v)) vs m) v = (if v \<in> set vs then Some (f v) else oget m v)"
    for f :: "u64 \<Rightarrow> u8 list" and m
    by (induction vs arbitrary: m) (auto simp: oget_oput)
  then show "v \<in> set vs \<Longrightarrow> oget (version_table_for encode data vs) v = Some (encode (version_entry data v))"
    by (simp add: version_table_for_def)
qed

text \<open>Two nodes of this implementation on the same network always connect, at version 16. If decoding
  inverts encoding, a server that negotiates the table a client proposes with \<open>version_table\<close> accepts
  exactly when the magics agree, and then at the highest supported version.\<close>

theorem own_nodes_connect:
  assumes "\<And>d. decode (encode d) = Inr d"
  shows "negotiate encode decode (version_table_of encode client) server =
    (if vd_network_magic client = vd_network_magic server
     then Inr (16, encode (negotiated 16 (version_entry client 16) server))
     else Inl (Refused 16 (magic_mismatch (vd_network_magic client) (vd_network_magic server))))"
proof -
  have "filter (ohas (version_table_of encode client)) SUPPORTED_VERSIONS = SUPPORTED_VERSIONS"
    by (auto simp: version_table_of_def ohas_version_table_for filter_id_conv)
  moreover have "last SUPPORTED_VERSIONS = 16" "SUPPORTED_VERSIONS \<noteq> []" "16 \<in> set SUPPORTED_VERSIONS"
    by (simp_all add: SUPPORTED_VERSIONS_def VERSION_V16_def)
  moreover have "vd_network_magic (version_entry client v) = vd_network_magic client" for v
    by (simp add: version_entry_def)
  ultimately show ?thesis
    by (simp add: negotiate_def Let_def version_table_of_def oget_version_table_for assms)
qed

text \<open>A concrete encoding: the magic in unary, then one byte per field.\<close>

definition sample_encode :: "version_data \<Rightarrow> u8 list" where
  "sample_encode d =
     replicate (unat (vd_network_magic d)) 1 @
     [0, of_bool (vd_initiator_only_diffusion_mode d), vd_peer_sharing d, of_bool (vd_query d),
      (case vd_v16_flag d of None \<Rightarrow> 2 | Some f \<Rightarrow> of_bool f)]"

definition sample_decode :: "u8 list \<Rightarrow> string + version_data" where
  "sample_decode bs =
     (case dropWhile (\<lambda>b. b = 1) bs of
        [_, m, ps, q, f] \<Rightarrow>
          Inr \<lparr>vd_network_magic = of_nat (length (takeWhile (\<lambda>b. b = 1) bs)),
               vd_initiator_only_diffusion_mode = (m = 1), vd_peer_sharing = ps, vd_query = (q = 1),
               vd_v16_flag = (if f = 2 then None else Some (f = 1))\<rparr>
      | _ \<Rightarrow> Inl ''short'')"

lemma sample_decode_encode: "sample_decode (sample_encode d) = Inr d"
  by (cases d) (auto simp: sample_decode_def sample_encode_def takeWhile_append dropWhile_append split: option.splits)

theorem own_nodes_connect_witness:
  "negotiate sample_encode sample_decode (version_table_of sample_encode
      \<lparr>vd_network_magic = 42, vd_initiator_only_diffusion_mode = True, vd_peer_sharing = 1, vd_query = False, vd_v16_flag = None\<rparr>)
      \<lparr>vd_network_magic = 42, vd_initiator_only_diffusion_mode = False, vd_peer_sharing = 0, vd_query = False, vd_v16_flag = None\<rparr>
    = Inr (16, sample_encode
        \<lparr>vd_network_magic = 42, vd_initiator_only_diffusion_mode = True, vd_peer_sharing = 1, vd_query = False, vd_v16_flag = Some False\<rparr>)"
  by (subst own_nodes_connect [OF sample_decode_encode])
    (simp add: negotiated_def version_entry_def VERSION_V16_def)

end
