(* ===== verification/Leios_Protocols.thy ===== *)
theory Leios_Protocols
  imports Node_Protocols Mempool Bitmap
begin

text \<open>
  The Leios protocols under \<open>net-rs/net-core/src/protocols\<close>: LeiosFetch (request and reply for endorser
  blocks and their transactions) and LeiosNotify (announcements), with the serial helpers and the
  pipelined notification client.

  The pipelined client does not use a \<open>Runner\<close>; it counts its outstanding requests. A call consumes
  a list of events (messages, channel failures, or the shutdown deadline); \<open>None\<close> as a result means
  that the call is still waiting when the events are used up (its future was dropped).
  \<open>pl_answered\<close> is a ghost counter of the responses that were credited.
\<close>

subsection \<open>LeiosFetch\<close>

datatype lf_state = LF_StIdle | LF_StBlock | LF_StBlockTxs | LF_StDone

datatype lf_message =
    MsgLeiosBlockRequest point
  | MsgLeiosBlock "u8 list"
  | MsgLeiosBlockTxsRequest point "(u16, u64) omap"
  | MsgLeiosBlockTxs "tx_body list"
  | LF_MsgDone

fun lf_agency :: "lf_state \<Rightarrow> agency" where
  "lf_agency LF_StIdle = Client"
| "lf_agency LF_StBlock = Server"
| "lf_agency LF_StBlockTxs = Server"
| "lf_agency LF_StDone = Nobody"

fun lf_transition :: "lf_state \<Rightarrow> lf_message \<Rightarrow> protocol_error + lf_state" where
  "lf_transition LF_StIdle (MsgLeiosBlockRequest _) = Inr LF_StBlock"
| "lf_transition LF_StBlock (MsgLeiosBlock _) = Inr LF_StIdle"
| "lf_transition LF_StIdle (MsgLeiosBlockTxsRequest _ _) = Inr LF_StBlockTxs"
| "lf_transition LF_StBlockTxs (MsgLeiosBlockTxs _) = Inr LF_StIdle"
| "lf_transition LF_StIdle LF_MsgDone = Inr LF_StDone"
| "lf_transition _ _ = Inl InvalidMessage"

fun lf_size_limit :: "lf_state \<Rightarrow> nat" where
  "lf_size_limit LF_StIdle = 65535"
| "lf_size_limit LF_StBlock = 25165824"
| "lf_size_limit LF_StBlockTxs = 25165824"
| "lf_size_limit LF_StDone = 0"

fun lf_timeout :: "lf_state \<Rightarrow> nat option" where
  "lf_timeout LF_StIdle = None"
| "lf_timeout LF_StBlock = Some 120"
| "lf_timeout LF_StBlockTxs = Some 120"
| "lf_timeout LF_StDone = None"

definition leios_fetch :: "(lf_state, lf_message) protocol" where
  "leios_fetch = \<lparr>p_initial_state = LF_StIdle, p_agency = lf_agency, p_transition = lf_transition,
                  p_size_limit = lf_size_limit, p_timeout = lf_timeout\<rparr>"

definition lf_fetch_block ::
  "mux_error option \<Rightarrow> (lf_state, lf_message) runner \<Rightarrow> point \<Rightarrow> lf_message recv_event
     \<Rightarrow> (protocol_error + u8 list) \<times> (lf_state, lf_message) runner" where
  "lf_fetch_block failure r p ev =
     (case exchange leios_fetch failure r (MsgLeiosBlockRequest p) ev of
        (Inl e, r1) \<Rightarrow> (Inl e, r1)
      | (Inr msg, r1) \<Rightarrow> (case msg of MsgLeiosBlock block \<Rightarrow> (Inr block, r1) | _ \<Rightarrow> (Inl InvalidMessage, r1)))"

definition count_ones :: "u64 \<Rightarrow> nat" where
  "count_ones w = length (filter (bit w) [0..<64])"

definition requested_positions :: "(u16, u64) omap \<Rightarrow> nat" where
  "requested_positions bitmap = sum_list (map count_ones (ovalues bitmap))"

definition lf_fetch_block_txs ::
  "mux_error option \<Rightarrow> (lf_state, lf_message) runner \<Rightarrow> point \<Rightarrow> (u16, u64) omap \<Rightarrow> lf_message recv_event
     \<Rightarrow> (protocol_error + tx_body list) \<times> (lf_state, lf_message) runner" where
  "lf_fetch_block_txs failure r p bitmap ev =
     (case exchange leios_fetch failure r (MsgLeiosBlockTxsRequest p bitmap) ev of
        (Inl e, r1) \<Rightarrow> (Inl e, r1)
      | (Inr msg, r1) \<Rightarrow>
          (case msg of
             MsgLeiosBlockTxs transactions \<Rightarrow>
               if length transactions = requested_positions bitmap then (Inr transactions, r1)
               else (Inl InvalidMessage, r1)
           | _ \<Rightarrow> (Inl InvalidMessage, r1)))"

definition lf_done ::
  "mux_error option \<Rightarrow> (lf_state, lf_message) runner \<Rightarrow> (protocol_error + unit) \<times> (lf_state, lf_message) runner" where
  "lf_done failure r = runner_send leios_fetch failure r LF_MsgDone"

subsection \<open>LeiosNotify\<close>

datatype ln_state = LN_StIdle | LN_StBusy | LN_StQuit | LN_StDone

datatype ln_message =
    MsgLeiosNotificationRequestNext
  | MsgLeiosBlockAnnouncement wrapped_header
  | MsgLeiosBlockOffer point u32
  | MsgLeiosBlockTxsOffer point
  | MsgLeiosVotes "vote list"
  | LN_MsgDone
  | MsgQuit
  | MsgCanceled

fun ln_agency :: "ln_state \<Rightarrow> agency" where
  "ln_agency LN_StIdle = Client"
| "ln_agency LN_StBusy = Server"
| "ln_agency LN_StQuit = Server"
| "ln_agency LN_StDone = Nobody"

fun ln_transition :: "ln_state \<Rightarrow> ln_message \<Rightarrow> protocol_error + ln_state" where
  "ln_transition LN_StIdle MsgLeiosNotificationRequestNext = Inr LN_StBusy"
| "ln_transition LN_StIdle MsgQuit = Inr LN_StQuit"
| "ln_transition LN_StQuit LN_MsgDone = Inr LN_StDone"
| "ln_transition LN_StBusy MsgCanceled = Inr LN_StIdle"
| "ln_transition LN_StBusy (MsgLeiosBlockAnnouncement _) = Inr LN_StIdle"
| "ln_transition LN_StBusy (MsgLeiosBlockOffer _ _) = Inr LN_StIdle"
| "ln_transition LN_StBusy (MsgLeiosBlockTxsOffer _) = Inr LN_StIdle"
| "ln_transition LN_StBusy (MsgLeiosVotes _) = Inr LN_StIdle"
| "ln_transition _ _ = Inl InvalidMessage"

fun ln_timeout :: "ln_state \<Rightarrow> nat option" where
  "ln_timeout LN_StQuit = Some 120"
| "ln_timeout _ = None"

definition leios_notify :: "(ln_state, ln_message) protocol" where
  "leios_notify = \<lparr>p_initial_state = LN_StIdle, p_agency = ln_agency, p_transition = ln_transition,
                   p_size_limit = (\<lambda>_. 65535), p_timeout = ln_timeout\<rparr>"

datatype leios_notify_event =
    BlockAnnouncement wrapped_header
  | BlockOffer point u32
  | BlockTxsOffer point
  | Votes "vote list"

fun notification_event :: "ln_message \<Rightarrow> protocol_error + leios_notify_event" where
  "notification_event (MsgLeiosBlockAnnouncement header) = Inr (BlockAnnouncement header)"
| "notification_event (MsgLeiosBlockOffer p eb_size) = Inr (BlockOffer p eb_size)"
| "notification_event (MsgLeiosBlockTxsOffer p) = Inr (BlockTxsOffer p)"
| "notification_event (MsgLeiosVotes votes) = Inr (Votes votes)"
| "notification_event _ = Inl InvalidMessage"

definition ln_done ::
  "mux_error option \<Rightarrow> (ln_state, ln_message) runner \<Rightarrow> ln_message recv_event
     \<Rightarrow> (protocol_error + unit) \<times> (ln_state, ln_message) runner" where
  "ln_done failure r ev =
     (case exchange leios_notify failure r MsgQuit ev of
        (Inl e, r1) \<Rightarrow> (Inl e, r1)
      | (Inr msg, r1) \<Rightarrow> (if msg = LN_MsgDone then (Inr (), r1) else (Inl InvalidMessage, r1)))"

definition ln_request_next ::
  "mux_error option \<Rightarrow> mux_error option \<Rightarrow> (ln_state, ln_message) runner \<Rightarrow> ln_message recv_event \<Rightarrow> ln_message recv_event
     \<Rightarrow> (protocol_error + leios_notify_event) \<times> (ln_state, ln_message) runner" where
  "ln_request_next failure1 failure2 r ev1 ev2 =
     (case exchange leios_notify failure1 r MsgLeiosNotificationRequestNext ev1 of
        (Inl e, r1) \<Rightarrow> (Inl e, r1)
      | (Inr msg, r1) \<Rightarrow>
          if msg = MsgCanceled then
            (case ln_done failure2 r1 ev2 of
               (Inl e, r2) \<Rightarrow> (Inl e, r2)
             | (Inr _, r2) \<Rightarrow> (Inl Terminated, r2))
          else (notification_event msg, r1))"

subsection \<open>The pipelined client\<close>

definition PIPELINE_DEPTH :: nat where "PIPELINE_DEPTH = 100"

definition TIMEOUT_QUIT :: nat where "TIMEOUT_QUIT = 120"

datatype client_state = Running | Draining (quit_sent: bool) | ClientDone

record pipelined_client =
  pl_outstanding :: nat
  pl_state :: client_state
  pl_sent :: "ln_message list"
  pl_answered :: nat

datatype pl_event = PlMsg ln_message | PlFail mux_error | PlDeadline

definition pipelined_new :: pipelined_client where
  "pipelined_new = \<lparr>pl_outstanding = 0, pl_state = Running, pl_sent = [], pl_answered = 0\<rparr>"

definition answered :: "pipelined_client \<Rightarrow> pipelined_client" where
  "answered c = c\<lparr>pl_outstanding := pl_outstanding c - 1, pl_answered := pl_answered c + 1\<rparr>"

text \<open>The body of \<open>shutdown\<close> after the Quit: answers for every outstanding request, then Done.\<close>

function pl_drain :: "pipelined_client \<Rightarrow> pl_event list \<Rightarrow> (protocol_error + unit) option \<times> pipelined_client \<times> pl_event list" where
  "pl_drain c [] = (None, c, [])"
| "pl_drain c (PlDeadline # evs) = (Some (Inl (Timeout TIMEOUT_QUIT)), c, evs)"
| "pl_drain c (PlFail e # evs) = (Some (Inl (Mux e)), c, evs)"
| "pl_drain c (PlMsg m # evs) =
     (if pl_outstanding c > 0
      then (if m \<noteq> MsgCanceled \<and> notification_event m = Inl InvalidMessage
            then (Some (Inl InvalidMessage), c, evs)
            else pl_drain (answered c) evs)
      else if m = LN_MsgDone then (Some (Inr ()), c\<lparr>pl_state := ClientDone\<rparr>, evs)
      else (Some (Inl InvalidMessage), c, evs))"
  by pat_completeness auto
termination
  by (relation "measure (\<lambda>(c, evs). length evs)") auto

definition pl_shutdown ::
  "mux_error option \<Rightarrow> pipelined_client \<Rightarrow> pl_event list \<Rightarrow> (protocol_error + unit) option \<times> pipelined_client \<times> pl_event list" where
  "pl_shutdown failure c evs =
     (let c1 = (if pl_state c = Running then c\<lparr>pl_state := Draining False\<rparr> else c)
      in case pl_state c1 of
           Draining sent \<Rightarrow>
             if sent then pl_drain c1 evs
             else (case failure of
                     Some e \<Rightarrow> (Some (Inl (Mux e)), c1, evs)
                   | None \<Rightarrow> pl_drain (c1\<lparr>pl_sent := pl_sent c1 @ [MsgQuit], pl_state := Draining True\<rparr>) evs)
         | _ \<Rightarrow> (Some (Inr ()), c1, evs))"

definition then_terminated ::
  "(protocol_error + unit) option \<times> pipelined_client \<times> pl_event list
     \<Rightarrow> (protocol_error + leios_notify_event) option \<times> pipelined_client \<times> pl_event list" where
  "then_terminated x =
     (case x of (res, c, evs) \<Rightarrow>
        (case res of None \<Rightarrow> None | Some (Inl e) \<Rightarrow> Some (Inl e) | Some (Inr _) \<Rightarrow> Some (Inl Terminated), c, evs))"

definition pl_next ::
  "mux_error option \<Rightarrow> mux_error option \<Rightarrow> mux_error option \<Rightarrow> pipelined_client \<Rightarrow> pl_event list
     \<Rightarrow> (protocol_error + leios_notify_event) option \<times> pipelined_client \<times> pl_event list" where
  "pl_next fail_window fail_credit fail_quit c evs =
     (if pl_state c \<noteq> Running then then_terminated (pl_shutdown fail_quit c evs)
      else if pl_outstanding c < PIPELINE_DEPTH \<and> fail_window \<noteq> None
      then (Some (Inl (Mux (the fail_window))), c, evs)
      else
        let c1 = (if pl_outstanding c < PIPELINE_DEPTH
                  then c\<lparr>pl_sent := pl_sent c @ replicate (PIPELINE_DEPTH - pl_outstanding c) MsgLeiosNotificationRequestNext,
                         pl_outstanding := PIPELINE_DEPTH\<rparr>
                  else c)
        in case evs of
             PlMsg m # rest \<Rightarrow>
               if m = MsgCanceled then then_terminated (pl_shutdown fail_quit (answered c1) rest)
               else (case notification_event m of
                       Inl e \<Rightarrow> (Some (Inl e), c1, rest)
                     | Inr event \<Rightarrow>
                         (case fail_credit of
                            Some e \<Rightarrow> (Some (Inl (Mux e)), answered c1, rest)
                          | None \<Rightarrow>
                              (Some (Inr event),
                               (answered c1)\<lparr>pl_sent := pl_sent c1 @ [MsgLeiosNotificationRequestNext],
                                             pl_outstanding := pl_outstanding (answered c1) + 1\<rparr>, rest)))
           | PlFail e # rest \<Rightarrow> (Some (Inl (Mux e)), c1, rest)
           | _ \<Rightarrow> (None, c1, evs))"

subsection \<open>The protocols meet the contract\<close>

interpretation lf: mini_protocol leios_fetch
proof unfold_locales
  fix s m
  show "p_agency leios_fetch s = Nobody \<Longrightarrow> p_transition leios_fetch s m = Inl InvalidMessage"
    by (cases s) (auto simp: leios_fetch_def)
  show "p_agency leios_fetch s \<noteq> Nobody \<Longrightarrow> \<exists>m s'. p_transition leios_fetch s m = Inr s'"
    by (cases s) (auto simp: leios_fetch_def intro: exI [of _ LF_MsgDone] exI [of _ "MsgLeiosBlock _"]
        exI [of _ "MsgLeiosBlockTxs _"])
  show "p_agency leios_fetch s \<noteq> Nobody \<Longrightarrow> 0 < p_size_limit leios_fetch s"
    by (cases s) (auto simp: leios_fetch_def)
qed (auto simp: leios_fetch_def)

interpretation ln: mini_protocol leios_notify
proof unfold_locales
  fix s m
  show "p_agency leios_notify s = Nobody \<Longrightarrow> p_transition leios_notify s m = Inl InvalidMessage"
    by (cases s) (auto simp: leios_notify_def)
  show "p_agency leios_notify s \<noteq> Nobody \<Longrightarrow> \<exists>m s'. p_transition leios_notify s m = Inr s'"
    by (cases s) (auto simp: leios_notify_def intro: exI [of _ MsgQuit] exI [of _ MsgCanceled] exI [of _ LN_MsgDone])
qed (auto simp: leios_notify_def)


subsection \<open>Credits of the pipelined client\<close>

inductive pl_reachable :: "pipelined_client \<Rightarrow> bool" where
  new: "pl_reachable pipelined_new"
| call_next: "pl_reachable c \<Longrightarrow> pl_next f1 f2 f3 c evs = (res, c', rest) \<Longrightarrow> pl_reachable c'"
| call_shutdown: "pl_reachable c \<Longrightarrow> pl_shutdown f c evs = (res', c', rest) \<Longrightarrow> pl_reachable c'"

definition has_quit :: "client_state \<Rightarrow> bool" where
  "has_quit s = (case s of Running \<Rightarrow> False | Draining sent \<Rightarrow> sent | ClientDone \<Rightarrow> True)"

definition pl_inv :: "pipelined_client \<Rightarrow> bool" where
  "pl_inv c \<longleftrightarrow>
     pl_outstanding c \<le> PIPELINE_DEPTH \<and>
     pl_sent c = replicate (pl_outstanding c + pl_answered c) MsgLeiosNotificationRequestNext @
       (if has_quit (pl_state c) then [MsgQuit] else []) \<and>
     (pl_state c = ClientDone \<longrightarrow> pl_outstanding c = 0)"

lemma answered_inv: "pl_inv c \<Longrightarrow> 0 < pl_outstanding c \<Longrightarrow> pl_inv (answered c)"
  by (auto simp: pl_inv_def answered_def)

lemma pl_drain_inv: "pl_drain c evs = (res, c', rest) \<Longrightarrow> pl_inv c \<Longrightarrow> has_quit (pl_state c) \<Longrightarrow> pl_inv c'"
proof (induction c evs rule: pl_drain.induct)
  case (4 c m evs)
  have q: "has_quit (pl_state (answered c))" using 4(4) by (simp add: answered_def)
  show ?case
  proof (cases "0 < pl_outstanding c")
    case True
    then show ?thesis using 4 q answered_inv [OF 4(3) True] by (auto split: if_splits)
  next
    case False
    then show ?thesis using 4(2-4) by (auto simp: pl_inv_def has_quit_def split: if_splits)
  qed
qed auto

lemma pl_shutdown_inv:
  assumes "pl_shutdown f c evs = (res, c', rest)" and "pl_inv c"
  shows "pl_inv c'"
proof (cases "pl_state c = ClientDone \<or> pl_state c = Draining True")
  case True
  then show ?thesis
    using assms pl_drain_inv [of c evs res c' rest] by (auto simp: pl_shutdown_def has_quit_def)
next
  case False
  then have nq: "pl_state c = Running \<or> pl_state c = Draining False" by (cases "pl_state c") auto
  define c1 where "c1 = c\<lparr>pl_state := Draining False\<rparr>"
  define c2 where "c2 = c1\<lparr>pl_sent := pl_sent c1 @ [MsgQuit], pl_state := Draining True\<rparr>"
  have c: "(if pl_state c = Running then c\<lparr>pl_state := Draining False\<rparr> else c) = c1"
    using nq by (auto simp: c1_def)
  have "pl_inv c1" "pl_inv c2" "has_quit (pl_state c2)" "pl_state c1 = Draining False"
    using assms(2) nq by (auto simp: pl_inv_def c1_def c2_def has_quit_def)
  then show ?thesis
    using assms(1) pl_drain_inv [of c2 evs res c' rest]
    by (auto simp: pl_shutdown_def Let_def c c2_def split: option.splits)
qed

lemma then_terminated_client: "then_terminated x = (res, c, rest) \<Longrightarrow> \<exists>r. x = (r, c, rest)"
  by (auto simp: then_terminated_def split: prod.splits)

lemma fill_window_inv:
  assumes "pl_inv c" and "pl_state c = Running"
  shows "pl_inv (if pl_outstanding c < PIPELINE_DEPTH
    then c\<lparr>pl_sent := pl_sent c @ replicate (PIPELINE_DEPTH - pl_outstanding c) MsgLeiosNotificationRequestNext,
           pl_outstanding := PIPELINE_DEPTH\<rparr> else c)"
  using assms by (auto simp: pl_inv_def has_quit_def simp flip: replicate_add)

lemma credit_inv:
  assumes "pl_inv c" and "pl_state c = Running" and "0 < pl_outstanding c"
  shows "pl_inv ((answered c)\<lparr>pl_sent := pl_sent c @ [MsgLeiosNotificationRequestNext],
                             pl_outstanding := pl_outstanding (answered c) + 1\<rparr>)"
  using assms by (auto simp: pl_inv_def answered_def has_quit_def replicate_append_same)

lemma pl_next_inv:
  assumes "pl_next f1 f2 f3 c evs = (res, c', rest)" and "pl_inv c"
  shows "pl_inv c'"
proof (cases "pl_state c = Running")
  case False
  then have "then_terminated (pl_shutdown f3 c evs) = (res, c', rest)" using assms(1) by (simp add: pl_next_def)
  then show ?thesis using then_terminated_client pl_shutdown_inv assms(2) by blast
next
  case True
  define c1 where "c1 = (if pl_outstanding c < PIPELINE_DEPTH
    then c\<lparr>pl_sent := pl_sent c @ replicate (PIPELINE_DEPTH - pl_outstanding c) MsgLeiosNotificationRequestNext,
           pl_outstanding := PIPELINE_DEPTH\<rparr> else c)"
  have c1: "pl_inv c1" unfolding c1_def by (rule fill_window_inv [OF assms(2) True])
  have st1: "pl_state c1 = Running" using True by (simp add: c1_def)
  have pos: "0 < pl_outstanding c1"
    using assms(2) by (auto simp: c1_def pl_inv_def PIPELINE_DEPTH_def)
  note closed = pl_shutdown_inv [OF _ answered_inv [OF c1 pos]]
  note credit = credit_inv [OF c1 st1 pos]
  show ?thesis
    using assms True c1 answered_inv [OF c1 pos] credit closed then_terminated_client
    unfolding pl_next_def c1_def [symmetric] Let_def
    by (simp split: if_splits list.splits pl_event.splits sum.splits option.splits) (metis closed then_terminated_client)+
qed

lemma pl_reachable_inv: "pl_reachable c \<Longrightarrow> pl_inv c"
proof (induction rule: pl_reachable.induct)
  case new
  then show ?case by (simp add: pl_inv_def pipelined_new_def has_quit_def)
qed (auto intro: pl_next_inv pl_shutdown_inv)


lemma pl_drain_completes:
  assumes "length ms = pl_outstanding c"
    and "\<And>m. m \<in> set ms \<Longrightarrow> m = MsgCanceled \<or> notification_event m \<noteq> Inl InvalidMessage"
  shows "\<exists>c'. pl_drain c (map PlMsg ms @ [PlMsg LN_MsgDone]) = (Some (Inr ()), c', []) \<and> pl_state c' = ClientDone"
  using assms
proof (induction ms arbitrary: c)
  case (Cons m ms)
  then have "length ms = pl_outstanding (answered c)" by (simp add: answered_def)
  from Cons.IH [OF this] Cons.prems show ?case by auto
qed simp

text \<open>The pipelined notification client keeps its credits. Whatever the peer, the channel and the caller do,
  at most 100 requests are outstanding; what was sent is exactly one request per outstanding or
  answered request, followed by a single Quit once shutdown has begun and by nothing after it; and
  the client ends only with every request answered. Shutdown completes as soon as the peer has
  answered the outstanding requests, by notifications or cancellations, and sent Done.\<close>

theorem pipelined_client_credits:
  assumes "pl_reachable c"
  shows "pl_outstanding c \<le> 100 \<and>
    pl_sent c = replicate (pl_outstanding c + pl_answered c) MsgLeiosNotificationRequestNext @
      (if has_quit (pl_state c) then [MsgQuit] else []) \<and>
    (pl_state c = ClientDone \<longrightarrow> pl_outstanding c = 0) \<and>
    (\<forall>ms. length ms = pl_outstanding c \<and> pl_state c \<noteq> ClientDone \<and>
       (\<forall>m \<in> set ms. m = MsgCanceled \<or> notification_event m \<noteq> Inl InvalidMessage) \<longrightarrow>
       (\<exists>c'. pl_shutdown None c (map PlMsg ms @ [PlMsg LN_MsgDone]) = (Some (Inr ()), c', []) \<and>
          pl_state c' = ClientDone))"
proof -
  have "\<exists>c'. pl_shutdown None c (map PlMsg ms @ [PlMsg LN_MsgDone]) = (Some (Inr ()), c', []) \<and> pl_state c' = ClientDone"
    if ms: "length ms = pl_outstanding c" "pl_state c \<noteq> ClientDone"
      "\<forall>m \<in> set ms. m = MsgCanceled \<or> notification_event m \<noteq> Inl InvalidMessage" for ms
  proof -
    have "\<exists>d. pl_outstanding d = pl_outstanding c \<and>
        pl_shutdown None c (map PlMsg ms @ [PlMsg LN_MsgDone]) = pl_drain d (map PlMsg ms @ [PlMsg LN_MsgDone])"
    proof (cases "pl_state c = Draining True")
      case True
      then show ?thesis by (auto simp: pl_shutdown_def)
    next
      case False
      then have "pl_state c = Running \<or> pl_state c = Draining False" using ms(2) by (cases "pl_state c") auto
      then show ?thesis
        by (intro exI [of _ "c\<lparr>pl_sent := pl_sent c @ [MsgQuit], pl_state := Draining True\<rparr>"])
          (auto simp: pl_shutdown_def Let_def)
    qed
    then show ?thesis using pl_drain_completes [of ms] ms(1,3) by fastforce
  qed
  then show ?thesis
    using pl_reachable_inv [OF assms] by (simp add: pl_inv_def PIPELINE_DEPTH_def)
qed

theorem pipelined_client_credits_witness:
  "pl_reachable pipelined_new \<and> pl_outstanding pipelined_new \<le> 100 \<and>
   (\<exists>c'. pl_shutdown None pipelined_new [PlMsg LN_MsgDone] = (Some (Inr ()), c', []) \<and> pl_state c' = ClientDone)"
  using pipelined_client_credits [OF pl_reachable.new] pl_reachable.new
  by (auto simp: pipelined_new_def dest: spec [of _ "[]"])

subsection \<open>Positions of a transaction request\<close>

lemma length_segment_indices: "length (segment_indices e) = count_ones (snd e)"
  by (cases e) (simp add: segment_indices_alt count_ones_def rev_filter [symmetric] del: rev_filter)

lemma requested_positions_iter: "requested_positions bitmap = length (iter_indices bitmap)"
  by (simp add: requested_positions_def iter_indices_def ovalues_def length_concat comp_def length_segment_indices)

text \<open>A transaction request is answered completely or not at all. From an idle client, a successful
  \<open>fetch_block_txs\<close> returns exactly one body per index the bitmap selects, in one exchange that leaves
  the client idle; a reply with any other number of bodies is an error.\<close>

theorem fetch_block_txs_complete:
  assumes "rn_state r = LF_StIdle" and "rn_role r = RClient"
    and "lf_fetch_block_txs failure r p bitmap ev = (res, r')"
  shows "(\<forall>txs. res = Inr txs \<longrightarrow> length txs = length (iter_indices bitmap) \<and>
      r' = r\<lparr>rn_state := LF_StIdle, rn_sent := rn_sent r @ [MsgLeiosBlockTxsRequest p bitmap]\<rparr> \<and>
      (\<exists>dl sz. ev = Decoded dl (MsgLeiosBlockTxs txs) sz)) \<and>
    (\<forall>dl txs sz. ev = Decoded dl (MsgLeiosBlockTxs txs) sz \<and> length txs \<noteq> length (iter_indices bitmap) \<longrightarrow>
      (\<exists>e. res = Inl e))"
proof (cases "fst (exchange leios_fetch failure r (MsgLeiosBlockTxsRequest p bitmap) ev)")
  case (Inl e)
  then have "res = Inl e"
    using assms(3) by (auto simp: lf_fetch_block_txs_def split: prod.splits sum.splits)
  then show ?thesis by auto
next
  case (Inr m)
  then obtain r1 where ex: "exchange leios_fetch failure r (MsgLeiosBlockTxsRequest p bitmap) ev = (Inr m, r1)"
    by (metis prod.collapse)
  then obtain dl sz s2 where ev: "ev = Decoded dl m sz" and s2: "lf_transition LF_StBlockTxs m = Inr s2"
    and r1: "r1 = r\<lparr>rn_state := s2, rn_sent := rn_sent r @ [MsgLeiosBlockTxsRequest p bitmap]\<rparr>"
    using assms(1,2) by (auto simp: exchange_ok leios_fetch_def)
  from s2 obtain txs where m: "m = MsgLeiosBlockTxs txs" "s2 = LF_StIdle" by (cases m) auto
  then show ?thesis
    using assms(3) ex r1 ev by (auto simp: lf_fetch_block_txs_def requested_positions_iter split: if_splits)
qed

theorem fetch_block_txs_complete_witness:
  "\<exists>r'. lf_fetch_block_txs None \<lparr>rn_role = RClient, rn_state = LF_StIdle, rn_sent = []\<rparr> Origin oempty
      (Decoded 1 (MsgLeiosBlockTxs []) 3) = (Inr [], r') \<and> rn_state r' = LF_StIdle"
proof -
  let ?r = "\<lparr>rn_role = RClient, rn_state = LF_StIdle, rn_sent = []\<rparr>"
  obtain r' where r': "lf_fetch_block_txs None ?r Origin oempty (Decoded 1 (MsgLeiosBlockTxs []) 3) = (Inr [], r')"
    by (simp add: lf_fetch_block_txs_def exchange_def runner_send_def runner_recv_def recv_inner_def timed_out_def
        leios_fetch_def requested_positions_def ovalues_def)
  from fetch_block_txs_complete [OF _ _ r'] r' show ?thesis by auto
qed

end
