(* ===== verification/Tx_Submission.thy ===== *)
theory Tx_Submission
  imports Mini_Protocol Mempool "HOL-Library.Multiset"
begin

text \<open>
  \<open>net-rs/net-core/src/protocols/txsubmission/mod.rs\<close>: the pull-based transaction protocol and its
  client (the transaction provider).

  \<^item> The two functions of \<open>net-codec\<close> the client calls are parameters: \<open>wire_tx_id\<close> (the Praos id of a
    serialised transaction, if it parses) and \<open>to_wire\<close> (\<open>leios_mempool_transaction\<close>: the Dijkstra
    submission form, or an error).
  \<^item> The application's channel is a list of batches: the first is ready now, the others arrive later,
    and after the last the channel is closed. \<open>try_recv\<close> takes from the ready batch, \<open>recv\<close> waits.
  \<^item> One call of \<open>client_handle\<close> is one turn of the client's loop: a request and the message it answers
    with; \<open>ts_run_client\<close> is the loop over a list of turns, each what the runner receives and whether
    the channel then takes the answer (\<open>None\<close>: still waiting when the list ends). The notification of the application (\<open>request_sender\<close>) is left out.
\<close>

subsection \<open>The protocol\<close>

definition ORIGIN_ERA :: u16 where "ORIGIN_ERA = 7"
definition MAX_ERA :: u16 where "MAX_ERA = 7"

definition wire_era :: "u16 \<Rightarrow> u16" where
  "wire_era era = (if era > MAX_ERA then ORIGIN_ERA else era)"

record era_tx_id =
  eti_era :: u16
  eti_tx_id :: tx_id

record tx_id_and_size =
  tis_tx_id :: tx_id
  tis_size :: u32
  tis_era :: u16

record pending_tx =
  pt_tx :: tx_info
  pt_era :: u16

record era_tx_body =
  etb_era :: u16
  etb_body :: tx_body

datatype ts_state = TS_StInit | TS_StIdle | TS_StTxIdsBlocking | TS_StTxIdsNonBlocking | TS_StTxs | TS_StDone

datatype ts_message =
    TS_MsgInit
  | MsgRequestTxIdsBlocking u16 u16
  | MsgRequestTxIdsNonBlocking u16 u16
  | MsgReplyTxIds "tx_id_and_size list"
  | MsgRequestTxs "era_tx_id list"
  | MsgReplyTxs "era_tx_body list"
  | TS_MsgDone

fun ts_agency :: "ts_state \<Rightarrow> agency" where
  "ts_agency TS_StInit = Client"
| "ts_agency TS_StIdle = Server"
| "ts_agency TS_StTxIdsBlocking = Client"
| "ts_agency TS_StTxIdsNonBlocking = Client"
| "ts_agency TS_StTxs = Client"
| "ts_agency TS_StDone = Nobody"

fun ts_transition :: "ts_state \<Rightarrow> ts_message \<Rightarrow> protocol_error + ts_state" where
  "ts_transition TS_StInit TS_MsgInit = Inr TS_StIdle"
| "ts_transition TS_StIdle (MsgRequestTxIdsBlocking _ _) = Inr TS_StTxIdsBlocking"
| "ts_transition TS_StIdle (MsgRequestTxIdsNonBlocking _ _) = Inr TS_StTxIdsNonBlocking"
| "ts_transition TS_StIdle (MsgRequestTxs _) = Inr TS_StTxs"
| "ts_transition TS_StTxIdsBlocking (MsgReplyTxIds _) = Inr TS_StIdle"
| "ts_transition TS_StTxIdsBlocking TS_MsgDone = Inr TS_StDone"
| "ts_transition TS_StTxIdsNonBlocking (MsgReplyTxIds _) = Inr TS_StIdle"
| "ts_transition TS_StTxs (MsgReplyTxs _) = Inr TS_StIdle"
| "ts_transition _ _ = Inl InvalidMessage"

fun ts_size_limit :: "ts_state \<Rightarrow> nat" where
  "ts_size_limit TS_StInit = 5760"
| "ts_size_limit TS_StIdle = 5760"
| "ts_size_limit TS_StDone = 0"
| "ts_size_limit _ = 2500000"

fun ts_timeout :: "ts_state \<Rightarrow> nat option" where
  "ts_timeout TS_StTxIdsNonBlocking = Some 10"
| "ts_timeout TS_StTxs = Some 10"
| "ts_timeout _ = None"

definition tx_submission :: "(ts_state, ts_message) protocol" where
  "tx_submission = \<lparr>p_initial_state = TS_StInit, p_agency = ts_agency, p_transition = ts_transition,
                    p_size_limit = ts_size_limit, p_timeout = ts_timeout\<rparr>"

interpretation ts: mini_protocol tx_submission
proof unfold_locales
  fix s m
  show "p_agency tx_submission s = Nobody \<Longrightarrow> p_transition tx_submission s m = Inl InvalidMessage"
    by (cases s) (auto simp: tx_submission_def)
  show "p_agency tx_submission s \<noteq> Nobody \<Longrightarrow> \<exists>m s'. p_transition tx_submission s m = Inr s'"
    by (cases s) (auto simp: tx_submission_def intro: exI [of _ TS_MsgInit] exI [of _ "MsgRequestTxs _"]
        exI [of _ TS_MsgDone] exI [of _ "MsgReplyTxIds _"] exI [of _ "MsgReplyTxs _"])
  show "p_agency tx_submission s \<noteq> Nobody \<Longrightarrow> 0 < p_size_limit tx_submission s"
    by (cases s) (auto simp: tx_submission_def)
qed (auto simp: tx_submission_def)

subsection \<open>The client\<close>

text \<open>\<open>PendingTx::new_with_body\<close>, with \<open>net_codec::mempool_leios_transaction\<close> and the transaction hash as parameters.\<close>

definition pending_tx_new_with_body ::
  "(tx_body \<Rightarrow> string + tx_body) \<Rightarrow> (tx_body \<Rightarrow> tx_id) \<Rightarrow> tx_body \<Rightarrow> u16 \<Rightarrow> pending_tx" where
  "pending_tx_new_with_body from_wire hash body era =
     (let b = (if era = ORIGIN_ERA then (case from_wire body of Inl _ \<Rightarrow> body | Inr b' \<Rightarrow> b') else body)
      in \<lparr>pt_tx = tx_info_new_with_body hash b, pt_era = era\<rparr>)"

record tx_client =
  tc_announced :: "pending_tx list"
  tc_pending_bodies :: "pending_tx list"

definition pt_id :: "pending_tx \<Rightarrow> tx_id" where
  "pt_id p = ti_tx_id (pt_tx p)"

text \<open>\<open>iter().position(P)\<close> followed by \<open>remove(pos)\<close>.\<close>

fun remove_first :: "('a \<Rightarrow> bool) \<Rightarrow> 'a list \<Rightarrow> 'a list" where
  "remove_first P [] = []"
| "remove_first P (x # xs) = (if P x then xs else x # remove_first P xs)"

fun ack_loop :: "nat \<Rightarrow> tx_client \<Rightarrow> tx_client" where
  "ack_loop 0 c = c"
| "ack_loop (Suc n) c =
     (case tc_announced c of
        [] \<Rightarrow> c
      | acked # rest \<Rightarrow>
          ack_loop n (c\<lparr>tc_announced := rest,
                        tc_pending_bodies := remove_first (\<lambda>p. pt_id p = pt_id acked) (tc_pending_bodies c)\<rparr>))"

definition ack_and_prune :: "tx_client \<Rightarrow> u16 \<Rightarrow> tx_client" where
  "ack_and_prune c ack = ack_loop (unat ack) c"

definition praos_tx_id :: "(tx_body \<Rightarrow> tx_id option) \<Rightarrow> pending_tx \<Rightarrow> tx_id option" where
  "praos_tx_id wire_tx_id p = wire_tx_id (ti_body (pt_tx p))"

text \<open>The form a transaction is announced in: for the origin era the submission body, if there is one.\<close>

definition wire_form :: "(tx_body \<Rightarrow> string + tx_body) \<Rightarrow> pending_tx \<Rightarrow> pending_tx option" where
  "wire_form to_wire p =
     (if pt_era p = ORIGIN_ERA then
        (case to_wire (ti_body (pt_tx p)) of
           Inl _ \<Rightarrow> None
         | Inr body \<Rightarrow>
             Some \<lparr>pt_tx = \<lparr>ti_tx_id = ti_tx_id (pt_tx p), ti_body = body, ti_size = of_nat (length body)\<rparr>,
                   pt_era = pt_era p\<rparr>)
      else Some p)"

fun announce_txs ::
  "(tx_body \<Rightarrow> tx_id option) \<Rightarrow> (tx_body \<Rightarrow> string + tx_body) \<Rightarrow> pending_tx list \<Rightarrow> tx_client
     \<Rightarrow> tx_id_and_size list \<times> tx_client" where
  "announce_txs wire_tx_id to_wire [] c = ([], c)"
| "announce_txs wire_tx_id to_wire (p # ps) c =
     (case wire_form to_wire p of
        None \<Rightarrow> announce_txs wire_tx_id to_wire ps c
      | Some tx \<Rightarrow>
          (case praos_tx_id wire_tx_id tx of
             None \<Rightarrow> announce_txs wire_tx_id to_wire ps c
           | Some tid \<Rightarrow>
               let (reply, c1) = announce_txs wire_tx_id to_wire ps
                     (c\<lparr>tc_announced := tc_announced c @ [tx], tc_pending_bodies := tc_pending_bodies c @ [tx]\<rparr>)
               in (\<lparr>tis_tx_id = tid, tis_size = ti_size (pt_tx tx), tis_era = wire_era (pt_era tx)\<rparr> # reply, c1)))"

record tx_channel =
  ch_ready :: "pending_tx list"
  ch_later :: "pending_tx list list"

definition try_recv_up_to :: "nat \<Rightarrow> tx_channel \<Rightarrow> pending_tx list \<times> tx_channel" where
  "try_recv_up_to n ch = (take n (ch_ready ch), ch\<lparr>ch_ready := drop n (ch_ready ch)\<rparr>)"

fun recv_later :: "pending_tx list list \<Rightarrow> (pending_tx \<times> tx_channel) option" where
  "recv_later [] = None"
| "recv_later ([] # bs) = recv_later bs"
| "recv_later ((x # xs) # bs) = Some (x, \<lparr>ch_ready = xs, ch_later = bs\<rparr>)"

definition chan_recv :: "tx_channel \<Rightarrow> (pending_tx \<times> tx_channel) option" where
  "chan_recv ch =
     (case ch_ready ch of
        x # xs \<Rightarrow> Some (x, ch\<lparr>ch_ready := xs\<rparr>)
      | [] \<Rightarrow> recv_later (ch_later ch))"

definition ch_size :: "tx_channel \<Rightarrow> nat" where
  "ch_size ch = length (ch_ready ch) + length (concat (ch_later ch))"

text \<open>A non-empty batch of at most \<open>max 1 req\<close> transactions, or \<open>None\<close> once the channel is closed.\<close>

definition collect_blocking :: "nat \<Rightarrow> tx_channel \<Rightarrow> (pending_tx list \<times> tx_channel) option" where
  "collect_blocking req ch =
     (let (new_txs, ch1) = try_recv_up_to req ch
      in if new_txs \<noteq> [] then Some (new_txs, ch1)
         else (case chan_recv ch1 of
                 None \<Rightarrow> None
               | Some (tx, ch2) \<Rightarrow>
                   let (more_txs, ch3) = try_recv_up_to (req - 1) ch2 in Some (tx # more_txs, ch3)))"

lemma recv_later_size: "recv_later bs = Some (x, ch) \<Longrightarrow> ch_size ch < length (concat bs)"
  by (induction bs rule: recv_later.induct) (auto simp: ch_size_def)

lemma chan_recv_size: "chan_recv ch = Some (x, ch') \<Longrightarrow> ch_size ch' < ch_size ch"
  by (auto simp: chan_recv_def ch_size_def split: list.splits dest: recv_later_size [unfolded ch_size_def])

lemma collect_blocking_progress:
  assumes "collect_blocking req ch = Some (txs, ch')"
  shows "txs \<noteq> [] \<and> length txs \<le> max 1 req \<and> ch_size ch' < ch_size ch"
proof (cases "take req (ch_ready ch) = []")
  case False
  then have eq: "txs = take req (ch_ready ch)" "ch' = ch\<lparr>ch_ready := drop req (ch_ready ch)\<rparr>"
    using assms by (simp_all add: collect_blocking_def try_recv_up_to_def)
  then have "length txs \<le> req" "0 < length txs" using False by (simp_all add: eq)
  moreover have "length (drop req (ch_ready ch)) < length (ch_ready ch)" using False by auto
  ultimately show ?thesis using False by (auto simp: eq ch_size_def)
next
  case True
  then have "ch\<lparr>ch_ready := drop req (ch_ready ch)\<rparr> = ch" by (cases ch) auto
  with True assms obtain tx ch2 where r: "chan_recv ch = Some (tx, ch2)"
    and t: "txs = tx # take (req - 1) (ch_ready ch2)" "ch' = ch2\<lparr>ch_ready := drop (req - 1) (ch_ready ch2)\<rparr>"
    by (auto simp: collect_blocking_def try_recv_up_to_def Let_def split: option.splits)
  have "ch_size ch' \<le> ch_size ch2" by (simp add: t(2) ch_size_def)
  then show ?thesis using chan_recv_size [OF r] t(1) by auto
qed

function blocking_loop ::
  "(tx_body \<Rightarrow> tx_id option) \<Rightarrow> (tx_body \<Rightarrow> string + tx_body) \<Rightarrow> nat \<Rightarrow> tx_client \<Rightarrow> tx_channel
     \<Rightarrow> tx_id_and_size list option \<times> tx_client \<times> tx_channel" where
  "blocking_loop wire_tx_id to_wire req c ch =
     (case collect_blocking req ch of
        None \<Rightarrow> (None, c, ch)
      | Some (new_txs, ch1) \<Rightarrow>
          (case announce_txs wire_tx_id to_wire new_txs c of
             (reply, c1) \<Rightarrow>
               if reply \<noteq> [] then (Some reply, c1, ch1)
               else blocking_loop wire_tx_id to_wire req c1 ch1))"
  by pat_completeness auto
termination
  by (relation "measure (\<lambda>(w, t, req, c, ch). ch_size ch)") (auto dest!: collect_blocking_progress)

fun lookup_bodies ::
  "(tx_body \<Rightarrow> tx_id option) \<Rightarrow> era_tx_id list \<Rightarrow> pending_tx list \<Rightarrow> era_tx_body list \<times> pending_tx list" where
  "lookup_bodies wire_tx_id [] pending = ([], pending)"
| "lookup_bodies wire_tx_id (i # is) pending =
     (case find (\<lambda>p. praos_tx_id wire_tx_id p = Some (eti_tx_id i)) pending of
        None \<Rightarrow> lookup_bodies wire_tx_id is pending
      | Some p \<Rightarrow>
          let (txs, pending1) = lookup_bodies wire_tx_id is
                (remove_first (\<lambda>p. praos_tx_id wire_tx_id p = Some (eti_tx_id i)) pending)
          in (\<lparr>etb_era = wire_era (pt_era p), etb_body = ti_body (pt_tx p)\<rparr> # txs, pending1))"

definition client_handle ::
  "(tx_body \<Rightarrow> tx_id option) \<Rightarrow> (tx_body \<Rightarrow> string + tx_body) \<Rightarrow> ts_message \<Rightarrow> tx_client \<Rightarrow> tx_channel
     \<Rightarrow> (protocol_error + ts_message) \<times> tx_client \<times> tx_channel" where
  "client_handle wire_tx_id to_wire msg c ch =
     (case msg of
        MsgRequestTxIdsBlocking ack req \<Rightarrow>
          (case blocking_loop wire_tx_id to_wire (unat req) (ack_and_prune c ack) ch of
             (None, c1, ch1) \<Rightarrow> (Inr TS_MsgDone, c1, ch1)
           | (Some reply, c1, ch1) \<Rightarrow> (Inr (MsgReplyTxIds reply), c1, ch1))
      | MsgRequestTxIdsNonBlocking ack req \<Rightarrow>
          (let (new_txs, ch1) = try_recv_up_to (unat req) ch;
               (reply, c1) = announce_txs wire_tx_id to_wire new_txs (ack_and_prune c ack)
           in (Inr (MsgReplyTxIds reply), c1, ch1))
      | MsgRequestTxs tx_ids \<Rightarrow>
          (let (txs, pending1) = lookup_bodies wire_tx_id tx_ids (tc_pending_bodies c)
           in (Inr (MsgReplyTxs txs), c\<lparr>tc_pending_bodies := pending1\<rparr>, ch))
      | _ \<Rightarrow> (Inl InvalidMessage, c, ch))"

fun client_loop ::
  "(tx_body \<Rightarrow> tx_id option) \<Rightarrow> (tx_body \<Rightarrow> string + tx_body) \<Rightarrow> (ts_message recv_event \<times> mux_error option) list
     \<Rightarrow> (ts_state, ts_message) runner \<Rightarrow> tx_client \<Rightarrow> tx_channel
     \<Rightarrow> (protocol_error + unit) option \<times> (ts_state, ts_message) runner \<times> tx_client" where
  "client_loop wire_tx_id to_wire [] r c ch = (None, r, c)"
| "client_loop wire_tx_id to_wire ((ev, failure) # turns) r c ch =
     (case runner_recv tx_submission r ev of
        (Inl e, r1) \<Rightarrow> (Some (Inl e), r1, c)
      | (Inr msg, r1) \<Rightarrow>
          (case client_handle wire_tx_id to_wire msg c ch of
             (Inl e, c1, ch1) \<Rightarrow> (Some (Inl e), r1, c1)
           | (Inr answer, c1, ch1) \<Rightarrow>
               (case runner_send tx_submission failure r1 answer of
                  (Inl e, r2) \<Rightarrow> (Some (Inl e), r2, c1)
                | (Inr _, r2) \<Rightarrow>
                    if answer = TS_MsgDone then (Some (Inr ()), r2, c1)
                    else client_loop wire_tx_id to_wire turns r2 c1 ch1)))"

definition ts_run_client ::
  "(tx_body \<Rightarrow> tx_id option) \<Rightarrow> (tx_body \<Rightarrow> string + tx_body) \<Rightarrow> mux_error option
     \<Rightarrow> (ts_message recv_event \<times> mux_error option) list \<Rightarrow> (ts_state, ts_message) runner \<Rightarrow> tx_channel
     \<Rightarrow> (protocol_error + unit) option \<times> (ts_state, ts_message) runner \<times> tx_client" where
  "ts_run_client wire_tx_id to_wire failure turns r ch =
     (case runner_send tx_submission failure r TS_MsgInit of
        (Inl e, r1) \<Rightarrow> (Some (Inl e), r1, \<lparr>tc_announced = [], tc_pending_bodies = []\<rparr>)
      | (Inr _, r1) \<Rightarrow>
          client_loop wire_tx_id to_wire turns r1 \<lparr>tc_announced = [], tc_pending_bodies = []\<rparr> ch)"

subsection \<open>The window\<close>

text \<open>Every body kept belongs to an identifier still in the unacknowledged window.\<close>

definition window_ok :: "tx_client \<Rightarrow> bool" where
  "window_ok c \<longleftrightarrow> mset (map pt_id (tc_pending_bodies c)) \<subseteq># mset (map pt_id (tc_announced c))"

lemma mset_map_remove_first:
  "mset (map pt_id (remove_first (\<lambda>p. pt_id p = i) ps)) = mset (map pt_id ps) - {#i#}"
  by (induction ps) (simp_all del: mset_map add: diff_add_mset_swap)

lemma ack_loop_announced: "tc_announced (ack_loop n c) = drop n (tc_announced c)"
  by (induction n c rule: ack_loop.induct) (auto split: list.splits)

lemma ack_loop_window: "window_ok c \<Longrightarrow> window_ok (ack_loop n c)"
proof (induction n c rule: ack_loop.induct)
  case (2 n c)
  show ?case
  proof (cases "tc_announced c")
    case (Cons a rest)
    have "mset (map pt_id (tc_pending_bodies c)) - {#pt_id a#} \<subseteq># mset (map pt_id rest)"
      using 2(2) Cons by (auto simp: window_ok_def subset_eq_diff_conv)
    then have "window_ok (c\<lparr>tc_announced := rest,
        tc_pending_bodies := remove_first (\<lambda>p. pt_id p = pt_id a) (tc_pending_bodies c)\<rparr>)"
      by (simp add: window_ok_def mset_map_remove_first del: mset_map)
    then show ?thesis using 2(1) [OF Cons] Cons by simp
  qed (use 2(2) in simp)
qed simp

text \<open>The form a transaction is tracked in, if it is announced at all.\<close>

definition announced_form ::
  "(tx_body \<Rightarrow> tx_id option) \<Rightarrow> (tx_body \<Rightarrow> string + tx_body) \<Rightarrow> pending_tx \<Rightarrow> pending_tx option" where
  "announced_form w t p =
     (case wire_form t p of
        None \<Rightarrow> None
      | Some tx \<Rightarrow> if praos_tx_id w tx = None then None else Some tx)"

definition announcement :: "(tx_body \<Rightarrow> tx_id option) \<Rightarrow> pending_tx \<Rightarrow> tx_id_and_size" where
  "announcement w tx = \<lparr>tis_tx_id = the (praos_tx_id w tx), tis_size = ti_size (pt_tx tx), tis_era = wire_era (pt_era tx)\<rparr>"

lemma announce_txs_effect:
  "announce_txs w t ps c =
     (let new_txs = List.map_filter (announced_form w t) ps
      in (map (announcement w) new_txs,
          c\<lparr>tc_announced := tc_announced c @ new_txs, tc_pending_bodies := tc_pending_bodies c @ new_txs\<rparr>))"
  by (induction w t ps c rule: announce_txs.induct)
    (auto simp: announced_form_def announcement_def Let_def List.map_filter_simps split: option.splits)

lemma announce_window:
  "window_ok c \<Longrightarrow> window_ok (c\<lparr>tc_announced := tc_announced c @ ts, tc_pending_bodies := tc_pending_bodies c @ ts\<rparr>)"
  by (simp add: window_ok_def subset_mset.add_right_mono)

text \<open>What is still to come on the channel.\<close>

definition ch_contents :: "tx_channel \<Rightarrow> pending_tx list" where
  "ch_contents ch = ch_ready ch @ concat (ch_later ch)"

lemma try_recv_contents: "try_recv_up_to n ch = (txs, ch') \<Longrightarrow> ch_contents ch = txs @ ch_contents ch'"
  by (auto simp: try_recv_up_to_def ch_contents_def)

lemma recv_later_contents:
  "recv_later bs = Some (x, ch) \<Longrightarrow> concat bs = x # ch_contents ch"
  "recv_later bs = None \<Longrightarrow> concat bs = []"
  by (induction bs rule: recv_later.induct) (auto simp: ch_contents_def)

lemma chan_recv_contents:
  "chan_recv ch = Some (x, ch') \<Longrightarrow> ch_contents ch = x # ch_contents ch'"
  "chan_recv ch = None \<Longrightarrow> ch_contents ch = []"
  using recv_later_contents by (auto simp: chan_recv_def ch_contents_def split: list.splits)

lemma collect_blocking_contents:
  "collect_blocking req ch = Some (txs, ch') \<Longrightarrow> ch_contents ch = txs @ ch_contents ch'"
  "collect_blocking req ch = None \<Longrightarrow> ch_contents ch = []"
proof -
  have r: "ch_contents ch = take req (ch_ready ch) @ ch_contents (ch\<lparr>ch_ready := drop req (ch_ready ch)\<rparr>)"
    by (simp add: ch_contents_def)
  show "collect_blocking req ch = Some (txs, ch') \<Longrightarrow> ch_contents ch = txs @ ch_contents ch'"
    using r chan_recv_contents(1)
    by (fastforce simp: collect_blocking_def Let_def try_recv_up_to_def ch_contents_def
        split: if_splits option.splits prod.splits)
  show "collect_blocking req ch = None \<Longrightarrow> ch_contents ch = []"
    using r chan_recv_contents(2)
    by (auto simp: collect_blocking_def Let_def try_recv_up_to_def split: if_splits option.splits prod.splits)
qed

lemma map_filter_length: "length (List.map_filter f xs) \<le> length xs"
  by (simp add: List.map_filter_def)

text \<open>
  The blocking loop announces the first announceable transactions of the channel and nothing is lost:
  what it skipped cannot be announced.
\<close>

lemma blocking_loop_effect:
  assumes "blocking_loop w t req c ch = (r, c', ch')"
  shows "\<exists>new_txs.
    c' = c\<lparr>tc_announced := tc_announced c @ new_txs, tc_pending_bodies := tc_pending_bodies c @ new_txs\<rparr> \<and>
    List.map_filter (announced_form w t) (ch_contents ch) =
      new_txs @ List.map_filter (announced_form w t) (ch_contents ch') \<and>
    length new_txs \<le> max 1 req \<and>
    r = (if new_txs = [] then None else Some (map (announcement w) new_txs)) \<and>
    (new_txs = [] \<longrightarrow> ch_contents ch' = [])"
  using assms
proof (induction w t req c ch rule: blocking_loop.induct)
  case (1 w t req c ch)
  show ?case
  proof (cases "collect_blocking req ch")
    case None
    then show ?thesis using 1(2) collect_blocking_contents(2) [OF None] by simp
  next
    case (Some tc)
    then obtain txs ch1 where s: "collect_blocking req ch = Some (txs, ch1)" by (cases tc) auto
    define new where "new = List.map_filter (announced_form w t) txs"
    define c1 where "c1 = c\<lparr>tc_announced := tc_announced c @ new, tc_pending_bodies := tc_pending_bodies c @ new\<rparr>"
    have a: "announce_txs w t txs c = (map (announcement w) new, c1)"
      by (simp add: announce_txs_effect Let_def new_def c1_def)
    have m: "List.map_filter (announced_form w t) (ch_contents ch) =
        new @ List.map_filter (announced_form w t) (ch_contents ch1)"
      by (simp add: collect_blocking_contents(1) [OF s] new_def)
    show ?thesis
    proof (cases "new = []")
      case True
      then have "blocking_loop w t req c1 ch1 = (r, c', ch')" using 1(2) s a by simp
      moreover have "c1 = c" by (simp add: c1_def True)
      ultimately show ?thesis using 1(1) [OF s _ a [symmetric]] True m by simp
    next
      case False
      then have "(r, c', ch') = (Some (map (announcement w) new), c1, ch1)" using 1(2) s a by simp
      moreover have "length new \<le> max 1 req"
        using map_filter_length [of "announced_form w t" txs] collect_blocking_progress [OF s] new_def by simp
      ultimately show ?thesis using False m by (auto simp: c1_def)
    qed
  qed
qed

declare blocking_loop.simps [simp del]

subsection \<open>Requested bodies\<close>

lemma remove_first_find: "find P ps = Some p \<Longrightarrow> mset ps = add_mset p (mset (remove_first P ps))"
  by (induction ps) (auto split: if_splits)

lemma set_remove_first: "set (remove_first P ps) \<subseteq> set ps"
  by (induction ps) auto

lemma mem_remove_first: "p \<in> set ps \<Longrightarrow> \<not> P p \<Longrightarrow> p \<in> set (remove_first P ps)"
  by (induction ps) auto

definition tx_delivery :: "pending_tx \<Rightarrow> era_tx_body" where
  "tx_delivery p = \<lparr>etb_era = wire_era (pt_era p), etb_body = ti_body (pt_tx p)\<rparr>"

text \<open>What is delivered leaves the pending bodies, carries a requested identifier, and covers every request.\<close>

lemma lookup_bodies_effect:
  assumes "lookup_bodies w ids pending = (txs, pending')"
  shows "\<exists>ps. txs = map tx_delivery ps \<and> mset pending = mset ps + mset pending' \<and>
    (\<forall>p\<in>set ps. \<exists>i\<in>set ids. praos_tx_id w p = Some (eti_tx_id i)) \<and> length ps \<le> length ids \<and>
    (\<forall>i\<in>set ids. (\<exists>p\<in>set pending. praos_tx_id w p = Some (eti_tx_id i)) \<longrightarrow>
       (\<exists>p\<in>set ps. praos_tx_id w p = Some (eti_tx_id i)))"
  using assms
proof (induction w ids pending arbitrary: txs rule: lookup_bodies.induct)
  case (2 w i ids pending)
  let ?P = "\<lambda>p. praos_tx_id w p = Some (eti_tx_id i)"
  show ?case
  proof (cases "find ?P pending")
    case None
    then have no: "\<forall>p\<in>set pending. \<not> ?P p" by (auto simp: find_None_iff)
    obtain ps where "txs = map tx_delivery ps" "mset pending = mset ps + mset pending'"
      "\<forall>p\<in>set ps. \<exists>i\<in>set ids. praos_tx_id w p = Some (eti_tx_id i)" "length ps \<le> length ids"
      "\<forall>i\<in>set ids. (\<exists>p\<in>set pending. praos_tx_id w p = Some (eti_tx_id i)) \<longrightarrow>
         (\<exists>p\<in>set ps. praos_tx_id w p = Some (eti_tx_id i))"
      using 2(1) [OF None] 2(3) None by auto
    with no show ?thesis by (intro exI [of _ ps]) auto
  next
    case (Some p)
    let ?rest = "remove_first ?P pending"
    obtain txs1 where l: "lookup_bodies w ids ?rest = (txs1, pending')" "txs = tx_delivery p # txs1"
      using 2(3) Some by (auto simp: tx_delivery_def split: prod.splits)
    obtain ps where ps: "txs1 = map tx_delivery ps" "mset ?rest = mset ps + mset pending'"
      "\<forall>p\<in>set ps. \<exists>i\<in>set ids. praos_tx_id w p = Some (eti_tx_id i)" "length ps \<le> length ids"
      "\<forall>i\<in>set ids. (\<exists>p\<in>set ?rest. praos_tx_id w p = Some (eti_tx_id i)) \<longrightarrow>
         (\<exists>p\<in>set ps. praos_tx_id w p = Some (eti_tx_id i))"
      using 2(2) [OF Some l(1)] by blast
    have p: "?P p" using Some by (auto simp: find_Some_iff)
    have "\<exists>q\<in>set (p # ps). praos_tx_id w q = Some (eti_tx_id j)"
      if "j \<in> set ids" "q \<in> set pending" "praos_tx_id w q = Some (eti_tx_id j)" for j q
    proof (cases "?P q")
      case True
      then show ?thesis using p that by auto
    next
      case False
      then show ?thesis using ps(5) that mem_remove_first [of q pending ?P] by auto
    qed
    then show ?thesis
      using l(2) ps(1-4) p remove_first_find [OF Some] by (intro exI [of _ "p # ps"]) auto
  qed
qed simp

lemma window_ok_pending_mono:
  assumes "window_ok c" and "mset ps \<subseteq># mset (tc_pending_bodies c)"
  shows "window_ok (c\<lparr>tc_pending_bodies := ps\<rparr>)"
proof -
  have "mset (map pt_id ps) \<subseteq># mset (map pt_id (tc_pending_bodies c))"
    using image_mset_subseteq_mono [OF assms(2), of pt_id] by simp
  then show ?thesis using assms(1) subset_mset.order_trans by (simp add: window_ok_def)
qed

subsection \<open>A turn of the client\<close>

fun asks_tx_ids :: "ts_message \<Rightarrow> (bool \<times> u16 \<times> u16) option" where
  "asks_tx_ids (MsgRequestTxIdsBlocking ack req) = Some (True, ack, req)"
| "asks_tx_ids (MsgRequestTxIdsNonBlocking ack req) = Some (False, ack, req)"
| "asks_tx_ids _ = None"

lemma tx_ids_turn:
  assumes "asks_tx_ids msg = Some (blocking, ack, req)"
    and "client_handle w t msg c ch = (r, c', ch')"
  shows "\<exists>new_txs.
    tc_announced c' = drop (unat ack) (tc_announced c) @ new_txs \<and>
    List.map_filter (announced_form w t) (ch_contents ch) =
      new_txs @ List.map_filter (announced_form w t) (ch_contents ch') \<and>
    length new_txs \<le> max 1 (unat req) \<and>
    (window_ok c \<longrightarrow> window_ok c') \<and>
    r = Inr (if blocking \<and> new_txs = [] then TS_MsgDone else MsgReplyTxIds (map (announcement w) new_txs)) \<and>
    (blocking \<and> new_txs = [] \<longrightarrow> ch_contents ch' = [])"
proof (cases blocking)
  case True
  then have m: "msg = MsgRequestTxIdsBlocking ack req" using assms(1) by (cases msg) auto
  obtain rr where b: "blocking_loop w t (unat req) (ack_and_prune c ack) ch = (rr, c', ch')"
    "r = (case rr of None \<Rightarrow> Inr TS_MsgDone | Some reply \<Rightarrow> Inr (MsgReplyTxIds reply))"
    using assms(2) m by (auto simp: client_handle_def split: prod.splits option.splits)
  from blocking_loop_effect [OF b(1)] obtain new_txs where n:
    "c' = (ack_and_prune c ack)\<lparr>tc_announced := tc_announced (ack_and_prune c ack) @ new_txs,
       tc_pending_bodies := tc_pending_bodies (ack_and_prune c ack) @ new_txs\<rparr>"
    "List.map_filter (announced_form w t) (ch_contents ch) =
       new_txs @ List.map_filter (announced_form w t) (ch_contents ch')"
    "length new_txs \<le> max 1 (unat req)"
    "rr = (if new_txs = [] then None else Some (map (announcement w) new_txs))"
    "new_txs = [] \<longrightarrow> ch_contents ch' = []" by blast
  have "window_ok c \<longrightarrow> window_ok c'"
    using announce_window ack_loop_window n(1) by (simp add: ack_and_prune_def)
  then show ?thesis
    using n b(2) True by (intro exI [of _ new_txs]) (auto simp: ack_and_prune_def ack_loop_announced)
next
  case False
  then have m: "msg = MsgRequestTxIdsNonBlocking ack req" using assms(1) by (cases msg) auto
  define txs where "txs = take (unat req) (ch_ready ch)"
  define new where "new = List.map_filter (announced_form w t) txs"
  have e: "r = Inr (MsgReplyTxIds (map (announcement w) new))"
    "c' = (ack_and_prune c ack)\<lparr>tc_announced := tc_announced (ack_and_prune c ack) @ new,
       tc_pending_bodies := tc_pending_bodies (ack_and_prune c ack) @ new\<rparr>"
    "ch' = ch\<lparr>ch_ready := drop (unat req) (ch_ready ch)\<rparr>"
    using assms(2) m by (simp_all add: client_handle_def try_recv_up_to_def announce_txs_effect Let_def new_def txs_def)
  have "length new \<le> max 1 (unat req)"
    using map_filter_length [of "announced_form w t" txs] by (simp add: new_def txs_def le_max_iff_disj)
  moreover have "ch_contents ch = txs @ ch_contents ch'" by (simp add: e(3) txs_def ch_contents_def)
  moreover have "window_ok c \<longrightarrow> window_ok c'"
    using announce_window ack_loop_window e(2) by (simp add: ack_and_prune_def)
  ultimately show ?thesis
    using e False by (intro exI [of _ new]) (auto simp: ack_and_prune_def ack_loop_announced new_def)
qed

lemma wire_era_valid: "wire_era e \<le> MAX_ERA"
  by (auto simp: wire_era_def MAX_ERA_def ORIGIN_ERA_def)

lemma txs_turn:
  assumes "client_handle w t (MsgRequestTxs ids) c ch = (r, c', ch')"
  shows "\<exists>ps. r = Inr (MsgReplyTxs (map tx_delivery ps)) \<and> ch' = ch \<and> tc_announced c' = tc_announced c \<and>
    mset (tc_pending_bodies c) = mset ps + mset (tc_pending_bodies c') \<and> (window_ok c \<longrightarrow> window_ok c') \<and>
    (\<forall>p\<in>set ps. \<exists>i\<in>set ids. praos_tx_id w p = Some (eti_tx_id i)) \<and> length ps \<le> length ids \<and>
    (\<forall>i\<in>set ids. (\<exists>p\<in>set (tc_pending_bodies c). praos_tx_id w p = Some (eti_tx_id i)) \<longrightarrow>
       (\<exists>p\<in>set ps. praos_tx_id w p = Some (eti_tx_id i)))"
proof -
  obtain txs pending where l: "lookup_bodies w ids (tc_pending_bodies c) = (txs, pending)" by (cases "lookup_bodies w ids (tc_pending_bodies c)")
  then have e: "r = Inr (MsgReplyTxs txs)" "c' = c\<lparr>tc_pending_bodies := pending\<rparr>" "ch' = ch"
    using assms by (simp_all add: client_handle_def)
  have "window_ok c'" if "window_ok c"
    using lookup_bodies_effect [OF l] window_ok_pending_mono [OF that, of pending] e(2) by auto
  then show ?thesis using lookup_bodies_effect [OF l] e by auto
qed

text \<open>Every answer is a legal reply in the state its request led to.\<close>

lemma client_handle_legal:
  assumes "ts_transition TS_StIdle msg = Inr st" and "client_handle w t msg c ch = (r, c', ch')" and "window_ok c"
  shows "window_ok c' \<and> ts_agency st = Client \<and>
    (\<exists>answer. r = Inr answer \<and> ts_transition st answer = Inr (if answer = TS_MsgDone then TS_StDone else TS_StIdle))"
proof (cases "asks_tx_ids msg")
  case None
  then obtain ids where "msg = MsgRequestTxs ids" "st = TS_StTxs" using assms(1) by (cases msg) auto
  then show ?thesis using txs_turn [of w t ids c ch] assms(2,3) by auto
next
  case (Some q)
  then obtain blocking ack req where q: "asks_tx_ids msg = Some (blocking, ack, req)" by (cases q) auto
  then have st: "st = (if blocking then TS_StTxIdsBlocking else TS_StTxIdsNonBlocking)"
    using assms(1) by (cases msg) auto
  from tx_ids_turn [OF q assms(2)] obtain new_txs where
    "r = Inr (if blocking \<and> new_txs = [] then TS_MsgDone else MsgReplyTxIds (map (announcement w) new_txs))"
    "window_ok c'" using assms(3) by blast
  then show ?thesis by (cases "blocking \<and> new_txs = []") (auto simp: st)
qed

definition client_outcome_ok ::
  "(ts_message recv_event \<times> mux_error option) list \<Rightarrow> (protocol_error + unit) option \<Rightarrow> (ts_state, ts_message) runner \<Rightarrow> bool" where
  "client_outcome_ok turns res r =
     (case res of
        None \<Rightarrow> rn_state r = TS_StIdle
      | Some (Inr _) \<Rightarrow> rn_state r = TS_StDone \<and> rn_sent r \<noteq> [] \<and> last (rn_sent r) = TS_MsgDone
      | Some (Inl e) \<Rightarrow>
          (\<exists>me. e = Mux me) \<or>
          e = InvalidMessage \<and> (\<exists>dl m sz f. (Decoded dl m sz, f) \<in> set turns \<and> ts_transition TS_StIdle m = Inl InvalidMessage))"

lemma client_outcome_ok_Cons: "client_outcome_ok turns res r \<Longrightarrow> client_outcome_ok (x # turns) res r"
  by (cases res) (auto simp: client_outcome_ok_def split: sum.splits)

lemma ts_transition_Idle_error: "ts_transition s m = Inl e \<Longrightarrow> e = InvalidMessage"
  by (cases s; cases m) auto

lemma client_recv_cases:
  assumes "rn_state r = TS_StIdle" and "rn_role r = RClient" and "runner_recv tx_submission r ev = (res, r1)"
  shows "case res of
      Inl e \<Rightarrow> r1 = r \<and> ((\<exists>me. e = Mux me) \<or> (e = InvalidMessage \<and> (\<exists>dl m sz. ev = Decoded dl m sz \<and> ts_transition TS_StIdle m = Inl e)))
    | Inr m \<Rightarrow> \<exists>st. ts_transition TS_StIdle m = Inr st \<and> r1 = r\<lparr>rn_state := st\<rparr>"
  using assms
  by (auto simp: runner_recv_def recv_inner_def Let_def tx_submission_def timed_out_def
      dest: ts_transition_Idle_error split: sum.splits if_splits recv_event.splits)

lemma client_loop_ok:
  assumes "client_loop w t turns r c ch = (res, r', c')" and "rn_state r = TS_StIdle" and "rn_role r = RClient" and "window_ok c"
  shows "window_ok c' \<and> client_outcome_ok turns res r'"
  using assms
proof (induction w t turns r c ch rule: client_loop.induct)
  case (1 w t r c ch)
  then show ?case by (simp add: client_outcome_ok_def)
next
  case (2 w t ev failure turns r c ch)
  obtain m r1 where rv: "runner_recv tx_submission r ev = (m, r1)" by (cases "runner_recv tx_submission r ev")
  note cs = client_recv_cases [OF 2(3,4) rv]
  show ?case
  proof (cases m)
    case (Inl e)
    then have "(res, r', c') = (Some (Inl e), r, c)" using 2(2) rv cs by auto
    moreover have "(\<exists>me. e = Mux me) \<or> e = InvalidMessage \<and>
        (\<exists>dl m sz. (Decoded dl m sz, failure) \<in> set ((ev, failure) # turns) \<and> ts_transition TS_StIdle m = Inl InvalidMessage)"
      using Inl cs by auto
    ultimately show ?thesis using 2(5) unfolding client_outcome_ok_def by (simp del: set_simps) blast
  next
    case (Inr msg)
    then obtain st where st: "ts_transition TS_StIdle msg = Inr st" "r1 = r\<lparr>rn_state := st\<rparr>" using cs by auto
    obtain x c1 ch1 where h: "client_handle w t msg c ch = (x, c1, ch1)" by (cases "client_handle w t msg c ch")
    from client_handle_legal [OF st(1) h 2(5)] obtain answer where a: "x = Inr answer" "window_ok c1" "ts_agency st = Client"
      "ts_transition st answer = Inr (if answer = TS_MsgDone then TS_StDone else TS_StIdle)" by auto
    define r2 where "r2 = r1\<lparr>rn_state := if answer = TS_MsgDone then TS_StDone else TS_StIdle, rn_sent := rn_sent r1 @ [answer]\<rparr>"
    have snd: "runner_send tx_submission failure r1 answer = (case failure of Some e \<Rightarrow> (Inl (Mux e), r1) | None \<Rightarrow> (Inr (), r2))"
      using a st(2) 2(4) by (simp add: runner_send_def tx_submission_def r2_def Let_def split: option.splits)
    show ?thesis
    proof (cases "failure = None \<and> answer \<noteq> TS_MsgDone")
      case True
      then have go: "client_loop w t turns r2 c1 ch1 = (res, r', c')" using 2(2) rv Inr h a(1) snd by simp
      have "rn_state r2 = TS_StIdle" "rn_role r2 = RClient" using True st(2) 2(4) by (simp_all add: r2_def)
      moreover have "(Inr (), r2) = runner_send tx_submission failure r1 answer" using snd True by simp
      ultimately have "window_ok c' \<and> client_outcome_ok turns res r'"
        using 2(1) [OF rv [symmetric] Inr h [symmetric] a(1) refl _ refl _ go] True a(2) by blast
      then show ?thesis using client_outcome_ok_Cons by blast
    next
      case False
      then show ?thesis using 2(2) rv Inr h a(1,2) snd by (auto simp: client_outcome_ok_def r2_def split: option.splits)
    qed
  qed
qed

lemma run_client_ok:
  assumes "runner_new tx_submission RClient = Some r" and "ts_run_client w t failure turns r ch = (res, r', c')"
  shows "window_ok c' \<and> client_outcome_ok turns res r'"
proof -
  define c0 :: tx_client where "c0 = \<lparr>tc_announced = [], tc_pending_bodies = []\<rparr>"
  have r: "r = \<lparr>rn_role = RClient, rn_state = TS_StInit, rn_sent = []\<rparr>"
    using assms(1) by (simp add: runner_new_def tx_submission_def split: if_splits)
  define r1 where "r1 = r\<lparr>rn_state := TS_StIdle, rn_sent := [TS_MsgInit]\<rparr>"
  have snd: "runner_send tx_submission failure r TS_MsgInit = (case failure of Some e \<Rightarrow> (Inl (Mux e), r) | None \<Rightarrow> (Inr (), r1))"
    by (simp add: r runner_send_def tx_submission_def r1_def split: option.splits)
  have w: "window_ok c0" by (simp add: c0_def window_ok_def)
  show ?thesis
  proof (cases failure)
    case None
    then have "client_loop w t turns r1 c0 ch = (res, r', c')" using assms(2) snd by (simp add: ts_run_client_def c0_def)
    then show ?thesis using client_loop_ok w by (simp add: r1_def r)
  next
    case (Some e)
    then have "(res, c') = (Some (Inl (Mux e)), c0)" using assms(2) snd by (simp add: ts_run_client_def c0_def)
    then show ?thesis using w by (simp add: client_outcome_ok_def)
  qed
qed

subsection \<open>Properties\<close>

text \<open>
  A sample session: bodies parse when they are not empty, the second transaction cannot be announced,
  and the third arrives later.
\<close>

definition sample_wire_id :: "tx_body \<Rightarrow> tx_id option" where
  "sample_wire_id b = (if b = [] then None else Some (of_nat (length b)))"

definition sample_tx :: "tx_body \<Rightarrow> u16 \<Rightarrow> pending_tx" where
  "sample_tx b e = \<lparr>pt_tx = tx_info_new_with_body (\<lambda>b. of_nat (length b + 100)) b, pt_era = e\<rparr>"

definition sample_channel :: tx_channel where
  "sample_channel = \<lparr>ch_ready = [sample_tx [1, 2] 6, sample_tx [] 6], ch_later = [[sample_tx [3] 9]]\<rparr>"

definition sample_client :: tx_client where
  "sample_client = \<lparr>tc_announced = [sample_tx [4, 4, 4] 6], tc_pending_bodies = [sample_tx [4, 4, 4] 6]\<rparr>"

lemmas sample_defs = sample_wire_id_def sample_tx_def sample_channel_def sample_client_def tx_info_new_with_body_def
  wire_form_def praos_tx_id_def ORIGIN_ERA_def MAX_ERA_def wire_era_def client_handle_def ack_and_prune_def
  collect_blocking_def try_recv_up_to_def chan_recv_def pt_id_def ch_contents_def

text \<open>A request for transaction identifiers drops exactly the acknowledged prefix of the window and
  announces, in channel order, the next transactions that have a wire identifier: at most what was asked
  (one, for a blocking request of none), with their identifiers, sizes and a valid era. No announceable
  transaction is lost. A blocking request is never answered with an empty list: the client terminates
  instead, and only when the channel is exhausted.\<close>

theorem tx_ids_request_answered:
  assumes "asks_tx_ids msg = Some (blocking, ack, req)"
    and "client_handle w t msg c ch = (r, c', ch')"
  shows "\<exists>new_txs.
    tc_announced c' = drop (unat ack) (tc_announced c) @ new_txs \<and>
    List.map_filter (announced_form w t) (ch_contents ch) =
      new_txs @ List.map_filter (announced_form w t) (ch_contents ch') \<and>
    length new_txs \<le> max 1 (unat req) \<and>
    r = Inr (if blocking \<and> new_txs = [] then TS_MsgDone else MsgReplyTxIds (map (announcement w) new_txs)) \<and>
    (\<forall>a\<in>set (map (announcement w) new_txs). tis_era a \<le> MAX_ERA) \<and>
    (blocking \<and> new_txs = [] \<longrightarrow> ch_contents ch' = [])"
proof -
  have "tis_era (announcement w tx) \<le> MAX_ERA" for tx by (simp add: announcement_def wire_era_valid)
  then show ?thesis using tx_ids_turn [OF assms] by auto
qed

theorem tx_ids_request_answered_witness:
  "\<exists>c' ch'. client_handle sample_wire_id Inr (MsgRequestTxIdsBlocking 1 2) sample_client sample_channel =
       (Inr (MsgReplyTxIds [\<lparr>tis_tx_id = 2, tis_size = 2, tis_era = 6\<rparr>]), c', ch') \<and>
     tc_announced c' = [sample_tx [1, 2] 6]"
proof -
  obtain c' ch' where h: "client_handle sample_wire_id Inr (MsgRequestTxIdsBlocking 1 2) sample_client sample_channel =
       (Inr (MsgReplyTxIds [\<lparr>tis_tx_id = 2, tis_size = 2, tis_era = 6\<rparr>]), c', ch')"
    by (simp add: sample_defs blocking_loop.simps)
  then have "tc_announced c' = [sample_tx [1, 2] 6]"
    by (auto simp: sample_defs blocking_loop.simps)
  then show ?thesis using tx_ids_request_answered [OF _ h] h by auto
qed

text \<open>Whatever a peer sends, the provider side of a transaction session stays within the protocol: it
  is waiting in the idle state, or has finished with \<open>MsgDone\<close>, or failed because the multiplexer failed or
  the peer sent a message that is illegal in the idle state. It never violates agency or times out, and
  it keeps no body whose identifier has left the unacknowledged window.\<close>

theorem tx_client_conforms:
  assumes "runner_new tx_submission RClient = Some r"
    and "ts_run_client w t failure turns r ch = (res, r', c')"
  shows "client_outcome_ok turns res r' \<and>
    mset (map pt_id (tc_pending_bodies c')) \<subseteq># mset (map pt_id (tc_announced c')) \<and>
    length (tc_pending_bodies c') \<le> length (tc_announced c')"
proof -
  have c: "client_outcome_ok turns res r'" and w: "window_ok c'" using run_client_ok [OF assms] by auto
  have "size (mset (map pt_id (tc_pending_bodies c'))) \<le> size (mset (map pt_id (tc_announced c')))"
    using w size_mset_mono unfolding window_ok_def by blast
  then show ?thesis using c w by (simp add: window_ok_def)
qed

theorem tx_client_conforms_witness:
  "\<exists>r' c'. ts_run_client sample_wire_id Inr None [(Decoded 3 (MsgRequestTxs []) 40, None), (Decoded 1 TS_MsgInit 2, None)]
       \<lparr>rn_role = RClient, rn_state = TS_StInit, rn_sent = []\<rparr> sample_channel = (Some (Inl InvalidMessage), r', c') \<and>
     length (tc_pending_bodies c') \<le> length (tc_announced c')"
proof -
  let ?r = "\<lparr>rn_role = RClient, rn_state = TS_StInit, rn_sent = []\<rparr>"
  let ?turns = "[(Decoded 3 (MsgRequestTxs []) 40, None), (Decoded 1 TS_MsgInit 2, None)]"
  have r: "runner_new tx_submission RClient = Some ?r" by (simp add: runner_new_def tx_submission_def)
  obtain r' c' where run: "ts_run_client sample_wire_id Inr None ?turns ?r sample_channel = (Some (Inl InvalidMessage), r', c')"
    by (simp add: ts_run_client_def runner_send_def runner_recv_def recv_inner_def timed_out_def tx_submission_def client_handle_def)
  from tx_client_conforms [OF r run] run show ?thesis by blast
qed

text \<open>Requested bodies are delivered once: the reply's bodies leave the pending set, each carries a
  requested identifier, and every requested identifier that is still pending is served.\<close>

theorem txs_request_answered:
  assumes "client_handle w t (MsgRequestTxs ids) c ch = (r, c', ch')"
  shows "\<exists>ps. r = Inr (MsgReplyTxs (map tx_delivery ps)) \<and> ch' = ch \<and> tc_announced c' = tc_announced c \<and>
    mset (tc_pending_bodies c) = mset ps + mset (tc_pending_bodies c') \<and> length ps \<le> length ids \<and>
    (\<forall>p\<in>set ps. \<exists>i\<in>set ids. praos_tx_id w p = Some (eti_tx_id i)) \<and>
    (\<forall>i\<in>set ids. (\<exists>p\<in>set (tc_pending_bodies c). praos_tx_id w p = Some (eti_tx_id i)) \<longrightarrow>
       (\<exists>p\<in>set ps. praos_tx_id w p = Some (eti_tx_id i)))"
  using txs_turn [OF assms] by blast

theorem txs_request_answered_witness:
  "\<exists>c'. client_handle sample_wire_id Inr (MsgRequestTxs [\<lparr>eti_era = 6, eti_tx_id = 3\<rparr>, \<lparr>eti_era = 6, eti_tx_id = 8\<rparr>])
        sample_client sample_channel =
       (Inr (MsgReplyTxs [\<lparr>etb_era = 6, etb_body = [4, 4, 4]\<rparr>]), c', sample_channel) \<and>
     tc_announced c' = tc_announced sample_client"
proof -
  obtain c' where h: "client_handle sample_wire_id Inr (MsgRequestTxs [\<lparr>eti_era = 6, eti_tx_id = 3\<rparr>, \<lparr>eti_era = 6, eti_tx_id = 8\<rparr>])
        sample_client sample_channel = (Inr (MsgReplyTxs [\<lparr>etb_era = 6, etb_body = [4, 4, 4]\<rparr>]), c', sample_channel)"
    by (simp add: sample_defs)
  from txs_request_answered [OF h] h show ?thesis by blast
qed

end
