(* ===== verification/Fetch.thy ===== *)
theory Fetch
  imports Consensus_Types
begin

text \<open>
  \<open>shared-rs/consensus/src/fetch.rs\<close>: which peers a fetch is sent to, and the bookkeeping of offers
  and outstanding fetches.

  \<^item> A \<open>Duration\<close> is its number of nanoseconds. The oracle \<open>PeerRtt\<close> is the function it implements;
    \<open>PeerRttCache\<close> is the map behind its lock (a lock is never poisoned here: no writer panics).
  \<^item> The three policy traits have one shape, so a policy is one function of the candidates and the
    oracle; point and bitmap are ignored by every stock policy.
  \<^item> \<open>CandidateTracker\<close> is a record of the seven maps and sets. A \<open>BTreeSet\<close> is a set, read out in
    ascending order where the code iterates it.

  The outstanding endorser-block fetches have an abstract specification, a set of pairs of a point and
  a peer; \<open>abs_eb_fetches\<close> relates the tracker to it and every operation refines its abstract counterpart.
\<close>

subsection \<open>Round-trip times\<close>

type_synonym duration = nat
type_synonym instant = nat
type_synonym peer_rtt = "peer_id \<Rightarrow> duration option"
type_synonym rtt_cache = "(peer_id, duration) omap"

definition duration_from_secs :: "nat \<Rightarrow> duration" where
  "duration_from_secs n = n * 1000000000"

definition uniform_rtt :: "duration \<Rightarrow> peer_rtt" where
  "uniform_rtt d _ = Some d"

definition rtt_cache_new :: rtt_cache where
  "rtt_cache_new = oempty"

definition rtt_cache_set :: "rtt_cache \<Rightarrow> peer_id \<Rightarrow> duration \<Rightarrow> rtt_cache" where
  "rtt_cache_set c peer rtt = oput peer rtt c"

definition rtt_cache_forget :: "rtt_cache \<Rightarrow> peer_id \<Rightarrow> rtt_cache" where
  "rtt_cache_forget c peer = odel peer c"

definition rtt_cache_len :: "rtt_cache \<Rightarrow> nat" where
  "rtt_cache_len c = olen c"

definition rtt_cache_is_empty :: "rtt_cache \<Rightarrow> bool" where
  "rtt_cache_is_empty c \<longleftrightarrow> rtt_cache_len c = 0"

definition rtt_cache_rtt :: "rtt_cache \<Rightarrow> peer_rtt" where
  "rtt_cache_rtt c peer = oget c peer"

subsection \<open>Policies\<close>

type_synonym fetch_policy = "peer_id list \<Rightarrow> peer_rtt \<Rightarrow> peer_id list"

text \<open>\<open>Iterator::min_by_key\<close>: the first of the least elements.\<close>

fun min_by_key :: "('a \<Rightarrow> 'k::linorder) \<Rightarrow> 'a list \<Rightarrow> 'a option" where
  "min_by_key f [] = None"
| "min_by_key f (x # xs) =
     (case min_by_key f xs of
        None \<Rightarrow> Some x
      | Some y \<Rightarrow> if f y < f x then Some y else Some x)"

definition rtt_key :: "peer_rtt \<Rightarrow> peer_id \<Rightarrow> duration" where
  "rtt_key rtt p = (case rtt p of Some d \<Rightarrow> d | None \<Rightarrow> duration_from_secs 999)"

definition pick_one :: fetch_policy where
  "pick_one candidates rtt =
     (case min_by_key (rtt_key rtt) candidates of Some p \<Rightarrow> [p] | None \<Rightarrow> [])"

definition pick_n :: "nat \<Rightarrow> fetch_policy" where
  "pick_n n candidates rtt =
     (if n = 0 \<or> candidates = [] then [] else take n (sort_key (rtt_key rtt) candidates))"

definition USIZE_MAX :: nat where "USIZE_MAX = 2 ^ 64 - 1"

definition broadcast_one :: fetch_policy where "broadcast_one = pick_n 1"

definition broadcast_all :: fetch_policy where "broadcast_all = pick_n USIZE_MAX"

definition no_fetch :: fetch_policy where "no_fetch candidates rtt = []"

subsection \<open>The candidate tracker\<close>

record candidate_tracker =
  tk_block_offers :: "(point, peer_id set) omap"
  tk_eb_offers :: "(point, peer_id set) omap"
  tk_eb_txs_offers :: "(point, peer_id set) omap"
  tk_pending_block_fetches :: "point set"
  tk_pending_eb_fetches :: "(point, peer_id set) omap"
  tk_pending_eb_txs_fetches :: "point set"
  tk_eb_txs_attempts :: "(point, peer_id set) omap"

definition tracker_new :: candidate_tracker where
  "tracker_new = \<lparr>tk_block_offers = oempty, tk_eb_offers = oempty, tk_eb_txs_offers = oempty,
     tk_pending_block_fetches = {}, tk_pending_eb_fetches = oempty, tk_pending_eb_txs_fetches = {},
     tk_eb_txs_attempts = oempty\<rparr>"

text \<open>\<open>map.get(k)\<close> as a set, and \<open>map.entry(k).or_default()\<close> extended by some elements.\<close>

definition oset :: "('k::linorder, 'a set) omap \<Rightarrow> 'k \<Rightarrow> 'a set" where
  "oset m k = (case oget m k of Some s \<Rightarrow> s | None \<Rightarrow> {})"

definition oset_add :: "'k::linorder \<Rightarrow> 'a set \<Rightarrow> ('k, 'a set) omap \<Rightarrow> ('k, 'a set) omap" where
  "oset_add k xs m = oput k (oset m k \<union> xs) m"

definition note_block_offered :: "candidate_tracker \<Rightarrow> point \<Rightarrow> peer_id \<Rightarrow> candidate_tracker" where
  "note_block_offered t p peer = t\<lparr>tk_block_offers := oset_add p {peer} (tk_block_offers t)\<rparr>"

definition note_eb_offered :: "candidate_tracker \<Rightarrow> point \<Rightarrow> peer_id \<Rightarrow> candidate_tracker" where
  "note_eb_offered t p peer = t\<lparr>tk_eb_offers := oset_add p {peer} (tk_eb_offers t)\<rparr>"

definition note_eb_txs_offered :: "candidate_tracker \<Rightarrow> point \<Rightarrow> peer_id \<Rightarrow> candidate_tracker" where
  "note_eb_txs_offered t p peer = t\<lparr>tk_eb_txs_offers := oset_add p {peer} (tk_eb_txs_offers t)\<rparr>"

definition tracker_state_sizes :: "candidate_tracker \<Rightarrow> nat \<times> nat \<times> nat \<times> nat \<times> nat \<times> nat \<times> nat" where
  "tracker_state_sizes t =
     (olen (tk_block_offers t), olen (tk_eb_offers t), olen (tk_eb_txs_offers t),
      card (tk_pending_block_fetches t), olen (tk_pending_eb_fetches t), card (tk_pending_eb_txs_fetches t),
      olen (tk_eb_txs_attempts t))"

definition block_candidates :: "candidate_tracker \<Rightarrow> point \<Rightarrow> peer_id list" where
  "block_candidates t p = sorted_list_of_set (oset (tk_block_offers t) p)"

definition eb_candidates :: "candidate_tracker \<Rightarrow> point \<Rightarrow> peer_id list" where
  "eb_candidates t p = sorted_list_of_set (oset (tk_eb_offers t) p)"

definition clear_eb_txs_attempts :: "candidate_tracker \<Rightarrow> point \<Rightarrow> candidate_tracker" where
  "clear_eb_txs_attempts t p = t\<lparr>tk_eb_txs_attempts := odel p (tk_eb_txs_attempts t)\<rparr>"

definition eb_txs_candidates :: "candidate_tracker \<Rightarrow> point \<Rightarrow> peer_id list" where
  "eb_txs_candidates t p =
     filter (\<lambda>q. q \<notin> oset (tk_eb_txs_attempts t) p)
       (sorted_list_of_set (oset (tk_eb_txs_offers t) p \<union> oset (tk_eb_offers t) p))"

definition start_block_fetch :: "candidate_tracker \<Rightarrow> point \<Rightarrow> bool \<times> candidate_tracker" where
  "start_block_fetch t p =
     (p \<notin> tk_pending_block_fetches t, t\<lparr>tk_pending_block_fetches := insert p (tk_pending_block_fetches t)\<rparr>)"

definition finish_block_fetch :: "candidate_tracker \<Rightarrow> point \<Rightarrow> candidate_tracker" where
  "finish_block_fetch t p = t\<lparr>tk_pending_block_fetches := tk_pending_block_fetches t - {p}\<rparr>"

definition start_eb_fetch :: "candidate_tracker \<Rightarrow> point \<Rightarrow> peer_id list \<Rightarrow> bool \<times> candidate_tracker" where
  "start_eb_fetch t p peers =
     (if \<exists>q \<in> set peers. q \<in> oset (tk_pending_eb_fetches t) p then (False, t)
      else (True, t\<lparr>tk_pending_eb_fetches := oset_add p (set peers) (tk_pending_eb_fetches t)\<rparr>))"

definition available_eb_candidates :: "candidate_tracker \<Rightarrow> point \<Rightarrow> peer_id list" where
  "available_eb_candidates t p =
     (case oget (tk_pending_eb_fetches t) p of
        None \<Rightarrow> eb_candidates t p
      | Some peers \<Rightarrow> filter (\<lambda>q. q \<notin> peers) (eb_candidates t p))"

definition finish_eb_fetch :: "candidate_tracker \<Rightarrow> peer_id \<Rightarrow> point \<Rightarrow> bool \<times> candidate_tracker" where
  "finish_eb_fetch t source p =
     (case oget (tk_pending_eb_fetches t) p of
        None \<Rightarrow> (True, t)
      | Some peers \<Rightarrow>
          let rest = peers - {source}
          in if rest \<noteq> {} then (False, t\<lparr>tk_pending_eb_fetches := oput p rest (tk_pending_eb_fetches t)\<rparr>)
             else (True, t\<lparr>tk_pending_eb_fetches := odel p (tk_pending_eb_fetches t)\<rparr>))"

definition start_eb_txs_fetch :: "candidate_tracker \<Rightarrow> point \<Rightarrow> peer_id list \<Rightarrow> bool \<times> candidate_tracker" where
  "start_eb_txs_fetch t p peers =
     (if p \<in> tk_pending_eb_txs_fetches t then (False, t)
      else (True, t\<lparr>tk_pending_eb_txs_fetches := insert p (tk_pending_eb_txs_fetches t),
                    tk_eb_txs_attempts := oset_add p (set peers) (tk_eb_txs_attempts t)\<rparr>))"

definition finish_eb_txs_fetch :: "candidate_tracker \<Rightarrow> point \<Rightarrow> candidate_tracker" where
  "finish_eb_txs_fetch t p = t\<lparr>tk_pending_eb_txs_fetches := tk_pending_eb_txs_fetches t - {p}\<rparr>"

definition tracker_forget_peer :: "candidate_tracker \<Rightarrow> peer_id \<Rightarrow> candidate_tracker" where
  "tracker_forget_peer t peer =
     (let drop_peer = omap_values (\<lambda>_ s. s - {peer})
      in t\<lparr>tk_block_offers := drop_peer (tk_block_offers t), tk_eb_offers := drop_peer (tk_eb_offers t),
           tk_eb_txs_offers := drop_peer (tk_eb_txs_offers t), tk_eb_txs_attempts := drop_peer (tk_eb_txs_attempts t),
           tk_pending_eb_fetches := drop_peer (tk_pending_eb_fetches t)\<rparr>)"

definition point_slot :: "point \<Rightarrow> u64" where
  "point_slot p = (case p of Specific slot _ \<Rightarrow> slot | Origin \<Rightarrow> 0)"

definition tracker_prune_below_slot :: "candidate_tracker \<Rightarrow> u64 \<Rightarrow> candidate_tracker" where
  "tracker_prune_below_slot t min_slot =
     t\<lparr>tk_block_offers := oretain (\<lambda>p _. point_slot p \<ge> min_slot) (tk_block_offers t),
       tk_eb_offers := oretain (\<lambda>p _. point_slot p \<ge> min_slot) (tk_eb_offers t),
       tk_eb_txs_offers := oretain (\<lambda>p _. point_slot p \<ge> min_slot) (tk_eb_txs_offers t),
       tk_pending_block_fetches := {p \<in> tk_pending_block_fetches t. point_slot p \<ge> min_slot},
       tk_pending_eb_fetches := oretain (\<lambda>p _. point_slot p \<ge> min_slot) (tk_pending_eb_fetches t),
       tk_pending_eb_txs_fetches := {p \<in> tk_pending_eb_txs_fetches t. point_slot p \<ge> min_slot},
       tk_eb_txs_attempts := oretain (\<lambda>p _. point_slot p \<ge> min_slot) (tk_eb_txs_attempts t)\<rparr>"

subsection \<open>The policies choose the nearest candidates\<close>

lemma min_by_key_None: "min_by_key f xs = None \<longleftrightarrow> xs = []"
  by (cases xs) (auto split: option.splits)

lemma min_by_key_Some:
  "min_by_key f xs = Some y \<Longrightarrow> y \<in> set xs \<and> (\<forall>x\<in>set xs. f y \<le> f x)"
proof (induction xs arbitrary: y)
  case (Cons x xs)
  then show ?case by (auto simp: min_by_key_None split: option.splits if_splits)
qed simp

text \<open>A stable sort starts with the first of the least elements.\<close>

lemma min_by_key_sort: "min_by_key f xs = (case sort_key f xs of [] \<Rightarrow> None | y # _ \<Rightarrow> Some y)"
proof (induction xs)
  case (Cons x xs)
  show ?case
  proof (cases "sort_key f xs")
    case Nil
    then have "xs = []" by (metis length_0_conv length_sort)
    then show ?thesis by simp
  next
    case (Cons y ys)
    then show ?thesis using Cons.IH by (auto simp: not_le)
  qed
qed simp

lemma sort_key_take_drop_le:
  assumes "x \<in> set (take n (sort_key f xs))" and "y \<in> set (drop n (sort_key f xs))"
  shows "f x \<le> f y"
proof -
  have "sorted (map f (take n (sort_key f xs) @ drop n (sort_key f xs)))" by simp
  then have "\<forall>a\<in>set (map f (take n (sort_key f xs))). \<forall>b\<in>set (map f (drop n (sort_key f xs))). a \<le> b"
    unfolding map_append sorted_append by blast
  then show ?thesis using assms by simp
qed

lemma take_mset_complement:
  assumes "y \<in> set xs" and "y \<notin> set (take n (sort_key f xs))"
  shows "y \<in> set (drop n (sort_key f xs))"
proof -
  have "set (take n (sort_key f xs)) \<union> set (drop n (sort_key f xs)) = set xs"
    by (metis append_take_drop_id set_append set_sort)
  then show ?thesis using assms by blast
qed

subsection \<open>Properties\<close>

text \<open>The fan-out policy returns the \<open>min n\<close> nearest candidates: distinct peers of the candidate list,
  in order of round-trip time with unmeasured peers counted as 999 seconds, and no candidate it leaves out
  is strictly nearer than one it takes. With \<open>n = 1\<close> it is the lowest-round-trip-time-first policy.\<close>

theorem pick_n_nearest:
  assumes "distinct candidates"
  shows "set (pick_n n candidates rtt) \<subseteq> set candidates \<and> distinct (pick_n n candidates rtt) \<and>
    length (pick_n n candidates rtt) = min n (length candidates) \<and>
    sorted (map (rtt_key rtt) (pick_n n candidates rtt)) \<and>
    (\<forall>p\<in>set (pick_n n candidates rtt). \<forall>q\<in>set candidates - set (pick_n n candidates rtt). rtt_key rtt p \<le> rtt_key rtt q) \<and>
    broadcast_one candidates rtt = pick_one candidates rtt"
proof -
  let ?s = "sort_key (rtt_key rtt) candidates"
  have eq: "pick_n n candidates rtt = take n ?s" by (auto simp: pick_n_def)
  have "take 1 ?s = pick_one candidates rtt"
    by (cases ?s) (simp_all add: pick_one_def min_by_key_sort)
  then have one: "broadcast_one candidates rtt = pick_one candidates rtt"
    by (auto simp: broadcast_one_def pick_n_def pick_one_def)
  have "set (take n ?s) \<subseteq> set candidates" by (metis set_sort set_take_subset)
  moreover have "sorted (map (rtt_key rtt) (take n ?s))" by (simp add: take_map [symmetric] sorted_wrt_take)
  moreover have "rtt_key rtt p \<le> rtt_key rtt q"
    if "p \<in> set (take n ?s)" "q \<in> set candidates - set (take n ?s)" for p q
    using sort_key_take_drop_le [OF that(1)] take_mset_complement [of q candidates n "rtt_key rtt"] that(2) by blast
  ultimately show ?thesis using assms one unfolding eq by (auto simp: distinct_take)
qed

theorem pick_n_nearest_witness:
  "pick_n 2 [1, 2, 3] (rtt_cache_rtt (rtt_cache_set (rtt_cache_set rtt_cache_new 3 10) 1 50)) = [3, 1] \<and>
   length (pick_n 2 [1, 2, 3] (uniform_rtt 0)) = 2"
proof -
  have "length (pick_n 2 [1, 2, 3] (uniform_rtt 0)) = min 2 (length [1, 2, 3 :: peer_id])"
    using pick_n_nearest [of "[1, 2, 3]" 2 "uniform_rtt 0"] by simp
  moreover have "pick_n 2 [1, 2, 3] (rtt_cache_rtt (rtt_cache_set (rtt_cache_set rtt_cache_new 3 10) 1 50)) = [3, 1]"
    by (simp add: pick_n_def rtt_key_def rtt_cache_rtt_def rtt_cache_set_def rtt_cache_new_def oget_oput
        duration_from_secs_def)
  ultimately show ?thesis by simp
qed

subsubsection \<open>Outstanding endorser-block fetches\<close>

text \<open>The abstract specification: the outstanding fetches as pairs of a point and a peer.\<close>

type_synonym eb_fetches = "(point \<times> peer_id) set"

definition abs_eb_fetches :: "candidate_tracker \<Rightarrow> eb_fetches" where
  "abs_eb_fetches t = {(p, q). q \<in> oset (tk_pending_eb_fetches t) p}"

definition spec_start :: "eb_fetches \<Rightarrow> point \<Rightarrow> peer_id list \<Rightarrow> bool \<times> eb_fetches" where
  "spec_start F p peers = (if F \<inter> {p} \<times> set peers \<noteq> {} then (False, F) else (True, F \<union> {p} \<times> set peers))"

definition spec_finish :: "eb_fetches \<Rightarrow> peer_id \<Rightarrow> point \<Rightarrow> bool \<times> eb_fetches" where
  "spec_finish F source p = (let F' = F - {(p, source)} in (F' \<inter> {p} \<times> UNIV = {}, F'))"

lemma oset_oset_add [simp]: "oset (oset_add k xs m) k' = (if k' = k then oset m k \<union> xs else oset m k')"
  by (simp add: oset_def oset_add_def oget_oput)

lemma oset_oput [simp]: "oset (oput k s m) k' = (if k' = k then s else oset m k')"
  by (simp add: oset_def oget_oput)

lemma oset_odel [simp]: "oset (odel k m) k' = (if k' = k then {} else oset m k')"
  by (simp add: oset_def oget_odel)

lemma oset_oretain [simp]: "oset (oretain (\<lambda>k _. P k) m) k' = (if P k' then oset m k' else {})"
  by (simp add: oset_def oget_oretain split: option.splits)

lemma oset_drop [simp]: "oset (omap_values (\<lambda>_ s. s - A) m) k = oset m k - A"
  by (simp add: oset_def oget_omap_values split: option.splits)

text \<open>The tracker's outstanding endorser-block fetches refine a set of pairs of a point and a peer:
  starting a fetch is refused exactly when one of the peers is already being asked for that block and
  otherwise adds the pairs; finishing removes one pair and reports whether the block has no fetch left;
  forgetting a peer and pruning remove the pairs of that peer and of older slots; no other operation touches
  them. The candidates offered for a retry are exactly the offering peers that are not being asked, so
  starting with them is never refused.\<close>

theorem eb_fetch_refines:
  "map_prod id abs_eb_fetches (start_eb_fetch t p peers) = spec_start (abs_eb_fetches t) p peers \<and>
   map_prod id abs_eb_fetches (finish_eb_fetch t q p) = spec_finish (abs_eb_fetches t) q p \<and>
   abs_eb_fetches (tracker_forget_peer t q) = abs_eb_fetches t - UNIV \<times> {q} \<and>
   abs_eb_fetches (tracker_prune_below_slot t m) = abs_eb_fetches t \<inter> {x. m \<le> point_slot (fst x)} \<and>
   abs_eb_fetches (note_eb_offered t p q) = abs_eb_fetches t \<and>
   abs_eb_fetches (snd (start_eb_txs_fetch t p peers)) = abs_eb_fetches t \<and>
   set (available_eb_candidates t p) = set (eb_candidates t p) - {q. (p, q) \<in> abs_eb_fetches t} \<and>
   fst (start_eb_fetch t p (available_eb_candidates t p))"
proof (intro conjI)
  show start: "map_prod id abs_eb_fetches (start_eb_fetch t p peers) = spec_start (abs_eb_fetches t) p peers" for peers
    by (auto simp: start_eb_fetch_def spec_start_def abs_eb_fetches_def split: if_splits)
  show "map_prod id abs_eb_fetches (finish_eb_fetch t q p) = spec_finish (abs_eb_fetches t) q p"
  proof (cases "oget (tk_pending_eb_fetches t) p")
    case None
    then have "oset (tk_pending_eb_fetches t) p = {}" by (simp add: oset_def)
    then show ?thesis using None by (auto simp: finish_eb_fetch_def spec_finish_def abs_eb_fetches_def Let_def)
  next
    case (Some s)
    then have "oset (tk_pending_eb_fetches t) p = s" by (simp add: oset_def)
    then show ?thesis
      using Some by (auto simp: finish_eb_fetch_def spec_finish_def abs_eb_fetches_def Let_def split: if_splits)
  qed
  show av: "set (available_eb_candidates t p) = set (eb_candidates t p) - {q. (p, q) \<in> abs_eb_fetches t}"
    by (auto simp: available_eb_candidates_def abs_eb_fetches_def oset_def split: option.splits)
  then show "fst (start_eb_fetch t p (available_eb_candidates t p))"
    by (auto simp: start_eb_fetch_def abs_eb_fetches_def)
qed (auto simp: abs_eb_fetches_def Let_def tracker_forget_peer_def tracker_prune_below_slot_def note_eb_offered_def
    start_eb_txs_fetch_def split: if_splits)

end
