(* ===== verification/Praos.thy ===== *)
theory Praos
  imports Chain_Tree Peer_Chain Fetch "HOL-Library.Product_Lexorder" "HOL-Library.List_Lexorder"
begin

text \<open>
  \<open>shared-rs/consensus/src/praos.rs\<close>: the Praos chain-selection state machine. \<open>PraosState\<close> is the record
  \<open>praos_state\<close>; every method is one definition, in the order of the source.

  \<^item> A mutating method returns the new state with the effects it emits, in order; where the source pushes
    onto a \<open>&mut Vec\<close>, the definition returns the pushed effects and its caller appends them.
  \<^item> Methods that walk the chain tree, or loop over chain selection, return \<open>None\<close> when the code would
    not return (see \<open>Chain_Tree\<close>).
  \<^item> \<open>Instant\<close> and \<open>Duration\<close> are nanosecond counts; \<open>duration_since\<close> saturates at zero, as subtraction on
    \<open>nat\<close> does. The clock that \<open>record_peer_tip\<close> reads itself is a parameter.
  \<^item> The all-zero hash stands for genesis, as in the source. Header and body bytes are opaque.
  \<^item> Of the control signal the record keeps the two inputs this module reads. \<open>node_id\<close> (only logged), the
    size snapshot for telemetry and the log statements are left out.
\<close>

subsection \<open>Data\<close>

definition IN_FLIGHT_TTL :: duration where "IN_FLIGHT_TTL = duration_from_secs 15"
definition BRIDGE_COOLDOWN :: duration where "BRIDGE_COOLDOWN = duration_from_secs 10"
definition ORPHAN_COOLDOWN :: duration where "ORPHAN_COOLDOWN = duration_from_secs 1"
definition BLOCK_FETCH_COOLDOWN :: duration where "BLOCK_FETCH_COOLDOWN = duration_from_secs 2"
definition STUCK_THRESHOLD :: duration where "STUCK_THRESHOLD = duration_from_secs 30"
definition CERT_SEEN_CAP :: nat where "CERT_SEEN_CAP = 512"
definition STUCK_WARNING_INTERVAL :: duration where "STUCK_WARNING_INTERVAL = duration_from_secs 60"
definition GAP_WARNING_INTERVAL :: duration where "GAP_WARNING_INTERVAL = duration_from_secs 10"

datatype praos_effect =
    FetchBlockRange point point "peer_id list"
  | ReIntersect peer_id
  | InjectBlock point "u8 list" "u8 list" u64
  | InjectRollback point
  | ValidatorApply point "u8 list" "hash32 option" bool
  | ValidatorRollback point
  | FetchAnnouncedEb point "peer_id list"

record cached_block =
  cb_point :: point
  cb_block_no :: u64
  cb_prev_hash :: "hash32 option"
  cb_header :: "u8 list"
  cb_body :: "u8 list"
  cb_announced_eb_hash :: "hash32 option"
  cb_certified_eb :: bool

datatype origin_kind = Genesis | ChainOrigin

record hybrid_walk =
  hw_chain :: "hash32 list"
  hw_reached_origin :: "origin_kind option"

datatype selection_decision =
    NoBetterChain
  | RollbackTainted hash32 u64
  | OrphanCandidate peer_id u64
  | Switched peer_id hash32 "hash32 list" u64
  | WaitingForBlocks peer_id hash32 "point option" "point list" u64

record praos_control =
  pk_rb_blacklist_tip :: hash32
  pk_rb_blacklist_offset :: u64

record parsed_header_info =
  ph_block_number :: u64
  ph_slot :: u64
  ph_prev_hash :: "hash32 option"
  ph_announced_eb_hash :: "hash32 option"
  ph_announced_eb_size :: "u32 option"
  ph_certified_eb :: bool
  ph_issuer :: "u8 list"

record leios_cert_summary =
  lc_eb_slot :: u64
  lc_eb_hash :: hash32

record parsed_body_info =
  pb_tx_count :: u32
  pb_field_count :: u32
  pb_eb_certificate :: "leios_cert_summary option"
  pb_eb_certificate_pending :: bool
  pb_peras_cert_pending :: bool

record praos_state =
  ps_security_param_k :: u64
  ps_block_body_retention_blocks :: "u64 option"
  ps_chain_tree :: chain_tree
  ps_adopted_tip_hash :: "hash32 option"
  ps_self_produced :: "point set"
  ps_block_cache :: "(hash32, cached_block) omap"
  ps_validated :: "hash32 set"
  ps_peer_chains :: "(peer_id, peer_chain) omap"
  ps_orphan_cooldown :: "(peer_id, instant) omap"
  ps_block_fetch_cooldown :: "(peer_id, instant) omap"
  ps_in_flight :: "(point, instant) omap"
  ps_bridge_cooldown :: "(point \<times> instant) option"
  ps_in_flight_validation :: "hash32 set"
  ps_queued_validator_tip :: "hash32 option"
  ps_last_validated_tip :: "hash32 option"
  ps_last_rollback_depth :: "u64 option"
  ps_cert_seen :: "(u64, hash32) omap"
  ps_cert_equivocations :: "u64 list"
  ps_last_validated_at :: "instant option"
  ps_last_stuck_warning_at :: "instant option"
  ps_better_tip_since :: "instant option"
  ps_last_gap_warning_at :: "(peer_id, instant) omap"
  ps_header_first_seen :: "(hash32, u64) omap"
  ps_authentic_headers :: "(hash32, u64 \<times> u8 list) omap"
  ps_header_hashes_by_slot_issuer :: "(u64 \<times> u8 list, hash32 set) omap"
  ps_equivocating_rb_slots :: "u64 set"
  ps_block_policy :: "point \<Rightarrow> fetch_policy"
  ps_rtt :: peer_rtt
  ps_control :: praos_control
  ps_highest_tip_block_no :: u64
  ps_seen_header_frontier :: u64

definition praos_with_fetch :: "u64 \<Rightarrow> (point \<Rightarrow> fetch_policy) \<Rightarrow> peer_rtt \<Rightarrow> praos_state" where
  "praos_with_fetch k policy rtt =
     \<lparr>ps_security_param_k = k, ps_block_body_retention_blocks = None, ps_chain_tree = chain_tree_new,
      ps_adopted_tip_hash = None, ps_self_produced = {}, ps_block_cache = oempty, ps_validated = {},
      ps_peer_chains = oempty, ps_orphan_cooldown = oempty, ps_block_fetch_cooldown = oempty,
      ps_in_flight = oempty, ps_bridge_cooldown = None, ps_in_flight_validation = {},
      ps_queued_validator_tip = None, ps_last_validated_tip = None, ps_last_rollback_depth = None,
      ps_cert_seen = oempty, ps_cert_equivocations = [], ps_last_validated_at = None,
      ps_last_stuck_warning_at = None, ps_better_tip_since = None, ps_last_gap_warning_at = oempty,
      ps_header_first_seen = oempty, ps_authentic_headers = oempty, ps_header_hashes_by_slot_issuer = oempty,
      ps_equivocating_rb_slots = {}, ps_block_policy = policy, ps_rtt = rtt,
      ps_control = \<lparr>pk_rb_blacklist_tip = 0, pk_rb_blacklist_offset = 0\<rparr>,
      ps_highest_tip_block_no = 0, ps_seen_header_frontier = 0\<rparr>"

definition praos_new :: "u64 \<Rightarrow> praos_state" where
  "praos_new k = praos_with_fetch k (\<lambda>_. pick_one) (uniform_rtt 0)"

definition set_fetch_policy :: "praos_state \<Rightarrow> (point \<Rightarrow> fetch_policy) \<Rightarrow> praos_state" where
  "set_fetch_policy st policy = st\<lparr>ps_block_policy := policy\<rparr>"

definition set_block_body_retention_blocks :: "praos_state \<Rightarrow> u64 option \<Rightarrow> praos_state" where
  "set_block_body_retention_blocks st blocks = st\<lparr>ps_block_body_retention_blocks := blocks\<rparr>"

definition set_rtt :: "praos_state \<Rightarrow> peer_rtt \<Rightarrow> praos_state" where
  "set_rtt st rtt = st\<lparr>ps_rtt := rtt\<rparr>"

subsection \<open>Queries\<close>

definition peer_chain_cap :: "praos_state \<Rightarrow> nat" where
  "peer_chain_cap st = max (min (unat (ps_security_param_k st) * 2) USIZE_MAX) 64"

definition tip_block_number :: "praos_state \<Rightarrow> u64 option" where
  "tip_block_number st = Option.bind (ps_adopted_tip_hash st) (ct_block_number (ps_chain_tree st))"

definition next_block_number_after :: "praos_state \<Rightarrow> hash32 option \<Rightarrow> u64" where
  "next_block_number_after st tip =
     (case Option.bind tip (ct_block_number (ps_chain_tree st)) of None \<Rightarrow> 0 | Some bn \<Rightarrow> bn + 1)"

definition local_tip :: "praos_state \<Rightarrow> (point \<times> u64) option" where
  "local_tip st = ct_best_tip (ps_chain_tree st)"

definition adopted_tip_rb_slot :: "praos_state \<Rightarrow> u64 option" where
  "adopted_tip_rb_slot st =
     do {
       hash \<leftarrow> ps_adopted_tip_hash st;
       p \<leftarrow> ct_point (ps_chain_tree st) hash;
       get_slot p
     }"

definition adopted_tip_rb_hash :: "praos_state \<Rightarrow> hash32 option" where
  "adopted_tip_rb_hash st = ps_adopted_tip_hash st"

definition adopted_tip_header_arrival_slot :: "praos_state \<Rightarrow> u64 option" where
  "adopted_tip_header_arrival_slot st =
     do {
       hash \<leftarrow> ps_adopted_tip_hash st;
       case oget (ps_header_first_seen st) hash of
         Some slot \<Rightarrow> Some slot
       | None \<Rightarrow> do { p \<leftarrow> ct_point (ps_chain_tree st) hash; get_slot p }
     }"

definition adopted_tip_announced_eb :: "praos_state \<Rightarrow> hash32 option" where
  "adopted_tip_announced_eb st =
     do {
       hash \<leftarrow> ps_adopted_tip_hash st;
       cb \<leftarrow> oget (ps_block_cache st) hash;
       cb_announced_eb_hash cb
     }"

definition parent_announced_eb_for_cert :: "praos_state \<Rightarrow> point \<Rightarrow> (u64 \<times> hash32) option" where
  "parent_announced_eb_for_cert st p =
     do {
       hash \<leftarrow> get_hash p;
       cb \<leftarrow> oget (ps_block_cache st) hash;
       if \<not> cb_certified_eb cb then None
       else do {
         parent_hash \<leftarrow> cb_prev_hash cb;
         parent \<leftarrow> oget (ps_block_cache st) parent_hash;
         parent_eb_hash \<leftarrow> cb_announced_eb_hash parent;
         parent_slot \<leftarrow> get_slot (cb_point parent);
         Some (parent_slot, parent_eb_hash)
       }
     }"

definition note_header_first_seen :: "praos_state \<Rightarrow> hash32 \<Rightarrow> u64 \<Rightarrow> praos_state" where
  "note_header_first_seen st header_hash current_slot =
     st\<lparr>ps_header_first_seen := oor_insert header_hash current_slot (ps_header_first_seen st)\<rparr>"

definition note_authentic_header :: "praos_state \<Rightarrow> hash32 \<Rightarrow> u64 \<Rightarrow> u8 list \<Rightarrow> praos_state" where
  "note_authentic_header st header_hash block_no header_bytes =
     (if ohas (ps_block_cache st) header_hash
      then st\<lparr>ps_block_cache := oupdate header_hash (\<lambda>cb. cb\<lparr>cb_header := header_bytes\<rparr>) (ps_block_cache st)\<rparr>
      else st\<lparr>ps_authentic_headers := oor_insert header_hash (block_no, header_bytes) (ps_authentic_headers st)\<rparr>)"

definition note_header_for_equivocation :: "praos_state \<Rightarrow> u64 \<Rightarrow> u8 list \<Rightarrow> hash32 \<Rightarrow> praos_state" where
  "note_header_for_equivocation st slot issuer header_hash =
     (if issuer = [] then st
      else
        let key = (slot, issuer);
            old = oset (ps_header_hashes_by_slot_issuer st) key;
            hashes = insert header_hash old;
            was_new = (header_hash \<notin> old);
            st1 = st\<lparr>ps_header_hashes_by_slot_issuer := oput key hashes (ps_header_hashes_by_slot_issuer st)\<rparr>
        in if card hashes > 1 \<and> was_new
           then st1\<lparr>ps_equivocating_rb_slots := insert slot (ps_equivocating_rb_slots st1)\<rparr>
           else st1)"

definition is_equivocating_slot :: "praos_state \<Rightarrow> u64 \<Rightarrow> bool" where
  "is_equivocating_slot st slot \<longleftrightarrow> slot \<in> ps_equivocating_rb_slots st"

definition ps_record_announced_eb_tx_count :: "praos_state \<Rightarrow> hash32 \<Rightarrow> u32 \<Rightarrow> praos_state" where
  "ps_record_announced_eb_tx_count st eb_hash count =
     st\<lparr>ps_chain_tree := record_announced_eb_tx_count (ps_chain_tree st) eb_hash count\<rparr>"

subsection \<open>Peer events\<close>

definition record_peer_tip ::
  "praos_state \<Rightarrow> instant \<Rightarrow> peer_id \<Rightarrow> point \<Rightarrow> u64 \<Rightarrow> u64 \<Rightarrow> hash32 \<Rightarrow> u64 \<Rightarrow> hash32 option \<Rightarrow> praos_state" where
  "record_peer_tip st clock peer tip_pt tip_bno header_block_no header_hash header_slot header_prev_hash =
     (let st1 = st\<lparr>ps_highest_tip_block_no := max (ps_highest_tip_block_no st) tip_bno,
                   ps_seen_header_frontier := max (ps_seen_header_frontier st) header_block_no\<rparr>
      in case (if header_block_no = tip_bno
               then (case tip_pt of Specific _ hash \<Rightarrow> Some (hash, tip_pt) | Origin \<Rightarrow> None)
               else Some (header_hash, Specific header_slot header_hash)) of
           None \<Rightarrow> st1
         | Some (hash, point) \<Rightarrow>
             let entry = \<lparr>pe_hash = hash, pe_point = point, pe_block_no = header_block_no, pe_prev_hash = header_prev_hash\<rparr>;
                 chain = (case oget (ps_peer_chains st1) peer of
                            Some c \<Rightarrow> c | None \<Rightarrow> peer_chain_new (peer_chain_cap st1));
                 gap = (case pc_tip chain of
                          Some prev \<Rightarrow> (case header_prev_hash of Some p \<Rightarrow> p \<noteq> pe_hash prev | None \<Rightarrow> False)
                        | None \<Rightarrow> False);
                 throttled = (case oget (ps_last_gap_warning_at st1) peer of
                                Some last_at \<Rightarrow> clock - last_at < GAP_WARNING_INTERVAL | None \<Rightarrow> False);
                 st2 = st1\<lparr>ps_peer_chains := oput peer (snd (pc_append chain entry)) (ps_peer_chains st1)\<rparr>
             in if gap \<and> \<not> throttled
                then st2\<lparr>ps_last_gap_warning_at := oput peer clock (ps_last_gap_warning_at st2)\<rparr>
                else st2)"

definition record_peer_intersection ::
  "praos_state \<Rightarrow> peer_id \<Rightarrow> point \<Rightarrow> bool \<Rightarrow> u64 option \<Rightarrow> praos_state option" where
  "record_peer_intersection st peer point initial block_no =
     (let chain = (case oget (ps_peer_chains st) peer of Some c \<Rightarrow> c | None \<Rightarrow> peer_chain_new (peer_chain_cap st));
          st1 = st\<lparr>ps_peer_chains := oput peer (set_anchor chain point) (ps_peer_chains st)\<rparr>
      in case point of
           Origin \<Rightarrow> Some st1
         | Specific slot hash \<Rightarrow>
             if \<not> initial then Some st1
             else do {
               (_, tree) \<leftarrow> insert_chain_start (ps_chain_tree st1) hash point slot
                              (case block_no of Some n \<Rightarrow> n | None \<Rightarrow> 0);
               let st2 = st1\<lparr>ps_chain_tree := tree\<rparr>;
               if block_no \<noteq> None \<and> ps_adopted_tip_hash st2 = None
               then do {
                 bl \<leftarrow> is_blacklisted tree hash;
                 Some (if bl then st2 else st2\<lparr>ps_adopted_tip_hash := Some hash\<rparr>)
               }
               else Some st2
             })"

definition record_peer_rollback :: "praos_state \<Rightarrow> peer_id \<Rightarrow> point \<Rightarrow> praos_state" where
  "record_peer_rollback st peer p =
     st\<lparr>ps_peer_chains := oupdate peer (\<lambda>chain. rollback_to chain p) (ps_peer_chains st)\<rparr>"

definition record_peer_disconnected :: "praos_state \<Rightarrow> peer_id \<Rightarrow> praos_state" where
  "record_peer_disconnected st peer =
     st\<lparr>ps_peer_chains := odel peer (ps_peer_chains st), ps_orphan_cooldown := odel peer (ps_orphan_cooldown st),
       ps_last_gap_warning_at := odel peer (ps_last_gap_warning_at st)\<rparr>"

fun trim_cert_seen :: "nat \<Rightarrow> (u64, hash32) omap \<Rightarrow> (u64, hash32) omap" where
  "trim_cert_seen 0 m = m"
| "trim_cert_seen (Suc n) m =
     (if olen m > CERT_SEEN_CAP
      then (case okeys m of [] \<Rightarrow> m | oldest # _ \<Rightarrow> trim_cert_seen n (odel oldest m))
      else m)"

definition note_cert_for_equivocation :: "praos_state \<Rightarrow> u64 \<Rightarrow> hash32 \<Rightarrow> praos_state" where
  "note_cert_for_equivocation st eb_slot eb_hash =
     (case oget (ps_cert_seen st) eb_slot of
        Some prev \<Rightarrow>
          if prev \<noteq> eb_hash \<and> eb_slot \<notin> set (ps_cert_equivocations st)
          then st\<lparr>ps_cert_equivocations := ps_cert_equivocations st @ [eb_slot]\<rparr>
          else st
      | None \<Rightarrow>
          let m = oput eb_slot eb_hash (ps_cert_seen st)
          in st\<lparr>ps_cert_seen := trim_cert_seen (olen m) m\<rparr>)"

definition take_last_rollback_depth :: "praos_state \<Rightarrow> u64 option \<times> praos_state" where
  "take_last_rollback_depth st = (ps_last_rollback_depth st, st\<lparr>ps_last_rollback_depth := None\<rparr>)"

definition take_cert_equivocations :: "praos_state \<Rightarrow> u64 list \<times> praos_state" where
  "take_cert_equivocations st = (ps_cert_equivocations st, st\<lparr>ps_cert_equivocations := []\<rparr>)"

subsection \<open>Chain selection\<close>

text \<open>\<open>walk_ancestors_hybrid\<close>: the parent a block claims, in the tree or else in the cache.\<close>

definition hybrid_knows :: "praos_state \<Rightarrow> hash32 \<Rightarrow> bool" where
  "hybrid_knows st h \<longleftrightarrow> ct_block_number (ps_chain_tree st) h \<noteq> None \<or> ohas (ps_block_cache st) h"

definition hybrid_parent :: "praos_state \<Rightarrow> hash32 \<Rightarrow> hash32 option" where
  "hybrid_parent st h =
     (if ct_block_number (ps_chain_tree st) h \<noteq> None then ct_prev_hash (ps_chain_tree st) h
      else case oget (ps_block_cache st) h of Some cb \<Rightarrow> cb_prev_hash cb | None \<Rightarrow> None)"

partial_function (option) hybrid_loop :: "praos_state \<Rightarrow> hash32 list \<Rightarrow> hash32 \<Rightarrow> hybrid_walk option" where
  "hybrid_loop st chain current =
     (if is_chain_origin (ps_chain_tree st) current
      then Some \<lparr>hw_chain = chain, hw_reached_origin = Some ChainOrigin\<rparr>
      else if \<not> hybrid_knows st current then Some \<lparr>hw_chain = chain, hw_reached_origin = None\<rparr>
      else case hybrid_parent st current of
             None \<Rightarrow> Some \<lparr>hw_chain = chain, hw_reached_origin = Some Genesis\<rparr>
           | Some parent \<Rightarrow>
               if is_chain_origin (ps_chain_tree st) parent
               then Some \<lparr>hw_chain = chain @ [parent], hw_reached_origin = Some ChainOrigin\<rparr>
               else if \<not> hybrid_knows st parent then Some \<lparr>hw_chain = chain, hw_reached_origin = None\<rparr>
               else hybrid_loop st (chain @ [parent]) parent)"

definition walk_ancestors_hybrid :: "praos_state \<Rightarrow> hash32 \<Rightarrow> hybrid_walk option" where
  "walk_ancestors_hybrid st start_hash = hybrid_loop st [start_hash] start_hash"

definition block_held :: "praos_state \<Rightarrow> hash32 \<Rightarrow> bool" where
  "block_held st h \<longleftrightarrow> h \<in> ps_validated st \<or> ohas (ps_block_cache st) h"

fun missing_run :: "praos_state \<Rightarrow> bool \<Rightarrow> (point \<times> hash32) list \<Rightarrow> point list" where
  "missing_run st started [] = []"
| "missing_run st started ((p, h) # replay) =
     (if block_held st h then (if started then [] else missing_run st started replay)
      else p # missing_run st True replay)"

definition leading_missing_run :: "praos_state \<Rightarrow> (point \<times> hash32) list \<Rightarrow> point list" where
  "leading_missing_run st replay = missing_run st False replay"

text \<open>The first ancestor that is neither blacklisted nor an heir of a blacklisted block.\<close>

fun find_clean :: "chain_tree \<Rightarrow> hash32 list \<Rightarrow> hash32 option option" where
  "find_clean t [] = Some None"
| "find_clean t (h # hs) = do { bl \<leftarrow> is_blacklisted t h; if bl then find_clean t hs else Some (Some h) }"

definition effective_adopted_tip :: "praos_state \<Rightarrow> hash32 option option" where
  "effective_adopted_tip st =
     (case ps_adopted_tip_hash st of
        None \<Rightarrow> Some None
      | Some tip \<Rightarrow> do { chain \<leftarrow> ancestors (ps_chain_tree st) tip; find_clean (ps_chain_tree st) chain })"

text \<open>Taint propagated through the entries of one peer's fragment.\<close>

fun taint_entries :: "chain_tree \<Rightarrow> hash32 set \<Rightarrow> peer_chain_entry list \<Rightarrow> hash32 set option" where
  "taint_entries t tainted_set [] = Some tainted_set"
| "taint_entries t tainted_set (e # es) =
     do {
       parent_tainted \<leftarrow> (case pe_prev_hash e of
                            None \<Rightarrow> Some False
                          | Some parent \<Rightarrow> if parent \<in> tainted_set then Some True else is_blacklisted t parent);
       own \<leftarrow> (if parent_tainted then Some True else is_blacklisted t (pe_hash e));
       taint_entries t (if own then insert (pe_hash e) tainted_set else tainted_set) es
     }"

text \<open>The candidates: peers that are not skipped and whose untainted fragment ends in a better tip.\<close>

fun peer_candidates ::
  "chain_tree \<Rightarrow> peer_id set \<Rightarrow> bool \<Rightarrow> u64 \<Rightarrow> hash32 \<Rightarrow> (peer_id \<times> peer_chain) list
     \<Rightarrow> (peer_id \<times> peer_chain \<times> peer_chain_entry) list option" where
  "peer_candidates t skip adopted_set adopted_bn adopted_hash [] = Some []"
| "peer_candidates t skip adopted_set adopted_bn adopted_hash ((peer, chain) # rest) =
     (if peer \<in> skip then peer_candidates t skip adopted_set adopted_bn adopted_hash rest
      else do {
        tainted_set \<leftarrow> taint_entries t (ct_blacklist t) (pc_entries chain);
        let trimmed = trim_by_blacklist chain tainted_set;
        cs \<leftarrow> peer_candidates t skip adopted_set adopted_bn adopted_hash rest;
        case pc_tip trimmed of
          None \<Rightarrow> Some cs
        | Some tip \<Rightarrow>
            if \<not> adopted_set \<or> is_better_tip (pe_block_no tip) (pe_hash tip) adopted_bn adopted_hash
            then Some ((peer, trimmed, tip) # cs) else Some cs
      })"

text \<open>\<open>Iterator::max_by\<close>: the last of the greatest elements.\<close>

fun max_by :: "('a \<Rightarrow> 'a \<Rightarrow> bool) \<Rightarrow> 'a list \<Rightarrow> 'a option" where
  "max_by gt [] = None"
| "max_by gt (x # xs) = Some (foldl (\<lambda>a b. if gt a b then a else b) x xs)"

definition candidate_greater :: "peer_id \<times> peer_chain \<times> peer_chain_entry \<Rightarrow> peer_id \<times> peer_chain \<times> peer_chain_entry \<Rightarrow> bool" where
  "candidate_greater a b \<longleftrightarrow>
     (let ta = snd (snd a); tb = snd (snd b)
      in pe_block_no ta > pe_block_no tb \<or> pe_block_no ta = pe_block_no tb \<and> pe_hash tb > pe_hash ta)"

text \<open>From the newest entry back to the first one on the adopted chain: what to replay, and that entry.\<close>

fun split_at_ancestor :: "hash32 set \<Rightarrow> peer_chain_entry list \<Rightarrow> peer_chain_entry list \<times> hash32 option" where
  "split_at_ancestor adopted [] = ([], None)"
| "split_at_ancestor adopted (e # es) =
     (if pe_hash e \<in> adopted then ([], Some (pe_hash e))
      else (let (replay_rev, a) = split_at_ancestor adopted es in (e # replay_rev, a)))"

definition common_ancestor ::
  "praos_state \<Rightarrow> peer_chain \<Rightarrow> hash32 set \<Rightarrow> bool \<Rightarrow> u64 \<Rightarrow> hash32 option \<Rightarrow> hash32 option" where
  "common_ancestor st candidate adopted_ancestors adopted_set adopted_bn found =
     (let a1 = (case found of
                  Some a \<Rightarrow> Some a
                | None \<Rightarrow>
                    (case pc_entries candidate of
                       [] \<Rightarrow> None
                     | oldest # _ \<Rightarrow>
                         (case pe_prev_hash oldest of
                            None \<Rightarrow> Some 0
                          | Some parent \<Rightarrow>
                              if parent \<in> adopted_ancestors \<or> \<not> adopted_set then Some parent else None)));
          a2 = (case a1 of
                  Some a \<Rightarrow> Some a
                | None \<Rightarrow>
                    (case pc_anchor candidate of
                       None \<Rightarrow> None
                     | Some anchor \<Rightarrow>
                         if pa_hash anchor = 0 \<and> \<not> adopted_set then Some 0
                         else if pa_hash anchor \<in> adopted_ancestors then Some (pa_hash anchor) else None))
      in case a2 of
           Some a \<Rightarrow> Some a
         | None \<Rightarrow>
             (case pc_anchor candidate of
                None \<Rightarrow> None
              | Some anchor \<Rightarrow>
                  if pa_hash anchor \<noteq> 0
                  then (case ct_block_number (ps_chain_tree st) (pa_hash anchor) of
                          None \<Rightarrow> None
                        | Some anchor_bn \<Rightarrow>
                            if saturating_sub adopted_bn anchor_bn \<le> ps_security_param_k st
                            then Some (pa_hash anchor) else None)
                  else None))"

text \<open>With nothing missing: the replay must be one branch that reaches the ancestor.\<close>

definition check_replay ::
  "praos_state \<Rightarrow> peer_id \<Rightarrow> hash32 \<Rightarrow> hash32 list \<Rightarrow> u64 \<Rightarrow> selection_decision option" where
  "check_replay st peer ancestor replay_hashes tip_bn =
     (if replay_hashes = [] then Some (Switched peer ancestor replay_hashes tip_bn)
      else do {
        walk \<leftarrow> walk_ancestors_hybrid st (last replay_hashes);
        if \<not> (\<forall>h \<in> set replay_hashes. h \<in> set (hw_chain walk)) then Some (OrphanCandidate peer tip_bn)
        else if \<not> (if ancestor = 0 then hw_reached_origin walk \<noteq> None else ancestor \<in> set (hw_chain walk))
        then Some (OrphanCandidate peer tip_bn)
        else Some (Switched peer ancestor replay_hashes tip_bn)
      })"

definition select_chain_once :: "praos_state \<Rightarrow> peer_id set \<Rightarrow> selection_decision option" where
  "select_chain_once st skip =
     do {
       effective_adopted \<leftarrow> effective_adopted_tip st;
       let tree = ps_chain_tree st;
       let adopted_hash = (case effective_adopted of Some h \<Rightarrow> h | None \<Rightarrow> 0);
       let adopted_bn = (case effective_adopted of
                           Some h \<Rightarrow> (case ct_block_number tree h of Some n \<Rightarrow> n | None \<Rightarrow> 0) | None \<Rightarrow> 0);
       let adopted_set = (effective_adopted \<noteq> None);
       if ps_adopted_tip_hash st \<noteq> None \<and> effective_adopted \<noteq> ps_adopted_tip_hash st
       then Some (RollbackTainted adopted_hash adopted_bn)
       else do {
         cs \<leftarrow> peer_candidates tree skip adopted_set adopted_bn adopted_hash (entries (ps_peer_chains st));
         case max_by candidate_greater cs of
           None \<Rightarrow> Some NoBetterChain
         | Some (peer, candidate, tip) \<Rightarrow>
             do {
               adopted_list \<leftarrow> (case effective_adopted of None \<Rightarrow> Some [] | Some h \<Rightarrow> ancestors tree h);
               let (replay_rev, found) = split_at_ancestor (set adopted_list) (rev (pc_entries candidate));
               case common_ancestor st candidate (set adopted_list) adopted_set adopted_bn found of
                 None \<Rightarrow> Some (OrphanCandidate peer (pe_block_no tip))
               | Some ancestor \<Rightarrow>
                   let replay = map (\<lambda>e. (pe_point e, pe_hash e)) (rev replay_rev);
                       missing = leading_missing_run st replay;
                       oldest_prev = (case pc_entries candidate of [] \<Rightarrow> None | e # _ \<Rightarrow> pe_prev_hash e);
                       anchor_point = (case pc_anchor candidate of
                                         None \<Rightarrow> None
                                       | Some a \<Rightarrow> if pa_hash a = ancestor \<and> oldest_prev \<noteq> Some ancestor
                                                  then Some (pa_point a) else None)
                   in if missing = [] then check_replay st peer ancestor (map snd replay) (pe_block_no tip)
                      else Some (WaitingForBlocks peer ancestor anchor_point missing (pe_block_no tip))
             }
       }
     }"

text \<open>The error of \<open>try_switch_to\<close> carries the point of a gap, if there is one.\<close>

definition gap_of :: "chain_tree \<Rightarrow> hash32 list \<Rightarrow> point option" where
  "gap_of t walk = (if walk = [] then None else ct_point t (last walk))"

definition try_switch_to :: "praos_state \<Rightarrow> hash32 \<Rightarrow> (point option + hash32 \<times> hash32 list) option" where
  "try_switch_to st tip_hash =
     (let tree = ps_chain_tree st;
          adopted = (case ps_adopted_tip_hash st of Some h \<Rightarrow> h | None \<Rightarrow> 0)
      in if tip_hash = adopted then Some (Inl None)
         else do {
           bl \<leftarrow> is_blacklisted tree tip_hash;
           if bl then Some (Inl None)
           else case ct_block_number tree tip_hash of
                  None \<Rightarrow> Some (Inl None)
                | Some tip_bn \<Rightarrow>
                    let adopted_bn = (case tip_block_number st of Some n \<Rightarrow> n | None \<Rightarrow> 0)
                    in if \<not> is_better_tip tip_bn tip_hash adopted_bn adopted then Some (Inl None)
                       else do {
                         walk \<leftarrow> ancestors tree tip_hash;
                         adopted_ancestors \<leftarrow> (case ps_adopted_tip_hash st of None \<Rightarrow> Some [] | Some h \<Rightarrow> ancestors tree h);
                         case (case position (\<lambda>h. h = adopted \<or> h \<in> set adopted_ancestors) walk of
                                 Some p \<Rightarrow> Inr p
                               | None \<Rightarrow>
                                   if ps_adopted_tip_hash st = None \<and> walk \<noteq> [] \<and> ct_prev_hash tree (last walk) = None
                                   then Inr (length walk) else Inl (gap_of tree walk)) of
                           Inl gap \<Rightarrow> Some (Inl gap)
                         | Inr ancestor_pos \<Rightarrow>
                             let ancestor = (if ancestor_pos < length walk then walk ! ancestor_pos else 0);
                                 replay = rev (take ancestor_pos walk);
                                 prefix = takeWhile (\<lambda>h. h \<notin> ps_in_flight_validation st \<and> block_held st h) replay
                             in if replay = [] then Some (Inl None)
                                else if prefix = [] then Some (Inl None)
                                else Some (Inr (ancestor, prefix))
                       }
         })"

subsection \<open>Effects of a selection\<close>

definition evict_stale_in_flight :: "praos_state \<Rightarrow> instant \<Rightarrow> praos_state" where
  "evict_stale_in_flight st now =
     st\<lparr>ps_in_flight := oretain (\<lambda>_ started. now - started < IN_FLIGHT_TTL) (ps_in_flight st)\<rparr>"

text \<open>Realigning the validator's queue with a block's parent before the block is submitted.\<close>

definition align_queue :: "praos_state \<Rightarrow> hash32 option \<Rightarrow> praos_state \<times> praos_effect list" where
  "align_queue st prev_hash =
     (if prev_hash \<noteq> ps_queued_validator_tip st
      then (case prev_hash of
              None \<Rightarrow> (st, [])
            | Some parent_hash \<Rightarrow>
                (case ct_point (ps_chain_tree st) parent_hash of
                   Some parent_point \<Rightarrow>
                     (st\<lparr>ps_queued_validator_tip := Some parent_hash\<rparr>, [ValidatorRollback parent_point])
                 | None \<Rightarrow> (st, [])))
      else (st, []))"

definition submit_for_validation ::
  "praos_state \<Rightarrow> point \<Rightarrow> u8 list \<Rightarrow> hash32 option \<Rightarrow> (praos_state \<times> praos_effect list) option" where
  "submit_for_validation st p body prev_hash =
     (case p of
        Origin \<Rightarrow> Some (st, [])
      | Specific _ new_hash \<Rightarrow>
          do {
            bl \<leftarrow> is_blacklisted (ps_chain_tree st) new_hash;
            if bl then Some (st, [])
            else
              let (st1, fx) = align_queue st prev_hash
              in Some (st1\<lparr>ps_queued_validator_tip := Some new_hash, ps_adopted_tip_hash := Some new_hash,
                           ps_in_flight_validation := insert new_hash (ps_in_flight_validation st1)\<rparr>,
                       fx @ [ValidatorApply p body prev_hash (p \<in> ps_self_produced st1)])
          })"

fun replay_blocks :: "praos_state \<Rightarrow> hash32 list \<Rightarrow> (praos_state \<times> praos_effect list) option" where
  "replay_blocks st [] = Some (st, [])"
| "replay_blocks st (hash # replay) =
     (case oget (ps_block_cache st) hash of
        None \<Rightarrow> Some (st, [])
      | Some cb \<Rightarrow>
          do {
            (st1, fx1) \<leftarrow> submit_for_validation st (cb_point cb) (cb_body cb) (cb_prev_hash cb);
            (st2, fx2) \<leftarrow> replay_blocks st1 replay;
            Some (st2, fx1 @ fx2)
          })"

text \<open>The rollback half of a switch; \<open>None\<close> aborts the switch.\<close>

definition rollback_to_ancestor :: "praos_state \<Rightarrow> hash32 \<Rightarrow> (praos_state \<times> praos_effect list) option" where
  "rollback_to_ancestor st ancestor =
     (if (ancestor \<noteq> 0 \<or> ps_adopted_tip_hash st \<noteq> None) \<and> ps_queued_validator_tip st \<noteq> Some ancestor
      then
        let old_bn = (case tip_block_number st of Some n \<Rightarrow> n | None \<Rightarrow> 0)
        in if ancestor = 0
           then Some (st\<lparr>ps_last_rollback_depth := Some old_bn, ps_queued_validator_tip := None,
                         ps_adopted_tip_hash := None\<rparr>, [ValidatorRollback Origin])
           else (case ct_point (ps_chain_tree st) ancestor of
                   None \<Rightarrow> None
                 | Some ancestor_point \<Rightarrow>
                     let ancestor_bn = (case ct_block_number (ps_chain_tree st) ancestor of Some n \<Rightarrow> n | None \<Rightarrow> old_bn)
                     in Some (st\<lparr>ps_last_rollback_depth := Some (saturating_sub old_bn ancestor_bn),
                                 ps_queued_validator_tip := Some ancestor, ps_adopted_tip_hash := Some ancestor\<rparr>,
                              [ValidatorRollback ancestor_point]))
      else Some (st, []))"

definition execute_switch :: "praos_state \<Rightarrow> hash32 \<Rightarrow> hash32 list \<Rightarrow> (praos_state \<times> praos_effect list) option" where
  "execute_switch st ancestor replay =
     (case rollback_to_ancestor st ancestor of
        None \<Rightarrow> Some (st, [])
      | Some (st1, fx1) \<Rightarrow>
          do {
            (st2, fx2) \<leftarrow> replay_blocks st1 replay;
            Some (st2, fx1 @ fx2)
          })"

definition choose_block_fetch_peers :: "praos_state \<Rightarrow> point \<Rightarrow> peer_id option \<Rightarrow> peer_id list" where
  "choose_block_fetch_peers st p hint =
     (let candidates = map fst (filter (\<lambda>(_, chain). \<exists>e \<in> set (pc_entries chain). pe_point e = p)
                                  (entries (ps_peer_chains st)));
          candidates1 = (case hint of
                           Some h \<Rightarrow> if h \<in> set candidates then candidates else candidates @ [h]
                         | None \<Rightarrow> candidates)
      in ps_block_policy st p candidates1 (ps_rtt st))"

definition push_eb_fetch :: "praos_state \<Rightarrow> point \<Rightarrow> praos_effect list" where
  "push_eb_fetch st eb_point =
     (let peers = ps_block_policy st eb_point (okeys (ps_peer_chains st)) (ps_rtt st)
      in if peers \<noteq> [] then [FetchAnnouncedEb eb_point peers] else [])"

definition issue_fetch ::
  "praos_state \<Rightarrow> point list \<Rightarrow> point option \<Rightarrow> peer_id option \<Rightarrow> instant \<Rightarrow> praos_state \<times> praos_effect list" where
  "issue_fetch st missing anchor_point peer now =
     (if missing = [] then (st, [])
      else
        let st1 = evict_stale_in_flight st now;
            to_fetch = takeWhile (\<lambda>p. \<not> ohas (ps_in_flight st1) p) (dropWhile (\<lambda>p. ohas (ps_in_flight st1) p) missing)
        in if to_fetch = [] then (st1, [])
           else
             let from = (case anchor_point of
                           Some p \<Rightarrow> if hd to_fetch = hd missing \<and> p \<noteq> Origin then p else hd to_fetch
                         | None \<Rightarrow> hd to_fetch);
                 to_point = last to_fetch;
                 st2 = st1\<lparr>ps_in_flight := fold (\<lambda>p. oput p now) to_fetch (ps_in_flight st1)\<rparr>
             in (st2, [FetchBlockRange from to_point (choose_block_fetch_peers st2 to_point peer)]))"

text \<open>The loop of \<open>evaluate_and_fetch_internal\<close>.\<close>

partial_function (option) evaluate_loop ::
  "praos_state \<Rightarrow> instant \<Rightarrow> peer_id set \<Rightarrow> praos_effect list \<Rightarrow> (praos_state \<times> praos_effect list) option" where
  "evaluate_loop st now skip fx =
     Option.bind (select_chain_once st skip) (\<lambda>decision.
       case decision of
         NoBetterChain \<Rightarrow> Some (st, fx)
       | RollbackTainted ancestor _ \<Rightarrow>
           Option.bind (execute_switch st ancestor []) (\<lambda>r.
             if ps_adopted_tip_hash (fst r) = ps_adopted_tip_hash st then Some (fst r, fx @ snd r)
             else evaluate_loop (fst r) now skip (fx @ snd r))
       | OrphanCandidate peer _ \<Rightarrow>
           evaluate_loop
             (st\<lparr>ps_peer_chains := oupdate peer clear_entries (ps_peer_chains st),
                 ps_orphan_cooldown := oput peer (now + ORPHAN_COOLDOWN) (ps_orphan_cooldown st)\<rparr>)
             now (insert peer skip)
             (if ohas (ps_orphan_cooldown st) peer then fx else fx @ [ReIntersect peer])
       | Switched _ ancestor replay _ \<Rightarrow>
           Option.bind (execute_switch st ancestor replay) (\<lambda>r. Some (fst r, fx @ snd r))
       | WaitingForBlocks peer _ anchor_point missing _ \<Rightarrow>
           Some (map_prod id (\<lambda>fx1. fx @ fx1) (issue_fetch st missing anchor_point (Some peer) now)))"

definition evaluate_and_fetch :: "praos_state \<Rightarrow> instant \<Rightarrow> (praos_state \<times> praos_effect list) option" where
  "evaluate_and_fetch st now =
     (let cooling = (\<lambda>m. oretain (\<lambda>_ until. until > now) m);
          st1 = st\<lparr>ps_orphan_cooldown := cooling (ps_orphan_cooldown st),
                   ps_block_fetch_cooldown := cooling (ps_block_fetch_cooldown st)\<rparr>;
          skip = set (okeys (ps_orphan_cooldown st1)) \<union> set (okeys (ps_block_fetch_cooldown st1))
      in evaluate_loop st1 now skip [])"

definition try_switch_and_execute :: "praos_state \<Rightarrow> hash32 \<Rightarrow> (praos_state \<times> praos_effect list) option" where
  "try_switch_and_execute st tip_hash =
     do {
       r \<leftarrow> try_switch_to st tip_hash;
       case r of
         Inr (ancestor, replay) \<Rightarrow> execute_switch st ancestor replay
       | Inl _ \<Rightarrow> Some (st, [])
     }"

text \<open>Switching to the tree's best tip, if it has one.\<close>

definition try_switch_to_best :: "praos_state \<Rightarrow> (praos_state \<times> praos_effect list) option" where
  "try_switch_to_best st =
     (case best_tip_hash (ps_chain_tree st) of
        Some best \<Rightarrow> try_switch_and_execute st best
      | None \<Rightarrow> Some (st, []))"

subsection \<open>Event handlers\<close>

definition praos_apply_control :: "praos_state \<Rightarrow> praos_control \<Rightarrow> instant \<Rightarrow> (praos_state \<times> praos_effect list) option" where
  "praos_apply_control st control now =
     (let tree = ps_chain_tree st;
          tip = pk_rb_blacklist_tip control;
          offset = unat (pk_rb_blacklist_offset control)
      in do {
        blacklisted \<leftarrow> (case ct_block_number tree tip of
                          None \<Rightarrow> Some []
                        | Some _ \<Rightarrow> do { anc \<leftarrow> ancestors tree tip; Some (if offset < length anc then [anc ! offset] else []) });
        tree1 \<leftarrow> update_blacklist tree blacklisted;
        let st1 = st\<lparr>ps_control := control, ps_chain_tree := tree1\<rparr>;
        if ct_blacklist tree1 \<noteq> ct_blacklist tree
        then do {
          (st2, fx1) \<leftarrow> evaluate_and_fetch st1 now;
          (st3, fx2) \<leftarrow> try_switch_to_best st2;
          Some (st3, fx1 @ fx2)
        }
        else Some (st1, [])
      })"

definition on_tip_advanced ::
  "praos_state \<Rightarrow> instant \<Rightarrow> peer_id \<Rightarrow> point \<Rightarrow> u64 \<Rightarrow> u64 \<Rightarrow> hash32 \<Rightarrow> u64 \<Rightarrow> hash32 option \<Rightarrow> u8 list \<Rightarrow> instant
     \<Rightarrow> (praos_state \<times> praos_effect list) option" where
  "on_tip_advanced st clock peer tip_pt tip_bno header_block_no header_hash header_slot header_prev_hash
       header_issuer now =
     evaluate_and_fetch
       (record_peer_tip (note_header_for_equivocation st header_slot header_issuer header_hash) clock peer
          tip_pt tip_bno header_block_no header_hash header_slot header_prev_hash) now"

definition effective_header :: "praos_state \<Rightarrow> point \<Rightarrow> hash32 \<Rightarrow> parsed_header_info option \<Rightarrow> parsed_header_info" where
  "effective_header st p hash parsed_header =
     (case parsed_header of
        Some h \<Rightarrow> h
      | None \<Rightarrow>
          \<lparr>ph_block_number = (case ct_block_number (ps_chain_tree st) hash of Some n \<Rightarrow> n | None \<Rightarrow> 0),
           ph_slot = (case get_slot p of Some s \<Rightarrow> s | None \<Rightarrow> 0),
           ph_prev_hash = ct_prev_hash (ps_chain_tree st) hash, ph_announced_eb_hash = None,
           ph_announced_eb_size = None, ph_certified_eb = False, ph_issuer = []\<rparr>)"

definition on_block_received ::
  "praos_state \<Rightarrow> point \<Rightarrow> u8 list \<Rightarrow> u8 list \<Rightarrow> parsed_header_info option \<Rightarrow> parsed_body_info
     \<Rightarrow> (praos_state \<times> praos_effect list \<times> eb_key list) option" where
  "on_block_received st point fallback_header_bytes body_bytes parsed_header parsed_body =
     (case point of
        Origin \<Rightarrow> Some (st, [], [])
      | Specific _ hash \<Rightarrow>
          if ohas (ps_block_cache st) hash \<or> hash \<in> ps_validated st \<or> hash \<in> ps_in_flight_validation st
          then Some (st, [], [])
          else
            let header = effective_header st point hash parsed_header;
                certified_eb = (ph_certified_eb header \<or> pb_eb_certificate parsed_body \<noteq> None
                                \<or> pb_eb_certificate_pending parsed_body);
                st1 = note_header_for_equivocation st (ph_slot header) (ph_issuer header) hash
            in do {
              tree \<leftarrow> (if parsed_header \<noteq> None \<or> ph_block_number header > 0
                       then map_option snd (ct_insert (ps_chain_tree st1) hash point (ph_block_number header)
                              (ph_slot header) (ph_prev_hash header) (pb_tx_count parsed_body)
                              (ph_announced_eb_hash header) certified_eb)
                       else Some (ps_chain_tree st1));
              let header_bytes = (case oget (ps_authentic_headers st1) hash of
                                    Some (_, bytes) \<Rightarrow> bytes | None \<Rightarrow> fallback_header_bytes);
              let st2 = st1\<lparr>ps_chain_tree := tree,
                            ps_authentic_headers := odel hash (ps_authentic_headers st1),
                            ps_block_cache := oput hash
                              \<lparr>cb_point = point, cb_block_no = ph_block_number header,
                               cb_prev_hash = ph_prev_hash header, cb_header = header_bytes, cb_body = body_bytes,
                               cb_announced_eb_hash = ph_announced_eb_hash header, cb_certified_eb = certified_eb\<rparr>
                              (ps_block_cache st1)\<rparr>;
              let (st3, lx) = (case pb_eb_certificate parsed_body of
                    Some cert \<Rightarrow>
                      (note_cert_for_equivocation st2 (lc_eb_slot cert) (lc_eb_hash cert),
                       [EbKey (lc_eb_slot cert) (lc_eb_hash cert)])
                  | None \<Rightarrow>
                      (st2, if ph_certified_eb header
                            then (case Option.bind (ph_prev_hash header) (announced_eb_key_by tree) of
                                    Some key \<Rightarrow> [key] | None \<Rightarrow> [])
                            else []));
              let immutable_max_bn = saturating_sub (ps_highest_tip_block_no st3) (ps_security_param_k st3);
              let fx1 = (case ph_announced_eb_hash header of
                           Some eb_hash \<Rightarrow>
                             if ph_block_number header > immutable_max_bn
                             then push_eb_fetch st3 (Specific (ph_slot header) eb_hash) else []
                         | None \<Rightarrow> []);
              let cert_eb = (case pb_eb_certificate parsed_body of
                               Some c \<Rightarrow> Some (lc_eb_slot c, lc_eb_hash c)
                             | None \<Rightarrow> parent_announced_eb_for_cert st3 point);
              let fx2 = (case cert_eb of
                           Some (eb_slot, eb_hash) \<Rightarrow>
                             if saturating_sub (ph_block_number header) 1 \<le> immutable_max_bn
                             then push_eb_fetch st3 (Specific eb_slot eb_hash) else []
                         | None \<Rightarrow> []);
              (st4, fx3) \<leftarrow> try_switch_and_execute st3 hash;
              Some (st4, fx1 @ fx2 @ fx3, lx)
            })"

definition clear_failed_range :: "point \<Rightarrow> point \<Rightarrow> (point, instant) omap \<Rightarrow> (point, instant) omap" where
  "clear_failed_range from to_point in_flight =
     (case (get_slot from, get_slot to_point) of
        (Some from_slot, Some to_slot) \<Rightarrow>
          oretain (\<lambda>p _. case get_slot p of Some s \<Rightarrow> s < from_slot \<or> s > to_slot | None \<Rightarrow> True) in_flight
      | _ \<Rightarrow> odel to_point (odel from in_flight))"

definition on_block_fetch_failed ::
  "praos_state \<Rightarrow> peer_id \<Rightarrow> point \<Rightarrow> point \<Rightarrow> instant \<Rightarrow> (praos_state \<times> praos_effect list) option" where
  "on_block_fetch_failed st peer from to_point now =
     evaluate_and_fetch
       (st\<lparr>ps_in_flight := clear_failed_range from to_point (ps_in_flight st),
           ps_block_fetch_cooldown := oput peer (now + BLOCK_FETCH_COOLDOWN) (ps_block_fetch_cooldown st)\<rparr>) now"

definition on_peer_rolled_back :: "praos_state \<Rightarrow> peer_id \<Rightarrow> point \<Rightarrow> instant \<Rightarrow> (praos_state \<times> praos_effect list) option" where
  "on_peer_rolled_back st peer p now = evaluate_and_fetch (record_peer_rollback st peer p) now"

definition on_peer_disconnected :: "praos_state \<Rightarrow> peer_id \<Rightarrow> instant \<Rightarrow> (praos_state \<times> praos_effect list) option" where
  "on_peer_disconnected st peer now = evaluate_and_fetch (record_peer_disconnected st peer) now"

definition register_self_produced ::
  "praos_state \<Rightarrow> point \<Rightarrow> u8 list \<Rightarrow> u8 list \<Rightarrow> parsed_header_info option \<Rightarrow> u32
     \<Rightarrow> (praos_state \<times> praos_effect list) option" where
  "register_self_produced st point header_bytes body_bytes parsed_header tx_count =
     (let st1 = st\<lparr>ps_self_produced := insert point (ps_self_produced st)\<rparr>
      in case point of
           Origin \<Rightarrow> Some (st1, [])
         | Specific _ hash \<Rightarrow>
             (case parsed_header of
                Some info \<Rightarrow>
                  let st2 = note_header_for_equivocation st1 (ph_slot info) (ph_issuer info) hash
                  in do {
                    (_, tree) \<leftarrow> ct_insert (ps_chain_tree st2) hash point (ph_block_number info) (ph_slot info)
                                   (ph_prev_hash info) tx_count (ph_announced_eb_hash info) (ph_certified_eb info);
                    let st3 = st2\<lparr>ps_chain_tree := tree,
                                  ps_block_cache := oor_insert hash
                                    \<lparr>cb_point = point, cb_block_no = ph_block_number info,
                                     cb_prev_hash = ph_prev_hash info, cb_header = header_bytes, cb_body = body_bytes,
                                     cb_announced_eb_hash = ph_announced_eb_hash info,
                                     cb_certified_eb = ph_certified_eb info\<rparr> (ps_block_cache st2)\<rparr>;
                    (st4, fx1) \<leftarrow> submit_for_validation st3 point body_bytes (ph_prev_hash info);
                    (st5, fx2) \<leftarrow> try_switch_and_execute st4 hash;
                    Some (st5, fx1 @ fx2)
                  }
              | None \<Rightarrow> submit_for_validation st1 point body_bytes None))"

subsection \<open>Validation outcomes\<close>

text \<open>Pruning after an applied block: chain structure at \<open>k\<close>, bodies at the body window, slots at \<open>k\<close>.\<close>

definition prune_structure :: "praos_state \<Rightarrow> u64 \<Rightarrow> praos_state option" where
  "prune_structure st bn =
     (if bn > ps_security_param_k st
      then do {
        let min_bn = bn - ps_security_param_k st;
        tree \<leftarrow> prune_below (ps_chain_tree st) min_bn;
        Some (st\<lparr>ps_chain_tree := tree,
                 ps_authentic_headers := oretain (\<lambda>_ v. fst v \<ge> min_bn) (ps_authentic_headers st)\<rparr>)
      }
      else Some st)"

definition prune_bodies :: "praos_state \<Rightarrow> u64 \<Rightarrow> praos_state" where
  "prune_bodies st bn =
     (let body_window = (case ps_block_body_retention_blocks st of
                           None \<Rightarrow> ps_security_param_k st | Some w \<Rightarrow> min w (ps_security_param_k st))
      in if bn > body_window
         then let cache = oretain (\<lambda>_ cb. cb_block_no cb \<ge> bn - body_window) (ps_block_cache st)
              in st\<lparr>ps_block_cache := cache, ps_validated := {h \<in> ps_validated st. ohas cache h},
                    ps_header_first_seen := oretain (\<lambda>h _. ohas cache h) (ps_header_first_seen st)\<rparr>
         else st)"

definition prune_equivocation :: "praos_state \<Rightarrow> u64 \<Rightarrow> praos_state" where
  "prune_equivocation st slot =
     (let slot_cutoff = saturating_sub slot (ps_security_param_k st)
      in if slot_cutoff > 0
         then st\<lparr>ps_header_hashes_by_slot_issuer := oretain (\<lambda>k _. fst k \<ge> slot_cutoff) (ps_header_hashes_by_slot_issuer st),
                 ps_equivocating_rb_slots := {s \<in> ps_equivocating_rb_slots st. s \<ge> slot_cutoff}\<rparr>
         else st)"

definition on_block_applied :: "praos_state \<Rightarrow> point \<Rightarrow> instant \<Rightarrow> (praos_state \<times> praos_effect list) option" where
  "on_block_applied st point now =
     (case point of
        Origin \<Rightarrow> Some (st, [])
      | Specific slot hash \<Rightarrow>
          let st1 = st\<lparr>ps_in_flight := odel point (ps_in_flight st),
                       ps_in_flight_validation := ps_in_flight_validation st - {hash}\<rparr>
          in case oget (ps_block_cache st1) hash of
               None \<Rightarrow> Some (st1, [])
             | Some cached \<Rightarrow>
                 let st2 = st1\<lparr>ps_validated := insert hash (ps_validated st1), ps_last_validated_tip := Some hash,
                               ps_last_validated_at := Some now, ps_better_tip_since := None\<rparr>
                 in do {
                   bl \<leftarrow> is_blacklisted (ps_chain_tree st2) hash;
                   let fx0 = (if bl then []
                              else [InjectBlock (cb_point cached) (cb_header cached) (cb_body cached) (cb_block_no cached)]);
                   st3 \<leftarrow> (case tip_block_number st2 of
                             None \<Rightarrow> Some st2
                           | Some bn \<Rightarrow> do { s \<leftarrow> prune_structure st2 bn; Some (prune_bodies s bn) });
                   let st4 = prune_equivocation st3 slot;
                   (st5, fx1) \<leftarrow> try_switch_to_best st4;
                   (st6, fx2) \<leftarrow> evaluate_and_fetch st5 now;
                   Some (st6, fx0 @ fx1 @ fx2)
                 })"

definition on_block_apply_failed :: "praos_state \<Rightarrow> point \<Rightarrow> praos_state" where
  "on_block_apply_failed st point =
     (case point of
        Origin \<Rightarrow> st
      | Specific _ hash \<Rightarrow>
          st\<lparr>ps_in_flight := odel point (ps_in_flight st),
             ps_in_flight_validation := ps_in_flight_validation st - {hash},
             ps_queued_validator_tip := ps_last_validated_tip st,
             ps_adopted_tip_hash := ps_last_validated_tip st,
             ps_validated := ps_validated st - {hash}\<rparr>)"

definition on_block_rolled_back :: "praos_state \<Rightarrow> point \<Rightarrow> praos_state \<times> praos_effect list" where
  "on_block_rolled_back st target =
     (case target of
        Origin \<Rightarrow> (st\<lparr>ps_last_validated_tip := None\<rparr>, [InjectRollback Origin])
      | Specific _ hash \<Rightarrow> (st\<lparr>ps_last_validated_tip := Some hash\<rparr>, [InjectRollback target]))"

definition force_rollback :: "praos_state \<Rightarrow> u64 \<Rightarrow> (praos_state \<times> praos_effect list) option" where
  "force_rollback st depth =
     (if depth = 0 then Some (st, [])
      else case ps_adopted_tip_hash st of
             None \<Rightarrow> Some (st, [])
           | Some tip \<Rightarrow>
               do {
                 anc \<leftarrow> ancestors (ps_chain_tree st) tip;
                 if \<not> unat depth < length anc then Some (st, [])
                 else
                   let target_hash = anc ! unat depth
                   in case ct_point (ps_chain_tree st) target_hash of
                        None \<Rightarrow> Some (st, [])
                      | Some target \<Rightarrow>
                          let target_bn = (case ct_block_number (ps_chain_tree st) target_hash of Some n \<Rightarrow> n | None \<Rightarrow> 0)
                          in do {
                            tree \<leftarrow> remove_above (ps_chain_tree st) target_bn;
                            let cache = oretain (\<lambda>_ cb. cb_block_no cb \<le> target_bn) (ps_block_cache st);
                            Some (st\<lparr>ps_adopted_tip_hash := Some target_hash, ps_last_validated_tip := Some target_hash,
                                     ps_queued_validator_tip := Some target_hash, ps_chain_tree := tree,
                                     ps_block_cache := cache, ps_validated := {h \<in> ps_validated st. ohas cache h},
                                     ps_in_flight_validation := {h \<in> ps_in_flight_validation st. ohas cache h},
                                     ps_header_first_seen := oretain (\<lambda>h _. ohas cache h) (ps_header_first_seen st),
                                     ps_last_rollback_depth := Some depth\<rparr>,
                                  [InjectRollback target])
                          }
               })"

subsection \<open>Periodic retry\<close>

text \<open>The best announced tip above ours, the greatest pair of block number and peer.\<close>

definition better_peer_tips :: "praos_state \<Rightarrow> u64 \<Rightarrow> (u64 \<times> peer_id) list" where
  "better_peer_tips st our_block_no =
     filter (\<lambda>(bn, _). bn > our_block_no)
       (List.map_filter (\<lambda>(peer, chain). map_option (\<lambda>e. (pe_block_no e, peer)) (pc_tip chain)) (entries (ps_peer_chains st)))"

definition maybe_emit_stuck_warning :: "praos_state \<Rightarrow> instant \<Rightarrow> praos_state" where
  "maybe_emit_stuck_warning st now =
     (if ps_last_validated_at st = None then st
      else
        let our_block_no = (case tip_block_number st of Some n \<Rightarrow> n | None \<Rightarrow> 0)
        in if better_peer_tips st our_block_no = [] then st\<lparr>ps_better_tip_since := None\<rparr>
           else
             let since = (case ps_better_tip_since st of Some s \<Rightarrow> s | None \<Rightarrow> now);
                 st1 = st\<lparr>ps_better_tip_since := Some since\<rparr>
             in if now - since < STUCK_THRESHOLD then st1
                else (case ps_last_stuck_warning_at st1 of
                        Some last_at \<Rightarrow>
                          if now - last_at < STUCK_WARNING_INTERVAL then st1
                          else st1\<lparr>ps_last_stuck_warning_at := Some now\<rparr>
                      | None \<Rightarrow> st1\<lparr>ps_last_stuck_warning_at := Some now\<rparr>))"

definition bridge_gap :: "praos_state \<Rightarrow> point \<Rightarrow> instant \<Rightarrow> praos_state \<times> praos_effect list" where
  "bridge_gap st gap_point now =
     (case Option.bind (ps_adopted_tip_hash st) (ct_point (ps_chain_tree st)) of
        None \<Rightarrow> (st, [])
      | Some from \<Rightarrow>
          let from_slot = (case get_slot from of Some s \<Rightarrow> s | None \<Rightarrow> 0);
              to_slot = (case get_slot gap_point of Some s \<Rightarrow> s | None \<Rightarrow> 0);
              bridge_cooling = (case ps_bridge_cooldown st of
                                  Some (cooled_from, until) \<Rightarrow> cooled_from = from \<and> now < until | None \<Rightarrow> False)
          in if to_slot > from_slot \<and> \<not> ohas (ps_in_flight st) gap_point \<and> \<not> bridge_cooling
             then (st\<lparr>ps_in_flight := oput gap_point now (ps_in_flight st),
                      ps_bridge_cooldown := Some (from, now + BRIDGE_COOLDOWN)\<rparr>,
                   [FetchBlockRange from gap_point (choose_block_fetch_peers st gap_point None)])
             else (st, []))"

definition retry_select_chain :: "praos_state \<Rightarrow> instant \<Rightarrow> (praos_state \<times> praos_effect list) option" where
  "retry_select_chain st now =
     do {
       let st1 = evict_stale_in_flight st now;
       let evicted = olen (ps_in_flight st) - olen (ps_in_flight st1);
       (st2, fx1) \<leftarrow> try_switch_to_best st1;
       (st3, fx2) \<leftarrow> (if evicted > 0 \<or> olen (ps_in_flight st2) \<noteq> 0 then evaluate_and_fetch st2 now else Some (st2, []));
       (st4, fx3) \<leftarrow>
         (case best_tip_hash (ps_chain_tree st3) of
            None \<Rightarrow> Some (st3, [])
          | Some best \<Rightarrow>
              do {
                r \<leftarrow> try_switch_to st3 best;
                Some (case r of Inl (Some gap_point) \<Rightarrow> bridge_gap st3 gap_point now | _ \<Rightarrow> (st3, []))
              });
       Some (maybe_emit_stuck_warning st4 now, fx1 @ fx2 @ fx3)
     }"

end
