(* ===== verification/Praos_Selection.thy ===== *)
theory Praos_Selection
  imports Praos
begin

text \<open>
  What chain selection decides. Under the invariant of the state (\<open>selection_ready\<close>: a sound chain tree
  and block numbers that grow along every known parent link) all the walks return, and each decision of
  \<open>select_chain_once\<close> and \<open>try_switch_to\<close> is characterised against the tree and the peers' fragments.
\<close>

subsection \<open>Known links\<close>

definition known_link :: "praos_state \<Rightarrow> hash32 \<Rightarrow> u64 \<Rightarrow> hash32 option \<Rightarrow> bool" where
  "known_link st h bn prev \<longleftrightarrow>
     (\<exists>n. oget (ct_nodes (ps_chain_tree st)) h = Some n \<and> bn = cn_block_number n \<and> prev = cn_prev_hash n) \<or>
     (\<exists>cb. oget (ps_block_cache st) h = Some cb \<and> bn = cb_block_no cb \<and> prev = cb_prev_hash cb)"

definition links_below :: "praos_state \<Rightarrow> bool" where
  "links_below st \<longleftrightarrow> (\<forall>h bn p m q. known_link st h bn (Some p) \<and> known_link st p m q \<longrightarrow> m < bn)"

definition selection_ready :: "praos_state \<Rightarrow> bool" where
  "selection_ready st \<longleftrightarrow> tree_inv (ps_chain_tree st) \<and> links_below st"

lemma selection_ready_tree:
  assumes "selection_ready st"
  shows "tree_inv (ps_chain_tree st)" "parents_below (ps_chain_tree st)" "points_ok (ps_chain_tree st)"
  using assms by (auto simp: selection_ready_def tree_inv_def)

lemma selection_ready_cong:
  "ps_chain_tree st' = ps_chain_tree st \<Longrightarrow> ps_block_cache st' = ps_block_cache st \<Longrightarrow> selection_ready st' = selection_ready st"
  by (simp add: selection_ready_def links_below_def known_link_def)

subsection \<open>The hybrid walk returns\<close>

lemma hybrid_knows_link: "hybrid_knows st h \<longleftrightarrow> (\<exists>bn prev. known_link st h bn prev)"
  by (auto simp: hybrid_knows_def known_link_def ct_block_number_def ohas_iff_Some)

lemma hybrid_parent_link: "hybrid_parent st h = Some p \<Longrightarrow> \<exists>bn. known_link st h bn (Some p)"
  by (auto simp: hybrid_parent_def known_link_def ct_block_number_def ct_prev_hash_def split: if_splits option.splits)

definition link_rank :: "praos_state \<Rightarrow> hash32 \<Rightarrow> nat" where
  "link_rank st h = (if hybrid_knows st h then Suc (Max {unat bn |bn prev. known_link st h bn prev}) else 0)"

lemma finite_link_numbers: "finite {unat bn |bn prev. known_link st h bn prev}"
proof -
  have "{unat bn |bn prev. known_link st h bn prev} \<subseteq>
      (case oget (ct_nodes (ps_chain_tree st)) h of Some n \<Rightarrow> {unat (cn_block_number n)} | None \<Rightarrow> {}) \<union>
      (case oget (ps_block_cache st) h of Some cb \<Rightarrow> {unat (cb_block_no cb)} | None \<Rightarrow> {})"
    by (auto simp: known_link_def)
  then show ?thesis by (rule finite_subset) (auto split: option.splits)
qed

lemma link_rank_parent:
  assumes lb: "links_below st" and p: "hybrid_parent st h = Some p" and k: "hybrid_knows st p"
  shows "link_rank st p < link_rank st h"
proof -
  obtain bn where bn: "known_link st h bn (Some p)" using hybrid_parent_link [OF p] by blast
  let ?S = "\<lambda>x. {unat bn |bn prev. known_link st x bn prev}"
  obtain m where m: "m \<in> ?S p" "Max (?S p) = m"
    using k finite_link_numbers [of st p] by (metis (mono_tags, lifting) Max_in empty_Collect_eq hybrid_knows_link)
  from m(1) obtain b prev where b: "m = unat b" "known_link st p b prev" by blast
  then have "b < bn" using lb bn unfolding links_below_def by blast
  then have "m < unat bn" by (simp add: b(1) word_less_nat_alt)
  also have "unat bn \<le> Max (?S h)" using finite_link_numbers bn by (intro Max_ge) blast+
  finally show ?thesis using k bn m(2) by (auto simp: link_rank_def hybrid_knows_link)
qed

lemma hybrid_loop_returns:
  assumes "links_below st"
  shows "\<exists>w. hybrid_loop st chain h = Some w \<and> (\<exists>rest. hw_chain w = chain @ rest)"
proof (induction h arbitrary: chain rule: measure_induct_rule [of "link_rank st"])
  case (less h)
  show ?case
  proof (cases "hybrid_parent st h")
    case None
    then show ?thesis by (subst hybrid_loop.simps) simp
  next
    case (Some p)
    show ?thesis
    proof (cases "\<not> is_chain_origin (ps_chain_tree st) h \<and> hybrid_knows st h \<and>
        \<not> is_chain_origin (ps_chain_tree st) p \<and> hybrid_knows st p")
      case True
      then have "link_rank st p < link_rank st h" using link_rank_parent [OF assms Some] by blast
      from less [OF this, of "chain @ [p]"] show ?thesis using True Some by (subst hybrid_loop.simps) auto
    next
      case False
      then show ?thesis using Some by (subst hybrid_loop.simps) auto
    qed
  qed
qed

lemma walk_ancestors_hybrid_returns: "links_below st \<Longrightarrow> \<exists>w. walk_ancestors_hybrid st h = Some w"
  unfolding walk_ancestors_hybrid_def using hybrid_loop_returns by blast

subsection \<open>The effective adopted tip\<close>

definition ancestor_list :: "chain_tree \<Rightarrow> hash32 \<Rightarrow> hash32 list" where
  "ancestor_list t h = the (ancestors t h)"

lemma ancestors_Some:
  assumes "parents_below t"
  shows "ancestors t h = Some (ancestor_list t h)" "parent_chain t (ancestor_list t h)"
    "hd (ancestor_list t h) = h" "ancestor_list t h \<noteq> []" "set (ancestor_list t h) = {a. visible_ancestor t h a}"
proof -
  obtain rest where r: "ancestors t h = Some (h # rest)" "parent_chain t (h # rest)"
    using ancestors_parent_chain [OF assms] .
  then have "ancestor_list t h = h # rest" by (simp add: ancestor_list_def)
  then show "ancestors t h = Some (ancestor_list t h)" "parent_chain t (ancestor_list t h)"
    "hd (ancestor_list t h) = h" "ancestor_list t h \<noteq> []" "set (ancestor_list t h) = {a. visible_ancestor t h a}"
    using r parent_chain_visible [OF r(2)] by auto
qed

lemma find_clean_eq: "parents_below t \<Longrightarrow> find_clean t hs = Some (find (\<lambda>h. \<not> tainted t h) hs)"
  by (induction hs) (auto simp: is_blacklisted_tainted)

definition clean_tip :: "praos_state \<Rightarrow> hash32 option" where
  "clean_tip st =
     Option.bind (ps_adopted_tip_hash st)
       (\<lambda>tip. find (\<lambda>h. \<not> tainted (ps_chain_tree st) h) (ancestor_list (ps_chain_tree st) tip))"

lemma effective_adopted_tip_eq:
  "parents_below (ps_chain_tree st) \<Longrightarrow> effective_adopted_tip st = Some (clean_tip st)"
  by (simp add: effective_adopted_tip_def clean_tip_def ancestors_Some(1) find_clean_eq split: option.splits)

lemma clean_tip_clean:
  assumes "parents_below (ps_chain_tree st)" and "ps_adopted_tip_hash st = Some tip"
  shows "clean_tip st = Some tip \<longleftrightarrow> \<not> tainted (ps_chain_tree st) tip"
proof -
  obtain rest where "ancestor_list (ps_chain_tree st) tip = tip # rest"
    using ancestors_Some(3,4) [OF assms(1), of tip] by (metis list.collapse)
  then show ?thesis using assms(2) by (auto simp: clean_tip_def find_Some_iff nth_Cons split: nat.splits)
qed

lemma clean_tip_SomeD:
  assumes "parents_below (ps_chain_tree st)" and "ps_adopted_tip_hash st = Some tip" and "clean_tip st = Some h"
  shows "\<not> tainted (ps_chain_tree st) h \<and> visible_ancestor (ps_chain_tree st) tip h"
proof -
  have "h \<in> set (ancestor_list (ps_chain_tree st) tip)" "\<not> tainted (ps_chain_tree st) h"
    using assms(2,3) by (auto simp: clean_tip_def find_Some_iff)
  then show ?thesis using ancestors_Some(5) [OF assms(1)] by auto
qed

lemma clean_tip_NoneD:
  assumes "parents_below (ps_chain_tree st)" and "ps_adopted_tip_hash st = Some tip" and "clean_tip st = None"
    and "visible_ancestor (ps_chain_tree st) tip a"
  shows "tainted (ps_chain_tree st) a"
  using assms ancestors_Some(5) [OF assms(1), of tip] by (auto simp: clean_tip_def find_None_iff)

subsection \<open>Untainted fragments\<close>

fun taint_set :: "chain_tree \<Rightarrow> hash32 set \<Rightarrow> peer_chain_entry list \<Rightarrow> hash32 set" where
  "taint_set t S [] = S"
| "taint_set t S (e # es) =
     taint_set t (if (\<exists>p. pe_prev_hash e = Some p \<and> (p \<in> S \<or> tainted t p)) \<or> tainted t (pe_hash e)
                  then insert (pe_hash e) S else S) es"

lemma taint_entries_eq: "parents_below t \<Longrightarrow> taint_entries t S es = Some (taint_set t S es)"
  by (induction es arbitrary: S) (auto simp: is_blacklisted_tainted split: option.splits)

lemma taint_set_mono: "S \<subseteq> taint_set t S es"
  by (induction es arbitrary: S) (auto, blast+)

lemma taint_set_tainted: "e \<in> set es \<Longrightarrow> tainted t (pe_hash e) \<Longrightarrow> pe_hash e \<in> taint_set t S es"
proof (induction es arbitrary: S)
  case (Cons x es)
  show ?case
  proof (cases "e = x")
    case True
    then show ?thesis using Cons.prems taint_set_mono [of "insert (pe_hash x) S" t es] by auto
  next
    case False
    then show ?thesis using Cons by auto
  qed
qed simp

definition clean_part :: "chain_tree \<Rightarrow> peer_chain \<Rightarrow> peer_chain" where
  "clean_part t chain = trim_by_blacklist chain (taint_set t (ct_blacklist t) (pc_entries chain))"

lemma trim_entries: "\<exists>n. pc_entries (trim_by_blacklist pc S) = take n (pc_entries pc) \<and>
    (\<forall>e\<in>set (take n (pc_entries pc)). pe_hash e \<notin> S)"
proof (cases "S = {} \<or> find_earliest pc S = None")
  case True
  then have "\<forall>e\<in>set (pc_entries pc). pe_hash e \<notin> S" by (auto simp: find_earliest_def position_None)
  moreover have "trim_by_blacklist pc S = pc" using True by (auto simp: trim_by_blacklist_def)
  ultimately show ?thesis by (metis order_refl take_all)
next
  case False
  then obtain i where i: "find_earliest pc S = Some i" "S \<noteq> {}" by auto
  then have "pc_entries (trim_by_blacklist pc S) = take i (pc_entries pc)" by (simp add: trim_by_blacklist_def)
  moreover have "\<forall>e\<in>set (take i (pc_entries pc)). pe_hash e \<notin> S"
    using i(1) by (auto simp: find_earliest_def position_Some in_set_conv_nth)
  ultimately show ?thesis by blast
qed

lemma clean_part_untainted: "e \<in> set (pc_entries (clean_part t chain)) \<Longrightarrow> e \<in> set (pc_entries chain) \<and> \<not> tainted t (pe_hash e)"
proof -
  assume e: "e \<in> set (pc_entries (clean_part t chain))"
  obtain n where n: "pc_entries (clean_part t chain) = take n (pc_entries chain)"
    "\<forall>e\<in>set (take n (pc_entries chain)). pe_hash e \<notin> taint_set t (ct_blacklist t) (pc_entries chain)"
    using trim_entries unfolding clean_part_def by blast
  have "e \<in> set (pc_entries chain)" using e n(1) set_take_subset by force
  moreover have "\<not> tainted t (pe_hash e)"
    using taint_set_tainted [OF \<open>e \<in> set (pc_entries chain)\<close>] e n by metis
  ultimately show ?thesis by blast
qed

subsection \<open>Candidates\<close>

definition candidate_of ::
  "chain_tree \<Rightarrow> peer_id set \<Rightarrow> bool \<Rightarrow> u64 \<Rightarrow> hash32 \<Rightarrow> peer_id \<times> peer_chain
     \<Rightarrow> (peer_id \<times> peer_chain \<times> peer_chain_entry) option" where
  "candidate_of t skip adopted_set adopted_bn adopted_hash x =
     (if fst x \<in> skip then None
      else case pc_tip (clean_part t (snd x)) of
             None \<Rightarrow> None
           | Some tip \<Rightarrow>
               if \<not> adopted_set \<or> is_better_tip (pe_block_no tip) (pe_hash tip) adopted_bn adopted_hash
               then Some (fst x, clean_part t (snd x), tip) else None)"

lemma peer_candidates_eq:
  "parents_below t \<Longrightarrow>
     peer_candidates t skip aset abn ahash xs = Some (List.map_filter (candidate_of t skip aset abn ahash) xs)"
  by (induction xs)
    (auto simp: taint_entries_eq candidate_of_def clean_part_def List.map_filter_simps split: option.splits)

context strict_selection
begin

lemma foldl_best:
  "foldl (\<lambda>a b. if better (k a) (k b) then a else b) x xs \<in> set (x # xs) \<and>
   (\<forall>y\<in>set (x # xs). k y = k (foldl (\<lambda>a b. if better (k a) (k b) then a else b) x xs) \<or>
      better (k (foldl (\<lambda>a b. if better (k a) (k b) then a else b) x xs)) (k y))"
proof (induction xs arbitrary: x)
  case (Cons y ys)
  define z where "z = (if better (k x) (k y) then x else y)"
  define m where "m = foldl (\<lambda>a b. if better (k a) (k b) then a else b) z ys"
  have eq: "foldl (\<lambda>a b. if better (k a) (k b) then a else b) x (y # ys) = m" by (simp add: m_def z_def)
  have IH: "m \<in> set (z # ys)" "\<And>w. w \<in> set (z # ys) \<Longrightarrow> k w = k m \<or> better (k m) (k w)"
    using Cons [of z] unfolding m_def by blast+
  have z: "z \<in> {x, y}" "\<And>w. w \<in> {x, y} \<Longrightarrow> k w = k z \<or> better (k z) (k w)"
    using better_total [of "k x" "k y"] by (auto simp: z_def)
  have "k w = k m \<or> better (k m) (k w)" if "w \<in> {x, y}" for w
    using z(2) [OF that] IH(2) [of z] better_trans by (metis list.set_intros(1))
  then show ?case unfolding eq using IH z(1) by auto
qed simp

end

definition tip_key :: "peer_id \<times> peer_chain \<times> peer_chain_entry \<Rightarrow> u64 \<times> hash32" where
  "tip_key c = (pe_block_no (snd (snd c)), pe_hash (snd (snd c)))"

lemma candidate_greater_better:
  "candidate_greater a b \<longleftrightarrow> (\<lambda>(a, ha) (b, hb). is_better_tip a ha b hb) (tip_key a) (tip_key b)"
  by (auto simp: candidate_greater_def tip_key_def is_better_tip_def Let_def)

lemma max_by_candidates:
  assumes "max_by candidate_greater cs = Some c"
  shows "c \<in> set cs" "\<And>d. d \<in> set cs \<Longrightarrow> \<not> candidate_greater d c"
proof -
  obtain x xs where cs: "cs = x # xs" using assms by (cases cs) auto
  let ?b = "\<lambda>(a, ha) (b, hb). is_better_tip a ha b hb"
  have c: "c = foldl (\<lambda>a b. if ?b (tip_key a) (tip_key b) then a else b) x xs"
    using assms cs by (simp add: candidate_greater_better)
  note best = tip_sel.foldl_best [where k = tip_key and x = x and xs = xs, folded c]
  show "c \<in> set cs" using conjunct1 [OF best] unfolding cs by (simp only:)
  show "\<not> candidate_greater d c" if "d \<in> set cs" for d
  proof
    assume "candidate_greater d c"
    moreover have "tip_key d = tip_key c \<or> ?b (tip_key c) (tip_key d)"
      using bspec [OF conjunct2 [OF best], of d] that unfolding cs by (simp only:)
    ultimately show False
      by (auto simp: candidate_greater_def tip_key_def is_better_tip_def Let_def split: if_splits)
  qed
qed

lemma max_by_None: "max_by gt cs = None \<longleftrightarrow> cs = []"
  by (cases cs) auto

subsection \<open>The decision\<close>

definition base_hash :: "praos_state \<Rightarrow> hash32" where
  "base_hash st = (case clean_tip st of Some h \<Rightarrow> h | None \<Rightarrow> 0)"

definition base_number :: "praos_state \<Rightarrow> u64" where
  "base_number st =
     (case clean_tip st of
        Some h \<Rightarrow> (case ct_block_number (ps_chain_tree st) h of Some n \<Rightarrow> n | None \<Rightarrow> 0)
      | None \<Rightarrow> 0)"

definition base_chain :: "praos_state \<Rightarrow> hash32 list" where
  "base_chain st = (case clean_tip st of None \<Rightarrow> [] | Some h \<Rightarrow> ancestor_list (ps_chain_tree st) h)"

definition best_candidate :: "praos_state \<Rightarrow> peer_id set \<Rightarrow> (peer_id \<times> peer_chain \<times> peer_chain_entry) option" where
  "best_candidate st skip =
     max_by candidate_greater
       (List.map_filter (candidate_of (ps_chain_tree st) skip (clean_tip st \<noteq> None) (base_number st) (base_hash st))
          (entries (ps_peer_chains st)))"

definition replay_of :: "praos_state \<Rightarrow> peer_chain \<Rightarrow> peer_chain_entry list" where
  "replay_of st cand = rev (fst (split_at_ancestor (set (base_chain st)) (rev (pc_entries cand))))"

definition ancestor_of :: "praos_state \<Rightarrow> peer_chain \<Rightarrow> hash32 option" where
  "ancestor_of st cand =
     common_ancestor st cand (set (base_chain st)) (clean_tip st \<noteq> None) (base_number st)
       (snd (split_at_ancestor (set (base_chain st)) (rev (pc_entries cand))))"

definition decide_candidate :: "praos_state \<Rightarrow> peer_id \<Rightarrow> peer_chain \<Rightarrow> peer_chain_entry \<Rightarrow> selection_decision option" where
  "decide_candidate st peer cand tip =
     (case ancestor_of st cand of
        None \<Rightarrow> Some (OrphanCandidate peer (pe_block_no tip))
      | Some ancestor \<Rightarrow>
          let replay = map (\<lambda>e. (pe_point e, pe_hash e)) (replay_of st cand);
              missing = leading_missing_run st replay
          in if missing = [] then check_replay st peer ancestor (map pe_hash (replay_of st cand)) (pe_block_no tip)
             else Some (WaitingForBlocks peer ancestor
                    (case pc_anchor cand of
                       None \<Rightarrow> None
                     | Some a \<Rightarrow>
                         if pa_hash a = ancestor \<and>
                            (case pc_entries cand of [] \<Rightarrow> None | e # _ \<Rightarrow> pe_prev_hash e) \<noteq> Some ancestor
                         then Some (pa_point a) else None)
                    missing (pe_block_no tip)))"

lemma select_chain_once_eq:
  assumes "parents_below (ps_chain_tree st)"
  shows "select_chain_once st skip =
     (if ps_adopted_tip_hash st \<noteq> None \<and> clean_tip st \<noteq> ps_adopted_tip_hash st
      then Some (RollbackTainted (base_hash st) (base_number st))
      else case best_candidate st skip of
             None \<Rightarrow> Some NoBetterChain
           | Some (peer, cand, tip) \<Rightarrow> decide_candidate st peer cand tip)"
  by (cases "clean_tip st")
    (simp_all add: select_chain_once_def effective_adopted_tip_eq [OF assms] peer_candidates_eq [OF assms]
      ancestors_Some(1) [OF assms] Let_def base_hash_def base_number_def base_chain_def best_candidate_def
      decide_candidate_def ancestor_of_def replay_of_def comp_def case_prod_unfold
      cong: option.case_cong if_cong)

lemma split_at_ancestor_effect:
  assumes "split_at_ancestor A es = (replay_rev, found)"
  shows "(\<exists>rest. es = replay_rev @ rest) \<and> (\<forall>e\<in>set replay_rev. pe_hash e \<notin> A) \<and> (\<forall>a. found = Some a \<longrightarrow> a \<in> A) \<and>
    (found = None \<longrightarrow> replay_rev = es)"
  using assms
proof (induction es arbitrary: replay_rev)
  case (Cons e es)
  show ?case
  proof (cases "pe_hash e \<in> A")
    case True
    then show ?thesis using Cons.prems by auto
  next
    case False
    obtain rr f where "split_at_ancestor A es = (rr, f)" by (cases "split_at_ancestor A es")
    then show ?thesis using Cons False by auto
  qed
qed simp

lemma replay_of_entries: "set (replay_of st cand) \<subseteq> set (pc_entries cand)"
proof -
  obtain rr f where s: "split_at_ancestor (set (base_chain st)) (rev (pc_entries cand)) = (rr, f)"
    by (cases "split_at_ancestor (set (base_chain st)) (rev (pc_entries cand))")
  then obtain rest where "rev (pc_entries cand) = rr @ rest" using split_at_ancestor_effect by blast
  then have "set rr \<subseteq> set (rev (pc_entries cand))" by simp
  then show ?thesis by (simp add: replay_of_def s)
qed

text \<open>Where a fork may start: on the adopted chain, at genesis, anywhere for a fresh node, or at a known
  anchor at most \<open>k\<close> blocks below the adopted tip.\<close>

definition ancestor_allowed :: "praos_state \<Rightarrow> hash32 \<Rightarrow> bool" where
  "ancestor_allowed st a \<longleftrightarrow>
     ps_adopted_tip_hash st = None \<or> a = 0 \<or>
     (\<exists>tip. ps_adopted_tip_hash st = Some tip \<and> visible_ancestor (ps_chain_tree st) tip a) \<or>
     (\<exists>abn bn. ct_block_number (ps_chain_tree st) a = Some abn \<and> tip_block_number st = Some bn \<and>
        unat bn - unat abn \<le> unat (ps_security_param_k st)) \<or>
     (tip_block_number st = None \<and> ct_block_number (ps_chain_tree st) a \<noteq> None)"

lemma ancestor_of_allowed:
  assumes pb: "parents_below (ps_chain_tree st)" and clean: "clean_tip st = ps_adopted_tip_hash st"
    and a: "ancestor_of st cand = Some a"
  shows "ancestor_allowed st a"
proof (cases "ps_adopted_tip_hash st")
  case None
  then show ?thesis by (simp add: ancestor_allowed_def)
next
  case (Some tip)
  then have base: "set (base_chain st) = {x. visible_ancestor (ps_chain_tree st) tip x}"
    using clean ancestors_Some(5) [OF pb] by (simp add: base_chain_def)
  have bn: "base_number st = (case tip_block_number st of Some n \<Rightarrow> n | None \<Rightarrow> 0)"
    using clean Some by (simp add: base_number_def tip_block_number_def)
  let ?found = "snd (split_at_ancestor (set (base_chain st)) (rev (pc_entries cand)))"
  have found: "x \<in> set (base_chain st)" if "?found = Some x" for x
    using split_at_ancestor_effect [of "set (base_chain st)" "rev (pc_entries cand)"] that by (metis prod.collapse)
  have "a = 0 \<or> a \<in> set (base_chain st) \<or>
      (\<exists>abn. ct_block_number (ps_chain_tree st) a = Some abn \<and> saturating_sub (base_number st) abn \<le> ps_security_param_k st)"
    using a found clean Some unfolding ancestor_of_def common_ancestor_def Let_def
    by (auto split: option.splits list.splits if_splits)
  then show ?thesis
    using Some base bn
    by (auto simp: ancestor_allowed_def word_le_nat_alt unat_saturating_sub split: option.splits)
qed

lemma missing_run_held: "missing_run st started xs = [] \<longleftrightarrow> (if started then (xs = [] \<or> block_held st (snd (hd xs))) else (\<forall>x\<in>set xs. block_held st (snd x)))"
  by (induction st started xs rule: missing_run.induct) auto

lemma missing_run_started: "\<exists>post. map fst xs = missing_run st True xs @ post"
  by (induction xs) auto

lemma missing_run_not_held: "p \<in> set (missing_run st b xs) \<Longrightarrow> \<exists>h. (p, h) \<in> set xs \<and> \<not> block_held st h"
proof (induction st b xs rule: missing_run.induct)
  case (2 st started q h replay)
  then show ?case by (cases "block_held st h"; cases started) auto
qed simp

lemma leading_missing_run_segment: "\<exists>pre post. map fst xs = pre @ leading_missing_run st xs @ post"
proof (induction xs)
  case (Cons x xs)
  obtain q h where x: "x = (q, h)" by (cases x)
  show ?case
  proof (cases "block_held st h")
    case True
    from Cons obtain pre post where "map fst xs = pre @ leading_missing_run st xs @ post" by blast
    then have "map fst (x # xs) = (q # pre) @ leading_missing_run st (x # xs) @ post"
      using True x by (simp add: leading_missing_run_def)
    then show ?thesis by blast
  next
    case False
    obtain post where "map fst xs = missing_run st True xs @ post" using missing_run_started by blast
    then have "map fst (x # xs) = [] @ leading_missing_run st (x # xs) @ post"
      using False x by (simp add: leading_missing_run_def)
    then show ?thesis by blast
  qed
qed (simp add: leading_missing_run_def)

text \<open>The best candidate: a peer that is not skipped, whose untainted fragment ends in a tip that beats
  the adopted chain and every other such peer's tip.\<close>

definition is_best_peer :: "praos_state \<Rightarrow> peer_id set \<Rightarrow> peer_id \<Rightarrow> peer_chain_entry \<Rightarrow> bool" where
  "is_best_peer st skip peer tip \<longleftrightarrow>
     peer \<notin> skip \<and>
     (\<exists>chain. oget (ps_peer_chains st) peer = Some chain \<and> pc_tip (clean_part (ps_chain_tree st) chain) = Some tip) \<and>
     (clean_tip st \<noteq> None \<longrightarrow> is_better_tip (pe_block_no tip) (pe_hash tip) (base_number st) (base_hash st)) \<and>
     (\<forall>other chain tip'. other \<notin> skip \<and> oget (ps_peer_chains st) other = Some chain \<and>
        pc_tip (clean_part (ps_chain_tree st) chain) = Some tip' \<longrightarrow>
        \<not> is_better_tip (pe_block_no tip') (pe_hash tip') (pe_block_no tip) (pe_hash tip))"

lemma in_candidates:
  "c \<in> set (List.map_filter (candidate_of t skip aset abn ahash) (entries m)) \<longleftrightarrow>
     (\<exists>peer chain tip. c = (peer, clean_part t chain, tip) \<and> peer \<notin> skip \<and> oget m peer = Some chain \<and>
        pc_tip (clean_part t chain) = Some tip \<and>
        (aset \<longrightarrow> is_better_tip (pe_block_no tip) (pe_hash tip) abn ahash))"
proof -
  have mem: "c \<in> set (List.map_filter f xs) \<longleftrightarrow> (\<exists>x\<in>set xs. f x = Some c)" for f :: "'x \<Rightarrow> _" and xs
    by (induction xs) (auto simp: List.map_filter_simps split: option.splits)
  have "candidate_of t skip aset abn ahash (peer, chain) = Some c \<longleftrightarrow>
      (\<exists>tip. c = (peer, clean_part t chain, tip) \<and> peer \<notin> skip \<and> pc_tip (clean_part t chain) = Some tip \<and>
        (aset \<longrightarrow> is_better_tip (pe_block_no tip) (pe_hash tip) abn ahash))" for peer chain
    by (auto simp: candidate_of_def split: option.splits)
  then show ?thesis unfolding mem by (simp add: Bex_def in_entries_iff split_paired_Ex) blast
qed

lemma best_candidate_SomeD:
  assumes "best_candidate st skip = Some (peer, cand, tip)"
  shows "is_best_peer st skip peer tip"
    and "\<exists>chain. oget (ps_peer_chains st) peer = Some chain \<and> cand = clean_part (ps_chain_tree st) chain \<and> pc_tip cand = Some tip"
proof -
  let ?t = "ps_chain_tree st"
  let ?cs = "List.map_filter (candidate_of ?t skip (clean_tip st \<noteq> None) (base_number st) (base_hash st)) (entries (ps_peer_chains st))"
  have mb: "max_by candidate_greater ?cs = Some (peer, cand, tip)" using assms by (simp add: best_candidate_def)
  from max_by_candidates(1) [OF mb] obtain chain where c: "peer \<notin> skip" "oget (ps_peer_chains st) peer = Some chain"
    "cand = clean_part ?t chain" "pc_tip cand = Some tip"
    "clean_tip st \<noteq> None \<Longrightarrow> is_better_tip (pe_block_no tip) (pe_hash tip) (base_number st) (base_hash st)"
    unfolding in_candidates by blast
  then show "\<exists>chain. oget (ps_peer_chains st) peer = Some chain \<and> cand = clean_part ?t chain \<and> pc_tip cand = Some tip" by blast
  have "\<not> is_better_tip (pe_block_no tip') (pe_hash tip') (pe_block_no tip) (pe_hash tip)"
    if o: "other \<notin> skip" "oget (ps_peer_chains st) other = Some ch" "pc_tip (clean_part ?t ch) = Some tip'" for other ch tip'
  proof
    assume b: "is_better_tip (pe_block_no tip') (pe_hash tip') (pe_block_no tip) (pe_hash tip)"
    then have "clean_tip st \<noteq> None \<longrightarrow> is_better_tip (pe_block_no tip') (pe_hash tip') (base_number st) (base_hash st)"
      using c(5) tip_sel.better_trans [of "(pe_block_no tip', pe_hash tip')" "(pe_block_no tip, pe_hash tip)" "(base_number st, base_hash st)"]
      by simp
    then have "(other, clean_part ?t ch, tip') \<in> set ?cs" using o unfolding in_candidates by blast
    from max_by_candidates(2) [OF mb this] b show False by (simp add: candidate_greater_better tip_key_def)
  qed
  then show "is_best_peer st skip peer tip" using c unfolding is_best_peer_def by blast
qed

lemma best_candidate_NoneD:
  assumes "best_candidate st skip = None" and "peer \<notin> skip" and "oget (ps_peer_chains st) peer = Some chain"
    and "pc_tip (clean_part (ps_chain_tree st) chain) = Some tip"
  shows "clean_tip st \<noteq> None \<and> \<not> is_better_tip (pe_block_no tip) (pe_hash tip) (base_number st) (base_hash st)"
proof (rule ccontr)
  let ?cs = "List.map_filter (candidate_of (ps_chain_tree st) skip (clean_tip st \<noteq> None) (base_number st) (base_hash st))
    (entries (ps_peer_chains st))"
  assume "\<not> ?thesis"
  then have "(peer, clean_part (ps_chain_tree st) chain, tip) \<in> set ?cs" using assms(2-4) unfolding in_candidates by blast
  moreover have "?cs = []" using assms(1) by (simp add: best_candidate_def max_by_None)
  ultimately show False by simp
qed

text \<open>What each decision promises.\<close>

definition decision_ok :: "praos_state \<Rightarrow> peer_id set \<Rightarrow> selection_decision \<Rightarrow> bool" where
  "decision_ok st skip d =
     (let t = ps_chain_tree st in
      case d of
        RollbackTainted a n \<Rightarrow>
          (\<exists>tip. ps_adopted_tip_hash st = Some tip \<and> tainted t tip \<and>
             (if clean_tip st = None then a = 0 \<and> (\<forall>x. visible_ancestor t tip x \<longrightarrow> tainted t x)
              else clean_tip st = Some a \<and> \<not> tainted t a \<and> visible_ancestor t tip a \<and> ct_block_number t a = Some n))
      | NoBetterChain \<Rightarrow>
          (\<forall>tip. ps_adopted_tip_hash st = Some tip \<longrightarrow> \<not> tainted t tip) \<and>
          (\<forall>peer chain tip. peer \<notin> skip \<and> oget (ps_peer_chains st) peer = Some chain \<and> pc_tip (clean_part t chain) = Some tip \<longrightarrow>
             ps_adopted_tip_hash st \<noteq> None \<and> \<not> is_better_tip (pe_block_no tip) (pe_hash tip) (base_number st) (base_hash st))
      | OrphanCandidate peer n \<Rightarrow> (\<exists>tip. is_best_peer st skip peer tip \<and> n = pe_block_no tip)
      | Switched peer a replay n \<Rightarrow>
          (\<exists>tip. is_best_peer st skip peer tip \<and> n = pe_block_no tip) \<and> ancestor_allowed st a \<and>
          (\<forall>h\<in>set replay. block_held st h \<and> \<not> tainted t h)
      | WaitingForBlocks peer a anchor missing n \<Rightarrow>
          (\<exists>tip. is_best_peer st skip peer tip \<and> n = pe_block_no tip) \<and> ancestor_allowed st a \<and> missing \<noteq> [] \<and>
          (\<exists>chain. oget (ps_peer_chains st) peer = Some chain \<and>
             (\<forall>p\<in>set missing. \<exists>e\<in>set (pc_entries chain). pe_point e = p \<and> \<not> block_held st (pe_hash e) \<and> \<not> tainted t (pe_hash e))))"

lemma decide_candidate_ok:
  assumes ready: "selection_ready st" and clean: "clean_tip st = ps_adopted_tip_hash st"
    and best: "best_candidate st skip = Some (peer, cand, tip)"
  shows "\<exists>d. decide_candidate st peer cand tip = Some d \<and> decision_ok st skip d"
proof -
  have pb: "parents_below (ps_chain_tree st)" and lb: "links_below st"
    using ready by (auto simp: selection_ready_def tree_inv_def)
  obtain chain where chain: "oget (ps_peer_chains st) peer = Some chain" "cand = clean_part (ps_chain_tree st) chain"
    using best_candidate_SomeD(2) [OF best] by blast
  have peer: "\<exists>tip'. is_best_peer st skip peer tip' \<and> pe_block_no tip = pe_block_no tip'"
    using best_candidate_SomeD(1) [OF best] by blast
  have entry: "e \<in> set (pc_entries chain) \<and> \<not> tainted (ps_chain_tree st) (pe_hash e)" if "e \<in> set (replay_of st cand)" for e
    using clean_part_untainted replay_of_entries [of st cand] that chain(2) by blast
  show ?thesis
  proof (cases "ancestor_of st cand")
    case None
    then show ?thesis using peer by (simp add: decide_candidate_def decision_ok_def)
  next
    case (Some a)
    have allowed: "ancestor_allowed st a" using ancestor_of_allowed [OF pb clean Some] .
    let ?replay = "map (\<lambda>e. (pe_point e, pe_hash e)) (replay_of st cand)"
    show ?thesis
    proof (cases "leading_missing_run st ?replay = []")
      case True
      then have held: "\<forall>h\<in>set (map pe_hash (replay_of st cand)). block_held st h \<and> \<not> tainted (ps_chain_tree st) h"
        using entry by (auto simp: leading_missing_run_def missing_run_held)
      obtain w where "walk_ancestors_hybrid st (last (map pe_hash (replay_of st cand))) = Some w"
        using walk_ancestors_hybrid_returns [OF lb] by blast
      then have "check_replay st peer a (map pe_hash (replay_of st cand)) (pe_block_no tip)
          \<in> {Some (OrphanCandidate peer (pe_block_no tip)), Some (Switched peer a (map pe_hash (replay_of st cand)) (pe_block_no tip))}"
        by (simp add: check_replay_def)
      then show ?thesis
        using True Some peer allowed held by (auto simp: decide_candidate_def decision_ok_def Let_def)
    next
      case False
      have "\<exists>e\<in>set (pc_entries chain). pe_point e = p \<and> \<not> block_held st (pe_hash e) \<and> \<not> tainted (ps_chain_tree st) (pe_hash e)"
        if p: "p \<in> set (leading_missing_run st ?replay)" for p
      proof -
        from missing_run_not_held [OF p [unfolded leading_missing_run_def]]
        obtain h where "(p, h) \<in> set ?replay" and h: "\<not> block_held st h" by blast
        then obtain e where "e \<in> set (replay_of st cand)" "pe_point e = p" "pe_hash e = h" by auto
        then show ?thesis using entry h by blast
      qed
      then show ?thesis
        using False Some peer allowed chain(1) by (simp add: decide_candidate_def decision_ok_def Let_def)
    qed
  qed
qed

lemma select_chain_once_ok:
  assumes "selection_ready st"
  shows "\<exists>d. select_chain_once st skip = Some d \<and> decision_ok st skip d"
proof -
  have pb: "parents_below (ps_chain_tree st)" and pts: "points_ok (ps_chain_tree st)"
    using selection_ready_tree [OF assms] by auto
  show ?thesis
  proof (cases "ps_adopted_tip_hash st \<noteq> None \<and> clean_tip st \<noteq> ps_adopted_tip_hash st")
    case True
    then obtain tip where tip: "ps_adopted_tip_hash st = Some tip" "clean_tip st \<noteq> Some tip" by auto
    have taint: "tainted (ps_chain_tree st) tip" using clean_tip_clean [OF pb tip(1)] tip(2) by blast
    have "decision_ok st skip (RollbackTainted (base_hash st) (base_number st))"
    proof (cases "clean_tip st")
      case None
      then show ?thesis using tip taint clean_tip_NoneD [OF pb tip(1) None] by (simp add: decision_ok_def base_hash_def)
    next
      case (Some h)
      have h: "\<not> tainted (ps_chain_tree st) h" "visible_ancestor (ps_chain_tree st) tip h"
        using clean_tip_SomeD [OF pb tip(1) Some] by auto
      then have "ohas (ct_nodes (ps_chain_tree st)) h" using visible_ancestor_in_nodes Some tip(2) by blast
      then have "ct_block_number (ps_chain_tree st) h = Some (base_number st)"
        using Some by (auto simp: base_number_def ct_block_number_def ohas_iff_Some)
      then show ?thesis using tip taint Some h by (simp add: decision_ok_def base_hash_def)
    qed
    then show ?thesis using True by (simp add: select_chain_once_eq [OF pb])
  next
    case False
    then have clean: "clean_tip st = ps_adopted_tip_hash st"
      by (cases "ps_adopted_tip_hash st") (auto simp: clean_tip_def)
    show ?thesis
    proof (cases "best_candidate st skip")
      case None
      have "\<not> tainted (ps_chain_tree st) tip" if "ps_adopted_tip_hash st = Some tip" for tip
        using clean_tip_clean [OF pb that] clean that by simp
      then have "decision_ok st skip NoBetterChain"
        using best_candidate_NoneD [OF None] clean by (auto simp: decision_ok_def)
      then show ?thesis using clean None by (simp add: select_chain_once_eq [OF pb])
    next
      case (Some c)
      obtain peer cand tip where "c = (peer, cand, tip)" by (cases c)
      then show ?thesis using decide_candidate_ok [OF assms clean] Some clean by (simp add: select_chain_once_eq [OF pb])
    qed
  qed
qed

subsection \<open>Switching to a stored block\<close>

lemma parent_chain_nth: "parent_chain t xs \<Longrightarrow> Suc i < length xs \<Longrightarrow> parent_of t (xs ! i) (xs ! Suc i)"
proof (induction xs arbitrary: i rule: parent_chain.induct)
  case (3 t h p rest)
  then show ?case by (cases i) auto
qed auto

lemma tainted_descends: "visible_ancestor t h a \<Longrightarrow> tainted t a \<Longrightarrow> tainted t h"
  by (induction rule: visible_ancestor.induct) (auto simp: tainted_def intro: visible_ancestor.intros)

lemma takeWhile_nth_prefix: "i < length (takeWhile P xs) \<Longrightarrow> takeWhile P xs ! i = xs ! i"
  by (rule takeWhile_nth)

text \<open>
  A stored branch to replay: blocks we hold, none of them tainted or already being validated, each the parent
  of the next, starting right above a block of the adopted chain (or, for a fresh node, at a root).
\<close>

definition stored_branch :: "praos_state \<Rightarrow> hash32 \<Rightarrow> hash32 list \<Rightarrow> bool" where
  "stored_branch st a replay \<longleftrightarrow>
     replay \<noteq> [] \<and>
     (\<forall>x\<in>set replay. block_held st x \<and> x \<notin> ps_in_flight_validation st \<and> \<not> tainted (ps_chain_tree st) x) \<and>
     (\<forall>i. Suc i < length replay \<longrightarrow> parent_of (ps_chain_tree st) (replay ! Suc i) (replay ! i)) \<and>
     (parent_of (ps_chain_tree st) (hd replay) a \<and>
        (\<forall>tip. ps_adopted_tip_hash st = Some tip \<longrightarrow> visible_ancestor (ps_chain_tree st) tip a) \<or>
      ps_adopted_tip_hash st = None \<and> a = 0 \<and> ct_prev_hash (ps_chain_tree st) (hd replay) = None)"

lemma rev_take_parents:
  assumes "parent_chain t walk" and "n \<le> length walk" and "Suc i < n"
  shows "parent_of t (rev (take n walk) ! Suc i) (rev (take n walk) ! i)"
proof -
  have "Suc (n - Suc (Suc i)) = n - Suc i" using assms(3) by simp
  moreover have "rev (take n walk) ! Suc i = walk ! (n - Suc (Suc i))" "rev (take n walk) ! i = walk ! (n - Suc i)"
    using assms(2,3) by (simp_all add: rev_nth)
  ultimately show ?thesis using parent_chain_nth [OF assms(1), of "n - Suc (Suc i)"] assms(2,3) by auto
qed

lemma switch_branch:
  fixes st
  defines "t \<equiv> ps_chain_tree st" and "P \<equiv> (\<lambda>h. h \<notin> ps_in_flight_validation st \<and> block_held st h)"
  assumes pb: "parents_below t" and clean: "\<not> tainted t tip" and pos: "pos \<le> length (ancestor_list t tip)"
    and replay: "replay = takeWhile P (rev (take pos (ancestor_list t tip)))" "replay \<noteq> []"
    and start: "pos < length (ancestor_list t tip) \<and> a = ancestor_list t tip ! pos \<and>
        (\<forall>x. ps_adopted_tip_hash st = Some x \<longrightarrow> visible_ancestor t x a) \<or>
      pos = length (ancestor_list t tip) \<and> ps_adopted_tip_hash st = None \<and> a = 0 \<and> ct_prev_hash t (last (ancestor_list t tip)) = None"
  shows "stored_branch st a replay"
proof -
  let ?walk = "ancestor_list t tip"
  let ?all = "rev (take pos ?walk)"
  note anc = ancestors_Some [OF pb, of tip]
  have mem: "x \<in> set ?all \<and> P x" if "x \<in> set replay" for x
    using that set_takeWhileD unfolding replay(1) by fast
  have "visible_ancestor t tip x" if "x \<in> set replay" for x
    using mem [OF that] set_take_subset [of pos ?walk] anc(5) by auto
  then have held: "\<forall>x\<in>set replay. block_held st x \<and> x \<notin> ps_in_flight_validation st \<and> \<not> tainted t x"
    using mem tainted_descends clean unfolding P_def by blast
  have len: "length replay \<le> pos" using length_takeWhile_le [of P ?all] replay(1) pos by simp
  have nth: "replay ! i = ?all ! i" if "i < length replay" for i
    using that by (simp add: replay(1) takeWhile_nth_prefix)
  have par: "parent_of t (replay ! Suc i) (replay ! i)" if "Suc i < length replay" for i
    using rev_take_parents [OF anc(2) pos, of i] nth [of i] nth [of "Suc i"] that len by auto
  have "0 < pos" using replay(2) len by (cases pos) auto
  then have hd: "hd replay = ?walk ! (pos - 1)"
    using nth [of 0] replay(2) pos by (simp add: hd_conv_nth rev_nth)
  have "parent_of t (hd replay) a \<and> (\<forall>x. ps_adopted_tip_hash st = Some x \<longrightarrow> visible_ancestor t x a) \<or>
      ps_adopted_tip_hash st = None \<and> a = 0 \<and> ct_prev_hash t (hd replay) = None"
    using start
  proof
    assume s: "pos < length ?walk \<and> a = ?walk ! pos \<and> (\<forall>x. ps_adopted_tip_hash st = Some x \<longrightarrow> visible_ancestor t x a)"
    then have "parent_of t (hd replay) a" using parent_chain_nth [OF anc(2), of "pos - 1"] hd \<open>0 < pos\<close> by simp
    then show ?thesis using s by blast
  next
    assume "pos = length ?walk \<and> ps_adopted_tip_hash st = None \<and> a = 0 \<and> ct_prev_hash t (last ?walk) = None"
    then show ?thesis using hd anc(4) by (simp add: last_conv_nth)
  qed
  then show ?thesis using held par replay(2) unfolding stored_branch_def t_def by blast
qed

lemma try_switch_to_ok:
  assumes "selection_ready st"
  shows "\<exists>r. try_switch_to st tip = Some r \<and>
    (\<forall>a replay. r = Inr (a, replay) \<longrightarrow> stored_branch st a replay \<and> \<not> tainted (ps_chain_tree st) tip \<and>
       (\<exists>bn. ct_block_number (ps_chain_tree st) tip = Some bn \<and>
          is_better_tip bn tip (case tip_block_number st of Some n \<Rightarrow> n | None \<Rightarrow> 0)
            (case ps_adopted_tip_hash st of Some h \<Rightarrow> h | None \<Rightarrow> 0)))"
proof -
  let ?t = "ps_chain_tree st"
  let ?walk = "ancestor_list ?t tip"
  have pb: "parents_below ?t" using selection_ready_tree [OF assms] by blast
  let ?adopted = "case ps_adopted_tip_hash st of Some h \<Rightarrow> h | None \<Rightarrow> 0"
  define anc where "anc = (case ps_adopted_tip_hash st of None \<Rightarrow> [] | Some h \<Rightarrow> ancestor_list ?t h)"
  have anc: "(case ps_adopted_tip_hash st of None \<Rightarrow> Some [] | Some h \<Rightarrow> ancestors ?t h) = Some anc"
    by (simp add: anc_def ancestors_Some(1) [OF pb] split: option.splits)
  show ?thesis
  proof (cases "tip = ?adopted \<or> tainted ?t tip \<or> ct_block_number ?t tip = None")
    case True
    then show ?thesis
      by (auto simp: try_switch_to_def Let_def is_blacklisted_tainted [OF pb])
  next
    case False
    then obtain bn where bn: "ct_block_number ?t tip = Some bn" by auto
    let ?better = "is_better_tip bn tip (case tip_block_number st of Some n \<Rightarrow> n | None \<Rightarrow> 0) ?adopted"
    define pos where "pos = (case position (\<lambda>h. h = ?adopted \<or> h \<in> set anc) ?walk of
        Some p \<Rightarrow> Inr p
      | None \<Rightarrow> if ps_adopted_tip_hash st = None \<and> ?walk \<noteq> [] \<and> ct_prev_hash ?t (last ?walk) = None
                then Inr (length ?walk) else Inl (gap_of ?t ?walk))"
    define rest where "rest = (case pos of
        Inl gap \<Rightarrow> Some (Inl gap)
      | Inr n \<Rightarrow>
          let a = (if n < length ?walk then ?walk ! n else 0); replay = rev (take n ?walk);
              prefix = takeWhile (\<lambda>h. h \<notin> ps_in_flight_validation st \<and> block_held st h) replay
          in if replay = [] then Some (Inl None) else if prefix = [] then Some (Inl None) else Some (Inr (a, prefix)))"
    have eq: "try_switch_to st tip = (if \<not> ?better then Some (Inl None) else rest)"
      using False bn anc unfolding try_switch_to_def Let_def rest_def pos_def
      by (simp add: is_blacklisted_tainted [OF pb] ancestors_Some(1) [OF pb] Let_def)
    show ?thesis
    proof (cases pos)
      case (Inl gap)
      then show ?thesis by (simp add: eq rest_def)
    next
      case (Inr n)
      let ?a = "if n < length ?walk then ?walk ! n else 0"
      let ?prefix = "takeWhile (\<lambda>h. h \<notin> ps_in_flight_validation st \<and> block_held st h) (rev (take n ?walk))"
      have start: "n \<le> length ?walk \<and>
          (n < length ?walk \<and> ?a = ?walk ! n \<and> (\<forall>x. ps_adopted_tip_hash st = Some x \<longrightarrow> visible_ancestor ?t x ?a) \<or>
           n = length ?walk \<and> ps_adopted_tip_hash st = None \<and> ?a = 0 \<and> ct_prev_hash ?t (last ?walk) = None)"
      proof (cases "position (\<lambda>h. h = ?adopted \<or> h \<in> set anc) ?walk")
        case None
        then show ?thesis using Inr by (auto simp: pos_def split: if_splits)
      next
        case (Some q)
        then have "q = n" using Inr by (simp add: pos_def)
        then have q: "n < length ?walk" "?walk ! n = ?adopted \<or> ?walk ! n \<in> set anc"
          using iffD1 [OF position_Some Some] by blast+
        then have "visible_ancestor ?t x (?walk ! n)" if "ps_adopted_tip_hash st = Some x" for x
          using that ancestors_Some(5) [OF pb, of x] by (auto simp: anc_def intro: visible_ancestor.va_self)
        then show ?thesis using q by auto
      qed
      have "stored_branch st ?a ?prefix" if "?prefix \<noteq> []"
        using switch_branch [OF pb, of tip n ?prefix ?a] False start that by blast
      then show ?thesis using Inr False bn by (simp add: eq rest_def Let_def)
    qed
  qed
qed

end
