(* ===== verification/Praos_Steps.thy ===== *)
theory Praos_Steps
  imports Praos_Selection
begin

text \<open>
  The Praos handlers as a whole: the invariant \<open>praos_inv\<close> of the state, that every handler returns and keeps it,
  and that the commands emitted to the validator drive its queue to exactly the tip the state projects.

  The validator's queue is abstracted to the block it will stand at: \<open>validator_step\<close> is the effect of one
  command. The locale \<open>effect_contract\<close> is the interface of the internal operations (a relation between the
  state before, the state after and the effects emitted, closed under sequencing); \<open>drives\<close> provides it.
\<close>

subsection \<open>The validator's queue\<close>

fun validator_step :: "hash32 option \<Rightarrow> praos_effect \<Rightarrow> hash32 option" where
  "validator_step q (ValidatorApply p _ _ _) = get_hash p"
| "validator_step q (ValidatorRollback p) = get_hash p"
| "validator_step q _ = q"

text \<open>
  A command is in order when a block is applied on top of its parent, or the parent is unknown to the tree
  (or is genesis), and is not an heir of a blacklisted block.
\<close>

fun command_ok :: "chain_tree \<Rightarrow> hash32 option \<Rightarrow> praos_effect \<Rightarrow> bool" where
  "command_ok t q (ValidatorApply p _ prev _) \<longleftrightarrow>
     (\<exists>h. get_hash p = Some h \<and> \<not> tainted t h) \<and>
     (prev = q \<or> prev = None \<or> (\<exists>parent. prev = Some parent \<and> \<not> ohas (ct_nodes t) parent))"
| "command_ok t q (ValidatorRollback p) \<longleftrightarrow> p = Origin \<or> (\<exists>h. ct_point t h = Some p)"
| "command_ok t q _ \<longleftrightarrow> True"

fun commands_ok :: "chain_tree \<Rightarrow> hash32 option \<Rightarrow> praos_effect list \<Rightarrow> bool" where
  "commands_ok t q [] \<longleftrightarrow> True"
| "commands_ok t q (e # es) \<longleftrightarrow> command_ok t q e \<and> commands_ok t (validator_step q e) es"

lemma commands_ok_append: "commands_ok t q (xs @ ys) \<longleftrightarrow> commands_ok t q xs \<and> commands_ok t (foldl validator_step q xs) ys"
  by (induction xs arbitrary: q) auto

subsection \<open>The contract of the internal operations\<close>

locale effect_contract =
  fixes R :: "'s \<Rightarrow> 's \<Rightarrow> 'e list \<Rightarrow> bool"
  assumes R_refl: "R s s []"
    and R_trans: "R s s1 xs \<Longrightarrow> R s1 s2 ys \<Longrightarrow> R s s2 (xs @ ys)"
begin

definition meets :: "('s \<times> 'e list) option \<Rightarrow> 's \<Rightarrow> bool" where
  "meets r s \<longleftrightarrow> (\<exists>s' xs. r = Some (s', xs) \<and> R s s' xs)"

lemma meets_return: "meets (Some (s, [])) s"
  by (simp add: meets_def R_refl)

lemma meets_seq:
  assumes "meets r s" and "\<And>s1 xs. r = Some (s1, xs) \<Longrightarrow> R s s1 xs \<Longrightarrow> meets (f s1) s1"
  shows "meets (Option.bind r (\<lambda>(s1, xs). Option.bind (f s1) (\<lambda>(s2, ys). Some (s2, xs @ ys)))) s"
proof -
  obtain s1 xs where r: "r = Some (s1, xs)" "R s s1 xs" using assms(1) by (auto simp: meets_def)
  then obtain s2 ys where "f s1 = Some (s2, ys)" "R s1 s2 ys" using assms(2) by (auto simp: meets_def)
  then show ?thesis using r R_trans by (auto simp: meets_def)
qed

end

definition queue_agrees :: "praos_state \<Rightarrow> bool" where
  "queue_agrees st \<longleftrightarrow> ps_queued_validator_tip st = None \<or> ps_queued_validator_tip st = ps_adopted_tip_hash st"

definition chains_ok :: "praos_state \<Rightarrow> bool" where
  "chains_ok st \<longleftrightarrow> (\<forall>p c. oget (ps_peer_chains st) p = Some c \<longrightarrow> peer_chain_inv c)"

definition drives :: "praos_state \<Rightarrow> praos_state \<Rightarrow> praos_effect list \<Rightarrow> bool" where
  "drives st st' fx \<longleftrightarrow>
     ps_chain_tree st' = ps_chain_tree st \<and> ps_block_cache st' = ps_block_cache st \<and>
     ps_validated st' = ps_validated st \<and> ps_security_param_k st' = ps_security_param_k st \<and>
     (queue_agrees st \<longrightarrow> queue_agrees st') \<and> (chains_ok st \<longrightarrow> chains_ok st') \<and>
     foldl validator_step (ps_queued_validator_tip st) fx = ps_queued_validator_tip st' \<and>
     commands_ok (ps_chain_tree st) (ps_queued_validator_tip st) fx"

interpretation dr: effect_contract drives
  by unfold_locales (auto simp: drives_def commands_ok_append)

lemma drives_ready: "drives st st' fx \<Longrightarrow> selection_ready st' = selection_ready st"
  by (auto simp: drives_def intro!: selection_ready_cong)

text \<open>Changes outside the fields of the contract.\<close>

lemma drives_frame:
  assumes "ps_chain_tree st' = ps_chain_tree st" "ps_block_cache st' = ps_block_cache st"
    "ps_validated st' = ps_validated st" "ps_security_param_k st' = ps_security_param_k st"
    "ps_queued_validator_tip st' = ps_queued_validator_tip st" "ps_adopted_tip_hash st' = ps_adopted_tip_hash st"
    "chains_ok st \<Longrightarrow> chains_ok st'"
    and "\<forall>e\<in>set fx. \<forall>q. validator_step q e = q \<and> command_ok (ps_chain_tree st) q e"
  shows "drives st st' fx"
proof -
  have "foldl validator_step q fx = q \<and> commands_ok (ps_chain_tree st) q fx" for q
    using assms(8) by (induction fx) auto
  then show ?thesis using assms(1-7) by (simp add: drives_def queue_agrees_def)
qed

subsection \<open>Submitting and switching\<close>

lemma align_queue_effect:
  assumes "points_ok (ps_chain_tree st)" and "align_queue st prev = (st1, fx)"
  shows "\<exists>q. st1 = st\<lparr>ps_queued_validator_tip := q\<rparr> \<and> foldl validator_step (ps_queued_validator_tip st) fx = q \<and>
    commands_ok (ps_chain_tree st) (ps_queued_validator_tip st) fx \<and>
    (prev = q \<or> prev = None \<or> (\<exists>parent. prev = Some parent \<and> \<not> ohas (ct_nodes (ps_chain_tree st)) parent))"
proof (cases "prev \<noteq> ps_queued_validator_tip st \<and> (\<exists>parent pp. prev = Some parent \<and> ct_point (ps_chain_tree st) parent = Some pp)")
  case True
  then obtain parent pp where p: "prev = Some parent" "ct_point (ps_chain_tree st) parent = Some pp" by blast
  have "get_hash pp = Some parent" using p(2) assms(1) by (auto simp: ct_point_def points_ok_def)
  then show ?thesis using True p assms(2) by (auto simp: align_queue_def)
next
  case False
  then show ?thesis
    using assms(2) by (auto simp: align_queue_def ct_point_def ohas_def split: if_splits option.splits intro: exI [of _ "ps_queued_validator_tip st"])
qed

lemma submit_drives:
  assumes "selection_ready st"
  shows "dr.meets (submit_for_validation st p body prev) st"
proof -
  have pb: "parents_below (ps_chain_tree st)" and pts: "points_ok (ps_chain_tree st)"
    using selection_ready_tree [OF assms] by auto
  show ?thesis
  proof (cases "p = Origin \<or> (\<exists>h. get_hash p = Some h \<and> tainted (ps_chain_tree st) h)")
    case True
    then have "submit_for_validation st p body prev = Some (st, [])"
      by (cases p) (auto simp: submit_for_validation_def is_blacklisted_tainted [OF pb])
    then show ?thesis by (simp add: dr.meets_return)
  next
    case False
    then obtain slot h where p: "p = Specific slot h" "\<not> tainted (ps_chain_tree st) h" by (cases p) auto
    obtain st1 fx where a: "align_queue st prev = (st1, fx)" by (cases "align_queue st prev")
    from align_queue_effect [OF pts a] obtain q where q: "st1 = st\<lparr>ps_queued_validator_tip := q\<rparr>"
      "foldl validator_step (ps_queued_validator_tip st) fx = q"
      "commands_ok (ps_chain_tree st) (ps_queued_validator_tip st) fx"
      "prev = q \<or> prev = None \<or> (\<exists>parent. prev = Some parent \<and> \<not> ohas (ct_nodes (ps_chain_tree st)) parent)" by blast
    define st2 where "st2 = st1\<lparr>ps_queued_validator_tip := Some h, ps_adopted_tip_hash := Some h,
      ps_in_flight_validation := insert h (ps_in_flight_validation st1)\<rparr>"
    have "submit_for_validation st p body prev = Some (st2, fx @ [ValidatorApply p body prev (p \<in> ps_self_produced st1)])"
      using p a by (simp add: submit_for_validation_def is_blacklisted_tainted [OF pb] st2_def)
    moreover have "drives st st2 (fx @ [ValidatorApply p body prev (p \<in> ps_self_produced st1)])"
      using q p by (auto simp: drives_def st2_def queue_agrees_def chains_ok_def commands_ok_append)
    ultimately show ?thesis by (auto simp: dr.meets_def)
  qed
qed

lemma replay_blocks_drives: "selection_ready st \<Longrightarrow> dr.meets (replay_blocks st replay) st"
proof (induction replay arbitrary: st)
  case (Cons h replay)
  show ?case
  proof (cases "oget (ps_block_cache st) h")
    case None
    then show ?thesis by (simp add: dr.meets_return)
  next
    case (Some cb)
    have "dr.meets (replay_blocks st1 replay) st1"
      if "drives st st1 xs" for st1 xs
      using Cons drives_ready [OF that] by simp
    from dr.meets_seq [OF submit_drives [OF Cons.prems] this] Some show ?thesis by simp
  qed
qed (simp add: dr.meets_return)

lemma rollback_drives:
  assumes "points_ok (ps_chain_tree st)" and "rollback_to_ancestor st a = Some (st1, fx)"
  shows "drives st st1 fx" and "ps_adopted_tip_hash st1 \<noteq> ps_adopted_tip_hash st \<Longrightarrow> ps_adopted_tip_hash st1 = (if a = 0 then None else Some a)"
proof -
  have pt: "get_hash p = Some a" if "ct_point (ps_chain_tree st) a = Some p" for p
    using that assms(1) by (auto simp: ct_point_def points_ok_def)
  show "drives st st1 fx" and "ps_adopted_tip_hash st1 \<noteq> ps_adopted_tip_hash st \<Longrightarrow> ps_adopted_tip_hash st1 = (if a = 0 then None else Some a)"
    using assms(2) pt
    by (auto simp: rollback_to_ancestor_def Let_def drives_def queue_agrees_def chains_ok_def split: if_splits option.splits)
qed

lemma execute_switch_drives:
  assumes "selection_ready st"
  shows "dr.meets (execute_switch st a replay) st"
proof (cases "rollback_to_ancestor st a")
  case None
  then show ?thesis by (simp add: execute_switch_def dr.meets_return)
next
  case (Some r)
  obtain st1 fx1 where r: "r = (st1, fx1)" by (cases r)
  have d: "drives st st1 fx1" using rollback_drives(1) [OF selection_ready_tree(3) [OF assms]] Some r by blast
  have "dr.meets (Some (st1, fx1)) st" using d by (auto simp: dr.meets_def)
  from dr.meets_seq [OF this replay_blocks_drives] d drives_ready [OF d] assms show ?thesis
    by (auto simp: execute_switch_def Some r)
qed

lemma try_switch_drives:
  assumes "selection_ready st"
  shows "dr.meets (try_switch_and_execute st h) st" and "dr.meets (try_switch_to_best st) st"
proof -
  show all: "dr.meets (try_switch_and_execute st h) st" for h
  proof -
    obtain r where "try_switch_to st h = Some r" using try_switch_to_ok [OF assms] by blast
    then show ?thesis
      using execute_switch_drives [OF assms] dr.meets_return
      by (cases r) (auto simp: try_switch_and_execute_def split: prod.splits)
  qed
  show "dr.meets (try_switch_to_best st) st"
    using all by (simp add: try_switch_to_best_def dr.meets_return split: option.splits)
qed

lemma issue_fetch_drives: "issue_fetch st missing anchor peer now = (st', fx) \<Longrightarrow> drives st st' fx"
  by (rule drives_frame)
    (auto simp: issue_fetch_def evict_stale_in_flight_def chains_ok_def Let_def split: if_splits)

subsection \<open>The evaluation loop returns\<close>

definition open_peers :: "praos_state \<Rightarrow> peer_id set \<Rightarrow> peer_id set" where
  "open_peers st skip = {p. ohas (ps_peer_chains st) p} - skip"

lemma finite_open_peers [simp]: "finite (open_peers st skip)"
  by (simp add: open_peers_def)

definition orphaned :: "praos_state \<Rightarrow> peer_id \<Rightarrow> instant \<Rightarrow> praos_state" where
  "orphaned st peer now =
     st\<lparr>ps_peer_chains := oupdate peer clear_entries (ps_peer_chains st),
        ps_orphan_cooldown := oput peer (now + ORPHAN_COOLDOWN) (ps_orphan_cooldown st)\<rparr>"

lemma orphaned_drives:
  "\<forall>e\<in>set fx. \<exists>p. e = ReIntersect p \<Longrightarrow> drives st (orphaned st peer now) fx"
  by (rule drives_frame)
    (auto simp: orphaned_def chains_ok_def oget_oupdate clear_entries_def peer_chain_inv_def split: if_splits)

lemma clean_tip_orphaned [simp]: "clean_tip (orphaned st peer now) = clean_tip st"
  "ps_adopted_tip_hash (orphaned st peer now) = ps_adopted_tip_hash st"
  by (simp_all add: orphaned_def clean_tip_def)

lemma ohas_oupdate [simp]: "ohas (oupdate k f m) x \<longleftrightarrow> ohas m x"
  by (simp add: ohas_def oget_oupdate)

lemma open_peers_orphaned:
  assumes "is_best_peer st skip peer tip"
  shows "card (open_peers (orphaned st peer now) (insert peer skip)) < card (open_peers st skip)"
proof -
  have "open_peers (orphaned st peer now) (insert peer skip) = open_peers st skip - {peer}"
    by (auto simp: open_peers_def orphaned_def)
  moreover have "peer \<in> open_peers st skip" using assms by (auto simp: is_best_peer_def open_peers_def ohas_iff_Some)
  ultimately show ?thesis by (metis card_Diff1_less finite_open_peers)
qed

text \<open>The result of the loop extends the effects collected so far.\<close>

definition loop_meets :: "praos_state \<Rightarrow> praos_effect list \<Rightarrow> (praos_state \<times> praos_effect list) option \<Rightarrow> bool" where
  "loop_meets st fx r \<longleftrightarrow> (\<exists>st' xs. r = Some (st', fx @ xs) \<and> drives st st' xs)"

lemma loop_meets_trans: "drives st st1 ys \<Longrightarrow> loop_meets st1 (fx @ ys) r \<Longrightarrow> loop_meets st fx r"
  by (auto simp: loop_meets_def intro: dr.R_trans)

lemma loop_meets_op: "dr.meets r st \<Longrightarrow> loop_meets st fx (Option.bind r (\<lambda>x. Some (fst x, fx @ snd x)))"
  by (auto simp: loop_meets_def dr.meets_def)

lemma evaluate_loop_clean:
  assumes "selection_ready st" and "clean_tip st = ps_adopted_tip_hash st"
  shows "loop_meets st fx (evaluate_loop st now skip fx)"
  using assms
proof (induction "card (open_peers st skip)" arbitrary: st skip fx rule: less_induct)
  case less
  have pb: "parents_below (ps_chain_tree st)" using selection_ready_tree [OF less.prems(1)] by blast
  obtain d where d: "select_chain_once st skip = Some d" "decision_ok st skip d"
    using select_chain_once_ok [OF less.prems(1)] by blast
  show ?case
  proof (cases d)
    case NoBetterChain
    then show ?thesis using d by (subst evaluate_loop.simps) (auto simp: loop_meets_def dr.R_refl)
  next
    case (RollbackTainted a n)
    then show ?thesis using d less.prems(2) clean_tip_clean [OF pb] by (auto simp: decision_ok_def Let_def)
  next
    case (OrphanCandidate peer n)
    then obtain tip where tip: "is_best_peer st skip peer tip" using d(2) by (auto simp: decision_ok_def)
    define ys where "ys = (if ohas (ps_orphan_cooldown st) peer then [] else [ReIntersect peer])"
    have dr: "drives st (orphaned st peer now) ys" by (rule orphaned_drives) (simp add: ys_def)
    have "loop_meets (orphaned st peer now) (fx @ ys) (evaluate_loop (orphaned st peer now) now (insert peer skip) (fx @ ys))"
      using less open_peers_orphaned [OF tip] drives_ready [OF dr] by simp
    moreover have "evaluate_loop st now skip fx = evaluate_loop (orphaned st peer now) now (insert peer skip) (fx @ ys)"
      using d(1) OrphanCandidate by (subst evaluate_loop.simps) (simp add: orphaned_def ys_def)
    ultimately show ?thesis using loop_meets_trans [OF dr] by simp
  next
    case (Switched peer a replay n)
    then show ?thesis
      using d(1) loop_meets_op [OF execute_switch_drives [OF less.prems(1)]] by (subst evaluate_loop.simps) simp
  next
    case (WaitingForBlocks peer a anchor missing n)
    obtain st' xs where i: "issue_fetch st missing anchor (Some peer) now = (st', xs)"
      by (cases "issue_fetch st missing anchor (Some peer) now")
    then show ?thesis
      using d(1) WaitingForBlocks issue_fetch_drives [OF i] by (subst evaluate_loop.simps) (simp add: loop_meets_def)
  qed
qed

lemma execute_switch_empty:
  assumes ready: "selection_ready st" and "execute_switch st a [] = Some (st1, fx)"
    and "ps_adopted_tip_hash st1 \<noteq> ps_adopted_tip_hash st"
  shows "ps_adopted_tip_hash st1 = (if a = 0 then None else Some a)"
proof (cases "rollback_to_ancestor st a")
  case None
  then show ?thesis using assms(2,3) by (simp add: execute_switch_def)
next
  case (Some r)
  then have "rollback_to_ancestor st a = Some (st1, fx)" using assms(2) by (auto simp: execute_switch_def split: prod.splits)
  from rollback_drives(2) [OF selection_ready_tree(3) [OF ready] this assms(3)] show ?thesis .
qed

lemma evaluate_loop_returns:
  assumes ready: "selection_ready st"
  shows "loop_meets st fx (evaluate_loop st now skip fx)"
proof (cases "clean_tip st = ps_adopted_tip_hash st")
  case True
  then show ?thesis using evaluate_loop_clean [OF ready] by blast
next
  case False
  have pb: "parents_below (ps_chain_tree st)" using selection_ready_tree [OF ready] by blast
  obtain tip where tip: "ps_adopted_tip_hash st = Some tip" using False by (cases "ps_adopted_tip_hash st") (auto simp: clean_tip_def)
  have sel: "select_chain_once st skip = Some (RollbackTainted (base_hash st) (base_number st))"
    using False tip by (simp add: select_chain_once_eq [OF pb])
  obtain st1 xs where ex: "execute_switch st (base_hash st) [] = Some (st1, xs)" "drives st st1 xs"
    using execute_switch_drives [OF ready, of "base_hash st" "[]"] by (auto simp: dr.meets_def)
  have step: "evaluate_loop st now skip fx =
      (if ps_adopted_tip_hash st1 = ps_adopted_tip_hash st then Some (st1, fx @ xs) else evaluate_loop st1 now skip (fx @ xs))"
    using sel ex(1) by (subst evaluate_loop.simps) simp
  show ?thesis
  proof (cases "ps_adopted_tip_hash st1 = ps_adopted_tip_hash st")
    case True
    then show ?thesis using step ex(2) by (auto simp: loop_meets_def)
  next
    case changed: False
    have tree: "ps_chain_tree st1 = ps_chain_tree st" using ex(2) by (simp add: drives_def)
    have new: "ps_adopted_tip_hash st1 = (if base_hash st = 0 then None else Some (base_hash st))"
      using execute_switch_empty [OF ready ex(1) changed] .
    have "clean_tip st1 = ps_adopted_tip_hash st1"
    proof (cases "ps_adopted_tip_hash st1")
      case None
      then show ?thesis by (simp add: clean_tip_def)
    next
      case (Some h)
      then have "clean_tip st = Some h" using new by (auto simp: base_hash_def split: if_splits option.splits)
      then have "\<not> tainted (ps_chain_tree st1) h" using clean_tip_SomeD [OF pb tip] tree by simp
      then show ?thesis using clean_tip_clean [of st1 h] pb tree Some by simp
    qed
    then have "loop_meets st1 (fx @ xs) (evaluate_loop st1 now skip (fx @ xs))"
      using evaluate_loop_clean drives_ready [OF ex(2)] ready by blast
    then show ?thesis using step changed loop_meets_trans [OF ex(2)] by simp
  qed
qed

lemma evaluate_and_fetch_drives:
  assumes "selection_ready st"
  shows "dr.meets (evaluate_and_fetch st now) st"
proof -
  define st1 where "st1 = st\<lparr>ps_orphan_cooldown := oretain (\<lambda>_ until. until > now) (ps_orphan_cooldown st),
    ps_block_fetch_cooldown := oretain (\<lambda>_ until. until > now) (ps_block_fetch_cooldown st)\<rparr>"
  have d: "drives st st1 []" by (rule drives_frame) (simp_all add: st1_def chains_ok_def)
  have "loop_meets st1 [] (evaluate_loop st1 now skip [])" for skip
    using evaluate_loop_returns drives_ready [OF d] assms by blast
  then obtain st' xs where "evaluate_and_fetch st now = Some (st', xs)" "drives st1 st' xs"
    unfolding evaluate_and_fetch_def Let_def st1_def [symmetric] loop_meets_def by fastforce
  then show ?thesis using dr.R_trans [OF d] by (auto simp: dr.meets_def)
qed

end
