(* ===== verification/Praos_Invariant.thy ===== *)
theory Praos_Invariant
  imports Praos_Steps
begin

text \<open>
  The invariant \<open>praos_inv\<close> and the step relation of the Praos state machine: every handler, run on a
  reachable state, returns, keeps the invariant, and emits validator commands that are in order and lead the
  validator's queue to the projected tip.

  A block that arrives must fit what is known (\<open>header_fits\<close>): its number lies above its parent's and below its
  children's, wherever these are known, and it is stored under the hash of its point. Headers that pass the
  protocol's validation satisfy this; the code does not check it.
\<close>

definition praos_inv :: "praos_state \<Rightarrow> bool" where
  "praos_inv st \<longleftrightarrow>
     selection_ready st \<and>
     (\<forall>h cb. oget (ps_block_cache st) h = Some cb \<longrightarrow> get_hash (cb_point cb) = Some h) \<and>
     (\<forall>h\<in>ps_validated st. ohas (ps_block_cache st) h) \<and>
     queue_agrees st \<and> chains_ok st"

lemma praos_inv_ready: "praos_inv st \<Longrightarrow> selection_ready st"
  by (simp add: praos_inv_def)

definition same_core :: "praos_state \<Rightarrow> praos_state \<Rightarrow> bool" where
  "same_core st st' \<longleftrightarrow>
     ps_chain_tree st' = ps_chain_tree st \<and> ps_block_cache st' = ps_block_cache st \<and>
     ps_validated st' = ps_validated st \<and> ps_queued_validator_tip st' = ps_queued_validator_tip st \<and>
     ps_adopted_tip_hash st' = ps_adopted_tip_hash st \<and> ps_peer_chains st' = ps_peer_chains st \<and>
     ps_in_flight_validation st' = ps_in_flight_validation st \<and> ps_security_param_k st' = ps_security_param_k st"

lemma praos_inv_same_core: "same_core st st' \<Longrightarrow> praos_inv st' = praos_inv st"
proof -
  assume s: "same_core st st'"
  then have "selection_ready st' = selection_ready st" by (intro selection_ready_cong) (simp_all add: same_core_def)
  then show ?thesis using s by (simp add: same_core_def praos_inv_def queue_agrees_def chains_ok_def)
qed

lemma note_header_same_core: "same_core st (note_header_for_equivocation st slot issuer h)"
  by (simp add: same_core_def note_header_for_equivocation_def Let_def)

lemma note_cert_same_core: "same_core st (note_cert_for_equivocation st slot h)"
  by (simp add: same_core_def note_cert_for_equivocation_def Let_def split: option.splits)

lemma same_core_trans: "same_core a b \<Longrightarrow> same_core b c \<Longrightarrow> same_core a c"
  by (simp add: same_core_def)

lemma praos_inv_drives: "drives st st' fx \<Longrightarrow> praos_inv st \<Longrightarrow> praos_inv st'"
  using drives_ready [of st st' fx] by (simp add: praos_inv_def drives_def)

subsection \<open>The contract of a handler\<close>

definition handled :: "praos_state \<Rightarrow> (praos_state \<times> praos_effect list) option \<Rightarrow> bool" where
  "handled st r \<longleftrightarrow>
     (\<exists>st' fx. r = Some (st', fx) \<and> praos_inv st' \<and>
        foldl validator_step (ps_queued_validator_tip st) fx = ps_queued_validator_tip st' \<and>
        commands_ok (ps_chain_tree st') (ps_queued_validator_tip st) fx)"

lemma handled_meets:
  assumes "dr.meets r st1" and "praos_inv st1" and "ps_queued_validator_tip st1 = ps_queued_validator_tip st"
  shows "handled st r"
proof -
  obtain st' fx where r: "r = Some (st', fx)" "drives st1 st' fx" using assms(1) by (auto simp: dr.meets_def)
  then show ?thesis
    using assms(2,3) praos_inv_drives [OF r(2)] by (auto simp: handled_def drives_def)
qed

lemma drives_seq:
  assumes "dr.meets r s" and "selection_ready s" and "\<And>s1. selection_ready s1 \<Longrightarrow> dr.meets (f s1) s1"
  shows "dr.meets (Option.bind r (\<lambda>(s1, xs). Option.bind (f s1) (\<lambda>(s2, ys). Some (s2, xs @ ys)))) s"
  by (rule dr.meets_seq [OF assms(1)]) (use assms(2,3) drives_ready in blast)

lemma handled_evaluate:
  assumes "praos_inv st1" and "ps_queued_validator_tip st1 = ps_queued_validator_tip st"
  shows "handled st (evaluate_and_fetch st1 now)"
  using handled_meets [OF evaluate_and_fetch_drives [OF praos_inv_ready]] assms by blast

text \<open>Effects that are not commands to the validator may surround a contract.\<close>

definition neutral :: "praos_effect list \<Rightarrow> bool" where
  "neutral fx \<longleftrightarrow> (\<forall>e\<in>set fx. \<forall>q t. validator_step q e = q \<and> command_ok t q e)"

lemma neutral_run: "neutral fx \<Longrightarrow> foldl validator_step q fx = q \<and> commands_ok t q fx"
  by (induction fx) (auto simp: neutral_def)

lemma drives_neutral: "neutral xs \<Longrightarrow> neutral zs \<Longrightarrow> drives st st' ys \<Longrightarrow> drives st st' (xs @ ys @ zs)"
  by (auto simp: drives_def commands_ok_append neutral_run)

lemma neutral_push_eb_fetch: "neutral (push_eb_fetch st p)"
  by (simp add: push_eb_fetch_def neutral_def Let_def)

lemma neutral_append: "neutral xs \<Longrightarrow> neutral ys \<Longrightarrow> neutral (xs @ ys)"
  by (auto simp: neutral_def)

lemma neutral_Nil: "neutral []"
  by (simp add: neutral_def)

subsection \<open>Peer events\<close>

lemma chains_ok_step:
  assumes "chains_ok st" and "ps_peer_chains st' = oput peer c' (ps_peer_chains st)"
    and "pc_step (case oget (ps_peer_chains st) peer of Some c \<Rightarrow> c | None \<Rightarrow> peer_chain_new n) c'"
  shows "chains_ok st'"
proof -
  have "peer_chain_inv (case oget (ps_peer_chains st) peer of Some c \<Rightarrow> c | None \<Rightarrow> peer_chain_new n)"
    using assms(1) by (auto simp: chains_ok_def peer_chain_inv_def peer_chain_new_def split: option.splits)
  then have "peer_chain_inv c'" using pc_step_inv [OF assms(3)] by blast
  then show ?thesis using assms(1,2) by (auto simp: chains_ok_def oget_oput)
qed

lemma praos_inv_chains:
  assumes "praos_inv st" and "chains_ok st'"
    and "ps_chain_tree st' = ps_chain_tree st" "ps_block_cache st' = ps_block_cache st"
    "ps_validated st' = ps_validated st" "ps_queued_validator_tip st' = ps_queued_validator_tip st"
    "ps_adopted_tip_hash st' = ps_adopted_tip_hash st"
  shows "praos_inv st'"
proof -
  have "selection_ready st' = selection_ready st" using assms by (intro selection_ready_cong)
  then show ?thesis using assms by (simp add: praos_inv_def queue_agrees_def)
qed

lemma record_peer_tip_chains:
  fixes st clock peer p tbn hbn hh hs hp
  defines "st' \<equiv> record_peer_tip st clock peer p tbn hbn hh hs hp"
  shows "ps_peer_chains st' = ps_peer_chains st \<or>
     (\<exists>e n. ps_peer_chains st' = oput peer (snd (pc_append
        (case oget (ps_peer_chains st) peer of Some c \<Rightarrow> c | None \<Rightarrow> peer_chain_new n) e)) (ps_peer_chains st))"
    and "ps_chain_tree st' = ps_chain_tree st" "ps_block_cache st' = ps_block_cache st" "ps_validated st' = ps_validated st"
    "ps_queued_validator_tip st' = ps_queued_validator_tip st" "ps_adopted_tip_hash st' = ps_adopted_tip_hash st"
  unfolding st'_def record_peer_tip_def Let_def by (auto split: option.splits prod.splits if_splits point.splits)

lemma record_peer_tip_inv:
  assumes "praos_inv st"
  shows "praos_inv (record_peer_tip st clock peer p tbn hbn hh hs hp)"
proof -
  let ?st' = "record_peer_tip st clock peer p tbn hbn hh hs hp"
  have "chains_ok st" using assms by (simp add: praos_inv_def)
  have "chains_ok ?st'"
    using record_peer_tip_chains(1) [of st clock peer p tbn hbn hh hs hp]
  proof
    assume "ps_peer_chains ?st' = ps_peer_chains st"
    then show ?thesis using \<open>chains_ok st\<close> by (simp add: chains_ok_def)
  next
    assume "\<exists>e n. ps_peer_chains ?st' = oput peer (snd (pc_append
        (case oget (ps_peer_chains st) peer of Some c \<Rightarrow> c | None \<Rightarrow> peer_chain_new n) e)) (ps_peer_chains st)"
    then show ?thesis using chains_ok_step [OF \<open>chains_ok st\<close>] pc_step.pcs_append by blast
  qed
  from praos_inv_chains [OF assms this record_peer_tip_chains(2-6)] show ?thesis .
qed

lemma record_peer_rollback_inv: "praos_inv st \<Longrightarrow> praos_inv (record_peer_rollback st peer p)"
proof (rule praos_inv_chains)
  assume "praos_inv st"
  then have "\<And>q c. oget (ps_peer_chains st) q = Some c \<Longrightarrow> peer_chain_inv c" by (simp add: praos_inv_def chains_ok_def)
  then show "chains_ok (record_peer_rollback st peer p)"
    using pc_step_inv [OF pc_step.pcs_rollback]
    by (auto simp: chains_ok_def record_peer_rollback_def oget_oupdate split: if_splits)
qed (simp_all add: record_peer_rollback_def)

lemma record_peer_disconnected_inv: "praos_inv st \<Longrightarrow> praos_inv (record_peer_disconnected st peer)"
  by (rule praos_inv_chains)
    (auto simp: record_peer_disconnected_def praos_inv_def chains_ok_def oget_odel split: if_splits)

subsection \<open>Adding a block\<close>

definition header_fits :: "praos_state \<Rightarrow> hash32 \<Rightarrow> point \<Rightarrow> u64 \<Rightarrow> hash32 option \<Rightarrow> bool" where
  "header_fits st h p bn prev \<longleftrightarrow>
     get_hash p = Some h \<and> prev \<noteq> Some h \<and>
     (\<forall>q m r. prev = Some q \<and> known_link st q m r \<longrightarrow> m < bn) \<and>
     (\<forall>c n. known_link st c n (Some h) \<longrightarrow> bn < n)"

lemma header_fits_block: "header_fits st h p bn prev \<Longrightarrow> block_fits (ps_chain_tree st) h p bn prev"
proof -
  assume f: "header_fits st h p bn prev"
  have tree: "known_link st x (cn_block_number n) (cn_prev_hash n)"
    if "oget (ct_nodes (ps_chain_tree st)) x = Some n" for x n
    using that by (auto simp: known_link_def)
  show ?thesis
    using f tree unfolding header_fits_def block_fits_def by (metis (no_types))
qed

lemma header_fits_same_core: "same_core st st' \<Longrightarrow> header_fits st' h p bn prev = header_fits st h p bn prev"
  by (simp add: header_fits_def known_link_def same_core_def)

lemma links_below_add:
  assumes "links_below st" and "header_fits st h p bn prev"
    and "\<And>x n q. known_link st' x n q \<Longrightarrow> known_link st x n q \<or> x = h \<and> n = bn \<and> q = prev"
  shows "links_below st'"
  unfolding links_below_def
proof (intro allI impI)
  fix x n q m r
  assume "known_link st' x n (Some q) \<and> known_link st' q m r"
  then have k: "known_link st x n (Some q) \<or> x = h \<and> n = bn \<and> Some q = prev"
    "known_link st q m r \<or> q = h \<and> m = bn \<and> r = prev" using assms(3) by blast+
  show "m < n"
    using k assms(1,2) unfolding links_below_def header_fits_def by (elim disjE) blast+
qed

lemma update_best_tip_nodes:
  "update_best_tip t p bn h = Some (b, t') \<Longrightarrow> ct_nodes t' = ct_nodes t"
  by (auto simp: update_best_tip_def recompute_best_tip_def bind_eq_Some_conv split: if_splits option.splits)

lemma ct_insert_links:
  assumes "ct_insert t h p bn slot prev txs eb cert = Some (b, t')" and "oget (ct_nodes t') x = Some n"
  shows "oget (ct_nodes t) x = Some n \<or> x = h \<and> cn_block_number n = bn \<and> cn_prev_hash n = prev"
  using assms
  by (auto simp: ct_insert_def oget_oput dest!: update_best_tip_nodes split: if_splits)

lemma insert_chain_start_links:
  assumes "insert_chain_start t h p slot bn = Some (b, t')" and "oget (ct_nodes t') x = Some n"
  shows "oget (ct_nodes t) x = Some n \<or> x = h \<and> cn_block_number n = bn \<and> cn_prev_hash n = None"
  using assms
  by (auto simp: insert_chain_start_def oget_oput dest!: update_best_tip_nodes split: if_splits)

text \<open>A state extended by one block, in the tree, in the cache or in both.\<close>

lemma praos_inv_add_block:
  assumes inv: "praos_inv st" and fits: "header_fits st h p bn prev"
    and tree: "tree_inv t'"
      "\<And>x n. oget (ct_nodes t') x = Some n \<Longrightarrow>
         oget (ct_nodes (ps_chain_tree st)) x = Some n \<or> x = h \<and> cn_block_number n = bn \<and> cn_prev_hash n = prev"
    and cache: "\<And>x cb. oget m' x = Some cb \<Longrightarrow> oget (ps_block_cache st) x = Some cb \<or>
         x = h \<and> cb_point cb = p \<and> cb_block_no cb = bn \<and> cb_prev_hash cb = prev"
      "\<And>x. ohas (ps_block_cache st) x \<Longrightarrow> ohas m' x"
  shows "praos_inv (st\<lparr>ps_chain_tree := t', ps_block_cache := m'\<rparr>)"
proof -
  let ?st' = "st\<lparr>ps_chain_tree := t', ps_block_cache := m'\<rparr>"
  have link: "known_link st x n q \<or> x = h \<and> n = bn \<and> q = prev" if "known_link ?st' x n q" for x n q
    using that [unfolded known_link_def]
  proof (elim disjE exE conjE)
    fix nd assume "oget (ct_nodes (ps_chain_tree ?st')) x = Some nd" "n = cn_block_number nd" "q = cn_prev_hash nd"
    then show ?thesis using tree(2) [of x nd] by (auto simp: known_link_def)
  next
    fix cb assume "oget (ps_block_cache ?st') x = Some cb" "n = cb_block_no cb" "q = cb_prev_hash cb"
    then show ?thesis using cache(1) [of x cb] by (auto simp: known_link_def)
  qed
  have "links_below st" using inv by (simp add: praos_inv_def selection_ready_def)
  from links_below_add [OF this fits link] have "links_below ?st'" .
  then have ready: "selection_ready ?st'" using tree(1) by (simp add: selection_ready_def)
  have "get_hash (cb_point cb) = Some x" if "oget m' x = Some cb" for x cb
    using cache(1) [OF that] inv fits by (auto simp: praos_inv_def header_fits_def)
  then show ?thesis
    using ready inv cache(2) by (simp add: praos_inv_def queue_agrees_def chains_ok_def)
qed

subsection \<open>Removing blocks\<close>

lemma praos_inv_remove:
  assumes inv: "praos_inv st" and tree: "tree_inv (ps_chain_tree st')"
    and sub: "\<And>x n q. known_link st' x n q \<Longrightarrow> known_link st x n q"
    and cache: "\<And>x cb. oget (ps_block_cache st') x = Some cb \<Longrightarrow> oget (ps_block_cache st) x = Some cb"
    and validated: "\<And>h. h \<in> ps_validated st' \<Longrightarrow> ohas (ps_block_cache st') h"
    and "queue_agrees st'" and "ps_peer_chains st' = ps_peer_chains st"
  shows "praos_inv st'"
proof -
  have "links_below st" using inv by (simp add: praos_inv_def selection_ready_def)
  then have "links_below st'" unfolding links_below_def using sub by blast
  then show ?thesis
    using inv tree cache validated assms(6,7) by (auto simp: praos_inv_def selection_ready_def chains_ok_def)
qed

lemma remove_above_nodes:
  "remove_above t m = Some t' \<Longrightarrow> ct_nodes t' = oretain (\<lambda>_ node. cn_block_number node \<le> m) (ct_nodes t)"
  by (auto simp: remove_above_def recompute_best_tip_def bind_eq_Some_conv Let_def split: if_splits)

lemma known_link_sub:
  assumes "known_link st' x n q"
    and "\<And>nd. oget (ct_nodes (ps_chain_tree st')) x = Some nd \<Longrightarrow> oget (ct_nodes (ps_chain_tree st)) x = Some nd"
    and "\<And>cb. oget (ps_block_cache st') x = Some cb \<Longrightarrow> oget (ps_block_cache st) x = Some cb"
  shows "known_link st x n q"
  using assms(1) [unfolded known_link_def]
proof (elim disjE exE conjE)
  fix nd assume "oget (ct_nodes (ps_chain_tree st')) x = Some nd" "n = cn_block_number nd" "q = cn_prev_hash nd"
  then show ?thesis using assms(2) by (simp add: known_link_def)
next
  fix cb assume "oget (ps_block_cache st') x = Some cb" "n = cb_block_no cb" "q = cb_prev_hash cb"
  then show ?thesis using assms(3) by (simp add: known_link_def)
qed

lemma prune_structure_inv:
  assumes inv: "praos_inv st"
  shows "\<exists>st'. prune_structure st bn = Some st' \<and> praos_inv st' \<and>
    ps_queued_validator_tip st' = ps_queued_validator_tip st"
proof (cases "bn > ps_security_param_k st")
  case True
  let ?m = "bn - ps_security_param_k st"
  have "tree_inv (ps_chain_tree st)" using inv by (simp add: praos_inv_def selection_ready_def)
  from prune_below_inv [OF this, of ?m] obtain t' where t': "prune_below (ps_chain_tree st) ?m = Some t'" "tree_inv t'"
    "ct_nodes t' = ct_nodes (pruned_tree (ps_chain_tree st) ?m)" by blast
  define st' where "st' = st\<lparr>ps_chain_tree := t',
    ps_authentic_headers := oretain (\<lambda>_ v. fst v \<ge> ?m) (ps_authentic_headers st)\<rparr>"
  have "praos_inv st'"
  proof (rule praos_inv_remove [OF inv])
    show "known_link st x n q" if "known_link st' x n q" for x n q
      by (rule known_link_sub [OF that]) (auto simp: st'_def t'(3) split: option.splits if_splits)
  qed (use inv t'(2) in \<open>auto simp: st'_def praos_inv_def queue_agrees_def\<close>)
  moreover have "prune_structure st bn = Some st'" using True t'(1) by (simp add: prune_structure_def st'_def)
  ultimately show ?thesis by (auto simp: st'_def)
qed (simp add: prune_structure_def inv)

lemma prune_bodies_inv: "praos_inv st \<Longrightarrow> praos_inv (prune_bodies st bn)"
proof (rule praos_inv_remove)
  assume inv: "praos_inv st"
  show "known_link st x n q" if "known_link (prune_bodies st bn) x n q" for x n q
    by (rule known_link_sub [OF that]) (auto simp: prune_bodies_def Let_def oget_oretain split: if_splits option.splits)
  show "tree_inv (ps_chain_tree (prune_bodies st bn))" "queue_agrees (prune_bodies st bn)"
    using inv by (auto simp: prune_bodies_def Let_def praos_inv_def selection_ready_def queue_agrees_def)
  show "ohas (ps_block_cache (prune_bodies st bn)) h" if "h \<in> ps_validated (prune_bodies st bn)" for h
    using that inv by (auto simp: prune_bodies_def Let_def praos_inv_def split: if_splits)
qed (auto simp: prune_bodies_def Let_def oget_oretain split: if_splits option.splits)

lemma prune_equivocation_same_core: "same_core st (prune_equivocation st slot)"
  by (simp add: same_core_def prune_equivocation_def Let_def)

lemma prune_bodies_queue [simp]: "ps_queued_validator_tip (prune_bodies st bn) = ps_queued_validator_tip st"
  by (simp add: prune_bodies_def Let_def)

lemma force_rollback_inv:
  assumes inv: "praos_inv st"
  shows "\<exists>st' fx. force_rollback st depth = Some (st', fx) \<and> praos_inv st'"
proof (cases "depth = 0 \<or> ps_adopted_tip_hash st = None")
  case True
  then show ?thesis using inv by (auto simp: force_rollback_def)
next
  case False
  then obtain tip where tip: "ps_adopted_tip_hash st = Some tip" "depth \<noteq> 0" by auto
  have ti: "tree_inv (ps_chain_tree st)" and pb: "parents_below (ps_chain_tree st)"
    using inv selection_ready_tree by (auto simp: praos_inv_def)
  obtain anc where anc: "ancestors (ps_chain_tree st) tip = Some anc" using ancestors_Some(1) [OF pb] by blast
  show ?thesis
  proof (cases "unat depth < length anc \<and> ct_point (ps_chain_tree st) (anc ! unat depth) \<noteq> None")
    case False
    then show ?thesis using tip anc inv by (auto simp: force_rollback_def split: option.splits)
  next
    case True
    define target where "target = anc ! unat depth"
    define bn where "bn = (case ct_block_number (ps_chain_tree st) target of Some n \<Rightarrow> n | None \<Rightarrow> 0)"
    define cache where "cache = oretain (\<lambda>_ cb. cb_block_no cb \<le> bn) (ps_block_cache st)"
    obtain t' where t': "remove_above (ps_chain_tree st) bn = Some t'" "tree_inv t'" using remove_above_inv [OF ti] by blast
    define st' where "st' = st\<lparr>ps_adopted_tip_hash := Some target, ps_last_validated_tip := Some target,
       ps_queued_validator_tip := Some target, ps_chain_tree := t', ps_block_cache := cache,
       ps_validated := {h \<in> ps_validated st. ohas cache h},
       ps_in_flight_validation := {h \<in> ps_in_flight_validation st. ohas cache h},
       ps_header_first_seen := oretain (\<lambda>h _. ohas cache h) (ps_header_first_seen st),
       ps_last_rollback_depth := Some depth\<rparr>"
    have "praos_inv st'"
    proof (rule praos_inv_remove [OF inv])
      show "known_link st x n q" if "known_link st' x n q" for x n q
        by (rule known_link_sub [OF that])
          (auto simp: st'_def remove_above_nodes [OF t'(1)] cache_def oget_oretain split: option.splits if_splits)
    qed (auto simp: st'_def t'(2) cache_def oget_oretain queue_agrees_def split: option.splits if_splits)
    moreover obtain p where "ct_point (ps_chain_tree st) target = Some p" using True by (auto simp: target_def)
    then have "force_rollback st depth = Some (st', [InjectRollback p])"
      using True tip anc t'(1)
      by (simp add: force_rollback_def st'_def cache_def bn_def target_def Let_def)
    ultimately show ?thesis by blast
  qed
qed

subsection \<open>The handlers\<close>

lemma on_tip_advanced_handled:
  assumes "praos_inv st"
  shows "handled st (on_tip_advanced st clock peer p tbn hbn hh hs hp issuer now)"
proof -
  let ?st1 = "note_header_for_equivocation st hs issuer hh"
  have "praos_inv ?st1" using assms praos_inv_same_core [OF note_header_same_core] by blast
  moreover have "ps_queued_validator_tip (record_peer_tip ?st1 clock peer p tbn hbn hh hs hp) = ps_queued_validator_tip st"
    using record_peer_tip_chains(5) note_header_same_core [of st hs issuer hh] by (simp add: same_core_def)
  ultimately show ?thesis unfolding on_tip_advanced_def using handled_evaluate record_peer_tip_inv by blast
qed

lemma on_peer_rolled_back_handled: "praos_inv st \<Longrightarrow> handled st (on_peer_rolled_back st peer p now)"
  unfolding on_peer_rolled_back_def
  by (rule handled_evaluate [OF record_peer_rollback_inv]) (simp_all add: record_peer_rollback_def)

lemma on_peer_disconnected_handled: "praos_inv st \<Longrightarrow> handled st (on_peer_disconnected st peer now)"
  unfolding on_peer_disconnected_def
  by (rule handled_evaluate [OF record_peer_disconnected_inv]) (simp_all add: record_peer_disconnected_def)

lemma on_block_fetch_failed_handled:
  assumes "praos_inv st"
  shows "handled st (on_block_fetch_failed st peer from to_point now)"
  unfolding on_block_fetch_failed_def
proof (rule handled_evaluate)
  let ?st1 = "st\<lparr>ps_in_flight := clear_failed_range from to_point (ps_in_flight st),
    ps_block_fetch_cooldown := oput peer (now + BLOCK_FETCH_COOLDOWN) (ps_block_fetch_cooldown st)\<rparr>"
  have "same_core st ?st1" by (simp add: same_core_def)
  then show "praos_inv ?st1" using assms praos_inv_same_core by blast
qed simp

lemma praos_apply_control_handled:
  assumes "praos_inv st"
  shows "handled st (praos_apply_control st control now)"
proof -
  let ?t = "ps_chain_tree st"
  have ti: "tree_inv ?t" and pb: "parents_below ?t" using assms selection_ready_tree by (auto simp: praos_inv_def)
  obtain bl where bl: "(case ct_block_number ?t (pk_rb_blacklist_tip control) of
      None \<Rightarrow> Some []
    | Some _ \<Rightarrow> Option.bind (ancestors ?t (pk_rb_blacklist_tip control)) (\<lambda>anc.
        Some (if unat (pk_rb_blacklist_offset control) < length anc then [anc ! unat (pk_rb_blacklist_offset control)] else [])))
      = Some bl"
    by (cases "ct_block_number ?t (pk_rb_blacklist_tip control)") (auto simp: ancestors_Some(1) [OF pb])
  obtain t' where t': "update_blacklist ?t bl = Some t'" "tree_inv t'" using update_blacklist_inv [OF ti] by blast
  have nodes: "ct_nodes t' = ct_nodes ?t"
    using t'(1) by (auto simp: update_blacklist_def recompute_best_tip_def bind_eq_Some_conv split: if_splits)
  define st1 where "st1 = st\<lparr>ps_control := control, ps_chain_tree := t'\<rparr>"
  have inv1: "praos_inv st1"
  proof (rule praos_inv_remove [OF assms])
    show "known_link st x n q" if "known_link st1 x n q" for x n q
      by (rule known_link_sub [OF that]) (simp_all add: st1_def nodes)
  qed (use assms t'(2) in \<open>auto simp: st1_def praos_inv_def queue_agrees_def\<close>)
  have q1: "ps_queued_validator_tip st1 = ps_queued_validator_tip st" by (simp add: st1_def)
  have "dr.meets (Option.bind (evaluate_and_fetch st1 now)
      (\<lambda>(s, xs). Option.bind (try_switch_to_best s) (\<lambda>(s2, ys). Some (s2, xs @ ys)))) st1"
    by (rule drives_seq) (use inv1 in \<open>simp_all add: praos_inv_ready evaluate_and_fetch_drives try_switch_drives\<close>)
  then have "handled st (Option.bind (evaluate_and_fetch st1 now)
      (\<lambda>(s, xs). Option.bind (try_switch_to_best s) (\<lambda>(s2, ys). Some (s2, xs @ ys))))"
    using handled_meets inv1 q1 by blast
  moreover have "handled st (Some (st1, []))" using inv1 q1 by (simp add: handled_def)
  ultimately show ?thesis
    using t'(1) bl by (simp add: praos_apply_control_def Let_def st1_def)
qed

text \<open>A block added by \<open>ct_insert\<close> and the cache entry that goes with it.\<close>

lemma insert_block_inv:
  assumes inv: "praos_inv st" and fits: "header_fits st h p bn prev"
    and put: "\<And>x cb. oget m' x = Some cb \<Longrightarrow> oget (ps_block_cache st) x = Some cb \<or>
         x = h \<and> cb_point cb = p \<and> cb_block_no cb = bn \<and> cb_prev_hash cb = prev"
      "\<And>x. ohas (ps_block_cache st) x \<Longrightarrow> ohas m' x"
  shows "\<exists>b t'. ct_insert (ps_chain_tree st) h p bn slot prev txs eb cert = Some (b, t') \<and>
    praos_inv (st\<lparr>ps_chain_tree := t', ps_block_cache := m'\<rparr>)"
proof -
  have "tree_inv (ps_chain_tree st)" using inv by (simp add: praos_inv_def selection_ready_def)
  from ct_insert_inv [OF this header_fits_block [OF fits]] obtain b t' where
    t': "ct_insert (ps_chain_tree st) h p bn slot prev txs eb cert = Some (b, t')" "tree_inv t'" by blast
  from praos_inv_add_block [OF inv fits t'(2) ct_insert_links [OF t'(1)] put] t'(1) show ?thesis by blast
qed

lemma register_self_produced_handled:
  assumes inv: "praos_inv st"
    and fits: "\<And>h info. get_hash p = Some h \<Longrightarrow> parsed = Some info \<Longrightarrow> header_fits st h p (ph_block_number info) (ph_prev_hash info)"
  shows "handled st (register_self_produced st p header body parsed txs)"
proof -
  define st1 where "st1 = st\<lparr>ps_self_produced := insert p (ps_self_produced st)\<rparr>"
  have c1: "same_core st st1" by (simp add: same_core_def st1_def)
  have inv1: "praos_inv st1" using inv praos_inv_same_core [OF c1] by blast
  have q1: "ps_queued_validator_tip st1 = ps_queued_validator_tip st" by (simp add: st1_def)
  show ?thesis
  proof (cases "\<exists>slot h info. p = Specific slot h \<and> parsed = Some info")
    case False
    then have "register_self_produced st p header body parsed txs =
        (if p = Origin then Some (st1, []) else submit_for_validation st1 p body None)"
      by (auto simp: register_self_produced_def st1_def Let_def split: point.splits option.splits)
    then show ?thesis
      using handled_meets [OF submit_drives [OF praos_inv_ready [OF inv1]] inv1 q1] inv1 q1
      by (simp add: handled_def)
  next
    case True
    then obtain slot h info where p: "p = Specific slot h" and info: "parsed = Some info" by blast
    define st2 where "st2 = note_header_for_equivocation st1 (ph_slot info) (ph_issuer info) h"
    have c2: "same_core st st2" using same_core_trans [OF c1 note_header_same_core] by (simp add: st2_def)
    have inv2: "praos_inv st2" using inv praos_inv_same_core [OF c2] by blast
    have fits2: "header_fits st2 h p (ph_block_number info) (ph_prev_hash info)"
      using fits p info header_fits_same_core [OF c2] by simp
    define m where "m = oor_insert h \<lparr>cb_point = p, cb_block_no = ph_block_number info,
      cb_prev_hash = ph_prev_hash info, cb_header = header, cb_body = body,
      cb_announced_eb_hash = ph_announced_eb_hash info, cb_certified_eb = ph_certified_eb info\<rparr> (ps_block_cache st2)"
    obtain b t where t: "ct_insert (ps_chain_tree st2) h p (ph_block_number info) (ph_slot info)
        (ph_prev_hash info) txs (ph_announced_eb_hash info) (ph_certified_eb info) = Some (b, t)"
      "praos_inv (st2\<lparr>ps_chain_tree := t, ps_block_cache := m\<rparr>)"
      using insert_block_inv [OF inv2 fits2, of m]
      by (force simp: m_def oget_oor_insert ohas_iff_Some split: if_splits option.splits)
    define st3 where "st3 = st2\<lparr>ps_chain_tree := t, ps_block_cache := m\<rparr>"
    have "dr.meets (Option.bind (submit_for_validation st3 p body (ph_prev_hash info))
        (\<lambda>(s, xs). Option.bind (try_switch_and_execute s h) (\<lambda>(s2, ys). Some (s2, xs @ ys)))) st3"
      by (rule drives_seq) (use t(2) in \<open>simp_all add: st3_def praos_inv_ready submit_drives try_switch_drives\<close>)
    then have "handled st (Option.bind (submit_for_validation st3 p body (ph_prev_hash info))
        (\<lambda>(s, xs). Option.bind (try_switch_and_execute s h) (\<lambda>(s2, ys). Some (s2, xs @ ys))))"
      using handled_meets t(2) c2 by (simp add: st3_def same_core_def)
    then show ?thesis
      using t(1) unfolding p info st3_def m_def st2_def st1_def by (simp add: register_self_produced_def Let_def)
  qed
qed

lemma parsed_or_numbered_insert:
  assumes inv: "praos_inv st" and fits: "header_fits st h p bn prev" and new: "\<not> ohas (ps_block_cache st) h"
    and cb: "cb_point cb = p" "cb_block_no cb = bn" "cb_prev_hash cb = prev"
  shows "\<exists>t'. (if c then map_option snd (ct_insert (ps_chain_tree st) h p bn slot prev txs eb cert)
                 else Some (ps_chain_tree st)) = Some t' \<and>
    praos_inv (st\<lparr>ps_chain_tree := t', ps_block_cache := oput h cb (ps_block_cache st)\<rparr>)"
proof -
  have put: "oget (ps_block_cache st) x = Some y \<or> x = h \<and> cb_point y = p \<and> cb_block_no y = bn \<and> cb_prev_hash y = prev"
    if "oget (oput h cb (ps_block_cache st)) x = Some y" for x y
    using that cb by (auto simp: oget_oput split: if_splits)
  have keep: "ohas (ps_block_cache st) x \<Longrightarrow> ohas (oput h cb (ps_block_cache st)) x" for x by simp
  have "tree_inv (ps_chain_tree st)" using inv by (simp add: praos_inv_def selection_ready_def)
  then have "praos_inv (st\<lparr>ps_chain_tree := ps_chain_tree st, ps_block_cache := oput h cb (ps_block_cache st)\<rparr>)"
    by (rule praos_inv_add_block [OF inv fits]) (use put keep in auto)
  moreover obtain b t' where "ct_insert (ps_chain_tree st) h p bn slot prev txs eb cert = Some (b, t')"
    "praos_inv (st\<lparr>ps_chain_tree := t', ps_block_cache := oput h cb (ps_block_cache st)\<rparr>)"
    using insert_block_inv [OF inv fits put keep] by blast
  ultimately show ?thesis by (cases c) auto
qed

definition received_fits :: "praos_state \<Rightarrow> point \<Rightarrow> parsed_header_info option \<Rightarrow> bool" where
  "received_fits st p parsed \<longleftrightarrow>
     (\<forall>h. get_hash p = Some h \<longrightarrow>
        (let header = effective_header st p h parsed in header_fits st h p (ph_block_number header) (ph_prev_hash header)))"

lemma handled_append:
  assumes "neutral xs" and "handled st (Some (st', fx))"
  shows "handled st (Some (st', xs @ fx))" "handled st (Some (st', fx @ xs))"
  using assms neutral_run [OF assms(1)] by (auto simp: handled_def commands_ok_append)

lemma received_shape:
  assumes "r = Some (s, fx)" and "neutral as" and "neutral bs"
  shows "\<exists>xs lx. neutral xs \<and> Option.bind r (\<lambda>(s, fx). Some (s, as @ bs @ fx, l)) = Some (s, xs @ fx, lx)"
  using assms neutral_append [OF assms(2,3)] by (intro exI [of _ "as @ bs"]) auto

lemma on_block_received_handled:
  assumes inv: "praos_inv st" and fits: "received_fits st p parsed"
  shows "\<exists>st' fx lx. on_block_received st p fallback body parsed pb = Some (st', fx, lx) \<and> handled st (Some (st', fx))"
proof (cases "p = Origin \<or> (\<exists>h. get_hash p = Some h \<and>
    (ohas (ps_block_cache st) h \<or> h \<in> ps_validated st \<or> h \<in> ps_in_flight_validation st))")
  case True
  then have "on_block_received st p fallback body parsed pb = Some (st, [], [])"
    by (cases p) (auto simp: on_block_received_def)
  then show ?thesis using inv by (simp add: handled_def)
next
  case False
  then obtain slot h where p: "p = Specific slot h" and new: "\<not> ohas (ps_block_cache st) h"
    "h \<notin> ps_validated st" "h \<notin> ps_in_flight_validation st" by (cases p) auto
  define header where "header = effective_header st p h parsed"
  define cert where "cert = (ph_certified_eb header \<or> pb_eb_certificate pb \<noteq> None \<or> pb_eb_certificate_pending pb)"
  define st1 where "st1 = note_header_for_equivocation st (ph_slot header) (ph_issuer header) h"
  have c1: "same_core st st1" unfolding st1_def by (rule note_header_same_core)
  have inv1: "praos_inv st1" using inv praos_inv_same_core [OF c1] by blast
  have fits1: "header_fits st1 h p (ph_block_number header) (ph_prev_hash header)"
    using fits p header_fits_same_core [OF c1] by (simp add: received_fits_def header_def Let_def)
  have new1: "\<not> ohas (ps_block_cache st1) h" using new(1) c1 by (simp add: same_core_def)
  define cb where "cb = \<lparr>cb_point = p, cb_block_no = ph_block_number header, cb_prev_hash = ph_prev_hash header,
    cb_header = (case oget (ps_authentic_headers st1) h of Some (_, bytes) \<Rightarrow> bytes | None \<Rightarrow> fallback), cb_body = body,
    cb_announced_eb_hash = ph_announced_eb_hash header, cb_certified_eb = cert\<rparr>"
  obtain tree where tree: "(if parsed \<noteq> None \<or> ph_block_number header > 0
       then map_option snd (ct_insert (ps_chain_tree st1) h p (ph_block_number header) (ph_slot header)
              (ph_prev_hash header) (pb_tx_count pb) (ph_announced_eb_hash header) cert)
       else Some (ps_chain_tree st1)) = Some tree"
    "praos_inv (st1\<lparr>ps_chain_tree := tree, ps_block_cache := oput h cb (ps_block_cache st1)\<rparr>)"
    using parsed_or_numbered_insert [OF inv1 fits1 new1, of cb "parsed \<noteq> None \<or> ph_block_number header > 0"
        "ph_slot header" "pb_tx_count pb" "ph_announced_eb_hash header" cert] by (auto simp: cb_def)
  define st2 where "st2 = st1\<lparr>ps_chain_tree := tree, ps_authentic_headers := odel h (ps_authentic_headers st1),
    ps_block_cache := oput h cb (ps_block_cache st1)\<rparr>"
  have "same_core (st1\<lparr>ps_chain_tree := tree, ps_block_cache := oput h cb (ps_block_cache st1)\<rparr>) st2"
    by (simp add: same_core_def st2_def)
  then have inv2: "praos_inv st2" using tree(2) praos_inv_same_core by blast
  define st3 where "st3 = (case pb_eb_certificate pb of
      Some c \<Rightarrow> note_cert_for_equivocation st2 (lc_eb_slot c) (lc_eb_hash c) | None \<Rightarrow> st2)"
  have c3: "same_core st2 st3" unfolding st3_def
    by (cases "pb_eb_certificate pb") (simp_all add: note_cert_same_core, simp add: same_core_def)
  have inv3: "praos_inv st3" using inv2 praos_inv_same_core [OF c3] by blast
  have q3: "ps_queued_validator_tip st3 = ps_queued_validator_tip st" using c1 c3 by (simp add: same_core_def st2_def)
  obtain st4 fx3 where sw: "try_switch_and_execute st3 h = Some (st4, fx3)" "handled st (Some (st4, fx3))"
  proof -
    have m: "dr.meets (try_switch_and_execute st3 h) st3" by (rule try_switch_drives(1) [OF praos_inv_ready [OF inv3]])
    then obtain s xs where "try_switch_and_execute st3 h = Some (s, xs)" by (auto simp: dr.meets_def)
    then show ?thesis using that handled_meets [OF m inv3 q3] by simp
  qed
  have "\<exists>xs lx. neutral xs \<and> on_block_received st p fallback body parsed pb = Some (st4, xs @ fx3, lx)"
  proof -
    have held: "\<not> (ohas (ps_block_cache st) h \<or> h \<in> ps_validated st \<or> h \<in> ps_in_flight_validation st)"
      using new by blast
    note fold1 = header_def [unfolded p, symmetric] and fold2 = cert_def [symmetric] st1_def [symmetric]
      and fold3 = cb_def [unfolded p, symmetric] and fold4 = st2_def [symmetric]
    show ?thesis
      unfolding on_block_received_def p point.case Let_def if_not_P [OF held] fold1
      unfolding fold2 tree(1) [unfolded p] bind.bind_lunit
      unfolding fold3
      unfolding fold4
      using sw(1)
      by (cases "pb_eb_certificate pb")
        (auto simp: st3_def intro!: received_shape neutral_append neutral_push_eb_fetch neutral_Nil split: option.splits)
  qed
  then show ?thesis using handled_append(1) sw(2) by blast
qed

lemma prune_after_apply:
  assumes "praos_inv st"
  shows "\<exists>st'. (case tip_block_number st of
        None \<Rightarrow> Some st
      | Some bn \<Rightarrow> Option.bind (prune_structure st bn) (\<lambda>s. Some (prune_bodies s bn))) = Some st' \<and>
    praos_inv st' \<and> ps_queued_validator_tip st' = ps_queued_validator_tip st"
proof (cases "tip_block_number st")
  case None
  then show ?thesis using assms by simp
next
  case (Some bn)
  obtain s where "prune_structure st bn = Some s" "praos_inv s" "ps_queued_validator_tip s = ps_queued_validator_tip st"
    using prune_structure_inv [OF assms] by blast
  then show ?thesis using Some prune_bodies_inv by simp
qed

lemma on_block_applied_handled:
  assumes inv: "praos_inv st"
  shows "handled st (on_block_applied st p now)"
proof (cases p)
  case Origin
  then show ?thesis using inv by (simp add: on_block_applied_def handled_def)
next
  case (Specific slot h)
  define st1 where "st1 = st\<lparr>ps_in_flight := odel p (ps_in_flight st),
    ps_in_flight_validation := ps_in_flight_validation st - {h}\<rparr>"
  have inv1: "praos_inv st1"
    using inv by (rule praos_inv_chains) (use inv in \<open>simp_all add: st1_def praos_inv_def chains_ok_def\<close>)
  show ?thesis
  proof (cases "oget (ps_block_cache st1) h")
    case None
    then have "on_block_applied st p now = Some (st1, [])" by (simp add: on_block_applied_def Specific st1_def)
    then show ?thesis using inv1 by (simp add: handled_def st1_def)
  next
    case (Some cached)
    define st2 where "st2 = st1\<lparr>ps_validated := insert h (ps_validated st1), ps_last_validated_tip := Some h,
      ps_last_validated_at := Some now, ps_better_tip_since := None\<rparr>"
    have "selection_ready st2 = selection_ready st1" by (rule selection_ready_cong) (simp_all add: st2_def)
    then have inv2: "praos_inv st2"
      using inv1 Some by (auto simp: praos_inv_def st2_def queue_agrees_def chains_ok_def ohas_iff_Some)
    have pb: "parents_below (ps_chain_tree st2)" by (rule selection_ready_tree(2) [OF praos_inv_ready [OF inv2]])
    obtain st3 where st3: "(case tip_block_number st2 of
        None \<Rightarrow> Some st2
      | Some bn \<Rightarrow> Option.bind (prune_structure st2 bn) (\<lambda>s. Some (prune_bodies s bn))) = Some st3"
      "praos_inv st3" "ps_queued_validator_tip st3 = ps_queued_validator_tip st2" using prune_after_apply [OF inv2] by blast
    define st4 where "st4 = prune_equivocation st3 slot"
    have c4: "same_core st3 st4" unfolding st4_def by (rule prune_equivocation_same_core)
    have inv4: "praos_inv st4" using st3(2) praos_inv_same_core [OF c4] by blast
    have q4: "ps_queued_validator_tip st4 = ps_queued_validator_tip st"
      using c4 st3(3) by (simp add: same_core_def st2_def st1_def)
    define r where "r = Option.bind (try_switch_to_best st4)
      (\<lambda>(s, xs). Option.bind (evaluate_and_fetch s now) (\<lambda>(s2, ys). Some (s2, xs @ ys)))"
    have "dr.meets r st4" unfolding r_def
      by (rule drives_seq [OF try_switch_drives(2) praos_inv_ready [OF inv4]])
        (use inv4 in \<open>simp_all add: praos_inv_ready evaluate_and_fetch_drives\<close>)
    then obtain st5 fx where r: "r = Some (st5, fx)" "handled st r"
      using handled_meets [OF _ inv4 q4] by (auto simp: dr.meets_def)
    define fx0 where "fx0 = (if tainted (ps_chain_tree st2) h then []
      else [InjectBlock (cb_point cached) (cb_header cached) (cb_body cached) (cb_block_no cached)])"
    obtain s xs ys where sx: "try_switch_to_best st4 = Some (s, xs)" "evaluate_and_fetch s now = Some (st5, ys)" "fx = xs @ ys"
      using r(1) by (auto simp: r_def bind_eq_Some_conv)
    note fold1 = st1_def [unfolded Specific, symmetric] and fold2 = Some option.case st2_def [symmetric]
    have "on_block_applied st p now = Some (st5, fx0 @ fx)"
      unfolding on_block_applied_def Specific point.case Let_def fold1
      unfolding fold2
      unfolding is_blacklisted_tainted [OF pb] bind.bind_lunit st3(1) fx0_def [symmetric]
      by (simp add: st4_def [symmetric] sx)
    moreover have "neutral fx0" by (simp add: fx0_def neutral_def)
    ultimately show ?thesis using handled_append(1) r by simp
  qed
qed

lemma bridge_gap_neutral:
  assumes "bridge_gap st gap now = (st', fx)"
  shows "same_core st st'" "neutral fx"
  using assms by (auto simp: bridge_gap_def Let_def same_core_def neutral_def split: option.splits if_splits)

lemma stuck_warning_same_core: "same_core st (maybe_emit_stuck_warning st now)"
  by (auto simp: maybe_emit_stuck_warning_def same_core_def Let_def split: option.splits)

lemma handled_same_core:
  assumes "handled st (Some (s, fx))" and "same_core s s'"
  shows "handled st (Some (s', fx))"
  using assms praos_inv_same_core [OF assms(2)] by (simp add: handled_def same_core_def)

lemma retry_select_chain_handled:
  assumes inv: "praos_inv st"
  shows "handled st (retry_select_chain st now)"
proof -
  define st1 where "st1 = evict_stale_in_flight st now"
  define evicted where "evicted = olen (ps_in_flight st) - olen (ps_in_flight st1)"
  have c1: "same_core st st1" by (simp add: same_core_def st1_def evict_stale_in_flight_def)
  have inv1: "praos_inv st1" using inv praos_inv_same_core [OF c1] by blast
  have q1: "ps_queued_validator_tip st1 = ps_queued_validator_tip st" using c1 by (simp add: same_core_def)
  define step2 where "step2 = (\<lambda>s. if evicted > 0 \<or> olen (ps_in_flight s) \<noteq> 0 then evaluate_and_fetch s now else Some (s, []))"
  have "dr.meets (step2 s) s" if "selection_ready s" for s
    using evaluate_and_fetch_drives [OF that] dr.meets_return by (simp add: step2_def)
  then have m: "dr.meets (Option.bind (try_switch_to_best st1)
      (\<lambda>(s, xs). Option.bind (step2 s) (\<lambda>(s2, ys). Some (s2, xs @ ys)))) st1"
    using drives_seq [of "try_switch_to_best st1" st1 step2] try_switch_drives(2) praos_inv_ready [OF inv1] by blast
  then obtain st2 fx1 st3 fx2 where s: "try_switch_to_best st1 = Some (st2, fx1)" "step2 st2 = Some (st3, fx2)"
    by (auto simp: dr.meets_def bind_eq_Some_conv)
  have h3: "handled st (Some (st3, fx1 @ fx2))" using handled_meets [OF m inv1 q1] by (simp add: s)
  then have inv3: "praos_inv st3" by (simp add: handled_def)
  obtain r where r: "(case best_tip_hash (ps_chain_tree st3) of
        None \<Rightarrow> Some (st3, [])
      | Some best \<Rightarrow> Option.bind (try_switch_to st3 best) (\<lambda>r.
          Some (case r of Inl (Some gap_point) \<Rightarrow> bridge_gap st3 gap_point now | _ \<Rightarrow> (st3, [])))) = Some r"
    "r = (st3, []) \<or> (\<exists>gap. r = bridge_gap st3 gap now)"
  proof (cases "best_tip_hash (ps_chain_tree st3)")
    case None
    then show ?thesis using that by simp
  next
    case (Some best)
    obtain x where "try_switch_to st3 best = Some x" using try_switch_to_ok [OF praos_inv_ready [OF inv3]] by blast
    then show ?thesis using that Some by (cases "\<exists>gap. x = Inl (Some gap)", auto split: option.splits sum.splits, blast)
  qed
  obtain st4 fx3 where r4: "r = (st4, fx3)" by (cases r)
  have 4: "same_core st3 st4" "neutral fx3"
    using r(2) r4 bridge_gap_neutral [of st3 _ now st4 fx3] by (auto simp: neutral_Nil same_core_def)
  have "handled st (Some (maybe_emit_stuck_warning st4 now, (fx1 @ fx2) @ fx3))"
    using handled_append(2) [OF 4(2)] handled_same_core [OF h3 same_core_trans [OF 4(1) stuck_warning_same_core]] by blast
  moreover have "retry_select_chain st now = Some (maybe_emit_stuck_warning st4 now, (fx1 @ fx2) @ fx3)"
    unfolding retry_select_chain_def Let_def st1_def [symmetric] evicted_def [symmetric]
    using s r(1) by (simp add: step2_def r4)
  ultimately show ?thesis by simp
qed

subsection \<open>Outcomes and notes that emit no command\<close>

lemma praos_inv_queue:
  assumes "praos_inv st" "ps_chain_tree st' = ps_chain_tree st" "ps_block_cache st' = ps_block_cache st"
    "ps_validated st' \<subseteq> ps_validated st" "ps_peer_chains st' = ps_peer_chains st" "queue_agrees st'"
  shows "praos_inv st'"
  by (rule praos_inv_remove [OF assms(1)])
    (use assms in \<open>auto simp: praos_inv_def selection_ready_def known_link_def\<close>)

lemma on_block_apply_failed_inv: "praos_inv st \<Longrightarrow> praos_inv (on_block_apply_failed st p)"
proof (cases p)
  case Origin
  then show "praos_inv st \<Longrightarrow> ?thesis" by (simp add: on_block_apply_failed_def)
next
  case (Specific slot h)
  then show "praos_inv st \<Longrightarrow> ?thesis"
    by (elim praos_inv_queue) (auto simp: on_block_apply_failed_def queue_agrees_def)
qed

lemma on_block_rolled_back_same_core: "same_core st (fst (on_block_rolled_back st p))"
  by (cases p) (simp_all add: on_block_rolled_back_def same_core_def)

lemma note_authentic_header_inv:
  assumes inv: "praos_inv st"
  shows "praos_inv (note_authentic_header st h bn bytes)"
proof (cases "ohas (ps_block_cache st) h")
  case True
  let ?m = "oupdate h (\<lambda>cb. cb\<lparr>cb_header := bytes\<rparr>) (ps_block_cache st)"
  define st' where "st' = st\<lparr>ps_block_cache := ?m\<rparr>"
  have entry: "\<exists>cb0. oget (ps_block_cache st) x = Some cb0 \<and> cb_point cb = cb_point cb0 \<and>
      cb_block_no cb = cb_block_no cb0 \<and> cb_prev_hash cb = cb_prev_hash cb0" if "oget ?m x = Some cb" for x cb
    using that by (auto simp: oget_oupdate split: if_splits)
  have link: "known_link st x n q" if "known_link st' x n q" for x n q
    using that [unfolded known_link_def] entry by (fastforce simp: known_link_def st'_def)
  have "links_below st" "tree_inv (ps_chain_tree st)" using inv by (simp_all add: praos_inv_def selection_ready_def)
  then have "selection_ready st'" unfolding selection_ready_def links_below_def using link by (auto simp: st'_def) blast
  moreover have "get_hash (cb_point cb) = Some x" if "oget ?m x = Some cb" for x cb
    using entry [OF that] inv by (auto simp: praos_inv_def)
  moreover have "ohas ?m x = ohas (ps_block_cache st) x" for x by simp
  ultimately have "praos_inv st'"
    using inv by (simp add: praos_inv_def st'_def queue_agrees_def chains_ok_def del: ohas_oupdate)
  then show ?thesis using True by (simp add: note_authentic_header_def st'_def)
next
  case False
  then have "same_core st (note_authentic_header st h bn bytes)" by (simp add: note_authentic_header_def same_core_def)
  then show ?thesis using inv praos_inv_same_core by blast
qed

lemma record_eb_tx_count_inv: "praos_inv st \<Longrightarrow> praos_inv (ps_record_announced_eb_tx_count st eb n)"
proof -
  assume inv: "praos_inv st"
  define st' where "st' = ps_record_announced_eb_tx_count st eb n"
  have link: "known_link st x m q" if "known_link st' x m q" for x m q
    using that by (auto simp: known_link_def st'_def ps_record_announced_eb_tx_count_def
        record_announced_eb_tx_count_def oget_omap_values split: if_splits)
  have "links_below st" "tree_inv (ps_chain_tree st)" using inv by (simp_all add: praos_inv_def selection_ready_def)
  then have "selection_ready st'" unfolding selection_ready_def links_below_def using link
    by (auto simp: st'_def ps_record_announced_eb_tx_count_def record_announced_eb_tx_count_inv) blast
  then show "praos_inv (ps_record_announced_eb_tx_count st eb n)"
    using inv by (simp add: st'_def praos_inv_def ps_record_announced_eb_tx_count_def queue_agrees_def chains_ok_def)
qed

lemma record_peer_intersection_inv:
  assumes inv: "praos_inv st"
    and fits: "\<And>slot h. p = Specific slot h \<Longrightarrow> initial \<Longrightarrow> header_fits st h p (case bno of Some n \<Rightarrow> n | None \<Rightarrow> 0) None"
  shows "\<exists>st'. record_peer_intersection st peer p initial bno = Some st' \<and> praos_inv st'"
proof -
  define st1 where "st1 = st\<lparr>ps_peer_chains := oput peer (set_anchor (case oget (ps_peer_chains st) peer of
      Some c \<Rightarrow> c | None \<Rightarrow> peer_chain_new (peer_chain_cap st)) p) (ps_peer_chains st)\<rparr>"
  have "chains_ok st1"
    by (rule chains_ok_step [of st st1 peer _ "peer_chain_cap st", OF _ _ pc_step.pcs_anchor])
      (use inv in \<open>simp_all add: praos_inv_def st1_def\<close>)
  then have inv1: "praos_inv st1" by (rule praos_inv_chains [OF inv]) (simp_all add: st1_def)
  show ?thesis
  proof (cases "\<exists>slot h. p = Specific slot h \<and> initial")
    case False
    then have "record_peer_intersection st peer p initial bno = Some st1"
      by (auto simp: record_peer_intersection_def st1_def Let_def split: point.splits)
    then show ?thesis using inv1 by simp
  next
    case True
    then obtain slot h where p: "p = Specific slot h" and initial by blast
    define bn where "bn = (case bno of Some n \<Rightarrow> n | None \<Rightarrow> 0)"
    have fits1: "header_fits st1 h p bn None"
      using fits [OF p \<open>initial\<close>] by (simp add: header_fits_def known_link_def st1_def bn_def)
    have "tree_inv (ps_chain_tree st1)" using inv1 by (simp add: praos_inv_def selection_ready_def)
    from insert_chain_start_inv [OF this header_fits_block [OF fits1]] obtain b t where
      t: "insert_chain_start (ps_chain_tree st1) h p slot bn = Some (b, t)" "tree_inv t" by blast
    define st2 where "st2 = st1\<lparr>ps_chain_tree := t\<rparr>"
    have "praos_inv (st1\<lparr>ps_chain_tree := t, ps_block_cache := ps_block_cache st1\<rparr>)"
      by (rule praos_inv_add_block [OF inv1 fits1 t(2) insert_chain_start_links [OF t(1)]]) auto
    then have inv2: "praos_inv st2" by (simp add: st2_def)
    have pb: "parents_below t" using t(2) by (simp add: tree_inv_def)
    have "praos_inv (st2\<lparr>ps_adopted_tip_hash := Some h\<rparr>)" if "ps_adopted_tip_hash st2 = None"
      by (rule praos_inv_queue [OF inv2]) (use that inv2 in \<open>auto simp: praos_inv_def queue_agrees_def\<close>)
    then show ?thesis
      using inv2 t(1) is_blacklisted_tainted [OF pb] \<open>initial\<close>
      unfolding record_peer_intersection_def Let_def st1_def [symmetric] bn_def [symmetric]
      by (auto simp: p st2_def)
  qed
qed

subsection \<open>Runs\<close>

inductive praos_step :: "praos_state \<Rightarrow> praos_state \<Rightarrow> praos_effect list \<Rightarrow> bool" where
  tip_advanced:
    "on_tip_advanced st clock peer tip_pt tip_bn bn h slot prev issuer now = Some (st', fx) \<Longrightarrow> praos_step st st' fx"
| block_received:
    "received_fits st p parsed \<Longrightarrow> on_block_received st p header body parsed pb = Some (st', fx, lx) \<Longrightarrow> praos_step st st' fx"
| self_produced:
    "(\<And>h info. get_hash p = Some h \<Longrightarrow> parsed = Some info \<Longrightarrow>
        header_fits st h p (ph_block_number info) (ph_prev_hash info)) \<Longrightarrow>
     register_self_produced st p header body parsed txs = Some (st', fx) \<Longrightarrow> praos_step st st' fx"
| block_fetch_failed: "on_block_fetch_failed st peer from to_point now = Some (st', fx) \<Longrightarrow> praos_step st st' fx"
| peer_rolled_back: "on_peer_rolled_back st peer p now = Some (st', fx) \<Longrightarrow> praos_step st st' fx"
| peer_disconnected: "on_peer_disconnected st peer now = Some (st', fx) \<Longrightarrow> praos_step st st' fx"
| control_applied: "praos_apply_control st control now = Some (st', fx) \<Longrightarrow> praos_step st st' fx"
| block_applied: "on_block_applied st p now = Some (st', fx) \<Longrightarrow> praos_step st st' fx"
| block_apply_failed: "praos_step st (on_block_apply_failed st p) []"
| block_rolled_back: "on_block_rolled_back st p = (st', fx) \<Longrightarrow> praos_step st st' fx"
| rollback_forced: "force_rollback st depth = Some (st', fx) \<Longrightarrow> praos_step st st' fx"
| retried: "retry_select_chain st now = Some (st', fx) \<Longrightarrow> praos_step st st' fx"
| intersected:
    "(\<And>slot h. p = Specific slot h \<Longrightarrow> initial \<Longrightarrow> header_fits st h p (case bno of Some n \<Rightarrow> n | None \<Rightarrow> 0) None) \<Longrightarrow>
     record_peer_intersection st peer p initial bno = Some st' \<Longrightarrow> praos_step st st' []"
| header_first_seen: "praos_step st (note_header_first_seen st h slot) []"
| authentic_header: "praos_step st (note_authentic_header st h bn bytes) []"
| eb_tx_count: "praos_step st (ps_record_announced_eb_tx_count st eb n) []"
| rollback_depth_taken: "praos_step st (snd (take_last_rollback_depth st)) []"
| cert_equivocations_taken: "praos_step st (snd (take_cert_equivocations st)) []"
| policy_set: "praos_step st (set_fetch_policy st policy) []"
| retention_set: "praos_step st (set_block_body_retention_blocks st blocks) []"
| rtt_set: "praos_step st (set_rtt st rtt) []"

inductive praos_reachable :: "praos_state \<Rightarrow> bool" where
  reach_new: "praos_reachable (praos_new k)"
| reach_step: "praos_reachable st \<Longrightarrow> praos_step st st' fx \<Longrightarrow> praos_reachable st'"

lemma praos_inv_new: "praos_inv (praos_new k)"
  by (simp add: praos_inv_def praos_new_def praos_with_fetch_def selection_ready_def links_below_def known_link_def
      tree_inv_new queue_agrees_def chains_ok_def) (simp add: chain_tree_new_def)

lemma handled_SomeD: "handled st (Some (st', fx)) \<Longrightarrow> praos_inv st'"
  by (simp add: handled_def)

lemma handled_stepD: "handled st r \<Longrightarrow> r = Some (st', fx) \<Longrightarrow> praos_inv st'"
  by (simp add: handled_def)

lemmas handler_invs =
  on_tip_advanced_handled [THEN handled_stepD] on_block_fetch_failed_handled [THEN handled_stepD]
  on_peer_rolled_back_handled [THEN handled_stepD] on_peer_disconnected_handled [THEN handled_stepD]
  praos_apply_control_handled [THEN handled_stepD] on_block_applied_handled [THEN handled_stepD]
  retry_select_chain_handled [THEN handled_stepD]

lemma quiet_same_core:
  "same_core st (note_header_first_seen st h slot)" "same_core st (snd (take_last_rollback_depth st))"
  "same_core st (snd (take_cert_equivocations st))" "same_core st (set_fetch_policy st policy)"
  "same_core st (set_block_body_retention_blocks st blocks)" "same_core st (set_rtt st rtt)"
  by (simp_all add: same_core_def note_header_first_seen_def take_last_rollback_depth_def
      take_cert_equivocations_def set_fetch_policy_def set_block_body_retention_blocks_def set_rtt_def)

lemmas quiet_invs = quiet_same_core [THEN praos_inv_same_core, THEN iffD2]

lemma praos_step_inv: "praos_step st st' fx \<Longrightarrow> praos_inv st \<Longrightarrow> praos_inv st'"
proof (induction rule: praos_step.induct)
  case (block_received st p parsed header body pb st' fx lx)
  then show ?case using on_block_received_handled [of st p parsed header body pb] handled_SomeD by fastforce
next
  case (self_produced p parsed st header body txs st' fx)
  then show ?case using register_self_produced_handled [of st p parsed header body txs] handled_SomeD by metis
next
  case (rollback_forced st depth st' fx)
  then show ?case using force_rollback_inv [of st depth] by auto
next
  case (intersected p initial st bno peer st')
  then show ?case using record_peer_intersection_inv [of st p initial bno peer] by fastforce
next
  case (block_rolled_back st p st' fx)
  then show ?case using praos_inv_same_core [OF on_block_rolled_back_same_core, of st p] by simp
next
  case (block_apply_failed st p)
  then show ?case by (rule on_block_apply_failed_inv)
next
  case (authentic_header st h bn bytes)
  then show ?case by (rule note_authentic_header_inv)
next
  case (eb_tx_count st eb n)
  then show ?case by (rule record_eb_tx_count_inv)
qed ((erule (1) handler_invs | erule quiet_invs)+)

lemma praos_reachable_inv: "praos_reachable st \<Longrightarrow> praos_inv st"
  by (induction rule: praos_reachable.induct) (auto intro: praos_inv_new praos_step_inv)

end
