(* ===== verification/Praos_Properties.thy ===== *)
theory Praos_Properties
  imports Praos_Invariant
begin

text \<open>
  The properties of the Praos state machine: what selection decides on every reachable state, what the handlers
  promise to the validator, and the fetch, rollback and equivocation rules of \<open>praos.rs\<close>.
\<close>

subsection \<open>Selection on reachable states\<close>



text \<open>On every reachable state the local switch to a stored tip returns; when it proposes a switch, the
  target is untainted and beats the adopted tip, and the replay is a non-empty branch of stored blocks, none being
  validated or tainted, each the parent of the next, that starts right above a block of the adopted chain (or at a root
  when nothing is adopted).\<close>

theorem local_switch_sound:
  assumes "praos_reachable st"
  shows "\<exists>r. try_switch_to st tip = Some r \<and>
    (\<forall>a replay. r = Inr (a, replay) \<longrightarrow> stored_branch st a replay \<and> \<not> tainted (ps_chain_tree st) tip \<and>
       (\<exists>bn. ct_block_number (ps_chain_tree st) tip = Some bn \<and>
          is_better_tip bn tip (case tip_block_number st of Some n \<Rightarrow> n | None \<Rightarrow> 0)
            (case ps_adopted_tip_hash st of Some h \<Rightarrow> h | None \<Rightarrow> 0)))"
  using try_switch_to_ok praos_inv_ready praos_reachable_inv [OF assms] by blast

lemma local_switch_sound_witness: "\<exists>r. try_switch_to (praos_new 10) 7 = Some r"
  using local_switch_sound [OF praos_reachable.reach_new, of 10 7] by blast

subsection \<open>The handlers and the validator\<close>



text \<open>A block that arrives, or that the node produced, with a number above its known parent's and below
  its known children's is taken in by a handler that returns, keeps the invariant and drives the validator in order;
  a block that is cached, validated or being validated already changes nothing.\<close>

theorem new_blocks_drive_validator:
  assumes "praos_reachable st" and "received_fits st p parsed"
  shows "(\<exists>st' fx lx. on_block_received st p header body parsed pb = Some (st', fx, lx) \<and> handled st (Some (st', fx)) \<and>
      (\<forall>h. get_hash p = Some h \<and> (ohas (ps_block_cache st) h \<or> h \<in> ps_validated st \<or> h \<in> ps_in_flight_validation st) \<longrightarrow>
         st' = st \<and> fx = [] \<and> lx = [])) \<and>
    handled st (register_self_produced st p header body parsed txs)"
proof -
  note inv = praos_reachable_inv [OF assms(1)]
  obtain st' fx lx where r: "on_block_received st p header body parsed pb = Some (st', fx, lx)" "handled st (Some (st', fx))"
    using on_block_received_handled [OF inv assms(2)] by blast
  moreover have "st' = st \<and> fx = [] \<and> lx = []"
    if "get_hash p = Some h" "ohas (ps_block_cache st) h \<or> h \<in> ps_validated st \<or> h \<in> ps_in_flight_validation st" for h
    using r(1) that by (cases p) (auto simp: on_block_received_def)
  ultimately have "\<exists>st' fx lx. on_block_received st p header body parsed pb = Some (st', fx, lx) \<and> handled st (Some (st', fx)) \<and>
      (\<forall>h. get_hash p = Some h \<and> (ohas (ps_block_cache st) h \<or> h \<in> ps_validated st \<or> h \<in> ps_in_flight_validation st) \<longrightarrow>
         st' = st \<and> fx = [] \<and> lx = [])" by blast
  moreover have "handled st (register_self_produced st p header body parsed txs)"
    by (rule register_self_produced_handled [OF inv])
      (use assms(2) in \<open>auto simp: received_fits_def effective_header_def Let_def\<close>)
  ultimately show ?thesis by blast
qed

definition sample_header :: parsed_header_info where
  "sample_header = \<lparr>ph_block_number = 1, ph_slot = 3, ph_prev_hash = None, ph_announced_eb_hash = None,
     ph_announced_eb_size = None, ph_certified_eb = False, ph_issuer = [1]\<rparr>"

definition sample_body :: parsed_body_info where
  "sample_body = \<lparr>pb_tx_count = 0, pb_field_count = 4, pb_eb_certificate = None, pb_eb_certificate_pending = False,
     pb_peras_cert_pending = False\<rparr>"

lemma sample_fits: "received_fits (praos_new 10) (Specific 3 7) (Some sample_header)"
  by (simp add: received_fits_def effective_header_def sample_header_def header_fits_def known_link_def praos_new_def
      praos_with_fetch_def chain_tree_new_def)

lemma new_blocks_drive_validator_witness:
  "\<exists>st' fx lx. on_block_received (praos_new 10) (Specific 3 7) [] [] (Some sample_header) sample_body = Some (st', fx, lx)"
  using new_blocks_drive_validator [OF praos_reachable.reach_new sample_fits, of "[]" "[]" sample_body] by blast

subsection \<open>Fetching missing blocks\<close>

definition fresh_in_flight :: "praos_state \<Rightarrow> instant \<Rightarrow> point \<Rightarrow> bool" where
  "fresh_in_flight st now p \<longleftrightarrow> (\<exists>started. oget (ps_in_flight st) p = Some started \<and> now - started < IN_FLIGHT_TTL)"

lemma evict_fresh: "ohas (ps_in_flight (evict_stale_in_flight st now)) p = fresh_in_flight st now p"
  by (simp add: evict_stale_in_flight_def fresh_in_flight_def ohas_def oget_oretain split: option.splits)

lemma oget_fold_oput: "oget (fold (\<lambda>p. oput p now) ps m) x = (if x \<in> set ps then Some now else oget m x)"
  by (induction ps arbitrary: m) (auto simp: oget_oput)

text \<open>C10: a fetch asks for one contiguous run of the missing blocks, the first not yet in flight: everything
  before it is in flight, the block after it is in flight, none of its blocks is; the range ends at the run's last block
  and starts at its first, or at the anchor when the run is the head of the missing blocks, never at the origin; exactly
  the blocks of the run become in flight, and entries older than the time limit are dropped. Nothing is asked for only
  when every missing block is in flight.\<close>

theorem issue_fetch_discipline:
  assumes "issue_fetch st missing anchor peer now = (st', fx)" and "missing \<noteq> []"
  shows "\<exists>pre run post. missing = pre @ run @ post \<and>
     (\<forall>p\<in>set pre. fresh_in_flight st now p) \<and> (\<forall>p\<in>set run. \<not> fresh_in_flight st now p) \<and>
     (post \<noteq> [] \<longrightarrow> fresh_in_flight st now (hd post)) \<and>
     (\<forall>x. oget (ps_in_flight st') x = (if x \<in> set run then Some now
            else if fresh_in_flight st now x then oget (ps_in_flight st) x else None)) \<and>
     (if run = [] then fx = [] \<and> post = []
      else \<exists>from peers. fx = [FetchBlockRange from (last run) peers] \<and>
             (from = hd run \<or> anchor = Some from \<and> pre = [] \<and> from \<noteq> Origin))"
proof -
  let ?st1 = "evict_stale_in_flight st now"
  let ?P = "fresh_in_flight st now"
  define pre where "pre = takeWhile ?P missing"
  define rest where "rest = dropWhile ?P missing"
  define run where "run = takeWhile (\<lambda>p. \<not> ?P p) rest"
  define post where "post = dropWhile (\<lambda>p. \<not> ?P p) rest"
  have split: "missing = pre @ run @ post" by (simp add: pre_def rest_def run_def post_def)
  have "rest \<noteq> [] \<Longrightarrow> \<not> ?P (hd rest)" using hd_dropWhile [of ?P missing] by (simp add: rest_def)
  then have run_hd: "run = [] \<longleftrightarrow> rest = []" by (cases rest) (auto simp: run_def)
  have runs: "\<forall>p\<in>set pre. ?P p" "\<forall>p\<in>set run. \<not> ?P p" "post \<noteq> [] \<longrightarrow> ?P (hd post)"
    using hd_dropWhile [of "\<lambda>p. \<not> ?P p" rest] by (auto simp: pre_def run_def post_def dest: set_takeWhileD)
  have get1: "oget (ps_in_flight ?st1) x = (if ?P x then oget (ps_in_flight st) x else None)" for x
    by (auto simp: evict_stale_in_flight_def fresh_in_flight_def oget_oretain split: option.splits)
  have head: "hd run = hd missing \<Longrightarrow> run \<noteq> [] \<Longrightarrow> pre = []"
    using runs(1,2) split by (cases pre) auto
  have run_eq: "takeWhile (\<lambda>p. \<not> ohas (ps_in_flight ?st1) p) (dropWhile (\<lambda>p. ohas (ps_in_flight ?st1) p) missing) = run"
    by (simp add: evict_fresh run_def rest_def)
  show ?thesis
  proof (cases "run = []")
    case True
    then have "st' = ?st1" "fx = []" "post = []"
      using assms run_eq run_hd by (auto simp: issue_fetch_def Let_def post_def)
    then show ?thesis using split runs get1 True by (intro exI [of _ pre] exI [of _ run] exI [of _ post]) simp
  next
    case False
    define st2 where "st2 = ?st1\<lparr>ps_in_flight := fold (\<lambda>p. oput p now) run (ps_in_flight ?st1)\<rparr>"
    define start where "start = (case anchor of Some p \<Rightarrow> if hd run = hd missing \<and> p \<noteq> Origin then p else hd run | None \<Rightarrow> hd run)"
    have eq: "st' = st2" "fx = [FetchBlockRange start (last run) (choose_block_fetch_peers st2 (last run) peer)]"
      using assms False unfolding issue_fetch_def Let_def run_eq by (auto simp: st2_def start_def)
    have "start = hd run \<or> anchor = Some start \<and> pre = [] \<and> start \<noteq> Origin"
      using head False by (auto simp: start_def split: option.splits)
    moreover have "oget (ps_in_flight st') x = (if x \<in> set run then Some now
            else if ?P x then oget (ps_in_flight st) x else None)" for x
      using eq(1) by (simp add: st2_def oget_fold_oput get1)
    ultimately show ?thesis
      using split runs eq(2) False by (intro exI [of _ pre] exI [of _ run] exI [of _ post]) simp
  qed
qed

lemma issue_fetch_discipline_witness:
  "\<exists>pre run post. [Specific 4 8, Specific 5 9] = pre @ run @ post \<and> (\<forall>p\<in>set run. \<not> fresh_in_flight (praos_new 10) 0 p)"
proof -
  obtain st' fx where "issue_fetch (praos_new 10) [Specific 4 8, Specific 5 9] None None 0 = (st', fx)" by force
  from issue_fetch_discipline [OF this] show ?thesis by blast
qed

subsection \<open>Forced rollback\<close>

text \<open>A forced rollback of depth \<open>d\<close> on a reachable state returns; when the adopted chain has a
  \<open>d\<close>-th ancestor in the tree, that block becomes the adopted, validated and queued tip, no block above its height
  remains in the tree or the cache, everything else is kept, and the stores downstream are told to roll back to it;
  otherwise, and for depth zero, nothing changes.\<close>

theorem force_rollback_effect:
  assumes "praos_reachable st"
  shows "\<exists>st' fx. force_rollback st depth = Some (st', fx) \<and>
    (if depth \<noteq> 0 \<and> (\<exists>tip p. ps_adopted_tip_hash st = Some tip \<and> unat depth < length (ancestor_list (ps_chain_tree st) tip) \<and>
          ct_point (ps_chain_tree st) (ancestor_list (ps_chain_tree st) tip ! unat depth) = Some p)
     then \<exists>tip p target bn. ps_adopted_tip_hash st = Some tip \<and> target = ancestor_list (ps_chain_tree st) tip ! unat depth \<and>
            ct_point (ps_chain_tree st) target = Some p \<and> fx = [InjectRollback p] \<and>
            ct_block_number (ps_chain_tree st) target = Some bn \<and> ps_adopted_tip_hash st' = Some target \<and>
            ps_last_validated_tip st' = Some target \<and> ps_queued_validator_tip st' = Some target \<and>
            (\<forall>h. oget (ct_nodes (ps_chain_tree st')) h =
               (case oget (ct_nodes (ps_chain_tree st)) h of Some n \<Rightarrow> if cn_block_number n \<le> bn then Some n else None | None \<Rightarrow> None)) \<and>
            (\<forall>h. oget (ps_block_cache st') h =
               (case oget (ps_block_cache st) h of Some c \<Rightarrow> if cb_block_no c \<le> bn then Some c else None | None \<Rightarrow> None))
     else st' = st \<and> fx = [])"
proof -
  let ?t = "ps_chain_tree st"
  have ti: "tree_inv ?t" and pb: "parents_below ?t"
    using praos_reachable_inv [OF assms] selection_ready_tree by (auto simp: praos_inv_def)
  show ?thesis
  proof (cases "depth \<noteq> 0 \<and> (\<exists>tip p. ps_adopted_tip_hash st = Some tip \<and> unat depth < length (ancestor_list ?t tip) \<and>
          ct_point ?t (ancestor_list ?t tip ! unat depth) = Some p)")
    case False
    then have "force_rollback st depth = Some (st, [])"
      by (auto simp: force_rollback_def ancestors_Some(1) [OF pb] Let_def split: option.splits)
    then show ?thesis using False by simp
  next
    case True
    then obtain tip p where c: "ps_adopted_tip_hash st = Some tip" "unat depth < length (ancestor_list ?t tip)"
      "ct_point ?t (ancestor_list ?t tip ! unat depth) = Some p" "depth \<noteq> 0" by blast
    define target where "target = ancestor_list ?t tip ! unat depth"
    obtain bn where bn: "ct_block_number ?t target = Some bn"
      using c(3) by (auto simp: target_def ct_point_def ct_block_number_def)
    obtain t' where t': "remove_above ?t bn = Some t'" using remove_above_inv [OF ti] by blast
    obtain st' where st': "force_rollback st depth = Some (st', [InjectRollback p])" "ps_adopted_tip_hash st' = Some target"
      "ps_last_validated_tip st' = Some target" "ps_queued_validator_tip st' = Some target" "ps_chain_tree st' = t'"
      "ps_block_cache st' = oretain (\<lambda>_ cb. cb_block_no cb \<le> bn) (ps_block_cache st)"
      using c bn t' by (simp add: force_rollback_def ancestors_Some(1) [OF pb] Let_def target_def)
    then show ?thesis
      using True c bn by (auto simp: target_def remove_above_nodes [OF t'] oget_oretain split: option.splits)
  qed
qed

lemma force_rollback_effect_witness: "\<exists>st' fx. force_rollback (praos_new 10) 3 = Some (st', fx) \<and> st' = praos_new 10"
  using force_rollback_effect [OF praos_reachable.reach_new, of 10 3]
  by (auto simp: praos_new_def praos_with_fetch_def split: if_splits)

subsection \<open>Equivocation\<close>

definition note_headers :: "praos_state \<Rightarrow> (u64 \<times> u8 list \<times> hash32) list \<Rightarrow> praos_state" where
  "note_headers st hs = fold (\<lambda>(slot, issuer, h) s. note_header_for_equivocation s slot issuer h) hs st"

lemma note_headers_snoc:
  "note_headers st (hs @ [(slot, issuer, h)]) = note_header_for_equivocation (note_headers st hs) slot issuer h"
  by (simp add: note_headers_def)

lemma card_insert_gt_1: "finite S \<Longrightarrow> h \<notin> S \<Longrightarrow> 1 < card (insert h S) \<longleftrightarrow> S \<noteq> {}"
  by (auto simp: card_gt_0_iff)

lemma pair_snoc:
  "(\<exists>a b c. a \<noteq> z \<and> b \<noteq> c \<and> (t, a, b) \<in> insert (s, i, h) S \<and> (t, a, c) \<in> insert (s, i, h) S) \<longleftrightarrow>
     (\<exists>a b c. a \<noteq> z \<and> b \<noteq> c \<and> (t, a, b) \<in> S \<and> (t, a, c) \<in> S) \<or>
     t = s \<and> i \<noteq> z \<and> (s, i, h) \<notin> S \<and> (\<exists>x. (s, i, x) \<in> S)" (is "?L = ?R")
proof
  show "?L \<Longrightarrow> ?R" by (elim exE conjE insertE) auto
  show "?R \<Longrightarrow> ?L"
  proof (elim disjE exE conjE)
    fix x assume "t = s" "i \<noteq> z" "(s, i, h) \<notin> S" "(s, i, x) \<in> S"
    then show ?L by (intro exI [of _ i] exI [of _ h] exI [of _ x]) auto
  qed blast
qed

lemma note_headers_tables:
  "oset (ps_header_hashes_by_slot_issuer (note_headers (praos_new k) hs)) (slot, issuer) =
      {h. issuer \<noteq> [] \<and> (slot, issuer, h) \<in> set hs}"
proof (induction hs rule: rev_induct)
  case Nil
  show ?case by (simp add: note_headers_def praos_new_def praos_with_fetch_def oset_def)
next
  case (snoc x hs)
  obtain s i h where x: "x = (s, i, h)" by (cases x)
  show ?case
  proof (cases "i = []")
    case True
    then show ?thesis using snoc by (auto simp: x note_headers_snoc note_header_for_equivocation_def)
  next
    case False
    then show ?thesis
      using snoc by (auto simp: x note_headers_snoc note_header_for_equivocation_def Let_def oset_def oget_oput)
  qed
qed


definition note_certs :: "praos_state \<Rightarrow> (u64 \<times> hash32) list \<Rightarrow> praos_state" where
  "note_certs st cs = fold (\<lambda>(slot, h) s. note_cert_for_equivocation s slot h) cs st"

lemma note_certs_snoc: "note_certs st (cs @ [(slot, h)]) = note_cert_for_equivocation (note_certs st cs) slot h"
  by (simp add: note_certs_def)

lemma trim_cert_seen_small: "olen m \<le> CERT_SEEN_CAP \<Longrightarrow> trim_cert_seen n m = m"
  by (cases n) simp_all

lemma olen_odel: "ohas m k \<Longrightarrow> olen (odel k m) = olen m - 1"
proof -
  assume k: "ohas m k"
  have "{x. ohas (odel k m) x} = {x. ohas m x} - {k}" by (auto simp: ohas_def oget_odel)
  then show ?thesis using k by (simp add: olen_okeys)
qed

lemma trim_cert_seen_bounds:
  assumes "olen m \<le> n + CERT_SEEN_CAP"
  shows "olen (trim_cert_seen n m) \<le> CERT_SEEN_CAP \<and> (\<forall>s h. oget (trim_cert_seen n m) s = Some h \<longrightarrow> oget m s = Some h)"
  using assms
proof (induction n arbitrary: m)
  case (Suc n)
  show ?case
  proof (cases "olen m > CERT_SEEN_CAP")
    case True
    then obtain k ks where ks: "okeys m = k # ks" by (cases "okeys m") (auto simp: olen_okeys set_okeys [symmetric])
    then have "ohas m k" using set_okeys [of m] by auto
    then have "olen (odel k m) \<le> n + CERT_SEEN_CAP" using Suc.prems by (simp add: olen_odel)
    from Suc.IH [OF this] have "olen (trim_cert_seen n (odel k m)) \<le> CERT_SEEN_CAP"
      "\<And>s h. oget (trim_cert_seen n (odel k m)) s = Some h \<Longrightarrow> oget (odel k m) s = Some h" by blast+
    moreover have "trim_cert_seen (Suc n) m = trim_cert_seen n (odel k m)" using True ks by simp
    ultimately show ?thesis by (metis oget_odel option.distinct(1))
  qed simp
qed simp

definition certs_noted :: "(u64 \<times> hash32) list \<Rightarrow> praos_state \<Rightarrow> bool" where
  "certs_noted cs st \<longleftrightarrow>
     olen (ps_cert_seen st) \<le> CERT_SEEN_CAP \<and> distinct (ps_cert_equivocations st) \<and>
     (\<forall>s h. oget (ps_cert_seen st) s = Some h \<longrightarrow> (s, h) \<in> set cs) \<and>
     (\<forall>s\<in>set (ps_cert_equivocations st). \<exists>h1 h2. h1 \<noteq> h2 \<and> (s, h1) \<in> set cs \<and> (s, h2) \<in> set cs) \<and>
     (card (fst ` set cs) \<le> CERT_SEEN_CAP \<longrightarrow>
        (\<forall>s h. (s, h) \<in> set cs \<longrightarrow> ohas (ps_cert_seen st) s \<and>
           (oget (ps_cert_seen st) s = Some h \<or> s \<in> set (ps_cert_equivocations st))))"

lemma certs_noted_step:
  assumes "certs_noted cs st"
  shows "certs_noted (cs @ [(slot, h)]) (note_cert_for_equivocation st slot h)"
proof (cases "oget (ps_cert_seen st) slot")
  case (Some prev)
  have "insert slot (fst ` set cs) = fst ` set cs" using Some assms by (force simp: certs_noted_def)
  then have slots: "fst ` set (cs @ [(slot, h)]) = fst ` set cs" by simp
  have seen: "(slot, prev) \<in> set cs" using Some assms by (simp add: certs_noted_def)
  define new where "new = (prev \<noteq> h \<and> slot \<notin> set (ps_cert_equivocations st))"
  have st: "note_cert_for_equivocation st slot h =
      (if new then st\<lparr>ps_cert_equivocations := ps_cert_equivocations st @ [slot]\<rparr> else st)"
    using Some by (simp add: note_cert_for_equivocation_def new_def)
  have pairs: "\<exists>h1 h2. h1 \<noteq> h2 \<and> (s, h1) \<in> set (cs @ [(slot, h)]) \<and> (s, h2) \<in> set (cs @ [(slot, h)])"
    if "s \<in> set (ps_cert_equivocations st) \<or> new \<and> s = slot" for s
    using that
  proof
    assume "s \<in> set (ps_cert_equivocations st)"
    then obtain h1 h2 where "h1 \<noteq> h2" "(s, h1) \<in> set cs" "(s, h2) \<in> set cs" using assms by (auto simp: certs_noted_def)
    then show ?thesis by (intro exI [of _ h1] exI [of _ h2]) simp
  next
    assume "new \<and> s = slot"
    then show ?thesis using seen by (intro exI [of _ h] exI [of _ prev]) (auto simp: new_def)
  qed
  show ?thesis unfolding certs_noted_def slots
  proof (intro conjI)
    show "\<forall>s\<in>set (ps_cert_equivocations (note_cert_for_equivocation st slot h)). \<exists>h1 h2. h1 \<noteq> h2 \<and>
        (s, h1) \<in> set (cs @ [(slot, h)]) \<and> (s, h2) \<in> set (cs @ [(slot, h)])"
      by (intro ballI pairs) (auto simp: st split: if_splits)
  qed (use assms Some in \<open>auto simp: certs_noted_def st new_def ohas_iff_Some\<close>)
next
  case None
  let ?m = "oput slot h (ps_cert_seen st)"
  let ?m' = "trim_cert_seen (olen ?m) ?m"
  have b: "olen ?m' \<le> CERT_SEEN_CAP" "\<And>s g. oget ?m' s = Some g \<Longrightarrow> oget ?m s = Some g"
    using trim_cert_seen_bounds [of ?m "olen ?m"] by auto
  have seen: "\<And>s g. oget (ps_cert_seen st) s = Some g \<Longrightarrow> (s, g) \<in> set cs" using assms by (simp add: certs_noted_def)
  have kept: "?m' = ?m" if "card (fst ` set (cs @ [(slot, h)])) \<le> CERT_SEEN_CAP"
  proof -
    have "s \<in> fst ` set (cs @ [(slot, h)])" if "ohas ?m s" for s
    proof (cases "s = slot")
      case False
      then have "ohas (ps_cert_seen st) s" using that by simp
      then obtain g where "oget (ps_cert_seen st) s = Some g" unfolding ohas_iff_Some by blast
      then have "(s, g) \<in> set cs" by (rule seen)
      then show ?thesis by (intro image_eqI [of _ _ "(s, g)"]) auto
    qed simp
    then have "{s. ohas ?m s} \<subseteq> fst ` set (cs @ [(slot, h)])" by blast
    then have "olen ?m \<le> card (fst ` set (cs @ [(slot, h)]))" unfolding olen_okeys by (rule card_mono [rotated]) simp
    then show ?thesis using that trim_cert_seen_small by simp
  qed
  have st: "note_cert_for_equivocation st slot h = st\<lparr>ps_cert_seen := ?m'\<rparr>"
    using None by (simp add: note_cert_for_equivocation_def Let_def)
  have "card (fst ` set cs) \<le> card (fst ` set (cs @ [(slot, h)]))" by (intro card_mono) auto
  then have full: "ohas ?m' s \<and> (oget ?m' s = Some g \<or> s \<in> set (ps_cert_equivocations st))"
    if "card (fst ` set (cs @ [(slot, h)])) \<le> CERT_SEEN_CAP" "(s, g) \<in> set (cs @ [(slot, h)])" for s g
    using kept [OF that(1)] that assms None by (auto simp: certs_noted_def oget_oput ohas_iff_Some) (metis option.distinct(1))
  have "(s, g) \<in> set (cs @ [(slot, h)])" if "oget ?m' s = Some g" for s g
    using b(2) [OF that] seen by (auto simp: oget_oput split: if_splits)
  then show ?thesis using b(1) full assms unfolding st certs_noted_def by simp blast
qed

lemma certs_noted_all: "certs_noted cs (note_certs (praos_new k) cs)"
proof (induction cs rule: rev_induct)
  case Nil
  show ?case by (simp add: certs_noted_def note_certs_def praos_new_def praos_with_fetch_def olen_okeys CERT_SEEN_CAP_def)
next
  case (snoc x cs)
  then show ?case by (cases x) (simp add: note_certs_snoc certs_noted_step)
qed

text \<open>From a fresh state, after any sequence of noted certificates, the table of first certificates holds at
  most 512 slots, every slot reported as equivocating was certified for two different endorser blocks and is reported
  once, and while no more than 512 slots were seen every such slot is reported.\<close>

theorem cert_equivocation_bounds:
  fixes cs k
  defines "st \<equiv> note_certs (praos_new k) cs"
  shows "olen (ps_cert_seen st) \<le> 512 \<and> distinct (ps_cert_equivocations st) \<and>
    (\<forall>s. s \<in> set (ps_cert_equivocations st) \<longrightarrow> (\<exists>h1 h2. h1 \<noteq> h2 \<and> (s, h1) \<in> set cs \<and> (s, h2) \<in> set cs)) \<and>
    (card (fst ` set cs) \<le> 512 \<longrightarrow>
      (\<forall>s h1 h2. h1 \<noteq> h2 \<and> (s, h1) \<in> set cs \<and> (s, h2) \<in> set cs \<longrightarrow> s \<in> set (ps_cert_equivocations st)))"
  using certs_noted_all [of cs k] unfolding st_def certs_noted_def CERT_SEEN_CAP_def
  by (intro conjI) (blast, blast, blast, metis option.inject)

lemma cert_equivocation_bounds_witness: "7 \<in> set (ps_cert_equivocations (note_certs (praos_new 10) [(7, 1), (8, 1), (7, 2)]))"
proof -
  let ?cs = "[(7 :: u64, 1 :: hash32), (8, 1), (7, 2)]"
  have "card (fst ` set ?cs) \<le> length ?cs" by (metis card_length list.set_map length_map)
  then have c: "card (fst ` set ?cs) \<le> 512" by simp
  have "h1 \<noteq> h2 \<and> (s, h1) \<in> set ?cs \<and> (s, h2) \<in> set ?cs \<longrightarrow> s \<in> set (ps_cert_equivocations (note_certs (praos_new 10) ?cs))"
    for s h1 h2
    using cert_equivocation_bounds [of 10 ?cs] c by blast
  from this [of 1 2 7] show ?thesis by simp
qed

end
