(* ===== verification/Leios.thy ===== *)
theory Leios
  imports Elections Fetch Bitmap Production
begin

text \<open>
  \<open>shared-rs/consensus/src/leios.rs\<close>: the Leios consensus state machine of one node. It owns the elections,
  the manifests of the endorser blocks, the fetches in flight and the voting configuration.

  \<^item> A mutating method returns the new state with the effects it emits, in order.
  \<^item> \<open>leios_ext\<close> holds the functions of other crates and of the standard library whose results are not
    specified: the finished \<open>DefaultHasher\<close> over an EB hash and the node id, Blake2b, and the generator of
    the non-persistent lottery.
  \<^item> \<open>u64\<close> slot arithmetic wraps. Wave counters and lengths (\<open>usize\<close>) are \<open>nat\<close>.
  \<^item> \<open>String::from_utf8_lossy\<close> is modelled on bytes; a string is its list of bytes.
  \<^item> Of the control signal the state keeps the two inputs this module reads. Log lines and the size
    snapshot for telemetry are left out.
\<close>

subsection \<open>Data\<close>

definition LEIOS_IN_FLIGHT_TTL :: duration where "LEIOS_IN_FLIGHT_TTL = duration_from_secs 5"

record voting_config =
  vc_committee_selection :: committee_selection
  vc_stake :: u64
  vc_total_stake :: u64
  vc_persistent_vote_bytes :: nat
  vc_non_persistent_vote_bytes :: nat
  vc_persistent_seats :: u32
  vc_retry_vote_in_window :: bool
  vc_evaluate_votes :: bool

datatype no_vote_reason =
    LateEB
  | LateRBHeader
  | WrongEB
  | NoChainTip
  | MissingTX (mt_required: nat) (mt_present_pinned: nat) (mt_present_unpinned: nat)
  | EBValidating
  | EquivocatingRB
  | Declined

fun no_vote_tag :: "no_vote_reason \<Rightarrow> string" where
  "no_vote_tag LateEB = ''late-eb''"
| "no_vote_tag LateRBHeader = ''late-rb-header''"
| "no_vote_tag WrongEB = ''wrong-eb''"
| "no_vote_tag NoChainTip = ''no-chain-tip''"
| "no_vote_tag (MissingTX _ _ _) = ''missing-tx''"
| "no_vote_tag EBValidating = ''eb-validating''"
| "no_vote_tag EquivocatingRB = ''equivocating-rb''"
| "no_vote_tag Declined = ''declined''"

type_synonym vote_decision = "no_vote_reason + bool \<times> u8 list option"

record chain_tip_context =
  cx_equivocating_slots :: "u64 set"
  cx_rb_header_arrival_slot :: "u64 option"
  cx_eb_announcement :: "hash32 option"
  cx_tip_rb_hash :: "hash32 option"
  cx_tip_rb_slot :: "u64 option"

definition chain_tip_context_default :: chain_tip_context where
  "chain_tip_context_default =
     \<lparr>cx_equivocating_slots = {}, cx_rb_header_arrival_slot = None, cx_eb_announcement = None,
      cx_tip_rb_hash = None, cx_tip_rb_slot = None\<rparr>"

datatype leios_telemetry =
    QuorumReached u64 u64 nat u64
  | ElectionExpired u64 bool u64 nat u64
  | LeiosElectionInfo u64 bool
  | LeiosBlockInfo u64 nat

datatype leios_effect =
    FetchLeiosBlock point "peer_id list"
  | FetchLeiosBlockTxs point tx_bitmap "peer_id list"
  | RecordLeiosEbManifest "peer_id option" point "eb_key option" "tx_id list"
  | EmitVote u64 hash32 hash32 bool "u8 list option"
  | NoVote u64 hash32 no_vote_reason
  | ValidateEb point
  | EmitTelemetry leios_telemetry

record eb_tx_match_outcome =
  mo_matched_bodies :: "tx_body list"
  mo_requested :: nat
  mo_remaining_bitmap :: tx_bitmap

datatype vote_policy = Honest | Abstain no_vote_reason

datatype tx_filter_policy = NoTxFilter | ChecksumThreshold (tf_vote: u8) (tf_non_voting: u8) (tf_hide_eb_tx: bool)

record leios_control =
  lk_vote :: vote_policy
  lk_tx_filter :: tx_filter_policy

datatype tx_availability = Absent | Present (av_pinned: bool) (av_ours: bool) (av_gen_slot: u64)

record validated_vote =
  vv_voter_id :: "u8 list"
  vv_tag :: u8
  vv_eligibility_signature :: "u8 list option"
  vv_announcing_rb_hash :: hash32

record 'r leios_ext =
  lx_hasher :: "hash32 option \<Rightarrow> string \<Rightarrow> u64"
  lx_blake2b_48 :: "u8 list \<Rightarrow> u8 list"
  lx_from_seed :: "u8 list \<Rightarrow> 'r"
  lx_gen_f64 :: "'r \<Rightarrow> f64 \<times> 'r"

record leios_state =
  ls_node_id :: string
  ls_elections :: elections
  ls_voting_config :: voting_config
  ls_pipeline :: pipeline_config
  ls_max_leios_fetch_txs_waves :: nat
  ls_eb_tx_hashes :: "(hash32, u64 \<times> tx_id list) omap"
  ls_validated_eb_bodies :: "(hash32, u64) omap"
  ls_pending_eb_tx_fetches :: "(hash32, u64 \<times> tx_bitmap) omap"
  ls_next_fetch_txs_wave :: "point set"
  ls_leios_fetch_txs_waves_count :: "(point, nat) omap"
  ls_endorsed_unvalidated_ebs :: "(hash32, u64) omap"
  ls_in_flight :: "(point, instant) omap"
  ls_chain_tip_ctx :: chain_tip_context
  ls_candidates :: candidate_tracker
  ls_eb_policy :: "point \<Rightarrow> fetch_policy"
  ls_eb_txs_policy :: "point \<Rightarrow> tx_bitmap \<Rightarrow> fetch_policy"
  ls_rtt :: peer_rtt
  ls_control :: leios_control

subsection \<open>Construction and setters\<close>

definition leios_with_fetch ::
  "string \<Rightarrow> elections \<Rightarrow> voting_config \<Rightarrow> pipeline_config \<Rightarrow> nat \<Rightarrow> (point \<Rightarrow> fetch_policy)
     \<Rightarrow> (point \<Rightarrow> tx_bitmap \<Rightarrow> fetch_policy) \<Rightarrow> peer_rtt \<Rightarrow> leios_state" where
  "leios_with_fetch node_id es vc pipeline max_waves eb_policy eb_txs_policy rtt =
     \<lparr>ls_node_id = node_id, ls_elections = es, ls_voting_config = vc, ls_pipeline = pipeline,
      ls_max_leios_fetch_txs_waves = max_waves, ls_eb_tx_hashes = oempty, ls_validated_eb_bodies = oempty,
      ls_pending_eb_tx_fetches = oempty, ls_next_fetch_txs_wave = {}, ls_leios_fetch_txs_waves_count = oempty,
      ls_endorsed_unvalidated_ebs = oempty, ls_in_flight = oempty, ls_chain_tip_ctx = chain_tip_context_default,
      ls_candidates = tracker_new, ls_eb_policy = eb_policy, ls_eb_txs_policy = eb_txs_policy, ls_rtt = rtt,
      ls_control = \<lparr>lk_vote = Honest, lk_tx_filter = NoTxFilter\<rparr>\<rparr>"

definition leios_new :: "string \<Rightarrow> elections \<Rightarrow> voting_config \<Rightarrow> pipeline_config \<Rightarrow> nat \<Rightarrow> leios_state" where
  "leios_new node_id es vc pipeline max_waves =
     leios_with_fetch node_id es vc pipeline max_waves (\<lambda>_. pick_one) (\<lambda>_ _. pick_one) (uniform_rtt 0)"

definition leios_apply_control :: "leios_state \<Rightarrow> leios_control \<Rightarrow> leios_state" where
  "leios_apply_control st control = st\<lparr>ls_control := control\<rparr>"

definition set_chain_tip_context :: "leios_state \<Rightarrow> chain_tip_context \<Rightarrow> leios_state" where
  "set_chain_tip_context st ctx =
     (let es = (case (cx_tip_rb_hash ctx, cx_tip_rb_slot ctx, cx_eb_announcement ctx) of
                  (Some rb_hash, Some rb_slot, Some eb_hash) \<Rightarrow>
                    let es1 = fst (announce_from_rb (ls_elections st) rb_hash rb_slot eb_hash)
                    in if ohas (ls_validated_eb_bodies st) eb_hash then mark_body_validated es1 eb_hash else es1
                | _ \<Rightarrow> ls_elections st)
      in st\<lparr>ls_elections := es, ls_chain_tip_ctx := ctx\<rparr>)"

definition set_eb_policy :: "leios_state \<Rightarrow> (point \<Rightarrow> fetch_policy) \<Rightarrow> leios_state" where
  "set_eb_policy st policy = st\<lparr>ls_eb_policy := policy\<rparr>"

definition set_eb_txs_policy :: "leios_state \<Rightarrow> (point \<Rightarrow> tx_bitmap \<Rightarrow> fetch_policy) \<Rightarrow> leios_state" where
  "set_eb_txs_policy st policy = st\<lparr>ls_eb_txs_policy := policy\<rparr>"

definition leios_set_rtt :: "leios_state \<Rightarrow> peer_rtt \<Rightarrow> leios_state" where
  "leios_set_rtt st rtt = st\<lparr>ls_rtt := rtt\<rparr>"

definition take_postponed_eb_tx_requests :: "leios_state \<Rightarrow> point set \<times> leios_state" where
  "take_postponed_eb_tx_requests st = (ls_next_fetch_txs_wave st, st\<lparr>ls_next_fetch_txs_wave := {}\<rparr>)"

definition missing_eb_tx_bitmap :: "leios_state \<Rightarrow> hash32 \<Rightarrow> mempool_state \<Rightarrow> tx_bitmap" where
  "missing_eb_tx_bitmap st eb_hash mempool =
     (case oget (ls_eb_tx_hashes st) eb_hash of
        None \<Rightarrow> oempty
      | Some (_, tx_hashes) \<Rightarrow>
          from_indices (List.map_filter (\<lambda>(i, tid). if \<not> has_tx mempool tid then Some (of_nat i) else None)
            (enumerate 0 tx_hashes)))"

definition ebs_needing_tx_fetch :: "leios_state \<Rightarrow> point list" where
  "ebs_needing_tx_fetch st =
     map (\<lambda>(hash, slot, _). Specific slot hash)
       (filter (\<lambda>(hash, _). es_phase (ls_elections st) hash \<noteq> None) (entries (ls_eb_tx_hashes st)))"

subsection \<open>Slot tick\<close>

fun expired_telemetry :: "slot_effect \<Rightarrow> leios_effect list" where
  "expired_telemetry (Expired _ eb_slot had_quorum weight voters expected) =
     [EmitTelemetry (ElectionExpired eb_slot had_quorum weight voters expected)]"
| "expired_telemetry (EligibleToVote _ _ _ _) = []"

definition slot_at_least :: "u64 \<Rightarrow> point \<Rightarrow> bool" where
  "slot_at_least min_keep p = (case get_slot p of Some s \<Rightarrow> s \<ge> min_keep | None \<Rightarrow> False)"

definition prune_chain_progress :: "leios_state \<Rightarrow> u64 \<Rightarrow> leios_state \<times> leios_effect list" where
  "prune_chain_progress st min_keep =
     (let (es, effs) = prune_below_slot (ls_elections st) min_keep
      in (st\<lparr>ls_eb_tx_hashes := oretain (\<lambda>_ v. fst v \<ge> min_keep) (ls_eb_tx_hashes st),
             ls_next_fetch_txs_wave := {p \<in> ls_next_fetch_txs_wave st. slot_at_least min_keep p},
             ls_leios_fetch_txs_waves_count :=
               oretain (\<lambda>p _. slot_at_least min_keep p) (ls_leios_fetch_txs_waves_count st),
             ls_pending_eb_tx_fetches := oretain (\<lambda>_ v. fst v \<ge> min_keep) (ls_pending_eb_tx_fetches st),
             ls_endorsed_unvalidated_ebs := oretain (\<lambda>_ s. s \<ge> min_keep) (ls_endorsed_unvalidated_ebs st),
             ls_validated_eb_bodies := oretain (\<lambda>_ s. s \<ge> min_keep) (ls_validated_eb_bodies st),
             ls_elections := es,
             ls_candidates := tracker_prune_below_slot (ls_candidates st)
               (saturating_sub min_keep DEFAULT_EB_RETENTION_SLOTS)\<rparr>,
          concat (map expired_telemetry effs)))"

text \<open>The tally of the referenced transactions: pinned, unpinned, absent.\<close>

fun tx_tally :: "(tx_id \<Rightarrow> tx_availability) \<Rightarrow> tx_id list \<Rightarrow> nat \<times> nat \<times> nat \<Rightarrow> nat \<times> nat \<times> nat" where
  "tx_tally tx_known [] acc = acc"
| "tx_tally tx_known (h # hs) (pinned, unpinned, absent) =
     (case tx_known h of
        Absent \<Rightarrow> tx_tally tx_known hs (pinned, unpinned, absent + 1)
      | Present p _ _ \<Rightarrow>
          tx_tally tx_known hs (if p then (pinned + 1, unpinned, absent) else (pinned, unpinned + 1, absent)))"

definition missing_tx_check :: "leios_state \<Rightarrow> hash32 \<Rightarrow> (tx_id \<Rightarrow> tx_availability) \<Rightarrow> no_vote_reason option" where
  "missing_tx_check st eb_hash tx_known =
     (case oget (ls_eb_tx_hashes st) eb_hash of
        None \<Rightarrow> None
      | Some (_, tx_hashes) \<Rightarrow>
          let (pinned, unpinned, absent) = tx_tally tx_known tx_hashes (0, 0, 0)
          in if absent > 0 then Some (MissingTX (length tx_hashes) pinned unpinned) else None)"

text \<open>The lottery: a persistent seat, or else the non-persistent trial.\<close>

definition vote_lottery :: "'r leios_ext \<Rightarrow> leios_state \<Rightarrow> hash32 \<Rightarrow> u64 \<Rightarrow> bool \<times> u8 list option" where
  "vote_lottery ext st eb_hash eb_slot =
     (let vc = ls_voting_config st;
          emit_pv = (vc_persistent_seats vc > 0);
          n_npv = non_persistent_voters (vc_committee_selection vc)
      in (emit_pv,
          if emit_pv \<or> n_npv = 0 then None
          else
            let sig = npv_eligibility_signature (lx_blake2b_48 ext) (as_bytes (ls_node_id st)) eb_hash eb_slot
            in if count_npv_wins (lx_from_seed ext) (lx_gen_f64 ext) sig (vc_stake vc) (vc_total_stake vc) n_npv > 0
               then Some sig else None))"

definition decide_vote ::
  "'r leios_ext \<Rightarrow> leios_state \<Rightarrow> hash32 \<Rightarrow> hash32 \<Rightarrow> u64 \<Rightarrow> u64 \<Rightarrow> (tx_id \<Rightarrow> tx_availability) \<Rightarrow> vote_decision" where
  "decide_vote ext st rb_hash eb_hash eb_slot eb_seen_slot tx_known =
     (let pl = ls_pipeline st; ctx = ls_chain_tip_ctx st;
          voting_end = 3 * pl_delta_hdr pl + pl_vote_window pl
      in if saturating_sub eb_seen_slot eb_slot \<ge> voting_end then Inl LateEB
         else case cx_rb_header_arrival_slot ctx of
                None \<Rightarrow> Inl NoChainTip
              | Some rb_arrival \<Rightarrow>
                  if cx_tip_rb_hash ctx \<noteq> Some rb_hash then Inl WrongEB
                  else if rb_arrival \<ge> eb_slot + pl_delta_hdr pl then Inl LateRBHeader
                  else if eb_slot \<in> cx_equivocating_slots ctx then Inl EquivocatingRB
                  else case missing_tx_check st eb_hash tx_known of
                         Some reason \<Rightarrow> Inl reason
                       | None \<Rightarrow>
                           if \<not> is_announced (ls_elections st) rb_hash then Inl EBValidating
                           else Inr (vote_lottery ext st eb_hash eb_slot))"

definition resolve_vote :: "leios_state \<Rightarrow> vote_decision \<Rightarrow> vote_decision" where
  "resolve_vote st honest_vote =
     (case lk_vote (ls_control st) of Honest \<Rightarrow> honest_vote | Abstain reason \<Rightarrow> Inl reason)"

definition ls_mark_voted :: "leios_state \<Rightarrow> hash32 \<Rightarrow> leios_state" where
  "ls_mark_voted st rb_hash = st\<lparr>ls_elections := mark_voted (ls_elections st) rb_hash\<rparr>"

fun handle_slot_effect ::
  "'r leios_ext \<Rightarrow> leios_state \<Rightarrow> (tx_id \<Rightarrow> tx_availability) \<Rightarrow> slot_effect \<Rightarrow> leios_state \<times> leios_effect list" where
  "handle_slot_effect ext st tx_known (EligibleToVote rb_hash eb_hash eb_slot eb_seen_slot) =
     (if \<not> vc_evaluate_votes (ls_voting_config st) then (ls_mark_voted st rb_hash, [])
      else
        (case resolve_vote st (decide_vote ext st rb_hash eb_hash eb_slot eb_seen_slot tx_known) of
           Inr (emit_pv, npv_signature) \<Rightarrow>
             if emit_pv \<or> npv_signature \<noteq> None
             then (ls_mark_voted st rb_hash, [EmitVote eb_slot eb_hash rb_hash emit_pv npv_signature])
             else (if \<not> vc_retry_vote_in_window (ls_voting_config st) then ls_mark_voted st rb_hash else st, [])
         | Inl reason \<Rightarrow>
             (if reason = LateEB \<or> \<not> vc_retry_vote_in_window (ls_voting_config st)
              then ls_mark_voted st rb_hash else st,
              [NoVote eb_slot eb_hash reason])))"
| "handle_slot_effect ext st tx_known (Expired h eb_slot had_quorum weight voters expected) =
     (st, expired_telemetry (Expired h eb_slot had_quorum weight voters expected))"

fun handle_slot_effects ::
  "'r leios_ext \<Rightarrow> leios_state \<Rightarrow> (tx_id \<Rightarrow> tx_availability) \<Rightarrow> slot_effect list \<Rightarrow> leios_state \<times> leios_effect list" where
  "handle_slot_effects ext st tx_known [] = (st, [])"
| "handle_slot_effects ext st tx_known (e # es) =
     (let (st1, fx1) = handle_slot_effect ext st tx_known e;
          (st2, fx2) = handle_slot_effects ext st1 tx_known es
      in (st2, fx1 @ fx2))"

definition leios_on_slot ::
  "'r leios_ext \<Rightarrow> leios_state \<Rightarrow> u64 \<Rightarrow> (tx_id \<Rightarrow> tx_availability) \<Rightarrow> leios_state \<times> leios_effect list" where
  "leios_on_slot ext st slot tx_known =
     (let (es, effs) = es_on_slot (ls_elections st) slot;
          (st1, fx1) = handle_slot_effects ext (st\<lparr>ls_elections := es\<rparr>) tx_known effs
      in case cx_tip_rb_slot (ls_chain_tip_ctx st1) of
           None \<Rightarrow> (st1, fx1)
         | Some min_keep \<Rightarrow> let (st2, fx2) = prune_chain_progress st1 min_keep in (st2, fx1 @ fx2))"

subsection \<open>Network events\<close>

definition eb_checksum_pct :: "'r leios_ext \<Rightarrow> leios_state \<Rightarrow> point \<Rightarrow> u8" where
  "eb_checksum_pct ext st p = ucast (lx_hasher ext (get_hash p) (ls_node_id st) mod 100)"

definition should_process_eb :: "'r leios_ext \<Rightarrow> leios_state \<Rightarrow> point \<Rightarrow> bool" where
  "should_process_eb ext st p =
     (case lk_tx_filter (ls_control st) of
        NoTxFilter \<Rightarrow> True
      | ChecksumThreshold vote non_voting _ \<Rightarrow>
          eb_checksum_pct ext st p < (if vc_persistent_seats (ls_voting_config st) > 0 then vote else non_voting))"

definition should_hide_eb_received :: "'r leios_ext \<Rightarrow> leios_state \<Rightarrow> point \<Rightarrow> bool" where
  "should_hide_eb_received ext st p =
     (case lk_tx_filter (ls_control st) of
        ChecksumThreshold _ _ hide_eb_tx \<Rightarrow> hide_eb_tx \<and> \<not> should_process_eb ext st p
      | NoTxFilter \<Rightarrow> False)"

definition leios_evict_stale :: "leios_state \<Rightarrow> instant \<Rightarrow> leios_state" where
  "leios_evict_stale st now =
     st\<lparr>ls_in_flight := oretain (\<lambda>_ started. now - started < LEIOS_IN_FLIGHT_TTL) (ls_in_flight st)\<rparr>"

definition do_eb_fetch :: "leios_state \<Rightarrow> point \<Rightarrow> instant \<Rightarrow> leios_state \<times> leios_effect list" where
  "do_eb_fetch st p now =
     (let st1 = leios_evict_stale st now
      in if ohas (ls_in_flight st1) p then (st1, [])
         else
           let peers = ls_eb_policy st1 p (available_eb_candidates (ls_candidates st1) p) (ls_rtt st1)
           in if peers = [] then (st1, [])
              else
                let (started, cands) = start_eb_fetch (ls_candidates st1) p peers
                in if \<not> started then (st1\<lparr>ls_candidates := cands\<rparr>, [])
                   else (st1\<lparr>ls_candidates := cands, ls_in_flight := oput p now (ls_in_flight st1)\<rparr>,
                         [FetchLeiosBlock p peers]))"

definition on_eb_offered ::
  "'r leios_ext \<Rightarrow> leios_state \<Rightarrow> point \<Rightarrow> peer_id \<Rightarrow> instant \<Rightarrow> leios_state \<times> leios_effect list" where
  "on_eb_offered ext st p peer now =
     (if \<not> should_process_eb ext st p then (st, [])
      else do_eb_fetch (st\<lparr>ls_candidates := note_eb_offered (ls_candidates st) p peer\<rparr>) p now)"

text \<open>The gate of a slot's transaction fetches: a point with a synthetic hash.\<close>

definition gate_key :: "u64 \<Rightarrow> point" where
  "gate_key slot = Specific slot 0xFEFEFEFEFEFEFEFEFEFEFEFEFEFEFEFEFEFEFEFEFEFEFEFEFEFEFEFEFEFEFEFE"

definition initiate_eb_txs_fetch ::
  "'r leios_ext \<Rightarrow> leios_state \<Rightarrow> point \<Rightarrow> tx_bitmap \<Rightarrow> instant \<Rightarrow> leios_state \<times> leios_effect list" where
  "initiate_eb_txs_fetch ext st p bitmap now =
     (if \<not> should_process_eb ext st p \<or> olen bitmap = 0 then (st, [])
      else case p of
             Origin \<Rightarrow> (st, [])
           | Specific slot hash \<Rightarrow>
               if ohas (ls_in_flight st) (gate_key slot) then (st, [])
               else
                 let peers = ls_eb_txs_policy st p bitmap (eb_txs_candidates (ls_candidates st) p) (ls_rtt st)
                 in if peers = [] then (st, [])
                    else (st\<lparr>ls_in_flight := oput (gate_key slot) now (ls_in_flight st),
                             ls_pending_eb_tx_fetches := oput hash (slot, bitmap) (ls_pending_eb_tx_fetches st),
                             ls_candidates := snd (start_eb_txs_fetch (ls_candidates st) p peers)\<rparr>,
                          [FetchLeiosBlockTxs p bitmap peers]))"

definition initiate_first_eb_txs_fetch ::
  "'r leios_ext \<Rightarrow> leios_state \<Rightarrow> point \<Rightarrow> tx_bitmap \<Rightarrow> instant \<Rightarrow> leios_state \<times> leios_effect list" where
  "initiate_first_eb_txs_fetch ext st p bitmap now =
     (if ls_max_leios_fetch_txs_waves st = 0 \<or> olen bitmap = 0 then (st, [])
      else initiate_eb_txs_fetch ext
             (if ohas (ls_leios_fetch_txs_waves_count st) p then st
              else st\<lparr>ls_leios_fetch_txs_waves_count := oput p 1 (ls_leios_fetch_txs_waves_count st)\<rparr>)
             p bitmap now)"

definition on_eb_txs_offered ::
  "'r leios_ext \<Rightarrow> leios_state \<Rightarrow> point \<Rightarrow> peer_id \<Rightarrow> tx_bitmap \<Rightarrow> instant \<Rightarrow> leios_state \<times> leios_effect list" where
  "on_eb_txs_offered ext st p peer bitmap now =
     (if ls_max_leios_fetch_txs_waves st = 0 then (st, [])
      else if \<not> should_process_eb ext st p then (st, [])
      else
        let st1 = leios_evict_stale st now
        in case p of
             Origin \<Rightarrow> (st1, [])
           | Specific _ _ \<Rightarrow>
               initiate_first_eb_txs_fetch ext
                 (st1\<lparr>ls_candidates := note_eb_txs_offered (ls_candidates st1) p peer\<rparr>) p bitmap now)"

definition initiate_next_leios_fetch_txs_wave ::
  "'r leios_ext \<Rightarrow> leios_state \<Rightarrow> point \<Rightarrow> tx_bitmap \<Rightarrow> instant \<Rightarrow> leios_state \<times> leios_effect list" where
  "initiate_next_leios_fetch_txs_wave ext st p bitmap now =
     (case oget (ls_leios_fetch_txs_waves_count st) p of
        None \<Rightarrow> (st, [])
      | Some cnt \<Rightarrow>
          if cnt \<ge> ls_max_leios_fetch_txs_waves st then (st, [])
          else initiate_eb_txs_fetch ext
                 (st\<lparr>ls_leios_fetch_txs_waves_count := oput p (cnt + 1) (ls_leios_fetch_txs_waves_count st),
                     ls_candidates := clear_eb_txs_attempts (ls_candidates st) p\<rparr>) p bitmap now)"

text \<open>One peer's fetch of an EB is over; the point leaves \<open>in_flight\<close> with its last pending peer.\<close>

definition ls_finish_eb_fetch :: "leios_state \<Rightarrow> peer_id \<Rightarrow> point \<Rightarrow> leios_state" where
  "ls_finish_eb_fetch st source p =
     (let (last_one, cands) = finish_eb_fetch (ls_candidates st) source p
      in st\<lparr>ls_candidates := cands,
            ls_in_flight := (if last_one then odel p (ls_in_flight st) else ls_in_flight st)\<rparr>)"

definition on_eb_received ::
  "'r leios_ext \<Rightarrow> leios_state \<Rightarrow> peer_id option \<Rightarrow> point \<Rightarrow> (eb_key option \<times> tx_id list) option
     \<Rightarrow> leios_state \<times> leios_effect list" where
  "on_eb_received ext st source p manifest_hashes =
     (if should_hide_eb_received ext st p then (st, [])
      else
        let st1 = (case source of Some peer \<Rightarrow> ls_finish_eb_fetch st peer p | None \<Rightarrow> st)
        in case (manifest_hashes, p) of
             (Some (eb_key, tx_hashes), Specific slot hash) \<Rightarrow>
               (st1\<lparr>ls_eb_tx_hashes := oput hash (slot, tx_hashes) (ls_eb_tx_hashes st1)\<rparr>,
                [EmitTelemetry (LeiosBlockInfo slot (length tx_hashes)),
                 RecordLeiosEbManifest source p eb_key tx_hashes, ValidateEb p])
           | _ \<Rightarrow> (st1, [ValidateEb p]))"

definition on_eb_fetch_failed :: "leios_state \<Rightarrow> peer_id \<Rightarrow> point \<Rightarrow> leios_state" where
  "on_eb_fetch_failed st source p = ls_finish_eb_fetch st source p"

definition on_eb_txs_received :: "leios_state \<Rightarrow> point \<Rightarrow> leios_state" where
  "on_eb_txs_received st p =
     st\<lparr>ls_in_flight := (case p of Specific slot _ \<Rightarrow> odel (gate_key slot) (ls_in_flight st) | Origin \<Rightarrow> ls_in_flight st),
        ls_candidates := finish_eb_txs_fetch (ls_candidates st) p\<rparr>"

subsection \<open>UTF-8\<close>

text \<open>The first chunk of a byte string: how many bytes, and whether they are one encoded character.\<close>

definition utf8_cont :: "u8 \<Rightarrow> bool" where
  "utf8_cont b \<longleftrightarrow> 0x80 \<le> b \<and> b \<le> 0xBF"

definition utf8_second :: "u8 \<Rightarrow> u8 \<Rightarrow> bool" where
  "utf8_second a b =
     (if a = 0xE0 then 0xA0 \<le> b \<and> b \<le> 0xBF
      else if a = 0xED then 0x80 \<le> b \<and> b \<le> 0x9F
      else if a = 0xF0 then 0x90 \<le> b \<and> b \<le> 0xBF
      else if a = 0xF4 then 0x80 \<le> b \<and> b \<le> 0x8F
      else utf8_cont b)"

definition utf8_width :: "u8 \<Rightarrow> nat" where
  "utf8_width b =
     (if b < 0x80 then 1 else if b < 0xC2 then 0 else if b < 0xE0 then 2 else if b < 0xF0 then 3
      else if b < 0xF5 then 4 else 0)"

fun utf8_chunk :: "u8 list \<Rightarrow> nat \<times> bool" where
  "utf8_chunk [] = (0, True)"
| "utf8_chunk (a # bs) =
     (if utf8_width a = 1 then (1, True)
      else if utf8_width a = 0 then (1, False)
      else
        (case bs of
           b # cs \<Rightarrow>
             if \<not> utf8_second a b then (1, False)
             else if utf8_width a = 2 then (2, True)
             else
               (case cs of
                  c # ds \<Rightarrow>
                    if \<not> utf8_cont c then (2, False)
                    else if utf8_width a = 3 then (3, True)
                    else (case ds of d # _ \<Rightarrow> if utf8_cont d then (4, True) else (3, False) | [] \<Rightarrow> (3, False))
                | [] \<Rightarrow> (2, False))
         | [] \<Rightarrow> (1, False)))"

lemma utf8_chunk_pos: "bs \<noteq> [] \<Longrightarrow> 0 < fst (utf8_chunk bs)"
  by (cases bs) (auto split: list.splits)

function from_utf8_lossy :: "u8 list \<Rightarrow> u8 list" where
  "from_utf8_lossy bs =
     (if bs = [] then []
      else (if snd (utf8_chunk bs) then take (fst (utf8_chunk bs)) bs else [0xEF, 0xBF, 0xBD])
           @ from_utf8_lossy (drop (fst (utf8_chunk bs)) bs))"
  by auto
termination
  by (relation "measure length") (use utf8_chunk_pos in \<open>auto simp: diff_less\<close>)

declare from_utf8_lossy.simps [simp del]

definition string_of_bytes :: "u8 list \<Rightarrow> string" where
  "string_of_bytes bs = map (\<lambda>b. char_of (unat b)) bs"

subsection \<open>Validation outcomes\<close>

definition on_validated_eb :: "leios_state \<Rightarrow> point \<Rightarrow> leios_state" where
  "on_validated_eb st p =
     (case p of
        Origin \<Rightarrow> st
      | Specific slot hash \<Rightarrow>
          st\<lparr>ls_validated_eb_bodies := oput hash slot (ls_validated_eb_bodies st),
             ls_elections := mark_body_validated (ls_elections st) hash,
             ls_endorsed_unvalidated_ebs := odel hash (ls_endorsed_unvalidated_ebs st)\<rparr>)"

definition on_chain_endorsement :: "leios_state \<Rightarrow> u64 \<Rightarrow> hash32 \<Rightarrow> leios_state" where
  "on_chain_endorsement st eb_slot eb_hash =
     (if eb_body_validated (ls_elections st) eb_hash then st
      else st\<lparr>ls_endorsed_unvalidated_ebs := oor_insert eb_hash eb_slot (ls_endorsed_unvalidated_ebs st)\<rparr>)"

definition quorum_telemetry :: "quorum_formed option \<Rightarrow> leios_effect list" where
  "quorum_telemetry formed =
     (case formed of
        None \<Rightarrow> []
      | Some q \<Rightarrow> [EmitTelemetry (QuorumReached (qf_eb_slot q) (qf_voted_weight q) (qf_voters q) (qf_expected_weight q))])"

fun on_validated_votes ::
  "'r leios_ext \<Rightarrow> leios_state \<Rightarrow> validated_vote list \<Rightarrow> leios_state \<times> leios_effect list" where
  "on_validated_votes ext st [] = (st, [])"
| "on_validated_votes ext st (body # bodies) =
     (let voter_id_str = string_of_bytes (from_utf8_lossy (vv_voter_id body));
          weight = weight_for (lx_from_seed ext) (lx_gen_f64 ext) (ls_elections st) voter_id_str (vv_tag body)
                     (vv_eligibility_signature body)
      in if weight = 0 then on_validated_votes ext st bodies
         else
           let (es, formed) = es_record_vote (ls_elections st) (vv_announcing_rb_hash body)
                                (vv_voter_id body @ [vv_tag body]) weight;
               (st2, fx2) = on_validated_votes ext (st\<lparr>ls_elections := es\<rparr>) bodies
           in (st2, quorum_telemetry formed @ fx2))"

definition resolve_votes :: "leios_state \<Rightarrow> vote list \<Rightarrow> validated_vote list" where
  "resolve_votes st votes =
     List.map_filter
       (\<lambda>v. map_option (\<lambda>node_id. \<lparr>vv_voter_id = as_bytes node_id, vv_tag = 0, vv_eligibility_signature = None,
                                   vv_announcing_rb_hash = vt_announcing_rb_hash v\<rparr>)
              (voter_id_at (ls_elections st) (vt_voter_id v))) votes"

definition on_votes_received ::
  "'r leios_ext \<Rightarrow> leios_state \<Rightarrow> vote list \<Rightarrow> leios_state \<times> leios_effect list" where
  "on_votes_received ext st votes = on_validated_votes ext st (resolve_votes st votes)"

subsection \<open>Responses and retries\<close>

definition bitmap_to_indices :: "tx_bitmap \<Rightarrow> u32 set" where
  "bitmap_to_indices bitmap = set (iter_indices bitmap)"

definition bitmap_length :: "tx_bitmap \<Rightarrow> nat" where
  "bitmap_length bitmap = sum_list (map (\<lambda>w. length (filter (bit w) [0..<64])) (ovalues bitmap))"

definition manifest_index :: "tx_id list \<Rightarrow> (tx_id, nat) omap" where
  "manifest_index manifest = oof_list (map (\<lambda>(i, h). (h, i)) (enumerate 0 manifest))"

fun match_bodies :: "(tx_id, nat) omap \<Rightarrow> (tx_body \<times> tx_id) list \<Rightarrow> (nat, tx_body) omap \<Rightarrow> (nat, tx_body) omap" where
  "match_bodies index [] matched = matched"
| "match_bodies index ((body, body_hash) # rest) matched =
     match_bodies index rest
       (case oget index body_hash of Some idx \<Rightarrow> oor_insert idx body matched | None \<Rightarrow> matched)"

definition match_eb_tx_response ::
  "leios_state \<Rightarrow> point \<Rightarrow> (tx_body \<times> tx_id) list \<Rightarrow> leios_state \<times> eb_tx_match_outcome" where
  "match_eb_tx_response st p bodies =
     (let st1 = st\<lparr>ls_candidates := finish_eb_txs_fetch (ls_candidates st) p\<rparr>
      in case p of
           Origin \<Rightarrow> (st1, \<lparr>mo_matched_bodies = [], mo_requested = 0, mo_remaining_bitmap = oempty\<rparr>)
         | Specific eb_slot hash \<Rightarrow>
             (case oget (ls_eb_tx_hashes st1) hash of
                None \<Rightarrow> (st1, \<lparr>mo_matched_bodies = map fst bodies, mo_requested = 0, mo_remaining_bitmap = oempty\<rparr>)
              | Some (_, manifest) \<Rightarrow>
                  let matched = match_bodies (manifest_index manifest) bodies oempty
                  in case oget (ls_pending_eb_tx_fetches st1) hash of
                       None \<Rightarrow> (st1, \<lparr>mo_matched_bodies = ovalues matched, mo_requested = 0, mo_remaining_bitmap = oempty\<rparr>)
                     | Some (_, bitmap) \<Rightarrow>
                         let requested = bitmap_to_indices bitmap;
                             matched_indices = set (map of_nat (okeys matched));
                             remaining = sorted_list_of_set (requested - matched_indices);
                             remaining_bitmap = from_indices remaining
                         in (st1\<lparr>ls_pending_eb_tx_fetches :=
                               (if remaining = [] then odel hash (ls_pending_eb_tx_fetches st1)
                                else oput hash (eb_slot, remaining_bitmap) (ls_pending_eb_tx_fetches st1))\<rparr>,
                             \<lparr>mo_matched_bodies = ovalues matched, mo_requested = card requested,
                              mo_remaining_bitmap = remaining_bitmap\<rparr>)))"

definition retry_eb_tx_fetch :: "leios_state \<Rightarrow> point \<Rightarrow> tx_bitmap \<Rightarrow> leios_state \<times> leios_effect list" where
  "retry_eb_tx_fetch st p bitmap =
     (if olen bitmap = 0 then (st\<lparr>ls_next_fetch_txs_wave := ls_next_fetch_txs_wave st - {p}\<rparr>, [])
      else
        let peers = ls_eb_txs_policy st p bitmap (eb_txs_candidates (ls_candidates st) p) (ls_rtt st)
        in if peers = [] then (st\<lparr>ls_next_fetch_txs_wave := insert p (ls_next_fetch_txs_wave st)\<rparr>, [])
           else
             let (started, cands) = start_eb_txs_fetch (ls_candidates st) p peers
             in (st\<lparr>ls_candidates := cands\<rparr>, if started then [FetchLeiosBlockTxs p bitmap peers] else []))"

definition retry_eb_fetch :: "leios_state \<Rightarrow> point \<Rightarrow> instant \<Rightarrow> leios_state \<times> leios_effect list" where
  "retry_eb_fetch st p now = do_eb_fetch st p now"

definition leios_eb_certifiable_slot :: "leios_state \<Rightarrow> hash32 \<Rightarrow> u64 option" where
  "leios_eb_certifiable_slot st h = eb_certifiable_slot (ls_elections st) h"

definition leios_eb_cert_status :: "leios_state \<Rightarrow> hash32 \<Rightarrow> (bool \<times> pipeline_phase \<times> u64) option" where
  "leios_eb_cert_status st rb_hash = eb_cert_status (ls_elections st) rb_hash"

definition leios_eb_context :: "leios_state \<Rightarrow> hash32 \<Rightarrow> (hash32 \<times> u64) option" where
  "leios_eb_context st announcing_rb_hash = eb_context (ls_elections st) announcing_rb_hash"

end
