(* ===== verification/Leios_Properties.thy ===== *)
theory Leios_Properties
  imports Leios
begin

text \<open>
  The properties of the Leios state machine: when a vote is cast and how often, what the chain-progress
  pruning keeps, how responses with transaction bodies are matched, and how many fetch waves a block gets.
\<close>

subsection \<open>One slot effect at a time\<close>

definition same_announced :: "elections \<Rightarrow> elections \<Rightarrow> bool" where
  "same_announced es es' \<longleftrightarrow> is_announced es' = is_announced es"

lemma is_announced_mark_voted [simp]: "is_announced (mark_voted es rb) = is_announced es"
  by (auto simp: is_announced_def mark_voted_def oget_oupdate fun_eq_iff split: option.splits)

lemma vote_checks_elections [simp]:
  "missing_tx_check (st\<lparr>ls_elections := es\<rparr>) = missing_tx_check st"
  "vote_lottery ext (st\<lparr>ls_elections := es\<rparr>) = vote_lottery ext st"
  by (simp_all add: missing_tx_check_def vote_lottery_def fun_eq_iff Let_def)

lemma decide_vote_elections:
  "same_announced (ls_elections st) es \<Longrightarrow>
     decide_vote ext (st\<lparr>ls_elections := es\<rparr>) rb eb slot seen tx = decide_vote ext st rb eb slot seen tx"
  unfolding decide_vote_def Let_def same_announced_def vote_checks_elections by (simp split: option.splits)

lemma handle_slot_effect_fst:
  "fst (handle_slot_effect ext st tx e) = st \<or> (\<exists>rb. fst (handle_slot_effect ext st tx e) = ls_mark_voted st rb)"
  by (cases e) (auto split: sum.splits)

lemma handle_slot_effect_frame:
  "\<exists>es. fst (handle_slot_effect ext st tx e) = st\<lparr>ls_elections := es\<rparr> \<and> same_announced (ls_elections st) es"
  using handle_slot_effect_fst [of ext st tx e]
proof
  assume "fst (handle_slot_effect ext st tx e) = st"
  then show ?thesis by (intro exI [of _ "ls_elections st"]) (simp add: same_announced_def)
next
  assume "\<exists>rb. fst (handle_slot_effect ext st tx e) = ls_mark_voted st rb"
  then show ?thesis by (auto simp: ls_mark_voted_def same_announced_def)
qed

lemma handle_slot_effect_cong:
  "same_announced (ls_elections st) es \<Longrightarrow>
     snd (handle_slot_effect ext (st\<lparr>ls_elections := es\<rparr>) tx e) = snd (handle_slot_effect ext st tx e)"
  by (cases e) (auto simp: decide_vote_elections resolve_vote_def split: sum.splits vote_policy.splits)

lemma handle_slot_effects_frame:
  "\<exists>es. fst (handle_slot_effects ext st tx effs) = st\<lparr>ls_elections := es\<rparr> \<and> same_announced (ls_elections st) es \<and>
     snd (handle_slot_effects ext st tx effs) = concat (map (\<lambda>e. snd (handle_slot_effect ext st tx e)) effs)"
proof (induction effs arbitrary: st)
  case Nil
  show ?case by (auto simp: same_announced_def intro: exI [of _ "ls_elections st"])
next
  case (Cons e effs)
  obtain es1 where 1: "fst (handle_slot_effect ext st tx e) = st\<lparr>ls_elections := es1\<rparr>" "same_announced (ls_elections st) es1"
    using handle_slot_effect_frame by blast
  let ?st1 = "st\<lparr>ls_elections := es1\<rparr>"
  obtain es2 where 2: "fst (handle_slot_effects ext ?st1 tx effs) = ?st1\<lparr>ls_elections := es2\<rparr>"
    "same_announced es1 es2"
    "snd (handle_slot_effects ext ?st1 tx effs) = concat (map (\<lambda>e. snd (handle_slot_effect ext ?st1 tx e)) effs)"
    using Cons [of ?st1] by auto
  have "concat (map (\<lambda>e. snd (handle_slot_effect ext ?st1 tx e)) effs) =
      concat (map (\<lambda>e. snd (handle_slot_effect ext st tx e)) effs)"
    by (simp add: handle_slot_effect_cong [OF 1(2)])
  then show ?case
    using 1 2 by (intro exI [of _ es2]) (simp add: case_prod_unfold Let_def same_announced_def)
qed

lemma tx_tally_absent:
  "snd (snd (tx_tally tx hs (p, u, a))) = a + length (filter (\<lambda>h. tx h = Absent) hs)"
  by (induction hs arbitrary: p u a) (auto split: tx_availability.splits)

definition txs_present :: "leios_state \<Rightarrow> hash32 \<Rightarrow> (tx_id \<Rightarrow> tx_availability) \<Rightarrow> bool" where
  "txs_present st eb_hash tx_known =
     (case oget (ls_eb_tx_hashes st) eb_hash of None \<Rightarrow> True | Some (_, hs) \<Rightarrow> list_all (\<lambda>h. tx_known h \<noteq> Absent) hs)"

lemma missing_tx_check_None: "missing_tx_check st eb tx = None \<longleftrightarrow> txs_present st eb tx"
proof (cases "oget (ls_eb_tx_hashes st) eb")
  case (Some v)
  obtain s hs where v: "v = (s, hs)" by (cases v)
  show ?thesis
    using tx_tally_absent [of tx hs 0 0 0] Some v
    by (auto simp: missing_tx_check_def txs_present_def case_prod_unfold Let_def list_all_iff filter_empty_conv)
qed (simp add: missing_tx_check_def txs_present_def)

text \<open>The CIP-0164 conditions on a vote, together.\<close>

definition vote_allowed :: "leios_state \<Rightarrow> hash32 \<Rightarrow> hash32 \<Rightarrow> u64 \<Rightarrow> u64 \<Rightarrow> (tx_id \<Rightarrow> tx_availability) \<Rightarrow> bool" where
  "vote_allowed st rb_hash eb_hash eb_slot seen tx_known \<longleftrightarrow>
     saturating_sub seen eb_slot < 3 * pl_delta_hdr (ls_pipeline st) + pl_vote_window (ls_pipeline st) \<and>
     cx_tip_rb_hash (ls_chain_tip_ctx st) = Some rb_hash \<and>
     (\<exists>arrival. cx_rb_header_arrival_slot (ls_chain_tip_ctx st) = Some arrival \<and>
        arrival < eb_slot + pl_delta_hdr (ls_pipeline st)) \<and>
     eb_slot \<notin> cx_equivocating_slots (ls_chain_tip_ctx st) \<and>
     txs_present st eb_hash tx_known \<and> is_announced (ls_elections st) rb_hash"

lemma decide_vote_Inr:
  "decide_vote ext st rb eb slot seen tx = Inr r \<longleftrightarrow> vote_allowed st rb eb slot seen tx \<and> r = vote_lottery ext st eb slot"
  by (auto simp: decide_vote_def vote_allowed_def Let_def missing_tx_check_None [symmetric] not_le
      split: option.splits if_splits)

lemma in_es_on_slot:
  "EligibleToVote rb eb s seen \<in> set (snd (es_on_slot es slot)) \<longleftrightarrow>
     (\<exists>e. oget (es_elections es) rb = Some e \<and> el_eb_hash e = eb \<and> el_announced_slot e = s \<and> el_seen_slot e = seen \<and>
        \<not> el_voted e \<and> phase_for_elapsed (ec_pipeline (es_cfg es)) (saturating_sub slot s) = VotingPhase)"
proof -
  have mem: "c \<in> set (List.map_filter f xs) \<longleftrightarrow> (\<exists>x\<in>set xs. f x = Some c)" for f :: "'x \<Rightarrow> 'y option" and xs c
    by (induction xs) (auto simp: List.map_filter_simps split: option.splits)
  show ?thesis by (auto simp: es_on_slot_def Let_def mem Bex_def in_entries_iff split_paired_Ex)
qed

lemma es_on_slot_announced: "same_announced es (fst (es_on_slot es slot))"
  by (auto simp: same_announced_def is_announced_def es_on_slot_def Let_def oget_omap_values fun_eq_iff split: option.splits)

lemma emit_in_handle:
  "EmitVote s eb rb pv sig \<in> set (snd (handle_slot_effect ext st tx e)) \<longleftrightarrow>
     (\<exists>seen. e = EligibleToVote rb eb s seen \<and> vc_evaluate_votes (ls_voting_config st) \<and> lk_vote (ls_control st) = Honest \<and>
        vote_allowed st rb eb s seen tx \<and> (pv, sig) = vote_lottery ext st eb s \<and> (pv \<or> sig \<noteq> None))"
proof (cases e)
  case (EligibleToVote rb' eb' s' seen)
  let ?d = "resolve_vote st (decide_vote ext st rb' eb' s' seen tx)"
  have "EmitVote s eb rb pv sig \<in> set (snd (handle_slot_effect ext st tx e)) \<longleftrightarrow>
      vc_evaluate_votes (ls_voting_config st) \<and> rb = rb' \<and> eb = eb' \<and> s = s' \<and> ?d = Inr (pv, sig) \<and> (pv \<or> sig \<noteq> None)"
    by (auto simp: EligibleToVote split: sum.splits)
  moreover have "?d = Inr (pv, sig) \<longleftrightarrow>
      lk_vote (ls_control st) = Honest \<and> decide_vote ext st rb' eb' s' seen tx = Inr (pv, sig)"
    by (auto simp: resolve_vote_def split: vote_policy.splits)
  ultimately show ?thesis by (auto simp: decide_vote_Inr EligibleToVote)
qed simp

lemma prune_no_votes: "EmitVote s eb rb pv sig \<notin> set (snd (prune_chain_progress st m))"
proof -
  have "EmitVote s eb rb pv sig \<notin> set (expired_telemetry e)" for e by (cases e) auto
  then show ?thesis by (auto simp: prune_chain_progress_def case_prod_unfold Let_def)
qed

lemma leios_on_slot_votes:
  "EmitVote s eb rb pv sig \<in> set (snd (leios_on_slot ext st slot tx)) \<longleftrightarrow>
     (\<exists>e\<in>set (snd (es_on_slot (ls_elections st) slot)). EmitVote s eb rb pv sig \<in> set (snd (handle_slot_effect ext st tx e)))"
proof -
  define es where "es = fst (es_on_slot (ls_elections st) slot)"
  define effs where "effs = snd (es_on_slot (ls_elections st) slot)"
  let ?st1 = "st\<lparr>ls_elections := es\<rparr>"
  have fx: "snd (handle_slot_effects ext ?st1 tx effs) = concat (map (\<lambda>e. snd (handle_slot_effect ext st tx e)) effs)"
  proof -
    have "snd (handle_slot_effects ext ?st1 tx effs) = concat (map (\<lambda>e. snd (handle_slot_effect ext ?st1 tx e)) effs)"
      using handle_slot_effects_frame by blast
    then show ?thesis by (simp add: handle_slot_effect_cong es_on_slot_announced es_def)
  qed
  have "set (snd (leios_on_slot ext st slot tx)) = set (snd (handle_slot_effects ext ?st1 tx effs)) \<union>
      (case cx_tip_rb_slot (ls_chain_tip_ctx (fst (handle_slot_effects ext ?st1 tx effs))) of None \<Rightarrow> {}
       | Some m \<Rightarrow> set (snd (prune_chain_progress (fst (handle_slot_effects ext ?st1 tx effs)) m)))"
    by (simp add: leios_on_slot_def case_prod_unfold Let_def es_def effs_def split: option.splits)
  moreover have "EmitVote s eb rb pv sig \<notin>
      (case cx_tip_rb_slot (ls_chain_tip_ctx (fst (handle_slot_effects ext ?st1 tx effs))) of None \<Rightarrow> {}
       | Some m \<Rightarrow> set (snd (prune_chain_progress (fst (handle_slot_effects ext ?st1 tx effs)) m)))"
    using prune_no_votes by (simp split: option.splits)
  ultimately have "EmitVote s eb rb pv sig \<in> set (snd (leios_on_slot ext st slot tx)) \<longleftrightarrow>
      EmitVote s eb rb pv sig \<in> set (concat (map (\<lambda>e. snd (handle_slot_effect ext st tx e)) effs))"
    unfolding fx by blast
  then show ?thesis by (simp add: effs_def)
qed


subsection \<open>Runs of the state machine\<close>

inductive leios_step :: "'r leios_ext \<Rightarrow> leios_state \<Rightarrow> leios_state \<Rightarrow> leios_effect list \<Rightarrow> bool" for ext where
  ls_tip_context: "leios_step ext st (set_chain_tip_context st ctx) []"
| ls_slot: "leios_on_slot ext st slot tx_known = (st', fx) \<Longrightarrow> leios_step ext st st' fx"
| ls_eb_offered: "on_eb_offered ext st p peer now = (st', fx) \<Longrightarrow> leios_step ext st st' fx"
| ls_eb_txs_offered: "on_eb_txs_offered ext st p peer bitmap now = (st', fx) \<Longrightarrow> leios_step ext st st' fx"
| ls_next_wave: "initiate_next_leios_fetch_txs_wave ext st p bitmap now = (st', fx) \<Longrightarrow> leios_step ext st st' fx"
| ls_first_fetch: "initiate_first_eb_txs_fetch ext st p bitmap now = (st', fx) \<Longrightarrow> leios_step ext st st' fx"
| ls_txs_fetch: "initiate_eb_txs_fetch ext st p bitmap now = (st', fx) \<Longrightarrow> leios_step ext st st' fx"
| ls_eb_received: "on_eb_received ext st source p manifest = (st', fx) \<Longrightarrow> leios_step ext st st' fx"
| ls_eb_fetch_failed: "leios_step ext st (on_eb_fetch_failed st source p) []"
| ls_votes_received: "on_votes_received ext st votes = (st', fx) \<Longrightarrow> leios_step ext st st' fx"
| ls_validated_votes: "on_validated_votes ext st bodies = (st', fx) \<Longrightarrow> leios_step ext st st' fx"
| ls_eb_txs_received: "leios_step ext st (on_eb_txs_received st p) []"
| ls_validated_eb: "leios_step ext st (on_validated_eb st p) []"
| ls_endorsement: "leios_step ext st (on_chain_endorsement st slot eb) []"
| ls_match: "match_eb_tx_response st p hashed = (st', outcome) \<Longrightarrow> leios_step ext st st' []"
| ls_retry_txs: "retry_eb_tx_fetch st p bitmap = (st', fx) \<Longrightarrow> leios_step ext st st' fx"
| ls_retry_eb: "retry_eb_fetch st p now = (st', fx) \<Longrightarrow> leios_step ext st st' fx"
| ls_postponed: "leios_step ext st (snd (take_postponed_eb_tx_requests st)) []"
| ls_control: "leios_step ext st (leios_apply_control st control) []"
| ls_policies: "leios_step ext st (leios_set_rtt (set_eb_txs_policy (set_eb_policy st pol) txs_pol) rtt) []"

text \<open>What the operations other than the slot tick do to the elections, and that they emit no vote.\<close>

definition keeps_votes :: "leios_state \<Rightarrow> leios_state \<Rightarrow> leios_effect list \<Rightarrow> bool" where
  "keeps_votes st st' fx \<longleftrightarrow>
     (\<forall>rb e. oget (es_elections (ls_elections st)) rb = Some e \<longrightarrow>
        (\<exists>e'. oget (es_elections (ls_elections st')) rb = Some e' \<and> el_voted e' = el_voted e)) \<and>
     (\<forall>s eb rb pv sig. EmitVote s eb rb pv sig \<notin> set fx)"

lemma keeps_votes_refl: "(\<And>s eb rb pv sig. EmitVote s eb rb pv sig \<notin> set fx) \<Longrightarrow>
    ls_elections st' = ls_elections st \<Longrightarrow> keeps_votes st st' fx"
  by (simp add: keeps_votes_def)

lemma keeps_votes_trans: "keeps_votes st st1 xs \<Longrightarrow> keeps_votes st1 st2 ys \<Longrightarrow> keeps_votes st st2 (xs @ ys)"
  unfolding keeps_votes_def by (metis (no_types, lifting) Un_iff set_append)

lemma do_eb_fetch_keeps: "do_eb_fetch st p now = (st', fx) \<Longrightarrow> ls_elections st' = ls_elections st \<and>
    (\<forall>x\<in>set fx. \<exists>peers. x = FetchLeiosBlock p peers)"
  by (auto simp: do_eb_fetch_def leios_evict_stale_def Let_def case_prod_unfold split: if_splits)

lemma initiate_fetch_keeps: "initiate_eb_txs_fetch ext st p bitmap now = (st', fx) \<Longrightarrow> ls_elections st' = ls_elections st \<and>
    (\<forall>x\<in>set fx. \<exists>peers. x = FetchLeiosBlockTxs p bitmap peers)"
  by (auto simp: initiate_eb_txs_fetch_def Let_def split: if_splits point.splits)

lemma first_fetch_keeps: "initiate_first_eb_txs_fetch ext st p bitmap now = (st', fx) \<Longrightarrow> ls_elections st' = ls_elections st \<and>
    (\<forall>x\<in>set fx. \<exists>peers. x = FetchLeiosBlockTxs p bitmap peers)"
  by (auto simp: initiate_first_eb_txs_fetch_def dest!: initiate_fetch_keeps split: if_splits)

lemma validated_votes_keep: "keeps_votes st (fst (on_validated_votes ext st bodies)) (snd (on_validated_votes ext st bodies))"
proof (induction bodies arbitrary: st)
  case Nil
  show ?case by (rule keeps_votes_refl) simp_all
next
  case (Cons b bodies)
  define w where "w = weight_for (lx_from_seed ext) (lx_gen_f64 ext) (ls_elections st)
    (string_of_bytes (from_utf8_lossy (vv_voter_id b))) (vv_tag b) (vv_eligibility_signature b)"
  show ?case
  proof (cases "w = 0")
    case True
    then show ?thesis using Cons by (simp add: w_def)
  next
    case False
    obtain es formed where r: "es_record_vote (ls_elections st) (vv_announcing_rb_hash b) (vv_voter_id b @ [vv_tag b]) w = (es, formed)"
      by force
    have "keeps_votes st (st\<lparr>ls_elections := es\<rparr>) (quorum_telemetry formed)"
      using r by (auto simp: keeps_votes_def es_record_vote_def agg_record_vote_def quorum_telemetry_def case_prod_unfold
          Let_def oget_oput split: option.splits if_splits)
    from keeps_votes_trans [OF this Cons] False r show ?thesis
      by (simp add: w_def [symmetric] case_prod_unfold Let_def)
  qed
qed

lemma tip_context_keeps: "keeps_votes st (set_chain_tip_context st ctx) []"
  by (auto simp: keeps_votes_def set_chain_tip_context_def announce_from_rb_def mark_body_validated_def Let_def
      oget_oput oget_omap_values ohas_iff_Some split: option.splits)

lemma quiet_step_keeps:
  assumes "leios_step ext st st' fx"
  shows "keeps_votes st st' fx \<or> (\<exists>slot tx. leios_on_slot ext st slot tx = (st', fx))"
  using assms
proof cases
  case (ls_votes_received votes)
  then show ?thesis using validated_votes_keep [of st ext "resolve_votes st votes"] by (simp add: on_votes_received_def)
next
  case (ls_validated_votes bodies)
  then show ?thesis using validated_votes_keep [of st ext bodies] by simp
next
  case (ls_tip_context ctx)
  then show ?thesis using tip_context_keeps by simp
next
  case (ls_eb_offered p peer now)
  then show ?thesis
    by (auto simp: on_eb_offered_def dest!: do_eb_fetch_keeps intro!: keeps_votes_refl split: if_splits)
next
  case (ls_retry_eb p now)
  then show ?thesis by (auto simp: retry_eb_fetch_def dest!: do_eb_fetch_keeps intro!: keeps_votes_refl)
next
  case (ls_eb_txs_offered p peer bitmap now)
  then show ?thesis
    by (auto simp: on_eb_txs_offered_def leios_evict_stale_def Let_def dest!: first_fetch_keeps intro!: keeps_votes_refl
        split: if_splits point.splits)
next
  case (ls_next_wave p bitmap now)
  then show ?thesis
    by (auto simp: initiate_next_leios_fetch_txs_wave_def dest!: initiate_fetch_keeps intro!: keeps_votes_refl
        split: if_splits option.splits)
next
  case (ls_first_fetch p bitmap now)
  then show ?thesis by (auto dest!: first_fetch_keeps intro!: keeps_votes_refl)
next
  case (ls_txs_fetch p bitmap now)
  then show ?thesis by (auto dest!: initiate_fetch_keeps intro!: keeps_votes_refl)
next
  case (ls_eb_received source p manifest)
  then show ?thesis
    by (auto simp: on_eb_received_def ls_finish_eb_fetch_def case_prod_unfold Let_def intro!: keeps_votes_refl
        split: if_splits option.splits point.splits)
next
  case (ls_match p hashed outcome)
  then show ?thesis
    by (auto simp: match_eb_tx_response_def Let_def intro!: keeps_votes_refl split: option.splits point.splits)
next
  case (ls_retry_txs p bitmap)
  then show ?thesis
    by (auto simp: retry_eb_tx_fetch_def case_prod_unfold Let_def intro!: keeps_votes_refl split: if_splits)
next
  case (ls_validated_eb p)
  then show ?thesis
    by (auto simp: keeps_votes_def on_validated_eb_def mark_body_validated_def oget_omap_values split: point.splits)
qed (auto intro!: keeps_votes_refl simp: on_eb_fetch_failed_def ls_finish_eb_fetch_def on_eb_txs_received_def
      on_chain_endorsement_def take_postponed_eb_tx_requests_def leios_apply_control_def leios_set_rtt_def
      set_eb_txs_policy_def set_eb_policy_def case_prod_unfold Let_def)

subsection \<open>A live election is voted at most once\<close>

fun is_vote_for :: "hash32 \<Rightarrow> leios_effect \<Rightarrow> bool" where
  "is_vote_for rb (EmitVote _ _ rb' _ _) = (rb' = rb)"
| "is_vote_for rb _ = False"

definition votes_for :: "hash32 \<Rightarrow> leios_effect list \<Rightarrow> nat" where
  "votes_for rb fx = length (filter (is_vote_for rb) fx)"

lemma votes_for_append [simp]: "votes_for rb (xs @ ys) = votes_for rb xs + votes_for rb ys"
  by (simp add: votes_for_def)

lemma votes_for_zero: "(\<And>s eb pv sig. EmitVote s eb rb pv sig \<notin> set fx) \<Longrightarrow> votes_for rb fx = 0"
proof -
  assume no: "\<And>s eb pv sig. EmitVote s eb rb pv sig \<notin> set fx"
  have "\<not> is_vote_for rb x" if "x \<in> set fx" for x using no that by (cases x) auto
  then show ?thesis by (simp add: votes_for_def filter_empty_conv)
qed

lemma votes_for_handle:
  "votes_for rb (snd (handle_slot_effect ext st tx e)) \<le> (case e of EligibleToVote rb' _ _ _ \<Rightarrow> if rb' = rb then 1 else 0 | _ \<Rightarrow> 0)"
  by (cases e) (auto simp: votes_for_def split: sum.splits)

lemma handle_marks:
  "es_voted (ls_elections st) rb \<Longrightarrow> es_voted (ls_elections (fst (handle_slot_effect ext st tx e))) rb"
  "ohas (es_elections (ls_elections st)) rb \<Longrightarrow> votes_for rb (snd (handle_slot_effect ext st tx e)) > 0 \<Longrightarrow>
     es_voted (ls_elections (fst (handle_slot_effect ext st tx e))) rb"
  "ohas (es_elections (ls_elections (fst (handle_slot_effect ext st tx e)))) rb = ohas (es_elections (ls_elections st)) rb"
  by (cases e; auto simp: votes_for_def ls_mark_voted_def mark_voted_def es_voted_def oget_oupdate ohas_def
      split: sum.splits option.splits if_splits)+

definition eff_key :: "slot_effect \<Rightarrow> hash32" where
  "eff_key e = (case e of EligibleToVote rb _ _ _ \<Rightarrow> rb | Expired eb _ _ _ _ _ \<Rightarrow> eb)"

lemma map_filter_pairs:
  "List.map_filter (\<lambda>(a, b). if P a b then Some (g a b) else None) xs = map (\<lambda>(a, b). g a b) (filter (\<lambda>(a, b). P a b) xs)"
  by (induction xs) (auto simp: List.map_filter_simps)

lemma es_on_slot_effects:
  "\<forall>e\<in>set (snd (es_on_slot es slot)). \<exists>rb eb s seen. e = EligibleToVote rb eb s seen"
  "distinct (map eff_key (snd (es_on_slot es slot)))"
proof -
  define open_es where "open_es = filter (\<lambda>(_, e). phase_for_elapsed (ec_pipeline (es_cfg es)) (saturating_sub slot (el_announced_slot e)) = VotingPhase
    \<and> \<not> el_voted e) (entries (es_elections es))"
  have eq: "snd (es_on_slot es slot) =
      map (\<lambda>(rb, e). EligibleToVote rb (el_eb_hash e) (el_announced_slot e) (el_seen_slot e)) open_es"
    by (simp add: es_on_slot_def Let_def map_filter_pairs open_es_def)
  show "\<forall>e\<in>set (snd (es_on_slot es slot)). \<exists>rb eb s seen. e = EligibleToVote rb eb s seen"
    unfolding eq by auto
  have "map eff_key (snd (es_on_slot es slot)) = map fst open_es"
    unfolding eq by (simp add: eff_key_def case_prod_unfold comp_def)
  then show "distinct (map eff_key (snd (es_on_slot es slot)))" by (simp add: open_es_def)
qed

lemma handle_effects_votes:
  assumes "distinct (map eff_key effs)" and "\<forall>e\<in>set effs. \<exists>rb eb s seen. e = EligibleToVote rb eb s seen"
    and "ohas (es_elections (ls_elections st)) rb"
  shows "votes_for rb (snd (handle_slot_effects ext st tx effs)) \<le> (if rb \<in> eff_key ` set effs then 1 else 0) \<and>
    (es_voted (ls_elections st) rb \<or> votes_for rb (snd (handle_slot_effects ext st tx effs)) > 0 \<longrightarrow>
       es_voted (ls_elections (fst (handle_slot_effects ext st tx effs))) rb) \<and>
    ohas (es_elections (ls_elections (fst (handle_slot_effects ext st tx effs)))) rb"
  using assms
proof (induction effs arbitrary: st)
  case Nil
  then show ?case by (simp add: votes_for_def)
next
  case (Cons e effs)
  define st1 where "st1 = fst (handle_slot_effect ext st tx e)"
  have has1: "ohas (es_elections (ls_elections st1)) rb" using Cons.prems(3) by (simp add: st1_def handle_marks(3))
  have key: "votes_for rb (snd (handle_slot_effect ext st tx e)) \<le> (if eff_key e = rb then 1 else 0)"
    using votes_for_handle [of rb ext st tx e] by (auto simp: eff_key_def split: slot_effect.splits if_splits)
  have "votes_for rb (snd (handle_slot_effects ext st1 tx effs)) \<le> (if rb \<in> eff_key ` set effs then 1 else 0)"
    "es_voted (ls_elections st1) rb \<or> votes_for rb (snd (handle_slot_effects ext st1 tx effs)) > 0 \<longrightarrow>
       es_voted (ls_elections (fst (handle_slot_effects ext st1 tx effs))) rb"
    "ohas (es_elections (ls_elections (fst (handle_slot_effects ext st1 tx effs)))) rb"
    using Cons.IH [OF _ _ has1] Cons.prems(1,2) by auto
  moreover have "es_voted (ls_elections st) rb \<or> votes_for rb (snd (handle_slot_effect ext st tx e)) > 0 \<Longrightarrow>
      es_voted (ls_elections st1) rb"
    using handle_marks(1,2) Cons.prems(3) by (auto simp: st1_def)
  moreover have "eff_key e = rb \<Longrightarrow> rb \<notin> eff_key ` set effs" using Cons.prems(1) by auto
  ultimately show ?case
    using key by (auto simp: case_prod_unfold Let_def st1_def [symmetric] split: if_splits)
qed

lemma es_on_slot_voted:
  "es_voted (fst (es_on_slot es slot)) rb = es_voted es rb"
  "ohas (es_elections (fst (es_on_slot es slot))) rb = ohas (es_elections es) rb"
  by (auto simp: es_voted_def es_on_slot_def Let_def oget_omap_values ohas_def split: option.splits)

lemma prune_voted:
  "ohas (es_elections (ls_elections (fst (prune_chain_progress st m)))) rb \<Longrightarrow>
     es_voted (ls_elections (fst (prune_chain_progress st m))) rb = es_voted (ls_elections st) rb"
  by (auto simp: prune_chain_progress_def prune_below_slot_def es_voted_def oget_oretain ohas_def
      split: option.splits if_splits)

lemma voted_no_effect: "es_voted es rb \<Longrightarrow> rb \<notin> eff_key ` set (snd (es_on_slot es slot))"
proof
  assume v: "es_voted es rb" and "rb \<in> eff_key ` set (snd (es_on_slot es slot))"
  then obtain e where e: "e \<in> set (snd (es_on_slot es slot))" "rb = eff_key e" by blast
  then obtain rb' eb s seen where el: "e = EligibleToVote rb' eb s seen" using es_on_slot_effects(1) by blast
  then show False using e v by (auto simp: in_es_on_slot es_voted_def eff_key_def)
qed

definition voted_bit :: "leios_state \<Rightarrow> hash32 \<Rightarrow> nat" where
  "voted_bit st rb = (if es_voted (ls_elections st) rb then 1 else 0)"

lemma on_slot_votes_once:
  assumes "leios_on_slot ext st slot tx = (st', fx)" and "ohas (es_elections (ls_elections st)) rb"
    and "ohas (es_elections (ls_elections st')) rb"
  shows "voted_bit st rb + votes_for rb fx \<le> voted_bit st' rb"
proof -
  define es where "es = fst (es_on_slot (ls_elections st) slot)"
  define effs where "effs = snd (es_on_slot (ls_elections st) slot)"
  let ?st1 = "st\<lparr>ls_elections := es\<rparr>"
  define st2 where "st2 = fst (handle_slot_effects ext ?st1 tx effs)"
  define fx2 where "fx2 = snd (handle_slot_effects ext ?st1 tx effs)"
  have has: "ohas (es_elections (ls_elections ?st1)) rb" using assms(2) by (simp add: es_def es_on_slot_voted)
  note h = handle_effects_votes [of effs ?st1 rb ext tx, OF _ _ has, folded st2_def fx2_def]
  have h: "votes_for rb fx2 \<le> (if rb \<in> eff_key ` set effs then 1 else 0)"
    "es_voted (ls_elections st) rb \<or> votes_for rb fx2 > 0 \<Longrightarrow> es_voted (ls_elections st2) rb"
    using h es_on_slot_effects by (auto simp: effs_def es_def es_on_slot_voted)
  have "voted_bit st rb + votes_for rb fx2 \<le> voted_bit st2 rb"
    using h voted_no_effect [of "ls_elections st" rb slot] by (auto simp: voted_bit_def effs_def split: if_splits)
  moreover have "voted_bit st' rb = voted_bit st2 rb \<and> votes_for rb fx = votes_for rb fx2"
  proof (cases "cx_tip_rb_slot (ls_chain_tip_ctx st2)")
    case None
    then have "st' = st2" "fx = fx2"
      using assms(1) by (simp_all add: leios_on_slot_def case_prod_unfold Let_def st2_def fx2_def es_def effs_def)
    then show ?thesis by simp
  next
    case (Some m)
    then have r: "st' = fst (prune_chain_progress st2 m)" "fx = fx2 @ snd (prune_chain_progress st2 m)"
      using assms(1) by (auto simp: leios_on_slot_def case_prod_unfold Let_def st2_def fx2_def es_def effs_def)
    have "votes_for rb (snd (prune_chain_progress st2 m)) = 0" by (rule votes_for_zero) (rule prune_no_votes)
    then show ?thesis using r prune_voted [of st2 m rb] assms(3) by (simp add: voted_bit_def)
  qed
  ultimately show ?thesis by simp
qed

lemma step_votes_once:
  assumes "leios_step ext st st' fx" and "ohas (es_elections (ls_elections st)) rb"
    and "ohas (es_elections (ls_elections st')) rb"
  shows "voted_bit st rb + votes_for rb fx \<le> voted_bit st' rb"
  using quiet_step_keeps [OF assms(1)]
proof
  assume k: "keeps_votes st st' fx"
  then have "votes_for rb fx = 0" by (intro votes_for_zero) (simp add: keeps_votes_def)
  moreover have "es_voted (ls_elections st') rb = es_voted (ls_elections st) rb"
    using k assms(2) by (auto simp: keeps_votes_def es_voted_def ohas_iff_Some dest!: spec [of _ rb])
  ultimately show ?thesis by (simp add: voted_bit_def)
next
  assume "\<exists>slot tx. leios_on_slot ext st slot tx = (st', fx)"
  then show ?thesis using on_slot_votes_once assms(2,3) by blast
qed

inductive live_run :: "'r leios_ext \<Rightarrow> hash32 \<Rightarrow> leios_state \<Rightarrow> leios_effect list \<Rightarrow> leios_state \<Rightarrow> bool" for ext rb st where
  live_start: "ohas (es_elections (ls_elections st)) rb \<Longrightarrow> live_run ext rb st [] st"
| live_step: "live_run ext rb st fx st1 \<Longrightarrow> leios_step ext st1 st2 fx2 \<Longrightarrow>
     ohas (es_elections (ls_elections st2)) rb \<Longrightarrow> live_run ext rb st (fx @ fx2) st2"

lemma live_run_votes:
  "live_run ext rb st fx st' \<Longrightarrow> ohas (es_elections (ls_elections st')) rb \<and> voted_bit st rb + votes_for rb fx \<le> voted_bit st' rb"
proof (induction rule: live_run.induct)
  case live_start
  then show ?case by (simp add: votes_for_def)
next
  case (live_step fx st1 st2 fx2)
  then show ?case using step_votes_once [OF live_step.hyps(2), of rb] by simp
qed

text \<open>C13: over any run of the state machine during which an election stays live, at most one vote is emitted
  for it, and none if it was already voted.\<close>

theorem live_election_voted_once:
  assumes "live_run ext rb st fx st'"
  shows "votes_for rb fx \<le> 1 \<and> (es_voted (ls_elections st) rb \<longrightarrow> votes_for rb fx = 0)"
proof -
  have "voted_bit st rb + votes_for rb fx \<le> voted_bit st' rb" using live_run_votes [OF assms] by blast
  moreover have "voted_bit st' rb \<le> 1" by (simp add: voted_bit_def)
  ultimately show ?thesis by (auto simp: voted_bit_def split: if_splits)
qed

subsection \<open>A sample state\<close>

definition leios_sample_cfg :: elections_config where
  "leios_sample_cfg = \<lparr>ec_pipeline = \<lparr>pl_delta_hdr = 1, pl_vote_window = 4, pl_diffuse_window = 7, pl_dedup_window = 20\<rparr>,
     ec_committee_selection = EveryoneVotes, ec_persistent_committee = oempty, ec_stake_registry = oempty,
     ec_total_stake = 100, ec_expected_total_weight = 10, ec_quorum_weight_fraction = Fin 1\<rparr>"

definition sample_voting :: voting_config where
  "sample_voting = \<lparr>vc_committee_selection = EveryoneVotes, vc_stake = 10, vc_total_stake = 100,
     vc_persistent_vote_bytes = 0, vc_non_persistent_vote_bytes = 0, vc_persistent_seats = 1,
     vc_retry_vote_in_window = True, vc_evaluate_votes = True\<rparr>"

definition sample_tip :: chain_tip_context where
  "sample_tip = \<lparr>cx_equivocating_slots = {}, cx_rb_header_arrival_slot = Some 10, cx_eb_announcement = Some 6,
     cx_tip_rb_hash = Some 5, cx_tip_rb_slot = Some 10\<rparr>"

definition sample_leios :: leios_state where
  "sample_leios = on_validated_eb (set_chain_tip_context
     (leios_new ''node-0'' (elections_new leios_sample_cfg) sample_voting (ec_pipeline leios_sample_cfg) 2) sample_tip) (Specific 10 6)"

lemma sample_has: "ohas (es_elections (ls_elections sample_leios)) 5"
  by (simp add: sample_leios_def on_validated_eb_def set_chain_tip_context_def leios_new_def leios_with_fetch_def
      sample_tip_def announce_from_rb_def elections_new_def mark_body_validated_def Let_def ohas_def oget_omap_values oget_oput)

lemma sample_votes:
  "votes_for 5 (snd (leios_on_slot ext sample_leios 14 tx)) = 1 \<and>
   ohas (es_elections (ls_elections (fst (leios_on_slot ext sample_leios 14 tx)))) 5"
  by (simp add: sample_leios_def on_validated_eb_def set_chain_tip_context_def leios_new_def leios_with_fetch_def
      sample_tip_def announce_from_rb_def elections_new_def mark_body_validated_def Let_def ohas_def oget_omap_values oget_oput
      leios_on_slot_def es_on_slot_def leios_sample_cfg_def sample_voting_def phase_for_elapsed_def saturating_sub_def
      List.map_filter_simps resolve_vote_def decide_vote_def missing_tx_check_def is_announced_def vote_lottery_def
      prune_chain_progress_def prune_below_slot_def votes_for_def ls_mark_voted_def mark_voted_def oupdate_def oget_oretain)

definition sample_ext :: "unit leios_ext" where
  "sample_ext = \<lparr>lx_hasher = \<lambda>_ _. 0, lx_blake2b_48 = \<lambda>bs. bs, lx_from_seed = \<lambda>_. (), lx_gen_f64 = \<lambda>_. (Fin 0, ())\<rparr>"

lemma sample_run:
  "live_run sample_ext 5 sample_leios (snd (leios_on_slot sample_ext sample_leios 14 (\<lambda>_. Absent)))
     (fst (leios_on_slot sample_ext sample_leios 14 (\<lambda>_. Absent)))"
proof -
  let ?r = "leios_on_slot sample_ext sample_leios 14 (\<lambda>_. Absent)"
  have step: "leios_step sample_ext sample_leios (fst ?r) (snd ?r)" by (rule leios_step.ls_slot) simp
  have has: "ohas (es_elections (ls_elections (fst ?r))) 5" using sample_votes by blast
  from live_run.live_step [OF live_run.live_start [OF sample_has] step has] show ?thesis by simp
qed

lemma live_election_voted_once_witness:
  "votes_for 5 (snd (leios_on_slot sample_ext sample_leios 14 (\<lambda>_. Absent))) \<le> 1 \<and>
   votes_for 5 (snd (leios_on_slot sample_ext sample_leios 14 (\<lambda>_. Absent))) = 1"
  using live_election_voted_once [OF sample_run] sample_votes by blast

subsection \<open>Chain progress\<close>

definition election_tally :: "eb_election \<Rightarrow> u64 \<times> hash32 \<times> (voter_key, u64) omap \<times> bool" where
  "election_tally e = (el_announced_slot e, el_eb_hash e, el_voter_weights e, el_quorum_reached e)"

definition same_tally :: "elections \<Rightarrow> elections \<Rightarrow> bool" where
  "same_tally es es' \<longleftrightarrow> es_cfg es' = es_cfg es \<and>
     (\<forall>rb. map_option election_tally (oget (es_elections es') rb) = map_option election_tally (oget (es_elections es) rb))"

lemma same_tally_trans: "same_tally a b \<Longrightarrow> same_tally b c \<Longrightarrow> same_tally a c"
  by (simp add: same_tally_def)

lemma same_tally_mark_voted: "same_tally es (mark_voted es rb)"
proof -
  have "map_option election_tally (oget (es_elections (mark_voted es rb)) k) = map_option election_tally (oget (es_elections es) k)" for k
    by (cases "oget (es_elections es) k") (auto simp: mark_voted_def oget_oupdate election_tally_def)
  then show ?thesis by (simp add: same_tally_def mark_voted_def)
qed

lemma same_tally_on_slot: "same_tally es (fst (es_on_slot es slot))"
proof -
  have "map_option election_tally (oget (es_elections (fst (es_on_slot es slot))) k) = map_option election_tally (oget (es_elections es) k)" for k
    by (cases "oget (es_elections es) k") (auto simp: es_on_slot_def Let_def oget_omap_values election_tally_def)
  then show ?thesis by (simp add: same_tally_def es_on_slot_def Let_def)
qed

lemma same_tally_cases:
  assumes "same_tally es es'"
  shows "oget (es_elections es) rb = None \<and> oget (es_elections es') rb = None \<or>
    (\<exists>e e'. oget (es_elections es) rb = Some e \<and> oget (es_elections es') rb = Some e' \<and> election_tally e' = election_tally e)"
  using assms by (cases "oget (es_elections es) rb"; cases "oget (es_elections es') rb")
    (auto simp: same_tally_def dest!: spec [of _ rb])

lemma tally_eqD:
  "election_tally e' = election_tally e \<Longrightarrow> el_announced_slot e' = el_announced_slot e \<and> el_quorum_reached e' = el_quorum_reached e \<and>
     voted_weight e' = voted_weight e \<and> olen (el_voter_weights e') = olen (el_voter_weights e)"
  by (simp add: election_tally_def voted_weight_def)

lemma same_tally_handle: "same_tally (ls_elections st) (ls_elections (fst (handle_slot_effects ext st tx effs)))"
proof (induction effs arbitrary: st)
  case (Cons e effs)
  have "same_tally (ls_elections st) (ls_elections (fst (handle_slot_effect ext st tx e)))"
    using handle_slot_effect_fst [of ext st tx e] same_tally_mark_voted
    by (auto simp: ls_mark_voted_def same_tally_def)
  from same_tally_trans [OF this Cons] show ?case by (simp add: case_prod_unfold Let_def)
qed (simp add: same_tally_def)

lemma handle_no_expiry:
  assumes "\<forall>e\<in>set effs. \<exists>rb eb s seen. e = EligibleToVote rb eb s seen"
  shows "EmitTelemetry x \<notin> set (snd (handle_slot_effects ext st tx effs))"
  using assms
proof (induction effs arbitrary: st)
  case (Cons e effs)
  then obtain rb eb s seen where "e = EligibleToVote rb eb s seen" by auto
  then have "EmitTelemetry x \<notin> set (snd (handle_slot_effect ext st tx e))" by (auto split: sum.splits)
  then show ?case using Cons by (simp add: case_prod_unfold Let_def)
qed simp

lemma in_pruned_expiries:
  "EmitTelemetry (ElectionExpired s q w v x) \<in> set (snd (prune_chain_progress st m)) \<longleftrightarrow>
     (\<exists>rb e. oget (es_elections (ls_elections st)) rb = Some e \<and> el_announced_slot e < m \<and> s = el_announced_slot e \<and>
        q = el_quorum_reached e \<and> w = voted_weight e \<and> v = olen (el_voter_weights e) \<and>
        x = ec_expected_total_weight (es_cfg (ls_elections st)))"
  by (auto simp: prune_chain_progress_def prune_below_slot_def expired_effect_def case_prod_unfold Let_def Bex_def
      in_entries_iff split_paired_Ex)

lemma same_tally_expiries:
  assumes "same_tally es es'"
  shows "(\<exists>rb e. oget (es_elections es') rb = Some e \<and> el_announced_slot e < m \<and> s = el_announced_slot e \<and>
        q = el_quorum_reached e \<and> w = voted_weight e \<and> v = olen (el_voter_weights e) \<and>
        x = ec_expected_total_weight (es_cfg es')) \<longleftrightarrow>
    (\<exists>rb e. oget (es_elections es) rb = Some e \<and> el_announced_slot e < m \<and> s = el_announced_slot e \<and>
        q = el_quorum_reached e \<and> w = voted_weight e \<and> v = olen (el_voter_weights e) \<and>
        x = ec_expected_total_weight (es_cfg es))"
  (is "(\<exists>rb. ?L rb) \<longleftrightarrow> (\<exists>rb. ?R rb)")
proof -
  have cfg: "es_cfg es' = es_cfg es" using assms by (simp add: same_tally_def)
  have "?L rb = ?R rb" for rb
    using same_tally_cases [OF assms, of rb] by (auto simp: cfg dest!: tally_eqD)
  then show ?thesis by simp
qed

lemma pruned_tally:
  assumes "same_tally es (ls_elections st)"
  shows "map_option election_tally (oget (es_elections (ls_elections (fst (prune_chain_progress st m)))) rb) =
    (case oget (es_elections es) rb of
       Some e \<Rightarrow> if m \<le> el_announced_slot e then Some (election_tally e) else None | None \<Rightarrow> None)"
proof -
  have slot: "election_tally e' = election_tally e \<Longrightarrow> el_announced_slot e' = el_announced_slot e" for e e'
    using tally_eqD by blast
  show ?thesis
    using same_tally_cases [OF assms, of rb]
    by (elim disjE exE conjE, simp_all add: prune_chain_progress_def prune_below_slot_def oget_oretain not_less)
      (drule slot, simp)
qed

lemma oget_oretain_Some: "oget (oretain P m) k = Some v \<longleftrightarrow> oget m k = Some v \<and> P k v"
  by (auto simp: oget_oretain split: option.splits if_splits)

text \<open>Once a tip is adopted, a slot tick drops exactly the per-block state announced before the tip's slot:
  manifests, pending transaction requests, endorsements, validated bodies, fetch waves and elections; what it keeps is
  unchanged, and every dropped election is reported with its final tally.\<close>

theorem slot_prunes_dead_ebs:
  assumes "cx_tip_rb_slot (ls_chain_tip_ctx st) = Some m"
  shows "\<exists>st' fx. leios_on_slot ext st slot tx_known = (st', fx) \<and>
    (\<forall>h v. oget (ls_eb_tx_hashes st') h = Some v \<longleftrightarrow> oget (ls_eb_tx_hashes st) h = Some v \<and> m \<le> fst v) \<and>
    (\<forall>h v. oget (ls_pending_eb_tx_fetches st') h = Some v \<longleftrightarrow> oget (ls_pending_eb_tx_fetches st) h = Some v \<and> m \<le> fst v) \<and>
    (\<forall>h s. oget (ls_endorsed_unvalidated_ebs st') h = Some s \<longleftrightarrow> oget (ls_endorsed_unvalidated_ebs st) h = Some s \<and> m \<le> s) \<and>
    (\<forall>h s. oget (ls_validated_eb_bodies st') h = Some s \<longleftrightarrow> oget (ls_validated_eb_bodies st) h = Some s \<and> m \<le> s) \<and>
    ls_next_fetch_txs_wave st' = {p \<in> ls_next_fetch_txs_wave st. slot_at_least m p} \<and>
    (\<forall>p n. oget (ls_leios_fetch_txs_waves_count st') p = Some n \<longleftrightarrow>
       oget (ls_leios_fetch_txs_waves_count st) p = Some n \<and> slot_at_least m p) \<and>
    (\<forall>rb. map_option election_tally (oget (es_elections (ls_elections st')) rb) =
       (case oget (es_elections (ls_elections st)) rb of
          Some e \<Rightarrow> if m \<le> el_announced_slot e then Some (election_tally e) else None | None \<Rightarrow> None)) \<and>
    (\<forall>s q w v x. EmitTelemetry (ElectionExpired s q w v x) \<in> set fx \<longleftrightarrow>
       (\<exists>rb e. oget (es_elections (ls_elections st)) rb = Some e \<and> el_announced_slot e < m \<and> s = el_announced_slot e \<and>
          q = el_quorum_reached e \<and> w = voted_weight e \<and> v = olen (el_voter_weights e) \<and>
          x = ec_expected_total_weight (es_cfg (ls_elections st))))"
proof -
  define effs where "effs = snd (es_on_slot (ls_elections st) slot)"
  define st1 where "st1 = st\<lparr>ls_elections := fst (es_on_slot (ls_elections st) slot)\<rparr>"
  define st2 where "st2 = fst (handle_slot_effects ext st1 tx_known effs)"
  define fx2 where "fx2 = snd (handle_slot_effects ext st1 tx_known effs)"
  obtain es2 where st2: "st2 = st\<lparr>ls_elections := es2\<rparr>"
    using handle_slot_effects_frame [of ext st1 tx_known effs] by (auto simp: st2_def st1_def)
  have "same_tally (ls_elections st) (ls_elections st1)" unfolding st1_def using same_tally_on_slot by simp
  from same_tally_trans [OF this same_tally_handle, of ext tx_known effs, folded st2_def]
  have same: "same_tally (ls_elections st) (ls_elections st2)" .
  have "leios_on_slot ext st slot tx_known = (case cx_tip_rb_slot (ls_chain_tip_ctx st2) of None \<Rightarrow> (st2, fx2)
      | Some m \<Rightarrow> (fst (prune_chain_progress st2 m), fx2 @ snd (prune_chain_progress st2 m)))"
    by (simp add: leios_on_slot_def case_prod_unfold Let_def effs_def fx2_def st1_def st2_def split: option.splits)
  then have r: "leios_on_slot ext st slot tx_known = (fst (prune_chain_progress st2 m), fx2 @ snd (prune_chain_progress st2 m))"
    using assms by (simp add: st2)
  have none: "EmitTelemetry x \<notin> set fx2" for x
    unfolding fx2_def effs_def by (rule handle_no_expiry) (rule es_on_slot_effects(1))
  show ?thesis
    unfolding r
    by (intro exI conjI, rule refl)
      (simp_all add: pruned_tally [OF same] none in_pruned_expiries same_tally_expiries [OF same],
       auto simp: prune_chain_progress_def case_prod_unfold Let_def st2 oget_oretain_Some)
qed

definition sample_later :: leios_state where
  "sample_later = sample_leios\<lparr>ls_chain_tip_ctx := sample_tip\<lparr>cx_tip_rb_slot := Some 11\<rparr>\<rparr>"

lemma sample_later_slot: "cx_tip_rb_slot (ls_chain_tip_ctx sample_later) = Some 11"
  by (simp add: sample_later_def)

lemma sample_later_election:
  "\<exists>e. oget (es_elections (ls_elections sample_later)) 5 = Some e \<and> el_announced_slot e = 10"
  by (simp add: sample_later_def sample_leios_def on_validated_eb_def set_chain_tip_context_def leios_new_def
      leios_with_fetch_def sample_tip_def announce_from_rb_def elections_new_def mark_body_validated_def Let_def
      oget_omap_values oget_oput)

lemma slot_prunes_dead_ebs_witness:
  "oget (es_elections (ls_elections (fst (leios_on_slot sample_ext sample_later 14 (\<lambda>_. Absent))))) 5 = None \<and>
   (\<exists>q w v x. EmitTelemetry (ElectionExpired 10 q w v x) \<in> set (snd (leios_on_slot sample_ext sample_later 14 (\<lambda>_. Absent))))"
proof -
  obtain e where e: "oget (es_elections (ls_elections sample_later)) 5 = Some e" "el_announced_slot e = 10"
    using sample_later_election by blast
  obtain st' fx where r: "leios_on_slot sample_ext sample_later 14 (\<lambda>_. Absent) = (st', fx)"
    and gone: "map_option election_tally (oget (es_elections (ls_elections st')) 5) =
       (case oget (es_elections (ls_elections sample_later)) 5 of
          Some e \<Rightarrow> if 11 \<le> el_announced_slot e then Some (election_tally e) else None | None \<Rightarrow> None)"
    and expired: "\<And>s q w v x. EmitTelemetry (ElectionExpired s q w v x) \<in> set fx \<longleftrightarrow>
       (\<exists>rb e. oget (es_elections (ls_elections sample_later)) rb = Some e \<and> el_announced_slot e < 11 \<and> s = el_announced_slot e \<and>
          q = el_quorum_reached e \<and> w = voted_weight e \<and> v = olen (el_voter_weights e) \<and>
          x = ec_expected_total_weight (es_cfg (ls_elections sample_later)))"
    using slot_prunes_dead_ebs [OF sample_later_slot, of sample_ext 14 "\<lambda>_. Absent"]
  proof (elim exE conjE, goal_cases)
    case (1 st' fx)
    show ?case by (rule 1(1) [OF 1(2) 1(9) [THEN spec]]) (rule 1(10) [THEN spec, THEN spec, THEN spec, THEN spec, THEN spec])
  qed
  have "oget (es_elections (ls_elections st')) 5 = None" using gone e by simp
  moreover have "EmitTelemetry (ElectionExpired 10 (el_quorum_reached e) (voted_weight e) (olen (el_voter_weights e))
      (ec_expected_total_weight (es_cfg (ls_elections sample_later)))) \<in> set fx"
    unfolding expired using e by (intro exI [of _ 5] exI [of _ e]) simp
  ultimately show ?thesis using r by auto
qed

subsection \<open>Matching a response with transaction bodies\<close>

lemma map_filter_upt_entries:
  fixes f :: "nat \<Rightarrow> 'v option"
  defines "kvs n \<equiv> List.map_filter (\<lambda>k. map_option (Pair k) (f k)) [0..<n]"
  shows "sorted_wrt (<) (map fst (kvs n))" and "map_of (kvs n) k = (if k < n then f k else None)"
    and "map snd (kvs n) = List.map_filter f [0..<n]"
proof -
  have step: "kvs (Suc n) = kvs n @ (case f n of None \<Rightarrow> [] | Some v \<Rightarrow> [(n, v)])" for n
    by (simp add: kvs_def map_filter_append List.map_filter_simps split: option.splits)
  have bound: "fst ` set (kvs n) \<subseteq> {..<n}" for n
    by (induction n) (auto simp: step kvs_def [of 0] List.map_filter_simps split: option.splits)
  show "sorted_wrt (<) (map fst (kvs n))"
    using bound by (induction n) (fastforce simp: step kvs_def [of 0] List.map_filter_simps sorted_wrt_append split: option.splits)+
  have none: "map_of (kvs n) n = None" for n using bound [of n] by (auto simp: map_of_eq_None_iff)
  show "map_of (kvs n) k = (if k < n then f k else None)"
    using none by (induction n) (auto simp: step kvs_def [of 0] List.map_filter_simps map_add_def less_Suc_eq split: option.splits)
  show "map snd (kvs n) = List.map_filter f [0..<n]"
    by (induction n) (auto simp: step kvs_def [of 0] List.map_filter_simps map_filter_append split: option.splits)
qed

lemma ovalues_upt:
  assumes "\<And>k. oget m k = (if k < n then f k else None)"
  shows "ovalues m = List.map_filter f [0..<n]"
proof -
  have "entries m = List.map_filter (\<lambda>k. map_option (Pair k) (f k)) [0..<n]"
    by (rule sorted_keys_unique [OF sorted_entries map_filter_upt_entries(1)])
      (simp add: fun_eq_iff map_filter_upt_entries(2) oget_entries [symmetric] assms)
  then show ?thesis by (simp add: ovalues_def map_filter_upt_entries(3))
qed

lemma map_filter_nth: "List.map_filter (\<lambda>k. g (xs ! k)) [0..<length xs] = List.map_filter g xs"
proof -
  have "List.map_filter g (map (\<lambda>k. xs ! k) [0..<length xs]) = List.map_filter (\<lambda>k. g (xs ! k)) [0..<length xs]"
    by (simp add: List.map_filter_def filter_map comp_def)
  then show ?thesis by (simp add: map_nth)
qed

lemma manifest_index_lookup:
  assumes "distinct manifest"
  shows "oget (manifest_index manifest) h = Some i \<longleftrightarrow> i < length manifest \<and> manifest ! i = h"
proof -
  have d: "distinct (map fst (map (\<lambda>(i, h). (h, i)) (enumerate 0 manifest)))"
    using assms by (simp add: comp_def case_prod_unfold)
  show ?thesis
    using d by (auto simp: manifest_index_def oget_oof_list map_of_rev_distinct map_of_eq_Some_iff in_set_enumerate_eq)
qed

lemma oget_match_bodies:
  "oget (match_bodies idx bodies m) k =
     (case oget m k of Some b \<Rightarrow> Some b | None \<Rightarrow>
        map_option fst (List.find (\<lambda>(_, h). oget idx h = Some k) bodies))"
  by (induction bodies arbitrary: m) (auto simp: oget_oor_insert split: option.splits)

definition first_body :: "(tx_body \<times> tx_id) list \<Rightarrow> tx_id \<Rightarrow> tx_body option" where
  "first_body bodies h = map_option fst (List.find (\<lambda>(_, h'). h' = h) bodies)"

lemma oget_matched:
  assumes "distinct manifest"
  shows "oget (match_bodies (manifest_index manifest) bodies oempty) k =
    (if k < length manifest then first_body bodies (manifest ! k) else None)"
proof (cases "k < length manifest")
  case True
  then have "(\<lambda>(b :: tx_body, h). oget (manifest_index manifest) h = Some k) = (\<lambda>(b, h). h = manifest ! k)"
    by (auto simp: fun_eq_iff manifest_index_lookup [OF assms])
  with True show ?thesis by (simp add: oget_match_bodies first_body_def)
next
  case False
  have "List.find (\<lambda>_. False) bodies = None" by (simp add: find_None_iff)
  with False show ?thesis by (simp add: oget_match_bodies manifest_index_lookup [OF assms] case_prod_unfold)
qed

lemma first_body_None: "first_body bodies h = None \<longleftrightarrow> h \<notin> snd ` set bodies"
  by (force simp: first_body_def find_None_iff)

definition delivered :: "tx_id list \<Rightarrow> (tx_body \<times> tx_id) list \<Rightarrow> u32 \<Rightarrow> bool" where
  "delivered manifest bodies i \<longleftrightarrow> unat i < length manifest \<and> manifest ! unat i \<in> snd ` set bodies"

lemma matched_indices:
  assumes "distinct manifest" and "length manifest \<le> 2 ^ 22"
  shows "set (map of_nat (okeys (match_bodies (manifest_index manifest) bodies oempty))) = {i. delivered manifest bodies i}"
proof -
  have "i \<in> of_nat ` {k. k < length manifest \<and> manifest ! k \<in> snd ` set bodies} \<longleftrightarrow> delivered manifest bodies i" for i :: u32
  proof
    assume "i \<in> of_nat ` {k. k < length manifest \<and> manifest ! k \<in> snd ` set bodies}"
    then obtain k where "i = of_nat k" "k < length manifest" "manifest ! k \<in> snd ` set bodies" by blast
    moreover from this assms(2) have "unat i = k" by (simp add: unat_of_nat)
    ultimately show "delivered manifest bodies i" by (simp add: delivered_def)
  qed (force simp: delivered_def intro: image_eqI [of _ _ "unat i"])
  moreover have "{k. ohas (match_bodies (manifest_index manifest) bodies oempty) k} =
      {k. k < length manifest \<and> manifest ! k \<in> snd ` set bodies}"
    by (auto simp: ohas_def oget_matched [OF assms(1)] first_body_None simp del: not_None_eq)
  ultimately show ?thesis by (auto simp: set_okeys)
qed

lemma remaining_indices:
  assumes "\<forall>i\<in>R. unat i < 2 ^ 22" and "R = {i \<in> set (iter_indices bitmap). P i}"
  shows "iter_indices (from_indices (sorted_list_of_set R)) = filter P (iter_indices bitmap)"
proof (rule sorted_unat_unique)
  have "finite R" by simp
  then show "set (iter_indices (from_indices (sorted_list_of_set R))) = set (filter P (iter_indices bitmap))"
    using assms by (auto simp: set_iter_indices contains_from_indices' simp flip: word_unat_eq_iff)
  show "sorted_wrt (<) (map unat (filter P (iter_indices bitmap)))"
    using sorted_iter_indices [of bitmap] by (simp add: sorted_wrt_map sorted_wrt_filter)
qed (rule sorted_iter_indices)

text \<open>C15: a response with transaction bodies for a block with a known manifest and an open request (a manifest
  without repeats, as long as the bitmap can address): the outcome carries exactly the manifest's transactions that were
  sent, in manifest order, one body each, whatever order and extra bodies the peer sent; the remaining bitmap
  lists exactly the requested positions not delivered; and the open request shrinks to it, or closes when nothing
  is left. No other block's request changes.\<close>

theorem match_eb_tx_response_exact:
  assumes "oget (ls_eb_tx_hashes st) h = Some (s, manifest)" and "distinct manifest" and "length manifest \<le> 2 ^ 22"
    and "oget (ls_pending_eb_tx_fetches st) h = Some (s', bitmap)"
    and "match_eb_tx_response st (Specific slot h) bodies = (st', outcome)"
  shows "mo_matched_bodies outcome = List.map_filter (first_body bodies) manifest \<and>
    mo_requested outcome = length (iter_indices bitmap) \<and>
    iter_indices (mo_remaining_bitmap outcome) = filter (\<lambda>i. \<not> delivered manifest bodies i) (iter_indices bitmap) \<and>
    oget (ls_pending_eb_tx_fetches st') h =
      (if \<forall>i\<in>set (iter_indices bitmap). delivered manifest bodies i then None
       else Some (slot, mo_remaining_bitmap outcome)) \<and>
    (\<forall>h'. h' \<noteq> h \<longrightarrow> oget (ls_pending_eb_tx_fetches st') h' = oget (ls_pending_eb_tx_fetches st) h')"
proof -
  define matched where "matched = match_bodies (manifest_index manifest) bodies oempty"
  define R where "R = bitmap_to_indices bitmap - set (map of_nat (okeys matched))"
  have R: "R = {i \<in> set (iter_indices bitmap). \<not> delivered manifest bodies i}"
    unfolding R_def matched_def matched_indices [OF assms(2,3)] by (auto simp: bitmap_to_indices_def)
  have small: "\<forall>i\<in>R. unat i < 2 ^ 22" by (auto simp: R set_iter_indices)
  have bodies: "ovalues matched = List.map_filter (first_body bodies) manifest"
    using ovalues_upt [OF oget_matched [OF assms(2), of bodies]] by (simp add: matched_def map_filter_nth)
  have "distinct (iter_indices bitmap)"
    using sorted_iter_indices [of bitmap] by (metis distinct_map strict_sorted_iff)
  then have card: "card (bitmap_to_indices bitmap) = length (iter_indices bitmap)"
    by (simp add: bitmap_to_indices_def distinct_card)
  have empty: "sorted_list_of_set R = [] \<longleftrightarrow> (\<forall>i\<in>set (iter_indices bitmap). delivered manifest bodies i)"
    by (auto simp: R sorted_list_of_set_eq_Nil_iff)
  have "st' = st\<lparr>ls_candidates := finish_eb_txs_fetch (ls_candidates st) (Specific slot h),
      ls_pending_eb_tx_fetches := (if sorted_list_of_set R = [] then odel h (ls_pending_eb_tx_fetches st)
         else oput h (slot, from_indices (sorted_list_of_set R)) (ls_pending_eb_tx_fetches st))\<rparr> \<and>
    outcome = \<lparr>mo_matched_bodies = ovalues matched, mo_requested = card (bitmap_to_indices bitmap),
      mo_remaining_bitmap = from_indices (sorted_list_of_set R)\<rparr>"
    using assms(5) by (simp add: match_eb_tx_response_def assms(1,4) Let_def matched_def R_def eq_commute [of _ st']
        eq_commute [of _ outcome])
  then show ?thesis
    by (simp add: bodies card remaining_indices [OF small R] empty oget_odel oget_oput)
qed

end
