(* ===== verification/Leios_Invariant.thy ===== *)
theory Leios_Invariant
  imports Leios_Properties
begin

text \<open>
  What holds in every state a Leios node reaches from a fresh one: its elections are a run of the election state
  machine of \<open>Elections\<close>, and the transaction fetch waves of a block stay within the configured bound. With it,
  the sample response for the matching property and the listing of blocks whose transactions are wanted.
\<close>

subsection \<open>The node drives its elections\<close>

lemmas el_step = elections_step.intros

lemma rtr_slot_effect:
  "elections_step\<^sup>*\<^sup>* (ls_elections st) (ls_elections (fst (handle_slot_effect ext st tx e)))"
  using handle_slot_effect_fst [of ext st tx e]
proof
  assume "\<exists>rb. fst (handle_slot_effect ext st tx e) = ls_mark_voted st rb"
  then show ?thesis using el_step(4) by (auto simp: ls_mark_voted_def r_into_rtranclp)
qed simp

lemma rtr_slot_effects:
  "elections_step\<^sup>*\<^sup>* (ls_elections st) (ls_elections (fst (handle_slot_effects ext st tx effs)))"
proof (induction effs arbitrary: st)
  case (Cons e effs)
  from rtranclp_trans [OF rtr_slot_effect Cons, of st ext tx e] show ?case by (simp add: case_prod_unfold Let_def)
qed simp

lemma rtr_prune: "elections_step\<^sup>*\<^sup>* (ls_elections st) (ls_elections (fst (prune_chain_progress st m)))"
  using el_step(7) [of "ls_elections st" m] by (simp add: prune_chain_progress_def case_prod_unfold Let_def r_into_rtranclp)

lemma rtr_on_slot: "elections_step\<^sup>*\<^sup>* (ls_elections st) (ls_elections (fst (leios_on_slot ext st slot tx)))"
proof -
  let ?st0 = "st\<lparr>ls_elections := fst (es_on_slot (ls_elections st) slot)\<rparr>"
  define st1 where "st1 = fst (handle_slot_effects ext ?st0 tx (snd (es_on_slot (ls_elections st) slot)))"
  have "elections_step\<^sup>*\<^sup>* (ls_elections st) (ls_elections ?st0)" using el_step(3) by (simp add: r_into_rtranclp)
  from rtranclp_trans [OF this rtr_slot_effects, of ext tx "snd (es_on_slot (ls_elections st) slot)", folded st1_def]
  have run: "elections_step\<^sup>*\<^sup>* (ls_elections st) (ls_elections st1)" .
  have "fst (leios_on_slot ext st slot tx) =
      (case cx_tip_rb_slot (ls_chain_tip_ctx st1) of None \<Rightarrow> st1 | Some m \<Rightarrow> fst (prune_chain_progress st1 m))"
    by (simp add: leios_on_slot_def case_prod_unfold Let_def st1_def split: option.splits)
  with run rtranclp_trans [OF run rtr_prune] show ?thesis by (simp split: option.splits)
qed

lemma rtr_validated_votes:
  "elections_step\<^sup>*\<^sup>* (ls_elections st) (ls_elections (fst (on_validated_votes ext st bodies)))"
proof (induction bodies arbitrary: st)
  case (Cons b bodies)
  define w where "w = weight_for (lx_from_seed ext) (lx_gen_f64 ext) (ls_elections st)
    (string_of_bytes (from_utf8_lossy (vv_voter_id b))) (vv_tag b) (vv_eligibility_signature b)"
  define es where "es = fst (es_record_vote (ls_elections st) (vv_announcing_rb_hash b) (vv_voter_id b @ [vv_tag b]) w)"
  have "elections_step\<^sup>*\<^sup>* (ls_elections st) (ls_elections (st\<lparr>ls_elections := es\<rparr>))"
    unfolding es_def using el_step(5) by (simp add: r_into_rtranclp)
  from rtranclp_trans [OF this Cons] Cons [of st] show ?case by (auto simp: w_def [symmetric] es_def case_prod_unfold Let_def)
qed simp

lemma rtr_tip_context: "elections_step\<^sup>*\<^sup>* (ls_elections st) (ls_elections (set_chain_tip_context st ctx))"
proof -
  have "elections_step\<^sup>*\<^sup>* es (mark_body_validated (fst (announce_from_rb es rb slot eb)) eb)" for es rb slot eb
    using el_step(1,2) by (meson r_into_rtranclp rtranclp.rtrancl_into_rtrancl)
  then show ?thesis
    using el_step(1) by (auto simp: set_chain_tip_context_def Let_def r_into_rtranclp split: option.splits)
qed

definition waves_ok :: "leios_state \<Rightarrow> bool" where
  "waves_ok st \<longleftrightarrow> (\<forall>p n. oget (ls_leios_fetch_txs_waves_count st) p = Some n \<longrightarrow>
     1 \<le> n \<and> n \<le> ls_max_leios_fetch_txs_waves st)"

definition same_waves :: "leios_state \<Rightarrow> leios_state \<Rightarrow> bool" where
  "same_waves st st' \<longleftrightarrow> ls_leios_fetch_txs_waves_count st' = ls_leios_fetch_txs_waves_count st \<and>
     ls_max_leios_fetch_txs_waves st' = ls_max_leios_fetch_txs_waves st"

lemma same_waves_ok: "same_waves st st' \<Longrightarrow> waves_ok st \<Longrightarrow> waves_ok st'"
  by (simp add: same_waves_def waves_ok_def)

lemma initiate_same_waves:
  "initiate_eb_txs_fetch ext st p bitmap now = (st', fx) \<Longrightarrow> same_waves st st' \<and> ls_elections st' = ls_elections st"
  by (auto simp: initiate_eb_txs_fetch_def same_waves_def Let_def split: if_splits point.splits)

lemma do_fetch_same_waves: "do_eb_fetch st p now = (st', fx) \<Longrightarrow> same_waves st st' \<and> ls_elections st' = ls_elections st"
  by (auto simp: do_eb_fetch_def leios_evict_stale_def same_waves_def Let_def case_prod_unfold split: if_splits)

lemma first_fetch_waves:
  assumes "initiate_first_eb_txs_fetch ext st p bitmap now = (st', fx)" and "waves_ok st"
  shows "waves_ok st' \<and> ls_max_leios_fetch_txs_waves st' = ls_max_leios_fetch_txs_waves st"
proof (cases "ls_max_leios_fetch_txs_waves st = 0 \<or> olen bitmap = 0")
  case False
  define st1 where "st1 = (if ohas (ls_leios_fetch_txs_waves_count st) p then st
      else st\<lparr>ls_leios_fetch_txs_waves_count := oput p 1 (ls_leios_fetch_txs_waves_count st)\<rparr>)"
  have "waves_ok st1" "ls_max_leios_fetch_txs_waves st1 = ls_max_leios_fetch_txs_waves st"
    using assms(2) False by (auto simp: waves_ok_def st1_def oget_oput)
  moreover have "initiate_eb_txs_fetch ext st1 p bitmap now = (st', fx)"
    using assms(1) False unfolding initiate_first_eb_txs_fetch_def st1_def by simp
  ultimately show ?thesis using initiate_same_waves [of ext st1 p bitmap now st' fx] same_waves_ok [of st1 st']
    by (auto simp: same_waves_def)
qed (use assms in \<open>auto simp: initiate_first_eb_txs_fetch_def\<close>)

lemma next_wave_waves:
  assumes "initiate_next_leios_fetch_txs_wave ext st p bitmap now = (st', fx)" and "waves_ok st"
  shows "waves_ok st' \<and> ls_max_leios_fetch_txs_waves st' = ls_max_leios_fetch_txs_waves st \<and> ls_elections st' = ls_elections st"
proof (cases "oget (ls_leios_fetch_txs_waves_count st) p")
  case (Some cnt)
  define st1 where "st1 = st\<lparr>ls_leios_fetch_txs_waves_count := oput p (cnt + 1) (ls_leios_fetch_txs_waves_count st),
      ls_candidates := clear_eb_txs_attempts (ls_candidates st) p\<rparr>"
  show ?thesis
  proof (cases "cnt \<ge> ls_max_leios_fetch_txs_waves st")
    case False
    have "waves_ok st1" using assms(2) False by (auto simp: waves_ok_def st1_def oget_oput)
    moreover have "initiate_eb_txs_fetch ext st1 p bitmap now = (st', fx)"
      using assms(1) False Some unfolding initiate_next_leios_fetch_txs_wave_def st1_def by simp
    ultimately show ?thesis
      using initiate_same_waves [of ext st1 p bitmap now st' fx] same_waves_ok [of st1 st']
      by (simp add: same_waves_def st1_def)
  qed (use assms Some in \<open>auto simp: initiate_next_leios_fetch_txs_wave_def\<close>)
qed (use assms in \<open>auto simp: initiate_next_leios_fetch_txs_wave_def\<close>)

lemma slot_waves:
  assumes "leios_on_slot ext st slot tx = (st', fx)" and "waves_ok st"
  shows "waves_ok st' \<and> ls_max_leios_fetch_txs_waves st' = ls_max_leios_fetch_txs_waves st"
proof -
  let ?st0 = "st\<lparr>ls_elections := fst (es_on_slot (ls_elections st) slot)\<rparr>"
  define st1 where "st1 = fst (handle_slot_effects ext ?st0 tx (snd (es_on_slot (ls_elections st) slot)))"
  obtain es where st1: "st1 = st\<lparr>ls_elections := es\<rparr>"
    using handle_slot_effects_frame [of ext ?st0 tx "snd (es_on_slot (ls_elections st) slot)"] by (auto simp: st1_def)
  have "st' = (case cx_tip_rb_slot (ls_chain_tip_ctx st1) of None \<Rightarrow> st1 | Some m \<Rightarrow> fst (prune_chain_progress st1 m))"
    using assms(1) by (auto simp: leios_on_slot_def case_prod_unfold Let_def st1_def split: option.splits)
  then show ?thesis
    using assms(2) by (auto simp: st1 waves_ok_def prune_chain_progress_def case_prod_unfold Let_def oget_oretain_Some
        split: option.splits)
qed

lemma validated_votes_waves: "same_waves st (fst (on_validated_votes ext st bodies))"
proof (induction bodies arbitrary: st)
  case (Cons b bodies)
  have "same_waves st (fst (on_validated_votes ext (st\<lparr>ls_elections := es\<rparr>) bodies))" for es
    using Cons [of "st\<lparr>ls_elections := es\<rparr>"] by (simp add: same_waves_def)
  with Cons show ?case by (simp add: case_prod_unfold Let_def)
qed (simp add: same_waves_def)

lemma leios_step_keeps:
  assumes "leios_step ext st st' fx" and "waves_ok st"
  shows "elections_step\<^sup>*\<^sup>* (ls_elections st) (ls_elections st') \<and> waves_ok st' \<and>
    ls_max_leios_fetch_txs_waves st' = ls_max_leios_fetch_txs_waves st"
  using assms
proof cases
  case (ls_slot slot tx)
  then show ?thesis using rtr_on_slot [of st ext slot tx] slot_waves assms(2) by simp
next
  case (ls_tip_context ctx)
  then show ?thesis using rtr_tip_context assms(2) by (simp add: set_chain_tip_context_def waves_ok_def Let_def)
next
  case (ls_votes_received votes)
  then show ?thesis
    using rtr_validated_votes [of st ext "resolve_votes st votes"] validated_votes_waves [of st ext "resolve_votes st votes"]
      same_waves_ok assms(2) by (simp add: on_votes_received_def same_waves_def)
next
  case (ls_validated_votes bodies)
  then show ?thesis
    using rtr_validated_votes [of st ext bodies] validated_votes_waves [of st ext bodies] same_waves_ok assms(2)
    by (simp add: same_waves_def)
next
  case (ls_first_fetch p bitmap now)
  then show ?thesis using first_fetch_waves assms(2) first_fetch_keeps by (metis rtranclp.rtrancl_refl)
next
  case (ls_next_wave p bitmap now)
  then show ?thesis using next_wave_waves assms(2) by (metis rtranclp.rtrancl_refl)
next
  case (ls_txs_fetch p bitmap now)
  then show ?thesis using initiate_same_waves same_waves_ok assms(2) by (metis rtranclp.rtrancl_refl same_waves_def)
next
  case (ls_retry_eb p now)
  then show ?thesis using do_fetch_same_waves same_waves_ok assms(2)
    by (metis retry_eb_fetch_def rtranclp.rtrancl_refl same_waves_def)
next
  case (ls_eb_offered p peer now)
  show ?thesis
  proof (cases "should_process_eb ext st p")
    case True
    then have "do_eb_fetch (st\<lparr>ls_candidates := note_eb_offered (ls_candidates st) p peer\<rparr>) p now = (st', fx)"
      using ls_eb_offered by (simp add: on_eb_offered_def)
    from do_fetch_same_waves [OF this] show ?thesis using assms(2) by (simp add: same_waves_def waves_ok_def)
  qed (use ls_eb_offered assms(2) in \<open>simp add: on_eb_offered_def\<close>)
next
  case (ls_eb_txs_offered p peer bitmap now)
  define st1 where "st1 = (leios_evict_stale st now)\<lparr>ls_candidates := note_eb_txs_offered (ls_candidates (leios_evict_stale st now)) p peer\<rparr>"
  have st1: "waves_ok st1" "ls_max_leios_fetch_txs_waves st1 = ls_max_leios_fetch_txs_waves st" "ls_elections st1 = ls_elections st"
    using assms(2) by (simp_all add: st1_def leios_evict_stale_def waves_ok_def)
  have "st' = st \<or> st' = leios_evict_stale st now \<or> initiate_first_eb_txs_fetch ext st1 p bitmap now = (st', fx)"
    using ls_eb_txs_offered by (auto simp: on_eb_txs_offered_def st1_def Let_def split: if_splits point.splits)
  then show ?thesis
  proof (elim disjE)
    assume "initiate_first_eb_txs_fetch ext st1 p bitmap now = (st', fx)"
    then show ?thesis using first_fetch_waves [of ext st1 p bitmap now st' fx] first_fetch_keeps [of ext st1 p bitmap now st' fx] st1 by simp
  qed (use assms(2) in \<open>simp_all add: leios_evict_stale_def waves_ok_def\<close>)
next
  case (ls_eb_received source p manifest)
  then show ?thesis
    using assms(2) by (auto simp: on_eb_received_def ls_finish_eb_fetch_def case_prod_unfold Let_def waves_ok_def
        split: if_splits option.splits point.splits)
next
  case (ls_match p hashed outcome)
  then show ?thesis
    using assms(2) by (auto simp: match_eb_tx_response_def Let_def waves_ok_def split: option.splits point.splits)
next
  case (ls_retry_txs p bitmap)
  then show ?thesis
    using assms(2) by (auto simp: retry_eb_tx_fetch_def case_prod_unfold Let_def waves_ok_def split: if_splits)
next
  case (ls_validated_eb p)
  then show ?thesis
    using assms(2) el_step(2) by (auto simp: on_validated_eb_def waves_ok_def r_into_rtranclp split: point.splits)
qed (simp_all add: on_eb_fetch_failed_def ls_finish_eb_fetch_def on_eb_txs_received_def
      on_chain_endorsement_def take_postponed_eb_tx_requests_def leios_apply_control_def leios_set_rtt_def
      set_eb_txs_policy_def set_eb_policy_def case_prod_unfold Let_def waves_ok_def)

inductive leios_reachable :: "'r leios_ext \<Rightarrow> leios_state \<Rightarrow> leios_state \<Rightarrow> bool" for ext st0 where
  fresh: "leios_reachable ext st0 st0"
| step: "leios_reachable ext st0 st \<Longrightarrow> leios_step ext st st' fx \<Longrightarrow> leios_reachable ext st0 st'"

lemma elections_reachable_run: "elections_step\<^sup>*\<^sup>* es es' \<Longrightarrow> elections_reachable cfg es \<Longrightarrow> elections_reachable cfg es'"
  by (induction rule: rtranclp_induct) (auto intro: elections_reachable.step)

text \<open>C14: a node refines the election state machine: whatever slot ticks, offers, responses, votes, endorsements and
  control changes it processes, its elections are in a state that the election operations alone reach from an empty
  registry with the same configuration, so every election invariant holds inside the node; and the number of
  transaction fetch waves counted for a block is at least one and never exceeds the configured maximum.\<close>

theorem leios_refines_elections:
  assumes "leios_reachable ext (leios_new node_id (elections_new cfg) vc pipeline waves) st"
  shows "elections_reachable cfg (ls_elections st) \<and>
    (\<forall>p n. oget (ls_leios_fetch_txs_waves_count st) p = Some n \<longrightarrow> 1 \<le> n \<and> n \<le> waves)"
proof -
  have "elections_reachable cfg (ls_elections st) \<and> waves_ok st \<and> ls_max_leios_fetch_txs_waves st = waves"
    using assms
  proof (induction rule: leios_reachable.induct)
    case fresh
    show ?case
      using elections_reachable.new [of cfg] by (simp add: leios_new_def leios_with_fetch_def waves_ok_def)
  next
    case (step st st' fx)
    then show ?case using leios_step_keeps [OF step.hyps(2)] elections_reachable_run by auto
  qed
  then show ?thesis by (auto simp: waves_ok_def)
qed

lemma sample_leios_reachable:
  "leios_reachable sample_ext (leios_new ''node-0'' (elections_new leios_sample_cfg) sample_voting (ec_pipeline leios_sample_cfg) 2) sample_leios"
  unfolding sample_leios_def
  by (rule leios_reachable.step [OF leios_reachable.step [OF leios_reachable.fresh leios_step.ls_tip_context] leios_step.ls_validated_eb])

lemma leios_refines_elections_witness:
  "elections_reachable leios_sample_cfg (ls_elections sample_leios) \<and> ohas (es_elections (ls_elections sample_leios)) 5"
  using leios_refines_elections [OF sample_leios_reachable] sample_has by blast

subsection \<open>A sample response\<close>

definition sample_fetching :: leios_state where
  "sample_fetching = sample_leios\<lparr>ls_eb_tx_hashes := oput 6 (10, [100, 101, 102]) oempty,
     ls_pending_eb_tx_fetches := oput 6 (10, from_indices [0, 1, 2]) oempty\<rparr>"

definition sample_response :: "leios_state \<times> eb_tx_match_outcome" where
  "sample_response = match_eb_tx_response sample_fetching (Specific 10 6) [([2], 102), ([9], 555), ([0], 100)]"

lemma match_eb_tx_response_exact_witness:
  "mo_matched_bodies (snd sample_response) = [[0], [2]] \<and>
   set (iter_indices (mo_remaining_bitmap (snd sample_response))) = {1}"
proof -
  have h: "oget (ls_eb_tx_hashes sample_fetching) 6 = Some (10, [100, 101, 102])"
    "oget (ls_pending_eb_tx_fetches sample_fetching) 6 = Some (10, from_indices [0, 1, 2])"
    by (simp_all add: sample_fetching_def oget_oput)
  have r: "match_eb_tx_response sample_fetching (Specific 10 6) [([2], 102), ([9], 555), ([0], 100)] =
      (fst sample_response, snd sample_response)"
    by (simp add: sample_response_def)
  have d: "distinct [100, 101, 102 :: hash32]" and l: "length [100, 101, 102 :: hash32] \<le> 2 ^ 22" by simp_all
  note ex = match_eb_tx_response_exact [OF h(1) d l h(2) r]
  have one: "delivered [100, 101, 102] [([2], 102), ([9], 555), ([0], 100)] i \<longleftrightarrow> i = 0 \<or> i = 2"
    if "i \<in> {0, 1, 2}" for i :: u32
    using that by (auto simp: delivered_def)
  have "set (iter_indices (from_indices [0, 1, 2])) = {0, 1, 2 :: u32}"
    by (auto simp: set_iter_indices contains_from_indices' word_unat_eq_iff dest: dvd_imp_le intro: exI [of _ 2])
  then have "set (iter_indices (mo_remaining_bitmap (snd sample_response))) = {1}"
    using ex one by auto
  moreover have "List.map_filter (first_body [([2], 102), ([9], 555), ([0], 100)]) [100, 101, 102] = [[0], [2]]"
    by (simp add: List.map_filter_simps first_body_def)
  ultimately show ?thesis using ex by metis
qed

subsection \<open>Blocks whose transactions are wanted\<close>

text \<open>The listing keeps a cached manifest if an election under the \<^emph>\<open>endorser block's\<close> hash exists, but elections
  are stored under the announcing block's hash.\<close>

lemma in_ebs_needing_tx_fetch:
  "Specific s h \<in> set (ebs_needing_tx_fetch st) \<longleftrightarrow>
     (\<exists>m. oget (ls_eb_tx_hashes st) h = Some (s, m)) \<and> ohas (es_elections (ls_elections st)) h"
  by (force simp: ebs_needing_tx_fetch_def es_phase_def ohas_def in_entries_iff)

lemma live_eb_not_listed:
  "leios_eb_context sample_fetching 5 = Some (6, 10) \<and> ohas (ls_eb_tx_hashes sample_fetching) 6 \<and>
   ebs_needing_tx_fetch sample_fetching = []"
  by (simp add: sample_fetching_def sample_leios_def on_validated_eb_def set_chain_tip_context_def leios_new_def
      leios_with_fetch_def sample_tip_def announce_from_rb_def elections_new_def mark_body_validated_def Let_def
      ohas_def oget_omap_values oget_oput leios_eb_context_def eb_context_def ebs_needing_tx_fetch_def es_phase_def)

end
