(* ===== verification/Mux_Wire.thy ===== *)
theory Mux_Wire
  imports Prelude
begin

text \<open>
  \<open>net-rs/net-core/src/mux/wire.rs\<close>: the segments of the multiplexer on the wire.

  \<^item> A bearer is a list of bytes. \<open>read_exact\<close> takes the requested number of bytes off the front, or fails with
    \<open>UnexpectedEof\<close> when the bearer is closed before they have arrived; an asynchronous read that has to wait
    is a read at a later time.
  \<^item> The big-endian primitives of the \<open>byteorder\<close> crate are written out.
  \<^item> \<open>payload.chunks(0)\<close> panics, so \<open>segment_payload\<close> returns an option.
\<close>

unbundle bit_operations_syntax

definition HEADER_LEN :: nat where "HEADER_LEN = 8"

definition MAX_PAYLOAD_LEN :: nat where "MAX_PAYLOAD_LEN = 65535"

record header =
  hd_timestamp :: u32
  hd_mode :: u16
  hd_protocol :: u16
  hd_payload_len :: u16

definition write_u16 :: "u16 \<Rightarrow> u8 list" where
  "write_u16 w = [ucast (drop_bit 8 w), ucast w]"

definition write_u32 :: "u32 \<Rightarrow> u8 list" where
  "write_u32 w = [ucast (drop_bit 24 w), ucast (drop_bit 16 w), ucast (drop_bit 8 w), ucast w]"

fun read_u16 :: "u8 list \<Rightarrow> u16" where
  "read_u16 [a, b] = push_bit 8 (ucast a) OR ucast b"
| "read_u16 _ = 0"

fun read_u32 :: "u8 list \<Rightarrow> u32" where
  "read_u32 [a, b, c, d] =
     push_bit 24 (ucast a) OR push_bit 16 (ucast b) OR push_bit 8 (ucast c) OR ucast d"
| "read_u32 _ = 0"

definition header_encode :: "header \<Rightarrow> u8 list" where
  "header_encode h =
     write_u32 (hd_timestamp h) @ write_u16 (hd_mode h OR hd_protocol h) @ write_u16 (hd_payload_len h)"

definition header_decode :: "u8 list \<Rightarrow> header" where
  "header_decode buf =
     (let protocol_field = read_u16 (take 2 (drop 4 buf))
      in \<lparr>hd_timestamp = read_u32 (take 4 buf), hd_mode = protocol_field AND 0x8000,
          hd_protocol = protocol_field AND 0x7FFF, hd_payload_len = read_u16 (take 2 (drop 6 buf))\<rparr>)"

record segment =
  sg_header :: header
  sg_payload :: "u8 list"

datatype io_error = UnexpectedEof | InvalidData nat nat

definition read_exact :: "nat \<Rightarrow> u8 list \<Rightarrow> io_error + (u8 list \<times> u8 list)" where
  "read_exact n bs = (if length bs < n then Inl UnexpectedEof else Inr (take n bs, drop n bs))"

definition read_segment :: "nat \<Rightarrow> u8 list \<Rightarrow> io_error + (segment \<times> u8 list)" where
  "read_segment max_payload bs =
     (case read_exact HEADER_LEN bs of
        Inl e \<Rightarrow> Inl e
      | Inr (header_buf, rest) \<Rightarrow>
          let h = header_decode header_buf; payload_len = unat (hd_payload_len h)
          in if payload_len > max_payload then Inl (InvalidData payload_len max_payload)
             else (case read_exact payload_len rest of
                     Inl e \<Rightarrow> Inl e
                   | Inr (payload, rest') \<Rightarrow> Inr (\<lparr>sg_header = h, sg_payload = payload\<rparr>, rest')))"

definition write_segment :: "segment \<Rightarrow> u8 list" where
  "write_segment seg = header_encode (sg_header seg) @ sg_payload seg"

function chunks :: "nat \<Rightarrow> 'a list \<Rightarrow> 'a list list" where
  "chunks n xs = (if xs = [] \<or> n = 0 then [] else take n xs # chunks n (drop n xs))"
  by auto
termination by (relation "measure (length \<circ> snd)") auto

declare chunks.simps [simp del]

definition segment_payload :: "u16 \<Rightarrow> u16 \<Rightarrow> u32 \<Rightarrow> u8 list \<Rightarrow> nat \<Rightarrow> segment list option" where
  "segment_payload protocol mode timestamp payload sdu_size =
     (if payload = [] then
        Some [\<lparr>sg_header = \<lparr>hd_timestamp = timestamp, hd_mode = mode, hd_protocol = protocol, hd_payload_len = 0\<rparr>,
               sg_payload = []\<rparr>]
      else
        let sdu = min sdu_size MAX_PAYLOAD_LEN
        in if sdu = 0 then None
           else Some (map (\<lambda>chunk.
             \<lparr>sg_header = \<lparr>hd_timestamp = timestamp, hd_mode = mode, hd_protocol = protocol,
                           hd_payload_len = of_nat (length chunk)\<rparr>,
              sg_payload = chunk\<rparr>) (chunks sdu payload)))"

subsection \<open>Round trips\<close>

lemma read_write_u16: "read_u16 (write_u16 w) = w"
proof (rule bit_word_eqI)
  fix n assume "n < LENGTH(16)"
  then show "bit (read_u16 (write_u16 w)) n = bit w n"
    by (auto simp: write_u16_def bit_or_iff bit_push_bit_iff bit_ucast_iff bit_drop_bit_eq)
qed

lemma read_write_u32: "read_u32 (write_u32 w) = w"
proof (rule bit_word_eqI)
  fix n assume "n < LENGTH(32)"
  then have "n < 8 \<or> 8 \<le> n \<and> n < 16 \<or> 16 \<le> n \<and> n < 24 \<or> 24 \<le> n \<and> n < 32" by auto
  then show "bit (read_u32 (write_u32 w)) n = bit w n"
    by (elim disjE) (auto simp: write_u32_def bit_or_iff bit_push_bit_iff bit_ucast_iff bit_drop_bit_eq)
qed

lemma length_write [simp]: "length (write_u16 w) = 2" "length (write_u32 v) = 4"
  by (simp_all add: write_u16_def write_u32_def)

lemma length_header_encode [simp]: "length (header_encode h) = HEADER_LEN"
  by (simp add: header_encode_def HEADER_LEN_def)

definition direction_bits :: "u16 \<Rightarrow> u16 \<Rightarrow> bool" where
  "direction_bits mode protocol \<longleftrightarrow> mode AND 0x7FFF = 0 \<and> protocol AND 0x8000 = 0"

lemma split_direction_bits:
  assumes "direction_bits mode protocol"
  shows "(mode OR protocol) AND 0x8000 = mode" and "(mode OR protocol) AND 0x7FFF = protocol"
proof -
  have m: "mode AND 0x8000 = mode" "protocol AND 0x7FFF = protocol"
  proof -
    have all: "(0xFFFF :: u16) = - 1" by simp
    have "x AND 0x8000 OR x AND 0x7FFF = x AND 0xFFFF" for x :: u16 by (simp flip: bit.conj_disj_distrib)
    then have "x AND 0x8000 OR x AND 0x7FFF = x" for x :: u16 by (simp only: all and.right_neutral)
    then show "mode AND 0x8000 = mode" "protocol AND 0x7FFF = protocol"
      using assms by (metis direction_bits_def or.right_neutral or.left_neutral)+
  qed
  show "(mode OR protocol) AND 0x8000 = mode" "(mode OR protocol) AND 0x7FFF = protocol"
    using assms m by (simp_all add: direction_bits_def bit.conj_disj_distrib2)
qed

lemma header_decode_encode:
  assumes "direction_bits (hd_mode h) (hd_protocol h)"
  shows "header_decode (header_encode h) = h"
  using split_direction_bits [OF assms]
  by (simp add: header_decode_def header_encode_def read_write_u16 read_write_u32 Let_def)

definition segment_ok :: "nat \<Rightarrow> segment \<Rightarrow> bool" where
  "segment_ok max_payload seg \<longleftrightarrow>
     direction_bits (hd_mode (sg_header seg)) (hd_protocol (sg_header seg)) \<and>
     unat (hd_payload_len (sg_header seg)) = length (sg_payload seg) \<and> length (sg_payload seg) \<le> max_payload"

lemma read_write_segment:
  assumes "segment_ok max_payload seg"
  shows "read_segment max_payload (write_segment seg @ rest) = Inr (seg, rest)"
  using assms header_decode_encode [of "sg_header seg"]
  by (simp add: read_segment_def write_segment_def read_exact_def segment_ok_def Let_def)

lemma concat_chunks: "0 < n \<Longrightarrow> concat (chunks n xs) = xs"
proof (induction n xs rule: chunks.induct)
  case (1 n xs)
  then show ?case by (subst chunks.simps) simp
qed

lemma chunks_eq_Nil: "chunks n xs = [] \<longleftrightarrow> xs = [] \<or> n = 0"
  by (subst chunks.simps) simp

lemma chunks_bounds: "c \<in> set (chunks n xs) \<Longrightarrow> 0 < length c \<and> length c \<le> n"
proof (induction n xs rule: chunks.induct)
  case (1 n xs)
  then show ?case by (subst (asm) chunks.simps) (auto split: if_splits)
qed

lemma segment_payload_segments:
  assumes "segment_payload protocol mode ts payload sdu = Some segs" and "direction_bits mode protocol"
  shows "concat (map sg_payload segs) = payload"
    and "seg \<in> set segs \<Longrightarrow> segment_ok (min sdu MAX_PAYLOAD_LEN) seg \<and> hd_protocol (sg_header seg) = protocol \<and>
      hd_mode (sg_header seg) = mode \<and> hd_timestamp (sg_header seg) = ts"
    and "segs \<noteq> []"
proof -
  show "concat (map sg_payload segs) = payload"
    using assms(1) by (auto simp: segment_payload_def Let_def comp_def concat_chunks split: if_splits)
  show "segs \<noteq> []"
    using assms(1) by (auto simp: segment_payload_def Let_def chunks_eq_Nil split: if_splits)
  assume seg: "seg \<in> set segs"
  show "segment_ok (min sdu MAX_PAYLOAD_LEN) seg \<and> hd_protocol (sg_header seg) = protocol \<and>
      hd_mode (sg_header seg) = mode \<and> hd_timestamp (sg_header seg) = ts"
  proof (cases "payload = []")
    case False
    then obtain c where c: "c \<in> set (chunks (min sdu MAX_PAYLOAD_LEN) payload)"
      and s: "seg = \<lparr>sg_header = \<lparr>hd_timestamp = ts, hd_mode = mode, hd_protocol = protocol, hd_payload_len = of_nat (length c)\<rparr>,
        sg_payload = c\<rparr>"
      using assms(1) seg by (auto simp: segment_payload_def Let_def split: if_splits)
    have len: "length c \<le> min sdu MAX_PAYLOAD_LEN" using chunks_bounds [OF c] by simp
    then have "unat (of_nat (length c) :: u16) = length c" by (simp add: MAX_PAYLOAD_LEN_def unat_of_nat)
    with len show ?thesis using assms(2) by (simp add: s segment_ok_def)
  qed (use assms seg in \<open>auto simp: segment_payload_def segment_ok_def\<close>)
qed

end
