(* ===== verification/Mux_Scheduler.thy ===== *)
theory Mux_Scheduler
  imports Fetch
begin

text \<open>
  \<open>net-rs/net-core/src/mux/scheduler\<close>: which protocol's queued data the multiplexer sends next.

  \<^item> The trait \<open>Scheduler\<close> is the locale \<open>scheduler\<close>: \<open>register\<close> and \<open>next\<close> (\<open>pick\<close>) of an implementation, with the
    laws the multiplexer relies on. The three implementations and \<open>AnyScheduler\<close> interpret it.
  \<^item> The deficits of the weighted fair queue are 32-bit words read as signed (\<open>i32\<close>); their arithmetic wraps as in a
    release build.
\<close>

type_synonym protocol_id = u16
type_synonym i32 = "32 word"

datatype traffic_class = Priority | DefaultClass u16

subsection \<open>The interface\<close>

locale scheduler =
  fixes register :: "'s \<Rightarrow> protocol_id \<Rightarrow> traffic_class \<Rightarrow> 's"
    and pick :: "'s \<Rightarrow> protocol_id list \<Rightarrow> protocol_id option \<times> 's"
    and serves :: "'s \<Rightarrow> protocol_id \<Rightarrow> bool"
  assumes pick_empty: "fst (pick s []) = None"
    and pick_mem: "fst (pick s ready) = Some i \<Longrightarrow> i \<in> set ready"
    and pick_served: "ready \<noteq> [] \<Longrightarrow> \<forall>i\<in>set ready. serves s i \<Longrightarrow> fst (pick s ready) \<noteq> None"
    and serves_pick: "serves (snd (pick s ready)) i = serves s i"
    and serves_register: "serves (register s j tc) i \<longleftrightarrow> i = j \<or> serves s i"
begin

fun turns :: "nat \<Rightarrow> 's \<Rightarrow> protocol_id list \<Rightarrow> protocol_id option list \<times> 's" where
  "turns 0 s ready = ([], s)"
| "turns (Suc n) s ready =
     (let (c, s1) = pick s ready; (cs, s2) = turns n s1 ready in (c # cs, s2))"

lemma turns_served:
  assumes "ready \<noteq> []" and "\<forall>i\<in>set ready. serves s i"
  shows "length (fst (turns n s ready)) = n \<and> (\<forall>c\<in>set (fst (turns n s ready)). \<exists>i\<in>set ready. c = Some i)"
  using assms(2)
proof (induction n arbitrary: s)
  case (Suc n)
  obtain c where c: "fst (pick s ready) = Some c" using pick_served [OF assms(1) Suc.prems] by blast
  have "\<forall>i\<in>set ready. serves (snd (pick s ready)) i" using Suc.prems by (simp add: serves_pick)
  from Suc.IH [OF this] show ?case using c pick_mem [OF c] by (simp add: case_prod_unfold Let_def)
qed simp

lemma turns_add:
  "turns (m + n) s ready = (let (xs, s1) = turns m s ready; (ys, s2) = turns n s1 ready in (xs @ ys, s2))"
  by (induction m arbitrary: s) (simp_all add: case_prod_unfold Let_def)

end

subsection \<open>Round robin\<close>

record round_robin = rr_last_index :: nat

definition round_robin_default :: round_robin where "round_robin_default = \<lparr>rr_last_index = 0\<rparr>"

definition rr_register :: "round_robin \<Rightarrow> protocol_id \<Rightarrow> traffic_class \<Rightarrow> round_robin" where
  "rr_register s i tc = s"

definition rr_next :: "round_robin \<Rightarrow> protocol_id list \<Rightarrow> protocol_id option \<times> round_robin" where
  "rr_next s ready =
     (if ready = [] then (None, s)
      else let l = (rr_last_index s + 1) mod length ready in (Some (ready ! l), s\<lparr>rr_last_index := l\<rparr>))"

subsection \<open>Strict priority\<close>

definition priority_for :: "protocol_id \<Rightarrow> u8" where
  "priority_for i =
     (if i = 0 then 0 else if i = 2 then 1 else if i = 3 then 2 else if i = 4 then 3 else if i = 8 then 4
      else if i = 19 then 5 else if i = 18 then 6 else if i = 10 then 7 else 255)"

record strict_priority = sp_protocols :: "protocol_id list"

definition strict_priority_default :: strict_priority where "strict_priority_default = \<lparr>sp_protocols = []\<rparr>"

definition sp_register :: "strict_priority \<Rightarrow> protocol_id \<Rightarrow> traffic_class \<Rightarrow> strict_priority" where
  "sp_register s i tc = (if i \<in> set (sp_protocols s) then s else s\<lparr>sp_protocols := sp_protocols s @ [i]\<rparr>)"

definition sp_next :: "strict_priority \<Rightarrow> protocol_id list \<Rightarrow> protocol_id option \<times> strict_priority" where
  "sp_next s ready = (min_by_key priority_for ready, s)"

subsection \<open>Priority class and weighted fair queue\<close>

record priority_wfq =
  wq_priority_protocols :: "protocol_id list"
  wq_priority_last :: nat
  wq_default_protocols :: "(protocol_id \<times> u16 \<times> i32) list"

definition priority_wfq_default :: priority_wfq where
  "priority_wfq_default = \<lparr>wq_priority_protocols = [], wq_priority_last = 0, wq_default_protocols = []\<rparr>"

definition credit_all :: "priority_wfq \<Rightarrow> priority_wfq" where
  "credit_all s = s\<lparr>wq_default_protocols := map (\<lambda>(p, w, d). (p, w, d + ucast w)) (wq_default_protocols s)\<rparr>"

definition wq_register :: "priority_wfq \<Rightarrow> protocol_id \<Rightarrow> traffic_class \<Rightarrow> priority_wfq" where
  "wq_register s i tc =
     (let s1 = s\<lparr>wq_priority_protocols := filter (\<lambda>p. p \<noteq> i) (wq_priority_protocols s),
                 wq_default_protocols := filter (\<lambda>(p, _). p \<noteq> i) (wq_default_protocols s)\<rparr>
      in case tc of
           Priority \<Rightarrow> s1\<lparr>wq_priority_protocols := wq_priority_protocols s1 @ [i]\<rparr>
         | DefaultClass weight \<Rightarrow>
             let w = max weight 1
             in s1\<lparr>wq_default_protocols := wq_default_protocols s1 @ [(i, w, ucast w)]\<rparr>)"

definition find_default :: "priority_wfq \<Rightarrow> protocol_id \<Rightarrow> (protocol_id \<times> u16 \<times> i32) option" where
  "find_default s i = find (\<lambda>(p, _). p = i) (wq_default_protocols s)"

definition deficit_or :: "int \<Rightarrow> priority_wfq \<Rightarrow> protocol_id \<Rightarrow> int" where
  "deficit_or dflt s i = (case find_default s i of Some (_, _, d) \<Rightarrow> sint d | None \<Rightarrow> dflt)"

text \<open>\<open>Iterator::max_by_key\<close>: the last of the greatest elements.\<close>

fun max_by_key :: "('a \<Rightarrow> 'k::linorder) \<Rightarrow> 'a list \<Rightarrow> 'a option" where
  "max_by_key f [] = None"
| "max_by_key f (x # xs) =
     (case max_by_key f xs of
        None \<Rightarrow> Some x
      | Some y \<Rightarrow> if f y < f x then Some x else Some y)"

fun decrement_first :: "protocol_id \<Rightarrow> (protocol_id \<times> u16 \<times> i32) list \<Rightarrow> (protocol_id \<times> u16 \<times> i32) list" where
  "decrement_first i [] = []"
| "decrement_first i ((p, w, d) # ds) = (if p = i then (p, w, d - 1) # ds else (p, w, d) # decrement_first i ds)"

definition wq_next :: "priority_wfq \<Rightarrow> protocol_id list \<Rightarrow> protocol_id option \<times> priority_wfq" where
  "wq_next s ready =
     (if ready = [] then (None, s)
      else
        let priority_ready = filter (\<lambda>i. i \<in> set (wq_priority_protocols s)) ready
        in if priority_ready \<noteq> [] then
             let l = (wq_priority_last s + 1) mod length priority_ready
             in (Some (priority_ready ! l), s\<lparr>wq_priority_last := l\<rparr>)
           else
             let default_ready = filter (\<lambda>i. i \<in> fst ` set (wq_default_protocols s)) ready
             in if default_ready = [] then (None, s)
                else
                  let all_exhausted = list_all (\<lambda>i. deficit_or 0 s i \<le> 0) default_ready;
                      s1 = (if all_exhausted then credit_all s else s);
                      chosen = max_by_key (deficit_or 0 s1) default_ready
                  in (chosen,
                      s1\<lparr>wq_default_protocols :=
                           (case chosen of Some c \<Rightarrow> decrement_first c (wq_default_protocols s1) | None \<Rightarrow> wq_default_protocols s1)\<rparr>))"

subsection \<open>The configured scheduler\<close>

datatype scheduler_type = RoundRobinType | StrictPriorityType | PriorityWfqType

definition scheduler_type_default :: scheduler_type where "scheduler_type_default = PriorityWfqType"

datatype any_scheduler = AnyRoundRobin round_robin | AnyStrictPriority strict_priority | AnyPriorityWfq priority_wfq

fun any_from_type :: "scheduler_type \<Rightarrow> any_scheduler" where
  "any_from_type RoundRobinType = AnyRoundRobin round_robin_default"
| "any_from_type StrictPriorityType = AnyStrictPriority strict_priority_default"
| "any_from_type PriorityWfqType = AnyPriorityWfq priority_wfq_default"

fun any_register :: "any_scheduler \<Rightarrow> protocol_id \<Rightarrow> traffic_class \<Rightarrow> any_scheduler" where
  "any_register (AnyRoundRobin s) i tc = AnyRoundRobin (rr_register s i tc)"
| "any_register (AnyStrictPriority s) i tc = AnyStrictPriority (sp_register s i tc)"
| "any_register (AnyPriorityWfq s) i tc = AnyPriorityWfq (wq_register s i tc)"

fun any_next :: "any_scheduler \<Rightarrow> protocol_id list \<Rightarrow> protocol_id option \<times> any_scheduler" where
  "any_next (AnyRoundRobin s) ready = map_prod id AnyRoundRobin (rr_next s ready)"
| "any_next (AnyStrictPriority s) ready = map_prod id AnyStrictPriority (sp_next s ready)"
| "any_next (AnyPriorityWfq s) ready = map_prod id AnyPriorityWfq (wq_next s ready)"

subsection \<open>The implementations meet the interface\<close>

lemma max_by_key_None: "max_by_key f xs = None \<longleftrightarrow> xs = []"
  by (cases xs) (auto split: option.splits)

lemma max_by_key_Some: "max_by_key f xs = Some y \<Longrightarrow> y \<in> set xs \<and> (\<forall>x\<in>set xs. f x \<le> f y)"
proof (induction xs arbitrary: y)
  case (Cons x xs)
  then show ?case by (auto simp: max_by_key_None split: option.splits if_splits)
qed simp

definition wq_serves :: "priority_wfq \<Rightarrow> protocol_id \<Rightarrow> bool" where
  "wq_serves s i \<longleftrightarrow> i \<in> set (wq_priority_protocols s) \<or> i \<in> fst ` set (wq_default_protocols s)"

lemma fst_decrement_first: "map fst (decrement_first i ds) = map fst ds"
  by (induction i ds rule: decrement_first.induct) auto

lemma fst_credit_all: "map fst (wq_default_protocols (credit_all s)) = map fst (wq_default_protocols s)"
  by (simp add: credit_all_def comp_def case_prod_unfold)

lemma wq_next_ids:
  "map fst (wq_default_protocols (snd (wq_next s ready))) = map fst (wq_default_protocols s)"
  "wq_priority_protocols (snd (wq_next s ready)) = wq_priority_protocols s"
  using fst_credit_all [of s] unfolding wq_next_def Let_def
  by (auto simp: fst_decrement_first credit_all_def split: option.splits)

lemma wq_next_serves: "wq_serves (snd (wq_next s ready)) i = wq_serves s i"
  using wq_next_ids [of s ready] unfolding wq_serves_def by (metis list.set_map)

lemma wq_next_mem: "fst (wq_next s ready) = Some i \<Longrightarrow> i \<in> set ready"
proof -
  have nth: "xs \<noteq> [] \<Longrightarrow> set xs \<subseteq> set ready \<Longrightarrow> xs ! (n mod length xs) \<in> set ready" for xs :: "u16 list" and n
    by (metis length_greater_0_conv mod_less_divisor nth_mem subsetD)
  assume "fst (wq_next s ready) = Some i"
  then show ?thesis
    by (auto simp: wq_next_def Let_def dest!: max_by_key_Some split: if_splits
        intro: nth [where xs = "filter (\<lambda>i. i \<in> set (wq_priority_protocols s)) ready", simplified])
qed

lemma wq_next_served: "ready \<noteq> [] \<Longrightarrow> \<forall>i\<in>set ready. wq_serves s i \<Longrightarrow> fst (wq_next s ready) \<noteq> None"
proof -
  assume ready: "ready \<noteq> []" "\<forall>i\<in>set ready. wq_serves s i"
  let ?pr = "filter (\<lambda>i. i \<in> set (wq_priority_protocols s)) ready"
  let ?dr = "filter (\<lambda>i. i \<in> fst ` set (wq_default_protocols s)) ready"
  have "?pr \<noteq> [] \<or> ?dr \<noteq> []"
    using ready by (cases ready) (auto simp: wq_serves_def filter_empty_conv)
  then show ?thesis
    using ready(1) max_by_key_None [of _ ?dr] unfolding wq_next_def Let_def
    by (auto simp: max_by_key_None simp del: not_None_eq)
qed

interpretation rr: scheduler rr_register rr_next "\<lambda>_ _. True"
proof unfold_locales
  fix s ready i
  show "fst (rr_next s ready) = Some i \<Longrightarrow> i \<in> set ready"
    by (auto simp: rr_next_def Let_def split: if_splits intro: nth_mem)
qed (auto simp: rr_next_def Let_def)

interpretation sp: scheduler sp_register sp_next "\<lambda>s i. i \<in> set (sp_protocols s)"
  by unfold_locales (auto simp: sp_next_def sp_register_def min_by_key_None dest!: min_by_key_Some)

interpretation wq: scheduler wq_register wq_next wq_serves
proof unfold_locales
  have "fst ` set (filter (\<lambda>(p, _). p \<noteq> j) ds) = fst ` set ds - {j}" for ds :: "(u16 \<times> u16 \<times> i32) list" and j
    by force
  then show "wq_serves (wq_register s j tc) i \<longleftrightarrow> i = j \<or> wq_serves s i" for s j tc i
    by (cases tc) (auto simp: wq_serves_def wq_register_def Let_def)
qed (simp_all add: wq_next_mem wq_next_served wq_next_serves, simp add: wq_next_def)

fun any_serves :: "any_scheduler \<Rightarrow> protocol_id \<Rightarrow> bool" where
  "any_serves (AnyRoundRobin s) i = True"
| "any_serves (AnyStrictPriority s) i = (i \<in> set (sp_protocols s))"
| "any_serves (AnyPriorityWfq s) i = wq_serves s i"

interpretation any: scheduler any_register any_next any_serves
proof unfold_locales
  show "fst (any_next s []) = None" for s
    by (cases s) (simp_all add: rr.pick_empty sp.pick_empty wq.pick_empty)
  show "fst (any_next s ready) = Some i \<Longrightarrow> i \<in> set ready" for s ready i
    by (cases s) (auto dest: rr.pick_mem sp.pick_mem wq.pick_mem)
  show "fst (any_next s ready) \<noteq> None" if "ready \<noteq> []" "\<forall>i\<in>set ready. any_serves s i" for s ready
    using that rr.pick_served [OF that(1)] sp.pick_served [OF that(1)] wq.pick_served [OF that(1)] by (cases s) auto
  show "any_serves (snd (any_next s ready)) i = any_serves s i" for s ready i
    by (cases s) (simp_all add: sp.serves_pick wq.serves_pick)
  show "any_serves (any_register s j tc) i \<longleftrightarrow> i = j \<or> any_serves s i" for s j tc i
    using sp.serves_register wq.serves_register by (cases s) auto
qed

subsection \<open>Fairness\<close>

text \<open>The deficits and weights of a state, as functions of the protocol.\<close>

definition deficit_of :: "priority_wfq \<Rightarrow> protocol_id \<Rightarrow> int" where
  "deficit_of s i = deficit_or 0 s i"

definition weight_of :: "priority_wfq \<Rightarrow> protocol_id \<Rightarrow> nat" where
  "weight_of s i = (case find_default s i of Some (_, w, _) \<Rightarrow> unat w | None \<Rightarrow> 0)"

definition registered :: "priority_wfq \<Rightarrow> protocol_id set" where
  "registered s = fst ` set (wq_default_protocols s)"

lemma find_default_credit:
  "find_default (credit_all s) i = map_option (\<lambda>(p, w, d). (p, w, d + ucast w)) (find_default s i)"
proof -
  have "find (\<lambda>(p, _). p = i) (map (\<lambda>(p, w, d). (p, w, d + ucast w)) ds) =
      map_option (\<lambda>(p, w, d). (p, w, d + ucast w)) (find (\<lambda>(p, _). p = i) ds)" for ds :: "(u16 \<times> u16 \<times> i32) list"
    by (induction ds) auto
  then show ?thesis by (simp add: find_default_def credit_all_def)
qed

lemma find_decrement:
  "find (\<lambda>(p, _). p = i) (decrement_first c ds) =
     (if i = c then map_option (\<lambda>(p, w, d). (p, w, d - 1)) (find (\<lambda>(p, _). p = i) ds) else find (\<lambda>(p, _). p = i) ds)"
  by (induction c ds rule: decrement_first.induct) auto

lemma find_default_Some: "i \<in> registered s \<Longrightarrow> \<exists>w d. find_default s i = Some (i, w, d)"
proof -
  have "i \<in> fst ` set ds \<Longrightarrow> \<exists>w d. find (\<lambda>(p, _). p = i) ds = Some (i, w, d)" for ds :: "(u16 \<times> u16 \<times> i32) list"
    by (induction ds) auto
  then show "i \<in> registered s \<Longrightarrow> ?thesis" by (simp add: registered_def find_default_def)
qed

text \<open>One turn of the fair queue among registered protocols of the default class.\<close>

lemma wq_turn:
  assumes "ready \<noteq> []" and "set ready \<subseteq> registered s" and "set ready \<inter> set (wq_priority_protocols s) = {}"
    and "s1 = (if \<forall>i\<in>set ready. deficit_of s i \<le> 0 then credit_all s else s)"
  obtains c where "fst (wq_next s ready) = Some c" and "c \<in> set ready" and "\<forall>i\<in>set ready. deficit_of s1 i \<le> deficit_of s1 c"
    and "\<And>i. find_default (snd (wq_next s ready)) i =
       (if i = c then map_option (\<lambda>(p, w, d). (p, w, d - 1)) (find_default s1 i) else find_default s1 i)"
proof -
  have pr: "filter (\<lambda>i. i \<in> set (wq_priority_protocols s)) ready = []" using assms(3) by (auto simp: filter_empty_conv)
  have dr: "filter (\<lambda>i. i \<in> fst ` set (wq_default_protocols s)) ready = ready"
    using assms(2) by (auto simp: registered_def filter_id_conv)
  obtain c where c: "max_by_key (deficit_or 0 s1) ready = Some c"
    using max_by_key_None [of "deficit_or 0 s1" ready] assms(1) by auto
  have r: "wq_next s ready = (Some c, s1\<lparr>wq_default_protocols := decrement_first c (wq_default_protocols s1)\<rparr>)"
    using assms(1) c unfolding wq_next_def Let_def pr dr
    by (simp add: assms(4) deficit_of_def list_all_iff split: if_splits)
  show ?thesis
  proof (rule that)
    show "fst (wq_next s ready) = Some c" by (simp add: r)
    show "c \<in> set ready" "\<forall>i\<in>set ready. deficit_of s1 i \<le> deficit_of s1 c"
      using max_by_key_Some [OF c] by (simp_all add: deficit_of_def)
    show "find_default (snd (wq_next s ready)) i =
       (if i = c then map_option (\<lambda>(p, w, d). (p, w, d - 1)) (find_default s1 i) else find_default s1 i)" for i
      by (simp add: r find_default_def find_decrement)
  qed
qed

text \<open>Weights of at least one, and no protocol in both classes: what registration establishes.\<close>

definition wq_ok :: "priority_wfq \<Rightarrow> bool" where
  "wq_ok s \<longleftrightarrow> (\<forall>i\<in>registered s. 1 \<le> weight_of s i) \<and> registered s \<inter> set (wq_priority_protocols s) = {}"

definition same_weights :: "priority_wfq \<Rightarrow> priority_wfq \<Rightarrow> bool" where
  "same_weights s s' \<longleftrightarrow> (\<forall>i. weight_of s' i = weight_of s i) \<and> registered s' = registered s \<and>
     wq_priority_protocols s' = wq_priority_protocols s"

lemma same_weights_trans: "same_weights a b \<Longrightarrow> same_weights b c \<Longrightarrow> same_weights a c"
  by (simp add: same_weights_def)

lemma same_weights_ok: "same_weights s s' \<Longrightarrow> wq_ok s \<Longrightarrow> wq_ok s'"
  by (simp add: same_weights_def wq_ok_def)

lemma same_weights_credit: "same_weights s (credit_all s)"
proof -
  have "registered (credit_all s) = registered s"
    using fst_credit_all [of s] by (metis registered_def list.set_map)
  moreover have "wq_priority_protocols (credit_all s) = wq_priority_protocols s" by (simp add: credit_all_def)
  ultimately show ?thesis
    unfolding same_weights_def weight_of_def find_default_credit by (auto split: option.splits)
qed

lemma weight_of_bound: "weight_of s i < 65536"
proof -
  have "unat w < 65536" for w :: u16 using unsigned_less [of w] by simp
  then show ?thesis by (simp add: weight_of_def split: option.splits)
qed

lemma same_weights_next: "same_weights s (snd (wq_next s ready))"
proof -
  have reg: "registered (snd (wq_next s ready)) = registered s"
    using wq_next_ids(1) [of s ready] by (metis registered_def list.set_map)
  have dec: "weight_of (t\<lparr>wq_default_protocols := decrement_first c (wq_default_protocols t)\<rparr>) i = weight_of t i" for t c i
    by (auto simp: weight_of_def find_default_def find_decrement split: option.splits)
  have "weight_of (snd (wq_next s ready)) i = weight_of s i" for i
    using same_weights_credit [of s]
    by (auto simp: wq_next_def Let_def dec same_weights_def weight_of_def [of "s\<lparr>wq_priority_last := _\<rparr>"] find_default_def
        weight_of_def [of s] split: option.splits)
  then show ?thesis using reg wq_next_ids(2) by (simp add: same_weights_def)
qed

lemma signed_take_small: "- (2 ^ 31) \<le> k \<Longrightarrow> k < 2 ^ 31 \<Longrightarrow> signed_take_bit 31 k = (k :: int)"
  by (simp add: signed_take_bit_int_eq_self)

lemma sint_minus_1: "0 < sint d \<Longrightarrow> sint (d - 1) = sint d - 1" for d :: i32
  using sint_lt [of d] by (simp add: sint_word_diff sint_word_01 signed_take_small)

lemma sint_ucast_u16: "sint (ucast w :: i32) = int (unat w)" for w :: u16
proof -
  have w: "uint w < 2 ^ 16" using unsigned_less [of w] by simp
  then have "uint (ucast w :: i32) = uint w" by (simp add: unsigned_ucast_eq take_bit_int_eq_self)
  moreover have "signed_take_bit 31 (uint w) = uint w"
    using w by (intro signed_take_small) (auto intro: order_trans [OF _ unsigned_greater_eq])
  ultimately show ?thesis by (simp add: sint_uint)
qed

lemma deficit_after_turn:
  assumes "find_default s' i = map_option (\<lambda>(p, w, d). (p, w, d - 1)) (find_default s i)" and "0 < deficit_of s i"
  shows "deficit_of s' i = deficit_of s i - 1"
  using assms by (auto simp: deficit_of_def deficit_or_def sint_minus_1 split: option.splits)

lemma deficit_credited: "i \<in> registered s \<Longrightarrow> deficit_of s i = 0 \<Longrightarrow> deficit_of (credit_all s) i = int (weight_of s i)"
proof -
  assume i: "i \<in> registered s" "deficit_of s i = 0"
  then obtain w d where f: "find_default s i = Some (i, w, d)" using find_default_Some by blast
  then have "sint d = 0" using i by (simp add: deficit_of_def deficit_or_def)
  then have "d = 0" by (metis of_int_0 of_int_sint scast_id)
  with f show ?thesis by (simp add: deficit_of_def deficit_or_def find_default_credit weight_of_def sint_ucast_u16)
qed

text \<open>While some ready protocol has credit, every turn spends one unit of it.\<close>

definition backlog :: "priority_wfq \<Rightarrow> protocol_id list \<Rightarrow> bool" where
  "backlog s ready \<longleftrightarrow> ready \<noteq> [] \<and> set ready \<subseteq> registered s \<and> wq_ok s \<and> (\<forall>i\<in>set ready. 0 \<le> deficit_of s i)"

definition credit_left :: "priority_wfq \<Rightarrow> protocol_id list \<Rightarrow> int" where
  "credit_left s ready = (\<Sum>i\<in>set ready. deficit_of s i)"

lemma backlog_turn:
  assumes "backlog s ready" and "0 < credit_left s ready"
  obtains c where "fst (wq_next s ready) = Some c" and "c \<in> set ready" and "0 < deficit_of s c"
    and "backlog (snd (wq_next s ready)) ready"
    and "\<forall>i\<in>set ready. deficit_of (snd (wq_next s ready)) i = (if i = c then deficit_of s i - 1 else deficit_of s i)"
    and "credit_left (snd (wq_next s ready)) ready = credit_left s ready - 1"
proof -
  note b = assms(1) [unfolded backlog_def]
  have some: "\<not> (\<forall>i\<in>set ready. deficit_of s i \<le> 0)"
    using assms(2) sum_nonpos [of "set ready" "deficit_of s"] by (auto simp: credit_left_def)
  have disj: "set ready \<inter> set (wq_priority_protocols s) = {}" using b by (auto simp: wq_ok_def)
  obtain c where c: "fst (wq_next s ready) = Some c" "c \<in> set ready" "\<forall>i\<in>set ready. deficit_of s i \<le> deficit_of s c"
    and f: "\<And>i. find_default (snd (wq_next s ready)) i =
       (if i = c then map_option (\<lambda>(p, w, d). (p, w, d - 1)) (find_default s i) else find_default s i)"
    using wq_turn [of ready s s] b disj some by auto
  have pos: "0 < deficit_of s c" using some c(3) by force
  have d: "deficit_of (snd (wq_next s ready)) i = (if i = c then deficit_of s i - 1 else deficit_of s i)" for i
    using f [of i] deficit_after_turn [of "snd (wq_next s ready)" i s] pos
    by (auto simp: deficit_of_def deficit_or_def)
  have "credit_left (snd (wq_next s ready)) ready = (\<Sum>i\<in>set ready. deficit_of s i - (if i = c then 1 else 0))"
    unfolding credit_left_def by (rule sum.cong) (simp_all add: d)
  also have "\<dots> = credit_left s ready - 1" using c(2) by (simp add: credit_left_def sum_subtractf)
  finally have cl: "credit_left (snd (wq_next s ready)) ready = credit_left s ready - 1" .
  have "backlog (snd (wq_next s ready)) ready"
    using b same_weights_next [of s ready] same_weights_ok pos by (auto simp: backlog_def d same_weights_def)
  then show ?thesis using that c pos d cl by blast
qed

lemma spend_credit:
  assumes "backlog s ready" and "credit_left s ready = int n"
  shows "(\<forall>i\<in>set ready. int (count_list (fst (wq.turns n s ready)) (Some i)) = deficit_of s i) \<and>
    backlog (snd (wq.turns n s ready)) ready \<and> same_weights s (snd (wq.turns n s ready)) \<and>
    (\<forall>i\<in>set ready. deficit_of (snd (wq.turns n s ready)) i = 0)"
  using assms
proof (induction n arbitrary: s)
  case 0
  then have "\<forall>i\<in>set ready. deficit_of s i = 0"
    using sum_nonneg_eq_0_iff [of "set ready" "deficit_of s"] by (auto simp: backlog_def credit_left_def)
  with 0 show ?case by (simp add: same_weights_def)
next
  case (Suc n)
  obtain c where c: "fst (wq_next s ready) = Some c" "c \<in> set ready" "backlog (snd (wq_next s ready)) ready"
    "\<forall>i\<in>set ready. deficit_of (snd (wq_next s ready)) i = (if i = c then deficit_of s i - 1 else deficit_of s i)"
    "credit_left (snd (wq_next s ready)) ready = credit_left s ready - 1"
    by (rule backlog_turn [OF Suc.prems(1)]) (use Suc.prems(2) in auto)
  have r: "fst (wq.turns (Suc n) s ready) = Some c # fst (wq.turns n (snd (wq_next s ready)) ready)"
    "snd (wq.turns (Suc n) s ready) = snd (wq.turns n (snd (wq_next s ready)) ready)"
    using c(1) by (simp_all add: case_prod_unfold Let_def)
  have IH: "\<forall>i\<in>set ready. int (count_list (fst (wq.turns n (snd (wq_next s ready)) ready)) (Some i)) =
        deficit_of (snd (wq_next s ready)) i"
    "backlog (snd (wq.turns n (snd (wq_next s ready)) ready)) ready"
    "same_weights (snd (wq_next s ready)) (snd (wq.turns n (snd (wq_next s ready)) ready))"
    "\<forall>i\<in>set ready. deficit_of (snd (wq.turns n (snd (wq_next s ready)) ready)) i = 0"
    using Suc.IH [OF c(3)] c(5) Suc.prems(2) by simp_all
  have "\<forall>i\<in>set ready. int (count_list (fst (wq.turns (Suc n) s ready)) (Some i)) = deficit_of s i"
    unfolding r using IH(1) c(4) by simp
  then show ?case
    using IH(2-) same_weights_trans [OF same_weights_next IH(3)] by (simp only: r)
qed

text \<open>With no credit left, the next turn first credits everyone.\<close>

lemma exhausted_turn:
  assumes "backlog s ready" and "\<forall>i\<in>set ready. deficit_of s i = 0"
  shows "backlog (credit_all s) ready" and "\<forall>i\<in>set ready. deficit_of (credit_all s) i = int (weight_of s i)"
    and "wq_next s ready = wq_next (credit_all s) ready"
proof -
  have reg: "\<forall>i\<in>set ready. i \<in> registered s" using assms(1) by (auto simp: backlog_def)
  then show d: "\<forall>i\<in>set ready. deficit_of (credit_all s) i = int (weight_of s i)"
    using assms(2) deficit_credited by blast
  then show "backlog (credit_all s) ready"
    using assms(1) same_weights_credit [of s] same_weights_ok by (auto simp: backlog_def same_weights_def)
  let ?pr = "filter (\<lambda>i. i \<in> set (wq_priority_protocols s)) ready"
  have pr: "?pr = []" using assms(1) by (auto simp: backlog_def wq_ok_def filter_empty_conv)
  have dr: "filter (\<lambda>i. i \<in> fst ` set (wq_default_protocols s)) ready = ready"
    "filter (\<lambda>i. i \<in> fst ` set (wq_default_protocols (credit_all s))) ready = ready"
    using reg same_weights_credit [of s] by (auto simp: registered_def same_weights_def filter_id_conv)
  have nonempty: "\<exists>i. i \<in> set ready" using assms(1) by (cases ready) (auto simp: backlog_def)
  have "1 \<le> weight_of s i" if "i \<in> set ready" for i using assms(1) reg that by (auto simp: backlog_def wq_ok_def)
  then have ex: "list_all (\<lambda>i. deficit_or 0 s i \<le> 0) ready" "\<not> list_all (\<lambda>i. deficit_or 0 (credit_all s) i \<le> 0) ready"
    using assms d nonempty by (force simp: list_all_iff deficit_of_def)+
  have pp: "wq_priority_protocols (credit_all s) = wq_priority_protocols s" by (simp add: credit_all_def)
  show "wq_next s ready = wq_next (credit_all s) ready"
    unfolding wq_next_def Let_def pp pr dr using ex assms(1) by (simp add: backlog_def)
qed

lemma exhausted_turns:
  assumes "backlog s ready" and "\<forall>i\<in>set ready. deficit_of s i = 0" and "0 < n"
  shows "wq.turns n s ready = wq.turns n (credit_all s) ready"
  using assms(3) by (cases n) (simp_all add: exhausted_turn(3) [OF assms(1,2)])

definition round_length :: "priority_wfq \<Rightarrow> protocol_id list \<Rightarrow> nat" where
  "round_length s ready = (\<Sum>i\<in>set ready. weight_of s i)"

lemma round_length_pos: "backlog s ready \<Longrightarrow> 0 < round_length s ready"
proof -
  assume b: "backlog s ready"
  then obtain i where i: "i \<in> set ready" by (cases ready) (auto simp: backlog_def)
  then have "0 < weight_of s i" using b by (force simp: backlog_def wq_ok_def)
  also have "\<dots> \<le> round_length s ready" unfolding round_length_def using i by (intro member_le_sum) auto
  finally show ?thesis .
qed

lemma one_round:
  assumes "backlog s ready" and "\<forall>i\<in>set ready. deficit_of s i = int (weight_of s i)"
  shows "(\<forall>i\<in>set ready. count_list (fst (wq.turns (round_length s ready) s ready)) (Some i) = weight_of s i) \<and>
    backlog (snd (wq.turns (round_length s ready) s ready)) ready \<and> same_weights s (snd (wq.turns (round_length s ready) s ready)) \<and>
    (\<forall>i\<in>set ready. deficit_of (snd (wq.turns (round_length s ready) s ready)) i = 0)"
proof -
  have "credit_left s ready = int (round_length s ready)" using assms(2) by (simp add: credit_left_def round_length_def)
  from spend_credit [OF assms(1) this] assms(2) show ?thesis by auto
qed

lemma fair_rounds:
  assumes "backlog s ready" and "\<forall>i\<in>set ready. deficit_of s i = 0"
  shows "\<forall>i\<in>set ready. count_list (fst (wq.turns (k * round_length s ready) s ready)) (Some i) = k * weight_of s i"
  using assms
proof (induction k arbitrary: s)
  case (Suc k)
  let ?L = "round_length s ready" and ?c = "credit_all s"
  note ex = exhausted_turn(1,2) [OF Suc.prems]
  have w: "weight_of ?c = weight_of s" using same_weights_credit [of s] by (auto simp: same_weights_def)
  have L: "round_length ?c ready = ?L" by (simp add: round_length_def w)
  note one = one_round [OF ex(1), unfolded L w, OF ex(2)]
  have first: "wq.turns ?L s ready = wq.turns ?L ?c ready"
    by (rule exhausted_turns [OF Suc.prems round_length_pos [OF Suc.prems(1)]])
  define s1 where "s1 = snd (wq.turns ?L ?c ready)"
  have w1: "weight_of s1 = weight_of s" using one w by (auto simp: s1_def same_weights_def)
  have L1: "round_length s1 ready = ?L" by (simp add: round_length_def w1)
  have "\<forall>i\<in>set ready. count_list (fst (wq.turns (k * ?L) s1 ready)) (Some i) = k * weight_of s i"
    using Suc.IH [of s1] one unfolding s1_def [symmetric] L1 w1 by blast
  moreover have "fst (wq.turns (Suc k * ?L) s ready) = fst (wq.turns ?L ?c ready) @ fst (wq.turns (k * ?L) s1 ready)"
    by (simp add: wq.turns_add first s1_def case_prod_unfold Let_def)
  ultimately show ?case using one by auto
qed simp

definition register_all :: "(protocol_id \<times> traffic_class) list \<Rightarrow> priority_wfq" where
  "register_all ps = fold (\<lambda>(i, tc) s. wq_register s i tc) ps priority_wfq_default"

definition fresh_credit :: "priority_wfq \<Rightarrow> bool" where
  "fresh_credit s \<longleftrightarrow> wq_ok s \<and> (\<forall>i\<in>registered s. deficit_of s i = int (weight_of s i))"

lemma find_default_register:
  "find_default (wq_register s j tc) i =
     (if i = j then (case tc of Priority \<Rightarrow> None | DefaultClass w \<Rightarrow> Some (j, max w 1, ucast (max w 1))) else find_default s i)"
proof -
  have drop: "find (\<lambda>(p, _). p = i) (filter (\<lambda>(p, _). p \<noteq> j) ds) = (if i = j then None else find (\<lambda>(p, _). p = i) ds)"
    for ds :: "(u16 \<times> u16 \<times> i32) list" by (induction ds) auto
  have app: "find P (xs @ ys) = (case find P xs of None \<Rightarrow> find P ys | Some x \<Rightarrow> Some x)" for P and xs ys :: "(u16 \<times> u16 \<times> i32) list"
    by (induction xs) auto
  show ?thesis
    by (cases tc) (auto simp: find_default_def wq_register_def Let_def app drop split: option.splits)
qed

lemma registered_find: "i \<in> registered s \<longleftrightarrow> find_default s i \<noteq> None"
  by (force simp: registered_def find_default_def find_None_iff)

lemma fresh_register: "fresh_credit s \<Longrightarrow> fresh_credit (wq_register s j tc)"
proof -
  assume s: "fresh_credit s"
  have pos: "1 \<le> unat (max w 1)" for w :: u16
    by (metis max.cobounded2 unat_1 word_le_nat_alt)
  have pr: "set (wq_priority_protocols (wq_register s j tc)) =
      (set (wq_priority_protocols s) - {j}) \<union> (if tc = Priority then {j} else {})"
    by (cases tc) (auto simp: wq_register_def Let_def)
  show ?thesis
    using s pos unfolding fresh_credit_def wq_ok_def
    by (auto simp: registered_find find_default_register weight_of_def deficit_of_def deficit_or_def sint_ucast_u16 pr
        split: traffic_class.splits if_splits)
qed

lemma fresh_register_all: "fresh_credit (register_all ps)"
proof -
  have "fresh_credit s \<Longrightarrow> fresh_credit (fold (\<lambda>(i, tc) s. wq_register s i tc) ps s)" for s
    by (induction ps arbitrary: s) (auto simp: fresh_register)
  moreover have "fresh_credit priority_wfq_default"
    by (simp add: fresh_credit_def wq_ok_def registered_def priority_wfq_default_def)
  ultimately show ?thesis by (simp add: register_all_def)
qed

text \<open>C18: weighted fairness of the default scheduler. After any registrations, while the same default-class protocols
  keep data ready, each round of as many turns as their weights sum up to serves every one of them exactly as
  often as its weight, round after round.\<close>

theorem wfq_fair_rounds:
  assumes "ready \<noteq> []" and "set ready \<subseteq> registered (register_all ps)" and "i \<in> set ready"
  shows "count_list (fst (wq.turns (k * round_length (register_all ps) ready) (register_all ps) ready)) (Some i) =
    k * weight_of (register_all ps) i"
proof (cases k)
  case (Suc k')
  let ?s = "register_all ps" and ?L = "round_length (register_all ps) ready"
  note fresh = fresh_register_all [of ps]
  have b: "backlog ?s ready" and d: "\<forall>i\<in>set ready. deficit_of ?s i = int (weight_of ?s i)"
    using assms fresh by (auto simp: backlog_def fresh_credit_def)
  note one = one_round [OF b d]
  define s1 where "s1 = snd (wq.turns ?L ?s ready)"
  have w1: "weight_of s1 = weight_of ?s" using one by (auto simp: s1_def same_weights_def)
  have L1: "round_length s1 ready = ?L" by (simp add: round_length_def w1)
  have "count_list (fst (wq.turns (k' * ?L) s1 ready)) (Some i) = k' * weight_of ?s i"
    using fair_rounds [of s1 ready k'] one assms(3) unfolding s1_def [symmetric] L1 w1 by blast
  moreover have "fst (wq.turns (k * ?L) ?s ready) = fst (wq.turns ?L ?s ready) @ fst (wq.turns (k' * ?L) s1 ready)"
    by (simp add: Suc wq.turns_add s1_def case_prod_unfold Let_def)
  ultimately show ?thesis using one assms(3) by (simp add: Suc)
qed simp

theorem wfq_fair_rounds_witness:
  "count_list (fst (wq.turns (2 * round_length (register_all [(0, Priority), (2, DefaultClass 3), (3, DefaultClass 1)]) [2, 3])
      (register_all [(0, Priority), (2, DefaultClass 3), (3, DefaultClass 1)]) [2, 3])) (Some 2) = 6"
proof -
  let ?s = "register_all [(0, Priority), (2, DefaultClass 3), (3, DefaultClass 1)]"
  have s: "wq_default_protocols ?s = [(2, 3, 3), (3, 1, 1)]"
    by (simp add: register_all_def wq_register_def priority_wfq_default_def Let_def max_def word_le_nat_alt)
  have "set [2, 3] \<subseteq> registered ?s" by (simp add: registered_def s)
  moreover have "weight_of ?s 2 = 3" by (simp add: weight_of_def find_default_def s)
  ultimately show ?thesis using wfq_fair_rounds [of "[2, 3]" "[(0, Priority), (2, DefaultClass 3), (3, DefaultClass 1)]" 2 2] by simp
qed

text \<open>Credit of idle protocols: the round's credit goes to every registered protocol, ready or not, and is never
  taken back. After the other protocol took \<open>m\<close> turns alone, an idle one of weight 1 takes the next \<open>m\<close> turns in a
  row.\<close>

definition idle_pair :: "int \<Rightarrow> int \<Rightarrow> priority_wfq" where
  "idle_pair a b = \<lparr>wq_priority_protocols = [], wq_priority_last = 0,
     wq_default_protocols = [(2, 1, word_of_int a), (3, 1, word_of_int b)]\<rparr>"

lemma sint_of_int_small: "0 \<le> k \<Longrightarrow> k < 2 ^ 31 \<Longrightarrow> sint (word_of_int k :: i32) = k"
  by (simp add: sint_sbintrunc' signed_take_small)

lemma idle_pair_solo:
  "m < 2 ^ 31 - 1 \<Longrightarrow> 0 < m \<Longrightarrow> snd (wq.turns m (idle_pair 1 1) [3]) = idle_pair (int m) 0"
proof (induction m)
  case (Suc m)
  show ?case
  proof (cases m)
    case 0
    have "snd (wq_next (idle_pair 1 1) [3]) = idle_pair 1 0"
      by (simp add: idle_pair_def wq_next_def deficit_or_def find_default_def Let_def sint_word_01 signed_take_small)
    with 0 show ?thesis by (simp add: case_prod_unfold Let_def)
  next
    case (Suc m')
    then have IH: "snd (wq.turns m (idle_pair 1 1) [3]) = idle_pair (int m) 0" using Suc.IH Suc.prems by simp
    have "snd (wq_next (idle_pair (int m) 0) [3]) = idle_pair (int m + 1) 0"
      by (simp add: idle_pair_def wq_next_def deficit_or_def find_default_def Let_def credit_all_def)
    then show ?thesis
      using wq.turns_add [of m 1 "idle_pair 1 1" "[3]"] IH by (simp add: case_prod_unfold Let_def add.commute)
  qed
qed simp

lemma idle_pair_burst:
  "m < 2 ^ 31 \<Longrightarrow> fst (wq.turns m (idle_pair (int m) 0) [2, 3]) = replicate m (Some 2)"
proof (induction m)
  case (Suc m)
  have "sint (word_of_int (int m + 1) :: i32) = int m + 1" by (rule sint_of_int_small) (use Suc.prems in auto)
  then have "sint (1 + word_of_nat m :: i32) = int m + 1" by (simp add: add.commute)
  then have "wq_next (idle_pair (int (Suc m)) 0) [2, 3] = (Some 2, idle_pair (int m) 0)"
    by (simp add: idle_pair_def wq_next_def deficit_or_def find_default_def Let_def)
  then show ?case using Suc by (simp add: case_prod_unfold)
qed simp

lemma idle_credit_burst:
  assumes "0 < m" and "m < 2 ^ 31 - 1"
  shows "fst (wq.turns m (snd (wq.turns m (register_all [(2, DefaultClass 1), (3, DefaultClass 1)]) [3])) [2, 3]) =
    replicate m (Some 2)"
proof -
  have "register_all [(2, DefaultClass 1), (3, DefaultClass 1)] = idle_pair 1 1"
    by (simp add: register_all_def wq_register_def priority_wfq_default_def idle_pair_def Let_def)
  then show ?thesis using assms idle_pair_solo [of m] idle_pair_burst [of m] by simp
qed

end
