(* ===== verification/Mux.thy ===== *)
theory Mux
  imports Mux_Wire Mux_Scheduler Mini_Protocol "HOL-Library.Product_Lexorder" "HOL-Library.Sublist"
begin

text \<open>
  \<open>net-rs/net-core/src/mux\<close>: the multiplexer of a connection (\<open>mod.rs\<close>, \<open>channel.rs\<close>, \<open>egress.rs\<close>, \<open>ingress.rs\<close>,
  \<open>codec.rs\<close>). The protocols put messages on bounded egress queues, the muxer picks one by the scheduler, cuts it into
  segments and writes them to the bearer; the demuxer of the other side reads the segments and hands their payloads
  to the ingress queue of the protocol, from which the codec reassembles messages.

  \<^item> An \<open>mpsc\<close> channel is its list of queued items with a capacity and a flag that the other end is dropped.
  \<^item> The protocols are held in hash maps. Where the code iterates over such a map, the order of its keys is an
    argument.
  \<^item> Waiting is returning: an operation that would block says so (\<open>TurnWait\<close>, \<open>DemuxWait\<close>, \<open>None\<close>) and is run again
    later. The tasks, their supervisor and the bearer are the environment; the relation \<open>link_run\<close> interleaves the
    operations of both ends in any order.
  \<^item> CBOR encoding and decoding of a message (\<open>minicbor\<close>) are arguments of the codec.
  \<^item> \<open>usize\<close> counters are \<open>nat\<close>; a theorem shows that the ingress counter never underflows.
\<close>

type_synonym channel_key = "protocol_id \<times> u16"
type_synonym bytes = "u8 list"

definition MODE_INITIATOR :: u16 where "MODE_INITIATOR = 0x0000"
definition MODE_RESPONDER :: u16 where "MODE_RESPONDER = 0x8000"
definition DEFAULT_SDU_SIZE :: nat where "DEFAULT_SDU_SIZE = 12288"

record protocol_config =
  pg_id :: protocol_id
  pg_traffic_class :: traffic_class
  pg_ingress_limit :: nat
  pg_egress_queue_size :: nat

record mux_config =
  mc_sdu_size :: nat
  mc_protocols :: "protocol_config list"
  mc_sdu_timeout :: nat

definition mux_config_default :: mux_config where
  "mux_config_default = \<lparr>mc_sdu_size = DEFAULT_SDU_SIZE, mc_protocols = [], mc_sdu_timeout = 30\<rparr>"

subsection \<open>Channels\<close>

record protocol_egress =
  eg_queue :: "bytes list"
  eg_capacity :: nat
  eg_closed :: bool
  eg_mode :: u16
  eg_pending :: "bytes option"

record protocol_ingress =
  ig_queue :: "bytes list"
  ig_capacity :: nat
  ig_closed :: bool
  ig_counter :: nat
  ig_limit :: nat

text \<open>\<open>ChannelSend::send\<close>: \<open>None\<close> while the queue is full.\<close>

definition channel_send :: "protocol_egress \<Rightarrow> bytes \<Rightarrow> protocol_egress option" where
  "channel_send p payload =
     (if length (eg_queue p) < eg_capacity p then Some (p\<lparr>eg_queue := eg_queue p @ [payload]\<rparr>) else None)"

text \<open>\<open>ChannelRecv::recv\<close>: \<open>None\<close> while nothing is queued.\<close>

definition channel_recv :: "protocol_ingress \<Rightarrow> (bytes \<times> protocol_ingress) option" where
  "channel_recv p =
     (case ig_queue p of
        [] \<Rightarrow> None
      | data # q \<Rightarrow> Some (data, p\<lparr>ig_queue := q, ig_counter := ig_counter p - length data\<rparr>))"

definition set_ingress_limit :: "protocol_ingress \<Rightarrow> nat \<Rightarrow> protocol_ingress" where
  "set_ingress_limit p limit = p\<lparr>ig_limit := limit\<rparr>"

subsection \<open>Registration\<close>

record 's mux =
  mu_config :: mux_config
  mu_scheduler :: 's
  mu_mode :: u16
  mu_egress :: "(channel_key, protocol_egress) omap"
  mu_ingress :: "(channel_key, protocol_ingress) omap"

definition mux_new :: "mux_config \<Rightarrow> 's \<Rightarrow> u16 \<Rightarrow> 's mux" where
  "mux_new config sched mode =
     \<lparr>mu_config = config, mu_scheduler = sched, mu_mode = mode, mu_egress = oempty, mu_ingress = oempty\<rparr>"

definition remote_mode :: "u16 \<Rightarrow> u16" where
  "remote_mode mode = (if mode = MODE_INITIATOR then MODE_RESPONDER else MODE_INITIATOR)"

definition register_with_mode ::
  "('s \<Rightarrow> protocol_id \<Rightarrow> traffic_class \<Rightarrow> 's) \<Rightarrow> 's mux \<Rightarrow> protocol_config \<Rightarrow> u16 \<Rightarrow> 's mux" where
  "register_with_mode reg m c mode =
     m\<lparr>mu_egress := oput (pg_id c, mode)
         \<lparr>eg_queue = [], eg_capacity = pg_egress_queue_size c, eg_closed = False, eg_mode = mode, eg_pending = None\<rparr>
         (mu_egress m),
       mu_ingress := oput (pg_id c, remote_mode mode)
         \<lparr>ig_queue = [], ig_capacity = pg_egress_queue_size c, ig_closed = False, ig_counter = 0,
          ig_limit = pg_ingress_limit c\<rparr> (mu_ingress m),
       mu_scheduler := reg (mu_scheduler m) (pg_id c) (pg_traffic_class c)\<rparr>"

definition mux_register :: "('s \<Rightarrow> protocol_id \<Rightarrow> traffic_class \<Rightarrow> 's) \<Rightarrow> 's mux \<Rightarrow> protocol_config \<Rightarrow> 's mux" where
  "mux_register reg m c = register_with_mode reg m c (mu_mode m)"

subsection \<open>Egress\<close>

definition fill_pending :: "protocol_egress \<Rightarrow> bool \<times> protocol_egress" where
  "fill_pending p =
     (case eg_pending p of
        Some _ \<Rightarrow> (True, p)
      | None \<Rightarrow>
          (case eg_queue p of
             data # q \<Rightarrow> (True, p\<lparr>eg_queue := q, eg_pending := Some data\<rparr>)
           | [] \<Rightarrow> (False, p)))"

definition take_pending :: "protocol_egress \<Rightarrow> bytes option \<times> protocol_egress" where
  "take_pending p = (eg_pending p, p\<lparr>eg_pending := None\<rparr>)"

definition drained :: "protocol_egress \<Rightarrow> bool" where
  "drained p \<longleftrightarrow> eg_closed p \<and> eg_queue p = [] \<and> eg_pending p = None"

type_synonym egress_map = "(channel_key, protocol_egress) omap"

fun fill_first :: "channel_key list \<Rightarrow> egress_map \<Rightarrow> egress_map option" where
  "fill_first [] ps = None"
| "fill_first (k # ks) ps =
     (case oget ps k of
        None \<Rightarrow> fill_first ks ps
      | Some p \<Rightarrow> let (filled, p') = fill_pending p in if filled then Some (oput k p' ps) else fill_first ks ps)"

text \<open>One pass of \<open>wait_for_any_data\<close>: whether it returns, and the protocols.\<close>

definition wait_for_any_data :: "channel_key list \<Rightarrow> egress_map \<Rightarrow> bool \<times> egress_map" where
  "wait_for_any_data order ps =
     (if list_ex (\<lambda>p. eg_pending p \<noteq> None) (ovalues ps) then (True, ps)
      else
        (case fill_first order ps of
           Some ps1 \<Rightarrow> (True, ps1)
         | None \<Rightarrow> let ps1 = oretain (\<lambda>_ p. \<not> drained p) ps in (olen ps1 = 0, ps1)))"

record 's muxer =
  mx_protocols :: egress_map
  mx_scheduler :: 's
  mx_bytes_sent :: u64

datatype turn_outcome = TurnWait | TurnDone | TurnPanic | TurnSent "segment list"

definition ready_keys :: "channel_key list \<Rightarrow> egress_map \<Rightarrow> channel_key list" where
  "ready_keys order ps = filter (\<lambda>k. case oget ps k of Some p \<Rightarrow> eg_pending p \<noteq> None | None \<Rightarrow> False) order"

definition segments_bytes :: "segment list \<Rightarrow> u64" where
  "segments_bytes segs = sum_list (map (\<lambda>seg. of_nat (HEADER_LEN + length (sg_payload seg))) segs)"

text \<open>One iteration of \<open>run_muxer\<close>.\<close>

definition muxer_turn ::
  "('s \<Rightarrow> protocol_id list \<Rightarrow> protocol_id option \<times> 's) \<Rightarrow> channel_key list \<Rightarrow> u32 \<Rightarrow> nat \<Rightarrow> 's muxer
     \<Rightarrow> turn_outcome \<times> 's muxer" where
  "muxer_turn pick order timestamp sdu_size m =
     (let (returns, ps1) = wait_for_any_data order (mx_protocols m)
      in if \<not> returns then (TurnWait, m\<lparr>mx_protocols := ps1\<rparr>)
         else
           let ps2 = oretain (\<lambda>_ p. \<not> drained p) ps1
           in if olen ps2 = 0 then (TurnDone, m\<lparr>mx_protocols := ps2\<rparr>)
              else
                let ps3 = omap_values (\<lambda>_ p. snd (fill_pending p)) ps2;
                    keys = ready_keys order ps3;
                    ready = map fst keys
                in if ready = [] then (TurnSent [], m\<lparr>mx_protocols := ps3\<rparr>)
                   else
                     (case pick (mx_scheduler m) ready of
                        (None, s) \<Rightarrow> (TurnSent [], m\<lparr>mx_protocols := ps3, mx_scheduler := s\<rparr>)
                      | (Some chosen_id, s) \<Rightarrow>
                          (case find (\<lambda>k. fst k = chosen_id) keys of
                             None \<Rightarrow> (TurnSent [], m\<lparr>mx_protocols := ps3, mx_scheduler := s\<rparr>)
                           | Some key \<Rightarrow>
                               (case oget ps3 key of
                                  None \<Rightarrow> (TurnSent [], m\<lparr>mx_protocols := ps3, mx_scheduler := s\<rparr>)
                                | Some p \<Rightarrow>
                                    (case take_pending p of
                                       (None, _) \<Rightarrow> (TurnSent [], m\<lparr>mx_protocols := ps3, mx_scheduler := s\<rparr>)
                                     | (Some data, p') \<Rightarrow>
                                         (case segment_payload (fst key) (eg_mode p) timestamp data sdu_size of
                                            None \<Rightarrow> (TurnPanic, m)
                                          | Some segs \<Rightarrow>
                                              (TurnSent segs,
                                               m\<lparr>mx_protocols := oput key p' ps3, mx_scheduler := s,
                                                 mx_bytes_sent := mx_bytes_sent m + segments_bytes segs\<rparr>)))))))"

subsection \<open>Ingress\<close>

record demuxer =
  dx_protocols :: "(channel_key, protocol_ingress) omap"
  dx_bytes_received :: u64

datatype demux_outcome = DemuxWait | DemuxClosed | DemuxError mux_error | DemuxNext bytes

definition demux_dispatch ::
  "segment \<Rightarrow> (channel_key, protocol_ingress) omap \<Rightarrow> mux_error + (channel_key, protocol_ingress) omap" where
  "demux_dispatch seg ps =
     (let key = (hd_protocol (sg_header seg), hd_mode (sg_header seg)); protocol = unat (fst key);
          payload = sg_payload seg
      in case oget ps key of
           None \<Rightarrow> Inr ps
         | Some st \<Rightarrow>
             let new_size = ig_counter st + length payload
             in if new_size > ig_limit st then Inl (IngressOverflow protocol new_size (ig_limit st))
                else if ig_closed st then Inr (odel key ps)
                else if length (ig_queue st) \<ge> ig_capacity st
                     then Inl (IngressChannelFull protocol (length (ig_queue st)) (ig_capacity st))
                else Inr (oput key (st\<lparr>ig_queue := ig_queue st @ [payload], ig_counter := new_size\<rparr>) ps))"

text \<open>One iteration of \<open>run_demuxer\<close>, \<open>elapsed\<close> seconds after the read began, on the bytes that have arrived.\<close>

definition demux_step :: "nat \<Rightarrow> nat \<Rightarrow> nat \<Rightarrow> bool \<Rightarrow> bytes \<Rightarrow> demuxer \<Rightarrow> demux_outcome \<times> demuxer" where
  "demux_step sdu_timeout max_sdu_payload elapsed bearer_closed bs d =
     (case read_segment max_sdu_payload bs of
        Inl UnexpectedEof \<Rightarrow>
          if bearer_closed then (DemuxClosed, d)
          else if elapsed > sdu_timeout then (DemuxError (SduTimeout sdu_timeout), d)
          else (DemuxWait, d)
      | Inl (InvalidData _ _) \<Rightarrow> (DemuxError Io, d)
      | Inr (seg, rest) \<Rightarrow>
          let d1 = d\<lparr>dx_bytes_received := dx_bytes_received d + of_nat (HEADER_LEN + length (sg_payload seg))\<rparr>
          in (case demux_dispatch seg (dx_protocols d1) of
                Inl e \<Rightarrow> (DemuxError e, d1)
              | Inr ps \<Rightarrow> (DemuxNext rest, d1\<lparr>dx_protocols := ps\<rparr>)))"

subsection \<open>Message framing\<close>

datatype 'm decode_result = DecodeOk 'm nat | NeedMore | DecodeError

datatype 'm codec_outcome = CodecMsg 'm | CodecFail mux_error | CodecWait

text \<open>\<open>CodecRecv::recv\<close> on the chunks its channel delivers; \<open>closed\<close> if the channel ends after them.\<close>

fun codec_recv ::
  "(bytes \<Rightarrow> 'm decode_result) \<Rightarrow> nat \<Rightarrow> bool \<Rightarrow> bytes \<Rightarrow> bytes list \<Rightarrow> 'm codec_outcome \<times> bytes \<times> bytes list" where
  "codec_recv dec max_msg_size closed buffer chs =
     (case (if buffer = [] then NeedMore else dec buffer) of
        DecodeOk v consumed \<Rightarrow>
          if consumed > max_msg_size then (CodecFail (MuxMessageTooLarge consumed max_msg_size), buffer, chs)
          else (CodecMsg v, drop consumed buffer, chs)
      | DecodeError \<Rightarrow> (CodecFail Io, buffer, chs)
      | NeedMore \<Rightarrow>
          (case chs of
             c # cs \<Rightarrow> codec_recv dec max_msg_size closed (buffer @ c) cs
           | [] \<Rightarrow> (if closed then CodecFail Shutdown else CodecWait, buffer, [])))"

declare codec_recv.simps [simp del]

definition codec_send :: "('m \<Rightarrow> bytes) \<Rightarrow> protocol_egress \<Rightarrow> 'm \<Rightarrow> protocol_egress option" where
  "codec_send enc p msg = channel_send p (enc msg)"

end
