(* ===== verification/Mux_Link.thy ===== *)
theory Mux_Link
  imports Mux
begin

text \<open>
  The multiplexer end to end: one direction of a connection, from the egress queues of one side to the codecs of the
  other. Every protocol gets a reliable, ordered byte stream of its own, whatever the scheduler, the
  interleaving and the sizes; ingress buffers stay within their limits; the muxer makes progress; and messages come
  out of the codec as they went in, however the bytes were cut.
\<close>

subsection \<open>A link\<close>

record 's link =
  lk_mux :: "'s muxer"
  lk_wire :: bytes
  lk_demux :: demuxer

type_synonym trace = "channel_key \<Rightarrow> bytes list"

definition put_egress :: "'s link \<Rightarrow> channel_key \<Rightarrow> protocol_egress \<Rightarrow> 's link" where
  "put_egress l k p = l\<lparr>lk_mux := (lk_mux l)\<lparr>mx_protocols := oput k p (mx_protocols (lk_mux l))\<rparr>\<rparr>"

definition put_ingress :: "'s link \<Rightarrow> channel_key \<Rightarrow> protocol_ingress \<Rightarrow> 's link" where
  "put_ingress l k p = l\<lparr>lk_demux := (lk_demux l)\<lparr>dx_protocols := oput k p (dx_protocols (lk_demux l))\<rparr>\<rparr>"

abbreviation link_egress :: "'s link \<Rightarrow> channel_key \<Rightarrow> protocol_egress option" where
  "link_egress l k \<equiv> oget (mx_protocols (lk_mux l)) k"

abbreviation link_ingress :: "'s link \<Rightarrow> channel_key \<Rightarrow> protocol_ingress option" where
  "link_ingress l k \<equiv> oget (dx_protocols (lk_demux l)) k"

text \<open>A run from \<open>l0\<close>, with everything handed to and taken from the channels so far.\<close>

inductive link_run ::
  "('s \<Rightarrow> protocol_id list \<Rightarrow> protocol_id option \<times> 's) \<Rightarrow> nat \<Rightarrow> nat \<Rightarrow> 's link \<Rightarrow> trace \<Rightarrow> trace \<Rightarrow> 's link \<Rightarrow> bool"
  for pick sdu_size max_sdu l0 where
  lr_start: "link_run pick sdu_size max_sdu l0 (\<lambda>_. []) (\<lambda>_. []) l0"
| lr_send: "link_run pick sdu_size max_sdu l0 sent got l \<Longrightarrow> link_egress l k = Some p \<Longrightarrow> \<not> eg_closed p \<Longrightarrow>
     channel_send p payload = Some p' \<Longrightarrow>
     link_run pick sdu_size max_sdu l0 (sent(k := sent k @ [payload])) got (put_egress l k p')"
| lr_drop_sender: "link_run pick sdu_size max_sdu l0 sent got l \<Longrightarrow> link_egress l k = Some p \<Longrightarrow>
     link_run pick sdu_size max_sdu l0 sent got (put_egress l k (p\<lparr>eg_closed := True\<rparr>))"
| lr_turn: "link_run pick sdu_size max_sdu l0 sent got l \<Longrightarrow> muxer_turn pick order timestamp sdu_size (lk_mux l) = (outcome, m) \<Longrightarrow>
     outcome \<noteq> TurnPanic \<Longrightarrow>
     link_run pick sdu_size max_sdu l0 sent got (l\<lparr>lk_mux := m, lk_wire := lk_wire l @
        (case outcome of TurnSent segs \<Rightarrow> concat (map write_segment segs) | _ \<Rightarrow> [])\<rparr>)"
| lr_demux: "link_run pick sdu_size max_sdu l0 sent got l \<Longrightarrow>
     demux_step sdu_timeout max_sdu elapsed False (lk_wire l) (lk_demux l) = (DemuxNext rest, d) \<Longrightarrow>
     link_run pick sdu_size max_sdu l0 sent got (l\<lparr>lk_wire := rest, lk_demux := d\<rparr>)"
| lr_recv: "link_run pick sdu_size max_sdu l0 sent got l \<Longrightarrow> link_ingress l k = Some p \<Longrightarrow> channel_recv p = Some (data, p') \<Longrightarrow>
     link_run pick sdu_size max_sdu l0 sent (got(k := got k @ [data])) (put_ingress l k p')"
| lr_drop_receiver: "link_run pick sdu_size max_sdu l0 sent got l \<Longrightarrow> link_ingress l k = Some p \<Longrightarrow>
     link_run pick sdu_size max_sdu l0 sent got (put_ingress l k (p\<lparr>ig_closed := True\<rparr>))"

subsection \<open>Conservation of bytes\<close>

definition egress_bytes :: "protocol_egress option \<Rightarrow> bytes" where
  "egress_bytes p = (case p of None \<Rightarrow> [] | Some p \<Rightarrow> concat (case eg_pending p of Some d \<Rightarrow> [d] | None \<Rightarrow> []) @ concat (eg_queue p))"

definition seg_key :: "segment \<Rightarrow> channel_key" where
  "seg_key seg = (hd_protocol (sg_header seg), hd_mode (sg_header seg))"

definition bytes_for :: "channel_key \<Rightarrow> segment list \<Rightarrow> bytes" where
  "bytes_for k segs = concat (map sg_payload (filter (\<lambda>seg. seg_key seg = k) segs))"

lemma bytes_for_simps [simp]:
  "bytes_for k [] = []"
  "bytes_for k (seg # segs) = (if seg_key seg = k then sg_payload seg else []) @ bytes_for k segs"
  "bytes_for k (xs @ ys) = bytes_for k xs @ bytes_for k ys"
  by (simp_all add: bytes_for_def)

definition egress_ok :: "egress_map \<Rightarrow> bool" where
  "egress_ok ps \<longleftrightarrow> (\<forall>k p. oget ps k = Some p \<longrightarrow> eg_mode p = snd k \<and> direction_bits (snd k) (fst k))"

definition counted :: "protocol_ingress \<Rightarrow> bool" where
  "counted p \<longleftrightarrow> ig_counter p = length (concat (ig_queue p)) \<and> ig_counter p \<le> ig_limit p \<and> length (ig_queue p) \<le> ig_capacity p"

text \<open>Filling a staging buffer moves bytes from the queue without reordering them.\<close>

lemma fill_pending_bytes:
  "egress_bytes (Some (snd (fill_pending p))) = egress_bytes (Some p)"
  "eg_mode (snd (fill_pending p)) = eg_mode p"
  by (auto simp: fill_pending_def egress_bytes_def split: option.splits list.splits)

definition same_bytes :: "egress_map \<Rightarrow> egress_map \<Rightarrow> bool" where
  "same_bytes ps ps' \<longleftrightarrow> (\<forall>k. egress_bytes (oget ps' k) = egress_bytes (oget ps k)) \<and> (egress_ok ps \<longrightarrow> egress_ok ps')"

lemma same_bytes_trans: "same_bytes a b \<Longrightarrow> same_bytes b c \<Longrightarrow> same_bytes a c"
  by (simp add: same_bytes_def)

lemma same_bytes_fill_first: "fill_first ks ps = Some ps' \<Longrightarrow> same_bytes ps ps'"
proof (induction ks)
  case (Cons k ks)
  show ?case
  proof (cases "oget ps k")
    case (Some p)
    show ?thesis
    proof (cases "fst (fill_pending p)")
      case True
      then have "ps' = oput k (snd (fill_pending p)) ps" using Cons Some by (simp add: case_prod_unfold Let_def)
      then show ?thesis using Some fill_pending_bytes [of p] by (auto simp: same_bytes_def oget_oput egress_ok_def)
    qed (use Cons Some in \<open>auto simp: case_prod_unfold Let_def\<close>)
  qed (use Cons in auto)
qed simp

lemma same_bytes_drained: "same_bytes ps (oretain (\<lambda>_ p. \<not> drained p) ps)"
  by (auto simp: same_bytes_def oget_oretain egress_bytes_def drained_def egress_ok_def split: option.splits)

lemma same_bytes_fill_all: "same_bytes ps (omap_values (\<lambda>_ p. snd (fill_pending p)) ps)"
proof -
  have "egress_bytes (oget (omap_values (\<lambda>_ p. snd (fill_pending p)) ps) k) = egress_bytes (oget ps k)" for k
    using fill_pending_bytes(1) by (cases "oget ps k") (simp_all add: oget_omap_values)
  then show ?thesis by (auto simp: same_bytes_def oget_omap_values egress_ok_def fill_pending_bytes(2))
qed

lemma same_bytes_wait: "same_bytes ps (snd (wait_for_any_data order ps))"
  using same_bytes_fill_first same_bytes_drained
  by (auto simp: wait_for_any_data_def Let_def same_bytes_def [of ps ps] split: option.splits)

lemma seg_keys_of_payload:
  assumes "segment_payload (fst key) (snd key) ts data sdu = Some segs" and "direction_bits (snd key) (fst key)"
  shows "bytes_for k segs = (if k = key then data else [])"
proof -
  have key: "seg_key seg = key" if "seg \<in> set segs" for seg
    using segment_payload_segments(2) [OF assms that] by (simp add: seg_key_def)
  then have "filter (\<lambda>seg. seg_key seg = k) segs = (if k = key then segs else [])"
    by (auto simp: filter_id_conv filter_empty_conv)
  then show ?thesis using segment_payload_segments(1) [OF assms] by (simp add: bytes_for_def)
qed

text \<open>A turn: what it takes off the queues is what the segments carry.\<close>

definition turn_segs :: "turn_outcome \<Rightarrow> segment list" where
  "turn_segs outcome = (case outcome of TurnSent segs \<Rightarrow> segs | _ \<Rightarrow> [])"

lemma muxer_turn_bytes:
  assumes "muxer_turn pick order ts sdu m = (outcome, m')" and "outcome \<noteq> TurnPanic" and "egress_ok (mx_protocols m)"
  shows "egress_ok (mx_protocols m')"
    and "egress_bytes (oget (mx_protocols m) k) = bytes_for k (turn_segs outcome) @ egress_bytes (oget (mx_protocols m') k)"
    and "seg \<in> set (turn_segs outcome) \<Longrightarrow> segment_ok (min sdu MAX_PAYLOAD_LEN) seg"
proof -
  define ps1 where "ps1 = snd (wait_for_any_data order (mx_protocols m))"
  define ps2 where "ps2 = oretain (\<lambda>_ p. \<not> drained p) ps1"
  define ps3 where "ps3 = omap_values (\<lambda>_ p. snd (fill_pending p)) ps2"
  have sb1: "same_bytes (mx_protocols m) ps1" unfolding ps1_def by (rule same_bytes_wait)
  have sb2: "same_bytes (mx_protocols m) ps2"
    unfolding ps2_def by (rule same_bytes_trans [OF sb1 same_bytes_drained])
  have sb3: "same_bytes (mx_protocols m) ps3"
    unfolding ps3_def by (rule same_bytes_trans [OF sb2 same_bytes_fill_all])
  have quiet: "egress_ok ps \<and> (\<forall>k. egress_bytes (oget ps k) = egress_bytes (oget (mx_protocols m) k))"
    if "same_bytes (mx_protocols m) ps" for ps using that assms(3) by (simp add: same_bytes_def)
  have "(turn_segs outcome = [] \<and> same_bytes (mx_protocols m) (mx_protocols m')) \<or>
    (\<exists>key p data segs. oget ps3 key = Some p \<and> eg_pending p = Some data \<and> outcome = TurnSent segs \<and>
       segment_payload (fst key) (eg_mode p) ts data sdu = Some segs \<and> mx_protocols m' = oput key (p\<lparr>eg_pending := None\<rparr>) ps3)"
    using assms(1,2) sb1 sb2 sb3 unfolding muxer_turn_def Let_def case_prod_unfold ps1_def [symmetric] ps2_def [symmetric] ps3_def [symmetric]
    by (auto simp: turn_segs_def take_pending_def split: if_splits option.splits prod.splits) blast+
  then have all: "egress_ok (mx_protocols m') \<and>
      (\<forall>k. egress_bytes (oget (mx_protocols m) k) = bytes_for k (turn_segs outcome) @ egress_bytes (oget (mx_protocols m') k)) \<and>
      (\<forall>seg\<in>set (turn_segs outcome). segment_ok (min sdu MAX_PAYLOAD_LEN) seg)"
  proof (elim disjE exE conjE)
    fix key p data segs
    assume p: "oget ps3 key = Some p" "eg_pending p = Some data" "outcome = TurnSent segs"
      "segment_payload (fst key) (eg_mode p) ts data sdu = Some segs" "mx_protocols m' = oput key (p\<lparr>eg_pending := None\<rparr>) ps3"
    have ok: "egress_ok ps3" using quiet [OF sb3] by blast
    then have mode: "eg_mode p = snd key" and dir: "direction_bits (snd key) (fst key)" using p(1) unfolding egress_ok_def by blast+
    note segs = seg_keys_of_payload [OF p(4) [unfolded mode] dir] segment_payload_segments(2) [OF p(4) [unfolded mode] dir]
    have "egress_bytes (oget ps3 k) = bytes_for k segs @ egress_bytes (oget (mx_protocols m') k)" for k
      using p by (auto simp: segs(1) oget_oput egress_bytes_def)
    moreover have "egress_ok (mx_protocols m')" using ok p mode dir by (auto simp: egress_ok_def oget_oput)
    ultimately show ?thesis using quiet [OF sb3] segs(2) by (simp add: p(3) turn_segs_def)
  qed (use quiet in simp)
  then show "egress_ok (mx_protocols m')"
    "egress_bytes (oget (mx_protocols m) k) = bytes_for k (turn_segs outcome) @ egress_bytes (oget (mx_protocols m') k)"
    "seg \<in> set (turn_segs outcome) \<Longrightarrow> segment_ok (min sdu MAX_PAYLOAD_LEN) seg" by blast+
qed

lemma muxer_turn_wire:
  "(case outcome of TurnSent segs \<Rightarrow> concat (map write_segment segs) | _ \<Rightarrow> []) = concat (map write_segment (turn_segs outcome))"
  by (simp add: turn_segs_def split: turn_outcome.splits)

text \<open>The invariant: the wire is a sequence of whole segments, and no byte of an open channel is lost or reordered.\<close>

definition link_state :: "nat \<Rightarrow> trace \<Rightarrow> trace \<Rightarrow> segment list \<Rightarrow> 's link \<Rightarrow> bool" where
  "link_state max_sdu sent got segs l \<longleftrightarrow> egress_ok (mx_protocols (lk_mux l)) \<and>
     (\<forall>k p. link_ingress l k = Some p \<longrightarrow> counted p) \<and>
     lk_wire l = concat (map write_segment segs) \<and> (\<forall>seg\<in>set segs. segment_ok max_sdu seg) \<and>
     (\<forall>k p. link_ingress l k = Some p \<longrightarrow> \<not> ig_closed p \<longrightarrow>
        concat (sent k) = concat (got k) @ concat (ig_queue p) @ bytes_for k segs @ egress_bytes (link_egress l k))"

lemma egress_ok_update:
  "egress_ok ps \<Longrightarrow> oget ps k = Some p \<Longrightarrow> eg_mode p' = eg_mode p \<Longrightarrow> egress_ok (oput k p' ps)"
  by (auto simp: egress_ok_def oget_oput split: if_splits simp del: split_paired_All)

lemma demux_step_next:
  assumes "demux_step to max_sdu el False (write_segment seg @ rest) d = (DemuxNext rest', d')" and "segment_ok max_sdu seg"
  shows "rest' = rest \<and> demux_dispatch seg (dx_protocols d) = Inr (dx_protocols d')"
  using assms(1) read_write_segment [OF assms(2), of rest]
  by (auto simp: demux_step_def Let_def split: sum.splits)

lemma dispatch_cases:
  assumes "demux_dispatch seg ps = Inr ps'"
  obtains "oget ps (seg_key seg) = None" and "ps' = ps"
  | "ps' = odel (seg_key seg) ps"
  | p where "oget ps (seg_key seg) = Some p" and "\<not> ig_closed p" and "length (ig_queue p) < ig_capacity p"
      and "ig_counter p + length (sg_payload seg) \<le> ig_limit p"
      and "ps' = oput (seg_key seg)
        (p\<lparr>ig_queue := ig_queue p @ [sg_payload seg], ig_counter := ig_counter p + length (sg_payload seg)\<rparr>) ps"
  using assms by (auto simp: demux_dispatch_def Let_def seg_key_def split: option.splits if_splits)

lemma dispatch_effect:
  assumes "demux_dispatch seg ps = Inr ps'" and "\<And>k p. oget ps k = Some p \<Longrightarrow> counted p" and "oget ps' k = Some p'"
  shows "counted p' \<and> (\<not> ig_closed p' \<longrightarrow> (\<exists>p. oget ps k = Some p \<and> \<not> ig_closed p \<and>
       concat (ig_queue p') = concat (ig_queue p) @ (if seg_key seg = k then sg_payload seg else [])))"
  using assms(1)
proof (cases rule: dispatch_cases)
  case 1
  then show ?thesis using assms(2,3) by auto
next
  case 2
  then show ?thesis using assms(2,3) by (auto simp: oget_odel split: if_splits)
next
  case (3 p)
  have "counted p" using assms(2) 3 by blast
  then have "counted (p\<lparr>ig_queue := ig_queue p @ [sg_payload seg], ig_counter := ig_counter p + length (sg_payload seg)\<rparr>)"
    using 3 by (simp add: counted_def)
  with 3 assms(2,3) show ?thesis by (cases "k = seg_key seg") (auto simp: oget_oput)
qed

lemma egress_bytes_upd:
  "egress_bytes (Some (p\<lparr>eg_queue := eg_queue p @ [d]\<rparr>)) = egress_bytes (Some p) @ d"
  "egress_bytes (Some (p\<lparr>eg_closed := b\<rparr>)) = egress_bytes (Some p)"
  by (simp_all add: egress_bytes_def)

lemma send_keeps:
  assumes "link_state max_sdu sent got segs l" and "link_egress l k = Some p" and "channel_send p payload = Some p'"
  shows "link_state max_sdu (sent(k := sent k @ [payload])) got segs (put_egress l k p')"
proof -
  have p': "p' = p\<lparr>eg_queue := eg_queue p @ [payload]\<rparr>" using assms by (auto simp: channel_send_def split: if_splits)
  then have "egress_ok (oput k p' (mx_protocols (lk_mux l)))"
    using assms egress_ok_update [of "mx_protocols (lk_mux l)" k p p'] by (simp add: link_state_def)
  then show ?thesis
    using assms p' by (auto simp: link_state_def put_egress_def oget_oput egress_bytes_upd simp del: split_paired_All)
qed

lemma drop_sender_keeps:
  assumes "link_state max_sdu sent got segs l" and "link_egress l k = Some p"
  shows "link_state max_sdu sent got segs (put_egress l k (p\<lparr>eg_closed := True\<rparr>))"
proof -
  have "egress_ok (oput k (p\<lparr>eg_closed := True\<rparr>) (mx_protocols (lk_mux l)))"
    using assms egress_ok_update [of "mx_protocols (lk_mux l)" k p] by (simp add: link_state_def)
  then show ?thesis
    using assms by (auto simp: link_state_def put_egress_def oget_oput egress_bytes_upd simp del: split_paired_All)
qed

lemma turn_keeps:
  assumes "link_state max_sdu sent got segs l" and "muxer_turn pick order timestamp sdu_size (lk_mux l) = (outcome, m)"
    and "outcome \<noteq> TurnPanic" and "min sdu_size MAX_PAYLOAD_LEN \<le> max_sdu"
  shows "link_state max_sdu sent got (segs @ turn_segs outcome) (l\<lparr>lk_mux := m, lk_wire := lk_wire l @
        (case outcome of TurnSent segs \<Rightarrow> concat (map write_segment segs) | _ \<Rightarrow> [])\<rparr>)"
proof -
  have ok: "egress_ok (mx_protocols (lk_mux l))" using assms(1) by (simp add: link_state_def)
  note t = muxer_turn_bytes [OF assms(2,3) ok]
  have "segment_ok max_sdu seg" if "seg \<in> set (turn_segs outcome)" for seg
    using t(3) [OF that] assms(4) by (auto simp: segment_ok_def)
  then show ?thesis
    using assms(1) t(1,2) unfolding link_state_def muxer_turn_wire by (auto simp del: split_paired_All)
qed

lemma demux_keeps:
  assumes "link_state max_sdu sent got segs l"
    and "demux_step sdu_timeout max_sdu elapsed False (lk_wire l) (lk_demux l) = (DemuxNext rest, d)"
  shows "\<exists>segs'. link_state max_sdu sent got segs' (l\<lparr>lk_wire := rest, lk_demux := d\<rparr>)"
proof -
  note i = assms(1) [unfolded link_state_def]
  have "segs \<noteq> []"
    using assms(2) i by (auto simp: demux_step_def read_segment_def read_exact_def HEADER_LEN_def split: if_splits)
  then obtain seg segs' where s: "segs = seg # segs'" by (cases segs) auto
  have step: "rest = concat (map write_segment segs')" "demux_dispatch seg (dx_protocols (lk_demux l)) = Inr (dx_protocols d)"
    using demux_step_next [of sdu_timeout max_sdu elapsed seg "concat (map write_segment segs')" "lk_demux l" rest d]
      assms(2) i s by auto
  have e: "counted p' \<and> (\<not> ig_closed p' \<longrightarrow> (\<exists>p. link_ingress l k = Some p \<and> \<not> ig_closed p \<and>
      concat (ig_queue p') = concat (ig_queue p) @ (if seg_key seg = k then sg_payload seg else [])))"
    if "oget (dx_protocols d) k = Some p'" for k p'
    using dispatch_effect [OF step(2) _ that] i by blast
  have "concat (sent k) = concat (got k) @ concat (ig_queue p') @ bytes_for k segs' @ egress_bytes (link_egress l k)"
    if has: "oget (dx_protocols d) k = Some p'" and live: "\<not> ig_closed p'" for k p'
  proof -
    obtain p where p: "link_ingress l k = Some p" "\<not> ig_closed p"
      "concat (ig_queue p') = concat (ig_queue p) @ (if seg_key seg = k then sg_payload seg else [])"
      using e [OF has] live by blast
    have "concat (sent k) = concat (got k) @ concat (ig_queue p) @ bytes_for k segs @ egress_bytes (link_egress l k)"
      using i p(1,2) by blast
    then show ?thesis by (simp add: p(3) s)
  qed
  then show ?thesis
    using i step(1) e s by (intro exI [of _ segs']) (auto simp: link_state_def simp del: split_paired_All)
qed

lemma recv_keeps:
  assumes "link_state max_sdu sent got segs l" and "link_ingress l k = Some p" and "channel_recv p = Some (data, p')"
  shows "link_state max_sdu sent (got(k := got k @ [data])) segs (put_ingress l k p')"
proof -
  obtain q where q: "ig_queue p = data # q" "p' = p\<lparr>ig_queue := q, ig_counter := ig_counter p - length data\<rparr>"
    using assms(3) by (auto simp: channel_recv_def split: list.splits)
  have "counted p" using assms(1,2) by (auto simp: link_state_def simp del: split_paired_All)
  then have "counted p'" using q by (simp add: counted_def)
  then show ?thesis
    using assms(1,2) q by (auto simp: link_state_def put_ingress_def oget_oput simp del: split_paired_All)
qed

lemma drop_receiver_keeps:
  assumes "link_state max_sdu sent got segs l" and "link_ingress l k = Some p"
  shows "link_state max_sdu sent got segs (put_ingress l k (p\<lparr>ig_closed := True\<rparr>))"
proof -
  have "counted p" using assms by (auto simp: link_state_def simp del: split_paired_All)
  then have "counted (p\<lparr>ig_closed := True\<rparr>)" by (simp add: counted_def)
  then show ?thesis using assms by (auto simp: link_state_def put_ingress_def oget_oput simp del: split_paired_All)
qed

lemma link_run_state:
  assumes "link_run pick sdu_size max_sdu l0 sent got l" and "link_state max_sdu (\<lambda>_. []) (\<lambda>_. []) [] l0"
    and "min sdu_size MAX_PAYLOAD_LEN \<le> max_sdu"
  shows "\<exists>segs. link_state max_sdu sent got segs l"
  using assms(1)
proof induction
  case lr_start
  show ?case using assms(2) by blast
next
  case lr_send
  then show ?case using send_keeps by blast
next
  case lr_drop_sender
  then show ?case using drop_sender_keeps by blast
next
  case lr_turn
  then show ?case using turn_keeps [OF _ lr_turn.hyps(2,3) assms(3)] by blast
next
  case lr_demux
  then show ?case using demux_keeps by blast
next
  case lr_recv
  then show ?case using recv_keeps by blast
next
  case lr_drop_receiver
  then show ?case using drop_receiver_keeps by blast
qed

subsection \<open>Registration and delivery\<close>

definition muxer_of :: "'s mux \<Rightarrow> 's muxer" where
  "muxer_of m = \<lparr>mx_protocols = mu_egress m, mx_scheduler = mu_scheduler m, mx_bytes_sent = 0\<rparr>"

definition demuxer_of :: "'s mux \<Rightarrow> demuxer" where
  "demuxer_of m = \<lparr>dx_protocols = mu_ingress m, dx_bytes_received = 0\<rparr>"

text \<open>A link between two multiplexers that have registered their protocols.\<close>

definition link_of :: "'s mux \<Rightarrow> 't mux \<Rightarrow> 's link" where
  "link_of local remote = \<lparr>lk_mux = muxer_of local, lk_wire = [], lk_demux = demuxer_of remote\<rparr>"

inductive mux_built :: "('s \<Rightarrow> protocol_id \<Rightarrow> traffic_class \<Rightarrow> 's) \<Rightarrow> 's mux \<Rightarrow> bool" for reg where
  built_new: "mux_built reg (mux_new config s mode)"
| built_register: "mux_built reg m \<Longrightarrow> mode \<in> {MODE_INITIATOR, MODE_RESPONDER} \<Longrightarrow> pg_id c < 0x8000 \<Longrightarrow>
     mux_built reg (register_with_mode reg m c mode)"

lemma bit_top16: "bit (0x8000 :: u16) n \<longleftrightarrow> n = 15"
proof -
  have top: "(0x8000 :: u16) = push_bit 15 1" by simp
  show ?thesis
    apply (subst top)
    apply (subst bit_push_bit_iff)
    apply (simp only: bit_1_iff)
    by (auto simp: possible_bit_def)
qed

lemma direction_bits_mode: "mode \<in> {MODE_INITIATOR, MODE_RESPONDER} \<Longrightarrow> i < 0x8000 \<Longrightarrow> direction_bits mode i"
proof -
  assume m: "mode \<in> {MODE_INITIATOR, MODE_RESPONDER}" and i: "i < 0x8000"
  have "\<not> bit i 15"
  proof
    assume "bit i 15"
    then have "bit (uint i) 15" by (simp add: bit_unsigned_iff)
    then have "odd (uint i div 2 ^ 15)" by (simp add: bit_iff_odd)
    moreover have "uint i < 2 ^ 15" using i by (simp add: word_less_def)
    ultimately show False by simp
  qed
  then have "i AND 0x8000 = 0" by (intro bit_word_eqI) (auto simp: bit_and_iff bit_top16 simp del: bit_numeral_word_iff)
  then show ?thesis using m by (auto simp: direction_bits_def MODE_INITIATOR_def MODE_RESPONDER_def)
qed

lemma mux_built_ok:
  assumes "mux_built reg m"
  shows "egress_ok (mu_egress m) \<and> (\<forall>k p. oget (mu_egress m) k = Some p \<longrightarrow> egress_bytes (Some p) = []) \<and>
    (\<forall>k p. oget (mu_ingress m) k = Some p \<longrightarrow> counted p \<and> ig_queue p = [])"
  using assms
proof induction
  case (built_register m mode c)
  then show ?case
    using direction_bits_mode [of mode "pg_id c"]
    by (auto simp: register_with_mode_def egress_ok_def oget_oput egress_bytes_def counted_def split: if_splits)
qed (simp add: mux_new_def egress_ok_def)

lemma link_of_state:
  assumes "mux_built reg local" and "mux_built reg' remote"
  shows "link_state max_sdu (\<lambda>_. []) (\<lambda>_. []) [] (link_of local remote)"
proof -
  have "egress_bytes (oget (mu_egress local) k) = []" for k
    using mux_built_ok [OF assms(1)] by (cases "oget (mu_egress local) k") (auto simp: egress_bytes_def simp del: split_paired_All)
  then show ?thesis
    using mux_built_ok [OF assms(1)] mux_built_ok [OF assms(2)]
    by (auto simp: link_state_def link_of_def muxer_of_def demuxer_of_def simp del: split_paired_All)
qed

lemma link_run_delivers:
  assumes "mux_built reg local" and "mux_built reg' remote" and "min sdu_size MAX_PAYLOAD_LEN \<le> max_sdu"
    and "link_run pick sdu_size max_sdu (link_of local remote) sent got l"
    and "link_ingress l k = Some p" and "\<not> ig_closed p"
  shows "prefix (concat (got k) @ concat (ig_queue p)) (concat (sent k))"
    and "lk_wire l = [] \<Longrightarrow> ig_queue p = [] \<Longrightarrow> egress_bytes (link_egress l k) = [] \<Longrightarrow> concat (got k) = concat (sent k)"
proof -
  obtain segs where s: "link_state max_sdu sent got segs l"
    using link_run_state [OF assms(4) link_of_state [OF assms(1,2)] assms(3)] by blast
  have "write_segment seg \<noteq> []" for seg using length_header_encode [of "sg_header seg"]
    by (cases "header_encode (sg_header seg)") (auto simp: write_segment_def HEADER_LEN_def)
  then have wire: "lk_wire l = [] \<Longrightarrow> segs = []" using s by (cases segs) (auto simp: link_state_def)
  have "concat (sent k) = concat (got k) @ concat (ig_queue p) @ bytes_for k segs @ egress_bytes (link_egress l k)"
    using s assms(5,6) unfolding link_state_def by blast
  then show "prefix (concat (got k) @ concat (ig_queue p)) (concat (sent k))"
    "lk_wire l = [] \<Longrightarrow> ig_queue p = [] \<Longrightarrow> egress_bytes (link_egress l k) = [] \<Longrightarrow> concat (got k) = concat (sent k)"
    using wire by (auto simp: prefix_def)
qed

text \<open>End to end, every protocol has a reliable ordered byte stream. For any two registered multiplexers, any scheduler,
  any interleaving of sends, muxer turns, demuxer reads and receives, and any segment size the receiver accepts: what
  a protocol has received is a prefix of what its peer sent, the rest being exactly what is still queued or on the
  wire; once nothing is left in between, all of it has arrived; and the ingress counter is the number of bytes queued
  and within the limit. Output queued before a sender was dropped is still delivered.\<close>

theorem mux_delivers:
  assumes "mux_built reg local" and "mux_built reg' remote" and "min sdu_size MAX_PAYLOAD_LEN \<le> max_sdu"
    and "link_run pick sdu_size max_sdu (link_of local remote) sent got l"
    and "link_ingress l k = Some p"
  shows "ig_counter p = length (concat (ig_queue p)) \<and> ig_counter p \<le> ig_limit p \<and> length (ig_queue p) \<le> ig_capacity p \<and>
    (\<not> ig_closed p \<longrightarrow> prefix (concat (got k) @ concat (ig_queue p)) (concat (sent k)) \<and>
       (lk_wire l = [] \<and> ig_queue p = [] \<and> egress_bytes (link_egress l k) = [] \<longrightarrow> concat (got k) = concat (sent k)))"
proof -
  have "counted p"
    using link_run_state [OF assms(4) link_of_state [OF assms(1,2)] assms(3)] assms(5) unfolding link_state_def by blast
  then show ?thesis using link_run_delivers [OF assms] by (auto simp: counted_def)
qed

subsection \<open>Progress\<close>

text \<open>The payloads a channel still has to send, and those of a muxer.\<close>

definition load :: "protocol_egress option \<Rightarrow> nat" where
  "load p = (case p of None \<Rightarrow> 0 | Some p \<Rightarrow> length (eg_queue p) + (case eg_pending p of Some _ \<Rightarrow> 1 | None \<Rightarrow> 0))"

definition mux_backlog :: "egress_map \<Rightarrow> nat" where
  "mux_backlog ps = (\<Sum>k | ohas ps k. load (oget ps k))"

definition same_load :: "egress_map \<Rightarrow> egress_map \<Rightarrow> bool" where
  "same_load ps ps' \<longleftrightarrow> (\<forall>k. load (oget ps' k) = load (oget ps k)) \<and> (\<forall>k. ohas ps' k \<longrightarrow> ohas ps k)"

lemma same_load_trans: "same_load a b \<Longrightarrow> same_load b c \<Longrightarrow> same_load a c"
  by (simp add: same_load_def del: split_paired_All)

lemma mux_backlog_less:
  assumes "\<And>k. ohas ps' k \<Longrightarrow> ohas ps k" and "\<And>k. k \<noteq> key \<Longrightarrow> load (oget ps' k) = load (oget ps k)"
    and "Suc (load (oget ps' key)) = load (oget ps key)"
  shows "Suc (mux_backlog ps') = mux_backlog ps"
proof -
  have key: "ohas ps key" using assms(3) by (cases "oget ps key") (auto simp: load_def ohas_def)
  have same: "mux_backlog ps' = (\<Sum>k | ohas ps k. load (oget ps' k))"
    unfolding mux_backlog_def using assms(1) by (intro sum.mono_neutral_left) (auto simp: load_def ohas_def)
  have "mux_backlog ps = load (oget ps key) + (\<Sum>k\<in>{k. ohas ps k} - {key}. load (oget ps k))"
    unfolding mux_backlog_def using key by (intro sum.remove) auto
  also have "\<dots> = Suc (load (oget ps' key) + (\<Sum>k\<in>{k. ohas ps k} - {key}. load (oget ps' k)))"
    using assms(2,3) sum.cong [of "{k. ohas ps k} - {key}" _ "\<lambda>k. load (oget ps' k)" "\<lambda>k. load (oget ps k)"] by fastforce
  also have "load (oget ps' key) + (\<Sum>k\<in>{k. ohas ps k} - {key}. load (oget ps' k)) = mux_backlog ps'"
    unfolding same using key by (intro sum.remove [symmetric]) auto
  finally show ?thesis by simp
qed

lemma mux_backlog_zero: "mux_backlog ps = 0 \<longleftrightarrow> (\<forall>k. load (oget ps k) = 0)"
proof -
  have "load (oget ps k) = 0" if "\<not> ohas ps k" for k using that by (simp add: load_def ohas_def)
  then show ?thesis by (auto simp: mux_backlog_def simp del: split_paired_All)
qed

lemma load_zero_bytes: "load p = 0 \<Longrightarrow> egress_bytes p = []"
  by (auto simp: load_def egress_bytes_def split: option.splits)

lemma fill_pending_load:
  "load (Some (snd (fill_pending p))) = load (Some p)"
  "fst (fill_pending p) \<longleftrightarrow> 0 < load (Some p)"
  "eg_pending (snd (fill_pending p)) \<noteq> None \<longleftrightarrow> 0 < load (Some p)"
  by (auto simp: fill_pending_def load_def split: option.splits list.splits)

lemma load_None [simp]: "load None = 0"
  by (simp add: load_def)

lemma fill_first_load:
  "case fill_first ks ps of None \<Rightarrow> \<forall>k\<in>set ks. load (oget ps k) = 0 | Some ps' \<Rightarrow> same_load ps ps'"
proof (induction ks)
  case (Cons k ks)
  show ?case
  proof (cases "oget ps k")
    case None
    then show ?thesis using Cons load_None by (auto split: option.splits)
  next
    case (Some p)
    show ?thesis
    proof (cases "fst (fill_pending p)")
      case True
      then have "fill_first (k # ks) ps = Some (oput k (snd (fill_pending p)) ps)"
        using Some by (simp add: case_prod_unfold Let_def)
      then show ?thesis using Some fill_pending_load(1) [of p] by (auto simp: same_load_def oget_oput ohas_def)
    qed (use Cons Some fill_pending_load(2) [of p] in \<open>auto simp: case_prod_unfold Let_def split: option.splits\<close>)
  qed
qed simp

lemma same_load_drained: "same_load ps (oretain (\<lambda>_ p. \<not> drained p) ps)"
  by (auto simp: same_load_def oget_oretain load_def drained_def ohas_def split: option.splits)

lemma same_load_fill_all: "same_load ps (omap_values (\<lambda>_ p. snd (fill_pending p)) ps)"
proof -
  have "load (oget (omap_values (\<lambda>_ p. snd (fill_pending p)) ps) k) = load (oget ps k)" for k
    using fill_pending_load(1) by (cases "oget ps k") (simp_all add: oget_omap_values)
  then show ?thesis by (simp add: same_load_def ohas_def oget_omap_values)
qed

lemma wait_returns:
  assumes "set order = {k. ohas ps k}" and "0 < load (oget ps k)"
  shows "fst (wait_for_any_data order ps)" and "same_load ps (snd (wait_for_any_data order ps))"
proof -
  have "k \<in> set order" using assms by (cases "oget ps k") (auto simp: load_def ohas_def)
  then have "fill_first order ps \<noteq> None" using fill_first_load [of order ps] assms(2) by (auto simp: split: option.splits)
  then obtain ps' where "fill_first order ps = Some ps'" by blast
  then show "fst (wait_for_any_data order ps)" "same_load ps (snd (wait_for_any_data order ps))"
    using fill_first_load [of order ps] by (auto simp: wait_for_any_data_def same_load_def [of ps ps])
qed

lemma segment_payload_total: "0 < sdu \<Longrightarrow> \<exists>segs. segment_payload i mode ts data sdu = Some segs"
  by (auto simp: segment_payload_def Let_def MAX_PAYLOAD_LEN_def)

text \<open>Turns of the muxer with nothing else happening; \<open>ord\<close> is the iteration order of the hash map.\<close>

fun muxer_turns ::
  "('s \<Rightarrow> protocol_id list \<Rightarrow> protocol_id option \<times> 's) \<Rightarrow> (egress_map \<Rightarrow> channel_key list)
     \<Rightarrow> u32 \<Rightarrow> nat \<Rightarrow> nat \<Rightarrow> 's muxer \<Rightarrow> segment list \<times> 's muxer" where
  "muxer_turns pick ord ts sdu_size 0 m = ([], m)"
| "muxer_turns pick ord ts sdu_size (Suc n) m =
     (case muxer_turn pick (ord (mx_protocols m)) ts sdu_size m of
        (TurnSent segs, m1) \<Rightarrow> let (rest, m2) = muxer_turns pick ord ts sdu_size n m1 in (segs @ rest, m2)
      | (_, m1) \<Rightarrow> ([], m1))"

context scheduler
begin

text \<open>If a channel has data and the scheduler serves every channel of the muxer, a turn takes a payload off a queue.\<close>

lemma turn_progress:
  assumes order: "set order = {k. ohas (mx_protocols m) k}"
    and serves: "\<And>k. ohas (mx_protocols m) k \<Longrightarrow> serves (mx_scheduler m) (fst k)"
    and data: "0 < load (oget (mx_protocols m) k)" and sdu: "0 < sdu_size"
  obtains segs m' where "muxer_turn pick order ts sdu_size m = (TurnSent segs, m')"
    and "Suc (mux_backlog (mx_protocols m')) = mux_backlog (mx_protocols m)"
    and "\<And>j. ohas (mx_protocols m') j \<Longrightarrow> ohas (mx_protocols m) j"
    and "\<And>i. serves (mx_scheduler m') i = serves (mx_scheduler m) i"
proof -
  define ps where "ps = mx_protocols m"
  define ps1 where "ps1 = snd (wait_for_any_data order ps)"
  define ps2 where "ps2 = oretain (\<lambda>_ p. \<not> drained p) ps1"
  define ps3 where "ps3 = omap_values (\<lambda>_ p. snd (fill_pending p)) ps2"
  note w = wait_returns [OF order data, folded ps_def, folded ps1_def]
  have l2: "same_load ps ps2" unfolding ps2_def by (rule same_load_trans [OF w(2) same_load_drained])
  have l3: "same_load ps ps3" unfolding ps3_def by (rule same_load_trans [OF l2 same_load_fill_all])
  have pend: "eg_pending p \<noteq> None \<longleftrightarrow> 0 < load (oget ps j)" if at: "oget ps3 j = Some p" for j p
  proof -
    obtain q where q: "oget ps2 j = Some q" "p = snd (fill_pending q)" using at by (auto simp: ps3_def oget_omap_values)
    then show ?thesis using fill_pending_load(3) [of q] l2 by (simp add: same_load_def del: split_paired_All) (metis q(1))
  qed
  have has: "\<exists>p. oget ps3 j = Some p \<and> eg_pending p \<noteq> None" if "0 < load (oget ps j)" for j
  proof -
    have "0 < load (oget ps3 j)" using that l3 by (simp add: same_load_def del: split_paired_All)
    then obtain p where "oget ps3 j = Some p" by (cases "oget ps3 j") (auto simp: load_def)
    then show ?thesis using pend that by blast
  qed
  obtain pk where pk: "oget ps3 k = Some pk" "eg_pending pk \<noteq> None" using has data ps_def by blast
  define keys where "keys = ready_keys order ps3"
  have in_keys: "j \<in> set keys \<longleftrightarrow> (\<exists>p. oget ps3 j = Some p \<and> eg_pending p \<noteq> None)" for j
    using l3 order by (auto simp: keys_def ready_keys_def same_load_def ps_def ohas_def simp del: split_paired_All split: option.splits)
  then have "k \<in> set keys" using pk by blast
  then have ready: "map fst keys \<noteq> []" by auto
  have "serves (mx_scheduler m) i" if mem: "i \<in> set (map fst keys)" for i
  proof -
    obtain j where "j \<in> set keys" "i = fst j" using mem by auto
    then show ?thesis using serves order by (auto simp: keys_def ready_keys_def)
  qed
  then obtain i s where pick: "pick (mx_scheduler m) (map fst keys) = (Some i, s)"
    using pick_served [OF ready, of "mx_scheduler m"] by (cases "pick (mx_scheduler m) (map fst keys)") auto
  then have "i \<in> set (map fst keys)" using pick_mem [of "mx_scheduler m" "map fst keys" i] by simp
  then have "find (\<lambda>j. fst j = i) keys \<noteq> None" by (auto simp: find_None_iff)
  then obtain key where key: "find (\<lambda>j. fst j = i) keys = Some key" by blast
  then have "key \<in> set keys" by (auto simp: find_Some_iff)
  then obtain p data where p: "oget ps3 key = Some p" "eg_pending p = Some data" using in_keys by blast
  obtain segs where segs: "segment_payload (fst key) (eg_mode p) ts data sdu_size = Some segs"
    using segment_payload_total [OF sdu] by blast
  define m' where "m' = m\<lparr>mx_protocols := oput key (p\<lparr>eg_pending := None\<rparr>) ps3, mx_scheduler := s,
    mx_bytes_sent := mx_bytes_sent m + segments_bytes segs\<rparr>"
  have ne: "olen ps2 \<noteq> 0"
  proof -
    have "ohas ps2 k" using pk(1) by (auto simp: ps3_def oget_omap_values ohas_def)
    then have "k \<in> {k. ohas ps2 k}" by simp
    then show ?thesis unfolding olen_okeys card_0_eq [OF finite_ohas] by blast
  qed
  have "muxer_turn pick order ts sdu_size m = (TurnSent segs, m')"
    unfolding muxer_turn_def Let_def case_prod_unfold ps_def [symmetric] ps1_def [symmetric] ps2_def [symmetric]
      ps3_def [symmetric] keys_def [symmetric]
    using w(1) ne ready pick key p segs by (simp add: take_pending_def m'_def)
  moreover have "j \<noteq> key \<Longrightarrow> load (oget (mx_protocols m') j) = load (oget ps j)" "Suc (load (oget (mx_protocols m') key)) = load (oget ps key)" for j
  proof -
    have "load (oget ps j) = load (oget ps3 j)" for j using l3 by (simp add: same_load_def del: split_paired_All)
    then show "j \<noteq> key \<Longrightarrow> load (oget (mx_protocols m') j) = load (oget ps j)" "Suc (load (oget (mx_protocols m') key)) = load (oget ps key)"
      using p by (auto simp: m'_def oget_oput load_def)
  qed
  moreover have "ohas (mx_protocols m') j \<Longrightarrow> ohas ps j" for j
    using l3 p(1) by (auto simp: m'_def same_load_def ohas_def oget_oput simp del: split_paired_All split: if_splits)
  moreover have "serves (mx_scheduler m') i = serves (mx_scheduler m) i" for i
    using serves_pick [of "mx_scheduler m" "map fst keys" i] pick by (simp add: m'_def)
  ultimately show ?thesis using that mux_backlog_less [of "mx_protocols m'" ps key] unfolding ps_def by blast
qed

text \<open>Every channel of a muxer is known to its scheduler.\<close>

definition all_served :: "'s muxer \<Rightarrow> bool" where
  "all_served m \<longleftrightarrow> (\<forall>k. ohas (mx_protocols m) k \<longrightarrow> serves (mx_scheduler m) (fst k))"

lemma fill_first_keys: "fill_first ks ps = Some ps' \<Longrightarrow> ohas ps' k = ohas ps k"
proof (induction ks)
  case (Cons a ks)
  then show ?case by (auto simp: case_prod_unfold Let_def ohas_def oget_oput split: option.splits if_splits)
qed simp

lemma wait_keys: "ohas (snd (wait_for_any_data order ps)) k \<Longrightarrow> ohas ps k"
  using fill_first_keys [of order ps]
  by (auto simp: wait_for_any_data_def Let_def ohas_def oget_oretain split: option.splits if_splits)

lemma turn_all_served:
  assumes "muxer_turn pick order ts sdu m = (outcome, m')" and "all_served m"
  shows "all_served m'"
proof -
  define ps1 where "ps1 = snd (wait_for_any_data order (mx_protocols m))"
  define ps2 where "ps2 = oretain (\<lambda>_ p. \<not> drained p) ps1"
  define ps3 where "ps3 = omap_values (\<lambda>_ p. snd (fill_pending p)) ps2"
  have sub1: "ohas ps1 k \<Longrightarrow> ohas (mx_protocols m) k" for k unfolding ps1_def by (rule wait_keys)
  have sub2: "ohas ps2 k \<Longrightarrow> ohas (mx_protocols m) k" for k
    using sub1 by (auto simp: ps2_def ohas_def oget_oretain split: option.splits if_splits)
  have sub3: "ohas ps3 k \<Longrightarrow> ohas (mx_protocols m) k" for k
    using sub2 by (auto simp: ps3_def ohas_def oget_omap_values)
  have keys: "ohas (mx_protocols m') k \<Longrightarrow> ohas (mx_protocols m) k" for k
    using assms(1) sub1 [of k] sub2 [of k] sub3 [of k] unfolding muxer_turn_def Let_def case_prod_unfold ps1_def [symmetric] ps2_def [symmetric] ps3_def [symmetric]
    by (auto simp: ohas_iff_Some oget_oput split: if_splits option.splits prod.splits)
  have "serves (mx_scheduler m') i = serves (mx_scheduler m) i" for i
    using assms(1) serves_pick unfolding muxer_turn_def Let_def case_prod_unfold
    by (auto split: if_splits option.splits prod.splits)
  then show ?thesis using assms(2) keys by (auto simp: all_served_def simp del: split_paired_All)
qed

lemma built_all_served: "mux_built register m \<Longrightarrow> all_served (muxer_of m)"
proof (induction rule: mux_built.induct)
  case (built_register m mode c)
  then show ?case
    by (auto simp: all_served_def muxer_of_def register_with_mode_def serves_register simp del: split_paired_All)
qed (simp add: all_served_def muxer_of_def mux_new_def)

lemma run_all_served:
  "link_run pick sdu_size max_sdu l0 sent got l \<Longrightarrow> all_served (lk_mux l0) \<Longrightarrow> all_served (lk_mux l)"
proof (induction rule: link_run.induct)
  case lr_turn
  then show ?case using turn_all_served by simp
qed (auto simp: all_served_def put_egress_def put_ingress_def ohas_iff_Some oget_oput)

lemma muxer_turns_drain:
  assumes order: "\<And>ps. set (ord ps) = {k. ohas ps k}" and sdu: "0 < sdu_size"
    and "all_served m" and "egress_ok (mx_protocols m)" and "mux_backlog (mx_protocols m) = n"
  shows "mux_backlog (mx_protocols (snd (muxer_turns pick ord ts sdu_size n m))) = 0 \<and>
    bytes_for k (fst (muxer_turns pick ord ts sdu_size n m)) = egress_bytes (oget (mx_protocols m) k)"
  using assms(3-5)
proof (induction n arbitrary: m)
  case 0
  then have "load (oget (mx_protocols m) k) = 0" using mux_backlog_zero [of "mx_protocols m"] by blast
  then have "egress_bytes (oget (mx_protocols m) k) = []" by (rule load_zero_bytes)
  then show ?case using 0 by simp
next
  case (Suc n)
  obtain j where "load (oget (mx_protocols m) j) \<noteq> 0" using Suc.prems(3) mux_backlog_zero [of "mx_protocols m"] by auto
  then have j: "0 < load (oget (mx_protocols m) j)" by simp
  have serves: "\<And>k. ohas (mx_protocols m) k \<Longrightarrow> serves (mx_scheduler m) (fst k)"
    using Suc.prems(1) unfolding all_served_def by blast
  obtain segs m1 where t: "muxer_turn pick (ord (mx_protocols m)) ts sdu_size m = (TurnSent segs, m1)"
    and "mux_backlog (mx_protocols m1) = n"
    using turn_progress [OF order serves j sdu, of ts] Suc.prems(3) by (metis nat.inject)
  note b = muxer_turn_bytes [OF t _ Suc.prems(2)]
  show ?case
    using Suc.IH [OF turn_all_served [OF t Suc.prems(1)] b(1) \<open>mux_backlog (mx_protocols m1) = n\<close>] b(2) [of k] t
    by (simp add: case_prod_unfold Let_def turn_segs_def)
qed

end
text \<open>C17: the muxer is not stuck. Whatever has happened on a link, with any of the schedulers and any order in which the map of
  protocols is iterated, as many turns as there are queued payloads put every byte queued by every protocol on the
  wire, in order, and leave nothing behind: no protocol is starved and no turn panics.\<close>

theorem mux_drains:
  assumes "mux_built any_register local" and "mux_built reg' remote" and "min sdu_size MAX_PAYLOAD_LEN \<le> max_sdu"
    and "link_run any_next sdu_size max_sdu (link_of local remote) sent got l"
    and "\<And>ps. set (ord ps) = {k. ohas ps k}" and "0 < sdu_size"
  shows "mux_backlog (mx_protocols (snd (muxer_turns any_next ord ts sdu_size (mux_backlog (mx_protocols (lk_mux l))) (lk_mux l)))) = 0 \<and>
    bytes_for k (fst (muxer_turns any_next ord ts sdu_size (mux_backlog (mx_protocols (lk_mux l))) (lk_mux l))) =
      egress_bytes (link_egress l k)"
proof -
  obtain segs where "link_state max_sdu sent got segs l"
    using link_run_state [OF assms(4) link_of_state [OF assms(1,2)] assms(3)] by blast
  then have "egress_ok (mx_protocols (lk_mux l))" by (simp add: link_state_def)
  moreover have "any.all_served (lk_mux l)"
    using any.run_all_served [OF assms(4)] any.built_all_served [OF assms(1)] by (simp add: link_of_def)
  ultimately show ?thesis using any.muxer_turns_drain [OF assms(5,6)] by blast
qed

subsection \<open>Messages\<close>

text \<open>What the code relies on of the encoder and decoder of a message: an encoding is decoded whatever follows it, and a
  proper prefix of one asks for more input.\<close>

definition codec_ok :: "('m \<Rightarrow> bytes) \<Rightarrow> (bytes \<Rightarrow> 'm decode_result) \<Rightarrow> bool" where
  "codec_ok enc dec \<longleftrightarrow> (\<forall>m rest. dec (enc m @ rest) = DecodeOk m (length (enc m))) \<and>
     (\<forall>m bs. strict_prefix bs (enc m) \<longrightarrow> bs \<noteq> [] \<longrightarrow> dec bs = NeedMore) \<and> (\<forall>m. enc m \<noteq> [])"

lemma codec_laws:
  assumes "codec_ok enc dec"
  shows "dec (enc m @ rest) = DecodeOk m (length (enc m))" and "enc m \<noteq> []"
    and "strict_prefix bs (enc m) \<Longrightarrow> (if bs = [] then NeedMore else dec bs) = NeedMore"
  using assms by (auto simp: codec_ok_def)

text \<open>Receiving until the codec has to wait, at most \<open>n\<close> messages.\<close>

fun codec_recvs :: "(bytes \<Rightarrow> 'm decode_result) \<Rightarrow> nat \<Rightarrow> nat \<Rightarrow> bytes \<Rightarrow> bytes list \<Rightarrow> 'm list \<times> mux_error option" where
  "codec_recvs dec max_msg_size 0 buffer chs = ([], None)"
| "codec_recvs dec max_msg_size (Suc n) buffer chs =
     (case codec_recv dec max_msg_size False buffer chs of
        (CodecMsg m, b, chs') \<Rightarrow> let (ms, e) = codec_recvs dec max_msg_size n b chs' in (m # ms, e)
      | (CodecFail e, _, _) \<Rightarrow> ([], Some e)
      | (CodecWait, _, _) \<Rightarrow> ([], None))"

lemma codec_recv_one:
  assumes ok: "codec_ok enc dec" and eq: "buffer @ concat chs = enc m @ tail" and len: "length (enc m) \<le> max_msg_size"
  shows "\<exists>b chs'. codec_recv dec max_msg_size closed buffer chs = (CodecMsg m, b, chs') \<and> b @ concat chs' = tail"
  using eq
proof (induction chs arbitrary: buffer)
  case Nil
  then show ?case using codec_laws(1,2) [OF ok, of m] len by (simp add: codec_recv.simps)
next
  case (Cons c cs)
  have p: "prefix (enc m) (buffer @ concat (c # cs))" "prefix buffer (buffer @ concat (c # cs))"
    unfolding Cons.prems by simp (simp add: Cons.prems [symmetric])
  show ?case
  proof (cases "length (enc m) \<le> length buffer")
    case True
    then have "prefix (enc m) buffer" using p prefix_length_prefix by blast
    then obtain r where r: "buffer = enc m @ r" by (auto simp: prefix_def)
    then show ?thesis
      using Cons.prems codec_laws(1,2) [OF ok, of m] len by (auto simp: codec_recv.simps [of _ _ _ "enc m @ r"])
  next
    case False
    then have "prefix buffer (enc m)" using prefix_length_prefix [OF p(2,1)] by simp
    then have "strict_prefix buffer (enc m)" using False by (auto simp: strict_prefix_def)
    note more = codec_laws(3) [OF ok this]
    show ?thesis using Cons.IH [of "buffer @ c"] Cons.prems by (simp add: codec_recv.simps [of _ _ _ buffer] more)
  qed
qed

lemma codec_recv_more:
  assumes ok: "codec_ok enc dec" and pre: "strict_prefix (buffer @ concat chs) (enc m)"
  shows "codec_recv dec max_msg_size False buffer chs = (CodecWait, buffer @ concat chs, [])"
  using pre
proof (induction chs arbitrary: buffer)
  case Nil
  then show ?case using codec_laws(3) [OF ok, of buffer m] by (simp add: codec_recv.simps)
next
  case (Cons c cs)
  then have "strict_prefix buffer (enc m)" by (auto simp: strict_prefix_def prefix_def)
  note more = codec_laws(3) [OF ok this]
  show ?case using Cons.IH [of "buffer @ c"] Cons.prems by (simp add: codec_recv.simps [of _ _ _ buffer] more)
qed

lemma codec_recvs_prefix:
  assumes ok: "codec_ok enc dec" and pre: "prefix (buffer @ concat chs) (concat (map enc ms))"
    and len: "\<forall>m\<in>set ms. length (enc m) \<le> max_msg_size"
  shows "\<exists>ms'. codec_recvs dec max_msg_size (length ms) buffer chs = (ms', None) \<and> prefix ms' ms \<and>
    prefix (concat (map enc ms')) (buffer @ concat chs) \<and> (buffer @ concat chs = concat (map enc ms) \<longrightarrow> ms' = ms)"
  using pre len
proof (induction ms arbitrary: buffer chs)
  case (Cons m ms)
  show ?case
  proof (cases "prefix (enc m) (buffer @ concat chs)")
    case True
    then obtain tail where tail: "buffer @ concat chs = enc m @ tail" by (auto simp: prefix_def)
    obtain b chs' where r: "codec_recv dec max_msg_size False buffer chs = (CodecMsg m, b, chs')" "b @ concat chs' = tail"
      using codec_recv_one [OF ok tail, of max_msg_size False] Cons.prems(2) by auto
    have "prefix (b @ concat chs') (concat (map enc ms))" using Cons.prems(1) tail r(2) by simp
    then obtain ms' where "codec_recvs dec max_msg_size (length ms) b chs' = (ms', None)" "prefix ms' ms"
      "prefix (concat (map enc ms')) tail" "tail = concat (map enc ms) \<longrightarrow> ms' = ms"
      using Cons.IH [of b chs'] Cons.prems(2) r(2) by auto
    then show ?thesis using r tail by auto
  next
    case False
    then have p: "strict_prefix (buffer @ concat chs) (enc m)"
      using Cons.prems(1) prefix_same_cases [of "buffer @ concat chs" "enc m @ concat (map enc ms)" "enc m"]
      by (auto simp: strict_prefix_def)
    then have "codec_recvs dec max_msg_size (length (m # ms)) buffer chs = ([], None)"
      using codec_recv_more [OF ok p] by simp
    then show ?thesis using p by (auto simp: strict_prefix_def prefix_def)
  qed
qed simp

text \<open>C16: messages arrive as they were sent. If every payload a protocol sends is an encoded message of at most the allowed
  size, then on any run of a link the messages the receiving codec extracts from the chunks handed to it, however
  the muxer cut and interleaved them, are a prefix of the messages sent, the codec reports no error, and once
  nothing is left in between they are all of them.\<close>

theorem messages_delivered:
  assumes "mux_built reg local" and "mux_built reg' remote" and "min sdu_size MAX_PAYLOAD_LEN \<le> max_sdu"
    and "link_run pick sdu_size max_sdu (link_of local remote) sent got l"
    and "link_ingress l k = Some p" and "\<not> ig_closed p"
    and "codec_ok enc dec" and "sent k = map enc ms" and "\<forall>m\<in>set ms. length (enc m) \<le> max_msg_size"
  shows "\<exists>ms'. codec_recvs dec max_msg_size (length ms) [] (got k) = (ms', None) \<and> prefix ms' ms \<and>
    (lk_wire l = [] \<and> ig_queue p = [] \<and> egress_bytes (link_egress l k) = [] \<longrightarrow> ms' = ms)"
proof -
  note d = link_run_delivers [OF assms(1-6)]
  have "prefix ([] @ concat (got k)) (concat (map enc ms))" using d(1) assms(8) by (auto dest: append_prefixD)
  from codec_recvs_prefix [OF assms(7) this assms(9)] show ?thesis using d(2) assms(8) by auto
qed

subsection \<open>Concrete runs\<close>

text \<open>Two registered multiplexers of a keep-alive protocol; a message goes through the whole link in two segments.\<close>

definition wit_config :: protocol_config where
  "wit_config = \<lparr>pg_id = 8, pg_traffic_class = DefaultClass 1, pg_ingress_limit = 100, pg_egress_queue_size = 4\<rparr>"

definition wit_mux :: "u16 \<Rightarrow> any_scheduler mux" where
  "wit_mux mode = register_with_mode any_register (mux_new mux_config_default (any_from_type RoundRobinType) mode) wit_config mode"

definition wit_key :: channel_key where
  "wit_key = (8, MODE_INITIATOR)"

definition wit_sent :: "any_scheduler link" where
  "wit_sent = put_egress (link_of (wit_mux MODE_INITIATOR) (wit_mux MODE_RESPONDER)) wit_key
     \<lparr>eg_queue = [[0x41, 7]], eg_capacity = 4, eg_closed = False, eg_mode = MODE_INITIATOR, eg_pending = None\<rparr>"


lemmas wit_defs = wit_sent_def wit_mux_def wit_key_def wit_config_def link_of_def muxer_of_def demuxer_of_def
  register_with_mode_def mux_new_def remote_mode_def MODE_INITIATOR_def MODE_RESPONDER_def put_egress_def put_ingress_def

definition wit_egress :: "bytes list \<Rightarrow> protocol_egress" where
  "wit_egress q = \<lparr>eg_queue = q, eg_capacity = 4, eg_closed = False, eg_mode = MODE_INITIATOR, eg_pending = None\<rparr>"
definition wit_ingress :: "bytes list \<Rightarrow> protocol_ingress" where
  "wit_ingress q = \<lparr>ig_queue = q, ig_capacity = 4, ig_closed = False, ig_counter = length (concat q), ig_limit = 100\<rparr>"

definition wit_seg :: "u8 \<Rightarrow> segment" where
  "wit_seg b = \<lparr>sg_header = \<lparr>hd_timestamp = 5, hd_mode = MODE_INITIATOR, hd_protocol = 8, hd_payload_len = 1\<rparr>, sg_payload = [b]\<rparr>"

lemma wit_eval1: "link_egress (link_of (wit_mux MODE_INITIATOR) (wit_mux MODE_RESPONDER)) wit_key = Some (wit_egress [])"
  by (simp add: wit_defs wit_egress_def oget_oput)
lemma wit_eval2: "mx_protocols (lk_mux wit_sent) = oput wit_key (wit_egress [[0x41,7]]) oempty"
  by (simp add: wit_defs wit_egress_def) (rule omap_eqI, simp add: oget_oput)

lemma oput_oput: "oput k v (oput k w m) = oput k v m"
  by (rule omap_eqI) (simp add: oget_oput)

lemma oretain_one: "P k v \<Longrightarrow> oretain P (oput k v oempty) = oput k v oempty"
  by (rule omap_eqI) (simp add: oget_oretain oget_oput)

lemma omap_values_one: "omap_values f (oput k v oempty) = oput k (f k v) oempty"
  by (rule omap_eqI) (simp add: oget_omap_values oget_oput)

lemma chunks2: "chunks (Suc 0) [a, b] = [[a], [b]]"
  by (simp add: chunks.simps)

lemma wit_eval3: "muxer_turn any_next [wit_key] 5 1 (lk_mux wit_sent) =
  (TurnSent [wit_seg 0x41, wit_seg 7], (lk_mux wit_sent)\<lparr>mx_protocols := oput wit_key (wit_egress []) oempty,
     mx_scheduler := AnyRoundRobin \<lparr>rr_last_index = 0\<rparr>, mx_bytes_sent := 18\<rparr>)"
proof -
  have w: "wait_for_any_data [wit_key] (oput wit_key (wit_egress [[0x41,7]]) oempty) = 
    (True, oput wit_key ((wit_egress [])\<lparr>eg_pending := Some [0x41,7]\<rparr>) oempty)"
    by (simp add: wait_for_any_data_def ovalues_def oget_oput wit_egress_def fill_pending_def oput_oput)
  have sch: "mx_scheduler (lk_mux wit_sent) = any_from_type RoundRobinType" "mx_bytes_sent (lk_mux wit_sent) = 0"
    by (simp_all add: wit_defs rr_register_def)
  show ?thesis unfolding muxer_turn_def wit_eval2 w
    by (simp add: oretain_one omap_values_one drained_def wit_egress_def fill_pending_def olen_def ready_keys_def oget_oput
     sch rr_next_def round_robin_default_def take_pending_def segment_payload_def MAX_PAYLOAD_LEN_def chunks2 oput_oput wit_seg_def wit_key_def segments_bytes_def HEADER_LEN_def)
qed

definition wit_on_wire :: "any_scheduler link" where
  "wit_on_wire = wit_sent\<lparr>lk_mux := (lk_mux wit_sent)\<lparr>mx_protocols := oput wit_key (wit_egress []) oempty,
     mx_scheduler := AnyRoundRobin \<lparr>rr_last_index = 0\<rparr>, mx_bytes_sent := 18\<rparr>,
     lk_wire := write_segment (wit_seg 0x41) @ write_segment (wit_seg 7)\<rparr>"

lemma wit_eval4: "lk_demux wit_sent = \<lparr>dx_protocols = oput wit_key (wit_ingress []) oempty, dx_bytes_received = 0\<rparr>"
  by (simp add: wit_defs wit_ingress_def)

lemma wit_eval5: "segment_ok 2 (wit_seg b)"
  by (simp add: segment_ok_def wit_seg_def direction_bits_def MODE_INITIATOR_def)

lemma wit_eval6: "demux_dispatch (wit_seg b) (oput wit_key (wit_ingress q) oempty) = Inr (oput wit_key (wit_ingress (q @ [[b]])) oempty)"
  if "length (concat q) < 100" "length q < 4"
  using that by (simp add: demux_dispatch_def wit_seg_def wit_key_def oget_oput wit_ingress_def oput_oput)

lemma wit_eval7: "demux_step 30 2 0 False (write_segment (wit_seg b) @ rest) \<lparr>dx_protocols = oput wit_key (wit_ingress q) oempty, dx_bytes_received = n\<rparr> =
   (DemuxNext rest, \<lparr>dx_protocols = oput wit_key (wit_ingress (q @ [[b]])) oempty, dx_bytes_received = n + 9\<rparr>)"
  if "length (concat q) < 100" "length q < 4"
  using wit_eval6 [OF that] by (simp add: demux_step_def read_write_segment [OF wit_eval5] HEADER_LEN_def Let_def) (simp add: wit_seg_def)


definition wit_link :: "bytes list \<Rightarrow> bytes \<Rightarrow> u64 \<Rightarrow> any_scheduler link" where
  "wit_link q wire n = wit_on_wire\<lparr>lk_wire := wire, lk_demux := \<lparr>dx_protocols = oput wit_key (wit_ingress q) oempty, dx_bytes_received = n\<rparr>\<rparr>"

abbreviation wit_runs where
  "wit_runs \<equiv> link_run any_next 1 2 (link_of (wit_mux MODE_INITIATOR) (wit_mux MODE_RESPONDER))"

lemma wit_step1: "wit_runs ((\<lambda>_. [])(wit_key := [[0x41, 7]])) (\<lambda>_. []) wit_sent"
  using lr_send [OF lr_start wit_eval1, of "[0x41, 7]" "wit_egress [[0x41, 7]]" any_next 1 2]
  by (simp add: wit_egress_def channel_send_def wit_sent_def)

lemma wit_step2: "wit_runs ((\<lambda>_. [])(wit_key := [[0x41, 7]])) (\<lambda>_. []) (wit_link [] (write_segment (wit_seg 0x41) @ write_segment (wit_seg 7)) 0)"
proof -
  have "wit_link [] (write_segment (wit_seg 0x41) @ write_segment (wit_seg 7)) 0 = wit_on_wire"
    using wit_eval4 by (simp add: wit_link_def wit_on_wire_def)
  moreover have "lk_wire wit_sent = []" by (simp add: wit_defs)
  ultimately show ?thesis using lr_turn [OF wit_step1 wit_eval3] by (simp add: wit_on_wire_def)
qed

lemma wit_step3: "wit_runs sent got (wit_link q (write_segment (wit_seg b) @ rest) n) \<Longrightarrow> length (concat q) < 100 \<Longrightarrow> length q < 4 \<Longrightarrow>
   wit_runs sent got (wit_link (q @ [[b]]) rest (n + 9))"
  using lr_demux [of any_next 1 2 _ sent got "wit_link q (write_segment (wit_seg b) @ rest) n" 30 0 rest] wit_eval7 [of q b rest n]
  by (simp add: wit_link_def)

lemma wit_step4: "wit_runs sent got (wit_link (d # q) wire n) \<Longrightarrow> wit_runs sent (got(wit_key := got wit_key @ [d])) (wit_link q wire n)"
  using lr_recv [of any_next 1 2 _ sent got "wit_link (d # q) wire n" wit_key "wit_ingress (d # q)" d "wit_ingress q"]
  by (simp add: wit_link_def channel_recv_def wit_ingress_def oget_oput put_ingress_def oput_oput)

lemma wit_run: "wit_runs ((\<lambda>_. [])(wit_key := [[0x41, 7]])) ((\<lambda>_. [])(wit_key := [[0x41], [7]])) (wit_link [] [] 18)"
proof -
  have 1: "wit_runs ((\<lambda>_. [])(wit_key := [[0x41, 7]])) (\<lambda>_. []) (wit_link [[0x41]] (write_segment (wit_seg 7)) 9)"
    using wit_step3 [OF wit_step2] by simp
  have "wit_runs ((\<lambda>_. [])(wit_key := [[0x41, 7]])) (\<lambda>_. []) (wit_link [[0x41], [7]] [] 18)"
    using wit_step3 [of _ _ "[[0x41]]" 7 "[]" 9] 1 by simp
  from wit_step4 [OF wit_step4 [OF this]] show ?thesis by (simp add: fun_upd_def cong: if_cong)
qed


lemma wit_built: "mux_built any_register (wit_mux MODE_INITIATOR)" "mux_built any_register (wit_mux MODE_RESPONDER)"
  unfolding wit_mux_def by (rule built_register, rule built_new; simp add: wit_config_def)+

lemma wit_ends: "link_ingress (wit_link q wire n) wit_key = Some (wit_ingress q)" "lk_wire (wit_link q wire n) = wire"
  "egress_bytes (link_egress (wit_link q wire n) wit_key) = []"
  by (simp_all add: wit_link_def oget_oput wit_on_wire_def egress_bytes_def wit_egress_def)

theorem mux_delivers_witness:
  "ig_counter (wit_ingress []) = 0 \<and> concat [[0x41], [7]] = concat [[0x41, 7 :: u8]]"
  using mux_delivers [OF wit_built _ wit_run wit_ends(1)] wit_ends(2,3) by (simp add: wit_ingress_def)

text \<open>A codec of one-byte byte strings, as CBOR encodes them.\<close>

definition wit_enc :: "u8 \<Rightarrow> bytes" where
  "wit_enc b = [0x41, b]"

fun wit_dec :: "bytes \<Rightarrow> u8 decode_result" where
  "wit_dec (h # b # rest) = (if h = 0x41 then DecodeOk b 2 else DecodeError)"
| "wit_dec [h] = (if h = 0x41 then NeedMore else DecodeError)"
| "wit_dec [] = NeedMore"

lemma wit_codec_ok: "codec_ok wit_enc wit_dec"
  by (auto simp: codec_ok_def wit_enc_def strict_prefix_def prefix_Cons)

theorem messages_delivered_witness:
  "codec_recvs wit_dec 10 1 [] [[0x41], [7]] = ([7], None)"
proof -
  have sent: "((\<lambda>_. [])(wit_key := [[0x41, 7]])) wit_key = map wit_enc [7]" by (simp add: wit_enc_def)
  show ?thesis
    using messages_delivered [OF wit_built _ wit_run wit_ends(1) _ wit_codec_ok sent, of 10] wit_ends(2,3)
    by (simp add: wit_ingress_def wit_enc_def)
qed

theorem mux_drains_witness:
  "bytes_for wit_key (fst (muxer_turns any_next okeys 5 1 (mux_backlog (mx_protocols (lk_mux wit_sent))) (lk_mux wit_sent))) = [0x41, 7]"
  using mux_drains [OF wit_built _ wit_step1, of okeys 5 wit_key] wit_eval2
  by (simp add: set_okeys oget_oput egress_bytes_def wit_egress_def)

end
