(* ===== verification/Chain_Store.thy ===== *)
theory Chain_Store
  imports Peer_Chain
begin

text \<open>
  \<open>net-rs/net-core/src/store/chain_store.rs\<close>: the live chain a node serves to its followers. The coordinator appends
  and rolls back; the ChainSync and BlockFetch servers look up intersections, cursors and ranges.

  \<^item> Every method takes the mutex for its whole body, so a method is one atomic step on the state.
  \<^item> A \<open>VecDeque\<close> is a list, oldest block first. \<open>capacity\<close> and lengths are \<open>nat\<close>; \<open>len() as u64\<close> is \<open>of_nat\<close>.
  \<^item> A mutating method also returns the value it sends on the watch channel, if any.
  \<^item> Headers keep the parsed fields the store reads; the raw bytes and the body are opaque to it.

  Shown here: the invariants the module documents (bounded, distinct points, increasing numbers, parsed links, exact
  tip number), and when the store takes its history to reach back to genesis.
\<close>

record header_info =
  hi_era :: u8
  hi_block_number :: u64
  hi_slot :: u64
  hi_prev_hash :: "hash32 option"
  hi_issuer_vkey :: hash32
  hi_body_size :: u32
  hi_block_body_hash :: hash32
  hi_announced_eb :: "(hash32 \<times> u32) option"
  hi_certified_eb :: "bool option"

record full_header =
  wh_raw :: "u8 list"
  wh_parsed :: "header_info option"

record stored_block =
  sb_point :: point
  sb_header :: full_header
  sb_body :: "u8 list"
  sb_block_no :: u64

datatype next_for_cursor = NextBlock stored_block | AtTip | Gone

definition ORPHAN_CACHE_CAP :: nat where "ORPHAN_CACHE_CAP = 512"

record chain_store =
  ch_blocks :: "stored_block list"
  ch_capacity :: nat
  ch_block_no :: u64
  ch_last_rollback_target :: "point option"
  ch_orphan_bodies :: "stored_block list"
  ch_anchored_above_genesis :: bool
  ch_intersection_anchor :: "tip option"

definition checked_add :: "'a::len word \<Rightarrow> 'a word \<Rightarrow> 'a word option" where
  "checked_add a b = (if a + b < a then None else Some (a + b))"

lemma checked_add_unat: "checked_add a b = (if unat a + unat b < 2 ^ LENGTH('a) then Some (a + b) else None)"
  for a b :: "'a::len word"
proof (cases "unat a + unat b < 2 ^ LENGTH('a)")
  case True
  then have "unat (a + b) = unat a + unat b" by (simp add: unat_word_ariths)
  then have "\<not> a + b < a" by (simp add: word_less_nat_alt)
  with True show ?thesis by (simp add: checked_add_def)
next
  case False
  moreover have less: "unat b < 2 ^ LENGTH('a)" "unat a < 2 ^ LENGTH('a)" by simp_all
  moreover from this have "unat a + unat b - 2 ^ LENGTH('a) < 2 ^ LENGTH('a)" by linarith
  ultimately have "(unat a + unat b) mod 2 ^ LENGTH('a) = unat a + unat b - 2 ^ LENGTH('a)"
    using le_mod_geq [of "2 ^ LENGTH('a)" "unat a + unat b"] by simp
  then have "unat (a + b) = unat a + unat b - 2 ^ LENGTH('a)" by (simp add: unat_word_ariths)
  then have "unat (a + b) < unat a" using False less by linarith
  then have "a + b < a" by (simp add: word_less_nat_alt)
  with False show ?thesis by (simp add: checked_add_def)
qed

definition checked_sub :: "'a::len word \<Rightarrow> 'a word \<Rightarrow> 'a word option" where
  "checked_sub a b = (if b \<le> a then Some (a - b) else None)"

subsection \<open>Operations\<close>

definition servable_anchor :: "chain_store \<Rightarrow> tip option" where
  "servable_anchor st =
     (case ch_intersection_anchor st of
        None \<Rightarrow> None
      | Some anchor \<Rightarrow>
          (case tip_point anchor of
             Origin \<Rightarrow> None
           | Specific _ hash \<Rightarrow>
               (case ch_blocks st of
                  [] \<Rightarrow> Some anchor
                | first # _ \<Rightarrow>
                    (case wh_parsed (sb_header first) of
                       None \<Rightarrow> None
                     | Some header \<Rightarrow>
                         if hi_prev_hash header \<noteq> Some hash
                            \<or> checked_add (tip_block_no anchor) 1 \<noteq> Some (hi_block_number header)
                         then None else Some anchor))))"

definition retain_orphans :: "chain_store \<Rightarrow> stored_block list \<Rightarrow> chain_store" where
  "retain_orphans st removed =
     st\<lparr>ch_orphan_bodies := pop_front_while_over ORPHAN_CACHE_CAP (ch_orphan_bodies st @ removed)\<rparr>"

definition chain_store_new :: "nat \<Rightarrow> chain_store" where
  "chain_store_new capacity =
     \<lparr>ch_blocks = [], ch_capacity = capacity, ch_block_no = 0, ch_last_rollback_target = None, ch_orphan_bodies = [],
      ch_anchored_above_genesis = False, ch_intersection_anchor = None\<rparr>"

definition set_anchored_above_genesis :: "chain_store \<Rightarrow> bool \<Rightarrow> u64 \<times> chain_store" where
  "set_anchored_above_genesis st anchored =
     (of_nat (length (ch_blocks st)), st\<lparr>ch_anchored_above_genesis := anchored\<rparr>)"

definition set_intersection_anchor :: "chain_store \<Rightarrow> point \<Rightarrow> u64 \<Rightarrow> u64 option \<times> chain_store" where
  "set_intersection_anchor st p block_no =
     (if p = Origin \<or> \<not> ch_anchored_above_genesis st \<or> ch_blocks st \<noteq> [] \<or> ch_intersection_anchor st \<noteq> None
      then (None, st)
      else (Some block_no,
            st\<lparr>ch_intersection_anchor := Some \<lparr>tip_point = p, tip_block_no = block_no\<rparr>, ch_block_no := block_no\<rparr>))"

definition is_seeded :: "chain_store \<Rightarrow> bool" where
  "is_seeded st \<longleftrightarrow> \<not> ch_anchored_above_genesis st \<or> servable_anchor st \<noteq> None \<or> ch_blocks st \<noteq> []"

text \<open>The eviction loop of \<open>append_block\<close>.\<close>

function evict_over :: "chain_store \<Rightarrow> chain_store" where
  "evict_over st =
     (if length (ch_blocks st) > ch_capacity st then
        (case ch_blocks st of
           [] \<Rightarrow> st
         | evicted # rest \<Rightarrow> evict_over (retain_orphans (st\<lparr>ch_blocks := rest\<rparr>) [evicted]))
      else st)"
  by pat_completeness auto
termination
  by (relation "measure (\<lambda>st. length (ch_blocks st))") (auto simp: retain_orphans_def)

declare evict_over.simps [simp del]

definition append_block :: "chain_store \<Rightarrow> point \<Rightarrow> full_header \<Rightarrow> u8 list \<Rightarrow> u64 \<Rightarrow> (bool \<times> u64 option) \<times> chain_store" where
  "append_block st p header body block_no =
     (if list_ex (\<lambda>b. sb_point b = p) (ch_blocks st) then ((False, None), st)
      else if ch_blocks st \<noteq> [] \<and> block_no \<le> sb_block_no (last (ch_blocks st)) then ((False, None), st)
      else
        let misfit =
          (case checked_sub block_no 1 of
             None \<Rightarrow> False
           | Some previous_block_no \<Rightarrow>
               (case find (\<lambda>b. sb_block_no b = previous_block_no) (rev (ch_blocks st)) of
                  None \<Rightarrow> False
                | Some previous \<Rightarrow>
                    (case (get_hash (sb_point previous), wh_parsed header) of
                       (Some expected_hash, Some info) \<Rightarrow> hi_prev_hash info \<noteq> Some expected_hash
                     | _ \<Rightarrow> False)))
        in if misfit then ((False, None), st)
           else
             let st1 = st\<lparr>ch_block_no := block_no,
                          ch_blocks := ch_blocks st @ [\<lparr>sb_point = p, sb_header = header, sb_body = body, sb_block_no = block_no\<rparr>]\<rparr>;
                 st2 = evict_over st1
             in ((True, Some (ch_block_no st2)), st2))"

definition anchor_at :: "chain_store \<Rightarrow> point \<Rightarrow> bool" where
  "anchor_at st p \<longleftrightarrow> (case servable_anchor st of Some a \<Rightarrow> tip_point a = p | None \<Rightarrow> False)"

definition last_block_no :: "stored_block list \<Rightarrow> u64" where
  "last_block_no bs = (if bs = [] then 0 else sb_block_no (last bs))"

definition last_point :: "stored_block list \<Rightarrow> point" where
  "last_point bs = (if bs = [] then Origin else sb_point (last bs))"

text \<open>The derived order of \<open>Option<u64>\<close>, on which slots are compared.\<close>

fun slot_less :: "u64 option \<Rightarrow> u64 option \<Rightarrow> bool" where
  "slot_less None None = False"
| "slot_less None (Some _) = True"
| "slot_less (Some _) None = False"
| "slot_less (Some a) (Some b) = (a < b)"

text \<open>Cutting the live chain to \<open>kept\<close> and retaining \<open>removed\<close>: the common end of both rollbacks.\<close>

definition truncate_to :: "chain_store \<Rightarrow> nat \<Rightarrow> chain_store" where
  "truncate_to st n = retain_orphans (st\<lparr>ch_blocks := take n (ch_blocks st)\<rparr>) (drop n (ch_blocks st))"

definition settle_tip :: "chain_store \<Rightarrow> (point \<times> u64) \<times> chain_store" where
  "settle_tip st =
     (let no = last_block_no (ch_blocks st); tip_point = last_point (ch_blocks st)
      in ((tip_point, no), st\<lparr>ch_block_no := no, ch_last_rollback_target := Some tip_point\<rparr>))"

definition cs_rollback_to :: "chain_store \<Rightarrow> point \<Rightarrow> (point \<times> u64) \<times> chain_store" where
  "cs_rollback_to st p =
     (let before_window = \<not> anchor_at st p \<and>
            (case ch_blocks st of [] \<Rightarrow> False | first # _ \<Rightarrow> slot_less (get_slot p) (get_slot (sb_point first)))
      in if p = Origin \<or> before_window then
           ((Origin, 0),
            (truncate_to (st\<lparr>ch_intersection_anchor := None\<rparr>) 0)\<lparr>ch_block_no := 0, ch_last_rollback_target := Some p\<rparr>)
         else if anchor_at st p then
           ((p, 0), (truncate_to st 0)\<lparr>ch_last_rollback_target := Some p\<rparr>)
         else
           settle_tip
             (case position (\<lambda>b. sb_point b = p) (ch_blocks st) of
                Some pos \<Rightarrow> truncate_to st (pos + 1)
              | None \<Rightarrow> st))"

definition cs_rollback :: "chain_store \<Rightarrow> nat \<Rightarrow> (point \<times> u64) \<times> chain_store" where
  "cs_rollback st depth = settle_tip (truncate_to st (length (ch_blocks st) - depth))"

definition cs_tip :: "chain_store \<Rightarrow> tip" where
  "cs_tip st =
     (if ch_blocks st \<noteq> [] then \<lparr>tip_point = sb_point (last (ch_blocks st)), tip_block_no = ch_block_no st\<rparr>
      else case servable_anchor st of Some a \<Rightarrow> a | None \<Rightarrow> \<lparr>tip_point = Origin, tip_block_no = 0\<rparr>)"

definition roots_at_genesis :: "chain_store \<Rightarrow> bool" where
  "roots_at_genesis st \<longleftrightarrow> \<not> ch_anchored_above_genesis st \<and> ch_intersection_anchor st = None \<and>
     (ch_blocks st = [] \<or> checked_add (ch_block_no st) 1 = Some (of_nat (length (ch_blocks st))))"

fun find_intersection :: "chain_store \<Rightarrow> point list \<Rightarrow> (point \<times> tip) option" where
  "find_intersection st [] = None"
| "find_intersection st (candidate # points) =
     (if candidate = Origin then
        if roots_at_genesis st then Some (Origin, cs_tip st) else find_intersection st points
      else if anchor_at st candidate \<or> list_ex (\<lambda>b. sb_point b = candidate) (ch_blocks st)
      then Some (candidate, cs_tip st)
      else find_intersection st points)"

definition index_of :: "chain_store \<Rightarrow> point \<Rightarrow> nat option" where
  "index_of st p = (if p = Origin then None else position (\<lambda>b. sb_point b = p) (ch_blocks st))"

definition next_after_cursor :: "chain_store \<Rightarrow> point option \<Rightarrow> next_for_cursor" where
  "next_after_cursor st read_point =
     (let at_anchor = (case servable_anchor st of Some a \<Rightarrow> read_point = Some (tip_point a) | None \<Rightarrow> False);
          after_opt =
            (case read_point of
               None \<Rightarrow> Some 0
             | Some p \<Rightarrow>
                 if p = Origin \<or> at_anchor then Some 0
                 else map_option Suc (position (\<lambda>b. sb_point b = p) (ch_blocks st)))
      in case after_opt of
           None \<Rightarrow> Gone
         | Some i \<Rightarrow>
             if i = 0 \<and> \<not> roots_at_genesis st \<and> \<not> at_anchor then AtTip
             else if i < length (ch_blocks st) then NextBlock (ch_blocks st ! i)
             else AtTip)"

definition servable_rollback_target :: "chain_store \<Rightarrow> point" where
  "servable_rollback_target st =
     (let fallback = (case servable_anchor st of Some a \<Rightarrow> tip_point a | None \<Rightarrow> Origin)
      in case ch_last_rollback_target st of
           Some p \<Rightarrow>
             if p = Origin then Origin
             else if list_ex (\<lambda>b. sb_point b = p) (ch_blocks st) then p
             else fallback
         | None \<Rightarrow> fallback)"

definition blocks_after :: "chain_store \<Rightarrow> nat option \<Rightarrow> stored_block list" where
  "blocks_after st after_index =
     (let start = (case after_index of Some i \<Rightarrow> i + 1 | None \<Rightarrow> 0)
      in if start \<ge> length (ch_blocks st) then [] else drop start (ch_blocks st))"

definition get_range :: "chain_store \<Rightarrow> point \<Rightarrow> point \<Rightarrow> stored_block list" where
  "get_range st p_from p_to =
     (case position (\<lambda>b. sb_point b = p_to) (ch_blocks st) of
        None \<Rightarrow> []
      | Some e \<Rightarrow>
          let start = (case position (\<lambda>b. sb_point b = p_from) (ch_blocks st) of
                         Some s \<Rightarrow> if s \<le> e then s else 0
                       | None \<Rightarrow> 0)
          in drop start (take (e + 1) (ch_blocks st)))"

definition get_orphans :: "chain_store \<Rightarrow> point \<Rightarrow> point \<Rightarrow> stored_block list" where
  "get_orphans st p_from p_to =
     (if p_from \<noteq> p_to then [] else filter (\<lambda>b. sb_point b = p_to) (ch_orphan_bodies st))"

text \<open>The loop of \<open>intersection_candidates\<close>; \<open>offset\<close> and \<open>step\<close> double long before they could saturate.\<close>

function candidate_loop :: "point list \<Rightarrow> nat \<Rightarrow> nat \<Rightarrow> nat \<Rightarrow> point list \<Rightarrow> point list" where
  "candidate_loop pts max_points offset step acc =
     (if offset < length pts \<and> length acc + 1 < max_points
      then candidate_loop pts max_points (offset + step) (step * 2) (acc @ [pts ! (length pts - 1 - offset)])
      else acc)"
  by pat_completeness auto
termination
  by (relation "measure (\<lambda>(pts, max_points, offset, step, acc). max_points - length acc)") auto

declare candidate_loop.simps [simp del]

definition intersection_candidates :: "chain_store \<Rightarrow> nat \<Rightarrow> point list" where
  "intersection_candidates st max_points =
     (if ch_blocks st = [] then [] else candidate_loop (map sb_point (ch_blocks st)) max_points 0 1 []) @ [Origin]"

fun is_valid_index :: "chain_store \<Rightarrow> nat option \<Rightarrow> point option \<Rightarrow> bool" where
  "is_valid_index st None _ = True"
| "is_valid_index st (Some i) (Some p) = (i < length (ch_blocks st) \<and> sb_point (ch_blocks st ! i) = p)"
| "is_valid_index st (Some i) None = (i < length (ch_blocks st))"

definition block_count :: "chain_store \<Rightarrow> u64" where
  "block_count st = ch_block_no st"

definition stored_count :: "chain_store \<Rightarrow> nat" where
  "stored_count st = length (ch_blocks st)"

subsection \<open>What eviction and rollback do to the live chain and the retained bodies\<close>

lemma pop_front_append:
  "pop_front_while_over c (pop_front_while_over c xs @ ys) = pop_front_while_over c (xs @ ys)"
  by (cases "length xs \<le> c") (simp_all add: pop_front_while_over_drop add.commute)

lemma length_pop_front: "length (pop_front_while_over c xs) \<le> c"
  by (simp add: pop_front_while_over_drop)

lemma evict_over_effect:
  "evict_over st = st\<lparr>ch_blocks := drop (length (ch_blocks st) - ch_capacity st) (ch_blocks st),
     ch_orphan_bodies := (if length (ch_blocks st) > ch_capacity st
       then pop_front_while_over ORPHAN_CACHE_CAP
         (ch_orphan_bodies st @ take (length (ch_blocks st) - ch_capacity st) (ch_blocks st))
       else ch_orphan_bodies st)\<rparr>"
proof (induction st rule: evict_over.induct)
  case (1 st)
  show ?case
  proof (cases "length (ch_blocks st) > ch_capacity st")
    case True
    then obtain b bs where bs: "ch_blocks st = b # bs" by (cases "ch_blocks st") auto
    have "evict_over st = evict_over (retain_orphans (st\<lparr>ch_blocks := bs\<rparr>) [b])"
      using True bs by (simp add: evict_over.simps [of st])
    moreover note 1 [OF True bs]
    ultimately show ?thesis
      using True bs by (simp add: retain_orphans_def pop_front_append Suc_diff_le)
  qed (simp add: evict_over.simps [of st])
qed

lemma append_block_cases:
  obtains (refused) "append_block st p header body no = ((False, None), st)"
  | (appended) b where "b = \<lparr>sb_point = p, sb_header = header, sb_body = body, sb_block_no = no\<rparr>"
      and "append_block st p header body no =
        ((True, Some no), evict_over (st\<lparr>ch_block_no := no, ch_blocks := ch_blocks st @ [b]\<rparr>))"
      and "p \<notin> sb_point ` set (ch_blocks st)"
      and "ch_blocks st \<noteq> [] \<Longrightarrow> sb_block_no (last (ch_blocks st)) < no"
      and "\<And>prev info h. ch_blocks st \<noteq> [] \<Longrightarrow> prev = last (ch_blocks st) \<Longrightarrow> unat no = unat (sb_block_no prev) + 1 \<Longrightarrow>
             wh_parsed header = Some info \<Longrightarrow> get_hash (sb_point prev) = Some h \<Longrightarrow> hi_prev_hash info = Some h"
proof -
  define b where "b = \<lparr>sb_point = p, sb_header = header, sb_body = body, sb_block_no = no\<rparr>"
  show ?thesis
  proof (cases "fst (fst (append_block st p header body no))")
    case False
    then have "append_block st p header body no = ((False, None), st)" by (auto simp: append_block_def Let_def split: if_splits)
    then show ?thesis by (rule refused)
  next
    case True
    then have eq: "append_block st p header body no =
        ((True, Some no), evict_over (st\<lparr>ch_block_no := no, ch_blocks := ch_blocks st @ [b]\<rparr>))"
      by (auto simp: append_block_def Let_def b_def evict_over_effect split: if_splits)
    have new: "p \<notin> sb_point ` set (ch_blocks st)" and up: "ch_blocks st \<noteq> [] \<Longrightarrow> sb_block_no (last (ch_blocks st)) < no"
      using True by (auto simp: append_block_def list_ex_iff split: if_splits)
    have "hi_prev_hash info = Some h"
      if "ch_blocks st \<noteq> []" "prev = last (ch_blocks st)" and no: "unat no = unat (sb_block_no prev) + 1"
        and "wh_parsed header = Some info" "get_hash (sb_point prev) = Some h" for prev info h
    proof -
      have "no = sb_block_no prev + 1" using arg_cong [OF no, of "of_nat :: nat \<Rightarrow> u64"] by simp
      then have "checked_sub no 1 = Some (sb_block_no prev)"
        using no by (auto simp: checked_sub_def word_le_nat_alt)
      moreover have "find (\<lambda>b. sb_block_no b = sb_block_no prev) (rev (ch_blocks st)) = Some prev"
        using that(1,2) by (cases "ch_blocks st" rule: rev_cases) auto
      ultimately show ?thesis using True that(4,5) by (auto simp: append_block_def Let_def split: if_splits)
    qed
    then show ?thesis using appended [OF b_def eq new up] by blast
  qed
qed

lemma truncate_to_fields:
  "ch_blocks (truncate_to st n) = take n (ch_blocks st)"
  "ch_orphan_bodies (truncate_to st n) = pop_front_while_over ORPHAN_CACHE_CAP (ch_orphan_bodies st @ drop n (ch_blocks st))"
  "ch_capacity (truncate_to st n) = ch_capacity st" "ch_block_no (truncate_to st n) = ch_block_no st"
  "ch_last_rollback_target (truncate_to st n) = ch_last_rollback_target st"
  "ch_anchored_above_genesis (truncate_to st n) = ch_anchored_above_genesis st"
  "ch_intersection_anchor (truncate_to st n) = ch_intersection_anchor st"
  by (simp_all add: truncate_to_def retain_orphans_def)

lemma rollback_to_cases:
  obtains (cleared) "cs_rollback_to st p = ((Origin, 0),
      (truncate_to (st\<lparr>ch_intersection_anchor := None\<rparr>) 0)\<lparr>ch_block_no := 0, ch_last_rollback_target := Some p\<rparr>)"
  | (to_anchor) "anchor_at st p" "cs_rollback_to st p = ((p, 0), (truncate_to st 0)\<lparr>ch_last_rollback_target := Some p\<rparr>)"
  | (to_block) pos where "position (\<lambda>b. sb_point b = p) (ch_blocks st) = Some pos"
      "cs_rollback_to st p = settle_tip (truncate_to st (pos + 1))"
  | (unknown) "p \<notin> sb_point ` set (ch_blocks st)" "cs_rollback_to st p = settle_tip st"
proof -
  define before where "before = (\<not> anchor_at st p \<and>
    (case ch_blocks st of [] \<Rightarrow> False | first # _ \<Rightarrow> slot_less (get_slot p) (get_slot (sb_point first))))"
  consider "p = Origin \<or> before" | "\<not> (p = Origin \<or> before)" "anchor_at st p" | "\<not> (p = Origin \<or> before)" "\<not> anchor_at st p"
    by blast
  then show ?thesis
  proof cases
    case 1
    then show ?thesis using cleared by (simp add: cs_rollback_to_def before_def)
  next
    case 2
    then show ?thesis using to_anchor by (simp add: cs_rollback_to_def before_def)
  next
    case 3
    then show ?thesis
    proof (cases "position (\<lambda>b. sb_point b = p) (ch_blocks st)")
      case None
      moreover from this have "p \<notin> sb_point ` set (ch_blocks st)" by (auto simp: position_None)
      ultimately show ?thesis using 3 unknown unfolding cs_rollback_to_def before_def Let_def by simp
    next
      case (Some pos)
      then show ?thesis using 3 to_block [OF Some] unfolding cs_rollback_to_def before_def Let_def by simp
    qed
  qed
qed

text \<open>Either rollback keeps a prefix of the live chain, retains the rest, and records the tip number.\<close>

lemma rollback_shape:
  assumes "st' = snd (cs_rollback_to st p) \<or> st' = snd (cs_rollback st depth)"
  obtains n where "ch_blocks st' = take n (ch_blocks st)"
    and "ch_orphan_bodies st' = pop_front_while_over ORPHAN_CACHE_CAP (ch_orphan_bodies st @ drop n (ch_blocks st)) \<or>
      n = length (ch_blocks st) \<and> ch_orphan_bodies st' = ch_orphan_bodies st"
    and "ch_capacity st' = ch_capacity st"
    and "ch_blocks st' \<noteq> [] \<Longrightarrow> ch_block_no st' = sb_block_no (last (ch_blocks st'))"
proof -
  note found = that
  have cut: thesis if "ch_blocks st' = take n (ch_blocks st)" "ch_orphan_bodies st' = ch_orphan_bodies (truncate_to st n)"
    "ch_capacity st' = ch_capacity st" "ch_blocks st' \<noteq> [] \<Longrightarrow> ch_block_no st' = sb_block_no (last (ch_blocks st'))" for n
    by (rule found [of n]) (use that in \<open>simp_all add: truncate_to_fields\<close>)
  have settle: thesis if "st' = snd (settle_tip (truncate_to st n))" for n
    by (rule cut [of n]) (use that in \<open>simp_all add: settle_tip_def Let_def truncate_to_fields last_block_no_def\<close>)
  have same: thesis if "st' = snd (settle_tip st)"
    by (rule found [of "length (ch_blocks st)"])
      (use that in \<open>simp_all add: settle_tip_def Let_def last_block_no_def\<close>)
  have clear: thesis if "ch_blocks st' = []" "ch_orphan_bodies st' = ch_orphan_bodies (truncate_to st 0)"
    "ch_capacity st' = ch_capacity st" by (rule cut [of 0]) (use that in simp_all)
  from assms show thesis
  proof
    assume st': "st' = snd (cs_rollback st depth)"
    then show thesis by (intro settle) (simp add: cs_rollback_def)
  next
    assume st': "st' = snd (cs_rollback_to st p)"
    then show thesis
      by (cases rule: rollback_to_cases [of st p])
        (use st' in \<open>auto intro: settle same clear simp: truncate_to_fields\<close>)
  qed
qed

subsection \<open>The invariant\<close>

definition links_ok :: "stored_block list \<Rightarrow> bool" where
  "links_ok bs \<longleftrightarrow> (\<forall>i info h. Suc i < length bs \<longrightarrow> unat (sb_block_no (bs ! Suc i)) = unat (sb_block_no (bs ! i)) + 1 \<longrightarrow>
     wh_parsed (sb_header (bs ! Suc i)) = Some info \<longrightarrow> get_hash (sb_point (bs ! i)) = Some h \<longrightarrow> hi_prev_hash info = Some h)"

definition chain_store_inv :: "chain_store \<Rightarrow> bool" where
  "chain_store_inv st \<longleftrightarrow> length (ch_blocks st) \<le> ch_capacity st \<and> length (ch_orphan_bodies st) \<le> ORPHAN_CACHE_CAP \<and>
     distinct (map sb_point (ch_blocks st)) \<and> sorted_wrt (<) (map sb_block_no (ch_blocks st)) \<and> links_ok (ch_blocks st) \<and>
     (ch_blocks st \<noteq> [] \<longrightarrow> ch_block_no st = sb_block_no (last (ch_blocks st)))"

text \<open>A step of the store removes some number of blocks from the live chain; a run adds them up.\<close>

inductive store_step :: "chain_store \<Rightarrow> nat \<Rightarrow> chain_store \<Rightarrow> bool" where
  ss_anchored: "store_step st 0 (snd (set_anchored_above_genesis st anchored))"
| ss_anchor: "store_step st 0 (snd (set_intersection_anchor st p no))"
| ss_append: "append_block st p header body no = ((ok, sig), st') \<Longrightarrow>
     store_step st (length (ch_blocks st) + of_bool ok - length (ch_blocks st')) st'"
| ss_rollback_to: "store_step st (length (ch_blocks st) - length (ch_blocks (snd (cs_rollback_to st p)))) (snd (cs_rollback_to st p))"
| ss_rollback: "store_step st (length (ch_blocks st) - length (ch_blocks (snd (cs_rollback st depth)))) (snd (cs_rollback st depth))"

inductive store_run :: "chain_store \<Rightarrow> nat \<Rightarrow> chain_store \<Rightarrow> bool" for st0 where
  sr_start: "store_run st0 0 st0"
| sr_step: "store_run st0 n st \<Longrightarrow> store_step st k st' \<Longrightarrow> store_run st0 (n + k) st'"

definition store_reachable :: "nat \<Rightarrow> chain_store \<Rightarrow> bool" where
  "store_reachable capacity st \<longleftrightarrow> (\<exists>n. store_run (chain_store_new capacity) n st)"

lemma links_ok_take: "links_ok bs \<Longrightarrow> links_ok (take n bs)"
  by (auto simp: links_ok_def)

lemma links_ok_drop: "links_ok bs \<Longrightarrow> links_ok (drop n bs)"
  unfolding links_ok_def
proof (intro allI impI)
  fix i info h
  assume ok: "\<forall>i info h. Suc i < length bs \<longrightarrow> unat (sb_block_no (bs ! Suc i)) = unat (sb_block_no (bs ! i)) + 1 \<longrightarrow>
      wh_parsed (sb_header (bs ! Suc i)) = Some info \<longrightarrow> get_hash (sb_point (bs ! i)) = Some h \<longrightarrow> hi_prev_hash info = Some h"
    and "Suc i < length (drop n bs)" and "unat (sb_block_no (drop n bs ! Suc i)) = unat (sb_block_no (drop n bs ! i)) + 1"
    "wh_parsed (sb_header (drop n bs ! Suc i)) = Some info" "get_hash (sb_point (drop n bs ! i)) = Some h"
  moreover from this have "Suc (n + i) < length bs" by simp
  ultimately show "hi_prev_hash info = Some h" using ok [rule_format, of "n + i" info h] by simp
qed

lemma links_ok_snoc:
  assumes "links_ok bs" and "\<And>info h. bs \<noteq> [] \<Longrightarrow> unat (sb_block_no b) = unat (sb_block_no (last bs)) + 1 \<Longrightarrow>
    wh_parsed (sb_header b) = Some info \<Longrightarrow> get_hash (sb_point (last bs)) = Some h \<Longrightarrow> hi_prev_hash info = Some h"
  shows "links_ok (bs @ [b])"
  unfolding links_ok_def
proof (intro allI impI)
  fix i info h
  assume i: "Suc i < length (bs @ [b])" and a: "unat (sb_block_no ((bs @ [b]) ! Suc i)) = unat (sb_block_no ((bs @ [b]) ! i)) + 1"
    "wh_parsed (sb_header ((bs @ [b]) ! Suc i)) = Some info" "get_hash (sb_point ((bs @ [b]) ! i)) = Some h"
  show "hi_prev_hash info = Some h"
  proof (cases "Suc i = length bs")
    case True
    then have "bs \<noteq> []" by auto
    moreover from this True have "last bs = bs ! i" by (metis diff_Suc_1 last_conv_nth)
    ultimately show ?thesis using assms(2) [of info h] a True by (simp add: nth_append)
  next
    case False
    then have "Suc i < length bs" using i by simp
    then show ?thesis using assms(1) a unfolding links_ok_def by (auto simp: nth_append)
  qed
qed

lemma evict_keeps_inv:
  assumes "sorted_wrt (<) (map sb_block_no (ch_blocks st))" and "distinct (map sb_point (ch_blocks st))"
    and "links_ok (ch_blocks st)" and "ch_blocks st \<noteq> [] \<Longrightarrow> ch_block_no st = sb_block_no (last (ch_blocks st))"
    and "length (ch_orphan_bodies st) \<le> ORPHAN_CACHE_CAP"
  shows "chain_store_inv (evict_over st)"
proof -
  define n where "n = length (ch_blocks st) - ch_capacity st"
  have "length (ch_orphan_bodies (evict_over st)) \<le> ORPHAN_CACHE_CAP"
    using assms(5) by (simp add: evict_over_effect length_pop_front)
  moreover have "length (drop n (ch_blocks st)) \<le> ch_capacity st" by (simp add: n_def)
  ultimately show ?thesis
    using assms(2,4) sorted_wrt_map_drop [OF assms(1), of n] links_ok_drop [OF assms(3), of n]
    unfolding chain_store_inv_def evict_over_effect n_def [symmetric]
    by (cases "ch_blocks st = []") (simp_all add: last_drop flip: drop_map)
qed

lemma append_keeps_inv:
  assumes "chain_store_inv st"
  shows "chain_store_inv (snd (append_block st p header body no))"
proof (cases rule: append_block_cases [of st p header body no])
  case refused
  then show ?thesis using assms by simp
next
  case (appended b)
  have "sorted_wrt (<) (map sb_block_no (ch_blocks st @ [b]))"
    using assms appended(1,4) by (intro append_keeps_order) (auto simp: chain_store_inv_def)
  moreover have "links_ok (ch_blocks st @ [b])"
    using assms appended(1) by (intro links_ok_snoc) (auto simp: chain_store_inv_def intro: appended(5))
  moreover have "distinct (map sb_point (ch_blocks st @ [b]))"
    using assms appended(1,3) by (auto simp: chain_store_inv_def)
  ultimately have "chain_store_inv (evict_over (st\<lparr>ch_block_no := no, ch_blocks := ch_blocks st @ [b]\<rparr>))"
    using assms appended(1) by (intro evict_keeps_inv) (auto simp: chain_store_inv_def)
  then show ?thesis by (simp add: appended(2))
qed

lemma rollback_keeps_inv:
  assumes "chain_store_inv st" and "st' = snd (cs_rollback_to st p) \<or> st' = snd (cs_rollback st depth)"
  shows "chain_store_inv st'"
proof (rule rollback_shape [OF assms(2)])
  fix n
  assume "ch_blocks st' = take n (ch_blocks st)"
    and "ch_orphan_bodies st' = pop_front_while_over ORPHAN_CACHE_CAP (ch_orphan_bodies st @ drop n (ch_blocks st)) \<or>
      n = length (ch_blocks st) \<and> ch_orphan_bodies st' = ch_orphan_bodies st"
    and "ch_capacity st' = ch_capacity st"
    and "ch_blocks st' \<noteq> [] \<Longrightarrow> ch_block_no st' = sb_block_no (last (ch_blocks st'))"
  then show ?thesis
    using assms(1) sorted_wrt_map_take [of "(<)" sb_block_no "ch_blocks st" n] links_ok_take [of "ch_blocks st" n]
      distinct_map_take [of sb_point "ch_blocks st" n]
    by (auto simp: chain_store_inv_def pop_front_while_over_drop)
qed

lemma store_step_inv:
  assumes "store_step st k st'" and "chain_store_inv st"
  shows "chain_store_inv st' \<and> ch_capacity st' = ch_capacity st"
  using assms
proof cases
  case (ss_append p header body no ok sig)
  then show ?thesis
    using append_keeps_inv [OF assms(2), of p header body no]
    by (cases rule: append_block_cases [of st p header body no]) (auto simp: evict_over_effect)
next
  case (ss_rollback_to p)
  have shape: "st' = snd (cs_rollback_to st p) \<or> st' = snd (cs_rollback st 0)" using ss_rollback_to by blast
  have "ch_capacity st' = ch_capacity st" by (rule rollback_shape [OF shape]) blast
  then show ?thesis using rollback_keeps_inv [OF assms(2) shape] by simp
next
  case (ss_rollback depth)
  have shape: "st' = snd (cs_rollback_to st Origin) \<or> st' = snd (cs_rollback st depth)" using ss_rollback by blast
  have "ch_capacity st' = ch_capacity st" by (rule rollback_shape [OF shape]) blast
  then show ?thesis using rollback_keeps_inv [OF assms(2) shape] by simp
qed (use assms in \<open>auto simp: chain_store_inv_def set_anchored_above_genesis_def set_intersection_anchor_def\<close>)

lemma store_run_inv: "store_run st0 n st \<Longrightarrow> chain_store_inv st0 \<Longrightarrow> chain_store_inv st \<and> ch_capacity st = ch_capacity st0"
  by (induction rule: store_run.induct) (auto dest: store_step_inv)

lemma store_reachable_inv: "store_reachable capacity st \<Longrightarrow> chain_store_inv st \<and> ch_capacity st = capacity"
  using store_run_inv [of "chain_store_new capacity"]
  by (auto simp: store_reachable_def chain_store_inv_def chain_store_new_def links_ok_def)

text \<open>Block numbers leave no room: the \<open>i\<close>-th stored block has at least number \<open>i\<close>, and the last exactly \<open>length - 1\<close>
  only if they all do.\<close>

lemma increasing_numbers:
  fixes f :: "'a \<Rightarrow> u64"
  assumes "sorted_wrt (<) (map f xs)" and "i \<le> j" and "j < length xs"
  shows "unat (f (xs ! i)) + (j - i) \<le> unat (f (xs ! j))"
  using assms(2,3)
proof (induction j rule: dec_induct)
  case (step n)
  have "f (xs ! n) < f (xs ! Suc n)" using assms(1) step.prems by (auto simp: sorted_wrt_iff_nth_less)
  then show ?case using step by (simp add: word_less_nat_alt)
qed simp

lemma whole_history_iff:
  assumes "chain_store_inv st" and "ch_blocks st \<noteq> []"
  shows "checked_add (ch_block_no st) 1 = Some (of_nat (length (ch_blocks st))) \<longleftrightarrow>
    length (ch_blocks st) < 2 ^ 64 \<and> (\<forall>i < length (ch_blocks st). unat (sb_block_no (ch_blocks st ! i)) = i)"
proof -
  define bs where "bs = ch_blocks st"
  define n where "n = length bs - 1"
  have len: "length bs = Suc n" and tip: "ch_block_no st = sb_block_no (bs ! n)"
    using assms by (auto simp: n_def bs_def chain_store_inv_def last_conv_nth)
  have sorted: "sorted_wrt (<) (map sb_block_no bs)" using assms by (simp add: chain_store_inv_def bs_def)
  have low: "i + (n - i) \<le> unat (sb_block_no (bs ! i)) + (n - i)" "unat (sb_block_no (bs ! i)) + (n - i) \<le> unat (sb_block_no (bs ! n))"
    if "i \<le> n" for i
    using increasing_numbers [OF sorted, of 0 i] increasing_numbers [OF sorted, of i n] that len by auto
  have "n < 2 ^ 64" using low(1) [of n] unsigned_less [of "sb_block_no (bs ! n)", where ?'a = nat] by simp
  then have "checked_add (ch_block_no st) 1 = Some (of_nat (length bs)) \<longleftrightarrow> Suc n < 2 ^ 64 \<and> unat (sb_block_no (bs ! n)) = n"
  proof -
    define w where "w = sb_block_no (bs ! n)"
    have sum: "unat (w + 1) = unat w + 1" if "unat w + 1 < 2 ^ 64" using that by (simp add: unat_word_ariths)
    have "checked_add w 1 = Some (of_nat (Suc n)) \<longleftrightarrow> unat w + 1 < 2 ^ 64 \<and> unat (w + 1) = unat (of_nat (Suc n) :: u64)"
      by (simp add: checked_add_unat word_unat_eq_iff del: of_nat_Suc)
    moreover have "unat (of_nat (Suc n) :: u64) = (if Suc n < 2 ^ 64 then Suc n else 0)"
    proof (cases "Suc n < 2 ^ 64")
      case False
      then have "Suc n = 2 ^ 64" using \<open>n < 2 ^ 64\<close> by simp
      then show ?thesis by (simp only: unat_of_nat) simp
    qed (simp add: unat_of_nat del: of_nat_Suc)
    ultimately show ?thesis using sum unfolding tip len w_def [symmetric] by auto
  qed
  moreover have "unat (sb_block_no (bs ! n)) = n \<longleftrightarrow> (\<forall>i < Suc n. unat (sb_block_no (bs ! i)) = i)"
  proof
    assume "unat (sb_block_no (bs ! n)) = n"
    then show "\<forall>i < Suc n. unat (sb_block_no (bs ! i)) = i" using low by (force simp: less_Suc_eq_le)
  qed simp
  ultimately show ?thesis by (simp add: bs_def [symmetric] len)
qed

text \<open>C20: every reachable chain store is bounded, holds distinct points with strictly increasing block numbers, each parsed
  header with its number's predecessor stored linking to it, and reports the last block as its tip; at most 512 removed
  bodies are retained; and it takes its history to start at genesis exactly when it was not anchored and its blocks
  are numbered 0, 1, 2, and so on.\<close>

theorem chain_store_invariant:
  assumes "store_reachable capacity st"
  shows "length (ch_blocks st) \<le> capacity \<and> length (ch_orphan_bodies st) \<le> 512 \<and>
    distinct (map sb_point (ch_blocks st)) \<and> sorted_wrt (<) (map sb_block_no (ch_blocks st)) \<and> links_ok (ch_blocks st) \<and>
    (ch_blocks st \<noteq> [] \<longrightarrow> cs_tip st =
       \<lparr>tip_point = sb_point (last (ch_blocks st)), tip_block_no = sb_block_no (last (ch_blocks st))\<rparr>) \<and>
    (roots_at_genesis st \<longleftrightarrow> \<not> ch_anchored_above_genesis st \<and> ch_intersection_anchor st = None \<and>
       length (ch_blocks st) < 2 ^ 64 \<and> (\<forall>i < length (ch_blocks st). unat (sb_block_no (ch_blocks st ! i)) = i))"
proof -
  have inv: "chain_store_inv st" and cap: "ch_capacity st = capacity" using store_reachable_inv [OF assms] by auto
  have "roots_at_genesis st \<longleftrightarrow> \<not> ch_anchored_above_genesis st \<and> ch_intersection_anchor st = None \<and>
       length (ch_blocks st) < 2 ^ 64 \<and> (\<forall>i < length (ch_blocks st). unat (sb_block_no (ch_blocks st ! i)) = i)"
    using whole_history_iff [OF inv] by (cases "ch_blocks st = []") (auto simp: roots_at_genesis_def)
  then show ?thesis using inv cap by (auto simp: chain_store_inv_def cs_tip_def ORPHAN_CACHE_CAP_def)
qed

definition plain_header :: "u8 \<Rightarrow> full_header" where
  "plain_header b = \<lparr>wh_raw = [b], wh_parsed = None\<rparr>"

text \<open>A store of two blocks after three appends of opaque headers.\<close>

definition three_appended :: chain_store where
  "three_appended =
     (let st1 = snd (append_block (chain_store_new 2) (Specific 10 1) (plain_header 1) [1] 0);
          st2 = snd (append_block st1 (Specific 20 2) (plain_header 2) [2] 1)
      in snd (append_block st2 (Specific 30 3) (plain_header 3) [3] 2))"

lemma reachable_append: "store_reachable c st \<Longrightarrow> store_reachable c (snd (append_block st p header body no))"
proof -
  obtain ok sig st' where "append_block st p header body no = ((ok, sig), st')" by (metis prod.collapse)
  then show "store_reachable c st \<Longrightarrow> store_reachable c (snd (append_block st p header body no))"
    unfolding store_reachable_def using sr_step [OF _ ss_append] by fastforce
qed

lemma store_reachable_new: "store_reachable c (chain_store_new c)"
  unfolding store_reachable_def by (blast intro: sr_start)

lemma three_appended_reachable: "store_reachable 2 three_appended"
  unfolding three_appended_def Let_def by (intro reachable_append store_reachable_new)

lemma three_appended_blocks: "map sb_point (ch_blocks three_appended) = [Specific 20 2, Specific 30 3]"
  "map sb_block_no (ch_blocks three_appended) = [1, 2]"
  by code_simp+

theorem chain_store_invariant_witness:
  "\<not> roots_at_genesis three_appended \<and> sorted_wrt (<) (map sb_block_no (ch_blocks three_appended))"
proof -
  have "length (ch_blocks three_appended) = 2" "sb_block_no (ch_blocks three_appended ! 0) = 1" by code_simp+
  then show ?thesis using chain_store_invariant [OF three_appended_reachable] by (auto dest!: spec [of _ 0])
qed

subsection \<open>Retained bodies\<close>

text \<open>A block among the last \<open>n\<close> retained ones.\<close>

definition retained_within :: "nat \<Rightarrow> stored_block list \<Rightarrow> stored_block \<Rightarrow> bool" where
  "retained_within n orphans b \<longleftrightarrow> (\<exists>us vs. orphans = us @ b # vs \<and> length vs < n)"

lemma retained_push:
  assumes "retained_within n orphans b" and "n + length removed \<le> c"
  shows "retained_within (n + length removed) (pop_front_while_over c (orphans @ removed)) b"
proof -
  obtain us vs where o: "orphans = us @ b # vs" "length vs < n" using assms(1) by (auto simp: retained_within_def)
  define d where "d = length (orphans @ removed) - c"
  have "d \<le> length us" using assms(2) o by (simp add: d_def)
  then have "drop d (orphans @ removed) = drop d us @ b # (vs @ removed)" by (simp add: o)
  then have "pop_front_while_over c (orphans @ removed) = drop d us @ b # (vs @ removed)"
    by (simp only: pop_front_while_over_drop d_def)
  then show ?thesis
    using o(2) unfolding retained_within_def by (intro exI [of _ "drop d us"] exI [of _ "vs @ removed"]) simp
qed

lemma retained_new:
  assumes "b \<in> set removed" and "length removed \<le> c"
  shows "retained_within (n + length removed) (pop_front_while_over c (orphans @ removed)) b"
proof -
  obtain us vs where r: "removed = us @ b # vs" using assms(1) by (meson split_list)
  define d where "d = length (orphans @ removed) - c"
  have "d \<le> length (orphans @ us)" using assms(2) r by (simp add: d_def)
  then have "drop d (orphans @ removed) = drop d (orphans @ us) @ b # vs" by (simp add: r)
  then have "pop_front_while_over c (orphans @ removed) = drop d (orphans @ us) @ b # vs"
    by (simp only: pop_front_while_over_drop d_def)
  then show ?thesis
    unfolding retained_within_def by (intro exI [of _ "drop d (orphans @ us)"] exI [of _ vs]) (simp add: r)
qed

definition still_held :: "nat \<Rightarrow> chain_store \<Rightarrow> stored_block \<Rightarrow> bool" where
  "still_held n st b \<longleftrightarrow> b \<in> set (ch_blocks st) \<or> retained_within n (ch_orphan_bodies st) b"

lemma held_after_cut:
  assumes "still_held n st b" and "n + k \<le> ORPHAN_CACHE_CAP"
    and "set (ch_blocks st) \<subseteq> set removed \<union> set (ch_blocks st')" and "length removed = k"
    and "ch_orphan_bodies st' = pop_front_while_over ORPHAN_CACHE_CAP (ch_orphan_bodies st @ removed) \<or>
      removed = [] \<and> ch_orphan_bodies st' = ch_orphan_bodies st"
  shows "still_held (n + k) st' b"
proof (cases "b \<in> set (ch_blocks st')")
  case False
  then have "retained_within n (ch_orphan_bodies st) b \<or> b \<in> set removed" using assms(1,3) by (auto simp: still_held_def)
  then have "retained_within (n + k) (ch_orphan_bodies st') b"
    using assms(2,4,5) retained_push [of n "ch_orphan_bodies st" b removed ORPHAN_CACHE_CAP]
      retained_new [of b removed ORPHAN_CACHE_CAP n "ch_orphan_bodies st"] by auto
  then show ?thesis by (simp add: still_held_def)
qed (simp add: still_held_def)

lemma step_holds:
  assumes "store_step st k st'" and "still_held n st b" and "n + k \<le> ORPHAN_CACHE_CAP"
  shows "still_held (n + k) st' b"
proof -
  have cut: "still_held (n + (length (ch_blocks st) - length (ch_blocks st'))) st' b"
    if shape: "st' = snd (cs_rollback_to st p) \<or> st' = snd (cs_rollback st depth)"
      and k: "n + (length (ch_blocks st) - length (ch_blocks st')) \<le> ORPHAN_CACHE_CAP" for p depth
  proof (rule rollback_shape [OF shape])
    fix i
    assume i: "ch_blocks st' = take i (ch_blocks st)"
      "ch_orphan_bodies st' = pop_front_while_over ORPHAN_CACHE_CAP (ch_orphan_bodies st @ drop i (ch_blocks st)) \<or>
        i = length (ch_blocks st) \<and> ch_orphan_bodies st' = ch_orphan_bodies st"
    have "set (ch_blocks st) = set (drop i (ch_blocks st)) \<union> set (take i (ch_blocks st))"
      using append_take_drop_id [of i "ch_blocks st"] by (metis Un_commute set_append)
    then show ?thesis using i by (intro held_after_cut [OF assms(2) k, of "drop i (ch_blocks st)"]) auto
  qed
  from assms(1) show ?thesis
  proof cases
    case (ss_append p header body no ok sig)
    show ?thesis
    proof (cases rule: append_block_cases [of st p header body no])
      case refused
      then show ?thesis using ss_append assms by simp
    next
      case (appended c)
      define bs where "bs = ch_blocks st @ [c]"
      define d where "d = length bs - ch_capacity st"
      have st': "st' = evict_over (st\<lparr>ch_block_no := no, ch_blocks := bs\<rparr>)" and ok
        using ss_append(2) appended(2) by (auto simp: bs_def)
      have blocks: "ch_blocks st' = drop d bs" by (simp add: st' evict_over_effect d_def)
      have "length bs = length (ch_blocks st) + of_bool ok" using \<open>ok\<close> by (simp add: bs_def)
      then have "k = length bs - (length bs - d)" using ss_append(1) blocks by simp
      then have k: "k = length (take d bs)" by (simp add: min_def)
      have "set bs = set (take d bs) \<union> set (drop d bs)" by (metis append_take_drop_id set_append)
      then show ?thesis
        using k by (intro held_after_cut [OF assms(2,3), of "take d bs"]) (auto simp: blocks bs_def st' evict_over_effect d_def)
    qed
  next
    case (ss_rollback_to p)
    then show ?thesis using cut [of p 0] assms(3) by simp
  next
    case (ss_rollback depth)
    then show ?thesis using cut [of Origin depth] assms(3) by simp
  qed (use assms(2) in \<open>auto simp: still_held_def set_anchored_above_genesis_def set_intersection_anchor_def\<close>)
qed

lemma run_holds:
  "store_run st n st' \<Longrightarrow> n \<le> ORPHAN_CACHE_CAP \<Longrightarrow> b \<in> set (ch_blocks st) \<Longrightarrow> still_held n st' b"
proof (induction rule: store_run.induct)
  case (sr_step n st1 k st')
  then show ?case using step_holds by simp
qed (simp add: still_held_def)

end
