(* ===== verification/Chain_Server.thy ===== *)
theory Chain_Server
  imports Chain_Store Node_Protocols
begin

text \<open>
  The chain side of \<open>net-rs/net-core/src/peer/server_handlers.rs\<close>: the ChainSync and BlockFetch responders over the
  chain store, with the per-peer outbound controls (\<open>OutboundControl\<close> of \<open>behaviour/tree/control.rs\<close>, the variant store
  of \<open>behaviour/tree/variants.rs\<close>), and the KeepAlive and PeerSharing responders.

  \<^item> A handler is a task that blocks on its peer and on the store's watch channel. Here it is a state machine: its
    phase says what it waits for, and there is one operation per thing that can happen (a message, a wake-up by the
    store, the end of the parking deadline, the store being dropped).
  \<^item> The keyed Blake2b of \<open>equivocation_bucket\<close> and the parse of a raw header into its point are parameters.
  \<^item> A reply is the list of messages sent; a message dropped by the controls is missing from it.
\<close>

subsection \<open>Outbound controls\<close>

record rb_variant =
  rv_hash :: hash32
  rv_header :: "u8 list"
  rv_body :: "u8 list"

type_synonym equivocation_variants = "(u64, rb_variant list) omap"

definition ev_record :: "equivocation_variants \<Rightarrow> u64 \<Rightarrow> rb_variant list \<Rightarrow> equivocation_variants" where
  "ev_record vs slot variants = oput slot variants vs"

definition variant_for :: "equivocation_variants \<Rightarrow> u64 \<Rightarrow> nat \<Rightarrow> rb_variant option" where
  "variant_for vs slot bucket =
     (case oget vs slot of
        None \<Rightarrow> None
      | Some variants \<Rightarrow> if bucket < length variants then Some (variants ! bucket) else None)"

definition body_for :: "equivocation_variants \<Rightarrow> u64 \<Rightarrow> hash32 \<Rightarrow> u8 list option" where
  "body_for vs slot hash =
     (case oget vs slot of
        None \<Rightarrow> None
      | Some variants \<Rightarrow> map_option rv_body (find (\<lambda>v. rv_hash v = hash) variants))"

definition ways_at :: "equivocation_variants \<Rightarrow> u64 \<Rightarrow> nat" where
  "ways_at vs slot = (case oget vs slot of None \<Rightarrow> 0 | Some variants \<Rightarrow> length variants)"

definition ev_prune_below :: "equivocation_variants \<Rightarrow> u64 \<Rightarrow> equivocation_variants" where
  "ev_prune_below vs slot = oretain (\<lambda>s _. slot \<le> s) vs"

datatype outbound_control = OutboundNone | EquivocateRouting u64 u8 u64 | DropTo "peer_id set"

record outbound_controls =
  oc_outbound :: outbound_control
  oc_variants :: equivocation_variants

record server_ext =
  sx_blake8 :: "u64 \<Rightarrow> peer_id \<Rightarrow> u64"
  sx_header_point :: "u8 list \<Rightarrow> point option"

definition equivocation_bucket :: "server_ext \<Rightarrow> u64 \<Rightarrow> u8 \<Rightarrow> peer_id \<Rightarrow> nat" where
  "equivocation_bucket ext seed ways peer = unat (sx_blake8 ext seed peer) mod unat (max ways 2)"

definition send_roll_forward ::
  "server_ext \<Rightarrow> full_header \<Rightarrow> point \<Rightarrow> tip \<Rightarrow> peer_id \<Rightarrow> outbound_controls option \<Rightarrow> cs_message list" where
  "send_roll_forward ext header block_point tp peer controls =
     (let honest = [CS_MsgRollForward (wh_raw header) tp]
      in case controls of
           None \<Rightarrow> honest
         | Some c \<Rightarrow>
             let slot = (case block_point of Specific s _ \<Rightarrow> s | Origin \<Rightarrow> 0)
             in case oc_outbound c of
                  EquivocateRouting eslot ways seed \<Rightarrow>
                    if eslot \<noteq> slot then honest
                    else (case variant_for (oc_variants c) eslot (equivocation_bucket ext seed ways peer) of
                            None \<Rightarrow> honest
                          | Some v \<Rightarrow>
                              if rv_header v = wh_raw header then honest
                              else [CS_MsgRollForward (rv_header v)
                                      (case sx_header_point ext (rv_header v) of
                                         Some p \<Rightarrow> \<lparr>tip_point = p, tip_block_no = tip_block_no tp\<rparr>
                                       | None \<Rightarrow> tp)])
                | DropTo peers \<Rightarrow> if peer \<in> peers then [] else honest
                | OutboundNone \<Rightarrow> honest)"

subsection \<open>Downstream promotion\<close>

datatype downstream_state = Cold | Warm | Hot

definition downstream_from_u8 :: "u8 \<Rightarrow> downstream_state" where
  "downstream_from_u8 v = (if v = 0 then Cold else if v = 1 then Warm else Hot)"

definition mark_downstream_warm :: "u8 \<Rightarrow> u8" where "mark_downstream_warm f = max f 1"

definition mark_downstream_hot :: "u8 \<Rightarrow> u8" where "mark_downstream_hot f = max f 2"

subsection \<open>ChainSync\<close>

datatype cs_phase = CsIdle | CsParked "point list" | CsAwaiting | CsClosed

record cs_server =
  csv_read_point :: "point option"
  csv_phase :: cs_phase
  csv_downstream :: u8

definition cs_server_new :: "u8 \<Rightarrow> cs_server" where
  "cs_server_new downstream = \<lparr>csv_read_point = None, csv_phase = CsIdle, csv_downstream = downstream\<rparr>"

definition cs_answer_intersect :: "chain_store \<Rightarrow> point list \<Rightarrow> cs_server \<Rightarrow> cs_message list \<times> cs_server" where
  "cs_answer_intersect store points srv =
     (case find_intersection store points of
        Some (p, tp) \<Rightarrow> ([CS_MsgIntersectFound p tp], srv\<lparr>csv_read_point := Some p, csv_phase := CsIdle\<rparr>)
      | None \<Rightarrow> ([CS_MsgIntersectNotFound (cs_tip store)], srv\<lparr>csv_phase := CsIdle\<rparr>))"

text \<open>Resolve the cursor and reply; \<open>None\<close> when there is nothing past it yet.\<close>

definition cs_resolve ::
  "server_ext \<Rightarrow> peer_id \<Rightarrow> outbound_controls option \<Rightarrow> chain_store \<Rightarrow> cs_server \<Rightarrow> (cs_message list \<times> cs_server) option" where
  "cs_resolve ext peer controls store srv =
     (case next_after_cursor store (csv_read_point srv) of
        Gone \<Rightarrow>
          let target = servable_rollback_target store
          in Some ([CS_MsgRollBackward target (cs_tip store)], srv\<lparr>csv_read_point := Some target, csv_phase := CsIdle\<rparr>)
      | NextBlock b \<Rightarrow>
          Some (send_roll_forward ext (sb_header b) (sb_point b) (cs_tip store) peer controls,
                srv\<lparr>csv_read_point := Some (sb_point b), csv_phase := CsIdle\<rparr>)
      | AtTip \<Rightarrow> None)"

text \<open>A message arrives while the handler reads from its peer.\<close>

definition cs_on_message ::
  "server_ext \<Rightarrow> peer_id \<Rightarrow> outbound_controls option \<Rightarrow> chain_store \<Rightarrow> cs_server \<Rightarrow> cs_message \<Rightarrow> cs_message list \<times> cs_server" where
  "cs_on_message ext peer controls store srv msg =
     (case msg of
        CS_MsgFindIntersect points \<Rightarrow>
          let srv1 = srv\<lparr>csv_downstream := mark_downstream_hot (csv_downstream srv)\<rparr>
          in if is_seeded store then cs_answer_intersect store points srv1
             else ([], srv1\<lparr>csv_phase := CsParked points\<rparr>)
      | CS_MsgRequestNext \<Rightarrow>
          (case cs_resolve ext peer controls store srv of
             Some reply \<Rightarrow> reply
           | None \<Rightarrow> ([CS_MsgAwaitReply], srv\<lparr>csv_phase := CsAwaiting\<rparr>))
      | _ \<Rightarrow> ([], srv\<lparr>csv_phase := CsClosed\<rparr>))"

text \<open>The watch channel of the store signals a change.\<close>

definition cs_on_change ::
  "server_ext \<Rightarrow> peer_id \<Rightarrow> outbound_controls option \<Rightarrow> chain_store \<Rightarrow> cs_server \<Rightarrow> cs_message list \<times> cs_server" where
  "cs_on_change ext peer controls store srv =
     (case csv_phase srv of
        CsParked points \<Rightarrow> if is_seeded store then cs_answer_intersect store points srv else ([], srv)
      | CsAwaiting \<Rightarrow>
          (case cs_resolve ext peer controls store srv of Some reply \<Rightarrow> reply | None \<Rightarrow> ([], srv))
      | _ \<Rightarrow> ([], srv))"

text \<open>\<open>PARK_UNSEEDED_INTERSECT_MAX\<close> has passed.\<close>

definition cs_on_deadline :: "chain_store \<Rightarrow> cs_server \<Rightarrow> cs_message list \<times> cs_server" where
  "cs_on_deadline store srv =
     (case csv_phase srv of CsParked points \<Rightarrow> cs_answer_intersect store points srv | _ \<Rightarrow> ([], srv))"

definition cs_on_store_dropped :: "cs_server \<Rightarrow> cs_server" where
  "cs_on_store_dropped srv =
     (case csv_phase srv of CsIdle \<Rightarrow> srv | _ \<Rightarrow> srv\<lparr>csv_phase := CsClosed\<rparr>)"

subsection \<open>BlockFetch\<close>

definition lookup_variant_body :: "outbound_controls option \<Rightarrow> point \<Rightarrow> point \<Rightarrow> u8 list option" where
  "lookup_variant_body controls p_from p_to =
     (if p_from \<noteq> p_to then None
      else case p_from of
             Origin \<Rightarrow> None
           | Specific slot hash \<Rightarrow>
               (case controls of None \<Rightarrow> None | Some c \<Rightarrow> body_for (oc_variants c) slot hash))"

definition batch_of :: "u8 list list \<Rightarrow> bf_message list" where
  "batch_of bodies = BF_MsgStartBatch # map BF_MsgBlock bodies @ [BF_MsgBatchDone]"

text \<open>One message of \<open>serve_blockfetch\<close>: the replies, the promotion flag, and whether the handler goes on.\<close>

definition serve_blockfetch ::
  "outbound_controls option \<Rightarrow> chain_store \<Rightarrow> u8 \<Rightarrow> bf_message \<Rightarrow> bf_message list \<times> u8 \<times> bool" where
  "serve_blockfetch controls store downstream msg =
     (case msg of
        BF_MsgRequestRange p_from p_to \<Rightarrow>
          let live = get_range store p_from p_to;
              blocks = (if live = [] then get_orphans store p_from p_to else live)
          in (if blocks \<noteq> [] then batch_of (map sb_body blocks)
              else case lookup_variant_body controls p_from p_to of
                     Some body \<Rightarrow> batch_of [body]
                   | None \<Rightarrow> [BF_MsgNoBlocks],
              mark_downstream_hot downstream, True)
      | _ \<Rightarrow> ([], downstream, False))"

subsection \<open>KeepAlive and PeerSharing\<close>

datatype ka_exit = KaSendError | KaClientDone | KaUnexpected | KaRecvError

text \<open>One round of \<open>serve_keepalive\<close> on what was received (\<open>None\<close>: the receive failed): the count of rounds goes up, the
  first one marks the peer warm. The first receive has no deadline.\<close>

definition serve_keepalive ::
  "nat \<Rightarrow> u8 \<Rightarrow> ka_message option \<Rightarrow> bool \<Rightarrow> ka_message list \<times> nat \<times> u8 \<times> ka_exit option" where
  "serve_keepalive count downstream msg send_ok =
     (case msg of
        Some (KA_MsgKeepAlive cookie) \<Rightarrow>
          let count1 = count + 1;
              downstream1 = (if count1 = 1 then mark_downstream_warm downstream else downstream)
          in if send_ok then ([KA_MsgKeepAliveResponse cookie], count1, downstream1, None)
             else ([], count1, downstream1, Some KaSendError)
      | Some KA_MsgDone \<Rightarrow> ([], count, downstream, Some KaClientDone)
      | Some _ \<Rightarrow> ([], count, downstream, Some KaUnexpected)
      | None \<Rightarrow> ([], count, downstream, Some KaRecvError))"

definition keepalive_timed :: "nat \<Rightarrow> bool" where
  "keepalive_timed count \<longleftrightarrow> count \<noteq> 0"

definition serve_peersharing :: "(u8 \<Rightarrow> peer_address list) \<Rightarrow> ps_message \<Rightarrow> ps_message list \<times> bool" where
  "serve_peersharing peer_provider msg =
     (case msg of
        PS_MsgShareRequest amount \<Rightarrow> ([PS_MsgSharePeers (peer_provider amount)], True)
      | _ \<Rightarrow> ([], False))"

subsection \<open>A follower's chain stays linked\<close>

text \<open>
  What the store is fed: \<open>par\<close> gives the parent of a point, \<open>point_of\<close> the point of a raw header. A block is appended on
  the live tip (its parent, one number higher), a block with number 0 has no parent, a parsed header names its
  parent's hash, and no other parent has the hash of a recorded anchor.
\<close>

definition linked_append :: "(point \<Rightarrow> point) \<Rightarrow> (u8 list \<Rightarrow> point) \<Rightarrow> chain_store \<Rightarrow> point \<Rightarrow> full_header \<Rightarrow> u64 \<Rightarrow> bool" where
  "linked_append par point_of st p header no \<longleftrightarrow> p \<noteq> Origin \<and> point_of (wh_raw header) = p \<and>
     (case wh_parsed header of Some info \<Rightarrow> hi_prev_hash info = get_hash (par p) | None \<Rightarrow> True) \<and>
     (if ch_blocks st = [] then no = 0 \<longrightarrow> par p = Origin
      else par p = sb_point (last (ch_blocks st)) \<and> unat no = unat (sb_block_no (last (ch_blocks st))) + 1)"

definition unique_hash :: "(point \<Rightarrow> point) \<Rightarrow> point \<Rightarrow> bool" where
  "unique_hash par q \<longleftrightarrow> (\<forall>p. get_hash (par p) = get_hash q \<longrightarrow> par p = q)"

inductive linked_step :: "(point \<Rightarrow> point) \<Rightarrow> (u8 list \<Rightarrow> point) \<Rightarrow> chain_store \<Rightarrow> chain_store \<Rightarrow> bool" for par point_of where
  ls_anchored: "linked_step par point_of st (snd (set_anchored_above_genesis st anchored))"
| ls_anchor: "unique_hash par p \<Longrightarrow> linked_step par point_of st (snd (set_intersection_anchor st p no))"
| ls_append: "linked_append par point_of st p header no \<Longrightarrow> linked_step par point_of st (snd (append_block st p header body no))"
| ls_rollback_to: "linked_step par point_of st (snd (cs_rollback_to st p))"
| ls_rollback: "linked_step par point_of st (snd (cs_rollback st depth))"

text \<open>A session: the store moves on its own; the handler reacts to messages, changes and the deadline; the log holds what
  it sent.\<close>

inductive cs_session ::
  "server_ext \<Rightarrow> peer_id \<Rightarrow> (point \<Rightarrow> point) \<Rightarrow> (u8 list \<Rightarrow> point) \<Rightarrow> nat \<Rightarrow> chain_store \<Rightarrow> cs_server \<Rightarrow> cs_message list \<Rightarrow> bool"
  for ext peer par point_of cap where
  se_start: "cs_session ext peer par point_of cap (chain_store_new cap) (cs_server_new flag) []"
| se_store: "cs_session ext peer par point_of cap st srv log \<Longrightarrow> linked_step par point_of st st' \<Longrightarrow>
     cs_session ext peer par point_of cap st' srv log"
| se_message: "cs_session ext peer par point_of cap st srv log \<Longrightarrow> csv_phase srv = CsIdle \<Longrightarrow>
     cs_on_message ext peer None st srv msg = (out, srv') \<Longrightarrow> cs_session ext peer par point_of cap st srv' (log @ out)"
| se_change: "cs_session ext peer par point_of cap st srv log \<Longrightarrow> cs_on_change ext peer None st srv = (out, srv') \<Longrightarrow>
     cs_session ext peer par point_of cap st srv' (log @ out)"
| se_deadline: "cs_session ext peer par point_of cap st srv log \<Longrightarrow> cs_on_deadline st srv = (out, srv') \<Longrightarrow>
     cs_session ext peer par point_of cap st srv' (log @ out)"

text \<open>What a follower makes of the log: its position after each message, and whether every header extends it.\<close>

fun follow :: "(point \<Rightarrow> point) \<Rightarrow> (u8 list \<Rightarrow> point) \<Rightarrow> point \<Rightarrow> cs_message list \<Rightarrow> bool \<times> point" where
  "follow par point_of c [] = (True, c)"
| "follow par point_of c (CS_MsgRollForward raw tp # ms) =
     (let (ok, c') = follow par point_of (point_of raw) ms in (par (point_of raw) = c \<and> ok, c'))"
| "follow par point_of c (CS_MsgRollBackward p tp # ms) = follow par point_of p ms"
| "follow par point_of c (CS_MsgIntersectFound p tp # ms) = follow par point_of p ms"
| "follow par point_of c (_ # ms) = follow par point_of c ms"

lemma follow_append:
  "follow par point_of c (xs @ ys) =
     (let (ok, c') = follow par point_of c xs; (ok', c'') = follow par point_of c' ys in (ok \<and> ok', c''))"
  by (induction par point_of c xs rule: follow.induct) (auto simp: Let_def case_prod_unfold)

definition linked_block :: "(point \<Rightarrow> point) \<Rightarrow> (u8 list \<Rightarrow> point) \<Rightarrow> stored_block \<Rightarrow> bool" where
  "linked_block par point_of b \<longleftrightarrow> sb_point b \<noteq> Origin \<and> point_of (wh_raw (sb_header b)) = sb_point b \<and>
     (sb_block_no b = 0 \<longrightarrow> par (sb_point b) = Origin) \<and>
     (case wh_parsed (sb_header b) of Some info \<Rightarrow> hi_prev_hash info = get_hash (par (sb_point b)) | None \<Rightarrow> True)"

definition linked_blocks :: "(point \<Rightarrow> point) \<Rightarrow> (u8 list \<Rightarrow> point) \<Rightarrow> stored_block list \<Rightarrow> bool" where
  "linked_blocks par point_of bs \<longleftrightarrow> list_all (linked_block par point_of) bs \<and>
     (\<forall>i. Suc i < length bs \<longrightarrow> par (sb_point (bs ! Suc i)) = sb_point (bs ! i))"

definition linked_inv :: "(point \<Rightarrow> point) \<Rightarrow> (u8 list \<Rightarrow> point) \<Rightarrow> chain_store \<Rightarrow> bool" where
  "linked_inv par point_of st \<longleftrightarrow> chain_store_inv st \<and> linked_blocks par point_of (ch_blocks st) \<and>
     (case ch_intersection_anchor st of Some a \<Rightarrow> unique_hash par (tip_point a) | None \<Rightarrow> True)"

lemma linked_blocks_take: "linked_blocks par point_of bs \<Longrightarrow> linked_blocks par point_of (take n bs)"
  by (auto simp: linked_blocks_def list_all_iff dest: in_set_takeD)

lemma linked_blocks_drop: "linked_blocks par point_of bs \<Longrightarrow> linked_blocks par point_of (drop n bs)"
  by (auto simp: linked_blocks_def list_all_iff dest: in_set_dropD)

lemma linked_blocks_snoc:
  assumes "linked_blocks par point_of bs" and "linked_block par point_of b" and "bs \<noteq> [] \<Longrightarrow> par (sb_point b) = sb_point (last bs)"
  shows "linked_blocks par point_of (bs @ [b])"
proof -
  have "par (sb_point ((bs @ [b]) ! Suc i)) = sb_point ((bs @ [b]) ! i)" if i: "Suc i < length (bs @ [b])" for i
  proof (cases "Suc i = length bs")
    case True
    then have "bs \<noteq> []" by auto
    moreover from this True have "last bs = bs ! i" by (metis diff_Suc_1 last_conv_nth)
    ultimately show ?thesis using assms(3) True by (simp add: nth_append)
  next
    case False
    then show ?thesis using i assms(1) by (simp add: linked_blocks_def nth_append)
  qed
  then show ?thesis using assms(1,2) by (simp add: linked_blocks_def)
qed

lemma rollback_anchor:
  assumes "st' = snd (cs_rollback_to st p) \<or> st' = snd (cs_rollback st depth)"
  shows "ch_intersection_anchor st' = ch_intersection_anchor st \<or> ch_intersection_anchor st' = None"
  using assms
proof
  assume "st' = snd (cs_rollback_to st p)"
  then show ?thesis by (cases rule: rollback_to_cases [of st p]) (simp_all add: settle_tip_def Let_def truncate_to_fields)
qed (simp add: cs_rollback_def settle_tip_def Let_def truncate_to_fields)

lemma linked_inv_rollback:
  assumes "linked_inv par point_of st" and shape: "st' = snd (cs_rollback_to st p) \<or> st' = snd (cs_rollback st depth)"
  shows "linked_inv par point_of st'"
proof -
  obtain n where "ch_blocks st' = take n (ch_blocks st)" by (rule rollback_shape [OF shape])
  then show ?thesis
    using assms(1) rollback_keeps_inv [OF _ shape] rollback_anchor [OF shape] linked_blocks_take
    by (auto simp: linked_inv_def split: option.splits)
qed

lemma linked_inv_append:
  assumes inv: "linked_inv par point_of st" and "linked_append par point_of st p header no"
  shows "linked_inv par point_of (snd (append_block st p header body no))"
proof (cases rule: append_block_cases [of st p header body no])
  case (appended b)
  have "linked_blocks par point_of (ch_blocks st @ [b])"
    using assms appended(1,4) by (intro linked_blocks_snoc)
      (auto simp: linked_inv_def linked_append_def linked_block_def split: if_splits option.splits)
  then have "linked_blocks par point_of (drop n (ch_blocks st @ [b]))" for n by (rule linked_blocks_drop)
  then show ?thesis
    using append_keeps_inv [of st p header body no] inv appended(2)
    by (simp add: linked_inv_def evict_over_effect del: drop_append)
qed (use inv in simp)

lemma linked_step_inv: "linked_step par point_of st st' \<Longrightarrow> linked_inv par point_of st \<Longrightarrow> linked_inv par point_of st'"
proof (induction rule: linked_step.induct)
  case ls_append
  then show ?case using linked_inv_append by blast
next
  case ls_rollback_to
  then show ?case using linked_inv_rollback by blast
next
  case ls_rollback
  then show ?case using linked_inv_rollback by blast
qed (auto simp: linked_inv_def chain_store_inv_def set_anchored_above_genesis_def set_intersection_anchor_def)

text \<open>The block after a cursor is a child of the cursor.\<close>

lemma next_is_child:
  assumes inv: "linked_inv par point_of st" and nxt: "next_after_cursor st rp = NextBlock b"
  shows "b \<in> set (ch_blocks st) \<and> par (sb_point b) = (case rp of Some p \<Rightarrow> p | None \<Rightarrow> Origin)"
proof -
  define bs where "bs = ch_blocks st"
  have blocks: "linked_blocks par point_of bs" and cinv: "chain_store_inv st" using inv by (simp_all add: linked_inv_def bs_def)
  have first: "par (sb_point (bs ! 0)) = Origin" if "roots_at_genesis st" "bs \<noteq> []"
  proof -
    have "unat (sb_block_no (bs ! 0)) = 0"
      using that whole_history_iff [OF cinv] by (auto simp: roots_at_genesis_def bs_def)
    then have "sb_block_no (bs ! 0) = 0" by (simp add: unat_eq_zero)
    then show ?thesis using blocks that(2) by (auto simp: linked_blocks_def linked_block_def list_all_length)
  qed
  have anchor: "par (sb_point (bs ! 0)) = tip_point a" if a: "servable_anchor st = Some a" "bs \<noteq> []" for a
  proof -
    obtain f fs where bs: "bs = f # fs" using a(2) by (cases bs) auto
    have an: "ch_intersection_anchor st = Some a" using a(1) by (auto simp: servable_anchor_def split: option.splits point.splits list.splits if_splits)
    then obtain s h where p: "tip_point a = Specific s h" using a(1) by (cases "tip_point a") (auto simp: servable_anchor_def)
    obtain info where info: "wh_parsed (sb_header f) = Some info" "hi_prev_hash info = Some h"
      using a(1) an p bs by (auto simp: servable_anchor_def bs_def split: option.splits if_splits)
    have "hi_prev_hash info = get_hash (par (sb_point f))"
      using blocks info(1) by (simp add: bs linked_blocks_def linked_block_def)
    then have "get_hash (par (sb_point f)) = get_hash (tip_point a)" using info(2) p by simp
    then show ?thesis using inv an by (simp add: linked_inv_def unique_hash_def bs)
  qed
  define at_anchor where "at_anchor = (case servable_anchor st of Some a \<Rightarrow> rp = Some (tip_point a) | None \<Rightarrow> False)"
  have child: "par (sb_point (bs ! 0)) = (case rp of Some p \<Rightarrow> p | None \<Rightarrow> Origin)"
    if "bs \<noteq> []" "at_anchor \<or> roots_at_genesis st \<and> (rp = None \<or> rp = Some Origin)"
    using that first anchor by (auto simp: at_anchor_def split: option.splits)
  consider (front) "b = bs ! 0" "bs \<noteq> []" "at_anchor \<or> roots_at_genesis st \<and> (rp = None \<or> rp = Some Origin)"
    | (after) p i where "rp = Some p" "position (\<lambda>b. sb_point b = p) bs = Some i" "Suc i < length bs" "b = bs ! Suc i"
    using nxt unfolding next_after_cursor_def Let_def at_anchor_def [symmetric] bs_def [symmetric]
    by (auto split: option.splits if_splits)
  then show ?thesis
  proof cases
    case front
    then show ?thesis using child by (simp add: bs_def [symmetric])
  next
    case after
    then show ?thesis using blocks by (simp add: position_Some linked_blocks_def bs_def [symmetric])
  qed
qed

lemma cursor_follows:
  assumes "cs_resolve ext peer None st srv = Some (out, srv')" and "linked_inv par point_of st"
    and "follow par point_of Origin log = (True, case csv_read_point srv of Some p \<Rightarrow> p | None \<Rightarrow> Origin)"
  shows "follow par point_of Origin (log @ out) = (True, case csv_read_point srv' of Some p \<Rightarrow> p | None \<Rightarrow> Origin)"
proof (cases "next_after_cursor st (csv_read_point srv)")
  case (NextBlock b)
  have "point_of (wh_raw (sb_header b)) = sb_point b"
    using next_is_child [OF assms(2) NextBlock] assms(2)
    by (auto simp: linked_inv_def linked_blocks_def linked_block_def list_all_iff)
  then show ?thesis
    using next_is_child [OF assms(2) NextBlock] assms(1,3) NextBlock
    by (auto simp: cs_resolve_def follow_append send_roll_forward_def)
qed (use assms in \<open>auto simp: cs_resolve_def follow_append Let_def\<close>)

lemma intersect_follows:
  assumes "cs_answer_intersect st points srv = (out, srv')"
    and "follow par point_of Origin log = (True, case csv_read_point srv of Some p \<Rightarrow> p | None \<Rightarrow> Origin)"
  shows "follow par point_of Origin (log @ out) = (True, case csv_read_point srv' of Some p \<Rightarrow> p | None \<Rightarrow> Origin)"
  using assms by (auto simp: cs_answer_intersect_def follow_append split: option.splits)


subsection \<open>Scripts\<close>

text \<open>A session given as a script, so that it can be computed. Point \<open>n\<close> has slot and hash \<open>n\<close>; a header is that one byte.\<close>

datatype script_op = OpAppend u8 u64 | OpRollbackTo point | OpMessage cs_message | OpChange

definition sp :: "u8 \<Rightarrow> point" where
  "sp n = Specific (ucast n) (ucast n)"

definition script_point :: "u8 list \<Rightarrow> point" where
  "script_point raw = (case raw of [n] \<Rightarrow> sp n | _ \<Rightarrow> Origin)"

fun script :: "server_ext \<Rightarrow> (point \<Rightarrow> point) \<Rightarrow> script_op list \<Rightarrow> chain_store \<times> cs_server \<times> cs_message list
    \<Rightarrow> (chain_store \<times> cs_server \<times> cs_message list) option" where
  "script ext par [] s = Some s"
| "script ext par (OpAppend n no # ops) (st, srv, log) =
     (if linked_append par script_point st (sp n) (plain_header n) no
      then script ext par ops (snd (append_block st (sp n) (plain_header n) [n] no), srv, log) else None)"
| "script ext par (OpRollbackTo p # ops) (st, srv, log) = script ext par ops (snd (cs_rollback_to st p), srv, log)"
| "script ext par (OpMessage msg # ops) (st, srv, log) =
     (if csv_phase srv = CsIdle
      then let (out, srv') = cs_on_message ext 0 None st srv msg in script ext par ops (st, srv', log @ out) else None)"
| "script ext par (OpChange # ops) (st, srv, log) =
     (let (out, srv') = cs_on_change ext 0 None st srv in script ext par ops (st, srv', log @ out))"

lemma script_session:
  "script ext par ops (st, srv, log) = Some (st', srv', log') \<Longrightarrow> cs_session ext 0 par script_point cap st srv log \<Longrightarrow>
   cs_session ext 0 par script_point cap st' srv' log'"
proof (induction ext par ops "(st, srv, log)" arbitrary: st srv log rule: script.induct)
  case (2 ext par n no ops st srv log)
  then show ?case by (auto split: if_splits intro: se_store ls_append)
next
  case (3 ext par p ops st srv log)
  then show ?case by (auto intro: se_store ls_rollback_to)
next
  case (4 ext par msg ops st srv log)
  then show ?case by (auto split: if_splits prod.splits intro: se_message)
next
  case (5 ext par ops st srv log)
  then show ?case by (auto split: prod.splits intro: se_change)
qed simp

definition plain_ext :: server_ext where
  "plain_ext = \<lparr>sx_blake8 = \<lambda>_ _. 0, sx_header_point = \<lambda>_. None\<rparr>"

text \<open>Two branches: 1, 2, 3 and, from 1, 4, 5.\<close>

definition fork_par :: "point \<Rightarrow> point" where
  "fork_par p = (if p = sp 2 then sp 1 else if p = sp 3 then sp 2 else if p = sp 4 then sp 1 else if p = sp 5 then sp 4 else Origin)"

definition sync_script :: "script_op list" where
  "sync_script = [OpAppend 1 0, OpAppend 2 1, OpAppend 3 2, OpMessage (CS_MsgFindIntersect [Origin]),
     OpMessage CS_MsgRequestNext, OpMessage CS_MsgRequestNext, OpMessage CS_MsgRequestNext]"

definition script_run :: "nat \<Rightarrow> script_op list \<Rightarrow> (chain_store \<times> cs_server \<times> cs_message list) option" where
  "script_run cap ops = script plain_ext fork_par ops (chain_store_new cap, cs_server_new 0, [])"

lemma script_run_session:
  "script_run cap ops = Some (st, srv, log) \<Longrightarrow> cs_session plain_ext 0 fork_par script_point cap st srv log"
  unfolding script_run_def by (erule script_session) (rule se_start)

definition sync_log :: "cs_message list" where
  "sync_log = (case script_run 10 sync_script of Some (st, srv, log) \<Rightarrow> log | None \<Rightarrow> [])"

lemma sync_log_headers:
  "List.map_filter (\<lambda>m. case m of CS_MsgRollForward h _ \<Rightarrow> Some h | _ \<Rightarrow> None) sync_log = [[1], [2], [3]]"
  by code_simp

lemma sync_session: "\<exists>st srv. csv_read_point srv = Some (sp 3) \<and> cs_session plain_ext 0 fork_par script_point 10 st srv sync_log"
proof -
  have "\<not> Option.is_none (script_run 10 sync_script)" by code_simp
  then obtain st srv log where run: "script_run 10 sync_script = Some (st, srv, log)"
    by (cases "script_run 10 sync_script") auto
  moreover have "map_option (\<lambda>(st, srv, log). csv_read_point srv) (script_run 10 sync_script) = Some (Some (sp 3))" by code_simp
  ultimately show ?thesis using script_run_session [OF run] by (auto simp: sync_log_def)
qed


text \<open>A follower that was not served between two rollbacks can be told to roll back to a block it has never been given.
  After 1, 2, 3 the store returns to 1, appends 4 and 5 and returns to 4: the follower, still at 3, is rolled back to 4,
  although its chain is 1, 2, 3 and the fork point is 1.\<close>

theorem rollback_to_unknown_block:
  "\<exists>st srv tp. cs_session plain_ext 0 fork_par script_point 10 st srv (sync_log @ [CS_MsgRollBackward (sp 4) tp]) \<and>
     List.map_filter (\<lambda>m. case m of CS_MsgRollForward h _ \<Rightarrow> Some (script_point h) | _ \<Rightarrow> None) sync_log = [sp 1, sp 2, sp 3]"
proof -
  define ops where "ops = sync_script @ [OpRollbackTo (sp 1), OpAppend 4 1, OpAppend 5 2, OpRollbackTo (sp 4), OpMessage CS_MsgRequestNext]"
  define tp where "tp = \<lparr>tip_point = sp 4, tip_block_no = 1\<rparr>"
  have "map_option (\<lambda>(st, srv, log). log) (script_run 10 (sync_script @ [OpRollbackTo (sp 1), OpAppend 4 1, OpAppend 5 2,
      OpRollbackTo (sp 4), OpMessage CS_MsgRequestNext])) = Some (sync_log @ [CS_MsgRollBackward (sp 4) \<lparr>tip_point = sp 4, tip_block_no = 1\<rparr>])"
    by code_simp
  then obtain st srv where "script_run 10 ops = Some (st, srv, sync_log @ [CS_MsgRollBackward (sp 4) tp])"
    unfolding ops_def tp_def by (auto split: prod.splits)
  from script_run_session [OF this] show ?thesis
    by (intro exI [of _ st] exI [of _ srv] exI [of _ tp] conjI) (assumption, code_simp)
qed

subsection \<open>A follower overtaken by eviction\<close>

text \<open>A rollback target always resolves: two rollbacks in a row need the store to change in between.\<close>

lemma rollback_target_resolves: "next_after_cursor st (Some (servable_rollback_target st)) \<noteq> Gone"
proof -
  have "servable_rollback_target st = Origin \<or> (case servable_anchor st of Some a \<Rightarrow> servable_rollback_target st = tip_point a | None \<Rightarrow> False) \<or>
    servable_rollback_target st \<in> sb_point ` set (ch_blocks st)"
    by (auto simp: servable_rollback_target_def Let_def list_ex_iff split: option.splits)
  then have "servable_rollback_target st = Origin \<or> (case servable_anchor st of Some a \<Rightarrow> servable_rollback_target st = tip_point a | None \<Rightarrow> False) \<or>
    position (\<lambda>b. sb_point b = servable_rollback_target st) (ch_blocks st) \<noteq> None"
    by (auto simp: position_None)
  then show ?thesis by (auto simp: next_after_cursor_def Let_def split: option.splits if_splits)
qed

definition append_all :: "(point \<times> full_header \<times> u8 list \<times> u64) list \<Rightarrow> chain_store \<Rightarrow> chain_store" where
  "append_all bs st = fold (\<lambda>(p, header, body, no) st. snd (append_block st p header body no)) bs st"

definition genesis_evicted :: "chain_store \<Rightarrow> bool" where
  "genesis_evicted st \<longleftrightarrow> chain_store_inv st \<and> ch_intersection_anchor st = None \<and> ch_blocks st \<noteq> [] \<and> 0 < sb_block_no (hd (ch_blocks st))"

lemma genesis_evicted_append:
  assumes "genesis_evicted st"
  shows "genesis_evicted (snd (append_block st p header body no))"
proof (cases rule: append_block_cases [of st p header body no])
  case (appended b)
  define bs where "bs = ch_blocks st @ [b]"
  define d where "d = length bs - ch_capacity st"
  have st': "ch_blocks (snd (append_block st p header body no)) = drop d bs"
    by (simp add: appended(2) evict_over_effect bs_def d_def)
  have "0 < ch_capacity st" using assms by (cases "ch_blocks st") (auto simp: genesis_evicted_def chain_store_inv_def)
  then have d: "d < length bs" by (simp add: d_def bs_def)
  have first: "0 < sb_block_no x" if "x \<in> set bs" for x
  proof -
    have "sb_block_no (hd (ch_blocks st)) \<le> sb_block_no y" if "y \<in> set (ch_blocks st)" for y
      using assms that by (cases "ch_blocks st") (auto simp: genesis_evicted_def chain_store_inv_def less_imp_le)
    then have old: "0 < sb_block_no y" if "y \<in> set (ch_blocks st)" for y
      using assms that by (auto simp: genesis_evicted_def intro: less_le_trans)
    moreover have "0 < sb_block_no b" using appended(1,4) assms by (auto simp: genesis_evicted_def intro: le_less_trans [of 0])
    ultimately show ?thesis using \<open>x \<in> set bs\<close> by (auto simp: bs_def)
  qed
  have "hd (drop d bs) \<in> set bs" using d by (simp add: hd_drop_conv_nth)
  then have "drop d bs \<noteq> []" "0 < sb_block_no (hd (drop d bs))" using d first by auto
  moreover have "ch_intersection_anchor (snd (append_block st p header body no)) = None"
    using assms by (simp add: appended(2) evict_over_effect genesis_evicted_def)
  ultimately show ?thesis
    using append_keeps_inv [of st p header body no] assms unfolding genesis_evicted_def st' by blast
qed (use assms in simp)

lemma genesis_evicted_append_all: "genesis_evicted st \<Longrightarrow> genesis_evicted (append_all bs st)"
proof (induction bs arbitrary: st)
  case (Cons x bs)
  then show ?case using genesis_evicted_append by (cases x) (simp add: append_all_def)
qed (simp add: append_all_def)

lemma origin_waits:
  assumes "genesis_evicted st"
  shows "next_after_cursor st (Some Origin) = AtTip"
proof -
  have "\<not> roots_at_genesis st"
  proof
    assume "roots_at_genesis st"
    then have "unat (sb_block_no (ch_blocks st ! 0)) = 0"
      using whole_history_iff [of st] assms by (auto simp: roots_at_genesis_def genesis_evicted_def)
    then show False using assms by (auto simp: genesis_evicted_def hd_conv_nth unat_eq_zero)
  qed
  moreover have "servable_anchor st = None" using assms by (simp add: genesis_evicted_def servable_anchor_def)
  ultimately show ?thesis by (simp add: next_after_cursor_def)
qed

text \<open>On a store that has evicted block 0 and was never rolled back, a follower whose cursor was evicted as well is
  rolled back to Origin, and from there on it is never served again while the chain only grows: every request is
  answered by an await, and no appended block ends it.\<close>

theorem evicted_follower_starves:
  assumes "store_reachable cap st" and "ch_intersection_anchor st = None" and "ch_last_rollback_target st = None"
    and "ch_blocks st \<noteq> []" and "0 < sb_block_no (hd (ch_blocks st))"
    and "csv_read_point srv = Some p" and "p \<noteq> Origin" and "p \<notin> sb_point ` set (ch_blocks st)"
    and "cs_on_message ext peer None st srv CS_MsgRequestNext = (out, srv1)"
    and "cs_on_message ext peer None (append_all bs st) srv1 CS_MsgRequestNext = (out2, srv2)"
  shows "out = [CS_MsgRollBackward Origin (cs_tip st)] \<and> out2 = [CS_MsgAwaitReply] \<and>
    cs_on_change ext peer None (append_all bs' (append_all bs st)) srv2 = ([], srv2)"
proof -
  have ev: "genesis_evicted st" using store_reachable_inv [OF assms(1)] assms(2,4,5) by (simp add: genesis_evicted_def)
  have "position (\<lambda>b. sb_point b = p) (ch_blocks st) = None" using assms(8) by (auto simp: position_None)
  then have "next_after_cursor st (csv_read_point srv) = Gone"
    using assms(2,6,7) by (simp add: next_after_cursor_def servable_anchor_def)
  then have out: "out = [CS_MsgRollBackward Origin (cs_tip st)]" "csv_read_point srv1 = Some Origin"
    using assms(2,3,9) by (auto simp: cs_on_message_def cs_resolve_def servable_rollback_target_def servable_anchor_def)
  then have out2: "out2 = [CS_MsgAwaitReply]" "csv_read_point srv2 = Some Origin" "csv_phase srv2 = CsAwaiting"
    using origin_waits [OF genesis_evicted_append_all [OF ev]] assms(10) by (auto simp: cs_on_message_def cs_resolve_def)
  then show ?thesis
    using out origin_waits [OF genesis_evicted_append_all [OF genesis_evicted_append_all [OF ev]]]
    by (simp add: cs_on_change_def cs_resolve_def)
qed

theorem evicted_follower_starves_witness:
  "fst (cs_on_message plain_ext 0 None (append_all [(Specific 40 4, plain_header 4, [4], 3)] three_appended)
     \<lparr>csv_read_point = Some Origin, csv_phase = CsIdle, csv_downstream = 0\<rparr> CS_MsgRequestNext) = [CS_MsgAwaitReply]"
proof -
  define srv where "srv = \<lparr>csv_read_point = Some (Specific 10 1), csv_phase = CsIdle, csv_downstream = 0\<rparr>"
  have st: "ch_intersection_anchor three_appended = None" "ch_last_rollback_target three_appended = None"
    "ch_blocks three_appended \<noteq> []" "0 < sb_block_no (hd (ch_blocks three_appended))"
    "\<not> list_ex (\<lambda>b. sb_point b = Specific 10 1) (ch_blocks three_appended)" by code_simp+
  have one: "cs_on_message plain_ext 0 None three_appended srv CS_MsgRequestNext =
    ([CS_MsgRollBackward Origin (cs_tip three_appended)], \<lparr>csv_read_point = Some Origin, csv_phase = CsIdle, csv_downstream = 0\<rparr>)"
    unfolding srv_def by code_simp
  have "Specific 10 1 \<notin> sb_point ` set (ch_blocks three_appended)" using st(5) by (auto simp: list_ex_iff)
  then show ?thesis
    using evicted_follower_starves [OF three_appended_reachable st(1-4) _ _ _ one prod.collapse [symmetric],
        of "Specific 10 1" "[(Specific 40 4, plain_header 4, [4], 3)]"] by (simp add: srv_def)
qed

subsection \<open>Block bodies\<close>

lemma position_distinct:
  assumes "distinct (map f xs)" and "i < length xs"
  shows "position (\<lambda>x. f x = f (xs ! i)) xs = Some i"
  unfolding position_Some
proof (intro conjI allI impI)
  fix j
  assume "j < i"
  then show "f (xs ! j) \<noteq> f (xs ! i)" using assms nth_eq_iff_index_eq [OF assms(1), of j i] by simp
qed (use assms in auto)

text \<open>C21: the BlockFetch responder serves what was asked for. A range between two blocks of the live chain is answered by
  exactly the bodies from the first to the last; a single block that was on the live chain at some time is still
  served after any operations that removed at most 512 blocks since, whether evicted or rolled back, and every body
  in such an answer is that of a block with the requested point.\<close>

theorem blockfetch_serves_announced:
  assumes "chain_store_inv st"
  shows "(\<forall>i j. i \<le> j \<and> j < length (ch_blocks st) \<longrightarrow>
      fst (serve_blockfetch controls st flag (BF_MsgRequestRange (sb_point (ch_blocks st ! i)) (sb_point (ch_blocks st ! j)))) =
        batch_of (map sb_body (drop i (take (j + 1) (ch_blocks st))))) \<and>
    (\<forall>b n st'. b \<in> set (ch_blocks st) \<and> store_run st n st' \<and> n \<le> 512 \<longrightarrow>
      (\<exists>bs :: stored_block list. bs \<noteq> [] \<and> (\<forall>c \<in> set bs. sb_point c = sb_point b) \<and>
         fst (serve_blockfetch controls st' flag (BF_MsgRequestRange (sb_point b) (sb_point b))) = batch_of (map sb_body bs)))"
proof (intro conjI allI impI; elim conjE)
  fix i j
  assume ij: "i \<le> j" "j < length (ch_blocks st)"
  have d: "distinct (map sb_point (ch_blocks st))" using assms by (simp add: chain_store_inv_def)
  have "get_range st (sb_point (ch_blocks st ! i)) (sb_point (ch_blocks st ! j)) = drop i (take (j + 1) (ch_blocks st))"
    using position_distinct [OF d] ij by (simp add: get_range_def)
  then show "fst (serve_blockfetch controls st flag (BF_MsgRequestRange (sb_point (ch_blocks st ! i)) (sb_point (ch_blocks st ! j)))) =
        batch_of (map sb_body (drop i (take (j + 1) (ch_blocks st))))"
    using ij by (simp add: serve_blockfetch_def Let_def)
next
  fix b n st'
  assume b: "b \<in> set (ch_blocks st)" and run: "store_run st n st'" and n: "n \<le> 512"
  define p where "p = sb_point b"
  define bs where "bs = (if get_range st' p p = [] then get_orphans st' p p else get_range st' p p)"
  have "still_held n st' b" using run_holds [OF run _ b] n by (simp add: ORPHAN_CACHE_CAP_def)
  then have "p \<in> sb_point ` set (ch_blocks st') \<or> b \<in> set (ch_orphan_bodies st')"
    by (auto simp: still_held_def retained_within_def p_def)
  moreover have "get_range st' p p \<noteq> []" if "p \<in> sb_point ` set (ch_blocks st')"
  proof -
    have "position (\<lambda>b. sb_point b = p) (ch_blocks st') \<noteq> None" using that by (auto simp: position_None)
    then obtain e where "position (\<lambda>b. sb_point b = p) (ch_blocks st') = Some e" by blast
    moreover from this have "e < length (ch_blocks st')" by (simp add: position_Some)
    ultimately show ?thesis by (simp add: get_range_def)
  qed
  moreover have "get_orphans st' p p \<noteq> []" if "b \<in> set (ch_orphan_bodies st')"
    using that by (auto simp: get_orphans_def p_def filter_empty_conv)
  ultimately have ne: "bs \<noteq> []" by (auto simp: bs_def)
  have "sb_point c = p" if c: "c \<in> set (get_range st' p p)" for c
  proof -
    obtain e where e: "position (\<lambda>b. sb_point b = p) (ch_blocks st') = Some e" using c
      by (cases "position (\<lambda>b. sb_point b = p) (ch_blocks st')") (auto simp: get_range_def)
    then have "drop e (take (e + 1) (ch_blocks st')) = [ch_blocks st' ! e]"
      by (simp add: position_Some drop_take take_Suc hd_drop_conv_nth)
    then show ?thesis using that e by (simp add: get_range_def position_Some)
  qed
  then have "\<forall>c \<in> set bs. sb_point c = p" by (auto simp: bs_def get_orphans_def)
  moreover have "fst (serve_blockfetch controls st' flag (BF_MsgRequestRange p p)) = batch_of (map sb_body bs)"
    using ne by (auto simp: serve_blockfetch_def Let_def bs_def)
  ultimately show "\<exists>bs :: stored_block list. bs \<noteq> [] \<and> (\<forall>c \<in> set bs. sb_point c = sb_point b) \<and>
      fst (serve_blockfetch controls st' flag (BF_MsgRequestRange (sb_point b) (sb_point b))) = batch_of (map sb_body bs)"
    using ne unfolding p_def by - (intro exI [of _ bs] conjI)
qed

theorem blockfetch_serves_announced_witness:
  "fst (serve_blockfetch None three_appended 0 (BF_MsgRequestRange (Specific 20 2) (Specific 30 3))) = batch_of [[2], [3]]"
proof -
  have "chain_store_inv three_appended" using store_reachable_inv [OF three_appended_reachable] by blast
  from conjunct1 [OF blockfetch_serves_announced [OF this]]
  have "fst (serve_blockfetch None three_appended 0
      (BF_MsgRequestRange (sb_point (ch_blocks three_appended ! 0)) (sb_point (ch_blocks three_appended ! 1)))) =
    batch_of (map sb_body (drop 0 (take (1 + 1) (ch_blocks three_appended))))"
    using three_appended_blocks [THEN arg_cong [of _ _ length]] by (auto dest!: spec [of _ 0] spec [of _ 1])
  moreover have "sb_point (ch_blocks three_appended ! 0) = Specific 20 2" "sb_point (ch_blocks three_appended ! 1) = Specific 30 3"
    "map sb_body (drop 0 (take (1 + 1) (ch_blocks three_appended))) = [[2], [3]]" by code_simp+
  ultimately show ?thesis by simp
qed

end
