(* ===== verification/Tx_Server.thy ===== *)
theory Tx_Server
  imports Tx_Submission
begin

text \<open>
  The transaction consumer of \<open>net-rs/net-core/src/peer/server_handlers.rs\<close>: \<open>TxDedup\<close>, the node-wide bounded set of ids
  already fetched, \<open>fetch_fresh_txs\<close> and \<open>serve_txsubmission\<close>.

  \<^item> The dedup set is shared by the tasks of all peers behind a mutex; one \<open>insert_fresh\<close> per id is an atomic step.
    Here the set is passed in and out, and a poisoned lock is a flag.
  \<^item> The handler is a state machine over what it awaits; \<open>outstanding\<close> is the number of ids to acknowledge next.
  \<^item> Received bodies are the events sent to the coordinator.
\<close>

record tx_dedup =
  td_seen :: "tx_id set"
  td_order :: "tx_id list"
  td_cap :: nat

definition tx_dedup_new :: "nat \<Rightarrow> tx_dedup" where
  "tx_dedup_new cap = \<lparr>td_seen = {}, td_order = [], td_cap = max cap 1\<rparr>"

definition insert_fresh :: "tx_dedup \<Rightarrow> tx_id \<Rightarrow> bool \<times> tx_dedup" where
  "insert_fresh d i =
     (if i \<in> td_seen d then (False, d)
      else
        let seen = insert i (td_seen d); order = td_order d @ [i]
        in (True,
            if length order > td_cap d then
              (case order of
                 [] \<Rightarrow> d\<lparr>td_seen := seen, td_order := order\<rparr>
               | evicted # rest \<Rightarrow> d\<lparr>td_seen := seen - {evicted}, td_order := rest\<rparr>)
            else d\<lparr>td_seen := seen, td_order := order\<rparr>))"

text \<open>The filter of \<open>fetch_fresh_txs\<close>.\<close>

fun fresh_ids :: "tx_dedup \<Rightarrow> tx_id_and_size list \<Rightarrow> era_tx_id list \<times> tx_dedup" where
  "fresh_ids d [] = ([], d)"
| "fresh_ids d (t # ts) =
     (let (fresh, d1) = insert_fresh d (tis_tx_id t); (rest, d2) = fresh_ids d1 ts
      in (if fresh then \<lparr>eti_era = tis_era t, eti_tx_id = tis_tx_id t\<rparr> # rest else rest, d2))"

definition select_ids :: "bool \<Rightarrow> tx_dedup \<Rightarrow> tx_id_and_size list \<Rightarrow> era_tx_id list \<times> tx_dedup" where
  "select_ids poisoned d ids =
     (if poisoned then (map (\<lambda>t. \<lparr>eti_era = tis_era t, eti_tx_id = tis_tx_id t\<rparr>) ids, d) else fresh_ids d ids)"

datatype tx_server_phase =
    TxAwaitInit
  | TxAwaitIds
  | TxAwaitIdsRetry
  | TxAwaitTxs nat
  | TxClosed

record tx_server =
  xs_phase :: tx_server_phase
  xs_outstanding :: nat

definition MAX_UNACKED :: nat where "MAX_UNACKED = 10"

text \<open>The top of the loop: acknowledge the last batch and ask, blocking, for more.\<close>

definition tx_request_ids :: "nat \<Rightarrow> ts_message list \<times> tx_server" where
  "tx_request_ids outstanding =
     ([MsgRequestTxIdsBlocking (of_nat outstanding) (of_nat MAX_UNACKED)],
      \<lparr>xs_phase = TxAwaitIds, xs_outstanding = outstanding\<rparr>)"

definition fetch_fresh_txs ::
  "bool \<Rightarrow> tx_dedup \<Rightarrow> tx_id_and_size list \<Rightarrow> nat \<Rightarrow> ts_message list \<times> tx_server \<times> tx_dedup" where
  "fetch_fresh_txs poisoned d ids outstanding =
     (let (fresh, d1) = select_ids poisoned d ids
      in if fresh = [] then let (out, srv) = tx_request_ids (length ids) in (out, srv, d1)
         else ([MsgRequestTxs fresh], \<lparr>xs_phase = TxAwaitTxs (length ids), xs_outstanding = outstanding\<rparr>, d1))"

text \<open>A message arrives (\<open>None\<close>: the receive failed): the messages sent, the bodies passed on, the new state.\<close>

definition serve_txsubmission ::
  "bool \<Rightarrow> tx_server \<Rightarrow> tx_dedup \<Rightarrow> ts_message option \<Rightarrow> ts_message list \<times> era_tx_body list \<times> tx_server \<times> tx_dedup" where
  "serve_txsubmission poisoned srv d msg =
     (let closed = ([], [], srv\<lparr>xs_phase := TxClosed\<rparr>, d)
      in case xs_phase srv of
           TxAwaitInit \<Rightarrow>
             (case msg of
                Some TS_MsgInit \<Rightarrow> let (out, srv1) = tx_request_ids 0 in (out, [], srv1, d)
              | _ \<Rightarrow> closed)
         | TxAwaitIds \<Rightarrow>
             (case msg of
                Some (MsgReplyTxIds ids) \<Rightarrow>
                  if ids = [] then
                    ([MsgRequestTxIdsBlocking 0 (of_nat MAX_UNACKED)], [], srv\<lparr>xs_phase := TxAwaitIdsRetry\<rparr>, d)
                  else let (out, srv1, d1) = fetch_fresh_txs poisoned d ids (xs_outstanding srv) in (out, [], srv1, d1)
              | _ \<Rightarrow> closed)
         | TxAwaitIdsRetry \<Rightarrow>
             (case msg of
                Some (MsgReplyTxIds ids) \<Rightarrow>
                  if ids = [] then closed
                  else let (out, srv1, d1) = fetch_fresh_txs poisoned d ids (xs_outstanding srv) in (out, [], srv1, d1)
              | _ \<Rightarrow> closed)
         | TxAwaitTxs n_ids \<Rightarrow>
             (case msg of
                Some (MsgReplyTxs txs) \<Rightarrow> let (out, srv1) = tx_request_ids n_ids in (out, txs, srv1, d)
              | _ \<Rightarrow> closed)
         | TxClosed \<Rightarrow> ([], [], srv, d))"

subsection \<open>The dedup window\<close>

definition dedup_ok :: "tx_dedup \<Rightarrow> bool" where
  "dedup_ok d \<longleftrightarrow> td_seen d = set (td_order d) \<and> distinct (td_order d) \<and> length (td_order d) \<le> td_cap d \<and> 0 < td_cap d"

lemma dedup_ok_new: "dedup_ok (tx_dedup_new cap)"
  by (simp add: dedup_ok_def tx_dedup_new_def)

lemma insert_fresh_spec:
  assumes "dedup_ok d" and "insert_fresh d i = (fresh, d')"
  shows "dedup_ok d' \<and> td_cap d' = td_cap d \<and> (fresh \<longleftrightarrow> i \<notin> set (td_order d)) \<and>
    td_order d' = (if fresh then drop (length (td_order d) + 1 - td_cap d) (td_order d @ [i]) else td_order d)"
proof (cases "i \<in> td_seen d")
  case False
  show ?thesis
  proof (cases "length (td_order d) + 1 > td_cap d")
    case True
    then obtain x xs where o: "td_order d = x # xs" using assms(1) by (cases "td_order d") (auto simp: dedup_ok_def)
    have len: "length xs + 1 = td_cap d" using True assms(1) o by (auto simp: dedup_ok_def)
    have "insert_fresh d i = (True, d\<lparr>td_seen := insert i (td_seen d) - {x}, td_order := xs @ [i]\<rparr>)"
      using False True o by (simp add: insert_fresh_def)
    then show ?thesis using assms False o len by (auto simp: dedup_ok_def)
  next
    case False': False
    have "insert_fresh d i = (True, d\<lparr>td_seen := insert i (td_seen d), td_order := td_order d @ [i]\<rparr>)"
      using False False' by (simp add: insert_fresh_def)
    then show ?thesis using assms False False' by (auto simp: dedup_ok_def)
  qed
qed (use assms in \<open>auto simp: insert_fresh_def dedup_ok_def\<close>)

text \<open>The dedup set is exact over its window: the ids requested are those not among the \<open>cap\<close> most recently fetched ones.\<close>

fun dedup_spec :: "nat \<Rightarrow> tx_id list \<Rightarrow> tx_id list \<Rightarrow> tx_id list \<times> tx_id list" where
  "dedup_spec cap fetched [] = ([], fetched)"
| "dedup_spec cap fetched (i # is) =
     (if i \<in> set (drop (length fetched - cap) fetched) then dedup_spec cap fetched is
      else let (r, f) = dedup_spec cap (fetched @ [i]) is in (i # r, f))"

lemma fresh_ids_spec:
  assumes "dedup_ok d" and "td_order d = drop (length fetched - td_cap d) fetched"
    and "fresh_ids d ts = (req, d')"
  shows "dedup_ok d' \<and> td_cap d' = td_cap d \<and>
    map eti_tx_id req = fst (dedup_spec (td_cap d) fetched (map tis_tx_id ts)) \<and>
    td_order d' = (let f = snd (dedup_spec (td_cap d) fetched (map tis_tx_id ts)) in drop (length f - td_cap d) f)"
  using assms
proof (induction ts arbitrary: d fetched req d')
  case (Cons t ts)
  obtain fresh d1 where one: "insert_fresh d (tis_tx_id t) = (fresh, d1)" by fastforce
  obtain rest d2 where more: "fresh_ids d1 ts = (rest, d2)" by fastforce
  note spec = insert_fresh_spec [OF Cons.prems(1) one]
  define fetched1 where "fetched1 = (if fresh then fetched @ [tis_tx_id t] else fetched)"
  have "td_order d1 = drop (length fetched1 - td_cap d) fetched1"
    using spec Cons.prems(2) by (cases "length fetched \<le> td_cap d") (auto simp: fetched1_def Suc_diff_le)
  then have "td_order d1 = drop (length fetched1 - td_cap d1) fetched1" using spec by simp
  note ih = Cons.IH [OF conjunct1 [OF spec] this more]
  show ?case using Cons.prems one more spec ih
    by (auto simp: fetched1_def Let_def case_prod_unfold split: if_splits)
qed simp

subsection \<open>The consumer follows the protocol\<close>

text \<open>The exchange on one connection: what the peer sent (\<open>Inl\<close>) and what the handler answered (\<open>Inr\<close>).\<close>

fun tx_exchange :: "bool \<Rightarrow> tx_server \<Rightarrow> tx_dedup \<Rightarrow> ts_message list \<Rightarrow> (ts_message + ts_message) list" where
  "tx_exchange poisoned srv d [] = []"
| "tx_exchange poisoned srv d (m # ms) =
     (let (out, _, srv', d') = serve_txsubmission poisoned srv d (Some m)
      in Inl m # map Inr out @ tx_exchange poisoned srv' d' ms)"

fun announced_ids :: "ts_message \<Rightarrow> nat" where
  "announced_ids (MsgReplyTxIds ids) = length ids"
| "announced_ids _ = 0"

text \<open>A conforming exchange: what the handler sends is a transition of the protocol on its turn, and a request for ids
  acknowledges exactly the ids announced since the last one, so that a blocking request is legal. After a message
  the protocol does not allow, nothing is required.\<close>

fun tx_conforms :: "ts_state \<Rightarrow> nat \<Rightarrow> (ts_message + ts_message) list \<Rightarrow> bool" where
  "tx_conforms s unacked [] = True"
| "tx_conforms s unacked (Inl m # es) =
     (case ts_transition s m of Inl _ \<Rightarrow> True | Inr s' \<Rightarrow> tx_conforms s' (unacked + announced_ids m) es)"
| "tx_conforms s unacked (Inr m # es) =
     (ts_agency s = Server \<and>
      (case ts_transition s m of
         Inl _ \<Rightarrow> False
       | Inr s' \<Rightarrow>
           (case m of
              MsgRequestTxIdsBlocking ack req \<Rightarrow> unat ack = unacked \<and> 0 < req \<and> tx_conforms s' 0 es
            | MsgRequestTxIdsNonBlocking ack req \<Rightarrow> False
            | _ \<Rightarrow> tx_conforms s' unacked es)))"

fun tx_in_step :: "tx_server_phase \<Rightarrow> ts_state \<Rightarrow> nat \<Rightarrow> bool" where
  "tx_in_step TxAwaitInit s n = (s = TS_StInit \<and> n = 0)"
| "tx_in_step TxAwaitIds s n = (s = TS_StTxIdsBlocking \<and> n = 0)"
| "tx_in_step TxAwaitIdsRetry s n = (s = TS_StTxIdsBlocking \<and> n = 0)"
| "tx_in_step (TxAwaitTxs k) s n = (s = TS_StTxs \<and> n = k \<and> k \<le> MAX_UNACKED)"
| "tx_in_step TxClosed s n = True"

lemma closed_is_silent: "xs_phase srv = TxClosed \<Longrightarrow> tx_conforms s n (tx_exchange poisoned srv d ms)"
proof (induction ms arbitrary: s n)
  case (Cons m ms)
  then show ?case by (auto simp: serve_txsubmission_def split: sum.splits)
qed simp

lemma window_fits: "k \<le> MAX_UNACKED \<Longrightarrow> unat (of_nat k :: u16) = k" "0 < (of_nat MAX_UNACKED :: u16)"
  by (simp_all add: MAX_UNACKED_def unat_of_nat)

lemma fetch_in_step:
  assumes "fetch_fresh_txs poisoned d ids n0 = (out, srv', d')" and "length ids \<le> MAX_UNACKED"
    and "\<And>s n. tx_in_step (xs_phase srv') s n \<Longrightarrow> tx_conforms s n es"
  shows "tx_conforms TS_StIdle (length ids) (map Inr out @ es)"
  using assms window_fits
  by (auto simp: fetch_fresh_txs_def tx_request_ids_def Let_def split: prod.splits if_splits)

lemma exchange_conforms:
  "tx_in_step (xs_phase srv) s n \<Longrightarrow> list_all (\<lambda>m. announced_ids m \<le> MAX_UNACKED) ms \<Longrightarrow>
   tx_conforms s n (tx_exchange poisoned srv d ms)"
proof (induction ms arbitrary: srv d s n)
  case (Cons m ms)
  obtain out bodies srv' d' where step: "serve_txsubmission poisoned srv d (Some m) = (out, bodies, srv', d')"
    by (cases "serve_txsubmission poisoned srv d (Some m)") auto
  have ih: "tx_in_step (xs_phase srv') s' n' \<Longrightarrow> tx_conforms s' n' (tx_exchange poisoned srv' d' ms)" for s' n'
    using Cons.IH Cons.prems(2) by simp
  have closed: ?case if "xs_phase srv' = TxClosed" "out = []"
    using that closed_is_silent [OF that(1)] step by (auto split: sum.splits)
  show ?case
  proof (cases "xs_phase srv")
    case TxAwaitInit
    then show ?thesis
      using step closed ih Cons.prems window_fits
      by (cases m) (auto simp: serve_txsubmission_def tx_request_ids_def)
  next
    case TxAwaitIds
    then show ?thesis
      using step closed ih Cons.prems window_fits fetch_in_step [of poisoned d _ "xs_outstanding srv" out srv' d']
      by (cases m) (auto simp: serve_txsubmission_def split: if_splits prod.splits)
  next
    case TxAwaitIdsRetry
    then show ?thesis
      using step closed ih Cons.prems window_fits fetch_in_step [of poisoned d _ "xs_outstanding srv" out srv' d']
      by (cases m) (auto simp: serve_txsubmission_def split: if_splits prod.splits)
  next
    case (TxAwaitTxs k)
    then show ?thesis
      using step closed ih Cons.prems window_fits
      by (cases m) (auto simp: serve_txsubmission_def tx_request_ids_def)
  next
    case TxClosed
    then show ?thesis by (rule closed_is_silent)
  qed
qed simp



end
