(* ===== verification/Leios_Store.thy ===== *)
theory Leios_Store
  imports Chain_Store Leios_Protocols "HOL-Library.Product_Lexorder"
begin

text \<open>
  \<open>net-rs/net-core/src/store/leios_store.rs\<close>: the content-addressed store of endorser blocks, their transactions and
  manifests, announcements and votes, with the notification log the LeiosNotify responders read.

  \<^item> Every method takes the mutex, so it is one step on the state. \<open>HashMap\<close>s are ordered maps: the code only retains,
    looks up and sorts keys. \<open>BlockKey\<close> is the pair \<open>EbKey\<close> of slot and hash, with the same order.
  \<^item> The header hash and the full header validation of \<open>net-codec\<close> (CBOR, Blake2b) are parameters.
  \<^item> The watch channel carries the version, so a step that bumps it is a wake-up. The transaction resolver is never
    called by the code and is left out, as are the statistics.
\<close>

datatype leios_notification =
    BlockOffer point u32
  | BlockTxsOffer point
  | BlockAnnouncement full_header
  | VotesNotification u64 "vote list"

record notification_entry =
  ne_sources :: "peer_id list"
  ne_notification :: leios_notification

record own_offer =
  oo_first_offered_slot :: u64
  oo_retries :: u8
  oo_fetched :: bool

record leios_store =
  lo_blocks :: "(eb_key, u8 list) omap"
  lo_announcements :: "(eb_key, full_header list) omap"
  lo_announcement_count :: nat
  lo_announcement_bytes :: nat
  lo_own_offers :: "(eb_key, own_offer) omap"
  lo_block_txs :: "(eb_key, (u32, tx_body) omap) omap"
  lo_eb_tx_hashes :: "(eb_key, tx_id list) omap"
  lo_votes :: "(hash32 \<times> u16, u64 \<times> vote) omap"
  lo_notifications :: "notification_entry list"
  lo_notifications_pruned_count :: nat
  lo_capacity :: nat
  lo_version :: u64
  lo_max_slot :: u64
  lo_retention_slots :: u64

record codec_ext =
  cx_header_hash :: "u8 list \<Rightarrow> hash32"
  cx_validate_header :: "u8 list \<Rightarrow> header_info option"
  cx_blake256 :: "u8 list \<Rightarrow> hash32"

definition DEFAULT_RETENTION_SLOTS :: u64 where "DEFAULT_RETENTION_SLOTS = 100"
definition MAX_NOTIFICATIONS :: nat where "MAX_NOTIFICATIONS = 10000"
definition MAX_ANNOUNCEMENT_BYTES :: nat where "MAX_ANNOUNCEMENT_BYTES = 16 * 1024 * 1024"

definition leios_store_new_with_retention :: "nat \<Rightarrow> u64 \<Rightarrow> leios_store" where
  "leios_store_new_with_retention capacity retention_slots =
     \<lparr>lo_blocks = oempty, lo_announcements = oempty, lo_announcement_count = 0, lo_announcement_bytes = 0,
      lo_own_offers = oempty, lo_block_txs = oempty, lo_eb_tx_hashes = oempty, lo_votes = oempty, lo_notifications = [],
      lo_notifications_pruned_count = 0, lo_capacity = capacity, lo_version = 0, lo_max_slot = 0,
      lo_retention_slots = retention_slots\<rparr>"

definition leios_store_new :: "nat \<Rightarrow> leios_store" where
  "leios_store_new capacity = leios_store_new_with_retention capacity DEFAULT_RETENTION_SLOTS"

definition lo_is_empty :: "leios_store \<Rightarrow> bool" where
  "lo_is_empty st \<longleftrightarrow> olen (lo_blocks st) = 0 \<and> olen (lo_announcements st) = 0 \<and> olen (lo_block_txs st) = 0 \<and>
     olen (lo_eb_tx_hashes st) = 0 \<and> olen (lo_votes st) = 0 \<and> lo_notifications st = []"

subsection \<open>Notifications\<close>

fun offer_point :: "leios_notification \<Rightarrow> point option" where
  "offer_point (BlockOffer p _) = Some p"
| "offer_point (BlockTxsOffer p) = Some p"
| "offer_point (BlockAnnouncement _) = None"
| "offer_point (VotesNotification _ _) = None"

fun same_offer_kind :: "leios_notification \<Rightarrow> leios_notification \<Rightarrow> bool" where
  "same_offer_kind (BlockOffer _ _) (BlockOffer _ _) = True"
| "same_offer_kind (BlockTxsOffer _) (BlockTxsOffer _) = True"
| "same_offer_kind _ _ = False"

definition wrapped_point :: "codec_ext \<Rightarrow> full_header \<Rightarrow> point option" where
  "wrapped_point ext h = map_option (\<lambda>info. Specific (hi_slot info) (cx_header_hash ext (wh_raw h))) (wh_parsed h)"

fun point_below :: "u64 \<Rightarrow> point \<Rightarrow> bool" where
  "point_below cutoff (Specific slot _) = (slot < cutoff)"
| "point_below cutoff Origin = True"

fun notification_evictable :: "codec_ext \<Rightarrow> leios_notification \<Rightarrow> u64 \<Rightarrow> bool" where
  "notification_evictable ext (BlockOffer p _) cutoff = point_below cutoff p"
| "notification_evictable ext (BlockTxsOffer p) cutoff = point_below cutoff p"
| "notification_evictable ext (VotesNotification retention_slot _) cutoff = (retention_slot < cutoff)"
| "notification_evictable ext (BlockAnnouncement h) cutoff =
     (case wrapped_point ext h of Some p \<Rightarrow> point_below cutoff p | None \<Rightarrow> True)"

definition retention_cutoff :: "leios_store \<Rightarrow> u64" where
  "retention_cutoff st = saturating_sub (lo_max_slot st) (lo_retention_slots st)"

fun update_first :: "('a \<Rightarrow> bool) \<Rightarrow> ('a \<Rightarrow> 'a) \<Rightarrow> 'a list \<Rightarrow> 'a list option" where
  "update_first P f [] = None"
| "update_first P f (x # xs) = (if P x then Some (f x # xs) else map_option ((#) x) (update_first P f xs))"

definition update_last :: "('a \<Rightarrow> bool) \<Rightarrow> ('a \<Rightarrow> 'a) \<Rightarrow> 'a list \<Rightarrow> 'a list option" where
  "update_last P f xs = map_option rev (update_first P f (rev xs))"

definition add_source :: "peer_id option \<Rightarrow> notification_entry \<Rightarrow> notification_entry" where
  "add_source source e =
     (case source of
        Some peer \<Rightarrow> if peer \<in> set (ne_sources e) then e else e\<lparr>ne_sources := ne_sources e @ [peer]\<rparr>
      | None \<Rightarrow> e)"

definition push_notification ::
  "codec_ext \<Rightarrow> leios_store \<Rightarrow> peer_id option \<Rightarrow> leios_notification \<Rightarrow> bool \<Rightarrow> leios_store" where
  "push_notification ext st source notif was_new =
     (let cutoff = retention_cutoff st;
          pushed = st\<lparr>lo_notifications := lo_notifications st @
            [\<lparr>ne_sources = (case source of Some p \<Rightarrow> [p] | None \<Rightarrow> []), ne_notification = notif\<rparr>]\<rparr>
      in if cutoff > 0 \<and> notification_evictable ext notif cutoff then st
         else case offer_point notif of
                None \<Rightarrow> pushed
              | Some p \<Rightarrow>
                  (case update_last (\<lambda>e. same_offer_kind (ne_notification e) notif \<and> offer_point (ne_notification e) = Some p)
                          (add_source source) (lo_notifications st) of
                     Some ns \<Rightarrow> st\<lparr>lo_notifications := ns\<rparr>
                   | None \<Rightarrow> if was_new then pushed else st))"

subsection \<open>Eviction\<close>

function prune_front :: "codec_ext \<Rightarrow> u64 \<Rightarrow> leios_store \<Rightarrow> leios_store" where
  "prune_front ext cutoff st =
     (case lo_notifications st of
        [] \<Rightarrow> st
      | front # rest \<Rightarrow>
          if notification_evictable ext (ne_notification front) cutoff
          then prune_front ext cutoff
            (st\<lparr>lo_notifications := rest, lo_notifications_pruned_count := lo_notifications_pruned_count st + 1\<rparr>)
          else st)"
  by pat_completeness auto
termination
  by (relation "measure (\<lambda>(ext, cutoff, st). length (lo_notifications st))") auto

declare prune_front.simps [simp del]

function cap_notifications :: "leios_store \<Rightarrow> leios_store" where
  "cap_notifications st =
     (if length (lo_notifications st) > MAX_NOTIFICATIONS then
        (case lo_notifications st of
           [] \<Rightarrow> st
         | _ # rest \<Rightarrow>
             cap_notifications
               (st\<lparr>lo_notifications := rest, lo_notifications_pruned_count := lo_notifications_pruned_count st + 1\<rparr>))
      else st)"
  by pat_completeness auto
termination
  by (relation "measure (\<lambda>st. length (lo_notifications st))") auto

declare cap_notifications.simps [simp del]

definition raw_bytes :: "full_header list \<Rightarrow> nat" where
  "raw_bytes hs = sum_list (map (\<lambda>h. length (wh_raw h)) hs)"

definition announcements_over :: "u64 \<Rightarrow> leios_store \<Rightarrow> eb_key \<Rightarrow> bool" where
  "announcements_over cutoff st key \<longleftrightarrow> ebk_slot key < cutoff \<or> lo_announcement_count st > MAX_NOTIFICATIONS \<or>
     lo_announcement_bytes st > MAX_ANNOUNCEMENT_BYTES"

definition drop_announcement :: "eb_key \<Rightarrow> full_header list \<Rightarrow> leios_store \<Rightarrow> leios_store" where
  "drop_announcement key headers st =
     st\<lparr>lo_announcements := odel key (lo_announcements st),
        lo_announcement_count := lo_announcement_count st - length headers,
        lo_announcement_bytes := lo_announcement_bytes st - raw_bytes headers\<rparr>"

fun prune_announcements :: "u64 \<Rightarrow> (eb_key \<times> full_header list) list \<Rightarrow> leios_store \<Rightarrow> leios_store" where
  "prune_announcements cutoff [] st = st"
| "prune_announcements cutoff ((key, headers) # rest) st =
     (if announcements_over cutoff st key then prune_announcements cutoff rest (drop_announcement key headers st) else st)"

definition cap_blocks :: "leios_store \<Rightarrow> leios_store" where
  "cap_blocks st =
     (if olen (lo_blocks st) > lo_capacity st then
        let excess = take (olen (lo_blocks st) - lo_capacity st) (okeys (lo_blocks st))
        in st\<lparr>lo_blocks := fold odel excess (lo_blocks st), lo_block_txs := fold odel excess (lo_block_txs st)\<rparr>
      else st)"

definition evict_slots :: "codec_ext \<Rightarrow> u64 \<Rightarrow> leios_store \<Rightarrow> leios_store" where
  "evict_slots ext cutoff st =
     (if cutoff > 0 then
        prune_front ext cutoff
          (st\<lparr>lo_blocks := oretain (\<lambda>k _. cutoff \<le> ebk_slot k) (lo_blocks st),
              lo_block_txs := oretain (\<lambda>k _. cutoff \<le> ebk_slot k) (lo_block_txs st),
              lo_eb_tx_hashes := oretain (\<lambda>k _. cutoff \<le> ebk_slot k) (lo_eb_tx_hashes st),
              lo_votes := oretain (\<lambda>_ sv. cutoff \<le> fst sv) (lo_votes st)\<rparr>)
      else st)"

definition evict_old :: "codec_ext \<Rightarrow> leios_store \<Rightarrow> leios_store" where
  "evict_old ext st =
     (let cutoff = retention_cutoff st;
          st1 = evict_slots ext cutoff st;
          st2 = prune_announcements cutoff (entries (lo_announcements st1)) st1
      in cap_blocks (cap_notifications st2))"

definition bump_version :: "codec_ext \<Rightarrow> leios_store \<Rightarrow> leios_store" where
  "bump_version ext st = evict_old ext (st\<lparr>lo_version := lo_version st + 1\<rparr>)"

subsection \<open>Operations\<close>

definition u32_size :: "u8 list \<Rightarrow> u32" where
  "u32_size block = (if length block < 2 ^ 32 then of_nat (length block) else - 1)"

definition inject_block :: "codec_ext \<Rightarrow> leios_store \<Rightarrow> point \<Rightarrow> u8 list \<Rightarrow> peer_id option \<Rightarrow> leios_store" where
  "inject_block ext st p block source =
     (case p of
        Origin \<Rightarrow> st
      | Specific slot hash \<Rightarrow>
          let key = EbKey slot hash;
              was_new = (oget (lo_blocks st) key = None);
              st1 = st\<lparr>lo_blocks := oput key block (lo_blocks st), lo_max_slot := max (lo_max_slot st) slot\<rparr>;
              st2 = (if source = None \<and> was_new
                     then st1\<lparr>lo_own_offers := oput key
                       \<lparr>oo_first_offered_slot = lo_max_slot st1, oo_retries = 0, oo_fetched = False\<rparr> (lo_own_offers st1)\<rparr>
                     else st1)
          in bump_version ext (push_notification ext st2 source (BlockOffer p (u32_size block)) was_new))"

text \<open>The part of \<open>announce_block\<close> that retains the header under the block it announces; also whether it was new.\<close>

definition retained_headers :: "leios_store \<Rightarrow> eb_key \<Rightarrow> full_header list" where
  "retained_headers st key = (case oget (lo_announcements st) key of Some hs \<Rightarrow> hs | None \<Rightarrow> [])"

definition retain_header :: "leios_store \<Rightarrow> full_header \<Rightarrow> peer_id option \<Rightarrow> bool \<times> leios_store" where
  "retain_header st h source =
     (case wh_parsed h of
        None \<Rightarrow> (True, st)
      | Some parsed \<Rightarrow>
          let st1 = (if source = None then st\<lparr>lo_max_slot := max (lo_max_slot st) (hi_slot parsed)\<rparr> else st)
          in (case hi_announced_eb parsed of
                None \<Rightarrow> (True, st1)
              | Some (hash, _) \<Rightarrow>
                  let key = EbKey (hi_slot parsed) hash;
                      headers = retained_headers st1 key;
                      was_new = (wh_raw h \<notin> wh_raw ` set headers)
                  in if was_new
                     then (True, st1\<lparr>lo_announcements := oput key (headers @ [h]) (lo_announcements st1),
                                     lo_announcement_count := lo_announcement_count st1 + 1,
                                     lo_announcement_bytes := lo_announcement_bytes st1 + length (wh_raw h)\<rparr>)
                     else (False, st1)))"

definition announcement_raw :: "leios_notification \<Rightarrow> u8 list option" where
  "announcement_raw n = (case n of BlockAnnouncement h \<Rightarrow> Some (wh_raw h) | _ \<Rightarrow> None)"

definition announce_block :: "codec_ext \<Rightarrow> leios_store \<Rightarrow> full_header \<Rightarrow> peer_id option \<Rightarrow> leios_store" where
  "announce_block ext st h0 source =
     (let checked = (case source of
            None \<Rightarrow> Some h0
          | Some _ \<Rightarrow> map_option (\<lambda>parsed. h0\<lparr>wh_parsed := Some parsed\<rparr>) (cx_validate_header ext (wh_raw h0)))
      in case checked of
           None \<Rightarrow> st
         | Some h \<Rightarrow>
             let (was_new, st1) = retain_header st h source;
                 st2 = (case update_last (\<lambda>e. announcement_raw (ne_notification e) = Some (wh_raw h)) (add_source source) (lo_notifications st1) of
                          Some ns \<Rightarrow> st1\<lparr>lo_notifications := ns\<rparr>
                        | None \<Rightarrow> if was_new then push_notification ext st1 source (BlockAnnouncement h) True else st1)
             in bump_version ext st2)"

definition announcement :: "leios_store \<Rightarrow> u64 \<Rightarrow> hash32 \<Rightarrow> full_header option" where
  "announcement st slot hash = (case oget (lo_announcements st) (EbKey slot hash) of Some (h # _) \<Rightarrow> Some h | _ \<Rightarrow> None)"

definition has_offer :: "leios_store \<Rightarrow> u64 \<Rightarrow> hash32 \<Rightarrow> bool \<Rightarrow> bool" where
  "has_offer st slot hash txs =
     (if txs then ohas (lo_block_txs st) (EbKey slot hash) else ohas (lo_blocks st) (EbKey slot hash))"

definition inject_block_txs ::
  "codec_ext \<Rightarrow> leios_store \<Rightarrow> point \<Rightarrow> (u32, tx_body) omap \<Rightarrow> peer_id option \<Rightarrow> leios_store" where
  "inject_block_txs ext st p indexed source =
     (case p of
        Origin \<Rightarrow> st
      | Specific slot hash \<Rightarrow>
          let key = EbKey slot hash;
              entry = (case oget (lo_block_txs st) key of Some e \<Rightarrow> e | None \<Rightarrow> oempty);
              was_new = (olen entry = 0);
              merged = fold (\<lambda>(idx, body) e. oor_insert idx body e) (entries indexed) entry;
              st1 = st\<lparr>lo_block_txs := oput key merged (lo_block_txs st), lo_max_slot := max (lo_max_slot st) slot\<rparr>
          in bump_version ext (push_notification ext st1 source (BlockTxsOffer p) was_new))"

definition inject_block_txs_full :: "codec_ext \<Rightarrow> leios_store \<Rightarrow> point \<Rightarrow> tx_body list \<Rightarrow> peer_id option \<Rightarrow> leios_store" where
  "inject_block_txs_full ext st p bodies source =
     inject_block_txs ext st p (oof_list (map (\<lambda>(i, b). (of_nat i, b)) (enumerate 0 bodies))) source"

fun record_votes :: "u64 \<Rightarrow> vote list \<Rightarrow> (hash32 \<times> u16, u64 \<times> vote) omap \<Rightarrow> vote list \<times> (hash32 \<times> u16, u64 \<times> vote) omap" where
  "record_votes seen_slot [] vs = ([], vs)"
| "record_votes seen_slot (v # rest) vs =
     (let key = (vt_announcing_rb_hash v, vt_voter_id v);
          (new_votes, vs') = record_votes seen_slot rest (oput key (seen_slot, v) vs)
      in (if ohas vs key then new_votes else v # new_votes, vs'))"

definition inject_votes :: "codec_ext \<Rightarrow> leios_store \<Rightarrow> vote list \<Rightarrow> peer_id option \<Rightarrow> leios_store" where
  "inject_votes ext st votes source =
     (if votes = [] then st
      else
        let seen_slot = lo_max_slot st;
            (new_votes, vs) = record_votes seen_slot votes (lo_votes st);
            st1 = st\<lparr>lo_votes := vs\<rparr>;
            st2 = (if new_votes \<noteq> [] then push_notification ext st1 source (VotesNotification seen_slot new_votes) True else st1)
        in bump_version ext st2)"

definition lo_get_block :: "leios_store \<Rightarrow> u64 \<Rightarrow> hash32 \<Rightarrow> u8 list option \<times> leios_store" where
  "lo_get_block st slot hash =
     (let key = EbKey slot hash
      in (oget (lo_blocks st) key, st\<lparr>lo_own_offers := oupdate key (\<lambda>own. own\<lparr>oo_fetched := True\<rparr>) (lo_own_offers st)\<rparr>))"

definition RETRY_INTERVAL_SLOTS :: u64 where "RETRY_INTERVAL_SLOTS = 3"
definition MAX_RETRIES :: u8 where "MAX_RETRIES = 3"

definition reoffer_due :: "leios_store \<Rightarrow> u64 \<Rightarrow> eb_key \<Rightarrow> own_offer \<Rightarrow> bool" where
  "reoffer_due st current_slot key own \<longleftrightarrow>
     oo_first_offered_slot own + RETRY_INTERVAL_SLOTS * ucast (oo_retries own + 1) \<le> current_slot \<and> ohas (lo_blocks st) key"

definition reoffer_one :: "leios_store \<Rightarrow> eb_key \<Rightarrow> leios_store" where
  "reoffer_one st key =
     st\<lparr>lo_own_offers := oupdate key (\<lambda>own. own\<lparr>oo_retries := (if oo_retries own = - 1 then - 1 else oo_retries own + 1)\<rparr>) (lo_own_offers st),
        lo_notifications := lo_notifications st @
          [\<lparr>ne_sources = [],
            ne_notification = BlockOffer (Specific (ebk_slot key) (ebk_hash key))
              (case oget (lo_blocks st) key of Some b \<Rightarrow> u32_size b | None \<Rightarrow> 0)\<rparr>]\<rparr>"

definition reoffer_unfetched :: "codec_ext \<Rightarrow> leios_store \<Rightarrow> u64 \<Rightarrow> leios_store" where
  "reoffer_unfetched ext st current_slot =
     (let cutoff = retention_cutoff st;
          st1 = st\<lparr>lo_own_offers := oretain (\<lambda>key own. cutoff < ebk_slot key \<and> \<not> oo_fetched own \<and> oo_retries own < MAX_RETRIES)
                                     (lo_own_offers st)\<rparr>;
          due = map fst (filter (\<lambda>(key, own). reoffer_due st1 current_slot key own) (entries (lo_own_offers st1)))
      in if due = [] then st1
         else bump_version ext (evict_old ext (fold (\<lambda>key st. reoffer_one st key) due st1)))"

definition lo_record_eb_manifest :: "codec_ext \<Rightarrow> leios_store \<Rightarrow> point \<Rightarrow> tx_id list \<Rightarrow> leios_store" where
  "lo_record_eb_manifest ext st p tx_hashes =
     (case p of
        Origin \<Rightarrow> st
      | Specific slot hash \<Rightarrow>
          bump_version ext (st\<lparr>lo_eb_tx_hashes := oput (EbKey slot hash) tx_hashes (lo_eb_tx_hashes st),
                               lo_max_slot := max (lo_max_slot st) slot\<rparr>))"

fun collect_some :: "'a option list \<Rightarrow> 'a list option" where
  "collect_some [] = Some []"
| "collect_some (x # xs) =
     (case x of None \<Rightarrow> None | Some v \<Rightarrow> (case collect_some xs of None \<Rightarrow> None | Some vs \<Rightarrow> Some (v # vs)))"

definition get_block_txs :: "leios_store \<Rightarrow> u64 \<Rightarrow> hash32 \<Rightarrow> tx_bitmap \<Rightarrow> tx_body list option" where
  "get_block_txs st slot hash bitmap =
     (case oget (lo_block_txs st) (EbKey slot hash) of
        None \<Rightarrow> None
      | Some bodies \<Rightarrow> collect_some (map (oget bodies) (iter_indices bitmap)))"

definition lo_get_eb_manifest :: "leios_store \<Rightarrow> u64 \<Rightarrow> hash32 \<Rightarrow> tx_id list option" where
  "lo_get_eb_manifest st slot hash = oget (lo_eb_tx_hashes st) (EbKey slot hash)"

definition notifications_after :: "leios_store \<Rightarrow> nat \<Rightarrow> notification_entry list \<times> nat" where
  "notifications_after st after0 =
     (let pruned = lo_notifications_pruned_count st; after = max after0 pruned; local_index = after - pruned
      in if local_index \<ge> length (lo_notifications st) then ([], pruned + length (lo_notifications st))
         else (drop local_index (lo_notifications st), after))"

definition notification_count :: "leios_store \<Rightarrow> nat" where
  "notification_count st = lo_notifications_pruned_count st + length (lo_notifications st)"

definition tick_slot :: "codec_ext \<Rightarrow> leios_store \<Rightarrow> u64 \<Rightarrow> leios_store" where
  "tick_slot ext st current_slot =
     (if current_slot > lo_max_slot st then
        let st1 = st\<lparr>lo_max_slot := current_slot\<rparr>
        in if lo_is_empty st1 then st1 else evict_old ext st1
      else st)"

subsection \<open>The notification log\<close>

abbreviation queued :: "leios_store \<Rightarrow> leios_notification list" where
  "queued st \<equiv> map ne_notification (lo_notifications st)"

text \<open>From \<open>st\<close> to \<open>st'\<close> the notifications \<open>new\<close> were appended and some taken off the front.\<close>

definition log_moves :: "leios_store \<Rightarrow> leios_notification list \<Rightarrow> leios_store \<Rightarrow> bool" where
  "log_moves st new st' \<longleftrightarrow> lo_notifications_pruned_count st \<le> lo_notifications_pruned_count st' \<and>
     lo_notifications_pruned_count st' \<le> lo_notifications_pruned_count st + length (queued st @ new) \<and>
     queued st' = drop (lo_notifications_pruned_count st' - lo_notifications_pruned_count st) (queued st @ new)"

lemma log_moves_refl: "queued st' = queued st \<Longrightarrow> lo_notifications_pruned_count st' = lo_notifications_pruned_count st \<Longrightarrow> log_moves st [] st'"
  by (simp add: log_moves_def)

lemma log_moves_trans:
  assumes "log_moves st new st1" and "log_moves st1 new' st2"
  shows "log_moves st (new @ new') st2"
proof -
  define a where "a = lo_notifications_pruned_count st1 - lo_notifications_pruned_count st"
  define b where "b = lo_notifications_pruned_count st2 - lo_notifications_pruned_count st1"
  have a: "a \<le> length (queued st @ new)" "queued st1 = drop a (queued st @ new)" and ge: "lo_notifications_pruned_count st \<le> lo_notifications_pruned_count st1"
    using assms(1) by (auto simp: log_moves_def a_def)
  have b: "queued st2 = drop b (queued st1 @ new')" "lo_notifications_pruned_count st1 \<le> lo_notifications_pruned_count st2"
    "b \<le> length (queued st1 @ new')" using assms(2) by (auto simp: log_moves_def b_def)
  have "drop a (queued st @ new) @ new' = drop a ((queued st @ new) @ new')"
    using a(1) by (simp only: drop_append [of a "queued st @ new" new']) simp
  then have "queued st2 = drop (b + a) (queued st @ new @ new')" using b(1) by (simp add: a(2) del: drop_append)
  moreover have "lo_notifications_pruned_count st2 - lo_notifications_pruned_count st = a + b" using ge b(2) by (simp add: a_def b_def)
  moreover have "lo_notifications_pruned_count st2 = lo_notifications_pruned_count st + (a + b)" using ge b(2) by (simp add: a_def b_def)
  moreover have "a + b \<le> length (queued st @ new @ new')" using a b(3) by simp
  ultimately show ?thesis using ge b(2) by (simp add: log_moves_def add.commute del: drop_append)
qed

lemma log_moves_pop:
  assumes "lo_notifications st = x # xs"
  shows "log_moves st [] (st\<lparr>lo_notifications := xs, lo_notifications_pruned_count := lo_notifications_pruned_count st + 1\<rparr>)"
  using assms by (simp add: log_moves_def)

lemma prune_front_moves: "log_moves st [] (prune_front ext cutoff st)"
proof (induction ext cutoff st rule: prune_front.induct)
  case (1 ext cutoff st)
  show ?case
  proof (cases "lo_notifications st")
    case (Cons x xs)
    show ?thesis
    proof (cases "notification_evictable ext (ne_notification x) cutoff")
      case True
      then show ?thesis
        using log_moves_trans [OF log_moves_pop [OF Cons] 1 [OF Cons True]] Cons by (simp add: prune_front.simps [of ext cutoff st])
    qed (simp add: Cons prune_front.simps [of ext cutoff st] log_moves_refl)
  qed (simp add: prune_front.simps [of ext cutoff st] log_moves_refl)
qed

lemma cap_notifications_moves: "log_moves st [] (cap_notifications st)"
proof (induction st rule: cap_notifications.induct)
  case (1 st)
  show ?case
  proof (cases "length (lo_notifications st) > MAX_NOTIFICATIONS")
    case True
    then obtain x xs where xs: "lo_notifications st = x # xs" by (cases "lo_notifications st") auto
    then show ?thesis
      using log_moves_trans [OF log_moves_pop [OF xs] 1 [OF True xs]] True by (simp add: cap_notifications.simps [of st])
  qed (simp add: cap_notifications.simps [of st] log_moves_refl)
qed

lemma prune_announcements_notes [simp]:
  "lo_notifications (prune_announcements cutoff es st) = lo_notifications st"
  "lo_notifications_pruned_count (prune_announcements cutoff es st) = lo_notifications_pruned_count st"
  by (induction cutoff es st rule: prune_announcements.induct) (simp_all add: drop_announcement_def)

lemma evict_old_moves: "log_moves st [] (evict_old ext st)"
proof -
  define st1 where "st1 = evict_slots ext (retention_cutoff st) st"
  define st2 where "st2 = prune_announcements (retention_cutoff st) (entries (lo_announcements st1)) st1"
  have 1: "log_moves st [] st1"
  proof (cases "retention_cutoff st > 0")
    case True
    then show ?thesis
      using prune_front_moves [of "st\<lparr>lo_blocks := _, lo_block_txs := _, lo_eb_tx_hashes := _, lo_votes := _\<rparr>" ext "retention_cutoff st"]
      by (simp add: st1_def evict_slots_def log_moves_def)
  qed (simp add: st1_def evict_slots_def log_moves_refl)
  have 2: "log_moves st1 [] st2" by (simp add: st2_def log_moves_refl)
  have 3: "log_moves st2 [] (cap_notifications st2)" by (rule cap_notifications_moves)
  have 4: "log_moves (cap_notifications st2) [] (cap_blocks (cap_notifications st2))"
    by (intro log_moves_refl) (simp_all add: cap_blocks_def Let_def)
  have "log_moves st [] (cap_blocks (cap_notifications st2))"
    using log_moves_trans [OF log_moves_trans [OF log_moves_trans [OF 1 2] 3] 4] by simp
  then show ?thesis by (simp add: evict_old_def Let_def st1_def st2_def)
qed

inductive lstore_step :: "codec_ext \<Rightarrow> leios_store \<Rightarrow> leios_store \<Rightarrow> bool" for ext where
  lo_block: "lstore_step ext st (inject_block ext st p block source)"
| lo_announce: "lstore_step ext st (announce_block ext st h source)"
| lo_txs: "lstore_step ext st (inject_block_txs ext st p indexed source)"
| lo_votes: "lstore_step ext st (inject_votes ext st votes source)"
| lo_served: "lstore_step ext st (snd (lo_get_block st slot hash))"
| lo_reoffer: "lstore_step ext st (reoffer_unfetched ext st current_slot)"
| lo_manifest: "lstore_step ext st (lo_record_eb_manifest ext st p tx_hashes)"
| lo_tick: "lstore_step ext st (tick_slot ext st current_slot)"

lemma update_first_map: "update_first P f xs = Some ys \<Longrightarrow> (\<And>x. g (f x) = g x) \<Longrightarrow> map g ys = map g xs"
  by (induction xs arbitrary: ys) (auto split: if_splits)

lemma update_last_source: "update_last P (add_source source) es = Some es' \<Longrightarrow> map ne_notification es' = map ne_notification es"
proof -
  assume "update_last P (add_source source) es = Some es'"
  then obtain ys where "update_first P (add_source source) (rev es) = Some ys" "es' = rev ys" by (auto simp: update_last_def)
  moreover have "ne_notification (add_source source x) = ne_notification x" for x by (simp add: add_source_def split: option.splits)
  ultimately show ?thesis using update_first_map [of P "add_source source" "rev es" ys ne_notification] by (simp add: rev_map [symmetric])
qed

lemma push_moves: "\<exists>new. log_moves st new (push_notification ext st source notif was_new)"
proof -
  have pushed: "\<exists>new. log_moves st new (st\<lparr>lo_notifications := lo_notifications st @ [e]\<rparr>)" for e
    by (rule exI [of _ "[ne_notification e]"]) (simp add: log_moves_def)
  have same: "\<exists>new. log_moves st new st" using log_moves_refl by blast
  have merged: "\<exists>new. log_moves st new (st\<lparr>lo_notifications := ns\<rparr>)" if "update_last P (add_source source) (lo_notifications st) = Some ns" for P ns
    using update_last_source [OF that] log_moves_refl [of "st\<lparr>lo_notifications := ns\<rparr>" st] by auto
  show ?thesis using pushed same merged by (auto simp: push_notification_def Let_def split: option.splits)
qed

lemma bump_moves:
  assumes "\<exists>new. log_moves st new st1"
  shows "\<exists>new. log_moves st new (bump_version ext st1)"
proof -
  have "log_moves st1 [] (st1\<lparr>lo_version := lo_version st1 + 1\<rparr>)" by (simp add: log_moves_refl)
  then show ?thesis
    using assms log_moves_trans [OF _ evict_old_moves [of "st1\<lparr>lo_version := lo_version st1 + 1\<rparr>" ext]] log_moves_trans
    unfolding bump_version_def by blast
qed

lemma moves_after:
  assumes "queued st1 = queued st" and "lo_notifications_pruned_count st1 = lo_notifications_pruned_count st" and "\<exists>new. log_moves st1 new st'"
  shows "\<exists>new. log_moves st new st'"
  using assms by (auto simp: log_moves_def)

lemma retain_header_queue:
  "lo_notifications (snd (retain_header st h source)) = lo_notifications st"
  "lo_notifications_pruned_count (snd (retain_header st h source)) = lo_notifications_pruned_count st"
  by (auto simp: retain_header_def Let_def split: option.splits)

lemma reoffer_moves: "\<exists>new. log_moves st new (fold (\<lambda>key st. reoffer_one st key) due st)"
proof (induction due arbitrary: st)
  case (Cons key due)
  have "\<exists>new. log_moves st new (reoffer_one st key)"
    by (rule exI [of _ "[BlockOffer _ _]"]) (simp add: log_moves_def reoffer_one_def)
  then show ?case using Cons [of "reoffer_one st key"] log_moves_trans by fastforce
qed (use log_moves_refl in auto)

lemma moves_same:
  assumes "queued st1 = queued st" and "lo_notifications_pruned_count st1 = lo_notifications_pruned_count st"
  shows "\<exists>new. log_moves st new st1"
  using log_moves_refl [OF assms] by blast

lemma push_after_moves:
  assumes "queued st1 = queued st" and "lo_notifications_pruned_count st1 = lo_notifications_pruned_count st"
  shows "\<exists>new. log_moves st new (push_notification ext st1 source notif was_new)"
    and "\<exists>new. log_moves st new (bump_version ext (push_notification ext st1 source notif was_new))"
    and "\<exists>new. log_moves st new (bump_version ext st1)"
    and "\<exists>new. log_moves st new (evict_old ext st1)"
proof -
  show push: "\<exists>new. log_moves st new (push_notification ext st1 source notif was_new)"
    by (rule moves_after [OF assms push_moves])
  show "\<exists>new. log_moves st new (bump_version ext (push_notification ext st1 source notif was_new))" by (rule bump_moves [OF push])
  show "\<exists>new. log_moves st new (bump_version ext st1)" by (rule bump_moves [OF moves_same [OF assms]])
  show "\<exists>new. log_moves st new (evict_old ext st1)" using moves_after [OF assms] evict_old_moves by blast
qed

lemma announce_moves: "\<exists>new. log_moves st new (announce_block ext st h0 source)"
proof -
  define checked where "checked = (case source of None \<Rightarrow> Some h0
     | Some _ \<Rightarrow> map_option (\<lambda>parsed. h0\<lparr>wh_parsed := Some parsed\<rparr>) (cx_validate_header ext (wh_raw h0)))"
  show ?thesis
  proof (cases checked)
    case None
    then have "announce_block ext st h0 source = st" by (simp add: announce_block_def checked_def [symmetric])
    then show ?thesis using moves_same [of st st] by simp
  next
    case (Some h)
    define st1 where "st1 = snd (retain_header st h source)"
    define st2 where "st2 = (case update_last (\<lambda>e. announcement_raw (ne_notification e) = Some (wh_raw h)) (add_source source) (lo_notifications st1) of
        Some ns \<Rightarrow> st1\<lparr>lo_notifications := ns\<rparr>
      | None \<Rightarrow> if fst (retain_header st h source) then push_notification ext st1 source (BlockAnnouncement h) True else st1)"
    have same: "queued st1 = queued st" "lo_notifications_pruned_count st1 = lo_notifications_pruned_count st"
      by (simp_all add: st1_def retain_header_queue)
    have "\<exists>new. log_moves st new st2"
      using push_after_moves(1) [OF same] moves_same [OF same] moves_same [of "st1\<lparr>lo_notifications := _\<rparr>" st] same update_last_source
      by (auto simp: st2_def split: option.splits)
    moreover have "announce_block ext st h0 source = bump_version ext st2"
      unfolding announce_block_def checked_def [symmetric] st2_def st1_def Let_def case_prod_unfold by (simp add: Some)
    ultimately show ?thesis using bump_moves by simp
  qed
qed

lemma step_moves: "lstore_step ext st st' \<Longrightarrow> \<exists>new. log_moves st new st'"
proof (induction rule: lstore_step.induct)
  case (lo_block st p block source)
  then show ?case by (cases p) (auto simp: inject_block_def Let_def intro: moves_same intro!: push_after_moves(2))
next
  case (lo_announce st h source)
  then show ?case by (rule announce_moves)
next
  case (lo_txs st p indexed source)
  then show ?case by (cases p) (auto simp: inject_block_txs_def Let_def intro: moves_same intro!: push_after_moves(2))
next
  case (lo_votes st votes source)
  then show ?case using push_after_moves(2,3) [of "st\<lparr>lo_votes := _\<rparr>" st] moves_same [of st st]
    by (auto simp: inject_votes_def Let_def case_prod_unfold)
next
  case (lo_reoffer st current_slot)
  define st1 where "st1 = st\<lparr>lo_own_offers := oretain (\<lambda>key own. retention_cutoff st < ebk_slot key \<and> \<not> oo_fetched own \<and>
     oo_retries own < MAX_RETRIES) (lo_own_offers st)\<rparr>"
  have "\<exists>new. log_moves st new (fold (\<lambda>key st. reoffer_one st key) due st1)" for due
    using moves_after [of st1 st, OF _ _ reoffer_moves] by (simp add: st1_def)
  then have "\<exists>new. log_moves st new (bump_version ext (evict_old ext (fold (\<lambda>key st. reoffer_one st key) due st1)))" for due
    using bump_moves log_moves_trans [OF _ evict_old_moves] by meson
  then show ?case
    using moves_same [of st1 st] by (simp add: reoffer_unfetched_def Let_def st1_def [symmetric]) (simp add: st1_def)
next
  case (lo_tick st current_slot)
  then show ?case using push_after_moves(4) [of "st\<lparr>lo_max_slot := current_slot\<rparr>" st] moves_same [of st st] moves_same [of "st\<lparr>lo_max_slot := current_slot\<rparr>" st]
    by (auto simp: tick_slot_def Let_def)
next
  case (lo_manifest st p tx_hashes)
  then show ?case by (cases p) (auto simp: lo_record_eb_manifest_def intro: moves_same intro!: push_after_moves(3))
qed (auto simp: lo_get_block_def Let_def intro!: moves_same)

inductive lstore_run :: "codec_ext \<Rightarrow> leios_store \<Rightarrow> leios_store \<Rightarrow> bool" for ext st0 where
  lr_here: "lstore_run ext st0 st0"
| lr_next: "lstore_run ext st0 st \<Longrightarrow> lstore_step ext st st' \<Longrightarrow> lstore_run ext st0 st'"

lemma run_moves: "lstore_run ext st st' \<Longrightarrow> \<exists>new. log_moves st new st'"
proof (induction rule: lstore_run.induct)
  case lr_next
  then show ?case using step_moves log_moves_trans by meson
qed (simp add: moves_same)

lemma notifications_after_log:
  assumes "log_moves st new st'" and "lo_notifications_pruned_count st \<le> c" and "c \<le> notification_count st'"
  shows "map ne_notification (fst (notifications_after st' c)) =
      drop (max c (lo_notifications_pruned_count st') - lo_notifications_pruned_count st) (queued st @ new)"
    and "snd (notifications_after st' c) = max c (lo_notifications_pruned_count st')"
proof -
  define p where "p = lo_notifications_pruned_count st"
  define p' where "p' = lo_notifications_pruned_count st'"
  have q: "queued st' = drop (p' - p) (queued st @ new)" "p \<le> p'" using assms(1) by (auto simp: log_moves_def p_def p'_def)
  have len: "length (lo_notifications st') = length (drop (p' - p) (queued st @ new))" by (metis length_map q(1))
  have "(max c p' - p') + (p' - p) = max c p' - p" using q(2) assms(2) by (auto simp: p_def)
  then have "drop (max c p' - p') (queued st') = drop (max c p' - p) (queued st @ new)"
    by (simp only: q(1) drop_drop)
  moreover have "map ne_notification (fst (notifications_after st' c)) = drop (max c p' - p') (queued st')"
    by (simp add: notifications_after_def Let_def p'_def [symmetric] drop_map)
  ultimately show "map ne_notification (fst (notifications_after st' c)) = drop (max c (lo_notifications_pruned_count st') - lo_notifications_pruned_count st) (queued st @ new)"
    by (simp only: p_def p'_def)
  show "snd (notifications_after st' c) = max c (lo_notifications_pruned_count st')"
    using assms(3) by (auto simp: notifications_after_def Let_def notification_count_def)
qed

text \<open>C26: the notification queue with its logical cursor is an append-only log. Over any run of the store the notifications
  pushed are added at the end, and a reader that asks from any position it has reached gets exactly the rest of the
  log from there on, in order, less what was pruned before it came: nothing is delivered twice and nothing still
  retained is skipped, whatever was evicted in between.\<close>

theorem notification_log_exact:
  assumes "lstore_run ext st st'"
  shows "\<exists>new. notification_count st' = notification_count st + length new \<and>
    (\<forall>c. lo_notifications_pruned_count st \<le> c \<and> c \<le> notification_count st \<longrightarrow>
       map ne_notification (fst (notifications_after st' c)) =
         drop (max c (lo_notifications_pruned_count st') - lo_notifications_pruned_count st) (queued st @ new) \<and>
       snd (notifications_after st' c) = max c (lo_notifications_pruned_count st'))"
proof -
  obtain new where new: "log_moves st new st'" using run_moves [OF assms] by blast
  have "length (lo_notifications st') = length (drop (lo_notifications_pruned_count st' - lo_notifications_pruned_count st) (queued st @ new))"
    using new by (metis length_map log_moves_def)
  then have n: "notification_count st' = notification_count st + length new"
    using new unfolding notification_count_def log_moves_def length_drop by auto
  show ?thesis using notifications_after_log [OF new] n by (intro exI [of _ new]) auto
qed

subsection \<open>Bounds\<close>

definition header_totals :: "leios_store \<Rightarrow> bool" where
  "header_totals st \<longleftrightarrow>
     lo_announcement_count st = sum_list (map (\<lambda>(_, hs). length hs) (entries (lo_announcements st))) \<and>
     lo_announcement_bytes st = sum_list (map (\<lambda>(_, hs). raw_bytes hs) (entries (lo_announcements st)))"

definition within_retention :: "leios_store \<Rightarrow> bool" where
  "within_retention st \<longleftrightarrow> (\<forall>k. ohas (lo_blocks st) k \<or> ohas (lo_block_txs st) k \<or> ohas (lo_eb_tx_hashes st) k \<or>
       ohas (lo_announcements st) k \<longrightarrow> retention_cutoff st \<le> ebk_slot k) \<and>
     (\<forall>k sv. oget (lo_votes st) k = Some sv \<longrightarrow> retention_cutoff st \<le> fst sv)"

definition lstore_bounds :: "leios_store \<Rightarrow> bool" where
  "lstore_bounds st \<longleftrightarrow> lo_announcement_count st \<le> MAX_NOTIFICATIONS \<and> lo_announcement_bytes st \<le> MAX_ANNOUNCEMENT_BYTES \<and>
     length (lo_notifications st) \<le> MAX_NOTIFICATIONS \<and> olen (lo_blocks st) \<le> lo_capacity st"

definition lstore_inv :: "leios_store \<Rightarrow> bool" where
  "lstore_inv st \<longleftrightarrow> header_totals st \<and> within_retention st \<and> lstore_bounds st"

text \<open>Replacing the value of one key changes a sum over the values by the difference.\<close>

lemma sum_put_list_values:
  fixes g :: "'v \<Rightarrow> nat"
  assumes "sorted_wrt (<) (map fst xs)"
  shows "sum_list (map (\<lambda>(_, v). g v) (put_list k v xs)) + (case map_of xs k of Some w \<Rightarrow> g w | None \<Rightarrow> 0) =
    sum_list (map (\<lambda>(_, v). g v) xs) + g v"
  using assms
proof (induction xs)
  case (Cons x xs)
  obtain k' w where x: "x = (k', w)" by fastforce
  have "map_of xs k = None" if "k \<le> k'" using Cons.prems that x by (force simp: map_of_eq_None_iff)
  then show ?case using Cons x by (auto split: option.splits)
qed simp

lemma header_totals_put:
  assumes "header_totals st"
  shows "header_totals (st\<lparr>lo_max_slot := ms, lo_announcements := oput key (retained_headers st key @ [h]) (lo_announcements st),
      lo_announcement_count := lo_announcement_count st + 1, lo_announcement_bytes := lo_announcement_bytes st + length (wh_raw h)\<rparr>)"
proof -
  define hs where "hs = retained_headers st key"
  have get: "(case map_of (entries (lo_announcements st)) key of Some w \<Rightarrow> g w | None \<Rightarrow> 0) = g hs" if "g [] = (0 :: nat)" for g
    using that by (simp add: hs_def retained_headers_def oget_entries split: option.splits)
  have "sum_list (map (\<lambda>(_, v). g v) (put_list key (hs @ [h]) (entries (lo_announcements st)))) + g hs =
      sum_list (map (\<lambda>(_, v). g v) (entries (lo_announcements st))) + g (hs @ [h])" if "g [] = (0 :: nat)" for g
    using sum_put_list_values [OF sorted_entries, of g key "hs @ [h]" "lo_announcements st"] get [of g] that by simp
  from this [of length] this [of raw_bytes] show ?thesis
    using assms by (simp add: header_totals_def raw_bytes_def hs_def)
qed

lemma retain_header_totals: "header_totals st \<Longrightarrow> header_totals (snd (retain_header st h source))"
proof -
  assume t: "header_totals st"
  have keep: "header_totals (st\<lparr>lo_max_slot := ms\<rparr>)" for ms using t by (simp add: header_totals_def)
  note put = header_totals_put [OF t]
  have here: "header_totals (st\<lparr>lo_announcements := oput key (retained_headers st key @ [h]) (lo_announcements st),
      lo_announcement_count := lo_announcement_count st + 1, lo_announcement_bytes := lo_announcement_bytes st + length (wh_raw h)\<rparr>)" for key
    using put [of h key "lo_max_slot st"] by (simp add: header_totals_def)
  show ?thesis using t keep put here unfolding retain_header_def Let_def retained_headers_def [symmetric]
    by (auto simp: retained_headers_def split: option.splits)
qed

lemma odel_first: "entries m = (k, v) # rest \<Longrightarrow> entries (odel k m) = rest"
proof -
  assume e: "entries m = (k, v) # rest"
  then have "\<forall>x\<in>set rest. fst x \<noteq> k" using distinct_entries [of m] by force
  then have "filter (\<lambda>(k', v). k' \<noteq> k) rest = rest" by (simp add: filter_id_conv case_prod_unfold)
  then show ?thesis using e by (simp add: odel_def)
qed

lemma prune_announcements_frame [simp]:
  "lo_blocks (prune_announcements c es st) = lo_blocks st" "lo_block_txs (prune_announcements c es st) = lo_block_txs st"
  "lo_eb_tx_hashes (prune_announcements c es st) = lo_eb_tx_hashes st" "lo_votes (prune_announcements c es st) = lo_votes st"
  "lo_capacity (prune_announcements c es st) = lo_capacity st" "retention_cutoff (prune_announcements c es st) = retention_cutoff st"
  by (induction c es st rule: prune_announcements.induct) (simp_all add: drop_announcement_def retention_cutoff_def)

lemma prune_announcements_ok:
  fixes c :: u64
  assumes "header_totals st" and "entries (lo_announcements st) = es"
  defines "st' \<equiv> prune_announcements c es st"
  shows "header_totals st' \<and> lo_announcement_count st' \<le> MAX_NOTIFICATIONS \<and> lo_announcement_bytes st' \<le> MAX_ANNOUNCEMENT_BYTES \<and>
    (\<forall>k. ohas (lo_announcements st') k \<longrightarrow> c \<le> ebk_slot k)"
  using assms(1,2) unfolding st'_def
proof (induction c es st rule: prune_announcements.induct)
  case (1 cutoff st)
  then show ?case by (simp add: header_totals_def ohas_def oget_entries)
next
  case (2 cutoff key headers rest st)
  show ?case
  proof (cases "announcements_over cutoff st key")
    case True
    have e: "entries (odel key (lo_announcements st)) = rest" using odel_first [OF 2(3)] .
    have "header_totals (drop_announcement key headers st)"
      using 2(2) by (simp add: header_totals_def drop_announcement_def e 2(3))
    moreover have "entries (lo_announcements (drop_announcement key headers st)) = rest" by (simp add: drop_announcement_def e)
    ultimately show ?thesis using 2(1) [OF True] True by simp
  next
    case False
    have "ebk_slot key \<le> ebk_slot k" if "ohas (lo_announcements st) k" for k
    proof -
      have "k \<in> insert key (fst ` set rest)" using that 2(3) in_entries_iff [of k _ "lo_announcements st"] by (force simp: ohas_iff_Some)
      then have "key \<le> k" using sorted_entries [of "lo_announcements st"] 2(3) by (auto simp: order.strict_implies_order)
      then show ?thesis by (cases key; cases k) auto
    qed
    then show ?thesis using False 2(2) by (fastforce simp: announcements_over_def)
  qed
qed

text \<open>The two loops on the queue only take notifications off the front.\<close>

lemma prune_front_drop: "\<exists>n. prune_front ext c st = st\<lparr>lo_notifications := drop n (lo_notifications st), lo_notifications_pruned_count := lo_notifications_pruned_count st + n\<rparr>"
proof (induction ext c st rule: prune_front.induct)
  case (1 ext c st)
  have here: ?case if "prune_front ext c st = st" by (rule exI [of _ 0]) (simp add: that)
  show ?case
  proof (cases "lo_notifications st")
    case (Cons x xs)
    show ?thesis
    proof (cases "notification_evictable ext (ne_notification x) c")
      case True
      obtain n where "prune_front ext c (st\<lparr>lo_notifications := xs, lo_notifications_pruned_count := lo_notifications_pruned_count st + 1\<rparr>) =
          st\<lparr>lo_notifications := drop n xs, lo_notifications_pruned_count := lo_notifications_pruned_count st + 1 + n\<rparr>"
        using 1 [OF Cons True] by auto
      then show ?thesis using Cons True by (intro exI [of _ "Suc n"]) (simp add: prune_front.simps [of ext c st])
    qed (intro here, simp add: Cons prune_front.simps [of ext c st])
  qed (intro here, simp add: prune_front.simps [of ext c st])
qed

lemma cap_notifications_drop: "\<exists>n. cap_notifications st = st\<lparr>lo_notifications := drop n (lo_notifications st), lo_notifications_pruned_count := lo_notifications_pruned_count st + n\<rparr>
    \<and> length (drop n (lo_notifications st)) \<le> MAX_NOTIFICATIONS"
proof (induction st rule: cap_notifications.induct)
  case (1 st)
  show ?case
  proof (cases "length (lo_notifications st) > MAX_NOTIFICATIONS")
    case True
    then obtain x xs where xs: "lo_notifications st = x # xs" by (cases "lo_notifications st") auto
    obtain n where "cap_notifications (st\<lparr>lo_notifications := xs, lo_notifications_pruned_count := lo_notifications_pruned_count st + 1\<rparr>) =
        st\<lparr>lo_notifications := drop n xs, lo_notifications_pruned_count := lo_notifications_pruned_count st + 1 + n\<rparr>" "length (drop n xs) \<le> MAX_NOTIFICATIONS"
      using 1 [OF True xs] by auto
    then show ?thesis using True xs by (intro exI [of _ "Suc n"]) (simp add: cap_notifications.simps [of st])
  next
    case False
    then show ?thesis by (intro exI [of _ 0]) (simp add: cap_notifications.simps [of st])
  qed
qed

lemma ohas_fold_odel: "ohas (fold odel ks m) k \<longleftrightarrow> ohas m k \<and> k \<notin> set ks"
  by (induction ks arbitrary: m) (auto simp: ohas_def oget_odel)

lemma olen_fold_odel:
  assumes "set ks \<subseteq> {k. ohas m k}" and "distinct ks"
  shows "olen (fold odel ks m) = olen m - length ks"
proof -
  have "{k. ohas (fold odel ks m) k} = {k. ohas m k} - set ks" by (auto simp: ohas_fold_odel)
  then show ?thesis using assms by (simp add: olen_okeys card_Diff_subset distinct_card)
qed

lemma cap_blocks_ok:
  shows "olen (lo_blocks (cap_blocks st)) \<le> lo_capacity st"
    and "ohas (lo_blocks (cap_blocks st)) k \<Longrightarrow> ohas (lo_blocks st) k"
    and "ohas (lo_block_txs (cap_blocks st)) k \<Longrightarrow> ohas (lo_block_txs st) k"
proof -
  define n where "n = olen (lo_blocks st) - lo_capacity st"
  have "set (take n (okeys (lo_blocks st))) \<subseteq> {k. ohas (lo_blocks st) k}" using set_take_subset set_okeys by fastforce
  then have "olen (fold odel (take n (okeys (lo_blocks st))) (lo_blocks st)) = olen (lo_blocks st) - length (take n (okeys (lo_blocks st)))"
    by (intro olen_fold_odel) simp_all
  moreover have "length (okeys (lo_blocks st)) = olen (lo_blocks st)" by (simp add: okeys_def olen_def)
  ultimately show "olen (lo_blocks (cap_blocks st)) \<le> lo_capacity st" by (auto simp: cap_blocks_def n_def Let_def)
qed (auto simp: cap_blocks_def Let_def ohas_fold_odel split: if_splits)

lemma evict_old_inv:
  assumes "header_totals st"
  shows "lstore_inv (evict_old ext st)"
proof -
  define c where "c = retention_cutoff st"
  define st1 where "st1 = evict_slots ext c st"
  define st2 where "st2 = prune_announcements c (entries (lo_announcements st1)) st1"
  define st0 where "st0 = st\<lparr>lo_blocks := oretain (\<lambda>k _. c \<le> ebk_slot k) (lo_blocks st),
              lo_block_txs := oretain (\<lambda>k _. c \<le> ebk_slot k) (lo_block_txs st),
              lo_eb_tx_hashes := oretain (\<lambda>k _. c \<le> ebk_slot k) (lo_eb_tx_hashes st),
              lo_votes := oretain (\<lambda>_ sv. c \<le> fst sv) (lo_votes st)\<rparr>"
  obtain i where "prune_front ext c st0 = st0\<lparr>lo_notifications := drop i (lo_notifications st0), lo_notifications_pruned_count := lo_notifications_pruned_count st0 + i\<rparr>"
    using prune_front_drop by blast
  then have k: "st1 = (if c > 0 then st0\<lparr>lo_notifications := drop i (lo_notifications st0), lo_notifications_pruned_count := lo_notifications_pruned_count st0 + i\<rparr> else st)"
    by (simp add: st1_def evict_slots_def st0_def)
  have st1: "header_totals st1" "retention_cutoff st1 = c" "lo_capacity st1 = lo_capacity st"
    using assms by (simp_all add: k st0_def header_totals_def c_def retention_cutoff_def)
  have kept: "c \<le> ebk_slot k" if "ohas (lo_blocks st1) k \<or> ohas (lo_block_txs st1) k \<or> ohas (lo_eb_tx_hashes st1) k" for k
    using that by (auto simp: k st0_def ohas_iff_Some oget_oretain word_gt_0 split: if_splits option.splits)
  have votes: "c \<le> fst sv" if "oget (lo_votes st1) k = Some sv" for k sv
    using that by (auto simp: k st0_def oget_oretain word_gt_0 split: if_splits option.splits)
  note pruned = prune_announcements_ok [OF st1(1) refl, of c, folded st2_def]
  have frame: "lo_blocks st2 = lo_blocks st1" "lo_block_txs st2 = lo_block_txs st1" "lo_eb_tx_hashes st2 = lo_eb_tx_hashes st1"
    "lo_votes st2 = lo_votes st1" "lo_capacity st2 = lo_capacity st" "retention_cutoff st2 = c" by (simp_all add: st2_def st1)
  obtain n where n: "cap_notifications st2 = st2\<lparr>lo_notifications := drop n (lo_notifications st2), lo_notifications_pruned_count := lo_notifications_pruned_count st2 + n\<rparr>"
    "length (drop n (lo_notifications st2)) \<le> MAX_NOTIFICATIONS" using cap_notifications_drop by blast
  define st3 where "st3 = cap_notifications st2"
  have st3: "evict_old ext st = cap_blocks st3" by (simp add: evict_old_def Let_def c_def [symmetric] st1_def [symmetric] st2_def [symmetric] st3_def)
  have same: "lo_announcements (cap_blocks st3) = lo_announcements st2" "lo_announcement_count (cap_blocks st3) = lo_announcement_count st2"
    "lo_announcement_bytes (cap_blocks st3) = lo_announcement_bytes st2" "lo_eb_tx_hashes (cap_blocks st3) = lo_eb_tx_hashes st2"
    "lo_votes (cap_blocks st3) = lo_votes st2" "retention_cutoff (cap_blocks st3) = c" "lo_capacity (cap_blocks st3) = lo_capacity st3"
    "lo_notifications (cap_blocks st3) = lo_notifications st3" "lo_blocks st3 = lo_blocks st2" "lo_block_txs st3 = lo_block_txs st2"
    using frame by (simp_all add: st3_def n(1) cap_blocks_def Let_def retention_cutoff_def)
  have "within_retention (cap_blocks st3)"
    using kept votes pruned cap_blocks_ok(2,3) [of st3] by (auto simp: within_retention_def same frame)
  moreover have "lstore_bounds (cap_blocks st3)"
    using pruned n cap_blocks_ok(1) [of st3] by (simp add: lstore_bounds_def same) (simp add: st3_def)
  moreover have "header_totals (cap_blocks st3)" using pruned by (simp add: header_totals_def same)
  ultimately show ?thesis by (simp add: lstore_inv_def st3)
qed

lemma bump_version_inv: "header_totals st \<Longrightarrow> lstore_inv (bump_version ext st)"
  unfolding bump_version_def by (intro evict_old_inv) (simp add: header_totals_def)

lemma header_totals_cong:
  "header_totals st \<Longrightarrow> lo_announcements st' = lo_announcements st \<Longrightarrow> lo_announcement_count st' = lo_announcement_count st \<Longrightarrow>
    lo_announcement_bytes st' = lo_announcement_bytes st \<Longrightarrow> header_totals st'"
  by (simp add: header_totals_def)

lemma push_frame [simp]:
  "lo_announcements (push_notification ext st source notif was_new) = lo_announcements st"
  "lo_announcement_count (push_notification ext st source notif was_new) = lo_announcement_count st"
  "lo_announcement_bytes (push_notification ext st source notif was_new) = lo_announcement_bytes st"
  by (simp_all add: push_notification_def Let_def split: option.splits)

lemma reoffer_frame [simp]:
  "lo_announcements (fold (\<lambda>key st. reoffer_one st key) due st) = lo_announcements st"
  "lo_announcement_count (fold (\<lambda>key st. reoffer_one st key) due st) = lo_announcement_count st"
  "lo_announcement_bytes (fold (\<lambda>key st. reoffer_one st key) due st) = lo_announcement_bytes st"
  by (induction due arbitrary: st) (simp_all add: reoffer_one_def)

lemma own_offers_inv: "lstore_inv (st\<lparr>lo_own_offers := own\<rparr>) \<longleftrightarrow> lstore_inv st"
  by (simp add: lstore_inv_def header_totals_def within_retention_def lstore_bounds_def retention_cutoff_def)

lemma announce_inv:
  assumes "lstore_inv st"
  shows "lstore_inv (announce_block ext st h0 source)"
proof -
  define checked where "checked = (case source of None \<Rightarrow> Some h0
     | Some _ \<Rightarrow> map_option (\<lambda>parsed. h0\<lparr>wh_parsed := Some parsed\<rparr>) (cx_validate_header ext (wh_raw h0)))"
  show ?thesis
  proof (cases checked)
    case None
    then show ?thesis using assms by (simp add: announce_block_def checked_def [symmetric])
  next
    case (Some h)
    have t: "header_totals (snd (retain_header st h source))" using assms retain_header_totals by (simp add: lstore_inv_def)
    show ?thesis unfolding announce_block_def checked_def [symmetric] Let_def case_prod_unfold Some option.case
      by (rule bump_version_inv, rule header_totals_cong [OF t]) (simp_all split: option.splits)
  qed
qed

lemma olen_0_oget: "olen m = 0 \<Longrightarrow> oget m k = None"
  by (simp add: oget_entries olen_def)

lemma lo_is_empty_inv:
  assumes "lo_is_empty st" and "lstore_inv st"
  shows "lstore_inv (st\<lparr>lo_max_slot := s\<rparr>)"
proof -
  have "\<not> ohas (lo_blocks st) k" "\<not> ohas (lo_block_txs st) k" "\<not> ohas (lo_eb_tx_hashes st) k" "\<not> ohas (lo_announcements st) k" "oget (lo_votes st) v = None" for k v
    using assms(1) by (simp_all add: lo_is_empty_def ohas_def olen_0_oget)
  then show ?thesis using assms(2) by (simp add: lstore_inv_def header_totals_def within_retention_def lstore_bounds_def)
qed

lemma lstore_step_inv: "lstore_step ext st st' \<Longrightarrow> lstore_inv st \<Longrightarrow> lstore_inv st'"
proof (induction rule: lstore_step.induct)
  case (lo_block st p block source)
  then show ?case
    by (cases p) (auto simp: inject_block_def Let_def lstore_inv_def [of st] intro!: bump_version_inv elim: header_totals_cong)
next
  case (lo_announce st h source)
  then show ?case by (simp add: announce_inv)
next
  case (lo_txs st p indexed source)
  then show ?case
    by (cases p) (auto simp: inject_block_txs_def Let_def lstore_inv_def [of st] intro!: bump_version_inv elim: header_totals_cong)
next
  case (lo_votes st votes source)
  then have t: "header_totals st" by (simp add: lstore_inv_def)
  show ?case
  proof (cases "votes = []")
    case False
    show ?thesis unfolding inject_votes_def if_not_P [OF False] Let_def case_prod_unfold
      by (rule bump_version_inv, rule header_totals_cong [OF t]) simp_all
  qed (use lo_votes in \<open>simp add: inject_votes_def\<close>)
next
  case (lo_served st slot hash)
  then show ?case by (simp add: lo_get_block_def Let_def own_offers_inv)
next
  case (lo_reoffer st current_slot)
  then have t: "header_totals st" by (simp add: lstore_inv_def)
  have "header_totals (evict_old ext (fold (\<lambda>key st. reoffer_one st key) due (st\<lparr>lo_own_offers := own\<rparr>)))" for due own
    using evict_old_inv [OF header_totals_cong [OF t]] by (simp add: lstore_inv_def)
  then show ?case using lo_reoffer by (auto simp: reoffer_unfetched_def Let_def own_offers_inv intro!: bump_version_inv)
next
  case (lo_manifest st p tx_hashes)
  then show ?case
    by (cases p) (auto simp: lo_record_eb_manifest_def lstore_inv_def [of st] intro!: bump_version_inv elim: header_totals_cong)
next
  case (lo_tick st current_slot)
  then have t: "header_totals (st\<lparr>lo_max_slot := current_slot\<rparr>)" by (simp add: lstore_inv_def header_totals_def)
  have e: "lstore_inv (st\<lparr>lo_max_slot := current_slot\<rparr>)" if "lo_is_empty (st\<lparr>lo_max_slot := current_slot\<rparr>)"
    using lo_is_empty_inv [OF _ lo_tick] that by (simp add: lo_is_empty_def)
  then show ?case using lo_tick evict_old_inv [OF t] by (simp add: tick_slot_def Let_def)
qed

lemma lstore_new_inv: "lstore_inv (leios_store_new_with_retention capacity retention)"
  by (simp add: lstore_inv_def leios_store_new_with_retention_def header_totals_def within_retention_def lstore_bounds_def olen_def)

text \<open>C25: what a Leios store holds is bounded whatever peers send it. In every reachable store the running totals of
  retained announcement headers are the real ones (the subtractions of eviction never go below zero), at most 10000
  headers of at most 16 MiB and at most 10000 notifications are kept, the endorser blocks fit the capacity, and no
  block, transaction set, manifest, announcement or vote is older than the retention cutoff.\<close>

theorem leios_store_bounded:
  assumes "lstore_run ext (leios_store_new_with_retention capacity retention) st"
  shows "header_totals st \<and> within_retention st \<and> lstore_bounds st"
proof -
  have "lstore_inv st" using assms by induction (auto intro: lstore_new_inv lstore_step_inv)
  then show ?thesis by (simp add: lstore_inv_def)
qed

text \<open>A run of two injections with a retention of one slot: the second block evicts the first.\<close>

definition demo_codec :: codec_ext where
  "demo_codec = \<lparr>cx_header_hash = (\<lambda>_. 0), cx_validate_header = (\<lambda>_. None), cx_blake256 = (\<lambda>_. 0)\<rparr>"

definition demo_empty :: leios_store where "demo_empty = leios_store_new_with_retention 4 1"
definition demo_one :: leios_store where "demo_one = inject_block demo_codec demo_empty (Specific 1 11) [1, 2] None"
definition demo_two :: leios_store where "demo_two = inject_block demo_codec demo_one (Specific 9 12) [3] (Some 5)"

lemma demo_lstore_run: "lstore_run demo_codec demo_empty demo_two"
proof -
  have "lstore_run demo_codec demo_empty demo_one" unfolding demo_one_def by (rule lr_next [OF lr_here lo_block])
  then show ?thesis unfolding demo_two_def by (rule lr_next [OF _ lo_block])
qed

lemma cap_notifications_code [code]:
  "cap_notifications st =
     (if int (length (lo_notifications st)) > 10000 then
        (case lo_notifications st of
           [] \<Rightarrow> st
         | _ # rest \<Rightarrow>
             cap_notifications
               (st\<lparr>lo_notifications := rest, lo_notifications_pruned_count := lo_notifications_pruned_count st + 1\<rparr>))
      else st)"
  by (subst cap_notifications.simps) (simp add: MAX_NOTIFICATIONS_def)

lemma u32_size_code [code]: "u32_size block = (if int (length block) < 4294967296 then of_nat (length block) else - 1)"
  by (simp add: u32_size_def)

theorem leios_store_bounded_witness:
  "lstore_run demo_codec (leios_store_new_with_retention 4 1) demo_two \<and> lstore_bounds demo_two \<and>
   okeys (lo_blocks demo_two) = [EbKey 9 12]"
proof (intro conjI)
  show run: "lstore_run demo_codec (leios_store_new_with_retention 4 1) demo_two" using demo_lstore_run by (simp add: demo_empty_def)
  show "lstore_bounds demo_two" using leios_store_bounded [OF run] by simp
  show "okeys (lo_blocks demo_two) = [EbKey 9 12]" by code_simp
qed

theorem notification_log_exact_witness:
  "map ne_notification (fst (notifications_after demo_two 0)) = [BlockOffer (Specific 9 12) 1] \<and>
   lstore_run demo_codec demo_empty demo_two \<and> (\<exists>new :: leios_notification list. length new = 2)"
proof (intro conjI)
  show "map ne_notification (fst (notifications_after demo_two 0)) = [BlockOffer (Specific 9 12) 1]" by code_simp
  show "lstore_run demo_codec demo_empty demo_two" by (rule demo_lstore_run)
  have "notification_count demo_empty = 0" by (simp add: notification_count_def demo_empty_def leios_store_new_with_retention_def)
  moreover have "notification_count demo_two = 2" by code_simp
  ultimately show "\<exists>new :: leios_notification list. length new = 2" using notification_log_exact [OF demo_lstore_run] by force
qed

end
