(* ===== verification/Leios_Server.thy ===== *)
theory Leios_Server
  imports Leios_Store
begin

text \<open>
  The Leios responders: \<open>NotifyState\<close> of \<open>net-rs/net-core/src/peer/leios_notify_state.rs\<close>, which orders what one
  connection is told, and \<open>serve_leios_notify\<close>, \<open>next_outbound_notification\<close> and \<open>serve_leios_fetch\<close> of
  \<open>peer/server_handlers.rs\<close>, over the Leios store.

  \<^item> The LeiosNotify responder is a task that races its peer against a future that looks for the next notification.
    Here it is a state machine: the phase is where that future stands, and \<open>ln_step\<close> has one case per thing that can
    happen. The events come in any order, so the bias of the \<open>select!\<close> is one of the schedules covered. Each call into
    the store is a step of its own, except that one pass of \<open>next_offer\<close> sees one store.
  \<^item> The store's operations of other tasks happen between any two steps of the responder.
  \<^item> The controls are the three fields of \<open>LeiosControl\<close> the responder reads; a missing \<open>OutboundControls\<close> is the
    default. They may change at any time.
  \<^item> Announcements carry the parsed header inside the node; \<open>ln_wire\<close> is what goes on the wire.
\<close>

subsection \<open>Controls\<close>

datatype eb_size_policy = SizeHonest | SizeLinear u32 u32 u32

definition eb_size_apply :: "eb_size_policy \<Rightarrow> u32 \<Rightarrow> u32" where
  "eb_size_apply policy eb_size =
     (case policy of
        SizeHonest \<Rightarrow> eb_size
      | SizeLinear scale_num scale_den offset \<Rightarrow>
          let den = uint (max scale_den 1);
              scaled = uint eb_size * uint scale_num div den;
              with_offset = scaled + sint offset
          in word_of_int (min (max with_offset 0) (2 ^ 32 - 1)))"

record notify_control =
  lc_offer_eb_size :: eb_size_policy
  lc_echo_to_source :: bool
  lc_withhold_announce :: bool

definition honest_notify_control :: notify_control where
  "honest_notify_control = \<lparr>lc_offer_eb_size = SizeHonest, lc_echo_to_source = False, lc_withhold_announce = False\<rparr>"

subsection \<open>What a connection has been told\<close>

datatype ln_outbound =
    OutAnnouncement full_header
  | OutOffer point u32
  | OutTxsOffer point
  | OutVotes "vote list"
  | OutCanceled
  | OutDone

fun ln_wire :: "ln_outbound \<Rightarrow> ln_message" where
  "ln_wire (OutAnnouncement h) = MsgLeiosBlockAnnouncement (wh_raw h)"
| "ln_wire (OutOffer p s) = MsgLeiosBlockOffer p s"
| "ln_wire (OutTxsOffer p) = MsgLeiosBlockTxsOffer p"
| "ln_wire (OutVotes vs) = MsgLeiosVotes vs"
| "ln_wire OutCanceled = MsgCanceled"
| "ln_wire OutDone = LN_MsgDone"

record pending_offer =
  po_from_peer :: bool
  po_local :: bool
  po_size :: u32

record block_state =
  bs_announced :: bool
  bs_body_sent :: bool
  bs_txs_sent :: bool
  bs_body :: "pending_offer option"
  bs_txs :: "pending_offer option"

definition block_state_default :: block_state where
  "block_state_default = \<lparr>bs_announced = False, bs_body_sent = False, bs_txs_sent = False, bs_body = None, bs_txs = None\<rparr>"

record notify_state =
  ns_blocks :: "(eb_key, block_state) omap"
  ns_headers :: "(eb_key, unit) omap"

definition notify_state_default :: notify_state where
  "notify_state_default = \<lparr>ns_blocks = oempty, ns_headers = oempty\<rparr>"

fun point_key :: "point \<Rightarrow> eb_key option" where
  "point_key (Specific slot hash) = Some (EbKey slot hash)"
| "point_key Origin = None"

definition announced_key :: "full_header \<Rightarrow> eb_key option" where
  "announced_key h =
     (case wh_parsed h of
        None \<Rightarrow> None
      | Some parsed \<Rightarrow> map_option (\<lambda>eb. EbKey (hi_slot parsed) (fst eb)) (hi_announced_eb parsed))"

definition header_key :: "codec_ext \<Rightarrow> full_header \<Rightarrow> eb_key" where
  "header_key ext h =
     (case Option.bind (wrapped_point ext h) point_key of
        Some key \<Rightarrow> key
      | None \<Rightarrow> EbKey 0 (cx_blake256 ext (wh_raw h)))"

definition ns_prune :: "u64 \<Rightarrow> notify_state \<Rightarrow> notify_state" where
  "ns_prune cutoff ns =
     ns\<lparr>ns_blocks := oretain (\<lambda>k _. cutoff \<le> ebk_slot k) (ns_blocks ns),
        ns_headers := oretain (\<lambda>k _. cutoff \<le> ebk_slot k) (ns_headers ns)\<rparr>"

definition at_capacity :: "nat \<Rightarrow> bool" where
  "at_capacity n \<longleftrightarrow> n = MAX_NOTIFICATIONS"

lemma at_capacity_code [code]: "at_capacity n \<longleftrightarrow> int n = 10000"
  by (simp add: at_capacity_def MAX_NOTIFICATIONS_def)

text \<open>\<open>Err(())\<close> is \<open>None\<close>: the history is full.\<close>

definition ns_block :: "eb_key \<Rightarrow> notify_state \<Rightarrow> notify_state option" where
  "ns_block key ns =
     (if \<not> ohas (ns_blocks ns) key \<and> at_capacity (olen (ns_blocks ns)) then None
      else Some (ns\<lparr>ns_blocks := oor_insert key block_state_default (ns_blocks ns)\<rparr>))"

definition prepare_header :: "codec_ext \<Rightarrow> full_header \<Rightarrow> notify_state \<Rightarrow> (ln_outbound option \<times> notify_state) option" where
  "prepare_header ext h ns =
     (if ohas (ns_headers ns) (header_key ext h) then Some (None, ns)
      else if at_capacity (olen (ns_headers ns)) then None
      else case announced_key h of
             None \<Rightarrow> Some (Some (OutAnnouncement h), ns)
           | Some key \<Rightarrow> map_option (\<lambda>ns'. (Some (OutAnnouncement h), ns')) (ns_block key ns))"

definition observe_offer :: "point \<Rightarrow> u64 \<Rightarrow> (block_state \<Rightarrow> block_state) \<Rightarrow> notify_state \<Rightarrow> (ln_outbound option \<times> notify_state) option" where
  "observe_offer p cutoff note ns =
     (case point_key p of
        None \<Rightarrow> Some (None, ns)
      | Some key \<Rightarrow>
          if ebk_slot key < cutoff then Some (None, ns)
          else map_option (\<lambda>ns'. (None, ns'\<lparr>ns_blocks := oupdate key note (ns_blocks ns')\<rparr>)) (ns_block key ns))"

definition observe ::
  "codec_ext \<Rightarrow> notification_entry \<Rightarrow> peer_id \<Rightarrow> notify_control \<Rightarrow> u64 \<Rightarrow> notify_state \<Rightarrow> (ln_outbound option \<times> notify_state) option" where
  "observe ext entry peer control cutoff ns =
     (let from_peer = (peer \<in> set (ne_sources entry));
          is_local = (ne_sources entry = [])
      in if from_peer \<and> \<not> lc_echo_to_source control then Some (None, ns)
         else case ne_notification entry of
                BlockOffer p eb_size \<Rightarrow>
                  observe_offer p cutoff (\<lambda>b. if bs_body_sent b then b
                    else b\<lparr>bs_body := Some \<lparr>po_from_peer = from_peer, po_local = is_local, po_size = eb_size\<rparr>\<rparr>) ns
              | BlockTxsOffer p \<Rightarrow>
                  observe_offer p cutoff (\<lambda>b. if bs_txs_sent b then b
                    else b\<lparr>bs_txs := Some \<lparr>po_from_peer = from_peer, po_local = is_local, po_size = 0\<rparr>\<rparr>) ns
              | BlockAnnouncement h \<Rightarrow>
                  if (case wh_parsed h of Some info \<Rightarrow> hi_slot info < cutoff | None \<Rightarrow> False) \<or>
                     is_local \<and> lc_withhold_announce control
                  then Some (None, ns) else prepare_header ext h ns
              | VotesNotification retention_slot votes \<Rightarrow>
                  Some (if cutoff \<le> retention_slot then Some (OutVotes votes) else None, ns))"

text \<open>The candidates of \<open>next_offer\<close> in the order its two loops visit them, and what the body of the loops does with one:
  \<open>continue\<close> is \<open>None\<close>.\<close>

definition offer_candidates :: "notify_state \<Rightarrow> (eb_key \<times> block_state \<times> bool \<times> pending_offer option) list" where
  "offer_candidates ns =
     concat (map (\<lambda>(key, b). [(key, b, False, bs_body b), (key, b, True, bs_txs b)]) (entries (ns_blocks ns)))"

definition try_offer ::
  "leios_store \<Rightarrow> notify_control \<Rightarrow> notify_state \<Rightarrow> eb_key \<times> block_state \<times> bool \<times> pending_offer option \<Rightarrow> (unit + ln_outbound) option" where
  "try_offer store control ns cand =
     (case cand of (key, b, txs, pending) \<Rightarrow>
        (case pending of
           None \<Rightarrow> None
         | Some offer \<Rightarrow>
             if \<not> has_offer store (ebk_slot key) (ebk_hash key) txs then None
             else if po_from_peer offer \<and> \<not> lc_echo_to_source control then None
             else if \<not> bs_announced b \<and> \<not> (po_local offer \<and> lc_withhold_announce control) then
               (case announcement store (ebk_slot key) (ebk_hash key) of
                  None \<Rightarrow> None
                | Some header \<Rightarrow>
                    if at_capacity (olen (ns_headers ns)) then Some (Inl ()) else Some (Inr (OutAnnouncement header)))
             else
               (let p = Specific (ebk_slot key) (ebk_hash key)
                in Some (Inr (if txs then OutTxsOffer p
                              else OutOffer p (eb_size_apply (lc_offer_eb_size control) (po_size offer)))))))"

fun first_offer :: "('c \<Rightarrow> (unit + ln_outbound) option) \<Rightarrow> 'c list \<Rightarrow> (unit + ln_outbound) option" where
  "first_offer try [] = None"
| "first_offer try (c # cs) = (case try c of None \<Rightarrow> first_offer try cs | Some r \<Rightarrow> Some r)"

definition next_offer :: "leios_store \<Rightarrow> notify_control \<Rightarrow> notify_state \<Rightarrow> (unit + ln_outbound) option" where
  "next_offer store control ns = first_offer (try_offer store control ns) (offer_candidates ns)"

definition ns_sent :: "codec_ext \<Rightarrow> ln_outbound \<Rightarrow> notify_state \<Rightarrow> notify_state" where
  "ns_sent ext msg ns =
     (case msg of
        OutAnnouncement h \<Rightarrow>
          (let ns1 = ns\<lparr>ns_headers := oput (header_key ext h) () (ns_headers ns)\<rparr>
           in case announced_key h of
                None \<Rightarrow> ns1
              | Some key \<Rightarrow> ns1\<lparr>ns_blocks := oupdate key (\<lambda>b. b\<lparr>bs_announced := True\<rparr>) (ns_blocks ns1)\<rparr>)
      | OutOffer p _ \<Rightarrow>
          (case point_key p of
             None \<Rightarrow> ns
           | Some key \<Rightarrow> ns\<lparr>ns_blocks := oupdate key (\<lambda>b. b\<lparr>bs_body_sent := True, bs_body := None\<rparr>) (ns_blocks ns)\<rparr>)
      | OutTxsOffer p \<Rightarrow>
          (case point_key p of
             None \<Rightarrow> ns
           | Some key \<Rightarrow> ns\<lparr>ns_blocks := oupdate key (\<lambda>b. b\<lparr>bs_txs_sent := True, bs_txs := None\<rparr>) (ns_blocks ns)\<rparr>)
      | _ \<Rightarrow> ns)"

subsection \<open>The LeiosNotify responder\<close>

datatype leios_notify_error =
  HistoryCapacityExceeded | TooManyPendingRequests | UnexpectedMessage | StoreClosed | LnMux mux_error

datatype ln_phase =
    LnOpening
  | LnFresh
  | LnScanning "notification_entry list"
  | LnWaiting
  | LnStopped "leios_notify_error + unit"

text \<open>\<open>lns_sent\<close> and \<open>lns_requests\<close> record what went out and how many requests came in.\<close>

record ln_server =
  lns_phase :: ln_phase
  lns_state :: notify_state
  lns_read_index :: nat
  lns_pending :: nat
  lns_sent :: "ln_outbound list"
  lns_requests :: nat

definition ln_server_init :: ln_server where
  "ln_server_init = \<lparr>lns_phase = LnOpening, lns_state = notify_state_default, lns_read_index = 0, lns_pending = 0,
     lns_sent = [], lns_requests = 0\<rparr>"

definition MAX_PENDING_REQUESTS :: nat where "MAX_PENDING_REQUESTS = 1000"

datatype ln_event =
    LnIncoming ln_message
  | LnPoll
  | LnWake
  | LnStoreClosed
  | LnDeadline
  | LnCleanup
  | LnMuxFailed mux_error

definition ln_stop :: "leios_notify_error \<Rightarrow> ln_server \<Rightarrow> ln_server" where
  "ln_stop e srv = srv\<lparr>lns_phase := LnStopped (Inl e)\<rparr>"

text \<open>The future returned a message: it is sent, the history records it, and a new future is made.\<close>

definition ln_deliver :: "codec_ext \<Rightarrow> ln_outbound \<Rightarrow> ln_server \<Rightarrow> ln_server" where
  "ln_deliver ext msg srv =
     srv\<lparr>lns_sent := lns_sent srv @ [msg], lns_state := ns_sent ext msg (lns_state srv), lns_pending := lns_pending srv - 1,
         lns_phase := LnFresh\<rparr>"

definition ln_incoming :: "leios_store \<Rightarrow> ln_message \<Rightarrow> ln_server \<Rightarrow> ln_server" where
  "ln_incoming store msg srv =
     (if lns_phase srv = LnOpening then
        (case msg of
           MsgLeiosNotificationRequestNext \<Rightarrow>
             srv\<lparr>lns_phase := LnFresh, lns_read_index := notification_count store, lns_pending := 1, lns_requests := 1\<rparr>
         | MsgQuit \<Rightarrow> srv\<lparr>lns_sent := lns_sent srv @ [OutDone], lns_phase := LnStopped (Inr ())\<rparr>
         | _ \<Rightarrow> ln_stop UnexpectedMessage srv)
      else
        (case msg of
           MsgLeiosNotificationRequestNext \<Rightarrow>
             if lns_pending srv = MAX_PENDING_REQUESTS then ln_stop TooManyPendingRequests srv
             else srv\<lparr>lns_pending := lns_pending srv + 1, lns_requests := lns_requests srv + 1\<rparr>
         | MsgQuit \<Rightarrow>
             srv\<lparr>lns_sent := lns_sent srv @ replicate (lns_pending srv) OutCanceled @ [OutDone], lns_phase := LnStopped (Inr ())\<rparr>
         | _ \<Rightarrow> ln_stop UnexpectedMessage srv))"

text \<open>One poll of \<open>next_outbound_notification\<close>: the top of its loop, or one entry of the log.\<close>

definition ln_poll :: "codec_ext \<Rightarrow> peer_id \<Rightarrow> notify_control \<Rightarrow> leios_store \<Rightarrow> ln_server \<Rightarrow> ln_server" where
  "ln_poll ext peer control store srv =
     (case lns_phase srv of
        LnFresh \<Rightarrow>
          let ns = ns_prune (retention_cutoff store) (lns_state srv); srv1 = srv\<lparr>lns_state := ns\<rparr>
          in (case next_offer store control ns of
                Some (Inr msg) \<Rightarrow> ln_deliver ext msg srv1
              | Some (Inl _) \<Rightarrow> ln_stop HistoryCapacityExceeded srv1
              | None \<Rightarrow>
                  let (es, after) = notifications_after store (lns_read_index srv1)
                  in srv1\<lparr>lns_phase := LnScanning es, lns_read_index := after\<rparr>)
      | LnScanning [] \<Rightarrow> srv\<lparr>lns_phase := LnWaiting\<rparr>
      | LnScanning (entry # es) \<Rightarrow>
          let srv1 = srv\<lparr>lns_read_index := lns_read_index srv + 1\<rparr>
          in (case observe ext entry peer control (retention_cutoff store) (lns_state srv1) of
                None \<Rightarrow> ln_stop HistoryCapacityExceeded srv1
              | Some (Some msg, ns) \<Rightarrow> ln_deliver ext msg (srv1\<lparr>lns_state := ns\<rparr>)
              | Some (None, ns) \<Rightarrow>
                  let srv2 = srv1\<lparr>lns_state := ns\<rparr>
                  in (case next_offer store control ns of
                        Some (Inr msg) \<Rightarrow> ln_deliver ext msg srv2
                      | Some (Inl _) \<Rightarrow> ln_stop HistoryCapacityExceeded srv2
                      | None \<Rightarrow> srv2\<lparr>lns_phase := LnScanning es\<rparr>))
      | _ \<Rightarrow> srv)"

definition ln_step :: "codec_ext \<Rightarrow> peer_id \<Rightarrow> notify_control \<Rightarrow> leios_store \<Rightarrow> ln_event \<Rightarrow> ln_server \<Rightarrow> ln_server" where
  "ln_step ext peer control store ev srv =
     (case lns_phase srv of
        LnStopped _ \<Rightarrow> srv
      | phase \<Rightarrow>
          (case ev of
             LnIncoming msg \<Rightarrow> ln_incoming store msg srv
           | LnPoll \<Rightarrow> if lns_pending srv > 0 then ln_poll ext peer control store srv else srv
           | LnWake \<Rightarrow> if phase = LnWaiting then srv\<lparr>lns_phase := LnFresh\<rparr> else srv
           | LnStoreClosed \<Rightarrow> if phase = LnWaiting then ln_stop StoreClosed srv else srv
           | LnDeadline \<Rightarrow>
               if phase = LnWaiting
               then ln_deliver ext (OutVotes []) (srv\<lparr>lns_state := ns_prune (retention_cutoff store) (lns_state srv)\<rparr>)
               else srv
           | LnCleanup \<Rightarrow>
               if lns_pending srv = 0 \<and> phase \<noteq> LnOpening
               then srv\<lparr>lns_state := ns_prune (retention_cutoff store) (lns_state srv), lns_phase := LnFresh\<rparr> else srv
           | LnMuxFailed e \<Rightarrow> ln_stop (LnMux e) srv))"

subsection \<open>The LeiosFetch responder\<close>

text \<open>The reply to one message, and whether the responder goes on; without a reply it disconnects.\<close>

definition serve_leios_fetch :: "leios_store \<Rightarrow> lf_message \<Rightarrow> lf_message option \<times> leios_store" where
  "serve_leios_fetch store msg =
     (case msg of
        MsgLeiosBlockRequest p \<Rightarrow>
          (case p of
             Origin \<Rightarrow> (None, store)
           | Specific slot hash \<Rightarrow>
               let (block, store1) = lo_get_block store slot hash in (map_option MsgLeiosBlock block, store1))
      | MsgLeiosBlockTxsRequest p bitmap \<Rightarrow>
          (case p of
             Origin \<Rightarrow> (None, store)
           | Specific slot hash \<Rightarrow> (map_option MsgLeiosBlockTxs (get_block_txs store slot hash bitmap), store))
      | _ \<Rightarrow> (None, store))"


subsection \<open>What the responder relies on in the store\<close>

definition announcements_keyed :: "leios_store \<Rightarrow> bool" where
  "announcements_keyed st \<longleftrightarrow> (\<forall>k hs h. oget (lo_announcements st) k = Some hs \<and> h \<in> set hs \<longrightarrow> announced_key h = Some k)"

lemma prune_front_store:
  "lo_max_slot (prune_front ext c st) = lo_max_slot st" "lo_retention_slots (prune_front ext c st) = lo_retention_slots st"
  "lo_announcements (prune_front ext c st) = lo_announcements st"
  using prune_front_drop [of ext c st] by auto

lemma cap_notifications_store:
  "lo_max_slot (cap_notifications st) = lo_max_slot st" "lo_retention_slots (cap_notifications st) = lo_retention_slots st"
  "lo_announcements (cap_notifications st) = lo_announcements st"
  using cap_notifications_drop [of st] by auto

lemma prune_announcements_store:
  "lo_max_slot (prune_announcements c es st) = lo_max_slot st" "lo_retention_slots (prune_announcements c es st) = lo_retention_slots st"
  "oget (lo_announcements (prune_announcements c es st)) k = Some hs \<Longrightarrow> oget (lo_announcements st) k = Some hs"
  by (induction c es st rule: prune_announcements.induct) (auto simp: drop_announcement_def oget_odel split: if_splits)

lemma evict_slots_store:
  "lo_max_slot (evict_slots ext c st) = lo_max_slot st" "lo_retention_slots (evict_slots ext c st) = lo_retention_slots st"
  "lo_announcements (evict_slots ext c st) = lo_announcements st"
  by (simp_all add: evict_slots_def prune_front_store)

lemma cap_blocks_store:
  "lo_max_slot (cap_blocks st) = lo_max_slot st" "lo_retention_slots (cap_blocks st) = lo_retention_slots st"
  "lo_announcements (cap_blocks st) = lo_announcements st"
  by (simp_all add: cap_blocks_def Let_def)

lemma evict_old_store:
  "lo_max_slot (evict_old ext st) = lo_max_slot st" "lo_retention_slots (evict_old ext st) = lo_retention_slots st"
  "oget (lo_announcements (evict_old ext st)) k = Some hs \<Longrightarrow> oget (lo_announcements st) k = Some hs"
proof -
  define st1 where "st1 = evict_slots ext (retention_cutoff st) st"
  have st: "evict_old ext st = cap_blocks (cap_notifications (prune_announcements (retention_cutoff st) (entries (lo_announcements st1)) st1))"
    by (simp add: evict_old_def Let_def st1_def)
  show "lo_max_slot (evict_old ext st) = lo_max_slot st" "lo_retention_slots (evict_old ext st) = lo_retention_slots st"
    unfolding st cap_blocks_store cap_notifications_store prune_announcements_store st1_def evict_slots_store by (rule refl)+
  show "oget (lo_announcements st) k = Some hs" if "oget (lo_announcements (evict_old ext st)) k = Some hs"
    using prune_announcements_store(3) that unfolding st cap_blocks_store cap_notifications_store
    by (metis evict_slots_store(3) st1_def)
qed

lemma bump_version_store:
  "lo_max_slot (bump_version ext st) = lo_max_slot st" "lo_retention_slots (bump_version ext st) = lo_retention_slots st"
  "oget (lo_announcements (bump_version ext st)) k = Some hs \<Longrightarrow> oget (lo_announcements st) k = Some hs"
proof -
  show "lo_max_slot (bump_version ext st) = lo_max_slot st" "lo_retention_slots (bump_version ext st) = lo_retention_slots st"
    by (simp_all add: bump_version_def evict_old_store(1,2))
  show "oget (lo_announcements st) k = Some hs" if "oget (lo_announcements (bump_version ext st)) k = Some hs"
    using evict_old_store(3) [OF that [unfolded bump_version_def]] by simp
qed

lemma push_store [simp]:
  "lo_max_slot (push_notification ext st source notif was_new) = lo_max_slot st"
  "lo_retention_slots (push_notification ext st source notif was_new) = lo_retention_slots st"
  by (simp_all add: push_notification_def Let_def split: option.splits)

lemma reoffer_store [simp]:
  "lo_max_slot (fold (\<lambda>key st. reoffer_one st key) due st) = lo_max_slot st"
  "lo_retention_slots (fold (\<lambda>key st. reoffer_one st key) due st) = lo_retention_slots st"
  by (induction due arbitrary: st) (simp_all add: reoffer_one_def)

lemma retain_header_store:
  "lo_max_slot st \<le> lo_max_slot (snd (retain_header st h source))" "lo_retention_slots (snd (retain_header st h source)) = lo_retention_slots st"
  "announcements_keyed st \<Longrightarrow> announcements_keyed (snd (retain_header st h source))"
proof -
  show "lo_max_slot st \<le> lo_max_slot (snd (retain_header st h source))" "lo_retention_slots (snd (retain_header st h source)) = lo_retention_slots st"
    by (auto simp: retain_header_def Let_def split: option.splits)
  assume k: "announcements_keyed st"
  have put: "announcements_keyed st'" if "lo_announcements st' = oput key (retained_headers st key @ [h]) (lo_announcements st)" "announced_key h = Some key" for st' key
    using k that by (auto simp: announcements_keyed_def oget_oput retained_headers_def split: if_splits option.splits)
  have same: "announcements_keyed st'" if "lo_announcements st' = lo_announcements st" for st'
    using k that by (simp add: announcements_keyed_def)
  have headers: "retained_headers (st\<lparr>lo_max_slot := ms\<rparr>) key = retained_headers st key" for ms key
    by (simp add: retained_headers_def)
  show "announcements_keyed (snd (retain_header st h source))"
    unfolding retain_header_def Let_def
    by (auto split: option.splits simp: headers announced_key_def intro: same put)
qed

definition clock_le :: "leios_store \<Rightarrow> leios_store \<Rightarrow> bool" where
  "clock_le st st' \<longleftrightarrow> lo_max_slot st \<le> lo_max_slot st' \<and> lo_retention_slots st' = lo_retention_slots st"

lemma clock_le_cutoff: "clock_le st st' \<Longrightarrow> retention_cutoff st \<le> retention_cutoff st'"
  by (simp add: clock_le_def retention_cutoff_def saturating_sub_mono)

lemma announce_store:
  shows "clock_le st (announce_block ext st h0 source)"
    and "announcements_keyed st \<Longrightarrow> announcements_keyed (announce_block ext st h0 source)"
proof -
  define checked where "checked = (case source of None \<Rightarrow> Some h0
     | Some _ \<Rightarrow> map_option (\<lambda>parsed. h0\<lparr>wh_parsed := Some parsed\<rparr>) (cx_validate_header ext (wh_raw h0)))"
  show "clock_le st (announce_block ext st h0 source)"
  proof (cases checked)
    case (Some h)
    show ?thesis unfolding announce_block_def checked_def [symmetric] Let_def case_prod_unfold Some option.case clock_le_def bump_version_store
      using retain_header_store(1,2) [of st h source] by (simp split: option.splits)
  qed (simp add: announce_block_def checked_def [symmetric] clock_le_def)
  show "announcements_keyed (announce_block ext st h0 source)" if k: "announcements_keyed st"
  proof (cases checked)
    case (Some h)
    define st2 where "st2 = (case update_last (\<lambda>e. announcement_raw (ne_notification e) = Some (wh_raw h)) (add_source source)
          (lo_notifications (snd (retain_header st h source))) of
        Some ns \<Rightarrow> snd (retain_header st h source)\<lparr>lo_notifications := ns\<rparr>
      | None \<Rightarrow> if fst (retain_header st h source) then push_notification ext (snd (retain_header st h source)) source (BlockAnnouncement h) True
          else snd (retain_header st h source))"
    have "announce_block ext st h0 source = bump_version ext st2"
      unfolding announce_block_def checked_def [symmetric] st2_def Let_def case_prod_unfold by (simp add: Some)
    moreover have "announcements_keyed st2"
      using retain_header_store(3) [OF k, of h source] by (auto simp: st2_def announcements_keyed_def split: option.splits)
    ultimately show ?thesis using bump_version_store(3) [of ext st2] unfolding announcements_keyed_def by metis
  qed (simp add: announce_block_def checked_def [symmetric] k)
qed

lemma clock_le_simps:
  "clock_le st (bump_version ext st1) \<longleftrightarrow> clock_le st st1" "clock_le st (evict_old ext st1) \<longleftrightarrow> clock_le st st1"
  by (simp_all add: clock_le_def bump_version_store evict_old_store)

lemma lstore_step_clock: "lstore_step ext st st' \<Longrightarrow> clock_le st st'"
proof (induction rule: lstore_step.induct)
  case (lo_announce st h source)
  then show ?case by (rule announce_store)
next
  case (lo_votes st votes source)
  show ?case by (simp add: inject_votes_def Let_def case_prod_unfold clock_le_simps) (simp add: clock_le_def)
next
  case (lo_reoffer st current_slot)
  show ?case by (simp add: reoffer_unfetched_def Let_def clock_le_simps) (simp add: clock_le_def)
qed (auto simp: inject_block_def inject_block_txs_def lo_get_block_def lo_record_eb_manifest_def tick_slot_def Let_def bump_version_store(1,2) evict_old_store(1,2)
      clock_le_def split: point.splits)

lemma keyed_subset:
  "announcements_keyed st \<Longrightarrow> (\<And>k hs. oget (lo_announcements st') k = Some hs \<Longrightarrow> oget (lo_announcements st) k = Some hs) \<Longrightarrow> announcements_keyed st'"
  unfolding announcements_keyed_def by metis

lemma lstore_step_keyed: "lstore_step ext st st' \<Longrightarrow> announcements_keyed st \<Longrightarrow> announcements_keyed st'"
proof (induction rule: lstore_step.induct)
  case (lo_announce st h source)
  then show ?case by (simp add: announce_store)
next
  case (lo_block st p block source)
  then show ?case
    by (elim keyed_subset) (auto simp: inject_block_def Let_def split: point.splits if_splits dest!: bump_version_store(3))
next
  case (lo_txs st p indexed source)
  then show ?case
    by (elim keyed_subset) (auto simp: inject_block_txs_def Let_def split: point.splits dest!: bump_version_store(3))
next
  case (lo_votes st votes source)
  then show ?case
    by (elim keyed_subset) (auto simp: inject_votes_def Let_def case_prod_unfold split: if_splits dest!: bump_version_store(3))
next
  case (lo_reoffer st current_slot)
  then show ?case
    by (elim keyed_subset) (auto simp: reoffer_unfetched_def Let_def split: if_splits dest!: bump_version_store(3) evict_old_store(3))
next
  case (lo_manifest st p tx_hashes)
  then show ?case
    by (elim keyed_subset) (auto simp: lo_record_eb_manifest_def split: point.splits dest!: bump_version_store(3))
next
  case (lo_tick st current_slot)
  then show ?case
    by (elim keyed_subset) (auto simp: tick_slot_def Let_def split: if_splits dest!: evict_old_store(3))
qed (simp add: lo_get_block_def Let_def announcements_keyed_def)

lemma announcement_keyed: "announcements_keyed st \<Longrightarrow> announcement st slot hash = Some h \<Longrightarrow> announced_key h = Some (EbKey slot hash)"
  by (fastforce simp: announcement_def announcements_keyed_def split: option.splits list.splits)

lemma has_offer_live:
  assumes "within_retention st" and "has_offer st slot hash txs"
  shows "retention_cutoff st \<le> slot"
proof -
  have "ohas (lo_blocks st) (EbKey slot hash) \<or> ohas (lo_block_txs st) (EbKey slot hash)" using assms(2) by (auto simp: has_offer_def split: if_splits)
  then show ?thesis using assms(1) by (auto simp: within_retention_def)
qed


subsection \<open>The order of what a connection is told\<close>

fun offer_of :: "ln_outbound \<Rightarrow> (bool \<times> eb_key) option" where
  "offer_of (OutOffer p _) = map_option (Pair False) (point_key p)"
| "offer_of (OutTxsOffer p) = map_option (Pair True) (point_key p)"
| "offer_of _ = None"

fun announces :: "codec_ext \<Rightarrow> ln_outbound \<Rightarrow> (eb_key \<times> eb_key option) option" where
  "announces ext (OutAnnouncement h) = (if wh_parsed h = None then None else Some (header_key ext h, announced_key h))"
| "announces ext _ = None"

definition no_repeats :: "codec_ext \<Rightarrow> ln_outbound list \<Rightarrow> bool" where
  "no_repeats ext sent \<longleftrightarrow> distinct (List.map_filter offer_of sent) \<and> distinct (List.map_filter (announces ext) sent)"

definition announced_first :: "ln_outbound list \<Rightarrow> bool" where
  "announced_first sent \<longleftrightarrow> (\<forall>xs m ys txs key. sent = xs @ m # ys \<and> offer_of m = Some (txs, key) \<longrightarrow>
     (\<exists>h. OutAnnouncement h \<in> set xs \<and> announced_key h = Some key))"

definition bs_done :: "bool \<Rightarrow> block_state \<Rightarrow> bool" where
  "bs_done txs b \<longleftrightarrow> (if txs then bs_txs_sent b else bs_body_sent b)"

definition bs_pending :: "bool \<Rightarrow> block_state \<Rightarrow> pending_offer option" where
  "bs_pending txs b = (if txs then bs_txs b else bs_body b)"

definition bs_at :: "notify_state \<Rightarrow> eb_key \<Rightarrow> block_state" where
  "bs_at ns k = (case oget (ns_blocks ns) k of Some b \<Rightarrow> b | None \<Rightarrow> block_state_default)"

text \<open>The history of a connection at a retention cutoff \<open>c\<close>: it is true of what was sent, and complete for what may
  still be offered.\<close>

definition told_sound :: "ln_outbound list \<Rightarrow> notify_state \<Rightarrow> bool" where
  "told_sound sent ns \<longleftrightarrow> (\<forall>k. (\<forall>txs. bs_done txs (bs_at ns k) \<longrightarrow> bs_pending txs (bs_at ns k) = None) \<and>
     (bs_announced (bs_at ns k) \<longrightarrow> (\<exists>h. OutAnnouncement h \<in> set sent \<and> announced_key h = Some k)))"

definition told_complete :: "codec_ext \<Rightarrow> u64 \<Rightarrow> ln_outbound list \<Rightarrow> notify_state \<Rightarrow> bool" where
  "told_complete ext c sent ns \<longleftrightarrow>
     (\<forall>m txs k. m \<in> set sent \<and> offer_of m = Some (txs, k) \<and> c \<le> ebk_slot k \<longrightarrow> bs_done txs (bs_at ns k)) \<and>
     (\<forall>h k. OutAnnouncement h \<in> set sent \<and> announced_key h = Some k \<and> c \<le> ebk_slot k \<longrightarrow> bs_announced (bs_at ns k)) \<and>
     (\<forall>h. OutAnnouncement h \<in> set sent \<and> c \<le> ebk_slot (header_key ext h) \<longrightarrow> ohas (ns_headers ns) (header_key ext h))"

definition told :: "codec_ext \<Rightarrow> u64 \<Rightarrow> ln_outbound list \<Rightarrow> notify_state \<Rightarrow> bool" where
  "told ext c sent ns \<longleftrightarrow> told_sound sent ns \<and> told_complete ext c sent ns"

text \<open>A state with the same history is as good.\<close>

definition keeps :: "block_state \<Rightarrow> block_state \<Rightarrow> bool" where
  "keeps b b' \<longleftrightarrow> bs_announced b' = bs_announced b \<and> (\<forall>txs. bs_done txs b' = bs_done txs b \<and> (bs_done txs b \<longrightarrow> bs_pending txs b' = bs_pending txs b))"

definition extends :: "notify_state \<Rightarrow> notify_state \<Rightarrow> bool" where
  "extends ns ns' \<longleftrightarrow> ns_headers ns' = ns_headers ns \<and> (\<forall>k. keeps (bs_at ns k) (bs_at ns' k))"

lemma keeps_refl [simp]: "keeps b b" by (simp add: keeps_def)

lemma extends_refl [simp]: "extends ns ns" by (simp add: extends_def)

lemma extends_trans: "extends a b \<Longrightarrow> extends b c \<Longrightarrow> extends a c"
  unfolding extends_def keeps_def by metis

lemma told_extends: "told ext c sent ns \<Longrightarrow> extends ns ns' \<Longrightarrow> told ext c sent ns'"
  unfolding told_def told_sound_def told_complete_def extends_def keeps_def by auto

lemma told_mono: "told ext c sent ns \<Longrightarrow> c \<le> c' \<Longrightarrow> told ext c' sent ns"
  unfolding told_def told_complete_def by (meson order_trans)

lemma bs_default [simp]: "\<not> bs_done txs block_state_default" "\<not> bs_announced block_state_default" "bs_pending txs block_state_default = None"
  by (simp_all add: bs_done_def bs_pending_def block_state_default_def)

lemma bs_at_prune: "bs_at (ns_prune c ns) k = (if c \<le> ebk_slot k then bs_at ns k else block_state_default)"
  by (simp add: bs_at_def ns_prune_def oget_oretain split: option.splits)

lemma told_prune: "told ext c sent ns \<Longrightarrow> told ext c sent (ns_prune c ns)"
proof -
  assume t: "told ext c sent ns"
  have "ohas (ns_headers (ns_prune c ns)) k \<longleftrightarrow> ohas (ns_headers ns) k \<and> c \<le> ebk_slot k" for k
    by (auto simp: ns_prune_def ohas_iff_Some oget_oretain split: option.splits)
  then show ?thesis using t unfolding told_def told_sound_def told_complete_def bs_at_prune by auto
qed

lemma ns_block_extends: "ns_block key ns = Some ns' \<Longrightarrow> extends ns ns' \<and> ohas (ns_blocks ns') key"
  by (auto simp: ns_block_def extends_def bs_at_def oget_oor_insert ohas_iff_Some split: if_splits option.splits)

lemma bs_at_update: "bs_at (ns\<lparr>ns_blocks := oupdate key f (ns_blocks ns)\<rparr>) k =
    (if k = key \<and> ohas (ns_blocks ns) key then f (bs_at ns k) else bs_at ns k)"
  by (auto simp: bs_at_def oget_oupdate ohas_iff_Some split: option.splits)

lemma observe_offer_extends:
  assumes "observe_offer p c note ns = Some (msg, ns')" and "\<And>b. keeps b (note b)"
  shows "msg = None \<and> extends ns ns'"
proof -
  have upd: "extends n (n\<lparr>ns_blocks := oupdate key note (ns_blocks n)\<rparr>)" for n key
    using assms(2) by (simp add: extends_def bs_at_update)
  show ?thesis
  proof (cases "point_key p")
    case (Some key)
    show ?thesis
    proof (cases "ns_block key ns")
      case (Some n)
      then show ?thesis
        using assms(1) \<open>point_key p = Some key\<close> extends_trans [OF conjunct1 [OF ns_block_extends [OF Some]] upd [of n key]]
        by (auto simp: observe_offer_def split: if_splits)
    qed (use assms(1) Some in \<open>auto simp: observe_offer_def split: if_splits\<close>)
  qed (use assms(1) in \<open>auto simp: observe_offer_def\<close>)
qed

text \<open>What may be sent at cutoff \<open>c\<close>: an offer that is pending, or an announcement that is new.\<close>

definition sendable :: "codec_ext \<Rightarrow> u64 \<Rightarrow> notify_state \<Rightarrow> ln_outbound \<Rightarrow> bool" where
  "sendable ext c ns m \<longleftrightarrow>
     (\<forall>txs k. offer_of m = Some (txs, k) \<longrightarrow> c \<le> ebk_slot k \<and> ohas (ns_blocks ns) k \<and> bs_pending txs (bs_at ns k) \<noteq> None) \<and>
     (\<forall>h. m = OutAnnouncement h \<longrightarrow>
        (\<forall>k. announced_key h = Some k \<longrightarrow> ohas (ns_blocks ns) k) \<and>
        (wh_parsed h \<noteq> None \<longrightarrow>
           c \<le> ebk_slot (header_key ext h) \<and> \<not> ohas (ns_headers ns) (header_key ext h) \<or>
           (\<exists>k. announced_key h = Some k \<and> c \<le> ebk_slot k \<and> \<not> bs_announced (bs_at ns k))))"

lemma header_key_slot: "wh_parsed h = Some info \<Longrightarrow> ebk_slot (header_key ext h) = hi_slot info"
  by (simp add: header_key_def wrapped_point_def)

lemma observe_told:
  assumes "observe ext entry peer control c ns = Some (msg, ns')"
  shows "extends ns ns' \<and> (\<forall>m. msg = Some m \<longrightarrow> sendable ext c ns' m)"
proof (cases "peer \<in> set (ne_sources entry) \<and> \<not> lc_echo_to_source control")
  case False
  show ?thesis
  proof (cases "ne_notification entry")
    case (BlockOffer p eb_size)
    then obtain x where "observe_offer p c (\<lambda>b. if bs_body_sent b then b else b\<lparr>bs_body := x\<rparr>) ns = Some (msg, ns')"
      using assms False by (auto simp: observe_def Let_def)
    then have "msg = None \<and> extends ns ns'" by (rule observe_offer_extends) (simp add: keeps_def bs_done_def bs_pending_def)
    then show ?thesis by simp
  next
    case (BlockTxsOffer p)
    then obtain x where "observe_offer p c (\<lambda>b. if bs_txs_sent b then b else b\<lparr>bs_txs := x\<rparr>) ns = Some (msg, ns')"
      using assms False by (auto simp: observe_def Let_def)
    then have "msg = None \<and> extends ns ns'" by (rule observe_offer_extends) (simp add: keeps_def bs_done_def bs_pending_def)
    then show ?thesis by simp
  next
    case (BlockAnnouncement h)
    show ?thesis
    proof (cases "(case wh_parsed h of Some info \<Rightarrow> hi_slot info < c | None \<Rightarrow> False) \<or> ne_sources entry = [] \<and> lc_withhold_announce control")
      case skip: False
      then have live: "c \<le> ebk_slot (header_key ext h)" if "wh_parsed h \<noteq> None" using that by (auto simp: header_key_slot)
      have prep: "prepare_header ext h ns = Some (msg, ns')" using assms False skip by (simp add: observe_def Let_def BlockAnnouncement)
      have send: "sendable ext c ns' (OutAnnouncement h)" if "\<not> ohas (ns_headers ns) (header_key ext h)" "ns_headers ns' = ns_headers ns"
          "\<And>k. announced_key h = Some k \<Longrightarrow> ohas (ns_blocks ns') k"
        using that live by (auto simp: sendable_def)
      show ?thesis
      proof (cases "ohas (ns_headers ns) (header_key ext h)")
        case True
        then show ?thesis using prep by (auto simp: prepare_header_def)
      next
        case new: False
        then have m: "msg = Some (OutAnnouncement h)" and b: "case announced_key h of None \<Rightarrow> ns' = ns | Some key \<Rightarrow> ns_block key ns = Some ns'"
          using prep by (auto simp: prepare_header_def split: if_splits option.splits)
        have ext: "extends ns ns'" "\<And>k. announced_key h = Some k \<Longrightarrow> ohas (ns_blocks ns') k"
          using b ns_block_extends by (auto split: option.splits)
        then show ?thesis using send [OF new] m by (auto simp: extends_def)
      qed
    qed (use assms False in \<open>auto simp: observe_def Let_def BlockAnnouncement\<close>)
  next
    case (VotesNotification slot votes)
    then show ?thesis using assms False by (auto simp: observe_def Let_def sendable_def split: if_splits)
  qed
qed (use assms in \<open>auto simp: observe_def Let_def\<close>)

lemma first_offer_SomeD: "first_offer try cs = Some r \<Longrightarrow> \<exists>c\<in>set cs. try c = Some r"
  by (induction cs) (auto split: option.splits)

lemma first_offer_None: "first_offer try cs = None \<longleftrightarrow> (\<forall>c\<in>set cs. try c = None)"
  by (induction cs) (auto split: option.splits)

lemma in_offer_candidates: "(key, b, txs, pending) \<in> set (offer_candidates ns) \<longleftrightarrow> oget (ns_blocks ns) key = Some b \<and> pending = bs_pending txs b"
  by (force simp: offer_candidates_def bs_pending_def in_entries_iff [symmetric])

text \<open>The store the responder sees: reachable, so bounded and with its announcements under their own keys.\<close>

definition store_ok :: "leios_store \<Rightarrow> bool" where
  "store_ok st \<longleftrightarrow> lstore_inv st \<and> announcements_keyed st"

lemma next_offer_sendable:
  assumes "store_ok store" and "next_offer store control ns = Some (Inr m)"
  shows "sendable ext (retention_cutoff store) ns m"
    and "offer_of m = Some (txs, k) \<Longrightarrow> \<not> lc_withhold_announce control \<Longrightarrow> bs_announced (bs_at ns k)"
proof -
  obtain key b t pending where cand: "(key, b, t, pending) \<in> set (offer_candidates ns)" "try_offer store control ns (key, b, t, pending) = Some (Inr m)"
    using first_offer_SomeD assms(2) unfolding next_offer_def by (metis prod_cases4)
  then have b: "oget (ns_blocks ns) key = Some b" "pending = bs_pending t b" by (simp_all add: in_offer_candidates)
  obtain offer where offer: "pending = Some offer" and has: "has_offer store (ebk_slot key) (ebk_hash key) t"
    using cand(2) by (auto simp: try_offer_def split: option.splits if_splits)
  have live: "retention_cutoff store \<le> ebk_slot key" using has_offer_live [OF _ has] assms(1) by (simp add: store_ok_def lstore_inv_def)
  have at: "bs_at ns key = b" "ohas (ns_blocks ns) key" using b(1) by (simp_all add: bs_at_def ohas_iff_Some)
  have ann: "announced_key h = Some key" if "announcement store (ebk_slot key) (ebk_hash key) = Some h" for h
    using announcement_keyed [OF _ that] assms(1) by (simp add: store_ok_def)
  show "sendable ext (retention_cutoff store) ns m"
    using cand(2) offer has at live b(2) ann by (auto simp: try_offer_def sendable_def Let_def split: option.splits if_splits)
  show "bs_announced (bs_at ns k)" if "offer_of m = Some (txs, k)" "\<not> lc_withhold_announce control"
    using cand(2) offer has at that by (auto simp: try_offer_def Let_def split: option.splits if_splits)
qed


text \<open>Sending records exactly what was sent.\<close>

lemma bs_at_sent:
  assumes "sendable ext c ns m"
  shows "bs_announced (bs_at (ns_sent ext m ns) k) \<longleftrightarrow> bs_announced (bs_at ns k) \<or> (\<exists>h. m = OutAnnouncement h \<and> announced_key h = Some k)"
    and "bs_done txs (bs_at (ns_sent ext m ns) k) \<longleftrightarrow> bs_done txs (bs_at ns k) \<or> offer_of m = Some (txs, k)"
    and "bs_pending txs (bs_at (ns_sent ext m ns) k) = (if offer_of m = Some (txs, k) then None else bs_pending txs (bs_at ns k))"
    and "ohas (ns_headers (ns_sent ext m ns)) hk \<longleftrightarrow> ohas (ns_headers ns) hk \<or> (\<exists>h. m = OutAnnouncement h \<and> hk = header_key ext h)"
proof -
  have hd: "bs_at (ns\<lparr>ns_headers := hs, ns_blocks := bl\<rparr>) = bs_at (ns\<lparr>ns_blocks := bl\<rparr>)"
    "bs_at (ns\<lparr>ns_headers := hs\<rparr>) = bs_at ns" for hs bl by (simp_all add: bs_at_def fun_eq_iff)
  note simps = ns_sent_def Let_def hd bs_at_update bs_done_def bs_pending_def
  have "(bs_announced (bs_at (ns_sent ext m ns) k) \<longleftrightarrow> bs_announced (bs_at ns k) \<or> (\<exists>h. m = OutAnnouncement h \<and> announced_key h = Some k)) \<and>
    (bs_done txs (bs_at (ns_sent ext m ns) k) \<longleftrightarrow> bs_done txs (bs_at ns k) \<or> offer_of m = Some (txs, k)) \<and>
    bs_pending txs (bs_at (ns_sent ext m ns) k) = (if offer_of m = Some (txs, k) then None else bs_pending txs (bs_at ns k)) \<and>
    (ohas (ns_headers (ns_sent ext m ns)) hk \<longleftrightarrow> ohas (ns_headers ns) hk \<or> (\<exists>h. m = OutAnnouncement h \<and> hk = header_key ext h))"
  proof (cases m)
    case (OutAnnouncement h)
    then show ?thesis using assms by (cases "announced_key h") (auto simp: simps sendable_def)
  next
    case (OutOffer p sz)
    then show ?thesis using assms by (cases "point_key p") (auto simp: simps sendable_def)
  next
    case (OutTxsOffer p)
    then show ?thesis using assms by (cases "point_key p") (auto simp: simps sendable_def)
  qed (simp_all add: ns_sent_def)
  then show "bs_announced (bs_at (ns_sent ext m ns) k) \<longleftrightarrow> bs_announced (bs_at ns k) \<or> (\<exists>h. m = OutAnnouncement h \<and> announced_key h = Some k)"
    "bs_done txs (bs_at (ns_sent ext m ns) k) \<longleftrightarrow> bs_done txs (bs_at ns k) \<or> offer_of m = Some (txs, k)"
    "bs_pending txs (bs_at (ns_sent ext m ns) k) = (if offer_of m = Some (txs, k) then None else bs_pending txs (bs_at ns k))"
    "ohas (ns_headers (ns_sent ext m ns)) hk \<longleftrightarrow> ohas (ns_headers ns) hk \<or> (\<exists>h. m = OutAnnouncement h \<and> hk = header_key ext h)"
    by blast+
qed

lemma told_sent:
  assumes "told ext c sent ns" and "sendable ext c ns m"
  shows "told ext c (sent @ [m]) (ns_sent ext m ns)"
  using assms(1) unfolding told_def told_sound_def told_complete_def bs_at_sent [OF assms(2)] by auto

lemma map_filter_snoc: "List.map_filter f (xs @ [x]) = List.map_filter f xs @ (case f x of None \<Rightarrow> [] | Some y \<Rightarrow> [y])"
  by (simp add: List.map_filter_def split: option.splits)

lemma in_map_filter: "y \<in> set (List.map_filter f xs) \<longleftrightarrow> (\<exists>x\<in>set xs. f x = Some y)"
  by (force simp: List.map_filter_def)

lemma no_repeats_sent:
  assumes "told ext c sent ns" and "sendable ext c ns m" and "no_repeats ext sent"
  shows "no_repeats ext (sent @ [m])"
proof -
  have "key \<notin> set (List.map_filter offer_of sent)" if m: "offer_of m = Some key" for key
  proof
    obtain txs k where key: "key = (txs, k)" by fastforce
    assume "key \<in> set (List.map_filter offer_of sent)"
    then obtain m' where "m' \<in> set sent" "offer_of m' = Some (txs, k)" by (auto simp: in_map_filter key)
    moreover have p: "c \<le> ebk_slot k" "bs_pending txs (bs_at ns k) \<noteq> None" using assms(2) m by (simp_all add: sendable_def key)
    ultimately have "bs_done txs (bs_at ns k)" using assms(1) by (auto simp: told_def told_complete_def)
    then show False using assms(1) p by (auto simp: told_def told_sound_def)
  qed
  moreover have "key \<notin> set (List.map_filter (announces ext) sent)" if m: "announces ext m = Some key" for key
  proof
    obtain h where h: "m = OutAnnouncement h" "wh_parsed h \<noteq> None" "key = (header_key ext h, announced_key h)"
      using m by (cases m) (auto split: if_splits)
    assume "key \<in> set (List.map_filter (announces ext) sent)"
    then obtain m' where m': "m' \<in> set sent" "announces ext m' = Some key" by (auto simp: in_map_filter)
    obtain h' where "m' = OutAnnouncement h'" using m'(2) by (cases m') simp_all
    then have h': "OutAnnouncement h' \<in> set sent" "header_key ext h' = header_key ext h" "announced_key h' = announced_key h"
      using m' h(3) by (auto split: if_splits)
    from assms(2) h have "c \<le> ebk_slot (header_key ext h) \<and> \<not> ohas (ns_headers ns) (header_key ext h) \<or>
        (\<exists>k. announced_key h = Some k \<and> c \<le> ebk_slot k \<and> \<not> bs_announced (bs_at ns k))" by (simp add: sendable_def)
    then show False using assms(1) h' unfolding told_def told_complete_def by metis
  qed
  ultimately show ?thesis using assms(3) by (auto simp: no_repeats_def map_filter_snoc split: option.splits)
qed

lemma announced_first_snoc:
  assumes "announced_first sent" and "\<And>txs k. offer_of m = Some (txs, k) \<Longrightarrow> \<exists>h. OutAnnouncement h \<in> set sent \<and> announced_key h = Some k"
  shows "announced_first (sent @ [m])"
  unfolding announced_first_def
proof (intro allI impI)
  fix xs x ys txs key assume a: "sent @ [m] = xs @ x # ys \<and> offer_of x = Some (txs, key)"
  show "\<exists>h. OutAnnouncement h \<in> set xs \<and> announced_key h = Some key"
  proof (cases ys rule: rev_cases)
    case Nil
    then show ?thesis using a assms(2) by auto
  next
    case (snoc zs z)
    then have "sent = xs @ x # zs" using a by simp
    then show ?thesis using a assms(1) unfolding announced_first_def by blast
  qed
qed


subsection \<open>Connections\<close>

text \<open>A connection: the responder's steps under the controls in \<open>C\<close>, with the store's steps in between.\<close>

inductive ln_conn :: "codec_ext \<Rightarrow> peer_id \<Rightarrow> notify_control set \<Rightarrow> leios_store \<Rightarrow> ln_server \<Rightarrow> bool" for ext peer C where
  conn_open: "lstore_run ext (leios_store_new_with_retention capacity retention) store \<Longrightarrow> ln_conn ext peer C store ln_server_init"
| conn_store: "ln_conn ext peer C store srv \<Longrightarrow> lstore_step ext store store' \<Longrightarrow> ln_conn ext peer C store' srv"
| conn_server: "ln_conn ext peer C store srv \<Longrightarrow> control \<in> C \<Longrightarrow> ln_conn ext peer C store (ln_step ext peer control store ev srv)"

definition conn_inv :: "codec_ext \<Rightarrow> notify_control set \<Rightarrow> leios_store \<Rightarrow> ln_server \<Rightarrow> bool" where
  "conn_inv ext C store srv \<longleftrightarrow> store_ok store \<and> told ext (retention_cutoff store) (lns_sent srv) (lns_state srv) \<and>
     no_repeats ext (lns_sent srv) \<and> ((\<forall>c\<in>C. \<not> lc_withhold_announce c) \<longrightarrow> announced_first (lns_sent srv))"

lemma store_ok_reachable: "lstore_run ext (leios_store_new_with_retention capacity retention) store \<Longrightarrow> store_ok store"
proof (induction rule: lstore_run.induct)
  case lr_here
  show ?case using lstore_new_inv by (simp add: store_ok_def announcements_keyed_def leios_store_new_with_retention_def)
next
  case (lr_next st st')
  then show ?case using lstore_step_inv lstore_step_keyed by (auto simp: store_ok_def)
qed

text \<open>What a step needs to keep: the state's history is kept, and a message sent is \<open>sendable\<close> and not an offer before
  its announcement.\<close>

lemma conn_inv_state:
  assumes "conn_inv ext C store srv" and "told ext (retention_cutoff store) (lns_sent srv) (lns_state srv')" and "lns_sent srv' = lns_sent srv"
  shows "conn_inv ext C store srv'"
  using assms by (simp add: conn_inv_def)

lemma conn_inv_deliver:
  assumes inv: "conn_inv ext C store srv"
    and send: "sendable ext (retention_cutoff store) (lns_state srv) m"
    and ann: "\<And>txs k. offer_of m = Some (txs, k) \<Longrightarrow> (\<forall>c\<in>C. \<not> lc_withhold_announce c) \<Longrightarrow> bs_announced (bs_at (lns_state srv) k)"
  shows "conn_inv ext C store (ln_deliver ext m srv)"
proof -
  have t: "told ext (retention_cutoff store) (lns_sent srv) (lns_state srv)" using inv by (simp add: conn_inv_def)
  have "\<exists>h. OutAnnouncement h \<in> set (lns_sent srv) \<and> announced_key h = Some k"
    if "offer_of m = Some (txs, k)" "\<forall>c\<in>C. \<not> lc_withhold_announce c" for txs k
    using ann [OF that] t by (simp add: told_def told_sound_def)
  then show ?thesis
    using inv told_sent [OF t send] no_repeats_sent [OF t send] announced_first_snoc [of "lns_sent srv" m]
    by (auto simp: conn_inv_def ln_deliver_def)
qed

lemma conn_inv_next:
  assumes "conn_inv ext C store srv" and "next_offer store control (lns_state srv) = Some (Inr m)" and "control \<in> C"
  shows "conn_inv ext C store (ln_deliver ext m srv)"
  using assms next_offer_sendable [of store control "lns_state srv" m] by (intro conn_inv_deliver) (auto simp: conn_inv_def)

lemma conn_inv_quiet:
  "conn_inv ext C store srv \<Longrightarrow> conn_inv ext C store (srv\<lparr>lns_phase := ph\<rparr>)"
  "conn_inv ext C store srv \<Longrightarrow> conn_inv ext C store (ln_stop e srv)"
  "conn_inv ext C store srv \<Longrightarrow> conn_inv ext C store (srv\<lparr>lns_read_index := i\<rparr>)"
  "conn_inv ext C store srv \<Longrightarrow> conn_inv ext C store (srv\<lparr>lns_state := ns_prune (retention_cutoff store) (lns_state srv)\<rparr>)"
  "conn_inv ext C store srv \<Longrightarrow> conn_inv ext C store (srv\<lparr>lns_phase := ph, lns_read_index := i\<rparr>)"
  by (simp_all add: conn_inv_def ln_stop_def told_prune)

lemma conn_inv_poll:
  assumes inv: "conn_inv ext C store srv" and c: "control \<in> C"
  shows "conn_inv ext C store (ln_poll ext peer control store srv)"
proof (cases "lns_phase srv")
  case LnFresh
  define srv1 where "srv1 = srv\<lparr>lns_state := ns_prune (retention_cutoff store) (lns_state srv)\<rparr>"
  have 1: "conn_inv ext C store srv1" using conn_inv_quiet(4) [OF inv] by (simp add: srv1_def)
  have "ln_poll ext peer control store srv = (case next_offer store control (lns_state srv1) of
        Some (Inr msg) \<Rightarrow> ln_deliver ext msg srv1 | Some (Inl _) \<Rightarrow> ln_stop HistoryCapacityExceeded srv1
      | None \<Rightarrow> srv1\<lparr>lns_phase := LnScanning (fst (notifications_after store (lns_read_index srv1))),
                  lns_read_index := snd (notifications_after store (lns_read_index srv1))\<rparr>)"
    unfolding ln_poll_def LnFresh srv1_def Let_def case_prod_unfold by simp
  then show ?thesis using conn_inv_next [OF 1 _ c] conn_inv_quiet(2,5) [OF 1] by (simp split: option.splits sum.splits)
next
  case (LnScanning es)
  show ?thesis
  proof (cases es)
    case (Cons entry es')
    define srv1 where "srv1 = srv\<lparr>lns_read_index := lns_read_index srv + 1\<rparr>"
    have 1: "conn_inv ext C store srv1" using conn_inv_quiet(3) [OF inv] by (simp add: srv1_def)
    show ?thesis
    proof (cases "observe ext entry peer control (retention_cutoff store) (lns_state srv1)")
      case None
      then show ?thesis using conn_inv_quiet(2) [OF 1] by (simp add: ln_poll_def LnScanning Cons srv1_def Let_def)
    next
      case (Some r)
      obtain msg ns where r: "r = (msg, ns)" by fastforce
      define srv2 where "srv2 = srv1\<lparr>lns_state := ns\<rparr>"
      have o: "extends (lns_state srv1) ns" "\<And>m. msg = Some m \<Longrightarrow> sendable ext (retention_cutoff store) ns m"
        using observe_told [OF Some [unfolded r]] by auto
      have 2: "conn_inv ext C store srv2"
        using 1 told_extends [OF _ o(1)] by (simp add: conn_inv_def srv2_def)
      have noffer: "offer_of m = None" if "msg = Some m" for m
        using Some that unfolding r by (auto simp: observe_def observe_offer_def prepare_header_def Let_def
            split: if_splits leios_notification.splits option.splits)
      show ?thesis
      proof (cases msg)
        case None
        then have "ln_poll ext peer control store srv = (case next_offer store control (lns_state srv2) of
              Some (Inr msg) \<Rightarrow> ln_deliver ext msg srv2 | Some (Inl _) \<Rightarrow> ln_stop HistoryCapacityExceeded srv2
            | None \<Rightarrow> srv2\<lparr>lns_phase := LnScanning es'\<rparr>)"
          using Some unfolding ln_poll_def LnScanning Cons srv1_def srv2_def Let_def r by simp
        then show ?thesis using conn_inv_next [OF 2 _ c] conn_inv_quiet(1,2) [OF 2] by (auto split: option.splits sum.splits)
      next
        case (Some m)
        then have "ln_poll ext peer control store srv = ln_deliver ext m srv2"
          using \<open>observe ext entry peer control (retention_cutoff store) (lns_state srv1) = Some r\<close>
          by (simp add: ln_poll_def LnScanning Cons srv1_def srv2_def Let_def r)
        then show ?thesis using conn_inv_deliver [OF 2, of m] o(2) [OF Some] noffer [OF Some] by (simp add: srv2_def)
      qed
    qed
  qed (use conn_inv_quiet(1) [OF inv] in \<open>simp add: ln_poll_def LnScanning\<close>)
qed (use inv in \<open>simp_all add: ln_poll_def\<close>)

lemma told_quit:
  assumes "\<And>m. m \<in> set ms \<Longrightarrow> m = OutCanceled \<or> m = OutDone" and "conn_inv ext C store srv"
  shows "conn_inv ext C store (srv\<lparr>lns_sent := lns_sent srv @ ms\<rparr>)"
  using assms
proof (induction ms rule: rev_induct)
  case (snoc m ms)
  then have i: "conn_inv ext C store (srv\<lparr>lns_sent := lns_sent srv @ ms\<rparr>)" and m: "m = OutCanceled \<or> m = OutDone" by auto
  then show ?case
    using conn_inv_deliver [OF i, of m] by (auto simp: ln_deliver_def sendable_def ns_sent_def conn_inv_def)
qed simp

lemma conn_inv_incoming: "conn_inv ext C store srv \<Longrightarrow> conn_inv ext C store (ln_incoming store msg srv)"
proof -
  assume inv: "conn_inv ext C store srv"
  have q: "conn_inv ext C store (srv\<lparr>lns_sent := lns_sent srv @ replicate n OutCanceled @ [OutDone], lns_phase := ph\<rparr>)" for n ph
  proof -
    have "conn_inv ext C store (srv\<lparr>lns_sent := lns_sent srv @ replicate n OutCanceled @ [OutDone]\<rparr>)"
      by (rule told_quit [OF _ inv]) auto
    then show ?thesis by (simp add: conn_inv_def)
  qed
  show ?thesis using inv q [of _ 0] q conn_inv_quiet(2) [OF inv]
    by (cases msg) (auto simp: ln_incoming_def conn_inv_def)
qed

lemma conn_inv_step: "conn_inv ext C store srv \<Longrightarrow> control \<in> C \<Longrightarrow> conn_inv ext C store (ln_step ext peer control store ev srv)"
proof -
  assume inv: "conn_inv ext C store srv" and c: "control \<in> C"
  have dl: "conn_inv ext C store (ln_deliver ext (OutVotes []) (srv\<lparr>lns_state := ns_prune (retention_cutoff store) (lns_state srv)\<rparr>))"
    by (rule conn_inv_deliver [OF conn_inv_quiet(4) [OF inv]]) (simp_all add: sendable_def)
  note steps = inv dl conn_inv_incoming [OF inv] conn_inv_poll [OF inv c] conn_inv_quiet(1,2) [OF inv] conn_inv_quiet(1) [OF conn_inv_quiet(4) [OF inv]]
  show ?thesis using steps unfolding ln_step_def by (cases "lns_phase srv"; cases ev) simp_all
qed

lemma ln_conn_inv: "ln_conn ext peer C store srv \<Longrightarrow> conn_inv ext C store srv"
proof (induction rule: ln_conn.induct)
  case (conn_open capacity retention store)
  then show ?case
    using store_ok_reachable by (simp add: conn_inv_def ln_server_init_def told_def told_sound_def told_complete_def bs_at_def
        notify_state_default_def no_repeats_def announced_first_def map_filter_simps)
next
  case (conn_store store srv store')
  have "retention_cutoff store \<le> retention_cutoff store'" using conn_store(2) lstore_step_clock clock_le_cutoff by blast
  then show ?case using conn_store lstore_step_inv lstore_step_keyed told_mono by (fastforce simp: conn_inv_def store_ok_def)
next
  case (conn_server store srv control ev)
  then show ?case by (simp add: conn_inv_step)
qed

text \<open>C23: what one connection is told about endorser blocks is in order and without repetition. However the store
  changes and is evicted, however requests arrive, and whatever the controls do, no body or transaction offer for
  the same block goes out twice, nor the same announcement; and unless the announcements of produced blocks are
  withheld, every offer comes after an announcement of its block on that same connection.\<close>

theorem notify_ordered_once:
  assumes "ln_conn ext peer C store srv"
  shows "distinct (List.map_filter offer_of (lns_sent srv)) \<and> distinct (List.map_filter (announces ext) (lns_sent srv)) \<and>
    ((\<forall>c\<in>C. \<not> lc_withhold_announce c) \<longrightarrow>
      (\<forall>xs m ys txs key. lns_sent srv = xs @ m # ys \<and> offer_of m = Some (txs, key) \<longrightarrow>
        (\<exists>h. OutAnnouncement h \<in> set xs \<and> announced_key h = Some key)))"
  using ln_conn_inv [OF assms] unfolding conn_inv_def no_repeats_def announced_first_def by blast


subsection \<open>Requests and replies\<close>

fun replied :: "nat \<Rightarrow> ln_outbound list \<Rightarrow> nat \<Rightarrow> bool" where
  "replied pend sent requests \<longleftrightarrow> length sent + pend = requests \<and> OutCanceled \<notin> set sent \<and> OutDone \<notin> set sent"

fun counts_ok :: "ln_phase \<Rightarrow> nat \<Rightarrow> ln_outbound list \<Rightarrow> nat \<Rightarrow> bool" where
  "counts_ok LnOpening pend sent requests \<longleftrightarrow> pend = 0 \<and> sent = [] \<and> requests = 0"
| "counts_ok LnFresh pend sent requests \<longleftrightarrow> replied pend sent requests"
| "counts_ok (LnScanning _) pend sent requests \<longleftrightarrow> 0 < pend \<and> replied pend sent requests"
| "counts_ok LnWaiting pend sent requests \<longleftrightarrow> 0 < pend \<and> replied pend sent requests"
| "counts_ok (LnStopped (Inl _)) pend sent requests \<longleftrightarrow> replied pend sent requests"
| "counts_ok (LnStopped (Inr _)) pend sent requests \<longleftrightarrow>
     (\<exists>replies. sent = replies @ replicate pend OutCanceled @ [OutDone] \<and> replied pend replies requests)"

definition conn_counts :: "ln_server \<Rightarrow> bool" where
  "conn_counts srv \<longleftrightarrow> lns_pending srv \<le> MAX_PENDING_REQUESTS \<and>
     counts_ok (lns_phase srv) (lns_pending srv) (lns_sent srv) (lns_requests srv)"

abbreviation running :: "ln_server \<Rightarrow> bool" where
  "running srv \<equiv> lns_pending srv \<le> MAX_PENDING_REQUESTS \<and> replied (lns_pending srv) (lns_sent srv) (lns_requests srv)"

lemma conn_counts_running: "conn_counts srv \<Longrightarrow> (\<And>r. lns_phase srv \<noteq> LnStopped r) \<Longrightarrow> running srv"
  by (cases "lns_phase srv") (auto simp: conn_counts_def)

lemma counts_deliver: "running srv \<Longrightarrow> 0 < lns_pending srv \<Longrightarrow> m \<noteq> OutCanceled \<and> m \<noteq> OutDone \<Longrightarrow> conn_counts (ln_deliver ext m srv)"
  by (auto simp: conn_counts_def ln_deliver_def)

lemma counts_stop: "running srv \<Longrightarrow> conn_counts (ln_stop e srv)"
  by (simp add: conn_counts_def ln_stop_def)

lemma next_offer_not_final: "next_offer store control ns = Some (Inr m) \<Longrightarrow> m \<noteq> OutCanceled \<and> m \<noteq> OutDone"
  by (auto simp: next_offer_def try_offer_def Let_def dest!: first_offer_SomeD split: option.splits if_splits prod.splits)

lemma observe_not_final: "observe ext entry peer control c ns = Some (Some m, ns') \<Longrightarrow> m \<noteq> OutCanceled \<and> m \<noteq> OutDone"
  by (auto simp: observe_def observe_offer_def prepare_header_def Let_def split: if_splits leios_notification.splits option.splits)

lemma counts_poll:
  assumes r: "running srv" and p: "0 < lns_pending srv" and "conn_counts srv"
  shows "conn_counts (ln_poll ext peer control store srv)"
proof (cases "lns_phase srv")
  case LnFresh
  then show ?thesis
    using r p counts_deliver counts_stop next_offer_not_final
    by (auto simp: ln_poll_def Let_def case_prod_unfold conn_counts_def [of "_\<lparr>lns_read_index := _\<rparr>"] split: option.splits sum.splits)
next
  case (LnScanning es)
  then show ?thesis
    using r p counts_deliver counts_stop next_offer_not_final observe_not_final
    by (cases es) (auto simp: ln_poll_def Let_def case_prod_unfold conn_counts_def [of "_\<lparr>lns_phase := _\<rparr>"] split: option.splits sum.splits)
qed (use assms in \<open>simp_all add: ln_poll_def\<close>)

lemma counts_incoming: "conn_counts srv \<Longrightarrow> (\<And>r. lns_phase srv \<noteq> LnStopped r) \<Longrightarrow> conn_counts (ln_incoming store msg srv)"
proof -
  assume c: "conn_counts srv" and n: "\<And>r. lns_phase srv \<noteq> LnStopped r"
  note r = conn_counts_running [OF c n]
  show ?thesis
  proof (cases "lns_phase srv = LnOpening")
    case True
    then show ?thesis using c counts_stop [OF r]
      by (auto simp: ln_incoming_def conn_counts_def MAX_PENDING_REQUESTS_def split: ln_message.splits)
  next
    case False
    then show ?thesis using c r n counts_stop [OF r] unfolding ln_incoming_def
      by (cases msg; cases "lns_phase srv") (auto simp: conn_counts_def)
  qed
qed

lemma counts_step: "conn_counts srv \<Longrightarrow> conn_counts (ln_step ext peer control store ev srv)"
proof -
  assume c: "conn_counts srv"
  show ?thesis
  proof (cases "\<exists>r. lns_phase srv = LnStopped r")
    case False
    then have n: "\<And>r. lns_phase srv \<noteq> LnStopped r" by blast
    note r = conn_counts_running [OF c n]
    have "ln_step ext peer control store ev srv \<in> {srv, ln_incoming store msg srv} \<Longrightarrow> ?thesis" for msg
      using c counts_incoming [OF c n] by auto
    moreover have "conn_counts (srv\<lparr>lns_phase := LnFresh\<rparr>)" "conn_counts (srv\<lparr>lns_state := ns, lns_phase := LnFresh\<rparr>)" for ns
      using r by (simp_all add: conn_counts_def)
    moreover have "conn_counts (ln_deliver ext (OutVotes []) (srv\<lparr>lns_state := ns\<rparr>))" if "lns_phase srv = LnWaiting" for ns
      using counts_deliver [of "srv\<lparr>lns_state := ns\<rparr>" "OutVotes []" ext] r c that by (simp add: conn_counts_def)
    ultimately show ?thesis
      using c counts_incoming [OF c n] counts_poll [OF r _ c] counts_stop [OF r]
      by (cases ev; cases "lns_phase srv") (auto simp: ln_step_def)
  qed (use c in \<open>auto simp: ln_step_def\<close>)
qed

text \<open>Every notification request is answered exactly once. At any point of a connection the replies sent and the
  requests still pending add up to the requests received, at most 1000 pending; a quit answers the pending ones with
  one cancellation each, then one done, and after that nothing is sent.\<close>

theorem notify_replies_match:
  assumes "ln_conn ext peer C store srv"
  shows "lns_pending srv \<le> 1000 \<and>
    (if lns_phase srv = LnStopped (Inr ())
     then \<exists>replies. lns_sent srv = replies @ replicate (lns_pending srv) OutCanceled @ [OutDone] \<and>
       length replies + lns_pending srv = lns_requests srv \<and> OutCanceled \<notin> set replies \<and> OutDone \<notin> set replies
     else length (lns_sent srv) + lns_pending srv = lns_requests srv \<and> OutCanceled \<notin> set (lns_sent srv) \<and> OutDone \<notin> set (lns_sent srv))"
proof -
  have "conn_counts srv" using assms
  proof induction
    case (conn_open capacity retention store)
    then show ?case by (simp add: conn_counts_def ln_server_init_def)
  qed (simp_all add: counts_step)
  then show ?thesis
    by (cases "(lns_phase srv, lns_pending srv, lns_sent srv, lns_requests srv)" rule: counts_ok.cases)
      (auto simp: conn_counts_def MAX_PENDING_REQUESTS_def)
qed

subsection \<open>No offer is held up by another\<close>

text \<open>A missing prerequisite of one block never blocks another. If the responder finds nothing to offer, then every
  offer it still owes is blocked by itself: its data is not in the store, or its only source is this peer, or it has
  not been announced and no announcement of it is known; otherwise the search returns a message (or the history is
  full).\<close>

theorem next_offer_complete:
  "next_offer store control ns = None \<longleftrightarrow>
    (\<forall>key b txs offer. oget (ns_blocks ns) key = Some b \<and> bs_pending txs b = Some offer \<longrightarrow>
      \<not> has_offer store (ebk_slot key) (ebk_hash key) txs \<or> po_from_peer offer \<and> \<not> lc_echo_to_source control \<or>
      \<not> bs_announced b \<and> \<not> (po_local offer \<and> lc_withhold_announce control) \<and> announcement store (ebk_slot key) (ebk_hash key) = None)"
proof -
  define blocked where "blocked = (\<lambda>key (b :: block_state) txs (offer :: pending_offer). \<not> has_offer store (ebk_slot key) (ebk_hash key) txs \<or> po_from_peer offer \<and> \<not> lc_echo_to_source control \<or>
      \<not> bs_announced b \<and> \<not> (po_local offer \<and> lc_withhold_announce control) \<and> announcement store (ebk_slot key) (ebk_hash key) = None)"
  have "try_offer store control ns (key, b, txs, pend) = None \<longleftrightarrow> (\<forall>offer. pend = Some offer \<longrightarrow> blocked key b txs offer)"
    for key b txs pend by (auto simp: try_offer_def Let_def blocked_def split: option.splits)
  then have "next_offer store control ns = None \<longleftrightarrow>
      (\<forall>key b txs offer. oget (ns_blocks ns) key = Some b \<and> bs_pending txs b = Some offer \<longrightarrow> blocked key b txs offer)"
    unfolding next_offer_def first_offer_None Ball_def split_paired_All in_offer_candidates by auto
  then show ?thesis by (simp only: blocked_def)
qed


subsection \<open>LeiosFetch, both ends\<close>

lemma collect_some_iff: "collect_some xs = (if None \<in> set xs then None else Some (map the xs))"
  by (induction xs) (auto split: option.splits)

lemma get_block_txs_exact:
  "oget (lo_block_txs st) (EbKey slot hash) = Some bodies \<Longrightarrow>
    get_block_txs st slot hash bitmap =
      (if \<forall>i\<in>set (iter_indices bitmap). ohas bodies i then Some (map (\<lambda>i. the (oget bodies i)) (iter_indices bitmap)) else None)"
proof -
  assume b: "oget (lo_block_txs st) (EbKey slot hash) = Some bodies"
  have "None \<in> set (map (oget bodies) (iter_indices bitmap)) \<longleftrightarrow> \<not> (\<forall>i\<in>set (iter_indices bitmap). ohas bodies i)"
    unfolding set_map image_iff ohas_def by metis
  then show ?thesis by (simp add: get_block_txs_def b collect_some_iff comp_def)
qed

text \<open>C24: a transaction request gets exactly what it asked for or nothing. When every body the bitmap selects is stored,
  the responder's reply passes the requester's own check, and the requester obtains the stored bodies in the order of
  the requested indices; when one is missing the responder disconnects instead of sending a partial reply.\<close>

theorem leios_fetch_end_to_end:
  assumes "oget (lo_block_txs store) (EbKey slot hash) = Some bodies"
    and "rn_state r = LF_StIdle" and "rn_role r = RClient"
  shows "if \<forall>i\<in>set (iter_indices bitmap). ohas bodies i
    then \<exists>reply. serve_leios_fetch store (MsgLeiosBlockTxsRequest (Specific slot hash) bitmap) = (Some reply, store) \<and>
      (\<not> timed_out (Some 120) (Decoded dl reply sz) \<and> sz \<le> 25165824 \<longrightarrow>
        fst (lf_fetch_block_txs None r (Specific slot hash) bitmap (Decoded dl reply sz)) = Inr (map (\<lambda>i. the (oget bodies i)) (iter_indices bitmap)))
    else serve_leios_fetch store (MsgLeiosBlockTxsRequest (Specific slot hash) bitmap) = (None, store)"
proof (cases "\<forall>i\<in>set (iter_indices bitmap). ohas bodies i")
  case True
  define txs where "txs = map (\<lambda>i. the (oget bodies i)) (iter_indices bitmap)"
  have serve: "serve_leios_fetch store (MsgLeiosBlockTxsRequest (Specific slot hash) bitmap) = (Some (MsgLeiosBlockTxs txs), store)"
    using get_block_txs_exact [OF assms(1), of bitmap] True by (simp add: serve_leios_fetch_def txs_def)
  have "fst (lf_fetch_block_txs None r (Specific slot hash) bitmap (Decoded dl (MsgLeiosBlockTxs txs) sz)) = Inr txs"
    if "\<not> timed_out (Some 120) (Decoded dl (MsgLeiosBlockTxs txs) sz)" "sz \<le> 25165824"
  proof -
    have "exchange leios_fetch None r (MsgLeiosBlockTxsRequest (Specific slot hash) bitmap) (Decoded dl (MsgLeiosBlockTxs txs) sz) =
        (Inr (MsgLeiosBlockTxs txs), r\<lparr>rn_state := LF_StIdle, rn_sent := rn_sent r @ [MsgLeiosBlockTxsRequest (Specific slot hash) bitmap]\<rparr>)"
      unfolding exchange_ok using assms(2,3) that by (simp add: leios_fetch_def)
    then show ?thesis by (simp add: lf_fetch_block_txs_def requested_positions_iter txs_def)
  qed
  then show ?thesis using serve True by (auto simp: txs_def)
next
  case False
  then show ?thesis
    unfolding if_not_P [OF False] using get_block_txs_exact [OF assms(1), of bitmap] by (simp only: serve_leios_fetch_def) auto
qed

subsection \<open>A small connection\<close>

text \<open>A store that announces and holds one block, and a peer that asks twice: it is told the announcement, then the
  offer.\<close>

lemma announcements_over_code [code]:
  "announcements_over cutoff st key \<longleftrightarrow> ebk_slot key < cutoff \<or> int (lo_announcement_count st) > 10000 \<or>
     int (lo_announcement_bytes st) > 16777216"
  by (simp add: announcements_over_def MAX_NOTIFICATIONS_def MAX_ANNOUNCEMENT_BYTES_def)

definition demo_header :: full_header where
  "demo_header = \<lparr>wh_raw = [7], wh_parsed = Some \<lparr>hi_era = 7, hi_block_number = 1, hi_slot = 9, hi_prev_hash = None, hi_issuer_vkey = 0,
     hi_body_size = 0, hi_block_body_hash = 0, hi_announced_eb = Some (12, 1), hi_certified_eb = None\<rparr>\<rparr>"

definition demo_announced :: leios_store where "demo_announced = announce_block demo_codec demo_empty demo_header None"
definition demo_offering :: leios_store where "demo_offering = inject_block demo_codec demo_announced (Specific 9 12) [3] None"

definition demo_step :: "leios_store \<Rightarrow> ln_event \<Rightarrow> ln_server \<Rightarrow> ln_server" where
  "demo_step store ev srv = ln_step demo_codec 5 honest_notify_control store ev srv"

definition demo_asked :: ln_server where
  "demo_asked = demo_step demo_empty (LnIncoming MsgLeiosNotificationRequestNext) ln_server_init"

definition demo_told :: ln_server where
  "demo_told = fold (demo_step demo_offering) [LnPoll, LnPoll, LnIncoming MsgLeiosNotificationRequestNext, LnPoll, LnPoll] demo_asked"

lemma demo_conn: "ln_conn demo_codec 5 {honest_notify_control} demo_offering demo_told"
proof -
  have step: "ln_conn demo_codec 5 {honest_notify_control} st srv \<Longrightarrow> ln_conn demo_codec 5 {honest_notify_control} st (demo_step st ev srv)" for st srv ev
    unfolding demo_step_def by (rule conn_server) simp_all
  have "ln_conn demo_codec 5 {honest_notify_control} demo_empty ln_server_init"
    unfolding demo_empty_def by (rule conn_open [OF lr_here])
  then have "ln_conn demo_codec 5 {honest_notify_control} demo_empty demo_asked" unfolding demo_asked_def by (rule step)
  then have "ln_conn demo_codec 5 {honest_notify_control} demo_announced demo_asked" unfolding demo_announced_def by (rule conn_store [OF _ lo_announce])
  then have "ln_conn demo_codec 5 {honest_notify_control} demo_offering demo_asked" unfolding demo_offering_def by (rule conn_store [OF _ lo_block])
  then show ?thesis unfolding demo_told_def by (simp add: step)
qed

theorem notify_ordered_once_witness:
  "ln_conn demo_codec 5 {honest_notify_control} demo_offering demo_told \<and>
   lns_sent demo_told = [OutAnnouncement demo_header, OutOffer (Specific 9 12) 1] \<and> distinct (List.map_filter offer_of (lns_sent demo_told))"
proof (intro conjI)
  show "ln_conn demo_codec 5 {honest_notify_control} demo_offering demo_told" by (rule demo_conn)
  show "lns_sent demo_told = [OutAnnouncement demo_header, OutOffer (Specific 9 12) 1]" by code_simp
  show "distinct (List.map_filter offer_of (lns_sent demo_told))" using notify_ordered_once [OF demo_conn] by simp
qed

theorem notify_replies_match_witness:
  "ln_conn demo_codec 5 {honest_notify_control} demo_offering demo_told \<and> length (lns_sent demo_told) + lns_pending demo_told = lns_requests demo_told"
proof (intro conjI)
  show "ln_conn demo_codec 5 {honest_notify_control} demo_offering demo_told" by (rule demo_conn)
  have "lns_phase demo_told = LnFresh" by code_simp
  then show "length (lns_sent demo_told) + lns_pending demo_told = lns_requests demo_told" using notify_replies_match [OF demo_conn] by simp
qed

theorem next_offer_complete_witness:
  "next_offer demo_empty honest_notify_control (notify_state_default\<lparr>ns_blocks := oput (EbKey 9 12)
     (block_state_default\<lparr>bs_body := Some \<lparr>po_from_peer = False, po_local = True, po_size = 1\<rparr>\<rparr>) oempty\<rparr>) = None"
proof -
  have "\<not> has_offer demo_empty slot hash txs" for slot hash txs
    by (simp add: has_offer_def demo_empty_def leios_store_new_with_retention_def)
  then show ?thesis unfolding next_offer_complete by simp
qed

theorem leios_fetch_end_to_end_witness:
  "fst (lf_fetch_block_txs None \<lparr>rn_role = RClient, rn_state = LF_StIdle, rn_sent = []\<rparr> (Specific 9 12) oempty (Decoded 1 (MsgLeiosBlockTxs []) 3)) = Inr []"
proof -
  define store where "store = demo_empty\<lparr>lo_block_txs := oput (EbKey 9 12) (oempty :: (u32, tx_body) omap) oempty\<rparr>"
  have get: "oget (lo_block_txs store) (EbKey 9 12) = Some oempty" by (simp add: store_def oget_oput)
  have i: "iter_indices oempty = []" by (simp add: iter_indices_def)
  have "serve_leios_fetch store (MsgLeiosBlockTxsRequest (Specific 9 12) oempty) = (Some (MsgLeiosBlockTxs []), store)"
    by (simp add: serve_leios_fetch_def get_block_txs_def get i)
  then show ?thesis
    using leios_fetch_end_to_end [OF get, of "\<lparr>rn_role = RClient, rn_state = LF_StIdle, rn_sent = []\<rparr>" oempty 1 3] by (simp add: i timed_out_def)
qed

end
