(* ===== verification/Sim_Cpu.thy ===== *)
theory Sim_Cpu
  imports Ordered_Map "HOL-Library.Multiset"
begin

text \<open>
  \<open>sim-rs/sim-core/src/sim/cpu.rs\<close>: the simulated CPU of a node. A task is a list of subtasks; subtasks run on a limited
  number of cores, the others wait in a queue.

  \<^item> Ids and counts are \<open>nat\<close>, durations are nanoseconds. \<open>Duration::mul_f64\<close> by the node's multiplier is the parameter
    \<open>scale\<close>.
  \<^item> \<open>complete_subtask\<close> panics on an unknown task; the model returns \<open>None\<close> there.
\<close>

record 't task_state =
  ts_task :: 't
  ts_subtasks :: nat

record subtask =
  sub_task_id :: nat
  sub_subtask_id :: nat
  sub_duration :: nat

record 't cpu_queue =
  cq_next_task_id :: nat
  cq_tasks :: "(nat, 't task_state) omap"
  cq_pending_subtasks :: "subtask list"
  cq_available_cores :: "nat option"

definition cpu_new :: "nat option \<Rightarrow> 't cpu_queue" where
  "cpu_new cores = \<lparr>cq_next_task_id = 0, cq_tasks = oempty, cq_pending_subtasks = [], cq_available_cores = cores\<rparr>"

fun place_subtasks :: "subtask list \<Rightarrow> 't cpu_queue \<Rightarrow> subtask list \<times> 't cpu_queue" where
  "place_subtasks [] q = ([], q)"
| "place_subtasks (s # ss) q =
     (if (case cq_available_cores q of None \<Rightarrow> True | Some c \<Rightarrow> c > 0) then
        let (scheduled, q') = place_subtasks ss (q\<lparr>cq_available_cores := map_option (\<lambda>c. c - 1) (cq_available_cores q)\<rparr>)
        in (s # scheduled, q')
      else place_subtasks ss (q\<lparr>cq_pending_subtasks := cq_pending_subtasks q @ [s]\<rparr>))"

definition schedule_task :: "(nat \<Rightarrow> nat) \<Rightarrow> 't \<Rightarrow> nat list \<Rightarrow> 't cpu_queue \<Rightarrow> (nat \<times> subtask list \<times> 't cpu_queue) option" where
  "schedule_task scale task durations q =
     (if durations = [] then None
      else
        let task_id = cq_next_task_id q;
            q1 = q\<lparr>cq_next_task_id := task_id + 1,
                   cq_tasks := oput task_id \<lparr>ts_task = task, ts_subtasks = length durations\<rparr> (cq_tasks q)\<rparr>;
            subtasks = map (\<lambda>(i, d). \<lparr>sub_task_id = task_id, sub_subtask_id = i, sub_duration = scale d\<rparr>) (enumerate 0 durations);
            (scheduled, q2) = place_subtasks subtasks q1
        in Some (task_id, scheduled, q2))"

definition complete_subtask :: "subtask \<Rightarrow> 't cpu_queue \<Rightarrow> ('t option \<times> (subtask \<times> 't) option \<times> 't cpu_queue) option" where
  "complete_subtask s q =
     (case oget (cq_tasks q) (sub_task_id s) of
        None \<Rightarrow> None
      | Some task \<Rightarrow>
          if ts_subtasks task = 0 then None
          else
            let left = ts_subtasks task - 1;
                finished = (if left = 0 then Some (ts_task task) else None);
                tasks = (if left = 0 then odel (sub_task_id s) (cq_tasks q)
                         else oput (sub_task_id s) (task\<lparr>ts_subtasks := left\<rparr>) (cq_tasks q));
                q1 = q\<lparr>cq_tasks := tasks\<rparr>
            in (case cq_pending_subtasks q of
                  [] \<Rightarrow> Some (finished, None, q1\<lparr>cq_available_cores := map_option (\<lambda>c. c + 1) (cq_available_cores q)\<rparr>)
                | s' # rest \<Rightarrow>
                    (case oget tasks (sub_task_id s') of
                       None \<Rightarrow> None
                     | Some task' \<Rightarrow> Some (finished, Some (s', ts_task task'), q1\<lparr>cq_pending_subtasks := rest\<rparr>))))"

subsection \<open>A node's use of its CPU\<close>

text \<open>The subtasks in progress are those scheduled and not yet completed. A task is finished when \<open>complete_subtask\<close>
  returns it.\<close>

record 't cpu_node =
  cn_queue :: "'t cpu_queue"
  cn_running :: "subtask list"
  cn_finished :: "'t list"
  cn_scheduled :: "'t list"

definition cpu_schedule :: "(nat \<Rightarrow> nat) \<Rightarrow> 't \<Rightarrow> nat list \<Rightarrow> 't cpu_node \<Rightarrow> 't cpu_node option" where
  "cpu_schedule scale task durations n =
     (case schedule_task scale task durations (cn_queue n) of
        None \<Rightarrow> None
      | Some (_, scheduled, q) \<Rightarrow> Some (n\<lparr>cn_queue := q, cn_running := cn_running n @ scheduled, cn_scheduled := cn_scheduled n @ [task]\<rparr>))"

definition cpu_complete :: "subtask \<Rightarrow> 't cpu_node \<Rightarrow> 't cpu_node option" where
  "cpu_complete s n =
     (case complete_subtask s (cn_queue n) of
        None \<Rightarrow> None
      | Some (finished, started, q) \<Rightarrow>
          Some (n\<lparr>cn_queue := q,
                  cn_running := remove1 s (cn_running n) @ (case started of Some (s', _) \<Rightarrow> [s'] | None \<Rightarrow> []),
                  cn_finished := cn_finished n @ (case finished of Some t \<Rightarrow> [t] | None \<Rightarrow> [])\<rparr>))"

abbreviation outstanding :: "'t cpu_node \<Rightarrow> subtask list" where
  "outstanding n \<equiv> cn_running n @ cq_pending_subtasks (cn_queue n)"

text \<open>Each task in the table has as many subtasks outstanding as it counts, at least one; every task scheduled is in the
  table or finished; and the cores are split between the free ones and the running subtasks, with nothing queued while
  one is free.\<close>

definition counts_match :: "'t cpu_node \<Rightarrow> bool" where
  "counts_match n \<longleftrightarrow> (\<forall>i. count_list (map sub_task_id (outstanding n)) i =
        (case oget (cq_tasks (cn_queue n)) i of Some t \<Rightarrow> ts_subtasks t | None \<Rightarrow> 0)) \<and>
     (\<forall>i t. oget (cq_tasks (cn_queue n)) i = Some t \<longrightarrow> 0 < ts_subtasks t \<and> i < cq_next_task_id (cn_queue n))"

definition cores_split :: "nat option \<Rightarrow> 't cpu_node \<Rightarrow> bool" where
  "cores_split cores n \<longleftrightarrow>
     (case cores of
        None \<Rightarrow> cq_available_cores (cn_queue n) = None \<and> cq_pending_subtasks (cn_queue n) = []
      | Some k \<Rightarrow> (\<exists>free. cq_available_cores (cn_queue n) = Some free \<and> free + length (cn_running n) = k \<and>
          (cq_pending_subtasks (cn_queue n) = [] \<or> free = 0)))"

definition tasks_kept :: "'t cpu_node \<Rightarrow> bool" where
  "tasks_kept n \<longleftrightarrow> mset (cn_finished n) + mset (map ts_task (ovalues (cq_tasks (cn_queue n)))) = mset (cn_scheduled n)"

definition cpu_inv :: "nat option \<Rightarrow> 't cpu_node \<Rightarrow> bool" where
  "cpu_inv cores n \<longleftrightarrow> counts_match n \<and> cores_split cores n \<and> tasks_kept n"

lemma place_subtasks_eq:
  "place_subtasks ss q =
     (case cq_available_cores q of
        None \<Rightarrow> (ss, q)
      | Some c \<Rightarrow> (take c ss, q\<lparr>cq_available_cores := Some (c - length ss), cq_pending_subtasks := cq_pending_subtasks q @ drop c ss\<rparr>))"
proof (induction ss arbitrary: q)
  case Nil
  then show ?case by (cases q) (auto split: option.splits)
next
  case (Cons s ss)
  show ?case
  proof (cases "cq_available_cores q")
    case (Some c)
    then show ?thesis using Cons by (cases c; cases q) simp_all
  qed (cases q; use Cons in simp)
qed

lemma mset_put_list_new: "k \<notin> fst ` set xs \<Longrightarrow> mset (map snd (put_list k v xs)) = add_mset v (mset (map snd xs))"
  by (induction k v xs rule: put_list.induct) auto

lemma mset_put_list_same:
  "map_of xs k = Some w \<Longrightarrow> sorted_wrt (<) (map fst xs) \<Longrightarrow> g w = g v \<Longrightarrow> mset (map (g \<circ> snd) (put_list k v xs)) = mset (map (g \<circ> snd) xs)"
proof (induction k v xs rule: put_list.induct)
  case (2 k v k' v' xs)
  have "map_of xs k = None" if "k < k'" using 2(3) that by (force simp: map_of_eq_None_iff)
  then show ?case using 2 by (auto split: if_splits)
qed simp

lemma mset_filter_key:
  "map_of xs k = Some w \<Longrightarrow> distinct (map fst xs) \<Longrightarrow> mset (map (g \<circ> snd) xs) = add_mset (g w) (mset (map (g \<circ> snd) (filter (\<lambda>(k', _). k' \<noteq> k) xs)))"
proof (induction xs)
  case (Cons x xs)
  have "filter (\<lambda>(k', _). k' \<noteq> k) xs = xs" if "fst x = k" using Cons.prems(2) that by (auto simp: filter_id_conv image_iff)
  then show ?case using Cons by (cases x) (auto split: if_splits)
qed simp

lemma tasks_oput_new: "\<not> ohas m k \<Longrightarrow> mset (map g (ovalues (oput k v m))) = add_mset (g v) (mset (map g (ovalues m)))"
proof -
  assume "\<not> ohas m k"
  then have "k \<notin> fst ` set (entries m)" by (force simp: ohas_def in_entries_iff)
  from mset_put_list_new [OF this, of v] have "mset (map g (map snd (put_list k v (entries m)))) = mset (map g (v # map snd (entries m)))"
    by (metis mset.simps(2) mset_map)
  then show ?thesis by (simp add: ovalues_def)
qed

lemma tasks_oput_same: "oget m k = Some w \<Longrightarrow> g w = g v \<Longrightarrow> mset (map g (ovalues (oput k v m))) = mset (map g (ovalues m))"
  using mset_put_list_same [of "entries m" k w g v] by (simp add: ovalues_def oget_entries sorted_entries comp_def)

lemma tasks_odel: "oget m k = Some w \<Longrightarrow> mset (map g (ovalues m)) = add_mset (g w) (mset (map g (ovalues (odel k m))))"
  using mset_filter_key [of "entries m" k w g] by (simp add: ovalues_def oget_entries odel_def comp_def)

lemma count_list_repeat: "count_list (map (\<lambda>_. a) xs) i = (if i = a then length xs else 0)"
  by (induction xs) auto

lemma schedule_task_eq:
  assumes "durations \<noteq> []"
  obtains ss where "length ss = length durations" and "\<forall>s\<in>set ss. sub_task_id s = cq_next_task_id q"
    and "schedule_task scale task durations q = Some (cq_next_task_id q, place_subtasks ss (q\<lparr>cq_next_task_id := cq_next_task_id q + 1,
           cq_tasks := oput (cq_next_task_id q) \<lparr>ts_task = task, ts_subtasks = length durations\<rparr> (cq_tasks q)\<rparr>))"
proof
  let ?ss = "map (\<lambda>(i, d). \<lparr>sub_task_id = cq_next_task_id q, sub_subtask_id = i, sub_duration = scale d\<rparr>) (enumerate 0 durations)"
  show "length ?ss = length durations" by simp
  show "\<forall>s\<in>set ?ss. sub_task_id s = cq_next_task_id q" by auto
  show "schedule_task scale task durations q = Some (cq_next_task_id q, place_subtasks ?ss (q\<lparr>cq_next_task_id := cq_next_task_id q + 1,
      cq_tasks := oput (cq_next_task_id q) \<lparr>ts_task = task, ts_subtasks = length durations\<rparr> (cq_tasks q)\<rparr>))"
    using assms by (simp add: schedule_task_def Let_def case_prod_unfold)
qed

lemma map_sub_task_id: "\<forall>s\<in>set ss. sub_task_id s = a \<Longrightarrow> count_list (map sub_task_id ss) i = (if i = a then length ss else 0)"
  by (induction ss) auto

lemma cpu_schedule_inv:
  assumes inv: "cpu_inv cores n" and d: "durations \<noteq> []"
  shows "\<exists>n'. cpu_schedule scale task durations n = Some n' \<and> cpu_inv cores n'"
proof -
  define q where "q = cn_queue n"
  define a where "a = cq_next_task_id q"
  obtain ss where ss: "length ss = length durations" "\<forall>s\<in>set ss. sub_task_id s = a"
    and sch: "schedule_task scale task durations q = Some (a, place_subtasks ss (q\<lparr>cq_next_task_id := a + 1,
           cq_tasks := oput a \<lparr>ts_task = task, ts_subtasks = length durations\<rparr> (cq_tasks q)\<rparr>))"
    using schedule_task_eq [OF d, of q scale task] unfolding a_def by metis
  define q1 where "q1 = q\<lparr>cq_next_task_id := a + 1, cq_tasks := oput a \<lparr>ts_task = task, ts_subtasks = length durations\<rparr> (cq_tasks q)\<rparr>"
  obtain sch' q2 where pl: "place_subtasks ss q1 = (sch', q2)" by fastforce
  have cores: "case cores of None \<Rightarrow> sch' = ss \<and> q2 = q1 \<and> cq_pending_subtasks q = []
      | Some k \<Rightarrow> \<exists>free. cq_available_cores q = Some free \<and> free + length (cn_running n) = k \<and> (cq_pending_subtasks q = [] \<or> free = 0) \<and>
          sch' = take free ss \<and> q2 = q1\<lparr>cq_available_cores := Some (free - length ss), cq_pending_subtasks := cq_pending_subtasks q @ drop free ss\<rparr>"
    using inv pl unfolding place_subtasks_eq by (auto simp: cpu_inv_def cores_split_def q_def q1_def split: option.splits)
  define n' where "n' = n\<lparr>cn_queue := q2, cn_running := cn_running n @ sch', cn_scheduled := cn_scheduled n @ [task]\<rparr>"
  have n': "cpu_schedule scale task durations n = Some n'"
    using sch pl by (simp add: cpu_schedule_def q_def [symmetric] q1_def n'_def)
  have fresh: "\<not> ohas (cq_tasks q) a"
    using inv by (force simp: cpu_inv_def counts_match_def q_def a_def ohas_iff_Some)
  have q2: "cq_tasks q2 = oput a \<lparr>ts_task = task, ts_subtasks = length durations\<rparr> (cq_tasks q)" "cq_next_task_id q2 = a + 1"
    using cores by (auto simp: q1_def split: option.splits)
  have pieces: "sch' @ cq_pending_subtasks q2 = ss @ cq_pending_subtasks q \<or> sch' @ cq_pending_subtasks q2 = take (length sch') ss @ cq_pending_subtasks q @ drop (length sch') ss"
    using cores by (auto simp: q1_def split: option.splits)
  have count: "count_list (map sub_task_id (outstanding n')) i = count_list (map sub_task_id (outstanding n)) i + (if i = a then length ss else 0)" for i
  proof -
    define c where "c = (\<lambda>xs :: subtask list. count_list (map sub_task_id xs) i)"
    have app: "c (xs @ ys) = c xs + c ys" for xs ys by (simp add: c_def)
    have "c ss = c (take (length sch') ss) + c (drop (length sch') ss)" by (metis app append_take_drop_id)
    moreover have "c (sch' @ cq_pending_subtasks q2) = c ss + c (cq_pending_subtasks q)"
    proof (cases "sch' @ cq_pending_subtasks q2 = ss @ cq_pending_subtasks q")
      case True
      then show ?thesis by (simp only: app [symmetric])
    next
      case False
      then have "sch' @ cq_pending_subtasks q2 = take (length sch') ss @ cq_pending_subtasks q @ drop (length sch') ss" using pieces by blast
      then show ?thesis using calculation by (simp only: app)
    qed
    then have "c sch' + c (cq_pending_subtasks q2) = c ss + c (cq_pending_subtasks q)" by (simp only: app)
    ultimately show ?thesis using map_sub_task_id [OF ss(2), of i] by (simp add: n'_def q_def c_def)
  qed
  have "counts_match n'"
    using inv count fresh d unfolding counts_match_def cpu_inv_def
    by (auto simp: n'_def q2 oget_oput ss(1) q_def [symmetric] a_def [symmetric] ohas_def less_Suc_eq)
  moreover have "cores_split cores n'"
    using cores inv by (auto simp: cpu_inv_def cores_split_def n'_def q1_def q_def split: option.splits)
  moreover have "tasks_kept n'"
    using inv tasks_oput_new [OF fresh, of ts_task "\<lparr>ts_task = task, ts_subtasks = length durations\<rparr>"]
    by (simp add: tasks_kept_def cpu_inv_def n'_def q2 q_def [symmetric])
  ultimately show ?thesis using n' by (simp add: cpu_inv_def)
qed

lemma count_list_remove1: "s \<in> set xs \<Longrightarrow> count_list (map f (remove1 s xs)) i = count_list (map f xs) i - (if f s = i then 1 else 0)"
proof (induction xs)
  case (Cons x xs)
  have "0 < count_list (map f xs) i" if "f s = i" "s \<in> set xs" using that by (metis count_list_0_iff gr0I image_eqI list.set_map)
  then show ?case using Cons by (auto simp: Suc_diff_le)
qed simp

lemma cpu_complete_inv:
  assumes inv: "cpu_inv cores n" and s: "s \<in> set (cn_running n)"
  shows "\<exists>n'. cpu_complete s n = Some n' \<and> cpu_inv cores n'"
proof -
  define q where "q = cn_queue n"
  define i where "i = sub_task_id s"
  define tasks where "tasks = cq_tasks q"
  have match: "count_list (map sub_task_id (cn_running n @ cq_pending_subtasks q)) j = (case oget tasks j of Some t \<Rightarrow> ts_subtasks t | None \<Rightarrow> 0)" for j
    using inv by (simp add: cpu_inv_def counts_match_def q_def tasks_def)
  have pos: "0 < ts_subtasks t \<and> j < cq_next_task_id q" if "oget tasks j = Some t" for j t
    using inv that by (simp add: cpu_inv_def counts_match_def q_def tasks_def)
  have "0 < count_list (map sub_task_id (cn_running n)) i" using s by (metis count_list_0_iff gr0I i_def image_eqI list.set_map)
  then obtain t where t: "oget tasks i = Some t" using match [of i] by (cases "oget tasks i") auto
  have tpos: "0 < ts_subtasks t" using pos [OF t] by simp
  define left where "left = ts_subtasks t - 1"
  define tasks' where "tasks' = (if left = 0 then odel i tasks else oput i (t\<lparr>ts_subtasks := left\<rparr>) tasks)"
  have get': "oget tasks' j = (if j = i then (if left = 0 then None else Some (t\<lparr>ts_subtasks := left\<rparr>)) else oget tasks j)" for j
    by (simp add: tasks'_def oget_odel oget_oput)
  have run: "count_list (map sub_task_id (remove1 s (cn_running n))) j + count_list (map sub_task_id (cq_pending_subtasks q)) j =
      (case oget tasks' j of Some t \<Rightarrow> ts_subtasks t | None \<Rightarrow> 0)" for j
    using match [of j] count_list_remove1 [OF s, of sub_task_id j] t tpos \<open>0 < count_list (map sub_task_id (cn_running n)) i\<close>
    by (auto simp: get' left_def i_def split: if_splits)
  define fin where "fin = (if left = 0 then Some (ts_task t) else None)"
  have kept: "mset (cn_finished n @ (case fin of Some t \<Rightarrow> [t] | None \<Rightarrow> [])) + mset (map ts_task (ovalues tasks')) = mset (cn_scheduled n)"
    using inv tasks_odel [OF t, of ts_task] tasks_oput_same [OF t, of ts_task "t\<lparr>ts_subtasks := left\<rparr>"]
    by (auto simp: cpu_inv_def tasks_kept_def fin_def tasks'_def tasks_def q_def)
  have len: "length (remove1 s (cn_running n)) + 1 = length (cn_running n)" using s length_pos_if_in_set [OF s] by (simp add: length_remove1)
  show ?thesis
  proof (cases "cq_pending_subtasks q")
    case Nil
    define n' where "n' = n\<lparr>cn_queue := q\<lparr>cq_tasks := tasks', cq_available_cores := map_option (\<lambda>c. c + 1) (cq_available_cores q)\<rparr>,
        cn_running := remove1 s (cn_running n), cn_finished := cn_finished n @ (case fin of Some t \<Rightarrow> [t] | None \<Rightarrow> [])\<rparr>"
    have "cpu_complete s n = Some n'"
      using t tpos Nil by (auto simp: cpu_complete_def complete_subtask_def q_def [symmetric] i_def [symmetric] tasks_def [symmetric] Let_def
          left_def tasks'_def fin_def n'_def)
    moreover have "counts_match n'"
      using run pos tpos Nil by (auto simp: counts_match_def n'_def get' left_def t split: if_splits)
    moreover have "cores_split cores n'"
      using inv Nil len by (auto simp: cpu_inv_def cores_split_def n'_def q_def split: option.splits)
    moreover have "tasks_kept n'" using kept by (simp add: tasks_kept_def n'_def)
    ultimately show ?thesis by (auto simp: cpu_inv_def)
  next
    case (Cons s' rest)
    have "0 < count_list (map sub_task_id (cq_pending_subtasks q)) (sub_task_id s')" by (simp add: Cons)
    then obtain t' where t': "oget tasks' (sub_task_id s') = Some t'" using run [of "sub_task_id s'"] by (cases "oget tasks' (sub_task_id s')") auto
    define n' where "n' = n\<lparr>cn_queue := q\<lparr>cq_tasks := tasks', cq_pending_subtasks := rest\<rparr>,
        cn_running := remove1 s (cn_running n) @ [s'], cn_finished := cn_finished n @ (case fin of Some t \<Rightarrow> [t] | None \<Rightarrow> [])\<rparr>"
    have "cpu_complete s n = Some n'"
      using t tpos Cons t' [unfolded tasks'_def left_def]
      by (auto simp: cpu_complete_def complete_subtask_def q_def [symmetric] i_def [symmetric] tasks_def [symmetric] Let_def
          left_def tasks'_def fin_def n'_def split: if_splits)
    moreover have "counts_match n'"
      using run pos tpos Cons by (fastforce simp: counts_match_def n'_def get' left_def t split: if_splits)
    moreover have "cores_split cores n'"
      using inv Cons len by (auto simp: cpu_inv_def cores_split_def n'_def q_def split: option.splits)
    moreover have "tasks_kept n'" using kept by (simp add: tasks_kept_def n'_def)
    ultimately show ?thesis by (auto simp: cpu_inv_def)
  qed
qed

inductive cpu_run :: "nat option \<Rightarrow> (nat \<Rightarrow> nat) \<Rightarrow> 't cpu_node \<Rightarrow> bool" for cores scale where
  cpu_idle: "cpu_run cores scale \<lparr>cn_queue = cpu_new cores, cn_running = [], cn_finished = [], cn_scheduled = []\<rparr>"
| cpu_scheduled: "cpu_run cores scale n \<Longrightarrow> durations \<noteq> [] \<Longrightarrow> cpu_schedule scale task durations n = Some n' \<Longrightarrow> cpu_run cores scale n'"
| cpu_completed: "cpu_run cores scale n \<Longrightarrow> s \<in> set (cn_running n) \<Longrightarrow> cpu_complete s n = Some n' \<Longrightarrow> cpu_run cores scale n'"

lemma cpu_run_inv: "cpu_run cores scale n \<Longrightarrow> cpu_inv cores n"
proof (induction rule: cpu_run.induct)
  case cpu_idle
  show ?case by (auto simp: cpu_inv_def counts_match_def cores_split_def tasks_kept_def cpu_new_def ovalues_def split: option.splits)
next
  case (cpu_scheduled n durations task n')
  then show ?case using cpu_schedule_inv [of cores n durations scale task] by auto
next
  case (cpu_completed n s n')
  then show ?case using cpu_complete_inv [of cores n s] by auto
qed

text \<open>A simulated CPU neither loses nor repeats work. Whatever tasks are scheduled and in whatever order subtasks end:
  completing a running subtask never fails; free cores and running subtasks always add up to the cores, and no subtask
  waits while a core is free; and once nothing runs on a CPU with a core, every task scheduled has been handed back,
  exactly once.\<close>

theorem cpu_work_conserved:
  assumes "cpu_run cores scale n"
  shows "(\<forall>s\<in>set (cn_running n). cpu_complete s n \<noteq> None) \<and>
    (\<forall>k. cores = Some k \<longrightarrow> (\<exists>free. cq_available_cores (cn_queue n) = Some free \<and> free + length (cn_running n) = k \<and>
       (cq_pending_subtasks (cn_queue n) \<noteq> [] \<longrightarrow> free = 0))) \<and>
    (cn_running n = [] \<and> cores \<noteq> Some 0 \<longrightarrow> mset (cn_finished n) = mset (cn_scheduled n))"
proof -
  have inv: "cpu_inv cores n" by (rule cpu_run_inv [OF assms])
  have "\<forall>s\<in>set (cn_running n). cpu_complete s n \<noteq> None" using cpu_complete_inv [OF inv] by fastforce
  moreover have "\<forall>k. cores = Some k \<longrightarrow> (\<exists>free. cq_available_cores (cn_queue n) = Some free \<and> free + length (cn_running n) = k \<and>
       (cq_pending_subtasks (cn_queue n) \<noteq> [] \<longrightarrow> free = 0))"
    using inv by (auto simp: cpu_inv_def cores_split_def)
  moreover have "mset (cn_finished n) = mset (cn_scheduled n)" if "cn_running n = []" "cores \<noteq> Some 0"
  proof -
    have "cq_pending_subtasks (cn_queue n) = []" using inv that by (auto simp: cpu_inv_def cores_split_def split: option.splits)
    then have "oget (cq_tasks (cn_queue n)) i = None" for i
      using inv that(1) by (cases "oget (cq_tasks (cn_queue n)) i") (fastforce simp: cpu_inv_def counts_match_def split: option.splits)+
    then have "entries (cq_tasks (cn_queue n)) = []" by (metis in_entries_iff list.set_intros(1) neq_Nil_conv option.discI prod.collapse)
    then show ?thesis using inv by (simp add: cpu_inv_def tasks_kept_def ovalues_def)
  qed
  ultimately show ?thesis by blast
qed

definition demo_cpu :: "string cpu_node" where
  "demo_cpu = the (cpu_schedule (\<lambda>d. 2 * d) ''validate'' [5, 7] \<lparr>cn_queue = cpu_new (Some 1), cn_running = [], cn_finished = [], cn_scheduled = []\<rparr>)"

theorem cpu_work_conserved_witness:
  "cn_running demo_cpu = [\<lparr>sub_task_id = 0, sub_subtask_id = 0, sub_duration = 10\<rparr>] \<and>
   (\<exists>free. cq_available_cores (cn_queue demo_cpu) = Some free \<and> free + length (cn_running demo_cpu) = 1)"
proof -
  let ?n = "\<lparr>cn_queue = cpu_new (Some 1), cn_running = [], cn_finished = [], cn_scheduled = []\<rparr> :: string cpu_node"
  have "cpu_schedule (\<lambda>d. 2 * d) ''validate'' [5, 7] ?n = Some demo_cpu" by (simp add: demo_cpu_def cpu_schedule_def schedule_task_def cpu_new_def Let_def)
  then have run: "cpu_run (Some 1) (\<lambda>d. 2 * d) demo_cpu" by (intro cpu_scheduled [OF cpu_idle]) simp_all
  have "cn_running demo_cpu = [\<lparr>sub_task_id = 0, sub_subtask_id = 0, sub_duration = 10\<rparr>]"
    by (simp add: demo_cpu_def cpu_schedule_def schedule_task_def cpu_new_def Let_def)
  then show ?thesis using cpu_work_conserved [OF run] by auto
qed

end
