(* ===== verification/Sim_Clock.thy ===== *)
theory Sim_Clock
  imports Ordered_Map
begin

text \<open>
  \<open>sim-rs/sim-core/src/clock.rs\<close> and \<open>clock/coordinator.rs\<close>: the virtual clock of a simulation shard. Actors wait for a
  time; when all of them wait and no task is pending the coordinator moves the time to the next requested one, but
  never past what a peer shard may still send (the lookahead ceiling of Chandy, Misra and Bryant).

  \<^item> Timestamps and durations are nanoseconds as \<open>nat\<close>. An actor's slot in \<open>waiters\<close> is \<open>None\<close> while it runs.
  \<^item> The coordinator's events arrive on one unbounded channel, in the order they were sent. \<open>None\<close> is a panic: an actor
    waiting twice, the count of running actors going below zero, or an unknown actor.
  \<^item> The atomic counter of tasks and the peers' times are read when a step looks at them.
\<close>

subsection \<open>Timestamps\<close>

definition with_resolution :: "nat \<Rightarrow> nat \<Rightarrow> nat" where
  "with_resolution ts delta = (if ts mod delta = 0 then ts else ts + (delta - ts mod delta))"

lemma with_resolution_ge: "0 < delta \<Longrightarrow> ts \<le> with_resolution ts delta \<and> delta dvd with_resolution ts delta \<and> with_resolution ts delta < ts + delta"
proof -
  assume d: "0 < delta"
  have "ts mod delta < delta" using d by simp
  moreover have "ts + (delta - ts mod delta) = delta * (ts div delta + 1)"
    using calculation mult_div_mod_eq [of delta ts] unfolding distrib_left by linarith
  then have "delta dvd ts + (delta - ts mod delta)" by (simp only: dvd_triv_left)
  ultimately show ?thesis by (auto simp: with_resolution_def)
qed

subsection \<open>The coordinator\<close>

datatype clock_event =
    Wait nat "nat option"
  | CancelWait nat

record clock =
  ck_time :: nat
  ck_waiters :: "nat option option list"
  ck_running :: nat
  ck_queue :: "(nat, nat list) omap"
  ck_woken :: "(nat \<times> nat) list"

text \<open>The state in which \<open>run\<close> enters its loop; \<open>ck_woken\<close> records the actors woken and when.\<close>

definition clock_start :: "nat \<Rightarrow> clock" where
  "clock_start actors = \<lparr>ck_time = 0, ck_waiters = replicate actors None, ck_running = actors, ck_queue = oempty, ck_woken = []\<rparr>"

definition queue_push :: "nat \<Rightarrow> nat \<Rightarrow> (nat, nat list) omap \<Rightarrow> (nat, nat list) omap" where
  "queue_push ts actor q = oput ts ((case oget q ts of Some as \<Rightarrow> as | None \<Rightarrow> []) @ [actor]) q"

definition handle_event :: "clock_event \<Rightarrow> clock \<Rightarrow> clock option" where
  "handle_event ev c =
     (case ev of
        Wait actor until0 \<Rightarrow>
          let until = (case until0 of Some t \<Rightarrow> Some (max t (ck_time c)) | None \<Rightarrow> None)
          in if actor \<ge> length (ck_waiters c) \<or> ck_waiters c ! actor \<noteq> None \<or> ck_running c = 0 then None
             else Some (c\<lparr>ck_waiters := (ck_waiters c)[actor := Some until], ck_running := ck_running c - 1,
                          ck_queue := (case until of Some ts \<Rightarrow> queue_push ts actor (ck_queue c) | None \<Rightarrow> ck_queue c)\<rparr>)
      | CancelWait actor \<Rightarrow>
          if actor \<ge> length (ck_waiters c) then None
          else if ck_waiters c ! actor \<noteq> None
          then Some (c\<lparr>ck_waiters := (ck_waiters c)[actor := None], ck_running := ck_running c + 1\<rparr>)
          else Some c)"

text \<open>Waking the actors queued for a time; an actor that cancelled, or waits for another time now, is passed over.\<close>

fun wake :: "nat \<Rightarrow> nat list \<Rightarrow> clock \<Rightarrow> clock" where
  "wake ts [] c = c"
| "wake ts (a # as) c =
     wake ts as (if ck_waiters c ! a = Some (Some ts)
                 then c\<lparr>ck_running := ck_running c + 1, ck_waiters := (ck_waiters c)[a := None], ck_woken := ck_woken c @ [(a, ts)]\<rparr>
                 else c)"

definition ceiling_of :: "(nat \<times> nat) list \<Rightarrow> nat" where
  "ceiling_of peers = foldl (\<lambda>c (time, min_latency). if time + min_latency < c then time + min_latency else c) (2 ^ 64 - 1) peers"

text \<open>One round of the inner loop, when every actor waits and no task is pending. \<open>peers\<close> are the times read from the
  peer shards with their latencies.\<close>

definition advance :: "(nat \<times> nat) list \<Rightarrow> clock \<Rightarrow> clock" where
  "advance peers c =
     (case entries (ck_queue c) of
        [] \<Rightarrow> c
      | (timestamp, waiter_ids) # _ \<Rightarrow>
          if timestamp > ceiling_of peers then (if ceiling_of peers > ck_time c then c\<lparr>ck_time := ceiling_of peers\<rparr> else c)
          else wake timestamp waiter_ids (c\<lparr>ck_time := timestamp, ck_queue := odel timestamp (ck_queue c)\<rparr>))"

text \<open>The inner loop with no peer shards and no pending task: rounds until an actor runs or nothing is queued.\<close>

function advance_loop :: "clock \<Rightarrow> clock" where
  "advance_loop c =
     (if ck_running c = 0 \<and> entries (ck_queue c) \<noteq> [] \<and> fst (hd (entries (ck_queue c))) \<le> ceiling_of [] then advance_loop (advance [] c) else c)"
  by pat_completeness auto


lemma wake_fields [simp]: "ck_time (wake ts as c) = ck_time c" "ck_queue (wake ts as c) = ck_queue c"
  "length (ck_waiters (wake ts as c)) = length (ck_waiters c)"
  by (induction ts as c rule: wake.induct) auto

lemma ck_queue_advance_less: "fst (hd (entries (ck_queue c))) \<le> ceiling_of peers \<Longrightarrow> entries (ck_queue c) \<noteq> [] \<Longrightarrow>
    entries (ck_queue (advance peers c)) = tl (entries (ck_queue c))"
proof -
  assume le: "fst (hd (entries (ck_queue c))) \<le> ceiling_of peers" and ne: "entries (ck_queue c) \<noteq> []"
  obtain ts ids rest where e: "entries (ck_queue c) = (ts, ids) # rest" using ne by (cases "entries (ck_queue c)") auto
  have "filter (\<lambda>(k, _). k \<noteq> ts) rest = rest" using distinct_entries [of "ck_queue c"] e by (auto simp: filter_id_conv image_iff)
  then show ?thesis using le e by (simp add: advance_def odel_def)
qed

termination advance_loop
  by (relation "measure (\<lambda>c. length (entries (ck_queue c)))") (auto simp: ck_queue_advance_less)

declare advance_loop.simps [simp del]

subsection \<open>Invariant\<close>

text \<open>Nobody is overdue, everybody who waits for a time is queued for it, and \<open>running\<close> counts the actors that do not wait.\<close>

abbreviation waits_for :: "clock \<Rightarrow> nat \<Rightarrow> nat \<Rightarrow> bool" where
  "waits_for c a t \<equiv> a < length (ck_waiters c) \<and> ck_waiters c ! a = Some (Some t)"

definition clock_ok :: "clock \<Rightarrow> bool" where
  "clock_ok c \<longleftrightarrow> ck_running c = length (filter (\<lambda>w. w = None) (ck_waiters c)) \<and>
     (\<forall>a t. waits_for c a t \<longrightarrow> (\<exists>as. oget (ck_queue c) t = Some as \<and> a \<in> set as)) \<and>
     (\<forall>t as. oget (ck_queue c) t = Some as \<longrightarrow> ck_time c \<le> t \<and> (\<forall>a\<in>set as. a < length (ck_waiters c)))"

lemma clock_ok_waits: "clock_ok c \<Longrightarrow> waits_for c a t \<Longrightarrow> \<exists>as. oget (ck_queue c) t = Some as \<and> a \<in> set as"
  unfolding clock_ok_def by blast

lemma count_update:
  "i < length xs \<Longrightarrow> length (filter P (xs[i := y])) + (if P (xs ! i) then 1 else 0) = length (filter P xs) + (if P y then 1 else 0)"
proof (induction xs arbitrary: i)
  case (Cons x xs)
  then show ?case by (cases i) auto
qed simp

lemma clock_start_ok: "clock_ok (clock_start n)"
  by (simp add: clock_ok_def clock_start_def)

lemma oget_queue_push: "oget (queue_push ts a q) t = (if t = ts then Some ((case oget q ts of Some as \<Rightarrow> as | None \<Rightarrow> []) @ [a]) else oget q t)"
  by (simp add: queue_push_def oget_oput)

lemma handle_event_ok:
  assumes ok: "clock_ok c" and ev: "handle_event ev c = Some c'"
  shows "clock_ok c' \<and> ck_time c' = ck_time c \<and> ck_woken c' = ck_woken c \<and> length (ck_waiters c') = length (ck_waiters c)"
proof (cases ev)
  case (Wait a u)
  define w where "w = (case u of Some t \<Rightarrow> Some (max t (ck_time c)) | None \<Rightarrow> None)"
  have a: "a < length (ck_waiters c)" "ck_waiters c ! a = None" "0 < ck_running c"
    and c': "c' = c\<lparr>ck_waiters := (ck_waiters c)[a := Some w], ck_running := ck_running c - 1,
        ck_queue := (case w of Some ts \<Rightarrow> queue_push ts a (ck_queue c) | None \<Rightarrow> ck_queue c)\<rparr>"
    using ev by (auto simp: handle_event_def Wait Let_def w_def split: if_splits)
  have "ck_running c' = length (filter (\<lambda>w. w = None) (ck_waiters c'))"
    using ok count_update [OF a(1), of "\<lambda>w. w = None" "Some w"] a by (simp add: clock_ok_def c')
  moreover have "\<exists>as. oget (ck_queue c') t = Some as \<and> b \<in> set as" if bt: "waits_for c' b t" for b t
  proof (cases "b = a")
    case True
    then show ?thesis using bt a(1) by (auto simp: c' oget_queue_push)
  next
    case False
    then obtain as where "oget (ck_queue c) t = Some as" "b \<in> set as" using bt clock_ok_waits [OF ok, of b t] by (auto simp: c')
    then show ?thesis by (cases w) (auto simp: c' oget_queue_push)
  qed
  moreover have "ck_time c' \<le> t \<and> (\<forall>b\<in>set as. b < length (ck_waiters c'))" if "oget (ck_queue c') t = Some as" for t as
    using that ok a(1) by (auto simp: c' clock_ok_def oget_queue_push w_def split: option.splits if_splits)
  ultimately show ?thesis by (simp add: clock_ok_def c')
next
  case (CancelWait a)
  then have a: "a < length (ck_waiters c)" using ev by (auto simp: handle_event_def split: if_splits)
  show ?thesis
  proof (cases "ck_waiters c ! a = None")
    case True
    then show ?thesis using ok ev a by (simp add: handle_event_def CancelWait)
  next
    case False
    then have c': "c' = c\<lparr>ck_waiters := (ck_waiters c)[a := None], ck_running := ck_running c + 1\<rparr>" using ev a by (auto simp: handle_event_def CancelWait)
    then show ?thesis
      using ok count_update [OF a, of "\<lambda>w. w = None" None] False a by (auto simp: clock_ok_def nth_list_update split: if_splits)
  qed
qed

text \<open>After waking the actors queued for a time, none of them waits for it any more.\<close>

lemma wake_waiters:
  assumes "\<forall>a\<in>set as. a < length (ck_waiters c)"
  shows "ck_waiters (wake ts as c) ! b = (if b \<in> set as \<and> ck_waiters c ! b = Some (Some ts) then None else ck_waiters c ! b)"
  using assms
proof (induction ts as c rule: wake.induct)
  case (2 ts a as c)
  then show ?case by (auto simp: nth_list_update)
qed simp

lemma wake_running:
  assumes "\<forall>a\<in>set as. a < length (ck_waiters c)" and "ck_running c = length (filter (\<lambda>w. w = None) (ck_waiters c))"
  shows "ck_running (wake ts as c) = length (filter (\<lambda>w. w = None) (ck_waiters (wake ts as c)))"
  using assms
proof (induction ts as c rule: wake.induct)
  case (2 ts a as c)
  have "length (filter (\<lambda>w. w = None) ((ck_waiters c)[a := None])) = length (filter (\<lambda>w. w = None) (ck_waiters c)) + 1"
    if "ck_waiters c ! a = Some (Some ts)" using count_update [of a "ck_waiters c" "\<lambda>w. w = None" None] 2(2) that by simp
  then show ?case using 2 by auto
qed simp

lemma wake_woken: "\<exists>ws. ck_woken (wake ts as c) = ck_woken c @ map (\<lambda>a. (a, ts)) ws"
proof (induction ts as c rule: wake.induct)
  case (2 ts a as c)
  show ?case
  proof (cases "ck_waiters c ! a = Some (Some ts)")
    case True
    then obtain ws where "ck_woken (wake ts (a # as) c) = (ck_woken c @ [(a, ts)]) @ map (\<lambda>a. (a, ts)) ws" using 2 by auto
    then show ?thesis by (intro exI [of _ "a # ws"]) simp
  qed (use 2 in simp)
qed simp

lemma advance_ok:
  assumes ok: "clock_ok c"
  shows "clock_ok (advance peers c) \<and> ck_time c \<le> ck_time (advance peers c) \<and> length (ck_waiters (advance peers c)) = length (ck_waiters c) \<and>
    (\<exists>ws. ck_woken (advance peers c) = ck_woken c @ map (\<lambda>a. (a, ck_time (advance peers c))) ws) \<and>
    (ck_time c < ck_time (advance peers c) \<longrightarrow> ck_time (advance peers c) \<le> ceiling_of peers)"
proof (cases "entries (ck_queue c)")
  case Nil
  then show ?thesis using ok by (simp add: advance_def)
next
  case (Cons x rest)
  obtain ts ids where x: "x = (ts, ids)" by fastforce
  have q: "oget (ck_queue c) ts = Some ids" using Cons x in_entries_iff [of ts ids "ck_queue c"] by simp
  have first: "ts \<le> t" if "oget (ck_queue c) t = Some as" for t as
  proof -
    have "(t, as) \<in> set ((ts, ids) # rest)" using that Cons x in_entries_iff [of t as "ck_queue c"] by simp
    then show ?thesis using sorted_entries [of "ck_queue c"] Cons x by force
  qed
  have le: "ck_time c \<le> ts" "\<forall>a\<in>set ids. a < length (ck_waiters c)" using ok q by (auto simp: clock_ok_def)
  show ?thesis
  proof (cases "ts > ceiling_of peers")
    case True
    have "clock_ok (c\<lparr>ck_time := ceiling_of peers\<rparr>)" using ok first True by (fastforce simp: clock_ok_def)
    then show ?thesis using ok Cons x True by (auto simp: advance_def)
  next
    case False
    define c1 where "c1 = c\<lparr>ck_time := ts, ck_queue := odel ts (ck_queue c)\<rparr>"
    have adv: "advance peers c = wake ts ids c1" using Cons x False by (simp add: advance_def c1_def)
    have ids: "\<forall>a\<in>set ids. a < length (ck_waiters c1)" using le(2) by (simp add: c1_def)
    note w = wake_waiters [OF ids, of ts]
    have "\<exists>as. oget (ck_queue (wake ts ids c1)) t = Some as \<and> b \<in> set as" if "waits_for (wake ts ids c1) b t" for b t
    proof -
      have bt: "waits_for c b t" "\<not> (b \<in> set ids \<and> t = ts)" using that unfolding w by (auto simp: c1_def split: if_splits)
      then obtain as where as: "oget (ck_queue c) t = Some as" "b \<in> set as" using clock_ok_waits [OF ok, of b t] by blast
      then have "t \<noteq> ts" using bt(2) q by auto
      then show ?thesis using as by (simp add: c1_def oget_odel)
    qed
    moreover have "ck_time (wake ts ids c1) \<le> t \<and> (\<forall>a\<in>set as. a < length (ck_waiters (wake ts ids c1)))" if "oget (ck_queue (wake ts ids c1)) t = Some as" for t as
      using that first ok by (auto simp: c1_def oget_odel clock_ok_def split: if_splits)
    moreover have "ck_running (wake ts ids c1) = length (filter (\<lambda>w. w = None) (ck_waiters (wake ts ids c1)))"
      using wake_running [OF ids] ok by (simp add: clock_ok_def c1_def)
    ultimately have "clock_ok (wake ts ids c1)" by (simp add: clock_ok_def)
    then show ?thesis using wake_woken [of ts ids c1] le False by (simp add: adv) (simp add: c1_def)
  qed
qed


subsection \<open>One shard\<close>

text \<open>The coordinator's moves: an event, or a round of the inner loop with every actor waiting.\<close>

inductive clock_run :: "nat \<Rightarrow> clock \<Rightarrow> bool" for n where
  clock_begin: "clock_run n (clock_start n)"
| clock_event: "clock_run n c \<Longrightarrow> handle_event ev c = Some c' \<Longrightarrow> clock_run n c'"
| clock_round: "clock_run n c \<Longrightarrow> ck_running c = 0 \<Longrightarrow> clock_run n (advance peers c)"

lemma clock_run_ok: "clock_run n c \<Longrightarrow> clock_ok c \<and> length (ck_waiters c) = n"
proof (induction rule: clock_run.induct)
  case clock_begin
  show ?case using clock_start_ok by (simp add: clock_start_def)
next
  case (clock_event c ev c')
  then show ?case using handle_event_ok by fastforce
next
  case (clock_round c peers)
  then show ?case using advance_ok by auto
qed

lemma filter_None_pos: "a < length xs \<Longrightarrow> xs ! a = None \<Longrightarrow> 0 < length (filter (\<lambda>w. w = None) xs)"
  by (metis (mono_tags, lifting) filter_empty_conv length_greater_0_conv nth_mem)

lemma handle_event_total:
  assumes "clock_ok c" and "a < length (ck_waiters c)"
  shows "ck_waiters c ! a = None \<Longrightarrow> handle_event (Wait a u) c \<noteq> None" and "handle_event (CancelWait a) c \<noteq> None"
proof -
  show "handle_event (Wait a u) c \<noteq> None" if "ck_waiters c ! a = None"
    using assms that filter_None_pos [OF assms(2) that] by (simp add: handle_event_def Let_def clock_ok_def)
  show "handle_event (CancelWait a) c \<noteq> None" using assms by (simp add: handle_event_def)
qed

text \<open>Nobody is woken early, late or not at all. In every reachable clock no waiting actor's time has passed; a round
  wakes an actor only at exactly the time it asked for; \<open>running\<close> is the number of actors that do not wait, so an actor
  that alternates between waiting and running never makes the coordinator panic; and time never goes back.\<close>

theorem clock_wakes_on_time:
  assumes "clock_run n c"
  shows "(\<forall>a t. a < n \<and> ck_waiters c ! a = Some (Some t) \<longrightarrow> ck_time c \<le> t) \<and>
    ck_running c = length (filter (\<lambda>w. w = None) (ck_waiters c)) \<and>
    (\<forall>a u. a < n \<and> ck_waiters c ! a = None \<longrightarrow> handle_event (Wait a u) c \<noteq> None) \<and>
    (\<forall>peers. ck_time c \<le> ck_time (advance peers c) \<and>
       (\<forall>a. a < n \<and> ck_waiters c ! a \<noteq> ck_waiters (advance peers c) ! a \<longrightarrow>
          ck_waiters c ! a = Some (Some (ck_time (advance peers c))) \<and> ck_waiters (advance peers c) ! a = None))"
proof -
  have ok: "clock_ok c" "length (ck_waiters c) = n" using clock_run_ok [OF assms] by auto
  have "ck_time c \<le> t" if "a < n" "ck_waiters c ! a = Some (Some t)" for a t
    using ok that unfolding clock_ok_def by blast
  moreover have "ck_running c = length (filter (\<lambda>w. w = None) (ck_waiters c))" using ok(1) by (simp add: clock_ok_def)
  moreover have "handle_event (Wait a u) c \<noteq> None" if "a < n" "ck_waiters c ! a = None" for a u
    using handle_event_total(1) [OF ok(1)] that ok(2) by simp
  moreover have "ck_time c \<le> ck_time (advance peers c)" for peers using advance_ok [OF ok(1)] by blast
  moreover have "ck_waiters c ! a = Some (Some (ck_time (advance peers c))) \<and> ck_waiters (advance peers c) ! a = None"
    if "a < n" "ck_waiters c ! a \<noteq> ck_waiters (advance peers c) ! a" for a peers
  proof (cases "entries (ck_queue c)")
    case (Cons x rest)
    obtain ts ids where x: "x = (ts, ids)" by fastforce
    have "oget (ck_queue c) ts = Some ids" using Cons x in_entries_iff [of ts ids "ck_queue c"] by simp
    then have "\<forall>a\<in>set ids. a < length (ck_waiters c)" using ok(1) unfolding clock_ok_def by blast
    then show ?thesis
      using that Cons x wake_waiters [of ids "c\<lparr>ck_time := ts, ck_queue := odel ts (ck_queue c)\<rparr>" ts a]
      by (auto simp: advance_def split: if_splits)
  qed (use that in \<open>simp add: advance_def\<close>)
  ultimately show ?thesis by blast
qed

text \<open>With no peers the rounds end, with an actor running or nobody waiting for a time.\<close>

lemma ceiling_of_Nil: "ceiling_of [] = 2 ^ 64 - 1"
  by (simp add: ceiling_of_def)

lemma advance_loop_settles:
  assumes "clock_ok c" and "\<forall>t as. oget (ck_queue c) t = Some as \<longrightarrow> t < 2 ^ 64"
  shows "clock_ok (advance_loop c) \<and> (ck_running (advance_loop c) > 0 \<or> (\<forall>a t. \<not> waits_for (advance_loop c) a t))"
  using assms
proof (induction c rule: advance_loop.induct)
  case (1 c)
  show ?case
  proof (cases "ck_running c = 0 \<and> entries (ck_queue c) \<noteq> [] \<and> fst (hd (entries (ck_queue c))) \<le> ceiling_of []")
    case True
    have "set (entries (ck_queue (advance [] c))) \<subseteq> set (entries (ck_queue c))"
      using ck_queue_advance_less [of c "[]"] True by (cases "entries (ck_queue c)") auto
    then have "\<forall>t as. oget (ck_queue (advance [] c)) t = Some as \<longrightarrow> t < 2 ^ 64"
      using 1(3) by (meson in_entries_iff subsetD)
    then have "clock_ok (advance_loop (advance [] c)) \<and> (ck_running (advance_loop (advance [] c)) > 0 \<or> (\<forall>a t. \<not> waits_for (advance_loop (advance [] c)) a t))"
      using 1(1) [OF True] advance_ok [OF 1(2), of "[]"] by blast
    then show ?thesis using True by (simp add: advance_loop.simps [of c])
  next
    case False
    then have l: "advance_loop c = c" by (subst advance_loop.simps) (simp only: if_False)
    have "\<not> waits_for c a t" if "ck_running c = 0" for a t
    proof
      assume w: "waits_for c a t"
      then obtain as where as: "oget (ck_queue c) t = Some as" using clock_ok_waits [OF 1(2) w] by blast
      then obtain ts ids rest where e: "entries (ck_queue c) = (ts, ids) # rest"
        by (metis in_entries_iff empty_iff list.set(1) neq_Nil_conv prod.collapse)
      then have "oget (ck_queue c) ts = Some ids" using in_entries_iff [of ts ids "ck_queue c"] by simp
      then have "ts < 2 ^ 64" using 1(3) by blast
      then show False using False that e by (simp add: ceiling_of_Nil)
    qed
    then show ?thesis using 1(2) l by auto
  qed
qed


subsection \<open>Several shards\<close>

text \<open>\<open>build_shards\<close>: the lookahead from shard \<open>j\<close> to shard \<open>i\<close> is the smallest latency of a link between them (\<open>None\<close> when there
  is no link), at least the timestamp resolution; a shard's peers are the shards it has a link with.\<close>

definition lookahead :: "nat \<Rightarrow> (nat \<Rightarrow> nat \<Rightarrow> nat option) \<Rightarrow> nat \<Rightarrow> nat \<Rightarrow> nat option" where
  "lookahead resolution min_latency j i = map_option (\<lambda>l. max l resolution) (min_latency j i)"

definition peers_of :: "nat \<Rightarrow> (nat \<Rightarrow> nat \<Rightarrow> nat option) \<Rightarrow> nat \<Rightarrow> (nat \<Rightarrow> nat) \<Rightarrow> nat \<Rightarrow> (nat \<times> nat) list" where
  "peers_of resolution min_latency shards now_of i =
     List.map_filter (\<lambda>j. if j = i then None else map_option (Pair (now_of j)) (lookahead resolution min_latency j i)) [0..<shards]"

text \<open>A shard reads its peers' times one after the other, so what it has read may be older than their present times.\<close>

inductive shards_run :: "nat \<Rightarrow> (nat \<Rightarrow> nat \<Rightarrow> nat option) \<Rightarrow> nat \<Rightarrow> (nat \<Rightarrow> clock) \<Rightarrow> bool" for res lat n where
  shards_begin: "(\<And>i. S i = clock_start (m i)) \<Longrightarrow> shards_run res lat n S"
| shards_event: "shards_run res lat n S \<Longrightarrow> handle_event ev (S i) = Some c \<Longrightarrow> shards_run res lat n (S(i := c))"
| shards_round: "shards_run res lat n S \<Longrightarrow> i < n \<Longrightarrow> ck_running (S i) = 0 \<Longrightarrow> (\<And>j. seen j \<le> ck_time (S j)) \<Longrightarrow>
    shards_run res lat n (S(i := advance (peers_of res lat n seen i) (S i)))"

lemma ceiling_le_fold: "(t, l) \<in> set peers \<Longrightarrow> foldl (\<lambda>c (time, min_latency). if time + min_latency < c then time + min_latency else c) b peers \<le> t + l"
  and ceiling_le_base: "foldl (\<lambda>c (time, min_latency). if time + min_latency < c then time + min_latency else c) b peers \<le> (b :: nat)"
proof (induction peers arbitrary: b)
  case (Cons p peers)
  {
    case 1
    show ?case
    proof (cases "p = (t, l)")
      case True
      then show ?thesis using Cons(2) [of "if t + l < b then t + l else b"] by (auto split: if_splits)
    qed (use 1 Cons(1) in \<open>auto simp: case_prod_unfold\<close>)
  next
    case 2
    show ?case using Cons(2) [of "if fst p + snd p < b then fst p + snd p else b"] by (auto simp: case_prod_unfold split: if_splits)
  }
qed simp_all

lemma ceiling_le: "(t, l) \<in> set peers \<Longrightarrow> ceiling_of peers \<le> t + l"
  unfolding ceiling_of_def by (rule ceiling_le_fold)

lemma ceiling_attained: "ceiling_of peers = 2 ^ 64 - 1 \<or> (\<exists>(t, l)\<in>set peers. ceiling_of peers = t + l)"
proof -
  have "foldl (\<lambda>c (time, min_latency). if time + min_latency < c then time + min_latency else c) b peers = b \<or>
      (\<exists>(t, l)\<in>set peers. foldl (\<lambda>c (time, min_latency). if time + min_latency < c then time + min_latency else c) b peers = t + l)" for b :: nat
  proof (induction peers arbitrary: b)
    case (Cons p peers)
    show ?case using Cons [of "if fst p + snd p < b then fst p + snd p else b"] by (auto simp: case_prod_unfold split: if_splits)
  qed simp
  then show ?thesis by (simp add: ceiling_of_def)
qed

lemma in_peers_of: "(t, l) \<in> set (peers_of res lat n now_of i) \<longleftrightarrow> (\<exists>j<n. j \<noteq> i \<and> t = now_of j \<and> lookahead res lat j i = Some l)"
  by (force simp: peers_of_def List.map_filter_def split: if_splits)

text \<open>The invariant of the protocol: no shard is ahead of a peer by more than the lookahead from it.\<close>

definition within_lookahead :: "nat \<Rightarrow> (nat \<Rightarrow> nat \<Rightarrow> nat option) \<Rightarrow> nat \<Rightarrow> (nat \<Rightarrow> clock) \<Rightarrow> bool" where
  "within_lookahead res lat n S \<longleftrightarrow> (\<forall>i j l. i < n \<and> j < n \<and> i \<noteq> j \<and> lookahead res lat j i = Some l \<longrightarrow> ck_time (S i) \<le> ck_time (S j) + l)"

lemma within_lookahead_advance:
  assumes w: "within_lookahead res lat n S" and "i < n" and seen: "\<And>j. seen j \<le> ck_time (S j)" and ok: "clock_ok (S i)"
  shows "within_lookahead res lat n (S(i := advance (peers_of res lat n seen i) (S i)))"
proof -
  let ?c = "advance (peers_of res lat n seen i) (S i)"
  have adv: "ck_time (S i) \<le> ck_time ?c" "ck_time (S i) < ck_time ?c \<Longrightarrow> ck_time ?c \<le> ceiling_of (peers_of res lat n seen i)"
    using advance_ok [OF ok, of "peers_of res lat n seen i"] by blast+
  have "ck_time ?c \<le> ck_time (S j) + l" if "j < n" "j \<noteq> i" "lookahead res lat j i = Some l" for j l
  proof (cases "ck_time (S i) < ck_time ?c")
    case True
    have "ceiling_of (peers_of res lat n seen i) \<le> seen j + l" by (rule ceiling_le) (use that in \<open>auto simp: in_peers_of\<close>)
    then show ?thesis using adv(2) [OF True] seen [of j] by linarith
  next
    case False
    then show ?thesis using adv(1) w that \<open>i < n\<close> unfolding within_lookahead_def by (metis le_antisym not_less)
  qed
  moreover have "ck_time (S k) \<le> ck_time ?c + l" if "k < n" "k \<noteq> i" "lookahead res lat i k = Some l" for k l
  proof -
    have "ck_time (S k) \<le> ck_time (S i) + l" using w that \<open>i < n\<close> unfolding within_lookahead_def by blast
    then show ?thesis using adv(1) by linarith
  qed
  ultimately show ?thesis using w unfolding within_lookahead_def by auto
qed

lemma shards_run_inv: "shards_run res lat n S \<Longrightarrow> (\<forall>i. clock_ok (S i)) \<and> within_lookahead res lat n S"
proof (induction rule: shards_run.induct)
  case (shards_begin S m)
  then show ?case using clock_start_ok by (simp add: within_lookahead_def) (simp add: clock_start_def)
next
  case (shards_event S ev i c)
  have "clock_ok c \<and> ck_time c = ck_time (S i)" using shards_event handle_event_ok by blast
  then show ?case using shards_event(3) unfolding within_lookahead_def by auto
next
  case (shards_round S i seen)
  have "within_lookahead res lat n (S(i := advance (peers_of res lat n seen i) (S i)))"
    using shards_round within_lookahead_advance by blast
  moreover have "clock_ok ((S(i := advance (peers_of res lat n seen i) (S i))) k)" for k
    using shards_round advance_ok by (cases "k = i") simp_all
  ultimately show ?case by blast
qed



text \<open>C28: with a timed waiter in every shard the shards cannot block one another. When no actor runs anywhere, every queue
  holds a time below \<open>2 ^ 64\<close>, and a shard reads its peers as they are, some shard's next round changes its state:
  it wakes actors or moves its published time.\<close>

theorem cmb_progress:
  assumes "shards_run res lat n S" and "0 < n" and "0 < res"
    and "\<And>i. i < n \<Longrightarrow> entries (ck_queue (S i)) \<noteq> []" and "\<And>i. i < n \<Longrightarrow> ck_time (S i) < 2 ^ 64 - 1"
  shows "\<exists>i<n. advance (peers_of res lat n (\<lambda>j. ck_time (S j)) i) (S i) \<noteq> S i"
proof -
  obtain i where i: "i < n" "\<forall>j<n. ck_time (S i) \<le> ck_time (S j)"
    using ex_min_if_finite [of "(\<lambda>j. ck_time (S j)) ` {..<n}"] \<open>0 < n\<close> by (force simp: not_less)
  let ?p = "peers_of res lat n (\<lambda>j. ck_time (S j)) i"
  have up: "ck_time (S i) < ceiling_of ?p"
  proof (cases "ceiling_of ?p = 2 ^ 64 - 1")
    case True
    then show ?thesis using assms(5) [OF i(1)] by simp
  next
    case False
    then obtain t l where tl: "(t, l) \<in> set ?p" "ceiling_of ?p = t + l" using ceiling_attained [of ?p] by blast
    then obtain j where j: "j < n" "t = ck_time (S j)" "lookahead res lat j i = Some l" by (auto simp: in_peers_of)
    have "0 < l" using j(3) assms(3) by (auto simp: lookahead_def)
    then show ?thesis using i(2) j tl(2) by (metis add.commute add_strict_increasing le_eq_less_or_eq less_add_same_cancel2 order_le_less_trans)
  qed
  obtain ts ids rest where e: "entries (ck_queue (S i)) = (ts, ids) # rest" using assms(4) [OF i(1)] by (metis neq_Nil_conv prod.collapse)
  have "advance ?p (S i) \<noteq> S i"
  proof (cases "ts > ceiling_of ?p")
    case True
    then have "ck_time (advance ?p (S i)) = ceiling_of ?p" using up e by (simp add: advance_def)
    then show ?thesis using up by auto
  next
    case False
    then have "entries (ck_queue (advance ?p (S i))) = rest" using ck_queue_advance_less [of "S i" ?p] e by simp
    then show ?thesis using e by auto
  qed
  then show ?thesis using i(1) by blast
qed

text \<open>The rounds of the shards alone, without any event.\<close>

inductive rounds_only :: "nat \<Rightarrow> (nat \<Rightarrow> nat \<Rightarrow> nat option) \<Rightarrow> nat \<Rightarrow> (nat \<Rightarrow> clock) \<Rightarrow> (nat \<Rightarrow> clock) \<Rightarrow> bool" for res lat n S0 where
  no_round: "rounds_only res lat n S0 S0"
| one_round: "rounds_only res lat n S0 S \<Longrightarrow> i < n \<Longrightarrow> ck_running (S i) = 0 \<Longrightarrow> (\<And>k. seen k \<le> ck_time (S k)) \<Longrightarrow>
    rounds_only res lat n S0 (S(i := advance (peers_of res lat n seen i) (S i)))"

text \<open>A shard whose actors all wait without a time holds its peers back for good. Its round publishes nothing when its
  queue is empty, so however many rounds the shards make, no peer gets further than the lookahead from the time the idle
  shard stopped at, whatever is queued there.\<close>

theorem idle_shard_stalls_peers:
  assumes "shards_run res lat n S" and "rounds_only res lat n S S'" and "entries (ck_queue (S j)) = []"
    and "i < n" and "j < n" and "i \<noteq> j" and "lat j i = Some l"
  shows "ck_time (S' i) \<le> ck_time (S j) + max l res"
proof -
  have "shards_run res lat n S' \<and> S' j = S j" using assms(2)
  proof induction
    case no_round
    then show ?case using assms(1) by simp
  next
    case (one_round S2 k seen)
    have "advance peers (S j) = S j" for peers using assms(3) by (simp add: advance_def)
    then have "(S2(k := advance (peers_of res lat n seen k) (S2 k))) j = S j" using one_round by auto
    moreover have "shards_run res lat n (S2(k := advance (peers_of res lat n seen k) (S2 k)))" using one_round by (intro shards_round) auto
    ultimately show ?case by blast
  qed
  moreover have "lookahead res lat j i = Some (max l res)" using assms by (simp add: lookahead_def)
  ultimately show ?thesis
    using shards_run_inv [of res lat n S'] assms(4-6) unfolding within_lookahead_def by metis
qed


subsection \<open>Two shards\<close>

text \<open>Two shards of one actor each, linked with a latency of 10; their actors wait for 15 and 12.\<close>

definition demo_clock :: "nat \<Rightarrow> clock" where
  "demo_clock t = the (handle_event (Wait 0 (Some t)) (clock_start 1))"

definition demo_lat :: "nat \<Rightarrow> nat \<Rightarrow> nat option" where "demo_lat j i = Some 10"

definition demo_shards :: "nat \<Rightarrow> clock" where
  "demo_shards = (\<lambda>_. clock_start 1)(0 := demo_clock 15, 1 := demo_clock 12)"

definition demo_round :: "nat \<Rightarrow> (nat \<Rightarrow> clock) \<Rightarrow> nat \<Rightarrow> clock" where
  "demo_round i S = S(i := advance (peers_of 1 demo_lat 2 (\<lambda>j. ck_time (S j)) i) (S i))"

lemma demo_clock_eq: "handle_event (Wait 0 (Some t)) (clock_start 1) = Some (demo_clock t)"
  by (simp add: demo_clock_def handle_event_def clock_start_def Let_def)

lemma demo_shards_run: "shards_run 1 demo_lat 2 demo_shards"
proof -
  have "shards_run 1 demo_lat 2 (\<lambda>_. clock_start 1)" by (rule shards_begin) simp
  then have "shards_run 1 demo_lat 2 ((\<lambda>_. clock_start 1)(0 := demo_clock 15))"
    by (rule shards_event [where ev = "Wait 0 (Some 15)"]) (simp add: demo_clock_eq [unfolded One_nat_def])
  then have "shards_run 1 demo_lat 2 (((\<lambda>_. clock_start 1)(0 := demo_clock 15))(1 := demo_clock 12))"
    by (rule shards_event [where ev = "Wait 0 (Some 12)"]) (simp add: demo_clock_eq [unfolded One_nat_def])
  then show ?thesis by (simp add: demo_shards_def)
qed

lemma demo_simps:
  "demo_clock t = \<lparr>ck_time = 0, ck_waiters = [Some (Some t)], ck_running = 0, ck_queue = oput t [0] oempty, ck_woken = []\<rparr>"
  "demo_shards 0 = demo_clock 15" "demo_shards (Suc 0) = demo_clock 12"
  "peers_of 1 demo_lat 2 f 0 = [(f 1, 10)]" "peers_of 1 demo_lat 2 f (Suc 0) = [(f 0, 10)]"
  by (simp_all add: demo_clock_def handle_event_def clock_start_def Let_def queue_push_def demo_shards_def peers_of_def demo_lat_def
      lookahead_def upt_rec [of 0] upt_rec [of 1] upt_rec [of 2] List.map_filter_simps numeral_2_eq_2)

lemmas demo_clock_eval = demo_simps demo_simps [unfolded One_nat_def] demo_round_def [unfolded One_nat_def] advance_def ceiling_of_def

text \<open>Shard 0 may advance its published time to 10, and then shard 1 reaches 12.\<close>

lemma demo_round_0: "demo_round 0 demo_shards = demo_shards(0 := (demo_clock 15)\<lparr>ck_time := 10\<rparr>)"
  by (simp add: demo_clock_eval)

lemma demo_round_1: "ck_time (demo_round 1 (demo_round 0 demo_shards) 1) = 12"
  unfolding demo_round_0 by (simp add: demo_clock_eval)

lemma demo_rounds: "rounds_only 1 demo_lat 2 demo_shards (demo_round 1 (demo_round 0 demo_shards))"
proof -
  have "rounds_only 1 demo_lat 2 demo_shards (demo_round 0 demo_shards)"
    unfolding demo_round_def by (rule one_round [OF no_round]) (simp_all add: demo_simps)
  moreover have "ck_running (demo_round 0 demo_shards 1) = 0" by (simp add: demo_round_0 demo_simps)
  ultimately show ?thesis unfolding demo_round_def [of 1] by (intro one_round) simp_all
qed

text \<open>A message sent by shard 0 at time 0 arrives at 10. If it is still in the channel when the shards make two more
  rounds, shard 1 is at 12 by the time it reads it.\<close>

lemma in_flight_message_overtaken:
  "\<exists>S'. rounds_only 1 demo_lat 2 demo_shards S' \<and> with_resolution (ck_time (demo_shards 0) + 10) 1 < ck_time (S' 1)"
proof (intro exI conjI)
  show "rounds_only 1 demo_lat 2 demo_shards (demo_round 1 (demo_round 0 demo_shards))" by (rule demo_rounds)
  show "with_resolution (ck_time (demo_shards 0) + 10) 1 < ck_time (demo_round 1 (demo_round 0 demo_shards) 1)"
    unfolding demo_round_1 by (simp add: demo_simps with_resolution_def)
qed


theorem cmb_progress_witness: "\<exists>i<2. advance (peers_of 1 demo_lat 2 (\<lambda>j. ck_time (demo_shards j)) i) (demo_shards i) \<noteq> demo_shards i"
proof (rule cmb_progress [OF demo_shards_run])
  fix i :: nat assume "i < 2"
  then have "i = 0 \<or> i = 1" by auto
  moreover have "entries (ck_queue (demo_shards 0)) \<noteq> []" "entries (ck_queue (demo_shards 1)) \<noteq> []"
    by (simp_all add: demo_shards_def demo_clock_def handle_event_def clock_start_def Let_def queue_push_def)
  moreover have "ck_time (demo_shards i) = 0" by (simp add: demo_shards_def demo_clock_def handle_event_def clock_start_def Let_def)
  ultimately show "entries (ck_queue (demo_shards i)) \<noteq> []" and "ck_time (demo_shards i) < 2 ^ 64 - 1" by auto
qed simp_all

theorem idle_shard_stalls_peers_witness: "ck_time (demo_clock 12) \<le> 10"
proof -
  let ?S = "(\<lambda>_. clock_start 1)(1 := demo_clock 12)"
  have "shards_run 1 demo_lat 2 ?S" by (rule shards_event [OF shards_begin, where ev = "Wait 0 (Some 12)"]) (simp_all add: demo_clock_eq [unfolded One_nat_def])
  from idle_shard_stalls_peers [OF this no_round, of 0 1 10] show ?thesis
    by (simp add: demo_lat_def) (simp add: clock_start_def)
qed

theorem clock_wakes_on_time_witness: "clock_run 1 (demo_clock 15) \<and> ck_running (demo_clock 15) = 0"
proof -
  have run: "clock_run 1 (demo_clock 15)" by (rule clock_event [OF clock_begin demo_clock_eq])
  have "filter (\<lambda>w. w = None) (ck_waiters (demo_clock 15)) = []" by (simp add: demo_clock_def handle_event_def clock_start_def Let_def)
  then have "ck_running (demo_clock 15) = 0" using clock_wakes_on_time [OF run] by simp
  with run show ?thesis by simp
qed

end
