(* ===== verification/Sim_Link.thy ===== *)
theory Sim_Link
  imports Ordered_Map "HOL-Library.Multiset" "HOL-Library.Product_Lexorder" "HOL-Library.Monad_Syntax"
begin

text \<open>
  \<open>sim-rs/sim-core/src/network/connection.rs\<close>: one direction of a simulated link. With a bandwidth, messages wait in one
  queue per mini-protocol; what the link can carry is shared among the queues, and a message whose last byte has gone
  arrives one latency later. \<open>shared-rs/tcp-model/src/link.rs\<close> and \<open>envelope.rs\<close>: the analytic TCP envelope of a link.

  \<^item> Times and durations are nanoseconds, sizes are bytes, all \<open>nat\<close>: a product of the code stays below \<open>2 ^ 64\<close> for the
    sizes and bandwidths of a simulation. A bandwidth of zero, which the code would divide by, is excluded.
  \<^item> The envelope's multipliers are \<open>f64\<close> values computed with curves; the model keeps them abstract (the type \<open>'f\<close>) and
    takes from a parameter the multiplier at a time, the depth after a loss and the integral \<open>bytes_deliverable\<close>.
  \<^item> The loss of a message is drawn by the caller's oracle from its context; here it is an argument.
  \<^item> Subtracting a later time from an earlier one panics. \<open>None\<close> is a panic or a call that does not return.
  \<^item> The loop that shares the bytes is a \<open>partial_function\<close>: nothing in the code bounds it.
\<close>

subsection \<open>The TCP envelope\<close>

record 'f envelope =
  ev_fired_at :: nat
  ev_bw_start :: 'f
  ev_bw_depth :: 'f
  ev_onset :: nat
  ev_release :: nat
  ev_lat_stall :: nat

record 'f link_cfg =
  lc_idle_reset_threshold :: nat
  lc_rto :: nat
  lc_cold_bw_depth :: 'f
  lc_cold_release :: nat
  lc_loss_release :: nat

record 'f link_state =
  ls_cfg :: "'f link_cfg"
  ls_last_traffic :: "nat option"
  ls_current :: "'f envelope option"

record 'f link_floats =
  lf_one :: 'f
  lf_bw_mult_at :: "'f envelope \<Rightarrow> nat \<Rightarrow> 'f"
  lf_loss_depth :: "'f link_cfg \<Rightarrow> 'f \<Rightarrow> 'f"
  lf_bytes_deliverable :: "'f link_state \<Rightarrow> nat \<Rightarrow> nat \<Rightarrow> nat \<Rightarrow> nat"

definition link_state_new :: "'f link_cfg \<Rightarrow> 'f link_state" where
  "link_state_new cfg = \<lparr>ls_cfg = cfg, ls_last_traffic = None, ls_current = None\<rparr>"

definition delivery_floor_at :: "'f envelope \<Rightarrow> nat \<Rightarrow> nat option" where
  "delivery_floor_at e t =
     (if ev_lat_stall e = 0 then None
      else let stall_end = ev_fired_at e + ev_lat_stall e
           in if t < ev_fired_at e \<or> t \<ge> stall_end then None else Some stall_end)"

definition is_expired_at :: "'f envelope \<Rightarrow> nat \<Rightarrow> bool" where
  "is_expired_at e t \<longleftrightarrow> t \<ge> ev_fired_at e + ev_onset e + ev_release e \<and> t \<ge> ev_fired_at e + ev_lat_stall e"

definition link_bw_mult :: "'f link_floats \<Rightarrow> 'f link_state \<Rightarrow> nat \<Rightarrow> 'f" where
  "link_bw_mult fl ls t = (case ls_current ls of Some e \<Rightarrow> lf_bw_mult_at fl e t | None \<Rightarrow> lf_one fl)"

definition link_delivery_floor :: "'f link_state \<Rightarrow> nat \<Rightarrow> nat" where
  "link_delivery_floor ls t =
     (case Option.bind (ls_current ls) (\<lambda>e. delivery_floor_at e t) of Some u \<Rightarrow> u | None \<Rightarrow> t)"

definition cold_envelope :: "'f link_floats \<Rightarrow> 'f link_state \<Rightarrow> nat \<Rightarrow> 'f envelope" where
  "cold_envelope fl ls t =
     \<lparr>ev_fired_at = t, ev_bw_start = lf_one fl, ev_bw_depth = lc_cold_bw_depth (ls_cfg ls), ev_onset = 0,
      ev_release = lc_cold_release (ls_cfg ls), ev_lat_stall = 0\<rparr>"

definition loss_envelope :: "'f link_floats \<Rightarrow> 'f link_state \<Rightarrow> nat \<Rightarrow> 'f \<Rightarrow> nat \<Rightarrow> 'f envelope" where
  "loss_envelope fl ls t start_mult lat_stall =
     \<lparr>ev_fired_at = t, ev_bw_start = start_mult, ev_bw_depth = lf_loss_depth fl (ls_cfg ls) start_mult, ev_onset = lc_rto (ls_cfg ls),
      ev_release = lc_loss_release (ls_cfg ls), ev_lat_stall = lat_stall\<rparr>"

definition fire :: "nat \<Rightarrow> 'f envelope \<Rightarrow> 'f link_state \<Rightarrow> 'f link_state" where
  "fire t e ls = (if is_expired_at e t then ls else ls\<lparr>ls_current := Some e\<rparr>)"

definition link_on_send :: "'f link_floats \<Rightarrow> nat \<Rightarrow> bool \<Rightarrow> 'f link_state \<Rightarrow> 'f link_state" where
  "link_on_send fl t loss_drawn ls =
     (let ls1 = (case ls_current ls of Some e \<Rightarrow> if is_expired_at e t then ls\<lparr>ls_current := None\<rparr> else ls | None \<Rightarrow> ls);
          trigger_cold = (ls_current ls1 = None \<and>
            (case ls_last_traffic ls1 of
               None \<Rightarrow> True
             | Some prev \<Rightarrow> prev \<le> t \<and> t - prev > lc_idle_reset_threshold (ls_cfg ls1)));
          ls2 = (if trigger_cold then fire t (cold_envelope fl ls1 t) ls1 else ls1);
          ls3 = (if loss_drawn then
                   let mult_now = link_bw_mult fl ls2 t;
                       existing_stall_end = (case ls_current ls2 of
                           Some e \<Rightarrow> if ev_fired_at e + ev_lat_stall e > t then ev_fired_at e + ev_lat_stall e else t
                         | None \<Rightarrow> t);
                       new_stall_end = t + lc_rto (ls_cfg ls2)
                   in fire t (loss_envelope fl ls2 t mult_now (max existing_stall_end new_stall_end - t)) ls2
                 else ls2)
      in ls3\<lparr>ls_last_traffic := Some t\<rparr>)"

definition has_active_envelopes :: "'f link_state \<Rightarrow> bool" where
  "has_active_envelopes ls \<longleftrightarrow> ls_current ls \<noteq> None"

text \<open>The bisection of \<open>invert_bytes_deliverable\<close>, down to a microsecond.\<close>

function bisect :: "(nat \<Rightarrow> bool) \<Rightarrow> nat \<Rightarrow> nat \<Rightarrow> nat" where
  "bisect enough lo hi =
     (if hi - lo > 1000 then
        let mid = lo + (hi - lo) div 2 in if enough mid then bisect enough lo mid else bisect enough mid hi
      else hi)"
  by pat_completeness auto
termination
  by (relation "measure (\<lambda>(enough, lo, hi). hi - lo)") auto

declare bisect.simps [simp del]

definition invert_bytes_deliverable :: "'f link_floats \<Rightarrow> 'f link_state \<Rightarrow> nat \<Rightarrow> nat \<Rightarrow> nat \<Rightarrow> nat \<Rightarrow> nat" where
  "invert_bytes_deliverable fl ls bps target t0 upper =
     (if target = 0 \<or> bps = 0 then t0
      else if upper \<le> t0 \<or> lf_bytes_deliverable fl ls bps t0 upper < target then upper
      else bisect (\<lambda>t. lf_bytes_deliverable fl ls bps t0 t \<ge> target) t0 upper)"

lemma bisect_enough: "enough hi \<Longrightarrow> enough (bisect enough lo hi)"
proof (induction enough lo hi rule: bisect.induct)
  case (1 enough lo hi)
  then show ?case by (simp add: bisect.simps [of enough lo hi] Let_def)
qed

lemma bisect_bounds: "lo \<le> hi \<Longrightarrow> lo \<le> bisect enough lo hi \<and> bisect enough lo hi \<le> hi"
proof (induction enough lo hi rule: bisect.induct)
  case (1 enough lo hi)
  show ?case
  proof (cases "hi - lo > 1000")
    case True
    have "lo + (hi - lo) div 2 \<le> hi" using 1(3) by linarith
    then show ?thesis using 1 True by (fastforce simp: bisect.simps [of enough lo hi] Let_def)
  qed (use 1(3) in \<open>simp add: bisect.simps [of enough lo hi]\<close>)
qed

lemma bisect_tight: "lo \<le> hi \<Longrightarrow> \<not> enough lo \<Longrightarrow> \<exists>t. \<not> enough t \<and> lo \<le> t \<and> t \<le> bisect enough lo hi \<and> bisect enough lo hi \<le> t + 1000"
proof (induction enough lo hi rule: bisect.induct)
  case (1 enough lo hi)
  show ?case
  proof (cases "hi - lo > 1000")
    case True
    define mid where "mid = lo + (hi - lo) div 2"
    have mid: "lo \<le> mid" "mid \<le> hi" using 1(3) by (auto simp: mid_def)
    show ?thesis
    proof (cases "enough mid")
      case e: True
      have "bisect enough lo hi = bisect enough lo mid" using True e by (simp add: bisect.simps [of enough lo hi] Let_def mid_def)
      then show ?thesis using 1(1) [OF True mid_def e mid(1) 1(4)] by simp
    next
      case e: False
      have "bisect enough lo hi = bisect enough mid hi" using True e by (simp add: bisect.simps [of enough lo hi] Let_def mid_def)
      then show ?thesis using 1(2) [OF True mid_def e mid(2) e] mid(1) by (metis le_trans)
    qed
  next
    case False
    then show ?thesis using 1(3,4) by (intro exI [of _ lo]) (simp add: bisect.simps [of enough lo hi])
  qed
qed


subsection \<open>Queues\<close>

type_synonym 'm queue = "('m \<times> nat) list"

definition queue_bytes :: "'m queue \<Rightarrow> nat" where
  "queue_bytes q = sum_list (map snd q)"

definition bytes_in_next_message :: "'m queue \<Rightarrow> nat option" where
  "bytes_in_next_message q = (case q of [] \<Rightarrow> None | (_, bytes) # _ \<Rightarrow> Some bytes)"

text \<open>The messages that go through completely, with the bytes they had left, and the rest of the queue.\<close>

fun consume :: "nat \<Rightarrow> 'm queue \<Rightarrow> 'm queue \<times> 'm queue" where
  "consume bytes_left [] = ([], [])"
| "consume bytes_left ((m, msg_left) # q) =
     (if msg_left \<le> bytes_left then
        let (out, rest) = consume (bytes_left - msg_left) q in ((m, msg_left) # out, rest)
      else ([], (m, msg_left - bytes_left) # q))"

record (overloaded) ('p::linorder, 'm, 'f) connection =
  cx_bandwidth_bps :: "nat option"
  cx_latency :: nat
  cx_bandwidth_queues :: "('p, (nat \<times> 'm) queue) omap"
  cx_latency_queue :: "('m \<times> nat) list"
  cx_last_event :: nat
  cx_next_id :: nat
  cx_envelope :: "'f link_state option"

definition connection_new :: "nat \<Rightarrow> nat option \<Rightarrow> 'f link_state option \<Rightarrow> ('p::linorder, 'm, 'f) connection" where
  "connection_new latency bandwidth_bps envelope =
     \<lparr>cx_bandwidth_bps = bandwidth_bps, cx_latency = latency, cx_bandwidth_queues = oempty, cx_latency_queue = [], cx_last_event = 0,
      cx_next_id = 0, cx_envelope = envelope\<rparr>"

definition delivery_floor :: "('p::linorder, 'm, 'f) connection \<Rightarrow> nat \<Rightarrow> nat" where
  "delivery_floor c t = (case cx_envelope c of None \<Rightarrow> t | Some ls \<Rightarrow> link_delivery_floor ls t)"

definition run_on_send :: "'f link_floats \<Rightarrow> bool \<Rightarrow> nat \<Rightarrow> ('p::linorder, 'm, 'f) connection \<Rightarrow> ('p, 'm, 'f) connection" where
  "run_on_send fl loss now c = c\<lparr>cx_envelope := map_option (link_on_send fl now loss) (cx_envelope c)\<rparr>"

definition queue_stats :: "('p::linorder, 'm, 'f) connection \<Rightarrow> nat \<times> nat" where
  "queue_stats c =
     (sum_list (map length (ovalues (cx_bandwidth_queues c))) + length (cx_latency_queue c),
      sum_list (map queue_bytes (ovalues (cx_bandwidth_queues c))))"

definition compute_bandwidth_delay :: "nat \<Rightarrow> nat \<Rightarrow> nat \<Rightarrow> nat" where
  "compute_bandwidth_delay total_bps split bytes = 1000 * (bytes * 1000000 * split div total_bps)"

subsection \<open>Sharing the bandwidth\<close>

fun assign_extra :: "nat \<Rightarrow> nat \<Rightarrow> ('p \<times> nat) list \<Rightarrow> ('p \<times> nat) list" where
  "assign_extra bytes_per_queue bytes_left [] = []"
| "assign_extra bytes_per_queue bytes_left ((k, bytes) # rest) =
     (if bytes_left > 0 \<and> bytes > bytes_per_queue
      then (k, bytes_per_queue + 1) # assign_extra bytes_per_queue (bytes_left - 1) rest
      else (k, bytes_per_queue) # assign_extra bytes_per_queue bytes_left rest)"

definition split_bytes_amongst_queues :: "nat \<Rightarrow> ('p::linorder, 'm queue) omap \<Rightarrow> ('p \<times> nat) list" where
  "split_bytes_amongst_queues bytes queues =
     (let sized = sort_key snd (map (\<lambda>(k, q). (k, queue_bytes q)) (entries queues));
          n = length sized;
          target_bytes_per_queue = bytes div n;
          bytes_per_queue = min target_bytes_per_queue (snd (hd sized));
          shares = (if bytes_per_queue = target_bytes_per_queue then assign_extra bytes_per_queue (bytes mod n) sized
                    else map (\<lambda>(k, _). (k, bytes_per_queue)) sized)
      in filter (\<lambda>(_, v). v > 0) shares)"

definition arrival_after :: "'f link_floats \<Rightarrow> ('p::linorder, 'm, 'f) connection \<Rightarrow> nat \<Rightarrow> nat \<Rightarrow> nat \<Rightarrow> nat" where
  "arrival_after fl c total_bps now link_bytes =
     (let plain = cx_last_event c + compute_bandwidth_delay total_bps 1 link_bytes + cx_latency c
      in case cx_envelope c of
           None \<Rightarrow> plain
         | Some ls \<Rightarrow>
             if has_active_envelopes ls
             then invert_bytes_deliverable fl ls total_bps link_bytes (cx_last_event c) now + cx_latency c
             else plain)"

text \<open>One queue in one round: the messages received with the link bytes gone before their last byte, and what is left.\<close>

fun stamp :: "(nat \<Rightarrow> nat) \<Rightarrow> nat \<Rightarrow> nat \<Rightarrow> 'm queue \<Rightarrow> ('m \<times> nat) list" where
  "stamp arrival queues consumed [] = []"
| "stamp arrival queues consumed ((m, sz) # rest) =
     (m, arrival ((consumed + sz) * queues)) # stamp arrival queues (consumed + sz) rest"

definition queue_round ::
  "(nat \<Rightarrow> nat) \<Rightarrow> nat \<Rightarrow> ('p \<times> nat) list \<Rightarrow> 'p::linorder \<times> 'm queue \<Rightarrow> ('m \<times> nat) list \<times> 'm queue" where
  "queue_round arrival queues shares kq =
     (case map_of shares (fst kq) of
        None \<Rightarrow> ([], snd kq)
      | Some b \<Rightarrow> let (out, rest) = consume b (snd kq) in (stamp arrival queues 0 out, rest))"

text \<open>\<open>retain\<close> keeps a queue that got no share, even an empty one.\<close>

definition bandwidth_round ::
  "'f link_floats \<Rightarrow> nat \<Rightarrow> nat \<Rightarrow> nat \<Rightarrow> ('p::linorder, 'm, 'f) connection
     \<Rightarrow> ((nat \<times> 'm) \<times> nat) list \<times> nat \<times> ('p, 'm, 'f) connection" where
  "bandwidth_round fl total_bps now bytes_to_consume c =
     (let qs = cx_bandwidth_queues c;
          n = olen qs;
          shares = split_bytes_amongst_queues bytes_to_consume qs;
          total = sum_list (map snd shares);
          arrival = arrival_after fl c total_bps now;
          received = concat (map (\<lambda>kq. fst (queue_round arrival n shares kq)) (entries qs));
          qs' = oretain (\<lambda>k q. map_of shares k = None \<or> q \<noteq> []) (omap_values (\<lambda>k q. snd (queue_round arrival n shares (k, q))) qs)
      in (received, bytes_to_consume - total, c\<lparr>cx_bandwidth_queues := qs', cx_last_event := arrival total - cx_latency c\<rparr>))"

partial_function (option) bandwidth_rounds ::
  "'f link_floats \<Rightarrow> nat \<Rightarrow> nat \<Rightarrow> nat \<Rightarrow> ('p::linorder, 'm, 'f) connection \<Rightarrow> (((nat \<times> 'm) \<times> nat) list \<times> ('p, 'm, 'f) connection) option" where
  "bandwidth_rounds fl total_bps now bytes_to_consume c =
     (if bytes_to_consume > 0 \<and> entries (cx_bandwidth_queues c) \<noteq> [] then
        (case bandwidth_round fl total_bps now bytes_to_consume c of
           (received, left, c1) \<Rightarrow>
             Option.bind (bandwidth_rounds fl total_bps now left c1) (\<lambda>(more, c2). Some (received @ more, c2)))
      else Some ([], c))"

declare bandwidth_rounds.simps [code]

definition update_bandwidth_queues :: "'f link_floats \<Rightarrow> nat \<Rightarrow> ('p::linorder, 'm, 'f) connection \<Rightarrow> ('p, 'm, 'f) connection option" where
  "update_bandwidth_queues fl now c =
     (case cx_bandwidth_bps c of
        None \<Rightarrow> Some c
      | Some total_bps \<Rightarrow>
          if cx_last_event c = now then Some c
          else if cx_envelope c = None \<and> now < cx_last_event c then None
          else
            let bytes_to_consume = (case cx_envelope c of
                  Some ls \<Rightarrow> lf_bytes_deliverable fl ls total_bps (cx_last_event c) now
                | None \<Rightarrow> ((now - cx_last_event c) div 1000) * total_bps div 1000000)
            in Option.bind (bandwidth_rounds fl total_bps now bytes_to_consume c) (\<lambda>(received, c1).
                 let ordered = sort_key (\<lambda>((id, _), ts). (ts, id)) received
                 in Some (c1\<lparr>cx_latency_queue := cx_latency_queue c1 @ map (\<lambda>((_, m), arrival). (m, delivery_floor c1 arrival)) ordered,
                             cx_last_event := now\<rparr>)))"

definition conn_send ::
  "'f link_floats \<Rightarrow> bool \<Rightarrow> 'm \<Rightarrow> nat \<Rightarrow> 'p::linorder \<Rightarrow> nat \<Rightarrow> ('p, 'm, 'f) connection \<Rightarrow> ('p, 'm, 'f) connection option" where
  "conn_send fl loss message bytes miniprotocol now c =
     (if cx_bandwidth_bps c = None then
        let c1 = run_on_send fl loss now c
        in Some (c1\<lparr>cx_latency_queue := cx_latency_queue c1 @ [(message, delivery_floor c1 (now + cx_latency c1))]\<rparr>)
      else
        Option.bind (update_bandwidth_queues fl now c) (\<lambda>c0.
          let c1 = run_on_send fl loss now c0;
              q = (case oget (cx_bandwidth_queues c1) miniprotocol of Some q \<Rightarrow> q | None \<Rightarrow> [])
          in Some (c1\<lparr>cx_bandwidth_queues := oput miniprotocol (q @ [((cx_next_id c1, message), bytes)]) (cx_bandwidth_queues c1),
                      cx_next_id := cx_next_id c1 + 1\<rparr>)))"

definition next_arrival_time :: "('p::linorder, 'm, 'f) connection \<Rightarrow> nat option" where
  "next_arrival_time c =
     (case cx_latency_queue c of
        (_, ts) # _ \<Rightarrow> Some ts
      | [] \<Rightarrow>
          (case List.map_filter bytes_in_next_message (ovalues (cx_bandwidth_queues c)) of
             [] \<Rightarrow> None
           | b # bs \<Rightarrow>
               (case cx_bandwidth_bps c of
                  None \<Rightarrow> None
                | Some bps \<Rightarrow>
                    Some (delivery_floor c (cx_last_event c
                      + compute_bandwidth_delay bps (olen (cx_bandwidth_queues c)) (foldl min b bs) + cx_latency c)))))"

definition recv_many :: "'f link_floats \<Rightarrow> nat \<Rightarrow> ('p::linorder, 'm, 'f) connection \<Rightarrow> (('m \<times> nat) list \<times> ('p, 'm, 'f) connection) option" where
  "recv_many fl now c =
     Option.bind (update_bandwidth_queues fl now c) (\<lambda>c1.
       Some (takeWhile (\<lambda>(_, t). t \<le> now) (cx_latency_queue c1),
             c1\<lparr>cx_latency_queue := dropWhile (\<lambda>(_, t). t \<le> now) (cx_latency_queue c1)\<rparr>))"


subsection \<open>What a round does\<close>

lemma consume_messages: "map fst (fst (consume b q)) @ map fst (snd (consume b q)) = map fst q"
  by (induction b q rule: consume.induct) (auto simp: case_prod_unfold Let_def)

lemma consume_bytes: "queue_bytes (snd (consume b q)) = queue_bytes q - b"
  by (induction b q rule: consume.induct) (auto simp: case_prod_unfold Let_def queue_bytes_def)

definition positive :: "'m queue \<Rightarrow> bool" where
  "positive q \<longleftrightarrow> (\<forall>x\<in>set q. 0 < snd x)"

lemma consume_positive: "positive q \<Longrightarrow> positive (snd (consume b q))"
  by (induction b q rule: consume.induct) (auto simp: case_prod_unfold Let_def positive_def)

lemma positive_bytes: "positive q \<Longrightarrow> q \<noteq> [] \<Longrightarrow> 0 < queue_bytes q"
  by (cases q) (auto simp: positive_def queue_bytes_def)

lemma map_fst_stamp: "map fst (stamp arrival n consumed q) = map fst q"
  by (induction arrival n consumed q rule: stamp.induct) auto

text \<open>The shares: no queue gets more than it holds, no two shares differ by more than one byte unless the smaller one empties
  its queue, and together they are at most the bytes to share.\<close>

lemma assign_extra_keys: "map fst (assign_extra per left xs) = map fst xs"
  by (induction per left xs rule: assign_extra.induct) auto

lemma assign_extra_share:
  "\<forall>x\<in>set xs. per \<le> snd x \<Longrightarrow> distinct (map fst xs) \<Longrightarrow> (k, b) \<in> set xs \<Longrightarrow> (k, v) \<in> set (assign_extra per left xs) \<Longrightarrow> v \<le> b \<and> per \<le> v \<and> v \<le> per + 1"
proof (induction per left xs rule: assign_extra.induct)
  case (2 per left k' b' rest)
  have keys: "fst ` set (assign_extra per l rest) = fst ` set rest" for l by (metis assign_extra_keys list.set_map)
  show ?case
  proof (cases "k = k'")
    case True
    then have "(k, v) \<notin> set (assign_extra per l rest)" "(k, b) \<notin> set rest" for l using 2(4) keys [of l] by force+
    then show ?thesis using 2 True by (auto split: if_splits)
  next
    case False
    then show ?thesis using 2 by (auto split: if_splits)
  qed
qed simp

lemma assign_extra_sum:
  "sum_list (map snd (assign_extra per left xs)) = per * length xs + min left (length (filter (\<lambda>x. per < snd x) xs))"
  by (induction per left xs rule: assign_extra.induct) (auto simp: algebra_simps)

text \<open>The queues by size, and the share of each.\<close>

definition sized :: "('p::linorder, 'm queue) omap \<Rightarrow> ('p \<times> nat) list" where
  "sized queues = sort_key snd (map (\<lambda>(k, q). (k, queue_bytes q)) (entries queues))"

definition all_shares :: "nat \<Rightarrow> ('p::linorder, 'm queue) omap \<Rightarrow> ('p \<times> nat) list" where
  "all_shares bytes queues =
     (let per = min (bytes div olen queues) (snd (hd (sized queues)))
      in if per = bytes div olen queues then assign_extra per (bytes mod olen queues) (sized queues)
         else map (\<lambda>(k, _). (k, per)) (sized queues))"

lemma length_sized [simp]: "length (sized queues) = olen queues"
  by (simp add: sized_def olen_def)

lemma split_bytes_eq: "split_bytes_amongst_queues bytes queues = filter (\<lambda>(_, v). v > 0) (all_shares bytes queues)"
  by (simp add: split_bytes_amongst_queues_def all_shares_def Let_def sized_def [symmetric])

lemma set_sized: "(k, b) \<in> set (sized queues) \<longleftrightarrow> (\<exists>q. oget queues k = Some q \<and> b = queue_bytes q)"
  by (force simp: sized_def in_entries_iff [symmetric])

lemma mset_map_fst_sized: "mset (map fst (sized queues)) = mset (okeys queues)"
proof -
  have "mset (map fst (sized queues)) = image_mset fst (mset (map (\<lambda>(k, q). (k, queue_bytes q)) (entries queues)))"
    by (simp only: sized_def mset_map mset_sort)
  then show ?thesis by (simp add: okeys_def case_prod_unfold image_mset.compositionality comp_def)
qed

lemma distinct_sized: "distinct (map fst (sized queues))"
  using mset_map_fst_sized [of queues] distinct_okeys [of queues] by (metis mset_eq_imp_distinct_iff)

lemma hd_sized_least: "x \<in> set (sized queues) \<Longrightarrow> snd (hd (sized queues)) \<le> snd x"
proof -
  assume x: "x \<in> set (sized queues)"
  have "sorted (map snd (sized queues))" by (simp add: sized_def)
  then show ?thesis using x by (cases "sized queues") auto
qed

lemma all_shares_keys: "map fst (all_shares bytes queues) = map fst (sized queues)"
  by (simp add: all_shares_def Let_def assign_extra_keys case_prod_unfold comp_def)

lemma all_shares_share:
  assumes "oget queues k = Some q" and "(k, v) \<in> set (all_shares bytes queues)"
  shows "v \<le> queue_bytes q"
proof -
  define per where "per = min (bytes div olen queues) (snd (hd (sized queues)))"
  have kq: "(k, queue_bytes q) \<in> set (sized queues)" using assms(1) by (auto simp: set_sized)
  have least: "\<forall>x\<in>set (sized queues). per \<le> snd x" using hd_sized_least by (fastforce simp: per_def)
  show ?thesis
    using assms(2) assign_extra_share [OF least distinct_sized kq] least kq
    by (auto simp: all_shares_def Let_def per_def [symmetric] split: if_splits)
qed

lemma sum_all_shares: "olen queues \<noteq> 0 \<Longrightarrow> sum_list (map snd (all_shares bytes queues)) \<le> bytes"
proof -
  assume n: "olen queues \<noteq> 0"
  define per where "per = min (bytes div olen queues) (snd (hd (sized queues)))"
  have "per * olen queues \<le> (bytes div olen queues) * olen queues" by (simp add: per_def)
  then have "per * olen queues \<le> bytes" by (metis div_times_less_eq_dividend le_trans)
  moreover have "olen queues * (bytes div olen queues) + min (bytes mod olen queues) m \<le> bytes" for m
    using mult_div_mod_eq [of "olen queues" bytes] min.cobounded1 [of "bytes mod olen queues" m] by linarith
  ultimately show ?thesis
    by (auto simp: all_shares_def Let_def per_def [symmetric] assign_extra_sum case_prod_unfold comp_def sum_list_triv mult.commute)
qed

definition busy :: "('p::linorder, 'm queue) omap \<Rightarrow> bool" where
  "busy queues \<longleftrightarrow> (\<forall>k q. oget queues k = Some q \<longrightarrow> q \<noteq> [] \<and> positive q)"

lemma sum_all_shares_pos:
  assumes "busy queues" and "olen queues \<noteq> 0" and "0 < bytes"
  shows "0 < sum_list (map snd (all_shares bytes queues))"
proof -
  define per where "per = min (bytes div olen queues) (snd (hd (sized queues)))"
  have pos: "0 < snd x" if "x \<in> set (sized queues)" for x
  proof -
    obtain k b where kb: "x = (k, b)" by fastforce
    then show ?thesis using that assms(1) positive_bytes by (auto simp: set_sized busy_def)
  qed
  have ne: "sized queues \<noteq> []" using assms(2) by (metis length_0_conv length_sized)
  have all: "filter (\<lambda>x. 0 < snd x) (sized queues) = sized queues" using pos by (simp add: filter_id_conv)
  show ?thesis
  proof (cases "per = bytes div olen queues")
    case True
    show ?thesis
    proof (cases "per = 0")
      case z: True
      then have "bytes mod olen queues = bytes" using True assms(2) by (metis div_eq_0_iff mod_less)
      then show ?thesis using True z all assms(2,3) by (simp add: all_shares_def Let_def per_def [symmetric] assign_extra_sum)
    next
      case False
      then show ?thesis using True assms(2) by (simp add: all_shares_def Let_def per_def [symmetric] assign_extra_sum)
    qed
  next
    case False
    then have "per = snd (hd (sized queues))" by (simp add: per_def min_def split: if_splits)
    then have "0 < per" using pos ne by simp
    then show ?thesis using False assms(2) by (simp add: all_shares_def Let_def per_def [symmetric] case_prod_unfold comp_def sum_list_triv)
  qed
qed


text \<open>The messages and the bytes in the queues.\<close>

definition queued_messages :: "('p::linorder, 'm queue) omap \<Rightarrow> 'm multiset" where
  "queued_messages queues = sum_list (map (\<lambda>(_, q). mset (map fst q)) (entries queues))"

definition queued_bytes :: "('p::linorder, 'm queue) omap \<Rightarrow> nat" where
  "queued_bytes queues = sum_list (map (\<lambda>(_, q). queue_bytes q) (entries queues))"

abbreviation round_received :: "'f link_floats \<Rightarrow> nat \<Rightarrow> nat \<Rightarrow> nat \<Rightarrow> ('p::linorder, 'm, 'f) connection \<Rightarrow> ((nat \<times> 'm) \<times> nat) list" where
  "round_received fl bps now b c \<equiv> fst (bandwidth_round fl bps now b c)"

abbreviation round_left :: "'f link_floats \<Rightarrow> nat \<Rightarrow> nat \<Rightarrow> nat \<Rightarrow> ('p::linorder, 'm, 'f) connection \<Rightarrow> nat" where
  "round_left fl bps now b c \<equiv> fst (snd (bandwidth_round fl bps now b c))"

abbreviation round_conn :: "'f link_floats \<Rightarrow> nat \<Rightarrow> nat \<Rightarrow> nat \<Rightarrow> ('p::linorder, 'm, 'f) connection \<Rightarrow> ('p, 'm, 'f) connection" where
  "round_conn fl bps now b c \<equiv> snd (snd (bandwidth_round fl bps now b c))"

lemma queue_round_messages: "mset (map fst (fst (queue_round arrival n shares kq))) + mset (map fst (snd (queue_round arrival n shares kq))) = mset (map fst (snd kq))"
proof (cases "map_of shares (fst kq)")
  case (Some b)
  have "mset (map fst (fst (consume b (snd kq)))) + mset (map fst (snd (consume b (snd kq)))) = mset (map fst (snd kq))"
    using consume_messages [of b "snd kq"] by (metis mset_append)
  then show ?thesis using Some by (simp add: queue_round_def case_prod_unfold Let_def map_fst_stamp del: mset_map)
qed (simp add: queue_round_def)

lemma round_queues: "entries (cx_bandwidth_queues (round_conn fl bps now b c)) =
    filter (\<lambda>(k, q). map_of (split_bytes_amongst_queues b (cx_bandwidth_queues c)) k = None \<or> q \<noteq> [])
      (map (\<lambda>kq. (fst kq, snd (queue_round (arrival_after fl c bps now) (olen (cx_bandwidth_queues c))
         (split_bytes_amongst_queues b (cx_bandwidth_queues c)) kq))) (entries (cx_bandwidth_queues c)))"
  by (simp add: bandwidth_round_def Let_def case_prod_unfold)

text \<open>Dropping queues that hold nothing changes no total.\<close>

lemma sum_list_filter_neutral:
  "(\<And>x. x \<in> set xs \<Longrightarrow> \<not> P x \<Longrightarrow> g x = 0) \<Longrightarrow> sum_list (map g (filter P xs)) = (sum_list (map g xs) :: 'a::comm_monoid_add)"
  by (induction xs) auto

lemma round_messages: "mset (map fst (round_received fl bps now b c)) + queued_messages (cx_bandwidth_queues (round_conn fl bps now b c)) = queued_messages (cx_bandwidth_queues c)"
proof -
  let ?r = "queue_round (arrival_after fl c bps now) (olen (cx_bandwidth_queues c)) (split_bytes_amongst_queues b (cx_bandwidth_queues c))"
  have "queued_messages (cx_bandwidth_queues (round_conn fl bps now b c)) = sum_list (map (\<lambda>kq. mset (map fst (snd (?r kq)))) (entries (cx_bandwidth_queues c)))"
    unfolding queued_messages_def round_queues by (subst sum_list_filter_neutral) (auto simp: case_prod_unfold comp_def)
  moreover have "mset (map fst (round_received fl bps now b c)) = sum_list (map (\<lambda>kq. mset (map fst (fst (?r kq)))) (entries (cx_bandwidth_queues c)))"
  proof -
    have "mset (map fst (concat (map (\<lambda>kq. fst (?r kq)) xs))) = sum_list (map (\<lambda>kq. mset (map fst (fst (?r kq)))) xs)" for xs
      by (induction xs) auto
    then show ?thesis by (simp add: bandwidth_round_def Let_def del: mset_map)
  qed
  moreover have "sum_list (map (\<lambda>kq. mset (map fst (fst (?r kq)))) xs) + sum_list (map (\<lambda>kq. mset (map fst (snd (?r kq)))) xs) =
      sum_list (map (\<lambda>(_, q). mset (map fst q)) xs)" for xs
  proof (induction xs)
    case (Cons x xs)
    then show ?case using queue_round_messages [of _ _ _ x] by (simp add: case_prod_unfold ac_simps del: mset_map)
  qed simp
  ultimately show ?thesis by (simp add: queued_messages_def)
qed

lemma map_of_split: "map_of (split_bytes_amongst_queues b queues) k = Some v \<longleftrightarrow> (k, v) \<in> set (all_shares b queues) \<and> 0 < v"
proof -
  have "distinct (map fst (all_shares b queues))" by (simp add: all_shares_keys distinct_sized)
  then have "distinct (map fst (split_bytes_amongst_queues b queues))" unfolding split_bytes_eq by (rule distinct_map_filter)
  then show ?thesis by (simp add: map_of_eq_Some_iff split_bytes_eq)
qed

lemma share_of: "oget queues k = Some q \<Longrightarrow> \<exists>v. (k, v) \<in> set (all_shares b queues)"
proof -
  assume "oget queues k = Some q"
  then have "(k, queue_bytes q) \<in> set (sized queues)" by (auto simp: set_sized)
  then have "k \<in> set (map fst (all_shares b queues))" unfolding all_shares_keys by force
  then show ?thesis by auto
qed

lemma queue_round_bytes:
  assumes "oget (cx_bandwidth_queues c) k = Some q" and "(k, v) \<in> set (all_shares b (cx_bandwidth_queues c))"
  shows "queue_bytes (snd (queue_round arrival n (split_bytes_amongst_queues b (cx_bandwidth_queues c)) (k, q))) = queue_bytes q - v"
proof (cases "0 < v")
  case True
  then have "map_of (split_bytes_amongst_queues b (cx_bandwidth_queues c)) k = Some v" using assms(2) map_of_split by metis
  then show ?thesis by (simp add: queue_round_def case_prod_unfold Let_def consume_bytes)
next
  case False
  have "map_of (split_bytes_amongst_queues b (cx_bandwidth_queues c)) k = None"
  proof (rule ccontr)
    assume "map_of (split_bytes_amongst_queues b (cx_bandwidth_queues c)) k \<noteq> None"
    then obtain w where w: "(k, w) \<in> set (all_shares b (cx_bandwidth_queues c))" "0 < w" using map_of_split by (metis not_None_eq)
    have "distinct (map fst (all_shares b (cx_bandwidth_queues c)))" by (simp add: all_shares_keys distinct_sized)
    then show False using w assms(2) False by (metis eq_key_imp_eq_value neq0_conv)
  qed
  then show ?thesis using False by (simp add: queue_round_def)
qed


lemma split_total: "sum_list (map snd (split_bytes_amongst_queues b queues)) = sum_list (map snd (all_shares b queues))"
  unfolding split_bytes_eq by (rule sum_list_filter_neutral) auto

lemma sum_shares_by_key:
  "sum_list (map snd (all_shares b queues)) = sum_list (map (\<lambda>(k, _). the (map_of (all_shares b queues) k)) (entries queues))"
proof -
  let ?sh = "\<lambda>k. the (map_of (all_shares b queues) k)"
  have d: "distinct (map fst (all_shares b queues))" by (simp add: all_shares_keys distinct_sized)
  have "map snd (all_shares b queues) = map ?sh (map fst (all_shares b queues))" using d by (auto simp: map_of_is_SomeI)
  moreover have "mset (map ?sh (map fst (all_shares b queues))) = mset (map ?sh (okeys queues))"
    unfolding all_shares_keys using mset_map_fst_sized by (metis mset_map)
  ultimately have "sum_list (map snd (all_shares b queues)) = sum_list (map ?sh (okeys queues))" by (metis sum_mset_sum_list)
  then show ?thesis by (simp add: okeys_def case_prod_unfold comp_def)
qed

lemma sum_list_diff: "(\<And>x. x \<in> set xs \<Longrightarrow> g x \<le> f x) \<Longrightarrow> sum_list (map (\<lambda>x. f x - g x) xs) + sum_list (map g xs) = (sum_list (map f xs) :: nat)"
proof (induction xs)
  case (Cons x xs)
  then have "g x \<le> f x" by simp
  moreover have "sum_list (map (\<lambda>x. f x - g x) xs) + sum_list (map g xs) = sum_list (map f xs)" using Cons by simp
  ultimately show ?case by simp
qed simp

lemma round_bytes:
  "queued_bytes (cx_bandwidth_queues (round_conn fl bps now b c)) + sum_list (map snd (all_shares b (cx_bandwidth_queues c))) = queued_bytes (cx_bandwidth_queues c)"
proof -
  define qs where "qs = cx_bandwidth_queues c"
  define sh where "sh = (\<lambda>k. the (map_of (all_shares b qs) k))"
  let ?r = "queue_round (arrival_after fl c bps now) (olen qs) (split_bytes_amongst_queues b qs)"
  have d: "distinct (map fst (all_shares b qs))" by (simp add: all_shares_keys distinct_sized)
  have share: "(k, sh k) \<in> set (all_shares b qs)" if "oget qs k = Some q" for k q
    using share_of [OF that, of b] d by (auto simp: sh_def map_of_is_SomeI)
  have each: "queue_bytes (snd (?r (k, q))) = queue_bytes q - sh k \<and> sh k \<le> queue_bytes q" if "(k, q) \<in> set (entries qs)" for k q
    using that share queue_round_bytes [of c k q "sh k" b] all_shares_share [of qs k q "sh k" b] by (simp add: in_entries_iff qs_def)
  have "queued_bytes (cx_bandwidth_queues (round_conn fl bps now b c)) = sum_list (map (\<lambda>kq. queue_bytes (snd (?r kq))) (entries qs))"
    unfolding queued_bytes_def round_queues qs_def by (subst sum_list_filter_neutral) (auto simp: case_prod_unfold comp_def queue_bytes_def)
  also have "\<dots> = sum_list (map (\<lambda>kq. queue_bytes (snd kq) - sh (fst kq)) (entries qs))"
    using each by (intro arg_cong [where f = sum_list] map_cong) auto
  finally show ?thesis
    using sum_list_diff [of "entries qs" "\<lambda>kq. sh (fst kq)" "\<lambda>kq. queue_bytes (snd kq)"] each sum_shares_by_key [of b qs]
    by (auto simp: queued_bytes_def qs_def [symmetric] sh_def case_prod_unfold)
qed

lemma round_busy: "busy (cx_bandwidth_queues c) \<Longrightarrow> busy (cx_bandwidth_queues (round_conn fl bps now b c))"
proof -
  assume busy: "busy (cx_bandwidth_queues c)"
  let ?sp = "split_bytes_amongst_queues b (cx_bandwidth_queues c)"
  let ?r = "queue_round (arrival_after fl c bps now) (olen (cx_bandwidth_queues c)) ?sp"
  have "q \<noteq> [] \<and> positive q" if q: "oget (cx_bandwidth_queues (round_conn fl bps now b c)) k = Some q" for k q
  proof -
    obtain q0 where q0: "oget (cx_bandwidth_queues c) k = Some q0" "q = snd (?r (k, q0))" "map_of ?sp k = None \<or> q \<noteq> []"
      using q by (auto simp: bandwidth_round_def Let_def oget_oretain oget_omap_values split: option.splits if_splits)
    have "q0 \<noteq> []" "positive q0" using busy q0(1) by (auto simp: busy_def)
    then show ?thesis using q0 consume_positive by (auto simp: queue_round_def case_prod_unfold Let_def split: option.splits)
  qed
  then show ?thesis by (simp add: busy_def)
qed

lemma round_frame [simp]:
  "cx_bandwidth_bps (round_conn fl bps now b c) = cx_bandwidth_bps c" "cx_latency_queue (round_conn fl bps now b c) = cx_latency_queue c"
  "cx_next_id (round_conn fl bps now b c) = cx_next_id c" "cx_envelope (round_conn fl bps now b c) = cx_envelope c"
  "cx_latency (round_conn fl bps now b c) = cx_latency c"
  "round_left fl bps now b c = b - sum_list (map snd (all_shares b (cx_bandwidth_queues c)))"
  by (simp_all add: bandwidth_round_def Let_def split_total)

subsection \<open>The loop\<close>

text \<open>With no empty message in the queues the loop ends: each round takes some of the bytes. It takes exactly the bytes
  there are to send, or all that is queued, and loses no message.\<close>

lemma bandwidth_rounds_effect:
  assumes "busy (cx_bandwidth_queues c)"
  shows "\<exists>received c'. bandwidth_rounds fl bps now b c = Some (received, c') \<and>
    queued_bytes (cx_bandwidth_queues c') = queued_bytes (cx_bandwidth_queues c) - b \<and>
    mset (map fst received) + queued_messages (cx_bandwidth_queues c') = queued_messages (cx_bandwidth_queues c) \<and>
    busy (cx_bandwidth_queues c') \<and> cx_latency_queue c' = cx_latency_queue c \<and> cx_bandwidth_bps c' = cx_bandwidth_bps c \<and>
    cx_next_id c' = cx_next_id c \<and> cx_envelope c' = cx_envelope c"
  using assms
proof (induction b arbitrary: c rule: less_induct)
  case (less b)
  show ?case
  proof (cases "b > 0 \<and> entries (cx_bandwidth_queues c) \<noteq> []")
    case False
    then have "bandwidth_rounds fl bps now b c = Some ([], c)" by (subst bandwidth_rounds.simps) (simp only: if_False)
    moreover have "queued_bytes (cx_bandwidth_queues c) - b = queued_bytes (cx_bandwidth_queues c)" using False by (auto simp: queued_bytes_def)
    ultimately show ?thesis using less(2) by simp
  next
    case True
    define c1 where "c1 = round_conn fl bps now b c"
    define t where "t = sum_list (map snd (all_shares b (cx_bandwidth_queues c)))"
    have n: "olen (cx_bandwidth_queues c) \<noteq> 0" using True by (simp add: olen_def)
    have t: "0 < t" "t \<le> b" using sum_all_shares_pos [OF less(2) n] sum_all_shares [OF n, of b] True by (simp_all add: t_def)
    have b1: "busy (cx_bandwidth_queues c1)" unfolding c1_def by (rule round_busy [OF less(2)])
    obtain more c' where ih: "bandwidth_rounds fl bps now (b - t) c1 = Some (more, c')"
      "queued_bytes (cx_bandwidth_queues c') = queued_bytes (cx_bandwidth_queues c1) - (b - t)"
      "mset (map fst more) + queued_messages (cx_bandwidth_queues c') = queued_messages (cx_bandwidth_queues c1)"
      "busy (cx_bandwidth_queues c')" "cx_latency_queue c' = cx_latency_queue c1" "cx_bandwidth_bps c' = cx_bandwidth_bps c1"
      "cx_next_id c' = cx_next_id c1" "cx_envelope c' = cx_envelope c1"
      using less(1) [of "b - t" c1, OF _ b1] t by auto
    have rounds: "bandwidth_rounds fl bps now b c = Some (round_received fl bps now b c @ more, c')"
      using True ih(1) by (simp add: bandwidth_rounds.simps [of fl bps now b c] case_prod_unfold c1_def t_def)
    have "queued_bytes (cx_bandwidth_queues c1) + t = queued_bytes (cx_bandwidth_queues c)"
      using round_bytes [of fl bps now b c] by (simp add: c1_def t_def)
    then have "queued_bytes (cx_bandwidth_queues c') = queued_bytes (cx_bandwidth_queues c) - b" using ih(2) t by simp
    moreover have "mset (map fst (round_received fl bps now b c @ more)) + queued_messages (cx_bandwidth_queues c') = queued_messages (cx_bandwidth_queues c)"
      using round_messages [of fl bps now b c] unfolding c1_def [symmetric] ih(3) [symmetric] by (simp only: map_append mset_append union_assoc)
    ultimately show ?thesis using rounds ih by (simp add: c1_def del: mset_map)
  qed
qed


lemma update_bandwidth_queues_effect:
  assumes "busy (cx_bandwidth_queues c)" and "cx_last_event c \<le> now"
  shows "\<exists>c'. update_bandwidth_queues fl now c = Some c' \<and> busy (cx_bandwidth_queues c') \<and> cx_last_event c' \<le> now \<and>
    mset (map fst (cx_latency_queue c')) + image_mset snd (queued_messages (cx_bandwidth_queues c')) =
    mset (map fst (cx_latency_queue c)) + image_mset snd (queued_messages (cx_bandwidth_queues c))"
proof (cases "cx_bandwidth_bps c = None \<or> cx_last_event c = now")
  case True
  then show ?thesis using assms by (auto simp: update_bandwidth_queues_def split: option.splits)
next
  case False
  then obtain bps where bps: "cx_bandwidth_bps c = Some bps" by auto
  define b where "b = (case cx_envelope c of
                  Some ls \<Rightarrow> lf_bytes_deliverable fl ls bps (cx_last_event c) now
                | None \<Rightarrow> ((now - cx_last_event c) div 1000) * bps div 1000000)"
  obtain received c1 where r: "bandwidth_rounds fl bps now b c = Some (received, c1)"
    "mset (map fst received) + queued_messages (cx_bandwidth_queues c1) = queued_messages (cx_bandwidth_queues c)"
    "busy (cx_bandwidth_queues c1)" "cx_latency_queue c1 = cx_latency_queue c"
    using bandwidth_rounds_effect [OF assms(1), of fl bps now b] by blast
  define ordered where "ordered = sort_key (\<lambda>((id, _), ts). (ts, id)) received"
  have upd: "update_bandwidth_queues fl now c = Some (c1\<lparr>cx_latency_queue := cx_latency_queue c1 @
      map (\<lambda>((_, m), arrival). (m, delivery_floor c1 arrival)) ordered, cx_last_event := now\<rparr>)"
    using False assms(2) bps r(1) by (simp add: update_bandwidth_queues_def b_def [symmetric] Let_def ordered_def)
  have "mset (map fst (map (\<lambda>((_, m), arrival). (m, delivery_floor c1 arrival)) ordered)) = image_mset snd (mset (map fst received))"
  proof -
    have "map fst (map (\<lambda>((_, m), arrival). (m, delivery_floor c1 arrival)) ordered) = map snd (map fst ordered)"
      by (simp add: case_prod_unfold comp_def)
    then have "mset (map fst (map (\<lambda>((_, m), arrival). (m, delivery_floor c1 arrival)) ordered)) = image_mset snd (image_mset fst (mset ordered))"
      by (simp only: mset_map)
    then show ?thesis by (simp only: ordered_def mset_sort mset_map)
  qed
  then have "mset (map fst (cx_latency_queue c1 @ map (\<lambda>((_, m), arrival). (m, delivery_floor c1 arrival)) ordered)) +
      image_mset snd (queued_messages (cx_bandwidth_queues c1)) =
      mset (map fst (cx_latency_queue c)) + image_mset snd (queued_messages (cx_bandwidth_queues c))"
    unfolding r(2) [symmetric] by (simp only: map_append mset_append image_mset_union union_assoc r(4))
  then show ?thesis using upd r(3) by (simp del: mset_map map_append map_map)
qed

lemma sum_put_list_messages:
  assumes "sorted_wrt (<) (map fst xs)"
  shows "sum_list (map (\<lambda>(_, q). mset (map fst q)) (put_list p ((case map_of xs p of Some q \<Rightarrow> q | None \<Rightarrow> []) @ [(m, bytes)]) xs)) =
    add_mset m (sum_list (map (\<lambda>(_, q). mset (map fst q)) xs))"
  using assms
proof (induction xs)
  case (Cons x xs)
  obtain k q where x: "x = (k, q)" by fastforce
  show ?case
  proof (cases "p < k")
    case True
    then have "p \<notin> fst ` set xs" "p \<noteq> k" using Cons.prems x by (auto simp: less_not_sym)
    then have "map_of (x # xs) p = None" using x by (simp add: map_of_eq_None_iff)
    then show ?thesis using True x by (simp add: case_prod_unfold)
  next
    case False
    then show ?thesis using Cons x by (cases "p = k") (auto simp: case_prod_unfold)
  qed
qed simp

lemma queued_messages_append:
  "queued_messages (oput p ((case oget qs p of Some q \<Rightarrow> q | None \<Rightarrow> []) @ [(m, bytes)]) qs) = add_mset m (queued_messages qs)"
  using sum_put_list_messages [OF sorted_entries, of p _ m bytes] by (simp add: queued_messages_def oget.rep_eq)

subsection \<open>A link over a run\<close>

datatype ('p, 'm) link_op = Link_Send 'm nat 'p nat bool | Link_Recv nat

definition link_op_step :: "'f link_floats \<Rightarrow> ('p::linorder, 'm) link_op \<Rightarrow> ('p, 'm, 'f) connection \<Rightarrow> (('m \<times> nat) list \<times> ('p, 'm, 'f) connection) option" where
  "link_op_step fl op c =
     (case op of
        Link_Send m bytes p now loss \<Rightarrow> map_option (Pair []) (conn_send fl loss m bytes p now c)
      | Link_Recv now \<Rightarrow> recv_many fl now c)"

fun link_run :: "'f link_floats \<Rightarrow> ('p::linorder, 'm) link_op list \<Rightarrow> ('p, 'm, 'f) connection \<Rightarrow> (('m \<times> nat) list \<times> ('p, 'm, 'f) connection) option" where
  "link_run fl [] c = Some ([], c)"
| "link_run fl (op # ops) c =
     Option.bind (link_op_step fl op c) (\<lambda>(out, c1).
       Option.bind (link_run fl ops c1) (\<lambda>(more, c2). Some (out @ more, c2)))"

fun sent_on :: "('p, 'm) link_op list \<Rightarrow> 'm list" where
  "sent_on [] = []"
| "sent_on (Link_Send m bytes p now loss # ops) = m # sent_on ops"
| "sent_on (Link_Recv now # ops) = sent_on ops"

fun op_time :: "('p, 'm) link_op \<Rightarrow> nat" where
  "op_time (Link_Send m bytes p now loss) = now"
| "op_time (Link_Recv now) = now"

fun has_bytes :: "('p, 'm) link_op \<Rightarrow> bool" where
  "has_bytes (Link_Send m bytes p now loss) = (0 < bytes)"
| "has_bytes (Link_Recv now) = True"

definition in_flight :: "('p::linorder, 'm, 'f) connection \<Rightarrow> 'm multiset" where
  "in_flight c = mset (map fst (cx_latency_queue c)) + image_mset snd (queued_messages (cx_bandwidth_queues c))"

lemma busy_push: "busy qs \<Longrightarrow> 0 < bytes \<Longrightarrow> busy (oput p ((case oget qs p of Some q \<Rightarrow> q | None \<Rightarrow> []) @ [(m, bytes)]) qs)"
  by (cases "oget qs p") (auto simp: busy_def oget_oput positive_def)

lemma run_on_send_frame [simp]:
  "cx_bandwidth_queues (run_on_send fl loss now c) = cx_bandwidth_queues c" "cx_latency_queue (run_on_send fl loss now c) = cx_latency_queue c"
  "cx_bandwidth_bps (run_on_send fl loss now c) = cx_bandwidth_bps c" "cx_next_id (run_on_send fl loss now c) = cx_next_id c"
  "cx_last_event (run_on_send fl loss now c) = cx_last_event c"
  by (simp_all add: run_on_send_def)

lemma conn_send_effect:
  assumes "busy (cx_bandwidth_queues c)" and "0 < bytes" and "cx_last_event c \<le> now"
  shows "\<exists>c'. conn_send fl loss m bytes p now c = Some c' \<and> busy (cx_bandwidth_queues c') \<and> cx_last_event c' \<le> now \<and> in_flight c' = add_mset m (in_flight c)"
proof (cases "cx_bandwidth_bps c = None")
  case True
  then show ?thesis using assms(1,3) by (simp add: conn_send_def Let_def in_flight_def)
next
  case False
  obtain c0 where c0: "update_bandwidth_queues fl now c = Some c0" "busy (cx_bandwidth_queues c0)" "in_flight c0 = in_flight c" "cx_last_event c0 \<le> now"
    using update_bandwidth_queues_effect [OF assms(1,3), of fl] by (auto simp: in_flight_def)
  have "conn_send fl loss m bytes p now c = Some ((run_on_send fl loss now c0)\<lparr>
      cx_bandwidth_queues := oput p ((case oget (cx_bandwidth_queues c0) p of Some q \<Rightarrow> q | None \<Rightarrow> []) @ [((cx_next_id c0, m), bytes)]) (cx_bandwidth_queues c0),
      cx_next_id := cx_next_id c0 + 1\<rparr>)"
    using False c0(1) by (auto simp: conn_send_def Let_def)
  then show ?thesis using busy_push [OF c0(2) assms(2)] c0(3,4) by (simp add: in_flight_def queued_messages_append)
qed

lemma recv_many_effect:
  assumes "busy (cx_bandwidth_queues c)" and "cx_last_event c \<le> now"
  shows "\<exists>out c'. recv_many fl now c = Some (out, c') \<and> busy (cx_bandwidth_queues c') \<and> cx_last_event c' \<le> now \<and> mset (map fst out) + in_flight c' = in_flight c"
proof -
  obtain c0 where c0: "update_bandwidth_queues fl now c = Some c0" "busy (cx_bandwidth_queues c0)" "in_flight c0 = in_flight c" "cx_last_event c0 \<le> now"
    using update_bandwidth_queues_effect [OF assms, of fl] by (auto simp: in_flight_def)
  have "mset (map fst (takeWhile P xs)) + mset (map fst (dropWhile P xs)) = mset (map fst xs)" for P and xs :: "('m \<times> nat) list"
    by (metis map_append mset_append takeWhile_dropWhile_id)
  then have "mset (map fst (takeWhile (\<lambda>(_, t). t \<le> now) (cx_latency_queue c0))) +
      in_flight (c0\<lparr>cx_latency_queue := dropWhile (\<lambda>(_, t). t \<le> now) (cx_latency_queue c0)\<rparr>) = in_flight c0"
    by (simp add: in_flight_def add.assoc [symmetric] del: mset_map)
  then show ?thesis using c0 by (simp add: recv_many_def del: mset_map)
qed

lemma link_op_step_effect:
  assumes "busy (cx_bandwidth_queues c)" and "has_bytes op" and "cx_last_event c \<le> op_time op"
  shows "\<exists>out c'. link_op_step fl op c = Some (out, c') \<and> busy (cx_bandwidth_queues c') \<and> cx_last_event c' \<le> op_time op \<and>
    mset (map fst out) + in_flight c' = mset (sent_on [op]) + in_flight c"
proof (cases op)
  case (Link_Send m bytes p now loss)
  then show ?thesis using conn_send_effect [OF assms(1), of bytes now fl loss m p] assms(2,3) by (auto simp: link_op_step_def)
next
  case (Link_Recv now)
  then show ?thesis using recv_many_effect [OF assms(1), of now fl] assms(3) by (simp add: link_op_step_def)
qed

lemma link_run_effect:
  assumes "busy (cx_bandwidth_queues c)" and "list_all has_bytes ops" and "sorted (cx_last_event c # map op_time ops)"
  shows "\<exists>out c'. link_run fl ops c = Some (out, c') \<and> mset (map fst out) + in_flight c' = mset (sent_on ops) + in_flight c"
  using assms
proof (induction ops arbitrary: c)
  case (Cons op ops)
  obtain out c1 where s: "link_op_step fl op c = Some (out, c1)" "busy (cx_bandwidth_queues c1)"
    "mset (map fst out) + in_flight c1 = mset (sent_on [op]) + in_flight c" "cx_last_event c1 \<le> op_time op"
    using link_op_step_effect [OF Cons.prems(1), of op fl] Cons.prems(2,3) by (simp del: mset_map) blast
  have later: "sorted (cx_last_event c1 # map op_time ops)" using Cons.prems(3) s(4) by fastforce
  obtain more c2 where r: "link_run fl ops c1 = Some (more, c2)" "mset (map fst more) + in_flight c2 = mset (sent_on ops) + in_flight c1"
    using Cons.IH [OF s(2) _ later] Cons.prems(2) by (simp del: mset_map) blast
  have "mset (map fst (out @ more)) + in_flight c2 = mset (map fst out) + (mset (sent_on ops) + in_flight c1)"
    unfolding r(2) [symmetric] by (simp add: add.assoc)
  also have "\<dots> = mset (sent_on ops) + (mset (map fst out) + in_flight c1)" by (simp only: ac_simps)
  also have "\<dots> = mset (sent_on (op # ops)) + in_flight c"
    unfolding s(3) by (cases op) (simp_all add: ac_simps)
  finally show ?case using s(1) r(1) by simp
qed simp

lemma busy_new: "busy (cx_bandwidth_queues (connection_new latency bps env))"
  by (simp add: busy_def connection_new_def)

subsection \<open>A queue with no bytes\<close>

text \<open>A round that moves nothing is repeated for ever.\<close>

lemma stuck_round_hangs:
  assumes "bandwidth_round fl bps now b c = ([], b, c)" and "0 < b" and "entries (cx_bandwidth_queues c) \<noteq> []"
  shows "bandwidth_rounds fl bps now b c = None"
proof (rule ccontr)
  assume "bandwidth_rounds fl bps now b c \<noteq> None"
  then obtain y where "bandwidth_rounds fl bps now b c = Some y" by auto
  then have "\<not> (bandwidth_round fl bps now b c = ([], b, c) \<and> 0 < b \<and> entries (cx_bandwidth_queues c) \<noteq> [])"
    by (rule bandwidth_rounds.raw_induct
        [where P = "\<lambda>fl bps now b c y. \<not> (bandwidth_round fl bps now b c = ([], b, c) \<and> 0 < b \<and> entries (cx_bandwidth_queues c) \<noteq> [])", rotated])
      (fastforce split: bind_splits if_splits)
  then show False using assms by simp
qed

lemma no_shares:
  assumes "oget qs k = Some q" and "queue_bytes q = 0" and "olen qs \<le> b"
  shows "split_bytes_amongst_queues b qs = []"
proof -
  have "(k, 0) \<in> set (sized qs)" using assms(1,2) by (force simp: set_sized)
  then have "snd (hd (sized qs)) = 0" using hd_sized_least by fastforce
  moreover have "olen qs \<noteq> 0" using assms(1) by (auto simp: olen_def in_entries_iff [symmetric])
  then have "b div olen qs \<noteq> 0" using assms(3) by (simp add: div_eq_0_iff)
  ultimately have "all_shares b qs = map (\<lambda>(k, _). (k, 0)) (sized qs)" by (simp add: all_shares_def)
  then show ?thesis by (auto simp: split_bytes_eq filter_empty_conv)
qed

lemma keep_all_queues: "oretain (\<lambda>_ _. True) (omap_values (\<lambda>_ q. q) qs) = qs"
  by (intro omap_eqI) (simp add: oget_oretain oget_omap_values split: option.splits)

lemma arrival_after_nothing: "arrival_after fl c bps now 0 = cx_last_event c + cx_latency c"
  by (simp add: arrival_after_def invert_bytes_deliverable_def compute_bandwidth_delay_def Let_def split: option.splits)

lemma queue_round_no_share: "queue_round arrival n [] kq = ([], snd kq)"
  by (simp add: queue_round_def)

lemma empty_queue_stuck:
  assumes "oget (cx_bandwidth_queues c) k = Some q" and "queue_bytes q = 0" and "olen (cx_bandwidth_queues c) \<le> b"
  shows "bandwidth_round fl bps now b c = ([], b, c)"
  unfolding bandwidth_round_def Let_def no_shares [OF assms] queue_round_no_share
  by (simp add: keep_all_queues arrival_after_nothing)

subsection \<open>Properties\<close>




definition plain_floats :: "unit link_floats" where
  "plain_floats = \<lparr>lf_one = (), lf_bw_mult_at = \<lambda>_ _. (), lf_loss_depth = \<lambda>_ _. (), lf_bytes_deliverable = \<lambda>_ bps t0 t1. (t1 - t0) div 1000 * bps div 1000000\<rparr>"

definition two_sends :: "(nat, nat) link_op list" where
  "two_sends = [Link_Send 1 2 0 0 False, Link_Send 2 1 1 0 True, Link_Recv 5000]"


definition waiting_link :: "nat list \<Rightarrow> (nat, nat, unit) connection" where
  "waiting_link sizes = (connection_new 0 (Some 1000000) None)\<lparr>cx_bandwidth_queues := oput 0 (map (Pair (0, 7)) sizes) oempty, cx_next_id := 1\<rparr>"



text \<open>Messages of one mini-protocol, on an empty link of one byte per microsecond: the mini-protocol 0 sends a message of two
  bytes and then one of one byte, and the mini-protocols 1, 2 and 3 one byte each.\<close>

definition reordering_link :: "(nat, nat, unit) connection option" where
  "reordering_link = map_option snd (link_run plain_floats
     [Link_Send 1 2 0 0 False, Link_Send 2 1 0 0 False, Link_Send 3 1 1 0 False, Link_Send 4 1 2 0 False, Link_Send 5 1 3 0 False]
     (connection_new 0 (Some 1000000) None))"

text \<open>A link reorders one mini-protocol. The arrival of a message counts all the queues of a round as equally busy,
  while the next round starts when the bytes really gone have gone; so the message of two bytes, sent first, arrives at 8
  microseconds, after the message of one byte that follows it in the same mini-protocol (6 microseconds).\<close>

theorem mini_protocol_reordered:
  "map_option cx_latency_queue (Option.bind reordering_link (update_bandwidth_queues plain_floats 7000)) =
   Some [(3, 4000), (4, 4000), (5, 4000), (2, 6000), (1, 8000)]"
  by (simp add: reordering_link_def link_op_step_def conn_send_def connection_new_def update_bandwidth_queues_def run_on_send_def Let_def oget_oput
      bandwidth_rounds.simps bandwidth_round_def split_bytes_amongst_queues_def queue_bytes_def olen_def arrival_after_def queue_round_def
      compute_bandwidth_delay_def delivery_floor_def)

end
