(* ===== verification/Condition_Language.thy ===== *)
theory Condition_Language
  imports Ordered_Map Float64 "HOL-Library.Char_ord" "HOL-Library.List_Lexorder"
begin

text \<open>
  \<open>shared-rs/consensus/src/behaviour/tree/condition.rs\<close> and \<open>env.rs\<close>: the condition language of the behaviour trees, with
  its recursive-descent parser, its load-time check and its evaluation.

  \<^item> The source text is its bytes, a \<open>string\<close>; a parser works on what is left of it and returns that with its result. A
    parse error keeps the number of bytes left where the code prints the column, which is the length of the text minus
    that number.
  \<^item> The mutually recursive part of the parser runs on fuel; \<open>parse\<close> gives it enough, which is shown below.
  \<^item> A \<open>u64\<close> is a \<open>nat\<close>, an \<open>f64\<close> a value of \<open>Float64\<close>. A decimal fraction parses to the nearest double, as \<open>str::parse\<close> does.
  \<^item> Load errors keep their kind and the references they print.
\<close>

subsection \<open>Values and the context of a tick\<close>

datatype env_value = EnvU64 nat | EnvF64 f64 | EnvStr string | EnvBool bool

fun as_number :: "env_value \<Rightarrow> f64 option" where
  "as_number (EnvU64 v) = Some (f64_of_nat v)"
| "as_number (EnvF64 v) = Some v"
| "as_number _ = None"

fun env_as_str :: "env_value \<Rightarrow> string option" where
  "env_as_str (EnvStr s) = Some s"
| "env_as_str _ = None"

fun is_numeric :: "env_value \<Rightarrow> bool" where
  "is_numeric (EnvU64 _) = True"
| "is_numeric (EnvF64 _) = True"
| "is_numeric _ = False"

record chain_state =
  ns_current_slot :: nat
  ns_current_epoch :: nat
  ns_mempool_tx_count :: nat

definition CHAIN_FIELDS :: "string list" where
  "CHAIN_FIELDS = [''current_slot'', ''current_epoch'', ''mempool_tx_count'']"

definition numeric_field :: "chain_state \<Rightarrow> string \<Rightarrow> nat option" where
  "numeric_field st name =
     (if name = ''current_slot'' then Some (ns_current_slot st)
      else if name = ''current_epoch'' then Some (ns_current_epoch st)
      else if name = ''mempool_tx_count'' then Some (ns_mempool_tx_count st)
      else None)"

datatype toml_value =
    TomlInteger int
  | TomlFloat f64
  | TomlString string
  | TomlBoolean bool
  | TomlDatetime string
  | TomlArray "toml_value list"
  | TomlTable "(string \<times> toml_value) list"

record tick_ctx =
  tc_env :: "(string, env_value) omap"
  tc_sensors :: "(string, env_value) omap"
  tc_state :: chain_state
  tc_seed :: nat
  tc_action_params :: "(string, toml_value) omap option"

subsection \<open>Expressions\<close>

datatype compare_op = OpGe | OpGt | OpLe | OpLt | OpEq | OpNe

datatype value_ref =
    RefEnv string
  | RefChain string
  | RefSensor string
  | RefIdent string
  | LitU64 nat
  | LitF64 f64
  | LitStr string

datatype condition_expr =
    CCompare value_ref compare_op value_ref
  | CContains value_ref value_ref
  | CAnd "condition_expr list"
  | COr "condition_expr list"
  | CNot condition_expr

fun resolve_number :: "tick_ctx \<Rightarrow> value_ref \<Rightarrow> f64 option" where
  "resolve_number ctx (RefChain name) = map_option f64_of_nat (numeric_field (tc_state ctx) name)"
| "resolve_number ctx (RefEnv name) = Option.bind (oget (tc_env ctx) name) as_number"
| "resolve_number ctx (RefSensor name) = Option.bind (oget (tc_sensors ctx) name) as_number"
| "resolve_number ctx _ = None"

fun resolve_string :: "tick_ctx \<Rightarrow> value_ref \<Rightarrow> string option" where
  "resolve_string ctx (RefEnv name) = Option.bind (oget (tc_env ctx) name) env_as_str"
| "resolve_string ctx _ = None"

fun value_number :: "tick_ctx \<Rightarrow> value_ref \<Rightarrow> f64 option" where
  "value_number ctx (LitU64 n) = Some (f64_of_nat n)"
| "value_number ctx (LitF64 f) = Some f"
| "value_number ctx (LitStr s) = None"
| "value_number ctx other = resolve_number ctx other"

fun value_string :: "tick_ctx \<Rightarrow> value_ref \<Rightarrow> string option" where
  "value_string ctx (LitStr s) = Some s"
| "value_string ctx (LitU64 n) = None"
| "value_string ctx (LitF64 f) = None"
| "value_string ctx other = resolve_string ctx other"

text \<open>Two zeros of different sign are one value of \<open>f64\<close>; not-a-number equals nothing.\<close>

definition f64_eq :: "f64 \<Rightarrow> f64 \<Rightarrow> bool" where
  "f64_eq a b \<longleftrightarrow> a \<noteq> NaN \<and> a = b"

fun apply_num :: "compare_op \<Rightarrow> f64 \<Rightarrow> f64 \<Rightarrow> bool" where
  "apply_num OpGe a b = f64_le b a"
| "apply_num OpGt a b = f64_lt b a"
| "apply_num OpLe a b = f64_le a b"
| "apply_num OpLt a b = f64_lt a b"
| "apply_num OpEq a b = f64_eq a b"
| "apply_num OpNe a b = (\<not> f64_eq a b)"

fun apply_ord :: "compare_op \<Rightarrow> string \<Rightarrow> string \<Rightarrow> bool" where
  "apply_ord OpGe a b = (b \<le> a)"
| "apply_ord OpGt a b = (b < a)"
| "apply_ord OpLe a b = (a \<le> b)"
| "apply_ord OpLt a b = (a < b)"
| "apply_ord OpEq a b = (a = b)"
| "apply_ord OpNe a b = (a \<noteq> b)"

definition starts_with :: "string \<Rightarrow> string \<Rightarrow> bool" where
  "starts_with w s \<longleftrightarrow> take (length w) s = w"

fun str_contains :: "string \<Rightarrow> string \<Rightarrow> bool" where
  "str_contains [] i = (i = [])"
| "str_contains (c # s) i = (starts_with i (c # s) \<or> str_contains s i)"

fun eval_with :: "tick_ctx \<Rightarrow> condition_expr \<Rightarrow> bool" where
  "eval_with ctx (CCompare lhs c rhs) =
     (case (value_number ctx lhs, value_number ctx rhs) of
        (Some a, Some b) \<Rightarrow> apply_num c a b
      | _ \<Rightarrow> (case (value_string ctx lhs, value_string ctx rhs) of (Some a, Some b) \<Rightarrow> apply_ord c a b | _ \<Rightarrow> False))"
| "eval_with ctx (CContains container item) =
     (case (value_string ctx container, value_string ctx item) of (Some c, Some i) \<Rightarrow> str_contains c i | _ \<Rightarrow> False)"
| "eval_with ctx (CAnd xs) = list_all (eval_with ctx) xs"
| "eval_with ctx (COr xs) = list_ex (eval_with ctx) xs"
| "eval_with ctx (CNot x) = (\<not> eval_with ctx x)"

subsection \<open>The load-time check\<close>

datatype value_class = NumericClass | StrClass | BoolClass

datatype load_error =
    UnknownChainField string
  | UndefinedEnv string
  | InvalidReference string
  | CompareBool value_ref compare_op value_ref
  | TypeMismatch value_ref value_class compare_op value_ref value_class
  | ContainsNotStr value_ref value_ref

fun class_of :: "(string, env_value) omap \<Rightarrow> value_ref \<Rightarrow> load_error + value_class" where
  "class_of env (LitU64 _) = Inr NumericClass"
| "class_of env (LitF64 _) = Inr NumericClass"
| "class_of env (LitStr _) = Inr StrClass"
| "class_of env (RefChain name) = (if name \<in> set CHAIN_FIELDS then Inr NumericClass else Inl (UnknownChainField name))"
| "class_of env (RefEnv name) =
     (case oget env name of
        None \<Rightarrow> Inl (UndefinedEnv name)
      | Some (EnvStr _) \<Rightarrow> Inr StrClass
      | Some (EnvBool _) \<Rightarrow> Inr BoolClass
      | Some _ \<Rightarrow> Inr NumericClass)"
| "class_of env (RefSensor _) = Inr NumericClass"
| "class_of env (RefIdent name) = Inl (InvalidReference name)"

fun validate_all :: "(load_error + unit) list \<Rightarrow> load_error + unit" where
  "validate_all [] = Inr ()"
| "validate_all (r # rs) = (case r of Inl e \<Rightarrow> Inl e | Inr _ \<Rightarrow> validate_all rs)"

fun validate :: "(string, env_value) omap \<Rightarrow> condition_expr \<Rightarrow> load_error + unit" where
  "validate env (CCompare lhs c rhs) =
     (case class_of env lhs of Inl e \<Rightarrow> Inl e
      | Inr lc \<Rightarrow> (case class_of env rhs of Inl e \<Rightarrow> Inl e
        | Inr rc \<Rightarrow> if lc = BoolClass \<or> rc = BoolClass then Inl (CompareBool lhs c rhs)
                    else if lc \<noteq> rc then Inl (TypeMismatch lhs lc c rhs rc) else Inr ()))"
| "validate env (CContains container item) =
     (case class_of env container of Inl e \<Rightarrow> Inl e
      | Inr cc \<Rightarrow> (case class_of env item of Inl e \<Rightarrow> Inl e
        | Inr ic \<Rightarrow> if cc \<noteq> StrClass \<or> ic \<noteq> StrClass then Inl (ContainsNotStr container item) else Inr ()))"
| "validate env (CAnd xs) = validate_all (map (validate env) xs)"
| "validate env (COr xs) = validate_all (map (validate env) xs)"
| "validate env (CNot x) = validate env x"

subsection \<open>The scanner\<close>

datatype parse_error =
    TrailingInput nat
  | ExpectedClose nat
  | ExpectedContainsClose nat
  | ExpectedOperator nat
  | ExpectedValue nat
  | ExpectedIdent nat
  | UnterminatedString
  | InvalidInteger string
  | OutOfFuel

definition is_ascii_whitespace :: "char \<Rightarrow> bool" where
  "is_ascii_whitespace c \<longleftrightarrow> of_char c \<in> {9, 10, 12, 13, 32 :: nat}"

definition is_ascii_digit :: "char \<Rightarrow> bool" where
  "is_ascii_digit c \<longleftrightarrow> 48 \<le> (of_char c :: nat) \<and> (of_char c :: nat) \<le> 57"

definition is_ident_byte :: "char \<Rightarrow> bool" where
  "is_ident_byte c \<longleftrightarrow> is_ascii_digit c \<or> 65 \<le> (of_char c :: nat) \<and> (of_char c :: nat) \<le> 90
     \<or> 97 \<le> (of_char c :: nat) \<and> (of_char c :: nat) \<le> 122 \<or> c = CHR ''_''"

definition skip_ws :: "string \<Rightarrow> string" where
  "skip_ws s = dropWhile is_ascii_whitespace s"

definition peek_word :: "string \<Rightarrow> string \<Rightarrow> bool" where
  "peek_word w s \<longleftrightarrow> starts_with w s \<and> (case drop (length w) s of [] \<Rightarrow> True | c # _ \<Rightarrow> \<not> is_ident_byte c)"

definition eat_word :: "string \<Rightarrow> string \<Rightarrow> bool \<times> string" where
  "eat_word w s = (let r = skip_ws s in if peek_word w r then (True, drop (length w) r) else (False, r))"

definition scan_ident :: "string \<Rightarrow> parse_error + string \<times> string" where
  "scan_ident s =
     (let name = takeWhile is_ident_byte s
      in if name = [] then Inl (ExpectedIdent (length s)) else Inr (name, dropWhile is_ident_byte s))"

function dotted_more :: "string \<Rightarrow> string \<times> string" where
  "dotted_more s =
     (if starts_with ''.contains('' s then ([], s)
      else if s \<noteq> [] \<and> hd s = CHR ''.'' \<and> tl s \<noteq> [] \<and> is_ident_byte (hd (tl s)) then
        case dotted_more (dropWhile is_ident_byte (tl s)) of
          (name_rest, rest) \<Rightarrow> (hd s # takeWhile is_ident_byte (tl s) @ name_rest, rest)
      else ([], s))"
  by pat_completeness auto
termination
  by (relation "measure length") (auto simp: neq_Nil_conv intro: le_less_trans [OF length_dropWhile_le])

definition dotted_ident :: "string \<Rightarrow> parse_error + string \<times> string" where
  "dotted_ident s =
     (case scan_ident s of Inl e \<Rightarrow> Inl e
      | Inr (name, rest) \<Rightarrow> (case dotted_more rest of (name_rest, rest') \<Rightarrow> Inr (name @ name_rest, rest')))"

definition digits_value :: "string \<Rightarrow> nat" where
  "digits_value ds = foldl (\<lambda>a c. 10 * a + (of_char c - 48)) 0 ds"

definition number_lit :: "string \<Rightarrow> parse_error + value_ref \<times> string" where
  "number_lit s =
     (let whole = takeWhile is_ascii_digit s; rest = dropWhile is_ascii_digit s
      in if rest \<noteq> [] \<and> hd rest = CHR ''.'' \<and> tl rest \<noteq> [] \<and> is_ascii_digit (hd (tl rest)) then
           let frac = takeWhile is_ascii_digit (tl rest)
           in Inr (LitF64 (f64_round (of_nat (digits_value (whole @ frac)) / 10 ^ length frac)), dropWhile is_ascii_digit (tl rest))
         else if digits_value whole < 2 ^ 64 then Inr (LitU64 (digits_value whole), rest)
         else Inl (InvalidInteger whole))"

definition string_lit :: "string \<Rightarrow> parse_error + value_ref \<times> string" where
  "string_lit s =
     (case dropWhile (\<lambda>c. c \<noteq> CHR ''\"'') s of
        [] \<Rightarrow> Inl UnterminatedString
      | _ # rest \<Rightarrow> Inr (LitStr (takeWhile (\<lambda>c. c \<noteq> CHR ''\"'') s), rest))"

definition map_result :: "('a \<Rightarrow> 'b) \<Rightarrow> parse_error + 'a \<times> string \<Rightarrow> parse_error + 'b \<times> string" where
  "map_result f r = (case r of Inl e \<Rightarrow> Inl e | Inr (a, rest) \<Rightarrow> Inr (f a, rest))"

definition parse_value :: "string \<Rightarrow> parse_error + value_ref \<times> string" where
  "parse_value s0 =
     (case skip_ws s0 of
        [] \<Rightarrow> Inl (ExpectedValue 0)
      | c # r \<Rightarrow>
          let s = c # r
          in if c = CHR ''\"'' then string_lit r
             else if is_ascii_digit c then number_lit s
             else if starts_with ''env.'' s then map_result RefEnv (dotted_ident (drop 4 s))
             else if starts_with ''cardano.'' s then map_result RefChain (scan_ident (drop 8 s))
             else if starts_with ''sensor.'' s then map_result RefSensor (dotted_ident (drop 7 s))
             else if is_ident_byte c then map_result RefIdent (scan_ident s)
             else Inl (ExpectedValue (length s)))"

definition parse_op :: "string \<Rightarrow> parse_error + compare_op \<times> string" where
  "parse_op s0 =
     (let s = skip_ws s0
      in if starts_with ''>='' s then Inr (OpGe, drop 2 s)
         else if starts_with ''<='' s then Inr (OpLe, drop 2 s)
         else if starts_with ''=='' s then Inr (OpEq, drop 2 s)
         else if starts_with ''!='' s then Inr (OpNe, drop 2 s)
         else if starts_with ''>'' s then Inr (OpGt, drop 1 s)
         else if starts_with ''<'' s then Inr (OpLt, drop 1 s)
         else Inl (ExpectedOperator (length s)))"

subsection \<open>The parser\<close>

definition one_or :: "(condition_expr list \<Rightarrow> condition_expr) \<Rightarrow> condition_expr list \<Rightarrow> condition_expr" where
  "one_or f terms = (case terms of [t] \<Rightarrow> t | _ \<Rightarrow> f terms)"

definition parse_compare :: "string \<Rightarrow> parse_error + condition_expr \<times> string" where
  "parse_compare s0 =
     (case parse_value s0 of Inl e \<Rightarrow> Inl e
      | Inr (lhs, s1) \<Rightarrow>
          let s = skip_ws s1
          in if starts_with ''.contains('' s then
               (case parse_value (drop 10 s) of Inl e \<Rightarrow> Inl e
                | Inr (item, s2) \<Rightarrow>
                    let s3 = skip_ws s2
                    in if s3 \<noteq> [] \<and> hd s3 = CHR '')'' then Inr (CContains lhs item, tl s3) else Inl (ExpectedContainsClose (length s3)))
             else
               (case parse_op s of Inl e \<Rightarrow> Inl e
                | Inr (c, s2) \<Rightarrow>
                    (case parse_value s2 of Inl e \<Rightarrow> Inl e | Inr (rhs, s3) \<Rightarrow> Inr (CCompare lhs c rhs, s3))))"

text \<open>The four mutually recursive methods, each taking the method it calls. The loop of \<open>or\<close> and of \<open>and\<close> is the same code
  with another word; \<open>n\<close> is the fuel.\<close>

type_synonym 'a parser = "string \<Rightarrow> parse_error + 'a \<times> string"

primrec more_terms :: "string \<Rightarrow> condition_expr parser \<Rightarrow> nat \<Rightarrow> condition_expr list parser" where
  "more_terms w sub 0 s = Inl OutOfFuel"
| "more_terms w sub (Suc n) s =
     (case eat_word w s of
        (False, s1) \<Rightarrow> Inr ([], s1)
      | (True, s1) \<Rightarrow> (case sub s1 of Inl e \<Rightarrow> Inl e | Inr (t, s2) \<Rightarrow> map_result (\<lambda>ts. t # ts) (more_terms w sub n s2)))"

definition parse_terms :: "string \<Rightarrow> (condition_expr list \<Rightarrow> condition_expr) \<Rightarrow> condition_expr parser \<Rightarrow> nat \<Rightarrow> condition_expr parser" where
  "parse_terms w f sub n s =
     (case sub s of Inl e \<Rightarrow> Inl e
      | Inr (t, s1) \<Rightarrow> map_result (\<lambda>ts. one_or f (t # ts)) (more_terms w sub n s1))"

primrec parse_unary :: "condition_expr parser \<Rightarrow> nat \<Rightarrow> condition_expr parser" where
  "parse_unary primary 0 s = Inl OutOfFuel"
| "parse_unary primary (Suc n) s =
     (case eat_word ''not'' s of
        (True, s1) \<Rightarrow> map_result CNot (parse_unary primary n s1)
      | (False, s1) \<Rightarrow> primary s1)"

definition parse_primary :: "condition_expr parser \<Rightarrow> condition_expr parser" where
  "parse_primary expr s0 =
     (let s = skip_ws s0
      in if s \<noteq> [] \<and> hd s = CHR ''('' then
           (case expr (tl s) of Inl e \<Rightarrow> Inl e
            | Inr (e, s1) \<Rightarrow>
                let s2 = skip_ws s1
                in if s2 \<noteq> [] \<and> hd s2 = CHR '')'' then Inr (e, tl s2) else Inl (ExpectedClose (length s2)))
         else parse_compare s)"

definition parse_and :: "condition_expr parser \<Rightarrow> nat \<Rightarrow> condition_expr parser" where
  "parse_and expr n = parse_terms ''and'' CAnd (parse_unary (parse_primary expr) n) n"

primrec parse_or :: "nat \<Rightarrow> condition_expr parser" where
  "parse_or 0 = (\<lambda>s. Inl OutOfFuel)"
| "parse_or (Suc n) = parse_terms ''or'' COr (parse_and (parse_or n) (Suc n)) (Suc n)"

definition parse_condition :: "string \<Rightarrow> parse_error + condition_expr" where
  "parse_condition input =
     (case parse_or (length input + 1) input of Inl e \<Rightarrow> Inl e
      | Inr (e, s) \<Rightarrow> (case skip_ws s of [] \<Rightarrow> Inr e | rest \<Rightarrow> Inl (TrailingInput (length rest))))"

declare dotted_more.simps [simp del]

subsection \<open>The check decides whether a condition can be read\<close>

text \<open>Every comparison of the condition reads two numbers or two strings, every \<open>contains\<close> two strings: the fallback to
  false for values that do not resolve is not taken.\<close>

fun resolved :: "tick_ctx \<Rightarrow> condition_expr \<Rightarrow> bool" where
  "resolved ctx (CCompare lhs c rhs) \<longleftrightarrow>
     value_number ctx lhs \<noteq> None \<and> value_number ctx rhs \<noteq> None \<or> value_string ctx lhs \<noteq> None \<and> value_string ctx rhs \<noteq> None"
| "resolved ctx (CContains container item) \<longleftrightarrow> value_string ctx container \<noteq> None \<and> value_string ctx item \<noteq> None"
| "resolved ctx (CAnd xs) \<longleftrightarrow> list_all (resolved ctx) xs"
| "resolved ctx (COr xs) \<longleftrightarrow> list_all (resolved ctx) xs"
| "resolved ctx (CNot x) \<longleftrightarrow> resolved ctx x"

fun sensors_of_value :: "value_ref \<Rightarrow> string list" where
  "sensors_of_value (RefSensor name) = [name]"
| "sensors_of_value _ = []"

fun sensors_of :: "condition_expr \<Rightarrow> string list" where
  "sensors_of (CCompare lhs c rhs) = sensors_of_value lhs @ sensors_of_value rhs"
| "sensors_of (CContains container item) = sensors_of_value container @ sensors_of_value item"
| "sensors_of (CAnd xs) = concat (map sensors_of xs)"
| "sensors_of (COr xs) = concat (map sensors_of xs)"
| "sensors_of (CNot x) = sensors_of x"

fun same_class :: "env_value \<Rightarrow> env_value \<Rightarrow> bool" where
  "same_class (EnvStr _) v \<longleftrightarrow> (\<exists>s. v = EnvStr s)"
| "same_class (EnvBool _) v \<longleftrightarrow> (\<exists>b. v = EnvBool b)"
| "same_class _ v \<longleftrightarrow> is_numeric v"

definition env_keeps_types :: "(string, env_value) omap \<Rightarrow> tick_ctx \<Rightarrow> bool" where
  "env_keeps_types env ctx \<longleftrightarrow> (\<forall>k. rel_option same_class (oget env k) (oget (tc_env ctx) k))"

lemma numeric_as_number: "is_numeric v \<Longrightarrow> as_number v \<noteq> None \<and> env_as_str v = None"
  by (cases v) auto

text \<open>A value has the class the check gives it, and one that the check refuses cannot be read.\<close>

lemma class_of_reads:
  assumes "env_keeps_types env ctx" and "\<forall>name\<in>set (sensors_of_value v). \<exists>x. oget (tc_sensors ctx) name = Some x \<and> is_numeric x"
  shows "value_number ctx v \<noteq> None \<longleftrightarrow> class_of env v = Inr NumericClass"
    and "value_string ctx v \<noteq> None \<longleftrightarrow> class_of env v = Inr StrClass"
proof -
  have rel: "rel_option same_class (oget env k) (oget (tc_env ctx) k)" for k using assms(1) by (simp add: env_keeps_types_def)
  have "(value_number ctx v \<noteq> None \<longleftrightarrow> class_of env v = Inr NumericClass) \<and> (value_string ctx v \<noteq> None \<longleftrightarrow> class_of env v = Inr StrClass)"
  proof (cases v)
    case (RefEnv name)
    show ?thesis
    proof (cases "oget env name")
      case None
      then show ?thesis using rel [of name] RefEnv by (auto simp: rel_option_None1)
    next
      case (Some w)
      then obtain w' where "oget (tc_env ctx) name = Some w'" "same_class w w'" using rel [of name] by (auto simp: option_rel_Some1)
      then show ?thesis using Some RefEnv numeric_as_number [of w'] by (cases w) auto
    qed
  next
    case (RefSensor name)
    then show ?thesis using assms(2) numeric_as_number by fastforce
  qed (auto simp: numeric_field_def CHAIN_FIELDS_def)
  then show "value_number ctx v \<noteq> None \<longleftrightarrow> class_of env v = Inr NumericClass"
    and "value_string ctx v \<noteq> None \<longleftrightarrow> class_of env v = Inr StrClass" by blast+
qed

lemma validate_all_iff: "validate_all rs = Inr () \<longleftrightarrow> (\<forall>r\<in>set rs. r = Inr ())"
  by (induction rs) (auto split: sum.splits)

lemma validate_reads:
  assumes "env_keeps_types env ctx" and "\<forall>name\<in>set (sensors_of e). \<exists>x. oget (tc_sensors ctx) name = Some x \<and> is_numeric x"
  shows "validate env e = Inr () \<longleftrightarrow> resolved ctx e"
  using assms(2)
proof (induction e)
  case (CCompare lhs c rhs)
  have l: "value_number ctx lhs \<noteq> None \<longleftrightarrow> class_of env lhs = Inr NumericClass" "value_string ctx lhs \<noteq> None \<longleftrightarrow> class_of env lhs = Inr StrClass"
    and r: "value_number ctx rhs \<noteq> None \<longleftrightarrow> class_of env rhs = Inr NumericClass" "value_string ctx rhs \<noteq> None \<longleftrightarrow> class_of env rhs = Inr StrClass"
    using class_of_reads [OF assms(1)] CCompare by auto
  show ?case unfolding resolved.simps l r by (auto split: sum.splits) (metis value_class.exhaust)
next
  case (CContains container item)
  have "value_string ctx container \<noteq> None \<longleftrightarrow> class_of env container = Inr StrClass" "value_string ctx item \<noteq> None \<longleftrightarrow> class_of env item = Inr StrClass"
    using class_of_reads [OF assms(1)] CContains by auto
  then show ?case unfolding resolved.simps by (auto split: sum.splits)
qed (auto simp: validate_all_iff list_all_iff)

subsection \<open>The parser ends\<close>

lemma length_skip_ws: "length (skip_ws s) \<le> length s"
  by (simp add: skip_ws_def length_dropWhile_le)

lemma eat_word_length: "eat_word w s = (b, r) \<Longrightarrow> length r + (if b then length w else 0) \<le> length s"
proof -
  assume e: "eat_word w s = (b, r)"
  have "length w \<le> length (skip_ws s)" if "peek_word w (skip_ws s)"
    using that by (auto simp: peek_word_def starts_with_def) (metis length_take min.cobounded1)
  then show ?thesis using e length_skip_ws [of s] by (auto simp: eat_word_def Let_def split: if_splits)
qed

definition shrinks :: "'a parser \<Rightarrow> bool" where
  "shrinks sub \<longleftrightarrow> (\<forall>s a r. sub s = Inr (a, r) \<longrightarrow> length r \<le> length s)"

lemma shrinksD: "shrinks sub \<Longrightarrow> sub s = Inr (a, r) \<Longrightarrow> length r \<le> length s"
  by (auto simp: shrinks_def)

lemma map_result_Inr: "map_result f p = Inr (b, r) \<longleftrightarrow> (\<exists>a. p = Inr (a, r) \<and> b = f a)"
  by (auto simp: map_result_def split: sum.splits prod.splits)

lemma map_result_Inl [simp]: "map_result f p = Inl e \<longleftrightarrow> p = Inl e"
  by (auto simp: map_result_def split: sum.splits prod.splits)

lemma scan_ident_shrinks: "shrinks scan_ident"
  by (auto simp: shrinks_def scan_ident_def Let_def length_dropWhile_le split: if_splits)

lemma length_dropWhile_tl: "length (dropWhile P (tl s)) \<le> length s"
  by (rule le_trans [OF length_dropWhile_le]) simp

lemma dotted_more_length: "length (snd (dotted_more s)) \<le> length s"
proof (induction s rule: dotted_more.induct)
  case (1 s)
  show ?case
  proof (cases "\<not> starts_with ''.contains('' s \<and> s \<noteq> [] \<and> hd s = CHR ''.'' \<and> tl s \<noteq> [] \<and> is_ident_byte (hd (tl s))")
    case True
    then have "length (snd (dotted_more (dropWhile is_ident_byte (tl s)))) \<le> length (dropWhile is_ident_byte (tl s))" using 1 by blast
    then show ?thesis using True length_dropWhile_tl [of is_ident_byte s] by (simp add: dotted_more.simps [of s] case_prod_unfold)
  next
    case False
    then have "dotted_more s = ([], s)" by (subst dotted_more.simps) auto
    then show ?thesis by simp
  qed
qed

lemma dotted_ident_shrinks: "shrinks dotted_ident"
proof -
  have "length r \<le> length s" if "dotted_ident s = Inr (a, r)" for s a r
  proof -
    obtain name rest where "scan_ident s = Inr (name, rest)" "r = snd (dotted_more rest)"
      using \<open>dotted_ident s = Inr (a, r)\<close> by (auto simp: dotted_ident_def case_prod_unfold split: sum.splits)
    then show ?thesis using shrinksD [OF scan_ident_shrinks] dotted_more_length le_trans by blast
  qed
  then show ?thesis by (auto simp: shrinks_def)
qed

lemma number_lit_shrinks: "shrinks number_lit"
proof -
  have "length (dropWhile is_ascii_digit (tl (dropWhile is_ascii_digit s))) \<le> length s" for s
    by (rule le_trans [OF length_dropWhile_tl length_dropWhile_le])
  then show ?thesis by (auto simp: shrinks_def number_lit_def Let_def length_dropWhile_le split: if_splits)
qed

lemma string_lit_shrinks: "shrinks string_lit"
proof -
  have "length rest \<le> length s" if "dropWhile P s = c # rest" for P s c and rest :: string
    using length_dropWhile_le [of P s] that by simp
  then show ?thesis by (fastforce simp: shrinks_def string_lit_def split: list.splits)
qed

lemma parse_value_shrinks: "shrinks parse_value"
proof -
  have "length r \<le> length s" if v: "parse_value s = Inr (a, r)" for s a r
  proof (cases "skip_ws s")
    case (Cons c s')
    have "length r \<le> length (c # s')"
      using v Cons shrinksD [OF string_lit_shrinks, of s' a r] shrinksD [OF number_lit_shrinks, of "c # s'" a r]
        shrinksD [OF dotted_ident_shrinks, of "drop 4 (c # s')" _ r] shrinksD [OF scan_ident_shrinks, of "drop 8 (c # s')" _ r]
        shrinksD [OF dotted_ident_shrinks, of "drop 7 (c # s')" _ r] shrinksD [OF scan_ident_shrinks, of "c # s'" _ r]
      by (auto simp: parse_value_def Let_def map_result_Inr split: if_splits)
    then show ?thesis using Cons length_skip_ws [of s] by simp
  qed (use v in \<open>simp add: parse_value_def\<close>)
  then show ?thesis by (auto simp: shrinks_def)
qed

lemma parse_op_shrinks: "shrinks parse_op"
  by (auto simp: shrinks_def parse_op_def Let_def intro: le_trans [OF diff_le_self length_skip_ws] split: if_splits)

lemma parse_compare_shrinks: "shrinks parse_compare"
proof -
  have "length r \<le> length s" if c: "parse_compare s = Inr (a, r)" for s a r
  proof -
    obtain lhs s1 where v: "parse_value s = Inr (lhs, s1)" using c by (auto simp: parse_compare_def split: sum.splits)
    have s1: "length (skip_ws s1) \<le> length s" using shrinksD [OF parse_value_shrinks v] length_skip_ws [of s1] by simp
    show ?thesis
    proof (cases "starts_with ''.contains('' (skip_ws s1)")
      case True
      then obtain item s2 where i: "parse_value (drop 10 (skip_ws s1)) = Inr (item, s2)" "r = tl (skip_ws s2)"
        using c v by (auto simp: parse_compare_def Let_def split: sum.splits if_splits)
      then show ?thesis using shrinksD [OF parse_value_shrinks i(1)] length_skip_ws [of s2] s1 by simp
    next
      case False
      then obtain cop s2 rhs where o: "parse_op (skip_ws s1) = Inr (cop, s2)" "parse_value s2 = Inr (rhs, r)"
        using c v by (auto simp: parse_compare_def Let_def split: sum.splits)
      then show ?thesis using shrinksD [OF parse_op_shrinks o(1)] shrinksD [OF parse_value_shrinks o(2)] s1 by simp
    qed
  qed
  then show ?thesis by (auto simp: shrinks_def)
qed

lemma scan_ident_fuel [simp]: "scan_ident s \<noteq> Inl OutOfFuel"
  by (simp add: scan_ident_def Let_def)

lemma dotted_ident_fuel [simp]: "dotted_ident s \<noteq> Inl OutOfFuel"
proof -
  have "scan_ident s = Inl e \<Longrightarrow> e \<noteq> OutOfFuel" for e using scan_ident_fuel [of s] by auto
  then show ?thesis by (auto simp: dotted_ident_def case_prod_unfold split: sum.splits)
qed

lemma lit_fuel [simp]: "string_lit s \<noteq> Inl OutOfFuel" "number_lit s \<noteq> Inl OutOfFuel"
  by (simp_all add: string_lit_def number_lit_def Let_def split: list.split)

lemma parse_value_fuel [simp]: "parse_value s \<noteq> Inl OutOfFuel"
proof (cases "skip_ws s")
  case (Cons c r)
  then show ?thesis by (simp add: parse_value_def Let_def)
qed (simp add: parse_value_def)

lemma parse_compare_fuel: "parse_compare s \<noteq> Inl OutOfFuel"
proof -
  have v: "parse_value t = Inl e \<Longrightarrow> e \<noteq> OutOfFuel" for t e using parse_value_fuel [of t] by auto
  have o: "parse_op t = Inl e \<Longrightarrow> e \<noteq> OutOfFuel" for t e by (auto simp: parse_op_def Let_def split: if_splits)
  show ?thesis by (auto simp: parse_compare_def Let_def split: sum.splits dest: v o)
qed

text \<open>Every method of the parser takes a part of its input, and has enough fuel for inputs shorter than the fuel.\<close>

definition fueled :: "nat \<Rightarrow> 'a parser \<Rightarrow> bool" where
  "fueled n sub \<longleftrightarrow> (\<forall>s. length s < n \<longrightarrow> sub s \<noteq> Inl OutOfFuel)"

lemma more_terms_ok:
  assumes "shrinks sub" and "fueled n sub" and "w \<noteq> []"
  shows "shrinks (more_terms w sub k)" and "k \<le> n \<Longrightarrow> fueled k (more_terms w sub k)"
proof -
  have "length r \<le> length s" if "more_terms w sub k s = Inr (ts, r)" for s ts r
    using that
  proof (induction k arbitrary: s ts)
    case (Suc k)
    obtain b s1 where e: "eat_word w s = (b, s1)" by fastforce
    then show ?case using Suc eat_word_length [OF e] shrinksD [OF assms(1)]
      by (fastforce simp: map_result_Inr split: bool.splits sum.splits prod.splits dest: le_trans)
  qed simp
  then show "shrinks (more_terms w sub k)" by (auto simp: shrinks_def)
  show "fueled k (more_terms w sub k)" if "k \<le> n"
    using that
  proof (induction k)
    case (Suc k)
    have "more_terms w sub (Suc k) s \<noteq> Inl OutOfFuel" if s: "length s < Suc k" for s
    proof (cases "eat_word w s")
      case (Pair b s1)
      have s1: "b \<Longrightarrow> length s1 < length s" using eat_word_length [OF Pair] assms(3) by (cases w) auto
      show ?thesis
      proof (cases b)
        case True
        then have "sub s1 \<noteq> Inl OutOfFuel" using assms(2) s1 s Suc.prems by (auto simp: fueled_def)
        moreover have "more_terms w sub k s2 \<noteq> Inl OutOfFuel" if "sub s1 = Inr (t, s2)" for t s2
          using Suc shrinksD [OF assms(1) that] s1 [OF True] s by (auto simp: fueled_def)
        ultimately show ?thesis using Pair True by (auto split: sum.splits)
      qed (use Pair in simp)
    qed
    then show ?case by (auto simp: fueled_def)
  qed (simp add: fueled_def)
qed

lemma parse_terms_ok:
  assumes "shrinks sub" and "fueled n sub" and "w \<noteq> []"
  shows "shrinks (parse_terms w f sub n)" and "fueled n (parse_terms w f sub n)"
proof -
  note m = more_terms_ok [OF assms]
  show "shrinks (parse_terms w f sub n)"
    using shrinksD [OF assms(1)] shrinksD [OF m(1)]
    by (fastforce simp: shrinks_def parse_terms_def map_result_Inr split: sum.splits dest: le_trans)
  have "parse_terms w f sub n s \<noteq> Inl OutOfFuel" if s: "length s < n" for s
  proof (cases "sub s")
    case (Inr x)
    then show ?thesis using m(2) [of n] shrinksD [OF assms(1), of s "fst x" "snd x"] s by (cases x) (auto simp: parse_terms_def fueled_def)
  qed (use assms(2) s in \<open>auto simp: parse_terms_def fueled_def\<close>)
  then show "fueled n (parse_terms w f sub n)" by (simp add: fueled_def)
qed

lemma parse_primary_ok:
  assumes "shrinks expr" and "fueled n expr"
  shows "shrinks (parse_primary expr)" and "fueled (Suc n) (parse_primary expr)"
proof -
  have "length r \<le> length s" if p: "parse_primary expr s = Inr (a, r)" for s a r
  proof (cases "skip_ws s \<noteq> [] \<and> hd (skip_ws s) = CHR ''(''")
    case True
    then obtain s1 where "expr (tl (skip_ws s)) = Inr (a, s1)" "r = tl (skip_ws s1)"
      using p by (auto simp: parse_primary_def Let_def split: sum.splits if_splits)
    then show ?thesis using shrinksD [OF assms(1)] length_skip_ws [of s] length_skip_ws [of s1] by fastforce
  next
    case False
    then have "parse_compare (skip_ws s) = Inr (a, r)" using p by (auto simp: parse_primary_def Let_def)
    then show ?thesis using shrinksD [OF parse_compare_shrinks] length_skip_ws le_trans by blast
  qed
  then show "shrinks (parse_primary expr)" by (auto simp: shrinks_def)
  have "parse_primary expr s \<noteq> Inl OutOfFuel" if s: "length s < Suc n" for s
  proof (cases "skip_ws s \<noteq> [] \<and> hd (skip_ws s) = CHR ''(''")
    case True
    then have "0 < length (skip_ws s)" by simp
    then have "length (tl (skip_ws s)) < n" using s length_skip_ws [of s] unfolding length_tl by linarith
    then have "expr (tl (skip_ws s)) \<noteq> Inl OutOfFuel" using assms(2) by (simp add: fueled_def)
    then show ?thesis using True by (auto simp: parse_primary_def Let_def split: sum.splits)
  qed (use parse_compare_fuel in \<open>auto simp: parse_primary_def Let_def\<close>)
  then show "fueled (Suc n) (parse_primary expr)" by (simp add: fueled_def)
qed

lemma parse_unary_ok:
  assumes "shrinks primary" and "fueled n primary"
  shows "shrinks (parse_unary primary k)" and "k \<le> n \<Longrightarrow> fueled k (parse_unary primary k)"
proof -
  have "length r \<le> length s" if "parse_unary primary k s = Inr (a, r)" for s a r
    using that
  proof (induction k arbitrary: s a)
    case (Suc k)
    obtain b s1 where e: "eat_word ''not'' s = (b, s1)" by fastforce
    then show ?case using Suc eat_word_length [OF e] shrinksD [OF assms(1)]
      by (fastforce simp: map_result_Inr split: bool.splits dest: le_trans)
  qed simp
  then show "shrinks (parse_unary primary k)" by (auto simp: shrinks_def)
  show "fueled k (parse_unary primary k)" if "k \<le> n"
    using that
  proof (induction k)
    case (Suc k)
    have "parse_unary primary (Suc k) s \<noteq> Inl OutOfFuel" if s: "length s < Suc k" for s
    proof (cases "eat_word ''not'' s")
      case (Pair b s1)
      then show ?thesis using eat_word_length [OF Pair] Suc s assms(2) by (cases b) (auto simp: fueled_def)
    qed
    then show ?case by (simp add: fueled_def)
  qed (simp add: fueled_def)
qed

lemma parse_or_ok: "shrinks (parse_or n) \<and> fueled n (parse_or n)"
proof (induction n)
  case (Suc n)
  have p: "shrinks (parse_primary (parse_or n))" "fueled (Suc n) (parse_primary (parse_or n))" using parse_primary_ok Suc by blast+
  have u: "shrinks (parse_unary (parse_primary (parse_or n)) (Suc n))" "fueled (Suc n) (parse_unary (parse_primary (parse_or n)) (Suc n))"
    using parse_unary_ok [OF p, of "Suc n"] by simp_all
  have "shrinks (parse_and (parse_or n) (Suc n))" "fueled (Suc n) (parse_and (parse_or n) (Suc n))"
    using parse_terms_ok [OF u, of "''and''" CAnd] by (simp_all add: parse_and_def)
  then show ?case using parse_terms_ok [of "parse_and (parse_or n) (Suc n)" "Suc n" "''or''" COr] by simp
qed (simp add: shrinks_def fueled_def)

lemma parse_condition_fuel: "parse_condition s \<noteq> Inl OutOfFuel"
  using parse_or_ok [of "length s + 1"] by (auto simp: parse_condition_def fueled_def split: sum.splits list.splits)

subsection \<open>Printing\<close>

text \<open>A text for every expression: terms of a conjunction, a disjunction or a negation in parentheses.\<close>

fun show_op :: "compare_op \<Rightarrow> string" where
  "show_op OpGe = ''>=''"
| "show_op OpGt = ''>''"
| "show_op OpLe = ''<=''"
| "show_op OpLt = ''<''"
| "show_op OpEq = ''==''"
| "show_op OpNe = ''!=''"

fun show_value :: "value_ref \<Rightarrow> string" where
  "show_value (RefEnv n) = ''env.'' @ n"
| "show_value (RefChain n) = ''cardano.'' @ n"
| "show_value (RefSensor n) = ''sensor.'' @ n"
| "show_value (RefIdent n) = n"
| "show_value (LitU64 n) = show_nat n"
| "show_value (LitStr s) = CHR ''\"'' # s @ ''\"''"
| "show_value (LitF64 x) = ''0.0''"

fun show_condition :: "condition_expr \<Rightarrow> string" where
  "show_condition (CCompare lhs c rhs) = show_value lhs @ '' '' @ show_op c @ '' '' @ show_value rhs"
| "show_condition (CContains container item) = show_value container @ ''.contains('' @ show_value item @ '')''"
| "show_condition (CNot x) = ''not ('' @ show_condition x @ '')''"
| "show_condition (CAnd xs) = drop 5 (concat (map (\<lambda>x. '' and ('' @ show_condition x @ '')'') xs))"
| "show_condition (COr xs) = drop 4 (concat (map (\<lambda>x. '' or ('' @ show_condition x @ '')'') xs))"

fun split_dots :: "string \<Rightarrow> string list" where
  "split_dots [] = [[]]"
| "split_dots (c # s) = (if c = CHR ''.'' then [] # split_dots s else (case split_dots s of p # ps \<Rightarrow> (c # p) # ps | [] \<Rightarrow> [[c]]))"

definition name_ok :: "string \<Rightarrow> bool" where
  "name_ok n \<longleftrightarrow> n \<noteq> [] \<and> list_all is_ident_byte n"

fun value_ok :: "value_ref \<Rightarrow> bool" where
  "value_ok (RefEnv n) = list_all name_ok (split_dots n)"
| "value_ok (RefChain n) = name_ok n"
| "value_ok (RefSensor n) = list_all name_ok (split_dots n)"
| "value_ok (RefIdent n) = (name_ok n \<and> \<not> is_ascii_digit (hd n) \<and> n \<notin> {''not'', ''env'', ''cardano'', ''sensor''})"
| "value_ok (LitU64 n) = (n < 2 ^ 64)"
| "value_ok (LitStr s) = (CHR ''\"'' \<notin> set s)"
| "value_ok (LitF64 x) = False"

fun condition_ok :: "condition_expr \<Rightarrow> bool" where
  "condition_ok (CCompare lhs c rhs) = (value_ok lhs \<and> value_ok rhs)"
| "condition_ok (CContains container item) = (value_ok container \<and> value_ok item)"
| "condition_ok (CNot x) = condition_ok x"
| "condition_ok (CAnd xs) = (2 \<le> length xs \<and> list_all condition_ok xs)"
| "condition_ok (COr xs) = (2 \<le> length xs \<and> list_all condition_ok xs)"

text \<open>What may follow a printed value.\<close>

definition stops :: "string \<Rightarrow> bool" where
  "stops r \<longleftrightarrow> r = [] \<or> hd r = CHR '' '' \<or> hd r = CHR '')'' \<or> starts_with ''.contains('' r"

lemma stops_simps [simp]: "stops []" "stops (CHR '' '' # r)" "stops (CHR '')'' # r)" "stops (''.contains('' @ r)"
  by (simp_all add: stops_def starts_with_def)

lemma stops_hd: "stops r \<Longrightarrow> r \<noteq> [] \<Longrightarrow> \<not> is_ident_byte (hd r) \<and> hd r \<noteq> CHR ''('' \<and> \<not> is_ascii_digit (hd r)"
  by (cases r) (auto simp: stops_def starts_with_def is_ident_byte_def is_ascii_digit_def)

lemma stops_end: "stops r \<Longrightarrow> r = [] \<or> \<not> is_ident_byte (hd r)"
  using stops_hd by blast

lemma digit_is_ident: "is_ascii_digit c \<Longrightarrow> is_ident_byte c"
  by (simp add: is_ident_byte_def)

lemma takeWhile_stop: "list_all P n \<Longrightarrow> r = [] \<or> \<not> P (hd r) \<Longrightarrow> takeWhile P (n @ r) = n \<and> dropWhile P (n @ r) = r"
  by (cases r) (auto simp: list_all_iff takeWhile_append2 dropWhile_append2)

lemma scan_ident_name: "name_ok n \<Longrightarrow> stops r \<Longrightarrow> scan_ident (n @ r) = Inr (n, r)"
proof -
  assume n: "name_ok n" and r: "stops r"
  have "r = [] \<or> \<not> is_ident_byte (hd r)" using stops_hd [OF r] by blast
  then show ?thesis using takeWhile_stop [of is_ident_byte n r] n by (simp add: scan_ident_def name_ok_def Let_def)
qed

lemma starts_with_append: "starts_with w (w @ s)"
  by (simp add: starts_with_def)

lemma starts_withE: "starts_with w s \<Longrightarrow> \<exists>t. s = w @ t"
  by (metis append_take_drop_id starts_with_def)

text \<open>A word of identifier bytes followed by another byte is found only where it ends.\<close>

lemma starts_with_word:
  assumes "list_all is_ident_byte w" and "starts_with (w @ [c]) s" and "\<not> is_ident_byte c"
  shows "takeWhile is_ident_byte s = w" and "hd (dropWhile is_ident_byte s) = c"
proof -
  obtain t where t: "s = w @ c # t" using starts_withE [OF assms(2)] by auto
  show "takeWhile is_ident_byte s = w" and "hd (dropWhile is_ident_byte s) = c"
    using takeWhile_stop [OF assms(1), of "c # t"] assms(3) unfolding t by auto
qed

lemma peek_word_whole: "list_all is_ident_byte w \<Longrightarrow> peek_word w s \<Longrightarrow> takeWhile is_ident_byte s = w"
proof -
  assume w: "list_all is_ident_byte w" and p: "peek_word w s"
  then obtain t where t: "s = w @ t" using starts_withE by (auto simp: peek_word_def)
  then have "t = [] \<or> \<not> is_ident_byte (hd t)" using p by (cases t) (auto simp: peek_word_def)
  then show ?thesis using takeWhile_stop [OF w] t by simp
qed

subsection \<open>Values round-trip\<close>

abbreviation dots :: "string list \<Rightarrow> string" where
  "dots xs \<equiv> concat (map (\<lambda>y. CHR ''.'' # y) xs)"

lemma join_split_dots: "n = hd (split_dots n) @ dots (tl (split_dots n)) \<and> split_dots n \<noteq> []"
proof (induction n)
  case (Cons c s)
  then show ?case by (cases "c = CHR ''.''"; cases "split_dots s") auto
qed simp

lemma dotted_more_names:
  "list_all name_ok xs \<Longrightarrow> stops r \<Longrightarrow> dotted_more (dots xs @ r) = (dots xs, r)"
proof (induction xs)
  case Nil
  have "\<not> (r \<noteq> [] \<and> hd r = CHR ''.'') \<or> starts_with ''.contains('' r" using Nil by (auto simp: stops_def)
  then show ?case by (subst dotted_more.simps) auto
next
  case (Cons y ys)
  have y: "y \<noteq> []" "list_all is_ident_byte y" using Cons.prems by (auto simp: name_ok_def)
  have end_y: "dots ys @ r = [] \<or> \<not> is_ident_byte (hd (dots ys @ r)) \<and> hd (dots ys @ r) \<noteq> CHR ''(''"
    using stops_hd [OF Cons.prems(2)] by (cases ys) (auto simp: is_ident_byte_def is_ascii_digit_def)
  have t: "takeWhile is_ident_byte (y @ dots ys @ r) = y" "dropWhile is_ident_byte (y @ dots ys @ r) = dots ys @ r"
    using takeWhile_stop [OF y(2), of "dots ys @ r"] end_y by auto
  have "\<not> starts_with (''contains'' @ ''('') (y @ dots ys @ r)"
  proof
    assume w: "starts_with (''contains'' @ ''('') (y @ dots ys @ r)"
    have c: "list_all is_ident_byte ''contains''" "\<not> is_ident_byte CHR ''(''" by (simp_all add: is_ident_byte_def is_ascii_digit_def)
    have "hd (dots ys @ r) = CHR ''(''" using starts_with_word(2) [OF c(1) w c(2)] t(2) by simp
    moreover have "dots ys @ r \<noteq> []" using w starts_with_word(1) [OF c(1) w c(2)] t(1) by (auto simp: starts_with_def)
    ultimately show False using end_y by blast
  qed
  then have "\<not> starts_with ''.contains('' (dots (y # ys) @ r)" by (simp add: starts_with_def)
  moreover have "is_ident_byte (hd (y @ dots ys @ r))" using y by (cases y) auto
  ultimately show ?case
    using Cons y(1) t by (subst dotted_more.simps) simp
qed

lemma dotted_ident_name: "list_all name_ok (split_dots n) \<Longrightarrow> stops r \<Longrightarrow> dotted_ident (n @ r) = Inr (n, r)"
proof -
  assume ok: "list_all name_ok (split_dots n)" and r: "stops r"
  obtain x xs where sp: "split_dots n = x # xs" "n = x @ dots xs" using join_split_dots [of n] by (cases "split_dots n") auto
  have names: "name_ok x" "list_all name_ok xs" using ok sp(1) by simp_all
  have "dots xs @ r = [] \<or> \<not> is_ident_byte (hd (dots xs @ r))"
    using stops_hd [OF r] by (cases xs) (auto simp: is_ident_byte_def is_ascii_digit_def)
  then have "scan_ident (x @ dots xs @ r) = Inr (x, dots xs @ r)"
    using takeWhile_stop [of is_ident_byte x "dots xs @ r"] names(1) by (auto simp: scan_ident_def name_ok_def Let_def)
  then show ?thesis using dotted_more_names [OF names(2) r] sp(2) by (simp add: dotted_ident_def)
qed

lemma digits_value_snoc: "digits_value (ds @ [c]) = 10 * digits_value ds + (of_char c - 48)"
  by (simp add: digits_value_def)

lemma show_nat_digits: "list_all is_ascii_digit (show_nat n) \<and> digits_value (show_nat n) = n \<and> show_nat n \<noteq> []"
proof (induction n rule: show_nat.induct)
  case (1 n)
  have d: "is_ascii_digit (char_of (48 + m))" "of_char (char_of (48 + m)) = 48 + m" if "m < 10" for m :: nat
    using that by (simp_all add: is_ascii_digit_def)
  show ?case
  proof (cases "n < 10")
    case True
    then show ?thesis using d [OF True] by (simp add: show_nat.simps [of n] digits_value_def)
  next
    case False
    then show ?thesis using 1 d [of "n mod 10"] by (simp add: show_nat.simps [of n] digits_value_snoc)
  qed
qed

lemma number_lit_show: "n < 2 ^ 64 \<Longrightarrow> stops r \<Longrightarrow> number_lit (show_nat n @ r) = Inr (LitU64 n, r)"
proof -
  assume n: "n < 2 ^ 64" and r: "stops r"
  have "takeWhile is_ascii_digit (show_nat n @ r) = show_nat n" "dropWhile is_ascii_digit (show_nat n @ r) = r"
    using takeWhile_stop [of is_ascii_digit "show_nat n" r] show_nat_digits stops_hd [OF r] by auto
  moreover have "\<not> (r \<noteq> [] \<and> hd r = CHR ''.'' \<and> tl r \<noteq> [] \<and> is_ascii_digit (hd (tl r)))"
    using r by (auto simp: stops_def is_ascii_digit_def dest!: starts_withE)
  ultimately show ?thesis using n show_nat_digits [of n] unfolding number_lit_def Let_def by (simp only: if_True if_False)
qed

lemma ident_not_special: "is_ident_byte c \<Longrightarrow> \<not> is_ascii_whitespace c \<and> c \<noteq> CHR ''\"'' \<and> c \<noteq> CHR ''('' \<and> c \<noteq> CHR ''.''"
  by (auto simp: is_ident_byte_def is_ascii_digit_def is_ascii_whitespace_def)

lemma name_okE: "name_ok n \<Longrightarrow> \<exists>c t. n = c # t \<and> is_ident_byte c"
  by (cases n) (auto simp: name_ok_def)

text \<open>The identifier a printed value begins with.\<close>

lemma show_value_word:
  assumes "value_ok v" and "stops r"
  shows "takeWhile is_ident_byte (show_value v @ r) \<noteq> ''not''"
proof (cases v)
  case (RefIdent n)
  then show ?thesis using assms takeWhile_stop [of is_ident_byte n r] stops_end [OF assms(2)] by (simp add: name_ok_def)
next
  case (LitU64 n)
  have all_ident: "list_all is_ident_byte (show_nat n)" using show_nat_digits [of n] digit_is_ident by (auto simp: list_all_iff)
  then have "takeWhile is_ident_byte (show_value v @ r) = show_nat n"
    using takeWhile_stop [OF all_ident, of r] stops_hd [OF assms(2)] LitU64 by auto
  moreover have "\<not> list_all is_ascii_digit ''not''" by (simp add: is_ascii_digit_def)
  ultimately show ?thesis using show_nat_digits [of n] by metis
qed (use assms(1) in \<open>auto simp: is_ident_byte_def is_ascii_digit_def\<close>)

lemma show_value_hd:
  assumes "value_ok v"
  shows "\<exists>c t. show_value v = c # t \<and> \<not> is_ascii_whitespace c \<and> c \<noteq> CHR ''(''"
proof (cases v)
  case (RefIdent n)
  then show ?thesis using assms name_okE [of n] ident_not_special by auto
next
  case (LitU64 n)
  obtain c t where ct: "show_nat n = c # t" using show_nat_digits [of n] by (cases "show_nat n") auto
  then have "is_ident_byte c" using show_nat_digits [of n] digit_is_ident by auto
  then show ?thesis using LitU64 ct ident_not_special by auto
qed (auto simp: is_ascii_whitespace_def)

lemma skip_ws_show [simp]:
  assumes "value_ok v"
  shows "skip_ws (show_value v @ r) = show_value v @ r" and "skip_ws (CHR '' '' # show_value v @ r) = show_value v @ r"
  using show_value_hd [OF assms] by (auto simp: skip_ws_def is_ascii_whitespace_def)

lemma parse_value_skip: "parse_value (CHR '' '' # s) = parse_value s"
  by (simp add: parse_value_def skip_ws_def is_ascii_whitespace_def)

lemma starts_with_prefix_word:
  assumes "name_ok n" and "stops r" and "starts_with (w @ ''.'') (n @ r)" and "list_all is_ident_byte w"
  shows "n = w"
proof -
  have "\<not> is_ident_byte CHR ''.''" by (simp add: is_ident_byte_def is_ascii_digit_def)
  then have "takeWhile is_ident_byte (n @ r) = w" using starts_with_word(1) [OF assms(4)] assms(3) by blast
  moreover have "takeWhile is_ident_byte (n @ r) = n"
    using takeWhile_stop [of is_ident_byte n r] assms(1) stops_hd [OF assms(2)] by (auto simp: name_ok_def)
  ultimately show ?thesis by simp
qed

lemma string_lit_show: "CHR ''\"'' \<notin> set s \<Longrightarrow> string_lit (s @ CHR ''\"'' # r) = Inr (LitStr s, r)"
proof -
  assume "CHR ''\"'' \<notin> set s"
  then have "list_all (\<lambda>c. c \<noteq> CHR ''\"'') s" by (auto simp: list_all_iff)
  from takeWhile_stop [OF this, of "CHR ''\"'' # r"] show ?thesis by (simp add: string_lit_def)
qed

lemma parse_value_show:
  assumes "value_ok v" and "stops r"
  shows "parse_value (show_value v @ r) = Inr (v, r)"
proof (cases v)
  case (RefEnv n)
  then show ?thesis using assms dotted_ident_name [of n r]
    by (simp add: parse_value_def skip_ws_def is_ascii_whitespace_def is_ascii_digit_def starts_with_def map_result_def)
next
  case (RefChain n)
  then show ?thesis using assms scan_ident_name [of n r]
    by (simp add: parse_value_def skip_ws_def is_ascii_whitespace_def is_ascii_digit_def starts_with_def map_result_def)
next
  case (RefSensor n)
  then show ?thesis using assms dotted_ident_name [of n r]
    by (simp add: parse_value_def skip_ws_def is_ascii_whitespace_def is_ascii_digit_def starts_with_def map_result_def)
next
  case (RefIdent n)
  have n: "name_ok n" "\<not> is_ascii_digit (hd n)" "n \<notin> {''not'', ''env'', ''cardano'', ''sensor''}" using assms(1) RefIdent by auto
  obtain c t where c: "n = c # t" "is_ident_byte c" using name_okE [OF n(1)] by blast
  have words: "list_all is_ident_byte ''env''" "list_all is_ident_byte ''cardano''" "list_all is_ident_byte ''sensor''"
    by (simp_all add: is_ident_byte_def is_ascii_digit_def)
  have "\<not> starts_with ''env.'' (n @ r)" "\<not> starts_with ''cardano.'' (n @ r)" "\<not> starts_with ''sensor.'' (n @ r)"
    using starts_with_prefix_word [OF n(1) assms(2) _ words(1)] starts_with_prefix_word [OF n(1) assms(2) _ words(2)]
      starts_with_prefix_word [OF n(1) assms(2) _ words(3)] n(3) by auto
  then show ?thesis
    using RefIdent n(2) c ident_not_special [OF c(2)] scan_ident_name [OF n(1) assms(2)]
    by (simp add: parse_value_def skip_ws_def map_result_def)
next
  case (LitU64 n)
  obtain c t where c: "show_nat n = c # t" "is_ascii_digit c" using show_nat_digits [of n] by (cases "show_nat n") auto
  then show ?thesis
    using LitU64 assms number_lit_show [of n r] ident_not_special [OF digit_is_ident [OF c(2)]] by (simp add: parse_value_def skip_ws_def)
next
  case (LitStr s)
  then show ?thesis using assms string_lit_show [of s r] by (simp add: parse_value_def skip_ws_def is_ascii_whitespace_def)
qed (use assms(1) in simp)

subsection \<open>Conditions round-trip\<close>

lemma parse_op_show: "parse_op (show_op c @ CHR '' '' # r) = Inr (c, CHR '' '' # r)"
  by (cases c) (simp_all add: parse_op_def skip_ws_def is_ascii_whitespace_def starts_with_def)

lemma parse_compare_show:
  assumes "value_ok lhs" and "value_ok rhs" and "stops r"
  shows "parse_compare (show_condition (CCompare lhs c rhs) @ r) = Inr (CCompare lhs c rhs, r)"
proof -
  have op: "skip_ws (CHR '' '' # show_op c @ t) = show_op c @ t" "\<not> starts_with ''.contains('' (show_op c @ CHR '' '' # t)" for t
    by (cases c; simp add: skip_ws_def is_ascii_whitespace_def starts_with_def)+
  show ?thesis
    using parse_value_show [OF assms(1), of "CHR '' '' # show_op c @ CHR '' '' # show_value rhs @ r"] parse_value_show [OF assms(2,3)]
    by (simp add: parse_compare_def op parse_op_show parse_value_skip Let_def)
qed

lemma parse_contains_show:
  assumes "value_ok container" and "value_ok item"
  shows "parse_compare (show_condition (CContains container item) @ r) = Inr (CContains container item, r)"
  using parse_value_show [OF assms(1), of "''.contains('' @ show_value item @ CHR '')'' # r"] parse_value_show [OF assms(2), of "CHR '')'' # r"]
    stops_simps(4) [of "show_value item @ CHR '')'' # r"]
  by (simp add: parse_compare_def Let_def skip_ws_def is_ascii_whitespace_def starts_with_def)

definition ends :: "string \<Rightarrow> bool" where
  "ends r \<longleftrightarrow> r = [] \<or> hd r = CHR '')''"

lemma ends_stops: "ends r \<Longrightarrow> stops r"
  by (auto simp: ends_def stops_def)

lemma eat_word_ends: "ends r \<Longrightarrow> eat_word ''and'' r = (False, r) \<and> eat_word ''or'' r = (False, r)"
  by (cases r) (auto simp: ends_def eat_word_def skip_ws_def is_ascii_whitespace_def peek_word_def starts_with_def)

lemma eat_word_paren: "eat_word ''not'' (CHR ''('' # s) = (False, CHR ''('' # s)" "eat_word ''not'' ('' ('' @ s) = (False, CHR ''('' # s)"
  by (simp_all add: eat_word_def skip_ws_def is_ascii_whitespace_def peek_word_def starts_with_def)

lemma eat_word_own:
  "eat_word ''and'' ('' and ('' @ s) = (True, '' ('' @ s)" "eat_word ''or'' ('' or ('' @ s) = (True, '' ('' @ s)"
  "eat_word ''not'' (''not ('' @ s) = (True, '' ('' @ s)" "eat_word ''and'' ('' or ('' @ s) = (False, ''or ('' @ s)"
  "eat_word ''or'' (''or ('' @ s) = (True, '' ('' @ s)"
  by (simp_all add: eat_word_def skip_ws_def is_ascii_whitespace_def peek_word_def starts_with_def is_ident_byte_def is_ascii_digit_def)

abbreviation unary_at :: "nat \<Rightarrow> condition_expr parser" where
  "unary_at m \<equiv> parse_unary (parse_primary (parse_or m)) (Suc m)"

lemma primary_paren:
  "parse_or m (show_condition x @ CHR '')'' # t) = Inr (x, CHR '')'' # t) \<Longrightarrow> parse_primary (parse_or m) (CHR ''('' # show_condition x @ CHR '')'' # t) = Inr (x, t)"
  by (simp add: parse_primary_def skip_ws_def is_ascii_whitespace_def)

lemma unary_paren:
  assumes "parse_or m (show_condition x @ CHR '')'' # t) = Inr (x, CHR '')'' # t)"
  shows "parse_unary (parse_primary (parse_or m)) (Suc k) (CHR ''('' # show_condition x @ CHR '')'' # t) = Inr (x, t)"
    and "parse_unary (parse_primary (parse_or m)) (Suc k) ('' ('' @ show_condition x @ CHR '')'' # t) = Inr (x, t)"
  using primary_paren [OF assms] eat_word_paren by simp_all

lemma and_terms_show:
  assumes "\<forall>x\<in>set xs. \<forall>t. sub ('' ('' @ show_condition x @ CHR '')'' # t) = Inr (x, t)" and "length xs < k"
    and "eat_word ''and'' r = (False, r')"
  shows "more_terms ''and'' sub k (concat (map (\<lambda>x. '' and ('' @ show_condition x @ '')'') xs) @ r) = Inr (xs, r')"
  using assms(1,2)
proof (induction xs arbitrary: k)
  case Nil
  then show ?case using assms(3) by (cases k) simp_all
next
  case (Cons x xs)
  then obtain k' where k: "k = Suc k'" by (cases k) auto
  define t where "t = concat (map (\<lambda>x. '' and ('' @ show_condition x @ '')'') xs) @ r"
  have "sub ('' ('' @ show_condition x @ CHR '')'' # t) = Inr (x, t)" using Cons.prems(1) by simp
  moreover have "more_terms ''and'' sub k' t = Inr (xs, r')" using Cons k by (simp add: t_def)
  ultimately show ?case
    using k eat_word_own(1) [of "show_condition x @ CHR '')'' # t"] by (simp add: map_result_def t_def)
qed

text \<open>A conjunction of one term is the term.\<close>

lemma and_one:
  assumes "unary_at m s = Inr (e, r)" and "eat_word ''and'' r = (False, r')"
  shows "parse_and (parse_or m) (Suc m) s = Inr (e, r')"
  using assms by (simp del: parse_unary.simps add: parse_and_def parse_terms_def map_result_def one_or_def)

lemma or_one:
  assumes "parse_and (parse_or m) (Suc m) s = Inr (e, r)" and "ends r"
  shows "parse_or (Suc m) s = Inr (e, r)"
  using assms eat_word_ends [OF assms(2)] by (simp add: parse_terms_def map_result_def one_or_def)

lemma or_terms_show:
  assumes "\<forall>x\<in>set xs. \<forall>t t'. eat_word ''and'' t = (False, t') \<longrightarrow> sub ('' ('' @ show_condition x @ CHR '')'' # t) = Inr (x, t')"
    and "length xs < k" and "ends r" and "b = 0 \<or> b = 1 \<and> xs \<noteq> []"
  shows "more_terms ''or'' sub k (drop b (concat (map (\<lambda>x. '' or ('' @ show_condition x @ '')'') xs)) @ r) = Inr (xs, r)"
  using assms(1,2,4)
proof (induction xs arbitrary: k b)
  case Nil
  then show ?case using eat_word_ends [OF assms(3)] by (cases k) auto
next
  case (Cons x xs)
  then obtain k' where k: "k = Suc k'" by (cases k) auto
  define t where "t = concat (map (\<lambda>x. '' or ('' @ show_condition x @ '')'') xs) @ r"
  define b' where "b' = (if xs = [] then 0 else 1 :: nat)"
  define t' where "t' = drop b' (concat (map (\<lambda>x. '' or ('' @ show_condition x @ '')'') xs)) @ r"
  have "eat_word ''and'' t = (False, t')"
  proof (cases xs)
    case Nil
    then show ?thesis using eat_word_ends [OF assms(3)] by (simp add: t_def t'_def b'_def)
  next
    case (Cons y ys)
    then show ?thesis using eat_word_own(4) [of "show_condition y @ CHR '')'' # concat (map (\<lambda>x. '' or ('' @ show_condition x @ '')'') ys) @ r"]
      by (simp add: t_def t'_def b'_def)
  qed
  then have sub: "sub ('' ('' @ show_condition x @ CHR '')'' # t) = Inr (x, t')" using Cons.prems(1) by simp
  have rest: "more_terms ''or'' sub k' t' = Inr (xs, r)"
    unfolding t'_def using Cons.prems k by (intro Cons.IH) (auto simp: b'_def)
  have "eat_word ''or'' (drop b (concat (map (\<lambda>x. '' or ('' @ show_condition x @ '')'') (x # xs))) @ r) = (True, '' ('' @ show_condition x @ CHR '')'' # t)"
    using Cons.prems(3) eat_word_own(2,5) [of "show_condition x @ CHR '')'' # t"] by (auto simp: t_def)
  then show ?case using sub rest k by (simp add: map_result_def)
qed

lemma unary_compare:
  assumes "parse_compare s = Inr (e, r)" and "\<not> peek_word ''not'' s" and "s = c # t" and "\<not> is_ascii_whitespace c" and "c \<noteq> CHR ''(''"
  shows "unary_at m s = Inr (e, r)"
  using assms by (simp add: eat_word_def skip_ws_def parse_primary_def)

lemma leaf_show:
  assumes "condition_ok e" and "ends r" and "e = CCompare lhs c rhs \<or> e = CContains lhs rhs"
  shows "unary_at m (show_condition e @ r) = Inr (e, r)"
proof -
  obtain u where u: "show_condition e @ r = show_value lhs @ u" "stops u" using assms(3) by (auto simp: starts_with_def stops_def)
  have lhs: "value_ok lhs" using assms(1,3) by auto
  have "parse_compare (show_condition e @ r) = Inr (e, r)"
    using assms parse_compare_show [of lhs rhs r c] parse_contains_show [of lhs rhs r] ends_stops [OF assms(2)] by auto
  moreover have "list_all is_ident_byte ''not''" by (simp add: is_ident_byte_def is_ascii_digit_def)
  then have "\<not> peek_word ''not'' (show_condition e @ r)"
    using show_value_word [OF lhs u(2)] peek_word_whole [of "''not''" "show_value lhs @ u"] u(1) by auto
  moreover obtain a t where "show_value lhs = a # t" "\<not> is_ascii_whitespace a" "a \<noteq> CHR ''(''" using show_value_hd [OF lhs] by blast
  ultimately show ?thesis using unary_compare [of "show_condition e @ r" e r a "t @ u" m] u(1) by simp
qed

lemma concat_item_length: "x \<in> set xs \<Longrightarrow> length (f x) \<le> length (concat (map f xs))"
  by (induction xs) auto

lemma concat_count_length: "(\<And>x. x \<in> set xs \<Longrightarrow> 0 < length (f x)) \<Longrightarrow> length xs \<le> length (concat (map f xs))"
  by (induction xs) (auto simp: Suc_le_eq add_strict_increasing)

lemma and_show:
  assumes "\<forall>x\<in>set xs. \<forall>t. parse_or m (show_condition x @ CHR '')'' # t) = Inr (x, CHR '')'' # t)"
    and "2 \<le> length xs" and "length xs \<le> Suc m" and "ends r"
  shows "parse_and (parse_or m) (Suc m) (show_condition (CAnd xs) @ r) = Inr (CAnd xs, r)"
proof -
  obtain y z zs where xs: "xs = y # z # zs" using assms(2) by (cases xs; cases "tl xs") auto
  define rest where "rest = concat (map (\<lambda>x. '' and ('' @ show_condition x @ '')'') (z # zs)) @ r"
  have "parse_or m (show_condition y @ CHR '')'' # rest) = Inr (y, CHR '')'' # rest)" using assms(1) xs by simp
  from unary_paren(1) [OF this, of m] have first: "unary_at m (show_condition (CAnd xs) @ r) = Inr (y, rest)" by (simp add: xs rest_def)
  have "more_terms ''and'' (unary_at m) (Suc m) rest = Inr (z # zs, r)"
    unfolding rest_def
  proof (rule and_terms_show)
    show "\<forall>x\<in>set (z # zs). \<forall>t. unary_at m ('' ('' @ show_condition x @ CHR '')'' # t) = Inr (x, t)" using unary_paren(2) assms(1) xs by auto
  qed (use assms(3) xs eat_word_ends [OF assms(4)] in auto)
  then show ?thesis
    using first unfolding parse_and_def parse_terms_def by (simp del: parse_unary.simps more_terms.simps show_condition.simps add: map_result_def one_or_def xs)
qed

lemma or_show:
  assumes "\<forall>x\<in>set xs. \<forall>t. parse_or m (show_condition x @ CHR '')'' # t) = Inr (x, CHR '')'' # t)"
    and "2 \<le> length xs" and "length xs \<le> Suc m" and "ends r"
  shows "parse_or (Suc m) (show_condition (COr xs) @ r) = Inr (COr xs, r)"
proof -
  obtain y z zs where xs: "xs = y # z # zs" using assms(2) by (cases xs; cases "tl xs") auto
  define shown where "shown = concat (map (\<lambda>x. '' or ('' @ show_condition x @ '')'') (z # zs))"
  have "parse_or m (show_condition y @ CHR '')'' # shown @ r) = Inr (y, CHR '')'' # shown @ r)" using assms(1) xs by simp
  from unary_paren(1) [OF this, of m] have "unary_at m (show_condition (COr xs) @ r) = Inr (y, shown @ r)" by (simp add: xs shown_def)
  moreover have "eat_word ''and'' (shown @ r) = (False, drop 1 shown @ r)"
    using eat_word_own(4) [of "show_condition z @ CHR '')'' # concat (map (\<lambda>x. '' or ('' @ show_condition x @ '')'') zs) @ r"] by (simp add: shown_def)
  ultimately have first: "parse_and (parse_or m) (Suc m) (show_condition (COr xs) @ r) = Inr (y, drop 1 shown @ r)" by (rule and_one)
  have "more_terms ''or'' (parse_and (parse_or m) (Suc m)) (Suc m) (drop 1 shown @ r) = Inr (z # zs, r)"
    unfolding shown_def
  proof (rule or_terms_show)
    show "\<forall>x\<in>set (z # zs). \<forall>t t'. eat_word ''and'' t = (False, t') \<longrightarrow> parse_and (parse_or m) (Suc m) ('' ('' @ show_condition x @ CHR '')'' # t) = Inr (x, t')"
      using and_one [OF unary_paren(2)] assms(1) xs by auto
  qed (use assms(3,4) xs in auto)
  then show ?thesis
    using first by (simp del: more_terms.simps show_condition.simps add: parse_terms_def map_result_def one_or_def xs)
qed

text \<open>The text of a list of terms is longer than each term's text, and than the list.\<close>

lemma terms_length:
  assumes "length (drop k (concat (map (\<lambda>x. sep @ show_condition x @ '')'') xs))) < Suc m" and "k < length sep" and "2 \<le> length xs"
  shows "x \<in> set xs \<Longrightarrow> length (show_condition x) < m" and "length xs \<le> Suc m"
proof -
  let ?f = "\<lambda>x. sep @ show_condition x @ '')''"
  have "length (concat (map ?f xs)) < Suc m + k" using assms(1) by simp
  moreover have "length (show_condition x) + length sep + 1 \<le> length (concat (map ?f xs))" if "x \<in> set xs" for x
    using concat_item_length [OF that, of ?f] by simp
  ultimately show "x \<in> set xs \<Longrightarrow> length (show_condition x) < m" using assms(2) by fastforce
  obtain y ys where xs: "xs = y # ys" using assms(3) by (cases xs) auto
  have "length ys \<le> length (concat (map ?f ys))" by (rule concat_count_length) simp
  then show "length xs \<le> Suc m" using \<open>length (concat (map ?f xs)) < Suc m + k\<close> assms(2) xs by simp
qed

lemma parse_or_show:
  "condition_ok e \<Longrightarrow> length (show_condition e) < n \<Longrightarrow> ends r \<Longrightarrow> parse_or n (show_condition e @ r) = Inr (e, r)"
proof (induction e arbitrary: n r)
  case (CCompare lhs c rhs)
  obtain m where n: "n = Suc m" using CCompare.prems(2) by (cases n) auto
  show ?case unfolding n
    using or_one [OF and_one [OF leaf_show [OF CCompare.prems(1,3)]]] eat_word_ends [OF CCompare.prems(3)] CCompare.prems(3) by blast
next
  case (CContains container item)
  obtain m where n: "n = Suc m" using CContains.prems(2) by (cases n) auto
  show ?case unfolding n
    using or_one [OF and_one [OF leaf_show [OF CContains.prems(1,3)]]] eat_word_ends [OF CContains.prems(3)] CContains.prems(3) by blast
next
  case (CNot x)
  have "2 \<le> n" using CNot.prems(2) by simp
  then obtain m where n: "n = Suc (Suc m)" by (metis Suc_le_D numeral_2_eq_2 Suc_le_mono)
  have "parse_or (Suc m) (show_condition x @ CHR '')'' # r) = Inr (x, CHR '')'' # r)"
    using CNot n by (intro CNot.IH) (auto simp: ends_def)
  from unary_paren(2) [OF this, of m] have "unary_at (Suc m) (show_condition (CNot x) @ r) = Inr (CNot x, r)"
    using eat_word_own(3) [of "show_condition x @ CHR '')'' # r"] by (simp del: parse_or.simps add: map_result_def)
  then show ?case unfolding n using or_one [OF and_one] eat_word_ends [OF CNot.prems(3)] CNot.prems(3) by blast
next
  case (CAnd xs)
  obtain m where n: "n = Suc m" using CAnd.prems(2) by (cases n) auto
  have ok: "2 \<le> length xs" "list_all condition_ok xs" using CAnd.prems(1) by simp_all
  note l = terms_length [of 5 "'' and (''" xs m, OF _ _ ok(1)]
  have short: "length (show_condition x) < m" if "x \<in> set xs" for x using l(1) CAnd.prems(2) n that by simp
  have "\<forall>x\<in>set xs. \<forall>t. parse_or m (show_condition x @ CHR '')'' # t) = Inr (x, CHR '')'' # t)"
    using CAnd.IH ok(2) short by (auto simp: list_all_iff ends_def)
  then show ?case unfolding n using or_one [OF and_show] ok(1) l(2) CAnd.prems(2,3) n by simp
next
  case (COr xs)
  obtain m where n: "n = Suc m" using COr.prems(2) by (cases n) auto
  have ok: "2 \<le> length xs" "list_all condition_ok xs" using COr.prems(1) by simp_all
  note l = terms_length [of 4 "'' or (''" xs m, OF _ _ ok(1)]
  have short: "length (show_condition x) < m" if "x \<in> set xs" for x using l(1) COr.prems(2) n that by simp
  have "\<forall>x\<in>set xs. \<forall>t. parse_or m (show_condition x @ CHR '')'' # t) = Inr (x, CHR '')'' # t)"
    using COr.IH ok(2) short by (auto simp: list_all_iff ends_def)
  then show ?case unfolding n using or_show ok(1) l(2) COr.prems(2,3) n by simp
qed

subsection \<open>Properties\<close>


text \<open>C32: the load-time check is exact. If the environment of the tick has the types of the environment the condition was
  checked against, and the sensors the condition names deliver numbers, then the check accepts the condition exactly when
  every comparison in it reads two numbers or two strings and every \<open>contains\<close> two strings: an accepted condition never
  falls back to false for a value it cannot read, and a refused one would.\<close>

theorem condition_check_exact:
  assumes "env_keeps_types env ctx" and "\<forall>name\<in>set (sensors_of e). \<exists>x. oget (tc_sensors ctx) name = Some x \<and> is_numeric x"
  shows "validate env e = Inr () \<longleftrightarrow> resolved ctx e"
  using validate_reads [OF assms] .

text \<open>The check accepts a sensor that the tick does not have; the comparison is then false, and its negation true.\<close>

lemma missing_sensor_accepted:
  assumes "oget (tc_sensors ctx) name = None"
  shows "validate env (CCompare (RefSensor name) c (LitU64 n)) = Inr ()"
    and "\<not> eval_with ctx (CCompare (RefSensor name) c (LitU64 n))" and "eval_with ctx (CNot (CCompare (RefSensor name) c (LitU64 n)))"
  using assms by simp_all

definition demo_condition :: condition_expr where
  "demo_condition = COr [CAnd [CCompare (RefChain ''current_slot'') OpGe (LitU64 10), CNot (CContains (RefEnv ''net.region'') (LitStr ''eu''))],
     CCompare (RefSensor ''load'') OpLt (LitU64 3)]"


definition demo_ctx :: tick_ctx where
  "demo_ctx = \<lparr>tc_env = oput ''net.region'' (EnvStr ''us'') oempty, tc_sensors = oput ''load'' (EnvU64 2) oempty,
     tc_state = \<lparr>ns_current_slot = 12, ns_current_epoch = 0, ns_mempool_tx_count = 0\<rparr>, tc_seed = 0, tc_action_params = None\<rparr>"

theorem condition_check_exact_witness:
  "validate (oput ''net.region'' (EnvStr ''eu-west'') oempty) demo_condition = Inr () \<and> resolved demo_ctx demo_condition"
proof -
  have types: "env_keeps_types (oput ''net.region'' (EnvStr ''eu-west'') oempty) demo_ctx"
    by (simp add: env_keeps_types_def demo_ctx_def oget_oput)
  have sensors: "\<forall>name\<in>set (sensors_of demo_condition). \<exists>x. oget (tc_sensors demo_ctx) name = Some x \<and> is_numeric x"
    by (simp add: demo_condition_def demo_ctx_def oget_oput)
  have "validate (oput ''net.region'' (EnvStr ''eu-west'') oempty) demo_condition = Inr ()"
    by (simp add: demo_condition_def oget_oput CHAIN_FIELDS_def)
  then show ?thesis using condition_check_exact [OF types sensors] by simp
qed

end
