(* ===== verification/Behaviour_Tree.thy ===== *)
theory Behaviour_Tree
  imports Condition_Language
begin

text \<open>
  \<open>shared-rs/consensus/src/behaviour/tree/behaviour.rs\<close>: the behaviour tree and its reactive tick and halt.

  \<^item> A node keeps the \<open>id\<close> of its definition; counts are \<open>u32\<close> values, as \<open>nat\<close> (a count never passes its bound, which is shown).
  \<^item> A leaf action is a trait object of the code: here a value of the type \<open>'a\<close> with the operations of the trait in a record
    (\<open>contribute\<close>, \<open>reset\<close>, \<open>set_param\<close>); \<open>'e\<close> is the effect they write to. The laws the trait documents are a locale, interpreted
    on the action catalogue.
  \<^item> A composite ticks its children by a loop with an early return; the loops take the children with their tick functions.
\<close>

datatype status = Success | Failure | Running

record ('a, 'e) leaf_ops =
  la_contribute :: "'a \<Rightarrow> tick_ctx \<Rightarrow> 'e \<Rightarrow> status \<times> 'a \<times> 'e"
  la_reset :: "'a \<Rightarrow> 'a"
  la_set_param :: "'a \<Rightarrow> string \<Rightarrow> toml_value \<Rightarrow> 'a"

datatype 'a behaviour =
    Selector string "'a behaviour list"
  | Sequence string "'a behaviour list"
  | Join string "'a behaviour list" "bool list"
  | ForTicks string nat nat "'a behaviour"
  | Wait string nat nat
  | Condition string condition_expr
  | Action string 'a

definition join_node :: "string \<Rightarrow> 'a behaviour list \<Rightarrow> 'a behaviour" where
  "join_node i children = Join i children (replicate (length children) False)"

definition for_ticks_node :: "string \<Rightarrow> nat \<Rightarrow> 'a behaviour \<Rightarrow> 'a behaviour" where
  "for_ticks_node i n child = ForTicks i n 0 child"

definition wait_node :: "string \<Rightarrow> nat \<Rightarrow> 'a behaviour" where
  "wait_node i n = Wait i n 0"

subsection \<open>Halt\<close>

fun halt :: "('a, 'e) leaf_ops \<Rightarrow> 'a behaviour \<Rightarrow> 'a behaviour" where
  "halt fl (Sequence i children) = Sequence i (map (halt fl) children)"
| "halt fl (Selector i children) = Selector i (map (halt fl) children)"
| "halt fl (Join i children succeeded) = Join i (map (halt fl) children) (map (\<lambda>_. False) succeeded)"
| "halt fl (ForTicks i n elapsed child) = ForTicks i n 0 (halt fl child)"
| "halt fl (Wait i n elapsed) = Wait i n 0"
| "halt fl (Condition i e) = Condition i e"
| "halt fl (Action i a) = Action i (la_reset fl a)"

subsection \<open>Tick\<close>

type_synonym ('a, 'e) ticker = "'e \<Rightarrow> status \<times> 'a behaviour \<times> 'e"

fun tick_sequence :: "('a, 'e) leaf_ops \<Rightarrow> ('a behaviour \<times> ('a, 'e) ticker) list \<Rightarrow> 'e \<Rightarrow> status \<times> 'a behaviour list \<times> 'e" where
  "tick_sequence fl [] out = (Success, [], out)"
| "tick_sequence fl ((c, t) # cs) out =
     (case t out of
        (Success, c', out1) \<Rightarrow> (case tick_sequence fl cs out1 of (s, cs', out2) \<Rightarrow> (s, c' # cs', out2))
      | (s, c', out1) \<Rightarrow> (s, c' # map (\<lambda>(d, _). halt fl d) cs, out1))"

fun tick_selector :: "('a, 'e) leaf_ops \<Rightarrow> ('a behaviour \<times> ('a, 'e) ticker) list \<Rightarrow> 'e \<Rightarrow> status \<times> 'a behaviour list \<times> 'e" where
  "tick_selector fl [] out = (Failure, [], out)"
| "tick_selector fl ((c, t) # cs) out =
     (case t out of
        (Failure, c', out1) \<Rightarrow> (case tick_selector fl cs out1 of (s, cs', out2) \<Rightarrow> (s, c' # cs', out2))
      | (s, c', out1) \<Rightarrow> (s, c' # map (\<lambda>(d, _). halt fl d) cs, out1))"

text \<open>The loop of a join up to the first failure: whether a child failed, the children and the succeeded-set.\<close>

fun join_loop :: "('a behaviour \<times> ('a, 'e) ticker) list \<Rightarrow> bool list \<Rightarrow> 'e \<Rightarrow> bool \<times> 'a behaviour list \<times> bool list \<times> 'e" where
  "join_loop ((c, t) # cs) (s # ss) out =
     (if s then (case join_loop cs ss out of (failed, cs', ss', out') \<Rightarrow> (failed, c # cs', s # ss', out'))
      else
        (case t out of
           (Failure, c', out1) \<Rightarrow> (True, c' # map fst cs, s # ss, out1)
         | (st, c', out1) \<Rightarrow>
             (case join_loop cs ss out1 of (failed, cs', ss', out2) \<Rightarrow> (failed, c' # cs', (st = Success) # ss', out2))))"
| "join_loop cs ss out = (False, map fst cs, ss, out)"

definition tick_join ::
  "('a, 'e) leaf_ops \<Rightarrow> ('a behaviour \<times> ('a, 'e) ticker) list \<Rightarrow> bool list \<Rightarrow> 'e \<Rightarrow> status \<times> 'a behaviour list \<times> bool list \<times> 'e" where
  "tick_join fl cs succeeded out =
     (case join_loop cs succeeded out of
        (True, cs', ss', out') \<Rightarrow> (Failure, map (halt fl) cs', map (\<lambda>_. False) ss', out')
      | (False, cs', ss', out') \<Rightarrow>
          if list_all id ss' then (Success, cs', map (\<lambda>_. False) ss', out') else (Running, cs', ss', out'))"

definition tick_for_ticks :: "('a, 'e) leaf_ops \<Rightarrow> nat \<Rightarrow> nat \<Rightarrow> 'a behaviour \<Rightarrow> ('a, 'e) ticker \<Rightarrow> 'e \<Rightarrow> status \<times> nat \<times> 'a behaviour \<times> 'e" where
  "tick_for_ticks fl n elapsed child t out =
     (if elapsed \<ge> n then (Success, elapsed, halt fl child, out)
      else
        (case t out of
           (Running, child', out') \<Rightarrow>
             if elapsed + 1 < n then (Running, elapsed + 1, child', out') else (Success, elapsed + 1, halt fl child', out')
         | (terminal, child', out') \<Rightarrow> (terminal, elapsed + 1, child', out')))"

definition tick_wait :: "nat \<Rightarrow> nat \<Rightarrow> status \<times> nat" where
  "tick_wait n elapsed = (if elapsed \<ge> n then (Success, elapsed) else (Running, elapsed + 1))"

text \<open>The live overrides addressed to a leaf: the keys that begin with its id and a dot are one range of the ordered map.\<close>

definition action_overrides :: "tick_ctx \<Rightarrow> string \<Rightarrow> (string \<times> toml_value) list" where
  "action_overrides ctx i =
     (case tc_action_params ctx of
        None \<Rightarrow> []
      | Some store \<Rightarrow>
          let prefix = i @ ''.''
          in map (\<lambda>(k, v). (drop (length prefix) k, v))
               (takeWhile (\<lambda>(k, _). starts_with prefix k) (dropWhile (\<lambda>(k, _). k < prefix) (entries store))))"

definition apply_action_overrides :: "('a, 'e) leaf_ops \<Rightarrow> string \<Rightarrow> 'a \<Rightarrow> tick_ctx \<Rightarrow> 'a" where
  "apply_action_overrides fl i a ctx = foldl (\<lambda>a (field, v). la_set_param fl a field v) a (action_overrides ctx i)"

fun tick :: "('a, 'e) leaf_ops \<Rightarrow> tick_ctx \<Rightarrow> 'a behaviour \<Rightarrow> ('a, 'e) ticker" where
  "tick fl ctx (Sequence i children) out =
     (case tick_sequence fl (map (\<lambda>c. (c, tick fl ctx c)) children) out of (s, cs, out') \<Rightarrow> (s, Sequence i cs, out'))"
| "tick fl ctx (Selector i children) out =
     (case tick_selector fl (map (\<lambda>c. (c, tick fl ctx c)) children) out of (s, cs, out') \<Rightarrow> (s, Selector i cs, out'))"
| "tick fl ctx (Join i children succeeded) out =
     (case tick_join fl (map (\<lambda>c. (c, tick fl ctx c)) children) succeeded out of (s, cs, ss, out') \<Rightarrow> (s, Join i cs ss, out'))"
| "tick fl ctx (ForTicks i n elapsed child) out =
     (case tick_for_ticks fl n elapsed child (tick fl ctx child) out of (s, elapsed', child', out') \<Rightarrow> (s, ForTicks i n elapsed' child', out'))"
| "tick fl ctx (Wait i n elapsed) out = (case tick_wait n elapsed of (s, elapsed') \<Rightarrow> (s, Wait i n elapsed', out))"
| "tick fl ctx (Condition i e) out = (if eval_with ctx e then Success else Failure, Condition i e, out)"
| "tick fl ctx (Action i a) out =
     (case la_contribute fl (apply_action_overrides fl i a ctx) ctx out of (s, a', out') \<Rightarrow> (s, Action i a', out'))"

record 'a behaviour_tree =
  bt_name :: string
  bt_seed :: nat
  bt_root :: "'a behaviour"

definition tree_halt :: "('a, 'e) leaf_ops \<Rightarrow> 'a behaviour_tree \<Rightarrow> 'a behaviour_tree" where
  "tree_halt fl t = t\<lparr>bt_root := halt fl (bt_root t)\<rparr>"

definition tree_tick :: "('a, 'e) leaf_ops \<Rightarrow> 'e \<Rightarrow> tick_ctx \<Rightarrow> 'a behaviour_tree \<Rightarrow> status \<times> 'e \<times> 'a behaviour_tree" where
  "tree_tick fl honest ctx t = (case tick fl ctx (bt_root t) honest of (s, b, out) \<Rightarrow> (s, out, t\<lparr>bt_root := b\<rparr>))"

subsection \<open>The invariant of a tree\<close>

text \<open>A join remembers one flag per child, and an elapsed count stays within its bound.\<close>

fun tree_ok :: "'a behaviour \<Rightarrow> bool" where
  "tree_ok (Sequence i children) \<longleftrightarrow> list_all tree_ok children"
| "tree_ok (Selector i children) \<longleftrightarrow> list_all tree_ok children"
| "tree_ok (Join i children succeeded) \<longleftrightarrow> length succeeded = length children \<and> list_all tree_ok children"
| "tree_ok (ForTicks i n elapsed child) \<longleftrightarrow> elapsed \<le> n \<and> tree_ok child"
| "tree_ok (Wait i n elapsed) \<longleftrightarrow> elapsed \<le> n"
| "tree_ok (Condition i e) \<longleftrightarrow> True"
| "tree_ok (Action i a) \<longleftrightarrow> True"

text \<open>What no tick changes: the nodes, their ids, counts and conditions.\<close>

fun shape :: "'a behaviour \<Rightarrow> unit behaviour" where
  "shape (Sequence i children) = Sequence i (map shape children)"
| "shape (Selector i children) = Selector i (map shape children)"
| "shape (Join i children succeeded) = Join i (map shape children) []"
| "shape (ForTicks i n elapsed child) = ForTicks i n 0 (shape child)"
| "shape (Wait i n elapsed) = Wait i n 0"
| "shape (Condition i e) = Condition i e"
| "shape (Action i a) = Action i ()"

lemma halt_ok: "tree_ok b \<Longrightarrow> tree_ok (halt fl b)"
  by (induction b) (auto simp: list_all_iff)

lemma shape_halt: "shape (halt fl b) = shape b"
  by (induction b) auto

text \<open>A relation between children before and after holds for every loop if it holds for the ticks and for halting.\<close>

definition ticks_keep :: "('a behaviour \<Rightarrow> 'a behaviour \<Rightarrow> bool) \<Rightarrow> ('a behaviour \<times> ('a, 'e) ticker) list \<Rightarrow> bool" where
  "ticks_keep R cs \<longleftrightarrow> (\<forall>(c, t)\<in>set cs. \<forall>out. R c (fst (snd (t out))))"

lemma ticks_keep_Cons [simp]: "ticks_keep R ((c, t) # cs) \<longleftrightarrow> (\<forall>out. R c (fst (snd (t out)))) \<and> ticks_keep R cs"
  by (auto simp: ticks_keep_def)

lemma ticks_keepD: "\<forall>out. R c (fst (snd (t out))) \<Longrightarrow> t out = (s, c', out1) \<Longrightarrow> R c c'"
  by (metis fst_conv snd_conv)

lemma list_all2_halt: "(\<And>c. R c (halt fl c)) \<Longrightarrow> list_all2 R (map fst cs) (map (\<lambda>(d, _). halt fl d) cs)"
  by (induction cs) auto

lemma tick_sequence_keeps:
  assumes "ticks_keep R cs" and "\<And>c. R c (halt fl c)"
  shows "list_all2 R (map fst cs) (fst (snd (tick_sequence fl cs out)))"
  using assms(1)
proof (induction cs arbitrary: out)
  case (Cons ct cs)
  obtain c t where ct: "ct = (c, t)" by fastforce
  obtain s c' out1 where t: "t out = (s, c', out1)" by (metis prod_cases3)
  have "R c c'" using Cons.prems ticks_keepD [of R c t out, OF _ t] ct by auto
  moreover have "list_all2 R (map fst cs) (fst (snd (tick_sequence fl cs out1)))" using Cons ct by auto
  ultimately show ?case using t ct list_all2_halt [of R fl cs, OF assms(2)] by (cases s) (auto simp: case_prod_unfold)
qed simp

lemma tick_selector_keeps:
  assumes "ticks_keep R cs" and "\<And>c. R c (halt fl c)"
  shows "list_all2 R (map fst cs) (fst (snd (tick_selector fl cs out)))"
  using assms(1)
proof (induction cs arbitrary: out)
  case (Cons ct cs)
  obtain c t where ct: "ct = (c, t)" by fastforce
  obtain s c' out1 where t: "t out = (s, c', out1)" by (metis prod_cases3)
  have "R c c'" using Cons.prems ticks_keepD [of R c t out, OF _ t] ct by auto
  moreover have "list_all2 R (map fst cs) (fst (snd (tick_selector fl cs out1)))" using Cons ct by auto
  ultimately show ?case using t ct list_all2_halt [of R fl cs, OF assms(2)] by (cases s) (auto simp: case_prod_unfold)
qed simp

lemma join_loop_keeps:
  assumes "ticks_keep R cs" and "\<And>c. R c c"
  shows "list_all2 R (map fst cs) (fst (snd (join_loop cs ss out))) \<and> length (fst (snd (snd (join_loop cs ss out)))) = length ss"
  using assms(1)
proof (induction cs ss out rule: join_loop.induct)
  case (1 c t cs s ss out)
  have refl: "list_all2 R ds ds" for ds using assms(2) by (induction ds) auto
  obtain st c' out1 where t: "t out = (st, c', out1)" by (metis prod_cases3)
  have "R c c'" using "1.prems" ticks_keepD [of R c t out, OF _ t] by auto
  moreover have "\<not> s \<Longrightarrow> st \<noteq> Failure \<Longrightarrow> list_all2 R (map fst cs) (fst (snd (join_loop cs ss out1))) \<and> length (fst (snd (snd (join_loop cs ss out1)))) = length ss"
    using "1.IH"(2,3) t "1.prems" by (cases st) auto
  moreover have "s \<Longrightarrow> list_all2 R (map fst cs) (fst (snd (join_loop cs ss out))) \<and> length (fst (snd (snd (join_loop cs ss out)))) = length ss"
    using "1.IH"(1) "1.prems" by auto
  ultimately show ?case using t assms(2) refl by (cases s; cases st) (auto simp: case_prod_unfold)
qed (auto intro: list_all2_refl assms(2))

lemma list_all2_shape: "list_all2 (\<lambda>b b'. (tree_ok b \<longrightarrow> tree_ok b') \<and> shape b' = shape b) cs cs' \<Longrightarrow>
  (list_all tree_ok cs \<longrightarrow> list_all tree_ok cs') \<and> map shape cs' = map shape cs \<and> length cs' = length cs"
  by (induction cs cs' rule: list_all2_induct) auto

lemma map_fst_tickers [simp]: "map fst (map (\<lambda>c. (c, f c)) cs) = cs"
  by (simp add: comp_def)

lemma tick_keeps_ok: "(tree_ok b \<longrightarrow> tree_ok (fst (snd (tick fl ctx b out)))) \<and> shape (fst (snd (tick fl ctx b out))) = shape b"
proof (induction b arbitrary: out)
  case (Sequence i children)
  let ?R = "\<lambda>b b'. (tree_ok b \<longrightarrow> tree_ok b') \<and> shape b' = shape b"
  have "ticks_keep ?R (map (\<lambda>c. (c, tick fl ctx c)) children)" using Sequence by (auto simp: ticks_keep_def)
  from list_all2_shape [OF tick_sequence_keeps [OF this, of fl out]] show ?case by (simp add: halt_ok shape_halt case_prod_unfold comp_def)
next
  case (Selector i children)
  let ?R = "\<lambda>b b'. (tree_ok b \<longrightarrow> tree_ok b') \<and> shape b' = shape b"
  have "ticks_keep ?R (map (\<lambda>c. (c, tick fl ctx c)) children)" using Selector by (auto simp: ticks_keep_def)
  from list_all2_shape [OF tick_selector_keeps [OF this, of fl out]] show ?case by (simp add: halt_ok shape_halt case_prod_unfold comp_def)
next
  case (Join i children succeeded)
  let ?R = "\<lambda>b b'. (tree_ok b \<longrightarrow> tree_ok b') \<and> shape b' = shape b"
  let ?j = "join_loop (map (\<lambda>c. (c, tick fl ctx c)) children) succeeded out"
  have "ticks_keep ?R (map (\<lambda>c. (c, tick fl ctx c)) children)" using Join by (auto simp: ticks_keep_def)
  from join_loop_keeps [OF this, of succeeded out]
  have "(list_all tree_ok children \<longrightarrow> list_all tree_ok (fst (snd ?j))) \<and> map shape (fst (snd ?j)) = map shape children \<and> length (fst (snd ?j)) = length children"
    and "length (fst (snd (snd ?j))) = length succeeded"
    using list_all2_shape by (auto simp: comp_def)
  moreover have "list_all tree_ok cs \<Longrightarrow> list_all tree_ok (map (halt fl) cs)" for cs
    by (auto simp: halt_ok list_all_iff)
  ultimately show ?case by (auto simp: tick_join_def case_prod_unfold comp_def shape_halt split: bool.splits)
next
  case (ForTicks i n elapsed child)
  obtain s c out' where t: "tick fl ctx child out = (s, c, out')" by (metis prod_cases3)
  show ?case using ForTicks [of out] t by (cases s) (auto simp: tick_for_ticks_def halt_ok shape_halt)
qed (auto simp: tick_wait_def case_prod_unfold)

subsection \<open>The contract of a leaf\<close>

text \<open>What the trait promises: \<open>reset\<close> drops all progress, and contributing makes only progress.\<close>

locale leaf_contract =
  fixes fl :: "('a, 'e) leaf_ops"
  assumes reset_reset: "la_reset fl (la_reset fl a) = la_reset fl a"
    and reset_contribute: "la_reset fl (fst (snd (la_contribute fl a ctx out))) = la_reset fl a"
begin

lemma halt_halt: "halt fl (halt fl b) = halt fl b"
  by (induction b) (auto simp: reset_reset)

lemma list_all2_halt_eq: "list_all2 (\<lambda>b b'. halt fl b' = halt fl b) cs cs' \<Longrightarrow> map (halt fl) cs' = map (halt fl) cs"
  by (induction cs cs' rule: list_all2_induct) auto

text \<open>Halting forgets whatever ticks have done, when no live override has retuned a leaf.\<close>

lemma halt_tick:
  assumes "tc_action_params ctx = None"
  shows "tree_ok b \<Longrightarrow> halt fl (fst (snd (tick fl ctx b out))) = halt fl b"
proof (induction b arbitrary: out)
  case (Sequence i children)
  have "ticks_keep (\<lambda>b b'. halt fl b' = halt fl b) (map (\<lambda>c. (c, tick fl ctx c)) children)" using Sequence by (auto simp: ticks_keep_def list_all_iff)
  from list_all2_halt_eq [OF tick_sequence_keeps [OF this halt_halt, of out]] show ?case by (simp add: case_prod_unfold comp_def)
next
  case (Selector i children)
  have "ticks_keep (\<lambda>b b'. halt fl b' = halt fl b) (map (\<lambda>c. (c, tick fl ctx c)) children)" using Selector by (auto simp: ticks_keep_def list_all_iff)
  from list_all2_halt_eq [OF tick_selector_keeps [OF this halt_halt, of out]] show ?case by (simp add: case_prod_unfold comp_def)
next
  case (Join i children succeeded)
  let ?j = "join_loop (map (\<lambda>c. (c, tick fl ctx c)) children) succeeded out"
  have "ticks_keep (\<lambda>b b'. halt fl b' = halt fl b) (map (\<lambda>c. (c, tick fl ctx c)) children)" using Join by (auto simp: ticks_keep_def list_all_iff)
  from join_loop_keeps [OF this, of succeeded out] have j: "map (halt fl) (fst (snd ?j)) = map (halt fl) children"
    "length (fst (snd (snd ?j))) = length succeeded"
    using list_all2_halt_eq by (auto simp: comp_def)
  then have "map (\<lambda>_. False) (fst (snd (snd ?j))) = map (\<lambda>_. False) succeeded" by (simp add: map_replicate_const)
  then show ?case using j by (auto simp: tick_join_def case_prod_unfold comp_def halt_halt split: bool.splits)
next
  case (ForTicks i n elapsed child)
  obtain s c out' where t: "tick fl ctx child out = (s, c, out')" by (metis prod_cases3)
  show ?case using ForTicks t ForTicks.IH [of out] by (cases s) (auto simp: tick_for_ticks_def halt_halt)
next
  case (Action i a)
  have "apply_action_overrides fl i a ctx = a" using assms by (simp add: apply_action_overrides_def action_overrides_def)
  then show ?case using reset_contribute [of a ctx out] by (simp add: case_prod_unfold)
qed (auto simp: tick_wait_def case_prod_unfold)

end

subsection \<open>Runs\<close>

fun tree_run :: "('a, 'e) leaf_ops \<Rightarrow> 'e \<Rightarrow> tick_ctx list \<Rightarrow> 'a behaviour \<Rightarrow> (status \<times> 'e) list \<times> 'a behaviour" where
  "tree_run fl honest [] b = ([], b)"
| "tree_run fl honest (ctx # ctxs) b =
     (case tick fl ctx b honest of (s, b', out) \<Rightarrow> (case tree_run fl honest ctxs b' of (rest, b'') \<Rightarrow> ((s, out) # rest, b'')))"

text \<open>What a leaf alone writes when it is ticked once per context.\<close>

fun leaf_outputs :: "('a, 'e) leaf_ops \<Rightarrow> 'e \<Rightarrow> string \<Rightarrow> tick_ctx list \<Rightarrow> 'a \<Rightarrow> 'e list" where
  "leaf_outputs fl honest l [] a = []"
| "leaf_outputs fl honest l (ctx # ctxs) a =
     (case la_contribute fl (apply_action_overrides fl l a ctx) ctx honest of (s, a', out) \<Rightarrow> out # leaf_outputs fl honest l ctxs a')"

lemma tree_run_append:
  "tree_run fl h (xs @ ys) b = (fst (tree_run fl h xs b) @ fst (tree_run fl h ys (snd (tree_run fl h xs b))), snd (tree_run fl h ys (snd (tree_run fl h xs b))))"
  by (induction xs arbitrary: b) (auto simp: case_prod_unfold)

definition runs_on :: "('a, 'e) leaf_ops \<Rightarrow> ('a \<Rightarrow> bool) \<Rightarrow> bool" where
  "runs_on fl P \<longleftrightarrow> (\<forall>a ctx out. P a \<longrightarrow> fst (la_contribute fl a ctx out) = Running \<and> P (fst (snd (la_contribute fl a ctx out))))
     \<and> (\<forall>a field v. P a \<longrightarrow> P (la_set_param fl a field v)) \<and> (\<forall>a. P a \<longrightarrow> P (la_reset fl a))"

lemma runs_on_overrides: "runs_on fl P \<Longrightarrow> P a \<Longrightarrow> P (apply_action_overrides fl i a ctx)"
proof -
  assume r: "runs_on fl P" and a: "P a"
  have "P (foldl (\<lambda>a (field, v). la_set_param fl a field v) a xs)" for xs
    using a by (induction xs arbitrary: a) (use r in \<open>auto simp: runs_on_def\<close>)
  then show ?thesis by (simp add: apply_action_overrides_def)
qed

lemma wait_phase:
  "e + length ctxs \<le> n \<Longrightarrow> halt fl x = x \<Longrightarrow>
   tree_run fl h ctxs (Sequence i [Wait w n e, x]) = (replicate (length ctxs) (Running, h), Sequence i [Wait w n (e + length ctxs), x])"
  by (induction ctxs arbitrary: e) (auto simp: tick_wait_def)

lemma active_phase:
  assumes "runs_on fl P" and "P a" and "e + length ctxs \<le> k"
  shows "\<exists>a'. P a' \<and> map snd (fst (tree_run fl h ctxs (Sequence i [Wait w n n, ForTicks f k e (Action l a)]))) = leaf_outputs fl h l ctxs a
    \<and> snd (tree_run fl h ctxs (Sequence i [Wait w n n, ForTicks f k e (Action l a)])) = Sequence i [Wait w n n, ForTicks f k (e + length ctxs) (Action l a')]"
  using assms(2,3)
proof (induction ctxs arbitrary: e a)
  case (Cons ctx ctxs)
  obtain s a1 out where c: "la_contribute fl (apply_action_overrides fl l a ctx) ctx h = (s, a1, out)" by (metis prod_cases3)
  have r: "s = Running" "P a1" using assms(1) runs_on_overrides [OF assms(1) Cons.prems(1), of l ctx] c by (auto simp: runs_on_def dest: spec [of _ h])
     (metis fst_conv snd_conv)+
  define a2 where "a2 = (if e + 1 < k then a1 else la_reset fl a1)"
  have a2: "P a2" using r(2) assms(1) by (auto simp: a2_def runs_on_def)
  have t: "\<exists>st. tick fl ctx (Sequence i [Wait w n n, ForTicks f k e (Action l a)]) h = (st, Sequence i [Wait w n n, ForTicks f k (e + 1) (Action l a2)], out)"
    using c r(1) Cons.prems(2) by (auto simp: tick_wait_def tick_for_ticks_def a2_def)
  show ?case
  proof (cases "e + 1 < k")
    case True
    then have "a2 = a1" by (simp add: a2_def)
    then show ?thesis using t c Cons.IH [OF a2, of "e + 1"] Cons.prems(2) by (auto simp: case_prod_unfold)
  next
    case False
    then have "ctxs = []" using Cons.prems(2) by (cases ctxs) auto
    then show ?thesis using t c a2 by auto
  qed
qed auto

lemma done_phase:
  "halt fl (halt fl x) = halt fl x \<Longrightarrow> map snd (fst (tree_run fl h ctxs (Sequence i [Wait w n n, ForTicks f k k x]))) = replicate (length ctxs) h"
proof (induction ctxs arbitrary: x)
  case (Cons ctx ctxs)
  then show ?case using Cons.IH [of "halt fl x"] by (simp add: tick_wait_def tick_for_ticks_def case_prod_unfold)
qed simp

lemma attack_window_run:
  assumes "runs_on fl P" and "P a" and "la_reset fl a = a" and "\<And>a. la_reset fl (la_reset fl a) = la_reset fl a" and "n + k \<le> length ctxs"
  shows "map snd (fst (tree_run fl h ctxs (Sequence i [wait_node w n, for_ticks_node f k (Action l a)]))) =
    replicate n h @ leaf_outputs fl h l (take k (drop n ctxs)) a @ replicate (length ctxs - n - k) h"
proof -
  let ?x = "ForTicks f k 0 (Action l a)"
  have split: "ctxs = take n ctxs @ take k (drop n ctxs) @ drop (n + k) ctxs" by (metis append_take_drop_id drop_drop add.commute)
  have l: "length (take n ctxs) = n" "length (take k (drop n ctxs)) = k" using assms(5) by auto
  have w: "tree_run fl h (take n ctxs) (Sequence i [Wait w n 0, ?x]) = (replicate n (Running, h), Sequence i [Wait w n n, ?x])"
    using wait_phase [of 0 "take n ctxs" n fl ?x h i w] l assms(3) by simp
  obtain a' where act: "map snd (fst (tree_run fl h (take k (drop n ctxs)) (Sequence i [Wait w n n, ?x]))) = leaf_outputs fl h l (take k (drop n ctxs)) a"
    "snd (tree_run fl h (take k (drop n ctxs)) (Sequence i [Wait w n n, ?x])) = Sequence i [Wait w n n, ForTicks f k k (Action l a')]"
    using active_phase [OF assms(1,2), of 0 "take k (drop n ctxs)" k h i w n f l] l by auto
  have d: "map snd (fst (tree_run fl h (drop (n + k) ctxs) (Sequence i [Wait w n n, ForTicks f k k (Action l a')]))) = replicate (length ctxs - n - k) h"
    using done_phase [of fl "Action l a'" h "drop (n + k) ctxs" i w n f k] assms(4) by simp
  show ?thesis
    by (subst split) (simp add: tree_run_append w act d wait_node_def for_ticks_node_def)
qed

subsection \<open>Live overrides\<close>

lemma prefix_between: "p \<le> k \<Longrightarrow> k \<le> p @ t \<Longrightarrow> starts_with p k" for p :: string
proof (induction p arbitrary: k)
  case (Cons c p)
  then obtain ks where k: "k = c # ks" by (cases k) auto
  then have "p \<le> ks" "ks \<le> p @ t" using Cons.prems by simp_all
  from Cons.IH [OF this] show ?case by (simp add: k starts_with_def)
qed (simp add: starts_with_def)

lemma prefix_le: "p \<le> p @ t" for p :: string
  by (induction p) auto

lemma takeWhile_range:
  fixes p :: string
  assumes "sorted (map fst es)"
  shows "takeWhile (\<lambda>(k, _). starts_with p k) (dropWhile (\<lambda>(k, _). k < p) es) = filter (\<lambda>(k, _). starts_with p k) es"
  using assms
proof (induction es)
  case (Cons e es)
  obtain k v where e: "e = (k, v)" by fastforce
  have later: "k \<le> k'" if "(k', v') \<in> set es" for k' v' using Cons.prems e that by force
  show ?case
  proof (cases "k < p")
    case True
    then have "\<not> starts_with p k" using prefix_le starts_withE by (metis leD)
    then show ?thesis using Cons True e by simp
  next
    case False
    then have p: "p \<le> k" by simp
    have all: "\<forall>x\<in>set es. \<not> (fst x < p)" using p later by (metis leD le_less_trans prod.collapse)
    then have drop: "dropWhile (\<lambda>(k, _). k < p) es = es" by (cases es) auto
    show ?thesis
    proof (cases "starts_with p k")
      case True
      then show ?thesis using Cons False e drop by simp
    next
      case F: False
      have "\<not> starts_with p k'" if "(k', v') \<in> set es" for k' v'
        using F prefix_between [OF p] later [OF that] starts_withE by metis
      then have "filter (\<lambda>(k, _). starts_with p k) es = []" by (auto simp: filter_empty_conv)
      then show ?thesis using False F e by simp
    qed
  qed
qed simp

lemma action_overrides_exact:
  "action_overrides ctx i = (case tc_action_params ctx of None \<Rightarrow> []
     | Some store \<Rightarrow> map (\<lambda>(k, v). (drop (length i + 1) k, v)) (filter (\<lambda>(k, _). starts_with (i @ ''.'') k) (entries store)))"
proof -
  have "sorted (map fst (entries store))" for store :: "(string, toml_value) omap"
    using sorted_entries [of store] by (simp add: strict_sorted_imp_sorted)
  then show ?thesis by (simp add: action_overrides_def takeWhile_range split: option.splits)
qed

subsection \<open>Safety of leaves and effects\<close>

text \<open>A property of leaves and one of effects that every leaf operation keeps hold over any tick of any tree.\<close>

definition leaves_safe :: "('a, 'e) leaf_ops \<Rightarrow> ('a \<Rightarrow> bool) \<Rightarrow> ('e \<Rightarrow> bool) \<Rightarrow> bool" where
  "leaves_safe fl P Q \<longleftrightarrow>
     (\<forall>a ctx out. P a \<and> Q out \<longrightarrow> P (fst (snd (la_contribute fl a ctx out))) \<and> Q (snd (snd (la_contribute fl a ctx out))))
     \<and> (\<forall>a. P a \<longrightarrow> P (la_reset fl a)) \<and> (\<forall>a field v. P a \<longrightarrow> P (la_set_param fl a field v))"

definition all_leaves :: "('a \<Rightarrow> bool) \<Rightarrow> 'a behaviour \<Rightarrow> bool" where
  "all_leaves P b \<longleftrightarrow> (\<forall>a\<in>set_behaviour b. P a)"

lemma all_leaves_simps [simp]:
  "all_leaves P (Sequence i cs) \<longleftrightarrow> list_all (all_leaves P) cs" "all_leaves P (Selector i cs) \<longleftrightarrow> list_all (all_leaves P) cs"
  "all_leaves P (Join i cs ss) \<longleftrightarrow> list_all (all_leaves P) cs" "all_leaves P (ForTicks i n e c) \<longleftrightarrow> all_leaves P c"
  "all_leaves P (Wait i n e)" "all_leaves P (Condition i cond)" "all_leaves P (Action i a) \<longleftrightarrow> P a"
  by (auto simp: all_leaves_def list_all_iff)

lemma halt_leaves: "leaves_safe fl P Q \<Longrightarrow> all_leaves P b \<Longrightarrow> all_leaves P (halt fl b)"
  by (induction b) (auto simp: list_all_iff leaves_safe_def)

definition ticks_safe :: "('a \<Rightarrow> bool) \<Rightarrow> ('e \<Rightarrow> bool) \<Rightarrow> ('a behaviour \<times> ('a, 'e) ticker) list \<Rightarrow> bool" where
  "ticks_safe P Q cs \<longleftrightarrow> (\<forall>(c, t)\<in>set cs. all_leaves P c \<and> (\<forall>out. Q out \<longrightarrow> all_leaves P (fst (snd (t out))) \<and> Q (snd (snd (t out)))))"

lemma ticks_safeD: "ticks_safe P Q ((c, t) # cs) \<Longrightarrow> t out = (s, c', out') \<Longrightarrow> Q out \<Longrightarrow> all_leaves P c \<and> all_leaves P c' \<and> Q out' \<and> ticks_safe P Q cs"
  by (fastforce simp: ticks_safe_def)

lemma ticks_safe_leaves: "ticks_safe P Q cs \<Longrightarrow> list_all (all_leaves P) (map fst cs)"
  by (auto simp: ticks_safe_def list_all_iff)

lemma tick_sequence_safe:
  "leaves_safe fl P Q \<Longrightarrow> ticks_safe P Q cs \<Longrightarrow> Q out \<Longrightarrow>
   list_all (all_leaves P) (fst (snd (tick_sequence fl cs out))) \<and> Q (snd (snd (tick_sequence fl cs out)))"
proof (induction cs arbitrary: out)
  case (Cons ct cs)
  obtain c t where ct: "ct = (c, t)" by fastforce
  obtain s c' out1 where t: "t out = (s, c', out1)" by (metis prod_cases3)
  have d: "all_leaves P c'" "Q out1" "ticks_safe P Q cs" using ticks_safeD [of P Q c t cs out, OF _ t] Cons.prems ct by auto
  have "list_all (all_leaves P) (map (\<lambda>(d, _). halt fl d) cs)" using ticks_safe_leaves [OF d(3)] halt_leaves [OF Cons.prems(1)] by (fastforce simp: list_all_iff)
  then show ?case using Cons.IH [OF Cons.prems(1) d(3,2)] d t ct by (cases s) (auto simp: case_prod_unfold)
qed simp

lemma tick_selector_safe:
  "leaves_safe fl P Q \<Longrightarrow> ticks_safe P Q cs \<Longrightarrow> Q out \<Longrightarrow>
   list_all (all_leaves P) (fst (snd (tick_selector fl cs out))) \<and> Q (snd (snd (tick_selector fl cs out)))"
proof (induction cs arbitrary: out)
  case (Cons ct cs)
  obtain c t where ct: "ct = (c, t)" by fastforce
  obtain s c' out1 where t: "t out = (s, c', out1)" by (metis prod_cases3)
  have d: "all_leaves P c'" "Q out1" "ticks_safe P Q cs" using ticks_safeD [of P Q c t cs out, OF _ t] Cons.prems ct by auto
  have "list_all (all_leaves P) (map (\<lambda>(d, _). halt fl d) cs)" using ticks_safe_leaves [OF d(3)] halt_leaves [OF Cons.prems(1)] by (fastforce simp: list_all_iff)
  then show ?case using Cons.IH [OF Cons.prems(1) d(3,2)] d t ct by (cases s) (auto simp: case_prod_unfold)
qed simp

lemma join_loop_safe:
  "ticks_safe P Q cs \<Longrightarrow> Q out \<Longrightarrow>
   list_all (all_leaves P) (fst (snd (join_loop cs ss out))) \<and> Q (snd (snd (snd (join_loop cs ss out))))"
proof (induction cs ss out rule: join_loop.induct)
  case (1 c t cs s ss out)
  obtain st c' out1 where t: "t out = (st, c', out1)" by (metis prod_cases3)
  have d: "all_leaves P c" "all_leaves P c'" "Q out1" "ticks_safe P Q cs" using ticks_safeD [OF "1.prems"(1) t "1.prems"(2)] by auto
  show ?case
  proof (cases s)
    case True
    then show ?thesis using "1.IH"(1) d "1.prems"(2) by (simp add: case_prod_unfold)
  next
    case False
    then show ?thesis using "1.IH"(2,3) t d ticks_safe_leaves [OF d(4)] by (cases st) (auto simp: case_prod_unfold)
  qed
qed (auto simp: ticks_safe_leaves)

lemma overrides_safe: "leaves_safe fl P Q \<Longrightarrow> P a \<Longrightarrow> P (apply_action_overrides fl i a ctx)"
proof -
  assume r: "leaves_safe fl P Q" and a: "P a"
  have "P (foldl (\<lambda>a (field, v). la_set_param fl a field v) a xs)" for xs
    using a by (induction xs arbitrary: a) (use r in \<open>auto simp: leaves_safe_def\<close>)
  then show ?thesis by (simp add: apply_action_overrides_def)
qed

lemma tick_safe:
  assumes "leaves_safe fl P Q"
  shows "all_leaves P b \<Longrightarrow> Q out \<Longrightarrow> all_leaves P (fst (snd (tick fl ctx b out))) \<and> Q (snd (snd (tick fl ctx b out)))"
proof (induction b arbitrary: out)
  case (Sequence i children)
  have "ticks_safe P Q (map (\<lambda>c. (c, tick fl ctx c)) children)" using Sequence by (auto simp: ticks_safe_def list_all_iff)
  from tick_sequence_safe [OF assms this Sequence.prems(2)] show ?case by (simp add: case_prod_unfold)
next
  case (Selector i children)
  have "ticks_safe P Q (map (\<lambda>c. (c, tick fl ctx c)) children)" using Selector by (auto simp: ticks_safe_def list_all_iff)
  from tick_selector_safe [OF assms this Selector.prems(2)] show ?case by (simp add: case_prod_unfold)
next
  case (Join i children succeeded)
  have "ticks_safe P Q (map (\<lambda>c. (c, tick fl ctx c)) children)" using Join by (auto simp: ticks_safe_def list_all_iff)
  from join_loop_safe [OF this Join.prems(2), of succeeded] halt_leaves [OF assms] show ?case
    by (auto simp: tick_join_def case_prod_unfold list_all_iff split: bool.splits)
next
  case (ForTicks i n elapsed child)
  obtain s c out' where t: "tick fl ctx child out = (s, c, out')" by (metis prod_cases3)
  show ?case using ForTicks t ForTicks.IH [of out] halt_leaves [OF assms] by (cases s) (auto simp: tick_for_ticks_def)
next
  case (Action i a)
  then show ?case using overrides_safe [OF assms, of a i ctx] assms by (auto simp: leaves_safe_def case_prod_unfold)
qed (auto simp: tick_wait_def case_prod_unfold)

lemma tree_run_safe:
  assumes "leaves_safe fl P Q" and "Q h"
  shows "all_leaves P b \<Longrightarrow> all_leaves P (snd (tree_run fl h ctxs b)) \<and> (\<forall>x\<in>set (fst (tree_run fl h ctxs b)). Q (snd x))"
proof (induction ctxs arbitrary: b)
  case (Cons ctx ctxs)
  then show ?case using tick_safe [OF assms(1) Cons.prems assms(2), of ctx] by (auto simp: case_prod_unfold)
qed simp

lemma tree_run_ok: "tree_ok b \<Longrightarrow> tree_ok (snd (tree_run fl h ctxs b)) \<and> shape (snd (tree_run fl h ctxs b)) = shape b"
proof (induction ctxs arbitrary: b)
  case (Cons ctx ctxs)
  then show ?case using tick_keeps_ok [of b fl ctx h] Cons.IH by (simp add: case_prod_unfold)
qed simp

subsection \<open>A guarded branch\<close>

text \<open>The usual top of a tree: an attack behind a condition, with a fallback. The condition is checked again on every tick, and
  when it does not hold the whole attack is stopped and reset.\<close>

lemma guarded_tick:
  "tick fl ctx (Selector s [Sequence q [Condition g c, x], y]) out =
     (if \<not> eval_with ctx c then
        (case tick fl ctx y out of (st, y', out') \<Rightarrow> (st, Selector s [Sequence q [Condition g c, halt fl x], y'], out'))
      else
        (case tick fl ctx x out of
           (Failure, x', out1) \<Rightarrow> (case tick fl ctx y out1 of (st, y', out2) \<Rightarrow> (st, Selector s [Sequence q [Condition g c, x'], y'], out2))
         | (st, x', out1) \<Rightarrow> (st, Selector s [Sequence q [Condition g c, x'], halt fl y], out1)))"
  by (auto split: prod.splits status.splits)

end
