(* ===== verification/Behaviour_Actions.thy ===== *)
theory Behaviour_Actions
  imports Behaviour_Tree Leios Leios_Server Chain_Server
begin

text \<open>
  \<open>shared-rs/consensus/src/behaviour/tree/control.rs\<close>, \<open>tree/actions.rs\<close>, \<open>behaviour/registry.rs\<close> and \<open>behaviour/actions/\<close>: the
  control signal a tick writes, and the catalogue of leaf actions with their parameters, contributions, resets and live
  retuning.

  \<^item> Parameters keep the width of their fields; TOML integers and the signed slot offset are \<open>int\<close>, and \<open>i32\<close> offsets are kept
    in their 32 bits.
  \<^item> The state machines of Praos and Leios keep the fields of the signal they read (\<open>praos_control\<close>, \<open>leios_control\<close>); here are all of them.
  \<^item> Blake2b is a parameter: the 64-bit draw of \<open>drop-inbound-peers\<close> from a seed and a slot.
  \<^item> The deserialisation of an \<open>ActionSpec\<close> from its table is the library's; \<open>build_action\<close> starts from the specification.
\<close>

subsection \<open>The control signal\<close>

datatype rb_production_strategy = ProduceNormal | ProduceSuppress | ProduceEquivocate u8

datatype corruption = CorruptTruncate | CorruptGarbage | CorruptZeroBody | CorruptBadType

datatype fake_eb_kind =
    FakePhantom u32
  | FakeDummy u32
  | FakeHollow u64
  | FakeLoaded u32
  | FakeMalformed corruption bool

datatype net_flood_kind = FloodEb | FloodPraos

definition parse_net_flood_kind :: "string \<Rightarrow> net_flood_kind option" where
  "parse_net_flood_kind s = (if s = ''eb'' then Some FloodEb else if s = ''praos'' then Some FloodPraos else None)"

record praos_signal =
  pr_production :: rb_production_strategy
  pr_outbound :: outbound_control
  pr_reorg_depth :: "u64 option"
  pr_drop_inbound :: bool
  pr_body_path :: "body_path option"
  pr_suppress_cert :: bool
  pr_forge_single_bls_cert :: bool
  pr_forge_wrong_len_cert :: bool
  pr_forge_wrong_context_cert :: bool
  pr_forge_non_member_cert :: bool
  pr_fake_eb :: "fake_eb_kind option"
  pr_rb_blacklist_tip :: hash32
  pr_rb_blacklist_offset :: u64

record leios_signal =
  le_vote :: vote_policy
  le_offer_eb_size :: eb_size_policy
  le_echo_to_source :: bool
  le_announce_eb_size :: eb_size_policy
  le_announce_dangling :: bool
  le_announce_equivocate :: bool
  le_fake_announce :: bool
  le_withhold_announce :: bool
  le_announce_slot_offset :: int
  le_announce_flood_count :: u32
  le_vote_flood_count :: u32
  le_eb_burst_withhold_slots :: u32
  le_eb_burst_count :: u32
  le_eb_burst_n_txs :: u32
  le_fetch_flood_rate :: u32
  le_fetch_flood_window_slots :: u64
  le_net_flood_active :: bool
  le_net_flood_attack :: net_flood_kind
  le_net_flood_pools :: "string list"
  le_net_flood_connections_per_relay :: u32
  le_net_flood_range_width :: u32
  le_net_flood_tip_offset :: u32

record mempool_signal =
  me_tx_filter :: tx_filter_policy
  me_tx_withholding_filter :: tx_withholding_policy
  me_tx_flood_rate :: u32

record control_signal =
  cs_praos :: praos_signal
  cs_leios :: leios_signal
  cs_mempool :: mempool_signal

definition honest_signal :: control_signal where
  "honest_signal =
     \<lparr>cs_praos = \<lparr>pr_production = ProduceNormal, pr_outbound = OutboundNone, pr_reorg_depth = None, pr_drop_inbound = False, pr_body_path = None,
        pr_suppress_cert = False, pr_forge_single_bls_cert = False, pr_forge_wrong_len_cert = False, pr_forge_wrong_context_cert = False,
        pr_forge_non_member_cert = False, pr_fake_eb = None, pr_rb_blacklist_tip = 0, pr_rb_blacklist_offset = 0\<rparr>,
      cs_leios = \<lparr>le_vote = Honest, le_offer_eb_size = SizeHonest, le_echo_to_source = False, le_announce_eb_size = SizeHonest,
        le_announce_dangling = False, le_announce_equivocate = False, le_fake_announce = False, le_withhold_announce = False,
        le_announce_slot_offset = 0, le_announce_flood_count = 0, le_vote_flood_count = 0, le_eb_burst_withhold_slots = 0, le_eb_burst_count = 0,
        le_eb_burst_n_txs = 0, le_fetch_flood_rate = 0, le_fetch_flood_window_slots = 0, le_net_flood_active = False,
        le_net_flood_attack = FloodEb, le_net_flood_pools = [], le_net_flood_connections_per_relay = 0, le_net_flood_range_width = 0,
        le_net_flood_tip_offset = 0\<rparr>,
      cs_mempool = \<lparr>me_tx_filter = NoTxFilter, me_tx_withholding_filter = NoWithholding, me_tx_flood_rate = 0\<rparr>\<rparr>"

definition requires_tx_production :: "control_signal \<Rightarrow> bool" where
  "requires_tx_production s \<longleftrightarrow> s \<noteq> honest_signal"

subsection \<open>Actions and their specifications\<close>

datatype (plugins only: code) action_spec =
    SpecRbHeaderEquivocator u8
  | SpecLazyVoter no_vote_reason
  | SpecT22 u8 u8 bool
  | SpecWithholdTxs u64 bool bool bool
  | SpecDeepReorg u64 u64
  | SpecDropInboundPeers f64
  | SpecLieAboutEbSize u32 u32 u32
  | SpecEchoToSource
  | SpecCertSuppressor
  | SpecSingleBlsCert
  | SpecWrongLenCert
  | SpecWrongContextCert
  | SpecNonMemberCert
  | SpecPhantomTxEb u32
  | SpecDummyTxEb u32
  | SpecHollowEb u64
  | SpecLoadedTxEb u32
  | SpecMalformedEb corruption bool
  | SpecAnnounceSizeLie u32 u32 u32
  | SpecAnnounceDangling
  | SpecAnnounceEquivocate
  | SpecFakeAnnounce
  | SpecAnnounceSlotSkew int
  | SpecAnnounceFlood u32 int
  | SpecVoteFlood u32
  | SpecFetchFlood u32 u64
  | SpecNetFlood net_flood_kind "string list" u32 u32 u32
  | SpecEbBurst u32 u32 u32
  | SpecWithholdEbAnnounce
  | SpecTxFlood u32
  | SpecBlacklistBlocks u64

datatype (plugins only: code) leaf_action =
    HonestAction
  | RbHeaderEquivocator u8 u64
  | LazyVoter no_vote_reason
  | T22 u8 u8 bool
  | WithholdTxs u64 bool bool bool
  | DeepReorg u64 u64 u64
  | DropInboundPeers u64 f64
  | LieAboutEbSize u32 u32 u32
  | EchoToSource
  | CertSuppressor
  | SingleBlsCert
  | WrongLenCert
  | WrongContextCert
  | NonMemberCert
  | PhantomTxEb u32
  | DummyTxEb u32
  | HollowEb u64
  | LoadedTxEb u32
  | MalformedEb corruption bool
  | AnnounceSizeLie u32 u32 u32
  | AnnounceDangling
  | AnnounceEquivocate
  | FakeAnnounce
  | AnnounceSlotSkew int
  | AnnounceFlood u32 int
  | VoteFlood u32
  | FetchFlood u32 u64
  | NetFlood net_flood_kind "string list" u32 u32 u32
  | EbBurst u32 u32 u32
  | WithholdEbAnnounce
  | TxFlood u32
  | BlacklistBlocks u64

definition deep_reorg_new :: "u64 \<Rightarrow> u64 \<Rightarrow> leaf_action" where
  "deep_reorg_new every_slots depth = DeepReorg (max every_slots 1) depth (- 1)"

definition drop_inbound_new :: "u64 \<Rightarrow> f64 \<Rightarrow> leaf_action" where
  "drop_inbound_new seed probability = DropInboundPeers seed (f64_clamp (Fin 0) (Fin 1) probability)"

primrec build_action :: "action_spec \<Rightarrow> u64 \<Rightarrow> leaf_action" where
  "build_action (SpecRbHeaderEquivocator ways) seed = RbHeaderEquivocator (max ways 2) seed"
| "build_action (SpecLazyVoter reason) seed = LazyVoter reason"
| "build_action (SpecT22 vote non_voting hide) seed = T22 vote non_voting hide"
| "build_action (SpecWithholdTxs slots only_ours submission fetch) seed = WithholdTxs slots only_ours submission fetch"
| "build_action (SpecDeepReorg every_slots depth) seed = deep_reorg_new every_slots depth"
| "build_action (SpecDropInboundPeers probability) seed = drop_inbound_new seed probability"
| "build_action (SpecLieAboutEbSize num den offset) seed = LieAboutEbSize num (max den 1) offset"
| "build_action SpecEchoToSource seed = EchoToSource"
| "build_action SpecCertSuppressor seed = CertSuppressor"
| "build_action SpecSingleBlsCert seed = SingleBlsCert"
| "build_action SpecWrongLenCert seed = WrongLenCert"
| "build_action SpecWrongContextCert seed = WrongContextCert"
| "build_action SpecNonMemberCert seed = NonMemberCert"
| "build_action (SpecPhantomTxEb n) seed = PhantomTxEb n"
| "build_action (SpecDummyTxEb n) seed = DummyTxEb n"
| "build_action (SpecHollowEb declared) seed = HollowEb declared"
| "build_action (SpecLoadedTxEb n) seed = LoadedTxEb n"
| "build_action (SpecMalformedEb c hash_matches) seed = MalformedEb c hash_matches"
| "build_action (SpecAnnounceSizeLie num den offset) seed = AnnounceSizeLie num (max den 1) offset"
| "build_action SpecAnnounceDangling seed = AnnounceDangling"
| "build_action SpecAnnounceEquivocate seed = AnnounceEquivocate"
| "build_action SpecFakeAnnounce seed = FakeAnnounce"
| "build_action (SpecAnnounceSlotSkew offset) seed = AnnounceSlotSkew offset"
| "build_action (SpecAnnounceFlood n offset) seed = AnnounceFlood n offset"
| "build_action (SpecVoteFlood n) seed = VoteFlood n"
| "build_action (SpecFetchFlood rate window) seed = FetchFlood rate window"
| "build_action (SpecNetFlood attack pools conns width offset) seed = NetFlood attack pools conns width offset"
| "build_action (SpecEbBurst withhold n n_txs) seed = EbBurst withhold n n_txs"
| "build_action SpecWithholdEbAnnounce seed = WithholdEbAnnounce"
| "build_action (SpecTxFlood rate) seed = TxFlood rate"
| "build_action (SpecBlacklistBlocks offset) seed = BlacklistBlocks offset"

subsection \<open>Contributions\<close>

text \<open>\<open>hash_from_hex\<close>: pairs of bytes, each read by \<open>u8::from_str_radix\<close>, which also takes a plus sign and one digit.\<close>

definition hex_digit :: "char \<Rightarrow> nat option" where
  "hex_digit c =
     (let n = (of_char c :: nat)
      in if 48 \<le> n \<and> n \<le> 57 then Some (n - 48)
         else if 65 \<le> n \<and> n \<le> 70 then Some (n - 55)
         else if 97 \<le> n \<and> n \<le> 102 then Some (n - 87)
         else None)"

definition byte_from_hex :: "char \<Rightarrow> char \<Rightarrow> nat option" where
  "byte_from_hex a b =
     (if a = CHR ''+'' then hex_digit b
      else case (hex_digit a, hex_digit b) of (Some x, Some y) \<Rightarrow> Some (16 * x + y) | _ \<Rightarrow> None)"

fun bytes_from_hex :: "nat \<Rightarrow> string \<Rightarrow> nat option" where
  "bytes_from_hex acc (a # b # s) = (case byte_from_hex a b of None \<Rightarrow> None | Some x \<Rightarrow> bytes_from_hex (256 * acc + x) s)"
| "bytes_from_hex acc s = Some acc"

definition hash_from_hex :: "string \<Rightarrow> hash32 option" where
  "hash_from_hex s = (if length s \<noteq> 64 then None else map_option of_nat (bytes_from_hex 0 s))"

text \<open>Whether a reorganisation is due, and the slot to remember.\<close>

definition reorg_due :: "u64 \<Rightarrow> u64 \<Rightarrow> u64 \<Rightarrow> u64 \<Rightarrow> bool" where
  "reorg_due every_slots depth last_fired slot \<longleftrightarrow> \<not> (depth = 0 \<or> slot = 0) \<and> slot mod every_slots = 0 \<and> slot \<noteq> last_fired"

definition inbound_draws :: "(u64 \<Rightarrow> u64 \<Rightarrow> u64) \<Rightarrow> u64 \<Rightarrow> f64 \<Rightarrow> u64 \<Rightarrow> bool" where
  "inbound_draws blake seed probability slot =
     (if f64_le probability (Fin 0) \<or> slot = 0 then False
      else if f64_le (Fin 1) probability then True
      else f64_lt (f64_div (f64_of_nat (unat (blake seed slot))) (f64_of_nat (2 ^ 64 - 1))) probability)"

abbreviation praos_write :: "(praos_signal \<Rightarrow> praos_signal) \<Rightarrow> control_signal \<Rightarrow> control_signal" where
  "praos_write f out \<equiv> out\<lparr>cs_praos := f (cs_praos out)\<rparr>"

abbreviation leios_write :: "(leios_signal \<Rightarrow> leios_signal) \<Rightarrow> control_signal \<Rightarrow> control_signal" where
  "leios_write f out \<equiv> out\<lparr>cs_leios := f (cs_leios out)\<rparr>"

abbreviation mempool_write :: "(mempool_signal \<Rightarrow> mempool_signal) \<Rightarrow> control_signal \<Rightarrow> control_signal" where
  "mempool_write f out \<equiv> out\<lparr>cs_mempool := f (cs_mempool out)\<rparr>"

definition slot_of :: "tick_ctx \<Rightarrow> u64" where
  "slot_of ctx = of_nat (ns_current_slot (tc_state ctx))"

text \<open>The signal a leaf writes.\<close>

definition rb_header_equivocator_contribute :: "u8 \<Rightarrow> u64 \<Rightarrow> tick_ctx \<Rightarrow> control_signal \<Rightarrow> control_signal" where
  "rb_header_equivocator_contribute ways seed ctx out =
     praos_write (\<lambda>p. p\<lparr>pr_production := ProduceEquivocate ways, pr_outbound := EquivocateRouting (slot_of ctx) ways seed\<rparr>) out"

definition lazy_voter_contribute :: "no_vote_reason \<Rightarrow> control_signal \<Rightarrow> control_signal" where
  "lazy_voter_contribute reason out =
     leios_write (\<lambda>l. l\<lparr>le_vote := Abstain reason\<rparr>) out"

definition t22_contribute :: "u8 \<Rightarrow> u8 \<Rightarrow> bool \<Rightarrow> control_signal \<Rightarrow> control_signal" where
  "t22_contribute vote non_voting hide out =
     mempool_write (\<lambda>m. m\<lparr>me_tx_filter := ChecksumThreshold vote non_voting hide\<rparr>) out"

definition withhold_txs_contribute :: "u64 \<Rightarrow> bool \<Rightarrow> bool \<Rightarrow> bool \<Rightarrow> control_signal \<Rightarrow> control_signal" where
  "withhold_txs_contribute slots only_ours submission fetch out =
     mempool_write (\<lambda>m. m\<lparr>me_tx_withholding_filter := tx_withholding_policy.WithholdTxs slots only_ours submission fetch\<rparr>) out"

definition deep_reorg_contribute :: "u64 \<Rightarrow> u64 \<Rightarrow> u64 \<Rightarrow> tick_ctx \<Rightarrow> control_signal \<Rightarrow> control_signal" where
  "deep_reorg_contribute every_slots depth last_fired ctx out =
     (if reorg_due every_slots depth last_fired (slot_of ctx) then praos_write (\<lambda>p. p\<lparr>pr_reorg_depth := Some depth\<rparr>) out else out)"

definition drop_inbound_peers_contribute :: "u64 \<Rightarrow> f64 \<Rightarrow> (u64 \<Rightarrow> u64 \<Rightarrow> u64) \<Rightarrow> tick_ctx \<Rightarrow> control_signal \<Rightarrow> control_signal" where
  "drop_inbound_peers_contribute seed probability blake ctx out =
     (if inbound_draws blake seed probability (slot_of ctx) then praos_write (\<lambda>p. p\<lparr>pr_drop_inbound := True\<rparr>) out else out)"

definition lie_about_eb_size_contribute :: "u32 \<Rightarrow> u32 \<Rightarrow> u32 \<Rightarrow> control_signal \<Rightarrow> control_signal" where
  "lie_about_eb_size_contribute num den offset out =
     leios_write (\<lambda>l. l\<lparr>le_offer_eb_size := SizeLinear num den offset\<rparr>) out"

definition echo_to_source_contribute :: "control_signal \<Rightarrow> control_signal" where
  "echo_to_source_contribute out =
     leios_write (\<lambda>l. l\<lparr>le_echo_to_source := True\<rparr>) out"

definition cert_suppressor_contribute :: "control_signal \<Rightarrow> control_signal" where
  "cert_suppressor_contribute out =
     praos_write (\<lambda>p. p\<lparr>pr_suppress_cert := True\<rparr>) out"

definition single_bls_cert_contribute :: "control_signal \<Rightarrow> control_signal" where
  "single_bls_cert_contribute out =
     praos_write (\<lambda>p. p\<lparr>pr_forge_single_bls_cert := True\<rparr>) out"

definition wrong_len_cert_contribute :: "control_signal \<Rightarrow> control_signal" where
  "wrong_len_cert_contribute out =
     praos_write (\<lambda>p. p\<lparr>pr_forge_wrong_len_cert := True\<rparr>) out"

definition wrong_context_cert_contribute :: "control_signal \<Rightarrow> control_signal" where
  "wrong_context_cert_contribute out =
     praos_write (\<lambda>p. p\<lparr>pr_forge_wrong_context_cert := True\<rparr>) out"

definition non_member_cert_contribute :: "control_signal \<Rightarrow> control_signal" where
  "non_member_cert_contribute out =
     praos_write (\<lambda>p. p\<lparr>pr_forge_non_member_cert := True\<rparr>) out"

definition phantom_tx_eb_contribute :: "u32 \<Rightarrow> control_signal \<Rightarrow> control_signal" where
  "phantom_tx_eb_contribute n out =
     praos_write (\<lambda>p. p\<lparr>pr_fake_eb := Some (FakePhantom n)\<rparr>) out"

definition dummy_tx_eb_contribute :: "u32 \<Rightarrow> control_signal \<Rightarrow> control_signal" where
  "dummy_tx_eb_contribute n out =
     praos_write (\<lambda>p. p\<lparr>pr_fake_eb := Some (FakeDummy n)\<rparr>) out"

definition hollow_eb_contribute :: "u64 \<Rightarrow> control_signal \<Rightarrow> control_signal" where
  "hollow_eb_contribute declared out =
     praos_write (\<lambda>p. p\<lparr>pr_fake_eb := Some (FakeHollow declared)\<rparr>) out"

definition loaded_tx_eb_contribute :: "u32 \<Rightarrow> control_signal \<Rightarrow> control_signal" where
  "loaded_tx_eb_contribute n out =
     praos_write (\<lambda>p. p\<lparr>pr_fake_eb := Some (FakeLoaded n)\<rparr>) out"

definition malformed_eb_contribute :: "corruption \<Rightarrow> bool \<Rightarrow> control_signal \<Rightarrow> control_signal" where
  "malformed_eb_contribute c hash_matches out =
     praos_write (\<lambda>p. p\<lparr>pr_fake_eb := Some (FakeMalformed c hash_matches)\<rparr>) out"

definition announce_size_lie_contribute :: "u32 \<Rightarrow> u32 \<Rightarrow> u32 \<Rightarrow> control_signal \<Rightarrow> control_signal" where
  "announce_size_lie_contribute num den offset out =
     leios_write (\<lambda>l. l\<lparr>le_announce_eb_size := SizeLinear num den offset\<rparr>) out"

definition announce_dangling_contribute :: "control_signal \<Rightarrow> control_signal" where
  "announce_dangling_contribute out =
     leios_write (\<lambda>l. l\<lparr>le_announce_dangling := True\<rparr>) out"

definition announce_equivocate_contribute :: "control_signal \<Rightarrow> control_signal" where
  "announce_equivocate_contribute out =
     leios_write (\<lambda>l. l\<lparr>le_announce_equivocate := True\<rparr>) out"

definition fake_announce_contribute :: "control_signal \<Rightarrow> control_signal" where
  "fake_announce_contribute out =
     leios_write (\<lambda>l. l\<lparr>le_fake_announce := True\<rparr>) out"

definition announce_slot_skew_contribute :: "int \<Rightarrow> control_signal \<Rightarrow> control_signal" where
  "announce_slot_skew_contribute offset out =
     leios_write (\<lambda>l. l\<lparr>le_fake_announce := True, le_announce_slot_offset := offset\<rparr>) out"

definition announce_flood_contribute :: "u32 \<Rightarrow> int \<Rightarrow> control_signal \<Rightarrow> control_signal" where
  "announce_flood_contribute n offset out =
     leios_write (\<lambda>l. l\<lparr>le_fake_announce := True, le_announce_flood_count := max n 1, le_announce_slot_offset := offset\<rparr>) out"

definition vote_flood_contribute :: "u32 \<Rightarrow> control_signal \<Rightarrow> control_signal" where
  "vote_flood_contribute n out =
     leios_write (\<lambda>l. l\<lparr>le_vote_flood_count := max n 1\<rparr>) out"

definition fetch_flood_contribute :: "u32 \<Rightarrow> u64 \<Rightarrow> control_signal \<Rightarrow> control_signal" where
  "fetch_flood_contribute rate window out =
     leios_write (\<lambda>l. l\<lparr>le_fetch_flood_rate := max rate 1, le_fetch_flood_window_slots := window\<rparr>) out"

definition net_flood_contribute :: "net_flood_kind \<Rightarrow> string list \<Rightarrow> u32 \<Rightarrow> u32 \<Rightarrow> u32 \<Rightarrow> control_signal \<Rightarrow> control_signal" where
  "net_flood_contribute attack pools conns width offset out =
     leios_write (\<lambda>l. l\<lparr>le_net_flood_active := True, le_net_flood_attack := attack, le_net_flood_pools := pools,
       le_net_flood_connections_per_relay := max conns 1, le_net_flood_range_width := max width 1, le_net_flood_tip_offset := offset\<rparr>) out"

definition eb_burst_contribute :: "u32 \<Rightarrow> u32 \<Rightarrow> u32 \<Rightarrow> control_signal \<Rightarrow> control_signal" where
  "eb_burst_contribute withhold n n_txs out =
     leios_write (\<lambda>l. l\<lparr>le_eb_burst_withhold_slots := withhold, le_eb_burst_count := max n 1, le_eb_burst_n_txs := n_txs\<rparr>) out"

definition withhold_eb_announce_contribute :: "control_signal \<Rightarrow> control_signal" where
  "withhold_eb_announce_contribute out =
     leios_write (\<lambda>l. l\<lparr>le_withhold_announce := True\<rparr>) out"

definition tx_flood_contribute :: "u32 \<Rightarrow> control_signal \<Rightarrow> control_signal" where
  "tx_flood_contribute rate out =
     mempool_write (\<lambda>m. m\<lparr>me_tx_flood_rate := rate\<rparr>) out"

definition blacklist_blocks_contribute :: "u64 \<Rightarrow> tick_ctx \<Rightarrow> control_signal \<Rightarrow> control_signal" where
  "blacklist_blocks_contribute offset ctx out =
     (case oget (tc_env ctx) ''tip'' of
        Some (EnvStr t) \<Rightarrow>
          (case hash_from_hex t of
             Some h \<Rightarrow> praos_write (\<lambda>p. p\<lparr>pr_rb_blacklist_tip := h, pr_rb_blacklist_offset := offset\<rparr>) out
           | None \<Rightarrow> out)
      | _ \<Rightarrow> out)"

primrec written :: "leaf_action \<Rightarrow> (u64 \<Rightarrow> u64 \<Rightarrow> u64) \<Rightarrow> tick_ctx \<Rightarrow> control_signal \<Rightarrow> control_signal" where
  "written HonestAction blake ctx out = out"
| "written (RbHeaderEquivocator ways seed) blake ctx out = rb_header_equivocator_contribute ways seed ctx out"
| "written (LazyVoter reason) blake ctx out = lazy_voter_contribute reason out"
| "written (T22 vote non_voting hide) blake ctx out = t22_contribute vote non_voting hide out"
| "written (WithholdTxs slots only_ours submission fetch) blake ctx out = withhold_txs_contribute slots only_ours submission fetch out"
| "written (DeepReorg every_slots depth last_fired) blake ctx out = deep_reorg_contribute every_slots depth last_fired ctx out"
| "written (DropInboundPeers seed probability) blake ctx out = drop_inbound_peers_contribute seed probability blake ctx out"
| "written (LieAboutEbSize num den offset) blake ctx out = lie_about_eb_size_contribute num den offset out"
| "written EchoToSource blake ctx out = echo_to_source_contribute out"
| "written CertSuppressor blake ctx out = cert_suppressor_contribute out"
| "written SingleBlsCert blake ctx out = single_bls_cert_contribute out"
| "written WrongLenCert blake ctx out = wrong_len_cert_contribute out"
| "written WrongContextCert blake ctx out = wrong_context_cert_contribute out"
| "written NonMemberCert blake ctx out = non_member_cert_contribute out"
| "written (PhantomTxEb n) blake ctx out = phantom_tx_eb_contribute n out"
| "written (DummyTxEb n) blake ctx out = dummy_tx_eb_contribute n out"
| "written (HollowEb declared) blake ctx out = hollow_eb_contribute declared out"
| "written (LoadedTxEb n) blake ctx out = loaded_tx_eb_contribute n out"
| "written (MalformedEb c hash_matches) blake ctx out = malformed_eb_contribute c hash_matches out"
| "written (AnnounceSizeLie num den offset) blake ctx out = announce_size_lie_contribute num den offset out"
| "written AnnounceDangling blake ctx out = announce_dangling_contribute out"
| "written AnnounceEquivocate blake ctx out = announce_equivocate_contribute out"
| "written FakeAnnounce blake ctx out = fake_announce_contribute out"
| "written (AnnounceSlotSkew offset) blake ctx out = announce_slot_skew_contribute offset out"
| "written (AnnounceFlood n offset) blake ctx out = announce_flood_contribute n offset out"
| "written (VoteFlood n) blake ctx out = vote_flood_contribute n out"
| "written (FetchFlood rate window) blake ctx out = fetch_flood_contribute rate window out"
| "written (NetFlood attack pools conns width offset) blake ctx out = net_flood_contribute attack pools conns width offset out"
| "written (EbBurst withhold n n_txs) blake ctx out = eb_burst_contribute withhold n n_txs out"
| "written WithholdEbAnnounce blake ctx out = withhold_eb_announce_contribute out"
| "written (TxFlood rate) blake ctx out = tx_flood_contribute rate out"
| "written (BlacklistBlocks offset) blake ctx out = blacklist_blocks_contribute offset ctx out"

lemmas contribute_defs [simp] =
  rb_header_equivocator_contribute_def lazy_voter_contribute_def t22_contribute_def withhold_txs_contribute_def
  deep_reorg_contribute_def drop_inbound_peers_contribute_def lie_about_eb_size_contribute_def echo_to_source_contribute_def
  cert_suppressor_contribute_def single_bls_cert_contribute_def wrong_len_cert_contribute_def wrong_context_cert_contribute_def
  non_member_cert_contribute_def phantom_tx_eb_contribute_def dummy_tx_eb_contribute_def hollow_eb_contribute_def
  loaded_tx_eb_contribute_def malformed_eb_contribute_def announce_size_lie_contribute_def announce_dangling_contribute_def
  announce_equivocate_contribute_def fake_announce_contribute_def announce_slot_skew_contribute_def announce_flood_contribute_def
  vote_flood_contribute_def fetch_flood_contribute_def net_flood_contribute_def eb_burst_contribute_def
  withhold_eb_announce_contribute_def tx_flood_contribute_def blacklist_blocks_contribute_def

text \<open>The status: only the honest leaf and a blacklist without a readable tip do not keep running.\<close>

definition blacklist_status :: "tick_ctx \<Rightarrow> status" where
  "blacklist_status ctx =
     (case oget (tc_env ctx) ''tip'' of
        Some (EnvStr t) \<Rightarrow> (if hash_from_hex t = None then Failure else status.Running)
      | _ \<Rightarrow> Failure)"

definition leaf_status :: "leaf_action \<Rightarrow> tick_ctx \<Rightarrow> status" where
  "leaf_status a ctx =
     (case a of
        HonestAction \<Rightarrow> Success
      | BlacklistBlocks _ \<Rightarrow> blacklist_status ctx
      | _ \<Rightarrow> status.Running)"

text \<open>The progress: a reorganisation remembers the slot it fired at.\<close>

definition leaf_next :: "leaf_action \<Rightarrow> tick_ctx \<Rightarrow> leaf_action" where
  "leaf_next a ctx =
     (case a of
        DeepReorg every_slots depth last_fired \<Rightarrow>
          DeepReorg every_slots depth (if reorg_due every_slots depth last_fired (slot_of ctx) then slot_of ctx else last_fired)
      | _ \<Rightarrow> a)"

definition contribute :: "(u64 \<Rightarrow> u64 \<Rightarrow> u64) \<Rightarrow> leaf_action \<Rightarrow> tick_ctx \<Rightarrow> control_signal \<Rightarrow> status \<times> leaf_action \<times> control_signal" where
  "contribute blake a ctx out = (leaf_status a ctx, leaf_next a ctx, written a blake ctx out)"

definition leaf_reset :: "leaf_action \<Rightarrow> leaf_action" where
  "leaf_reset a = (case a of DeepReorg every_slots depth last_fired \<Rightarrow> DeepReorg every_slots depth (- 1) | _ \<Rightarrow> a)"

subsection \<open>Live retuning\<close>

fun as_integer :: "toml_value \<Rightarrow> int option" where
  "as_integer (TomlInteger i) = Some i"
| "as_integer _ = None"

fun toml_as_bool :: "toml_value \<Rightarrow> bool option" where
  "toml_as_bool (TomlBoolean b) = Some b"
| "toml_as_bool _ = None"

fun toml_as_str :: "toml_value \<Rightarrow> string option" where
  "toml_as_str (TomlString s) = Some s"
| "toml_as_str _ = None"

fun toml_as_array :: "toml_value \<Rightarrow> toml_value list option" where
  "toml_as_array (TomlArray xs) = Some xs"
| "toml_as_array _ = None"

text \<open>\<open>i as f64\<close> of a signed integer.\<close>

fun toml_number :: "toml_value \<Rightarrow> f64 option" where
  "toml_number (TomlFloat x) = Some x"
| "toml_number (TomlInteger i) = Some (f64_round (of_int i))"
| "toml_number _ = None"

definition clamp_int :: "int \<Rightarrow> int \<Rightarrow> int \<Rightarrow> int" where
  "clamp_int lo hi v = (if v < lo then lo else if v > hi then hi else v)"

text \<open>An integer parameter given by name: the new value of one field, or the old one.\<close>

definition int_param :: "string \<Rightarrow> (int \<Rightarrow> 'x) \<Rightarrow> string \<Rightarrow> toml_value \<Rightarrow> 'x \<Rightarrow> 'x" where
  "int_param name conv field v old = (if field = name then case_option old conv (as_integer v) else old)"

definition bool_param :: "string \<Rightarrow> string \<Rightarrow> toml_value \<Rightarrow> bool \<Rightarrow> bool" where
  "bool_param name field v old = (if field = name then case_option old id (toml_as_bool v) else old)"

definition to_u8 :: "int \<Rightarrow> int \<Rightarrow> u8" where
  "to_u8 lo v = of_int (clamp_int lo 255 v)"

definition to_u32 :: "int \<Rightarrow> int \<Rightarrow> u32" where
  "to_u32 lo v = of_int (clamp_int lo (2 ^ 32 - 1) v)"

definition to_i32 :: "int \<Rightarrow> u32" where
  "to_i32 v = of_int (clamp_int (- (2 ^ 31)) (2 ^ 31 - 1) v)"

definition to_u64 :: "int \<Rightarrow> u64" where
  "to_u64 v = of_int (max v 0)"

definition pools_param :: "string \<Rightarrow> toml_value \<Rightarrow> string list \<Rightarrow> string list" where
  "pools_param field v old =
     (if field = ''pools'' then
        (case toml_as_array v of
           Some arr \<Rightarrow> if list_all (\<lambda>x. toml_as_str x \<noteq> None) arr then List.map_filter toml_as_str arr else old
         | None \<Rightarrow> old)
      else old)"

definition rb_header_equivocator_set_param :: "u8 \<Rightarrow> u64 \<Rightarrow> string \<Rightarrow> toml_value \<Rightarrow> leaf_action" where
  "rb_header_equivocator_set_param ways seed field v =
     RbHeaderEquivocator (int_param ''ways'' (to_u8 2) field v ways) seed"

definition t22_set_param :: "u8 \<Rightarrow> u8 \<Rightarrow> bool \<Rightarrow> string \<Rightarrow> toml_value \<Rightarrow> leaf_action" where
  "t22_set_param vote non_voting hide field v =
     T22 (int_param ''vote_threshold'' (to_u8 0) field v vote) (int_param ''non_voting_threshold'' (to_u8 0) field v non_voting)
       (bool_param ''hide_eb_tx_received'' field v hide)"

definition withhold_txs_set_param :: "u64 \<Rightarrow> bool \<Rightarrow> bool \<Rightarrow> bool \<Rightarrow> string \<Rightarrow> toml_value \<Rightarrow> leaf_action" where
  "withhold_txs_set_param slots only_ours submission fetch field v =
     WithholdTxs (int_param ''withholding_slots'' to_u64 field v slots) (bool_param ''tx_producer_only'' field v only_ours)
       (bool_param ''withhold_tx_submission'' field v submission) (bool_param ''withhold_leios_fetch'' field v fetch)"

definition deep_reorg_set_param :: "u64 \<Rightarrow> u64 \<Rightarrow> u64 \<Rightarrow> string \<Rightarrow> toml_value \<Rightarrow> leaf_action" where
  "deep_reorg_set_param every_slots depth last_fired field v =
     DeepReorg (int_param ''every_slots'' (\<lambda>i. max (to_u64 i) 1) field v every_slots) (int_param ''depth'' to_u64 field v depth) last_fired"

definition drop_inbound_peers_set_param :: "u64 \<Rightarrow> f64 \<Rightarrow> string \<Rightarrow> toml_value \<Rightarrow> leaf_action" where
  "drop_inbound_peers_set_param seed probability field v =
     DropInboundPeers seed (if field = ''probability'' then case_option probability (f64_clamp (Fin 0) (Fin 1)) (toml_number v) else probability)"

definition lie_about_eb_size_set_param :: "u32 \<Rightarrow> u32 \<Rightarrow> u32 \<Rightarrow> string \<Rightarrow> toml_value \<Rightarrow> leaf_action" where
  "lie_about_eb_size_set_param num den offset field v =
     LieAboutEbSize (int_param ''scale_num'' (to_u32 0) field v num) (int_param ''scale_den'' (to_u32 1) field v den) (int_param ''offset'' to_i32 field v offset)"

definition announce_size_lie_set_param :: "u32 \<Rightarrow> u32 \<Rightarrow> u32 \<Rightarrow> string \<Rightarrow> toml_value \<Rightarrow> leaf_action" where
  "announce_size_lie_set_param num den offset field v =
     AnnounceSizeLie (int_param ''scale_num'' (to_u32 0) field v num) (int_param ''scale_den'' (to_u32 1) field v den) (int_param ''offset'' to_i32 field v offset)"

definition announce_slot_skew_set_param :: "int \<Rightarrow> string \<Rightarrow> toml_value \<Rightarrow> leaf_action" where
  "announce_slot_skew_set_param offset field v =
     AnnounceSlotSkew (int_param ''slot_offset'' id field v offset)"

definition announce_flood_set_param :: "u32 \<Rightarrow> int \<Rightarrow> string \<Rightarrow> toml_value \<Rightarrow> leaf_action" where
  "announce_flood_set_param n offset field v =
     AnnounceFlood (int_param ''count'' (to_u32 0) field v n) (int_param ''slot_offset'' id field v offset)"

definition vote_flood_set_param :: "u32 \<Rightarrow> string \<Rightarrow> toml_value \<Rightarrow> leaf_action" where
  "vote_flood_set_param n field v =
     VoteFlood (int_param ''count'' (to_u32 0) field v n)"

definition fetch_flood_set_param :: "u32 \<Rightarrow> u64 \<Rightarrow> string \<Rightarrow> toml_value \<Rightarrow> leaf_action" where
  "fetch_flood_set_param rate window field v =
     FetchFlood (int_param ''rate'' (to_u32 0) field v rate) (int_param ''window_slots'' to_u64 field v window)"

definition net_flood_set_param :: "net_flood_kind \<Rightarrow> string list \<Rightarrow> u32 \<Rightarrow> u32 \<Rightarrow> u32 \<Rightarrow> string \<Rightarrow> toml_value \<Rightarrow> leaf_action" where
  "net_flood_set_param attack pools conns width offset field v =
     NetFlood (if field = ''attack'' then case_option attack id (Option.bind (toml_as_str v) parse_net_flood_kind) else attack) (pools_param field v pools)
       (int_param ''connections_per_relay'' (to_u32 0) field v conns) (int_param ''range_width'' (to_u32 0) field v width)
       (int_param ''tip_offset'' (to_u32 0) field v offset)"

definition eb_burst_set_param :: "u32 \<Rightarrow> u32 \<Rightarrow> u32 \<Rightarrow> string \<Rightarrow> toml_value \<Rightarrow> leaf_action" where
  "eb_burst_set_param withhold n n_txs field v =
     EbBurst (int_param ''withhold_slots'' (to_u32 0) field v withhold) (int_param ''count'' (to_u32 0) field v n) (int_param ''n_txs'' (to_u32 0) field v n_txs)"

definition tx_flood_set_param :: "u32 \<Rightarrow> string \<Rightarrow> toml_value \<Rightarrow> leaf_action" where
  "tx_flood_set_param rate field v =
     TxFlood (int_param ''rate'' (to_u32 0) field v rate)"

definition blacklist_blocks_set_param :: "u64 \<Rightarrow> string \<Rightarrow> toml_value \<Rightarrow> leaf_action" where
  "blacklist_blocks_set_param offset field v =
     BlacklistBlocks (int_param ''offset'' to_u64 field v offset)"

primrec set_param :: "leaf_action \<Rightarrow> string \<Rightarrow> toml_value \<Rightarrow> leaf_action" where
  "set_param HonestAction field v = HonestAction"
| "set_param (RbHeaderEquivocator ways seed) field v = rb_header_equivocator_set_param ways seed field v"
| "set_param (LazyVoter reason) field v = LazyVoter reason"
| "set_param (T22 vote non_voting hide) field v = t22_set_param vote non_voting hide field v"
| "set_param (WithholdTxs slots only_ours submission fetch) field v = withhold_txs_set_param slots only_ours submission fetch field v"
| "set_param (DeepReorg every_slots depth last_fired) field v = deep_reorg_set_param every_slots depth last_fired field v"
| "set_param (DropInboundPeers seed probability) field v = drop_inbound_peers_set_param seed probability field v"
| "set_param (LieAboutEbSize num den offset) field v = lie_about_eb_size_set_param num den offset field v"
| "set_param EchoToSource field v = EchoToSource"
| "set_param CertSuppressor field v = CertSuppressor"
| "set_param SingleBlsCert field v = SingleBlsCert"
| "set_param WrongLenCert field v = WrongLenCert"
| "set_param WrongContextCert field v = WrongContextCert"
| "set_param NonMemberCert field v = NonMemberCert"
| "set_param (PhantomTxEb n) field v = PhantomTxEb n"
| "set_param (DummyTxEb n) field v = DummyTxEb n"
| "set_param (HollowEb declared) field v = HollowEb declared"
| "set_param (LoadedTxEb n) field v = LoadedTxEb n"
| "set_param (MalformedEb c hash_matches) field v = MalformedEb c hash_matches"
| "set_param (AnnounceSizeLie num den offset) field v = announce_size_lie_set_param num den offset field v"
| "set_param AnnounceDangling field v = AnnounceDangling"
| "set_param AnnounceEquivocate field v = AnnounceEquivocate"
| "set_param FakeAnnounce field v = FakeAnnounce"
| "set_param (AnnounceSlotSkew offset) field v = announce_slot_skew_set_param offset field v"
| "set_param (AnnounceFlood n offset) field v = announce_flood_set_param n offset field v"
| "set_param (VoteFlood n) field v = vote_flood_set_param n field v"
| "set_param (FetchFlood rate window) field v = fetch_flood_set_param rate window field v"
| "set_param (NetFlood attack pools conns width offset) field v = net_flood_set_param attack pools conns width offset field v"
| "set_param (EbBurst withhold n n_txs) field v = eb_burst_set_param withhold n n_txs field v"
| "set_param WithholdEbAnnounce field v = WithholdEbAnnounce"
| "set_param (TxFlood rate) field v = tx_flood_set_param rate field v"
| "set_param (BlacklistBlocks offset) field v = blacklist_blocks_set_param offset field v"

lemmas set_param_defs [simp] =
  rb_header_equivocator_set_param_def t22_set_param_def withhold_txs_set_param_def deep_reorg_set_param_def
  drop_inbound_peers_set_param_def lie_about_eb_size_set_param_def announce_size_lie_set_param_def
  announce_slot_skew_set_param_def announce_flood_set_param_def vote_flood_set_param_def fetch_flood_set_param_def
  net_flood_set_param_def eb_burst_set_param_def tx_flood_set_param_def blacklist_blocks_set_param_def

definition consensus_ops :: "(u64 \<Rightarrow> u64 \<Rightarrow> u64) \<Rightarrow> (leaf_action, control_signal) leaf_ops" where
  "consensus_ops blake = \<lparr>la_contribute = contribute blake, la_reset = leaf_reset, la_set_param = set_param\<rparr>"

subsection \<open>The catalogue honours the contract\<close>

lemma consensus_ops_simps [simp]:
  "la_contribute (consensus_ops blake) = contribute blake" "la_reset (consensus_ops blake) = leaf_reset" "la_set_param (consensus_ops blake) = set_param"
  by (simp_all add: consensus_ops_def)

lemma reset_next: "leaf_reset (leaf_next a ctx) = leaf_reset a"
  by (cases a) (simp_all add: leaf_next_def leaf_reset_def)

interpretation catalogue: leaf_contract "consensus_ops blake" for blake
proof
  fix a :: leaf_action and ctx :: tick_ctx and out :: control_signal
  show "la_reset (consensus_ops blake) (la_reset (consensus_ops blake) a) = la_reset (consensus_ops blake) a"
    by (cases a) (simp_all add: leaf_reset_def)
  show "la_reset (consensus_ops blake) (fst (snd (la_contribute (consensus_ops blake) a ctx out))) = la_reset (consensus_ops blake) a"
    by (simp add: contribute_def reset_next)
qed

text \<open>Parameters in range: an equivocator splits at least two ways, a denominator and a period are not zero.\<close>

definition leaf_ok :: "leaf_action \<Rightarrow> bool" where
  "leaf_ok a =
     (case a of
        RbHeaderEquivocator ways seed \<Rightarrow> 2 \<le> ways
      | DeepReorg every_slots depth last_fired \<Rightarrow> 1 \<le> every_slots
      | LieAboutEbSize num den offset \<Rightarrow> 1 \<le> den
      | AnnounceSizeLie num den offset \<Rightarrow> 1 \<le> den
      | DropInboundPeers seed probability \<Rightarrow> probability = NaN \<or> f64_le (Fin 0) probability \<and> f64_le probability (Fin 1)
      | _ \<Rightarrow> True)"

definition size_policy_ok :: "eb_size_policy \<Rightarrow> bool" where
  "size_policy_ok p = (case p of SizeHonest \<Rightarrow> True | SizeLinear num den offset \<Rightarrow> 1 \<le> den)"

definition signal_ok :: "control_signal \<Rightarrow> bool" where
  "signal_ok s \<longleftrightarrow>
     (\<forall>ways. pr_production (cs_praos s) = ProduceEquivocate ways \<longrightarrow> 2 \<le> ways)
     \<and> (\<forall>slot ways seed. pr_outbound (cs_praos s) = EquivocateRouting slot ways seed \<longrightarrow> 2 \<le> ways)
     \<and> pr_reorg_depth (cs_praos s) \<noteq> Some 0
     \<and> size_policy_ok (le_offer_eb_size (cs_leios s)) \<and> size_policy_ok (le_announce_eb_size (cs_leios s))
     \<and> (le_net_flood_active (cs_leios s) \<longrightarrow> 1 \<le> le_net_flood_connections_per_relay (cs_leios s) \<and> 1 \<le> le_net_flood_range_width (cs_leios s))"

lemma clamp_unit: "f64_clamp (Fin 0) (Fin 1) p = NaN \<or> f64_le (Fin 0) (f64_clamp (Fin 0) (Fin 1) p) \<and> f64_le (f64_clamp (Fin 0) (Fin 1) p) (Fin 1)"
  by (cases p) (auto simp: f64_clamp_def split: if_splits)

lemma max_word [simp]: "w \<le> max v w" for v w :: "'a::len word"
  by simp

lemma build_leaf_ok: "leaf_ok (build_action spec seed)"
  using clamp_unit by (cases spec) (simp_all add: leaf_ok_def deep_reorg_new_def drop_inbound_new_def)

lemma to_u8_ge: "2 \<le> to_u8 2 v"
proof -
  have "clamp_int 2 255 v \<in> {2..255}" by (simp add: clamp_int_def)
  then have "uint (to_u8 2 v) = clamp_int 2 255 v" by (simp add: to_u8_def unsigned_of_int take_bit_int_eq_self)
  then show ?thesis by (simp add: word_le_def clamp_int_def)
qed

lemma to_u32_ge: "1 \<le> to_u32 1 v"
proof -
  have "clamp_int 1 (2 ^ 32 - 1) v \<in> {1..2 ^ 32 - 1}" by (simp add: clamp_int_def)
  then have "uint (to_u32 1 v) = clamp_int 1 (2 ^ 32 - 1) v" by (simp add: to_u32_def unsigned_of_int take_bit_int_eq_self)
  then show ?thesis by (simp add: word_le_def clamp_int_def)
qed

lemma set_param_ok: "leaf_ok a \<Longrightarrow> leaf_ok (set_param a field v)"
  using clamp_unit to_u8_ge to_u32_ge
  by (cases a) (auto simp: leaf_ok_def int_param_def split: option.splits)

lemma written_ok: "leaf_ok a \<Longrightarrow> signal_ok out \<Longrightarrow> signal_ok (written a blake ctx out)"
  by (cases a) (auto simp: leaf_ok_def signal_ok_def size_policy_ok_def reorg_due_def split: option.splits env_value.splits)

lemma leaf_state_ok: "leaf_ok a \<Longrightarrow> leaf_ok (leaf_next a ctx) \<and> leaf_ok (leaf_reset a)"
  by (cases a) (simp_all add: leaf_ok_def leaf_next_def leaf_reset_def)

lemma catalogue_safe: "leaves_safe (consensus_ops blake) leaf_ok signal_ok"
  by (auto simp: leaves_safe_def contribute_def written_ok leaf_state_ok set_param_ok)

lemma honest_signal_ok: "signal_ok honest_signal"
  by (simp add: signal_ok_def honest_signal_def size_policy_ok_def)

text \<open>An attack leaf keeps running, whatever its parameters.\<close>

definition is_attack :: "leaf_action \<Rightarrow> bool" where
  "is_attack a = (case a of HonestAction \<Rightarrow> False | BlacklistBlocks offset \<Rightarrow> False | _ \<Rightarrow> True)"

lemma attack_runs: "runs_on (consensus_ops blake) is_attack"
proof -
  have "is_attack a \<Longrightarrow> leaf_status a ctx = status.Running \<and> is_attack (leaf_next a ctx) \<and> is_attack (set_param a field v) \<and> is_attack (leaf_reset a)" for a ctx field v
    by (cases a) (simp_all add: is_attack_def leaf_status_def leaf_next_def leaf_reset_def)
  then show ?thesis by (simp add: runs_on_def contribute_def)
qed

lemma built_reset: "leaf_reset (build_action spec seed) = build_action spec seed"
  by (cases spec) (simp_all add: leaf_reset_def deep_reorg_new_def drop_inbound_new_def)

lemma halt_tree_run:
  "tree_ok b \<Longrightarrow> list_all (\<lambda>ctx. tc_action_params ctx = None) ctxs \<Longrightarrow>
   halt (consensus_ops blake) (snd (tree_run (consensus_ops blake) h ctxs b)) = halt (consensus_ops blake) b"
proof (induction ctxs arbitrary: b)
  case (Cons ctx ctxs)
  let ?b = "fst (snd (tick (consensus_ops blake) ctx b h))"
  have ok: "tree_ok ?b" using tick_keeps_ok [of b "consensus_ops blake" ctx h] Cons.prems(1) by simp
  have "tc_action_params ctx = None" and later: "list_all (\<lambda>ctx. tc_action_params ctx = None) ctxs" using Cons.prems(2) by simp_all
  then have "halt (consensus_ops blake) ?b = halt (consensus_ops blake) b" using catalogue.halt_tick [OF _ Cons.prems(1)] by simp
  moreover have "snd (tree_run (consensus_ops blake) h (ctx # ctxs) b) = snd (tree_run (consensus_ops blake) h ctxs ?b)"
    by (simp only: tree_run.simps case_prod_unfold snd_conv)
  ultimately show ?case using Cons.IH [OF ok later] by simp
qed simp

subsection \<open>Properties\<close>

text \<open>C34: the actuators never see a degenerate signal. In a tree whose leaves come from the registry, over any run of ticks, in
  any contexts and with any live overrides, every signal that comes out equivocates at least two ways if it equivocates,
  asks for no reorganisation of depth zero, rewrites no size with a zero denominator and floods with at least one connection
  and one block per request; and the parameters of the leaves stay in range.\<close>

theorem signals_well_formed:
  assumes "all_leaves (\<lambda>a. a = HonestAction \<or> a \<in> range (case_prod build_action)) b"
  shows "(\<forall>x\<in>set (fst (tree_run (consensus_ops blake) honest_signal ctxs b)). signal_ok (snd x)) \<and>
    all_leaves leaf_ok (snd (tree_run (consensus_ops blake) honest_signal ctxs b))"
proof -
  have "leaf_ok a" if "a = HonestAction \<or> a \<in> range (case_prod build_action)" for a
  proof -
    have "leaf_ok HonestAction" by (simp add: leaf_ok_def)
    then show ?thesis using that build_leaf_ok by (metis case_prod_conv imageE prod.collapse)
  qed
  then have "all_leaves leaf_ok b" using assms unfolding all_leaves_def by blast
  then show ?thesis using tree_run_safe [OF catalogue_safe honest_signal_ok] by blast
qed


text \<open>C36: a staged attack happens exactly in its window. \<open>Sequence [Wait n, ForTicks k attack]\<close>, ticked once per slot, is honest for \<open>n\<close>
  slots, then writes exactly what the attack writes for \<open>k\<close> slots, and is honest ever after, for every attack of the registry
  (those that keep running) and whatever live overrides arrive.\<close>

theorem attack_window:
  assumes "is_attack (build_action spec seed)" and "n + k \<le> length ctxs"
  shows "map snd (fst (tree_run (consensus_ops blake) honest_signal ctxs
      (Sequence i [wait_node w n, for_ticks_node f k (Action l (build_action spec seed))]))) =
    replicate n honest_signal @ leaf_outputs (consensus_ops blake) honest_signal l (take k (drop n ctxs)) (build_action spec seed)
    @ replicate (length ctxs - n - k) honest_signal"
proof (rule attack_window_run [OF attack_runs assms(1) _ _ assms(2)])
  show "la_reset (consensus_ops blake) (build_action spec seed) = build_action spec seed" by (simp add: built_reset)
qed (rule catalogue.reset_reset)

definition plain_ctx :: "nat \<Rightarrow> tick_ctx" where
  "plain_ctx slot = \<lparr>tc_env = oempty, tc_sensors = oempty,
     tc_state = \<lparr>ns_current_slot = slot, ns_current_epoch = 0, ns_mempool_tx_count = 0\<rparr>, tc_seed = 0, tc_action_params = None\<rparr>"

definition staged_attack :: "leaf_action behaviour" where
  "staged_attack = Sequence ''root'' [wait_node ''delay'' 1, for_ticks_node ''cap'' 2 (Action ''tx-flood'' (build_action (SpecTxFlood 5) 0))]"

theorem signals_well_formed_witness:
  "list_all (\<lambda>x. signal_ok (snd x)) (fst (tree_run (consensus_ops (\<lambda>_ _. 0)) honest_signal [plain_ctx 1, plain_ctx 2] staged_attack)) \<and>
   all_leaves leaf_ok (snd (tree_run (consensus_ops (\<lambda>_ _. 0)) honest_signal [plain_ctx 1, plain_ctx 2] staged_attack))"
proof -
  have "build_action (SpecTxFlood 5) 0 \<in> range (case_prod build_action)" by (rule range_eqI [of _ _ "(SpecTxFlood 5, 0)"]) simp
  then have "all_leaves (\<lambda>a. a = HonestAction \<or> a \<in> range (case_prod build_action)) staged_attack"
    by (simp add: staged_attack_def wait_node_def for_ticks_node_def del: build_action.simps)
  from signals_well_formed [OF this] show ?thesis unfolding list_all_iff by blast
qed


theorem attack_window_witness:
  "map (\<lambda>x. me_tx_flood_rate (cs_mempool (snd x)))
     (fst (tree_run (consensus_ops (\<lambda>_ _. 0)) honest_signal (map plain_ctx [1, 2, 3, 4]) staged_attack)) = [0, 5, 5, 0]"
proof -
  have "is_attack (build_action (SpecTxFlood 5) 0)" by (simp add: is_attack_def)
  from arg_cong [OF attack_window [OF this, of 1 2 "map plain_ctx [1, 2, 3, 4]" "\<lambda>_ _. 0" "''root''" "''delay''" "''cap''" "''tx-flood''"],
      of "map (\<lambda>s. me_tx_flood_rate (cs_mempool s))"]
  show ?thesis
  by (simp add: staged_attack_def apply_action_overrides_def action_overrides_def plain_ctx_def contribute_def leaf_status_def
  leaf_next_def
        honest_signal_def comp_def numeral_2_eq_2)
qed

text \<open>A live override stays with the leaf: when its key is removed the leaf does not go back to its compiled parameter.\<close>

lemma override_sticks:
  "map (\<lambda>x. me_tx_flood_rate (cs_mempool (snd x))) (fst (tree_run (consensus_ops (\<lambda>_ _. 0)) honest_signal
     [(plain_ctx 1)\<lparr>tc_action_params := Some (oput ''tx-flood.rate'' (TomlInteger 9) oempty)\<rparr>, plain_ctx 2] (Action ''tx-flood'' (TxFlood 5)))) = [9, 9]"
  by (simp add: apply_action_overrides_def action_overrides_def plain_ctx_def contribute_def leaf_status_def leaf_next_def honest_signal_def
      starts_with_def int_param_def to_u32_def clamp_int_def)

end
