(* ===== verification/Behaviour_Config.thy ===== *)
theory Behaviour_Config
  imports Behaviour_Actions
begin

text \<open>
  \<open>shared-rs/consensus/src/behaviour/tree/config.rs\<close>: from a TOML table to a compiled behaviour tree, with the checks in between.

  \<^item> The TOML parser and the deserialisation of an action specification (\<open>to_spec\<close>) belong to libraries: the model starts from
    the parsed table, and \<open>to_spec\<close> is a parameter. A table is its list of entries in iteration order.
  \<^item> An error keeps its kind and the names it prints, not its message.
  \<^item> \<open>child_seed\<close> mixes with Blake2b: a parameter.
\<close>

datatype config_error =
    UnresolvedIncludes "string list"
  | IncludesNotArray
  | RunError
  | UnknownRoot string
  | DanglingChild string string
  | CycleError "string list"
  | UnknownType string string
  | BadArity string
  | BadField string
  | ConditionSyntax string parse_error
  | ConditionType string load_error
  | ActionSpecError string string
  | EnvError string

record bt_run =
  br_name :: string
  br_seed :: u64
  br_root :: string

type_synonym toml_table = "(string \<times> toml_value) list"

datatype raw_behaviour =
    RawSelector "string list"
  | RawSequence "string list"
  | RawJoin "string list"
  | RawForTicks nat string
  | RawWait nat
  | RawCondition string
  | RawHonest
  | RawAction string toml_table

record bt_config =
  bc_run :: "bt_run option"
  bc_env :: "(string, env_value) omap"
  bc_behaviours :: "(string, raw_behaviour) omap"
  bc_metadata :: "(string, nat) omap"

subsection \<open>Parsing\<close>

fun toml_as_table :: "toml_value \<Rightarrow> toml_table option" where
  "toml_as_table (TomlTable t) = Some t"
| "toml_as_table _ = None"

definition parse_run :: "toml_value \<Rightarrow> config_error + bt_run" where
  "parse_run v =
     (case toml_as_table v of None \<Rightarrow> Inl RunError
      | Some t \<Rightarrow>
          (case Option.bind (map_of t ''name'') toml_as_str of None \<Rightarrow> Inl RunError
           | Some name \<Rightarrow>
               (case Option.bind (map_of t ''seed'') as_integer of None \<Rightarrow> Inl RunError
                | Some seed_i \<Rightarrow>
                    if seed_i < 0 then Inl RunError
                    else (case Option.bind (map_of t ''root'') toml_as_str of None \<Rightarrow> Inl RunError
                          | Some r \<Rightarrow> Inr \<lparr>br_name = name, br_seed = of_int seed_i, br_root = r\<rparr>))))"

definition dotted :: "string \<Rightarrow> string \<Rightarrow> string" where
  "dotted pre k = (if pre = [] then k else pre @ ''.'' @ k)"

function flatten_env :: "string \<Rightarrow> toml_table \<Rightarrow> (string, env_value) omap \<Rightarrow> config_error + (string, env_value) omap" where
  "flatten_env pre [] out = Inr out"
| "flatten_env pre ((k, v) # t) out =
     (let key = dotted pre k
      in case v of
           TomlInteger i \<Rightarrow> flatten_env pre t (oput key (if i \<ge> 0 then EnvU64 (nat i) else EnvF64 (f64_round (of_int i))) out)
         | TomlFloat f \<Rightarrow> flatten_env pre t (oput key (EnvF64 f) out)
         | TomlString s \<Rightarrow> flatten_env pre t (oput key (EnvStr s) out)
         | TomlBoolean b \<Rightarrow> flatten_env pre t (oput key (EnvBool b) out)
         | TomlTable t' \<Rightarrow> (case flatten_env key t' out of Inl e \<Rightarrow> Inl e | Inr out' \<Rightarrow> flatten_env pre t out')
         | _ \<Rightarrow> Inl (EnvError key))"
  by pat_completeness auto
termination
  by (relation "measure (\<lambda>(p, t, out). size_list (size_prod (\<lambda>_. 0) size) t)") auto

fun string_items :: "string \<Rightarrow> toml_value list \<Rightarrow> config_error + string list" where
  "string_items i [] = Inr []"
| "string_items i (v # vs) =
     (case toml_as_str v of None \<Rightarrow> Inl (BadField i)
      | Some s \<Rightarrow> (case string_items i vs of Inl e \<Rightarrow> Inl e | Inr ss \<Rightarrow> Inr (s # ss)))"

definition parse_children :: "string \<Rightarrow> toml_table \<Rightarrow> config_error + string list" where
  "parse_children i t =
     (case Option.bind (map_of t ''children'') toml_as_array of None \<Rightarrow> Inl (BadField i) | Some arr \<Rightarrow> string_items i arr)"

definition parse_count :: "string \<Rightarrow> toml_table \<Rightarrow> config_error + nat" where
  "parse_count i t =
     (case Option.bind (map_of t ''count'') as_integer of
        None \<Rightarrow> Inl (BadField i)
      | Some c \<Rightarrow> if 1 \<le> c \<and> c \<le> 2 ^ 32 - 1 then Inr (nat c) else Inl (BadArity i))"

definition parse_behaviour :: "string \<Rightarrow> toml_table \<Rightarrow> config_error + raw_behaviour" where
  "parse_behaviour i t =
     (case Option.bind (map_of t ''type'') toml_as_str of
        None \<Rightarrow> Inl (BadField i)
      | Some ty \<Rightarrow>
          if ty = ''Selector'' then map_sum id RawSelector (parse_children i t)
          else if ty = ''Sequence'' then map_sum id RawSequence (parse_children i t)
          else if ty = ''Join'' then map_sum id RawJoin (parse_children i t)
          else if ty = ''ForTicks'' then
            (case parse_count i t of Inl e \<Rightarrow> Inl e
             | Inr c \<Rightarrow> (case Option.bind (map_of t ''child'') toml_as_str of None \<Rightarrow> Inl (BadField i) | Some child \<Rightarrow> Inr (RawForTicks c child)))
          else if ty = ''Wait'' then map_sum id RawWait (parse_count i t)
          else if ty = ''Condition'' then
            (case Option.bind (map_of t ''expression'') toml_as_str of None \<Rightarrow> Inl (BadField i) | Some src \<Rightarrow> Inr (RawCondition src))
          else if ty = ''HonestAction'' then Inr RawHonest
          else if ty = ''Action'' then
            (case Option.bind (map_of t ''spec'') toml_as_table of None \<Rightarrow> Inl (BadField i)
             | Some params \<Rightarrow>
                 (case Option.bind (map_of params ''kind'') toml_as_str of None \<Rightarrow> Inl (BadField i) | Some kind \<Rightarrow> Inr (RawAction kind params)))
          else Inl (UnknownType i ty))"

function walk_behaviours :: "string \<Rightarrow> toml_table \<Rightarrow> (string, raw_behaviour) omap \<Rightarrow> config_error + (string, raw_behaviour) omap" where
  "walk_behaviours pre [] out = Inr out"
| "walk_behaviours pre ((k, v) # t) out =
     (let i = dotted pre k
      in case v of
           TomlTable t' \<Rightarrow>
             if map_of t' ''type'' \<noteq> None then
               (case parse_behaviour i t' of Inl e \<Rightarrow> Inl e | Inr raw \<Rightarrow> walk_behaviours pre t (oput i raw out))
             else (case walk_behaviours i t' out of Inl e \<Rightarrow> Inl e | Inr out' \<Rightarrow> walk_behaviours pre t out')
         | _ \<Rightarrow> Inl (BadField i))"
  by pat_completeness auto
termination
  by (relation "measure (\<lambda>(p, t, out). size_list (size_prod (\<lambda>_. 0) size) t)") auto

definition revision_of :: "toml_value \<Rightarrow> nat" where
  "revision_of v = nat (max (case_option 0 id (Option.bind (Option.bind (toml_as_table v) (\<lambda>t. map_of t ''revision'')) as_integer)) 0) mod 2 ^ 32"

definition parse_config :: "toml_table \<Rightarrow> config_error + bt_config" where
  "parse_config r =
     (let includes_error = (case map_of r ''includes'' of
            None \<Rightarrow> None
          | Some v \<Rightarrow> (case toml_as_array v of
                None \<Rightarrow> Some IncludesNotArray
              | Some [] \<Rightarrow> None
              | Some arr \<Rightarrow> Some (UnresolvedIncludes (map (\<lambda>x. case_option ''?'' id (toml_as_str x)) arr))))
      in case includes_error of Some e \<Rightarrow> Inl e
         | None \<Rightarrow>
             (case (case map_of r ''run'' of None \<Rightarrow> Inr None | Some v \<Rightarrow> map_sum id Some (parse_run v)) of Inl e \<Rightarrow> Inl e
              | Inr run \<Rightarrow>
                  (case (case map_of r ''env'' of Some (TomlTable t) \<Rightarrow> flatten_env [] t oempty | _ \<Rightarrow> Inr oempty) of Inl e \<Rightarrow> Inl e
                   | Inr env \<Rightarrow>
                       (case (case map_of r ''behaviours'' of Some (TomlTable t) \<Rightarrow> walk_behaviours [] t oempty | _ \<Rightarrow> Inr oempty) of Inl e \<Rightarrow> Inl e
                        | Inr behaviours \<Rightarrow>
                            Inr \<lparr>bc_run = run, bc_env = env, bc_behaviours = behaviours,
                                 bc_metadata = (case map_of r ''metadata'' of
                                    Some (TomlTable t) \<Rightarrow> foldl (\<lambda>m (owner, v). oput owner (revision_of v) m) oempty t
                                  | _ \<Rightarrow> oempty)\<rparr>))))"

subsection \<open>Structural validation\<close>

fun first_error :: "(config_error + unit) list \<Rightarrow> config_error + unit" where
  "first_error [] = Inr ()"
| "first_error (r # rs) = (case r of Inl e \<Rightarrow> Inl e | Inr _ \<Rightarrow> first_error rs)"

definition require_defined :: "bt_config \<Rightarrow> string \<Rightarrow> string \<Rightarrow> config_error + unit" where
  "require_defined cfg parent child = (if ohas (bc_behaviours cfg) child then Inr () else Inl (DanglingChild parent child))"

fun raw_children :: "raw_behaviour \<Rightarrow> string list" where
  "raw_children (RawSelector ch) = ch"
| "raw_children (RawSequence ch) = ch"
| "raw_children (RawJoin ch) = ch"
| "raw_children (RawForTicks n child) = [child]"
| "raw_children _ = []"

definition children_of :: "bt_config \<Rightarrow> string \<Rightarrow> string list" where
  "children_of cfg i = (case oget (bc_behaviours cfg) i of Some raw \<Rightarrow> raw_children raw | None \<Rightarrow> [])"

fun check_behaviour :: "bt_config \<Rightarrow> string \<times> raw_behaviour \<Rightarrow> config_error + unit" where
  "check_behaviour cfg (i, RawForTicks n child) = (if n < 1 then Inl (BadArity i) else require_defined cfg i child)"
| "check_behaviour cfg (i, RawWait n) = (if n < 1 then Inl (BadArity i) else Inr ())"
| "check_behaviour cfg (i, RawCondition src) = Inr ()"
| "check_behaviour cfg (i, RawHonest) = Inr ()"
| "check_behaviour cfg (i, RawAction kind params) = Inr ()"
| "check_behaviour cfg (i, raw) =
     (if raw_children raw = [] then Inl (BadArity i) else first_error (map (require_defined cfg i) (raw_children raw)))"

text \<open>The ids not yet on the trail, which shrink along the search.\<close>

definition off_path :: "bt_config \<Rightarrow> string list \<Rightarrow> nat" where
  "off_path cfg trail = card (set (okeys (bc_behaviours cfg)) - set trail)"

lemma off_path_decreases: "ohas (bc_behaviours cfg) i \<Longrightarrow> i \<notin> set trail \<Longrightarrow> off_path cfg (trail @ [i]) < off_path cfg trail"
proof -
  assume i: "ohas (bc_behaviours cfg) i" "i \<notin> set trail"
  then have "i \<in> set (okeys (bc_behaviours cfg)) - set trail" by (auto simp: ohas_def okeys_def in_entries_iff [symmetric] image_iff) force
  then show ?thesis unfolding off_path_def by (intro psubset_card_mono) auto
qed

function check_acyclic :: "bt_config \<Rightarrow> string list \<Rightarrow> string \<Rightarrow> config_error + unit" where
  "check_acyclic cfg on_path i =
     (if i \<in> set on_path then Inl (CycleError (on_path @ [i]))
      else if \<not> ohas (bc_behaviours cfg) i then Inr ()
      else first_error (map (check_acyclic cfg (on_path @ [i])) (children_of cfg i)))"
  by pat_completeness auto
termination
  by (relation "measure (\<lambda>(cfg, trail, i). off_path cfg trail)") (auto simp: off_path_decreases)

declare check_acyclic.simps [simp del]

definition validate_structure :: "bt_config \<Rightarrow> config_error + unit" where
  "validate_structure cfg =
     (case bc_run cfg of None \<Rightarrow> Inl RunError
      | Some run \<Rightarrow>
          if \<not> ohas (bc_behaviours cfg) (br_root run) then Inl (UnknownRoot (br_root run))
          else (case first_error (map (check_behaviour cfg) (entries (bc_behaviours cfg))) of Inl e \<Rightarrow> Inl e
                | Inr _ \<Rightarrow> check_acyclic cfg [] (br_root run)))"

definition check_leaf :: "(toml_table \<Rightarrow> string + action_spec) \<Rightarrow> bt_config \<Rightarrow> string \<times> raw_behaviour \<Rightarrow> config_error + unit" where
  "check_leaf to_spec cfg ir =
     (case snd ir of
        RawAction kind params \<Rightarrow> (case to_spec params of Inl m \<Rightarrow> Inl (ActionSpecError (fst ir) m) | Inr _ \<Rightarrow> Inr ())
      | RawCondition src \<Rightarrow>
          (case parse_condition src of Inl e \<Rightarrow> Inl (ConditionSyntax (fst ir) e)
           | Inr expr \<Rightarrow> (case validate (bc_env cfg) expr of Inl e \<Rightarrow> Inl (ConditionType (fst ir) e) | Inr _ \<Rightarrow> Inr ()))
      | _ \<Rightarrow> Inr ())"

definition validate_config :: "(toml_table \<Rightarrow> string + action_spec) \<Rightarrow> bt_config \<Rightarrow> config_error + unit" where
  "validate_config to_spec cfg =
     (case validate_structure cfg of Inl e \<Rightarrow> Inl e | Inr _ \<Rightarrow> first_error (map (check_leaf to_spec cfg) (entries (bc_behaviours cfg))))"

subsection \<open>Expansion\<close>

text \<open>The binders turn the source of a leaf into a leaf, or fail with an error that is given the leaf's id.\<close>

record 'a binders =
  bd_action :: "string \<Rightarrow> toml_table \<Rightarrow> u64 \<Rightarrow> config_error + 'a"
  bd_condition :: "string \<Rightarrow> config_error + condition_expr"
  bd_honest :: 'a
  bd_child_seed :: "u64 \<Rightarrow> nat \<Rightarrow> u64"

fun attach_id :: "string \<Rightarrow> config_error \<Rightarrow> config_error" where
  "attach_id i (ConditionSyntax [] e) = ConditionSyntax i e"
| "attach_id i (ConditionType [] e) = ConditionType i e"
| "attach_id i (ActionSpecError [] m) = ActionSpecError i m"
| "attach_id i (BadField []) = BadField i"
| "attach_id i other = other"

function expand_with :: "'a binders \<Rightarrow> bt_config \<Rightarrow> u64 \<Rightarrow> string list \<Rightarrow> string \<Rightarrow> nat \<Rightarrow> config_error + 'a behaviour \<times> nat"
and expand_all :: "'a binders \<Rightarrow> bt_config \<Rightarrow> u64 \<Rightarrow> string list \<Rightarrow> string list \<Rightarrow> nat \<Rightarrow> config_error + 'a behaviour list \<times> nat" where
  "expand_with bd cfg seed on_path i counter =
     (if i \<in> set on_path then Inl (CycleError (on_path @ [i]))
      else case oget (bc_behaviours cfg) i of
        None \<Rightarrow> Inl (DanglingChild (if on_path = [] then [] else last on_path) i)
      | Some raw \<Rightarrow>
          (case raw of
             RawSelector ch \<Rightarrow> (case expand_all bd cfg seed (on_path @ [i]) ch counter of Inl e \<Rightarrow> Inl e | Inr (cs, n) \<Rightarrow> Inr (Selector i cs, n))
           | RawSequence ch \<Rightarrow> (case expand_all bd cfg seed (on_path @ [i]) ch counter of Inl e \<Rightarrow> Inl e | Inr (cs, n) \<Rightarrow> Inr (Sequence i cs, n))
           | RawJoin ch \<Rightarrow> (case expand_all bd cfg seed (on_path @ [i]) ch counter of Inl e \<Rightarrow> Inl e | Inr (cs, n) \<Rightarrow> Inr (join_node i cs, n))
           | RawForTicks c child \<Rightarrow>
               (case expand_with bd cfg seed (on_path @ [i]) child counter of Inl e \<Rightarrow> Inl e | Inr (b, n) \<Rightarrow> Inr (for_ticks_node i c b, n))
           | RawWait c \<Rightarrow> Inr (wait_node i c, counter)
           | RawCondition src \<Rightarrow> (case bd_condition bd src of Inl e \<Rightarrow> Inl (attach_id i e) | Inr expr \<Rightarrow> Inr (Condition i expr, counter))
           | RawHonest \<Rightarrow> Inr (Action i (bd_honest bd), counter)
           | RawAction kind params \<Rightarrow>
               (case bd_action bd kind params (bd_child_seed bd seed counter) of
                  Inl e \<Rightarrow> Inl (attach_id i e) | Inr a \<Rightarrow> Inr (Action i a, counter + 1))))"
| "expand_all bd cfg seed on_path [] counter = Inr ([], counter)"
| "expand_all bd cfg seed on_path (i # ids) counter =
     (case expand_with bd cfg seed on_path i counter of Inl e \<Rightarrow> Inl e
      | Inr (b, n) \<Rightarrow> (case expand_all bd cfg seed on_path ids n of Inl e \<Rightarrow> Inl e | Inr (bs, m) \<Rightarrow> Inr (b # bs, m)))"
  by pat_completeness auto
termination
proof (relation "measures [\<lambda>x. case x of Inl (bd, cfg, seed, trail, i, n) \<Rightarrow> off_path cfg trail | Inr (bd, cfg, seed, trail, ids, n) \<Rightarrow> off_path cfg trail,
    \<lambda>x. case x of Inl _ \<Rightarrow> 0 | Inr (bd, cfg, seed, trail, ids, n) \<Rightarrow> Suc (length ids)]")
qed (auto simp: ohas_def intro!: off_path_decreases)

declare expand_with.simps [simp del]

definition compile_with :: "'a binders \<Rightarrow> bt_config \<Rightarrow> config_error + 'a behaviour_tree" where
  "compile_with bd cfg =
     (case validate_structure cfg of Inl e \<Rightarrow> Inl e
      | Inr _ \<Rightarrow>
          (case bc_run cfg of None \<Rightarrow> Inl RunError
           | Some run \<Rightarrow>
               (case expand_with bd cfg (br_seed run) [] (br_root run) 0 of Inl e \<Rightarrow> Inl e
                | Inr (b, _) \<Rightarrow> Inr \<lparr>bt_name = br_name run, bt_seed = unat (br_seed run), bt_root = b\<rparr>)))"

definition consensus_binders :: "(toml_table \<Rightarrow> string + action_spec) \<Rightarrow> (u64 \<Rightarrow> nat \<Rightarrow> u64) \<Rightarrow> leaf_action binders" where
  "consensus_binders to_spec child_seed =
     \<lparr>bd_action = (\<lambda>kind params seed. case to_spec params of Inl m \<Rightarrow> Inl (ActionSpecError [] m) | Inr spec \<Rightarrow> Inr (build_action spec seed)),
      bd_condition = (\<lambda>src. case parse_condition src of Inl e \<Rightarrow> Inl (ConditionSyntax [] e) | Inr expr \<Rightarrow> Inr expr),
      bd_honest = HonestAction, bd_child_seed = child_seed\<rparr>"

definition compile :: "(toml_table \<Rightarrow> string + action_spec) \<Rightarrow> (u64 \<Rightarrow> nat \<Rightarrow> u64) \<Rightarrow> bt_config \<Rightarrow> config_error + leaf_action behaviour_tree" where
  "compile to_spec child_seed cfg =
     (case validate_config to_spec cfg of Inl e \<Rightarrow> Inl e | Inr _ \<Rightarrow> compile_with (consensus_binders to_spec child_seed) cfg)"

subsection \<open>What a configuration describes\<close>

text \<open>\<open>describes cfg \<dots> i n b m\<close>: the behaviour \<open>b\<close> is the definition \<open>i\<close> unfolded, with every condition parsed and type-checked, every
  action read from its specification, and the seeds of its actions drawn from the ordinals \<open>n, \<dots>, m - 1\<close> in depth-first order.\<close>

inductive describes :: "(toml_table \<Rightarrow> string + action_spec) \<Rightarrow> (u64 \<Rightarrow> nat \<Rightarrow> u64) \<Rightarrow> bt_config \<Rightarrow> u64 \<Rightarrow> string \<Rightarrow> nat \<Rightarrow> leaf_action behaviour \<Rightarrow> nat \<Rightarrow> bool"
and describe_all :: "(toml_table \<Rightarrow> string + action_spec) \<Rightarrow> (u64 \<Rightarrow> nat \<Rightarrow> u64) \<Rightarrow> bt_config \<Rightarrow> u64 \<Rightarrow> string list \<Rightarrow> nat \<Rightarrow> leaf_action behaviour list \<Rightarrow> nat \<Rightarrow> bool"
for to_spec child_seed cfg seed where
  describes_selector: "oget (bc_behaviours cfg) i = Some (RawSelector ids) \<Longrightarrow> describe_all to_spec child_seed cfg seed ids n cs m \<Longrightarrow>
    describes to_spec child_seed cfg seed i n (Selector i cs) m"
| describes_sequence: "oget (bc_behaviours cfg) i = Some (RawSequence ids) \<Longrightarrow> describe_all to_spec child_seed cfg seed ids n cs m \<Longrightarrow>
    describes to_spec child_seed cfg seed i n (Sequence i cs) m"
| describes_join: "oget (bc_behaviours cfg) i = Some (RawJoin ids) \<Longrightarrow> describe_all to_spec child_seed cfg seed ids n cs m \<Longrightarrow>
    describes to_spec child_seed cfg seed i n (join_node i cs) m"
| describes_for_ticks: "oget (bc_behaviours cfg) i = Some (RawForTicks c child) \<Longrightarrow> 1 \<le> c \<Longrightarrow> describes to_spec child_seed cfg seed child n b m \<Longrightarrow>
    describes to_spec child_seed cfg seed i n (for_ticks_node i c b) m"
| describes_wait: "oget (bc_behaviours cfg) i = Some (RawWait c) \<Longrightarrow> 1 \<le> c \<Longrightarrow> describes to_spec child_seed cfg seed i n (wait_node i c) n"
| describes_condition: "oget (bc_behaviours cfg) i = Some (RawCondition src) \<Longrightarrow> parse_condition src = Inr e \<Longrightarrow> validate (bc_env cfg) e = Inr () \<Longrightarrow>
    describes to_spec child_seed cfg seed i n (Condition i e) n"
| describes_honest: "oget (bc_behaviours cfg) i = Some RawHonest \<Longrightarrow> describes to_spec child_seed cfg seed i n (Action i HonestAction) n"
| describes_action: "oget (bc_behaviours cfg) i = Some (RawAction kind params) \<Longrightarrow> to_spec params = Inr spec \<Longrightarrow>
    describes to_spec child_seed cfg seed i n (Action i (build_action spec (child_seed seed n))) (n + 1)"
| describe_none: "describe_all to_spec child_seed cfg seed [] n [] n"
| describe_more: "describes to_spec child_seed cfg seed i n b k \<Longrightarrow> describe_all to_spec child_seed cfg seed ids k bs m \<Longrightarrow>
    describe_all to_spec child_seed cfg seed (i # ids) n (b # bs) m"

abbreviation registered :: "leaf_action \<Rightarrow> bool" where
  "registered a \<equiv> a = HonestAction \<or> a \<in> range (case_prod build_action)"

lemma registered_build [simp]: "build_action spec s \<in> range (case_prod build_action)"
  by (rule range_eqI [of _ _ "(spec, s)"]) simp

lemma described_ok:
  "describes to_spec child_seed cfg seed i n b m \<Longrightarrow> tree_ok b \<and> all_leaves registered b"
  "describe_all to_spec child_seed cfg seed ids n bs m \<Longrightarrow> list_all tree_ok bs \<and> list_all (all_leaves registered) bs"
  by (induction rule: describes_describe_all.inducts) (auto simp: join_node_def for_ticks_node_def wait_node_def simp del: build_action.simps)

lemma first_error_ok [simp]: "first_error rs = Inr () \<longleftrightarrow> (\<forall>r\<in>set rs. r = Inr ())"
  by (induction rs) (auto split: sum.splits)

lemma first_error_map_ok: "first_error (map f xs) = Inr () \<longleftrightarrow> (\<forall>x\<in>set xs. f x = Inr ())"
  by auto

lemma first_error_map_err: "first_error (map f xs) = Inl e \<Longrightarrow> \<exists>x\<in>set xs. f x = Inl e"
  by (induction xs) (auto split: sum.splits)

text \<open>A configuration that passes the checks has each definition checked.\<close>

definition checked :: "(toml_table \<Rightarrow> string + action_spec) \<Rightarrow> bt_config \<Rightarrow> bool" where
  "checked to_spec cfg \<longleftrightarrow>
     (\<forall>i raw. oget (bc_behaviours cfg) i = Some raw \<longrightarrow> check_behaviour cfg (i, raw) = Inr () \<and> check_leaf to_spec cfg (i, raw) = Inr ())"

lemma validate_config_iff:
  "validate_config to_spec cfg = Inr () \<longleftrightarrow>
     (\<exists>run. bc_run cfg = Some run \<and> ohas (bc_behaviours cfg) (br_root run) \<and> check_acyclic cfg [] (br_root run) = Inr ()) \<and> checked to_spec cfg"
  by (auto simp: validate_config_def validate_structure_def checked_def in_entries_iff [symmetric] dest: first_error_map_err
      split: option.splits sum.splits if_splits) (metis Inl_Inr_False first_error_map_err surj_pair)

lemma require_defined_ok [simp]: "require_defined cfg i c = Inr () \<longleftrightarrow> ohas (bc_behaviours cfg) c"
  by (simp add: require_defined_def)

lemma checked_children: "check_behaviour cfg (i, raw) = Inr () \<Longrightarrow> c \<in> set (raw_children raw) \<Longrightarrow> ohas (bc_behaviours cfg) c"
  by (cases raw) (auto simp: first_error_map_ok split: if_splits)

lemma acyclic_children:
  assumes "check_acyclic cfg trail i = Inr ()" and "oget (bc_behaviours cfg) i = Some raw"
  shows "i \<notin> set trail \<and> (\<forall>c\<in>set (raw_children raw). check_acyclic cfg (trail @ [i]) c = Inr ())"
  using assms by (subst (asm) check_acyclic.simps) (auto simp: children_of_def ohas_def first_error_map_ok split: if_splits)

lemma unit_result: "(r :: 'e + unit) \<noteq> Inr () \<longleftrightarrow> (\<exists>e. r = Inl e)"
  by (cases r) auto

text \<open>The expansion of a checked definition succeeds, with the tree the definition describes.\<close>

abbreviation reachable_ok :: "bt_config \<Rightarrow> string list \<Rightarrow> string \<Rightarrow> bool" where
  "reachable_ok cfg trail i \<equiv> ohas (bc_behaviours cfg) i \<and> check_acyclic cfg trail i = Inr ()"


lemma bound_condition:
  assumes "checked to_spec cfg" and "oget (bc_behaviours cfg) i = Some (RawCondition src)"
  shows "\<exists>e. bd_condition (consensus_binders to_spec child_seed) src = Inr e \<and> parse_condition src = Inr e \<and> validate (bc_env cfg) e = Inr ()"
proof -
  have "check_leaf to_spec cfg (i, RawCondition src) = Inr ()" using assms unfolding checked_def by blast
  then show ?thesis by (auto simp: check_leaf_def consensus_binders_def split: sum.splits)
qed

lemma bound_action:
  assumes "checked to_spec cfg" and "oget (bc_behaviours cfg) i = Some (RawAction kind params)"
  shows "\<exists>spec. to_spec params = Inr spec \<and> bd_action (consensus_binders to_spec child_seed) kind params s = Inr (build_action spec s)"
proof -
  have "check_leaf to_spec cfg (i, RawAction kind params) = Inr ()" using assms unfolding checked_def by blast
  then show ?thesis by (auto simp: check_leaf_def consensus_binders_def split: sum.splits)
qed

lemma binders_simps [simp]:
  "bd_honest (consensus_binders to_spec child_seed) = HonestAction" "bd_child_seed (consensus_binders to_spec child_seed) = child_seed"
  by (simp_all add: consensus_binders_def)

lemma expand_all_describes:
  assumes "\<And>i n. i \<in> set ids \<Longrightarrow> \<exists>b m. expand_with bd cfg seed trail i n = Inr (b, m) \<and> describes to_spec child_seed cfg seed i n b m"
  shows "\<exists>bs m. expand_all bd cfg seed trail ids n = Inr (bs, m) \<and> describe_all to_spec child_seed cfg seed ids n bs m"
  using assms
proof (induction ids arbitrary: n)
  case (Cons i ids)
  from Cons.prems [of i n] obtain b k where b: "expand_with bd cfg seed trail i n = Inr (b, k)" "describes to_spec child_seed cfg seed i n b k" by auto
  from Cons.IH [OF Cons.prems, of k] obtain bs m where
    "expand_all bd cfg seed trail ids k = Inr (bs, m)" "describe_all to_spec child_seed cfg seed ids k bs m" by auto
  with b show ?case by (auto intro: describe_more)
qed (auto intro: describe_none)

lemma expand_describes:
  assumes ck: "checked to_spec cfg"
  shows "reachable_ok cfg trail i \<Longrightarrow>
    \<exists>b m. expand_with (consensus_binders to_spec child_seed) cfg seed trail i n = Inr (b, m) \<and> describes to_spec child_seed cfg seed i n b m"
proof (induction "off_path cfg trail" arbitrary: trail i n rule: less_induct)
  case less
  let ?bd = "consensus_binders to_spec child_seed"
  from less.prems obtain raw where raw: "oget (bc_behaviours cfg) i = Some raw" by (auto simp: ohas_def)
  have i: "i \<notin> set trail" and acyclic: "\<And>c. c \<in> set (raw_children raw) \<Longrightarrow> check_acyclic cfg (trail @ [i]) c = Inr ()"
    using acyclic_children [OF conjunct2 [OF less.prems] raw] by auto
  have cb: "check_behaviour cfg (i, raw) = Inr ()" using ck raw unfolding checked_def by blast
  have child: "\<exists>b m. expand_with ?bd cfg seed (trail @ [i]) c k = Inr (b, m) \<and> describes to_spec child_seed cfg seed c k b m"
    if "c \<in> set (raw_children raw)" for c k
    using less.hyps [OF off_path_decreases [OF conjunct1 [OF less.prems] i]] acyclic [OF that] checked_children [OF cb that] by blast
  note eq = expand_with.simps [of ?bd cfg seed trail i n]
  show ?case
  proof (cases raw)
    case (RawSelector ids)
    with expand_all_describes [OF child, of ids n] show ?thesis using eq i raw by (auto intro: describes_selector)
  next
    case (RawSequence ids)
    with expand_all_describes [OF child, of ids n] show ?thesis using eq i raw by (auto intro: describes_sequence)
  next
    case (RawJoin ids)
    with expand_all_describes [OF child, of ids n] show ?thesis using eq i raw by (auto intro: describes_join)
  next
    case (RawForTicks c b)
    with child [of b n] cb show ?thesis using eq i raw by (auto intro: describes_for_ticks split: if_splits)
  next
    case (RawWait c)
    with cb show ?thesis using eq i raw by (auto intro: describes_wait split: if_splits)
  next
    case (RawCondition src)
    with bound_condition [OF ck, of i src child_seed] show ?thesis using eq i raw by (auto intro: describes_condition)
  next
    case RawHonest
    then show ?thesis using eq i raw by (auto intro: describes_honest)
  next
    case (RawAction kind params)
    with bound_action [OF ck, of i kind params child_seed "child_seed seed n"] show ?thesis using eq i raw
      by (auto simp del: build_action.simps intro: describes_action [where n = n, simplified])
  qed
qed

subsection \<open>Properties\<close>

text \<open>C37: validation is exactly what stands between a configuration and a running tree. Whatever \<open>validate_config\<close> reports,
  compilation reports the same; and when it accepts, compilation cannot fail: expansion ends, meets no cycle, no missing child and no
  leaf it cannot build, and returns the tree the definitions describe from the root, with every condition type-checked against
  the environment, every count at least one, every leaf from the registry, the seeds of the actions numbered in depth-first order, and
  the run-time invariant of a tree.\<close>

theorem compile_exact:
  "case validate_config to_spec cfg of
     Inl e \<Rightarrow> compile to_spec child_seed cfg = Inl e
   | Inr _ \<Rightarrow> \<exists>run b m. bc_run cfg = Some run
       \<and> compile to_spec child_seed cfg = Inr \<lparr>bt_name = br_name run, bt_seed = unat (br_seed run), bt_root = b\<rparr>
       \<and> describes to_spec child_seed cfg (br_seed run) (br_root run) 0 b m
       \<and> tree_ok b \<and> all_leaves (\<lambda>a. a = HonestAction \<or> a \<in> range (case_prod build_action)) b"
proof (cases "validate_config to_spec cfg")
  case (Inr u)
  then have v: "validate_config to_spec cfg = Inr ()" by simp
  then obtain run where run: "bc_run cfg = Some run" "reachable_ok cfg [] (br_root run)" and ck: "checked to_spec cfg"
    unfolding validate_config_iff by blast
  obtain b m where b: "expand_with (consensus_binders to_spec child_seed) cfg (br_seed run) [] (br_root run) 0 = Inr (b, m)"
      "describes to_spec child_seed cfg (br_seed run) (br_root run) 0 b m"
    using expand_describes [OF ck run(2)] by blast
  have "validate_structure cfg = Inr ()" using v by (auto simp: validate_config_def split: sum.splits)
  then have "compile to_spec child_seed cfg = Inr \<lparr>bt_name = br_name run, bt_seed = unat (br_seed run), bt_root = b\<rparr>"
    using v run(1) b(1) by (simp add: compile_def compile_with_def)
  with run(1) b(2) described_ok(1) [OF b(2)] show ?thesis by (simp add: v) blast
qed (simp add: compile_def)

text \<open>A configuration that passes, from its TOML tables on: an attack behind a condition, with an honest fallback.\<close>

definition sample_toml :: toml_table where
  "sample_toml =
     [(''run'', TomlTable [(''name'', TomlString ''demo''), (''seed'', TomlInteger 7), (''root'', TomlString ''top'')]),
      (''env'', TomlTable [(''attack'', TomlTable [(''start'', TomlInteger 100)])]),
      (''behaviours'', TomlTable
        [(''top'', TomlTable [(''type'', TomlString ''Selector''), (''children'', TomlArray [TomlString ''guarded'', TomlString ''honest''])]),
         (''guarded'', TomlTable [(''type'', TomlString ''Sequence''), (''children'', TomlArray [TomlString ''when'', TomlString ''lazy''])]),
         (''when'', TomlTable [(''type'', TomlString ''Condition''), (''expression'', TomlString ''cardano.current_slot >= env.attack.start'')]),
         (''lazy'', TomlTable [(''type'', TomlString ''Action''), (''spec'', TomlTable [(''kind'', TomlString ''echo-to-source'')])]),
         (''honest'', TomlTable [(''type'', TomlString ''HonestAction'')])])]"

definition sample_spec :: "toml_table \<Rightarrow> string + action_spec" where
  "sample_spec t = (if map_of t ''kind'' = Some (TomlString ''echo-to-source'') then Inr SpecEchoToSource else Inl ''unknown kind'')"

lemma sample_compiles:
  "case parse_config sample_toml of Inl e \<Rightarrow> False | Inr cfg \<Rightarrow> validate_config sample_spec cfg = Inr ()"
  by code_simp

end
