(* ===== verification/Coordinator.thy ===== *)
theory Coordinator
  imports Leios_Store Tx_Submission
begin

text \<open>
  \<open>net-rs/net-core/src/multi_peer\<close>: the coordinator, the one task that owns all peers of a node. It turns events of the peer tasks
  into events for the application, routes the application's commands to peers and stores, dials, drops and redials peers, and
  bounds what one address and one host can hold.

  \<^item> Peer numbers are never used twice (64 bits, counted up): \<open>nat\<close>. Instants and durations are nanoseconds; a turn of the main loop
    reads one clock value, \<open>now\<close>.
  \<^item> A peer task is seen through its handle: the commands queued in its channel, whether it dropped the channel, whether it has
    finished. What tasks, the application and the listening socket do in between is a step of their own.
  \<^item> A hash map is iterated in some order: two functions of the environment give it, and every fact holds for any
    permutation. \<open>SocketAddr\<close> text, hosts and loopback, block points and the codec are parameters too.
  \<^item> Left out: logging, byte counters, the value of the downstream flags (that a peer has one is kept).
\<close>

abbreviation secs :: "nat \<Rightarrow> nat" where
  "secs n \<equiv> n * 1000000000"

definition PEER_COMMAND_CAPACITY :: nat where "PEER_COMMAND_CAPACITY = 4096"
definition NETWORK_EVENTS_CAPACITY :: nat where "NETWORK_EVENTS_CAPACITY = 65536"
definition MIN_EMIT_HEADROOM :: nat where "MIN_EMIT_HEADROOM = 1024"
definition REINTERSECT_BACKOFF_BASE :: nat where "REINTERSECT_BACKOFF_BASE = secs 1"
definition REINTERSECT_BACKOFF_MAX :: nat where "REINTERSECT_BACKOFF_MAX = secs 30"
definition BASE_RECONNECT_BACKOFF :: nat where "BASE_RECONNECT_BACKOFF = secs 1"
definition MAX_RECONNECT_BACKOFF :: nat where "MAX_RECONNECT_BACKOFF = secs 30"
definition STABLE_CONNECTION_DWELL :: nat where "STABLE_CONNECTION_DWELL = secs 10"

subsection \<open>Chain fragments\<close>

record chain_fragment =
  fr_points :: "point list"
  fr_point_set :: "point set"

definition fragment_new :: chain_fragment where
  "fragment_new = \<lparr>fr_points = [], fr_point_set = {}\<rparr>"

definition set_intersection :: "point \<Rightarrow> chain_fragment \<Rightarrow> chain_fragment" where
  "set_intersection p f = \<lparr>fr_points = [p], fr_point_set = {p}\<rparr>"

definition fragment_append :: "point \<Rightarrow> chain_fragment \<Rightarrow> chain_fragment" where
  "fragment_append p f =
     (if p \<in> fr_point_set f then f else \<lparr>fr_points = fr_points f @ [p], fr_point_set = insert p (fr_point_set f)\<rparr>)"

definition fragment_rollback_to :: "point \<Rightarrow> chain_fragment \<Rightarrow> chain_fragment" where
  "fragment_rollback_to p f =
     (if p \<in> set (fr_points f) then
        let pos = length (takeWhile (\<lambda>q. q \<noteq> p) (fr_points f))
        in \<lparr>fr_points = take (pos + 1) (fr_points f), fr_point_set = fr_point_set f - set (drop (pos + 1) (fr_points f))\<rparr>
      else f)"

definition fragment_contains :: "chain_fragment \<Rightarrow> point \<Rightarrow> bool" where
  "fragment_contains f p \<longleftrightarrow> p \<in> fr_point_set f"

subsection \<open>Deduplication of Leios offers\<close>

record offer_dedup =
  od_seen_eb :: "(nat \<times> u64 \<times> hash32) set"
  od_seen_eb_txs :: "(nat \<times> u64 \<times> hash32) set"
  od_seen_votes :: "(nat \<times> hash32 \<times> u16, u64) omap"
  od_max_slot :: u64
  od_window :: u64

definition offer_dedup_new :: "u64 \<Rightarrow> offer_dedup" where
  "offer_dedup_new window = \<lparr>od_seen_eb = {}, od_seen_eb_txs = {}, od_seen_votes = oempty, od_max_slot = 0, od_window = window\<rparr>"

definition update_slot :: "u64 \<Rightarrow> offer_dedup \<Rightarrow> offer_dedup" where
  "update_slot slot d =
     (if slot > od_max_slot d then
        let cutoff = saturating_sub slot (od_window d)
        in d\<lparr>od_max_slot := slot,
             od_seen_eb := {(p, s, h) \<in> od_seen_eb d. s \<ge> cutoff},
             od_seen_eb_txs := {(p, s, h) \<in> od_seen_eb_txs d. s \<ge> cutoff},
             od_seen_votes := oretain (\<lambda>_ s. s \<ge> cutoff) (od_seen_votes d)\<rparr>
      else d)"

definition fresh_eb :: "nat \<Rightarrow> u64 \<Rightarrow> hash32 \<Rightarrow> offer_dedup \<Rightarrow> bool \<times> offer_dedup" where
  "fresh_eb peer slot hash d =
     (let d1 = update_slot slot d
      in ((peer, slot, hash) \<notin> od_seen_eb d1, d1\<lparr>od_seen_eb := insert (peer, slot, hash) (od_seen_eb d1)\<rparr>))"

definition fresh_eb_txs :: "nat \<Rightarrow> u64 \<Rightarrow> hash32 \<Rightarrow> offer_dedup \<Rightarrow> bool \<times> offer_dedup" where
  "fresh_eb_txs peer slot hash d =
     (let d1 = update_slot slot d
      in ((peer, slot, hash) \<notin> od_seen_eb_txs d1, d1\<lparr>od_seen_eb_txs := insert (peer, slot, hash) (od_seen_eb_txs d1)\<rparr>))"

fun fresh_votes_loop :: "nat \<Rightarrow> u64 \<Rightarrow> vote list \<Rightarrow> (nat \<times> hash32 \<times> u16, u64) omap \<Rightarrow> vote list \<times> (nat \<times> hash32 \<times> u16, u64) omap" where
  "fresh_votes_loop peer seen_slot [] seen = ([], seen)"
| "fresh_votes_loop peer seen_slot (v # votes) seen =
     (let key = (peer, vt_announcing_rb_hash v, vt_voter_id v);
          (out, seen') = fresh_votes_loop peer seen_slot votes (oput key seen_slot seen)
      in (if ohas seen key then out else v # out, seen'))"

definition fresh_votes :: "nat \<Rightarrow> vote list \<Rightarrow> offer_dedup \<Rightarrow> vote list \<times> offer_dedup" where
  "fresh_votes peer votes d =
     (let (out, seen) = fresh_votes_loop peer (od_max_slot d) votes (od_seen_votes d) in (out, d\<lparr>od_seen_votes := seen\<rparr>))"

subsection \<open>Events and commands\<close>

datatype (plugins only: code) peer_event =
    PE_Connected u8
  | PE_IntersectionFound point bool "u64 option"
  | PE_HeaderAnnounced full_header tip
  | PE_RolledBack point tip
  | PE_BlockFetched "u8 list"
  | PE_LatencyMeasured nat
  | PE_PeersDiscovered "peer_address list"
  | PE_TransactionReceived tx_body u16
  | PE_TxsRequested u16
  | PE_LeiosBlockAnnounced full_header
  | PE_LeiosBlockOffered point
  | PE_LeiosBlockTxsOffered point
  | PE_LeiosVotesReceived "vote list"
  | PE_LeiosBlockFetched point "u8 list"
  | PE_LeiosBlockFetchFailed point
  | PE_LeiosBlockTxsFetched point "tx_body list"
  | PE_BlockFetchFailed point point
  | PE_Failed string

datatype (plugins only: code) peer_command =
    FetchBlocks point point
  | RequestPeers u8
  | PC_FetchLeiosBlock point
  | PC_FetchLeiosBlockTxs point tx_bitmap
  | PC_ProvideTxs "pending_tx list"
  | PC_ReIntersect
  | PC_Disconnect

datatype connection_mode = InitiatorOnly | Duplex

record peer_info =
  pn_peer_id :: nat
  pn_address :: string
  pn_mode :: connection_mode
  pn_rtt :: "nat option"
  pn_tip_block_no :: "u64 option"
  pn_inbound_delay :: nat

datatype (plugins only: code) network_event =
    PeerConnected nat string
  | PeerDisconnected nat string
  | TipAdvanced nat tip full_header
  | IntersectionFound nat point bool "u64 option"
  | RolledBack nat point tip
  | BlockReceived point "u8 list"
  | BlockFetchFailed "nat option" point point
  | PeersDiscovered nat "peer_address list"
  | TransactionReceived nat tx_body u16
  | TxsRequested nat u16
  | LeiosBlockAnnounced full_header
  | LeiosBlockOffered nat point
  | LeiosBlockTxsOffered nat point
  | LeiosBlockReceived nat point "u8 list"
  | LeiosBlockFetchFailed nat point
  | LeiosVotesReceived nat "vote list"
  | LeiosBlockTxsReceived nat point "tx_body list"
  | PeerSnapshot "peer_info list"

datatype (plugins only: code) network_command =
    AddPeer string
  | AddDiscoveredPeer string
  | FetchBlock point
  | FetchBlockRange point point "nat option"
  | DiscoverPeers
  | DiscoverPeersFrom nat u8
  | ReIntersect nat
  | InjectBlock point full_header "u8 list" u64
  | InjectRollback point
  | FetchLeiosBlock nat point
  | FetchLeiosBlockTxs nat point tx_bitmap
  | InjectLeiosBlock point "u8 list"
  | InjectLeiosBlockTxs point "tx_body list"
  | RecordLeiosEbManifest "nat option" point "tx_id list"
  | InjectLeiosVotes "vote list"
  | ProvideTxs nat "pending_tx list"
  | QueryPeers
  | DropInboundPeers
  | SetPeerBlocklist "string list"
  | Shutdown

subsection \<open>State\<close>

text \<open>A peer; \<open>pe_ip_guard\<close> is the host whose slot an accepted peer holds.\<close>

record peer_state =
  pe_address :: string
  pe_mode :: connection_mode
  pe_ip_guard :: "nat option"
  pe_commands :: "peer_command list"
  pe_closed :: bool
  pe_finished :: bool
  pe_tip :: "tip option"
  pe_rtt :: "nat option"
  pe_fragment :: chain_fragment
  pe_reconnect_backoff :: nat
  pe_connected_at :: "nat option"
  pe_inbound_delay :: nat
  pe_peer_sharing :: u8
  pe_last_rolled_back_to :: "point option"

record coordinator_config =
  cc_max_peers :: nat
  cc_duplex :: bool
  cc_leios_dedup_window :: u64
  cc_max_handshaking :: nat
  cc_max_connections_per_ip :: nat
  cc_peer_delays :: "(string \<times> nat) list"

record coordinator_env =
  ce_codec :: codec_ext
  ce_body_point :: "u8 list \<Rightarrow> point option"
  ce_is_loopback :: "nat \<Rightarrow> bool"
  ce_peer_order :: "(nat \<times> peer_state) list \<Rightarrow> (nat \<times> peer_state) list"
  ce_fetch_order :: "(point \<times> nat) list \<Rightarrow> (point \<times> nat) list"

text \<open>The last three fields belong to the accept loop and to the delay buffer of the main loop: the hosts of running handshakes, the
  completed connections not yet taken, and the delayed events.\<close>

record coordinator =
  co_peers :: "(nat, peer_state) omap"
  co_next_peer_id :: nat
  co_events :: "network_event list"
  co_best_tip :: "tip option"
  co_pending_fetches :: "(point, nat) omap"
  co_reconnect_queue :: "(string \<times> nat \<times> nat) list"
  co_speculative :: "string set"
  co_throttle :: "string \<Rightarrow> (nat \<times> nat) option"
  co_chain_store :: chain_store
  co_leios_store :: "leios_store option"
  co_fragment_sizes :: "(nat, nat) omap"
  co_downstream :: "nat set"
  co_ip_counts :: "nat \<Rightarrow> nat option"
  co_pending_removals :: "(nat \<times> string) list"
  co_dedup :: offer_dedup
  co_blocklist :: "string set"
  co_peershare_inflight :: "(nat, string) omap"
  co_peershare_hostile :: "string set"
  co_rtt_calls :: "(nat \<times> nat option) list"
  co_handshaking :: "nat list"
  co_inbound :: "(nat \<times> string) list"
  co_delayed :: "(nat \<times> nat \<times> peer_event) list"

definition coordinator_new :: "coordinator_config \<Rightarrow> chain_store \<Rightarrow> leios_store option \<Rightarrow> coordinator" where
  "coordinator_new cfg chain_store leios_store =
     \<lparr>co_peers = oempty, co_next_peer_id = 0, co_events = [], co_best_tip = None, co_pending_fetches = oempty, co_reconnect_queue = [],
      co_speculative = {}, co_throttle = (\<lambda>_. None), co_chain_store = chain_store, co_leios_store = leios_store, co_fragment_sizes = oempty,
      co_downstream = {}, co_ip_counts = (\<lambda>_. None), co_pending_removals = [], co_dedup = offer_dedup_new (cc_leios_dedup_window cfg),
      co_blocklist = {}, co_peershare_inflight = oempty, co_peershare_hostile = {}, co_rtt_calls = [], co_handshaking = [],
      co_inbound = [], co_delayed = []\<rparr>"

subsection \<open>Channels\<close>

definition sync_fragment_size :: "nat \<Rightarrow> nat \<Rightarrow> coordinator \<Rightarrow> coordinator" where
  "sync_fragment_size i len st = st\<lparr>co_fragment_sizes := oput i len (co_fragment_sizes st)\<rparr>"

definition emit_event :: "network_event \<Rightarrow> coordinator \<Rightarrow> coordinator" where
  "emit_event e st = (if length (co_events st) < NETWORK_EVENTS_CAPACITY then st\<lparr>co_events := co_events st @ [e]\<rparr> else st)"

definition send_peer_command :: "nat \<Rightarrow> peer_command \<Rightarrow> coordinator \<Rightarrow> bool \<times> coordinator" where
  "send_peer_command i cmd st =
     (case oget (co_peers st) i of
        None \<Rightarrow> (False, st)
      | Some p \<Rightarrow>
          if pe_closed p then (False, st\<lparr>co_pending_removals := co_pending_removals st @ [(i, ''peer command channel closed'')]\<rparr>)
          else if length (pe_commands p) \<ge> PEER_COMMAND_CAPACITY then
            (False, st\<lparr>co_pending_removals := co_pending_removals st @ [(i, ''peer command channel full'')]\<rparr>)
          else (True, st\<lparr>co_peers := oput i (p\<lparr>pe_commands := pe_commands p @ [cmd]\<rparr>) (co_peers st)\<rparr>))"

definition disconnect_all :: "nat list \<Rightarrow> coordinator \<Rightarrow> coordinator" where
  "disconnect_all ids st = foldl (\<lambda>st i. snd (send_peer_command i PC_Disconnect st)) st ids"

subsection \<open>Adding peers\<close>

definition inbound_delay_of :: "coordinator_config \<Rightarrow> string \<Rightarrow> nat" where
  "inbound_delay_of cfg address = (case map_of (cc_peer_delays cfg) address of Some d \<Rightarrow> d | None \<Rightarrow> 0)"

definition new_peer :: "coordinator_config \<Rightarrow> string \<Rightarrow> connection_mode \<Rightarrow> nat option \<Rightarrow> nat \<Rightarrow> peer_state" where
  "new_peer cfg address mode ip_guard backoff =
     \<lparr>pe_address = address, pe_mode = mode, pe_ip_guard = ip_guard, pe_commands = [], pe_closed = False, pe_finished = False, pe_tip = None,
      pe_rtt = None, pe_fragment = fragment_new, pe_reconnect_backoff = backoff, pe_connected_at = None,
      pe_inbound_delay = inbound_delay_of cfg address, pe_peer_sharing = 1, pe_last_rolled_back_to = None\<rparr>"

definition insert_peer :: "peer_state \<Rightarrow> coordinator \<Rightarrow> coordinator" where
  "insert_peer p st =
     (let i = co_next_peer_id st
      in sync_fragment_size i 0 (st\<lparr>co_next_peer_id := i + 1, co_peers := oput i p (co_peers st)\<rparr>))"

definition add_peer_with_backoff :: "coordinator_config \<Rightarrow> string \<Rightarrow> nat \<Rightarrow> coordinator \<Rightarrow> coordinator" where
  "add_peer_with_backoff cfg address backoff st =
     insert_peer (new_peer cfg address (if cc_duplex cfg then Duplex else InitiatorOnly) None backoff) st"

definition add_peer :: "coordinator_config \<Rightarrow> string \<Rightarrow> coordinator \<Rightarrow> coordinator" where
  "add_peer cfg address st = add_peer_with_backoff cfg address BASE_RECONNECT_BACKOFF st"

definition add_accepted_peer :: "coordinator_config \<Rightarrow> nat \<Rightarrow> string \<Rightarrow> coordinator \<Rightarrow> coordinator" where
  "add_accepted_peer cfg ip address st = insert_peer (new_peer cfg address Duplex (Some ip) 0) st"

definition reap_finished_peers :: "coordinator_env \<Rightarrow> coordinator \<Rightarrow> nat \<times> coordinator" where
  "reap_finished_peers env st =
     (let peers = ce_peer_order env (entries (co_peers st));
          dead = map fst (filter (\<lambda>(_, p). pe_finished p) peers);
          live = length (filter (\<lambda>(_, p). \<not> pe_finished p) peers)
      in (live, st\<lparr>co_pending_removals :=
            foldl (\<lambda>rs i. if i \<in> fst ` set rs then rs else rs @ [(i, ''peer task already exited (reaped at cap)'')]) (co_pending_removals st) dead\<rparr>))"

definition has_live_peer_for_address :: "coordinator \<Rightarrow> string \<Rightarrow> bool" where
  "has_live_peer_for_address st address \<longleftrightarrow> list_ex (\<lambda>p. pe_address p = address \<and> \<not> pe_finished p) (ovalues (co_peers st))"

subsection \<open>Removing peers\<close>

text \<open>The slot of a host, reserved when a connection is accepted and released when its guard is dropped.\<close>

definition reserve_ip :: "nat \<Rightarrow> coordinator \<Rightarrow> coordinator" where
  "reserve_ip ip st = st\<lparr>co_ip_counts := (co_ip_counts st)(ip \<mapsto> (case co_ip_counts st ip of Some n \<Rightarrow> n | None \<Rightarrow> 0) + 1)\<rparr>"

definition decrement_ip_count :: "nat \<Rightarrow> coordinator \<Rightarrow> coordinator" where
  "decrement_ip_count ip st =
     (case co_ip_counts st ip of
        None \<Rightarrow> st
      | Some n \<Rightarrow> st\<lparr>co_ip_counts := (co_ip_counts st)(ip := (if n - 1 = 0 then None else Some (n - 1)))\<rparr>)"

definition note_peershare_reset :: "nat \<Rightarrow> string \<Rightarrow> coordinator \<Rightarrow> coordinator" where
  "note_peershare_reset i reason st =
     (case oget (co_peershare_inflight st) i of
        None \<Rightarrow> st
      | Some address \<Rightarrow>
          let locally_initiated = reason \<in> {''disconnect requested'', ''peer command channel full'', ''peer command channel closed''}
          in st\<lparr>co_peershare_inflight := odel i (co_peershare_inflight st),
                co_peershare_hostile := (if locally_initiated then co_peershare_hostile st else insert address (co_peershare_hostile st))\<rparr>)"

definition reschedule :: "nat \<Rightarrow> peer_state \<Rightarrow> coordinator \<Rightarrow> coordinator" where
  "reschedule now p st =
     (if pe_ip_guard p = None then
        if pe_address p \<in> co_speculative st then st\<lparr>co_speculative := co_speculative st - {pe_address p}\<rparr>
        else
          let stable = (case pe_connected_at p of Some c \<Rightarrow> now - c \<ge> STABLE_CONNECTION_DWELL | None \<Rightarrow> False);
              backoff = (if stable then BASE_RECONNECT_BACKOFF else pe_reconnect_backoff p)
          in st\<lparr>co_reconnect_queue := co_reconnect_queue st @ [(pe_address p, now + backoff, min (backoff * 2) MAX_RECONNECT_BACKOFF)]\<rparr>
      else st\<lparr>co_throttle := (co_throttle st)(pe_address p := None)\<rparr>)"

definition orphan_fetches :: "coordinator_env \<Rightarrow> nat \<Rightarrow> coordinator \<Rightarrow> coordinator" where
  "orphan_fetches env i st =
     (let orphaned = map fst (filter (\<lambda>(_, j). j = i) (ce_fetch_order env (entries (co_pending_fetches st))));
          st1 = foldl (\<lambda>st p. emit_event (BlockFetchFailed (Some i) p p) st) st orphaned
      in foldl (\<lambda>st p. st\<lparr>co_pending_fetches := odel p (co_pending_fetches st)\<rparr>) st1 orphaned)"

definition remove_peer :: "coordinator_env \<Rightarrow> nat \<Rightarrow> nat \<Rightarrow> string \<Rightarrow> coordinator \<Rightarrow> coordinator" where
  "remove_peer env now i reason st0 =
     (let st = note_peershare_reset i reason st0;
          st1 = st\<lparr>co_downstream := co_downstream st - {i}\<rparr>
      in case oget (co_peers st1) i of
           None \<Rightarrow> st1
         | Some p \<Rightarrow>
             let st2 = st1\<lparr>co_peers := odel i (co_peers st1), co_fragment_sizes := odel i (co_fragment_sizes st1)\<rparr>;
                 st3 = orphan_fetches env i (reschedule now p st2);
                 st4 = (if pe_connected_at p \<noteq> None then emit_event (PeerDisconnected i reason) st3 else st3);
                 st5 = st4\<lparr>co_rtt_calls := co_rtt_calls st4 @ [(i, None)]\<rparr>
             in (case pe_ip_guard p of Some ip \<Rightarrow> decrement_ip_count ip st5 | None \<Rightarrow> st5))"

subsection \<open>Events of peers\<close>

definition on_connected :: "nat \<Rightarrow> nat \<Rightarrow> u8 \<Rightarrow> coordinator \<Rightarrow> coordinator" where
  "on_connected now i sharing st =
     (case oget (co_peers st) i of
        None \<Rightarrow> st
      | Some p \<Rightarrow>
          emit_event (PeerConnected i (pe_address p))
            (st\<lparr>co_downstream := insert i (co_downstream st),
                co_peers := oput i (p\<lparr>pe_peer_sharing := sharing, pe_connected_at := Some now\<rparr>) (co_peers st),
                co_speculative := co_speculative st - {pe_address p}\<rparr>))"

text \<open>A change of the fragment, with its size published.\<close>

definition update_fragment :: "nat \<Rightarrow> (peer_state \<Rightarrow> peer_state) \<Rightarrow> coordinator \<Rightarrow> coordinator" where
  "update_fragment i f st =
     (case oget (co_peers st) i of
        None \<Rightarrow> st
      | Some p \<Rightarrow> sync_fragment_size i (length (fr_points (pe_fragment (f p)))) (st\<lparr>co_peers := oput i (f p) (co_peers st)\<rparr>))"

definition on_intersection_found :: "nat \<Rightarrow> point \<Rightarrow> bool \<Rightarrow> u64 option \<Rightarrow> coordinator \<Rightarrow> coordinator" where
  "on_intersection_found i p initial block_no st =
     (let chain = (if initial then
            let chain1 = snd (set_anchored_above_genesis (co_chain_store st) (p \<noteq> Origin))
            in (case block_no of Some height \<Rightarrow> snd (set_intersection_anchor chain1 p height) | None \<Rightarrow> chain1)
          else co_chain_store st)
      in emit_event (IntersectionFound i p initial block_no)
           (update_fragment i (\<lambda>ps. ps\<lparr>pe_fragment := set_intersection p (pe_fragment ps)\<rparr>) (st\<lparr>co_chain_store := chain\<rparr>)))"

definition on_header_announced :: "coordinator_env \<Rightarrow> nat \<Rightarrow> full_header \<Rightarrow> tip \<Rightarrow> coordinator \<Rightarrow> coordinator" where
  "on_header_announced env i header tip st =
     (let header_point = (case wrapped_point (ce_codec env) header of Some p \<Rightarrow> p | None \<Rightarrow> tip_point tip);
          st1 = update_fragment i (\<lambda>ps. ps\<lparr>pe_tip := Some tip, pe_fragment := fragment_append header_point (pe_fragment ps),
                  pe_last_rolled_back_to := None\<rparr>) st;
          dominated = (case co_best_tip st1 of None \<Rightarrow> False | Some best \<Rightarrow> tip_block_no tip \<le> tip_block_no best);
          st2 = (if dominated then st1 else st1\<lparr>co_best_tip := Some tip\<rparr>)
      in emit_event (TipAdvanced i tip header) st2)"

definition on_rolled_back :: "nat \<Rightarrow> point \<Rightarrow> tip \<Rightarrow> coordinator \<Rightarrow> coordinator" where
  "on_rolled_back i p tip st =
     (let duplicate = (case oget (co_peers st) i of Some ps \<Rightarrow> pe_last_rolled_back_to ps = Some p | None \<Rightarrow> False);
          st1 = update_fragment i (\<lambda>ps. ps\<lparr>pe_tip := Some tip, pe_fragment := fragment_rollback_to p (pe_fragment ps),
                  pe_last_rolled_back_to := Some p\<rparr>) st
      in if duplicate then st1 else emit_event (RolledBack i p tip) st1)"

definition on_block_fetched :: "coordinator_env \<Rightarrow> u8 list \<Rightarrow> coordinator \<Rightarrow> coordinator" where
  "on_block_fetched env body st =
     (let p = (case ce_body_point env body of Some p \<Rightarrow> p | None \<Rightarrow> Origin)
      in emit_event (BlockReceived p body) (st\<lparr>co_pending_fetches := odel p (co_pending_fetches st)\<rparr>))"

definition on_latency_measured :: "nat \<Rightarrow> nat \<Rightarrow> coordinator \<Rightarrow> coordinator" where
  "on_latency_measured i rtt st =
     (case oget (co_peers st) i of
        Some p \<Rightarrow>
          if pe_ip_guard p = None then
            let combined = rtt + pe_inbound_delay p
            in st\<lparr>co_peers := oput i (p\<lparr>pe_rtt := Some combined\<rparr>) (co_peers st), co_rtt_calls := co_rtt_calls st @ [(i, Some combined)]\<rparr>
          else st
      | None \<Rightarrow> st)"

definition on_peers_discovered :: "nat \<Rightarrow> peer_address list \<Rightarrow> coordinator \<Rightarrow> coordinator" where
  "on_peers_discovered i peers st =
     emit_event (PeersDiscovered i peers) (st\<lparr>co_peershare_inflight := odel i (co_peershare_inflight st)\<rparr>)"

definition on_leios_store :: "(leios_store \<Rightarrow> leios_store) \<Rightarrow> coordinator \<Rightarrow> coordinator" where
  "on_leios_store f st = st\<lparr>co_leios_store := map_option f (co_leios_store st)\<rparr>"

definition on_leios_block_announced :: "coordinator_env \<Rightarrow> nat \<Rightarrow> full_header \<Rightarrow> coordinator \<Rightarrow> coordinator" where
  "on_leios_block_announced env i header st =
     emit_event (LeiosBlockAnnounced header) (on_leios_store (\<lambda>s. announce_block (ce_codec env) s header (Some (of_nat i))) st)"

definition on_leios_block_offered :: "nat \<Rightarrow> point \<Rightarrow> coordinator \<Rightarrow> coordinator" where
  "on_leios_block_offered i p st =
     (case p of
        Origin \<Rightarrow> st
      | Specific slot hash \<Rightarrow>
          let (fresh, d) = fresh_eb i slot hash (co_dedup st); st1 = st\<lparr>co_dedup := d\<rparr>
          in if fresh then emit_event (LeiosBlockOffered i p) st1 else st1)"

definition on_leios_block_txs_offered :: "nat \<Rightarrow> point \<Rightarrow> coordinator \<Rightarrow> coordinator" where
  "on_leios_block_txs_offered i p st =
     (case p of
        Origin \<Rightarrow> st
      | Specific slot hash \<Rightarrow>
          let (fresh, d) = fresh_eb_txs i slot hash (co_dedup st); st1 = st\<lparr>co_dedup := d\<rparr>
          in if fresh then emit_event (LeiosBlockTxsOffered i p) st1 else st1)"

definition on_leios_votes_received :: "coordinator_env \<Rightarrow> nat \<Rightarrow> vote list \<Rightarrow> coordinator \<Rightarrow> coordinator" where
  "on_leios_votes_received env i votes st =
     (let (fresh, d) = fresh_votes i votes (co_dedup st); st1 = st\<lparr>co_dedup := d\<rparr>
      in if fresh = [] then st1
         else emit_event (LeiosVotesReceived i fresh) (on_leios_store (\<lambda>s. inject_votes (ce_codec env) s fresh (Some (of_nat i))) st1))"

definition on_leios_block_fetched :: "coordinator_env \<Rightarrow> nat \<Rightarrow> point \<Rightarrow> u8 list \<Rightarrow> coordinator \<Rightarrow> coordinator" where
  "on_leios_block_fetched env i p block st =
     (let st1 = (case p of
            Specific slot hash \<Rightarrow>
              if cx_blake256 (ce_codec env) block = hash
              then on_leios_store (\<lambda>s. inject_block (ce_codec env) s p block (Some (of_nat i))) st else st
          | Origin \<Rightarrow> st)
      in emit_event (LeiosBlockReceived i p block) st1)"

definition on_leios_block_fetch_failed :: "coordinator_env \<Rightarrow> nat \<Rightarrow> nat \<Rightarrow> point \<Rightarrow> coordinator \<Rightarrow> coordinator" where
  "on_leios_block_fetch_failed env now i p st =
     emit_event (LeiosBlockFetchFailed i p) (remove_peer env now i ''Leios block fetch failed'' st)"

text \<open>The bodies of a response by their index in the manifest; of two equal hashes the later index counts.\<close>

definition index_bodies :: "coordinator_env \<Rightarrow> tx_id list \<Rightarrow> tx_body list \<Rightarrow> (u32, tx_body) omap" where
  "index_bodies env manifest transactions =
     (let by_hash = map_of (rev (map (\<lambda>(i, h). (h, of_nat i :: u32)) (enumerate 0 manifest)))
      in oof_list (List.map_filter (\<lambda>body. map_option (\<lambda>k. (k, body)) (by_hash (cx_blake256 (ce_codec env) body))) transactions))"

definition on_leios_block_txs_fetched :: "coordinator_env \<Rightarrow> nat \<Rightarrow> point \<Rightarrow> tx_body list \<Rightarrow> coordinator \<Rightarrow> coordinator" where
  "on_leios_block_txs_fetched env i p transactions st =
     (let st1 = (case (co_leios_store st, p) of
            (Some store, Specific slot hash) \<Rightarrow>
              (case lo_get_eb_manifest store slot hash of
                 Some manifest \<Rightarrow>
                   let indexed = index_bodies env manifest transactions
                   in if olen indexed = 0 then st
                      else st\<lparr>co_leios_store := Some (inject_block_txs (ce_codec env) store p indexed (Some (of_nat i)))\<rparr>
               | None \<Rightarrow> st)
          | _ \<Rightarrow> st)
      in emit_event (LeiosBlockTxsReceived i p transactions) st1)"

definition on_range_fetch_failed :: "nat \<Rightarrow> point \<Rightarrow> point \<Rightarrow> coordinator \<Rightarrow> coordinator" where
  "on_range_fetch_failed i from_p to_p st =
     emit_event (BlockFetchFailed (Some i) from_p to_p)
       (st\<lparr>co_pending_fetches := odel to_p (odel from_p (co_pending_fetches st))\<rparr>)"

primrec handle_peer_event :: "peer_event \<Rightarrow> coordinator_env \<Rightarrow> nat \<Rightarrow> nat \<Rightarrow> coordinator \<Rightarrow> coordinator" where
  "handle_peer_event (PE_Connected sharing) env now i st = on_connected now i sharing st"
| "handle_peer_event (PE_IntersectionFound p initial block_no) env now i st = on_intersection_found i p initial block_no st"
| "handle_peer_event (PE_HeaderAnnounced header tip) env now i st = on_header_announced env i header tip st"
| "handle_peer_event (PE_RolledBack p tip) env now i st = on_rolled_back i p tip st"
| "handle_peer_event (PE_BlockFetched body) env now i st = on_block_fetched env body st"
| "handle_peer_event (PE_LatencyMeasured rtt) env now i st = on_latency_measured i rtt st"
| "handle_peer_event (PE_PeersDiscovered peers) env now i st = on_peers_discovered i peers st"
| "handle_peer_event (PE_TransactionReceived body era) env now i st = emit_event (TransactionReceived i body era) st"
| "handle_peer_event (PE_TxsRequested n) env now i st = emit_event (TxsRequested i n) st"
| "handle_peer_event (PE_LeiosBlockAnnounced header) env now i st = on_leios_block_announced env i header st"
| "handle_peer_event (PE_LeiosBlockOffered p) env now i st = on_leios_block_offered i p st"
| "handle_peer_event (PE_LeiosBlockTxsOffered p) env now i st = on_leios_block_txs_offered i p st"
| "handle_peer_event (PE_LeiosVotesReceived votes) env now i st = on_leios_votes_received env i votes st"
| "handle_peer_event (PE_LeiosBlockFetched p block) env now i st = on_leios_block_fetched env i p block st"
| "handle_peer_event (PE_LeiosBlockFetchFailed p) env now i st = on_leios_block_fetch_failed env now i p st"
| "handle_peer_event (PE_LeiosBlockTxsFetched p txs) env now i st = on_leios_block_txs_fetched env i p txs st"
| "handle_peer_event (PE_BlockFetchFailed from_p to_p) env now i st = on_range_fetch_failed i from_p to_p st"
| "handle_peer_event (PE_Failed reason) env now i st = remove_peer env now i reason st"

subsection \<open>Commands of the application\<close>

definition dial_allowed :: "coordinator_config \<Rightarrow> coordinator_env \<Rightarrow> string \<Rightarrow> coordinator \<Rightarrow> bool \<times> coordinator" where
  "dial_allowed cfg env address st =
     (if address \<in> co_blocklist st then (False, st)
      else if has_live_peer_for_address st address then (False, st)
      else let (live, st1) = reap_finished_peers env st in (live < cc_max_peers cfg, st1))"

definition cmd_add_peer :: "coordinator_config \<Rightarrow> coordinator_env \<Rightarrow> string \<Rightarrow> coordinator \<Rightarrow> coordinator" where
  "cmd_add_peer cfg env address st =
     (let (allowed, st1) = dial_allowed cfg env address st in if allowed then add_peer cfg address st1 else st1)"

definition cmd_add_discovered_peer :: "coordinator_config \<Rightarrow> coordinator_env \<Rightarrow> string \<Rightarrow> coordinator \<Rightarrow> coordinator" where
  "cmd_add_discovered_peer cfg env address st =
     (let (allowed, st1) = dial_allowed cfg env address st
      in if allowed then add_peer cfg address (st1\<lparr>co_speculative := insert address (co_speculative st1)\<rparr>) else st1)"

text \<open>\<open>min_by_key\<close>: the first of the entries with the least key.\<close>

fun first_min :: "('a \<Rightarrow> nat) \<Rightarrow> 'a list \<Rightarrow> 'a option" where
  "first_min key [] = None"
| "first_min key (x # xs) =
     (case first_min key xs of None \<Rightarrow> Some x | Some y \<Rightarrow> if key x \<le> key y then Some x else Some y)"

definition best_peer_for :: "coordinator_env \<Rightarrow> coordinator \<Rightarrow> point \<Rightarrow> nat option" where
  "best_peer_for env st p =
     map_option fst (first_min (\<lambda>(_, ps). case pe_rtt ps of Some r \<Rightarrow> r | None \<Rightarrow> secs 999)
       (filter (\<lambda>(_, ps). fragment_contains (pe_fragment ps) p) (ce_peer_order env (entries (co_peers st)))))"

definition cmd_fetch_block :: "coordinator_env \<Rightarrow> point \<Rightarrow> coordinator \<Rightarrow> coordinator" where
  "cmd_fetch_block env p st =
     (if ohas (co_pending_fetches st) p then st
      else case best_peer_for env st p of
             None \<Rightarrow> st
           | Some i \<Rightarrow>
               let (sent, st1) = send_peer_command i (FetchBlocks p p) st
               in if sent then st1\<lparr>co_pending_fetches := oput p i (co_pending_fetches st1)\<rparr> else st1)"

definition cmd_fetch_block_range :: "coordinator_env \<Rightarrow> point \<Rightarrow> point \<Rightarrow> nat option \<Rightarrow> coordinator \<Rightarrow> coordinator" where
  "cmd_fetch_block_range env from_p to_p peer st =
     (if ohas (co_pending_fetches st) to_p then st
      else
        let best = (case peer of
              Some i \<Rightarrow> if ohas (co_peers st) i then Some i else best_peer_for env st to_p
            | None \<Rightarrow> best_peer_for env st to_p)
        in case best of
             None \<Rightarrow> emit_event (BlockFetchFailed None from_p to_p) st
           | Some i \<Rightarrow>
               let (sent, st1) = send_peer_command i (FetchBlocks from_p to_p) st
               in if sent then st1\<lparr>co_pending_fetches := oput to_p i (co_pending_fetches st1)\<rparr>
                  else emit_event (BlockFetchFailed (Some i) from_p to_p) st1)"

definition reintersect_allowed :: "nat \<Rightarrow> nat \<Rightarrow> coordinator \<Rightarrow> bool \<times> coordinator" where
  "reintersect_allowed now i st =
     (case oget (co_peers st) i of
        None \<Rightarrow> (True, st)
      | Some p \<Rightarrow>
          (case co_throttle st (pe_address p) of
             Some (next_allowed, backoff) \<Rightarrow>
               if now < next_allowed then (False, st)
               else
                 let next_backoff = (if now > next_allowed + backoff then REINTERSECT_BACKOFF_BASE
                                     else min (backoff * 2) REINTERSECT_BACKOFF_MAX)
                 in (True, st\<lparr>co_throttle := (co_throttle st)(pe_address p \<mapsto> (now + next_backoff, next_backoff))\<rparr>)
           | None \<Rightarrow>
               (True, st\<lparr>co_throttle := (co_throttle st)(pe_address p \<mapsto> (now + REINTERSECT_BACKOFF_BASE, REINTERSECT_BACKOFF_BASE))\<rparr>)))"

definition cmd_reintersect :: "nat \<Rightarrow> nat \<Rightarrow> coordinator \<Rightarrow> coordinator" where
  "cmd_reintersect now i st =
     (let (allowed, st1) = reintersect_allowed now i st in if allowed then snd (send_peer_command i PC_ReIntersect st1) else st1)"

definition request_peers :: "nat \<Rightarrow> string \<Rightarrow> u8 \<Rightarrow> coordinator \<Rightarrow> coordinator" where
  "request_peers i address amount st =
     (let (sent, st1) = send_peer_command i (RequestPeers amount) st
      in if sent then st1\<lparr>co_peershare_inflight := oput i address (co_peershare_inflight st1)\<rparr> else st1)"

definition cmd_discover_peers :: "coordinator_env \<Rightarrow> coordinator \<Rightarrow> coordinator" where
  "cmd_discover_peers env st =
     (case find (\<lambda>(_, p). pe_peer_sharing p \<noteq> 0 \<and> pe_address p \<notin> co_peershare_hostile st) (ce_peer_order env (entries (co_peers st))) of
        None \<Rightarrow> st
      | Some (i, p) \<Rightarrow> request_peers i (pe_address p) 10 st)"

definition cmd_discover_peers_from :: "nat \<Rightarrow> u8 \<Rightarrow> coordinator \<Rightarrow> coordinator" where
  "cmd_discover_peers_from i amount st =
     (case oget (co_peers st) i of
        None \<Rightarrow> st
      | Some p \<Rightarrow>
          if pe_peer_sharing p = 0 then st
          else if pe_address p \<in> co_peershare_hostile st then st
          else request_peers i (pe_address p) amount st)"

definition peer_snapshot :: "coordinator_env \<Rightarrow> coordinator \<Rightarrow> peer_info list" where
  "peer_snapshot env st =
     map (\<lambda>(i, p). \<lparr>pn_peer_id = i, pn_address = pe_address p, pn_mode = pe_mode p, pn_rtt = pe_rtt p,
         pn_tip_block_no = map_option tip_block_no (pe_tip p), pn_inbound_delay = pe_inbound_delay p\<rparr>)
       (ce_peer_order env (entries (co_peers st)))"

definition cmd_drop_inbound_peers :: "coordinator_env \<Rightarrow> coordinator \<Rightarrow> coordinator" where
  "cmd_drop_inbound_peers env st =
     disconnect_all (map fst (filter (\<lambda>(_, p). pe_ip_guard p \<noteq> None) (ce_peer_order env (entries (co_peers st))))) st"

definition cmd_set_peer_blocklist :: "coordinator_env \<Rightarrow> string list \<Rightarrow> coordinator \<Rightarrow> coordinator" where
  "cmd_set_peer_blocklist env addresses st =
     (let st1 = st\<lparr>co_blocklist := set addresses\<rparr>
      in disconnect_all (map fst (filter (\<lambda>(_, p). pe_address p \<in> co_blocklist st1) (ce_peer_order env (entries (co_peers st1))))) st1)"

text \<open>The flag says whether the main loop goes on.\<close>

primrec handle_network_command :: "network_command \<Rightarrow> coordinator_config \<Rightarrow> coordinator_env \<Rightarrow> nat \<Rightarrow> coordinator \<Rightarrow> bool \<times> coordinator" where
  "handle_network_command (AddPeer address) cfg env now st = (True, cmd_add_peer cfg env address st)"
| "handle_network_command (AddDiscoveredPeer address) cfg env now st = (True, cmd_add_discovered_peer cfg env address st)"
| "handle_network_command (FetchBlock p) cfg env now st = (True, cmd_fetch_block env p st)"
| "handle_network_command (FetchBlockRange from_p to_p peer) cfg env now st = (True, cmd_fetch_block_range env from_p to_p peer st)"
| "handle_network_command DiscoverPeers cfg env now st = (True, cmd_discover_peers env st)"
| "handle_network_command (DiscoverPeersFrom i amount) cfg env now st = (True, cmd_discover_peers_from i amount st)"
| "handle_network_command (ReIntersect i) cfg env now st = (True, cmd_reintersect now i st)"
| "handle_network_command (InjectBlock p header body block_no) cfg env now st =
     (True, st\<lparr>co_chain_store := snd (append_block (co_chain_store st) p header body block_no)\<rparr>)"
| "handle_network_command (InjectRollback p) cfg env now st = (True, st\<lparr>co_chain_store := snd (cs_rollback_to (co_chain_store st) p)\<rparr>)"
| "handle_network_command (FetchLeiosBlock i p) cfg env now st = (True, snd (send_peer_command i (PC_FetchLeiosBlock p) st))"
| "handle_network_command (FetchLeiosBlockTxs i p bitmap) cfg env now st = (True, snd (send_peer_command i (PC_FetchLeiosBlockTxs p bitmap) st))"
| "handle_network_command (InjectLeiosBlock p block) cfg env now st =
     (True, on_leios_store (\<lambda>s. inject_block (ce_codec env) s p block None) st)"
| "handle_network_command (InjectLeiosBlockTxs p txs) cfg env now st =
     (True, on_leios_store (\<lambda>s. inject_block_txs_full (ce_codec env) s p txs None) st)"
| "handle_network_command (RecordLeiosEbManifest source p tx_hashes) cfg env now st =
     (True, on_leios_store (\<lambda>s. lo_record_eb_manifest (ce_codec env) s p tx_hashes) st)"
| "handle_network_command (InjectLeiosVotes votes) cfg env now st =
     (True, on_leios_store (\<lambda>s. inject_votes (ce_codec env) s votes None) st)"
| "handle_network_command (ProvideTxs i txs) cfg env now st = (True, snd (send_peer_command i (PC_ProvideTxs txs) st))"
| "handle_network_command QueryPeers cfg env now st = (True, emit_event (PeerSnapshot (peer_snapshot env st)) st)"
| "handle_network_command DropInboundPeers cfg env now st = (True, cmd_drop_inbound_peers env st)"
| "handle_network_command (SetPeerBlocklist addresses) cfg env now st = (True, cmd_set_peer_blocklist env addresses st)"
| "handle_network_command Shutdown cfg env now st =
     (False, disconnect_all (map fst (ce_peer_order env (entries (co_peers st)))) st)"

subsection \<open>Timers\<close>

definition reconnect_one :: "coordinator_config \<Rightarrow> coordinator_env \<Rightarrow> nat \<Rightarrow> coordinator \<Rightarrow> string \<times> nat \<Rightarrow> coordinator" where
  "reconnect_one cfg env now st ab =
     (case ab of (address, next_backoff) \<Rightarrow>
        let parked = (address, now + next_backoff, next_backoff)
        in if address \<in> co_blocklist st then st\<lparr>co_reconnect_queue := co_reconnect_queue st @ [parked]\<rparr>
           else if has_live_peer_for_address st address then st
           else
             let (live, st1) = reap_finished_peers env st
             in if live \<ge> cc_max_peers cfg then st1\<lparr>co_reconnect_queue := co_reconnect_queue st1 @ [parked]\<rparr>
                else add_peer_with_backoff cfg address next_backoff st1)"

definition process_reconnections :: "coordinator_config \<Rightarrow> coordinator_env \<Rightarrow> nat \<Rightarrow> coordinator \<Rightarrow> coordinator" where
  "process_reconnections cfg env now st =
     (let ready = map (\<lambda>(address, _, backoff). (address, backoff)) (filter (\<lambda>(_, when, _). now \<ge> when) (co_reconnect_queue st));
          still_pending = filter (\<lambda>(_, when, _). \<not> now \<ge> when) (co_reconnect_queue st)
      in foldl (reconnect_one cfg env now) (st\<lparr>co_reconnect_queue := still_pending\<rparr>) ready)"

definition swap_remove :: "nat \<Rightarrow> 'a list \<Rightarrow> 'a list" where
  "swap_remove i xs = (if i + 1 = length xs then butlast xs else (butlast xs)[i := last xs])"

text \<open>The delayed events that are due, in the order they are handled, and those that stay.\<close>

function take_due :: "nat \<Rightarrow> nat \<Rightarrow> (nat \<times> 'e) list \<Rightarrow> 'e list \<times> (nat \<times> 'e) list" where
  "take_due now i delayed =
     (if i < length delayed then
        if fst (delayed ! i) \<le> now then
          (case take_due now i (swap_remove i delayed) of (due, rest) \<Rightarrow> (snd (delayed ! i) # due, rest))
        else take_due now (i + 1) delayed
      else ([], delayed))"
  by pat_completeness auto
termination
  by (relation "measure (\<lambda>(now, i, xs). 2 * length xs - i)") (auto simp: swap_remove_def)

declare take_due.simps [simp del]

definition deliver_delayed :: "coordinator_env \<Rightarrow> nat \<Rightarrow> coordinator \<Rightarrow> coordinator" where
  "deliver_delayed env now st =
     (case take_due now 0 (co_delayed st) of (due, rest) \<Rightarrow>
        foldl (\<lambda>st (i, e). handle_peer_event e env now i st) (st\<lparr>co_delayed := rest\<rparr>) due)"

subsection \<open>The main loop\<close>

datatype loop_input = OnPeerEvent nat peer_event | OnCommand network_command | OnInbound | OnReconnectTimer | OnDelayTimer

definition have_headroom :: "coordinator \<Rightarrow> bool" where
  "have_headroom st \<longleftrightarrow> NETWORK_EVENTS_CAPACITY - length (co_events st) \<ge> MIN_EMIT_HEADROOM"

fun is_latency :: "peer_event \<Rightarrow> bool" where
  "is_latency (PE_LatencyMeasured rtt) = True"
| "is_latency _ = False"

definition on_peer_event :: "coordinator_config \<Rightarrow> coordinator_env \<Rightarrow> nat \<Rightarrow> nat \<Rightarrow> peer_event \<Rightarrow> coordinator \<Rightarrow> coordinator" where
  "on_peer_event cfg env now i e st =
     (let delay = (case oget (co_peers st) i of Some p \<Rightarrow> pe_inbound_delay p | None \<Rightarrow> 0)
      in if cc_peer_delays cfg \<noteq> [] \<and> \<not> is_latency e \<and> delay \<noteq> 0 then st\<lparr>co_delayed := co_delayed st @ [(now + delay, i, e)]\<rparr>
         else handle_peer_event e env now i st)"

definition on_inbound :: "coordinator_config \<Rightarrow> coordinator_env \<Rightarrow> coordinator \<Rightarrow> coordinator" where
  "on_inbound cfg env st =
     (case co_inbound st of
        [] \<Rightarrow> st
      | (ip, address) # rest \<Rightarrow>
          let (live, st1) = reap_finished_peers env (st\<lparr>co_inbound := rest\<rparr>)
          in if live < cc_max_peers cfg then add_accepted_peer cfg ip address st1 else decrement_ip_count ip st1)"

definition flush_removals :: "coordinator_env \<Rightarrow> nat \<Rightarrow> coordinator \<Rightarrow> coordinator" where
  "flush_removals env now st =
     foldl (\<lambda>st (i, reason). remove_peer env now i reason st) (st\<lparr>co_pending_removals := []\<rparr>) (co_pending_removals st)"

text \<open>One turn of the loop, if its branch is enabled; after a delayed event the loop starts over, after a shutdown it ends.\<close>

fun loop_turn :: "coordinator_config \<Rightarrow> coordinator_env \<Rightarrow> nat \<Rightarrow> loop_input \<Rightarrow> coordinator \<Rightarrow> bool \<times> coordinator" where
  "loop_turn cfg env now (OnPeerEvent i e) st = (True, if have_headroom st then flush_removals env now (on_peer_event cfg env now i e st) else st)"
| "loop_turn cfg env now (OnCommand c) st =
     (case handle_network_command c cfg env now st of (go_on, st1) \<Rightarrow> (go_on, if go_on then flush_removals env now st1 else st1))"
| "loop_turn cfg env now OnInbound st = (True, flush_removals env now (on_inbound cfg env st))"
| "loop_turn cfg env now OnReconnectTimer st = (True, flush_removals env now (process_reconnections cfg env now st))"
| "loop_turn cfg env now OnDelayTimer st =
     (True, if have_headroom st then flush_removals env now (deliver_delayed env now st) else st)"

text \<open>What happens outside of the loop: a task finishes, drops its channel or takes a command; the application takes an event; the
  accept loop reserves a slot, a handshake fails, or its connection is handed over.\<close>

datatype outside_step =
    TaskFinishes nat
  | TaskCloses nat
  | TaskTakes nat
  | ApplicationTakes
  | Accept nat
  | HandshakeFails nat
  | HandshakeDone nat string

definition update_peer :: "nat \<Rightarrow> (peer_state \<Rightarrow> peer_state) \<Rightarrow> coordinator \<Rightarrow> coordinator" where
  "update_peer i f st = st\<lparr>co_peers := oupdate i f (co_peers st)\<rparr>"

definition accept_connection :: "coordinator_config \<Rightarrow> coordinator_env \<Rightarrow> nat \<Rightarrow> coordinator \<Rightarrow> coordinator" where
  "accept_connection cfg env ip st =
     (if \<not> ce_is_loopback env ip \<and> (case co_ip_counts st ip of Some n \<Rightarrow> n | None \<Rightarrow> 0) \<ge> cc_max_connections_per_ip cfg then st
      else if length (co_handshaking st) \<ge> cc_max_handshaking cfg then st
      else (reserve_ip ip st)\<lparr>co_handshaking := co_handshaking st @ [ip]\<rparr>)"

definition handshake_done :: "nat \<Rightarrow> string \<Rightarrow> coordinator \<Rightarrow> coordinator" where
  "handshake_done ip address st =
     (if ip \<in> set (co_handshaking st) \<and> length (co_inbound st) < 16
      then st\<lparr>co_handshaking := remove1 ip (co_handshaking st), co_inbound := co_inbound st @ [(ip, address)]\<rparr> else st)"

definition handshake_fails :: "nat \<Rightarrow> coordinator \<Rightarrow> coordinator" where
  "handshake_fails ip st =
     (if ip \<in> set (co_handshaking st) then decrement_ip_count ip (st\<lparr>co_handshaking := remove1 ip (co_handshaking st)\<rparr>) else st)"

fun outside :: "coordinator_config \<Rightarrow> coordinator_env \<Rightarrow> outside_step \<Rightarrow> coordinator \<Rightarrow> coordinator" where
  "outside cfg env (TaskFinishes i) st = update_peer i (\<lambda>p. p\<lparr>pe_finished := True\<rparr>) st"
| "outside cfg env (TaskCloses i) st = update_peer i (\<lambda>p. p\<lparr>pe_closed := True\<rparr>) st"
| "outside cfg env (TaskTakes i) st = update_peer i (\<lambda>p. p\<lparr>pe_commands := tl (pe_commands p)\<rparr>) st"
| "outside cfg env ApplicationTakes st = st\<lparr>co_events := tl (co_events st)\<rparr>"
| "outside cfg env (Accept ip) st = accept_connection cfg env ip st"
| "outside cfg env (HandshakeFails ip) st = handshake_fails ip st"
| "outside cfg env (HandshakeDone ip address) st = handshake_done ip address st"

end
