(* ===== verification/Coordinator_Invariant.thy ===== *)
theory Coordinator_Invariant
  imports Coordinator
begin

text \<open>
  The invariant of the coordinator: references between its maps, and the bounds on peers, hosts, channels and backoffs. Every
  operation keeps it, so it holds in every state the coordinator reaches.
\<close>

subsection \<open>Counting entries\<close>

definition ocount :: "('v \<Rightarrow> bool) \<Rightarrow> ('k::linorder, 'v) omap \<Rightarrow> nat" where
  "ocount P m = length (filter (\<lambda>(k, v). P v) (entries m))"

lemma ocount_card: "ocount P m = card {k. \<exists>v. oget m k = Some v \<and> P v}"
proof -
  let ?xs = "filter (\<lambda>(k, v). P v) (entries m)"
  have "distinct (map fst ?xs)" using distinct_entries [of m] by (induction "entries m" rule: rev_induct) (auto simp: distinct_map_filter)
  then have "length ?xs = card (set (map fst ?xs))" by (metis distinct_card length_map)
  also have "set (map fst ?xs) = {k. \<exists>v. oget m k = Some v \<and> P v}" by (auto simp: in_entries_iff [symmetric] image_iff)
  finally show ?thesis by (simp add: ocount_def)
qed

lemma finite_occurrences [simp]: "finite {k. \<exists>v. oget m k = Some v \<and> P v}"
  by (rule finite_subset [OF _ finite_ohas [of m]]) (auto simp: ohas_def)

lemma ocount_oput_fresh: "oget m k = None \<Longrightarrow> ocount P (oput k v m) = ocount P m + of_bool (P v)"
proof -
  assume none: "oget m k = None"
  have "{k'. \<exists>w. oget (oput k v m) k' = Some w \<and> P w} = (if P v then {k} else {}) \<union> {k'. \<exists>w. oget m k' = Some w \<and> P w}"
    using none by (auto simp: oget_oput)
  moreover have "k \<notin> {k'. \<exists>w. oget m k' = Some w \<and> P w}" using none by simp
  ultimately show ?thesis by (simp add: ocount_card)
qed

lemma ocount_odel: "oget m k = Some v \<Longrightarrow> ocount P m = ocount P (odel k m) + of_bool (P v)"
proof -
  assume k: "oget m k = Some v"
  let ?D = "{k'. \<exists>w. oget (odel k m) k' = Some w \<and> P w}"
  have "{k'. \<exists>w. oget m k' = Some w \<and> P w} = (if P v then {k} else {}) \<union> ?D" using k by (auto simp: oget_odel split: if_splits)
  moreover have "k \<notin> ?D" by (simp add: oget_odel)
  ultimately show ?thesis by (simp add: ocount_card)
qed

lemma ocount_oput_same: "oget m k = Some v \<Longrightarrow> P v' = P v \<Longrightarrow> ocount P (oput k v' m) = ocount P m"
  unfolding ocount_card by (rule arg_cong [of _ _ card]) (auto simp: oget_oput)

lemma ocount_oput_le: "oget m k = Some v \<Longrightarrow> (P v' \<Longrightarrow> P v) \<Longrightarrow> ocount P (oput k v' m) \<le> ocount P m"
  unfolding ocount_card by (intro card_mono) (auto simp: oget_oput split: if_splits)

subsection \<open>The invariant\<close>

definition fragment_ok :: "chain_fragment \<Rightarrow> bool" where
  "fragment_ok f \<longleftrightarrow> fr_point_set f = set (fr_points f) \<and> distinct (fr_points f)"

definition backoff_ok :: "nat \<Rightarrow> bool" where
  "backoff_ok b \<longleftrightarrow> BASE_RECONNECT_BACKOFF \<le> b \<and> b \<le> MAX_RECONNECT_BACKOFF"

definition peer_ok :: "peer_state \<Rightarrow> bool" where
  "peer_ok p \<longleftrightarrow> fragment_ok (pe_fragment p) \<and> (pe_ip_guard p = None \<longrightarrow> backoff_ok (pe_reconnect_backoff p))
     \<and> length (pe_commands p) \<le> PEER_COMMAND_CAPACITY"

text \<open>Every peer is sound, has a number below the next one, and its fragment size is published.\<close>

definition peers_ok :: "(nat, peer_state) omap \<Rightarrow> nat \<Rightarrow> (nat, nat) omap \<Rightarrow> bool" where
  "peers_ok peers next_id sizes \<longleftrightarrow>
     (\<forall>i p. oget peers i = Some p \<longrightarrow> i < next_id \<and> peer_ok p) \<and>
     (\<forall>i. oget sizes i = map_option (\<lambda>p. length (fr_points (pe_fragment p))) (oget peers i))"

text \<open>A pending fetch, an unanswered request for peers and a downstream flag belong to a peer that is there.\<close>

definition refs_ok :: "(nat, peer_state) omap \<Rightarrow> (point, nat) omap \<Rightarrow> (nat, string) omap \<Rightarrow> nat set \<Rightarrow> bool" where
  "refs_ok peers fetches inflight downstream \<longleftrightarrow>
     (\<forall>p i. oget fetches p = Some i \<longrightarrow> ohas peers i) \<and> (\<forall>i. ohas inflight i \<longrightarrow> ohas peers i) \<and> (\<forall>i\<in>downstream. ohas peers i)"

text \<open>No more live peers than configured.\<close>

definition live_peers :: "(nat, peer_state) omap \<Rightarrow> nat" where
  "live_peers peers = ocount (\<lambda>p. \<not> pe_finished p) peers"

text \<open>The count of a host is the number of slots held for it: by peers, by handshakes and by connections handed over; and within the
  limit, unless the host is the loopback.\<close>

definition ip_count :: "(nat \<Rightarrow> nat option) \<Rightarrow> nat \<Rightarrow> nat" where
  "ip_count counts ip = (case counts ip of Some n \<Rightarrow> n | None \<Rightarrow> 0)"

definition slots_held :: "(nat, peer_state) omap \<Rightarrow> nat list \<Rightarrow> (nat \<times> string) list \<Rightarrow> nat \<Rightarrow> nat" where
  "slots_held peers handshaking inbound ip =
     ocount (\<lambda>p. pe_ip_guard p = Some ip) peers + count_list handshaking ip + count_list (map fst inbound) ip"

definition slots_ok ::
  "coordinator_config \<Rightarrow> coordinator_env \<Rightarrow> (nat, peer_state) omap \<Rightarrow> (nat \<Rightarrow> nat option) \<Rightarrow> nat list \<Rightarrow> (nat \<times> string) list \<Rightarrow> bool" where
  "slots_ok cfg env peers counts handshaking inbound \<longleftrightarrow>
     (\<forall>ip. counts ip \<noteq> Some 0 \<and> ip_count counts ip = slots_held peers handshaking inbound ip \<and>
        (\<not> ce_is_loopback env ip \<longrightarrow> ip_count counts ip \<le> cc_max_connections_per_ip cfg)) \<and>
     length handshaking \<le> cc_max_handshaking cfg \<and> length inbound \<le> 16"

definition timers_ok :: "(string \<times> nat \<times> nat) list \<Rightarrow> (string \<Rightarrow> (nat \<times> nat) option) \<Rightarrow> bool" where
  "timers_ok queue throttle \<longleftrightarrow>
     (\<forall>a w b. (a, w, b) \<in> set queue \<longrightarrow> backoff_ok b) \<and>
     (\<forall>a w b. throttle a = Some (w, b) \<longrightarrow> REINTERSECT_BACKOFF_BASE \<le> b \<and> b \<le> REINTERSECT_BACKOFF_MAX)"

definition co_inv :: "coordinator_config \<Rightarrow> coordinator_env \<Rightarrow> coordinator \<Rightarrow> bool" where
  "co_inv cfg env st \<longleftrightarrow>
     peers_ok (co_peers st) (co_next_peer_id st) (co_fragment_sizes st) \<and>
     refs_ok (co_peers st) (co_pending_fetches st) (co_peershare_inflight st) (co_downstream st) \<and>
     live_peers (co_peers st) \<le> cc_max_peers cfg \<and>
     slots_ok cfg env (co_peers st) (co_ip_counts st) (co_handshaking st) (co_inbound st) \<and>
     timers_ok (co_reconnect_queue st) (co_throttle st) \<and>
     length (co_events st) \<le> NETWORK_EVENTS_CAPACITY"

text \<open>The iteration orders are permutations.\<close>

definition orders_ok :: "coordinator_env \<Rightarrow> bool" where
  "orders_ok env \<longleftrightarrow> (\<forall>xs. mset (ce_peer_order env xs) = mset xs) \<and> (\<forall>xs. mset (ce_fetch_order env xs) = mset xs)"

lemma new_inv: "co_inv cfg env (coordinator_new cfg cs ls)"
  by (simp add: co_inv_def coordinator_new_def peers_ok_def refs_ok_def live_peers_def ocount_def slots_ok_def ip_count_def slots_held_def timers_ok_def)

lemma irrelevant_fields [simp]:
  "co_inv cfg env (st\<lparr>co_best_tip := a\<rparr>) = co_inv cfg env st"
  "co_inv cfg env (st\<lparr>co_speculative := b\<rparr>) = co_inv cfg env st"
  "co_inv cfg env (st\<lparr>co_chain_store := c\<rparr>) = co_inv cfg env st"
  "co_inv cfg env (st\<lparr>co_leios_store := d\<rparr>) = co_inv cfg env st"
  "co_inv cfg env (st\<lparr>co_pending_removals := e\<rparr>) = co_inv cfg env st"
  "co_inv cfg env (st\<lparr>co_dedup := f\<rparr>) = co_inv cfg env st"
  "co_inv cfg env (st\<lparr>co_blocklist := g\<rparr>) = co_inv cfg env st"
  "co_inv cfg env (st\<lparr>co_peershare_hostile := h\<rparr>) = co_inv cfg env st"
  "co_inv cfg env (st\<lparr>co_rtt_calls := i\<rparr>) = co_inv cfg env st"
  "co_inv cfg env (st\<lparr>co_delayed := j\<rparr>) = co_inv cfg env st"
  by (simp_all add: co_inv_def)

subsection \<open>The operations keep it\<close>

lemma emit_inv: "co_inv cfg env st \<Longrightarrow> co_inv cfg env (emit_event e st)"
  by (simp add: co_inv_def emit_event_def)

lemma emit_fields [simp]:
  "co_peers (emit_event e st) = co_peers st" "co_reconnect_queue (emit_event e st) = co_reconnect_queue st"
  "co_speculative (emit_event e st) = co_speculative st" "co_pending_fetches (emit_event e st) = co_pending_fetches st"
  "co_inbound (emit_event e st) = co_inbound st" "co_blocklist (emit_event e st) = co_blocklist st"
  by (simp_all add: emit_event_def)

lemma leios_store_inv [simp]: "co_inv cfg env (on_leios_store f st) = co_inv cfg env st"
  by (simp add: on_leios_store_def)

text \<open>A peer that keeps its slot, its backoff and a sound fragment may change otherwise.\<close>

lemma slots_update:
  "oget peers i = Some p \<Longrightarrow> pe_ip_guard p' = pe_ip_guard p \<Longrightarrow> slots_ok cfg env (oput i p' peers) = slots_ok cfg env peers"
  by (intro ext) (simp add: slots_ok_def slots_held_def ocount_oput_same)

lemma refs_update: "oget peers i = Some p \<Longrightarrow> refs_ok (oput i p' peers) = refs_ok peers"
proof -
  assume "oget peers i = Some p"
  then have "ohas (oput i p' peers) j = ohas peers j" for j by (auto simp: ohas_def oget_oput)
  then show ?thesis by (intro ext) (simp add: refs_ok_def del: ohas_oput)
qed

lemma peer_update_inv:
  assumes "co_inv cfg env st" and "oget (co_peers st) i = Some p" and "peer_ok p'" and "pe_ip_guard p' = pe_ip_guard p" and "pe_finished p \<longrightarrow> pe_finished p'"
  shows "co_inv cfg env (st\<lparr>co_peers := oput i p' (co_peers st), co_fragment_sizes := oput i (length (fr_points (pe_fragment p'))) (co_fragment_sizes st)\<rparr>)"
proof -
  have "live_peers (oput i p' (co_peers st)) \<le> live_peers (co_peers st)"
    unfolding live_peers_def using assms(2,5) by (intro ocount_oput_le) auto
  moreover have "peers_ok (oput i p' (co_peers st)) (co_next_peer_id st) (oput i (length (fr_points (pe_fragment p'))) (co_fragment_sizes st))"
    using assms(1-3) by (auto simp: co_inv_def peers_ok_def oget_oput)
  ultimately show ?thesis using assms(1) slots_update [OF assms(2,4)] refs_update [OF assms(2)] by (simp add: co_inv_def)
qed

lemma oput_same: "oget m k = Some v \<Longrightarrow> oput k v m = m"
  by (rule omap_eqI) (simp add: oget_oput)

lemma peer_update_inv':
  assumes "co_inv cfg env st" and "oget (co_peers st) i = Some p" and "peer_ok p'" and "pe_ip_guard p' = pe_ip_guard p" and "pe_finished p \<longrightarrow> pe_finished p'"
    and "pe_fragment p' = pe_fragment p"
  shows "co_inv cfg env (st\<lparr>co_peers := oput i p' (co_peers st)\<rparr>)"
proof -
  have "oget (co_fragment_sizes st) i = Some (length (fr_points (pe_fragment p')))"
    using assms(1,2,6) by (simp add: co_inv_def peers_ok_def)
  from oput_same [OF this] show ?thesis using peer_update_inv [OF assms(1-5)] by simp
qed

lemma inv_peer: "co_inv cfg env st \<Longrightarrow> oget (co_peers st) i = Some p \<Longrightarrow> peer_ok p"
  by (auto simp: co_inv_def peers_ok_def)

lemma send_inv: "co_inv cfg env st \<Longrightarrow> co_inv cfg env (snd (send_peer_command i cmd st))"
proof (cases "oget (co_peers st) i")
  case (Some p)
  assume inv: "co_inv cfg env st"
  then have "peer_ok p" using Some inv_peer by blast
  then have "\<not> pe_closed p \<and> length (pe_commands p) < PEER_COMMAND_CAPACITY \<Longrightarrow> peer_ok (p\<lparr>pe_commands := pe_commands p @ [cmd]\<rparr>)"
    by (simp add: peer_ok_def)
  then show ?thesis using peer_update_inv' [OF inv Some] inv Some by (auto simp: send_peer_command_def)
qed (simp add: send_peer_command_def)

lemma send_ohas: "ohas (co_peers (snd (send_peer_command i cmd st))) j = ohas (co_peers st) j"
  by (auto simp: send_peer_command_def ohas_def oget_oput split: option.splits)

lemma sent_ohas: "fst (send_peer_command i cmd st) \<Longrightarrow> ohas (co_peers st) i"
  by (auto simp: send_peer_command_def ohas_def split: option.splits if_splits)

lemma disconnect_all_inv: "co_inv cfg env st \<Longrightarrow> co_inv cfg env (disconnect_all ids st)"
  unfolding disconnect_all_def by (induction ids arbitrary: st) (simp_all add: send_inv)

lemma fetches_put_inv: "co_inv cfg env st \<Longrightarrow> ohas (co_peers st) i \<Longrightarrow> co_inv cfg env (st\<lparr>co_pending_fetches := oput p i (co_pending_fetches st)\<rparr>)"
  by (auto simp: co_inv_def refs_ok_def oget_oput)

lemma fetches_del_inv: "co_inv cfg env st \<Longrightarrow> co_inv cfg env (st\<lparr>co_pending_fetches := odel p (co_pending_fetches st)\<rparr>)"
  by (auto simp: co_inv_def refs_ok_def oget_odel split: if_splits)

lemma inflight_put_inv: "co_inv cfg env st \<Longrightarrow> ohas (co_peers st) i \<Longrightarrow> co_inv cfg env (st\<lparr>co_peershare_inflight := oput i a (co_peershare_inflight st)\<rparr>)"
  by (auto simp: co_inv_def refs_ok_def)

lemma inflight_del_inv: "co_inv cfg env st \<Longrightarrow> co_inv cfg env (st\<lparr>co_peershare_inflight := odel i (co_peershare_inflight st)\<rparr>)"
  by (auto simp: co_inv_def refs_ok_def ohas_def oget_odel split: if_splits)

lemma throttle_inv:
  "co_inv cfg env st \<Longrightarrow> REINTERSECT_BACKOFF_BASE \<le> b \<Longrightarrow> b \<le> REINTERSECT_BACKOFF_MAX \<Longrightarrow> co_inv cfg env (st\<lparr>co_throttle := (co_throttle st)(a \<mapsto> (w, b))\<rparr>)"
  by (auto simp: co_inv_def timers_ok_def)

lemma queue_inv: "co_inv cfg env st \<Longrightarrow> backoff_ok b \<Longrightarrow> co_inv cfg env (st\<lparr>co_reconnect_queue := co_reconnect_queue st @ [(a, w, b)]\<rparr>)"
  by (auto simp: co_inv_def timers_ok_def)

lemma live_reaped: "orders_ok env \<Longrightarrow> fst (reap_finished_peers env st) = live_peers (co_peers st)"
proof -
  assume "orders_ok env"
  then have "mset (ce_peer_order env (entries (co_peers st))) = mset (entries (co_peers st))" by (simp add: orders_ok_def)
  then have "mset (filter (\<lambda>(_, p). \<not> pe_finished p) (ce_peer_order env (entries (co_peers st)))) = mset (filter (\<lambda>(_, p). \<not> pe_finished p) (entries (co_peers st)))"
    by (simp add: mset_filter)
  from mset_eq_length [OF this] show ?thesis by (simp add: reap_finished_peers_def live_peers_def ocount_def Let_def)
qed

lemma reap_snd: "\<exists>rs. snd (reap_finished_peers env st) = st\<lparr>co_pending_removals := rs\<rparr>"
  by (simp add: reap_finished_peers_def Let_def) blast

lemma reap_fields [simp]:
  "co_peers (snd (reap_finished_peers env st)) = co_peers st" "co_inv cfg env' (snd (reap_finished_peers env st)) = co_inv cfg env' st"
  "co_reconnect_queue (snd (reap_finished_peers env st)) = co_reconnect_queue st" "co_speculative (snd (reap_finished_peers env st)) = co_speculative st"
  "co_inbound (snd (reap_finished_peers env st)) = co_inbound st" "co_blocklist (snd (reap_finished_peers env st)) = co_blocklist st"
  using reap_snd [of env st] by auto

lemma inv_fresh: "co_inv cfg env st \<Longrightarrow> oget (co_peers st) (co_next_peer_id st) = None"
  by (cases "oget (co_peers st) (co_next_peer_id st)") (auto simp: co_inv_def peers_ok_def)

lemma peers_insert:
  "peers_ok peers n sizes \<Longrightarrow> peer_ok p \<Longrightarrow> fr_points (pe_fragment p) = [] \<Longrightarrow> peers_ok (oput n p peers) (n + 1) (oput n 0 sizes)"
  by (fastforce simp: peers_ok_def oget_oput split: if_splits)

lemma refs_insert: "refs_ok peers fetches inflight downstream \<Longrightarrow> refs_ok (oput n p peers) fetches inflight downstream"
  by (auto simp: refs_ok_def)

lemma new_peer_ok: "guard = None \<longrightarrow> backoff_ok b \<Longrightarrow> peer_ok (new_peer cfg a m guard b)"
  by (simp add: peer_ok_def new_peer_def fragment_ok_def fragment_new_def)

lemma add_peer_inv:
  assumes inv: "co_inv cfg env st" and "live_peers (co_peers st) < cc_max_peers cfg" and "backoff_ok b"
  shows "co_inv cfg env (add_peer_with_backoff cfg a b st)"
proof -
  let ?p = "new_peer cfg a (if cc_duplex cfg then Duplex else InitiatorOnly) None b"
  have p: "peer_ok ?p" "fr_points (pe_fragment ?p) = []" "pe_ip_guard ?p = None" "\<not> pe_finished ?p"
    using assms(3) by (simp_all add: new_peer_ok) (simp_all add: new_peer_def fragment_new_def)
  note fresh = inv_fresh [OF inv]
  have "slots_held (oput (co_next_peer_id st) ?p (co_peers st)) = slots_held (co_peers st)"
    by (intro ext) (simp add: slots_held_def ocount_oput_fresh [OF fresh] p)
  then have "slots_ok cfg env (oput (co_next_peer_id st) ?p (co_peers st)) = slots_ok cfg env (co_peers st)" by (intro ext) (simp add: slots_ok_def)
  moreover have "live_peers (oput (co_next_peer_id st) ?p (co_peers st)) = live_peers (co_peers st) + 1"
    by (simp add: live_peers_def ocount_oput_fresh [OF fresh] p)
  ultimately show ?thesis
    using inv assms(2) peers_insert [of "co_peers st" "co_next_peer_id st" "co_fragment_sizes st" ?p] p refs_insert
    by (simp add: co_inv_def add_peer_with_backoff_def insert_peer_def sync_fragment_size_def Let_def)
qed

text \<open>Dropping a slot.\<close>

definition released :: "(nat \<Rightarrow> nat option) \<Rightarrow> nat \<Rightarrow> nat \<Rightarrow> nat option" where
  "released counts ip = (case counts ip of None \<Rightarrow> counts | Some n \<Rightarrow> counts(ip := (if n - 1 = 0 then None else Some (n - 1))))"

lemma decrement_released: "decrement_ip_count ip st = st\<lparr>co_ip_counts := released (co_ip_counts st) ip\<rparr>"
  by (cases "co_ip_counts st ip") (simp_all add: decrement_ip_count_def released_def)

lemma released_count: "ip_count (released counts ip) ip' = ip_count counts ip' - of_bool (ip' = ip)"
  by (auto simp: released_def ip_count_def split: option.splits)

lemma released_pos: "counts ip' \<noteq> Some 0 \<Longrightarrow> released counts ip ip' \<noteq> Some 0"
  by (auto simp: released_def split: option.splits)

lemma slots_released:
  assumes "slots_ok cfg env peers counts hs inb" and "\<And>ip'. slots_held peers hs inb ip' = slots_held peers' hs' inb' ip' + of_bool (ip' = ip)"
    and "length hs' \<le> length hs" and "length inb' \<le> length inb"
  shows "slots_ok cfg env peers' (released counts ip) hs' inb'"
  unfolding slots_ok_def
proof (intro conjI allI impI)
  fix ip'
  note ok = assms(1) [unfolded slots_ok_def, THEN conjunct1, rule_format, of ip']
  show "released counts ip ip' \<noteq> Some 0" using ok released_pos by blast
  show "ip_count (released counts ip) ip' = slots_held peers' hs' inb' ip'" using ok assms(2) [of ip'] by (simp add: released_count)
  show "ip_count (released counts ip) ip' \<le> cc_max_connections_per_ip cfg" if "\<not> ce_is_loopback env ip'"
    unfolding released_count using ok that by linarith
qed (use assms in \<open>auto simp: slots_ok_def\<close>)

lemma slots_removed:
  assumes "slots_ok cfg env peers counts hs inb" and "oget peers i = Some p"
  shows "slots_ok cfg env (odel i peers) (case pe_ip_guard p of Some ip \<Rightarrow> released counts ip | None \<Rightarrow> counts) hs inb"
proof (cases "pe_ip_guard p")
  case None
  then have "slots_held (odel i peers) hs inb = slots_held peers hs inb"
    using ocount_odel [OF assms(2)] by (intro ext) (simp add: slots_held_def)
  then have "slots_ok cfg env (odel i peers) counts hs inb = slots_ok cfg env peers counts hs inb" by (simp add: slots_ok_def)
  then show ?thesis using assms(1) None by simp
next
  case (Some ip)
  have "slots_held peers hs inb ip' = slots_held (odel i peers) hs inb ip' + of_bool (ip' = ip)" for ip'
    using ocount_odel [OF assms(2), of "\<lambda>p. pe_ip_guard p = Some ip'"] Some by (auto simp: slots_held_def)
  from slots_released [OF assms(1) this] show ?thesis by (simp add: Some)
qed

text \<open>The fetches of a removed peer are reported and forgotten.\<close>

lemma foldl_emit: "\<exists>es. foldl (\<lambda>st p. emit_event (f p) st) st ps = st\<lparr>co_events := es\<rparr> \<and>
    (length (co_events st) \<le> NETWORK_EVENTS_CAPACITY \<longrightarrow> length es \<le> NETWORK_EVENTS_CAPACITY)"
proof (induction ps arbitrary: st)
  case (Cons p ps)
  obtain es where es: "emit_event (f p) st = st\<lparr>co_events := es\<rparr>" "length (co_events st) \<le> NETWORK_EVENTS_CAPACITY \<longrightarrow> length es \<le> NETWORK_EVENTS_CAPACITY"
    by (cases "length (co_events st) < NETWORK_EVENTS_CAPACITY") (auto simp: emit_event_def intro: that [of "co_events st"] that [of "co_events st @ [f p]"])
  show ?case using Cons.IH [of "st\<lparr>co_events := es\<rparr>"] es by auto
next
  case Nil
  show ?case by (intro exI [of _ "co_events st"]) simp
qed

lemma foldl_forget:
  "foldl (\<lambda>st p. st\<lparr>co_pending_fetches := odel p (co_pending_fetches st)\<rparr>) st ps =
   st\<lparr>co_pending_fetches := oretain (\<lambda>p _. p \<notin> set ps) (co_pending_fetches st)\<rparr>"
proof (induction ps arbitrary: st)
  case (Cons p ps)
  have "oretain (\<lambda>q _. q \<notin> set ps) (odel p (co_pending_fetches st)) = oretain (\<lambda>q _. q \<notin> set (p # ps)) (co_pending_fetches st)"
    by (rule omap_eqI) (auto simp: oget_odel oget_oretain split: option.splits)
  then show ?case by (simp add: Cons.IH)
qed (simp add: oretain_True)

lemma orphan_fetches_eq:
  assumes "orders_ok env"
  shows "\<exists>es. orphan_fetches env i st = st\<lparr>co_events := es, co_pending_fetches := oretain (\<lambda>_ j. j \<noteq> i) (co_pending_fetches st)\<rparr> \<and>
    (length (co_events st) \<le> NETWORK_EVENTS_CAPACITY \<longrightarrow> length es \<le> NETWORK_EVENTS_CAPACITY)"
proof -
  let ?ps = "map fst (filter (\<lambda>(_, j). j = i) (ce_fetch_order env (entries (co_pending_fetches st))))"
  have "set (ce_fetch_order env (entries (co_pending_fetches st))) = set (entries (co_pending_fetches st))"
    using assms unfolding orders_ok_def by (metis set_mset_mset)
  then have "p \<in> set ?ps \<longleftrightarrow> oget (co_pending_fetches st) p = Some i" for p by (auto simp: in_entries_iff image_iff)
  then have "oretain (\<lambda>p _. p \<notin> set ?ps) (co_pending_fetches st) = oretain (\<lambda>_ j. j \<noteq> i) (co_pending_fetches st)"
    by (intro omap_eqI) (auto simp: oget_oretain simp del: set_map split: option.splits)
  moreover obtain es where "foldl (\<lambda>st p. emit_event (BlockFetchFailed (Some i) p p) st) st ?ps = st\<lparr>co_events := es\<rparr>"
      "length (co_events st) \<le> NETWORK_EVENTS_CAPACITY \<longrightarrow> length es \<le> NETWORK_EVENTS_CAPACITY"
    using foldl_emit [of "\<lambda>p. BlockFetchFailed (Some i) p p" st ?ps] by auto
  ultimately show ?thesis unfolding orphan_fetches_def Let_def by (simp add: foldl_forget del: set_map) blast
qed

lemmas backoff_defs = backoff_ok_def BASE_RECONNECT_BACKOFF_def MAX_RECONNECT_BACKOFF_def

lemma reschedule_eq:
  "\<exists>q sp th. reschedule now p st = st\<lparr>co_reconnect_queue := q, co_speculative := sp, co_throttle := th\<rparr> \<and>
     (timers_ok (co_reconnect_queue st) (co_throttle st) \<longrightarrow> peer_ok p \<longrightarrow> timers_ok q th)"
proof (cases "pe_ip_guard p = None")
  case True
  define b where "b = (if case pe_connected_at p of Some c \<Rightarrow> now - c \<ge> STABLE_CONNECTION_DWELL | None \<Rightarrow> False then BASE_RECONNECT_BACKOFF else pe_reconnect_backoff p)"
  let ?q = "co_reconnect_queue st @ [(pe_address p, now + b, min (b * 2) MAX_RECONNECT_BACKOFF)]"
  show ?thesis
  proof (cases "pe_address p \<in> co_speculative st")
    case spec: True
    then show ?thesis using True
      by (intro exI [of _ "co_reconnect_queue st"] exI [of _ "co_speculative st - {pe_address p}"] exI [of _ "co_throttle st"]) (simp add: reschedule_def)
  next
    case False
    have "peer_ok p \<Longrightarrow> backoff_ok b" using True by (simp add: b_def peer_ok_def backoff_defs)
    then have "peer_ok p \<Longrightarrow> backoff_ok (min (b * 2) MAX_RECONNECT_BACKOFF)" by (auto simp: backoff_defs)
    then show ?thesis using True False
      by (intro exI [of _ ?q] exI [of _ "co_speculative st"] exI [of _ "co_throttle st"]) (auto simp: reschedule_def b_def timers_ok_def Let_def)
  qed
next
  case False
  then show ?thesis
    by (intro exI [of _ "co_reconnect_queue st"] exI [of _ "co_speculative st"] exI [of _ "(co_throttle st)(pe_address p := None)"])
      (auto simp: reschedule_def timers_ok_def)
qed

lemma reschedule_fields:
  "co_reconnect_queue s = co_reconnect_queue st \<Longrightarrow> co_speculative s = co_speculative st \<Longrightarrow>
   co_reconnect_queue (reschedule now p s) = co_reconnect_queue (reschedule now p st) \<and> co_speculative (reschedule now p s) = co_speculative (reschedule now p st)"
  by (simp add: reschedule_def Let_def)

lemma note_reset_inv:
  assumes "co_inv cfg env st"
  shows "co_inv cfg env (note_peershare_reset i r st) \<and> oget (co_peershare_inflight (note_peershare_reset i r st)) i = None \<and>
    co_peers (note_peershare_reset i r st) = co_peers st"
  using inflight_del_inv [OF assms, of i] assms by (auto simp: note_peershare_reset_def Let_def oget_odel split: option.splits)

lemma downstream_del_inv: "co_inv cfg env st \<Longrightarrow> co_inv cfg env (st\<lparr>co_downstream := co_downstream st - {i}\<rparr>)"
  by (auto simp: co_inv_def refs_ok_def)

lemma peers_removed: "peers_ok peers n sizes \<Longrightarrow> peers_ok (odel i peers) n (odel i sizes)"
  by (auto simp: peers_ok_def oget_odel)

lemma refs_removed:
  "refs_ok peers fetches inflight downstream \<Longrightarrow> oget inflight i = None \<Longrightarrow> i \<notin> downstream \<Longrightarrow>
   refs_ok (odel i peers) (oretain (\<lambda>_ j. j \<noteq> i) fetches) inflight downstream"
  by (fastforce simp: refs_ok_def ohas_def oget_odel oget_oretain split: option.splits if_splits)

lemma live_removed: "live_peers (odel i peers) \<le> live_peers peers"
proof (cases "oget peers i")
  case None
  then have "odel i peers = peers" by (intro omap_eqI) (simp add: oget_odel)
  then show ?thesis by simp
qed (simp add: live_peers_def ocount_odel)

lemma remove_peer_eq:
  assumes "orders_ok env" and "oget (co_peers st) i = Some p"
  obtains q sp th es rt where
    "remove_peer env now i r st =
       (note_peershare_reset i r st)\<lparr>co_downstream := co_downstream (note_peershare_reset i r st) - {i}, co_peers := odel i (co_peers st),
         co_fragment_sizes := odel i (co_fragment_sizes st), co_reconnect_queue := q, co_speculative := sp, co_throttle := th, co_events := es,
         co_pending_fetches := oretain (\<lambda>_ j. j \<noteq> i) (co_pending_fetches st), co_rtt_calls := rt,
         co_ip_counts := (case pe_ip_guard p of Some ip \<Rightarrow> released (co_ip_counts st) ip | None \<Rightarrow> co_ip_counts st)\<rparr>"
    and "timers_ok (co_reconnect_queue st) (co_throttle st) \<longrightarrow> peer_ok p \<longrightarrow> timers_ok q th"
    and "length (co_events st) \<le> NETWORK_EVENTS_CAPACITY \<longrightarrow> length es \<le> NETWORK_EVENTS_CAPACITY"
    and "q = co_reconnect_queue (reschedule now p st)" and "sp = co_speculative (reschedule now p st)"
proof -
  let ?n = "note_peershare_reset i r st"
  have n: "co_peers ?n = co_peers st" "co_fragment_sizes ?n = co_fragment_sizes st" "co_pending_fetches ?n = co_pending_fetches st"
      "co_ip_counts ?n = co_ip_counts st" "co_reconnect_queue ?n = co_reconnect_queue st" "co_throttle ?n = co_throttle st" "co_events ?n = co_events st"
      "co_speculative ?n = co_speculative st"
    by (simp_all add: note_peershare_reset_def Let_def split: option.splits)
  let ?s2 = "?n\<lparr>co_downstream := co_downstream ?n - {i}, co_peers := odel i (co_peers st), co_fragment_sizes := odel i (co_fragment_sizes st)\<rparr>"
  obtain q sp th where q: "reschedule now p ?s2 = ?s2\<lparr>co_reconnect_queue := q, co_speculative := sp, co_throttle := th\<rparr>"
      "timers_ok (co_reconnect_queue st) (co_throttle st) \<longrightarrow> peer_ok p \<longrightarrow> timers_ok q th"
    using reschedule_eq [of now p ?s2] n by auto
  have q': "q = co_reconnect_queue (reschedule now p st)" "sp = co_speculative (reschedule now p st)"
    using reschedule_fields [of ?s2 st now p] n(5,8) unfolding q(1) by simp_all
  let ?s3 = "?s2\<lparr>co_reconnect_queue := q, co_speculative := sp, co_throttle := th\<rparr>"
  obtain es where es: "orphan_fetches env i ?s3 = ?s3\<lparr>co_events := es, co_pending_fetches := oretain (\<lambda>_ j. j \<noteq> i) (co_pending_fetches st)\<rparr>"
      "length (co_events st) \<le> NETWORK_EVENTS_CAPACITY \<longrightarrow> length es \<le> NETWORK_EVENTS_CAPACITY"
    using orphan_fetches_eq [OF assms(1), of i ?s3] n by auto
  let ?s4 = "orphan_fetches env i ?s3"
  define fs where "fs = (if pe_connected_at p \<noteq> None \<and> length es < NETWORK_EVENTS_CAPACITY then es @ [PeerDisconnected i r] else es)"
  have fs: "(if pe_connected_at p \<noteq> None then emit_event (PeerDisconnected i r) ?s4 else ?s4) = ?s4\<lparr>co_events := fs\<rparr>"
    by (simp add: fs_def emit_event_def es)
  have eq: "remove_peer env now i r st =
       ?n\<lparr>co_downstream := co_downstream ?n - {i}, co_peers := odel i (co_peers st),
         co_fragment_sizes := odel i (co_fragment_sizes st), co_reconnect_queue := q, co_speculative := sp, co_throttle := th, co_events := fs,
         co_pending_fetches := oretain (\<lambda>_ j. j \<noteq> i) (co_pending_fetches st), co_rtt_calls := co_rtt_calls ?n @ [(i, None)],
         co_ip_counts := (case pe_ip_guard p of Some ip \<Rightarrow> released (co_ip_counts st) ip | None \<Rightarrow> co_ip_counts st)\<rparr>"
    unfolding remove_peer_def Let_def
    by (cases "pe_ip_guard p"; cases "pe_connected_at p"; cases "length es < NETWORK_EVENTS_CAPACITY")
      (rule coordinator.equality; simp add: n assms(2) q(1) es(1) emit_event_def fs_def decrement_released)+
  have len: "length (co_events st) \<le> NETWORK_EVENTS_CAPACITY \<longrightarrow> length fs \<le> NETWORK_EVENTS_CAPACITY" using es(2) by (simp add: fs_def)
  show ?thesis by (rule that [OF eq q(2) len q'])
qed

lemma remove_inv:
  assumes ord: "orders_ok env" and inv: "co_inv cfg env st"
  shows "co_inv cfg env (remove_peer env now i r st)"
proof (cases "oget (co_peers st) i")
  case None
  then show ?thesis using note_reset_inv [OF inv, of i r] downstream_del_inv by (simp add: remove_peer_def Let_def)
next
  case (Some p)
  let ?n = "note_peershare_reset i r st"
  have n: "co_inv cfg env (?n\<lparr>co_downstream := co_downstream ?n - {i}\<rparr>)" "oget (co_peershare_inflight ?n) i = None"
    using note_reset_inv [OF inv, of i r] downstream_del_inv by auto
  have same: "co_peers ?n = co_peers st" "co_fragment_sizes ?n = co_fragment_sizes st" "co_pending_fetches ?n = co_pending_fetches st"
      "co_ip_counts ?n = co_ip_counts st" "co_next_peer_id ?n = co_next_peer_id st"
    by (simp_all add: note_peershare_reset_def Let_def split: option.splits)
  have p: "peer_ok p" using inv_peer [OF inv Some] .
  have slots: "slots_ok cfg env (odel i (co_peers st)) (case pe_ip_guard p of Some ip \<Rightarrow> released (co_ip_counts st) ip | None \<Rightarrow> co_ip_counts st)
      (co_handshaking ?n) (co_inbound ?n)"
    using n(1) by (intro slots_removed [OF _ Some]) (simp add: co_inv_def same)
  have refs: "refs_ok (odel i (co_peers st)) (oretain (\<lambda>_ j. j \<noteq> i) (co_pending_fetches st)) (co_peershare_inflight ?n) (co_downstream ?n - {i})"
    using n by (intro refs_removed) (simp_all add: co_inv_def same)
  have peers: "peers_ok (odel i (co_peers st)) (co_next_peer_id st) (odel i (co_fragment_sizes st))"
    using inv by (intro peers_removed) (simp add: co_inv_def)
  show ?thesis
    by (rule remove_peer_eq [OF ord Some, of now r])
      (use inv p slots refs peers live_removed [of i "co_peers st"] in \<open>simp add: co_inv_def same\<close>)
qed

lemma remove_all_inv:
  "orders_ok env \<Longrightarrow> co_inv cfg env st \<Longrightarrow> co_inv cfg env (foldl (\<lambda>st (i, r). remove_peer env now i r st) st rs)"
  by (induction rs arbitrary: st) (auto simp: remove_inv)

lemma flush_inv: "orders_ok env \<Longrightarrow> co_inv cfg env st \<Longrightarrow> co_inv cfg env (flush_removals env now st)"
  unfolding flush_removals_def by (intro remove_all_inv) simp_all

subsection \<open>Events and commands keep it\<close>

lemma fragment_ok_ops:
  "fragment_ok (set_intersection p f)"
  "fragment_ok f \<Longrightarrow> fragment_ok (fragment_append p f)"
  "fragment_ok f \<Longrightarrow> fragment_ok (fragment_rollback_to p f)"
proof -
  show "fragment_ok (set_intersection p f)" by (simp add: fragment_ok_def set_intersection_def)
  show "fragment_ok f \<Longrightarrow> fragment_ok (fragment_append p f)" by (auto simp: fragment_ok_def fragment_append_def)
  assume f: "fragment_ok f"
  then have "set (fr_points f) - set (drop n (fr_points f)) = set (take n (fr_points f))" for n
    using set_take_disj_set_drop_if_distinct [of "fr_points f" n n] append_take_drop_id [of n "fr_points f"]
    unfolding fragment_ok_def by (metis Diff_cancel Un_Diff Diff_triv order_refl set_append sup_bot.right_neutral)
  then show "fragment_ok (fragment_rollback_to p f)" using f by (auto simp: fragment_ok_def fragment_rollback_to_def Let_def simp del: set_takeWhileD)
qed

lemma update_fragment_inv:
  assumes "co_inv cfg env st" and "\<And>p. peer_ok p \<Longrightarrow> peer_ok (f p) \<and> pe_ip_guard (f p) = pe_ip_guard p \<and> pe_finished (f p) = pe_finished p"
  shows "co_inv cfg env (update_fragment i f st)"
proof (cases "oget (co_peers st) i")
  case (Some p)
  then have "peer_ok p" using inv_peer [OF assms(1)] by blast
  then show ?thesis using peer_update_inv [OF assms(1) Some, of "f p"] assms(2) [of p] Some by (simp add: update_fragment_def sync_fragment_size_def)
qed (simp add: update_fragment_def assms(1))

lemma connected_inv: "co_inv cfg env st \<Longrightarrow> co_inv cfg env (on_connected now i sharing st)"
proof (cases "oget (co_peers st) i")
  case (Some p)
  assume inv: "co_inv cfg env st"
  let ?p = "p\<lparr>pe_peer_sharing := sharing, pe_connected_at := Some now\<rparr>"
  have "peer_ok ?p" using inv_peer [OF inv Some] by (simp add: peer_ok_def)
  then have "co_inv cfg env (st\<lparr>co_peers := oput i ?p (co_peers st)\<rparr>)" by (intro peer_update_inv' [OF inv Some]) simp_all
  then have "co_inv cfg env (st\<lparr>co_downstream := insert i (co_downstream st), co_peers := oput i ?p (co_peers st)\<rparr>)"
    by (auto simp: co_inv_def refs_ok_def)
  then show ?thesis using Some by (auto simp: on_connected_def intro!: emit_inv)
qed (simp add: on_connected_def)

lemma intersection_inv: "co_inv cfg env st \<Longrightarrow> co_inv cfg env (on_intersection_found i p initial n st)"
  unfolding on_intersection_found_def Let_def by (intro emit_inv update_fragment_inv) (auto simp: peer_ok_def fragment_ok_ops)

lemma header_inv: "co_inv cfg env st \<Longrightarrow> co_inv cfg env (on_header_announced env' i h t st)"
proof -
  assume inv: "co_inv cfg env st"
  have "co_inv cfg env (update_fragment i (\<lambda>ps. ps\<lparr>pe_tip := Some t, pe_fragment := fragment_append q (pe_fragment ps), pe_last_rolled_back_to := None\<rparr>) st)" for q
    by (intro update_fragment_inv inv) (auto simp: peer_ok_def fragment_ok_ops)
  then show ?thesis unfolding on_header_announced_def Let_def by (auto intro!: emit_inv)
qed

lemma rolled_back_inv: "co_inv cfg env st \<Longrightarrow> co_inv cfg env (on_rolled_back i p t st)"
proof -
  assume inv: "co_inv cfg env st"
  have "co_inv cfg env (update_fragment i (\<lambda>ps. ps\<lparr>pe_tip := Some t, pe_fragment := fragment_rollback_to p (pe_fragment ps), pe_last_rolled_back_to := Some p\<rparr>) st)"
    by (intro update_fragment_inv inv) (auto simp: peer_ok_def fragment_ok_ops)
  then show ?thesis unfolding on_rolled_back_def Let_def by (auto intro!: emit_inv)
qed

lemma latency_inv: "co_inv cfg env st \<Longrightarrow> co_inv cfg env (on_latency_measured i rtt st)"
proof (cases "oget (co_peers st) i")
  case (Some p)
  assume inv: "co_inv cfg env st"
  let ?p = "p\<lparr>pe_rtt := Some (rtt + pe_inbound_delay p)\<rparr>"
  have "peer_ok ?p" using inv_peer [OF inv Some] by (simp add: peer_ok_def)
  then have "co_inv cfg env (st\<lparr>co_peers := oput i ?p (co_peers st)\<rparr>)" by (intro peer_update_inv' [OF inv Some]) simp_all
  then show ?thesis using Some inv by (simp add: on_latency_measured_def Let_def)
qed (simp add: on_latency_measured_def)

lemma handle_peer_event_inv:
  assumes "orders_ok env" and inv: "co_inv cfg env st"
  shows "co_inv cfg env (handle_peer_event e env now i st)"
proof (cases e)
  case (PE_BlockFetched body)
  then show ?thesis using inv by (simp add: on_block_fetched_def Let_def emit_inv fetches_del_inv)
next
  case (PE_PeersDiscovered peers)
  then show ?thesis using inv by (simp add: on_peers_discovered_def emit_inv inflight_del_inv)
next
  case (PE_LeiosBlockOffered p)
  then show ?thesis using inv by (auto simp: on_leios_block_offered_def case_prod_unfold Let_def intro: emit_inv split: point.splits)
next
  case (PE_LeiosBlockTxsOffered p)
  then show ?thesis using inv by (auto simp: on_leios_block_txs_offered_def case_prod_unfold Let_def intro: emit_inv split: point.splits)
next
  case (PE_LeiosVotesReceived votes)
  then show ?thesis using inv by (simp add: on_leios_votes_received_def case_prod_unfold Let_def emit_inv)
next
  case (PE_LeiosBlockFetched p block)
  then show ?thesis using inv by (auto simp: on_leios_block_fetched_def Let_def intro!: emit_inv split: point.splits)
next
  case (PE_LeiosBlockTxsFetched p txs)
  then show ?thesis using inv by (auto simp: on_leios_block_txs_fetched_def Let_def intro!: emit_inv split: point.splits option.splits)
next
  case (PE_BlockFetchFailed from_p to_p)
  have "co_inv cfg env (st\<lparr>co_pending_fetches := odel to_p (odel from_p (co_pending_fetches st))\<rparr>)"
    using fetches_del_inv [OF fetches_del_inv [OF inv], of to_p from_p] by simp
  then show ?thesis using PE_BlockFetchFailed by (simp add: on_range_fetch_failed_def emit_inv)
qed (use assms in \<open>simp_all add: emit_inv connected_inv intersection_inv header_inv rolled_back_inv latency_inv remove_inv
    on_leios_block_announced_def on_leios_block_fetch_failed_def\<close>)

lemma dial_inv:
  assumes "orders_ok env" and "co_inv cfg env st"
  shows "co_inv cfg env (snd (dial_allowed cfg env a st)) \<and>
    (fst (dial_allowed cfg env a st) \<longrightarrow> live_peers (co_peers (snd (dial_allowed cfg env a st))) < cc_max_peers cfg)"
  using assms live_reaped [OF assms(1), of st] by (simp add: dial_allowed_def case_prod_unfold)

lemma base_backoff_ok: "backoff_ok BASE_RECONNECT_BACKOFF"
  by (simp add: backoff_defs)

lemma fetch_sent_inv:
  assumes "co_inv cfg env st" and "fst (send_peer_command i cmd st)"
  shows "co_inv cfg env ((snd (send_peer_command i cmd st))\<lparr>co_pending_fetches := oput p i (co_pending_fetches (snd (send_peer_command i cmd st)))\<rparr>)"
  using assms by (intro fetches_put_inv) (simp_all add: send_inv send_ohas sent_ohas)

lemma request_peers_inv: "co_inv cfg env st \<Longrightarrow> co_inv cfg env (request_peers i a n st)"
  using send_inv [of cfg env st i "RequestPeers n"] sent_ohas [of i "RequestPeers n" st]
  by (auto simp: request_peers_def case_prod_unfold Let_def send_ohas intro!: inflight_put_inv)

lemma reintersect_inv: "co_inv cfg env st \<Longrightarrow> co_inv cfg env (cmd_reintersect now i st)"
proof -
  assume inv: "co_inv cfg env st"
  have "co_inv cfg env (snd (reintersect_allowed now i st))"
  proof (cases "oget (co_peers st) i")
    case (Some p)
    have "REINTERSECT_BACKOFF_BASE \<le> min (b * 2) REINTERSECT_BACKOFF_MAX" if "co_throttle st (pe_address p) = Some (w, b)" for w b
      using inv that unfolding co_inv_def timers_ok_def REINTERSECT_BACKOFF_BASE_def REINTERSECT_BACKOFF_MAX_def by fastforce
    then show ?thesis using inv Some throttle_inv [OF inv]
      by (auto simp: reintersect_allowed_def Let_def REINTERSECT_BACKOFF_BASE_def REINTERSECT_BACKOFF_MAX_def split: option.splits)
  qed (simp add: reintersect_allowed_def inv)
  then show ?thesis by (simp add: cmd_reintersect_def case_prod_unfold Let_def send_inv)
qed

lemma handle_network_command_inv:
  assumes ord: "orders_ok env" and inv: "co_inv cfg env st"
  shows "co_inv cfg env (snd (handle_network_command c cfg env now st))"
proof (cases c)
  case (AddPeer a)
  then show ?thesis using dial_inv [OF ord inv, of a] base_backoff_ok by (simp add: cmd_add_peer_def add_peer_def case_prod_unfold Let_def add_peer_inv)
next
  case (AddDiscoveredPeer a)
  then show ?thesis using dial_inv [OF ord inv, of a] base_backoff_ok
    by (simp add: cmd_add_discovered_peer_def add_peer_def case_prod_unfold Let_def add_peer_inv)
next
  case (FetchBlock p)
  then show ?thesis using inv by (auto simp: cmd_fetch_block_def case_prod_unfold Let_def fetch_sent_inv send_inv split: option.splits)
next
  case (FetchBlockRange from_p to_p peer)
  then show ?thesis using inv
    by (auto simp: cmd_fetch_block_range_def case_prod_unfold Let_def fetch_sent_inv send_inv emit_inv split: option.splits)
next
  case DiscoverPeers
  then show ?thesis using inv by (auto simp: cmd_discover_peers_def request_peers_inv split: option.splits)
next
  case (DiscoverPeersFrom i n)
  then show ?thesis using inv by (auto simp: cmd_discover_peers_from_def request_peers_inv split: option.splits)
qed (use inv in \<open>simp_all add: reintersect_inv send_inv emit_inv disconnect_all_inv cmd_drop_inbound_peers_def cmd_set_peer_blocklist_def\<close>)

lemma reconnect_one_inv:
  assumes "orders_ok env" and inv: "co_inv cfg env st" and "backoff_ok b"
  shows "co_inv cfg env (reconnect_one cfg env now st (a, b))"
  using inv live_reaped [OF assms(1), of st] queue_inv [OF inv assms(3)] queue_inv [of cfg env "snd (reap_finished_peers env st)", OF _ assms(3)]
    add_peer_inv [of cfg env "snd (reap_finished_peers env st)", OF _ _ assms(3)]
  by (auto simp: reconnect_one_def case_prod_unfold Let_def)

lemma process_reconnections_inv:
  assumes ord: "orders_ok env" and inv: "co_inv cfg env st"
  shows "co_inv cfg env (process_reconnections cfg env now st)"
proof -
  let ?st = "st\<lparr>co_reconnect_queue := filter (\<lambda>(_, when, _). \<not> now \<ge> when) (co_reconnect_queue st)\<rparr>"
  let ?ready = "map (\<lambda>(address, _, backoff). (address, backoff)) (filter (\<lambda>(_, when, _). now \<ge> when) (co_reconnect_queue st))"
  have "co_inv cfg env ?st" using inv by (auto simp: co_inv_def timers_ok_def)
  moreover have "\<forall>(a, b)\<in>set ?ready. backoff_ok b" using inv by (auto simp: co_inv_def timers_ok_def)
  moreover have "co_inv cfg env (foldl (reconnect_one cfg env now) s xs)" if "co_inv cfg env s" "\<forall>(a, b)\<in>set xs. backoff_ok b" for s xs
    using that by (induction xs arbitrary: s) (auto simp: reconnect_one_inv [OF ord])
  ultimately show ?thesis by (simp add: process_reconnections_def Let_def)
qed

lemma deliver_delayed_inv:
  assumes ord: "orders_ok env" and inv: "co_inv cfg env st"
  shows "co_inv cfg env (deliver_delayed env now st)"
proof -
  have "co_inv cfg env (foldl (\<lambda>st (i, e). handle_peer_event e env now i st) s xs)" if "co_inv cfg env s" for s xs
    using that by (induction xs arbitrary: s) (auto simp: handle_peer_event_inv [OF ord])
  then show ?thesis using inv by (simp add: deliver_delayed_def case_prod_unfold)
qed

lemma slots_moved:
  assumes "slots_ok cfg env peers counts hs inb" and "slots_held peers' hs' inb' = slots_held peers hs inb" and "length hs' \<le> length hs" and "length inb' \<le> 16"
  shows "slots_ok cfg env peers' counts hs' inb'"
  using assms(1,3,4) unfolding slots_ok_def assms(2) by (intro conjI) (blast, linarith+)

text \<open>An accepted connection hands its slot to the peer, or drops it.\<close>

lemma on_inbound_inv:
  assumes ord: "orders_ok env" and inv: "co_inv cfg env st"
  shows "co_inv cfg env (on_inbound cfg env st)"
proof (cases "co_inbound st")
  case (Cons x rest)
  obtain ip a where x: "x = (ip, a)" by fastforce
  define s where "s = snd (reap_finished_peers env (st\<lparr>co_inbound := rest\<rparr>))"
  obtain rs where s: "s = st\<lparr>co_inbound := rest, co_pending_removals := rs\<rparr>" unfolding s_def using reap_snd [of env "st\<lparr>co_inbound := rest\<rparr>"] by auto
  let ?p = "new_peer cfg a Duplex (Some ip) 0" and ?n = "co_next_peer_id st"
  note fresh = inv_fresh [OF inv]
  have held: "slots_held (co_peers st) (co_handshaking st) (co_inbound st) ip' = slots_held (co_peers st) (co_handshaking st) rest ip' + of_bool (ip' = ip)" for ip'
    by (auto simp: slots_held_def Cons x)
  have old: "slots_ok cfg env (co_peers st) (co_ip_counts st) (co_handshaking st) (co_inbound st)" using inv by (simp add: co_inv_def)
  then have inb: "length rest \<le> 16" using Cons by (simp add: slots_ok_def)
  have "slots_held (oput ?n ?p (co_peers st)) (co_handshaking st) rest = slots_held (co_peers st) (co_handshaking st) (co_inbound st)"
    by (intro ext) (auto simp: slots_held_def ocount_oput_fresh [OF fresh] new_peer_def Cons x)
  from slots_moved [OF old this] have "slots_ok cfg env (oput ?n ?p (co_peers st)) (co_ip_counts st) (co_handshaking st) rest" using inb by simp
  moreover have "live_peers (oput ?n ?p (co_peers st)) = live_peers (co_peers st) + 1"
    by (simp add: live_peers_def ocount_oput_fresh [OF fresh] new_peer_def)
  moreover have "peers_ok (oput ?n ?p (co_peers st)) (?n + 1) (oput ?n 0 (co_fragment_sizes st))"
    using inv by (intro peers_insert new_peer_ok) (simp_all add: co_inv_def new_peer_def fragment_new_def)
  ultimately have added: "live_peers (co_peers st) < cc_max_peers cfg \<Longrightarrow> co_inv cfg env (add_accepted_peer cfg ip a s)"
    using inv refs_insert by (simp add: s co_inv_def add_accepted_peer_def insert_peer_def sync_fragment_size_def Let_def)
  have "slots_ok cfg env (co_peers st) (released (co_ip_counts st) ip) (co_handshaking st) rest"
    using inv Cons by (intro slots_released [OF _ held]) (simp_all add: co_inv_def)
  then have dropped: "co_inv cfg env (decrement_ip_count ip s)" using inv by (simp add: s co_inv_def decrement_released)
  show ?thesis using added dropped live_reaped [OF ord, of "st\<lparr>co_inbound := rest\<rparr>"] Cons x
    by (simp add: on_inbound_def case_prod_unfold Let_def s_def)
qed (simp add: on_inbound_def inv)

lemma update_peer_inv:
  assumes inv: "co_inv cfg env st" and "\<And>p. peer_ok p \<Longrightarrow> peer_ok (f p)" and "\<And>p. pe_ip_guard (f p) = pe_ip_guard p"
    and "\<And>p. pe_finished p \<Longrightarrow> pe_finished (f p)" and "\<And>p. pe_fragment (f p) = pe_fragment p"
  shows "co_inv cfg env (update_peer i f st)"
proof (cases "oget (co_peers st) i")
  case None
  then show ?thesis using inv by (simp add: update_peer_def oupdate_def)
next
  case (Some p)
  have "co_inv cfg env (st\<lparr>co_peers := oput i (f p) (co_peers st)\<rparr>)"
    using assms inv_peer [OF inv Some] by (intro peer_update_inv' [OF inv Some]) simp_all
  then show ?thesis using Some by (simp add: update_peer_def oupdate_def)
qed

lemma slots_remove1: "ip \<in> set xs \<Longrightarrow> count_list xs ip' = count_list (remove1 ip xs) ip' + of_bool (ip' = ip)"
  by (induction xs) auto

lemma accept_inv:
  assumes inv: "co_inv cfg env st"
  shows "co_inv cfg env (accept_connection cfg env ip st)"
proof -
  let ?c = "co_ip_counts st" and ?h = "co_handshaking st"
  let ?c' = "?c(ip \<mapsto> ip_count ?c ip + 1)"
  have "slots_ok cfg env (co_peers st) ?c' (?h @ [ip]) (co_inbound st)"
    if "ce_is_loopback env ip \<or> ip_count ?c ip < cc_max_connections_per_ip cfg" "length ?h < cc_max_handshaking cfg"
    unfolding slots_ok_def
  proof (intro conjI allI impI)
    fix ip'
    note ok = inv [unfolded co_inv_def slots_ok_def]
    have c: "ip_count ?c' ip' = ip_count ?c ip' + of_bool (ip' = ip)" by (simp add: ip_count_def)
    show "?c' ip' \<noteq> Some 0" using ok by simp
    show "ip_count ?c' ip' = slots_held (co_peers st) (?h @ [ip]) (co_inbound st) ip'" unfolding c using ok by (auto simp: slots_held_def)
    show "ip_count ?c' ip' \<le> cc_max_connections_per_ip cfg" if "\<not> ce_is_loopback env ip'"
      unfolding c using ok that \<open>ce_is_loopback env ip \<or> _\<close> by (cases "ip' = ip") auto
  qed (use that inv in \<open>auto simp: co_inv_def slots_ok_def\<close>)
  then show ?thesis using inv by (auto simp: accept_connection_def co_inv_def reserve_ip_def ip_count_def)
qed

lemma handshake_inv:
  assumes inv: "co_inv cfg env st"
  shows "co_inv cfg env (handshake_fails ip st)" and "co_inv cfg env (handshake_done ip a st)"
proof -
  let ?h = "remove1 ip (co_handshaking st)"
  have held: "slots_held (co_peers st) (co_handshaking st) (co_inbound st) ip' = slots_held (co_peers st) ?h (co_inbound st) ip' + of_bool (ip' = ip)"
    if "ip \<in> set (co_handshaking st)" for ip'
    using slots_remove1 [OF that, of ip'] by (simp add: slots_held_def)
  have len: "length ?h \<le> length (co_handshaking st)" by (simp add: length_remove1)
  show "co_inv cfg env (handshake_fails ip st)"
    using inv slots_released [OF _ held len, of cfg env "co_ip_counts st"] by (auto simp: handshake_fails_def co_inv_def decrement_released)
  have "slots_held (co_peers st) ?h (co_inbound st @ [(ip, a)]) = slots_held (co_peers st) (co_handshaking st) (co_inbound st)" if "ip \<in> set (co_handshaking st)"
    by (intro ext) (simp add: held [OF that], simp add: slots_held_def)
  then show "co_inv cfg env (handshake_done ip a st)"
    using inv slots_moved [OF _ _ len, of cfg env "co_peers st" "co_ip_counts st" "co_inbound st"] by (simp add: handshake_done_def co_inv_def)
qed

lemma outside_inv: "co_inv cfg env st \<Longrightarrow> co_inv cfg env (outside cfg env s st)"
proof (cases s)
  case ApplicationTakes
  assume "co_inv cfg env st"
  then show ?thesis using ApplicationTakes by (auto simp: co_inv_def)
qed (auto simp: accept_inv handshake_inv peer_ok_def intro!: update_peer_inv)

lemma loop_turn_inv:
  assumes "orders_ok env" and "co_inv cfg env st"
  shows "co_inv cfg env (snd (loop_turn cfg env now inp st))"
proof (cases inp)
  case (OnPeerEvent i e)
  then show ?thesis using assms by (simp add: on_peer_event_def Let_def flush_inv handle_peer_event_inv)
next
  case (OnCommand c)
  then show ?thesis using assms handle_network_command_inv [OF assms, of c now] by (simp add: case_prod_unfold flush_inv)
qed (use assms in \<open>simp_all add: flush_inv on_inbound_inv process_reconnections_inv deliver_delayed_inv\<close>)

inductive co_reachable :: "coordinator_config \<Rightarrow> coordinator_env \<Rightarrow> coordinator \<Rightarrow> bool" for cfg env where
  start: "co_reachable cfg env (coordinator_new cfg cs ls)"
| turn: "co_reachable cfg env st \<Longrightarrow> co_reachable cfg env (snd (loop_turn cfg env now inp st))"
| elsewhere: "co_reachable cfg env st \<Longrightarrow> co_reachable cfg env (outside cfg env s st)"

lemma reachable_inv: "co_reachable cfg env st \<Longrightarrow> orders_ok env \<Longrightarrow> co_inv cfg env st"
  by (induction rule: co_reachable.induct) (simp_all add: new_inv loop_turn_inv outside_inv)

end
