(* ===== verification/Coordinator_Properties.thy ===== *)
theory Coordinator_Properties
  imports Coordinator_Invariant
begin

text \<open>
  The properties of the coordinator: its invariant in every reachable state, and that a configured peer is never given up, with the
  exact condition; and the cases where the code falls short of its comments.
\<close>

subsection \<open>Configured peers\<close>

text \<open>An address is tracked when an outbound peer holds it or it waits for a reconnection. It is the node's own business when it is not
  speculative and no accepted connection has it.\<close>

definition tracked :: "coordinator \<Rightarrow> string \<Rightarrow> bool" where
  "tracked st a \<longleftrightarrow>
     (\<exists>i p. oget (co_peers st) i = Some p \<and> pe_ip_guard p = None \<and> pe_address p = a) \<or> a \<in> fst ` set (co_reconnect_queue st)"

definition own_address :: "coordinator \<Rightarrow> string \<Rightarrow> bool" where
  "own_address st a \<longleftrightarrow>
     a \<notin> co_speculative st \<and> (\<forall>i p. oget (co_peers st) i = Some p \<longrightarrow> pe_address p = a \<longrightarrow> pe_ip_guard p = None) \<and> a \<notin> snd ` set (co_inbound st)"

text \<open>Both look at addresses and guards of peers, the queue, the speculative addresses and the connections handed over.\<close>

definition same_holders :: "coordinator \<Rightarrow> coordinator \<Rightarrow> bool" where
  "same_holders st st' \<longleftrightarrow>
     (\<forall>i. map_option (\<lambda>p. (pe_address p, pe_ip_guard p)) (oget (co_peers st') i) = map_option (\<lambda>p. (pe_address p, pe_ip_guard p)) (oget (co_peers st) i)) \<and>
     co_reconnect_queue st' = co_reconnect_queue st \<and> co_speculative st' \<subseteq> co_speculative st \<and> co_inbound st' = co_inbound st"

lemma same_holders_peer:
  assumes "same_holders st st'" and "oget (co_peers st) i = Some p"
  obtains p' where "oget (co_peers st') i = Some p'" "pe_address p' = pe_address p" "pe_ip_guard p' = pe_ip_guard p"
  using assms(1) [unfolded same_holders_def, THEN conjunct1, rule_format, of i] assms(2) by (cases "oget (co_peers st') i") auto

lemma same_holders_peer':
  assumes "same_holders st st'" and "oget (co_peers st') i = Some p"
  obtains p' where "oget (co_peers st) i = Some p'" "pe_address p' = pe_address p" "pe_ip_guard p' = pe_ip_guard p"
  using assms(1) [unfolded same_holders_def, THEN conjunct1, rule_format, of i] assms(2) by (cases "oget (co_peers st) i") auto

lemma same_holders_tracked: "same_holders st st' \<Longrightarrow> tracked st a \<Longrightarrow> tracked st' a"
proof -
  assume s: "same_holders st st'" and "tracked st a"
  then consider i p where "oget (co_peers st) i = Some p" "pe_ip_guard p = None" "pe_address p = a" | "a \<in> fst ` set (co_reconnect_queue st)"
    unfolding tracked_def by blast
  then show ?thesis
  proof cases
    case 1
    then show ?thesis unfolding tracked_def using same_holders_peer [OF s, of i p] by metis
  next
    case 2
    then show ?thesis using s by (auto simp: tracked_def same_holders_def)
  qed
qed

lemma same_holders_own: "same_holders st st' \<Longrightarrow> own_address st a \<Longrightarrow> own_address st' a"
proof -
  assume s: "same_holders st st'" and o: "own_address st a"
  have "pe_ip_guard p = None" if "oget (co_peers st') i = Some p" "pe_address p = a" for i p
    using same_holders_peer' [OF s that(1)] o that(2) unfolding own_address_def by metis
  then show ?thesis using s o by (auto simp: own_address_def same_holders_def)
qed

lemma same_holders_trans: "same_holders r s \<Longrightarrow> same_holders s t \<Longrightarrow> same_holders r t"
  by (auto simp: same_holders_def)

lemma same_holders_refl [simp]: "same_holders st st"
  by (simp add: same_holders_def)

lemma emit_holders [simp]: "same_holders r (emit_event e st) = same_holders r st"
  by (simp add: same_holders_def)

lemma leios_holders [simp]: "same_holders r (on_leios_store f st) = same_holders r st"
  by (simp add: same_holders_def on_leios_store_def)

lemma irrelevant_holders [simp]:
  "same_holders r (st\<lparr>co_best_tip := a\<rparr>) = same_holders r st"
  "same_holders r (st\<lparr>co_pending_fetches := b\<rparr>) = same_holders r st"
  "same_holders r (st\<lparr>co_chain_store := c\<rparr>) = same_holders r st"
  "same_holders r (st\<lparr>co_leios_store := d\<rparr>) = same_holders r st"
  "same_holders r (st\<lparr>co_pending_removals := e\<rparr>) = same_holders r st"
  "same_holders r (st\<lparr>co_dedup := f\<rparr>) = same_holders r st"
  "same_holders r (st\<lparr>co_blocklist := g\<rparr>) = same_holders r st"
  "same_holders r (st\<lparr>co_peershare_inflight := h\<rparr>) = same_holders r st"
  "same_holders r (st\<lparr>co_throttle := i\<rparr>) = same_holders r st"
  "same_holders r (st\<lparr>co_delayed := j\<rparr>) = same_holders r st"
  "same_holders r (st\<lparr>co_rtt_calls := k\<rparr>) = same_holders r st"
  "same_holders r (st\<lparr>co_fragment_sizes := l\<rparr>) = same_holders r st"
  "same_holders r (st\<lparr>co_events := m\<rparr>) = same_holders r st"
  "same_holders r (st\<lparr>co_ip_counts := n\<rparr>) = same_holders r st"
  "same_holders r (st\<lparr>co_handshaking := o'\<rparr>) = same_holders r st"
  by (simp_all add: same_holders_def)

lemma reap_holders [simp]: "same_holders r (snd (reap_finished_peers env st)) = same_holders r st"
  using reap_snd [of env st] by auto

lemma update_holders:
  "oget (co_peers st) i = Some p \<Longrightarrow> pe_address p' = pe_address p \<Longrightarrow> pe_ip_guard p' = pe_ip_guard p \<Longrightarrow>
   same_holders st (st\<lparr>co_peers := oput i p' (co_peers st)\<rparr>)"
  by (simp add: same_holders_def oget_oput)

lemma send_holders: "same_holders st (snd (send_peer_command i cmd st))"
  by (auto simp: send_peer_command_def update_holders split: option.splits)

lemma disconnect_all_holders: "same_holders st (disconnect_all ids st)"
proof -
  have "same_holders r (foldl (\<lambda>st i. snd (send_peer_command i PC_Disconnect st)) s ids)" if "same_holders r s" for r s
    using that by (induction ids arbitrary: s) (auto intro: same_holders_trans [OF _ send_holders])
  then show ?thesis unfolding disconnect_all_def by simp
qed

lemma update_fragment_holders:
  "(\<And>p. pe_address (f p) = pe_address p \<and> pe_ip_guard (f p) = pe_ip_guard p) \<Longrightarrow> same_holders st (update_fragment i f st)"
  by (auto simp: update_fragment_def sync_fragment_size_def update_holders split: option.splits)

lemma connected_holders: "same_holders st (on_connected now i sharing st)"
  by (auto simp: on_connected_def same_holders_def oget_oput split: option.splits)

text \<open>A removed peer of an own address goes into the queue.\<close>

lemma remove_kept:
  assumes ord: "orders_ok env" and "tracked st a" and own: "own_address st a"
  shows "tracked (remove_peer env now i r st) a \<and> own_address (remove_peer env now i r st) a"
proof (cases "oget (co_peers st) i")
  case None
  have "same_holders st (remove_peer env now i r st)"
    using None by (auto simp: remove_peer_def note_peershare_reset_def Let_def same_holders_def split: option.splits)
  then show ?thesis using assms same_holders_tracked same_holders_own by blast
next
  case (Some p)
  let ?n = "note_peershare_reset i r st" and ?t = "reschedule now p st"
  have n: "co_inbound ?n = co_inbound st" by (simp add: note_peershare_reset_def Let_def split: option.splits)
  obtain q sp th es rt where eq: "remove_peer env now i r st =
       ?n\<lparr>co_downstream := co_downstream ?n - {i}, co_peers := odel i (co_peers st),
         co_fragment_sizes := odel i (co_fragment_sizes st), co_reconnect_queue := q, co_speculative := sp, co_throttle := th, co_events := es,
         co_pending_fetches := oretain (\<lambda>_ j. j \<noteq> i) (co_pending_fetches st), co_rtt_calls := rt,
         co_ip_counts := (case pe_ip_guard p of Some ip \<Rightarrow> released (co_ip_counts st) ip | None \<Rightarrow> co_ip_counts st)\<rparr>"
      and q: "q = co_reconnect_queue ?t" and sp: "sp = co_speculative ?t"
    by (rule remove_peer_eq [OF ord Some, of now r])
  have queue: "fst ` set (co_reconnect_queue st) \<subseteq> fst ` set q" "pe_address p = a \<Longrightarrow> a \<in> fst ` set q"
    using own Some by (auto simp: q reschedule_def Let_def own_address_def)
  have "sp \<subseteq> co_speculative st" by (auto simp: sp reschedule_def Let_def)
  then have "own_address (remove_peer env now i r st) a" using own n unfolding own_address_def eq by (auto simp: oget_odel)
  moreover have "tracked (remove_peer env now i r st) a"
  proof (cases "pe_address p = a")
    case True
    then show ?thesis using queue(2) by (simp add: tracked_def eq)
  next
    case False
    from assms(2) consider j p' where "oget (co_peers st) j = Some p'" "pe_ip_guard p' = None" "pe_address p' = a" | "a \<in> fst ` set (co_reconnect_queue st)"
      unfolding tracked_def by blast
    then have "(\<exists>j p'. oget (odel i (co_peers st)) j = Some p' \<and> pe_ip_guard p' = None \<and> pe_address p' = a) \<or> a \<in> fst ` set q"
    proof cases
      case (1 j p')
      then have "oget (odel i (co_peers st)) j = Some p'" using False Some by (auto simp: oget_odel)
      then show ?thesis using 1 by blast
    qed (use queue(1) in blast)
    then show ?thesis by (simp add: tracked_def eq)
  qed
  ultimately show ?thesis by blast
qed

lemma remove_all_kept:
  "orders_ok env \<Longrightarrow> tracked st a \<Longrightarrow> own_address st a \<Longrightarrow>
   tracked (foldl (\<lambda>st (i, r). remove_peer env now i r st) st rs) a \<and> own_address (foldl (\<lambda>st (i, r). remove_peer env now i r st) st rs) a"
  by (induction rs arbitrary: st) (auto simp: remove_kept)

lemma kept_fields [simp]:
  "tracked (emit_event e st) a = tracked st a" "own_address (emit_event e st) a = own_address st a"
  "tracked (st\<lparr>co_pending_removals := rs\<rparr>) a = tracked st a" "own_address (st\<lparr>co_pending_removals := rs\<rparr>) a = own_address st a"
  "tracked (st\<lparr>co_delayed := ds\<rparr>) a = tracked st a" "own_address (st\<lparr>co_delayed := ds\<rparr>) a = own_address st a"
  by (simp_all add: tracked_def own_address_def)

lemma flush_kept:
  "orders_ok env \<Longrightarrow> tracked st a \<Longrightarrow> own_address st a \<Longrightarrow> tracked (flush_removals env now st) a \<and> own_address (flush_removals env now st) a"
  unfolding flush_removals_def by (intro remove_all_kept) simp_all

lemma event_holders:
  assumes "\<And>r. e \<noteq> PE_Failed r" and "\<And>p. e \<noteq> PE_LeiosBlockFetchFailed p"
  shows "same_holders st (handle_peer_event e env now i st)"
proof (cases e)
  case (PE_IntersectionFound p initial n)
  have "same_holders st (update_fragment i (\<lambda>ps. ps\<lparr>pe_fragment := set_intersection p (pe_fragment ps)\<rparr>) (st\<lparr>co_chain_store := c\<rparr>))" for c
    by (rule same_holders_trans [of st "st\<lparr>co_chain_store := c\<rparr>"], simp, rule update_fragment_holders) simp
  then show ?thesis using PE_IntersectionFound by (simp add: on_intersection_found_def Let_def)
next
  case (PE_HeaderAnnounced h t)
  then show ?thesis by (simp add: on_header_announced_def Let_def update_fragment_holders)
next
  case (PE_RolledBack p t)
  then show ?thesis by (simp add: on_rolled_back_def Let_def update_fragment_holders)
next
  case (PE_LatencyMeasured rtt)
  then show ?thesis by (auto simp: on_latency_measured_def Let_def update_holders split: option.splits)
next
  case (PE_LeiosBlockOffered p)
  then show ?thesis by (simp add: on_leios_block_offered_def case_prod_unfold Let_def split: point.splits)
next
  case (PE_LeiosBlockTxsOffered p)
  then show ?thesis by (simp add: on_leios_block_txs_offered_def case_prod_unfold Let_def split: point.splits)
next
  case (PE_LeiosVotesReceived votes)
  then show ?thesis by (simp add: on_leios_votes_received_def case_prod_unfold Let_def)
next
  case (PE_LeiosBlockFetched p block)
  then show ?thesis by (simp add: on_leios_block_fetched_def Let_def split: point.splits)
next
  case (PE_LeiosBlockTxsFetched p txs)
  then show ?thesis by (simp add: on_leios_block_txs_fetched_def Let_def split: point.splits option.splits)
qed (use assms in \<open>simp_all add: connected_holders on_block_fetched_def on_peers_discovered_def on_leios_block_announced_def on_range_fetch_failed_def Let_def\<close>)

lemma event_kept:
  assumes "orders_ok env" and "tracked st a" and "own_address st a"
  shows "tracked (handle_peer_event e env now i st) a \<and> own_address (handle_peer_event e env now i st) a"
proof (cases "(\<exists>r. e = PE_Failed r) \<or> (\<exists>p. e = PE_LeiosBlockFetchFailed p)")
  case True
  then show ?thesis using remove_kept [OF assms] by (auto simp: on_leios_block_fetch_failed_def)
next
  case False
  then have "same_holders st (handle_peer_event e env now i st)" by (intro event_holders) auto
  then show ?thesis using assms same_holders_tracked same_holders_own by blast
qed

lemma events_kept:
  "orders_ok env \<Longrightarrow> tracked st a \<Longrightarrow> own_address st a \<Longrightarrow>
   tracked (foldl (\<lambda>st (i, e). handle_peer_event e env now i st) st es) a \<and> own_address (foldl (\<lambda>st (i, e). handle_peer_event e env now i st) st es) a"
  by (induction es arbitrary: st) (auto simp: event_kept)

lemma add_kept:
  assumes inv: "co_inv cfg env st" and own: "own_address st a" and "tracked st a \<or> a' = a"
  shows "tracked (add_peer_with_backoff cfg a' b st) a \<and> own_address (add_peer_with_backoff cfg a' b st) a"
proof -
  let ?p = "new_peer cfg a' (if cc_duplex cfg then Duplex else InitiatorOnly) None b" and ?n = "co_next_peer_id st"
  have eq: "co_peers (add_peer_with_backoff cfg a' b st) = oput ?n ?p (co_peers st)"
      "co_reconnect_queue (add_peer_with_backoff cfg a' b st) = co_reconnect_queue st"
      "co_speculative (add_peer_with_backoff cfg a' b st) = co_speculative st" "co_inbound (add_peer_with_backoff cfg a' b st) = co_inbound st"
    by (simp_all add: add_peer_with_backoff_def insert_peer_def sync_fragment_size_def Let_def)
  have p: "pe_address ?p = a'" "pe_ip_guard ?p = None" by (simp_all add: new_peer_def)
  have "own_address (add_peer_with_backoff cfg a' b st) a" using own unfolding own_address_def eq by (auto simp: oget_oput new_peer_def)
  moreover have "tracked (add_peer_with_backoff cfg a' b st) a"
  proof (cases "a' = a")
    case True
    then have "oget (oput ?n ?p (co_peers st)) ?n = Some ?p" by (simp add: oget_oput)
    then show ?thesis unfolding tracked_def eq using p True by blast
  next
    case False
    then have t: "tracked st a" using assms(3) by blast
    have "oget (oput ?n ?p (co_peers st)) i = Some p" if "oget (co_peers st) i = Some p" for i p
      using that inv_fresh [OF inv] by (auto simp: oget_oput)
    then show ?thesis using t unfolding tracked_def eq by blast
  qed
  ultimately show ?thesis by blast
qed

lemma reap_kept [simp]:
  "tracked (snd (reap_finished_peers env st)) a = tracked st a" "own_address (snd (reap_finished_peers env st)) a = own_address st a"
  by (simp_all add: tracked_def own_address_def)

lemma live_is_tracked: "own_address st a \<Longrightarrow> has_live_peer_for_address st a \<Longrightarrow> tracked st a"
  by (auto simp: has_live_peer_for_address_def own_address_def tracked_def list_ex_iff in_ovalues_iff) blast

lemma reconnect_one_kept:
  assumes ord: "orders_ok env" and inv: "co_inv cfg env st" and own: "own_address st a" and "tracked st a \<or> a' = a"
  shows "tracked (reconnect_one cfg env now st (a', b)) a \<and> own_address (reconnect_one cfg env now st (a', b)) a"
proof -
  have q: "(tracked s a \<or> a' = a) \<and> own_address s a \<longrightarrow>
      tracked (s\<lparr>co_reconnect_queue := co_reconnect_queue s @ [(a', now + b, b)]\<rparr>) a \<and> own_address (s\<lparr>co_reconnect_queue := co_reconnect_queue s @ [(a', now + b, b)]\<rparr>) a" for s
    by (auto simp: tracked_def own_address_def)
  have "a' = a \<Longrightarrow> has_live_peer_for_address st a' \<Longrightarrow> tracked st a" using live_is_tracked [OF own] by simp
  then show ?thesis
    using q [of st] q [of "snd (reap_finished_peers env st)"] own assms(4) inv add_kept [of cfg env "snd (reap_finished_peers env st)" a a' b]
    by (auto simp: reconnect_one_def case_prod_unfold Let_def)
qed

lemma reconnects_kept:
  assumes ord: "orders_ok env"
  shows "co_inv cfg env st \<Longrightarrow> \<forall>(a, b)\<in>set xs. backoff_ok b \<Longrightarrow> own_address st a \<Longrightarrow> tracked st a \<or> a \<in> fst ` set xs \<Longrightarrow>
    tracked (foldl (reconnect_one cfg env now) st xs) a \<and> own_address (foldl (reconnect_one cfg env now) st xs) a"
proof (induction xs arbitrary: st)
  case (Cons x xs)
  obtain a' b where x: "x = (a', b)" by fastforce
  let ?st = "reconnect_one cfg env now st (a', b)"
  have inv: "co_inv cfg env ?st" using Cons.prems x by (intro reconnect_one_inv [OF ord]) auto
  have "own_address ?st a \<and> (tracked ?st a \<or> a \<in> fst ` set xs)"
  proof (cases "tracked st a \<or> a' = a")
    case True
    then show ?thesis using reconnect_one_kept [OF ord Cons.prems(1,3)] by blast
  next
    case False
    then have "a \<in> fst ` set xs" using Cons.prems(4) x by auto
    moreover have "own_address ?st a"
      using reconnect_one_kept [OF ord Cons.prems(1), of a a' now b] False Cons.prems(3)
      by (auto simp: reconnect_one_def case_prod_unfold Let_def own_address_def add_peer_with_backoff_def insert_peer_def sync_fragment_size_def
          oget_oput new_peer_def split: if_splits)
    ultimately show ?thesis by blast
  qed
  then show ?case using Cons.IH [OF inv] Cons.prems(2) x by simp
qed simp

lemma process_reconnections_kept:
  assumes ord: "orders_ok env" and inv: "co_inv cfg env st" and "tracked st a" and "own_address st a"
  shows "tracked (process_reconnections cfg env now st) a \<and> own_address (process_reconnections cfg env now st) a"
proof -
  let ?later = "filter (\<lambda>(_, when, _). \<not> now \<ge> when) (co_reconnect_queue st)"
  let ?ready = "map (\<lambda>(address, _, backoff). (address, backoff)) (filter (\<lambda>(_, when, _). now \<ge> when) (co_reconnect_queue st))"
  let ?st = "st\<lparr>co_reconnect_queue := ?later\<rparr>"
  have "co_inv cfg env ?st" "\<forall>(a, b)\<in>set ?ready. backoff_ok b" using inv by (auto simp: co_inv_def timers_ok_def)
  moreover have "own_address ?st a" using assms(4) by (simp add: own_address_def)
  moreover have "fst ` set (co_reconnect_queue st) \<subseteq> fst ` set ?later \<union> fst ` set ?ready" by force
  then have "tracked ?st a \<or> a \<in> fst ` set ?ready" using assms(3) by (auto simp: tracked_def)
  ultimately show ?thesis using reconnects_kept [OF ord, of cfg ?st ?ready a now] by (simp add: process_reconnections_def Let_def)
qed

lemma dial_fields:
  "co_inv cfg env st \<Longrightarrow> co_inv cfg env (snd (dial_allowed cfg env b st))"
  "tracked (snd (dial_allowed cfg env b st)) a = tracked st a" "own_address (snd (dial_allowed cfg env b st)) a = own_address st a"
  by (simp_all add: dial_allowed_def case_prod_unfold Let_def)

lemma request_peers_holders: "same_holders st (request_peers i a n st)"
  using send_holders by (simp add: request_peers_def case_prod_unfold Let_def)

lemma command_kept:
  assumes ord: "orders_ok env" and inv: "co_inv cfg env st" and kept: "tracked st a" "own_address st a" and "c \<noteq> AddDiscoveredPeer a"
  shows "tracked (snd (handle_network_command c cfg env now st)) a \<and> own_address (snd (handle_network_command c cfg env now st)) a"
proof -
  have same: "same_holders st (snd (handle_network_command c cfg env now st)) \<Longrightarrow> ?thesis"
    using kept same_holders_tracked same_holders_own by blast
  show ?thesis
  proof (cases c)
    case (AddPeer b)
    then show ?thesis using inv kept add_kept [of cfg env "snd (dial_allowed cfg env b st)" a b]
      by (simp add: cmd_add_peer_def add_peer_def case_prod_unfold Let_def dial_fields)
  next
    case (AddDiscoveredPeer b)
    let ?s = "snd (dial_allowed cfg env b st)"
    let ?t = "?s\<lparr>co_speculative := insert b (co_speculative ?s)\<rparr>"
    have t: "tracked ?t a" "own_address ?t a" "co_inv cfg env ?t" using kept inv assms(5) AddDiscoveredPeer
      by (auto simp: tracked_def own_address_def dial_allowed_def case_prod_unfold Let_def)
    then show ?thesis using add_kept [OF t(3,2)] AddDiscoveredPeer kept
      by (simp add: cmd_add_discovered_peer_def add_peer_def case_prod_unfold Let_def dial_fields)
  next
    case (FetchBlock p)
    then show ?thesis using send_holders by (intro same) (auto simp: cmd_fetch_block_def case_prod_unfold Let_def split: option.splits)
  next
    case (FetchBlockRange p q peer)
    then show ?thesis using send_holders by (intro same) (auto simp: cmd_fetch_block_range_def case_prod_unfold Let_def split: option.splits)
  next
    case DiscoverPeers
    then show ?thesis using request_peers_holders by (intro same) (auto simp: cmd_discover_peers_def split: option.splits)
  next
    case (DiscoverPeersFrom i n)
    then show ?thesis using request_peers_holders by (intro same) (auto simp: cmd_discover_peers_from_def split: option.splits)
  next
    case (ReIntersect i)
    have "same_holders st (snd (reintersect_allowed now i st))" by (auto simp: reintersect_allowed_def Let_def split: option.splits)
    then show ?thesis using ReIntersect send_holders
      by (intro same) (auto simp: cmd_reintersect_def case_prod_unfold Let_def intro: same_holders_trans [OF _ send_holders])
  next
    case (SetPeerBlocklist addresses)
    have "same_holders st (disconnect_all ids (st\<lparr>co_blocklist := b\<rparr>))" for ids b
      by (rule same_holders_trans [OF _ disconnect_all_holders]) simp
    then show ?thesis using SetPeerBlocklist by (intro same) (simp add: cmd_set_peer_blocklist_def Let_def)
  qed (intro same; simp add: send_holders disconnect_all_holders cmd_drop_inbound_peers_def)+
qed

lemma inbound_kept:
  assumes inv: "co_inv cfg env st" and kept: "tracked st a" "own_address st a"
  shows "tracked (on_inbound cfg env st) a \<and> own_address (on_inbound cfg env st) a"
proof (cases "co_inbound st")
  case (Cons x rest)
  obtain ip b where x: "x = (ip, b)" by fastforce
  let ?s = "snd (reap_finished_peers env (st\<lparr>co_inbound := rest\<rparr>))"
  have s: "tracked ?s a" "own_address ?s a" "b \<noteq> a" using kept Cons x by (auto simp: tracked_def own_address_def)
  have n: "co_next_peer_id ?s = co_next_peer_id st" "co_peers ?s = co_peers st" using reap_snd [of env "st\<lparr>co_inbound := rest\<rparr>"] by auto
  have "oget (oput (co_next_peer_id st) p' (co_peers st)) i = Some p" if "oget (co_peers st) i = Some p" for i p p'
    using that inv_fresh [OF inv] by (auto simp: oget_oput)
  then have "tracked (add_accepted_peer cfg ip b ?s) a"
    using s(1) n unfolding tracked_def add_accepted_peer_def insert_peer_def sync_fragment_size_def Let_def by (simp add: n) blast
  moreover have "own_address (add_accepted_peer cfg ip b ?s) a"
    using s(2,3) by (auto simp: own_address_def add_accepted_peer_def insert_peer_def sync_fragment_size_def Let_def n oget_oput new_peer_def)
  moreover have "tracked (decrement_ip_count ip ?s) a" "own_address (decrement_ip_count ip ?s) a"
    using s by (simp_all add: decrement_released tracked_def own_address_def)
  ultimately show ?thesis using Cons x by (simp add: on_inbound_def case_prod_unfold Let_def)
qed (simp add: on_inbound_def kept)

text \<open>Runs of the coordinator: turns of its loop and steps outside of it.\<close>

datatype co_action = Turn nat loop_input | Elsewhere outside_step

fun co_run :: "coordinator_config \<Rightarrow> coordinator_env \<Rightarrow> co_action list \<Rightarrow> coordinator \<Rightarrow> coordinator" where
  "co_run cfg env [] st = st"
| "co_run cfg env (Turn now inp # acts) st =
     (case loop_turn cfg env now inp st of (go_on, st') \<Rightarrow> if go_on then co_run cfg env acts st' else st')"
| "co_run cfg env (Elsewhere s # acts) st = co_run cfg env acts (outside cfg env s st)"

text \<open>The steps that make an address not only the node's own: it is offered by discovery, or a connection comes from it.\<close>

fun shares_address :: "string \<Rightarrow> co_action \<Rightarrow> bool" where
  "shares_address a (Turn now (OnCommand (AddDiscoveredPeer b))) = (b = a)"
| "shares_address a (Elsewhere (HandshakeDone ip b)) = (b = a)"
| "shares_address a _ = False"

lemma turn_kept:
  assumes ord: "orders_ok env" and inv: "co_inv cfg env st" and kept: "tracked st a" "own_address st a" and "\<not> shares_address a (Turn now inp)"
  shows "tracked (snd (loop_turn cfg env now inp st)) a \<and> own_address (snd (loop_turn cfg env now inp st)) a"
proof (cases inp)
  case (OnPeerEvent i e)
  then show ?thesis using kept flush_kept [OF ord] event_kept [OF ord kept] by (simp add: on_peer_event_def Let_def)
next
  case (OnCommand c)
  then have "c \<noteq> AddDiscoveredPeer a" using assms(5) by auto
  then show ?thesis using OnCommand command_kept [OF ord inv kept, of c now] flush_kept [OF ord] by (simp add: case_prod_unfold)
next
  case OnInbound
  then show ?thesis using inbound_kept [OF inv kept] flush_kept [OF ord] by simp
next
  case OnReconnectTimer
  then show ?thesis using process_reconnections_kept [OF ord inv kept] flush_kept [OF ord] by simp
next
  case OnDelayTimer
  then show ?thesis using kept events_kept [OF ord] flush_kept [OF ord] by (simp add: deliver_delayed_def case_prod_unfold)
qed

lemma outside_kept:
  assumes kept: "tracked st a" "own_address st a" and "\<not> shares_address a (Elsewhere s)"
  shows "tracked (outside cfg env s st) a \<and> own_address (outside cfg env s st) a"
proof -
  have u: "same_holders st (update_peer i f st)" if "\<And>p. pe_address (f p) = pe_address p \<and> pe_ip_guard (f p) = pe_ip_guard p" for i f
    using that by (auto simp: update_peer_def same_holders_def oget_oupdate option.map_comp comp_def)
  have same: "same_holders st st' \<Longrightarrow> tracked st' a \<and> own_address st' a" for st' using kept same_holders_tracked same_holders_own by blast
  show ?thesis
  proof (cases s)
    case (HandshakeDone ip b)
    then show ?thesis using kept assms(3) by (auto simp: handshake_done_def tracked_def own_address_def)
  next
    case (HandshakeFails ip)
    then show ?thesis using kept by (auto simp: handshake_fails_def decrement_released tracked_def own_address_def)
  next
    case (Accept ip)
    then show ?thesis using kept by (auto simp: accept_connection_def reserve_ip_def tracked_def own_address_def)
  qed (simp_all add: u same)
qed

lemma run_kept:
  "orders_ok env \<Longrightarrow> co_inv cfg env st \<Longrightarrow> tracked st a \<Longrightarrow> own_address st a \<Longrightarrow> list_all (\<lambda>x. \<not> shares_address a x) acts \<Longrightarrow>
   tracked (co_run cfg env acts st) a"
proof (induction cfg env acts st rule: co_run.induct)
  case (2 cfg env now inp acts st)
  obtain go st' where t: "loop_turn cfg env now inp st = (go, st')" by fastforce
  then show ?case using 2 turn_kept [of env cfg st a now inp] loop_turn_inv [of env cfg st now inp] by (cases go) auto
next
  case (3 cfg env s acts st)
  then show ?case using outside_kept [of st a s cfg env] outside_inv [of cfg env st s] by simp
qed simp

subsection \<open>Examples\<close>

definition sample_config :: coordinator_config where
  "sample_config = \<lparr>cc_max_peers = 2, cc_duplex = True, cc_leios_dedup_window = 10, cc_max_handshaking = 1, cc_max_connections_per_ip = 1, cc_peer_delays = []\<rparr>"

definition sample_env :: coordinator_env where
  "sample_env = \<lparr>ce_codec = \<lparr>cx_header_hash = (\<lambda>_. 0), cx_validate_header = (\<lambda>_. None), cx_blake256 = (\<lambda>_. 0)\<rparr>, ce_body_point = (\<lambda>_. None),
     ce_is_loopback = (\<lambda>_. False), ce_peer_order = (\<lambda>xs. xs), ce_fetch_order = (\<lambda>xs. xs)\<rparr>"

definition sample_start :: coordinator where
  "sample_start = coordinator_new sample_config (chain_store_new 4) None"

lemma sample_orders: "orders_ok sample_env"
  by (simp add: orders_ok_def sample_env_def)

lemmas coordinator_sample_defs = sample_config_def sample_env_def sample_start_def coordinator_new_def NETWORK_EVENTS_CAPACITY_def MIN_EMIT_HEADROOM_def
  BASE_RECONNECT_BACKOFF_def MAX_RECONNECT_BACKOFF_def STABLE_CONNECTION_DWELL_def

lemmas coordinator_step_defs = cmd_add_peer_def cmd_add_discovered_peer_def dial_allowed_def has_live_peer_for_address_def reap_finished_peers_def add_peer_def
  add_peer_with_backoff_def insert_peer_def new_peer_def inbound_delay_of_def sync_fragment_size_def flush_removals_def on_peer_event_def remove_peer_def
  note_peershare_reset_def reschedule_def orphan_fetches_def have_headroom_def process_reconnections_def reconnect_one_def emit_event_def ovalues_def

text \<open>A configured peer whose dial fails, then the same address from discovery, whose dial fails too.\<close>

definition discovered_again :: "co_action list" where
  "discovered_again =
     [Turn 0 (OnCommand (AddPeer ''relay:3001'')), Turn 1 (OnPeerEvent 0 (PE_Failed ''connection refused'')),
      Turn 2 (OnCommand (AddDiscoveredPeer ''relay:3001'')), Turn (secs 2) OnReconnectTimer, Turn (secs 3) (OnPeerEvent 1 (PE_Failed ''connection refused''))]"

lemma odel_oput_oempty [simp]: "odel k (oput k v oempty) = oempty"
  by (rule omap_eqI) (simp add: oget_odel oget_oput)

lemma odel_oempty [simp]: "odel k oempty = oempty"
  by (rule omap_eqI) (simp add: oget_odel)

definition dialled :: "nat \<Rightarrow> (string \<times> nat \<times> nat) list \<Rightarrow> string set \<Rightarrow> (nat \<times> nat option) list \<Rightarrow> coordinator" where
  "dialled i queue speculative calls =
     sample_start\<lparr>co_next_peer_id := i + 1, co_peers := oput i (new_peer sample_config ''relay:3001'' Duplex None BASE_RECONNECT_BACKOFF) oempty,
       co_fragment_sizes := oput i 0 oempty, co_reconnect_queue := queue, co_speculative := speculative, co_rtt_calls := calls\<rparr>"

definition idle :: "nat \<Rightarrow> (string \<times> nat \<times> nat) list \<Rightarrow> (nat \<times> nat option) list \<Rightarrow> coordinator" where
  "idle i queue calls = sample_start\<lparr>co_next_peer_id := i, co_reconnect_queue := queue, co_rtt_calls := calls\<rparr>"

lemma dial_step:
  "loop_turn sample_config sample_env now (OnCommand (AddPeer ''relay:3001'')) (idle i queue calls) = (True, dialled i queue {} calls)"
  "loop_turn sample_config sample_env now (OnCommand (AddDiscoveredPeer ''relay:3001'')) (idle i queue calls) = (True, dialled i queue {''relay:3001''} calls)"
  by (simp_all add: idle_def dialled_def coordinator_sample_defs coordinator_step_defs)

lemma fail_step:
  "loop_turn sample_config sample_env now (OnPeerEvent i (PE_Failed r)) (dialled i queue {} calls) =
     (True, idle (i + 1) (queue @ [(''relay:3001'', now + secs 1, secs 2)]) (calls @ [(i, None)]))"
  "loop_turn sample_config sample_env now (OnPeerEvent i (PE_Failed r)) (dialled i queue {''relay:3001''} calls) =
     (True, idle (i + 1) queue (calls @ [(i, None)]))"
  by (simp_all add: idle_def dialled_def coordinator_sample_defs coordinator_step_defs oget_oput)

lemma timer_step:
  "when \<le> now \<Longrightarrow> loop_turn sample_config sample_env now OnReconnectTimer (dialled i [(''relay:3001'', when, b)] {''relay:3001''} calls) =
     (True, dialled i [] {''relay:3001''} calls)"
  by (simp add: dialled_def coordinator_sample_defs coordinator_step_defs oget_oput)

lemma run_forgets:
  "co_run sample_config sample_env (take 1 discovered_again) sample_start = dialled 0 [] {} []"
  "co_run sample_config sample_env (take 2 discovered_again) sample_start = idle 1 [(''relay:3001'', 1 + secs 1, secs 2)] [(0, None)]"
  "co_run sample_config sample_env discovered_again sample_start = idle 2 [] [(0, None), (1, None)]"
proof -
  have start: "sample_start = idle 0 [] []" by (simp add: idle_def sample_start_def coordinator_new_def)
  show "co_run sample_config sample_env (take 1 discovered_again) sample_start = dialled 0 [] {} []"
    unfolding start by (simp add: discovered_again_def dial_step del: loop_turn.simps)
  show "co_run sample_config sample_env (take 2 discovered_again) sample_start = idle 1 [(''relay:3001'', 1 + secs 1, secs 2)] [(0, None)]"
    unfolding start using fail_step(1) [of 1 0 "''connection refused''" "[]" "[]"]
    by (simp add: discovered_again_def dial_step numeral_2_eq_2 del: loop_turn.simps)
  have timer: "loop_turn sample_config sample_env (secs 2) OnReconnectTimer (dialled 1 [(''relay:3001'', 1 + secs 1, secs 2)] {''relay:3001''} [(0, None)]) =
      (True, dialled 1 [] {''relay:3001''} [(0, None)])" by (rule timer_step) simp
  show "co_run sample_config sample_env discovered_again sample_start = idle 2 [] [(0, None), (1, None)]"
    unfolding start using fail_step(1) [of 1 0 "''connection refused''" "[]" "[]"] fail_step(2) [of "secs 3" 1 "''connection refused''" "[]" "[(0, None)]"] timer
    by (simp add: discovered_again_def dial_step numeral_2_eq_2 del: loop_turn.simps)
qed

lemma sample_reachable: "co_reachable sample_config sample_env (dialled 0 [] {} [])"
proof -
  have "co_reachable sample_config sample_env (snd (loop_turn sample_config sample_env 0 (OnCommand (AddPeer ''relay:3001'')) (idle 0 [] [])))"
    by (rule co_reachable.turn) (simp add: idle_def sample_start_def coordinator_new_def co_reachable.start [of sample_config sample_env "chain_store_new 4" None, unfolded coordinator_new_def])
  then show ?thesis by (simp only: dial_step snd_conv)
qed

subsection \<open>Properties\<close>

text \<open>C38: the coordinator keeps its books. In every state it can reach, whatever peers, application, network and clock do: peer
  numbers are fresh; fragments list each point once and their published sizes are right; every pending block fetch, every unanswered
  request for peers and every downstream flag belongs to a peer that is there; at most \<open>max_peers\<close> peers are live; the count of a host is
  exactly the number of slots held for it, and within \<open>max_connections_per_ip\<close> for every host but the loopback; handshakes, commands and
  events stay within their capacities; and every backoff is between one and thirty seconds.\<close>

theorem coordinator_invariant:
  assumes "orders_ok env" and "co_reachable cfg env st"
  shows "co_inv cfg env st"
  using reachable_inv [OF assms(2,1)] .

theorem coordinator_invariant_witness:
  "co_inv sample_config sample_env (dialled 0 [] {} [])"
  using coordinator_invariant [OF sample_orders sample_reachable] .

text \<open>C39: a configured peer is never given up. Once an outbound peer holds an address, or the address waits for a reconnection, one of the
  two holds ever after, through failures, reconnections, blocklists, full channels, capacity limits and delays, as long
  as discovery does not offer the same address and no inbound connection arrives from it.\<close>

theorem configured_peer_kept:
  assumes "orders_ok env" and "co_reachable cfg env st" and "tracked st a" and "own_address st a"
    and "list_all (\<lambda>x. \<not> shares_address a x) acts"
  shows "tracked (co_run cfg env acts st) a"
  using run_kept [OF assms(1) reachable_inv [OF assms(2,1)] assms(3-5)] .

theorem configured_peer_kept_witness:
  "tracked (co_run sample_config sample_env [Turn 1 (OnPeerEvent 0 (PE_Failed ''connection refused'')), Turn (secs 2) OnReconnectTimer] (dialled 0 [] {} [])) ''relay:3001''"
proof (rule configured_peer_kept [OF sample_orders sample_reachable])
  have "oget (co_peers (dialled 0 [] {} [])) 0 = Some (new_peer sample_config ''relay:3001'' Duplex None BASE_RECONNECT_BACKOFF)"
    by (simp add: dialled_def oget_oput)
  then show "tracked (dialled 0 [] {} []) ''relay:3001''" unfolding tracked_def by (intro disjI1 exI conjI) (auto simp: new_peer_def)
  show "own_address (dialled 0 [] {} []) ''relay:3001''"
    by (simp add: own_address_def dialled_def oget_oput new_peer_def sample_start_def coordinator_new_def)
qed simp


subsection \<open>Where the code falls short of its comments\<close>

text \<open>A reconnection is cancelled by any live peer of the address, an accepted one included, which will not be dialled again.\<close>

lemma inbound_cancels_reconnection:
  assumes "a \<notin> co_blocklist st" and "oget (co_peers st) i = Some p" and "pe_address p = a" and "pe_ip_guard p = Some ip" and "\<not> pe_finished p"
  shows "reconnect_one cfg env now st (a, b) = st"
proof -
  have "p \<in> set (ovalues (co_peers st))" using assms(2) by (auto simp: in_ovalues_iff)
  then have "has_live_peer_for_address st a" using assms(3,5) by (auto simp: has_live_peer_for_address_def list_ex_iff)
  then show ?thesis using assms(1) by (simp add: reconnect_one_def)
qed

text \<open>Delayed events of one peer that fall due together are not handled in their order.\<close>

lemma delayed_events_reordered: "take_due 9 0 [(1, x), (2, y), (3, z)] = ([x, z, y], [])"
  by (simp add: take_due.simps swap_remove_def)

text \<open>After a peer is gone its queued announcements still reach the application, with its number.\<close>

lemma stale_header_forwarded:
  "oget (co_peers st) i = None \<Longrightarrow> length (co_events st) < NETWORK_EVENTS_CAPACITY \<Longrightarrow>
   co_events (handle_peer_event (PE_HeaderAnnounced h t) env now i st) = co_events st @ [TipAdvanced i t h]"
  by (simp add: on_header_announced_def Let_def update_fragment_def emit_event_def)

text \<open>An application that does not take events loses the report of a failed fetch: commands are not gated on the headroom.\<close>

lemma report_lost_when_full:
  "length (co_events st) = NETWORK_EVENTS_CAPACITY \<Longrightarrow> \<not> ohas (co_pending_fetches st) q \<Longrightarrow> best_peer_for env st q = None \<Longrightarrow>
   snd (handle_network_command (FetchBlockRange p q None) cfg env now st) = st"
  by (simp add: cmd_fetch_block_range_def Let_def emit_event_def)

text \<open>One offer with the largest slot ends the pruning for good: nothing seen later is ever forgotten.\<close>

lemma dedup_never_prunes_again:
  assumes "od_max_slot d = - 1"
  shows "update_slot slot d = d"
    and "od_seen_eb (snd (fresh_eb peer slot hash d)) = insert (peer, slot, hash) (od_seen_eb d) \<and> od_max_slot (snd (fresh_eb peer slot hash d)) = - 1"
proof -
  have "\<not> od_max_slot d < slot" using assms by (simp add: word_order.not_eq_extremum)
  then show "update_slot slot d = d" by (simp add: update_slot_def)
  then show "od_seen_eb (snd (fresh_eb peer slot hash d)) = insert (peer, slot, hash) (od_seen_eb d) \<and> od_max_slot (snd (fresh_eb peer slot hash d)) = - 1"
    using assms by (simp add: fresh_eb_def)
qed

end
