(* ===== verification/Spec2Isabelle.thy ===== *)
theory Spec2Isabelle
  imports Chain_Tree Peer_Chain Bitmap Mempool Production Elections
    Node_Protocols Handshake Leios_Protocols Tx_Submission Fetch Praos_Properties Leios_Invariant Mux_Link
    Chain_Server Tx_Server Leios_Server Sim_Cpu Sim_Clock Sim_Link Behaviour_Config Coordinator_Properties
begin

text \<open>
  A verification library for the Leios tools: a Cardano node that runs Praos and Leios consensus over its network protocols
  (\<open>net-rs\<close>, \<open>shared-rs\<close>), and the simulator of such networks (\<open>sim-rs\<close>). All sources are Rust; paths below are
  relative to \<open>src/\<close>.

  \<^bold>\<open>The program and its parts.\<close> A node keeps one connection per peer. A connection is a byte stream cut into segments by the
  multiplexer; on it run mini-protocols, each a state machine with an agency rule. Server tasks answer the peer's
  requests out of a chain store and a store of Leios artefacts. What the network delivers goes to the consensus state machines,
  which are pure: a handler takes the state and an event and returns the new state and a list of effects. Praos keeps
  a tree of headers, one candidate chain per peer and a queue of blocks in validation, and selects a chain; Leios keeps
  the elections of endorser blocks, aggregates votes, fetches blocks and their transactions, and decides when to vote; the
  mempool feeds the production of blocks. A behaviour tree, compiled from a configuration and ticked once per slot, says where a
  node departs from the honest behaviour. The simulator runs many nodes on a virtual clock with simulated links and CPUs.

  \<^bold>\<open>Theories and sources.\<close>

  \<^item> \<open>Prelude\<close>, \<open>Ordered_Map\<close>, \<open>Float64\<close>: the widths of the machine integers, saturating arithmetic and list lemmas;
    \<open>BTreeMap\<close> and \<open>HashMap\<close> as finite maps with ordered iteration; the \<open>f64\<close> operations the sources use, rounding included.
  \<^item> \<open>Consensus_Types\<close>: points, tips, blocks, peers (\<open>shared-rs/consensus/src/types.rs\<close>, \<open>peer.rs\<close>).
  \<^item> \<open>Chain_Tree\<close>, \<open>Peer_Chain\<close>: \<open>chain_tree.rs\<close>, \<open>peer_chain.rs\<close>. The best tip is the longest eligible chain in every reachable
    tree, and the parent walks end there.
  \<^item> \<open>Bitmap\<close>: \<open>bitmap.rs\<close>, the sparse transaction bitmap against sets of indices.
  \<^item> \<open>Mempool\<close>, \<open>Production\<close>: \<open>mempool.rs\<close>, \<open>production.rs\<close>. Byte and index bookkeeping, no replay of applied transactions,
    and which transactions a produced block carries.
  \<^item> \<open>Voting\<close>, \<open>Committee\<close>, \<open>Elections\<close>: \<open>pipeline.rs\<close>, \<open>aggregation.rs\<close>, \<open>committee.rs\<close>, \<open>elections.rs\<close>. A quorum is reported
    once and only with the weight it needs; certificates come only from elections with a quorum after the diffusion phase.
  \<^item> \<open>Fetch\<close>: \<open>fetch.rs\<close>, the fetch policies and the candidate tracker, which refines a set specification.
  \<^item> \<open>Praos\<close>, \<open>Praos_Selection\<close>, \<open>Praos_Invariant\<close>, \<open>Praos_Steps\<close>, \<open>Praos_Properties\<close>: \<open>praos.rs\<close>. The record and the handlers; what
    selection decides; the invariant and the step relation; that every handler returns and keeps the invariant; and the
    promises to the validator, the fetch discipline and equivocation detection.
  \<^item> \<open>Leios\<close>, \<open>Leios_Properties\<close>, \<open>Leios_Invariant\<close>: \<open>leios.rs\<close>. The record and the handlers; when and how often a node votes;
    matching of transaction responses; refinement of the election state machine.
  \<^item> \<open>Mini_Protocol\<close>, \<open>Node_Protocols\<close>, \<open>Handshake\<close>, \<open>Leios_Protocols\<close>, \<open>Tx_Submission\<close>: \<open>net-rs/net-core/src/protocols\<close>. The runner
    and the eight protocols; the locale of a protocol session is interpreted for each of them, and a
    session never deadlocks or breaks agency. The clients of the protocols with pipelining and flow control.
  \<^item> \<open>Mux_Wire\<close>, \<open>Mux\<close>, \<open>Mux_Scheduler\<close>, \<open>Mux_Link\<close>: \<open>net-rs/net-core/src/mux\<close>. Wire format, egress and ingress, the schedulers
    behind one interface, and a connection end to end.
  \<^item> \<open>Chain_Store\<close>, \<open>Chain_Server\<close>, \<open>Tx_Server\<close>, \<open>Leios_Store\<close>, \<open>Leios_Server\<close>: \<open>net-rs/net-core/src/store\<close> and
    \<open>peer/server_handlers.rs\<close>, \<open>peer/leios_notify_state.rs\<close>. The stores with their eviction, and the responders over them.
  \<^item> \<open>Coordinator\<close>, \<open>Coordinator_Invariant\<close>, \<open>Coordinator_Properties\<close>: \<open>net-rs/net-core/src/multi_peer\<close>. The task that owns all peers
    of a node: every peer event, command and timer; the invariant and that every operation keeps it; and that a configured
    peer is never given up unless discovery or an inbound connection shares its address, with the run that shows why.
  \<^item> \<open>Condition_Language\<close>, \<open>Behaviour_Tree\<close>, \<open>Behaviour_Actions\<close>, \<open>Behaviour_Config\<close>: \<open>shared-rs/consensus/src/behaviour\<close>. The
    parser, type check and evaluation of conditions; tick and halt; the catalogue of actions and the control signal; and
    configurations, where validation decides exactly what compiles.
  \<^item> \<open>Sim_Clock\<close>, \<open>Sim_Cpu\<close>, \<open>Sim_Link\<close>: \<open>sim-rs/sim-core/src/clock\<close>, \<open>sim/cpu.rs\<close>, \<open>network/connection.rs\<close>. The virtual
    clock with its conservative synchronisation of shards, the CPU, and a link with bandwidth shared among queues.

  This theory imports them all and states the property that spans the protocols.

  \<^bold>\<open>How the code is read.\<close> A struct is a record and an enum a datatype with the source's constructors, up to prefixes;
  a method is a function on the record that returns the new record and what the method returns; an event handler returns
  its effects in order. Panics, errors and early returns are values of sum or option types. Integers keep their width where the code can
  wrap or saturate, and are \<open>nat\<close> or \<open>int\<close> where a bound is shown or a 64-bit count cannot be reached. An asynchronous task is a
  function over the list of what it receives, or a step relation where the interleaving matters. Interfaces between components are
  locales (protocol sessions, schedulers, stores, leaf actions), interpreted on the models of the code.

  \<^bold>\<open>Loops and fuel.\<close> Recursion that is not structural has a termination proof. The parent walks of the chain tree and the
  bandwidth rounds of a link are partial functions whose result \<open>None\<close> is not returning; they are shown to return on every
  reachable state (and, for a message of size zero, shown not to return). The condition parser takes the length of its input
  and one as fuel, which is shown to be enough for every input.

  \<^bold>\<open>Parameters.\<close> What is not part of the repository is an argument: hash functions (Blake2b, the standard hasher), signature and
  VRF checks, the seeded random generator, the order of a hash map's iteration where the code depends on it, the codec of
  headers and transactions, TOML and CBOR libraries, and the physics of a link. Where a property needs something of them it is a
  hypothesis of its statement.

  \<^bold>\<open>Not modelled.\<close> Logging, telemetry, printing and metrics; sockets, tasks and timers as such (their effects are the events of the
  models); the ledger-free cryptography wrappers (\<open>bls\<close>, \<open>kes\<close>, \<open>vrf\<close>), whose content is calls of foreign libraries;
  the slot lottery and the TCP throughput curves, which are transcendental functions of floats; the command-line programs; the node
  engines of the simulator, which re-implement or drive the consensus modelled here against its event log; the simulator's
  configuration, statistics and topology generators. Each is listed with its reason in the manifest.
\<close>

text \<open>C7: Sessions of the mini-protocols. For each of the eight protocols, in every state two runners
  connected by reliable ordered channels can reach: at most one direction carries messages; with
  nothing in flight both sides are in the same state; the next message in flight is accepted by
  its receiver (no agency or transition error) if it respects the size limit and the timeout; and
  either a step is possible or both sides are done.\<close>

theorem all_protocol_sessions:
  "(session_reachable handshake s0 \<longrightarrow> session_safe handshake s0) \<and>
   (session_reachable chain_sync s1 \<longrightarrow> session_safe chain_sync s1) \<and>
   (session_reachable block_fetch s2 \<longrightarrow> session_safe block_fetch s2) \<and>
   (session_reachable tx_submission s3 \<longrightarrow> session_safe tx_submission s3) \<and>
   (session_reachable keep_alive_protocol s4 \<longrightarrow> session_safe keep_alive_protocol s4) \<and>
   (session_reachable peer_sharing s5 \<longrightarrow> session_safe peer_sharing s5) \<and>
   (session_reachable leios_notify s6 \<longrightarrow> session_safe leios_notify s6) \<and>
   (session_reachable leios_fetch s7 \<longrightarrow> session_safe leios_fetch s7)"
  using hs.reachable_session_safe cs.reachable_session_safe bf.reachable_session_safe ts.reachable_session_safe
    ka.reachable_session_safe ps.reachable_session_safe ln.reachable_session_safe lf.reachable_session_safe
  by blast

theorem all_protocol_sessions_witness:
  "session_safe handshake (session_start handshake) \<and> session_safe chain_sync (session_start chain_sync) \<and>
   session_safe block_fetch (session_start block_fetch) \<and> session_safe tx_submission (session_start tx_submission) \<and>
   session_safe keep_alive_protocol (session_start keep_alive_protocol) \<and> session_safe peer_sharing (session_start peer_sharing) \<and>
   session_safe leios_notify (session_start leios_notify) \<and> session_safe leios_fetch (session_start leios_fetch)"
  using all_protocol_sessions [of "session_start handshake" "session_start chain_sync" "session_start block_fetch"
      "session_start tx_submission" "session_start keep_alive_protocol" "session_start peer_sharing"
      "session_start leios_notify" "session_start leios_fetch"]
  by (simp only: session_reachable.start simp_thms)

end
